(* ===== verification/Prelude.thy ===== *)
theory Prelude
  imports Main "HOL-Library.Word" "HOL-Library.Multiset"
begin

text \<open>
  Shared vocabulary of the development: the fact collections the component proofs use, machine
  integer ranges, the swap of two array cells (\<open>std::swap\<close> on vector elements), and generic
  lemmas on lists and maps.
\<close>

section \<open>Fact collections\<close>

named_theorems frame_simps \<open>fields an operation leaves alone\<close>
named_theorems inv_intros \<open>preservation of component invariants\<close>
named_theorems refine_simps \<open>abstraction of an operation's result\<close>

section \<open>Machine integers\<close>

type_synonym uint64 = "64 word"
type_synonym byte = char

definition INT64_MAX :: int where "INT64_MAX = 9223372036854775807"
definition INT64_MIN :: int where "INT64_MIN = - 9223372036854775808"

abbreviation int64_range :: "int \<Rightarrow> bool" where
  "int64_range n \<equiv> INT64_MIN \<le> n \<and> n \<le> INT64_MAX"

lemmas int64_bounds = INT64_MAX_def INT64_MIN_def

section \<open>Exceptions\<close>

text \<open>
  The exceptions the modelled code throws, by class and message, the failed \<open>CHECK\<close> of glog,
  which aborts the process, and the access outside an array, which C++ leaves undefined.  A fallible operation returns \<open>exn + 'a\<close>: \<open>Inl\<close> the exception.
\<close>

datatype exn =
    EOFException
  | RedisError string
  | RpcCallError string
  | MatrixException string
  | RuntimeError string
  | SystemError string
  | StdException
  | InvalidArgument
  | OutOfRange
  | LengthError
  | BadTypeid
  | TimeoutException string
  | FiberCanceledException
  | CheckFailed
  | OutOfBounds

type_synonym 'a result = "exn + 'a"

text \<open>One call after another: the first exception ends the sequence.\<close>

fun andThen :: "'a result \<Rightarrow> ('a \<Rightarrow> 'b result) \<Rightarrow> 'b result" where
  "andThen (Inl e) f = Inl e"
| "andThen (Inr x) f = f x"

section \<open>Array cells\<close>

definition list_swap :: "'a list \<Rightarrow> nat \<Rightarrow> nat \<Rightarrow> 'a list" where
  "list_swap xs i j = xs[i := xs ! j, j := xs ! i]"

lemma length_list_swap [simp]: "length (list_swap xs i j) = length xs"
  by (simp add: list_swap_def)

lemma nth_list_swap:
  "i < length xs \<Longrightarrow> j < length xs \<Longrightarrow> k < length xs \<Longrightarrow>
   list_swap xs i j ! k = (if k = j then xs ! i else if k = i then xs ! j else xs ! k)"
  by (auto simp: list_swap_def nth_list_update)

lemma mset_list_swap [simp]:
  "i < length xs \<Longrightarrow> j < length xs \<Longrightarrow> mset (list_swap xs i j) = mset xs"
  by (simp add: list_swap_def mset_swap)

lemma set_list_swap [simp]:
  "i < length xs \<Longrightarrow> j < length xs \<Longrightarrow> set (list_swap xs i j) = set xs"
  by (metis mset_list_swap set_mset_mset)

section \<open>Lists\<close>

lemma nth_butlast_append: "i < length xs - 1 \<Longrightarrow> butlast xs ! i = xs ! i"
  by (simp add: nth_butlast)

lemma set_conv_nth_ex: "x \<in> set xs \<longleftrightarrow> (\<exists>i<length xs. xs ! i = x)"
  by (auto simp: in_set_conv_nth)

section \<open>Transition systems\<close>

text \<open>A step relation with a predicate its steps keep: the predicate holds wherever steps lead.\<close>

locale step_system =
  fixes step :: "'s \<Rightarrow> 's \<Rightarrow> bool" and invariant :: "'s \<Rightarrow> bool"
  assumes step_keeps: "step s s' \<Longrightarrow> invariant s \<Longrightarrow> invariant s'"
begin

lemma reachable_keeps: "step\<^sup>*\<^sup>* s s' \<Longrightarrow> invariant s \<Longrightarrow> invariant s'"
  by (induction rule: rtranclp_induct) (auto intro: step_keeps)

lemma reachable_step: "step\<^sup>*\<^sup>* s s' \<Longrightarrow> invariant s \<Longrightarrow> step s' s'' \<Longrightarrow> invariant s' \<and> invariant s''"
  using reachable_keeps step_keeps by blast

end

end
