(* ===== verification/Cpp_Numbers.thy ===== *)
theory Cpp_Numbers
  imports Prelude
begin

text \<open>
  The pieces of the C++ standard library the sources use to convert between integers and text:
  \<open>std::to_string\<close> and \<open>std::stoll\<close> (base 10), and the conversions between signed and unsigned
  64-bit integers.  The round trip \<open>stoll \<circ> to_string\<close> is proved here once for all users.
\<close>

section \<open>64-bit conversions\<close>

definition to_u64 :: "int \<Rightarrow> int" where
  "to_u64 n = n mod 18446744073709551616"

definition to_s64 :: "int \<Rightarrow> int" where
  "to_s64 n = (n + 9223372036854775808) mod 18446744073709551616 - 9223372036854775808"

lemma to_s64_id: "int64_range n \<Longrightarrow> to_s64 n = n"
  by (simp add: to_s64_def int64_bounds)

lemma to_s64_range [simp]: "int64_range (to_s64 n)"
proof -
  have "0 \<le> (n + 9223372036854775808) mod 18446744073709551616"
    "(n + 9223372036854775808) mod 18446744073709551616 < 18446744073709551616"
    by simp_all
  then show ?thesis by (auto simp: to_s64_def int64_bounds)
qed

lemma to_s64_to_u64: "to_s64 (to_u64 n) = to_s64 n"
  by (simp add: to_s64_def to_u64_def mod_simps)

section \<open>Decimal digits\<close>

definition digit_char :: "nat \<Rightarrow> char" where
  "digit_char d = char_of (48 + d)"

definition digit_val :: "char \<Rightarrow> nat" where
  "digit_val c = of_char c - 48"

definition isdigit :: "char \<Rightarrow> bool" where
  "isdigit c \<longleftrightarrow> 48 \<le> (of_char c :: nat) \<and> (of_char c :: nat) \<le> 57"

definition isspace :: "char \<Rightarrow> bool" where
  "isspace c \<longleftrightarrow> of_char c \<in> {9, 10, 11, 12, 13, 32 :: nat}"

fun nat_digits :: "nat \<Rightarrow> string" where
  "nat_digits n =
     (if n < 10 then [digit_char n] else nat_digits (n div 10) @ [digit_char (n mod 10)])"

declare nat_digits.simps [simp del]

definition digits_val :: "string \<Rightarrow> nat" where
  "digits_val ds = foldl (\<lambda>n c. n * 10 + digit_val c) 0 ds"

definition to_string :: "int \<Rightarrow> string" where
  "to_string n = (if n < 0 then CHR ''-'' # nat_digits (nat (- n)) else nat_digits (nat n))"

text \<open>
  \<open>std::stoll(str, &pos)\<close>: optional white space, an optional sign, then at least one digit; the
  value must fit 64 bits.  The result is the value and the number of characters used.
\<close>

definition stoll_sign :: "string \<Rightarrow> int \<times> string" where
  "stoll_sign s =
     (case s of
        [] \<Rightarrow> (1, [])
      | c # t \<Rightarrow> if c = CHR ''-'' then (- 1, t) else if c = CHR ''+'' then (1, t) else (1, s))"

definition stoll :: "string \<Rightarrow> (int \<times> nat) result" where
  "stoll str =
     (let (sign, rest) = stoll_sign (dropWhile isspace str);
          ds = takeWhile isdigit rest;
          v = sign * int (digits_val ds)
      in if ds = [] then Inl InvalidArgument
         else if int64_range v then Inr (v, length str - length rest + length ds)
         else Inl OutOfRange)"

section \<open>Round trip\<close>

lemma digit_char_props:
  assumes "d < 10"
  shows "isdigit (digit_char d)" "digit_val (digit_char d) = d" "\<not> isspace (digit_char d)"
    "digit_char d \<noteq> CHR ''-''" "digit_char d \<noteq> CHR ''+''"
proof -
  have v: "(of_char (digit_char d) :: nat) = 48 + d"
    using assms by (simp add: digit_char_def)
  then show "isdigit (digit_char d)" "digit_val (digit_char d) = d" "\<not> isspace (digit_char d)"
    using assms by (auto simp: isdigit_def digit_val_def isspace_def)
  show "digit_char d \<noteq> CHR ''-''" "digit_char d \<noteq> CHR ''+''"
    using v by auto
qed

lemma nat_digits_nonempty [simp]: "nat_digits n \<noteq> []"
  by (subst nat_digits.simps) simp

lemma nat_digits_isdigit: "c \<in> set (nat_digits n) \<Longrightarrow> isdigit c"
proof (induction n rule: nat_digits.induct)
  case (1 n)
  then show ?case
    by (cases "n < 10") (auto simp: nat_digits.simps [of n] digit_char_props)
qed

lemma digits_val_snoc: "digits_val (ds @ [c]) = digits_val ds * 10 + digit_val c"
  by (simp add: digits_val_def)

lemma digits_val_nat_digits [simp]: "digits_val (nat_digits n) = n"
proof (induction n rule: nat_digits.induct)
  case (1 n)
  show ?case
  proof (cases "n < 10")
    case True
    then show ?thesis by (simp add: nat_digits.simps [of n] digits_val_def digit_char_props)
  next
    case False
    then show ?thesis
      using 1 by (simp add: nat_digits.simps [of n] digits_val_snoc digit_char_props)
  qed
qed

lemma takeWhile_digits: "takeWhile isdigit (nat_digits n) = nat_digits n"
  by (simp add: takeWhile_eq_all_conv nat_digits_isdigit)

lemma nat_digits_hd:
  obtains c cs where "nat_digits n = c # cs" "isdigit c" "\<not> isspace c" "c \<noteq> CHR ''-''" "c \<noteq> CHR ''+''"
proof -
  obtain c cs where n: "nat_digits n = c # cs" by (cases "nat_digits n") auto
  then have "isdigit c" using nat_digits_isdigit [of c n] by simp
  then have "48 \<le> (of_char c :: nat)" "(of_char c :: nat) \<le> 57" by (auto simp: isdigit_def)
  then have "\<not> isspace c" "c \<noteq> CHR ''-''" "c \<noteq> CHR ''+''" by (auto simp: isspace_def)
  with n \<open>isdigit c\<close> show thesis by (rule that)
qed

lemma stoll_to_string: "int64_range n \<Longrightarrow> stoll (to_string n) = Inr (n, length (to_string n))"
proof (cases "n < 0")
  case True
  assume r: "int64_range n"
  have "dropWhile isspace (to_string n) = to_string n"
    using True by (simp add: to_string_def isspace_def)
  then show ?thesis
    using True r
    by (simp add: stoll_def Let_def stoll_sign_def to_string_def takeWhile_digits)
next
  case False
  assume r: "int64_range n"
  obtain c cs where c: "nat_digits (nat n) = c # cs" "\<not> isspace c" "c \<noteq> CHR ''-''" "c \<noteq> CHR ''+''"
    using nat_digits_hd [of "nat n"] by metis
  have ds: "takeWhile isdigit (c # cs) = c # cs" "digits_val (c # cs) = nat n"
    using takeWhile_digits [of "nat n"] digits_val_nat_digits [of "nat n"] by (simp_all only: c(1))
  have s: "to_string n = c # cs" using False c by (simp add: to_string_def)
  have "stoll_sign (dropWhile isspace (c # cs)) = (1, c # cs)"
    using c by (simp add: stoll_sign_def)
  then show ?thesis
    using False r by (simp only: s stoll_def Let_def case_prod_conv ds) simp
qed

lemma to_string_chars: "c \<in> set (to_string n) \<Longrightarrow> isdigit c \<or> c = CHR ''-''"
  using nat_digits_isdigit by (auto simp: to_string_def split: if_splits)

lemma to_string_no_space: "c \<in> set (to_string n) \<Longrightarrow> \<not> isspace c"
  using to_string_chars [of c n] by (auto simp: isdigit_def isspace_def)

lemma to_string_nonempty [simp]: "to_string n \<noteq> []"
  by (simp add: to_string_def)

text \<open>A 64-bit number has at most nineteen digits, so its text has at most twenty characters.\<close>

lemma length_nat_digits: "0 < k \<Longrightarrow> n < 10 ^ k \<Longrightarrow> length (nat_digits n) \<le> k"
proof (induction k arbitrary: n)
  case (Suc k)
  show ?case
  proof (cases "n < 10")
    case True
    then show ?thesis by (simp add: nat_digits.simps [of n])
  next
    case False
    then have "0 < k" using Suc.prems by (cases k) auto
    moreover have "n div 10 < 10 ^ k" using Suc.prems by (simp add: less_mult_imp_div_less mult.commute)
    ultimately show ?thesis using Suc.IH [of "n div 10"] False by (simp add: nat_digits.simps [of n])
  qed
qed simp

lemma length_to_string: "int64_range n \<Longrightarrow> length (to_string n) \<le> 20"
proof -
  assume "int64_range n"
  then have "nat n < 10 ^ 19" "nat (- n) < 10 ^ 19" by (auto simp: int64_bounds)
  then show ?thesis
    using length_nat_digits [of 19 "nat n"] length_nat_digits [of 19 "nat (- n)"]
    by (auto simp: to_string_def)
qed

end
