(* ===== verification/Redis_Storage.thy ===== *)
theory Redis_Storage
  imports Cpp_Numbers
begin

text \<open>
  The key-value store of the redis server: the interface \<open>IStorage\<close> (\<open>redis/redis-server/storage.h\<close>)
  and its implementation \<open>SimpleStorage\<close> (\<open>simple_storage.cpp\<close>), which keeps integers as \<open>int64_t\<close>
  and everything else as strings.  The abstract store is a map from strings to strings; the locale
  \<open>storage\<close> states what a client may rely on and \<open>SimpleStorage\<close> is shown to provide it.
\<close>

section \<open>storage.h\<close>

text \<open>
  \<open>Change\<close> may throw; the store it leaves behind is part of the result also then.
\<close>

record 't IStorage =
  st_Get :: "'t \<Rightarrow> string \<Rightarrow> string option"
  st_Set :: "'t \<Rightarrow> string \<Rightarrow> string \<Rightarrow> 't"
  st_Change :: "'t \<Rightarrow> string \<Rightarrow> int \<Rightarrow> int result \<times> 't"

section \<open>simple_storage.cpp\<close>

datatype variant = IntVal int | StrVal string

type_synonym simple_storage = "string \<rightharpoonup> variant"

definition SimpleStorage_Get :: "simple_storage \<Rightarrow> string \<Rightarrow> string option" where
  "SimpleStorage_Get kv key =
     (case kv key of
        Some (IntVal n) \<Rightarrow> Some (to_string n)
      | Some (StrVal s) \<Rightarrow> Some s
      | None \<Rightarrow> None)"

definition SimpleStorage_Set :: "simple_storage \<Rightarrow> string \<Rightarrow> string \<Rightarrow> simple_storage" where
  "SimpleStorage_Set kv key value =
     (case stoll value of
        Inr (n, pos) \<Rightarrow>
          if pos \<noteq> length value then kv(key \<mapsto> StrVal value) else kv(key \<mapsto> IntVal n)
      | Inl _ \<Rightarrow> kv(key \<mapsto> StrVal value))"

definition check_limits :: "int \<Rightarrow> int \<Rightarrow> unit result" where
  "check_limits num delta =
     (if delta \<ge> 0 then (if num > INT64_MAX - delta then Inl OutOfRange else Inr ())
      else (if num < INT64_MIN - delta then Inl OutOfRange else Inr ()))"

definition SimpleStorage_Change :: "simple_storage \<Rightarrow> string \<Rightarrow> int \<Rightarrow> int result \<times> simple_storage" where
  "SimpleStorage_Change kv key delta =
     (case (case kv key of
              Some (StrVal _) \<Rightarrow> Inl BadTypeid
            | Some (IntVal n) \<Rightarrow> Inr (n, kv)
            | None \<Rightarrow> Inr (0, kv(key \<mapsto> IntVal 0))) of
        Inl e \<Rightarrow> (Inl e, kv)
      | Inr (n, kv1) \<Rightarrow>
          (case check_limits n delta of
             Inl e \<Rightarrow> (Inl e, kv1)
           | Inr _ \<Rightarrow> (Inr (n + delta), kv1(key \<mapsto> IntVal (n + delta)))))"

definition SimpleStorage :: "simple_storage IStorage" where
  "SimpleStorage = \<lparr>st_Get = SimpleStorage_Get, st_Set = SimpleStorage_Set, st_Change = SimpleStorage_Change\<rparr>"

section \<open>The abstract store\<close>

definition numeric :: "string \<Rightarrow> int option" where
  "numeric s = (case stoll s of Inr (n, pos) \<Rightarrow> if pos = length s then Some n else None | Inl _ \<Rightarrow> None)"

text \<open>The text that is read back after a \<open>SET\<close>: a number comes back in canonical form.\<close>

definition canon :: "string \<Rightarrow> string" where
  "canon s = (case numeric s of Some n \<Rightarrow> to_string n | None \<Rightarrow> s)"

definition spec_Change :: "(string \<rightharpoonup> string) \<Rightarrow> string \<Rightarrow> int \<Rightarrow> int result \<times> (string \<rightharpoonup> string)" where
  "spec_Change m key delta =
     (case numeric (case m key of Some s \<Rightarrow> s | None \<Rightarrow> ''0'') of
        None \<Rightarrow> (Inl BadTypeid, m)
      | Some n \<Rightarrow>
          if int64_range (n + delta) then (Inr (n + delta), m(key \<mapsto> to_string (n + delta)))
          else (Inl OutOfRange, m))"

lemma numeric_range: "numeric s = Some n \<Longrightarrow> int64_range n"
  by (auto simp: numeric_def stoll_def Let_def split: sum.splits prod.splits if_splits)

lemma numeric_to_string: "int64_range n \<Longrightarrow> numeric (to_string n) = Some n"
  by (simp add: numeric_def stoll_to_string)

lemma numeric_canon [simp]: "numeric (canon s) = numeric s"
  by (auto simp: canon_def numeric_to_string numeric_range split: option.split)

lemma canon_idem [simp]: "canon (canon s) = canon s"
  by (simp add: canon_def [of "canon s"]) (simp add: canon_def split: option.split)

lemma numeric_zero: "numeric ''0'' = Some 0"
proof -
  have "to_string 0 = ''0''" by code_simp
  then show ?thesis using numeric_to_string [of 0] by (simp add: int64_bounds)
qed

section \<open>The contract\<close>

locale storage =
  fixes st :: "'t IStorage"
    and model :: "'t \<Rightarrow> (string \<rightharpoonup> string)"
    and sinv :: "'t \<Rightarrow> bool"
  assumes st_Get: "sinv t \<Longrightarrow> st_Get st t k = model t k"
    and st_Set: "sinv t \<Longrightarrow> sinv (st_Set st t k v) \<and> model (st_Set st t k v) = (model t)(k \<mapsto> canon v)"
    and st_Change: "sinv t \<Longrightarrow> int64_range d \<Longrightarrow> st_Change st t k d = (r, t') \<Longrightarrow>
      sinv t' \<and> spec_Change (model t) k d = (r, model t')"
begin

lemma Get_after_Set: "sinv t \<Longrightarrow> st_Get st (st_Set st t k v) k = Some (canon v)"
  using st_Set [of t k v] by (simp add: st_Get)

lemma Get_other: "sinv t \<Longrightarrow> k' \<noteq> k \<Longrightarrow> st_Get st (st_Set st t k v) k' = st_Get st t k'"
  using st_Set [of t k v] by (simp add: st_Get)

text \<open>Whatever is stored reads back in canonical form, and a failed \<open>Change\<close> changes nothing.\<close>

lemma Change_ok:
  assumes "sinv t" "int64_range d" "st_Change st t k d = (Inr n, t')"
  shows "st_Get st t' k = Some (to_string n) \<and> int64_range n"
proof -
  have s: "sinv t'" "spec_Change (model t) k d = (Inr n, model t')" using st_Change [OF assms] by auto
  then show ?thesis
    using st_Get [OF s(1), of k]
    by (auto simp: spec_Change_def split: option.splits if_splits dest!: sym [of _ "model t'"])
qed

lemma Change_failed:
  assumes "sinv t" "int64_range d" "st_Change st t k d = (Inl e, t')"
  shows "st_Get st t' k' = st_Get st t k'"
proof -
  have s: "sinv t'" "spec_Change (model t) k d = (Inl e, model t')" using st_Change [OF assms] by auto
  then have "model t' = model t" by (auto simp: spec_Change_def split: option.splits if_splits)
  with s assms show ?thesis by (simp add: st_Get)
qed

end

section \<open>SimpleStorage meets the contract\<close>

text \<open>No string value looks like a number, and every number fits its type.\<close>

definition storage_inv :: "simple_storage \<Rightarrow> bool" where
  "storage_inv kv \<longleftrightarrow>
     (\<forall>k v. kv k = Some v \<longrightarrow> (case v of IntVal n \<Rightarrow> int64_range n | StrVal s \<Rightarrow> numeric s = None))"

definition storage_model :: "simple_storage \<Rightarrow> (string \<rightharpoonup> string)" where
  "storage_model kv k = (case kv k of Some (IntVal n) \<Rightarrow> Some (to_string n) | Some (StrVal s) \<Rightarrow> Some s | None \<Rightarrow> None)"

lemma storage_inv_empty [simp]: "storage_inv Map.empty"
  by (simp add: storage_inv_def)

lemma storage_inv_IntVal: "storage_inv kv \<Longrightarrow> kv k = Some (IntVal n) \<Longrightarrow> int64_range n"
  by (force simp: storage_inv_def)

lemma storage_inv_StrVal: "storage_inv kv \<Longrightarrow> kv k = Some (StrVal s) \<Longrightarrow> numeric s = None"
  by (force simp: storage_inv_def)

lemma storage_inv_upd_int: "storage_inv kv \<Longrightarrow> int64_range n \<Longrightarrow> storage_inv (kv(k \<mapsto> IntVal n))"
  by (auto simp: storage_inv_def)

lemma storage_inv_upd_str: "storage_inv kv \<Longrightarrow> numeric s = None \<Longrightarrow> storage_inv (kv(k \<mapsto> StrVal s))"
  by (auto simp: storage_inv_def)

lemma storage_model_upd:
  "storage_model (kv(k \<mapsto> IntVal n)) = (storage_model kv)(k \<mapsto> to_string n)"
  "storage_model (kv(k \<mapsto> StrVal s)) = (storage_model kv)(k \<mapsto> s)"
  by (auto simp: storage_model_def)

lemma SimpleStorage_Set_alt:
  "SimpleStorage_Set kv k v = kv(k \<mapsto> (case numeric v of Some n \<Rightarrow> IntVal n | None \<Rightarrow> StrVal v))"
  by (auto simp: SimpleStorage_Set_def numeric_def split: sum.split)

lemma SimpleStorage_Set_ok:
  assumes "storage_inv kv"
  shows "storage_inv (SimpleStorage_Set kv k v) \<and>
    storage_model (SimpleStorage_Set kv k v) = (storage_model kv)(k \<mapsto> canon v)"
  using assms numeric_range [of v]
  by (cases "numeric v")
    (auto simp: SimpleStorage_Set_alt storage_model_upd canon_def storage_inv_upd_int storage_inv_upd_str)

lemma check_limits_iff:
  "int64_range n \<Longrightarrow> int64_range d \<Longrightarrow> check_limits n d = (if int64_range (n + d) then Inr () else Inl OutOfRange)"
  by (auto simp: check_limits_def int64_bounds)

lemma SimpleStorage_Change_ok:
  assumes "storage_inv kv" "int64_range d" "SimpleStorage_Change kv k d = (r, kv')"
  shows "storage_inv kv' \<and> spec_Change (storage_model kv) k d = (r, storage_model kv')"
proof (cases "kv k")
  case None
  moreover have "check_limits 0 d = Inr ()"
    using check_limits_iff [of 0 d] assms(2) by (simp add: int64_bounds)
  ultimately have "r = Inr d" "kv' = kv(k \<mapsto> IntVal d)"
    using assms(3) by (simp_all add: SimpleStorage_Change_def)
  moreover have "storage_model kv k = None" using None by (simp add: storage_model_def)
  ultimately show ?thesis
    using assms(1,2) by (simp add: spec_Change_def numeric_zero storage_inv_upd_int storage_model_upd)
next
  case (Some v)
  show ?thesis
  proof (cases v)
    case (IntVal n)
    have n: "int64_range n" using storage_inv_IntVal assms(1) Some IntVal by blast
    have m: "storage_model kv k = Some (to_string n)" using Some IntVal by (simp add: storage_model_def)
    show ?thesis
      using assms Some IntVal
      by (auto simp: SimpleStorage_Change_def check_limits_iff [OF n] spec_Change_def m
          numeric_to_string [OF n] storage_model_upd intro!: storage_inv_upd_int split: if_splits)
  next
    case (StrVal s)
    have "storage_model kv k = Some s" using Some StrVal by (simp add: storage_model_def)
    then show ?thesis
      using assms Some StrVal storage_inv_StrVal [OF assms(1), of k s]
      by (simp add: SimpleStorage_Change_def spec_Change_def)
  qed
qed

interpretation ss: storage SimpleStorage storage_model storage_inv
  using SimpleStorage_Set_ok SimpleStorage_Change_ok
  by unfold_locales
    (simp_all add: SimpleStorage_def SimpleStorage_Get_def storage_model_def)

section \<open>Properties\<close>

text \<open>
  \<open>SimpleStorage::Change\<close> implements the abstract \<open>Change\<close>: on a store that satisfies the
  invariant it returns what the map of strings prescribes (a missing key counts as 0, a text that is
  no number and a sum outside \<open>int64_t\<close> are errors) and leaves a store for the prescribed map.
\<close>

theorem SimpleStorage_Change_refines:
  assumes "storage_inv kv" "int64_range d"
  shows "storage_inv (snd (SimpleStorage_Change kv k d)) \<and>
    (fst (SimpleStorage_Change kv k d), storage_model (snd (SimpleStorage_Change kv k d)))
      = spec_Change (storage_model kv) k d"
  using SimpleStorage_Change_ok [OF assms, of k "fst (SimpleStorage_Change kv k d)"
      "snd (SimpleStorage_Change kv k d)"] by simp

theorem SimpleStorage_Change_refines_witness:
  "storage_inv (snd (SimpleStorage_Change [''a'' \<mapsto> IntVal 41] ''a'' 1)) \<and>
    (fst (SimpleStorage_Change [''a'' \<mapsto> IntVal 41] ''a'' 1),
     storage_model (snd (SimpleStorage_Change [''a'' \<mapsto> IntVal 41] ''a'' 1)))
      = spec_Change (storage_model [''a'' \<mapsto> IntVal 41]) ''a'' 1"
  by (rule SimpleStorage_Change_refines) (simp_all add: storage_inv_def int64_bounds)

text \<open>
  \<open>SimpleStorage::Set\<close> keeps the invariant and makes \<open>Get\<close> return, for the key it wrote, the
  value in canonical form (\<open>canon\<close>: a decimal number loses white space, a plus sign and leading
  zeros, any other text comes back unchanged), and for every other key what it returned before.
\<close>

theorem SimpleStorage_Get_after_Set:
  assumes "storage_inv kv"
  shows "storage_inv (SimpleStorage_Set kv k v) \<and>
    SimpleStorage_Get (SimpleStorage_Set kv k v) k' = (if k' = k then Some (canon v) else SimpleStorage_Get kv k')"
  using SimpleStorage_Set_ok [OF assms, of k v] ss.Get_after_Set [OF assms, of k v]
    ss.Get_other [OF assms, of k' k v]
  by (auto simp: SimpleStorage_def)

theorem SimpleStorage_Get_after_Set_witness:
  "storage_inv (SimpleStorage_Set Map.empty ''k'' ''007'') \<and>
    SimpleStorage_Get (SimpleStorage_Set Map.empty ''k'' ''007'') ''k'' = Some (canon ''007'')"
  using SimpleStorage_Get_after_Set [of Map.empty "''k''" "''007''" "''k''"] by simp

text \<open>
  a value is not always read back as it was written: \<open>SET k 007\<close> followed by \<open>GET k\<close> answers
  \<open>7\<close>, because \<open>Set\<close> keeps every text that \<open>std::stoll\<close> consumes as a number.
\<close>

theorem SimpleStorage_Set_normalises:
  "SimpleStorage_Get (SimpleStorage_Set Map.empty ''k'' ''007'') ''k'' = Some ''7''"
  by code_simp

end
