(* ===== verification/IO_Reader.thy ===== *)
theory IO_Reader
  imports Prelude
begin

text \<open>
  The reading half of the byte-stream library \<open>tools/cactus/io\<close>: \<open>Copy\<close> of \<open>view.h\<close>, the generic
  algorithms of \<open>IReader\<close> and \<open>IBufferedReader\<close> (\<open>reader.cpp\<close>), and the concrete readers
  \<open>BufferedReader\<close>, \<open>ViewReader\<close> and \<open>LoopReader\<close>.  A virtual method is a parameter of the
  algorithms that call it.  A buffer handed to \<open>Read\<close> is its size; the bytes stored are the value
  returned, so a returned list of length \<open>n\<close> is the source's return value \<open>n\<close> and the first \<open>n\<close>
  bytes of the buffer.  Two interfaces state the contracts: \<open>stream_reader\<close> for \<open>Read\<close> and
  \<open>buffered_reader\<close> for \<open>ReadNext\<close>/\<open>ReadBackUp\<close>.
\<close>

section \<open>view.h\<close>

definition Copy :: "byte list \<Rightarrow> byte list \<Rightarrow> byte list \<times> nat" where
  "Copy out inp = (let n = min (length out) (length inp) in (take n inp @ drop n out, n))"

lemma Copy_count: "snd (Copy out inp) = min (length out) (length inp)"
  by (simp add: Copy_def Let_def)

lemma Copy_length: "length (fst (Copy out inp)) = length out"
  by (simp add: Copy_def Let_def)

section \<open>IReader\<close>

type_synonym 's read_fn = "'s \<Rightarrow> nat \<Rightarrow> (byte list \<times> 's) result"

text \<open>
  \<open>ReadFull\<close>: the rest of the buffer is \<open>n\<close> bytes long, \<open>acc\<close> is what was stored so far.  A \<open>Read\<close>
  never stores more bytes than the buffer has, so \<open>subspan\<close> is \<^term>\<open>n - length bs\<close>.
\<close>

function ReadFull_loop :: "'s read_fn \<Rightarrow> 's \<Rightarrow> nat \<Rightarrow> byte list \<Rightarrow> (byte list \<times> 's) result" where
  "ReadFull_loop rd s n acc =
     (if n \<noteq> 0 then
        (case rd s n of
           Inl e \<Rightarrow> Inl e
         | Inr (bs, s') \<Rightarrow>
             if length bs = 0 then Inl EOFException
             else ReadFull_loop rd s' (n - length bs) (acc @ bs))
      else Inr (acc, s))"
  by pat_completeness auto
termination
  by (relation "measure (\<lambda>(rd, s, n, acc). n)") auto

declare ReadFull_loop.simps [simp del]

definition ReadFull :: "'s read_fn \<Rightarrow> 's \<Rightarrow> nat \<Rightarrow> (byte list \<times> 's) result" where
  "ReadFull rd s n = (if n = 0 then Inr ([], s) else ReadFull_loop rd s n [])"

text \<open>
  \<open>ReadAllToString\<close>: \<open>cap\<close> is the size of the string \<open>out\<close>, doubled when full; the bytes read so
  far are \<open>acc\<close>, of length \<open>pos\<close>.  On an endless stream the loop does not return, which is the
  outer \<^term>\<open>None\<close>.
\<close>

partial_function (option) ReadAll_loop ::
  "'s read_fn \<Rightarrow> 's \<Rightarrow> nat \<Rightarrow> byte list \<Rightarrow> (byte list \<times> 's) result option" where
  "ReadAll_loop rd s cap acc =
     (let cap' = (if length acc = cap then cap * 2 else cap) in
      case rd s (cap' - length acc) of
        Inl e \<Rightarrow> Some (Inl e)
      | Inr (bs, s') \<Rightarrow>
          if length bs = 0 then Some (Inr (acc, s'))
          else ReadAll_loop rd s' cap' (acc @ bs))"

definition ReadAllToString :: "'s read_fn \<Rightarrow> 's \<Rightarrow> (byte list \<times> 's) result option" where
  "ReadAllToString rd s = ReadAll_loop rd s 1024 []"

section \<open>IBufferedReader\<close>

type_synonym 's next_fn = "'s \<Rightarrow> (byte list \<times> 's) result"
type_synonym 's backup_fn = "'s \<Rightarrow> nat \<Rightarrow> 's result"

definition IBufferedReader_Read :: "'s next_fn \<Rightarrow> 's backup_fn \<Rightarrow> 's read_fn" where
  "IBufferedReader_Read ReadNext ReadBackUp s n =
     (case ReadNext s of
        Inl e \<Rightarrow> Inl e
      | Inr (chunk, s') \<Rightarrow>
          if length chunk = 0 then Inr ([], s')
          else
            let copy_size = min n (length chunk);
                rest = drop copy_size chunk
            in if length rest \<noteq> 0 then
                 (case ReadBackUp s' (length rest) of
                    Inl e \<Rightarrow> Inl e
                  | Inr s'' \<Rightarrow> Inr (take copy_size chunk, s''))
               else Inr (take copy_size chunk, s'))"

definition npos :: nat where
  "npos = 18446744073709551615"

text \<open>
  The inner loop of \<open>ReadString\<close> over one chunk: \<open>Inl (r, k)\<close> when it returns the string \<open>r\<close> after
  backing up \<open>k\<close> bytes, \<open>Inr (r, limit)\<close> when the chunk is used up.
\<close>

fun ReadString_chunk ::
  "byte \<Rightarrow> nat \<Rightarrow> byte list \<Rightarrow> byte list \<Rightarrow> (byte list \<times> nat) + (byte list \<times> nat)" where
  "ReadString_chunk delim limit result [] = Inr (result, limit)"
| "ReadString_chunk delim limit result (symbol # buf) =
     (if limit = 0 then Inl (result, length (symbol # buf))
      else
        let limit' = (if limit \<noteq> npos then limit - 1 else limit);
            result' = result @ [symbol]
        in if symbol = delim then Inl (result', length buf)
           else ReadString_chunk delim limit' result' buf)"

partial_function (option) ReadString_loop ::
  "'s next_fn \<Rightarrow> 's backup_fn \<Rightarrow> 's \<Rightarrow> byte \<Rightarrow> nat \<Rightarrow> byte list \<Rightarrow> (byte list \<times> 's) result option" where
  "ReadString_loop ReadNext ReadBackUp s delim limit result =
     (case ReadNext s of
        Inl e \<Rightarrow> Some (Inl e)
      | Inr (buf, s') \<Rightarrow>
          if length buf = 0 then Some (Inr (result, s'))
          else
            (case ReadString_chunk delim limit result buf of
               Inl (r, k) \<Rightarrow>
                 (case ReadBackUp s' k of
                    Inl e \<Rightarrow> Some (Inl e)
                  | Inr s'' \<Rightarrow> Some (Inr (r, s'')))
             | Inr (r, limit') \<Rightarrow> ReadString_loop ReadNext ReadBackUp s' delim limit' r))"

definition ReadString ::
  "'s next_fn \<Rightarrow> 's backup_fn \<Rightarrow> 's \<Rightarrow> byte \<Rightarrow> nat \<Rightarrow> (byte list \<times> 's) result option" where
  "ReadString ReadNext ReadBackUp s delim limit =
     ReadString_loop ReadNext ReadBackUp s delim limit []"

partial_function (option) WriteTo_loop ::
  "'s next_fn \<Rightarrow> ('w \<Rightarrow> byte list \<Rightarrow> 'w result) \<Rightarrow> 's \<Rightarrow> 'w \<Rightarrow> nat \<Rightarrow> (nat \<times> 's \<times> 'w) result option" where
  "WriteTo_loop ReadNext write s w cnt =
     (case ReadNext s of
        Inl e \<Rightarrow> Some (Inl e)
      | Inr (buf, s') \<Rightarrow>
          if length buf = 0 then Some (Inr (cnt, s', w))
          else
            (case write w buf of
               Inl e \<Rightarrow> Some (Inl e)
             | Inr w' \<Rightarrow> WriteTo_loop ReadNext write s' w' (cnt + length buf)))"

definition IBufferedReader_WriteTo ::
  "'s next_fn \<Rightarrow> ('w \<Rightarrow> byte list \<Rightarrow> 'w result) \<Rightarrow> 's \<Rightarrow> 'w \<Rightarrow> (nat \<times> 's \<times> 'w) result option" where
  "IBufferedReader_WriteTo ReadNext write s w = WriteTo_loop ReadNext write s w 0"

section \<open>BufferedReader, ViewReader, LoopReader\<close>

record 'u buffered_reader_state =
  br_underlying :: 'u
  br_buffer :: "byte list"
  br_pos :: nat
  br_end :: nat

text \<open>The capacity \<open>cap_\<close> is the length of the buffer, which never changes.\<close>

definition BufferedReader_init :: "'u \<Rightarrow> byte list \<Rightarrow> 'u buffered_reader_state" where
  "BufferedReader_init u buffer = \<lparr>br_underlying = u, br_buffer = buffer, br_pos = 0, br_end = 0\<rparr>"

definition BufferedReader_ReadNext :: "'u read_fn \<Rightarrow> 'u buffered_reader_state next_fn" where
  "BufferedReader_ReadNext rd s =
     (let s1 = (if br_pos s = br_end s then s\<lparr>br_pos := 0, br_end := 0\<rparr> else s) in
      case (if br_end s1 = 0 then
              (case rd (br_underlying s1) (length (br_buffer s1)) of
                 Inl e \<Rightarrow> Inl e
               | Inr (bs, u') \<Rightarrow>
                   Inr (s1\<lparr>br_underlying := u', br_end := length bs,
                           br_buffer := bs @ drop (length bs) (br_buffer s1)\<rparr>))
            else Inr s1) of
        Inl e \<Rightarrow> Inl e
      | Inr s2 \<Rightarrow>
          Inr (take (br_end s2 - br_pos s2) (drop (br_pos s2) (br_buffer s2)),
               s2\<lparr>br_pos := br_end s2\<rparr>))"

definition BufferedReader_ReadBackUp :: "'u buffered_reader_state backup_fn" where
  "BufferedReader_ReadBackUp s n =
     (if n \<le> br_pos s then Inr (s\<lparr>br_pos := br_pos s - n\<rparr>) else Inl CheckFailed)"

record view_reader =
  vr_buf :: "byte list"
  vr_pos :: nat

definition ViewReader_init :: "byte list \<Rightarrow> view_reader" where
  "ViewReader_init buf = \<lparr>vr_buf = buf, vr_pos = 0\<rparr>"

definition ViewReader_ReadNext :: "view_reader next_fn" where
  "ViewReader_ReadNext s = Inr (drop (vr_pos s) (vr_buf s), s\<lparr>vr_pos := length (vr_buf s)\<rparr>)"

definition ViewReader_ReadBackUp :: "view_reader backup_fn" where
  "ViewReader_ReadBackUp s n =
     (if n \<le> vr_pos s then Inr (s\<lparr>vr_pos := vr_pos s - n\<rparr>) else Inl CheckFailed)"

abbreviation ViewReader_Read :: "view_reader read_fn" where
  "ViewReader_Read \<equiv> IBufferedReader_Read ViewReader_ReadNext ViewReader_ReadBackUp"

record loop_reader =
  lr_view :: "byte list"
  lr_pos :: nat

definition LoopReader_init :: "byte list \<Rightarrow> loop_reader result" where
  "LoopReader_init view =
     (if view = [] then Inl (RuntimeError ''Empty view'')
      else Inr \<lparr>lr_view = view, lr_pos = 0\<rparr>)"

definition LoopReader_Read :: "loop_reader read_fn" where
  "LoopReader_Read s n =
     (if n = 0 then Inr ([], s)
      else Inr ([lr_view s ! lr_pos s], s\<lparr>lr_pos := (lr_pos s + 1) mod length (lr_view s)\<rparr>))"

section \<open>The reader contracts\<close>

text \<open>
  \<open>content s\<close> is what is still to come.  \<open>Read\<close> delivers a prefix of it that fits the buffer, and
  delivers nothing only when the buffer is empty or the stream is at its end.
\<close>

locale stream_reader =
  fixes rd :: "'s read_fn"
    and content :: "'s \<Rightarrow> byte list"
    and invar :: "'s \<Rightarrow> bool"
  assumes read: "invar s \<Longrightarrow> \<exists>bs s'. rd s n = Inr (bs, s') \<and> invar s' \<and>
    content s = bs @ content s' \<and> length bs \<le> n \<and> (bs = [] \<longrightarrow> n = 0 \<or> content s = [])"
begin

lemma readE:
  assumes "invar s"
  obtains bs s' where "rd s n = Inr (bs, s')" "invar s'" "content s = bs @ content s'"
    "length bs \<le> n" "bs = [] \<longrightarrow> n = 0 \<or> content s = []"
  using read [OF assms, of n] by blast

lemma ReadFull_loop_ok:
  "invar s \<Longrightarrow> n \<le> length (content s) \<Longrightarrow>
   \<exists>s'. ReadFull_loop rd s n acc = Inr (acc @ take n (content s), s') \<and>
     invar s' \<and> content s' = drop n (content s)"
proof (induction n arbitrary: s acc rule: less_induct)
  case (less n)
  show ?case
  proof (cases "n = 0")
    case True
    then show ?thesis using less.prems by (simp add: ReadFull_loop.simps)
  next
    case False
    obtain bs s' where r: "rd s n = Inr (bs, s')" "invar s'" "content s = bs @ content s'"
      "length bs \<le> n" "bs = [] \<longrightarrow> n = 0 \<or> content s = []"
      using readE [OF less.prems(1)] .
    have ne: "bs \<noteq> []" using r(5) False less.prems by auto
    then have "n - length bs < n" "n - length bs \<le> length (content s')"
      using False r less.prems by auto
    from less.IH [OF this(1) r(2) this(2), of "acc @ bs"] show ?thesis
      using r ne False less.prems by (auto simp: ReadFull_loop.simps [of rd s n])
  qed
qed

lemma ReadFull_loop_eof:
  "invar s \<Longrightarrow> length (content s) < n \<Longrightarrow> ReadFull_loop rd s n acc = Inl EOFException"
proof (induction n arbitrary: s acc rule: less_induct)
  case (less n)
  obtain bs s' where r: "rd s n = Inr (bs, s')" "invar s'" "content s = bs @ content s'"
    "length bs \<le> n" "bs = [] \<longrightarrow> n = 0 \<or> content s = []"
    using readE [OF less.prems(1)] .
  show ?case
  proof (cases "bs = []")
    case True
    then show ?thesis using r less.prems by (simp add: ReadFull_loop.simps [of rd s n])
  next
    case False
    then have "n - length bs < n" "length (content s') < n - length bs"
      using r less.prems by auto
    from less.IH [OF this(1) r(2) this(2), of "acc @ bs"] show ?thesis
      using False less.prems r by (simp add: ReadFull_loop.simps [of rd s n])
  qed
qed

text \<open>\<open>ReadFull\<close> fills the whole buffer or reports the end of the stream.\<close>

lemma ReadFull_ok:
  "invar s \<Longrightarrow> n \<le> length (content s) \<Longrightarrow>
   \<exists>s'. ReadFull rd s n = Inr (take n (content s), s') \<and> invar s' \<and> content s' = drop n (content s)"
  using ReadFull_loop_ok [of s n "[]"] by (auto simp: ReadFull_def)

lemma ReadFull_eof:
  "invar s \<Longrightarrow> length (content s) < n \<Longrightarrow> ReadFull rd s n = Inl EOFException"
  by (auto simp: ReadFull_def ReadFull_loop_eof)

lemma ReadFull_byte:
  "invar s \<Longrightarrow> content s = c # cs \<Longrightarrow>
   \<exists>s'. ReadFull rd s 1 = Inr ([c], s') \<and> invar s' \<and> content s' = cs"
  using ReadFull_ok [of s 1] by auto

lemma ReadAll_loop_ok:
  "invar s \<Longrightarrow> length acc \<le> cap \<Longrightarrow> 0 < cap \<Longrightarrow>
   \<exists>s'. ReadAll_loop rd s cap acc = Some (Inr (acc @ content s, s')) \<and> invar s' \<and> content s' = []"
proof (induction "length (content s)" arbitrary: s cap acc rule: less_induct)
  case less
  define cap' where "cap' = (if length acc = cap then cap * 2 else cap)"
  have sz: "0 < cap' - length acc" "0 < cap'" using less.prems by (auto simp: cap'_def)
  obtain bs s' where r: "rd s (cap' - length acc) = Inr (bs, s')" "invar s'"
    "content s = bs @ content s'" "length bs \<le> cap' - length acc"
    "bs = [] \<longrightarrow> cap' - length acc = 0 \<or> content s = []"
    using readE [OF less.prems(1)] .
  show ?case
  proof (cases "bs = []")
    case True
    then show ?thesis
      using r sz by (subst ReadAll_loop.simps) (auto simp: Let_def cap'_def [symmetric])
  next
    case False
    then have "length (content s') < length (content s)" "length (acc @ bs) \<le> cap'"
      using r sz by auto
    from less.hyps [OF this(1) r(2) this(2) sz(2)] show ?thesis
      using False r by (subst ReadAll_loop.simps) (auto simp: Let_def cap'_def [symmetric])
  qed
qed

lemma ReadAllToString_ok:
  "invar s \<Longrightarrow>
   \<exists>s'. ReadAllToString rd s = Some (Inr (content s, s')) \<and> invar s' \<and> content s' = []"
  using ReadAll_loop_ok [of s "[]" 1024] by (simp add: ReadAllToString_def)

end

text \<open>
  What \<open>ReadString\<close> returns, stated on the stream alone: bytes up to and including the first
  delimiter, at most \<open>limit\<close> of them, all of them when neither comes.  The value \<open>npos\<close> is no limit.
\<close>

fun read_until :: "byte \<Rightarrow> nat \<Rightarrow> byte list \<Rightarrow> byte list" where
  "read_until delim limit [] = []"
| "read_until delim limit (x # xs) =
     (if limit = 0 then []
      else if x = delim then [x]
      else x # read_until delim (if limit \<noteq> npos then limit - 1 else limit) xs)"

lemma ReadString_chunk_Inl:
  "ReadString_chunk delim limit res buf = Inl (r, k) \<Longrightarrow>
   k \<le> length buf \<and> r = res @ take (length buf - k) buf \<and>
   read_until delim limit (buf @ rest) = take (length buf - k) buf"
proof (induction delim limit res buf rule: ReadString_chunk.induct)
  case (2 delim limit res x buf)
  show ?case
  proof (cases "limit = 0 \<or> x = delim")
    case True
    then show ?thesis using "2.prems" by (auto simp: Let_def split: if_splits)
  next
    case False
    then have IH: "k \<le> length buf \<and> r = (res @ [x]) @ take (length buf - k) buf \<and>
        read_until delim (if limit \<noteq> npos then limit - 1 else limit) (buf @ rest) =
          take (length buf - k) buf"
      using "2.IH" [of "if limit \<noteq> npos then limit - 1 else limit" "res @ [x]"] "2.prems"
      by (simp add: Let_def)
    then have "Suc (length buf) - k = Suc (length buf - k)" by auto
    with IH False show ?thesis by simp
  qed
qed simp

lemma ReadString_chunk_Inr:
  "ReadString_chunk delim limit res buf = Inr (r, l) \<Longrightarrow>
   r = res @ buf \<and> read_until delim limit (buf @ rest) = buf @ read_until delim l rest"
proof (induction delim limit res buf rule: ReadString_chunk.induct)
  case (2 delim limit res x buf)
  then show ?case by (cases "limit = 0 \<or> x = delim") (auto simp: Let_def split: if_splits)
qed simp

text \<open>
  A buffered reader hands out chunks of the stream and takes back any suffix of the last one.
\<close>

locale buffered_reader =
  fixes nx :: "'s next_fn"
    and bk :: "'s backup_fn"
    and content :: "'s \<Rightarrow> byte list"
    and invar :: "'s \<Rightarrow> bool"
  assumes chunk: "invar s \<Longrightarrow> \<exists>ch s'. nx s = Inr (ch, s') \<and> invar s' \<and>
    content s = ch @ content s' \<and> (ch = [] \<longrightarrow> content s = []) \<and>
    (\<forall>k\<le>length ch. \<exists>s''. bk s' k = Inr s'' \<and> invar s'' \<and>
       content s'' = drop (length ch - k) ch @ content s')"
begin

lemma Read_ok:
  assumes "invar s"
  shows "\<exists>bs s'. IBufferedReader_Read nx bk s n = Inr (bs, s') \<and> invar s' \<and>
    content s = bs @ content s' \<and> length bs \<le> n \<and> (bs = [] \<longrightarrow> n = 0 \<or> content s = [])"
proof -
  obtain ch s' where c: "nx s = Inr (ch, s')" "invar s'" "content s = ch @ content s'"
    "ch = [] \<longrightarrow> content s = []"
    and b: "\<And>k. k \<le> length ch \<Longrightarrow> \<exists>s''. bk s' k = Inr s'' \<and> invar s'' \<and>
       content s'' = drop (length ch - k) ch @ content s'"
    using chunk [OF assms] by blast
  show ?thesis
  proof (cases "n < length ch")
    case True
    then obtain s'' where "bk s' (length ch - n) = Inr s''" "invar s''"
      "content s'' = drop n ch @ content s'"
      using b [of "length ch - n"] by auto
    then show ?thesis using c True by (auto simp: IBufferedReader_Read_def Let_def)
  next
    case False
    then show ?thesis using c by (auto simp: IBufferedReader_Read_def Let_def)
  qed
qed

lemma ReadString_loop_ok:
  "invar s \<Longrightarrow> \<exists>s'. ReadString_loop nx bk s delim limit res =
       Some (Inr (res @ read_until delim limit (content s), s')) \<and> invar s' \<and>
     content s = read_until delim limit (content s) @ content s'"
proof (induction "length (content s)" arbitrary: s limit res rule: less_induct)
  case less
  obtain ch s' where c: "nx s = Inr (ch, s')" "invar s'" "content s = ch @ content s'"
    "ch = [] \<longrightarrow> content s = []"
    and b: "\<And>k. k \<le> length ch \<Longrightarrow> \<exists>s''. bk s' k = Inr s'' \<and> invar s'' \<and>
       content s'' = drop (length ch - k) ch @ content s'"
    using chunk [OF less.prems] by blast
  show ?case
  proof (cases "ch = []")
    case True
    then show ?thesis using c by (subst ReadString_loop.simps) auto
  next
    case False
    show ?thesis
    proof (cases "ReadString_chunk delim limit res ch")
      case (Inl p)
      obtain r k where p: "p = (r, k)" by (cases p)
      note R = ReadString_chunk_Inl [OF Inl [unfolded p], of "content s'"]
      then obtain s'' where "bk s' k = Inr s''" "invar s''"
        "content s'' = drop (length ch - k) ch @ content s'" using b by blast
      then show ?thesis
        using c False Inl R p by (subst ReadString_loop.simps) (auto simp: append_assoc [symmetric] simp del: append_assoc)
    next
      case (Inr p)
      obtain r l where p: "p = (r, l)" by (cases p)
      note R = ReadString_chunk_Inr [OF Inr [unfolded p], of "content s'"]
      have "length (content s') < length (content s)" using c False by simp
      from less.hyps [OF this c(2), of l r] show ?thesis
        using c False Inr R p by (subst ReadString_loop.simps) auto
    qed
  qed
qed

end

sublocale buffered_reader \<subseteq> stream_reader "IBufferedReader_Read nx bk" content invar
  by unfold_locales (rule Read_ok)

section \<open>The readers meet the contracts\<close>

definition view_content :: "view_reader \<Rightarrow> byte list" where
  "view_content s = drop (vr_pos s) (vr_buf s)"

definition view_inv :: "view_reader \<Rightarrow> bool" where
  "view_inv s \<longleftrightarrow> vr_pos s \<le> length (vr_buf s)"

lemma ViewReader_init_ok [simp]: "view_inv (ViewReader_init bs)" "view_content (ViewReader_init bs) = bs"
  by (simp_all add: view_inv_def view_content_def ViewReader_init_def)

interpretation vr: buffered_reader ViewReader_ReadNext ViewReader_ReadBackUp view_content view_inv
  by unfold_locales
    (auto simp: ViewReader_ReadNext_def ViewReader_ReadBackUp_def view_content_def view_inv_def)

text \<open>A \<open>BufferedReader\<close> on top of any stream is a buffered reader of the same stream.\<close>

definition buffered_content :: "('u \<Rightarrow> byte list) \<Rightarrow> 'u buffered_reader_state \<Rightarrow> byte list" where
  "buffered_content content s =
     take (br_end s - br_pos s) (drop (br_pos s) (br_buffer s)) @ content (br_underlying s)"

definition buffered_inv :: "('u \<Rightarrow> bool) \<Rightarrow> 'u buffered_reader_state \<Rightarrow> bool" where
  "buffered_inv invar s \<longleftrightarrow> invar (br_underlying s) \<and> br_pos s \<le> br_end s \<and>
     br_end s \<le> length (br_buffer s) \<and> br_buffer s \<noteq> []"

context stream_reader
begin

lemma BufferedReader_refill:
  assumes "buffered_inv invar s" "br_pos s = br_end s"
  shows "\<exists>ch s'. BufferedReader_ReadNext rd s = Inr (ch, s') \<and> buffered_inv invar s' \<and>
    content (br_underlying s) = ch @ content (br_underlying s') \<and>
    (ch = [] \<longrightarrow> content (br_underlying s) = []) \<and>
    br_pos s' = length ch \<and> br_end s' = length ch \<and> take (length ch) (br_buffer s') = ch"
proof -
  have inv: "invar (br_underlying s)" and ne: "br_buffer s \<noteq> []"
    using assms by (auto simp: buffered_inv_def)
  obtain bs u where r: "rd (br_underlying s) (length (br_buffer s)) = Inr (bs, u)" "invar u"
    "content (br_underlying s) = bs @ content u" "length bs \<le> length (br_buffer s)"
    "bs = [] \<longrightarrow> length (br_buffer s) = 0 \<or> content (br_underlying s) = []"
    using readE [OF inv] .
  then show ?thesis
    using assms ne by (auto simp: BufferedReader_ReadNext_def Let_def buffered_inv_def)
qed

lemma BufferedReader_chunk:
  assumes "buffered_inv invar s"
  shows "\<exists>ch s'. BufferedReader_ReadNext rd s = Inr (ch, s') \<and> buffered_inv invar s' \<and>
    buffered_content content s = ch @ buffered_content content s' \<and>
    (ch = [] \<longrightarrow> buffered_content content s = []) \<and>
    br_pos s' = br_end s' \<and> length ch \<le> br_end s' \<and>
    drop (br_end s' - length ch) (take (br_end s') (br_buffer s')) = ch"
proof (cases "br_pos s = br_end s")
  case True
  from BufferedReader_refill [OF assms True] show ?thesis
    using True by (auto simp: buffered_content_def)
next
  case False
  then have "br_pos s < br_end s" "br_end s \<le> length (br_buffer s)"
    using assms by (auto simp: buffered_inv_def)
  then show ?thesis
    using assms
    by (auto simp: BufferedReader_ReadNext_def Let_def buffered_inv_def buffered_content_def
        drop_take)
qed

lemma BufferedReader_contract:
  "buffered_reader (BufferedReader_ReadNext rd) BufferedReader_ReadBackUp
     (buffered_content content) (buffered_inv invar)"
proof
  fix s assume "buffered_inv invar s"
  from BufferedReader_chunk [OF this] obtain ch s' where
    c: "BufferedReader_ReadNext rd s = Inr (ch, s')" "buffered_inv invar s'"
    "buffered_content content s = ch @ buffered_content content s'"
    "ch = [] \<longrightarrow> buffered_content content s = []"
    "br_pos s' = br_end s'" "length ch \<le> br_end s'"
    "drop (br_end s' - length ch) (take (br_end s') (br_buffer s')) = ch" by blast
  have "\<exists>s''. BufferedReader_ReadBackUp s' k = Inr s'' \<and> buffered_inv invar s'' \<and>
      buffered_content content s'' = drop (length ch - k) ch @ buffered_content content s'"
    if k: "k \<le> length ch" for k
  proof -
    have "drop (length ch - k) ch = drop (br_end s' - k) (take (br_end s') (br_buffer s'))"
      using c(6) k by (subst c(7) [symmetric]) simp
    then show ?thesis
      using c k by (auto simp: BufferedReader_ReadBackUp_def buffered_inv_def buffered_content_def
          drop_take)
  qed
  with c show "\<exists>ch s'. BufferedReader_ReadNext rd s = Inr (ch, s') \<and> buffered_inv invar s' \<and>
    buffered_content content s = ch @ buffered_content content s' \<and>
    (ch = [] \<longrightarrow> buffered_content content s = []) \<and>
    (\<forall>k\<le>length ch. \<exists>s''. BufferedReader_ReadBackUp s' k = Inr s'' \<and> buffered_inv invar s'' \<and>
       buffered_content content s'' = drop (length ch - k) ch @ buffered_content content s')"
    by blast
qed

end

interpretation br: buffered_reader
  "BufferedReader_ReadNext (IBufferedReader_Read ViewReader_ReadNext ViewReader_ReadBackUp)"
  BufferedReader_ReadBackUp "buffered_content view_content" "buffered_inv view_inv"
  by (rule vr.BufferedReader_contract)

text \<open>\<open>LoopReader\<close> has no end: it repeats its view cyclically.\<close>

definition loop_byte :: "loop_reader \<Rightarrow> nat \<Rightarrow> byte" where
  "loop_byte s i = lr_view s ! ((lr_pos s + i) mod length (lr_view s))"

lemma LoopReader_ReadFull_loop:
  "lr_pos s < length (lr_view s) \<Longrightarrow>
   ReadFull_loop LoopReader_Read s n acc =
     Inr (acc @ map (loop_byte s) [0..<n], s\<lparr>lr_pos := (lr_pos s + n) mod length (lr_view s)\<rparr>)"
proof (induction n arbitrary: s acc)
  case 0
  then show ?case by (simp add: ReadFull_loop.simps)
next
  case (Suc n)
  let ?s = "s\<lparr>lr_pos := (lr_pos s + 1) mod length (lr_view s)\<rparr>"
  have "lr_pos ?s < length (lr_view ?s)" using Suc.prems
    by simp (metis gr_implies_not0 mod_less_divisor neq0_conv)
  note IH = Suc.IH [OF this, of "acc @ [lr_view s ! lr_pos s]"]
  have "map (loop_byte s) [0..<Suc n] = lr_view s ! lr_pos s # map (loop_byte ?s) [0..<n]"
    using Suc.prems
    by (auto simp: upt_conv_Cons map_Suc_upt [symmetric] loop_byte_def mod_simps simp del: upt_Suc)
  moreover have "LoopReader_Read s (Suc n) = Inr ([lr_view s ! lr_pos s], ?s)"
    by (simp add: LoopReader_Read_def)
  ultimately show ?case
    using IH by (subst ReadFull_loop.simps) (simp add: mod_simps del: upt_Suc)
qed

section \<open>Properties\<close>

text \<open>The reader most of the properties are stated on: a \<open>BufferedReader\<close> over a \<open>ViewReader\<close>.\<close>

abbreviation BufferedViewReader_Read :: "view_reader buffered_reader_state read_fn" where
  "BufferedViewReader_Read \<equiv> IBufferedReader_Read (BufferedReader_ReadNext ViewReader_Read) BufferedReader_ReadBackUp"

definition fresh_reader :: "nat \<Rightarrow> byte list \<Rightarrow> view_reader buffered_reader_state" where
  "fresh_reader buffer_size bytes = BufferedReader_init (ViewReader_init bytes) (replicate buffer_size (CHR 0x00))"

lemma fresh_reader_ok:
  "0 < n \<Longrightarrow> buffered_inv view_inv (fresh_reader n bs)"
  "buffered_content view_content (fresh_reader n bs) = bs"
  by (simp_all add: fresh_reader_def BufferedReader_init_def buffered_inv_def buffered_content_def)

text \<open>
  \<open>ReadFull\<close> on a \<open>BufferedReader\<close> fills the whole buffer with the next bytes of the stream and
  consumes exactly those, and throws \<open>EOFException\<close> when the stream has fewer.
\<close>

theorem ReadFull_correct:
  assumes "buffered_inv view_inv s"
  shows "if n \<le> length (buffered_content view_content s)
    then \<exists>s'. ReadFull BufferedViewReader_Read s n = Inr (take n (buffered_content view_content s), s') \<and>
           buffered_inv view_inv s' \<and> buffered_content view_content s' = drop n (buffered_content view_content s)
    else ReadFull BufferedViewReader_Read s n = Inl EOFException"
  using br.ReadFull_ok [OF assms, of n] br.ReadFull_eof [OF assms, of n] by auto

theorem ReadFull_correct_witness:
  "if 3 \<le> length (buffered_content view_content (fresh_reader 2 ''hello''))
    then \<exists>s'. ReadFull BufferedViewReader_Read (fresh_reader 2 ''hello'') 3 =
             Inr (take 3 (buffered_content view_content (fresh_reader 2 ''hello'')), s') \<and>
           buffered_inv view_inv s' \<and>
           buffered_content view_content s' = drop 3 (buffered_content view_content (fresh_reader 2 ''hello''))
    else ReadFull BufferedViewReader_Read (fresh_reader 2 ''hello'') 3 = Inl EOFException"
  by (rule ReadFull_correct) (simp add: fresh_reader_ok)

text \<open>
  \<open>ReadString(delim, limit)\<close> on a \<open>BufferedReader\<close> returns, wherever the chunk boundaries fall,
  the bytes up to and including the first delimiter but at most \<open>limit\<close>, and backs up so that the
  rest of the stream is still to be read.
\<close>

theorem ReadString_correct:
  assumes "buffered_inv view_inv s"
  shows "\<exists>s'. ReadString (BufferedReader_ReadNext ViewReader_Read) BufferedReader_ReadBackUp s delim limit =
      Some (Inr (read_until delim limit (buffered_content view_content s), s')) \<and> buffered_inv view_inv s' \<and>
    buffered_content view_content s =
      read_until delim limit (buffered_content view_content s) @ buffered_content view_content s'"
  using br.ReadString_loop_ok [OF assms, of delim limit "[]"] by (simp add: ReadString_def)

theorem ReadString_correct_witness:
  "\<exists>s'. ReadString (BufferedReader_ReadNext ViewReader_Read) BufferedReader_ReadBackUp
        (fresh_reader 2 ''ab,cd'') (CHR '','') npos =
      Some (Inr (read_until (CHR '','') npos (buffered_content view_content (fresh_reader 2 ''ab,cd'')), s')) \<and>
    buffered_inv view_inv s' \<and>
    buffered_content view_content (fresh_reader 2 ''ab,cd'') =
      read_until (CHR '','') npos (buffered_content view_content (fresh_reader 2 ''ab,cd'')) @
      buffered_content view_content s'"
  by (rule ReadString_correct) (simp add: fresh_reader_ok)

text \<open>
  \<open>ReadAllToString\<close> terminates on a \<open>BufferedReader\<close>, whatever the growth of its string, and
  returns all that is left of the stream.
\<close>

theorem ReadAllToString_correct:
  assumes "buffered_inv view_inv s"
  shows "\<exists>s'. ReadAllToString BufferedViewReader_Read s = Some (Inr (buffered_content view_content s, s')) \<and>
    buffered_content view_content s' = []"
  using br.ReadAllToString_ok [OF assms] by blast

theorem ReadAllToString_correct_witness:
  "\<exists>s'. ReadAllToString BufferedViewReader_Read (fresh_reader 2 ''hello'') =
      Some (Inr (buffered_content view_content (fresh_reader 2 ''hello''), s')) \<and>
    buffered_content view_content s' = []"
  by (rule ReadAllToString_correct) (simp add: fresh_reader_ok)

end
