(* ===== verification/IO_Writer.thy ===== *)
theory IO_Writer
  imports IO_Reader
begin

text \<open>
  The writing half of \<open>tools/cactus/io\<close> (\<open>writer.h\<close>, \<open>writer.cpp\<close>): the generic algorithms of
  \<open>IBufferedWriter\<close> and the concrete \<open>StringWriter\<close>, \<open>BufferedWriter\<close> and \<open>BufferedWriteCloser\<close>.
  \<open>WriteNext\<close> hands out a mutable view of the writer's own buffer: the model returns the view's offset
  and size, and storing through the view is the \<open>poke\<close> of the writer.
\<close>

section \<open>IBufferedWriter\<close>

type_synonym 'w write_fn = "'w \<Rightarrow> byte list \<Rightarrow> 'w result"
type_synonym 'w wnext_fn = "'w \<Rightarrow> ((nat \<times> nat) \<times> 'w) result"
type_synonym 'w poke_fn = "'w \<Rightarrow> nat \<Rightarrow> byte list \<Rightarrow> 'w"

text \<open>Storing \<open>bs\<close> at offset \<open>off\<close> of a character array.\<close>

definition poke_bytes :: "byte list \<Rightarrow> nat \<Rightarrow> byte list \<Rightarrow> byte list" where
  "poke_bytes buf off bs = take off buf @ bs @ drop (off + length bs) buf"

text \<open>
  The loop of \<open>IBufferedWriter::Write\<close>.  It does not end when the writer keeps handing out empty
  chunks; that is the outer \<^term>\<open>None\<close>.
\<close>

partial_function (option) IBufferedWriter_Write ::
  "'w wnext_fn \<Rightarrow> 'w poke_fn \<Rightarrow> 'w backup_fn \<Rightarrow> 'w \<Rightarrow> byte list \<Rightarrow> 'w result option" where
  "IBufferedWriter_Write WriteNext poke WriteBackUp w buf =
     (if length buf = 0 then Some (Inr w)
      else
        (case WriteNext w of
           Inl e \<Rightarrow> Some (Inl e)
         | Inr ((off, len), w1) \<Rightarrow>
             let copy_size = min len (length buf);
                 w2 = poke w1 off (take copy_size buf);
                 buf' = drop copy_size buf;
                 rest = len - copy_size
             in if length buf' = 0 then
                  (if rest \<noteq> 0 then Some (WriteBackUp w2 rest) else Some (Inr w2))
                else IBufferedWriter_Write WriteNext poke WriteBackUp w2 buf'))"

definition IBufferedWriter_Append ::
  "'w wnext_fn \<Rightarrow> 'w poke_fn \<Rightarrow> 'w backup_fn \<Rightarrow> 'w \<Rightarrow> byte \<Rightarrow> 'w result" where
  "IBufferedWriter_Append WriteNext poke WriteBackUp w c =
     (case WriteNext w of
        Inl e \<Rightarrow> Inl e
      | Inr ((off, len), w1) \<Rightarrow>
          let w2 = poke w1 off (take (min len 1) [c])
          in if len \<noteq> 1 then WriteBackUp w2 (len - 1) else Inr w2)"

section \<open>StringWriter\<close>

record string_writer =
  sw_str :: "byte list"
  sw_size :: nat

definition StringWriter_init :: string_writer where
  "StringWriter_init = \<lparr>sw_str = [], sw_size = 0\<rparr>"

definition resize :: "nat \<Rightarrow> byte list \<Rightarrow> byte list" where
  "resize n s = take n s @ replicate (n - length s) (CHR 0x00)"

definition StringWriter_WriteNext :: "string_writer wnext_fn" where
  "StringWriter_WriteNext w =
     (let w1 = (if sw_str w = [] then w\<lparr>sw_str := resize 256 (sw_str w)\<rparr> else w);
          w2 = (if sw_size w1 = length (sw_str w1)
                then w1\<lparr>sw_str := resize (2 * length (sw_str w1)) (sw_str w1)\<rparr> else w1)
      in Inr ((sw_size w2, length (sw_str w2) - sw_size w2), w2\<lparr>sw_size := length (sw_str w2)\<rparr>))"

definition StringWriter_poke :: "string_writer poke_fn" where
  "StringWriter_poke w off bs = w\<lparr>sw_str := poke_bytes (sw_str w) off bs\<rparr>"

definition StringWriter_WriteBackUp :: "string_writer backup_fn" where
  "StringWriter_WriteBackUp w n = Inr (w\<lparr>sw_size := sw_size w - n\<rparr>)"

definition StringWriter_View :: "string_writer \<Rightarrow> byte list" where
  "StringWriter_View w = take (sw_size w) (sw_str w)"

section \<open>BufferedWriter and BufferedWriteCloser\<close>

record 'u buffered_writer =
  bw_underlying :: 'u
  bw_buffer :: "byte list"
  bw_used :: nat

text \<open>The size \<open>buffer_size_\<close> is the length of the buffer, which never changes.\<close>

definition BufferedWriter_init :: "'u \<Rightarrow> byte list \<Rightarrow> 'u buffered_writer" where
  "BufferedWriter_init u buffer = \<lparr>bw_underlying = u, bw_buffer = buffer, bw_used = 0\<rparr>"

definition BufferedWriter_Flush :: "'u write_fn \<Rightarrow> 'u buffered_writer \<Rightarrow> 'u buffered_writer result" where
  "BufferedWriter_Flush wr w =
     (case wr (bw_underlying w) (take (bw_used w) (bw_buffer w)) of
        Inl e \<Rightarrow> Inl e
      | Inr u' \<Rightarrow> Inr (w\<lparr>bw_underlying := u', bw_used := 0\<rparr>))"

definition BufferedWriter_WriteNext :: "'u write_fn \<Rightarrow> 'u buffered_writer wnext_fn" where
  "BufferedWriter_WriteNext wr w =
     (case (if bw_used w = length (bw_buffer w) then BufferedWriter_Flush wr w else Inr w) of
        Inl e \<Rightarrow> Inl e
      | Inr w1 \<Rightarrow>
          Inr ((bw_used w1, length (bw_buffer w1) - bw_used w1),
               w1\<lparr>bw_used := length (bw_buffer w1)\<rparr>))"

definition BufferedWriter_poke :: "'u buffered_writer poke_fn" where
  "BufferedWriter_poke w off bs = w\<lparr>bw_buffer := poke_bytes (bw_buffer w) off bs\<rparr>"

definition BufferedWriter_WriteBackUp :: "'u buffered_writer backup_fn" where
  "BufferedWriter_WriteBackUp w n =
     (if n \<le> bw_used w then Inr (w\<lparr>bw_used := bw_used w - n\<rparr>) else Inl CheckFailed)"

text \<open>
  \<open>BufferedWriter::Write\<close>: short writes go through the buffer; a long one flushes and then calls
  \<open>Write(buf)\<close> on the same object.
\<close>

partial_function (option) BufferedWriter_Write ::
  "'u write_fn \<Rightarrow> 'u buffered_writer \<Rightarrow> byte list \<Rightarrow> 'u buffered_writer result option" where
  "BufferedWriter_Write wr w buf =
     (if length buf < 2 * length (bw_buffer w) then
        IBufferedWriter_Write (BufferedWriter_WriteNext wr) BufferedWriter_poke
          BufferedWriter_WriteBackUp w buf
      else
        (case BufferedWriter_Flush wr w of
           Inl e \<Rightarrow> Some (Inl e)
         | Inr w' \<Rightarrow> BufferedWriter_Write wr w' buf))"

definition BufferedWriteCloser_Close ::
  "('u \<Rightarrow> 'u result) \<Rightarrow> 'u buffered_writer \<Rightarrow> 'u buffered_writer result" where
  "BufferedWriteCloser_Close close_fn w =
     (case close_fn (bw_underlying w) of
        Inl e \<Rightarrow> Inl e
      | Inr u' \<Rightarrow> Inr (w\<lparr>bw_underlying := u'\<rparr>))"

section \<open>The writer contracts\<close>

locale stream_writer =
  fixes wr :: "'w write_fn"
    and written :: "'w \<Rightarrow> byte list"
    and winvar :: "'w \<Rightarrow> bool"
  assumes write_ok: "winvar w \<Longrightarrow> \<exists>w'. wr w bs = Inr w' \<and> winvar w' \<and> written w' = written w @ bs"

text \<open>
  A chunk is not empty; after storing \<open>bs\<close> at its front and giving the rest back, exactly \<open>bs\<close> has
  been written.
\<close>

locale chunk_writer =
  fixes nx :: "'w wnext_fn"
    and poke :: "'w poke_fn"
    and bk :: "'w backup_fn"
    and written :: "'w \<Rightarrow> byte list"
    and winvar :: "'w \<Rightarrow> bool"
  assumes wchunk: "winvar w \<Longrightarrow> \<exists>off len w'. nx w = Inr ((off, len), w') \<and> 0 < len \<and>
    (\<forall>bs. length bs = len \<longrightarrow>
       winvar (poke w' off bs) \<and> written (poke w' off bs) = written w @ bs) \<and>
    (\<forall>bs. length bs < len \<longrightarrow> (\<exists>w''. bk (poke w' off bs) (len - length bs) = Inr w'' \<and>
       winvar w'' \<and> written w'' = written w @ bs))"
begin

lemma Write_ok:
  "winvar w \<Longrightarrow> \<exists>w'. IBufferedWriter_Write nx poke bk w buf = Some (Inr w') \<and>
     winvar w' \<and> written w' = written w @ buf"
proof (induction "length buf" arbitrary: w buf rule: less_induct)
  case less
  obtain off len w1 where c: "nx w = Inr ((off, len), w1)" "0 < len"
    and full: "\<And>bs. length bs = len \<Longrightarrow>
       winvar (poke w1 off bs) \<and> written (poke w1 off bs) = written w @ bs"
    and part: "\<And>bs. length bs < len \<Longrightarrow> \<exists>w''. bk (poke w1 off bs) (len - length bs) = Inr w'' \<and>
       winvar w'' \<and> written w'' = written w @ bs"
    using wchunk [OF less.prems] by blast
  consider "buf = []" | "buf \<noteq> []" "length buf < len" | "length buf = len" | "len < length buf"
    by linarith
  then show ?case
  proof cases
    case 1
    then show ?thesis using less.prems by (subst IBufferedWriter_Write.simps) simp
  next
    case 2
    then show ?thesis
      using c part [of buf] by (subst IBufferedWriter_Write.simps) (auto simp: Let_def)
  next
    case 3
    then show ?thesis
      using c full [of buf] by (subst IBufferedWriter_Write.simps) (auto simp: Let_def)
  next
    case 4
    then have w2: "winvar (poke w1 off (take len buf))"
      "written (poke w1 off (take len buf)) = written w @ take len buf"
      using full [of "take len buf"] by auto
    have "length (drop len buf) < length buf" using 4 c by auto
    from less.hyps [OF this w2(1)] show ?thesis
      using 4 c w2 by (subst IBufferedWriter_Write.simps) (auto simp: Let_def min_def)
  qed
qed

lemma Append_ok:
  assumes "winvar w"
  shows "\<exists>w'. IBufferedWriter_Append nx poke bk w c = Inr w' \<and> winvar w' \<and> written w' = written w @ [c]"
proof -
  obtain off len w1 where o: "nx w = Inr ((off, len), w1)" "0 < len"
    and full: "\<And>bs. length bs = len \<Longrightarrow>
       winvar (poke w1 off bs) \<and> written (poke w1 off bs) = written w @ bs"
    and part: "\<And>bs. length bs < len \<Longrightarrow> \<exists>w''. bk (poke w1 off bs) (len - length bs) = Inr w'' \<and>
       winvar w'' \<and> written w'' = written w @ bs"
    using wchunk [OF assms] by blast
  have "min len 1 = 1" using o(2) by simp
  then show ?thesis
    using o full [of "[c]"] part [of "[c]"]
    by (cases "len = 1") (auto simp: IBufferedWriter_Append_def Let_def)
qed

end

section \<open>The writers meet the contracts\<close>

lemma length_resize [simp]: "length (resize n s) = n"
  by (simp add: resize_def)

lemma take_resize: "k \<le> length s \<Longrightarrow> k \<le> n \<Longrightarrow> take k (resize n s) = take k s"
  by (simp add: resize_def min_def)

lemma length_poke [simp]: "off + length bs \<le> length buf \<Longrightarrow> length (poke_bytes buf off bs) = length buf"
  by (simp add: poke_bytes_def)

lemma take_poke: "off + length bs \<le> length buf \<Longrightarrow>
   take (off + length bs) (poke_bytes buf off bs) = take off buf @ bs"
  by (simp add: poke_bytes_def)

lemma poke_full: "length buf = off + length bs \<Longrightarrow> poke_bytes buf off bs = take off buf @ bs"
  by (simp add: poke_bytes_def)

definition string_inv :: "string_writer \<Rightarrow> bool" where
  "string_inv w \<longleftrightarrow> sw_size w \<le> length (sw_str w)"

lemma StringWriter_init_ok [simp]: "string_inv StringWriter_init" "StringWriter_View StringWriter_init = []"
  by (simp_all add: string_inv_def StringWriter_View_def StringWriter_init_def)

lemma StringWriter_chunk:
  assumes "string_inv w"
  shows "\<exists>len w'. StringWriter_WriteNext w = Inr ((sw_size w, len), w') \<and> 0 < len \<and>
    sw_size w' = sw_size w + len \<and> length (sw_str w') = sw_size w + len \<and>
    take (sw_size w) (sw_str w') = take (sw_size w) (sw_str w)"
  using assms
  by (auto simp: StringWriter_WriteNext_def Let_def string_inv_def take_resize resize_def)

interpretation sw: chunk_writer StringWriter_WriteNext StringWriter_poke StringWriter_WriteBackUp
  StringWriter_View string_inv
proof
  fix w assume inv: "string_inv w"
  from StringWriter_chunk [OF this] obtain len w' where
    c: "StringWriter_WriteNext w = Inr ((sw_size w, len), w')" "0 < len"
    "sw_size w' = sw_size w + len" "length (sw_str w') = sw_size w + len"
    "take (sw_size w) (sw_str w') = take (sw_size w) (sw_str w)" by blast
  have "take (sw_size w + length bs) (poke_bytes (sw_str w') (sw_size w) bs) =
      take (sw_size w) (sw_str w) @ bs" if "length bs \<le> len" for bs
    using that c take_poke [of "sw_size w" bs "sw_str w'"] by simp
  then show "\<exists>off len w'. StringWriter_WriteNext w = Inr ((off, len), w') \<and> 0 < len \<and>
    (\<forall>bs. length bs = len \<longrightarrow> string_inv (StringWriter_poke w' off bs) \<and>
       StringWriter_View (StringWriter_poke w' off bs) = StringWriter_View w @ bs) \<and>
    (\<forall>bs. length bs < len \<longrightarrow>
       (\<exists>w''. StringWriter_WriteBackUp (StringWriter_poke w' off bs) (len - length bs) = Inr w'' \<and>
          string_inv w'' \<and> StringWriter_View w'' = StringWriter_View w @ bs))"
    using c inv
    by (auto simp: StringWriter_poke_def StringWriter_WriteBackUp_def StringWriter_View_def
        string_inv_def poke_full)
qed

text \<open>\<open>StringWriter\<close> inherits \<open>IBufferedWriter::Write\<close>, which always returns on it.\<close>

definition StringWriter_Write :: "string_writer write_fn" where
  "StringWriter_Write w bs =
     the (IBufferedWriter_Write StringWriter_WriteNext StringWriter_poke StringWriter_WriteBackUp w bs)"

interpretation sws: stream_writer StringWriter_Write StringWriter_View string_inv
proof
  fix w bs assume "string_inv w"
  from sw.Write_ok [OF this, of bs]
  show "\<exists>w'. StringWriter_Write w bs = Inr w' \<and> string_inv w' \<and>
    StringWriter_View w' = StringWriter_View w @ bs"
    by (auto simp: StringWriter_Write_def)
qed

text \<open>What a buffered writer has accepted: what it passed on and what is still in its buffer.\<close>

definition bw_written :: "('u \<Rightarrow> byte list) \<Rightarrow> 'u buffered_writer \<Rightarrow> byte list" where
  "bw_written written w = written (bw_underlying w) @ take (bw_used w) (bw_buffer w)"

definition bw_inv :: "('u \<Rightarrow> bool) \<Rightarrow> 'u buffered_writer \<Rightarrow> bool" where
  "bw_inv winvar w \<longleftrightarrow> winvar (bw_underlying w) \<and> bw_used w \<le> length (bw_buffer w) \<and> bw_buffer w \<noteq> []"

context stream_writer
begin

lemma Flush_ok:
  assumes "bw_inv winvar w"
  shows "\<exists>w'. BufferedWriter_Flush wr w = Inr w' \<and> bw_inv winvar w' \<and> bw_used w' = 0 \<and>
    bw_buffer w' = bw_buffer w \<and> written (bw_underlying w') = bw_written written w"
  using write_ok [of "bw_underlying w" "take (bw_used w) (bw_buffer w)"] assms
  by (auto simp: BufferedWriter_Flush_def bw_inv_def bw_written_def)

lemma BufferedWriter_chunk:
  assumes "bw_inv winvar w"
  shows "\<exists>off len w'. BufferedWriter_WriteNext wr w = Inr ((off, len), w') \<and> 0 < len \<and>
    winvar (bw_underlying w') \<and> length (bw_buffer w') = off + len \<and> bw_used w' = off + len \<and>
    written (bw_underlying w') @ take off (bw_buffer w') = bw_written written w"
proof (cases "bw_used w = length (bw_buffer w)")
  case True
  from Flush_ok [OF assms] show ?thesis
    using True by (auto simp: BufferedWriter_WriteNext_def bw_inv_def)
next
  case False
  then show ?thesis using assms
    by (auto simp: BufferedWriter_WriteNext_def bw_inv_def bw_written_def)
qed

lemma BufferedWriter_contract:
  "chunk_writer (BufferedWriter_WriteNext wr) BufferedWriter_poke BufferedWriter_WriteBackUp
     (bw_written written) (bw_inv winvar)"
proof
  fix w assume "bw_inv winvar w"
  from BufferedWriter_chunk [OF this] obtain off len w' where
    c: "BufferedWriter_WriteNext wr w = Inr ((off, len), w')" "0 < len"
    "winvar (bw_underlying w')" "length (bw_buffer w') = off + len" "bw_used w' = off + len"
    "written (bw_underlying w') @ take off (bw_buffer w') = bw_written written w" by blast
  have p: "take (off + length bs) (poke_bytes (bw_buffer w') off bs) = take off (bw_buffer w') @ bs"
    "poke_bytes (bw_buffer w') off bs \<noteq> []" if "length bs \<le> len" for bs
    using that c take_poke [of off bs "bw_buffer w'"] length_poke [of off bs "bw_buffer w'"]
    by (simp, metis add_is_0 length_0_conv nat_less_le c(2) c(4) add_left_mono length_poke)
  have full: "bw_inv winvar (BufferedWriter_poke w' off bs) \<and>
      bw_written written (BufferedWriter_poke w' off bs) = bw_written written w @ bs"
    if "length bs = len" for bs
    using that c p [of bs] by (auto simp: BufferedWriter_poke_def bw_inv_def bw_written_def
        c(6) [symmetric] poke_full)
  have part: "\<exists>w''. BufferedWriter_WriteBackUp (BufferedWriter_poke w' off bs) (len - length bs) = Inr w'' \<and>
      bw_inv winvar w'' \<and> bw_written written w'' = bw_written written w @ bs"
    if "length bs < len" for bs
    using that c p [of bs]
    by (auto simp: BufferedWriter_poke_def BufferedWriter_WriteBackUp_def bw_inv_def bw_written_def
        c(6) [symmetric])
  show "\<exists>off len w'. BufferedWriter_WriteNext wr w = Inr ((off, len), w') \<and> 0 < len \<and>
    (\<forall>bs. length bs = len \<longrightarrow> bw_inv winvar (BufferedWriter_poke w' off bs) \<and>
       bw_written written (BufferedWriter_poke w' off bs) = bw_written written w @ bs) \<and>
    (\<forall>bs. length bs < len \<longrightarrow>
       (\<exists>w''. BufferedWriter_WriteBackUp (BufferedWriter_poke w' off bs) (len - length bs) = Inr w'' \<and>
          bw_inv winvar w'' \<and> bw_written written w'' = bw_written written w @ bs))"
    using c(1,2) full part by blast
qed

end

interpretation bw: chunk_writer "BufferedWriter_WriteNext StringWriter_Write" BufferedWriter_poke
  BufferedWriter_WriteBackUp "bw_written StringWriter_View" "bw_inv string_inv"
  by (rule sws.BufferedWriter_contract)

section \<open>What BufferedWriter guarantees, and where it does not return\<close>

context stream_writer
begin

lemma BufferedWriter_short:
  assumes "bw_inv winvar w" "length buf < 2 * length (bw_buffer w)"
  shows "\<exists>w'. BufferedWriter_Write wr w buf = Some (Inr w') \<and> bw_inv winvar w' \<and>
    bw_written written w' = bw_written written w @ buf"
  using chunk_writer.Write_ok [OF BufferedWriter_contract assms(1), of buf] assms(2)
  by (subst BufferedWriter_Write.simps) auto

text \<open>
  A write of at least twice the buffer flushes and calls itself with the same bytes, for ever: no
  fuel makes it return.
\<close>

lemma BufferedWriter_long_diverges:
  assumes "bw_inv winvar w" "2 * length (bw_buffer w) \<le> length buf"
  shows "BufferedWriter_Write wr w buf = None"
proof (rule ccontr)
  assume "BufferedWriter_Write wr w buf \<noteq> None"
  then obtain r where ret: "BufferedWriter_Write wr w buf = Some r" by auto
  have "\<not> (bw_inv winvar w \<and> 2 * length (bw_buffer w) \<le> length buf)"
  proof (rule BufferedWriter_Write.raw_induct
      [where P = "\<lambda>f w buf r. f = wr \<longrightarrow> \<not> (bw_inv winvar w \<and> 2 * length (bw_buffer w) \<le> length buf)",
        OF _ ret, THEN mp, OF _ refl])
    fix F f w buf r
    assume IH: "\<And>f w buf r. F f w buf = Some r \<Longrightarrow>
        f = wr \<longrightarrow> \<not> (bw_inv winvar w \<and> 2 * length (bw_buffer w) \<le> length buf)"
      and step: "(if length buf < 2 * length (bw_buffer w)
        then IBufferedWriter_Write (BufferedWriter_WriteNext f) BufferedWriter_poke
               BufferedWriter_WriteBackUp w buf
        else (case BufferedWriter_Flush f w of Inl e \<Rightarrow> Some (Inl e)
              | Inr w' \<Rightarrow> F f w' buf)) = Some r"
    show "f = wr \<longrightarrow> \<not> (bw_inv winvar w \<and> 2 * length (bw_buffer w) \<le> length buf)"
      using Flush_ok [of w] IH [of wr _ buf r] step by fastforce
  qed
  then show False using assms by blast
qed

end

text \<open>Copying a whole buffered stream into a writer.\<close>

lemma WriteTo_loop_ok:
  assumes r: "buffered_reader nx bk content invar" and w: "stream_writer wr written winvar"
  shows "invar s \<Longrightarrow> winvar v \<Longrightarrow>
    \<exists>s' v'. WriteTo_loop nx wr s v n = Some (Inr (n + length (content s), s', v')) \<and>
      content s' = [] \<and> written v' = written v @ content s"
proof (induction "length (content s)" arbitrary: s v n rule: less_induct)
  case less
  obtain ch s' where c: "nx s = Inr (ch, s')" "invar s'" "content s = ch @ content s'"
    "ch = [] \<longrightarrow> content s = []"
    using buffered_reader.chunk [OF r less.prems(1)] by blast
  show ?case
  proof (cases "ch = []")
    case True
    then show ?thesis using c by (subst WriteTo_loop.simps) auto
  next
    case False
    obtain v' where v: "wr v ch = Inr v'" "winvar v'" "written v' = written v @ ch"
      using stream_writer.write_ok [OF w less.prems(2)] by blast
    have "length (content s') < length (content s)" using c False by simp
    from less.hyps [OF this c(2) v(2), of "n + length ch"] show ?thesis
      using c v False by (subst WriteTo_loop.simps) (auto simp: add.assoc)
  qed
qed

section \<open>Properties\<close>

definition fresh_writer :: "nat \<Rightarrow> string_writer buffered_writer" where
  "fresh_writer buffer_size = BufferedWriter_init StringWriter_init (replicate buffer_size (CHR 0x00))"

lemma fresh_writer_ok: "0 < n \<Longrightarrow> bw_inv string_inv (fresh_writer n)"
  by (simp add: fresh_writer_def BufferedWriter_init_def bw_inv_def)

text \<open>
  A write shorter than twice the buffer of a \<open>BufferedWriter\<close> returns; the bytes passed on so far
  followed by those in the buffer grow by exactly the bytes written, so nothing is lost or reordered.
\<close>

theorem BufferedWriter_Write_short:
  assumes "bw_inv string_inv w" "length buf < 2 * length (bw_buffer w)"
  shows "\<exists>w'. BufferedWriter_Write StringWriter_Write w buf = Some (Inr w') \<and> bw_inv string_inv w' \<and>
    bw_written StringWriter_View w' = bw_written StringWriter_View w @ buf"
  using assms by (rule sws.BufferedWriter_short)

theorem BufferedWriter_Write_short_witness:
  "\<exists>w'. BufferedWriter_Write StringWriter_Write (fresh_writer 3) ''hello'' = Some (Inr w') \<and> bw_inv string_inv w' \<and>
    bw_written StringWriter_View w' = bw_written StringWriter_View (fresh_writer 3) @ ''hello''"
  by (rule BufferedWriter_Write_short) (simp_all add: fresh_writer_ok, simp add: fresh_writer_def BufferedWriter_init_def)

text \<open>
  a write of at least twice the buffer never returns: \<open>BufferedWriter::Write\<close> flushes and then calls
  itself with the same bytes instead of the underlying writer.
\<close>

theorem BufferedWriter_Write_long_diverges:
  assumes "bw_inv string_inv w" "2 * length (bw_buffer w) \<le> length buf"
  shows "BufferedWriter_Write StringWriter_Write w buf = None"
  using assms by (rule sws.BufferedWriter_long_diverges)

theorem BufferedWriter_Write_long_diverges_witness:
  "BufferedWriter_Write StringWriter_Write (fresh_writer 2) ''hello'' = None"
  by (rule BufferedWriter_Write_long_diverges) (simp_all add: fresh_writer_ok, simp add: fresh_writer_def BufferedWriter_init_def)

end
