(* ===== verification/Resp.thy ===== *)
theory Resp
  imports Cpp_Numbers IO_Writer
begin

text \<open>
  The RESP wire protocol of the redis exercise: \<open>redis/resp_types.h\<close>, \<open>redis/resp-reader\<close> and
  \<open>redis/resp-writer\<close>.  The reader and the writer work on any \<open>IReader\<close> and \<open>IWriter\<close>, so \<open>Read\<close> and
  \<open>Write\<close> are parameters.  The theory proves, once for every stream that meets the contracts of
  \<open>IO_Reader\<close> and \<open>IO_Writer\<close>, that the writer emits the RESP encodings and that the reader decodes
  them and stops exactly behind them.
\<close>

section \<open>resp_types.h\<close>

datatype ERespType = SimpleString | RInt | RError | BulkString | RArray

definition CharToRespType :: "char \<Rightarrow> ERespType result" where
  "CharToRespType c =
     (if c = CHR ''+'' then Inr SimpleString
      else if c = CHR '':'' then Inr RInt
      else if c = CHR ''-'' then Inr RError
      else if c = CHR ''$'' then Inr BulkString
      else if c = CHR ''*'' then Inr RArray
      else Inl (RedisError (''Unknown type byte '' @ [CHR 0x27, c, CHR 0x27])))"

fun RespTypeToChar :: "ERespType \<Rightarrow> char" where
  "RespTypeToChar SimpleString = CHR ''+''"
| "RespTypeToChar RInt = CHR '':''"
| "RespTypeToChar RError = CHR ''-''"
| "RespTypeToChar BulkString = CHR ''$''"
| "RespTypeToChar RArray = CHR ''*''"

fun RespType_ToString :: "ERespType \<Rightarrow> string" where
  "RespType_ToString SimpleString = ''SimpleString''"
| "RespType_ToString RInt = ''Int''"
| "RespType_ToString RError = ''Error''"
| "RespType_ToString BulkString = ''BulkString''"
| "RespType_ToString RArray = ''Array''"

lemma CharToRespType_roundtrip: "CharToRespType (RespTypeToChar t) = Inr t"
  by (cases t) (simp_all add: CharToRespType_def)

lemma CharToRespType_Inr: "CharToRespType c = Inr t \<Longrightarrow> c = RespTypeToChar t"
  by (auto simp: CharToRespType_def split: if_splits)

section \<open>resp_reader.cpp\<close>

abbreviation CR :: char where "CR \<equiv> CHR 0x0D"
abbreviation LF :: char where "LF \<equiv> CHR 0x0A"

text \<open>\<open>try { ... } catch (...) { throw RedisError(msg); }\<close>\<close>

definition rethrow :: "string \<Rightarrow> 'a result \<Rightarrow> 'a result" where
  "rethrow msg r = (case r of Inl _ \<Rightarrow> Inl (RedisError msg) | Inr x \<Rightarrow> Inr x)"

definition ReadType :: "'s read_fn \<Rightarrow> 's \<Rightarrow> (ERespType \<times> 's) result" where
  "ReadType rd s =
     rethrow ''Error parsing simple string''
       (case ReadFull rd s 1 of
          Inl e \<Rightarrow> Inl e
        | Inr (bs, s') \<Rightarrow>
            (case CharToRespType (hd bs) of Inl e \<Rightarrow> Inl e | Inr t \<Rightarrow> Inr (t, s')))"

text \<open>
  The loop of \<open>ReadBasicStringToBuf\<close>: \<open>acc\<close> holds the \<open>size\<close> bytes stored so far, \<open>cap\<close> is the
  size of \<open>buf_\<close>.  A store at an index outside \<open>buf_\<close> is the error \<^term>\<open>OutOfBounds\<close>.
\<close>

function ReadBasic_loop :: "'s read_fn \<Rightarrow> 's \<Rightarrow> nat \<Rightarrow> byte list \<Rightarrow> (byte list \<times> 's) result" where
  "ReadBasic_loop rd s cap acc =
     (if \<not> length acc < cap then Inl OutOfBounds
      else
        (case ReadFull rd s 1 of
           Inl e \<Rightarrow> Inl e
         | Inr (bs, s') \<Rightarrow>
             if hd bs = CR then
               (case ReadFull rd s' 1 of
                  Inl e \<Rightarrow> Inl e
                | Inr (bs', s'') \<Rightarrow>
                    if hd bs' \<noteq> LF then Inl (RedisError ''Wrong string ending symbol'')
                    else Inr (acc, s''))
             else if hd bs = LF then Inl (RedisError ''Wrong string ending symbol'')
             else
               let acc' = acc @ [hd bs] in
               if cap = length acc' then
                 (if length acc' * 2 > 65536 then Inl (RedisError ''Wrong string ending symbol'')
                  else ReadBasic_loop rd s' (length acc' * 2) acc')
               else ReadBasic_loop rd s' cap acc'))"
  by pat_completeness auto
termination
  by (relation "measures [\<lambda>(rd, s, cap, acc). 65537 - cap, \<lambda>(rd, s, cap, acc). cap - length acc]") auto

declare ReadBasic_loop.simps [simp del]

definition ReadBasicStringToBuf :: "'s read_fn \<Rightarrow> 's \<Rightarrow> (byte list \<times> 's) result" where
  "ReadBasicStringToBuf rd s = ReadBasic_loop rd s 1023 []"

definition ReadSimpleString :: "'s read_fn \<Rightarrow> 's \<Rightarrow> (byte list \<times> 's) result" where
  "ReadSimpleString rd s = rethrow ''Error parsing simple string'' (ReadBasicStringToBuf rd s)"

definition ReadError :: "'s read_fn \<Rightarrow> 's \<Rightarrow> (byte list \<times> 's) result" where
  "ReadError rd s = rethrow ''Error parsing error'' (ReadBasicStringToBuf rd s)"

definition ReadInt :: "'s read_fn \<Rightarrow> 's \<Rightarrow> (int \<times> 's) result" where
  "ReadInt rd s =
     rethrow ''Error parsing integer''
       (case ReadBasicStringToBuf rd s of
          Inl e \<Rightarrow> Inl e
        | Inr (buf, s') \<Rightarrow>
            (case stoll buf of
               Inl e \<Rightarrow> Inl e
             | Inr (res, pos) \<Rightarrow>
                 if pos \<noteq> length buf \<or> hd buf = CHR '' '' then
                   Inl (RedisError ''Wrong integer string format'')
                 else Inr (res, s')))"

text \<open>
  \<open>ReadBulkString\<close>: the buffer has \<open>length + 2\<close> bytes, a signed sum that must not overflow and
  must be a possible string size.
\<close>

definition ReadBulkString :: "'s read_fn \<Rightarrow> 's \<Rightarrow> (byte list option \<times> 's) result" where
  "ReadBulkString rd s =
     rethrow ''Error parsing bulk string''
       (case ReadBasicStringToBuf rd s of
          Inl e \<Rightarrow> Inl e
        | Inr (buf, s') \<Rightarrow>
            (case stoll buf of
               Inl e \<Rightarrow> Inl e
             | Inr (len, pos) \<Rightarrow>
                 if pos \<noteq> length buf \<or> len < - 1 then
                   Inl (RedisError ''Wrong unsigned integer string format'')
                 else if len = - 1 then Inr (None, s')
                 else if len + 2 > INT64_MAX then Inl LengthError
                 else
                   (case ReadFull rd s' (nat len + 2) of
                      Inl e \<Rightarrow> Inl e
                    | Inr (bytes, s'') \<Rightarrow>
                        if bytes ! nat len \<noteq> CR \<or> bytes ! (nat len + 1) \<noteq> LF then
                          Inl (RedisError ''Wrong string ending symbol'')
                        else Inr (Some (take (nat len) bytes), s''))))"

definition ReadArrayLength :: "'s read_fn \<Rightarrow> 's \<Rightarrow> (int \<times> 's) result" where
  "ReadArrayLength rd s =
     rethrow ''Error parsing array legth''
       (case ReadBasicStringToBuf rd s of
          Inl e \<Rightarrow> Inl e
        | Inr (buf, s') \<Rightarrow>
            (case stoll buf of
               Inl e \<Rightarrow> Inl e
             | Inr (len, pos) \<Rightarrow>
                 if pos \<noteq> length buf \<or> len < - 1 then
                   Inl (RedisError ''Wrong unsigned integer string format'')
                 else Inr (len, s')))"

section \<open>resp_writer.cpp and resp_writer.h\<close>

text \<open>A sequence of \<open>Write\<close> calls, which stops at the first exception.\<close>

fun write_all :: "'w write_fn \<Rightarrow> 'w \<Rightarrow> byte list list \<Rightarrow> 'w result" where
  "write_all wr w [] = Inr w"
| "write_all wr w (b # bs) = (case wr w b of Inl e \<Rightarrow> Inl e | Inr w' \<Rightarrow> write_all wr w' bs)"

definition FinishMessageField :: "'w write_fn \<Rightarrow> 'w \<Rightarrow> 'w result" where
  "FinishMessageField wr w = write_all wr w [[CR, LF]]"

definition then_finish :: "'w write_fn \<Rightarrow> 'w result \<Rightarrow> 'w result" where
  "then_finish wr r = (case r of Inl e \<Rightarrow> Inl e | Inr w \<Rightarrow> FinishMessageField wr w)"

definition WriteSimpleString :: "'w write_fn \<Rightarrow> 'w \<Rightarrow> byte list \<Rightarrow> 'w result" where
  "WriteSimpleString wr w s = then_finish wr (write_all wr w [[RespTypeToChar SimpleString], s])"

definition WriteError :: "'w write_fn \<Rightarrow> 'w \<Rightarrow> byte list \<Rightarrow> 'w result" where
  "WriteError wr w s = then_finish wr (write_all wr w [[RespTypeToChar RError], s])"

definition WriteInt :: "'w write_fn \<Rightarrow> 'w \<Rightarrow> int \<Rightarrow> 'w result" where
  "WriteInt wr w n = then_finish wr (write_all wr w [[RespTypeToChar RInt], to_string n])"

definition WriteBulkString :: "'w write_fn \<Rightarrow> 'w \<Rightarrow> byte list \<Rightarrow> 'w result" where
  "WriteBulkString wr w s =
     (case then_finish wr
             (write_all wr w [[RespTypeToChar BulkString], to_string (int (length s))]) of
        Inl e \<Rightarrow> Inl e
      | Inr w' \<Rightarrow> then_finish wr (write_all wr w' [s]))"

definition WriteNullBulkString :: "'w write_fn \<Rightarrow> 'w \<Rightarrow> 'w result" where
  "WriteNullBulkString wr w = then_finish wr (write_all wr w [[RespTypeToChar BulkString], ''-1''])"

definition StartArray :: "'w write_fn \<Rightarrow> 'w \<Rightarrow> nat \<Rightarrow> 'w result" where
  "StartArray wr w n = then_finish wr (write_all wr w [[RespTypeToChar RArray], to_string (int n)])"

definition WriteNullArray :: "'w write_fn \<Rightarrow> 'w \<Rightarrow> 'w result" where
  "WriteNullArray wr w = then_finish wr (write_all wr w [[RespTypeToChar RArray], ''-1''])"

fun WriteInts :: "'w write_fn \<Rightarrow> 'w \<Rightarrow> int list \<Rightarrow> 'w result" where
  "WriteInts wr w [] = Inr w"
| "WriteInts wr w (n # ns) = (case WriteInt wr w n of Inl e \<Rightarrow> Inl e | Inr w' \<Rightarrow> WriteInts wr w' ns)"

definition WriteArrayInts :: "'w write_fn \<Rightarrow> 'w \<Rightarrow> int list \<Rightarrow> 'w result" where
  "WriteArrayInts wr w ns =
     (case StartArray wr w (length ns) of Inl e \<Rightarrow> Inl e | Inr w' \<Rightarrow> WriteInts wr w' ns)"

section \<open>The encodings\<close>

definition line :: "ERespType \<Rightarrow> byte list \<Rightarrow> byte list" where
  "line t s = RespTypeToChar t # s @ [CR, LF]"

definition enc_bulk :: "byte list \<Rightarrow> byte list" where
  "enc_bulk s = line BulkString (to_string (int (length s))) @ s @ [CR, LF]"

definition enc_array :: "byte list list \<Rightarrow> byte list" where
  "enc_array ms = line RArray (to_string (int (length ms))) @ concat ms"

context stream_writer
begin

lemma write_all_ok:
  "winvar w \<Longrightarrow> \<exists>w'. write_all wr w bss = Inr w' \<and> winvar w' \<and> written w' = written w @ concat bss"
proof (induction bss arbitrary: w)
  case (Cons b bss)
  obtain w1 where w1: "wr w b = Inr w1" "winvar w1" "written w1 = written w @ b"
    using write_ok [OF Cons.prems] by blast
  from Cons.IH [OF w1(2)] w1 show ?case by auto
qed auto

lemma line_ok:
  assumes "winvar w"
  shows "\<exists>w'. then_finish wr (write_all wr w [[RespTypeToChar t], s]) = Inr w' \<and> winvar w' \<and>
    written w' = written w @ line t s"
proof -
  obtain w1 where w1: "write_all wr w [[RespTypeToChar t], s] = Inr w1" "winvar w1"
    "written w1 = written w @ RespTypeToChar t # s"
    using write_all_ok [OF assms, of "[[RespTypeToChar t], s]"] by auto
  then show ?thesis
    using write_all_ok [OF w1(2), of "[[CR, LF]]"]
    by (auto simp: then_finish_def FinishMessageField_def line_def simp del: write_all.simps)
qed

lemma WriteSimpleString_ok:
  "winvar w \<Longrightarrow> \<exists>w'. WriteSimpleString wr w s = Inr w' \<and> winvar w' \<and>
     written w' = written w @ line SimpleString s"
  unfolding WriteSimpleString_def by (rule line_ok)

lemma WriteError_ok:
  "winvar w \<Longrightarrow> \<exists>w'. WriteError wr w s = Inr w' \<and> winvar w' \<and> written w' = written w @ line RError s"
  unfolding WriteError_def by (rule line_ok)

lemma WriteInt_ok:
  "winvar w \<Longrightarrow> \<exists>w'. WriteInt wr w n = Inr w' \<and> winvar w' \<and>
     written w' = written w @ line RInt (to_string n)"
  unfolding WriteInt_def by (rule line_ok)

lemma StartArray_ok:
  "winvar w \<Longrightarrow> \<exists>w'. StartArray wr w n = Inr w' \<and> winvar w' \<and>
     written w' = written w @ line RArray (to_string (int n))"
  unfolding StartArray_def by (rule line_ok)

lemma WriteNullBulkString_ok:
  "winvar w \<Longrightarrow> \<exists>w'. WriteNullBulkString wr w = Inr w' \<and> winvar w' \<and>
     written w' = written w @ line BulkString ''-1''"
  unfolding WriteNullBulkString_def by (rule line_ok)

lemma WriteNullArray_ok:
  "winvar w \<Longrightarrow> \<exists>w'. WriteNullArray wr w = Inr w' \<and> winvar w' \<and>
     written w' = written w @ line RArray ''-1''"
  unfolding WriteNullArray_def by (rule line_ok)

lemma WriteBulkString_ok:
  assumes "winvar w"
  shows "\<exists>w'. WriteBulkString wr w s = Inr w' \<and> winvar w' \<and> written w' = written w @ enc_bulk s"
proof -
  let ?n = "to_string (int (length s))"
  obtain w1 where w1: "then_finish wr (write_all wr w [[RespTypeToChar BulkString], ?n]) = Inr w1"
    "winvar w1" "written w1 = written w @ line BulkString ?n"
    using line_ok [OF assms] by blast
  obtain w2 where w2: "write_all wr w1 [s] = Inr w2" "winvar w2" "written w2 = written w1 @ s"
    using write_all_ok [OF w1(2), of "[s]"] by auto
  obtain w3 where "FinishMessageField wr w2 = Inr w3" "winvar w3" "written w3 = written w2 @ [CR, LF]"
    using write_all_ok [OF w2(2), of "[[CR, LF]]"] unfolding FinishMessageField_def by auto
  with w1 w2 show ?thesis
    unfolding WriteBulkString_def
    by (auto simp: then_finish_def enc_bulk_def simp del: write_all.simps)
qed

lemma WriteInts_ok:
  "winvar w \<Longrightarrow> \<exists>w'. WriteInts wr w ns = Inr w' \<and> winvar w' \<and>
     written w' = written w @ concat (map (\<lambda>n. line RInt (to_string n)) ns)"
proof (induction ns arbitrary: w)
  case (Cons n ns)
  obtain w1 where w1: "WriteInt wr w n = Inr w1" "winvar w1"
    "written w1 = written w @ line RInt (to_string n)"
    using WriteInt_ok [OF Cons.prems] by blast
  from Cons.IH [OF w1(2)] w1 show ?case by auto
qed auto

lemma WriteArrayInts_ok:
  assumes "winvar w"
  shows "\<exists>w'. WriteArrayInts wr w ns = Inr w' \<and> winvar w' \<and>
     written w' = written w @ enc_array (map (\<lambda>n. line RInt (to_string n)) ns)"
proof -
  obtain w1 where w1: "StartArray wr w (length ns) = Inr w1" "winvar w1"
    "written w1 = written w @ line RArray (to_string (int (length ns)))"
    using StartArray_ok [OF assms] by blast
  from WriteInts_ok [OF w1(2), of ns] w1 show ?thesis
    by (auto simp: WriteArrayInts_def enc_array_def)
qed

end

section \<open>The reader decodes the encodings\<close>

text \<open>The sizes \<open>buf_\<close> goes through: 1023, doubled up to 65472.\<close>

definition buf_cap :: "nat \<Rightarrow> bool" where
  "buf_cap cap \<longleftrightarrow> cap \<in> {1023, 2046, 4092, 8184, 16368, 32736, 65472}"

lemma buf_cap_grow: "buf_cap cap \<Longrightarrow> cap * 2 \<le> 65536 \<Longrightarrow> buf_cap (cap * 2)"
  by (auto simp: buf_cap_def)

lemma buf_cap_max: "buf_cap cap \<Longrightarrow> cap \<le> 65472 \<and> (cap * 2 > 65536 \<longleftrightarrow> cap = 65472)"
  by (auto simp: buf_cap_def)

definition plain :: "byte list \<Rightarrow> bool" where
  "plain xs \<longleftrightarrow> CR \<notin> set xs \<and> LF \<notin> set xs"

lemma plain_to_string: "plain (to_string n)"
  using to_string_no_space [of CR n] to_string_no_space [of LF n]
  by (auto simp: plain_def isspace_def)

text \<open>Whatever stream it reads, the reader never leaves its buffer and accepts only short plain text.\<close>

lemma ReadBasic_loop_result:
  "buf_cap cap \<Longrightarrow> length acc < cap \<Longrightarrow> plain acc \<Longrightarrow> ReadBasic_loop rd s cap acc = Inr (xs, s') \<Longrightarrow>
   length xs < 65472 \<and> plain xs"
proof (induction rd s cap acc rule: ReadBasic_loop.induct)
  case (1 rd s cap acc)
  note unf = "1.prems"(4) [unfolded ReadBasic_loop.simps [of rd s cap acc]]
  show ?case
  proof (cases "ReadFull rd s 1")
    case (Inl e)
    then show ?thesis using "1.prems"(2) unf by simp
  next
    case (Inr p)
    obtain bs t where p: "p = (bs, t)" by (cases p)
    let ?acc = "acc @ [hd bs]"
    consider "hd bs = CR" | "hd bs = LF" "hd bs \<noteq> CR" | "hd bs \<noteq> CR" "hd bs \<noteq> LF" by blast
    then show ?thesis
    proof cases
      case 1
      then show ?thesis using "1.prems"(1,2,3) unf Inr p buf_cap_max [of cap]
        by (auto split: sum.splits if_splits)
    next
      case 2
      then show ?thesis using "1.prems"(2) unf Inr p by simp
    next
      case 3
      have pl: "plain ?acc" using "1.prems"(3) 3 by (auto simp: plain_def)
      show ?thesis
      proof (cases "cap = length ?acc")
        case True
        have le: "length ?acc * 2 \<le> 65536" and eq: "ReadBasic_loop rd t (length ?acc * 2) ?acc = Inr (xs, s')"
          using unf Inr p 3 True by (simp_all add: Let_def split: if_splits)
        then have "buf_cap (length ?acc * 2)" using buf_cap_grow "1.prems"(1) True by metis
        then show ?thesis
          using "1.IH"(1) [OF _ Inr p [symmetric]] eq "1.prems"(2) 3 True pl le by simp
      next
        case False
        then have eq: "ReadBasic_loop rd t cap ?acc = Inr (xs, s')"
          using unf Inr p 3 "1.prems"(2) by (simp add: Let_def)
        then show ?thesis
          using "1.IH"(2) [OF _ Inr p [symmetric]] "1.prems"(1,2) 3 False pl by simp
      qed
    qed
  qed
qed

lemma ReadBasicStringToBuf_result:
  "ReadBasicStringToBuf rd s = Inr (xs, s') \<Longrightarrow> length xs < 65472 \<and> plain xs"
  unfolding ReadBasicStringToBuf_def
  by (rule ReadBasic_loop_result) (auto simp: buf_cap_def plain_def)

lemma ReadBasic_loop_oob:
  "buf_cap cap \<Longrightarrow> length acc < cap \<Longrightarrow> ReadBasic_loop rd s cap acc = Inl OutOfBounds \<Longrightarrow>
   \<exists>s. ReadFull rd s 1 = Inl OutOfBounds"
proof (induction rd s cap acc rule: ReadBasic_loop.induct)
  case (1 rd s cap acc)
  note unf = "1.prems"(3) [unfolded ReadBasic_loop.simps [of rd s cap acc]]
  show ?case
  proof (cases "ReadFull rd s 1")
    case (Inl e)
    then show ?thesis using "1.prems"(2) unf by auto
  next
    case (Inr p)
    obtain bs t where p: "p = (bs, t)" by (cases p)
    let ?acc = "acc @ [hd bs]"
    consider "hd bs = CR" | "hd bs = LF" "hd bs \<noteq> CR" | "hd bs \<noteq> CR" "hd bs \<noteq> LF" by blast
    then show ?thesis
    proof cases
      case 1
      then show ?thesis using "1.prems"(2) unf Inr p by (auto split: sum.splits if_splits)
    next
      case 2
      then show ?thesis using "1.prems"(2) unf Inr p by simp
    next
      case 3
      show ?thesis
      proof (cases "cap = length ?acc")
        case True
        have le: "length ?acc * 2 \<le> 65536" and eq: "ReadBasic_loop rd t (length ?acc * 2) ?acc = Inl OutOfBounds"
          using unf Inr p 3 True by (simp_all add: Let_def split: if_splits)
        then have "buf_cap (length ?acc * 2)" using buf_cap_grow "1.prems"(1) True by metis
        then show ?thesis using "1.IH"(1) [OF _ Inr p [symmetric]] eq "1.prems"(2) 3 True le by simp
      next
        case False
        then have eq: "ReadBasic_loop rd t cap ?acc = Inl OutOfBounds"
          using unf Inr p 3 "1.prems"(2) by (simp add: Let_def)
        then show ?thesis using "1.IH"(2) [OF _ Inr p [symmetric]] "1.prems"(1,2) 3 False by simp
      qed
    qed
  qed
qed

lemma ReadBasicStringToBuf_oob:
  "ReadBasicStringToBuf rd s = Inl OutOfBounds \<Longrightarrow> \<exists>s. ReadFull rd s 1 = Inl OutOfBounds"
  unfolding ReadBasicStringToBuf_def by (rule ReadBasic_loop_oob) (auto simp: buf_cap_def)

context stream_reader
begin

lemma ReadBasic_loop_ok:
  "invar s \<Longrightarrow> content s = xs @ CR # LF # rest \<Longrightarrow> plain xs \<Longrightarrow> buf_cap cap \<Longrightarrow> length acc < cap \<Longrightarrow>
   length acc + length xs < 65472 \<Longrightarrow>
   \<exists>s'. ReadBasic_loop rd s cap acc = Inr (acc @ xs, s') \<and> invar s' \<and> content s' = rest"
proof (induction xs arbitrary: s cap acc)
  case Nil
  obtain s1 where s1: "ReadFull rd s 1 = Inr ([CR], s1)" "invar s1" "content s1 = LF # rest"
    using ReadFull_byte [of s CR] Nil.prems by auto
  obtain s2 where s2: "ReadFull rd s1 1 = Inr ([LF], s2)" "invar s2" "content s2 = rest"
    using ReadFull_byte [OF s1(2,3)] by auto
  show ?case using s1 s2 Nil.prems by (simp add: ReadBasic_loop.simps [of rd s])
next
  case (Cons x xs)
  obtain s1 where s1: "ReadFull rd s 1 = Inr ([x], s1)" "invar s1" "content s1 = xs @ CR # LF # rest"
    using ReadFull_byte [of s x] Cons.prems by auto
  have x: "x \<noteq> CR" "x \<noteq> LF" "plain xs" using Cons.prems by (auto simp: plain_def)
  let ?acc = "acc @ [x]"
  let ?cap = "if cap = length ?acc then length ?acc * 2 else cap"
  have c: "buf_cap ?cap" "length ?acc < ?cap" "cap = length ?acc \<Longrightarrow> length ?acc * 2 \<le> 65536"
    using Cons.prems buf_cap_max [of cap] buf_cap_grow [of cap] by auto
  from Cons.IH [OF s1(2,3) x(3) c(1,2)] Cons.prems(6)
  obtain s2 where "ReadBasic_loop rd s1 ?cap ?acc = Inr (?acc @ xs, s2)" "invar s2" "content s2 = rest"
    by auto
  then show ?case
    using s1 x c(3) Cons.prems
    by (simp add: ReadBasic_loop.simps [of rd s] Let_def split: if_splits)
qed

lemma ReadBasicStringToBuf_ok:
  assumes "invar s" "content s = xs @ [CR, LF] @ rest" "plain xs" "length xs < 65472"
  shows "\<exists>s'. ReadBasicStringToBuf rd s = Inr (xs, s') \<and> invar s' \<and> content s' = rest"
  using ReadBasic_loop_ok [of s xs rest 1023 "[]"] assms
  by (auto simp: ReadBasicStringToBuf_def buf_cap_def)

lemma ReadType_ok:
  assumes "invar s" "content s = RespTypeToChar t # rest"
  shows "\<exists>s'. ReadType rd s = Inr (t, s') \<and> invar s' \<and> content s' = rest"
  using ReadFull_byte [OF assms] by (auto simp: ReadType_def CharToRespType_roundtrip rethrow_def)

lemma ReadSimpleString_ok:
  assumes "invar s" "content s = xs @ [CR, LF] @ rest" "plain xs" "length xs < 65472"
  shows "\<exists>s'. ReadSimpleString rd s = Inr (xs, s') \<and> invar s' \<and> content s' = rest"
  using ReadBasicStringToBuf_ok [OF assms] by (auto simp: ReadSimpleString_def rethrow_def)

lemma ReadError_ok:
  assumes "invar s" "content s = xs @ [CR, LF] @ rest" "plain xs" "length xs < 65472"
  shows "\<exists>s'. ReadError rd s = Inr (xs, s') \<and> invar s' \<and> content s' = rest"
  using ReadBasicStringToBuf_ok [OF assms] by (auto simp: ReadError_def rethrow_def)

lemma ReadNumber_ok:
  assumes "invar s" "content s = to_string n @ [CR, LF] @ rest" "int64_range n"
  shows "\<exists>s'. ReadBasicStringToBuf rd s = Inr (to_string n, s') \<and> invar s' \<and> content s' = rest"
  using ReadBasicStringToBuf_ok [OF assms(1,2) plain_to_string] length_to_string [OF assms(3)] by simp

lemma ReadInt_ok:
  assumes "invar s" "content s = to_string n @ [CR, LF] @ rest" "int64_range n"
  shows "\<exists>s'. ReadInt rd s = Inr (n, s') \<and> invar s' \<and> content s' = rest"
proof -
  have "hd (to_string n) \<in> set (to_string n)" by simp
  then have "hd (to_string n) \<noteq> CHR '' ''"
    using to_string_no_space [of "hd (to_string n)" n] by (auto simp: isspace_def)
  then show ?thesis
    using ReadNumber_ok [OF assms] by (auto simp: ReadInt_def stoll_to_string [OF assms(3)] rethrow_def)
qed

lemma ReadArrayLength_ok:
  assumes "invar s" "content s = to_string n @ [CR, LF] @ rest" "- 1 \<le> n" "n \<le> INT64_MAX"
  shows "\<exists>s'. ReadArrayLength rd s = Inr (n, s') \<and> invar s' \<and> content s' = rest"
proof -
  have "int64_range n" using assms(3,4) by (auto simp: int64_bounds)
  then show ?thesis
    using ReadNumber_ok [OF assms(1,2)] assms(3)
    by (auto simp: ReadArrayLength_def stoll_to_string rethrow_def)
qed

lemma ReadBulkString_null:
  assumes "invar s" "content s = ''-1'' @ [CR, LF] @ rest"
  shows "\<exists>s'. ReadBulkString rd s = Inr (None, s') \<and> invar s' \<and> content s' = rest"
proof -
  have m: "to_string (- 1) = ''-1''" by (code_simp)
  have r: "int64_range (- 1)" by (simp add: int64_bounds)
  have "stoll ''-1'' = Inr (- 1, 2)" using stoll_to_string [OF r] by (simp add: m)
  then show ?thesis
    using ReadNumber_ok [of s "- 1" rest] assms r
    by (auto simp: ReadBulkString_def m rethrow_def)
qed

lemma ReadBulkString_ok:
  assumes "invar s" "content s = to_string (int (length xs)) @ [CR, LF] @ xs @ [CR, LF] @ rest"
    "int (length xs) + 2 \<le> INT64_MAX"
  shows "\<exists>s'. ReadBulkString rd s = Inr (Some xs, s') \<and> invar s' \<and> content s' = rest"
proof -
  let ?n = "int (length xs)"
  have r: "int64_range ?n" using assms(3) by (auto simp: int64_bounds)
  obtain s1 where s1: "ReadBasicStringToBuf rd s = Inr (to_string ?n, s1)" "invar s1"
    "content s1 = xs @ [CR, LF] @ rest"
    using ReadNumber_ok [OF assms(1,2) r] by blast
  obtain s2 where s2: "ReadFull rd s1 (length xs + 2) = Inr (xs @ [CR, LF], s2)" "invar s2"
    "content s2 = rest"
    using ReadFull_ok [OF s1(2), of "length xs + 2"] s1(3) by auto
  have "(xs @ [CR, LF]) ! length xs = CR" "(xs @ [CR, LF]) ! (length xs + 1) = LF"
    by (simp_all add: nth_append)
  then show ?thesis
    using s1 s2 assms(3) by (auto simp: ReadBulkString_def stoll_to_string [OF r] rethrow_def)
qed

end

section \<open>Properties\<close>

text \<open>
  C29: bulk strings survive the wire: what \<open>WriteBulkString\<close> emits, followed by anything, is read back
  by \<open>ReadType\<close> and \<open>ReadBulkString\<close> as the same bytes, also when they contain \<open>CR\<close>, \<open>LF\<close> or nothing, and
  the reader stops exactly behind the message.
\<close>

theorem BulkString_roundtrip:
  assumes "int (length xs) + 2 \<le> INT64_MAX"
  shows "\<exists>w r1 r2. WriteBulkString StringWriter_Write StringWriter_init xs = Inr w \<and>
    ReadType ViewReader_Read (ViewReader_init (StringWriter_View w @ rest)) = Inr (BulkString, r1) \<and>
    ReadBulkString ViewReader_Read r1 = Inr (Some xs, r2) \<and> view_content r2 = rest"
proof -
  obtain w where w: "WriteBulkString StringWriter_Write StringWriter_init xs = Inr w" "StringWriter_View w = enc_bulk xs"
    using sws.WriteBulkString_ok [of StringWriter_init xs] by auto
  obtain r1 where r1: "ReadType ViewReader_Read (ViewReader_init (enc_bulk xs @ rest)) = Inr (BulkString, r1)"
    "view_inv r1" "view_content r1 = to_string (int (length xs)) @ [CR, LF] @ xs @ [CR, LF] @ rest"
    using vr.ReadType_ok [of "ViewReader_init (enc_bulk xs @ rest)" BulkString] by (auto simp: enc_bulk_def line_def)
  from vr.ReadBulkString_ok [OF r1(2,3) assms] w r1 show ?thesis by auto
qed

theorem BulkString_roundtrip_witness:
  "\<exists>w r1 r2. WriteBulkString StringWriter_Write StringWriter_init ''hi'' = Inr w \<and>
    ReadType ViewReader_Read (ViewReader_init (StringWriter_View w @ ''+OK'')) = Inr (BulkString, r1) \<and>
    ReadBulkString ViewReader_Read r1 = Inr (Some ''hi'', r2) \<and> view_content r2 = ''+OK''"
  by (rule BulkString_roundtrip) (simp add: int64_bounds)

text \<open>
  integers survive the wire: every \<open>int64_t\<close> written by \<open>WriteInt\<close> is read back by \<open>ReadType\<close> and
  \<open>ReadInt\<close>, which stop exactly behind the message.
\<close>

theorem Int_roundtrip:
  assumes "int64_range n"
  shows "\<exists>w r1 r2. WriteInt StringWriter_Write StringWriter_init n = Inr w \<and>
    ReadType ViewReader_Read (ViewReader_init (StringWriter_View w @ rest)) = Inr (RInt, r1) \<and>
    ReadInt ViewReader_Read r1 = Inr (n, r2) \<and> view_content r2 = rest"
proof -
  obtain w where w: "WriteInt StringWriter_Write StringWriter_init n = Inr w" "StringWriter_View w = line RInt (to_string n)"
    using sws.WriteInt_ok [of StringWriter_init n] by auto
  obtain r1 where r1: "ReadType ViewReader_Read (ViewReader_init (line RInt (to_string n) @ rest)) = Inr (RInt, r1)"
    "view_inv r1" "view_content r1 = to_string n @ [CR, LF] @ rest"
    using vr.ReadType_ok [of "ViewReader_init (line RInt (to_string n) @ rest)" RInt] by (auto simp: line_def)
  from vr.ReadInt_ok [OF r1(2,3) assms] w r1 show ?thesis by auto
qed

theorem Int_roundtrip_witness:
  "\<exists>w r1 r2. WriteInt StringWriter_Write StringWriter_init (- 42) = Inr w \<and>
    ReadType ViewReader_Read (ViewReader_init (StringWriter_View w @ ''x'')) = Inr (RInt, r1) \<and>
    ReadInt ViewReader_Read r1 = Inr (- 42, r2) \<and> view_content r2 = ''x''"
  by (rule Int_roundtrip) (simp add: int64_bounds)

text \<open>
  C30: the line reader is memory safe and bounded on every stream: \<open>ReadBasicStringToBuf\<close> never stores
  outside its growing buffer, and the text it accepts is shorter than 65472 bytes and free of line
  breaks.
\<close>

theorem ReadBasicStringToBuf_bounded:
  "case ReadBasicStringToBuf rd s of
     Inl e \<Rightarrow> e = OutOfBounds \<longrightarrow> (\<exists>s. ReadFull rd s 1 = Inl OutOfBounds)
   | Inr (xs, s') \<Rightarrow> length xs < 65472 \<and> CR \<notin> set xs \<and> LF \<notin> set xs"
  using ReadBasicStringToBuf_result [of rd s] ReadBasicStringToBuf_oob [of rd s]
  by (auto simp: plain_def split: sum.split)

theorem ReadBasicStringToBuf_bounded_witness:
  "case ReadBasicStringToBuf ViewReader_Read (ViewReader_init ''a'') of
     Inl e \<Rightarrow> e = OutOfBounds \<longrightarrow> (\<exists>s. ReadFull ViewReader_Read s 1 = Inl OutOfBounds)
   | Inr (xs, s') \<Rightarrow> length xs < 65472 \<and> CR \<notin> set xs \<and> LF \<notin> set xs"
  by (rule ReadBasicStringToBuf_bounded)

end
