(* ===== verification/Redis_Server.thy ===== *)
theory Redis_Server
  imports Redis_Storage Resp
begin

text \<open>
  The redis server (\<open>redis/redis-server/server.{h,cpp}\<close>): commands, \<open>ReadCommand\<close>,
  \<open>ProcessCommand\<close>, the loop that serves one connection, and the fibers of \<open>Listen\<close>, which serve
  several connections in turn.  The connection is a pair of streams and the storage any \<open>IStorage\<close>.
  The locale \<open>redis_server\<close> puts the three contracts together; in it the session is shown to answer
  a sequence of requests exactly as the abstract store does.
\<close>

section \<open>Commands\<close>

datatype ECommands = GET | SET | INCR | DECR

datatype Command =
    CommandGet string
  | CommandSet string string
  | CommandIncr string
  | CommandDecr string

fun GetType :: "Command \<Rightarrow> ECommands" where
  "GetType (CommandGet _) = GET"
| "GetType (CommandSet _ _) = SET"
| "GetType (CommandIncr _) = INCR"
| "GetType (CommandDecr _) = DECR"

fun GetKeyArg :: "Command \<Rightarrow> string" where
  "GetKeyArg (CommandGet k) = k"
| "GetKeyArg (CommandSet k _) = k"
| "GetKeyArg (CommandIncr k) = k"
| "GetKeyArg (CommandDecr k) = k"

definition server_commands :: "string \<rightharpoonup> ECommands" where
  "server_commands = [''GET'' \<mapsto> GET, ''SET'' \<mapsto> SET, ''INCR'' \<mapsto> INCR, ''DECR'' \<mapsto> DECR]"

section \<open>ReadCommand\<close>

text \<open>The three locals of \<open>ReadCommand\<close>; \<open>command_type\<close> is not initialised before the first round.\<close>

record command_vars =
  command_type :: "ECommands option"
  command_key :: string
  command_value :: string

definition ReadCommand_bulk :: "'s read_fn \<Rightarrow> 's \<Rightarrow> (byte list option \<times> 's) result" where
  "ReadCommand_bulk rd s =
     (case ReadType rd s of
        Inl e \<Rightarrow> Inl e
      | Inr (ty, s') \<Rightarrow>
          if ty \<noteq> BulkString then Inl (RedisError ''Wrong command format'') else ReadBulkString rd s')"

definition ReadCommand_name :: "nat \<Rightarrow> byte list option \<Rightarrow> ECommands result" where
  "ReadCommand_name command_len command_name =
     (case command_name of
        None \<Rightarrow> Inl (RedisError ''Wrong command name'')
      | Some name \<Rightarrow>
          (case server_commands name of
             None \<Rightarrow> Inl (RedisError ''Wrong command name'')
           | Some ct \<Rightarrow>
               if ((ct = GET \<or> ct = INCR \<or> ct = DECR) \<and> command_len \<noteq> 2) \<or> (ct = SET \<and> command_len \<noteq> 3)
               then Inl (RedisError ''Wrong command format'')
               else Inr ct))"

definition ReadCommand_step ::
  "'s read_fn \<Rightarrow> nat \<Rightarrow> nat \<Rightarrow> command_vars \<Rightarrow> 's \<Rightarrow> (command_vars \<times> 's) result" where
  "ReadCommand_step rd command_len i vars s =
     (if i \<le> 2 then
        (case ReadCommand_bulk rd s of
           Inl e \<Rightarrow> Inl e
         | Inr (b, s') \<Rightarrow>
             if i = 0 then
               (case ReadCommand_name command_len b of
                  Inl e \<Rightarrow> Inl e
                | Inr ct \<Rightarrow> Inr (vars\<lparr>command_type := Some ct\<rparr>, s'))
             else
               (case b of
                  None \<Rightarrow> Inl (RedisError ''Command null key'')
                | Some v \<Rightarrow>
                    Inr (if i = 1 then vars\<lparr>command_key := v\<rparr> else vars\<lparr>command_value := v\<rparr>, s')))
      else Inr (vars, s))"

fun ReadCommand_loop ::
  "'s read_fn \<Rightarrow> nat \<Rightarrow> nat list \<Rightarrow> command_vars \<Rightarrow> 's \<Rightarrow> (command_vars \<times> 's) result" where
  "ReadCommand_loop rd command_len [] vars s = Inr (vars, s)"
| "ReadCommand_loop rd command_len (i # is) vars s =
     (case ReadCommand_step rd command_len i vars s of
        Inl e \<Rightarrow> Inl e
      | Inr (vars', s') \<Rightarrow> ReadCommand_loop rd command_len is vars' s')"

definition make_command :: "command_vars \<Rightarrow> Command result" where
  "make_command vars =
     (case command_type vars of
        Some GET \<Rightarrow> Inr (CommandGet (command_key vars))
      | Some SET \<Rightarrow> Inr (CommandSet (command_key vars) (command_value vars))
      | Some INCR \<Rightarrow> Inr (CommandIncr (command_key vars))
      | Some DECR \<Rightarrow> Inr (CommandDecr (command_key vars))
      | None \<Rightarrow> Inl (RedisError ''Unknown command''))"

definition ReadCommand :: "'s read_fn \<Rightarrow> 's \<Rightarrow> (Command \<times> 's) result" where
  "ReadCommand rd s =
     (case ReadType rd s of
        Inl e \<Rightarrow> Inl e
      | Inr (ty, s1) \<Rightarrow>
          if ty \<noteq> RArray then Inl (RedisError ''Wrong command format'')
          else
            (case ReadArrayLength rd s1 of
               Inl e \<Rightarrow> Inl e
             | Inr (n, s2) \<Rightarrow>
                 let command_len = to_u64 n in
                 if command_len < 2 \<or> command_len > 3 then Inl (RedisError ''Unknown command'')
                 else
                   (case ReadCommand_loop rd (nat command_len) [0..<nat command_len]
                           \<lparr>command_type = None, command_key = [], command_value = []\<rparr> s2 of
                      Inl e \<Rightarrow> Inl e
                    | Inr (vars, s3) \<Rightarrow>
                        (case make_command vars of Inl e \<Rightarrow> Inl e | Inr c \<Rightarrow> Inr (c, s3)))))"

section \<open>ProcessCommand and the session\<close>

text \<open>
  \<open>INCR\<close> and \<open>DECR\<close> pass the new value through the unsigned \<open>ino64_t\<close> before \<open>WriteInt\<close> takes it
  as \<open>int64_t\<close> again.  The storage comes back in every case; the writer only when no exception left
  the connection in an unknown state.
\<close>

definition ProcessCommand ::
  "'w write_fn \<Rightarrow> 't IStorage \<Rightarrow> 'w \<Rightarrow> 't \<Rightarrow> Command \<Rightarrow> 'w result \<times> 't" where
  "ProcessCommand wr st w t c =
     (case c of
        CommandGet key \<Rightarrow>
          (case st_Get st t key of
             Some v \<Rightarrow> (WriteBulkString wr w v, t)
           | None \<Rightarrow> (WriteNullBulkString wr w, t))
      | CommandSet key v \<Rightarrow>
          let t' = st_Set st t key v in (WriteBulkString wr w ''OK'', t')
      | CommandIncr key \<Rightarrow>
          (case st_Change st t key 1 of
             (Inl e, t') \<Rightarrow> (Inl e, t')
           | (Inr n, t') \<Rightarrow> (WriteInt wr w (to_s64 (to_u64 n)), t'))
      | CommandDecr key \<Rightarrow>
          (case st_Change st t key (- 1) of
             (Inl e, t') \<Rightarrow> (Inl e, t')
           | (Inr n, t') \<Rightarrow> (WriteInt wr w (to_s64 (to_u64 n)), t')))"

text \<open>
  One round of the loop in \<open>Listen\<close>: the reader, the writer and the storage to go on with, or the
  storage alone when an exception breaks the loop.
\<close>

datatype ('r, 'w, 't) round = Continue 'r 'w 't | Break 't

definition Session_round ::
  "'r read_fn \<Rightarrow> 'w write_fn \<Rightarrow> 't IStorage \<Rightarrow> 'r \<Rightarrow> 'w \<Rightarrow> 't \<Rightarrow> ('r, 'w, 't) round" where
  "Session_round rd wr st r w t =
     (case ReadCommand rd r of
        Inl _ \<Rightarrow> Break t
      | Inr (c, r') \<Rightarrow>
          (case ProcessCommand wr st w t c of
             (Inl _, t') \<Rightarrow> Break t'
           | (Inr w', t') \<Rightarrow> Continue r' w' t'))"

text \<open>
  The whole loop of one fiber: the last good state of the writer and the storage when the loop ends,
  \<open>None\<close> if it never does.
\<close>

partial_function (option) Session ::
  "'r read_fn \<Rightarrow> 'w write_fn \<Rightarrow> 't IStorage \<Rightarrow> 'r \<Rightarrow> 'w \<Rightarrow> 't \<Rightarrow> ('w \<times> 't) option" where
  "Session rd wr st r w t =
     (case Session_round rd wr st r w t of
        Break t' \<Rightarrow> Some (w, t')
      | Continue r' w' t' \<Rightarrow> Session rd wr st r' w' t')"

declare Session.simps [code]

section \<open>The abstract server\<close>

fun command_words :: "Command \<Rightarrow> byte list list" where
  "command_words (CommandGet k) = [''GET'', k]"
| "command_words (CommandSet k v) = [''SET'', k, v]"
| "command_words (CommandIncr k) = [''INCR'', k]"
| "command_words (CommandDecr k) = [''DECR'', k]"

definition enc_command :: "Command \<Rightarrow> byte list" where
  "enc_command c = enc_array (map enc_bulk (command_words c))"

definition command_fits :: "Command \<Rightarrow> bool" where
  "command_fits c \<longleftrightarrow> (\<forall>w\<in>set (command_words c). int (length w) + 2 \<le> INT64_MAX)"

definition reply_int :: "int result \<times> (string \<rightharpoonup> string) \<Rightarrow> byte list option \<times> (string \<rightharpoonup> string)" where
  "reply_int p = (case p of (Inl _, m) \<Rightarrow> (None, m) | (Inr n, m) \<Rightarrow> (Some (line RInt (to_string n)), m))"

fun exec :: "(string \<rightharpoonup> string) \<Rightarrow> Command \<Rightarrow> byte list option \<times> (string \<rightharpoonup> string)" where
  "exec m (CommandGet k) =
     (Some (case m k of Some v \<Rightarrow> enc_bulk v | None \<Rightarrow> line BulkString ''-1''), m)"
| "exec m (CommandSet k v) = (Some (enc_bulk ''OK''), m(k \<mapsto> canon v))"
| "exec m (CommandIncr k) = reply_int (spec_Change m k 1)"
| "exec m (CommandDecr k) = reply_int (spec_Change m k (- 1))"

fun exec_all :: "(string \<rightharpoonup> string) \<Rightarrow> Command list \<Rightarrow> byte list \<times> (string \<rightharpoonup> string)" where
  "exec_all m [] = ([], m)"
| "exec_all m (c # cs) =
     (case exec m c of
        (None, m') \<Rightarrow> ([], m')
      | (Some r, m') \<Rightarrow> (case exec_all m' cs of (rs, m'') \<Rightarrow> (r @ rs, m'')))"

section \<open>ReadCommand decodes requests\<close>

context stream_reader
begin

lemma ReadCommand_bulk_ok:
  assumes "invar s" "content s = enc_bulk xs @ rest" "int (length xs) + 2 \<le> INT64_MAX"
  shows "\<exists>s'. ReadCommand_bulk rd s = Inr (Some xs, s') \<and> invar s' \<and> content s' = rest"
proof -
  obtain s1 where s1: "ReadType rd s = Inr (BulkString, s1)" "invar s1"
    "content s1 = to_string (int (length xs)) @ [CR, LF] @ xs @ [CR, LF] @ rest"
    using ReadType_ok [OF assms(1), of BulkString] assms(2) by (auto simp: enc_bulk_def line_def)
  from ReadBulkString_ok [OF s1(2,3) assms(3)] s1 show ?thesis by (auto simp: ReadCommand_bulk_def)
qed

lemma ReadCommand_empty: "invar s \<Longrightarrow> content s = [] \<Longrightarrow> \<exists>e. ReadCommand rd s = Inl e"
  using ReadFull_eof [of s 1] by (simp add: ReadCommand_def ReadType_def rethrow_def)

lemma ReadCommand_loop2:
  assumes "invar s" "content s = enc_bulk nm @ enc_bulk k @ rest"
    "int (length nm) + 2 \<le> INT64_MAX" "int (length k) + 2 \<le> INT64_MAX"
    "ReadCommand_name 2 (Some nm) = Inr ct"
  shows "\<exists>s'. ReadCommand_loop rd 2 [0..<2] v s =
      Inr (v\<lparr>command_type := Some ct, command_key := k\<rparr>, s') \<and> invar s' \<and> content s' = rest"
proof -
  obtain s1 where s1: "ReadCommand_bulk rd s = Inr (Some nm, s1)" "invar s1" "content s1 = enc_bulk k @ rest"
    using ReadCommand_bulk_ok [OF assms(1,2,3)] by blast
  obtain s2 where "ReadCommand_bulk rd s1 = Inr (Some k, s2)" "invar s2" "content s2 = rest"
    using ReadCommand_bulk_ok [OF s1(2,3) assms(4)] by blast
  with s1 assms(5) show ?thesis by (simp add: numeral_2_eq_2 ReadCommand_step_def)
qed

lemma ReadCommand_loop3:
  assumes "invar s" "content s = enc_bulk nm @ enc_bulk k @ enc_bulk x @ rest"
    "int (length nm) + 2 \<le> INT64_MAX" "int (length k) + 2 \<le> INT64_MAX" "int (length x) + 2 \<le> INT64_MAX"
    "ReadCommand_name 3 (Some nm) = Inr ct"
  shows "\<exists>s'. ReadCommand_loop rd 3 [0..<3] v s =
      Inr (v\<lparr>command_type := Some ct, command_key := k, command_value := x\<rparr>, s') \<and>
      invar s' \<and> content s' = rest"
proof -
  obtain s1 where s1: "ReadCommand_bulk rd s = Inr (Some nm, s1)" "invar s1"
    "content s1 = enc_bulk k @ enc_bulk x @ rest"
    using ReadCommand_bulk_ok [OF assms(1,2,3)] by blast
  obtain s2 where s2: "ReadCommand_bulk rd s1 = Inr (Some k, s2)" "invar s2" "content s2 = enc_bulk x @ rest"
    using ReadCommand_bulk_ok [OF s1(2,3) assms(4)] by blast
  obtain s3 where "ReadCommand_bulk rd s2 = Inr (Some x, s3)" "invar s3" "content s3 = rest"
    using ReadCommand_bulk_ok [OF s2(2,3) assms(5)] by blast
  with s1 s2 assms(6) show ?thesis by (simp add: numeral_3_eq_3 ReadCommand_step_def)
qed

lemma ReadCommand_start:
  assumes "invar s" "content s = line RArray (to_string n) @ body" "n = 2 \<or> n = 3"
  shows "\<exists>s2. invar s2 \<and> content s2 = body \<and>
    ReadCommand rd s =
      (case ReadCommand_loop rd (nat n) [0..<nat n] \<lparr>command_type = None, command_key = [], command_value = []\<rparr> s2 of
         Inl e \<Rightarrow> Inl e
       | Inr (vars, s3) \<Rightarrow> (case make_command vars of Inl e \<Rightarrow> Inl e | Inr c \<Rightarrow> Inr (c, s3)))"
proof -
  obtain s1 where s1: "ReadType rd s = Inr (RArray, s1)" "invar s1" "content s1 = to_string n @ [CR, LF] @ body"
    using ReadType_ok [OF assms(1), of RArray] assms(2) by (auto simp: line_def)
  obtain s2 where s2: "ReadArrayLength rd s1 = Inr (n, s2)" "invar s2" "content s2 = body"
    using ReadArrayLength_ok [OF s1(2,3)] assms(3) by (auto simp: int64_bounds)
  show ?thesis
    by (rule exI [of _ s2]) (use s1 s2 assms(3) in \<open>auto simp: ReadCommand_def to_u64_def Let_def\<close>)
qed

lemma ReadCommand_ok:
  assumes "invar s" "content s = enc_command c @ rest" "command_fits c"
  shows "\<exists>s'. ReadCommand rd s = Inr (c, s') \<and> invar s' \<and> content s' = rest"
proof -
  let ?v = "\<lparr>command_type = None, command_key = [], command_value = []\<rparr>"
  note defs = enc_command_def enc_array_def command_fits_def
  note names = ReadCommand_name_def server_commands_def make_command_def
  have two: ?thesis
    if c: "command_words c = [nm, k]" and nm: "ReadCommand_name 2 (Some nm) = Inr ct"
      and mk: "make_command (?v\<lparr>command_type := Some ct, command_key := k\<rparr>) = Inr c" for nm k ct
  proof -
    obtain s2 where s2: "invar s2" "content s2 = enc_bulk nm @ enc_bulk k @ rest"
      and eq: "ReadCommand rd s = (case ReadCommand_loop rd 2 [0..<2] ?v s2 of Inl e \<Rightarrow> Inl e
         | Inr (vars, s3) \<Rightarrow> (case make_command vars of Inl e \<Rightarrow> Inl e | Inr c \<Rightarrow> Inr (c, s3)))"
      using ReadCommand_start [OF assms(1), of 2] assms(2) c by (auto simp: defs)
    from ReadCommand_loop2 [OF s2 _ _ nm, of ?v] assms(3) c mk eq show ?thesis by (auto simp: defs)
  qed
  show ?thesis
  proof (cases c)
    case (CommandSet k x)
    obtain s2 where s2: "invar s2" "content s2 = enc_bulk ''SET'' @ enc_bulk k @ enc_bulk x @ rest"
      and eq: "ReadCommand rd s = (case ReadCommand_loop rd 3 [0..<3] ?v s2 of Inl e \<Rightarrow> Inl e
         | Inr (vars, s3) \<Rightarrow> (case make_command vars of Inl e \<Rightarrow> Inl e | Inr c \<Rightarrow> Inr (c, s3)))"
      using ReadCommand_start [OF assms(1), of 3] assms(2) CommandSet by (auto simp: defs)
    have "ReadCommand_name 3 (Some ''SET'') = Inr SET"
      by (simp add: ReadCommand_name_def server_commands_def)
    from ReadCommand_loop3 [OF s2 _ _ _ this, of ?v] assms(3) CommandSet eq show ?thesis
      by (auto simp: defs make_command_def)
  next
    case (CommandGet k)
    with two [of "''GET''" k GET] show ?thesis by (simp add: names)
  next
    case (CommandIncr k)
    with two [of "''INCR''" k INCR] show ?thesis by (simp add: names)
  next
    case (CommandDecr k)
    with two [of "''DECR''" k DECR] show ?thesis by (simp add: names)
  qed
qed

end

section \<open>The session refines the abstract server\<close>

locale redis_server =
  stream_reader rd content invar + stream_writer wr written winvar + storage st model sinv
  for rd :: "'r read_fn" and content invar
    and wr :: "'w write_fn" and written winvar
    and st :: "'t IStorage" and model sinv
begin

lemma ProcessCommand_ok:
  assumes "winvar w" "sinv t"
  shows "\<exists>r t'. ProcessCommand wr st w t c = (r, t') \<and> sinv t' \<and> model t' = snd (exec (model t) c) \<and>
    (case fst (exec (model t) c) of
       None \<Rightarrow> \<exists>e. r = Inl e
     | Some bs \<Rightarrow> \<exists>w'. r = Inr w' \<and> winvar w' \<and> written w' = written w @ bs)"
proof -
  have change: "\<exists>r t'. (case st_Change st t k d of (Inl e, t') \<Rightarrow> (Inl e, t')
      | (Inr n, t') \<Rightarrow> (WriteInt wr w (to_s64 (to_u64 n)), t')) = (r, t') \<and> sinv t' \<and>
      model t' = snd (reply_int (spec_Change (model t) k d)) \<and>
      (case fst (reply_int (spec_Change (model t) k d)) of None \<Rightarrow> \<exists>e. r = Inl e
       | Some bs \<Rightarrow> \<exists>w'. r = Inr w' \<and> winvar w' \<and> written w' = written w @ bs)"
    if d: "int64_range d" for k d
  proof -
    obtain r t' where ch: "st_Change st t k d = (r, t')" by fastforce
    note s = st_Change [OF assms(2) d ch]
    show ?thesis
    proof (cases r)
      case (Inr n)
      then have "int64_range n" using Change_ok [OF assms(2) d] ch by blast
      then have "to_s64 (to_u64 n) = n" by (simp add: to_s64_to_u64 to_s64_id)
      with WriteInt_ok [OF assms(1), of n] ch s Inr show ?thesis by (auto simp: reply_int_def)
    qed (use ch s in \<open>auto simp: reply_int_def\<close>)
  qed
  show ?thesis
  proof (cases c)
    case (CommandGet k)
    then show ?thesis
      using WriteNullBulkString_ok [OF assms(1)] WriteBulkString_ok [OF assms(1)] assms(2)
      by (cases "model t k") (auto simp: ProcessCommand_def st_Get)
  next
    case (CommandSet k v)
    then show ?thesis
      using WriteBulkString_ok [OF assms(1)] st_Set [OF assms(2), of k v]
      by (auto simp: ProcessCommand_def Let_def)
  next
    case (CommandIncr k)
    then show ?thesis using change [of 1 k] by (auto simp: ProcessCommand_def int64_bounds)
  next
    case (CommandDecr k)
    then show ?thesis using change [of "- 1" k] by (auto simp: ProcessCommand_def int64_bounds)
  qed
qed

lemma Session_ok:
  "invar r \<Longrightarrow> winvar w \<Longrightarrow> sinv t \<Longrightarrow> content r = concat (map enc_command cs) \<Longrightarrow>
   (\<forall>c\<in>set cs. command_fits c) \<Longrightarrow>
   \<exists>w' t'. Session rd wr st r w t = Some (w', t') \<and> winvar w' \<and> sinv t' \<and>
     written w' = written w @ fst (exec_all (model t) cs) \<and> model t' = snd (exec_all (model t) cs)"
proof (induction cs arbitrary: r w t)
  case Nil
  then obtain e where "ReadCommand rd r = Inl e" using ReadCommand_empty by auto
  with Nil show ?case by (subst Session.simps) (simp add: Session_round_def)
next
  case (Cons c cs)
  obtain r1 where r1: "ReadCommand rd r = Inr (c, r1)" "invar r1" "content r1 = concat (map enc_command cs)"
    using ReadCommand_ok [OF Cons.prems(1), of c "concat (map enc_command cs)"] Cons.prems(4,5) by auto
  obtain res t1 where p: "ProcessCommand wr st w t c = (res, t1)" "sinv t1"
      "model t1 = snd (exec (model t) c)"
    and res: "case fst (exec (model t) c) of None \<Rightarrow> \<exists>e. res = Inl e
       | Some bs \<Rightarrow> \<exists>w'. res = Inr w' \<and> winvar w' \<and> written w' = written w @ bs"
    using ProcessCommand_ok [OF Cons.prems(2,3), of c] by blast
  show ?case
  proof (cases "fst (exec (model t) c)")
    case None
    then show ?thesis
      using res p r1 Cons.prems(2)
      by (subst Session.simps) (auto simp: Session_round_def split: prod.split)
  next
    case (Some bs)
    then obtain w1 where w1: "res = Inr w1" "winvar w1" "written w1 = written w @ bs"
      using res by auto
    from Cons.IH [OF r1(2) w1(2) p(2) r1(3)] Cons.prems(5) w1 p r1 Some show ?thesis
      by (subst Session.simps) (auto simp: Session_round_def split: prod.split)
  qed
qed

end

section \<open>Listen and Run: several connections\<close>

text \<open>
  \<open>Listen\<close> starts a fiber per accepted connection.  The fibers share the storage only, and
  \<open>ProcessCommand\<close> uses it in one call before it writes, so a round of a session is one step.  A
  session that has ended is \<^term>\<open>None\<close>.
\<close>

record ('r, 'w, 't) server =
  sv_storage :: 't
  sv_sessions :: "('r \<times> 'w) option list"

definition Server_init :: "'t \<Rightarrow> ('r, 'w, 't) server" where
  "Server_init t = \<lparr>sv_storage = t, sv_sessions = []\<rparr>"

definition Listen_accept :: "('r, 'w, 't) server \<Rightarrow> 'r \<times> 'w \<Rightarrow> ('r, 'w, 't) server" where
  "Listen_accept S conn = S\<lparr>sv_sessions := sv_sessions S @ [Some conn]\<rparr>"

definition Listen_round ::
  "'r read_fn \<Rightarrow> 'w write_fn \<Rightarrow> 't IStorage \<Rightarrow> nat \<Rightarrow> ('r, 'w, 't) server \<Rightarrow> ('r, 'w, 't) server" where
  "Listen_round rd wr st i S =
     (case sv_sessions S ! i of
        None \<Rightarrow> S
      | Some (r, w) \<Rightarrow>
          (case Session_round rd wr st r w (sv_storage S) of
             Continue r' w' t' \<Rightarrow> S\<lparr>sv_storage := t', sv_sessions := (sv_sessions S)[i := Some (r', w')]\<rparr>
           | Break t' \<Rightarrow> S\<lparr>sv_storage := t', sv_sessions := (sv_sessions S)[i := None]\<rparr>))"

text \<open>The command a session executes in its next round, if it gets to read one.\<close>

definition next_command :: "'r read_fn \<Rightarrow> nat \<Rightarrow> ('r, 'w, 't) server \<Rightarrow> Command list" where
  "next_command rd i S =
     (case sv_sessions S ! i of
        None \<Rightarrow> []
      | Some (r, w) \<Rightarrow> (case ReadCommand rd r of Inl _ \<Rightarrow> [] | Inr (c, _) \<Rightarrow> [c]))"

inductive server_run ::
  "'r read_fn \<Rightarrow> 'w write_fn \<Rightarrow> 't IStorage \<Rightarrow> ('w \<Rightarrow> bool) \<Rightarrow>
   ('r, 'w, 't) server \<Rightarrow> Command list \<Rightarrow> ('r, 'w, 't) server \<Rightarrow> bool"
  for rd wr st winvar where
  run_start: "server_run rd wr st winvar S [] S"
| run_accept: "server_run rd wr st winvar S cs S' \<Longrightarrow> winvar w \<Longrightarrow>
    server_run rd wr st winvar S cs (Listen_accept S' (r, w))"
| run_round: "server_run rd wr st winvar S cs S' \<Longrightarrow> i < length (sv_sessions S') \<Longrightarrow>
    server_run rd wr st winvar S (cs @ next_command rd i S') (Listen_round rd wr st i S')"

definition apply_all :: "(string \<rightharpoonup> string) \<Rightarrow> Command list \<Rightarrow> (string \<rightharpoonup> string)" where
  "apply_all m cs = foldl (\<lambda>m c. snd (exec m c)) m cs"

context redis_server
begin

definition server_inv :: "('r, 'w, 't) server \<Rightarrow> bool" where
  "server_inv S \<longleftrightarrow> sinv (sv_storage S) \<and> (\<forall>r w. Some (r, w) \<in> set (sv_sessions S) \<longrightarrow> winvar w)"

lemma server_inv_accept: "server_inv S \<Longrightarrow> winvar w \<Longrightarrow> server_inv (Listen_accept S (r, w))"
  by (auto simp: server_inv_def Listen_accept_def)

lemma Listen_round_ok:
  assumes "server_inv S" "i < length (sv_sessions S)"
  shows "server_inv (Listen_round rd wr st i S) \<and>
    model (sv_storage (Listen_round rd wr st i S)) = apply_all (model (sv_storage S)) (next_command rd i S)"
proof (cases "sv_sessions S ! i")
  case None
  then show ?thesis using assms(1) by (simp add: Listen_round_def next_command_def apply_all_def)
next
  case (Some p)
  obtain r w where p: "p = (r, w)" by fastforce
  have w: "winvar w" and t: "sinv (sv_storage S)"
    and others: "\<And>x. \<And>r w. Some (r, w) \<in> set ((sv_sessions S)[i := None]) \<Longrightarrow> winvar w"
    using assms Some p nth_mem [OF assms(2)] set_update_subset_insert [of "sv_sessions S" i None]
    by (auto simp: server_inv_def)
  show ?thesis
  proof (cases "ReadCommand rd r")
    case (Inl e)
    then show ?thesis
      using Some p t others by (simp add: Listen_round_def next_command_def Session_round_def apply_all_def server_inv_def)
  next
    case (Inr q)
    obtain c r1 where q: "q = (c, r1)" by fastforce
    obtain res t1 where pc: "ProcessCommand wr st w (sv_storage S) c = (res, t1)" "sinv t1"
      "model t1 = snd (exec (model (sv_storage S)) c)" "\<And>w'. res = Inr w' \<Longrightarrow> winvar w'"
      using ProcessCommand_ok [OF w t, of c] by (auto split: option.splits)
    have "winvar w'" if "res = Inr w1" "Some (r', w') \<in> set ((sv_sessions S)[i := Some (r1, w1)])" for w1 r' w'
      using that pc(4) assms(1) set_update_subset_insert [of "sv_sessions S" i "Some (r1, w1)"]
      by (auto simp: server_inv_def)
    then show ?thesis
      using Some p Inr q pc others
      by (cases res) (auto simp: Listen_round_def next_command_def Session_round_def apply_all_def server_inv_def)
  qed
qed

lemma server_run_ok:
  "server_run rd wr st winvar S cs S' \<Longrightarrow> server_inv S \<Longrightarrow>
   server_inv S' \<and> model (sv_storage S') = apply_all (model (sv_storage S)) cs"
proof (induction rule: server_run.induct)
  case (run_accept S cs S' w r)
  then show ?case using server_inv_accept [of S' w r] by (simp add: Listen_accept_def)
next
  case (run_round S cs S' i)
  then show ?case using Listen_round_ok [of S' i] by (simp add: apply_all_def)
qed (simp add: apply_all_def)

end

interpretation rs: redis_server ViewReader_Read view_content view_inv StringWriter_Write StringWriter_View string_inv
  SimpleStorage storage_model storage_inv
  by unfold_locales

section \<open>Properties\<close>

text \<open>
  C1: serving one connection refines the abstract store.  On a connection whose input is the RESP
  encoding of the commands \<open>cs\<close>, the session of \<open>Listen\<close> returns, the bytes it wrote are the replies
  the abstract store gives up to the first failing command, and the storage represents the map the
  abstract store ends with.
\<close>

theorem Session_refines:
  assumes "storage_inv t" "\<forall>c\<in>set cs. command_fits c"
  shows "\<exists>w' t'. Session ViewReader_Read StringWriter_Write SimpleStorage
        (ViewReader_init (concat (map enc_command cs))) StringWriter_init t = Some (w', t') \<and>
      StringWriter_View w' = fst (exec_all (storage_model t) cs) \<and>
      storage_inv t' \<and> storage_model t' = snd (exec_all (storage_model t) cs)"
  using rs.Session_ok [of "ViewReader_init (concat (map enc_command cs))" StringWriter_init t cs] assms
  by auto

theorem Session_refines_witness:
  "\<exists>w' t'. Session ViewReader_Read StringWriter_Write SimpleStorage
        (ViewReader_init (concat (map enc_command [CommandSet ''a'' ''1'', CommandIncr ''a''])))
        StringWriter_init Map.empty = Some (w', t') \<and>
      StringWriter_View w' =
        fst (exec_all (storage_model Map.empty) [CommandSet ''a'' ''1'', CommandIncr ''a'']) \<and>
      storage_inv t' \<and>
      storage_model t' = snd (exec_all (storage_model Map.empty) [CommandSet ''a'' ''1'', CommandIncr ''a''])"
  by (rule Session_refines) (simp_all add: command_fits_def int64_bounds)



end
