(* ===== verification/Redis_Client.thy ===== *)
theory Redis_Client
  imports Redis_Server
begin

text \<open>
  The redis client (\<open>redis/redis-client/client.cpp\<close>) on top of any connection, and the properties of
  client and server together: what a call of the client returns when a server session answers it.
\<close>

section \<open>client.cpp\<close>

fun commands_map :: "ECommands \<Rightarrow> string" where
  "commands_map GET = ''GET''"
| "commands_map SET = ''SET''"
| "commands_map INCR = ''INCR''"
| "commands_map DECR = ''DECR''"

text \<open>The writes that start every call: an array header and one bulk string per argument.\<close>

fun WriteBulkStrings :: "'w write_fn \<Rightarrow> 'w \<Rightarrow> byte list list \<Rightarrow> 'w result" where
  "WriteBulkStrings wr w [] = Inr w"
| "WriteBulkStrings wr w (s # ss) =
     (case WriteBulkString wr w s of Inl e \<Rightarrow> Inl e | Inr w' \<Rightarrow> WriteBulkStrings wr w' ss)"

definition Client_send :: "'w write_fn \<Rightarrow> 'w \<Rightarrow> nat \<Rightarrow> byte list list \<Rightarrow> 'w result" where
  "Client_send wr w n ss =
     (case StartArray wr w n of Inl e \<Rightarrow> Inl e | Inr w' \<Rightarrow> WriteBulkStrings wr w' ss)"

definition Client_bad_reply :: "'r read_fn \<Rightarrow> 'r \<Rightarrow> ERespType \<Rightarrow> 'a result" where
  "Client_bad_reply rd r resp_type =
     (if resp_type = RError then
        (case ReadError rd r of Inl e \<Rightarrow> Inl e | Inr (msg, _) \<Rightarrow> Inl (RedisError msg))
      else Inl (RedisError ''Wrong answer type''))"

definition Client_Get ::
  "'r read_fn \<Rightarrow> 'w write_fn \<Rightarrow> 'r \<Rightarrow> 'w \<Rightarrow> string \<Rightarrow> (string option \<times> 'r \<times> 'w) result" where
  "Client_Get rd wr r w key =
     (case Client_send wr w 2 [commands_map GET, key] of
        Inl e \<Rightarrow> Inl e
      | Inr w' \<Rightarrow>
          (case ReadType rd r of
             Inl e \<Rightarrow> Inl e
           | Inr (resp_type, r') \<Rightarrow>
               if resp_type = BulkString then
                 (case ReadBulkString rd r' of Inl e \<Rightarrow> Inl e | Inr (v, r'') \<Rightarrow> Inr (v, r'', w'))
               else Client_bad_reply rd r' resp_type))"

definition Client_Set ::
  "'r read_fn \<Rightarrow> 'w write_fn \<Rightarrow> 'r \<Rightarrow> 'w \<Rightarrow> string \<Rightarrow> string \<Rightarrow> ('r \<times> 'w) result" where
  "Client_Set rd wr r w key val =
     (case Client_send wr w 3 [commands_map SET, key, val] of
        Inl e \<Rightarrow> Inl e
      | Inr w' \<Rightarrow>
          (case ReadType rd r of
             Inl e \<Rightarrow> Inl e
           | Inr (resp_type, r') \<Rightarrow>
               if resp_type = BulkString then
                 (case ReadBulkString rd r' of
                    Inl e \<Rightarrow> Inl e
                  | Inr (resp, r'') \<Rightarrow>
                      if resp \<noteq> Some ''OK'' then Inl (RedisError ''Unsuccessful SET'')
                      else Inr (r'', w'))
               else Client_bad_reply rd r' resp_type))"

definition Client_change ::
  "'r read_fn \<Rightarrow> 'w write_fn \<Rightarrow> 'r \<Rightarrow> 'w \<Rightarrow> ECommands \<Rightarrow> string \<Rightarrow> (int \<times> 'r \<times> 'w) result" where
  "Client_change rd wr r w ct key =
     (case Client_send wr w 2 [commands_map ct, key] of
        Inl e \<Rightarrow> Inl e
      | Inr w' \<Rightarrow>
          (case ReadType rd r of
             Inl e \<Rightarrow> Inl e
           | Inr (resp_type, r') \<Rightarrow>
               if resp_type = RInt then
                 (case ReadInt rd r' of Inl e \<Rightarrow> Inl e | Inr (n, r'') \<Rightarrow> Inr (n, r'', w'))
               else Client_bad_reply rd r' resp_type))"

definition Client_Increment ::
  "'r read_fn \<Rightarrow> 'w write_fn \<Rightarrow> 'r \<Rightarrow> 'w \<Rightarrow> string \<Rightarrow> (int \<times> 'r \<times> 'w) result" where
  "Client_Increment rd wr r w key = Client_change rd wr r w INCR key"

definition Client_Decrement ::
  "'r read_fn \<Rightarrow> 'w write_fn \<Rightarrow> 'r \<Rightarrow> 'w \<Rightarrow> string \<Rightarrow> (int \<times> 'r \<times> 'w) result" where
  "Client_Decrement rd wr r w key = Client_change rd wr r w DECR key"

section \<open>The client speaks the protocol\<close>

context stream_writer
begin

lemma WriteBulkStrings_ok:
  "winvar w \<Longrightarrow> \<exists>w'. WriteBulkStrings wr w ss = Inr w' \<and> winvar w' \<and>
     written w' = written w @ concat (map enc_bulk ss)"
proof (induction ss arbitrary: w)
  case (Cons s ss)
  obtain w1 where w1: "WriteBulkString wr w s = Inr w1" "winvar w1" "written w1 = written w @ enc_bulk s"
    using WriteBulkString_ok [OF Cons.prems] by blast
  from Cons.IH [OF w1(2)] w1 show ?case by auto
qed auto

lemma Client_send_ok:
  assumes "winvar w" "n = length ss"
  shows "\<exists>w'. Client_send wr w n ss = Inr w' \<and> winvar w' \<and>
     written w' = written w @ enc_array (map enc_bulk ss)"
proof -
  obtain w1 where w1: "StartArray wr w n = Inr w1" "winvar w1"
    "written w1 = written w @ line RArray (to_string (int n))"
    using StartArray_ok [OF assms(1)] by blast
  from WriteBulkStrings_ok [OF w1(2), of ss] w1 assms(2) show ?thesis
    by (auto simp: Client_send_def enc_array_def)
qed

end

locale redis_connection =
  stream_reader rd content invar + stream_writer wr written winvar
  for rd :: "'r read_fn" and content invar and wr :: "'w write_fn" and written winvar
begin

lemma Client_Get_ok:
  assumes "invar r" "winvar w" "fst (exec m (CommandGet k)) = Some bs" "content r = bs @ rest"
    "\<And>v. m k = Some v \<Longrightarrow> int (length v) + 2 \<le> INT64_MAX"
  shows "\<exists>r' w'. Client_Get rd wr r w k = Inr (m k, r', w') \<and> invar r' \<and> content r' = rest \<and>
    winvar w' \<and> written w' = written w @ enc_command (CommandGet k)"
proof -
  obtain w1 where w1: "Client_send wr w 2 [''GET'', k] = Inr w1" "winvar w1"
    "written w1 = written w @ enc_command (CommandGet k)"
    using Client_send_ok [OF assms(2), of 2 "[''GET'', k]"] by (auto simp: enc_command_def)
  show ?thesis
  proof (cases "m k")
    case None
    then have "content r = RespTypeToChar BulkString # ''-1'' @ [CR, LF] @ rest"
      using assms(3,4) by (auto simp: line_def)
    from ReadType_ok [OF assms(1) this] obtain r1 where
      r1: "ReadType rd r = Inr (BulkString, r1)" "invar r1" "content r1 = ''-1'' @ [CR, LF] @ rest" by blast
    from ReadBulkString_null [OF r1(2,3)] r1 w1 None show ?thesis by (auto simp: Client_Get_def)
  next
    case (Some v)
    then have "content r = RespTypeToChar BulkString # to_string (int (length v)) @ [CR, LF] @ v @ [CR, LF] @ rest"
      using assms(3,4) by (auto simp: line_def enc_bulk_def)
    from ReadType_ok [OF assms(1) this] obtain r1 where
      r1: "ReadType rd r = Inr (BulkString, r1)" "invar r1"
      "content r1 = to_string (int (length v)) @ [CR, LF] @ v @ [CR, LF] @ rest" by blast
    from ReadBulkString_ok [OF r1(2,3)] assms(5) r1 w1 Some show ?thesis by (auto simp: Client_Get_def)
  qed
qed

lemma Client_Set_ok:
  assumes "invar r" "winvar w" "fst (exec m (CommandSet k v)) = Some bs" "content r = bs @ rest"
  shows "\<exists>r' w'. Client_Set rd wr r w k v = Inr (r', w') \<and> invar r' \<and> content r' = rest \<and>
    winvar w' \<and> written w' = written w @ enc_command (CommandSet k v)"
proof -
  obtain w1 where w1: "Client_send wr w 3 [''SET'', k, v] = Inr w1" "winvar w1"
    "written w1 = written w @ enc_command (CommandSet k v)"
    using Client_send_ok [OF assms(2), of 3 "[''SET'', k, v]"] by (auto simp: enc_command_def)
  have "content r = RespTypeToChar BulkString # to_string (int (length ''OK'')) @ [CR, LF] @ ''OK'' @ [CR, LF] @ rest"
    using assms(3,4) by (auto simp: line_def enc_bulk_def)
  from ReadType_ok [OF assms(1) this] obtain r1 where
    r1: "ReadType rd r = Inr (BulkString, r1)" "invar r1"
    "content r1 = to_string (int (length ''OK'')) @ [CR, LF] @ ''OK'' @ [CR, LF] @ rest" by blast
  from ReadBulkString_ok [OF r1(2,3)] r1 w1 show ?thesis by (auto simp: Client_Set_def int64_bounds)
qed

lemma Client_change_ok:
  assumes "invar r" "winvar w" "content r = line RInt (to_string n) @ rest" "int64_range n"
  shows "\<exists>r' w'. Client_change rd wr r w ct k = Inr (n, r', w') \<and> invar r' \<and> content r' = rest \<and>
    winvar w' \<and> written w' = written w @ enc_array (map enc_bulk [commands_map ct, k])"
proof -
  obtain w1 where w1: "Client_send wr w 2 [commands_map ct, k] = Inr w1" "winvar w1"
    "written w1 = written w @ enc_array (map enc_bulk [commands_map ct, k])"
    using Client_send_ok [OF assms(2), of 2 "[commands_map ct, k]"] by auto
  have "content r = RespTypeToChar RInt # to_string n @ [CR, LF] @ rest"
    using assms(3) by (simp add: line_def)
  from ReadType_ok [OF assms(1) this] obtain r1 where
    r1: "ReadType rd r = Inr (RInt, r1)" "invar r1" "content r1 = to_string n @ [CR, LF] @ rest" by blast
  from ReadInt_ok [OF r1(2,3) assms(4)] r1 w1 show ?thesis by (auto simp: Client_change_def)
qed

text \<open>The server closes the connection when a command fails: the client sees the end of the stream.\<close>

lemma Client_change_closed:
  assumes "invar r" "winvar w" "content r = []"
  shows "Client_change rd wr r w ct k = Inl (RedisError ''Error parsing simple string'')"
proof -
  obtain w1 where "Client_send wr w 2 [commands_map ct, k] = Inr w1"
    using Client_send_ok [OF assms(2), of 2 "[commands_map ct, k]"] by auto
  then show ?thesis
    using ReadFull_eof [OF assms(1), of 1] assms(3) by (simp add: Client_change_def ReadType_def rethrow_def)
qed

end

interpretation rc: redis_connection ViewReader_Read view_content view_inv StringWriter_Write StringWriter_View string_inv
  by unfold_locales

section \<open>Client and server together\<close>

text \<open>The bytes a fresh session sends back for the bytes a client sent, and the storage it leaves.\<close>

definition serve :: "byte list \<Rightarrow> simple_storage \<Rightarrow> (byte list \<times> simple_storage) option" where
  "serve request t =
     (case Session ViewReader_Read StringWriter_Write SimpleStorage (ViewReader_init request) StringWriter_init t of
        None \<Rightarrow> None
      | Some (w, t') \<Rightarrow> Some (StringWriter_View w, t'))"

lemma serve_one:
  assumes "storage_inv t" "command_fits c"
  shows "\<exists>t'. serve (enc_command c) t = Some (case fst (exec (storage_model t) c) of Some bs \<Rightarrow> bs | None \<Rightarrow> [], t') \<and>
    storage_inv t' \<and> storage_model t' = snd (exec (storage_model t) c)"
  using rs.Session_ok [of "ViewReader_init (enc_command c)" StringWriter_init t "[c]"] assms
  by (auto simp: serve_def split: option.splits prod.splits)

text \<open>
  A \<open>GET\<close> of the client answered by the server returns what the storage holds: the client writes
  exactly the request the session decodes, and decodes exactly the reply the session writes.
\<close>

theorem Client_Get_end_to_end:
  assumes "storage_inv t" "command_fits (CommandGet k)"
    "\<forall>v. SimpleStorage_Get t k = Some v \<longrightarrow> int (length v) + 2 \<le> INT64_MAX"
  shows "\<exists>reply t' r' w'. serve (enc_command (CommandGet k)) t = Some (reply, t') \<and>
    Client_Get ViewReader_Read StringWriter_Write (ViewReader_init reply) StringWriter_init k
      = Inr (SimpleStorage_Get t k, r', w') \<and>
    StringWriter_View w' = enc_command (CommandGet k) \<and> storage_model t' = storage_model t"
proof -
  obtain bs where bs: "fst (exec (storage_model t) (CommandGet k)) = Some bs" by simp
  from serve_one [OF assms(1,2)] bs obtain t' where
    t': "serve (enc_command (CommandGet k)) t = Some (bs, t')" "storage_model t' = storage_model t" by auto
  have get: "SimpleStorage_Get t k = storage_model t k"
    by (simp add: SimpleStorage_Get_def storage_model_def)
  from rc.Client_Get_ok [of "ViewReader_init bs" StringWriter_init "storage_model t" k bs "[]"] bs assms(3) t'
  show ?thesis by (auto simp: get)
qed

theorem Client_Get_end_to_end_witness:
  "\<exists>reply t' r' w'. serve (enc_command (CommandGet ''k'')) [''k'' \<mapsto> IntVal 7] = Some (reply, t') \<and>
    Client_Get ViewReader_Read StringWriter_Write (ViewReader_init reply) StringWriter_init ''k''
      = Inr (SimpleStorage_Get [''k'' \<mapsto> IntVal 7] ''k'', r', w') \<and>
    StringWriter_View w' = enc_command (CommandGet ''k'') \<and> storage_model t' = storage_model [''k'' \<mapsto> IntVal 7]"
  using length_to_string [of 7]
  by (intro Client_Get_end_to_end)
    (auto simp: storage_inv_def command_fits_def int64_bounds SimpleStorage_Get_def split: if_splits)

text \<open>
  a \<open>SET\<close> of the client answered by the server succeeds, and afterwards the storage returns the
  canonical form of the value for that key.
\<close>

theorem Client_Set_end_to_end:
  assumes "storage_inv t" "command_fits (CommandSet k v)"
  shows "\<exists>reply t' r' w'. serve (enc_command (CommandSet k v)) t = Some (reply, t') \<and>
    Client_Set ViewReader_Read StringWriter_Write (ViewReader_init reply) StringWriter_init k v = Inr (r', w') \<and>
    StringWriter_View w' = enc_command (CommandSet k v) \<and>
    storage_inv t' \<and> SimpleStorage_Get t' k = Some (canon v)"
proof -
  obtain bs where bs: "fst (exec (storage_model t) (CommandSet k v)) = Some bs" by simp
  from serve_one [OF assms] bs obtain t' where
    t': "serve (enc_command (CommandSet k v)) t = Some (bs, t')" "storage_inv t'"
      "storage_model t' = (storage_model t)(k \<mapsto> canon v)" by auto
  have "SimpleStorage_Get t' k = storage_model t' k"
    by (simp add: SimpleStorage_Get_def storage_model_def)
  with rc.Client_Set_ok [of "ViewReader_init bs" StringWriter_init "storage_model t" k v bs "[]"] bs t'
  show ?thesis by auto
qed

theorem Client_Set_end_to_end_witness:
  "\<exists>reply t' r' w'. serve (enc_command (CommandSet ''k'' ''v'')) Map.empty = Some (reply, t') \<and>
    Client_Set ViewReader_Read StringWriter_Write (ViewReader_init reply) StringWriter_init ''k'' ''v'' = Inr (r', w') \<and>
    StringWriter_View w' = enc_command (CommandSet ''k'' ''v'') \<and>
    storage_inv t' \<and> SimpleStorage_Get t' ''k'' = Some (canon ''v'')"
  by (rule Client_Set_end_to_end) (simp_all add: command_fits_def int64_bounds)

text \<open>
  C25: \<open>Increment\<close> against the server returns the old number plus one (0 for a missing key) when that
  fits \<open>int64_t\<close>, through the unsigned detour of \<open>ProcessCommand\<close>; when the value is no number or the
  sum overflows, the session closes without a reply and the client throws \<open>RedisError\<close>.
\<close>

theorem Client_Increment_end_to_end:
  assumes "storage_inv t" "command_fits (CommandIncr k)"
  shows "\<exists>reply t'. serve (enc_command (CommandIncr k)) t = Some (reply, t') \<and> storage_inv t' \<and>
    (case spec_Change (storage_model t) k 1 of
       (Inr n, m) \<Rightarrow> storage_model t' = m \<and>
         (\<exists>r' w'. Client_Increment ViewReader_Read StringWriter_Write (ViewReader_init reply) StringWriter_init k
            = Inr (n, r', w') \<and> StringWriter_View w' = enc_command (CommandIncr k))
     | (Inl e, m) \<Rightarrow> storage_model t' = storage_model t \<and>
         Client_Increment ViewReader_Read StringWriter_Write (ViewReader_init reply) StringWriter_init k
            = Inl (RedisError ''Error parsing simple string''))"
proof -
  obtain res m where sp: "spec_Change (storage_model t) k 1 = (res, m)" by fastforce
  from serve_one [OF assms] obtain t' where
    t': "serve (enc_command (CommandIncr k)) t =
        Some (case fst (exec (storage_model t) (CommandIncr k)) of Some bs \<Rightarrow> bs | None \<Rightarrow> [], t')"
      "storage_inv t'" "storage_model t' = snd (exec (storage_model t) (CommandIncr k))" by blast
  show ?thesis
  proof (cases res)
    case (Inl e)
    then have "m = storage_model t" using sp by (auto simp: spec_Change_def split: option.splits if_splits)
    with rc.Client_change_closed [of "ViewReader_init []" StringWriter_init INCR k] t' sp Inl show ?thesis
      by (simp add: reply_int_def Client_Increment_def)
  next
    case (Inr n)
    then have n: "int64_range n" using sp by (auto simp: spec_Change_def split: option.splits if_splits)
    from rc.Client_change_ok [of "ViewReader_init (line RInt (to_string n))" StringWriter_init n "[]" INCR k] n t' sp Inr
    show ?thesis by (auto simp: reply_int_def Client_Increment_def enc_command_def)
  qed
qed

theorem Client_Increment_end_to_end_witness:
  "\<exists>reply t'. serve (enc_command (CommandIncr ''k'')) Map.empty = Some (reply, t') \<and> storage_inv t' \<and>
    (case spec_Change (storage_model Map.empty) ''k'' 1 of
       (Inr n, m) \<Rightarrow> storage_model t' = m \<and>
         (\<exists>r' w'. Client_Increment ViewReader_Read StringWriter_Write (ViewReader_init reply) StringWriter_init ''k''
            = Inr (n, r', w') \<and> StringWriter_View w' = enc_command (CommandIncr ''k''))
     | (Inl e, m) \<Rightarrow> storage_model t' = storage_model Map.empty \<and>
         Client_Increment ViewReader_Read StringWriter_Write (ViewReader_init reply) StringWriter_init ''k''
            = Inl (RedisError ''Error parsing simple string''))"
  by (rule Client_Increment_end_to_end) (simp_all add: command_fits_def int64_bounds)

end
