(* ===== verification/Matrix3.thy ===== *)
theory Matrix3
  imports Prelude
begin

text \<open>
  The matrices of \<open>matrix-3.0/matrix.h\<close>.  The source has rows of \<open>uint64_t\<close>; the definitions are
  stated for any commutative ring, of which \<^typ>\<open>uint64\<close>, arithmetic modulo \<open>2 ^ 64\<close>, is the instance the
  interpreter uses, so that \<open>matrix-2.0\<close>, whose matrices are a template, shares the algebra.
  Every loop nest that fills a matrix cell by cell is \<open>build\<close>; the inner products are folds.  The
  main result is that \<open>Pow\<close>, which squares, computes the iterated product.
\<close>

section \<open>matrix.h\<close>

record 'a Matrix =
  matrix :: "'a list list"
  rows_num :: nat
  cols_num :: nat

definition Matrix_init :: "nat \<Rightarrow> nat \<Rightarrow> ('a :: comm_ring_1) Matrix" where
  "Matrix_init r c = \<lparr>matrix = replicate r (replicate c 0), rows_num = r, cols_num = c\<rparr>"

definition entry :: "'a Matrix \<Rightarrow> nat \<Rightarrow> nat \<Rightarrow> 'a" where
  "entry m i j = matrix m ! i ! j"

definition set_entry :: "'a Matrix \<Rightarrow> nat \<Rightarrow> nat \<Rightarrow> 'a \<Rightarrow> 'a Matrix" where
  "set_entry m i j x = m\<lparr>matrix := (matrix m)[i := (matrix m ! i)[j := x]]\<rparr>"

text \<open>\<open>for i < rows: for j < cols: result(i, j) = f(i, j)\<close> on a fresh matrix.\<close>

definition build :: "nat \<Rightarrow> nat \<Rightarrow> (nat \<Rightarrow> nat \<Rightarrow> 'a) \<Rightarrow> 'a Matrix" where
  "build r c f = \<lparr>matrix = map (\<lambda>i. map (f i) [0..<c]) [0..<r], rows_num = r, cols_num = c\<rparr>"

definition Matrix_add :: "('a :: comm_ring_1) Matrix \<Rightarrow> 'a Matrix \<Rightarrow> 'a Matrix" where
  "Matrix_add a b = build (rows_num a) (cols_num a) (\<lambda>i j. entry a i j + entry b i j)"

definition Matrix_neg :: "('a :: comm_ring_1) Matrix \<Rightarrow> 'a Matrix" where
  "Matrix_neg a = build (rows_num a) (cols_num a) (\<lambda>i j. - entry a i j)"

definition Matrix_sub :: "('a :: comm_ring_1) Matrix \<Rightarrow> 'a Matrix \<Rightarrow> 'a Matrix" where
  "Matrix_sub a b = Matrix_add a (Matrix_neg b)"

definition Matrix_mul :: "('a :: comm_ring_1) Matrix \<Rightarrow> 'a Matrix \<Rightarrow> 'a Matrix" where
  "Matrix_mul a b =
     build (rows_num a) (cols_num b)
       (\<lambda>i j. foldl (\<lambda>s z. s + entry a i z * entry b z j) 0 [0..<cols_num a])"

definition Transpose :: "'a Matrix \<Rightarrow> 'a Matrix" where
  "Transpose m = build (cols_num m) (rows_num m) (\<lambda>i j. entry m j i)"

definition Identity :: "nat \<Rightarrow> ('a :: comm_ring_1) Matrix" where
  "Identity n = foldl (\<lambda>m i. set_entry m i i 1) (Matrix_init n n) [0..<n]"

text \<open>The \<open>do ... while (pow)\<close> loop of \<open>Pow\<close>.\<close>

function Pow_loop :: "('a :: comm_ring_1) Matrix \<Rightarrow> 'a Matrix \<Rightarrow> nat \<Rightarrow> 'a Matrix" where
  "Pow_loop res m pow =
     (let res' = (if odd pow then Matrix_mul res m else res);
          m' = Matrix_mul m m;
          pow' = pow div 2
      in if pow' \<noteq> 0 then Pow_loop res' m' pow' else res')"
  by pat_completeness auto
termination
  by (relation "measure (\<lambda>(res, m, pow). pow)") auto

declare Pow_loop.simps [simp del]

definition Pow :: "('a :: comm_ring_1) Matrix \<Rightarrow> nat \<Rightarrow> 'a Matrix" where
  "Pow m pow = Pow_loop (Identity (rows_num m)) m pow"

section \<open>Well-formed matrices\<close>

definition mat_wf :: "nat \<Rightarrow> nat \<Rightarrow> 'a Matrix \<Rightarrow> bool" where
  "mat_wf r c m \<longleftrightarrow>
     rows_num m = r \<and> cols_num m = c \<and> length (matrix m) = r \<and> (\<forall>row\<in>set (matrix m). length row = c)"

lemma mat_wf_dims: "mat_wf r c m \<Longrightarrow> rows_num m = r \<and> cols_num m = c"
  by (simp add: mat_wf_def)

lemma mat_wf_build [simp]: "mat_wf r c (build r c f)"
  by (auto simp: mat_wf_def build_def)

lemma entry_build [simp]: "i < r \<Longrightarrow> j < c \<Longrightarrow> entry (build r c f) i j = f i j"
  by (simp add: entry_def build_def)

lemma dims_build [simp]: "rows_num (build r c f) = r" "cols_num (build r c f) = c"
  by (simp_all add: build_def)

lemma mat_eqI:
  assumes "mat_wf r c a" "mat_wf r c b" "\<And>i j. i < r \<Longrightarrow> j < c \<Longrightarrow> entry a i j = entry b i j"
  shows "a = b"
proof -
  have len: "length (matrix a ! i) = c" "length (matrix b ! i) = c" if "i < r" for i
    using assms(1,2) that by (auto simp: mat_wf_def)
  have "matrix a = matrix b"
  proof (rule nth_equalityI)
    show "length (matrix a) = length (matrix b)" using assms(1,2) by (simp add: mat_wf_def)
    fix i assume i: "i < length (matrix a)"
    then have "i < r" using assms(1) by (simp add: mat_wf_def)
    then show "matrix a ! i = matrix b ! i"
      using len assms(3) by (intro nth_equalityI) (auto simp: entry_def)
  qed
  moreover have "rows_num a = rows_num b" "cols_num a = cols_num b"
    using assms(1,2) by (auto simp: mat_wf_def)
  ultimately show ?thesis by (intro Matrix.equality) auto
qed

lemma mat_wf_set_entry [simp]: "mat_wf r c m \<Longrightarrow> mat_wf r c (set_entry m i j x)"
  using set_update_subset_insert [of "matrix m" i "(matrix m ! i)[j := x]"]
  by (cases "i < length (matrix m)") (auto simp: mat_wf_def set_entry_def list_update_beyond)

lemma entry_set_entry:
  "mat_wf r c m \<Longrightarrow> i < r \<Longrightarrow> j < c \<Longrightarrow> i' < r \<Longrightarrow> j' < c \<Longrightarrow>
   entry (set_entry m i j x) i' j' = (if i' = i \<and> j' = j then x else entry m i' j')"
  by (auto simp: entry_def set_entry_def mat_wf_def nth_list_update)

lemma mat_wf_init [simp]: "mat_wf r c (Matrix_init r c)"
  by (auto simp: mat_wf_def Matrix_init_def)

lemma entry_Matrix_init [simp]: "i < r \<Longrightarrow> j < c \<Longrightarrow> entry (Matrix_init r c) i j = 0"
  by (simp add: entry_def Matrix_init_def)

lemma Identity_eq: "(Identity n :: ('a :: comm_ring_1) Matrix) = build n n (\<lambda>i j. if i = j then 1 else 0)"
proof -
  define D :: "nat \<Rightarrow> 'a Matrix" where "D k = foldl (\<lambda>m i. set_entry m i i 1) (Matrix_init n n) [0..<k]" for k
  have step: "D (Suc k) = set_entry (D k) k k 1" for k by (simp add: D_def)
  have "mat_wf n n (D k) \<and> (\<forall>i<n. \<forall>j<n. entry (D k) i j = (if i = j \<and> i < k then 1 else 0))"
    if "k \<le> n" for k
    using that
  proof (induction k)
    case (Suc k)
    then show ?case by (auto simp: step entry_set_entry [of n n "D k"] less_Suc_eq)
  qed (simp add: D_def)
  from this [of n] show ?thesis
    by (intro mat_eqI [of n n]) (auto simp: Identity_def D_def)
qed

lemma mat_wf_Identity [simp]: "mat_wf n n (Identity n)"
  by (simp add: Identity_eq)

lemma entry_Identity [simp]: "i < n \<Longrightarrow> j < n \<Longrightarrow> entry (Identity n) i j = (if i = j then 1 else 0)"
  by (simp add: Identity_eq)

lemma foldl_sum: "foldl (\<lambda>s z. s + f z) (a :: 'a :: comm_monoid_add) [0..<n] = a + (\<Sum>z<n. f z)"
  by (induction n) (simp_all add: add_ac)

lemma mat_wf_mul [simp]: "mat_wf r k a \<Longrightarrow> mat_wf k c b \<Longrightarrow> mat_wf r c (Matrix_mul a b)"
  by (simp add: Matrix_mul_def mat_wf_dims)

lemma entry_mul:
  "mat_wf r k a \<Longrightarrow> mat_wf k c b \<Longrightarrow> i < r \<Longrightarrow> j < c \<Longrightarrow>
   entry (Matrix_mul a b) i j = (\<Sum>z<k. entry a i z * entry b z j)"
  by (simp add: Matrix_mul_def mat_wf_dims foldl_sum)

section \<open>The ring of matrices\<close>

lemma mul_assoc:
  assumes "mat_wf r k a" "mat_wf k l b" "mat_wf l c d"
  shows "Matrix_mul (Matrix_mul a b) d = Matrix_mul a (Matrix_mul b d)"
proof (rule mat_eqI)
  note ab = mat_wf_mul [OF assms(1,2)] and bd = mat_wf_mul [OF assms(2,3)]
  show "mat_wf r c (Matrix_mul (Matrix_mul a b) d)" "mat_wf r c (Matrix_mul a (Matrix_mul b d))"
    using assms ab bd mat_wf_mul by blast+
  fix i j assume ij: "i < r" "j < c"
  have "entry (Matrix_mul (Matrix_mul a b) d) i j =
      (\<Sum>z<l. \<Sum>y<k. entry a i y * entry b y z * entry d z j)"
    by (simp add: entry_mul [OF ab assms(3) ij] entry_mul [OF assms(1,2)] ij(1) sum_distrib_right)
  also have "\<dots> = (\<Sum>y<k. \<Sum>z<l. entry a i y * (entry b y z * entry d z j))"
    by (subst sum.swap) (simp add: mult.assoc)
  also have "\<dots> = entry (Matrix_mul a (Matrix_mul b d)) i j"
    by (simp add: entry_mul [OF assms(1) bd ij] entry_mul [OF assms(2,3)] ij(2) sum_distrib_left)
  finally show "entry (Matrix_mul (Matrix_mul a b) d) i j = entry (Matrix_mul a (Matrix_mul b d)) i j" .
qed

lemma sum_delta_mul:
  "i < (n :: nat) \<Longrightarrow> (\<Sum>z<n. (if i = z then 1 else 0) * f z) = (f i :: 'a :: comm_semiring_1)"
  by (simp add: if_distrib [of "\<lambda>x. x * _"] cong: if_cong)

lemma mul_Identity_left: "mat_wf r c m \<Longrightarrow> Matrix_mul (Identity r) m = m"
  by (rule mat_eqI [of r c]) (auto simp: entry_mul [of r r "Identity r" c m] sum_delta_mul
      intro: mat_wf_mul [OF mat_wf_Identity])

lemma mul_Identity_right: "mat_wf r c m \<Longrightarrow> Matrix_mul m (Identity c) = m"
proof (rule mat_eqI [of r c])
  assume wf: "mat_wf r c m"
  fix i j assume "i < r" "j < c"
  moreover have "(\<Sum>z<c. entry m i z * (if z = j then 1 else 0)) = entry m i j" if "j < c"
    using that by (simp add: if_distrib [of "\<lambda>x. _ * x"] cong: if_cong)
  ultimately show "entry (Matrix_mul m (Identity c)) i j = entry m i j"
    using entry_mul [OF wf mat_wf_Identity] by simp
qed (auto intro: mat_wf_mul)

section \<open>Powers\<close>

primrec mat_power :: "nat \<Rightarrow> ('a :: comm_ring_1) Matrix \<Rightarrow> nat \<Rightarrow> 'a Matrix" where
  "mat_power n m 0 = Identity n"
| "mat_power n m (Suc k) = Matrix_mul m (mat_power n m k)"

lemma mat_wf_power [simp]: "mat_wf n n m \<Longrightarrow> mat_wf n n (mat_power n m k)"
  by (induction k) (auto intro: mat_wf_mul)

lemma mat_power_add:
  "mat_wf n n m \<Longrightarrow> mat_power n m (j + k) = Matrix_mul (mat_power n m j) (mat_power n m k)"
proof (induction j)
  case 0
  then show ?case using mul_Identity_left [of n n "mat_power n m k"] by simp
next
  case (Suc j)
  then show ?case using mul_assoc [of n n m n "mat_power n m j" n "mat_power n m k"] by simp
qed

lemma mat_power_square:
  assumes "mat_wf n n m"
  shows "mat_power n (Matrix_mul m m) k = mat_power n m (2 * k)"
proof (induction k)
  case (Suc k)
  have "mat_power n m (2 * Suc k) = Matrix_mul m (Matrix_mul m (mat_power n m (2 * k)))" by simp
  also have "\<dots> = Matrix_mul (Matrix_mul m m) (mat_power n m (2 * k))"
    using mul_assoc [OF assms assms mat_wf_power [OF assms]] by simp
  finally show ?case using Suc by simp
qed simp

lemma Pow_loop_ok:
  "mat_wf n n res \<Longrightarrow> mat_wf n n m \<Longrightarrow> Pow_loop res m pow = Matrix_mul res (mat_power n m pow)"
proof (induction res m pow rule: Pow_loop.induct)
  case (1 res m pow)
  let ?res' = "if odd pow then Matrix_mul res m else res"
  have wf: "mat_wf n n ?res'" "mat_wf n n (Matrix_mul m m)"
    using "1.prems" by (auto intro: mat_wf_mul)
  have split: "Matrix_mul ?res' (mat_power n m (2 * (pow div 2))) = Matrix_mul res (mat_power n m pow)"
  proof (cases "odd pow")
    case True
    then have "pow = Suc (2 * (pow div 2))" by presburger
    then have "mat_power n m pow = Matrix_mul m (mat_power n m (2 * (pow div 2)))"
      by (metis mat_power.simps(2))
    with True "1.prems" show ?thesis
      using mul_assoc [of n n res n m n "mat_power n m (2 * (pow div 2))"] by simp
  qed simp
  show ?case
  proof (cases "pow div 2 = 0")
    case True
    then have "Pow_loop res m pow = ?res'" by (simp add: Pow_loop.simps [of res m pow] Let_def)
    with split True wf mul_Identity_right [of n n ?res'] show ?thesis by simp
  next
    case False
    with "1.IH" [OF refl refl refl] wf have
      "Pow_loop ?res' (Matrix_mul m m) (pow div 2) = Matrix_mul ?res' (mat_power n (Matrix_mul m m) (pow div 2))"
      by simp
    moreover have "Pow_loop res m pow = Pow_loop ?res' (Matrix_mul m m) (pow div 2)"
      using False by (simp add: Pow_loop.simps [of res m pow] Let_def)
    ultimately show ?thesis using split mat_power_square [OF "1.prems"(2)] by simp
  qed
qed

lemma Pow_eq_power: "mat_wf n n m \<Longrightarrow> Pow m pow = mat_power n m pow"
  using Pow_loop_ok [of n "Identity n" m pow] mul_Identity_left [of n n "mat_power n m pow"]
  by (simp add: Pow_def mat_wf_dims)

section \<open>Properties\<close>

text \<open>
  C28: \<open>Matrix::Pow\<close>, which works by repeated squaring modulo \<open>2 ^ 64\<close>, returns the iterated product
  \<open>m * m * ... * m\<close> (the identity for 0) of every square matrix.
\<close>

theorem Pow_correct:
  assumes "mat_wf n n m"
  shows "Pow m k = mat_power n m k"
  using assms by (rule Pow_eq_power)

theorem Pow_correct_witness:
  "Pow (build 2 2 (\<lambda>i j. of_nat (i + j) :: uint64)) 5 = mat_power 2 (build 2 2 (\<lambda>i j. of_nat (i + j))) 5"
  by (rule Pow_correct) simp

end
