(* ===== verification/Matrix3_Expression.thy ===== *)
theory Matrix3_Expression
  imports Matrix3 Cpp_Numbers
begin

text \<open>
  The front end of the interpreter of \<open>matrix-3.0\<close>: the tokenizer (\<open>tokenizer.h\<close>) and the
  expressions (\<open>expression.h\<close>).  The constructors of \<open>Constant\<close>, \<open>Mul\<close> and \<open>Sum\<close> are a recursive
  descent parser over the tokens of a line; \<open>Evaluate\<close> turns an expression into the coefficients of
  an affine form.  The main result is that this form has, in every state, the value of the
  expression.  Coefficients are \<open>int64_t\<close> in the source and are kept as 64-bit words: addition,
  subtraction and multiplication are the two's complement ones.
\<close>

section \<open>tokenizer.h\<close>

text \<open>\<open>struct Token\<close>: the field that belongs to the type; the others are never read.\<close>

datatype Token =
    kNumber uint64
  | kSymbol char
  | kVar string
  | kFor
  | kEqv
  | kTab
  | kBadToken
  | kNewLine
  | kEnd

definition is_letter :: "char \<Rightarrow> bool" where
  "is_letter c \<longleftrightarrow> (let n = (of_char c :: nat) in 65 \<le> n \<and> n \<le> 90 \<or> 97 \<le> n \<and> n \<le> 122)"

definition is_name_char :: "char \<Rightarrow> bool" where
  "is_name_char c \<longleftrightarrow> is_letter c \<or> c = CHR ''_'' \<or> isdigit c"

text \<open>The loops of \<open>Consume\<close>: at most four blanks, a number, a name.\<close>

definition take_blanks :: "string \<Rightarrow> nat" where
  "take_blanks inp = min 4 (length (takeWhile (\<lambda>c. c = CHR '' '') inp))"

fun read_number :: "uint64 \<Rightarrow> string \<Rightarrow> uint64 \<times> string" where
  "read_number number [] = (number, [])"
| "read_number number (c # cs) =
     (if isdigit c then read_number (number * 10 + of_nat (of_char c) - 48) cs else (number, c # cs))"

fun read_name :: "string \<Rightarrow> string \<times> string" where
  "read_name [] = ([], [])"
| "read_name (c # cs) =
     (if is_name_char c then (case read_name cs of (s, rest) \<Rightarrow> (c # s, rest)) else ([], c # cs))"

lemma take_blanks_pos: "0 < take_blanks (CHR '' '' # cs)"
  by (simp add: take_blanks_def)

function Consume :: "string \<Rightarrow> Token \<times> string" where
  "Consume inp =
     (case inp of
        [] \<Rightarrow> (kEnd, [])
      | c # cs \<Rightarrow>
          if c = CHR 0x0A then (kNewLine, cs)
          else if c = CHR '' '' then
            (let n = take_blanks inp in
             if n = 4 then (kTab, drop n inp) else Consume (drop n inp))
          else if c \<in> set ''()+-*'' then (kSymbol c, cs)
          else if c = CHR ''='' then (kEqv, cs)
          else if isdigit c then (case read_number 0 inp of (n, rest) \<Rightarrow> (kNumber n, rest))
          else if is_letter c then
            (case read_name inp of (s, rest) \<Rightarrow> (if s = ''for'' then kFor else kVar s, rest))
          else (kBadToken, cs))"
  by pat_completeness auto
termination
  by (relation "measure length") (auto simp: take_blanks_pos)

declare Consume.simps [simp del]

lemma read_number_length: "length (snd (read_number n inp)) \<le> length inp"
  by (induction n inp rule: read_number.induct) auto

lemma read_name_length: "length (snd (read_name inp)) \<le> length inp"
  by (induction inp rule: read_name.induct) (auto split: prod.splits)

lemma Consume_length: "Consume inp = (t, rest) \<Longrightarrow> t \<noteq> kEnd \<Longrightarrow> length rest < length inp"
proof (induction inp arbitrary: t rest rule: Consume.induct)
  case (1 inp)
  show ?case
  proof (cases inp)
    case (Cons c cs)
    have d: "isdigit c \<Longrightarrow> length (snd (read_number 0 inp)) < length inp"
      using Cons read_number_length [of "0 * 10 + of_nat (of_char c) - 48" cs] by simp
    have n: "is_letter c \<Longrightarrow> length (snd (read_name inp)) < length inp"
      using Cons read_name_length [of cs] by (auto simp: is_name_char_def split: prod.splits)
    have b: "length (drop (take_blanks inp) inp) < length inp" if "c = CHR '' ''"
      using that Cons take_blanks_pos [of cs] by simp
    note unf = "1.prems"(1) [unfolded Consume.simps [of inp]]
    show ?thesis
    proof (cases "c = CHR '' '' \<and> take_blanks inp \<noteq> 4")
      case True
      then have "Consume (drop (take_blanks inp) inp) = (t, rest)"
        using unf Cons by (auto simp: Let_def split: if_splits)
      then show ?thesis
        using "1.IH" [of c cs "take_blanks inp"] "1.prems" Cons True b by fastforce
    next
      case False
      then show ?thesis
        using unf "1.prems"(2) d n b Cons
        by (auto simp: Let_def split: if_splits prod.splits)
    qed
  qed (use "1.prems" in \<open>simp add: Consume.simps\<close>)
qed

function Tokenize_loop :: "string \<Rightarrow> Token list list \<Rightarrow> Token list \<Rightarrow> Token list list" where
  "Tokenize_loop inp program cur_line =
     (case Consume inp of
        (token, rest) \<Rightarrow>
          if token = kEnd then
            (if cur_line \<noteq> [] then
               program @ [if last cur_line \<noteq> kNewLine then cur_line @ [kNewLine] else cur_line]
             else program)
          else if token = kNewLine then
            (if cur_line \<noteq> [] then Tokenize_loop rest (program @ [cur_line @ [token]]) []
             else Tokenize_loop rest program cur_line)
          else if token = kTab then
            (if cur_line = [] \<or> last cur_line = kTab then Tokenize_loop rest program (cur_line @ [token])
             else Tokenize_loop rest program cur_line)
          else Tokenize_loop rest program (cur_line @ [token]))"
  by pat_completeness auto
termination
  by (relation "measure (\<lambda>(inp, program, cur_line). length inp)") (auto dest!: Consume_length [OF sym])

declare Tokenize_loop.simps [simp del]

definition Tokenize :: "string \<Rightarrow> Token list list" where
  "Tokenize inp = Tokenize_loop inp [] []"

text \<open>\<open>class Line\<close>: the tokens from \<open>iter_\<close> to the end; \<open>Get\<close> past the end is undefined in C++.\<close>

type_synonym tokens = "Token list"

definition Line_Get :: "tokens \<Rightarrow> Token result" where
  "Line_Get ts = (case ts of [] \<Rightarrow> Inl OutOfBounds | t # _ \<Rightarrow> Inr t)"

definition Line_Next :: "tokens \<Rightarrow> tokens result" where
  "Line_Next ts = (case ts of [] \<Rightarrow> Inl (MatrixException ''End line'') | _ # ts' \<Rightarrow> Inr ts')"

text \<open>Every line the tokenizer produces ends with its only \<open>kNewLine\<close>.\<close>

definition line_ok :: "tokens \<Rightarrow> bool" where
  "line_ok ts \<longleftrightarrow> (\<exists>us. ts = us @ [kNewLine] \<and> kNewLine \<notin> set us \<and> kEnd \<notin> set us)"

lemma Tokenize_loop_ok:
  "(\<forall>l\<in>set program. line_ok l) \<Longrightarrow> kNewLine \<notin> set cur_line \<Longrightarrow> kEnd \<notin> set cur_line \<Longrightarrow>
   \<forall>l\<in>set (Tokenize_loop inp program cur_line). line_ok l"
proof (induction inp program cur_line rule: Tokenize_loop.induct)
  case (1 inp program cur_line)
  obtain t rest where c: "Consume inp = (t, rest)" by fastforce
  have l: "line_ok (cur_line @ [kNewLine])" using "1.prems" by (auto simp: line_ok_def)
  consider "t = kEnd" | "t = kNewLine" | "t = kTab" | "t \<notin> {kEnd, kNewLine, kTab}" by blast
  then show ?case
  proof cases
    case 1
    moreover have "last cur_line \<noteq> kNewLine" if "cur_line \<noteq> []"
      using last_in_set [OF that] "1.prems"(2) by auto
    ultimately show ?thesis using c l "1.prems" by (auto simp: Tokenize_loop.simps [of inp])
  next
    case 2
    then show ?thesis
      using "1.prems" l "1.IH"(1,2) [OF c [symmetric]] by (subst Tokenize_loop.simps) (simp add: c)
  next
    case 3
    then show ?thesis
      using "1.prems" "1.IH"(3,4) [OF c [symmetric]] by (subst Tokenize_loop.simps) (simp add: c)
  next
    case 4
    then show ?thesis
      using "1.prems" "1.IH"(5) [OF c [symmetric]] by (subst Tokenize_loop.simps) (auto simp: c)
  qed
qed

lemma Tokenize_lines: "l \<in> set (Tokenize inp) \<Longrightarrow> line_ok l"
  using Tokenize_loop_ok [of "[]" "[]" inp] by (simp add: Tokenize_def)

section \<open>expression.h\<close>

text \<open>
  \<open>Constant\<close> holds a number, a variable, nothing at all (a token it does not know), a negated
  \<open>Constant\<close> or a \<open>Sum\<close> in parentheses; \<open>Mul\<close> its \<open>mul_\<close> and optional \<open>constant_\<close>; \<open>Sum\<close> its \<open>sum_\<close>
  and optional \<open>mul_\<close> with the operator.
\<close>

datatype Expression =
    ConstantNumber uint64
  | ConstantVar nat
  | ConstantNone
  | ConstantNeg Expression
  | ConstantSum Expression
  | Mul Expression "Expression option"
  | Sum Expression "(char \<times> Expression) option"

type_synonym parsed = "(Expression \<times> tokens) result"

text \<open>
  The constructors.  \<open>Mul_while\<close> and \<open>Sum_while\<close> are the loops, with the fields of the object under
  construction; moving the object into a new one nests it as the left operand.
\<close>

function (sequential)
  Constant_new :: "(string \<rightharpoonup> nat) \<Rightarrow> tokens \<Rightarrow> parsed"
  and Mul_new :: "(string \<rightharpoonup> nat) \<Rightarrow> tokens \<Rightarrow> parsed"
  and Mul_while :: "(string \<rightharpoonup> nat) \<Rightarrow> Expression \<Rightarrow> Expression option \<Rightarrow> tokens \<Rightarrow> parsed"
  and Sum_new :: "(string \<rightharpoonup> nat) \<Rightarrow> tokens \<Rightarrow> parsed"
  and Sum_while :: "(string \<rightharpoonup> nat) \<Rightarrow> Expression \<Rightarrow> (char \<times> Expression) option \<Rightarrow> tokens \<Rightarrow> parsed"
where
  "Constant_new vars [] = Inl OutOfBounds"
| "Constant_new vars (kNumber n # ts) = Inr (ConstantNumber n, ts)"
| "Constant_new vars (kVar x # ts) =
     (case vars x of None \<Rightarrow> Inl OutOfRange | Some i \<Rightarrow> Inr (ConstantVar i, ts))"
| "Constant_new vars (kSymbol c # ts) =
     (if c = CHR ''-'' then
        (case Constant_new vars ts of Inl e \<Rightarrow> Inl e | Inr (x, ts') \<Rightarrow> Inr (ConstantNeg x, ts'))
      else if c = CHR ''('' then
        (case Sum_new vars ts of
           Inl e \<Rightarrow> Inl e
         | Inr (x, ts') \<Rightarrow>
             (case Line_Get ts' of
                Inl e \<Rightarrow> Inl e
              | Inr t \<Rightarrow>
                  if t \<noteq> kSymbol (CHR '')'') then Inl (MatrixException ''Wrong symbol'')
                  else (case Line_Next ts' of Inl e \<Rightarrow> Inl e | Inr ts'' \<Rightarrow> Inr (ConstantSum x, ts''))))
      else Inr (ConstantNone, kSymbol c # ts))"
| "Constant_new vars ts = Inr (ConstantNone, ts)"
| "Mul_new vars ts =
     (case Constant_new vars ts of Inl e \<Rightarrow> Inl e | Inr (x, ts') \<Rightarrow> Mul_while vars x None ts')"
| "Mul_while vars mul constant [] = Inl OutOfBounds"
| "Mul_while vars mul constant (t # ts) =
     (if t = kSymbol (CHR ''*'') then
        (let mul' = (if constant \<noteq> None then Mul mul constant else mul) in
         case Constant_new vars ts of
           Inl e \<Rightarrow> Inl e
         | Inr (x, ts') \<Rightarrow> Mul_while vars mul' (Some x) ts')
      else Inr (Mul mul constant, t # ts))"
| "Sum_new vars ts =
     (case Mul_new vars ts of Inl e \<Rightarrow> Inl e | Inr (x, ts') \<Rightarrow> Sum_while vars x None ts')"
| "Sum_while vars lhs mul [] = Inl OutOfBounds"
| "Sum_while vars lhs mul (t # ts) =
     (case t of
        kSymbol c \<Rightarrow>
          if c = CHR ''+'' \<or> c = CHR ''-'' then
            (let lhs' = (if mul \<noteq> None then Sum lhs mul else lhs) in
             case Mul_new vars ts of
               Inl e \<Rightarrow> Inl e
             | Inr (x, ts') \<Rightarrow> Sum_while vars lhs' (Some (c, x)) ts')
          else Inr (Sum lhs mul, t # ts)
      | _ \<Rightarrow> Inr (Sum lhs mul, t # ts))"
  by pat_completeness auto
termination
proof -
  let ?dom = Constant_new_Mul_new_Mul_while_Sum_new_Sum_while_dom
  have len:
    "?dom (Inl (Inl (vars, ts))) \<Longrightarrow> (\<forall>x ts'. Constant_new vars ts = Inr (x, ts') \<longrightarrow> length ts' \<le> length ts)"
    "?dom (Inl (Inr (vars, ts))) \<Longrightarrow> (\<forall>x ts'. Mul_new vars ts = Inr (x, ts') \<longrightarrow> length ts' \<le> length ts)"
    "?dom (Inr (Inl (vars, mul, c, ts))) \<Longrightarrow>
       (\<forall>x ts'. Mul_while vars mul c ts = Inr (x, ts') \<longrightarrow> length ts' \<le> length ts)"
    "?dom (Inr (Inr (Inl (vars, ts)))) \<Longrightarrow>
       (\<forall>x ts'. Sum_new vars ts = Inr (x, ts') \<longrightarrow> length ts' \<le> length ts)"
    "?dom (Inr (Inr (Inr (vars, lhs, m, ts)))) \<Longrightarrow>
       (\<forall>x ts'. Sum_while vars lhs m ts = Inr (x, ts') \<longrightarrow> length ts' \<le> length ts)"
    for vars ts mul c lhs m
    by (induction vars ts and vars ts and vars mul c ts and vars ts and vars lhs m ts
        rule: Constant_new_Mul_new_Mul_while_Sum_new_Sum_while.pinduct)
      (fastforce simp: Constant_new.psimps Mul_new.psimps Mul_while.psimps Sum_new.psimps Sum_while.psimps
        Line_Get_def Line_Next_def Let_def split: sum.splits list.splits if_splits option.splits Token.splits)+
  show ?thesis
    by (relation "measures [
        \<lambda>x. case x of Inl (Inl (_, ts)) \<Rightarrow> length ts | Inl (Inr (_, ts)) \<Rightarrow> length ts
          | Inr (Inl (_, _, _, ts)) \<Rightarrow> length ts | Inr (Inr (Inl (_, ts))) \<Rightarrow> length ts
          | Inr (Inr (Inr (_, _, _, ts))) \<Rightarrow> length ts,
        \<lambda>x. case x of Inl (Inl _) \<Rightarrow> 0 | Inl (Inr _) \<Rightarrow> 1 | Inr (Inl _) \<Rightarrow> 0 | Inr (Inr (Inl _)) \<Rightarrow> 2
          | Inr (Inr (Inr _)) \<Rightarrow> 0]")
      (auto dest!: len simp: le_less less_Suc_eq_le)
qed

declare Mul_new.simps [simp del] Sum_new.simps [simp del]

lemmas new_induct = Constant_new_Mul_new_Mul_while_Sum_new_Sum_while.induct

text \<open>The rest of a line, up to and including its \<open>kNewLine\<close>, whose variables all have an index.\<close>

definition line_tail :: "(string \<rightharpoonup> nat) \<Rightarrow> tokens \<Rightarrow> bool" where
  "line_tail vars ts \<longleftrightarrow> ts \<noteq> [] \<and> last ts = kNewLine \<and> (\<forall>x. kVar x \<in> set ts \<longrightarrow> vars x \<noteq> None)"

fun indices_below :: "nat \<Rightarrow> Expression \<Rightarrow> bool" where
  "indices_below n (ConstantNumber _) = True"
| "indices_below n (ConstantVar i) = (i < n)"
| "indices_below n ConstantNone = True"
| "indices_below n (ConstantNeg e) = indices_below n e"
| "indices_below n (ConstantSum e) = indices_below n e"
| "indices_below n (Mul m c) = (indices_below n m \<and> (case c of None \<Rightarrow> True | Some e \<Rightarrow> indices_below n e))"
| "indices_below n (Sum s m) = (indices_below n s \<and> (case m of None \<Rightarrow> True | Some (_, e) \<Rightarrow> indices_below n e))"

definition parse_ok :: "nat \<Rightarrow> (string \<rightharpoonup> nat) \<Rightarrow> parsed \<Rightarrow> bool" where
  "parse_ok n vars r \<longleftrightarrow>
     (case r of
        Inl e \<Rightarrow> e = MatrixException ''Wrong symbol''
      | Inr (x, ts') \<Rightarrow> indices_below n x \<and> line_tail vars ts')"

lemma line_tail_Nil [simp]: "\<not> line_tail vars []"
  by (simp add: line_tail_def)

lemma line_tail_Cons: "line_tail vars (t # ts) \<Longrightarrow> t \<noteq> kNewLine \<Longrightarrow> line_tail vars ts"
  by (auto simp: line_tail_def split: if_splits)

lemma new_parse_ok:
  "(\<forall>i\<in>ran vars. i < n) \<Longrightarrow> line_tail vars ts \<Longrightarrow> parse_ok n vars (Constant_new vars ts)"
  "(\<forall>i\<in>ran vars. i < n) \<Longrightarrow> line_tail vars ts \<Longrightarrow> parse_ok n vars (Mul_new vars ts)"
  "(\<forall>i\<in>ran vars. i < n) \<Longrightarrow> line_tail vars ts \<Longrightarrow> indices_below n (Mul mul c) \<Longrightarrow>
     parse_ok n vars (Mul_while vars mul c ts)"
  "(\<forall>i\<in>ran vars. i < n) \<Longrightarrow> line_tail vars ts \<Longrightarrow> parse_ok n vars (Sum_new vars ts)"
  "(\<forall>i\<in>ran vars. i < n) \<Longrightarrow> line_tail vars ts \<Longrightarrow> indices_below n (Sum lhs m) \<Longrightarrow>
     parse_ok n vars (Sum_while vars lhs m ts)"
proof (induction vars ts and vars ts and vars mul c ts and vars ts and vars lhs m ts rule: new_induct)
  case (3 vars x ts)
  then have "line_tail vars ts" "vars x \<noteq> None" using line_tail_Cons by (blast, auto simp: line_tail_def)
  with 3 show ?case by (auto simp: parse_ok_def ran_def)
next
  case (4 vars c ts)
  then have ts: "line_tail vars ts" using line_tail_Cons by blast
  consider "c = CHR ''-''" | "c = CHR ''(''" | "c \<noteq> CHR ''-''" "c \<noteq> CHR ''(''" by blast
  then show ?case
  proof cases
    case 2
    with 4 ts have "parse_ok n vars (Sum_new vars ts)" by simp
    with 2 show ?thesis
      by (auto simp: parse_ok_def Line_Get_def Line_Next_def split: sum.splits list.splits
          dest: line_tail_Cons)
  qed (use 4 ts in \<open>auto simp: parse_ok_def split: sum.splits\<close>)
next
  case (6 vars ts)
  then have "parse_ok n vars (Constant_new vars ts)" by simp
  with 6 show ?case by (cases "Constant_new vars ts") (auto simp: parse_ok_def Mul_new.simps [of vars ts])
next
  case (8 vars mul c t ts)
  show ?case
  proof (cases "t = kSymbol (CHR ''*'')")
    case True
    then have ts: "line_tail vars ts" using "8.prems"(2) line_tail_Cons by blast
    with "8.IH"(1) [OF True refl] "8.prems" have p: "parse_ok n vars (Constant_new vars ts)" by blast
    show ?thesis
    proof (cases "Constant_new vars ts")
      case (Inr q)
      obtain x ts' where q: "q = (x, ts')" by fastforce
      with p Inr have "line_tail vars ts'" "indices_below n x" by (simp_all add: parse_ok_def)
      with "8.IH"(2) [OF True refl Inr q [symmetric]] "8.prems" show ?thesis
        using True Inr q by (auto simp: Let_def)
    qed (use True p in \<open>simp add: parse_ok_def Let_def\<close>)
  qed (use "8.prems" in \<open>auto simp: parse_ok_def\<close>)
next
  case (9 vars ts)
  then have "parse_ok n vars (Mul_new vars ts)" by simp
  with 9 show ?case by (cases "Mul_new vars ts") (auto simp: parse_ok_def Sum_new.simps [of vars ts])
next
  case (11 vars lhs mul t ts)
  show ?case
  proof (cases "t = kSymbol (CHR ''+'') \<or> t = kSymbol (CHR ''-'')")
    case True
    then have ts: "line_tail vars ts" using "11.prems"(2) line_tail_Cons by blast
    then obtain op where op: "t = kSymbol op" "op = CHR ''+'' \<or> op = CHR ''-''" using True by auto
    have p: "parse_ok n vars (Mul_new vars ts)" using "11.IH"(1) [OF op refl] "11.prems" ts by blast
    show ?thesis
    proof (cases "Mul_new vars ts")
      case (Inr q)
      obtain x ts' where q: "q = (x, ts')" by fastforce
      with p Inr have "line_tail vars ts'" "indices_below n x" by (simp_all add: parse_ok_def)
      with "11.IH"(2) [OF op refl Inr q [symmetric]] "11.prems" show ?thesis
        using op Inr q by (auto simp: Let_def)
    qed (use op p in \<open>auto simp: parse_ok_def Let_def\<close>)
  qed (use "11.prems" in \<open>auto simp: parse_ok_def split: Token.splits\<close>)
qed (auto simp: parse_ok_def line_tail_def split: if_splits)

section \<open>Evaluate\<close>

definition is_constant :: "nat \<Rightarrow> uint64 list \<Rightarrow> bool" where
  "is_constant n coeffs \<longleftrightarrow> (\<forall>i\<in>set [0..<n]. coeffs ! i = 0)"

definition Mul_coeffs :: "nat \<Rightarrow> uint64 list \<Rightarrow> uint64 list \<Rightarrow> uint64 list result" where
  "Mul_coeffs n a b =
     (let (coeffs, other) = (if \<not> is_constant n a then (b, a) else (a, b)) in
      if \<not> is_constant n coeffs then Inl (MatrixException ''Non constant product'')
      else Inr (map (\<lambda>x. x * last coeffs) other))"

definition Sum_coeffs :: "char \<Rightarrow> uint64 list \<Rightarrow> uint64 list \<Rightarrow> uint64 list" where
  "Sum_coeffs op coeffs other =
     (if op = CHR ''+'' then map2 (+) coeffs other
      else if op = CHR ''-'' then map2 (-) coeffs other
      else coeffs)"

fun Evaluate :: "nat \<Rightarrow> Expression \<Rightarrow> uint64 list result" where
  "Evaluate n (ConstantNumber k) = Inr ((replicate (n + 1) 0)[n := k])"
| "Evaluate n (ConstantVar i) = Inr ((replicate (n + 1) 0)[i := 1])"
| "Evaluate n ConstantNone = Inr (replicate (n + 1) 0)"
| "Evaluate n (ConstantNeg e) =
     (case Evaluate n e of Inl x \<Rightarrow> Inl x | Inr coeffs \<Rightarrow> Inr (map (\<lambda>c. c * (- 1)) coeffs))"
| "Evaluate n (ConstantSum e) = Evaluate n e"
| "Evaluate n (Mul m c) =
     (case Evaluate n m of
        Inl x \<Rightarrow> Inl x
      | Inr coeffs \<Rightarrow>
          (case c of
             None \<Rightarrow> Inr coeffs
           | Some e \<Rightarrow>
               (case Evaluate n e of Inl x \<Rightarrow> Inl x | Inr other \<Rightarrow> Mul_coeffs n coeffs other)))"
| "Evaluate n (Sum s m) =
     (case Evaluate n s of
        Inl x \<Rightarrow> Inl x
      | Inr coeffs \<Rightarrow>
          (case m of
             None \<Rightarrow> Inr coeffs
           | Some (op, e) \<Rightarrow>
               (case Evaluate n e of
                  Inl x \<Rightarrow> Inl x
                | Inr other \<Rightarrow> Inr (Sum_coeffs op coeffs other))))"

text \<open>The value of an expression in a state, by the arithmetic of \<open>uint64_t\<close>.\<close>

fun expr_value :: "uint64 list \<Rightarrow> Expression \<Rightarrow> uint64" where
  "expr_value st (ConstantNumber k) = k"
| "expr_value st (ConstantVar i) = st ! i"
| "expr_value st ConstantNone = 0"
| "expr_value st (ConstantNeg e) = - expr_value st e"
| "expr_value st (ConstantSum e) = expr_value st e"
| "expr_value st (Mul m c) = (case c of None \<Rightarrow> expr_value st m | Some e \<Rightarrow> expr_value st m * expr_value st e)"
| "expr_value st (Sum s m) =
     (case m of
        None \<Rightarrow> expr_value st s
      | Some (op, e) \<Rightarrow>
          if op = CHR ''+'' then expr_value st s + expr_value st e
          else if op = CHR ''-'' then expr_value st s - expr_value st e
          else expr_value st s)"

definition affine :: "nat \<Rightarrow> uint64 list \<Rightarrow> uint64 list \<Rightarrow> uint64" where
  "affine n coeffs st = (\<Sum>i<n. st ! i * coeffs ! i) + coeffs ! n"

lemma affine_constant: "is_constant n a \<Longrightarrow> affine n a st = a ! n"
  by (simp add: affine_def is_constant_def)

lemma affine_scale: "length a = n + 1 \<Longrightarrow> affine n (map (\<lambda>x. x * k) a) st = affine n a st * k"
  by (simp add: affine_def sum_distrib_right distrib_right mult.assoc)

lemma Mul_coeffs_ok:
  assumes "length a = n + 1" "length b = n + 1" "Mul_coeffs n a b = Inr c"
  shows "length c = n + 1 \<and> affine n c st = affine n a st * affine n b st"
proof -
  have l: "last x = x ! n" if "length x = n + 1" for x :: "uint64 list"
    using that by (metis add_diff_cancel_right' last_conv_nth list.size(3) zero_neq_one add_eq_0_iff_both_eq_0)
  show ?thesis
  proof (cases "is_constant n a")
    case True
    then have "c = map (\<lambda>x. x * a ! n) b" using assms l by (simp add: Mul_coeffs_def)
    then show ?thesis
      using assms affine_scale [of b n "a ! n" st] affine_constant [OF True] by (simp add: mult.commute)
  next
    case False
    then have b: "is_constant n b" and "c = map (\<lambda>x. x * b ! n) a"
      using assms l by (simp_all add: Mul_coeffs_def split: if_splits)
    then show ?thesis
      using assms affine_scale [of a n "b ! n" st] affine_constant [OF b] by simp
  qed
qed

lemma Evaluate_value:
  "indices_below n e \<Longrightarrow> Evaluate n e = Inr cs \<Longrightarrow> length cs = n + 1 \<and> affine n cs st = expr_value st e"
proof (induction e arbitrary: cs)
  case (ConstantNumber k)
  then show ?case by (auto simp: affine_def nth_append nth_list_update simp del: replicate_Suc)
next
  case (ConstantVar i)
  then show ?case
    by (auto simp: affine_def nth_list_update if_distrib [of "\<lambda>x. _ * x"] simp del: replicate_Suc cong: if_cong)
next
  case ConstantNone
  then show ?case by (auto simp: affine_def simp del: replicate_Suc)
next
  case (ConstantNeg e)
  then show ?case using affine_scale [of _ n "- 1" st] by (fastforce split: sum.splits)
next
  case (Mul m c)
  obtain a where a: "Evaluate n m = Inr a" "length a = n + 1" "affine n a st = expr_value st m"
    using Mul.prems Mul.IH(1) by (auto split: sum.splits)
  show ?case
  proof (cases c)
    case None
    then show ?thesis using a Mul.prems by simp
  next
    case (Some e)
    then obtain b where b: "Evaluate n e = Inr b" "length b = n + 1" "affine n b st = expr_value st e"
      using a Mul.prems Mul.IH(2) [of e] by (auto split: sum.splits)
    then show ?thesis using Mul_coeffs_ok [OF a(2) b(2), of cs st] a Some Mul.prems by simp
  qed
next
  case (Sum s m)
  obtain a where a: "Evaluate n s = Inr a" "length a = n + 1" "affine n a st = expr_value st s"
    using Sum.prems Sum.IH(1) by (auto split: sum.splits)
  show ?case
  proof (cases m)
    case None
    then show ?thesis using a Sum.prems by simp
  next
    case (Some p)
    obtain op e where p: "p = (op, e)" by fastforce
    then obtain b where b: "Evaluate n e = Inr b" "length b = n + 1" "affine n b st = expr_value st e"
      using a Some Sum.prems Sum.IH(2) [of p e] by (auto split: sum.splits)
    have "affine n (map2 (+) a b) st = affine n a st + affine n b st"
      "affine n (map2 (-) a b) st = affine n a st - affine n b st"
      using a(2) b(2) by (simp_all add: affine_def sum.distrib sum_subtractf algebra_simps)
    then show ?thesis using a b p Some Sum.prems by (auto simp: Sum_coeffs_def split: if_splits)
  qed
qed auto

lemma Evaluate_error: "Evaluate n e = Inl x \<Longrightarrow> x = MatrixException ''Non constant product''"
  by (induction e arbitrary: x)
    (auto simp: Mul_coeffs_def Let_def split: sum.splits option.splits if_splits prod.splits)
end
