(* ===== verification/Matrix3_Interpreter.thy ===== *)
theory Matrix3_Interpreter
  imports Matrix3_Expression
begin

text \<open>
  The interpreter of \<open>matrix-3.0/interpreter.h\<close>, which compiles a program to one matrix: an
  assignment is an elementary matrix, a loop the power of its body's matrix.  It is compared with an
  interpreter that executes the same lines statement by statement on the values of the variables.
\<close>

section \<open>interpreter.h\<close>

text \<open>The variables with their indices, in the order of their first occurrence.\<close>

type_synonym var_map = "(string \<times> nat) list"

definition GatherVars_token :: "var_map \<Rightarrow> Token \<Rightarrow> var_map" where
  "GatherVars_token vars token =
     (case token of
        kVar x \<Rightarrow> if map_of vars x = None then vars @ [(x, length vars)] else vars
      | _ \<Rightarrow> vars)"

definition GatherVars :: "Token list list \<Rightarrow> var_map" where
  "GatherVars program = foldl (\<lambda>vars line. foldl GatherVars_token vars line) [] program"

fun CountTabs :: "tokens \<Rightarrow> (nat \<times> tokens) result" where
  "CountTabs [] = Inl OutOfBounds"
| "CountTabs (t # ts) =
     (if t = kTab then (case CountTabs ts of Inl e \<Rightarrow> Inl e | Inr (k, ts') \<Rightarrow> Inr (k + 1, ts'))
      else Inr (0, t # ts))"

text \<open>
  The assignment branch up to the construction of \<open>Sum\<close>: the operator (\<^term>\<open>None\<close> for a plain \<open>=\<close>),
  then the equality sign and the expression.
\<close>

definition parse_op :: "tokens \<Rightarrow> (char option \<times> tokens) result" where
  "parse_op ts =
     (case Line_Get ts of
        Inl e \<Rightarrow> Inl e
      | Inr (kSymbol op) \<Rightarrow>
          if op \<noteq> CHR ''+'' \<and> op \<noteq> CHR ''-'' \<and> op \<noteq> CHR ''*''
          then Inl (MatrixException ''Wrong equation'')
          else (case Line_Next ts of Inl e \<Rightarrow> Inl e | Inr ts' \<Rightarrow> Inr (Some op, ts'))
      | Inr _ \<Rightarrow> Inr (None, ts))"

definition parse_rhs :: "var_map \<Rightarrow> tokens \<Rightarrow> (Expression \<times> tokens) result" where
  "parse_rhs vars ts =
     (case Line_Get ts of
        Inl e \<Rightarrow> Inl e
      | Inr t \<Rightarrow>
          if t \<noteq> kEqv then Inl (MatrixException ''Miss equation'')
          else (case Line_Next ts of Inl e \<Rightarrow> Inl e | Inr ts' \<Rightarrow> Sum_new (map_of vars) ts'))"

definition parse_assign ::
  "var_map \<Rightarrow> string \<Rightarrow> tokens \<Rightarrow> (nat \<times> char option \<times> Expression \<times> tokens) result" where
  "parse_assign vars x ts =
     (case map_of vars x of
        None \<Rightarrow> Inl OutOfRange
      | Some var_index \<Rightarrow>
          (case parse_op ts of
             Inl e \<Rightarrow> Inl e
           | Inr (op, ts1) \<Rightarrow>
               (case parse_rhs vars ts1 of
                  Inl e \<Rightarrow> Inl e
                | Inr (ex, ts2) \<Rightarrow> Inr (var_index, op, ex, ts2))))"

definition set_column :: "uint64 Matrix \<Rightarrow> nat \<Rightarrow> uint64 list \<Rightarrow> uint64 Matrix" where
  "set_column m j col = foldl (\<lambda>m i. set_entry m i j (col ! i)) m [0..<length col]"

definition add_to :: "uint64 Matrix \<Rightarrow> nat \<Rightarrow> nat \<Rightarrow> uint64 \<Rightarrow> uint64 Matrix" where
  "add_to m i j x = set_entry m i j (entry m i j + x)"

text \<open>The cases on \<open>op\<close>; \<open>n\<close> is \<open>vars_.size()\<close>.\<close>

definition apply_op :: "nat \<Rightarrow> nat \<Rightarrow> char option \<Rightarrow> uint64 Matrix \<Rightarrow> uint64 Matrix result" where
  "apply_op n var_index op transform =
     (if op = Some (CHR ''+'') then Inr (add_to transform var_index var_index 1)
      else if op = Some (CHR ''-'') then
        Inr (add_to
              (foldl (\<lambda>m i. set_entry m i var_index (- entry m i var_index)) transform [0..<n + 1])
              var_index var_index 1)
      else if op = Some (CHR ''*'') then
        (if \<exists>i\<in>set [0..<n]. entry transform i var_index \<noteq> 0
         then Inl (MatrixException ''Non consntant expression for *='')
         else
           Inr (set_entry (set_entry transform var_index var_index (entry transform n var_index))
                  n var_index 0))
      else Inr transform)"

definition Interpreter_assign :: "var_map \<Rightarrow> string \<Rightarrow> tokens \<Rightarrow> uint64 Matrix result" where
  "Interpreter_assign vars x ts =
     (case parse_assign vars x ts of
        Inl e \<Rightarrow> Inl e
      | Inr (var_index, op, ex, rest) \<Rightarrow>
          (case Evaluate (length vars) ex of
             Inl e \<Rightarrow> Inl e
           | Inr expr_vec \<Rightarrow>
               let transform = set_column (Identity (length vars + 1)) var_index expr_vec in
               (case Line_Get rest of
                  Inl e \<Rightarrow> Inl e
                | Inr t \<Rightarrow>
                    if t \<noteq> kNewLine then Inl (MatrixException ''Wrong expression'')
                    else apply_op (length vars) var_index op transform)))"

definition for_header :: "tokens \<Rightarrow> nat result" where
  "for_header ts =
     (case Line_Get ts of
        Inl e \<Rightarrow> Inl e
      | Inr (kNumber k) \<Rightarrow>
          (case Line_Next ts of
             Inl e \<Rightarrow> Inl e
           | Inr ts' \<Rightarrow>
               (case Line_Get ts' of
                  Inl e \<Rightarrow> Inl e
                | Inr t \<Rightarrow>
                    if t \<noteq> kNewLine then Inl (MatrixException ''Wrong for loop format'')
                    else Inr (unat k)))
      | Inr _ \<Rightarrow> Inl (MatrixException ''Wrong for loop format''))"

text \<open>The loop that moves the deeper lines after a \<open>for\<close> into \<open>subprogram\<close>.\<close>

fun split_body :: "nat \<Rightarrow> Token list list \<Rightarrow> (Token list list \<times> Token list list) result" where
  "split_body depth [] = Inr ([], [])"
| "split_body depth (l # ls) =
     (case CountTabs l of
        Inl e \<Rightarrow> Inl e
      | Inr (k, _) \<Rightarrow>
          if k \<le> depth then Inr ([], l # ls)
          else (case split_body depth ls of Inl e \<Rightarrow> Inl e | Inr (sub, rest) \<Rightarrow> Inr (l # sub, rest)))"

lemma split_body_append: "split_body depth ls = Inr (sub, rest) \<Longrightarrow> ls = sub @ rest"
  by (induction ls arbitrary: sub rest) (auto split: sum.splits if_splits)

function CalculateTransformMatrix_loop ::
  "var_map \<Rightarrow> nat \<Rightarrow> Token list list \<Rightarrow> uint64 Matrix \<Rightarrow> uint64 Matrix result" where
  "CalculateTransformMatrix_loop vars depth [] res = Inr res"
| "CalculateTransformMatrix_loop vars depth (l # program) res =
     (case CountTabs l of
        Inl e \<Rightarrow> Inl e
      | Inr (tab_count, ts) \<Rightarrow>
          if tab_count \<noteq> depth then Inl (MatrixException ''Wrong tab count'')
          else
            (case ts of
               [] \<Rightarrow> Inl OutOfBounds
             | token # ts' \<Rightarrow>
                 (case token of
                    kVar x \<Rightarrow>
                      (case Interpreter_assign vars x ts' of
                         Inl e \<Rightarrow> Inl e
                       | Inr transform \<Rightarrow>
                           CalculateTransformMatrix_loop vars depth program (Matrix_mul res transform))
                  | kFor \<Rightarrow>
                      (case for_header ts' of
                         Inl e \<Rightarrow> Inl e
                       | Inr iter_count \<Rightarrow>
                           (case split_body depth program of
                              Inl e \<Rightarrow> Inl e
                            | Inr (subprogram, rest) \<Rightarrow>
                                if subprogram = [] then Inl (MatrixException ''Empty for loop body'')
                                else
                                  (case CalculateTransformMatrix_loop vars (depth + 1) subprogram
                                          (Identity (length vars + 1)) of
                                     Inl e \<Rightarrow> Inl e
                                   | Inr body \<Rightarrow>
                                       CalculateTransformMatrix_loop vars depth rest
                                         (Matrix_mul res (Pow body iter_count)))))
                  | kNewLine \<Rightarrow> CalculateTransformMatrix_loop vars depth program res
                  | _ \<Rightarrow> Inl (MatrixException ''Wrong expression format''))))"
  by pat_completeness auto
termination
  by (relation "measure (\<lambda>(vars, depth, program, res). length program)") (auto dest: split_body_append)

definition CalculateTransformMatrix :: "var_map \<Rightarrow> nat \<Rightarrow> Token list list \<Rightarrow> uint64 Matrix result" where
  "CalculateTransformMatrix vars depth program =
     CalculateTransformMatrix_loop vars depth program (Identity (length vars + 1))"

definition Run :: "string \<Rightarrow> (string \<rightharpoonup> uint64) result" where
  "Run program =
     (let lines = Tokenize program;
          vars = GatherVars lines;
          init_vec = set_entry (Matrix_init 1 (length vars + 1)) 0 (length vars) 1
      in case CalculateTransformMatrix vars 0 lines of
           Inl e \<Rightarrow> Inl e
         | Inr m \<Rightarrow>
             let res = Matrix_mul init_vec m in
             Inr (\<lambda>x. map_option (\<lambda>i. entry res 0 i) (map_of vars x)))"

section \<open>Execution statement by statement\<close>

definition assign_value :: "char option \<Rightarrow> uint64 \<Rightarrow> uint64 \<Rightarrow> uint64" where
  "assign_value op old v =
     (if op = Some (CHR ''+'') then old + v
      else if op = Some (CHR ''-'') then old - v
      else if op = Some (CHR ''*'') then old * v
      else v)"

primrec repeat_exec :: "nat \<Rightarrow> ('s \<Rightarrow> 's result) \<Rightarrow> 's \<Rightarrow> 's result" where
  "repeat_exec 0 f st = Inr st"
| "repeat_exec (Suc k) f st = (case f st of Inl e \<Rightarrow> Inl e | Inr st' \<Rightarrow> repeat_exec k f st')"

text \<open>
  The state lists the values of the variables by index, followed by the constant 1.
\<close>

function exec_lines :: "var_map \<Rightarrow> nat \<Rightarrow> Token list list \<Rightarrow> (uint64 list \<Rightarrow> uint64 list result)" where
  "exec_lines vars depth [] = Inr"
| "exec_lines vars depth (l # program) =
     (case CountTabs l of
        Inr (k, kVar x # ts) \<Rightarrow>
          (\<lambda>st. case parse_assign vars x ts of
             Inl e \<Rightarrow> Inl e
           | Inr (i, op, ex, rest) \<Rightarrow>
               exec_lines vars depth program (st[i := assign_value op (st ! i) (expr_value st ex)]))
      | Inr (k, kFor # ts) \<Rightarrow>
          (case for_header ts of
             Inl e \<Rightarrow> (\<lambda>st. Inl e)
           | Inr iter_count \<Rightarrow>
               (case split_body depth program of
                  Inl e \<Rightarrow> (\<lambda>st. Inl e)
                | Inr (body, rest) \<Rightarrow>
                    (\<lambda>st. case repeat_exec iter_count (exec_lines vars (depth + 1) body) st of
                       Inl e \<Rightarrow> Inl e
                     | Inr st' \<Rightarrow> exec_lines vars depth rest st')))
      | Inr (k, kNewLine # ts) \<Rightarrow> exec_lines vars depth program
      | Inr _ \<Rightarrow> (\<lambda>st. Inl (MatrixException ''Wrong expression format''))
      | Inl e \<Rightarrow> (\<lambda>st. Inl e))"
  by pat_completeness auto
termination
  by (relation "measure (\<lambda>(vars, depth, program). length program)") (auto dest: split_body_append)

section \<open>Matrices act on states\<close>

definition app :: "uint64 Matrix \<Rightarrow> uint64 list \<Rightarrow> uint64 list" where
  "app m st = map (\<lambda>j. \<Sum>i<rows_num m. st ! i * entry m i j) [0..<cols_num m]"

lemma length_app [simp]: "length (app m st) = cols_num m"
  by (simp add: app_def)

lemma nth_app: "mat_wf r c m \<Longrightarrow> j < c \<Longrightarrow> app m st ! j = (\<Sum>i<r. st ! i * entry m i j)"
  by (simp add: app_def mat_wf_dims)

lemma app_mul:
  assumes "mat_wf r k a" "mat_wf k c b"
  shows "app (Matrix_mul a b) st = app b (app a st)"
proof (rule nth_equalityI)
  show "length (app (Matrix_mul a b) st) = length (app b (app a st))"
    using assms mat_wf_dims [OF mat_wf_mul [OF assms]] by (simp add: mat_wf_dims)
  fix j assume "j < length (app (Matrix_mul a b) st)"
  then have j: "j < c" using mat_wf_dims [OF mat_wf_mul [OF assms]] by simp
  have "app (Matrix_mul a b) st ! j = (\<Sum>i<r. \<Sum>z<k. st ! i * (entry a i z * entry b z j))"
    by (simp add: nth_app [OF mat_wf_mul [OF assms] j] entry_mul [OF assms _ j] sum_distrib_left)
  also have "\<dots> = (\<Sum>z<k. (\<Sum>i<r. st ! i * entry a i z) * entry b z j)"
    by (subst sum.swap) (simp add: sum_distrib_right mult.assoc)
  also have "\<dots> = app b (app a st) ! j"
    by (simp add: nth_app [OF assms(2) j] nth_app [OF assms(1)])
  finally show "app (Matrix_mul a b) st ! j = app b (app a st) ! j" .
qed

text \<open>A matrix that differs from the identity in one column changes one value.\<close>

definition elementary :: "nat \<Rightarrow> nat \<Rightarrow> uint64 list \<Rightarrow> uint64 Matrix \<Rightarrow> bool" where
  "elementary n j col m \<longleftrightarrow> mat_wf n n m \<and> length col = n \<and>
     (\<forall>i<n. \<forall>k<n. entry m i k = (if k = j then col ! i else if i = k then 1 else 0))"

lemma app_elementary:
  assumes "elementary n j col m" "length st = n" "j < n"
  shows "app m st = st[j := (\<Sum>i<n. st ! i * col ! i)]"
proof (rule nth_equalityI)
  have wf: "mat_wf n n m" using assms(1) by (simp add: elementary_def)
  then show "length (app m st) = length (st[j := (\<Sum>i<n. st ! i * col ! i)])"
    using assms(2) by (simp add: mat_wf_dims)
  fix k assume "k < length (app m st)"
  then have k: "k < n" using wf by (simp add: mat_wf_dims)
  have "(\<Sum>i<n. st ! i * entry m i k) = st ! k" if "k \<noteq> j"
  proof -
    have "(\<Sum>i<n. st ! i * entry m i k) = (\<Sum>i<n. if i = k then st ! i else 0)"
      using assms(1) k that by (intro sum.cong) (auto simp: elementary_def)
    then show ?thesis using k by simp
  qed
  moreover have "(\<Sum>i<n. st ! i * entry m i j) = (\<Sum>i<n. st ! i * col ! i)"
    using assms(1,3) by (intro sum.cong) (auto simp: elementary_def)
  ultimately show "app m st ! k = st[j := (\<Sum>i<n. st ! i * col ! i)] ! k"
    using nth_app [OF wf k, of st] k assms(2,3) by (cases "k = j") auto
qed

lemma elementary_Identity: "j < n \<Longrightarrow> elementary n j (map (\<lambda>i. if i = j then 1 else 0) [0..<n]) (Identity n)"
  by (auto simp: elementary_def)

lemma elementary_set_entry:
  "elementary n j col m \<Longrightarrow> i < n \<Longrightarrow> j < n \<Longrightarrow> elementary n j (col[i := x]) (set_entry m i j x)"
  by (auto simp: elementary_def entry_set_entry nth_list_update)

lemma entry_elementary: "elementary n j col m \<Longrightarrow> i < n \<Longrightarrow> j < n \<Longrightarrow> entry m i j = col ! i"
  by (simp add: elementary_def)

lemma app_Identity: "length st = n \<Longrightarrow> app (Identity n) st = st"
  by (rule nth_equalityI)
    (auto simp: nth_app [OF mat_wf_Identity] mat_wf_dims [OF mat_wf_Identity] if_distrib [of "\<lambda>x. _ * x"] cong: if_cong)

lemma elementary_fold:
  assumes "elementary n j col m" "j < n" "k \<le> n" "length new = n"
    "\<And>i m c. i < n \<Longrightarrow> elementary n j c m \<Longrightarrow> drop i c = drop i col \<Longrightarrow> f m i = set_entry m i j (new ! i)"
  shows "elementary n j (take k new @ drop k col) (foldl f m [0..<k])"
  using assms(3)
proof (induction k)
  case 0
  then show ?case using assms(1) by simp
next
  case (Suc k)
  let ?c = "take k new @ drop k col"
  have e: "elementary n j ?c (foldl f m [0..<k])" using Suc by simp
  have "drop k ?c = drop k col" using Suc.prems assms(4) by simp
  then have "f (foldl f m [0..<k]) k = set_entry (foldl f m [0..<k]) k j (new ! k)"
    using assms(5) [OF _ e] Suc.prems by simp
  moreover have "?c[k := new ! k] = take (Suc k) new @ drop (Suc k) col"
  proof -
    have "length col = n" using assms(1) by (simp add: elementary_def)
    then have "drop k col = col ! k # drop (Suc k) col" using Suc.prems by (simp add: Cons_nth_drop_Suc)
    then show ?thesis using Suc.prems assms(4) by (simp add: list_update_append take_Suc_conv_app_nth min_def)
  qed
  ultimately show ?case using elementary_set_entry [OF e, of k "new ! k"] Suc.prems assms(2) by simp
qed

lemma set_column_elementary:
  assumes "elementary n j col m" "j < n" "length new = n"
  shows "elementary n j new (set_column m j new)"
  using elementary_fold [OF assms(1,2), of n new "\<lambda>m i. set_entry m i j (new ! i)"] assms
  by (simp add: set_column_def elementary_def)

lemma negate_column_elementary:
  assumes "elementary n j col m" "j < n"
  shows "elementary n j (map uminus col) (foldl (\<lambda>m i. set_entry m i j (- entry m i j)) m [0..<n])"
proof -
  have l: "length col = n" using assms(1) by (simp add: elementary_def)
  have "- entry m i j = map uminus col ! i" if "i < n" "elementary n j c m" "drop i c = drop i col" for i m c
  proof -
    have "c ! i = col ! i"
      using that l by (metis elementary_def hd_drop_conv_nth)
    then show ?thesis using that l entry_elementary [OF that(2,1) assms(2)] by simp
  qed
  then show ?thesis
    using elementary_fold [OF assms(1,2), of n "map uminus col" "\<lambda>m i. set_entry m i j (- entry m i j)"] l
    by simp
qed

section \<open>An assignment is its matrix\<close>

definition state_ok :: "nat \<Rightarrow> uint64 list \<Rightarrow> bool" where
  "state_ok n st \<longleftrightarrow> length st = n + 1 \<and> st ! n = 1"

lemma sum_state: "state_ok n st \<Longrightarrow> (\<Sum>i<n + 1. st ! i * col ! i) = affine n col st"
  by (simp add: state_ok_def affine_def)

lemma affine_update:
  "length col = n + 1 \<Longrightarrow> j < n \<Longrightarrow> affine n (col[j := col ! j + x]) st = affine n col st + st ! j * x"
proof -
  assume "length col = n + 1" "j < n"
  then have "(\<Sum>i<n. st ! i * col[j := col ! j + x] ! i) =
      (\<Sum>i<n. st ! i * col ! i + (if i = j then st ! j * x else 0))"
    by (intro sum.cong) (auto simp: nth_list_update distrib_left)
  with \<open>j < n\<close> \<open>length col = n + 1\<close> show ?thesis by (simp add: affine_def sum.distrib)
qed

lemma affine_uminus: "length col = n + 1 \<Longrightarrow> affine n (map uminus col) st = - affine n col st"
  by (simp add: affine_def sum_negf)

lemma add_to_elementary:
  "elementary n j col m \<Longrightarrow> j < n \<Longrightarrow> elementary n j (col[j := col ! j + x]) (add_to m j j x)"
  using elementary_set_entry [of n j col m j "col ! j + x"] entry_elementary [of n j col m j]
  by (simp add: add_to_def)

lemma apply_op_ok:
  assumes "elementary (n + 1) j cs m" "j < n" "apply_op n j op m = Inr t"
  shows "\<exists>col. elementary (n + 1) j col t \<and>
    (\<forall>st. affine n col st = assign_value op (st ! j) (affine n cs st))"
proof -
  have l: "length cs = n + 1" and j: "j < n + 1" using assms(1,2) by (auto simp: elementary_def)
  consider "op = Some (CHR ''+'')" | "op = Some (CHR ''-'')" | "op = Some (CHR ''*'')"
    | "op \<noteq> Some (CHR ''+'')" "op \<noteq> Some (CHR ''-'')" "op \<noteq> Some (CHR ''*'')" by blast
  then show ?thesis
  proof cases
    case 1
    with add_to_elementary [OF assms(1) j, of 1] affine_update [OF l assms(2), of 1] assms(3)
    show ?thesis by (auto simp: apply_op_def assign_value_def add.commute)
  next
    case 2
    let ?neg = "map uminus cs"
    have "elementary (n + 1) j ?neg (foldl (\<lambda>m i. set_entry m i j (- entry m i j)) m [0..<n + 1])"
      by (rule negate_column_elementary [OF assms(1) j])
    from add_to_elementary [OF this j, of 1] 2 assms(3)
    have "elementary (n + 1) j (?neg[j := ?neg ! j + 1]) t" by (simp add: apply_op_def)
    moreover have "affine n (?neg[j := ?neg ! j + 1]) st = st ! j - affine n cs st" for st
      using affine_update [of ?neg n j 1 st] affine_uminus [OF l] l assms(2) by simp
    ultimately show ?thesis using 2 by (auto simp: assign_value_def)
  next
    case 3
    have zero: "\<forall>i<n. cs ! i = 0" and t: "t = set_entry (set_entry m j j (cs ! n)) n j 0"
      using assms(3) 3 entry_elementary [OF assms(1) _ j] by (auto simp: apply_op_def split: if_splits)
    have "elementary (n + 1) j (cs[j := cs ! n, n := 0]) t"
      unfolding t using assms(1) j by (intro elementary_set_entry) simp_all
    moreover have "affine n (cs[j := cs ! n, n := 0]) st = st ! j * affine n cs st" for st
    proof -
      have "(\<Sum>i<n. st ! i * cs[j := cs ! n, n := 0] ! i) = (\<Sum>i<n. if i = j then st ! j * cs ! n else 0)"
        using zero l assms(2) by (intro sum.cong) (auto simp: nth_list_update)
      then show ?thesis using zero l assms(2) by (simp add: affine_def)
    qed
    ultimately show ?thesis using 3 by (auto simp: assign_value_def)
  next
    case 4
    then show ?thesis using assms by (auto simp: apply_op_def assign_value_def)
  qed
qed

definition vars_ok :: "var_map \<Rightarrow> bool" where
  "vars_ok vars \<longleftrightarrow> distinct (map fst vars) \<and> map snd vars = [0..<length vars]"

lemma vars_ok_index: "vars_ok vars \<Longrightarrow> map_of vars x = Some i \<Longrightarrow> i < length vars"
proof -
  assume "vars_ok vars" "map_of vars x = Some i"
  then have "i \<in> set (map snd vars)" by (force dest: map_of_SomeD)
  with \<open>vars_ok vars\<close> show ?thesis by (simp add: vars_ok_def)
qed

lemma line_tail_ne: "line_tail vars ts \<Longrightarrow> \<exists>t us. ts = t # us"
  by (cases ts) auto

definition matrix_error :: "exn \<Rightarrow> bool" where
  "matrix_error e \<longleftrightarrow> (\<exists>msg. e = MatrixException msg)"

lemma parse_op_tail:
  assumes "line_tail (map_of vars) ts"
  shows "case parse_op ts of Inl e \<Rightarrow> matrix_error e | Inr (op, ts') \<Rightarrow> line_tail (map_of vars) ts'"
proof -
  obtain t us where ts: "ts = t # us" using line_tail_ne [OF assms] by blast
  with assms show ?thesis
    by (cases t) (auto simp: parse_op_def Line_Get_def Line_Next_def matrix_error_def dest: line_tail_Cons)
qed

lemma parse_rhs_tail:
  assumes "vars_ok vars" "line_tail (map_of vars) ts"
  shows "case parse_rhs vars ts of Inl e \<Rightarrow> matrix_error e
    | Inr (ex, ts') \<Rightarrow> indices_below (length vars) ex \<and> line_tail (map_of vars) ts'"
proof -
  have r: "\<forall>i\<in>ran (map_of vars). i < length vars"
    using vars_ok_index [OF assms(1)] by (auto simp: ran_def)
  obtain t us where ts: "ts = t # us" using line_tail_ne [OF assms(2)] by blast
  show ?thesis
  proof (cases "t = kEqv")
    case True
    then have "line_tail (map_of vars) us" using assms(2) ts line_tail_Cons by blast
    from new_parse_ok(4) [OF r this] True ts show ?thesis
      by (auto simp: parse_rhs_def Line_Get_def Line_Next_def parse_ok_def matrix_error_def split: sum.splits)
  qed (simp add: ts parse_rhs_def Line_Get_def matrix_error_def)
qed

lemma parse_assign_index:
  assumes "vars_ok vars" "line_tail (map_of vars) ts" "parse_assign vars x ts = Inr (i, op, ex, rest)"
  shows "i < length vars \<and> indices_below (length vars) ex \<and> line_tail (map_of vars) rest"
proof -
  obtain ts1 where 1: "map_of vars x = Some i" "parse_op ts = Inr (op, ts1)" "parse_rhs vars ts1 = Inr (ex, rest)"
    using assms(3) by (auto simp: parse_assign_def split: option.splits sum.splits)
  then show ?thesis
    using parse_op_tail [OF assms(2)] parse_rhs_tail [OF assms(1), of ts1] vars_ok_index [OF assms(1)] by simp
qed

lemma parse_assign_error:
  assumes "vars_ok vars" "line_tail (map_of vars) ts" "map_of vars x \<noteq> None" "parse_assign vars x ts = Inl e"
  shows "matrix_error e"
proof (cases "parse_op ts")
  case (Inr p)
  obtain op ts1 where p: "p = (op, ts1)" by fastforce
  then show ?thesis
    using assms(3,4) Inr parse_op_tail [OF assms(2)] parse_rhs_tail [OF assms(1), of ts1]
    by (auto simp: parse_assign_def split: sum.splits)
qed (use assms(3,4) parse_op_tail [OF assms(2)] in \<open>auto simp: parse_assign_def\<close>)

lemma Interpreter_assign_ok:
  assumes "vars_ok vars" "line_tail (map_of vars) ts" "Interpreter_assign vars x ts = Inr t"
  shows "\<exists>i op ex rest. parse_assign vars x ts = Inr (i, op, ex, rest) \<and> i < length vars \<and>
    mat_wf (length vars + 1) (length vars + 1) t \<and>
    (\<forall>st. state_ok (length vars) st \<longrightarrow> app t st = st[i := assign_value op (st ! i) (expr_value st ex)])"
proof -
  let ?n = "length vars"
  obtain i op ex rest cs where p: "parse_assign vars x ts = Inr (i, op, ex, rest)"
    and ev: "Evaluate ?n ex = Inr cs"
    and ap: "apply_op ?n i op (set_column (Identity (?n + 1)) i cs) = Inr t"
    using assms(3) by (auto simp: Interpreter_assign_def Let_def split: sum.splits if_splits)
  have i: "i < ?n" "indices_below ?n ex" using parse_assign_index [OF assms(1,2) p] by auto
  have cs: "length cs = ?n + 1" "\<And>st. affine ?n cs st = expr_value st ex"
    using Evaluate_value [OF i(2) ev] by auto
  have "elementary (?n + 1) i cs (set_column (Identity (?n + 1)) i cs)"
    using set_column_elementary [OF elementary_Identity] i(1) cs(1) by simp
  from apply_op_ok [OF this i(1) ap] obtain col where
    col: "elementary (?n + 1) i col t" "\<And>st. affine ?n col st = assign_value op (st ! i) (affine ?n cs st)" by blast
  have "app t st = st[i := assign_value op (st ! i) (expr_value st ex)]" if "state_ok ?n st" for st
    using app_elementary [OF col(1), of st] that i(1) col(2) cs(2) sum_state [OF that]
    by (simp add: state_ok_def)
  with p i(1) col(1) show ?thesis by (auto simp: elementary_def)
qed

section \<open>A program is its matrix\<close>

definition program_ok :: "var_map \<Rightarrow> Token list list \<Rightarrow> bool" where
  "program_ok vars program \<longleftrightarrow> (\<forall>l\<in>set program. line_tail (map_of vars) l)"

lemma CountTabs_tail: "CountTabs l = Inr (k, ts) \<Longrightarrow> line_tail vars l \<Longrightarrow> line_tail vars ts"
  by (induction l arbitrary: k) (auto split: if_splits sum.splits dest: line_tail_Cons)

text \<open>What is to be shown of the matrix of a piece of program.\<close>

definition represents :: "var_map \<Rightarrow> (uint64 list \<Rightarrow> uint64 list result) \<Rightarrow> uint64 Matrix \<Rightarrow> bool" where
  "represents vars f m \<longleftrightarrow> mat_wf (length vars + 1) (length vars + 1) m \<and>
     (\<forall>st. state_ok (length vars) st \<longrightarrow> f st = Inr (app m st) \<and> state_ok (length vars) (app m st))"

lemma represents_Identity: "represents vars Inr (Identity (length vars + 1))"
  by (simp add: represents_def app_Identity state_ok_def)

lemma represents_then:
  assumes "represents vars f a" "represents vars g b"
    "\<And>st st'. f st = Inr st' \<Longrightarrow> h st = g st'"
  shows "represents vars h (Matrix_mul a b)"
  using assms by (auto simp: represents_def app_mul intro: mat_wf_mul)

lemma represents_power: "represents vars f m \<Longrightarrow> represents vars (repeat_exec k f) (mat_power (length vars + 1) m k)"
proof (induction k)
  case 0
  then show ?case using represents_Identity by (simp add: represents_def)
next
  case (Suc k)
  then show ?case by (auto intro!: represents_then [of vars f m "repeat_exec k f"])
qed

lemma represents_Pow: "represents vars f m \<Longrightarrow> represents vars (repeat_exec k f) (Pow m k)"
proof -
  assume r: "represents vars f m"
  then have "Pow m k = mat_power (length vars + 1) m k" by (intro Pow_eq_power) (simp add: represents_def)
  with represents_power [OF r, of k] show ?thesis by simp
qed

lemma represents_assign:
  assumes "vars_ok vars" "line_tail (map_of vars) ts" "Interpreter_assign vars x ts = Inr t"
  shows "represents vars
    (\<lambda>st. case parse_assign vars x ts of Inl e \<Rightarrow> Inl e
      | Inr (i, op, ex, rest) \<Rightarrow> Inr (st[i := assign_value op (st ! i) (expr_value st ex)])) t"
  using Interpreter_assign_ok [OF assms] by (auto simp: represents_def state_ok_def mat_wf_dims)

lemma mul_then:
  assumes "mat_wf n n res" "mat_wf n n a" "M = Matrix_mul (Matrix_mul res a) b" "mat_wf n n b"
  shows "M = Matrix_mul res (Matrix_mul a b)"
  using assms mul_assoc by blast

lemma CalculateTransformMatrix_loop_ok:
  "vars_ok vars \<Longrightarrow> program_ok vars program \<Longrightarrow> mat_wf (length vars + 1) (length vars + 1) res \<Longrightarrow>
   CalculateTransformMatrix_loop vars depth program res = Inr M \<Longrightarrow>
   \<exists>B. M = Matrix_mul res B \<and> represents vars (exec_lines vars depth program) B"
proof (induction vars depth program res arbitrary: M rule: CalculateTransformMatrix_loop.induct)
  case (1 vars depth res)
  then have "M = Matrix_mul res (Identity (length vars + 1))" using mul_Identity_right [OF "1.prems"(3)] by simp
  then show ?case using represents_Identity [of vars] by auto
next
  case (2 vars depth l program res)
  let ?n = "length vars + 1"
  have po: "program_ok vars program" and lt: "line_tail (map_of vars) l"
    using "2.prems"(2) by (auto simp: program_ok_def)
  obtain ts where ct: "CountTabs l = Inr (depth, ts)"
    using "2.prems"(4) by (auto split: sum.splits if_splits)
  obtain token ts' where ts: "ts = token # ts'"
    using "2.prems"(4) ct by (auto split: list.splits)
  have tt: "line_tail (map_of vars) (token # ts')" using CountTabs_tail [OF ct lt] ts by simp
  have "\<not> depth \<noteq> depth" by simp
  note ih = "2.IH" [OF ct refl this ts]
  consider x where "token = kVar x" | "token = kFor" | "token = kNewLine"
    | "\<forall>x. token \<noteq> kVar x" "token \<noteq> kFor" "token \<noteq> kNewLine" by blast
  then show ?case
  proof cases
    case 1
    obtain t where t: "Interpreter_assign vars x ts' = Inr t"
      and M: "CalculateTransformMatrix_loop vars depth program (Matrix_mul res t) = Inr M"
      using "2.prems"(4) ct ts 1 by (auto split: sum.splits)
    have "line_tail (map_of vars) ts'" using line_tail_Cons [OF tt] 1 by simp
    note rep = represents_assign [OF "2.prems"(1) this t]
    have wf: "mat_wf ?n ?n t" using rep by (simp add: represents_def)
    obtain B where B: "M = Matrix_mul (Matrix_mul res t) B" "represents vars (exec_lines vars depth program) B"
      using ih(1) [OF 1 t "2.prems"(1) po mat_wf_mul [OF "2.prems"(3) wf] M] by blast
    have "M = Matrix_mul res (Matrix_mul t B)"
      using mul_then [OF "2.prems"(3) wf B(1)] B(2) by (simp add: represents_def)
    moreover have "represents vars (exec_lines vars depth (l # program)) (Matrix_mul t B)"
      using ct ts 1 by (intro represents_then [OF rep B(2)]) (auto split: sum.splits)
    ultimately show ?thesis by blast
  next
    case 2
    obtain k sub rest body where k: "for_header ts' = Inr k" and sp: "split_body depth program = Inr (sub, rest)"
      and ne: "sub \<noteq> []"
      and b: "CalculateTransformMatrix_loop vars (depth + 1) sub (Identity ?n) = Inr body"
      and M: "CalculateTransformMatrix_loop vars depth rest (Matrix_mul res (Pow body k)) = Inr M"
      using "2.prems"(4) ct ts 2 by (auto split: sum.splits if_splits)
    have po': "program_ok vars sub" "program_ok vars rest"
      using po split_body_append [OF sp] by (auto simp: program_ok_def)
    obtain B1 where B1: "body = Matrix_mul (Identity ?n) B1" "represents vars (exec_lines vars (depth + 1) sub) B1"
      using ih(2) [OF 2 k sp refl ne "2.prems"(1) po'(1) mat_wf_Identity b] by blast
    then have "represents vars (exec_lines vars (depth + 1) sub) body"
      using mul_Identity_left by (metis represents_def)
    note rep = represents_Pow [OF this, of k]
    have wf: "mat_wf ?n ?n (Pow body k)" using rep by (simp add: represents_def)
    obtain B where B: "M = Matrix_mul (Matrix_mul res (Pow body k)) B" "represents vars (exec_lines vars depth rest) B"
      using ih(3) [OF 2 k sp refl ne b "2.prems"(1) po'(2) mat_wf_mul [OF "2.prems"(3) wf] M] by blast
    have "M = Matrix_mul res (Matrix_mul (Pow body k) B)"
      using mul_then [OF "2.prems"(3) wf B(1)] B(2) by (simp add: represents_def)
    moreover have "represents vars (exec_lines vars depth (l # program)) (Matrix_mul (Pow body k) B)"
      using ct ts 2 k sp by (intro represents_then [OF rep B(2)]) auto
    ultimately show ?thesis by blast
  next
    case 3
    then show ?thesis using ih(4) [OF 3 "2.prems"(1) po "2.prems"(3)] "2.prems"(4) ct ts by simp
  next
    case 4
    then show ?thesis using "2.prems"(4) ct ts by (auto split: Token.splits)
  qed
qed

section \<open>Run\<close>

lemma vars_ok_GatherVars_token: "vars_ok vars \<Longrightarrow> vars_ok (GatherVars_token vars t)"
  by (auto simp: vars_ok_def GatherVars_token_def map_of_eq_None_iff split: Token.split)

lemma GatherVars_token_keeps: "map_of vars x \<noteq> None \<Longrightarrow> map_of (GatherVars_token vars t) x \<noteq> None"
  by (auto simp: GatherVars_token_def map_add_def split: Token.split)

lemma GatherVars_token_adds: "map_of (GatherVars_token vars (kVar x)) x \<noteq> None"
  by (auto simp: GatherVars_token_def map_add_def)

lemma GatherVars_line:
  "vars_ok vars \<Longrightarrow> vars_ok (foldl GatherVars_token vars ts) \<and>
   (\<forall>x. map_of vars x \<noteq> None \<or> kVar x \<in> set ts \<longrightarrow> map_of (foldl GatherVars_token vars ts) x \<noteq> None)"
proof (induction ts arbitrary: vars)
  case (Cons t ts)
  from Cons.IH [OF vars_ok_GatherVars_token [OF Cons.prems, of t]] show ?case
    using GatherVars_token_keeps [of vars _ t] GatherVars_token_adds [of vars] by fastforce
qed simp

lemma GatherVars_fold:
  "vars_ok vars \<Longrightarrow> vars_ok (foldl (\<lambda>vars line. foldl GatherVars_token vars line) vars program) \<and>
   (\<forall>x. map_of vars x \<noteq> None \<or> (\<exists>l\<in>set program. kVar x \<in> set l) \<longrightarrow>
      map_of (foldl (\<lambda>vars line. foldl GatherVars_token vars line) vars program) x \<noteq> None)"
proof (induction program arbitrary: vars)
  case (Cons l program)
  from Cons.IH [OF conjunct1 [OF GatherVars_line [OF Cons.prems, of l]]] GatherVars_line [OF Cons.prems, of l]
  show ?case by auto
qed simp

lemma GatherVars_ok:
  "vars_ok (GatherVars (Tokenize text)) \<and> program_ok (GatherVars (Tokenize text)) (Tokenize text)"
proof -
  have "vars_ok []" by (simp add: vars_ok_def)
  from GatherVars_fold [OF this, of "Tokenize text"] show ?thesis
    using Tokenize_lines by (fastforce simp: GatherVars_def program_ok_def line_tail_def line_ok_def)
qed

lemma Run_ok:
  assumes "Run text = Inr vals"
  shows "\<exists>st. exec_lines (GatherVars (Tokenize text)) 0 (Tokenize text)
      (replicate (length (GatherVars (Tokenize text))) 0 @ [1]) = Inr st \<and>
    vals = (\<lambda>x. map_option (\<lambda>i. st ! i) (map_of (GatherVars (Tokenize text)) x))"
proof -
  let ?prog = "Tokenize text"
  let ?vars = "GatherVars ?prog"
  let ?n = "length ?vars"
  let ?st = "replicate ?n 0 @ [1] :: uint64 list"
  let ?init = "set_entry (Matrix_init 1 (?n + 1)) 0 ?n 1"
  obtain M where M: "CalculateTransformMatrix ?vars 0 ?prog = Inr M"
    and vals: "vals = (\<lambda>x. map_option (\<lambda>i. entry (Matrix_mul ?init M) 0 i) (map_of ?vars x))"
    using assms by (auto simp: Run_def Let_def split: sum.splits)
  obtain B where B: "M = Matrix_mul (Identity (?n + 1)) B" "represents ?vars (exec_lines ?vars 0 ?prog) B"
    using CalculateTransformMatrix_loop_ok [OF conjunct1 [OF GatherVars_ok] conjunct2 [OF GatherVars_ok] mat_wf_Identity]
      M unfolding CalculateTransformMatrix_def by blast
  then have rep: "represents ?vars (exec_lines ?vars 0 ?prog) M"
    using mul_Identity_left by (metis represents_def)
  have "state_ok ?n ?st" by (simp add: state_ok_def nth_append)
  then have ex: "exec_lines ?vars 0 ?prog ?st = Inr (app M ?st)" using rep by (simp add: represents_def)
  have wf: "mat_wf (?n + 1) (?n + 1) M" using rep by (simp add: represents_def)
  have init: "mat_wf 1 (?n + 1) ?init" "\<And>z. z < ?n + 1 \<Longrightarrow> entry ?init 0 z = ?st ! z"
    by (auto simp: entry_set_entry [of 1 "?n + 1"] nth_append)
  have "entry (Matrix_mul ?init M) 0 i = app M ?st ! i" if "map_of ?vars x = Some i" for x i
  proof -
    have i: "i < ?n + 1" using vars_ok_index [OF conjunct1 [OF GatherVars_ok] that] by simp
    have "entry (Matrix_mul ?init M) 0 i = (\<Sum>z<?n + 1. entry ?init 0 z * entry M z i)"
      using entry_mul [OF init(1) wf _ i] by simp
    also have "\<dots> = (\<Sum>z<?n + 1. ?st ! z * entry M z i)" using init(2) by (intro sum.cong) auto
    finally show ?thesis using nth_app [OF wf i, of ?st] by simp
  qed
  then have "vals = (\<lambda>x. map_option (\<lambda>i. app M ?st ! i) (map_of ?vars x))"
    by (auto simp: vals fun_eq_iff split: option.split cong: map_option_cong)
  with ex show ?thesis by blast
qed
section \<open>The only errors are MatrixException\<close>

lemma CountTabs_total: "line_tail vars l \<Longrightarrow> \<exists>k t ts. CountTabs l = Inr (k, t # ts)"
proof (induction l)
  case (Cons t l)
  show ?case
  proof (cases "t = kTab")
    case True
    then have "line_tail vars l" using Cons.prems line_tail_Cons by blast
    with Cons.IH True show ?thesis by auto
  qed simp
qed simp

lemma apply_op_error: "apply_op n j op m = Inl e \<Longrightarrow> matrix_error e"
  by (auto simp: apply_op_def matrix_error_def split: if_splits)

lemma Interpreter_assign_error:
  assumes "vars_ok vars" "line_tail (map_of vars) ts" "map_of vars x \<noteq> None" "Interpreter_assign vars x ts = Inl e"
  shows "matrix_error e"
proof (cases "parse_assign vars x ts")
  case (Inl e')
  then show ?thesis using assms parse_assign_error by (simp add: Interpreter_assign_def)
next
  case (Inr p)
  obtain i op ex rest where p: "p = (i, op, ex, rest)" by (cases p)
  have "line_tail (map_of vars) rest" using parse_assign_index [OF assms(1,2)] Inr p by simp
  then obtain t us where "rest = t # us" using line_tail_ne by blast
  with Inr p assms(4) show ?thesis
    using Evaluate_error [of "length vars" ex] apply_op_error
    by (auto simp: Interpreter_assign_def Let_def Line_Get_def matrix_error_def split: sum.splits if_splits)
qed

lemma for_header_error: "line_tail vars ts \<Longrightarrow> for_header ts = Inl e \<Longrightarrow> matrix_error e"
  using line_tail_ne [of vars]
  by (auto simp: for_header_def Line_Get_def Line_Next_def matrix_error_def
      split: list.splits Token.splits if_splits dest!: line_tail_Cons)

lemma split_body_total: "program_ok vars ls \<Longrightarrow> \<exists>sub rest. split_body depth ls = Inr (sub, rest)"
proof (induction ls)
  case (Cons l ls)
  then have "line_tail (map_of vars) l" "program_ok vars ls" by (auto simp: program_ok_def)
  with CountTabs_total Cons.IH show ?case by fastforce
qed simp

lemma CalculateTransformMatrix_loop_error:
  "vars_ok vars \<Longrightarrow> program_ok vars program \<Longrightarrow>
   CalculateTransformMatrix_loop vars depth program res = Inl e \<Longrightarrow> matrix_error e"
proof (induction vars depth program res rule: CalculateTransformMatrix_loop.induct)
  case (2 vars depth l program res)
  have po: "program_ok vars program" and lt: "line_tail (map_of vars) l"
    using "2.prems"(2) by (auto simp: program_ok_def)
  obtain k token ts' where ct: "CountTabs l = Inr (k, token # ts')" using CountTabs_total [OF lt] by blast
  show ?case
  proof (cases "k = depth")
    case False
    then show ?thesis using "2.prems"(3) ct by (auto simp: matrix_error_def)
  next
    case True
    then have "\<not> k \<noteq> depth" by simp
    note ih = "2.IH" [OF ct refl this refl]
    have tt: "line_tail (map_of vars) (token # ts')" using CountTabs_tail [OF ct lt] by simp
    note eq = "2.prems"(3) [unfolded CalculateTransformMatrix_loop.simps ct]
    consider x where "token = kVar x" | "token = kFor" | "token = kNewLine"
      | "\<forall>x. token \<noteq> kVar x" "token \<noteq> kFor" "token \<noteq> kNewLine" by blast
    then show ?thesis
    proof cases
      case 1
      have tl: "line_tail (map_of vars) ts'" using line_tail_Cons [OF tt] 1 by simp
      have x: "map_of vars x \<noteq> None" using tt 1 by (simp add: line_tail_def)
      show ?thesis
        using Interpreter_assign_error [OF "2.prems"(1) tl x] ih(1) [OF 1 _ "2.prems"(1) po] eq True 1
        by (auto split: sum.splits)
    next
      case 2
      have tl: "line_tail (map_of vars) ts'" using line_tail_Cons [OF tt] 2 by simp
      obtain sub rest where sp: "split_body depth program = Inr (sub, rest)" using split_body_total [OF po] by blast
      have po': "program_ok vars sub" "program_ok vars rest"
        using po split_body_append [OF sp] by (auto simp: program_ok_def)
      show ?thesis
        using for_header_error [OF tl] ih(2,3) [OF 2 _ sp refl] "2.prems"(1) po' eq True 2 sp
        by (fastforce simp: matrix_error_def split: sum.splits if_splits)
    next
      case 3
      then show ?thesis using ih(4) [OF 3 "2.prems"(1) po] eq True by simp
    next
      case 4
      then show ?thesis using eq True by (auto simp: matrix_error_def split: Token.splits)
    qed
  qed
qed simp

lemma Run_error: "Run text = Inl e \<Longrightarrow> \<exists>msg. e = MatrixException msg"
  using CalculateTransformMatrix_loop_error [OF conjunct1 [OF GatherVars_ok] conjunct2 [OF GatherVars_ok], of "text"]
  by (auto simp: Run_def Let_def CalculateTransformMatrix_def matrix_error_def split: sum.splits)
section \<open>Properties\<close>

text \<open>
  C2: compiling to a matrix is correct.  When \<open>Run\<close> returns, the values it gives are those of
  executing the tokenized program statement by statement modulo \<open>2 ^ 64\<close>, from all variables 0, with
  every \<open>for k\<close> body executed \<open>k\<close> times.
\<close>

theorem Run_correct:
  assumes "Run prog = Inr vals"
  shows "\<exists>st. exec_lines (GatherVars (Tokenize prog)) 0 (Tokenize prog)
      (replicate (length (GatherVars (Tokenize prog))) 0 @ [1]) = Inr st \<and>
    vals = (\<lambda>x. map_option (\<lambda>i. st ! i) (map_of (GatherVars (Tokenize prog)) x))"
  using assms by (rule Run_ok)

definition loop_example :: string where
  "loop_example = ''A=1'' @ [CHR 0x0A] @ ''for 3'' @ [CHR 0x0A] @ ''    A*=2''"

theorem Run_correct_witness:
  "\<exists>vals st. Run loop_example = Inr vals \<and>
    exec_lines (GatherVars (Tokenize loop_example)) 0 (Tokenize loop_example)
      (replicate (length (GatherVars (Tokenize loop_example))) 0 @ [1]) = Inr st \<and>
    vals = (\<lambda>x. map_option (\<lambda>i. st ! i) (map_of (GatherVars (Tokenize loop_example)) x))"
proof -
  have "\<not> isl (Run loop_example)" by code_simp
  then obtain vals where v: "Run loop_example = Inr vals" by (cases "Run loop_example") auto
  from Run_correct [OF v] v show ?thesis by blast
qed


text \<open>
  \<open>Evaluate\<close> is a correct linearisation: the coefficients it returns give, in every state of the
  variables, the value of the expression in the arithmetic of \<open>uint64_t\<close>.
\<close>

theorem Evaluate_correct:
  assumes "indices_below n e" "Evaluate n e = Inr cs"
  shows "length cs = n + 1 \<and> (\<Sum>i<n. st ! i * cs ! i) + cs ! n = expr_value st e"
  using Evaluate_value [OF assms] by (simp add: affine_def)

theorem Evaluate_correct_witness:
  "length [3, 3 :: uint64] = 1 + 1 \<and>
   (\<Sum>i<1. [5 :: uint64] ! i * [3, 3] ! i) + [3, 3] ! 1 =
     expr_value [5] (Mul (ConstantNumber 3) (Some (Sum (ConstantVar 0) (Some (CHR ''+'', ConstantNumber 1)))))"
  by (rule Evaluate_correct) (simp, code_simp)

end
