(* ===== verification/Matrix2.thy ===== *)
theory Matrix2
  imports Matrix3
begin

text \<open>
  The expression templates of \<open>matrix-2.0/matrix.h\<close>: a product of several matrices is collected in a
  \<open>Glue\<close> and evaluated in the order that needs the fewest scalar multiplications, found by dynamic
  programming on a table.  Shown are that the result is the product, whatever the table, and that
  the table holds the minimal numbers of operations.
\<close>

section \<open>matrix.h\<close>

datatype 'm Glue = GlueMatrix 'm 'm | GlueGlue "'m Glue" 'm

fun DFS :: "'m Glue \<Rightarrow> 'm list \<Rightarrow> 'm list" where
  "DFS (GlueMatrix l r) res = res @ [l] @ [r]"
| "DFS (GlueGlue l r) res = DFS l res @ [r]"

definition Matrix2_plus :: "('a :: comm_ring_1) Matrix \<Rightarrow> 'a Matrix \<Rightarrow> 'a Matrix result" where
  "Matrix2_plus a b =
     (if rows_num a \<noteq> rows_num b \<or> cols_num a \<noteq> cols_num b then Inl (RuntimeError ''Wrong sizes'')
      else Inr (build (rows_num a) (cols_num a) (\<lambda>i j. entry a i j + entry b i j)))"

definition Matrix2_neg :: "('a :: comm_ring_1) Matrix \<Rightarrow> 'a Matrix" where
  "Matrix2_neg a = build (rows_num a) (cols_num a) (\<lambda>i j. - entry a i j)"

definition Matrix2_minus :: "('a :: comm_ring_1) Matrix \<Rightarrow> 'a Matrix \<Rightarrow> 'a Matrix result" where
  "Matrix2_minus a b =
     (if rows_num a \<noteq> rows_num b \<or> cols_num a \<noteq> cols_num b then Inl (RuntimeError ''Wrong sizes'')
      else Inr (build (rows_num a) (cols_num a) (\<lambda>i j. entry a i j - entry b i j)))"

definition Dot :: "('a :: comm_ring_1) Matrix \<Rightarrow> 'a Matrix \<Rightarrow> 'a Matrix" where
  "Dot a b =
     build (rows_num a) (cols_num b)
       (\<lambda>i j. foldl (\<lambda>s z. s + entry a i z * entry b z j) 0 [0..<cols_num a])"

record OptMult =
  left_part_end :: nat
  opt_op_num :: nat

type_synonym op_table = "OptMult list list"

definition op_at :: "op_table \<Rightarrow> nat \<Rightarrow> nat \<Rightarrow> OptMult" where
  "op_at op_nums b e = op_nums ! b ! e"

definition op_set :: "op_table \<Rightarrow> nat \<Rightarrow> nat \<Rightarrow> OptMult \<Rightarrow> op_table" where
  "op_set op_nums b e x = op_nums[b := (op_nums ! b)[e := x]]"

text \<open>The number of operations is a \<open>size_t\<close>: it wraps at \<open>2 ^ 64\<close>.\<close>

definition overall_ops :: "'a Matrix list \<Rightarrow> nat \<Rightarrow> nat \<Rightarrow> nat \<Rightarrow> nat \<Rightarrow> nat \<Rightarrow> nat" where
  "overall_ops ms b i e left_ops right_ops =
     (rows_num (ms ! b) * cols_num (ms ! i) * cols_num (ms ! e) + (left_ops + right_ops)) mod 2 ^ 64"

definition better :: "OptMult option \<Rightarrow> nat \<Rightarrow> nat \<Rightarrow> OptMult option" where
  "better opt_ops i ops =
     (case opt_ops of
        None \<Rightarrow> Some \<lparr>left_part_end = i, opt_op_num = ops\<rparr>
      | Some o' \<Rightarrow> if ops < opt_op_num o' then Some \<lparr>left_part_end = i, opt_op_num = ops\<rparr> else Some o')"

text \<open>
  \<open>ComputeOptMultNum\<close> and its loop over \<open>i\<close>, which starts at \<open>begin\<close> and so never is below it.
\<close>

function ComputeOptMultNum :: "'a Matrix list \<Rightarrow> nat \<Rightarrow> nat \<Rightarrow> op_table \<Rightarrow> op_table"
  and Compute_loop ::
    "'a Matrix list \<Rightarrow> nat \<Rightarrow> nat \<Rightarrow> nat \<Rightarrow> OptMult option \<Rightarrow> op_table \<Rightarrow> OptMult option \<times> op_table"
where
  "ComputeOptMultNum ms b e op_nums =
     (case Compute_loop ms b e b None op_nums of
        (opt_ops, op_nums') \<Rightarrow> op_set op_nums' b e (the opt_ops))"
| "Compute_loop ms b e i opt_ops op_nums =
     (if b \<le> i \<and> i < e then
        (let op_nums1 = (if i \<noteq> b \<and> opt_op_num (op_at op_nums b i) = 0
                         then ComputeOptMultNum ms b i op_nums else op_nums);
             left_ops = opt_op_num (op_at op_nums1 b i);
             op_nums2 = (if i + 1 \<noteq> e \<and> opt_op_num (op_at op_nums1 (i + 1) e) = 0
                         then ComputeOptMultNum ms (i + 1) e op_nums1 else op_nums1);
             right_ops = opt_op_num (op_at op_nums2 (i + 1) e)
         in Compute_loop ms b e (i + 1) (better opt_ops i (overall_ops ms b i e left_ops right_ops)) op_nums2)
      else (opt_ops, op_nums))"
  by pat_completeness auto
termination
  by (relation "measures [
      \<lambda>x. case x of Inl (_, b, e, _) \<Rightarrow> e - b | Inr (_, b, e, _, _, _) \<Rightarrow> e - b,
      \<lambda>x. case x of Inl _ \<Rightarrow> 1 | Inr _ \<Rightarrow> 0,
      \<lambda>x. case x of Inl _ \<Rightarrow> 0 | Inr (_, _, e, i, _, _) \<Rightarrow> e - i]") auto

declare ComputeOptMultNum.simps [simp del] Compute_loop.simps [simp del]

partial_function (option) MultiplicateMatrices ::
  "('a :: comm_ring_1) Matrix list \<Rightarrow> op_table \<Rightarrow> nat \<Rightarrow> nat \<Rightarrow> 'a Matrix option" where
  "MultiplicateMatrices ms op_nums b e =
     (let l = left_part_end (op_at op_nums b e) in
      Option.bind (if l \<noteq> b then MultiplicateMatrices ms op_nums b l else Some (ms ! b)) (\<lambda>left.
      Option.bind (if l + 1 \<noteq> e then MultiplicateMatrices ms op_nums (l + 1) e else Some (ms ! e)) (\<lambda>right.
        Some (Dot left right))))"

definition sizes_match :: "'a Matrix list \<Rightarrow> bool" where
  "sizes_match ms \<longleftrightarrow> (\<forall>i\<in>set [1..<length ms]. cols_num (ms ! (i - 1)) = rows_num (ms ! i))"

text \<open>The constructor from a \<open>Glue\<close>; the outer \<^term>\<open>None\<close> is a multiplication that does not end.\<close>

definition Matrix_of_Glue :: "('a :: comm_ring_1) Matrix Glue \<Rightarrow> 'a Matrix result option" where
  "Matrix_of_Glue tree =
     (let operands = DFS tree [] in
      if \<not> sizes_match operands then Some (Inl (RuntimeError ''Wrong sizes''))
      else
        let k = length operands;
            op_nums = replicate k (replicate k \<lparr>left_part_end = 0, opt_op_num = 0\<rparr>);
            op_nums' = ComputeOptMultNum operands 0 (k - 1) op_nums
        in map_option Inr (MultiplicateMatrices operands op_nums' 0 (k - 1)))"

section \<open>The product\<close>

lemma Dot_eq: "Dot = Matrix_mul"
  by (intro ext) (simp add: Dot_def Matrix_mul_def)

text \<open>The product of the operands from \<open>b\<close> to \<open>e\<close>, from left to right.\<close>

definition chain :: "('a :: comm_ring_1) Matrix list \<Rightarrow> nat \<Rightarrow> nat \<Rightarrow> 'a Matrix" where
  "chain ms b e = foldl Matrix_mul (ms ! b) (map ((!) ms) [Suc b..<Suc e])"

definition chain_ok :: "'a Matrix list \<Rightarrow> bool" where
  "chain_ok ms \<longleftrightarrow> sizes_match ms \<and> (\<forall>m\<in>set ms. mat_wf (rows_num m) (cols_num m) m)"

lemma chain_self [simp]: "chain ms b b = ms ! b"
  by (simp add: chain_def)

lemma chain_Suc: "b \<le> e \<Longrightarrow> chain ms b (Suc e) = Matrix_mul (chain ms b e) (ms ! Suc e)"
  by (simp add: chain_def)

lemma sizes_matchD: "sizes_match ms \<Longrightarrow> Suc i < length ms \<Longrightarrow> cols_num (ms ! i) = rows_num (ms ! Suc i)"
  by (force simp: sizes_match_def)

lemma chain_ok_nth: "chain_ok ms \<Longrightarrow> i < length ms \<Longrightarrow> mat_wf (rows_num (ms ! i)) (cols_num (ms ! i)) (ms ! i)"
  by (simp add: chain_ok_def)

lemma chain_wf:
  "chain_ok ms \<Longrightarrow> b \<le> e \<Longrightarrow> e < length ms \<Longrightarrow> mat_wf (rows_num (ms ! b)) (cols_num (ms ! e)) (chain ms b e)"
proof (induction e)
  case 0
  then show ?case using chain_ok_nth by fastforce
next
  case (Suc e)
  show ?case
  proof (cases "b = Suc e")
    case True
    then show ?thesis using Suc.prems chain_ok_nth by fastforce
  next
    case False
    then have "mat_wf (rows_num (ms ! b)) (cols_num (ms ! e)) (chain ms b e)" using Suc by simp
    moreover have "mat_wf (cols_num (ms ! e)) (cols_num (ms ! Suc e)) (ms ! Suc e)"
      using chain_ok_nth [OF Suc.prems(1,3)] sizes_matchD [of ms e] Suc.prems(1,3) by (simp add: chain_ok_def)
    ultimately show ?thesis using False Suc.prems mat_wf_mul by (simp add: chain_Suc)
  qed
qed

lemma chain_split:
  "chain_ok ms \<Longrightarrow> b \<le> l \<Longrightarrow> l < e \<Longrightarrow> e < length ms \<Longrightarrow>
   chain ms b e = Matrix_mul (chain ms b l) (chain ms (Suc l) e)"
proof (induction e)
  case (Suc e)
  show ?case
  proof (cases "l = e")
    case False
    then have l: "l < e" using Suc.prems by simp
    have wf: "mat_wf (rows_num (ms ! b)) (cols_num (ms ! l)) (chain ms b l)"
      "mat_wf (rows_num (ms ! Suc l)) (cols_num (ms ! e)) (chain ms (Suc l) e)"
      "mat_wf (rows_num (ms ! Suc e)) (cols_num (ms ! Suc e)) (ms ! Suc e)"
      using Suc.prems l chain_wf chain_ok_nth by (fastforce, fastforce, fastforce)
    moreover have "cols_num (ms ! l) = rows_num (ms ! Suc l)" "cols_num (ms ! e) = rows_num (ms ! Suc e)"
      using Suc.prems l sizes_matchD [of ms l] sizes_matchD [of ms e] by (auto simp: chain_ok_def)
    ultimately show ?thesis
      using Suc l mul_assoc by (simp add: chain_Suc)
  qed (use Suc.prems in \<open>simp add: chain_Suc\<close>)
qed simp

section \<open>The table leads to a product\<close>

function ready :: "op_table \<Rightarrow> nat \<Rightarrow> nat \<Rightarrow> bool" where
  "ready op_nums b e \<longleftrightarrow>
     (if b < e then
        (let l = left_part_end (op_at op_nums b e) in
         if b \<le> l \<and> l < e then ready op_nums b l \<and> ready op_nums (l + 1) e else False)
      else True)"
  by pat_completeness auto
termination
  by (relation "measure (\<lambda>(op_nums, b, e). e - b)") auto

declare ready.simps [simp del]

lemma ready_self [simp]: "ready op_nums b b"
  by (simp add: ready.simps)

lemma MultiplicateMatrices_ready:
  "chain_ok ms \<Longrightarrow> ready op_nums b e \<Longrightarrow> b < e \<Longrightarrow> e < length ms \<Longrightarrow>
   MultiplicateMatrices ms op_nums b e = Some (chain ms b e)"
proof (induction op_nums b e rule: ready.induct)
  case (1 op_nums b e)
  define l where "l = left_part_end (op_at op_nums b e)"
  have l: "b \<le> l" "l < e" "ready op_nums b l" "ready op_nums (l + 1) e"
    using "1.prems"(2,3) by (auto simp: ready.simps [of op_nums b e] Let_def l_def split: if_splits)
  note ih = "1.IH" [OF "1.prems"(3) l_def conjI [OF l(1,2)] "1.prems"(1)]
  have "(if l \<noteq> b then MultiplicateMatrices ms op_nums b l else Some (ms ! b)) = Some (chain ms b l)"
    using ih(1) [OF l(3)] l "1.prems"(4) by auto
  moreover have "(if l + 1 \<noteq> e then MultiplicateMatrices ms op_nums (l + 1) e else Some (ms ! e))
      = Some (chain ms (l + 1) e)"
    using ih(2) [OF l(4)] l "1.prems"(4) by auto
  ultimately show ?case
    using chain_split [OF "1.prems"(1) l(1,2) "1.prems"(4)]
    by (subst MultiplicateMatrices.simps) (simp add: Let_def l_def [symmetric] Dot_eq)
qed

text \<open>The table has a row and a column for every operand.\<close>

definition op_wf :: "nat \<Rightarrow> op_table \<Rightarrow> bool" where
  "op_wf k op_nums \<longleftrightarrow> length op_nums = k \<and> (\<forall>row\<in>set op_nums. length row = k)"

lemma op_wf_set: "op_wf k op_nums \<Longrightarrow> b < k \<Longrightarrow> op_wf k (op_set op_nums b e x)"
  using set_update_subset_insert [of op_nums b "(op_nums ! b)[e := x]"]
  by (auto simp: op_wf_def op_set_def)

lemma op_at_set:
  "op_wf k op_nums \<Longrightarrow> b < k \<Longrightarrow> e < k \<Longrightarrow>
   op_at (op_set op_nums b e x) b' e' = (if b' = b \<and> e' = e then x else op_at op_nums b' e')"
  by (auto simp: op_wf_def op_set_def op_at_def nth_list_update)

lemma ready_set:
  assumes "op_wf k op_nums" "b < k" "e < k" "left_part_end x = l" "b \<le> l" "l < e"
    "ready op_nums b l" "ready op_nums (l + 1) e"
  shows "ready op_nums b' e' \<or> b' = b \<and> e' = e \<Longrightarrow> ready (op_set op_nums b e x) b' e'"
proof (induction "e' - b'" arbitrary: b' e' rule: less_induct)
  case less
  show ?case
  proof (cases "b' < e'")
    case True
    show ?thesis
    proof (cases "b' = b \<and> e' = e")
      case True
      then have "ready (op_set op_nums b e x) b l" "ready (op_set op_nums b e x) (l + 1) e"
        using less.hyps [of l b] less.hyps [of e "l + 1"] assms(5-8) by auto
      then show ?thesis
        using True assms by (simp add: ready.simps [of "op_set op_nums b e x" b e] op_at_set Let_def)
    next
      case False
      define l' where "l' = left_part_end (op_at op_nums b' e')"
      have "ready op_nums b' e'" using less.prems False by blast
      then have l': "b' \<le> l'" "l' < e'" "ready op_nums b' l'" "ready op_nums (l' + 1) e'"
        using \<open>b' < e'\<close> by (auto simp: ready.simps [of op_nums b' e'] Let_def l'_def split: if_splits)
      then have "ready (op_set op_nums b e x) b' l'" "ready (op_set op_nums b e x) (l' + 1) e'"
        using less.hyps [of l' b'] less.hyps [of e' "l' + 1"] by auto
      then show ?thesis
        using False l' op_at_set [OF assms(1,2,3), of x b' e']
        by (subst ready.simps) (auto simp: Let_def l'_def)
    qed
  qed (simp add: ready.simps)
qed

section \<open>The table is filled\<close>

text \<open>Every entry with a nonzero number of operations can be followed to the end.\<close>

definition filled :: "nat \<Rightarrow> op_table \<Rightarrow> bool" where
  "filled k op_nums \<longleftrightarrow> op_wf k op_nums \<and>
     (\<forall>b e. b < k \<longrightarrow> e < k \<longrightarrow> opt_op_num (op_at op_nums b e) \<noteq> 0 \<longrightarrow> ready op_nums b e)"

definition grows :: "op_table \<Rightarrow> op_table \<Rightarrow> bool" where
  "grows t t' \<longleftrightarrow> (\<forall>b e. ready t b e \<longrightarrow> ready t' b e)"

lemma grows_refl [simp]: "grows t t"
  by (simp add: grows_def)

lemma grows_trans: "grows t t' \<Longrightarrow> grows t' t'' \<Longrightarrow> grows t t''"
  by (simp add: grows_def)

definition split_ready :: "nat \<Rightarrow> nat \<Rightarrow> op_table \<Rightarrow> OptMult option \<Rightarrow> bool" where
  "split_ready b e t opt \<longleftrightarrow>
     (case opt of None \<Rightarrow> True
      | Some x \<Rightarrow> let l = left_part_end x in b \<le> l \<and> l < e \<and> ready t b l \<and> ready t (l + 1) e)"

lemma split_ready_grows: "split_ready b e t opt \<Longrightarrow> grows t t' \<Longrightarrow> split_ready b e t' opt"
  by (auto simp: split_ready_def grows_def Let_def split: option.splits)

lemma better_ready:
  "split_ready b e t opt \<Longrightarrow> b \<le> i \<Longrightarrow> i < e \<Longrightarrow> ready t b i \<Longrightarrow> ready t (i + 1) e \<Longrightarrow>
   split_ready b e t (better opt i ops) \<and> better opt i ops \<noteq> None"
  by (auto simp: split_ready_def better_def Let_def split: option.splits)

lemma filled_set:
  assumes "filled k t" "b < k" "e < k" "split_ready b e t (Some x)"
  shows "filled k (op_set t b e x) \<and> grows t (op_set t b e x) \<and> ready (op_set t b e x) b e"
proof -
  have wf: "op_wf k t" using assms(1) by (simp add: filled_def)
  have l: "b \<le> left_part_end x" "left_part_end x < e" "ready t b (left_part_end x)" "ready t (left_part_end x + 1) e"
    using assms(4) by (auto simp: split_ready_def Let_def)
  note r = ready_set [OF wf assms(2,3) refl l]
  show ?thesis
    using assms(1) r op_wf_set [OF wf assms(2)]
    by (auto simp: filled_def grows_def op_at_set [OF wf assms(2,3)])
qed

lemma Compute_ready:
  "b < e \<Longrightarrow> e < k \<Longrightarrow> filled k t \<Longrightarrow>
     (let t' = ComputeOptMultNum ms b e t in filled k t' \<and> grows t t' \<and> ready t' b e)"
  "e < k \<Longrightarrow> filled k t \<Longrightarrow> b \<le> i \<Longrightarrow> i \<le> e \<Longrightarrow> split_ready b e t opt \<Longrightarrow> (i < e \<or> opt \<noteq> None) \<Longrightarrow>
     (case Compute_loop ms b e i opt t of (opt', t') \<Rightarrow>
        filled k t' \<and> grows t t' \<and> split_ready b e t' opt' \<and> opt' \<noteq> None)"
proof (induction ms b e t and ms b e i opt t rule: ComputeOptMultNum_Compute_loop.induct)
  case (1 ms b e t)
  obtain opt' t' where c: "Compute_loop ms b e b None t = (opt', t')" by fastforce
  with 1 have r: "filled k t'" "grows t t'" "split_ready b e t' opt'" "opt' \<noteq> None"
    by (auto simp: split_ready_def)
  then obtain x where x: "opt' = Some x" by auto
  have "b < k" using "1.prems" by simp
  from filled_set [OF r(1) this "1.prems"(2) r(3) [unfolded x]] r(2) show ?case
    by (auto simp: ComputeOptMultNum.simps [of ms b e t] c x Let_def intro: grows_trans)
next
  case (2 ms b e i opt t)
  show ?case
  proof (cases "i < e")
    case False
    then show ?thesis using "2.prems" by (subst Compute_loop.simps) simp
  next
    case True
    then have bi: "b \<le> i \<and> i < e" using "2.prems" by simp
    define t1 where "t1 = (if i \<noteq> b \<and> opt_op_num (op_at t b i) = 0 then ComputeOptMultNum ms b i t else t)"
    define L where "L = opt_op_num (op_at t1 b i)"
    define t2 where "t2 = (if i + 1 \<noteq> e \<and> opt_op_num (op_at t1 (i + 1) e) = 0
      then ComputeOptMultNum ms (i + 1) e t1 else t1)"
    define R where "R = opt_op_num (op_at t2 (i + 1) e)"
    define opt2 where "opt2 = better opt i (overall_ops ms b i e L R)"
    have k: "b < k" "i < k" "i + 1 < k" using "2.prems" bi by auto
    have t1: "filled k t1 \<and> grows t t1 \<and> ready t1 b i"
    proof (cases "i \<noteq> b \<and> opt_op_num (op_at t b i) = 0")
      case True
      then show ?thesis
        using "2.IH"(1) [OF bi True] "2.prems" bi k by (simp add: t1_def Let_def)
    next
      case False
      then show ?thesis using "2.prems" k by (auto simp: t1_def filled_def)
    qed
    have t2: "filled k t2 \<and> grows t1 t2 \<and> ready t2 (i + 1) e"
    proof (cases "i + 1 \<noteq> e \<and> opt_op_num (op_at t1 (i + 1) e) = 0")
      case True
      then show ?thesis
        using "2.IH"(2) [OF bi t1_def L_def True] "2.prems" bi t1 by (simp add: t2_def Let_def)
    next
      case False
      then show ?thesis using t1 k "2.prems"(1) by (auto simp: t2_def filled_def)
    qed
    have g: "grows t t2" using t1 t2 grows_trans by blast
    have o: "split_ready b e t2 opt2 \<and> opt2 \<noteq> None"
      unfolding opt2_def using split_ready_grows [OF "2.prems"(5) g] bi t1 t2
      by (intro better_ready) (auto simp: grows_def)
    have "Compute_loop ms b e i opt t = Compute_loop ms b e (i + 1) opt2 t2"
      using bi by (simp add: Compute_loop.simps [of ms b e i] Let_def t1_def L_def t2_def R_def opt2_def)
    moreover have "case Compute_loop ms b e (i + 1) opt2 t2 of (opt', t') \<Rightarrow>
        filled k t' \<and> grows t2 t' \<and> split_ready b e t' opt' \<and> opt' \<noteq> None"
      using "2.IH"(3) [OF bi t1_def L_def t2_def R_def] "2.prems" o t2 bi unfolding opt2_def by simp
    ultimately show ?thesis using g grows_trans by auto
  qed
qed

lemma filled_init: "filled k (replicate k (replicate k \<lparr>left_part_end = 0, opt_op_num = 0\<rparr>))"
  by (auto simp: filled_def op_wf_def op_at_def)

lemma length_DFS: "length (DFS tree res) \<ge> length res + 2"
  by (induction tree res rule: DFS.induct) auto

lemma Matrix_of_Glue_ok:
  assumes "chain_ok (DFS tree [])"
  shows "Matrix_of_Glue tree = Some (Inr (chain (DFS tree []) 0 (length (DFS tree []) - 1)))"
proof -
  let ?ms = "DFS tree []"
  let ?k = "length ?ms"
  have k: "0 < ?k - 1" "?k - 1 < ?k" using length_DFS [where tree = tree and res = "[]"] by auto
  note r = Compute_ready(1) [OF k filled_init, of ?ms]
  from MultiplicateMatrices_ready [OF assms _ k] r show ?thesis
    using assms by (auto simp: Matrix_of_Glue_def Let_def chain_ok_def)
qed

section \<open>The table is optimal\<close>

text \<open>
  The fewest scalar multiplications for the product of the operands \<open>b\<close> to \<open>e\<close>: the best over all
  positions \<open>l\<close> of the last multiplication.
\<close>

function mincost :: "'a Matrix list \<Rightarrow> nat \<Rightarrow> nat \<Rightarrow> nat" where
  "mincost ms b e =
     (if b < e then
        Min (set (map (\<lambda>l. rows_num (ms ! b) * cols_num (ms ! l) * cols_num (ms ! e) +
               (mincost ms b l + mincost ms (l + 1) e)) [b..<e]))
      else 0)"
  by pat_completeness auto
termination
  by (relation "measure (\<lambda>(ms, b, e). e - b)") auto

declare mincost.simps [simp del]

definition split_cost :: "'a Matrix list \<Rightarrow> nat \<Rightarrow> nat \<Rightarrow> nat \<Rightarrow> nat" where
  "split_cost ms b e l =
     rows_num (ms ! b) * cols_num (ms ! l) * cols_num (ms ! e) + (mincost ms b l + mincost ms (l + 1) e)"

lemma mincost_eq: "b < e \<Longrightarrow> mincost ms b e = Min (split_cost ms b e ` {b..<e})"
  by (simp add: mincost.simps [of ms b e] split_cost_def)

definition no_overflow :: "'a Matrix list \<Rightarrow> bool" where
  "no_overflow ms \<longleftrightarrow>
     (\<forall>e<length ms. \<forall>b<e. \<forall>l\<in>{b..<e}. split_cost ms b e l < 2 ^ 64)"

definition optimal :: "'a Matrix list \<Rightarrow> op_table \<Rightarrow> bool" where
  "optimal ms t \<longleftrightarrow> op_wf (length ms) t \<and>
     (\<forall>b<length ms. \<forall>e<length ms. opt_op_num (op_at t b e) = 0 \<or> opt_op_num (op_at t b e) = mincost ms b e)"

definition best_so_far :: "'a Matrix list \<Rightarrow> nat \<Rightarrow> nat \<Rightarrow> nat \<Rightarrow> OptMult option \<Rightarrow> bool" where
  "best_so_far ms b e i opt \<longleftrightarrow>
     (case opt of None \<Rightarrow> i = b | Some x \<Rightarrow> b < i \<and> opt_op_num x = Min (split_cost ms b e ` {b..<i}))"

lemma mincost_self [simp]: "mincost ms b b = 0"
  by (simp add: mincost.simps)

lemma optimal_at:
  "optimal ms t \<Longrightarrow> b < length ms \<Longrightarrow> e < length ms \<Longrightarrow> b = e \<or> opt_op_num (op_at t b e) \<noteq> 0 \<Longrightarrow>
   opt_op_num (op_at t b e) = mincost ms b e"
  unfolding optimal_def by (metis mincost_self)

lemma best_so_far_better:
  assumes "best_so_far ms b e i opt" "b \<le> i" "ops = split_cost ms b e i"
  shows "best_so_far ms b e (i + 1) (better opt i ops)"
proof -
  have ins: "split_cost ms b e ` {b..<i + 1} = insert ops (split_cost ms b e ` {b..<i})"
    using assms(2,3) by (auto simp: image_iff less_Suc_eq)
  show ?thesis
  proof (cases opt)
    case None
    then show ?thesis using assms by (simp add: best_so_far_def better_def)
  next
    case (Some x)
    then have "split_cost ms b e ` {b..<i} \<noteq> {}" using assms(1) by (auto simp: best_so_far_def)
    moreover define M where "M = Min (split_cost ms b e ` {b..<i})"
    ultimately have "Min (split_cost ms b e ` {b..<i + 1}) = min ops M"
      unfolding ins M_def by (intro Min_insert) auto
    moreover have "opt_op_num x = M" "b < i" using Some assms(1) by (simp_all add: best_so_far_def M_def)
    ultimately show ?thesis by (simp add: Some best_so_far_def better_def min_def)
  qed
qed

lemma optimal_set:
  assumes "optimal ms t" "b < length ms" "e < length ms" "opt_op_num x = mincost ms b e"
  shows "optimal ms (op_set t b e x) \<and> opt_op_num (op_at (op_set t b e x) b e) = mincost ms b e"
  using assms op_wf_set [of "length ms" t b e x] op_at_set [of "length ms" t b e x] by (auto simp: optimal_def)

lemma Compute_optimal:
  "no_overflow ms \<Longrightarrow> b < e \<Longrightarrow> e < length ms \<Longrightarrow> optimal ms t \<Longrightarrow>
     (let t' = ComputeOptMultNum ms b e t in optimal ms t' \<and> opt_op_num (op_at t' b e) = mincost ms b e)"
  "no_overflow ms \<Longrightarrow> e < length ms \<Longrightarrow> optimal ms t \<Longrightarrow> b \<le> i \<Longrightarrow> i \<le> e \<Longrightarrow> best_so_far ms b e i opt \<Longrightarrow>
     (case Compute_loop ms b e i opt t of (opt', t') \<Rightarrow> optimal ms t' \<and> best_so_far ms b e e opt')"
proof (induction ms b e t and ms b e i opt t rule: ComputeOptMultNum_Compute_loop.induct)
  case (1 ms b e t)
  obtain opt' t' where c: "Compute_loop ms b e b None t = (opt', t')" by fastforce
  with 1 have r: "optimal ms t'" "best_so_far ms b e e opt'" by (auto simp: best_so_far_def)
  then obtain x where x: "opt' = Some x" "opt_op_num x = mincost ms b e"
    using "1.prems"(2) mincost_eq [of b e ms] by (auto simp: best_so_far_def split: option.splits)
  from optimal_set [OF r(1) _ "1.prems"(3) x(2)] "1.prems"(2,3) show ?case
    by (simp add: ComputeOptMultNum.simps [of ms b e t] c x Let_def)
next
  case (2 ms b e i opt t)
  show ?case
  proof (cases "i < e")
    case False
    then have "i = e" using "2.prems"(5) by simp
    then show ?thesis using "2.prems" by (subst Compute_loop.simps) simp
  next
    case True
    then have bi: "b \<le> i \<and> i < e" using "2.prems" by simp
    define t1 where "t1 = (if i \<noteq> b \<and> opt_op_num (op_at t b i) = 0 then ComputeOptMultNum ms b i t else t)"
    define L where "L = opt_op_num (op_at t1 b i)"
    define t2 where "t2 = (if i + 1 \<noteq> e \<and> opt_op_num (op_at t1 (i + 1) e) = 0
      then ComputeOptMultNum ms (i + 1) e t1 else t1)"
    define R where "R = opt_op_num (op_at t2 (i + 1) e)"
    have k: "b < length ms" "i < length ms" "i + 1 < length ms" using "2.prems" bi by auto
    have t1: "optimal ms t1 \<and> L = mincost ms b i"
    proof (cases "i \<noteq> b \<and> opt_op_num (op_at t b i) = 0")
      case True
      then show ?thesis
        using "2.IH"(1) [OF bi True] "2.prems" bi k by (simp add: t1_def L_def Let_def)
    next
      case False
      then show ?thesis using optimal_at [OF "2.prems"(3) k(1,2)] "2.prems"(3) by (auto simp: t1_def L_def)
    qed
    have t2: "optimal ms t2 \<and> R = mincost ms (i + 1) e"
    proof (cases "i + 1 \<noteq> e \<and> opt_op_num (op_at t1 (i + 1) e) = 0")
      case True
      then show ?thesis
        using "2.IH"(2) [OF bi t1_def L_def True] "2.prems" bi t1 by (simp add: t2_def R_def Let_def)
    next
      case False
      then show ?thesis using optimal_at [OF _ k(3) "2.prems"(2)] t1 by (auto simp: t2_def R_def)
    qed
    have ops: "overall_ops ms b i e L R = split_cost ms b e i"
      using t1 t2 "2.prems"(1,2) bi by (auto simp: overall_ops_def split_cost_def no_overflow_def)
    have "Compute_loop ms b e i opt t = Compute_loop ms b e (i + 1) (better opt i (overall_ops ms b i e L R)) t2"
      using bi by (simp add: Compute_loop.simps [of ms b e i] Let_def t1_def L_def t2_def R_def)
    then show ?thesis
      using "2.IH"(3) [OF bi t1_def L_def t2_def R_def] "2.prems" t2 bi
        best_so_far_better [OF "2.prems"(6) _ ops] by simp
  qed
qed

lemma optimal_init: "optimal ms (replicate (length ms) (replicate (length ms) \<lparr>left_part_end = 0, opt_op_num = 0\<rparr>))"
  by (auto simp: optimal_def op_wf_def op_at_def)

text \<open>\<open>mincost\<close> is a lower bound for every way to put the parentheses, and one reaches it.\<close>

datatype parens = Operand | Product nat parens parens

fun parens_cost :: "'a Matrix list \<Rightarrow> nat \<Rightarrow> nat \<Rightarrow> parens \<Rightarrow> nat option" where
  "parens_cost ms b e Operand = (if b = e then Some 0 else None)"
| "parens_cost ms b e (Product l p q) =
     (if b \<le> l \<and> l < e then
        (case (parens_cost ms b l p, parens_cost ms (l + 1) e q) of
           (Some x, Some y) \<Rightarrow> Some (rows_num (ms ! b) * cols_num (ms ! l) * cols_num (ms ! e) + (x + y))
         | _ \<Rightarrow> None)
      else None)"

lemma mincost_le: "parens_cost ms b e p = Some c \<Longrightarrow> mincost ms b e \<le> c"
proof (induction p arbitrary: b e c)
  case (Product l p q)
  then obtain x y where l: "b \<le> l" "l < e" "parens_cost ms b l p = Some x" "parens_cost ms (l + 1) e q = Some y"
    and c: "c = rows_num (ms ! b) * cols_num (ms ! l) * cols_num (ms ! e) + (x + y)"
    by (auto split: if_splits option.splits)
  have "mincost ms b e \<le> split_cost ms b e l" using l mincost_eq [of b e ms] by simp
  also have "\<dots> \<le> c" using Product.IH(1) [OF l(3)] Product.IH(2) [OF l(4)] by (simp add: split_cost_def c)
  finally show ?case .
qed (auto split: if_splits)

lemma mincost_reached: "b \<le> e \<Longrightarrow> \<exists>p. parens_cost ms b e p = Some (mincost ms b e)"
proof (induction "e - b" arbitrary: b e rule: less_induct)
  case less
  show ?case
  proof (cases "b = e")
    case True
    then show ?thesis by (intro exI [of _ Operand]) simp
  next
    case False
    then have be: "b < e" using less.prems by simp
    have "Min (split_cost ms b e ` {b..<e}) \<in> split_cost ms b e ` {b..<e}" using be by (intro Min_in) auto
    then obtain l where l: "b \<le> l" "l < e" "mincost ms b e = split_cost ms b e l"
      using mincost_eq [OF be, of ms] by auto
    obtain p q where "parens_cost ms b l p = Some (mincost ms b l)"
      "parens_cost ms (l + 1) e q = Some (mincost ms (l + 1) e)"
      using less.hyps [of l b] less.hyps [of e "l + 1"] l be by fastforce
    then show ?thesis using l by (intro exI [of _ "Product l p q"]) (simp add: split_cost_def)
  qed
qed

section \<open>Properties\<close>

text \<open>
  Building a matrix from a product of matrices returns, and gives their product from left to
  right, whatever order of multiplication the table chose; the recursion over the table ends.
\<close>

theorem Matrix_of_Glue_product:
  assumes "chain_ok (DFS tree [])"
  shows "Matrix_of_Glue tree =
    Some (Inr (foldl Matrix_mul (hd (DFS tree [])) (tl (DFS tree []))))"
proof -
  let ?ms = "DFS tree []"
  have k: "length ?ms \<ge> 2" using length_DFS [where tree = tree and res = "[]"] by simp
  then obtain m rest where ms: "?ms = m # rest" by (cases ?ms) auto
  have "map ((!) ?ms) [Suc 0..<Suc (length ?ms - 1)] = rest"
    using k unfolding ms by (intro nth_equalityI) (simp_all del: upt_Suc)
  then show ?thesis using Matrix_of_Glue_ok [OF assms] by (simp add: chain_def ms)
qed

theorem Matrix_of_Glue_product_witness:
  "Matrix_of_Glue (GlueGlue (GlueMatrix (Identity 2) (Identity 2)) (build 2 1 (\<lambda>i j. 5 :: int))) =
    Some (Inr (foldl Matrix_mul (Identity 2) [Identity 2, build 2 1 (\<lambda>i j. 5)]))"
proof -
  have "chain_ok (DFS (GlueGlue (GlueMatrix (Identity 2) (Identity 2)) (build 2 1 (\<lambda>i j. 5 :: int))) [])"
    by (simp add: chain_ok_def sizes_match_def mat_wf_dims [OF mat_wf_Identity] numeral_3_eq_3 numeral_2_eq_2)
  from Matrix_of_Glue_product [OF this] show ?thesis by simp
qed

text \<open>
  C26: \<open>ComputeOptMultNum\<close> on the fresh table finds the optimum: when no number of operations overflows
  \<open>size_t\<close>, the entry for the whole product is the least number of scalar multiplications among all
  ways to parenthesise it.
\<close>

theorem ComputeOptMultNum_optimal:
  assumes "no_overflow ms" "2 \<le> length ms"
  shows "let k = length ms;
             t = ComputeOptMultNum ms 0 (k - 1) (replicate k (replicate k \<lparr>left_part_end = 0, opt_op_num = 0\<rparr>));
             best = opt_op_num (op_at t 0 (k - 1))
         in (\<exists>p. parens_cost ms 0 (k - 1) p = Some best) \<and>
            (\<forall>p c. parens_cost ms 0 (k - 1) p = Some c \<longrightarrow> best \<le> c)"
  using Compute_optimal(1) [OF assms(1) _ _ optimal_init, of 0 "length ms - 1"] assms(2)
    mincost_reached [of 0 "length ms - 1" ms] mincost_le [of ms 0 "length ms - 1"]
  by (simp add: Let_def)

theorem ComputeOptMultNum_optimal_witness:
  "let ms = [build 2 3 (\<lambda>i j. 0 :: int), build 3 1 (\<lambda>i j. 0)]; k = length ms;
             t = ComputeOptMultNum ms 0 (k - 1) (replicate k (replicate k \<lparr>left_part_end = 0, opt_op_num = 0\<rparr>));
             best = opt_op_num (op_at t 0 (k - 1))
         in (\<exists>p. parens_cost ms 0 (k - 1) p = Some best) \<and>
            (\<forall>p c. parens_cost ms 0 (k - 1) p = Some c \<longrightarrow> best \<le> c)"
proof -
  have "no_overflow [build 2 3 (\<lambda>i j. 0 :: int), build 3 1 (\<lambda>i j. 0)]"
    unfolding no_overflow_def
  proof (intro allI impI ballI)
    fix e b l assume "e < length [build 2 3 (\<lambda>i j. 0 :: int), build 3 1 (\<lambda>i j. 0)]" "b < e" "l \<in> {b..<e}"
    then have "e = 1" "b = 0" "l = 0" by auto
    then show "split_cost [build 2 3 (\<lambda>i j. 0 :: int), build 3 1 (\<lambda>i j. 0)] b e l < 2 ^ 64"
      by (simp add: split_cost_def)
  qed
  from ComputeOptMultNum_optimal [OF this] show ?thesis by (simp add: Let_def)
qed

end
