(* ===== verification/Hash_Map.thy ===== *)
theory Hash_Map
  imports Prelude
begin

text \<open>
  \<open>hash-table/concurrent_hash_map.h\<close>: a hash map with chaining, sorted buckets, and one mutex for
  every bucket of the initial table.  Each operation holds the mutex of its key (\<open>Clear\<close> and
  \<open>Rehash\<close> all of them), so it is one step on the state; \<open>mutex_idx\<close> is kept because the mutexes
  protect the buckets only if keys in one bucket share a mutex.  The hash function is a parameter,
  and keys are linearly ordered.
\<close>

section \<open>concurrent_hash_map.h\<close>

type_synonym ('k, 'v) bucket = "('k \<times> 'v) list"

record ('k, 'v) chm =
  chm_table :: "('k, 'v) bucket list"
  chm_mutexes :: nat
  chm_size :: nat
  chm_is_rehashing :: bool

definition kLoadFactor :: nat where "kLoadFactor = 2"

text \<open>The constructor; the division of a negative \<open>int\<close> truncates towards zero.\<close>

definition int_div :: "int \<Rightarrow> int \<Rightarrow> int" where
  "int_div a b = sgn a * sgn b * (\<bar>a\<bar> div \<bar>b\<bar>)"

definition lists_cnt :: "int \<Rightarrow> int \<Rightarrow> int" where
  "lists_cnt expected_size threads =
     (int_div ((int_div (expected_size - 1) (int kLoadFactor) + 1) - 1) threads + 1) * threads"

definition ConcurrentHashMap :: "int \<Rightarrow> int \<Rightarrow> ('k, 'v) chm" where
  "ConcurrentHashMap expected_size threads =
     (let n = nat (if expected_size \<noteq> - 1 then lists_cnt expected_size threads else 4 * threads)
      in \<lparr>chm_table = replicate n [], chm_mutexes = n, chm_size = 0, chm_is_rehashing = False\<rparr>)"

fun FindPosInList :: "('k :: linorder, 'v) bucket \<Rightarrow> 'k \<Rightarrow> nat" where
  "FindPosInList [] key = 0"
| "FindPosInList (p # list) key = (if fst p \<ge> key then 0 else Suc (FindPosInList list key))"

definition InsertIntoList ::
  "('k :: linorder, 'v) bucket list \<Rightarrow> nat \<Rightarrow> 'k \<times> 'v \<Rightarrow> bool \<times> ('k, 'v) bucket list" where
  "InsertIntoList table list_idx elem =
     (let list = table ! list_idx; i = FindPosInList list (fst elem) in
      if i = length list \<or> fst (list ! i) \<noteq> fst elem
      then (True, table[list_idx := take i list @ elem # drop i list])
      else (False, table))"

lemma length_InsertIntoList [simp]: "length (snd (InsertIntoList table i elem)) = length table"
  by (simp add: InsertIntoList_def Let_def)

lemma nth_InsertIntoList_other [simp]: "j \<noteq> i \<Longrightarrow> snd (InsertIntoList table i elem) ! j = table ! j"
  by (simp add: InsertIntoList_def Let_def)

definition EraseFromList ::
  "('k :: linorder, 'v) bucket list \<Rightarrow> nat \<Rightarrow> 'k \<Rightarrow> bool \<times> ('k, 'v) bucket list" where
  "EraseFromList table list_idx key =
     (let list = table ! list_idx; i = FindPosInList list key in
      if i \<noteq> length list \<and> fst (list ! i) = key
      then (True, table[list_idx := take i list @ drop (Suc i) list])
      else (False, table))"

text \<open>
  The inner loop of \<open>Rehash\<close> over bucket \<open>list_idx\<close>, which the outer loop keeps inside the table; \<open>i\<close> is
  the position of the iterator.
\<close>

function Rehash_list :: "('k :: linorder \<Rightarrow> nat) \<Rightarrow> nat \<Rightarrow> nat \<Rightarrow> ('k, 'v) bucket list \<Rightarrow> ('k, 'v) bucket list" where
  "Rehash_list hasher list_idx i table =
     (if list_idx < length table \<and> i < length (table ! list_idx) then
        (let elem = table ! list_idx ! i;
             new_list_idx = hasher (fst elem) mod length table
         in if new_list_idx \<noteq> list_idx then
              (let table1 = snd (InsertIntoList table new_list_idx elem);
                   list = table1 ! list_idx
               in Rehash_list hasher list_idx i (table1[list_idx := take i list @ drop (Suc i) list]))
            else Rehash_list hasher list_idx (i + 1) table)
      else table)"
  by pat_completeness auto
termination
  by (relation "measure (\<lambda>(hasher, list_idx, i, table). length (table ! list_idx) - i)") auto

declare Rehash_list.simps [simp del]

definition ConcurrentHashMap_Rehash :: "('k :: linorder \<Rightarrow> nat) \<Rightarrow> ('k, 'v) chm \<Rightarrow> ('k, 'v) chm" where
  "ConcurrentHashMap_Rehash hasher m =
     (let n = length (chm_table m) * 2;
          table = chm_table m @ replicate (length (chm_table m)) []
      in m\<lparr>chm_table := foldl (\<lambda>table list_idx. Rehash_list hasher list_idx 0 table) table [0..<n]\<rparr>)"

definition ConcurrentHashMap_Insert :: "('k :: linorder \<Rightarrow> nat) \<Rightarrow> ('k, 'v) chm \<Rightarrow> 'k \<Rightarrow> 'v \<Rightarrow> bool \<times> ('k, 'v) chm" where
  "ConcurrentHashMap_Insert hasher m key value =
     (let hash = hasher key;
          list_idx = hash mod length (chm_table m);
          (res, table) = InsertIntoList (chm_table m) list_idx (key, value);
          m1 = m\<lparr>chm_table := table, chm_size := (if res then chm_size m + 1 else chm_size m)\<rparr>;
          need_rehash = chm_size m1 div length (chm_table m1) > kLoadFactor
      in if need_rehash \<and> \<not> chm_is_rehashing m1
         then (res, (ConcurrentHashMap_Rehash hasher (m1\<lparr>chm_is_rehashing := True\<rparr>))\<lparr>chm_is_rehashing := False\<rparr>)
         else (res, m1))"

definition ConcurrentHashMap_Erase :: "('k :: linorder \<Rightarrow> nat) \<Rightarrow> ('k, 'v) chm \<Rightarrow> 'k \<Rightarrow> bool \<times> ('k, 'v) chm" where
  "ConcurrentHashMap_Erase hasher m key =
     (let list_idx = hasher key mod length (chm_table m);
          (res, table) = EraseFromList (chm_table m) list_idx key
      in if res then (True, m\<lparr>chm_table := table, chm_size := chm_size m - 1\<rparr>) else (False, m))"

definition ConcurrentHashMap_Clear :: "('k, 'v) chm \<Rightarrow> ('k, 'v) chm" where
  "ConcurrentHashMap_Clear m = m\<lparr>chm_table := map (\<lambda>_. []) (chm_table m), chm_size := 0\<rparr>"

text \<open>\<open>Find\<close>: the pair \<open>{true, value}\<close> is \<open>Some value\<close>, \<open>{false, {}}\<close> is \<^term>\<open>None\<close>.\<close>

definition ConcurrentHashMap_Find :: "('k :: linorder \<Rightarrow> nat) \<Rightarrow> ('k, 'v) chm \<Rightarrow> 'k \<Rightarrow> 'v option" where
  "ConcurrentHashMap_Find hasher m key =
     (let list = chm_table m ! (hasher key mod length (chm_table m));
          i = FindPosInList list key
      in if i \<noteq> length list \<and> fst (list ! i) = key then Some (snd (list ! i)) else None)"

definition ConcurrentHashMap_At :: "('k :: linorder \<Rightarrow> nat) \<Rightarrow> ('k, 'v) chm \<Rightarrow> 'k \<Rightarrow> 'v result" where
  "ConcurrentHashMap_At hasher m key = (case ConcurrentHashMap_Find hasher m key of Some v \<Rightarrow> Inr v | None \<Rightarrow> Inl OutOfRange)"

definition ConcurrentHashMap_Size :: "('k, 'v) chm \<Rightarrow> nat" where
  "ConcurrentHashMap_Size m = chm_size m"

definition mutex_idx :: "('k \<Rightarrow> nat) \<Rightarrow> ('k, 'v) chm \<Rightarrow> 'k \<Rightarrow> nat" where
  "mutex_idx hasher m key = hasher key mod chm_mutexes m"

section \<open>Sorted buckets\<close>

abbreviation sorted_bucket :: "('k :: linorder, 'v) bucket \<Rightarrow> bool" where
  "sorted_bucket list \<equiv> sorted_wrt (<) (map fst list)"

lemma FindPosInList_le: "FindPosInList list key \<le> length list"
  by (induction list) auto

lemma sorted_bucket_distinct: "sorted_bucket list \<Longrightarrow> distinct (map fst list)"
  by (simp add: strict_sorted_iff)

lemma map_of_FindPos:
  "sorted_bucket list \<Longrightarrow>
   (let i = FindPosInList list key in
    map_of list key = (if i \<noteq> length list \<and> fst (list ! i) = key then Some (snd (list ! i)) else None))"
proof (induction list)
  case (Cons p list)
  have "map_of list key = None" if "key < fst p"
    using that Cons.prems by (auto simp: map_of_eq_None_iff)
  then show ?case using Cons by (cases key "fst p" rule: linorder_cases) (auto simp: Let_def)
qed simp

lemma insert_at_sorted:
  "sorted_bucket list \<Longrightarrow> map_of list (fst elem) = None \<Longrightarrow>
   sorted_bucket (take (FindPosInList list (fst elem)) list @ elem # drop (FindPosInList list (fst elem)) list)"
proof (induction list)
  case (Cons p list)
  have "fst elem \<noteq> fst p" using Cons.prems(2) by (auto split: if_splits)
  moreover have "set (take k list) \<union> set (drop k list) = set list" for k
    by (metis append_take_drop_id set_append)
  ultimately show ?case using Cons by (fastforce split: if_splits)
qed simp

lemma erase_at_sorted:
  assumes "sorted_bucket list" "i < length list"
  shows "sorted_bucket (take i list @ drop (Suc i) list)"
    "set (take i list @ drop (Suc i) list) = set list - {list ! i}"
proof -
  have l: "list = take i list @ list ! i # drop (Suc i) list" using assms(2) by (simp add: id_take_nth_drop)
  show "sorted_bucket (take i list @ drop (Suc i) list)"
    using assms(1) by (subst (asm) l) (auto simp: sorted_wrt_append)
  have "distinct list" using sorted_bucket_distinct [OF assms(1)] by (simp add: distinct_map)
  then have "list ! i \<notin> set (take i list @ drop (Suc i) list)" by (subst (asm) l) auto
  moreover have "set list = insert (list ! i) (set (take i list @ drop (Suc i) list))" by (subst l) auto
  ultimately show "set (take i list @ drop (Suc i) list) = set list - {list ! i}" by auto
qed

lemma InsertIntoList_spec:
  assumes "i < length table" "sorted_bucket (table ! i)"
  shows "if map_of (table ! i) (fst elem) = None
    then \<exists>list. InsertIntoList table i elem = (True, table[i := list]) \<and> sorted_bucket list \<and>
           set list = insert elem (set (table ! i))
    else InsertIntoList table i elem = (False, table)"
proof (cases "map_of (table ! i) (fst elem) = None")
  case True
  let ?k = "FindPosInList (table ! i) (fst elem)"
  have "?k = length (table ! i) \<or> fst (table ! i ! ?k) \<noteq> fst elem"
    using map_of_FindPos [OF assms(2), of "fst elem"] True by (auto simp: Let_def split: if_splits)
  moreover have "set (take ?k (table ! i) @ elem # drop ?k (table ! i)) = insert elem (set (table ! i))"
    by (metis append_take_drop_id list.simps(15) set_append Un_insert_right)
  ultimately show ?thesis
    using True insert_at_sorted [OF assms(2) True] by (auto simp: InsertIntoList_def Let_def)
next
  case False
  then show ?thesis
    using map_of_FindPos [OF assms(2), of "fst elem"]
    by (auto simp: InsertIntoList_def Let_def split: if_splits)
qed

lemma EraseFromList_spec:
  assumes "i < length table" "sorted_bucket (table ! i)"
  shows "case map_of (table ! i) key of
      None \<Rightarrow> EraseFromList table i key = (False, table)
    | Some v \<Rightarrow> \<exists>list. EraseFromList table i key = (True, table[i := list]) \<and> sorted_bucket list \<and>
        set list = set (table ! i) - {(key, v)}"
proof -
  let ?k = "FindPosInList (table ! i) key"
  have le: "?k \<le> length (table ! i)" by (rule FindPosInList_le)
  show ?thesis
  proof (cases "?k \<noteq> length (table ! i) \<and> fst (table ! i ! ?k) = key")
    case True
    then have k: "?k < length (table ! i)" using le by simp
    have "table ! i ! ?k = (key, snd (table ! i ! ?k))" using True by (metis prod.collapse)
    with True map_of_FindPos [OF assms(2), of key] erase_at_sorted [OF assms(2) k] show ?thesis
      by (auto simp: EraseFromList_def Let_def)
  next
    case False
    then show ?thesis
      using map_of_FindPos [OF assms(2), of key] by (auto simp: EraseFromList_def Let_def)
  qed
qed

section \<open>Tables\<close>

definition pairs :: "('k, 'v) bucket list \<Rightarrow> ('k \<times> 'v) set" where
  "pairs table = (\<Union>i<length table. set (table ! i))"

text \<open>Sorted buckets, and no key in two of them.\<close>

definition spread :: "('k :: linorder, 'v) bucket list \<Rightarrow> bool" where
  "spread table \<longleftrightarrow> (\<forall>i<length table. sorted_bucket (table ! i)) \<and>
     (\<forall>i<length table. \<forall>j<length table. \<forall>p\<in>set (table ! i). \<forall>q\<in>set (table ! j). fst p = fst q \<longrightarrow> i = j)"

definition in_place :: "('k \<Rightarrow> nat) \<Rightarrow> ('k, 'v) bucket list \<Rightarrow> nat \<Rightarrow> bool" where
  "in_place hasher table i \<longleftrightarrow> (\<forall>p\<in>set (table ! i). hasher (fst p) mod length table = i)"

lemma spreadD:
  "spread table \<Longrightarrow> i < length table \<Longrightarrow> j < length table \<Longrightarrow> p \<in> set (table ! i) \<Longrightarrow> q \<in> set (table ! j) \<Longrightarrow>
   fst p = fst q \<Longrightarrow> i = j"
  unfolding spread_def by blast

lemma spread_sorted: "spread table \<Longrightarrow> i < length table \<Longrightarrow> sorted_bucket (table ! i)"
  by (simp add: spread_def)

lemma pairs_finite [simp]: "finite (pairs table)"
  by (simp add: pairs_def)

lemma pairs_update:
  "i < length table \<Longrightarrow> pairs (table[i := list]) = (\<Union>j\<in>{..<length table} - {i}. set (table ! j)) \<union> set list"
  by (auto simp: pairs_def nth_list_update split: if_splits)

lemma pairs_split: "i < length table \<Longrightarrow> pairs table = (\<Union>j\<in>{..<length table} - {i}. set (table ! j)) \<union> set (table ! i)"
  by (auto simp: pairs_def)

lemma pairs_insert:
  "i < length table \<Longrightarrow> set list = insert p (set (table ! i)) \<Longrightarrow> pairs (table[i := list]) = insert p (pairs table)"
  by (simp add: pairs_update pairs_split [of i table])

lemma spread_fst_inj: "spread table \<Longrightarrow> inj_on fst (pairs table)"
proof (rule inj_onI)
  fix p q assume s: "spread table" and "p \<in> pairs table" "q \<in> pairs table" and eq: "fst p = fst q"
  then obtain i j where ij: "i < length table" "p \<in> set (table ! i)" "j < length table" "q \<in> set (table ! j)"
    by (auto simp: pairs_def)
  then have "i = j" using s eq unfolding spread_def by blast
  moreover have "distinct (map fst (table ! i))" using s ij(1) sorted_bucket_distinct by (auto simp: spread_def)
  ultimately show "p = q" using ij eq by (metis eq_key_imp_eq_value prod.collapse)
qed

lemma spread_update:
  assumes "spread table" "i < length table" "sorted_bucket list"
    "\<forall>p\<in>set list. p \<in> set (table ! i) \<or> (\<forall>q\<in>pairs table. fst q = fst p \<longrightarrow> q \<in> set (table ! i))"
  shows "spread (table[i := list])"
proof -
  have clash: "False" if "p \<in> set list" "j < length table" "j \<noteq> i" "q \<in> set (table ! j)" "fst p = fst q" for p q j
  proof (cases "p \<in> set (table ! i)")
    case True
    then show ?thesis using assms(1,2) that unfolding spread_def by blast
  next
    case False
    then have "q \<in> set (table ! i)" using assms(4) that by (auto simp: pairs_def)
    then show ?thesis using assms(1,2) that unfolding spread_def by blast
  qed
  have "a = b" if "a < length table" "b < length table" "p \<in> set (table[i := list] ! a)"
    "q \<in> set (table[i := list] ! b)" "fst p = fst q" for a b p q
  proof -
    consider "a = i" "b = i" | "a = i" "b \<noteq> i" | "a \<noteq> i" "b = i" | "a \<noteq> i" "b \<noteq> i" by blast
    then show ?thesis
      using that clash [of p b q] clash [of q a p] assms(1,2) spreadD [OF assms(1), of a b p q] by cases auto
  qed
  moreover have "sorted_bucket (table[i := list] ! a)" if "a < length table" for a
    using that assms by (auto simp: spread_def nth_list_update)
  ultimately show ?thesis by (simp add: spread_def)
qed

text \<open>Moving an element between buckets keeps the pairs.\<close>

lemma move_element:
  assumes "spread table" "j < length table" "i < length (table ! j)" "n < length table" "n \<noteq> j"
  defines "elem \<equiv> table ! j ! i"
  shows "\<exists>list. InsertIntoList table n elem = (True, table[n := list]) \<and>
    set list = insert elem (set (table ! n)) \<and>
    spread (table[n := list, j := take i (table ! j) @ drop (Suc i) (table ! j)]) \<and>
    pairs (table[n := list, j := take i (table ! j) @ drop (Suc i) (table ! j)]) = pairs table"
proof -
  let ?rest = "take i (table ! j) @ drop (Suc i) (table ! j)"
  have elem: "elem \<in> set (table ! j)" using assms(3) by (simp add: elem_def)
  have "map_of (table ! n) (fst elem) = None"
    using spreadD [OF assms(1) assms(2) assms(4) elem] assms(5) by (force simp: map_of_eq_None_iff)
  then obtain list where l: "InsertIntoList table n elem = (True, table[n := list])" "sorted_bucket list"
    "set list = insert elem (set (table ! n))"
    using InsertIntoList_spec [OF assms(4) spread_sorted [OF assms(1,4)], of elem] by auto
  note rest = erase_at_sorted [OF spread_sorted [OF assms(1,2)] assms(3), folded elem_def]
  have s1: "spread (table[j := ?rest])"
    by (rule spread_update [OF assms(1,2)]) (use rest in auto)
  have pairs1: "pairs (table[j := ?rest]) = pairs table - {elem}"
  proof -
    have "p \<noteq> elem" if "k < length table" "k \<noteq> j" "p \<in> set (table ! k)" for k p
      using spreadD [OF assms(1) that(1) assms(2) that(3) elem] that(2) by blast
    then show ?thesis using assms(2) rest(2) by (auto simp: pairs_update) (auto simp: pairs_def)
  qed
  have "q \<in> set (table ! n)" if "q \<in> pairs (table[j := ?rest])" "fst q = fst elem" for q
  proof -
    have "q \<in> pairs table" "q \<noteq> elem" using that pairs1 by auto
    moreover have "elem \<in> pairs table" using elem assms(2) by (auto simp: pairs_def)
    ultimately show ?thesis using spread_fst_inj [OF assms(1)] that(2) by (auto dest: inj_onD)
  qed
  with l(2,3) assms(4,5) have "spread ((table[j := ?rest])[n := list])"
    using spread_update [OF s1, of n list] by fastforce
  moreover have "pairs ((table[j := ?rest])[n := list]) = pairs table"
  proof -
    have "pairs ((table[j := ?rest])[n := list]) = insert elem (pairs (table[j := ?rest]))"
      using assms(4,5) l(3) by (intro pairs_insert) simp_all
    then show ?thesis using pairs1 elem assms(2) by (auto simp: pairs_def)
  qed
  moreover have "(table[j := ?rest])[n := list] = table[n := list, j := ?rest]"
    using assms(5) by (simp add: list_update_swap)
  ultimately show ?thesis using l by auto
qed

lemma Rehash_list_ok:
  "spread table \<Longrightarrow> j < length table \<Longrightarrow> i \<le> length (table ! j) \<Longrightarrow> (\<forall>k<j. in_place hasher table k) \<Longrightarrow>
   (\<forall>p\<in>set (take i (table ! j)). hasher (fst p) mod length table = j) \<Longrightarrow>
   (let table' = Rehash_list hasher j i table in
    spread table' \<and> pairs table' = pairs table \<and> length table' = length table \<and>
    (\<forall>k\<le>j. in_place hasher table' k))"
proof (induction hasher j i table rule: Rehash_list.induct)
  case (1 hasher j i table)
  show ?case
  proof (cases "i < length (table ! j)")
    case False
    then have "Rehash_list hasher j i table = table" by (simp add: Rehash_list.simps)
    moreover have "in_place hasher table j" using False "1.prems"(3,5) by (simp add: in_place_def)
    ultimately show ?thesis using "1.prems" by (auto simp: Let_def le_less)
  next
    case True
    then have g: "j < length table \<and> i < length (table ! j)" using "1.prems"(2) by simp
    define elem where "elem = table ! j ! i"
    define n where "n = hasher (fst elem) mod length table"
    have n: "n < length table" using "1.prems"(2) unfolding n_def by (intro mod_less_divisor) linarith
    show ?thesis
    proof (cases "n = j")
      case True
      have "Rehash_list hasher j i table = Rehash_list hasher j (i + 1) table"
        using g True by (simp add: Rehash_list.simps [of hasher j i] Let_def elem_def n_def)
      moreover have "\<forall>p\<in>set (take (i + 1) (table ! j)). hasher (fst p) mod length table = j"
        using g True "1.prems"(5) by (auto simp: take_Suc_conv_app_nth n_def elem_def)
      ultimately show ?thesis
        using "1.IH"(2) [OF g elem_def n_def] True "1.prems" g by simp
    next
      case False
      let ?rest = "take i (table ! j) @ drop (Suc i) (table ! j)"
      obtain list where l: "InsertIntoList table n elem = (True, table[n := list])"
        "set list = insert elem (set (table ! n))" "spread (table[n := list, j := ?rest])"
        "pairs (table[n := list, j := ?rest]) = pairs table"
        using move_element [OF "1.prems"(1,2) \<open>i < length (table ! j)\<close> n False] by (auto simp: elem_def)
      have eq: "Rehash_list hasher j i table = Rehash_list hasher j i (table[n := list, j := ?rest])"
        using g False l(1) by (simp add: Rehash_list.simps [of hasher j i] Let_def flip: elem_def n_def)
      have "in_place hasher (table[n := list, j := ?rest]) k" if "k < j" for k
        using that "1.prems"(2,4) l(2) n
        by (cases "k = n") (auto simp: in_place_def n_def)
      then show ?thesis
        using "1.IH"(1) [OF g elem_def n_def False refl refl] l "1.prems"(2,3,5) g False
        unfolding eq by (auto simp: Let_def)
    qed
  qed
qed

lemma Rehash_fold_ok:
  "spread table \<Longrightarrow> k \<le> length table \<Longrightarrow>
   (let table' = foldl (\<lambda>table j. Rehash_list hasher j 0 table) table [0..<k] in
    spread table' \<and> pairs table' = pairs table \<and> length table' = length table \<and>
    (\<forall>i<k. in_place hasher table' i))"
proof (induction k)
  case (Suc k)
  then have "let t = foldl (\<lambda>table j. Rehash_list hasher j 0 table) table [0..<k] in
    spread t \<and> pairs t = pairs table \<and> length t = length table \<and> (\<forall>i<k. in_place hasher t i)" by simp
  with Rehash_list_ok [of "foldl (\<lambda>table j. Rehash_list hasher j 0 table) table [0..<k]" k 0 hasher] Suc.prems
  show ?case by (auto simp: Let_def less_Suc_eq_le)
qed simp

section \<open>The invariant and the map\<close>

definition chm_inv :: "('k :: linorder \<Rightarrow> nat) \<Rightarrow> ('k, 'v) chm \<Rightarrow> bool" where
  "chm_inv hasher m \<longleftrightarrow>
     spread (chm_table m) \<and> (\<forall>i<length (chm_table m). in_place hasher (chm_table m) i) \<and>
     chm_size m = card (pairs (chm_table m)) \<and> 0 < chm_mutexes m \<and>
     (\<exists>j. length (chm_table m) = chm_mutexes m * 2 ^ j)"

definition chm_map :: "('k :: linorder \<Rightarrow> nat) \<Rightarrow> ('k, 'v) chm \<Rightarrow> 'k \<rightharpoonup> 'v" where
  "chm_map hasher m key = map_of (chm_table m ! (hasher key mod length (chm_table m))) key"

lemma chm_invD:
  assumes "chm_inv hasher m"
  shows "spread (chm_table m)" "chm_size m = card (pairs (chm_table m))"
    "\<And>i p. i < length (chm_table m) \<Longrightarrow> p \<in> set (chm_table m ! i) \<Longrightarrow> hasher (fst p) mod length (chm_table m) = i"
  using assms by (simp_all add: chm_inv_def in_place_def)

lemma chm_inv_pos: "chm_inv hasher m \<Longrightarrow> 0 < length (chm_table m)"
  by (force simp: chm_inv_def)

lemma chm_inv_idx: "chm_inv hasher m \<Longrightarrow> hasher key mod length (chm_table m) < length (chm_table m)"
  using chm_inv_pos [of hasher m] by (intro mod_less_divisor)

lemma chm_map_pairs:
  assumes "chm_inv hasher m"
  shows "chm_map hasher m k = Some v \<longleftrightarrow> (k, v) \<in> pairs (chm_table m)"
proof -
  let ?t = "chm_table m"
  let ?i = "hasher k mod length ?t"
  have i: "?i < length ?t" by (rule chm_inv_idx [OF assms])
  have "distinct (map fst (?t ! ?i))"
    using assms spread_sorted [OF _ i] sorted_bucket_distinct by (auto simp: chm_inv_def)
  then have "chm_map hasher m k = Some v \<longleftrightarrow> (k, v) \<in> set (?t ! ?i)" by (simp add: chm_map_def)
  also have "\<dots> \<longleftrightarrow> (k, v) \<in> pairs ?t"
    using chm_invD(3) [OF assms, of _ "(k, v)"] i by (auto simp: pairs_def)
  finally show ?thesis .
qed

lemma chm_map_eqI:
  assumes "chm_inv hasher m" "\<And>k v. (k, v) \<in> pairs (chm_table m) \<longleftrightarrow> f k = Some v"
  shows "chm_map hasher m = f"
proof
  fix k
  show "chm_map hasher m k = f k"
    using chm_map_pairs [OF assms(1), of k] assms(2) [of k] by (cases "f k"; cases "chm_map hasher m k") auto
qed

lemma chm_size_card:
  assumes "chm_inv hasher m"
  shows "chm_size m = card (dom (chm_map hasher m))"
proof -
  have "dom (chm_map hasher m) = fst ` pairs (chm_table m)"
    using chm_map_pairs [OF assms] by (force simp: dom_def)
  then show ?thesis
    using chm_invD(2) [OF assms] card_image [OF spread_fst_inj [OF chm_invD(1) [OF assms]]] by simp
qed

lemma chm_map_finite:
  assumes "chm_inv hasher m"
  shows "finite (dom (chm_map hasher m))"
proof -
  have "dom (chm_map hasher m) = fst ` pairs (chm_table m)"
    using chm_map_pairs [OF assms] by (force simp: dom_def)
  then show ?thesis by simp
qed

lemma Rehash_ok:
  assumes "chm_inv hasher m"
  shows "chm_inv hasher (ConcurrentHashMap_Rehash hasher m) \<and>
    chm_map hasher (ConcurrentHashMap_Rehash hasher m) = chm_map hasher m \<and>
    length (chm_table (ConcurrentHashMap_Rehash hasher m)) = 2 * length (chm_table m)"
proof -
  let ?t = "chm_table m"
  let ?t2 = "?t @ replicate (length ?t) []"
  let ?m = "ConcurrentHashMap_Rehash hasher m"
  have nth: "?t2 ! i = (if i < length ?t then ?t ! i else [])" if "i < length ?t2" for i
    using that by (simp add: nth_append)
  have s: "spread ?t2"
    using chm_invD(1) [OF assms] spreadD [OF chm_invD(1) [OF assms]] spread_sorted
    by (auto simp: spread_def [of ?t2] nth simp del: length_append split: if_splits) 
  have p: "pairs ?t2 = pairs ?t" by (force simp: pairs_def nth_append split: if_splits)
  have tab: "chm_table ?m = foldl (\<lambda>table j. Rehash_list hasher j 0 table) ?t2 [0..<length ?t2]"
    by (simp add: ConcurrentHashMap_Rehash_def Let_def mult_2_right)
  note r = Rehash_fold_ok [OF s order_refl, of hasher, folded tab, unfolded Let_def]
  have len: "length (chm_table ?m) = 2 * length ?t" using r by simp
  obtain j where "length ?t = chm_mutexes m * 2 ^ j" using assms by (auto simp: chm_inv_def)
  then have "length (chm_table ?m) = chm_mutexes m * 2 ^ Suc j" using len by simp
  moreover have "chm_size ?m = chm_size m" "chm_mutexes ?m = chm_mutexes m"
    by (simp_all add: ConcurrentHashMap_Rehash_def Let_def)
  ultimately have inv: "chm_inv hasher ?m"
    using r p assms unfolding chm_inv_def by (metis (no_types, lifting))
  moreover have "chm_map hasher ?m = chm_map hasher m"
    using chm_map_pairs [OF assms] r p by (intro chm_map_eqI [OF inv]) auto
  ultimately show ?thesis using len by blast
qed

lemma chm_inv_flag [simp]: "chm_inv hasher (m\<lparr>chm_is_rehashing := b\<rparr>) = chm_inv hasher m"
  by (simp add: chm_inv_def)

lemma chm_map_flag [simp]: "chm_map hasher (m\<lparr>chm_is_rehashing := b\<rparr>) = chm_map hasher m"
  by (simp add: chm_map_def fun_eq_iff)

text \<open>Writing one bucket that stays in place.\<close>

lemma chm_inv_update:
  assumes "chm_inv hasher m" "spread ((chm_table m)[i := list])" "i < length (chm_table m)"
    "\<forall>p\<in>set list. hasher (fst p) mod length (chm_table m) = i" "n = card (pairs ((chm_table m)[i := list]))"
  shows "chm_inv hasher (m\<lparr>chm_table := (chm_table m)[i := list], chm_size := n\<rparr>)"
  using assms by (auto simp: chm_inv_def in_place_def nth_list_update)

lemma Insert_ok:
  assumes "chm_inv hasher m" "ConcurrentHashMap_Insert hasher m k v = (res, m')"
  shows "chm_inv hasher m' \<and> (res \<longleftrightarrow> chm_map hasher m k = None) \<and>
    chm_map hasher m' = (if res then (chm_map hasher m)(k \<mapsto> v) else chm_map hasher m)"
proof -
  let ?t = "chm_table m"
  let ?i = "hasher k mod length ?t"
  note i = chm_inv_idx [OF assms(1), of k]
  have sp: "spread ?t" using assms(1) by (simp add: chm_inv_def)
  obtain res1 t1 where ins: "InsertIntoList ?t ?i (k, v) = (res1, t1)" by fastforce
  define m1 where "m1 = m\<lparr>chm_table := t1, chm_size := (if res1 then chm_size m + 1 else chm_size m)\<rparr>"
  have m1: "chm_inv hasher m1 \<and> (res1 \<longleftrightarrow> chm_map hasher m k = None) \<and>
    chm_map hasher m1 = (if res1 then (chm_map hasher m)(k \<mapsto> v) else chm_map hasher m)"
  proof (cases "chm_map hasher m k = None")
    case False
    then have "res1 = False" "t1 = ?t"
      using InsertIntoList_spec [OF i spread_sorted [OF sp i], of "(k, v)"] ins by (auto simp: chm_map_def)
    then show ?thesis using assms(1) False by (simp add: m1_def)
  next
    case True
    then obtain list where l: "res1 = True" "t1 = ?t[?i := list]" "sorted_bucket list"
      "set list = insert (k, v) (set (?t ! ?i))"
      using InsertIntoList_spec [OF i spread_sorted [OF sp i], of "(k, v)"] ins by (auto simp: chm_map_def)
    have new: "(k, w) \<notin> pairs ?t" for w using True chm_map_pairs [OF assms(1), of k w] by simp
    have p: "pairs t1 = insert (k, v) (pairs ?t)" unfolding l(2) by (rule pairs_insert [OF i l(4)])
    have "spread t1" unfolding l(2) using l(4) new by (intro spread_update [OF sp i l(3)]) auto
    moreover have "chm_size m + 1 = card (pairs t1)" using assms(1) new by (simp add: p chm_inv_def)
    moreover have "\<forall>p\<in>set list. hasher (fst p) mod length ?t = ?i"
      using l(4) chm_invD(3) [OF assms(1) i] by auto
    ultimately have inv: "chm_inv hasher m1"
      using chm_inv_update [OF assms(1) _ i, of list "chm_size m + 1"] l(1,2) by (simp add: m1_def)
    have "chm_map hasher m1 = (chm_map hasher m)(k \<mapsto> v)"
      using chm_map_pairs [OF assms(1)] new p by (intro chm_map_eqI [OF inv]) (auto simp: m1_def)
    with inv True l(1) show ?thesis by simp
  qed
  have "res = res1 \<and> (m' = m1 \<or> m' = (ConcurrentHashMap_Rehash hasher (m1\<lparr>chm_is_rehashing := True\<rparr>))\<lparr>chm_is_rehashing := False\<rparr>)"
    using assms(2) ins by (auto simp: ConcurrentHashMap_Insert_def Let_def m1_def split: if_splits)
  with m1 Rehash_ok [of hasher "m1\<lparr>chm_is_rehashing := True\<rparr>"] show ?thesis by auto
qed

lemma Erase_ok:
  assumes "chm_inv hasher m" "ConcurrentHashMap_Erase hasher m k = (res, m')"
  shows "chm_inv hasher m' \<and> (res \<longleftrightarrow> chm_map hasher m k \<noteq> None) \<and>
    chm_map hasher m' = (chm_map hasher m)(k := None)"
proof -
  let ?t = "chm_table m"
  let ?i = "hasher k mod length ?t"
  note i = chm_inv_idx [OF assms(1), of k]
  have sp: "spread ?t" using assms(1) by (simp add: chm_inv_def)
  note spec = EraseFromList_spec [OF i spread_sorted [OF sp i], of k]
  show ?thesis
  proof (cases "chm_map hasher m k")
    case None
    then have "res = False" "m' = m" using spec assms(2) by (auto simp: chm_map_def ConcurrentHashMap_Erase_def Let_def)
    then show ?thesis using assms(1) None by auto
  next
    case (Some v)
    then obtain list where e: "EraseFromList ?t ?i k = (True, ?t[?i := list])" "sorted_bucket list"
      "set list = set (?t ! ?i) - {(k, v)}"
      using spec by (auto simp: chm_map_def)
    then have m': "res" "m' = m\<lparr>chm_table := ?t[?i := list], chm_size := chm_size m - 1\<rparr>"
      using assms(2) by (auto simp: ConcurrentHashMap_Erase_def Let_def)
    have kv: "(k, v) \<in> pairs ?t" using Some chm_map_pairs [OF assms(1)] by simp
    have only: "p \<noteq> (k, v)" if "j < length ?t" "j \<noteq> ?i" "p \<in> set (?t ! j)" for j p
      using that chm_invD(3) [OF assms(1), of j p] by auto
    have p: "pairs (?t[?i := list]) = pairs ?t - {(k, v)}"
      using only e(3) by (auto simp: pairs_update [OF i] pairs_split [OF i])
    have "spread (?t[?i := list])" using e(3) by (intro spread_update [OF sp i e(2)]) auto
    moreover have "chm_size m - 1 = card (pairs (?t[?i := list]))" using assms(1) kv by (simp add: p chm_inv_def)
    moreover have "\<forall>p\<in>set list. hasher (fst p) mod length ?t = ?i"
      using e(3) chm_invD(3) [OF assms(1) i] by auto
    ultimately have inv: "chm_inv hasher m'" unfolding m'(2) by (intro chm_inv_update [OF assms(1) _ i])
    have "chm_map hasher m' = (chm_map hasher m)(k := None)"
    proof (rule chm_map_eqI [OF inv])
      fix k' v'
      show "(k', v') \<in> pairs (chm_table m') \<longleftrightarrow> ((chm_map hasher m)(k := None)) k' = Some v'"
        using chm_map_pairs [OF assms(1), of k v'] chm_map_pairs [OF assms(1), of k' v'] Some
        by (cases "k' = k") (auto simp: m'(2) p)
    qed
    with inv m'(1) Some show ?thesis by simp
  qed
qed

lemma Find_ok: "chm_inv hasher m \<Longrightarrow> ConcurrentHashMap_Find hasher m k = chm_map hasher m k"
  using map_of_FindPos [OF spread_sorted [OF _ chm_inv_idx], of m hasher k k]
  by (simp add: chm_inv_def ConcurrentHashMap_Find_def chm_map_def Let_def)

lemma Find_eq: "chm_inv hasher m \<Longrightarrow> ConcurrentHashMap_Find hasher m = chm_map hasher m"
  by (rule ext) (rule Find_ok)

lemma Clear_ok:
  assumes "chm_inv hasher m"
  shows "chm_inv hasher (ConcurrentHashMap_Clear m) \<and> chm_map hasher (ConcurrentHashMap_Clear m) = Map.empty"
proof -
  have "pairs (map (\<lambda>_. []) t) = {}" for t :: "('a, 'b) bucket list" by (simp add: pairs_def)
  then have "chm_inv hasher (ConcurrentHashMap_Clear m)"
    using assms by (auto simp: chm_inv_def ConcurrentHashMap_Clear_def spread_def in_place_def)
  then show ?thesis
    by (auto intro!: chm_map_eqI simp: ConcurrentHashMap_Clear_def pairs_def)
qed

section \<open>The interface of a map\<close>

text \<open>
  What a user of the map relies on: every operation acts on the map \<open>model\<close> as documented, keeps the
  invariant, and reports whether it changed anything.
\<close>

locale key_value_map =
  fixes inv :: "'m \<Rightarrow> bool"
    and model :: "'m \<Rightarrow> 'k \<rightharpoonup> 'v"
    and insert :: "'m \<Rightarrow> 'k \<Rightarrow> 'v \<Rightarrow> bool \<times> 'm"
    and erase :: "'m \<Rightarrow> 'k \<Rightarrow> bool \<times> 'm"
    and find :: "'m \<Rightarrow> 'k \<Rightarrow> 'v option"
    and count_of :: "'m \<Rightarrow> nat"
  assumes insert_ok: "inv m \<Longrightarrow> insert m k v = (res, m') \<Longrightarrow>
      inv m' \<and> (res \<longleftrightarrow> model m k = None) \<and> model m' = (if res then (model m)(k \<mapsto> v) else model m)"
    and erase_ok: "inv m \<Longrightarrow> erase m k = (res, m') \<Longrightarrow>
      inv m' \<and> (res \<longleftrightarrow> model m k \<noteq> None) \<and> model m' = (model m)(k := None)"
    and find_ok: "inv m \<Longrightarrow> find m k = model m k"
    and count_ok: "inv m \<Longrightarrow> count_of m = card (dom (model m))"
    and finite_ok: "inv m \<Longrightarrow> finite (dom (model m))"
begin

text \<open>The first value inserted for a key stays until it is erased.\<close>

lemma find_after_insert:
  assumes "inv m" "insert m k v = (res, m')"
  shows "find m' k' = (if k' = k \<and> find m k = None then Some v else find m k')"
  using insert_ok [OF assms] find_ok assms(1) by auto

lemma find_after_erase:
  assumes "inv m" "erase m k = (res, m')"
  shows "find m' k' = (if k' = k then None else find m k')"
  using erase_ok [OF assms] find_ok assms(1) by auto

lemma count_after_insert:
  assumes "inv m" "insert m k v = (res, m')"
  shows "count_of m' = count_of m + (if res then 1 else 0)"
proof -
  note i = insert_ok [OF assms]
  have "card (Set.insert k (dom (model m))) = Suc (card (dom (model m)))" if res
    using i that finite_ok [OF assms(1)] by (intro card_insert_disjoint) auto
  then show ?thesis using i count_ok assms(1) by (cases res) simp_all
qed

lemma insert_erase:
  assumes "inv m" "insert m k v = (True, m1)" "erase m1 k = (res, m2)"
  shows "res \<and> model m2 = model m"
  using insert_ok [OF assms(1,2)] erase_ok [OF _ assms(3)] by (auto simp: fun_eq_iff)

end

interpretation chm: key_value_map "chm_inv hasher" "chm_map hasher" "ConcurrentHashMap_Insert hasher"
  "ConcurrentHashMap_Erase hasher" "ConcurrentHashMap_Find hasher" ConcurrentHashMap_Size
  for hasher :: "'k :: linorder \<Rightarrow> nat"
  by unfold_locales
    (rule Insert_ok Erase_ok Find_ok chm_map_finite | assumption
      | simp only: ConcurrentHashMap_Size_def chm_size_card)+

lemma ConcurrentHashMap_fresh:
  assumes "0 < threads" "expected_size = - 1 \<or> 0 \<le> expected_size"
  shows "chm_inv hasher (ConcurrentHashMap expected_size threads :: ('k :: linorder, 'v) chm) \<and>
    chm_map hasher (ConcurrentHashMap expected_size threads :: ('k, 'v) chm) = Map.empty"
proof -
  let ?m = "ConcurrentHashMap expected_size threads :: ('k, 'v) chm"
  have "0 < lists_cnt expected_size threads" if "0 \<le> expected_size"
    using that assms(1) by (cases "expected_size = 0") (auto simp: lists_cnt_def int_div_def kLoadFactor_def sgn_if
        intro!: add_nonneg_pos mult_pos_pos pos_imp_zdiv_nonneg_iff [THEN iffD2])
  then have n: "0 < chm_mutexes ?m" using assms by (auto simp: ConcurrentHashMap_def Let_def)
  have t: "chm_table ?m = replicate (chm_mutexes ?m) []" "chm_size ?m = 0"
    by (simp_all add: ConcurrentHashMap_def Let_def)
  have p: "pairs (chm_table ?m) = {}" by (simp add: pairs_def t(1))
  have "\<exists>j. length (chm_table ?m) = chm_mutexes ?m * 2 ^ j" by (rule exI [of _ 0]) (simp add: t)
  then have inv: "chm_inv hasher ?m"
    unfolding chm_inv_def using n p t(2) by (simp add: spread_def in_place_def t(1))
  with p show ?thesis by (auto intro!: chm_map_eqI)
qed

section \<open>Properties\<close>

text \<open>
  C23: \<open>Insert\<close>, including the rehash it may trigger, keeps the invariant of the table, returns true
  exactly when the key was absent, adds the pair in that case and changes nothing else.
\<close>

theorem ConcurrentHashMap_Insert_correct:
  assumes "chm_inv hasher m" "ConcurrentHashMap_Insert hasher m k v = (res, m')"
  shows "chm_inv hasher m' \<and> (res \<longleftrightarrow> ConcurrentHashMap_Find hasher m k = None) \<and>
    ConcurrentHashMap_Find hasher m' =
      (if res then (ConcurrentHashMap_Find hasher m)(k \<mapsto> v) else ConcurrentHashMap_Find hasher m) \<and>
    ConcurrentHashMap_Size m' = ConcurrentHashMap_Size m + (if res then 1 else 0)"
  using Insert_ok [OF assms] chm.count_after_insert [OF assms] assms(1) by (simp add: Find_eq)

theorem ConcurrentHashMap_Insert_correct_witness:
  "let m = ConcurrentHashMap (- 1) 1 :: (nat, string) chm; (res, m') = ConcurrentHashMap_Insert id m (5 :: nat) ''a'' in
   chm_inv id m' \<and> (res \<longleftrightarrow> ConcurrentHashMap_Find id m 5 = None) \<and>
    ConcurrentHashMap_Find id m' =
      (if res then (ConcurrentHashMap_Find id m)(5 \<mapsto> ''a'') else ConcurrentHashMap_Find id m) \<and>
    ConcurrentHashMap_Size m' = ConcurrentHashMap_Size m + (if res then 1 else 0)"
  using ConcurrentHashMap_Insert_correct [OF conjunct1 [OF ConcurrentHashMap_fresh [of 1 "- 1" id]], of 5 "''a''"]
  by (auto simp: Let_def split: prod.split)

text \<open>
  \<open>Erase\<close> keeps the invariant, returns true exactly when the key was present, and removes that key
  and nothing else.
\<close>

theorem ConcurrentHashMap_Erase_correct:
  assumes "chm_inv hasher m" "ConcurrentHashMap_Erase hasher m k = (res, m')"
  shows "chm_inv hasher m' \<and> (res \<longleftrightarrow> ConcurrentHashMap_Find hasher m k \<noteq> None) \<and>
    ConcurrentHashMap_Find hasher m' = (ConcurrentHashMap_Find hasher m)(k := None)"
  using Erase_ok [OF assms] assms(1) by (simp add: Find_eq)

theorem ConcurrentHashMap_Erase_correct_witness:
  "let m = ConcurrentHashMap (- 1) 1 :: (nat, string) chm; (res, m') = ConcurrentHashMap_Erase id m (5 :: nat) in
   chm_inv id m' \<and> (res \<longleftrightarrow> ConcurrentHashMap_Find id m 5 \<noteq> None) \<and>
   ConcurrentHashMap_Find id m' = (ConcurrentHashMap_Find id m)(5 := None)"
  using ConcurrentHashMap_Erase_correct [OF conjunct1 [OF ConcurrentHashMap_fresh [of 1 "- 1" id]], of 5]
  by (auto simp: Let_def split: prod.split)

text \<open>
  The striped locks are sound: in every table that satisfies the invariant, also after any number
  of rehashes, two keys that live in the same bucket are protected by the same mutex.
\<close>

theorem ConcurrentHashMap_same_bucket_same_mutex:
  assumes "chm_inv hasher m"
    "hasher k mod length (chm_table m) = hasher k' mod length (chm_table m)"
  shows "mutex_idx hasher m k = mutex_idx hasher m k'"
proof -
  obtain j where "length (chm_table m) = chm_mutexes m * 2 ^ j" using assms(1) by (auto simp: chm_inv_def)
  then have "chm_mutexes m dvd length (chm_table m)" by simp
  with assms(2) show ?thesis unfolding mutex_idx_def by (metis mod_mod_cancel)
qed

theorem ConcurrentHashMap_same_bucket_same_mutex_witness:
  "mutex_idx id (ConcurrentHashMap (- 1) 1 :: (nat, nat) chm) 3 = mutex_idx id (ConcurrentHashMap (- 1) 1 :: (nat, nat) chm) 7"
  by (rule ConcurrentHashMap_same_bucket_same_mutex)
    (simp_all add: ConcurrentHashMap_fresh, simp add: ConcurrentHashMap_def)

end
