(* ===== verification/Timer_Heap.thy ===== *)
theory Timer_Heap
  imports Prelude
begin

text \<open>
  The intrusive binary heap of timers of the fiber runtime (\<open>tools/cactus/core/timer.h\<close> and
  \<open>timer.cpp\<close>): the array of heap entries, the back pointer \<open>heap_position\<close> that every timer
  object keeps into it, and the operations of \<open>Timer\<close> and \<open>TimerHeap\<close>.  The theory proves that the
  array stays heap ordered and that the back pointers stay consistent with it, and that the whole
  structure implements the \<open>timer_queue\<close> interface: a finite map from active timers to deadlines
  with a minimum.
\<close>

section \<open>Data and operations\<close>

type_synonym time_point = int
type_synonym timer_ptr = nat

record heap_entry =
  deadline :: time_point
  timer :: timer_ptr

record timer_heap =
  heap :: "heap_entry list"
  heap_position :: "timer_ptr \<Rightarrow> int"

definition TimerHeap_empty :: timer_heap where
  "TimerHeap_empty = \<lparr>heap = [], heap_position = (\<lambda>_. - 1)\<rparr>"

definition GetMin :: "timer_heap \<Rightarrow> timer_ptr option" where
  "GetMin h = (case heap h of [] \<Rightarrow> None | e # _ \<Rightarrow> Some (timer e))"

definition IsActive :: "timer_heap \<Rightarrow> timer_ptr \<Rightarrow> bool" where
  "IsActive h t \<longleftrightarrow> heap_position h t \<noteq> - 1"

text \<open>\<open>GetDeadline\<close> checks that the timer is in the heap; the failed check is \<^term>\<open>None\<close>.\<close>

definition GetDeadline :: "timer_heap \<Rightarrow> timer_ptr \<Rightarrow> time_point option" where
  "GetDeadline h t =
     (if heap_position h t \<noteq> - 1 then Some (deadline (heap h ! nat (heap_position h t)))
      else None)"

text \<open>
  The three statements both sift loops share: swap two entries, then write the new index into the
  two timers that moved.
\<close>

definition swap_entries :: "timer_heap \<Rightarrow> nat \<Rightarrow> nat \<Rightarrow> timer_heap" where
  "swap_entries h i j =
     (let xs = list_swap (heap h) i j
      in \<lparr>heap = xs,
          heap_position =
            (heap_position h)(timer (xs ! i) := int i, timer (xs ! j) := int j)\<rparr>)"

function SiftUp :: "timer_heap \<Rightarrow> nat \<Rightarrow> timer_heap" where
  "SiftUp h index =
     (if index > 0 then
        (let parent = (index - 1) div 2 in
         if deadline (heap h ! index) > deadline (heap h ! parent) then h
         else SiftUp (swap_entries h index parent) parent)
      else h)"
  by pat_completeness auto
termination
  by (relation "measure snd") auto

definition pick_child :: "timer_heap \<Rightarrow> nat \<Rightarrow> nat \<Rightarrow> nat" where
  "pick_child h smaller child =
     (if child < length (heap h) \<and>
         deadline (heap h ! smaller) > deadline (heap h ! child) then child else smaller)"

definition smaller_of :: "timer_heap \<Rightarrow> nat \<Rightarrow> nat" where
  "smaller_of h index =
     pick_child h (pick_child h index (index * 2 + 1)) (index * 2 + 2)"

lemma smaller_of_cases:
  "smaller_of h k = k \<or>
   smaller_of h k < length (heap h) \<and> (smaller_of h k = 2 * k + 1 \<or> smaller_of h k = 2 * k + 2)"
  by (auto simp: smaller_of_def pick_child_def)

lemma length_swap_entries [simp]: "length (heap (swap_entries h i j)) = length (heap h)"
  by (simp add: swap_entries_def Let_def)

function SiftDown :: "timer_heap \<Rightarrow> nat \<Rightarrow> timer_heap" where
  "SiftDown h index =
     (let smaller = smaller_of h index in
      if smaller \<noteq> index then SiftDown (swap_entries h index smaller) smaller else h)"
  by pat_completeness auto
termination
proof (relation "measure (\<lambda>(h, i). length (heap h) - i)")
  fix h :: timer_heap and index x
  assume "x = smaller_of h index" "x \<noteq> index"
  with smaller_of_cases [of h index]
  show "((swap_entries h index x, x), h, index) \<in> measure (\<lambda>(h, i). length (heap h) - i)"
    by auto
qed simp

declare SiftUp.simps [simp del] SiftDown.simps [simp del]

definition Activate :: "timer_heap \<Rightarrow> timer_ptr \<Rightarrow> time_point \<Rightarrow> timer_heap" where
  "Activate h t d =
     (let xs = heap h @ [\<lparr>deadline = d, timer = t\<rparr>];
          p = length xs - 1
      in SiftUp \<lparr>heap = xs, heap_position = (heap_position h)(t := int p)\<rparr> p)"

definition Deactivate :: "timer_heap \<Rightarrow> timer_ptr \<Rightarrow> timer_heap" where
  "Deactivate h t =
     (if heap_position h t = - 1 then h
      else
        let position = nat (heap_position h t);
            pos' = (heap_position h)(t := - 1)
        in if position \<noteq> length (heap h) - 1 then
             (let xs = (heap h)[position := last (heap h)];
                  h' = \<lparr>heap = butlast xs,
                        heap_position = pos'(timer (xs ! position) := int position)\<rparr>
              in SiftUp (SiftDown h' position) position)
           else \<lparr>heap = butlast (heap h), heap_position = pos'\<rparr>)"

definition Timer_destroy :: "timer_heap \<Rightarrow> timer_ptr \<Rightarrow> timer_heap" where
  "Timer_destroy h t = (if IsActive h t then Deactivate h t else h)"

section \<open>The heap order\<close>

abbreviation dl :: "heap_entry list \<Rightarrow> nat \<Rightarrow> time_point" where
  "dl xs i \<equiv> deadline (xs ! i)"

definition par :: "nat \<Rightarrow> nat" where
  "par i = (i - 1) div 2"

lemma par_less [simp]: "0 < i \<Longrightarrow> par i < i"
  by (simp add: par_def)

lemma par_le: "par i \<le> i"
  by (simp add: par_def)

lemma par_neq [simp]: "0 < i \<Longrightarrow> par i \<noteq> i" "0 < i \<Longrightarrow> i \<noteq> par i"
  by (metis less_irrefl par_less)+

lemma par_bound [simp]: "i < n \<Longrightarrow> par i < n"
  using par_le [of i] by linarith

lemma par_child [simp]: "par (Suc (2 * k)) = k" "par (Suc (Suc (2 * k))) = k"
  by (simp_all add: par_def)

lemma par_children: "0 < i \<Longrightarrow> par i = k \<longleftrightarrow> i = 2 * k + 1 \<or> i = 2 * k + 2"
  by (auto simp: par_def)

lemmas SiftUp_unfold = SiftUp.simps [folded par_def]
lemmas SiftUp_induct = SiftUp.induct [folded par_def]

definition heap_ordered :: "heap_entry list \<Rightarrow> bool" where
  "heap_ordered xs \<longleftrightarrow> (\<forall>i<length xs. 0 < i \<longrightarrow> dl xs (par i) \<le> dl xs i)"

text \<open>
  During a sift the order holds except at the travelling index: \<open>up_ordered\<close> excuses the edge to
  its parent, \<open>down_ordered\<close> the edges to its children.  In both cases the children of the index are
  not smaller than its parent.
\<close>

definition grand_ordered :: "heap_entry list \<Rightarrow> nat \<Rightarrow> bool" where
  "grand_ordered xs k \<longleftrightarrow>
     (\<forall>i<length xs. 0 < i \<longrightarrow> par i = k \<longrightarrow> 0 < k \<longrightarrow> dl xs (par k) \<le> dl xs i)"

definition up_ordered :: "heap_entry list \<Rightarrow> nat \<Rightarrow> bool" where
  "up_ordered xs k \<longleftrightarrow> grand_ordered xs k \<and>
     (\<forall>i<length xs. 0 < i \<longrightarrow> i \<noteq> k \<longrightarrow> dl xs (par i) \<le> dl xs i)"

definition down_ordered :: "heap_entry list \<Rightarrow> nat \<Rightarrow> bool" where
  "down_ordered xs k \<longleftrightarrow> grand_ordered xs k \<and>
     (\<forall>i<length xs. 0 < i \<longrightarrow> par i \<noteq> k \<longrightarrow> dl xs (par i) \<le> dl xs i)"

lemma heap_swap_entries [simp]: "heap (swap_entries h i j) = list_swap (heap h) i j"
  by (simp add: swap_entries_def Let_def)

lemma heap_ordered_up: "heap_ordered xs \<Longrightarrow> up_ordered xs k"
proof -
  assume h: "heap_ordered xs"
  have "dl xs (par k) \<le> dl xs i" if "i < length xs" "0 < i" "par i = k" "0 < k" for i
  proof -
    have "dl xs (par k) \<le> dl xs k" "dl xs k \<le> dl xs i"
      using h that by (auto simp: heap_ordered_def)
    then show ?thesis by simp
  qed
  then show ?thesis
    using h by (auto simp: up_ordered_def grand_ordered_def heap_ordered_def)
qed

lemma up_ordered_swap:
  assumes "up_ordered xs k" "k < length xs" "0 < k" "dl xs k \<le> dl xs (par k)"
  shows "up_ordered (list_swap xs k (par k)) (par k)"
proof -
  define p where "p = par k"
  have p: "p < k" "p < length xs" using assms by (auto simp: p_def)
  let ?ys = "list_swap xs k p"
  have edge: "dl xs (par i) \<le> dl xs i" if "i < length xs" "0 < i" "i \<noteq> k" for i
    using assms(1) that by (auto simp: up_ordered_def)
  have grand: "dl xs p \<le> dl xs i" if "i < length xs" "0 < i" "par i = k" for i
    using assms(1,3) that by (auto simp: up_ordered_def grand_ordered_def p_def)
  have val: "dl ?ys i = (if i = p then dl xs k else if i = k then dl xs p else dl xs i)"
    if "i < length xs" for i
    using p that assms by (simp add: nth_list_swap)
  have kp: "dl xs k \<le> dl xs p" using assms(4) by (simp add: p_def)
  have "dl ?ys (par i) \<le> dl ?ys i" if i: "i < length xs" "0 < i" "i \<noteq> p" for i
    using i p kp edge [of i] edge [of p] grand [of i] par_less [of i]
    by (auto simp: val p_def [symmetric])
  moreover have "dl ?ys (par p) \<le> dl ?ys i"
    if i: "i < length xs" "0 < i" "par i = p" "0 < p" for i
    using i p kp edge [of i] edge [of p] by (auto simp: val)
  ultimately show ?thesis
    by (simp add: up_ordered_def grand_ordered_def p_def [symmetric])
qed

lemma SiftUp_ordered: "up_ordered (heap h) k \<Longrightarrow> k < length (heap h) \<Longrightarrow> heap_ordered (heap (SiftUp h k))"
proof (induction h k rule: SiftUp_induct)
  case (1 h k)
  show ?case
  proof (cases "0 < k \<and> \<not> dl (heap h) k > dl (heap h) (par k)")
    case True
    then have "up_ordered (heap (swap_entries h k (par k))) (par k)"
      using "1.prems" by (auto intro: up_ordered_swap)
    then have "heap_ordered (heap (SiftUp (swap_entries h k (par k)) (par k)))"
      using "1.IH" [of "par k"] True "1.prems"(2) par_less [of k] by simp
    then show ?thesis using True by (simp add: SiftUp_unfold [of h k] Let_def)
  next
    case False
    then have "heap (SiftUp h k) = heap h" and "k = 0 \<or> dl (heap h) (par k) \<le> dl (heap h) k"
      by (auto simp: SiftUp_unfold [of h k] Let_def)
    then show ?thesis using "1.prems"(1) by (auto simp: up_ordered_def heap_ordered_def)
  qed
qed

lemma smaller_of_le:
  "i < length (heap h) \<Longrightarrow> 0 < i \<Longrightarrow> par i = k \<Longrightarrow>
   dl (heap h) (smaller_of h k) \<le> dl (heap h) i"
  by (auto simp: par_children smaller_of_def pick_child_def mult.commute [of k 2])

lemma smaller_of_less:
  "smaller_of h k \<noteq> k \<Longrightarrow> dl (heap h) (smaller_of h k) < dl (heap h) k"
  by (auto simp: smaller_of_def pick_child_def split: if_splits)

lemma smaller_of_child:
  "smaller_of h k \<noteq> k \<Longrightarrow>
   smaller_of h k < length (heap h) \<and> k < smaller_of h k \<and> par (smaller_of h k) = k"
  using smaller_of_cases [of h k] by auto

lemma down_ordered_swap:
  assumes "down_ordered xs k" and c: "c < length xs" "k < c" "par c = k"
    and less: "dl xs c < dl xs k"
    and min: "\<And>i. i < length xs \<Longrightarrow> 0 < i \<Longrightarrow> par i = k \<Longrightarrow> dl xs c \<le> dl xs i"
  shows "down_ordered (list_swap xs k c) c"
proof -
  let ?ys = "list_swap xs k c"
  have edge: "dl xs (par i) \<le> dl xs i" if "i < length xs" "0 < i" "par i \<noteq> k" for i
    using assms(1) that by (auto simp: down_ordered_def)
  have grand: "dl xs (par k) \<le> dl xs c" if "0 < k"
    using assms(1) c that by (auto simp: down_ordered_def grand_ordered_def)
  have val: "dl ?ys i = (if i = c then dl xs k else if i = k then dl xs c else dl xs i)"
    if "i < length xs" for i
    using c that by (simp add: nth_list_swap)
  have "dl ?ys (par i) \<le> dl ?ys i" if i: "i < length xs" "0 < i" "par i \<noteq> c" for i
    using i c less min [of i] edge [of i] grand par_less [of i] by (auto simp: val)
  moreover have "dl ?ys (par c) \<le> dl ?ys i"
    if i: "i < length xs" "0 < i" "par i = c" for i
    using i c edge [of i] par_less [of i] by (auto simp: val)
  ultimately show ?thesis
    by (auto simp: down_ordered_def grand_ordered_def)
qed

lemma SiftDown_ordered: "down_ordered (heap h) k \<Longrightarrow> heap_ordered (heap (SiftDown h k))"
proof (induction h k rule: SiftDown.induct)
  case (1 h k)
  show ?case
  proof (cases "smaller_of h k = k")
    case True
    have "dl (heap h) k \<le> dl (heap h) i"
      if "i < length (heap h)" "0 < i" "par i = k" for i
      using smaller_of_le [OF that] True by simp
    then have "heap_ordered (heap h)"
      using "1.prems" by (fastforce simp: down_ordered_def heap_ordered_def)
    then show ?thesis using True by (simp add: SiftDown.simps [of h k] Let_def)
  next
    case False
    let ?c = "smaller_of h k"
    have "down_ordered (heap (swap_entries h k ?c)) ?c"
      using "1.prems" smaller_of_child [OF False] smaller_of_less [OF False]
      by (auto intro!: down_ordered_swap smaller_of_le)
    then have "heap_ordered (heap (SiftDown (swap_entries h k ?c) ?c))"
      using "1.IH" [of ?c] False by simp
    then show ?thesis using False by (simp add: SiftDown.simps [of h k] Let_def)
  qed
qed

lemma SiftDown_idle:
  "\<forall>i<length (heap h). 0 < i \<longrightarrow> par i = k \<longrightarrow> dl (heap h) k \<le> dl (heap h) i \<Longrightarrow> SiftDown h k = h"
proof -
  assume a: "\<forall>i<length (heap h). 0 < i \<longrightarrow> par i = k \<longrightarrow> dl (heap h) k \<le> dl (heap h) i"
  have "smaller_of h k = k"
    using a smaller_of_child [of h k] smaller_of_less [of h k] by fastforce
  then show ?thesis by (simp add: SiftDown.simps [of h k] Let_def)
qed

section \<open>Back pointers\<close>

definition positions_ok :: "timer_heap \<Rightarrow> bool" where
  "positions_ok h \<longleftrightarrow>
     (\<forall>i<length (heap h). heap_position h (timer (heap h ! i)) = int i) \<and>
     (\<forall>t. heap_position h t \<noteq> - 1 \<longrightarrow>
        (\<exists>i<length (heap h). heap_position h t = int i \<and> timer (heap h ! i) = t))"

lemma positions_okI:
  assumes "\<And>i. i < length (heap h) \<Longrightarrow> heap_position h (timer (heap h ! i)) = int i"
    and "\<And>t. heap_position h t \<noteq> - 1 \<Longrightarrow>
      \<exists>i<length (heap h). heap_position h t = int i \<and> timer (heap h ! i) = t"
  shows "positions_ok h"
  using assms by (auto simp: positions_ok_def)

lemma positions_okD: "positions_ok h \<Longrightarrow> i < length (heap h) \<Longrightarrow> heap_position h (timer (heap h ! i)) = int i"
  by (simp add: positions_ok_def)

lemma positions_ok_obtain:
  assumes "positions_ok h" "heap_position h t \<noteq> - 1"
  obtains i where "i < length (heap h)" "heap_position h t = int i" "timer (heap h ! i) = t"
  using assms by (auto simp: positions_ok_def)

lemma positions_ok_inj:
  "positions_ok h \<Longrightarrow> i < length (heap h) \<Longrightarrow> j < length (heap h) \<Longrightarrow>
   timer (heap h ! i) = timer (heap h ! j) \<longleftrightarrow> i = j"
  by (metis positions_okD of_nat_eq_iff)

lemma positions_ok_swap:
  assumes ok: "positions_ok h" and ij: "i < length (heap h)" "j < length (heap h)" "i \<noteq> j"
  shows "positions_ok (swap_entries h i j)"
proof (rule positions_okI)
  fix k assume k: "k < length (heap (swap_entries h i j))"
  then show "heap_position (swap_entries h i j) (timer (heap (swap_entries h i j) ! k)) = int k"
    using ij positions_ok_inj [OF ok] positions_okD [OF ok]
    by (auto simp: swap_entries_def Let_def nth_list_swap)
next
  fix t assume t: "heap_position (swap_entries h i j) t \<noteq> - 1"
  let ?P = "\<lambda>k. heap_position (swap_entries h i j) t = int k \<and> timer (heap (swap_entries h i j) ! k) = t"
  consider "t = timer (heap h ! i)" | "t = timer (heap h ! j)" |
    "t \<noteq> timer (heap h ! i)" "t \<noteq> timer (heap h ! j)" by blast
  then show "\<exists>k<length (heap (swap_entries h i j)). ?P k"
  proof cases
    case 1
    then have "?P j" using ij by (simp add: swap_entries_def Let_def nth_list_swap)
    then show ?thesis using ij by auto
  next
    case 2
    then have "?P i"
      using ij positions_ok_inj [OF ok] by (simp add: swap_entries_def Let_def nth_list_swap)
    then show ?thesis using ij by auto
  next
    case 3
    then have "heap_position h t \<noteq> - 1"
      using t ij by (auto simp: swap_entries_def Let_def nth_list_swap split: if_splits)
    then obtain k where "k < length (heap h)" "heap_position h t = int k" "timer (heap h ! k) = t"
      by (rule positions_ok_obtain [OF ok])
    then have "?P k \<and> k < length (heap h)"
      using 3 ij by (auto simp: swap_entries_def Let_def nth_list_swap)
    then show ?thesis by auto
  qed
qed

text \<open>Sifting permutes the array and keeps the back pointers right.\<close>

lemma SiftUp_frame:
  "positions_ok h \<Longrightarrow> k < length (heap h) \<Longrightarrow>
   positions_ok (SiftUp h k) \<and> mset (heap (SiftUp h k)) = mset (heap h)"
proof (induction h k rule: SiftUp_induct)
  case (1 h k)
  show ?case
  proof (cases "0 < k \<and> \<not> dl (heap h) k > dl (heap h) (par k)")
    case True
    then have p: "par k < k" by simp
    then have "positions_ok (swap_entries h k (par k))"
      using "1.prems" by (intro positions_ok_swap) auto
    then show ?thesis
      using "1.IH" [of "par k"] True "1.prems" p
      by (simp add: SiftUp_unfold [of h k] Let_def)
  next
    case False
    then have "SiftUp h k = h" by (auto simp: SiftUp_unfold [of h k] Let_def)
    then show ?thesis using "1.prems" by simp
  qed
qed

lemma SiftDown_frame:
  "positions_ok h \<Longrightarrow> k < length (heap h) \<Longrightarrow>
   positions_ok (SiftDown h k) \<and> mset (heap (SiftDown h k)) = mset (heap h)"
proof (induction h k rule: SiftDown.induct)
  case (1 h k)
  show ?case
  proof (cases "smaller_of h k = k")
    case True
    then show ?thesis using "1.prems" by (simp add: SiftDown.simps [of h k] Let_def)
  next
    case False
    then have c: "smaller_of h k < length (heap h)" "k < smaller_of h k"
      using smaller_of_child by auto
    then have "positions_ok (swap_entries h k (smaller_of h k))"
      using "1.prems" by (intro positions_ok_swap) auto
    then show ?thesis
      using "1.IH" [of "smaller_of h k"] False "1.prems" c
      by (simp add: SiftDown.simps [of h k] Let_def)
  qed
qed

section \<open>The invariant and the abstraction\<close>

definition timer_inv :: "timer_heap \<Rightarrow> bool" where
  "timer_inv h \<longleftrightarrow> positions_ok h \<and> heap_ordered (heap h)"

text \<open>The abstract value: which timers are active, and their deadlines.\<close>

lemma GetDeadline_iff:
  "positions_ok h \<Longrightarrow> GetDeadline h t = Some d \<longleftrightarrow> \<lparr>deadline = d, timer = t\<rparr> \<in> set (heap h)"
proof
  assume ok: "positions_ok h" and g: "GetDeadline h t = Some d"
  then have "heap_position h t \<noteq> - 1" by (auto simp: GetDeadline_def split: if_splits)
  then obtain i where "i < length (heap h)" "heap_position h t = int i" "timer (heap h ! i) = t"
    by (rule positions_ok_obtain [OF ok])
  moreover from this g have "heap h ! i = \<lparr>deadline = d, timer = t\<rparr>"
    by (auto simp: GetDeadline_def)
  ultimately show "\<lparr>deadline = d, timer = t\<rparr> \<in> set (heap h)"
    by (metis nth_mem)
next
  assume ok: "positions_ok h" and m: "\<lparr>deadline = d, timer = t\<rparr> \<in> set (heap h)"
  then obtain i where "i < length (heap h)" "heap h ! i = \<lparr>deadline = d, timer = t\<rparr>"
    by (auto simp: in_set_conv_nth)
  moreover from this have "heap_position h t = int i"
    using positions_okD [OF ok, of i] by simp
  ultimately show "GetDeadline h t = Some d" by (simp add: GetDeadline_def)
qed

lemma GetDeadline_cong:
  assumes "positions_ok h" "positions_ok h'" "set (heap h) = set (heap h')"
  shows "GetDeadline h = GetDeadline h'"
proof
  fix t show "GetDeadline h t = GetDeadline h' t"
    using GetDeadline_iff [OF assms(1), of t] GetDeadline_iff [OF assms(2), of t] assms(3)
    by (metis option.exhaust)
qed

lemma GetDeadline_inactive: "GetDeadline h t = None \<longleftrightarrow> \<not> IsActive h t"
  by (simp add: GetDeadline_def IsActive_def)

lemma timer_inv_empty: "timer_inv TimerHeap_empty"
  by (simp add: timer_inv_def positions_ok_def heap_ordered_def TimerHeap_empty_def)

lemma GetDeadline_empty: "GetDeadline TimerHeap_empty = Map.empty"
  by (auto simp: GetDeadline_def TimerHeap_empty_def)

lemma positions_ok_push:
  assumes "positions_ok h" "\<not> IsActive h t"
  shows "positions_ok \<lparr>heap = heap h @ [\<lparr>deadline = d, timer = t\<rparr>],
                       heap_position = (heap_position h)(t := int (length (heap h)))\<rparr>"
    (is "positions_ok ?h")
proof (rule positions_okI)
  fix i assume "i < length (heap ?h)"
  moreover have "timer (heap h ! j) \<noteq> t" if "j < length (heap h)" for j
    using positions_okD [OF assms(1) that] assms(2) by (auto simp: IsActive_def)
  ultimately show "heap_position ?h (timer (heap ?h ! i)) = int i"
    using positions_okD [OF assms(1), of i] by (auto simp: nth_append less_Suc_eq)
next
  fix u assume u: "heap_position ?h u \<noteq> - 1"
  show "\<exists>i<length (heap ?h). heap_position ?h u = int i \<and> timer (heap ?h ! i) = u"
  proof (cases "u = t")
    case True then show ?thesis by (auto simp: nth_append)
  next
    case False
    with u obtain i where "i < length (heap h)" "heap_position h u = int i" "timer (heap h ! i) = u"
      by (auto elim: positions_ok_obtain [OF assms(1)])
    then show ?thesis using False by (auto simp: nth_append)
  qed
qed

section \<open>Activate and Deactivate\<close>

lemma up_ordered_push: "heap_ordered xs \<Longrightarrow> up_ordered (xs @ [e]) (length xs)"
proof -
  assume h: "heap_ordered xs"
  have no_child: "par i \<noteq> length xs" if "i < Suc (length xs)" "0 < i" for i
    using par_less [OF that(2)] that(1) by linarith
  show ?thesis
    using h no_child
    by (auto simp: heap_ordered_def up_ordered_def grand_ordered_def nth_append)
qed

lemma Activate_spec:
  assumes "timer_inv h" "\<not> IsActive h t"
  shows "timer_inv (Activate h t d)" "GetDeadline (Activate h t d) = (GetDeadline h)(t \<mapsto> d)"
proof -
  let ?e = "\<lparr>deadline = d, timer = t\<rparr>"
  let ?h = "\<lparr>heap = heap h @ [?e], heap_position = (heap_position h)(t := int (length (heap h)))\<rparr>"
  have A: "Activate h t d = SiftUp ?h (length (heap h))"
    by (simp add: Activate_def Let_def)
  have ok: "positions_ok h" and ok': "positions_ok ?h"
    using assms positions_ok_push by (auto simp: timer_inv_def)
  note fr = SiftUp_frame [OF ok', of "length (heap h)", simplified]
  have ord: "heap_ordered (heap (SiftUp ?h (length (heap h))))"
    using assms(1) by (intro SiftUp_ordered) (simp_all add: up_ordered_push timer_inv_def)
  with fr show inv: "timer_inv (Activate h t d)" by (simp add: A timer_inv_def)
  have set: "set (heap (Activate h t d)) = insert ?e (set (heap h))"
    using fr by (metis A set_mset_mset set_mset_add_mset_insert)
  show "GetDeadline (Activate h t d) = (GetDeadline h)(t \<mapsto> d)"
  proof
    fix u
    have ok'': "positions_ok (Activate h t d)" using inv by (simp add: timer_inv_def)
    have "GetDeadline (Activate h t d) u = Some x \<longleftrightarrow> ((GetDeadline h)(t \<mapsto> d)) u = Some x" for x
      using GetDeadline_iff [OF ok, of u x] GetDeadline_iff [OF ok'', of u x] set assms(2)
        GetDeadline_inactive [of h t]
      by auto
    then show "GetDeadline (Activate h t d) u = ((GetDeadline h)(t \<mapsto> d)) u"
      by (metis option.exhaust)
  qed
qed

lemma sift_both_ordered:
  assumes pos: "positions_ok h" and k: "k < length (heap h)"
    and grand: "grand_ordered (heap h) k"
    and edges: "\<And>i. i < length (heap h) \<Longrightarrow> 0 < i \<Longrightarrow> i \<noteq> k \<Longrightarrow> par i \<noteq> k \<Longrightarrow>
      dl (heap h) (par i) \<le> dl (heap h) i"
  shows "heap_ordered (heap (SiftUp (SiftDown h k) k))"
proof -
  have len: "k < length (heap (SiftDown h k))"
    using SiftDown_frame [OF pos k] k by (metis mset_eq_length)
  show ?thesis
  proof (cases "0 < k \<and> dl (heap h) k < dl (heap h) (par k)")
    case True
    have ch: "dl (heap h) (par k) \<le> dl (heap h) i"
      if "i < length (heap h)" "0 < i" "par i = k" for i
      using grand True that by (auto simp: grand_ordered_def)
    then have "SiftDown h k = h"
      using True by (intro SiftDown_idle) force
    moreover have "up_ordered (heap h) k"
      using grand edges ch True by (fastforce simp: up_ordered_def)
    ultimately show ?thesis using k by (simp add: SiftUp_ordered)
  next
    case False
    then have "down_ordered (heap h) k"
      using grand edges by (fastforce simp: down_ordered_def)
    then show ?thesis
      using len by (intro SiftUp_ordered heap_ordered_up SiftDown_ordered)
  qed
qed

lemma remove_nth:
  assumes "k < length xs - 1"
  shows "length (butlast (xs[k := last xs])) = length xs - 1"
    "\<And>i. i < length xs - 1 \<Longrightarrow>
      butlast (xs[k := last xs]) ! i = (if i = k then xs ! (length xs - 1) else xs ! i)"
proof -
  show "length (butlast (xs[k := last xs])) = length xs - 1" by simp
  have "xs \<noteq> []" using assms by auto
  then show "butlast (xs[k := last xs]) ! i = (if i = k then xs ! (length xs - 1) else xs ! i)"
    if "i < length xs - 1" for i
    using that by (auto simp: nth_butlast last_conv_nth)
qed

lemma Deactivate_middle:
  assumes ok: "positions_ok h" and k: "heap_position h t = int k" "k < length (heap h) - 1"
  defines "xs \<equiv> butlast ((heap h)[k := last (heap h)])"
  defines "h' \<equiv> \<lparr>heap = xs, heap_position =
     ((heap_position h)(t := - 1))(timer (heap h ! (length (heap h) - 1)) := int k)\<rparr>"
  shows "positions_ok h'"
    "set xs = {e \<in> set (heap h). timer e \<noteq> t}"
proof -
  let ?n = "length (heap h) - 1"
  have kn: "k < length (heap h)" "?n < length (heap h)" "k \<noteq> ?n" using k by auto
  have nth: "length xs = ?n"
    "\<And>i. i < ?n \<Longrightarrow> xs ! i = (if i = k then heap h ! ?n else heap h ! i)"
    using remove_nth [OF k(2)] by (simp_all add: xs_def)
  have "heap_position h t \<noteq> - 1" using k by simp
  then obtain j where "j < length (heap h)" "heap_position h t = int j" "timer (heap h ! j) = t"
    by (rule positions_ok_obtain [OF ok])
  then have tk: "timer (heap h ! k) = t" using k by simp
  have inj: "timer (heap h ! i) = timer (heap h ! j) \<longleftrightarrow> i = j"
    if "i < length (heap h)" "j < length (heap h)" for i j
    using positions_ok_inj [OF ok that] .
  have neq: "timer (heap h ! ?n) \<noteq> t" using inj [of ?n k] kn tk by auto
  show "positions_ok h'"
  proof (rule positions_okI)
    fix i assume "i < length (heap h')"
    then have i: "i < ?n" by (simp add: h'_def nth)
    show "heap_position h' (timer (heap h' ! i)) = int i"
    proof (cases "i = k")
      case True then show ?thesis using i nth by (simp add: h'_def)
    next
      case False
      have "timer (heap h ! i) \<noteq> t" "timer (heap h ! i) \<noteq> timer (heap h ! ?n)"
        using inj [of i k] inj [of i ?n] False i kn tk by auto
      then show ?thesis using False i nth positions_okD [OF ok, of i] by (simp add: h'_def)
    qed
  next
    fix u assume u: "heap_position h' u \<noteq> - 1"
    show "\<exists>i<length (heap h'). heap_position h' u = int i \<and> timer (heap h' ! i) = u"
    proof (cases "u = timer (heap h ! ?n)")
      case True then show ?thesis using k nth by (auto simp: h'_def intro!: exI [of _ k])
    next
      case False
      then have ut: "u \<noteq> t" "heap_position h u \<noteq> - 1" using u by (auto simp: h'_def split: if_splits)
      then obtain i where i: "i < length (heap h)" "heap_position h u = int i" "timer (heap h ! i) = u"
        using positions_ok_obtain [OF ok] by metis
      then have "i < ?n" "i \<noteq> k" using False ut tk by (auto simp: less_Suc_eq_le nat_less_le)
      then show ?thesis using False ut i nth by (auto simp: h'_def intro!: exI [of _ i])
    qed
  qed
  show "set xs = {e \<in> set (heap h). timer e \<noteq> t}"
  proof (intro set_eqI iffI)
    fix e assume "e \<in> set xs"
    then obtain i where i: "i < ?n" "e = (if i = k then heap h ! ?n else heap h ! i)"
      using nth by (auto simp: in_set_conv_nth)
    then show "e \<in> {e \<in> set (heap h). timer e \<noteq> t}"
      using inj [of i k] kn neq tk by (auto split: if_splits)
  next
    fix e assume "e \<in> {e \<in> set (heap h). timer e \<noteq> t}"
    then obtain i where i: "i < length (heap h)" "e = heap h ! i" "i \<noteq> k"
      using tk by (auto simp: in_set_conv_nth)
    show "e \<in> set xs"
    proof (cases "i = ?n")
      case True
      then have "e = xs ! k" using nth k i by auto
      then show ?thesis using nth k by (metis nth_mem)
    next
      case False
      then have "i < ?n" "e = xs ! i" using i nth by auto
      then show ?thesis using nth by (metis nth_mem)
    qed
  qed
qed

lemma Deactivate_last:
  assumes ok: "positions_ok h" and k: "heap_position h t = int (length (heap h) - 1)" "heap h \<noteq> []"
  shows "positions_ok \<lparr>heap = butlast (heap h), heap_position = (heap_position h)(t := - 1)\<rparr>"
      (is "positions_ok ?h")
    "set (butlast (heap h)) = {e \<in> set (heap h). timer e \<noteq> t}"
proof -
  let ?n = "length (heap h) - 1"
  have n: "?n < length (heap h)" using k by auto
  have "heap_position h t \<noteq> - 1" using k by simp
  then obtain j where "j < length (heap h)" "heap_position h t = int j" "timer (heap h ! j) = t"
    by (rule positions_ok_obtain [OF ok])
  then have tn: "timer (heap h ! ?n) = t" using k(1) by (simp only: of_nat_eq_iff)
  have ne: "timer (heap h ! i) \<noteq> t" if "i < ?n" for i
    using positions_ok_inj [OF ok, of i ?n] that tn n by auto
  show "positions_ok ?h"
  proof (rule positions_okI)
    fix i assume "i < length (heap ?h)"
    then show "heap_position ?h (timer (heap ?h ! i)) = int i"
      using ne [of i] positions_okD [OF ok, of i] by (simp add: nth_butlast)
  next
    fix u assume u: "heap_position ?h u \<noteq> - 1"
    then obtain i where i: "i < length (heap h)" "heap_position h u = int i" "timer (heap h ! i) = u"
      using positions_ok_obtain [OF ok, of u] by (auto split: if_splits)
    moreover have "i < ?n" using i u tn by (auto simp: nat_less_le split: if_splits)
    ultimately show "\<exists>i<length (heap ?h). heap_position ?h u = int i \<and> timer (heap ?h ! i) = u"
      using u by (auto simp: nth_butlast intro!: exI [of _ i] split: if_splits)
  qed
  have "heap h = butlast (heap h) @ [heap h ! ?n]" using k by (metis append_butlast_last_id last_conv_nth)
  then have "set (heap h) = insert (heap h ! ?n) (set (butlast (heap h)))"
    by (metis list.set(2) rotate1.simps(2) set_rotate1)
  moreover have "timer e \<noteq> t" if "e \<in> set (butlast (heap h))" for e
    using that ne by (metis in_set_conv_nth length_butlast nth_butlast)
  ultimately show "set (butlast (heap h)) = {e \<in> set (heap h). timer e \<noteq> t}" using tn by auto
qed

lemma Deactivate_frame:
  assumes "timer_inv h" "IsActive h t"
  shows "timer_inv (Deactivate h t) \<and>
    set (heap (Deactivate h t)) = {e \<in> set (heap h). timer e \<noteq> t}"
proof -
  have ok: "positions_ok h" and ord: "heap_ordered (heap h)"
    using assms by (auto simp: timer_inv_def)
  obtain k where k: "k < length (heap h)" "heap_position h t = int k" "timer (heap h ! k) = t"
    using assms positions_ok_obtain [OF ok] by (auto simp: IsActive_def)
  let ?n = "length (heap h) - 1"
  show ?thesis
  proof (cases "k = ?n")
    case True
    have ne: "heap h \<noteq> []" using k by auto
    have "heap_position h t \<noteq> - 1" "nat (heap_position h t) = ?n" using k True by auto
    then have D: "Deactivate h t =
        \<lparr>heap = butlast (heap h), heap_position = (heap_position h)(t := - 1)\<rparr>"
      by (simp only: Deactivate_def Let_def if_False simp_thms)
    have "heap_ordered (butlast (heap h))"
      using ord par_bound by (auto simp: heap_ordered_def nth_butlast)
    then show ?thesis using Deactivate_last [OF ok _ ne, of t] k True D by (simp add: timer_inv_def)
  next
    case False
    then have kn: "k < ?n" using k by auto
    define xs where "xs = butlast ((heap h)[k := last (heap h)])"
    define h' where "h' = \<lparr>heap = xs, heap_position =
      ((heap_position h)(t := - 1))(timer (heap h ! ?n) := int k)\<rparr>"
    have last: "last (heap h) = heap h ! ?n" using k by (intro last_conv_nth) auto
    have D: "Deactivate h t = SiftUp (SiftDown h' k) k"
      using k False by (simp add: Deactivate_def Let_def h'_def xs_def last)
    have nth: "length xs = ?n"
      "\<And>i. i < ?n \<Longrightarrow> xs ! i = (if i = k then heap h ! ?n else heap h ! i)"
      using remove_nth [OF kn] by (simp_all add: xs_def)
    note mid = Deactivate_middle [OF ok k(2) kn, folded xs_def, folded h'_def]
    have kh: "k < length (heap h')" using kn nth by (simp add: h'_def)
    have edge: "dl (heap h) (par i) \<le> dl (heap h) i" if "i < length (heap h)" "0 < i" for i
      using ord that by (simp add: heap_ordered_def)
    have grand: "grand_ordered (heap h') k"
      unfolding grand_ordered_def
    proof (intro allI impI)
      fix i assume i: "i < length (heap h')" "0 < i" "par i = k" "0 < k"
      then have "dl (heap h) (par k) \<le> dl (heap h) k" "dl (heap h) k \<le> dl (heap h) i"
        using edge [of k] edge [of i] k nth by (auto simp: h'_def)
      moreover have "i \<noteq> k" "par k \<noteq> k" "par k < ?n" using i par_less [of i] par_less [of k] kn by auto
      ultimately show "dl (heap h') (par k) \<le> dl (heap h') i"
        using i nth by (simp add: h'_def)
    qed
    have ordered: "heap_ordered (heap (SiftUp (SiftDown h' k) k))"
    proof (rule sift_both_ordered [OF mid(1) kh grand])
      fix i assume i: "i < length (heap h')" "0 < i" "i \<noteq> k" "par i \<noteq> k"
      then show "dl (heap h') (par i) \<le> dl (heap h') i"
        using edge [of i] nth by (simp add: h'_def)
    qed
    note d = SiftDown_frame [OF mid(1) kh]
    then have "k < length (heap (SiftDown h' k))" using kh by (metis mset_eq_length)
    note u = SiftUp_frame [OF d [THEN conjunct1] this]
    have "set (heap (Deactivate h t)) = set xs"
      using d u by (metis D h'_def set_mset_mset timer_heap.select_convs(1))
    then show ?thesis using u ordered mid(2) by (simp add: D timer_inv_def)
  qed
qed

lemma Deactivate_spec:
  assumes "timer_inv h"
  shows "timer_inv (Deactivate h t)" "GetDeadline (Deactivate h t) = (GetDeadline h)(t := None)"
proof -
  show inv: "timer_inv (Deactivate h t)"
    using Deactivate_frame [OF assms, of t] assms
    by (cases "IsActive h t") (auto simp: Deactivate_def IsActive_def)
  show "GetDeadline (Deactivate h t) = (GetDeadline h)(t := None)"
  proof (cases "IsActive h t")
    case False
    then have "Deactivate h t = h" by (simp add: Deactivate_def IsActive_def)
    then show ?thesis using False GetDeadline_inactive [of h t] by auto
  next
    case True
    note fr = Deactivate_frame [OF assms True]
    have "GetDeadline (Deactivate h t) u = Some x \<longleftrightarrow> ((GetDeadline h)(t := None)) u = Some x" for u x
      using GetDeadline_iff [of h u x] GetDeadline_iff [of "Deactivate h t" u x] fr assms
      by (auto simp: timer_inv_def)
    then show ?thesis by (metis option.exhaust ext)
  qed
qed

lemma heap_root_min:
  "heap_ordered xs \<Longrightarrow> i < length xs \<Longrightarrow> dl xs 0 \<le> dl xs i"
proof (induction i rule: less_induct)
  case (less i)
  show ?case
  proof (cases "i = 0")
    case False
    then have "dl xs 0 \<le> dl xs (par i)" using less by simp
    also have "\<dots> \<le> dl xs i" using less False by (simp add: heap_ordered_def)
    finally show ?thesis .
  qed simp
qed

lemma GetMin_None: "GetMin h = None \<longleftrightarrow> heap h = []"
  by (simp add: GetMin_def split: list.splits)

lemma GetMin_least:
  assumes "timer_inv h" "GetMin h = Some t"
  shows "\<exists>d. GetDeadline h t = Some d \<and> (\<forall>u e. GetDeadline h u = Some e \<longrightarrow> d \<le> e)"
proof -
  have ok: "positions_ok h" and ord: "heap_ordered (heap h)"
    using assms by (auto simp: timer_inv_def)
  have ne: "heap h \<noteq> []" and t: "t = timer (heap h ! 0)"
    using assms(2) by (auto simp: GetMin_def split: list.splits)
  have pos: "heap_position h t = 0" using positions_okD [OF ok, of 0] ne t by simp
  have "d \<ge> dl (heap h) 0" if "GetDeadline h u = Some d" for u d
  proof -
    from that have "\<lparr>deadline = d, timer = u\<rparr> \<in> set (heap h)" using GetDeadline_iff [OF ok] by simp
    then obtain i where "i < length (heap h)" "heap h ! i = \<lparr>deadline = d, timer = u\<rparr>"
      by (auto simp: in_set_conv_nth)
    then show ?thesis using heap_root_min [OF ord, of i] by simp
  qed
  then show ?thesis using pos by (auto simp: GetDeadline_def)
qed

section \<open>The timer queue interface\<close>

text \<open>
  What the scheduler relies on: a queue of timers is, up to its invariant, a map from timers to
  deadlines; \<open>activate\<close> and \<open>deactivate\<close> change one key, \<open>get_min\<close> names a timer of least deadline
  and is empty-handed only when no timer is active.
\<close>

locale timer_queue =
  fixes empty :: 'q
    and activate :: "'q \<Rightarrow> timer_ptr \<Rightarrow> time_point \<Rightarrow> 'q"
    and deactivate :: "'q \<Rightarrow> timer_ptr \<Rightarrow> 'q"
    and get_min :: "'q \<Rightarrow> timer_ptr option"
    and deadlines :: "'q \<Rightarrow> timer_ptr \<Rightarrow> time_point option"
    and invar :: "'q \<Rightarrow> bool"
  assumes invar_empty: "invar empty"
    and deadlines_empty: "deadlines empty = Map.empty"
    and invar_activate: "invar q \<Longrightarrow> deadlines q t = None \<Longrightarrow> invar (activate q t d)"
    and deadlines_activate:
      "invar q \<Longrightarrow> deadlines q t = None \<Longrightarrow> deadlines (activate q t d) = (deadlines q)(t \<mapsto> d)"
    and invar_deactivate: "invar q \<Longrightarrow> invar (deactivate q t)"
    and deadlines_deactivate: "invar q \<Longrightarrow> deadlines (deactivate q t) = (deadlines q)(t := None)"
    and get_min_None: "invar q \<Longrightarrow> get_min q = None \<longleftrightarrow> deadlines q = Map.empty"
    and get_min_Some: "invar q \<Longrightarrow> get_min q = Some t \<Longrightarrow>
      \<exists>d. deadlines q t = Some d \<and> (\<forall>u e. deadlines q u = Some e \<longrightarrow> d \<le> e)"
begin

lemma min_expired:
  assumes "invar q" "deadlines q u = Some e" "e < now"
  shows "\<exists>t d. get_min q = Some t \<and> deadlines q t = Some d \<and> d < now"
proof (cases "get_min q")
  case None
  then show ?thesis using assms get_min_None by auto
next
  case (Some t)
  then obtain d where "deadlines q t = Some d" "d \<le> e"
    using get_min_Some [OF assms(1) Some] assms(2) by auto
  then show ?thesis using Some assms(3) by auto
qed

lemma no_expired_left:
  assumes "invar q"
    and "get_min q = None \<or> (\<exists>t d. get_min q = Some t \<and> deadlines q t = Some d \<and> \<not> d < now)"
    and "deadlines q u = Some e"
  shows "\<not> e < now"
  using assms min_expired [of q u e now] by fastforce

lemma dom_deactivate_min:
  assumes "invar q" "get_min q = Some t" "finite (dom (deadlines q))"
  shows "card (dom (deadlines (deactivate q t))) < card (dom (deadlines q))"
proof -
  have "t \<in> dom (deadlines q)" using get_min_Some assms by blast
  then show ?thesis
    using card_Diff1_less [OF assms(3)] by (metis assms(1) deadlines_deactivate dom_fun_upd)
qed

lemma activate_deactivate:
  assumes "invar q" "deadlines q t = None"
  shows "deadlines (deactivate (activate q t d) t) = deadlines q"
  using assms by (auto simp: invar_activate deadlines_activate deadlines_deactivate)

end

interpretation th: timer_queue TimerHeap_empty Activate Deactivate GetMin GetDeadline timer_inv
proof unfold_locales
  fix h :: timer_heap and t d
  assume inv: "timer_inv h"
  show "(GetMin h = None) = (GetDeadline h = Map.empty)"
  proof -
    have "GetDeadline h = Map.empty \<longleftrightarrow> set (heap h) = {}"
      using inv GetDeadline_iff [of h] unfolding timer_inv_def
      by (metis (no_types, lifting) all_not_in_conv heap_entry.cases option.distinct(1) option.exhaust ext)
    then show ?thesis by (simp add: GetMin_None)
  qed
  show "GetMin h = Some t \<Longrightarrow>
     \<exists>d. GetDeadline h t = Some d \<and> (\<forall>u e. GetDeadline h u = Some e \<longrightarrow> d \<le> e)"
    using GetMin_least [OF inv] .
  assume "GetDeadline h t = None"
  then show "timer_inv (Activate h t d)" "GetDeadline (Activate h t d) = (GetDeadline h)(t \<mapsto> d)"
    using Activate_spec [OF inv] GetDeadline_inactive by auto
qed (simp_all add: timer_inv_empty GetDeadline_empty Deactivate_spec)

text \<open>The active timers are finitely many: each of them occupies a cell of the array.\<close>

lemma finite_active: "positions_ok h \<Longrightarrow> finite (dom (GetDeadline h))"
proof -
  assume ok: "positions_ok h"
  have "dom (GetDeadline h) \<subseteq> timer ` set (heap h)"
    using GetDeadline_iff [OF ok] by force
  then show ?thesis using finite_surj by blast
qed

section \<open>Properties\<close>

text \<open>
  Activating an inactive timer keeps the heap invariant (heap order, and every timer knows its
  position) and adds exactly that timer with its deadline.
\<close>

theorem Activate_refines:
  assumes "timer_inv h" "GetDeadline h t = None"
  shows "timer_inv (Activate h t d) \<and> GetDeadline (Activate h t d) = (GetDeadline h)(t \<mapsto> d)"
  using th.invar_activate [OF assms] th.deadlines_activate [OF assms] by blast

theorem Activate_refines_witness:
  "timer_inv (Activate TimerHeap_empty 3 7) \<and>
   GetDeadline (Activate TimerHeap_empty 3 7) = (GetDeadline TimerHeap_empty)(3 \<mapsto> 7)"
  by (rule Activate_refines) (simp_all add: th.invar_empty th.deadlines_empty)

text \<open>
  C17: deactivating a timer, anywhere in the heap, keeps the invariant and removes exactly that timer;
  an inactive timer is left alone.
\<close>

theorem Deactivate_refines:
  assumes "timer_inv h"
  shows "timer_inv (Deactivate h t) \<and> GetDeadline (Deactivate h t) = (GetDeadline h)(t := None)"
  using Deactivate_spec [OF assms] by blast

theorem Deactivate_refines_witness:
  "timer_inv (Deactivate (Activate TimerHeap_empty 3 7) 3) \<and>
   GetDeadline (Deactivate (Activate TimerHeap_empty 3 7) 3) = (GetDeadline (Activate TimerHeap_empty 3 7))(3 := None)"
  by (rule Deactivate_refines) (simp add: th.invar_activate th.invar_empty th.deadlines_empty)

text \<open>
  \<open>GetMin\<close> returns a timer whose deadline no active timer undercuts, and nothing exactly when no
  timer is active.
\<close>

theorem GetMin_correct:
  assumes "timer_inv h"
  shows "case GetMin h of
      None \<Rightarrow> GetDeadline h = Map.empty
    | Some t \<Rightarrow> \<exists>d. GetDeadline h t = Some d \<and> (\<forall>u e. GetDeadline h u = Some e \<longrightarrow> d \<le> e)"
  using th.get_min_None [OF assms] th.get_min_Some [OF assms] by (auto split: option.split)

theorem GetMin_correct_witness:
  "case GetMin (Activate TimerHeap_empty 3 7) of
      None \<Rightarrow> GetDeadline (Activate TimerHeap_empty 3 7) = Map.empty
    | Some t \<Rightarrow> \<exists>d. GetDeadline (Activate TimerHeap_empty 3 7) t = Some d \<and>
        (\<forall>u e. GetDeadline (Activate TimerHeap_empty 3 7) u = Some e \<longrightarrow> d \<le> e)"
  by (rule GetMin_correct) (simp add: th.invar_activate th.invar_empty th.deadlines_empty)

end
