(* ===== verification/Intrusive_List.thy ===== *)
theory Intrusive_List
  imports Prelude
begin

text \<open>
  The intrusive doubly linked ring of \<open>tools/cactus/internal/intrusive_list.h\<close>.  Every element
  carries its own \<open>prev\<close> and \<open>next\<close> pointers, so the state is a store of two pointer fields and the
  operations are the source's pointer assignments in their order.  The theory proves that a ring
  through a list head represents a finite sequence, that \<open>PushBack\<close>, \<open>Erase\<close> and \<open>Unlink\<close> act on
  that sequence, and that they leave every disjoint ring of the same store alone.
\<close>

section \<open>Elements and lists\<close>

type_synonym elem = nat

record links =
  prev :: "elem \<Rightarrow> elem"
  nxt :: "elem \<Rightarrow> elem"

definition ListElement_init :: "links \<Rightarrow> elem \<Rightarrow> links" where
  "ListElement_init s this = s\<lparr>prev := (prev s)(this := this), nxt := (nxt s)(this := this)\<rparr>"

definition Attach :: "links \<Rightarrow> elem \<Rightarrow> elem \<Rightarrow> links" where
  "Attach s this other =
     (let s1 = s\<lparr>nxt := (nxt s)(other := nxt s this)\<rparr>;
          s2 = s1\<lparr>prev := (prev s1)(other := this)\<rparr>;
          s3 = s2\<lparr>prev := (prev s2)(nxt s2 this := other)\<rparr>
      in s3\<lparr>nxt := (nxt s3)(this := other)\<rparr>)"

definition Unlink :: "links \<Rightarrow> elem \<Rightarrow> links" where
  "Unlink s this =
     (let s1 = s\<lparr>nxt := (nxt s)(prev s this := nxt s this)\<rparr>;
          s2 = s1\<lparr>prev := (prev s1)(nxt s1 this := prev s1 this)\<rparr>
      in s2\<lparr>prev := (prev s2)(this := this), nxt := (nxt s2)(this := this)\<rparr>)"

definition IsLinked :: "links \<Rightarrow> elem \<Rightarrow> bool" where
  "IsLinked s this \<longleftrightarrow> prev s this \<noteq> this"

definition List_IsEmpty :: "links \<Rightarrow> elem \<Rightarrow> bool" where
  "List_IsEmpty s list_head = (\<not> IsLinked s list_head)"

definition List_Begin :: "links \<Rightarrow> elem \<Rightarrow> elem" where
  "List_Begin s list_head = nxt s list_head"

definition List_Back :: "links \<Rightarrow> elem \<Rightarrow> elem" where
  "List_Back s list_head = prev s list_head"

definition List_PushBack :: "links \<Rightarrow> elem \<Rightarrow> elem \<Rightarrow> links" where
  "List_PushBack s list_head element = Attach s (prev s list_head) element"

definition List_Erase :: "links \<Rightarrow> elem \<Rightarrow> links" where
  "List_Erase s element = Unlink s element"

section \<open>Rings and the sequences they represent\<close>

text \<open>\<open>chain s a xs b\<close>: following \<open>next\<close> from \<open>a\<close> visits exactly \<open>xs\<close> and then \<open>b\<close>, and \<open>prev\<close> leads back.\<close>

fun chain :: "links \<Rightarrow> elem \<Rightarrow> elem list \<Rightarrow> elem \<Rightarrow> bool" where
  "chain s a [] b \<longleftrightarrow> nxt s a = b \<and> prev s b = a"
| "chain s a (x # xs) b \<longleftrightarrow> nxt s a = x \<and> prev s x = a \<and> chain s x xs b"

definition dlist :: "links \<Rightarrow> elem \<Rightarrow> elem list \<Rightarrow> bool" where
  "dlist s h xs \<longleftrightarrow> distinct (h # xs) \<and> chain s h xs h"

lemma chain_append: "chain s a (xs @ y # ys) b \<longleftrightarrow> chain s a xs y \<and> chain s y ys b"
  by (induction xs arbitrary: a) auto

lemma chain_cong:
  "(\<And>p. p \<in> set (a # xs) \<Longrightarrow> nxt s' p = nxt s p) \<Longrightarrow>
   (\<And>p. p \<in> set (xs @ [b]) \<Longrightarrow> prev s' p = prev s p) \<Longrightarrow> chain s' a xs b = chain s a xs b"
  by (induction xs arbitrary: a) auto

lemma chain_last: "chain s a xs b \<Longrightarrow> prev s b = last (a # xs)"
  by (induction xs arbitrary: a) auto

lemma chain_first: "chain s a xs b \<Longrightarrow> nxt s a = hd (xs @ [b])"
  by (cases xs) auto

lemma chain_nxt_last: "chain s a xs b \<Longrightarrow> nxt s (last (a # xs)) = b"
  by (induction xs arbitrary: a) auto

text \<open>Redirecting the last link of a chain to a new end.\<close>

lemma chain_redirect:
  assumes "chain s a xs b" "distinct (a # xs)" "c \<notin> set xs"
    and "\<And>p. p \<in> set (a # xs) \<Longrightarrow> nxt s' p = (if p = last (a # xs) then c else nxt s p)"
    and "\<And>p. p \<in> set xs \<Longrightarrow> prev s' p = prev s p" and "prev s' c = last (a # xs)"
  shows "chain s' a xs c"
  using assms
proof (induction xs arbitrary: a)
  case (Cons x xs)
  have "chain s' x xs c"
    using Cons.prems by (intro Cons.IH) (auto split: if_splits)
  moreover have "nxt s' a = x" "prev s' x = a"
    using Cons.prems by (auto split: if_splits)
  ultimately show ?case by simp
qed auto

lemma dlist_init: "dlist (ListElement_init s h) h []"
  by (simp add: dlist_def ListElement_init_def)

lemma dlist_empty_iff: "dlist s h xs \<Longrightarrow> List_IsEmpty s h \<longleftrightarrow> xs = []"
  using chain_last [of s h xs h] last_in_set [of xs]
  by (auto simp: dlist_def List_IsEmpty_def IsLinked_def split: if_splits)

lemma dlist_Begin: "dlist s h xs \<Longrightarrow> List_Begin s h = hd (xs @ [h])"
  by (simp add: dlist_def List_Begin_def chain_first)

lemma dlist_Back: "dlist s h xs \<Longrightarrow> List_Back s h = last (h # xs)"
  by (simp only: dlist_def List_Back_def chain_last)

lemma dlist_linked: "dlist s h xs \<Longrightarrow> e \<in> set xs \<Longrightarrow> IsLinked s e"
proof -
  assume d: "dlist s h xs" and e: "e \<in> set xs"
  then obtain ys zs where xs: "xs = ys @ e # zs" by (auto simp: in_set_conv_decomp)
  then have "prev s e = last (h # ys)" using d chain_last by (auto simp: dlist_def chain_append)
  moreover have "e \<notin> set (h # ys)" using d xs by (auto simp: dlist_def)
  ultimately show ?thesis by (metis IsLinked_def last_in_set list.distinct(1))
qed

section \<open>The operations\<close>

lemma Attach_fields:
  assumes "other \<noteq> this" "other \<noteq> nxt s this"
  shows "nxt (Attach s this other) = (nxt s)(other := nxt s this, this := other)"
    "prev (Attach s this other) = (prev s)(other := this, nxt s this := other)"
  using assms by (auto simp: Attach_def Let_def)

lemma Unlink_fields:
  "nxt (Unlink s e) = (nxt s)(prev s e := nxt s e, e := e)"
  "prev (Unlink s e) = (prev s)(nxt s e := prev s e, e := e)"
  by (auto simp: Unlink_def Let_def)

lemma dlist_PushBack:
  assumes d: "dlist s h xs" and e: "e \<notin> set (h # xs)"
  shows "dlist (List_PushBack s h e) h (xs @ [e])"
proof -
  let ?l = "last (h # xs)" and ?s = "List_PushBack s h e"
  have ch: "chain s h xs h" and dist: "distinct (h # xs)" using d by (auto simp: dlist_def)
  have l: "prev s h = ?l" "nxt s ?l = h" using chain_last [OF ch] chain_nxt_last [OF ch] by auto
  have lin: "?l \<in> set (h # xs)" by (rule last_in_set) simp
  then have neq: "e \<noteq> ?l" "e \<noteq> h" using e by auto
  have f: "nxt ?s = (nxt s)(e := h, ?l := e)" "prev ?s = (prev s)(e := ?l, h := e)"
    unfolding List_PushBack_def l using Attach_fields [of e ?l s] neq l by auto
  have "chain ?s h xs e"
    by (rule chain_redirect [OF ch dist]) (use e f neq dist in auto)
  moreover have "chain ?s e [] h" using f neq by simp
  ultimately show ?thesis using dist e by (auto simp: dlist_def chain_append)
qed

lemma dlist_Erase:
  assumes d: "dlist s h xs" and e: "e \<in> set xs"
  shows "dlist (List_Erase s e) h (remove1 e xs)" "dlist (List_Erase s e) e []"
proof -
  let ?s = "List_Erase s e"
  obtain ys zs where xs: "xs = ys @ e # zs" and ys: "e \<notin> set ys"
    using split_list_first [OF e] by blast
  have dist: "distinct (h # ys @ e # zs)" and c1: "chain s h ys e" and c2: "chain s e zs h"
    using d xs by (auto simp: dlist_def chain_append)
  let ?p = "last (h # ys)" and ?n = "hd (zs @ [h])"
  have pn: "prev s e = ?p" "nxt s e = ?n" "nxt s ?p = e"
    using chain_last [OF c1] chain_first [OF c2] chain_nxt_last [OF c1] by auto
  have f: "nxt ?s = (nxt s)(?p := ?n, e := e)" "prev ?s = (prev s)(?n := ?p, e := e)"
    unfolding List_Erase_def by (auto simp: Unlink_fields pn)
  have pin: "?p \<in> set (h # ys)" by (rule last_in_set) simp
  then have pe: "?p \<noteq> e" using dist by auto
  have "chain ?s h (ys @ zs) h"
  proof (cases zs)
    case Nil
    have "chain ?s h ys h"
      by (rule chain_redirect [OF c1]) (use dist f pe Nil in auto)
    then show ?thesis using Nil by simp
  next
    case (Cons z zs')
    have "chain ?s h ys z"
      by (rule chain_redirect [OF c1]) (use dist f pe Cons in auto)
    moreover have "chain s z zs' h" using c2 Cons by simp
    then have "chain ?s z zs' h"
      by (subst chain_cong [where s = s]) (use dist f pin Cons in auto)
    ultimately show ?thesis using Cons by (simp add: chain_append)
  qed
  then show "dlist ?s h (remove1 e xs)"
    using dist ys xs by (auto simp: dlist_def remove1_append)
  show "dlist ?s e []" using f by (simp add: dlist_def)
qed

text \<open>Rings that share no element with the ones an operation touches are left alone.\<close>

lemma dlist_frame:
  assumes "dlist s k ys" "\<And>p. p \<in> set (k # ys) \<Longrightarrow> nxt s' p = nxt s p \<and> prev s' p = prev s p"
  shows "dlist s' k ys"
proof -
  have "chain s' k ys k = chain s k ys k" by (rule chain_cong) (use assms(2) in auto)
  then show ?thesis using assms(1) by (simp add: dlist_def)
qed

lemma dlist_PushBack_frame:
  assumes d: "dlist s h xs" and e: "e \<notin> set (h # xs)"
    and k: "dlist s k ys" "set (k # ys) \<inter> set (h # xs) = {}" "e \<notin> set (k # ys)"
  shows "dlist (List_PushBack s h e) k ys"
proof (rule dlist_frame [OF k(1)])
  fix p assume p: "p \<in> set (k # ys)"
  have ch: "chain s h xs h" using d by (auto simp: dlist_def)
  have l: "prev s h = last (h # xs)" "nxt s (last (h # xs)) = h" "last (h # xs) \<in> set (h # xs)"
    using chain_last [OF ch] chain_nxt_last [OF ch] last_in_set [of "h # xs"] by auto
  then have "p \<noteq> last (h # xs)" "p \<noteq> h" "p \<noteq> e" "e \<noteq> last (h # xs)" "e \<noteq> h"
    using p k e by (metis disjoint_iff list.set_intros(1))+
  then show "nxt (List_PushBack s h e) p = nxt s p \<and> prev (List_PushBack s h e) p = prev s p"
    using Attach_fields [of e "last (h # xs)" s] by (simp only: List_PushBack_def l fun_upd_apply) auto
qed

lemma dlist_Erase_frame:
  assumes d: "dlist s h xs" and e: "e \<in> set xs"
    and k: "dlist s k ys" "set (k # ys) \<inter> set (h # xs) = {}"
  shows "dlist (List_Erase s e) k ys"
proof (rule dlist_frame [OF k(1)])
  fix p assume p: "p \<in> set (k # ys)"
  obtain us vs where xs: "xs = us @ e # vs" using split_list [OF e] by blast
  have "chain s h us e" "chain s e vs h" using d xs by (auto simp: dlist_def chain_append)
  then have pn: "prev s e = last (h # us)" "nxt s e = hd (vs @ [h])"
    by (auto simp only: chain_last chain_first)
  have "last (h # us) \<in> set (h # xs)" "hd (vs @ [h]) \<in> set (h # xs)"
    using last_in_set [of "h # us"] hd_in_set [of "vs @ [h]"] xs by auto
  then have "p \<noteq> prev s e" "p \<noteq> nxt s e" "p \<noteq> e" using p k e pn by auto
  then show "nxt (List_Erase s e) p = nxt s p \<and> prev (List_Erase s e) p = prev s p"
    by (auto simp: List_Erase_def Unlink_fields)
qed

section \<open>The interface of the fiber queues\<close>

text \<open>
  The wait queues, the run queue and the fiber groups use the list through these operations: append
  at the back, look at the front, unlink a member, test for emptiness.
\<close>

locale intrusive_queue =
  fixes rep :: "'s \<Rightarrow> 'e list \<Rightarrow> bool"
    and push_back :: "'s \<Rightarrow> 'e \<Rightarrow> 's"
    and erase :: "'s \<Rightarrow> 'e \<Rightarrow> 's"
    and is_empty :: "'s \<Rightarrow> bool"
    and front :: "'s \<Rightarrow> 'e"
    and free :: "'e \<Rightarrow> 'e list \<Rightarrow> bool"
  assumes rep_distinct: "rep s xs \<Longrightarrow> distinct xs"
    and rep_push_back: "rep s xs \<Longrightarrow> free e xs \<Longrightarrow> rep (push_back s e) (xs @ [e])"
    and rep_erase: "rep s xs \<Longrightarrow> e \<in> set xs \<Longrightarrow> rep (erase s e) (remove1 e xs)"
    and rep_is_empty: "rep s xs \<Longrightarrow> is_empty s \<longleftrightarrow> xs = []"
    and rep_front: "rep s xs \<Longrightarrow> xs \<noteq> [] \<Longrightarrow> front s = hd xs"
begin

lemma rep_pop:
  assumes "rep s xs" "xs \<noteq> []"
  shows "rep (erase s (front s)) (tl xs)"
  using rep_erase [OF assms(1), of "front s"] rep_front [OF assms] assms(2)
  by (cases xs) auto

lemma fifo:
  assumes "rep s xs" "free e xs" "xs \<noteq> []"
  shows "front (push_back s e) = front s"
  using rep_front [OF rep_push_back [OF assms(1,2)]] rep_front [OF assms(1,3)] assms(3) by simp

lemma erase_last_added:
  assumes "rep s xs" "free e xs" "e \<notin> set xs"
  shows "rep (erase (push_back s e) e) xs"
  using rep_erase [OF rep_push_back [OF assms(1,2)], of e] assms(3) by (simp add: remove1_append)

end

interpretation il: intrusive_queue
  "\<lambda>s xs. dlist s h xs" "\<lambda>s e. List_PushBack s h e" List_Erase
  "\<lambda>s. List_IsEmpty s h" "\<lambda>s. List_Begin s h" "\<lambda>e xs. e \<notin> set (h # xs)" for h
  by unfold_locales
    (auto simp: dlist_def [THEN iffD1] dlist_PushBack dlist_Erase dlist_empty_iff dlist_Begin
      dest: dlist_def [THEN iffD1])

section \<open>Properties\<close>

text \<open>
  \<open>PushBack\<close> of an unlinked element appends it to the list and leaves every list that shares no
  element with it as it was.
\<close>

theorem List_PushBack_refines:
  assumes "dlist s h xs" "e \<notin> set (h # xs)"
    and "dlist s k ys" "set (k # ys) \<inter> set (h # xs) = {}" "e \<notin> set (k # ys)"
  shows "dlist (List_PushBack s h e) h (xs @ [e]) \<and> dlist (List_PushBack s h e) k ys"
  using dlist_PushBack [OF assms(1,2)] dlist_PushBack_frame [OF assms] by blast

definition two_lists :: links where
  "two_lists = \<lparr>prev = id, nxt = id\<rparr>"

theorem List_PushBack_refines_witness:
  "dlist (List_PushBack two_lists 0 2) 0 ([] @ [2]) \<and> dlist (List_PushBack two_lists 0 2) 1 []"
  by (rule List_PushBack_refines) (simp_all add: dlist_def two_lists_def)

text \<open>
  \<open>Erase\<close> of a member removes it from its list, leaves it unlinked, and leaves every list that
  shares no element as it was.
\<close>

theorem List_Erase_refines:
  assumes "dlist s h xs" "e \<in> set xs"
    and "dlist s k ys" "set (k # ys) \<inter> set (h # xs) = {}"
  shows "dlist (List_Erase s e) h (remove1 e xs) \<and> \<not> IsLinked (List_Erase s e) e \<and> dlist (List_Erase s e) k ys"
  using dlist_Erase [OF assms(1,2)] dlist_Erase_frame [OF assms]
  by (simp add: IsLinked_def dlist_def)

theorem List_Erase_refines_witness:
  "dlist (List_Erase (List_PushBack two_lists 0 2) 2) 0 (remove1 2 ([] @ [2])) \<and>
   \<not> IsLinked (List_Erase (List_PushBack two_lists 0 2) 2) 2 \<and>
   dlist (List_Erase (List_PushBack two_lists 0 2) 2) 1 []"
proof (rule List_Erase_refines)
  show "dlist (List_PushBack two_lists 0 2) 0 ([] @ [2])"
    by (rule dlist_PushBack) (simp_all add: dlist_def two_lists_def)
qed (simp_all add: dlist_def two_lists_def List_PushBack_def Attach_def Let_def)

end
