(* ===== verification/Regex_Match.thy ===== *)
theory Regex_Match
  imports Prelude
begin

text \<open>
  Regular expressions as \<open>std::regex_match\<close> uses them on the patterns of the repository: character
  ranges, sequence, alternative, repetition; the whole input has to match.  \<open>regex_match\<close> runs by
  taking derivatives; \<open>regex_match_lang\<close> relates it to the language of the expression.
\<close>

datatype regex =
    REmpty
  | REps
  | RRange char char
  | RSeq regex regex
  | RAlt regex regex
  | RStar regex

abbreviation RChar :: "char \<Rightarrow> regex" where "RChar c \<equiv> RRange c c"

definition RPlus :: "regex \<Rightarrow> regex" where "RPlus r = RSeq r (RStar r)"
definition ROpt :: "regex \<Rightarrow> regex" where "ROpt r = RAlt REps r"

fun RAtLeast :: "nat \<Rightarrow> regex \<Rightarrow> regex" where
  "RAtLeast 0 r = RStar r"
| "RAtLeast (Suc n) r = RSeq r (RAtLeast n r)"

fun in_range :: "char \<Rightarrow> char \<Rightarrow> char \<Rightarrow> bool" where
  "in_range lo hi c \<longleftrightarrow> (of_char lo :: nat) \<le> of_char c \<and> (of_char c :: nat) \<le> of_char hi"

fun mk_seq :: "regex \<Rightarrow> regex \<Rightarrow> regex" where
  "mk_seq REmpty _ = REmpty"
| "mk_seq REps s = s"
| "mk_seq r s = RSeq r s"

fun mk_alt :: "regex \<Rightarrow> regex \<Rightarrow> regex" where
  "mk_alt REmpty s = s"
| "mk_alt r REmpty = r"
| "mk_alt r s = (if r = s then r else RAlt r s)"

fun nullable :: "regex \<Rightarrow> bool" where
  "nullable REmpty = False"
| "nullable REps = True"
| "nullable (RRange _ _) = False"
| "nullable (RSeq r s) = (nullable r \<and> nullable s)"
| "nullable (RAlt r s) = (nullable r \<or> nullable s)"
| "nullable (RStar _) = True"

fun deriv :: "char \<Rightarrow> regex \<Rightarrow> regex" where
  "deriv c REmpty = REmpty"
| "deriv c REps = REmpty"
| "deriv c (RRange lo hi) = (if in_range lo hi c then REps else REmpty)"
| "deriv c (RSeq r s) =
    (if nullable r then mk_alt (mk_seq (deriv c r) s) (deriv c s) else mk_seq (deriv c r) s)"
| "deriv c (RAlt r s) = mk_alt (deriv c r) (deriv c s)"
| "deriv c (RStar r) = mk_seq (deriv c r) (RStar r)"

fun regex_match :: "string \<Rightarrow> regex \<Rightarrow> bool" where
  "regex_match [] r = nullable r"
| "regex_match (c # s) r = regex_match s (deriv c r)"

section \<open>Languages\<close>

definition conc :: "string set \<Rightarrow> string set \<Rightarrow> string set" where
  "conc A B = {xs @ ys | xs ys. xs \<in> A \<and> ys \<in> B}"

inductive_set star :: "string set \<Rightarrow> string set" for A where
  star_Nil: "[] \<in> star A"
| star_app: "xs \<in> A \<Longrightarrow> xs \<noteq> [] \<Longrightarrow> ys \<in> star A \<Longrightarrow> xs @ ys \<in> star A"

fun lang :: "regex \<Rightarrow> string set" where
  "lang REmpty = {}"
| "lang REps = {[]}"
| "lang (RRange lo hi) = {[c] | c. in_range lo hi c}"
| "lang (RSeq r s) = conc (lang r) (lang s)"
| "lang (RAlt r s) = lang r \<union> lang s"
| "lang (RStar r) = star (lang r)"

lemma conc_empty [simp]: "conc {} B = {}" "conc {[]} B = B"
  by (auto simp: conc_def)

lemma concI: "xs \<in> A \<Longrightarrow> ys \<in> B \<Longrightarrow> xs @ ys \<in> conc A B"
  by (auto simp: conc_def)

lemma conc_assoc: "conc (conc A B) C = conc A (conc B C)"
  unfolding conc_def by (auto, (metis append.assoc)+)

lemma lang_RChar: "lang (RChar c) = {[c]}"
proof -
  have "in_range c c x \<longleftrightarrow> x = c" for x using of_char_eq_iff by fastforce
  then show ?thesis by (simp del: in_range.simps)
qed

lemma lang_mk_seq [simp]: "lang (mk_seq r s) = conc (lang r) (lang s)"
  by (cases "(r, s)" rule: mk_seq.cases) auto

lemma lang_mk_alt [simp]: "lang (mk_alt r s) = lang r \<union> lang s"
  by (cases "(r, s)" rule: mk_alt.cases) auto

lemma nullable_lang: "nullable r \<longleftrightarrow> [] \<in> lang r"
  by (induction r) (auto simp: conc_def star_Nil)

lemma star_Cons: "c # w \<in> star A \<longleftrightarrow> (\<exists>u v. w = u @ v \<and> c # u \<in> A \<and> v \<in> star A)"
proof
  assume "c # w \<in> star A"
  then show "\<exists>u v. w = u @ v \<and> c # u \<in> A \<and> v \<in> star A"
    by (cases rule: star.cases) (auto simp: Cons_eq_append_conv)
next
  assume "\<exists>u v. w = u @ v \<and> c # u \<in> A \<and> v \<in> star A"
  then show "c # w \<in> star A" using star_app [of "c # _" A] by fastforce
qed

lemma conc_Cons:
  "c # w \<in> conc A B \<longleftrightarrow>
   (\<exists>u v. w = u @ v \<and> c # u \<in> A \<and> v \<in> B) \<or> [] \<in> A \<and> c # w \<in> B"
  by (auto simp: conc_def Cons_eq_append_conv)

lemma lang_deriv: "w \<in> lang (deriv c r) \<longleftrightarrow> c # w \<in> lang r"
proof (induction r arbitrary: w)
  case (RSeq r s)
  have "w \<in> conc (lang (deriv c r)) (lang s) \<longleftrightarrow> (\<exists>u v. w = u @ v \<and> c # u \<in> lang r \<and> v \<in> lang s)"
    using RSeq(1) by (auto simp: conc_def)
  then show ?case using RSeq(2) by (simp add: conc_Cons nullable_lang)
next
  case (RStar r)
  then show ?case by (auto simp: star_Cons conc_def)
qed auto

lemma regex_match_lang: "regex_match s r \<longleftrightarrow> s \<in> lang r"
  by (induction s arbitrary: r) (auto simp: nullable_lang lang_deriv)

end
