(* ===== verification/String_Utils.thy ===== *)
theory String_Utils
  imports Prelude
begin

text \<open>
  \<open>clang-fun/checker/string_utils.cpp\<close>: the edit distance of the spell checker and the splitting
  of an identifier into words.  The two rows of the distance table are lists updated by index the
  way the loops update the vectors; \<open>unsigned\<close> is \<^typ>\<open>nat\<close>, since no entry exceeds the length of
  the strings by more than one.  A \<open>std::string_view\<close> into the name is a pair of a start position
  and a size, and \<open>view_str\<close> reads the characters it covers.

  Lemmas: an entry of the table is the least number of single character edits between two prefixes
  (\<open>edits\<close> is the inductive notion of an edit script, compared without case); the views of a split
  tile the name.
\<close>

section \<open>Edit distance\<close>

definition is_upper :: "char \<Rightarrow> bool" where
  "is_upper c \<longleftrightarrow> of_char c \<ge> (65 :: nat) \<and> of_char c \<le> (90 :: nat)"

definition is_lower :: "char \<Rightarrow> bool" where
  "is_lower c \<longleftrightarrow> of_char c \<ge> (97 :: nat) \<and> of_char c \<le> (122 :: nat)"

definition tolower :: "char \<Rightarrow> char" where
  "tolower c = (if is_upper c then char_of (of_char c + (32 :: nat)) else c)"

function Levenshtein_row :: "string \<Rightarrow> char \<Rightarrow> nat list \<Rightarrow> nat list \<Rightarrow> nat \<Rightarrow> nat list" where
  "Levenshtein_row first_str second_j prew_row current_row i =
    (if i < length first_str + 1 then
       let substitution_cost =
             (if tolower second_j = tolower (first_str ! (i - 1)) then prew_row ! (i - 1)
              else prew_row ! (i - 1) + 1)
       in Levenshtein_row first_str second_j prew_row
            (current_row[i := min substitution_cost
                                (min (prew_row ! i + 1) (current_row ! (i - 1) + 1))])
            (i + 1)
     else current_row)"
  by pat_completeness auto
termination by (relation "measure (\<lambda>(f, _, _, _, i). length f + 1 - i)") auto

function Levenshtein_loop :: "string \<Rightarrow> string \<Rightarrow> nat \<Rightarrow> nat list \<Rightarrow> nat list \<Rightarrow> nat list" where
  "Levenshtein_loop first_str second_str j prew_row current_row =
    (if j < length second_str then
       let current_row = current_row[0 := j + 1];
           current_row = Levenshtein_row first_str (second_str ! j) prew_row current_row 1
       in Levenshtein_loop first_str second_str (j + 1) current_row prew_row
     else prew_row)"
  by pat_completeness auto
termination by (relation "measure (\<lambda>(_, s, j, _, _). length s - j)") auto

definition LevenshteinDistance :: "string \<Rightarrow> string \<Rightarrow> nat" where
  "LevenshteinDistance first_str second_str =
    last (Levenshtein_loop first_str second_str 0 [0..<length first_str + 1]
            (replicate (length first_str + 1) 0))"

section \<open>Splitting an identifier into words\<close>

type_synonym view = "nat \<times> nat"

definition view_str :: "string \<Rightarrow> view \<Rightarrow> string" where
  "view_str name v = take (snd v) (drop (fst v) name)"

function find_from :: "char \<Rightarrow> string \<Rightarrow> nat \<Rightarrow> nat option" where
  "find_from c s pos =
    (if pos < length s then if s ! pos = c then Some pos else find_from c s (pos + 1) else None)"
  by pat_completeness auto
termination by (relation "measure (\<lambda>(_, s, pos). length s - pos)") auto

declare find_from.simps [simp del] Levenshtein_row.simps [simp del] Levenshtein_loop.simps [simp del]

lemma find_from_Some:
  "find_from c s pos = Some f \<Longrightarrow>
   pos \<le> f \<and> f < length s \<and> s ! f = c \<and> (\<forall>i. pos \<le> i \<and> i < f \<longrightarrow> s ! i \<noteq> c)"
proof (induction c s pos rule: find_from.induct)
  case (1 c s pos)
  show ?case
  proof (cases "pos < length s \<and> s ! pos \<noteq> c")
    case True
    then have "find_from c s (pos + 1) = Some f"
      using 1(2) by (simp add: find_from.simps [of c s pos])
    then have "pos + 1 \<le> f \<and> f < length s \<and> s ! f = c \<and> (\<forall>i. pos + 1 \<le> i \<and> i < f \<longrightarrow> s ! i \<noteq> c)"
      using 1(1) True by blast
    then show ?thesis using True by (metis Suc_eq_plus1 Suc_leI le_neq_implies_less add_leD1)
  next
    case False
    then show ?thesis using 1(2) by (auto simp: find_from.simps [of c s pos] split: if_splits)
  qed
qed

lemma find_from_None:
  "find_from c s pos = None \<Longrightarrow> pos \<le> i \<Longrightarrow> i < length s \<Longrightarrow> s ! i \<noteq> c"
proof (induction c s pos rule: find_from.induct)
  case (1 c s pos)
  then show ?case
    by (cases "i = pos") (auto simp: find_from.simps [of c s pos] split: if_splits)
qed

function Split_underscores :: "string \<Rightarrow> nat \<Rightarrow> view list \<Rightarrow> view list" where
  "Split_underscores name cur_pos res =
    (case find_from (CHR ''_'') name cur_pos of
       Some found_pos \<Rightarrow>
         Split_underscores name (found_pos + 1) (res @ [(cur_pos, found_pos - cur_pos)])
     | None \<Rightarrow>
         if cur_pos < length name then res @ [(cur_pos, length name - cur_pos)] else res)"
  by pat_completeness auto
termination
  by (relation "measure (\<lambda>(name, pos, _). length name - pos)") (auto dest!: find_from_Some)

function Split_capitals :: "string \<Rightarrow> nat \<Rightarrow> nat \<Rightarrow> view list \<Rightarrow> view list" where
  "Split_capitals name start_pos cur_pos res =
    (if cur_pos < length name then
       if is_upper (name ! cur_pos) then
         Split_capitals name cur_pos (cur_pos + 1)
           (if start_pos < cur_pos then res @ [(start_pos, cur_pos - start_pos)] else res)
       else Split_capitals name start_pos (cur_pos + 1) res
     else res @ [(start_pos, cur_pos - start_pos)])"
  by pat_completeness auto
termination by (relation "measure (\<lambda>(name, _, pos, _). length name - pos)") auto

declare Split_underscores.simps [simp del] Split_capitals.simps [simp del]

fun Merge_capitals ::
  "string \<Rightarrow> view list \<Rightarrow> nat option \<Rightarrow> nat \<Rightarrow> view list \<Rightarrow> view list" where
  "Merge_capitals name [] word_start word_size res =
    (case word_start of Some p \<Rightarrow> res @ [(p, word_size)] | None \<Rightarrow> res)"
| "Merge_capitals name (word # tmp) word_start word_size res =
    (if snd word = 1 \<and> is_upper (name ! fst word) then
       Merge_capitals name tmp
         (case word_start of None \<Rightarrow> Some (fst word) | Some p \<Rightarrow> Some p) (word_size + 1) res
     else
       case word_start of
         Some p \<Rightarrow> Merge_capitals name tmp None 0 (res @ [(p, word_size)] @ [word])
       | None \<Rightarrow> Merge_capitals name tmp None word_size (res @ [word]))"

definition SplitIntoViews :: "string \<Rightarrow> view list" where
  "SplitIntoViews name =
    (if find_from (CHR ''_'') name 0 \<noteq> None then Split_underscores name 0 []
     else Merge_capitals name (Split_capitals name 0 0 []) None 0 [])"

definition SplitIntoWords :: "string \<Rightarrow> string list" where
  "SplitIntoWords name = map (view_str name) (SplitIntoViews name)"

section \<open>The distance table\<close>

fun edit :: "string \<Rightarrow> string \<Rightarrow> nat" where
  "edit [] ys = length ys"
| "edit (x # xs) [] = length (x # xs)"
| "edit (x # xs) (y # ys) =
    min (if tolower y = tolower x then edit xs ys else edit xs ys + 1)
      (min (edit (x # xs) ys + 1) (edit xs (y # ys) + 1))"

inductive edits :: "nat \<Rightarrow> string \<Rightarrow> string \<Rightarrow> bool" where
  edits_Nil: "edits 0 [] []"
| edits_keep: "edits n xs ys \<Longrightarrow> tolower x = tolower y \<Longrightarrow> edits n (x # xs) (y # ys)"
| edits_replace: "edits n xs ys \<Longrightarrow> edits (n + 1) (x # xs) (y # ys)"
| edits_insert: "edits n xs ys \<Longrightarrow> edits (n + 1) xs (y # ys)"
| edits_delete: "edits n xs ys \<Longrightarrow> edits (n + 1) (x # xs) ys"

lemma edit_Nil2 [simp]: "edit xs [] = length xs"
  by (cases xs) auto

lemma edits_insert_all: "edits (length ys) [] ys"
  by (induction ys) (auto intro: edits_Nil edits_insert [where n = "length _", simplified])

lemma edits_delete_all: "edits (length xs) xs []"
  by (induction xs) (auto intro: edits_Nil edits_delete [where n = "length _", simplified])

lemma edits_edit: "edits (edit xs ys) xs ys"
proof (induction xs ys rule: edit.induct)
  case (1 ys)
  show ?case by (simp add: edits_insert_all)
next
  case (2 x xs)
  show ?case using edits_delete_all [of "x # xs"] by simp
next
  case (3 x xs y ys)
  have "\<exists>n \<in> {if tolower y = tolower x then edit xs ys else edit xs ys + 1,
                edit (x # xs) ys + 1, edit xs (y # ys) + 1}. edit (x # xs) (y # ys) = n"
    by (auto simp: min_def)
  then show ?case
    using edits_keep [OF 3(1)] edits_keep [OF 3(2)] edits_replace [OF 3(1)] edits_replace [OF 3(2)]
      edits_insert [OF 3(3)] edits_delete [OF 3(4)] 3
    by (auto simp del: edit.simps split: if_splits intro: edits_replace edits_keep)
qed

lemma edit_insert_le: "edit xs (y # ys) \<le> edit xs ys + 1"
  by (cases xs) auto

lemma edit_delete_le: "edit (x # xs) ys \<le> edit xs ys + 1"
  by (cases ys) auto

lemma edit_least: "edits n xs ys \<Longrightarrow> edit xs ys \<le> n"
proof (induction rule: edits.induct)
  case (edits_insert n xs ys y)
  then show ?case using edit_insert_le [of xs y ys] by linarith
next
  case (edits_delete n xs ys x)
  then show ?case using edit_delete_le [of x xs ys] by linarith
qed auto

lemma edits_append: "edits m as bs \<Longrightarrow> edits n xs ys \<Longrightarrow> edits (m + n) (as @ xs) (bs @ ys)"
proof (induction rule: edits.induct)
  case (edits_replace m as bs x y)
  then show ?case using edits.edits_replace [of "m + n" "as @ xs" "bs @ ys" x y] by (simp add: ac_simps)
next
  case (edits_insert m as bs y)
  then show ?case using edits.edits_insert [of "m + n" "as @ xs" "bs @ ys" y] by (simp add: ac_simps)
next
  case (edits_delete m as bs x)
  then show ?case using edits.edits_delete [of "m + n" "as @ xs" "bs @ ys" x] by (simp add: ac_simps)
qed (auto intro: edits_keep)

lemma edits_rev: "edits n xs ys \<Longrightarrow> edits n (rev xs) (rev ys)"
proof (induction rule: edits.induct)
  case (edits_keep n xs ys x y)
  then show ?case
    using edits_append [OF edits_keep(3) edits.edits_keep [OF edits_Nil edits_keep(2)]] by simp
next
  case (edits_replace n xs ys x y)
  then show ?case
    using edits_append [OF edits_replace(2) edits.edits_replace [OF edits_Nil, of x y]] by simp
next
  case (edits_insert n xs ys y)
  then show ?case
    using edits_append [OF edits_insert(2) edits.edits_insert [OF edits_Nil, of y]] by simp
next
  case (edits_delete n xs ys x)
  then show ?case
    using edits_append [OF edits_delete(2) edits.edits_delete [OF edits_Nil, of x]] by simp
qed (simp add: edits_Nil)

lemma edit_rev: "edit (rev xs) (rev ys) = edit xs ys"
proof (rule antisym)
  show "edit (rev xs) (rev ys) \<le> edit xs ys"
    by (rule edit_least) (rule edits_rev [OF edits_edit])
  show "edit xs ys \<le> edit (rev xs) (rev ys)"
    using edits_rev [OF edits_edit [of "rev xs" "rev ys"]] by (auto intro: edit_least)
qed

abbreviation edit_prefix :: "string \<Rightarrow> string \<Rightarrow> nat \<Rightarrow> nat \<Rightarrow> nat" where
  "edit_prefix f s i j \<equiv> edit (rev (take i f)) (rev (take j s))"

lemma edit_prefix_step:
  "i < length f \<Longrightarrow> j < length s \<Longrightarrow>
   edit_prefix f s (Suc i) (Suc j) =
     min (if tolower (s ! j) = tolower (f ! i) then edit_prefix f s i j else edit_prefix f s i j + 1)
       (min (edit_prefix f s (Suc i) j + 1) (edit_prefix f s i (Suc j) + 1))"
  by (simp add: take_Suc_conv_app_nth)

lemma Levenshtein_row_correct:
  assumes "length cur = length f + 1" "length prew = length f + 1" "1 \<le> i" "i \<le> length f + 1" "j < length s"
    and "\<forall>k \<le> length f. prew ! k = edit_prefix f s k j"
    and "\<forall>k < i. cur ! k = edit_prefix f s k (Suc j)"
  shows "length (Levenshtein_row f (s ! j) prew cur i) = length f + 1 \<and>
    (\<forall>k \<le> length f. Levenshtein_row f (s ! j) prew cur i ! k = edit_prefix f s k (Suc j))"
  using assms
proof (induction f "s ! j" prew cur i rule: Levenshtein_row.induct)
  case (1 f prew cur i)
  show ?case
  proof (cases "i < length f + 1")
    case True
    then obtain i' where i: "i = Suc i'" "i' < length f" using 1(4) by (cases i) auto
    define v where "v = min (if tolower (s ! j) = tolower (f ! (i - 1)) then prew ! (i - 1)
              else prew ! (i - 1) + 1) (min (prew ! i + 1) (cur ! (i - 1) + 1))"
    have v: "v = edit_prefix f s i (Suc j)"
      using 1(5-8) i by (simp add: v_def edit_prefix_step [OF i(2) 1(6)] del: edit.simps)
    have row: "Levenshtein_row f (s ! j) prew cur i
             = Levenshtein_row f (s ! j) prew (cur[i := v]) (i + 1)"
      using True by (simp add: Levenshtein_row.simps [of f "s ! j" prew cur i] v_def Let_def)
    have "\<forall>k < i + 1. cur[i := v] ! k = edit_prefix f s k (Suc j)"
    proof (intro allI impI)
      fix k assume "k < i + 1"
      then show "cur[i := v] ! k = edit_prefix f s k (Suc j)"
        using 1(2,8) v True by (cases "k = i") (simp_all del: edit.simps)
    qed
    then show ?thesis
      unfolding row using 1(1) [OF True refl, folded v_def] 1(2-7) True by (simp add: v_def)
  next
    case False
    then have "Levenshtein_row f (s ! j) prew cur i = cur"
      by (simp add: Levenshtein_row.simps [of f "s ! j" prew cur i])
    then show ?thesis using False 1(2,5,8) by simp
  qed
qed

lemma Levenshtein_loop_correct:
  assumes "length cur = length f + 1" "length prew = length f + 1" "j \<le> length s"
    and "\<forall>k \<le> length f. prew ! k = edit_prefix f s k j"
  shows "length (Levenshtein_loop f s j prew cur) = length f + 1 \<and>
    Levenshtein_loop f s j prew cur ! length f = edit_prefix f s (length f) (length s)"
  using assms
proof (induction f s j prew cur rule: Levenshtein_loop.induct)
  case (1 f s j prew cur)
  show ?case
  proof (cases "j < length s")
    case True
    let ?row = "Levenshtein_row f (s ! j) prew (cur[0 := j + 1]) 1"
    have "cur[0 := j + 1] ! 0 = edit_prefix f s 0 (Suc j)" using 1(2) True by (cases cur) auto
    then have row: "length ?row = length f + 1 \<and> (\<forall>k \<le> length f. ?row ! k = edit_prefix f s k (Suc j))"
      using Levenshtein_row_correct [of "cur[0 := j + 1]" f prew 1 j s] 1(2,3,5) True by simp
    then show ?thesis
      using 1(1) [OF True refl refl] 1(3) True
      by (simp add: Levenshtein_loop.simps [of f s j prew cur] Let_def)
  next
    case False
    then have "Levenshtein_loop f s j prew cur = prew"
      by (simp add: Levenshtein_loop.simps [of f s j prew cur])
    moreover have "j = length s" using False 1(4) by simp
    ultimately show ?thesis using 1(3,5) by simp
  qed
qed

lemma LevenshteinDistance_edit: "LevenshteinDistance f s = edit f s"
proof -
  let ?r = "Levenshtein_loop f s 0 [0..<length f + 1] (replicate (length f + 1) 0)"
  have "length ?r = length f + 1 \<and> ?r ! length f = edit_prefix f s (length f) (length s)"
    by (rule Levenshtein_loop_correct) (auto simp del: upt_Suc simp: nth_upt)
  then have "last ?r = edit (rev f) (rev s)"
    by (simp add: last_conv_nth flip: length_greater_0_conv)
  then show ?thesis by (simp add: LevenshteinDistance_def edit_rev del: upt_Suc)
qed

lemma edit_le_max: "edit xs ys \<le> max (length xs) (length ys)"
  by (induction xs ys rule: edit.induct) (auto simp: min_def max_def split: if_splits)

section \<open>Views tile the name\<close>

fun tiles :: "nat \<Rightarrow> view list \<Rightarrow> nat \<Rightarrow> bool" where
  "tiles p [] q \<longleftrightarrow> p = q"
| "tiles p (v # vs) q \<longleftrightarrow> fst v = p \<and> tiles (p + snd v) vs q"

lemma tiles_append: "tiles p (us @ vs) q \<longleftrightarrow> (\<exists>m. tiles p us m \<and> tiles m vs q)"
  by (induction us arbitrary: p) auto

lemma tiles_le: "tiles p vs q \<Longrightarrow> p \<le> q"
  by (induction vs arbitrary: p) force+

lemma tiles_concat:
  "tiles p vs q \<Longrightarrow> q \<le> length s \<Longrightarrow> concat (map (view_str s) vs) = take (q - p) (drop p s)"
proof (induction vs arbitrary: p)
  case (Cons v vs)
  then have le: "p + snd v \<le> q" using tiles_le by fastforce
  have "take (q - p) (drop p s) = take (snd v + (q - (p + snd v))) (drop p s)" using le by simp
  also have "\<dots> = take (snd v) (drop p s) @ take (q - (p + snd v)) (drop (p + snd v) s)"
    by (simp add: take_add add.commute)
  finally show ?case using Cons by (simp add: view_str_def)
qed simp

lemma Split_capitals_tiles:
  "tiles 0 res start \<Longrightarrow> start \<le> cur \<Longrightarrow> cur \<le> length name \<Longrightarrow>
   tiles 0 (Split_capitals name start cur res) (length name)"
proof (induction name start cur res rule: Split_capitals.induct)
  case (1 name start cur res)
  have "tiles 0 (if start < cur then res @ [(start, cur - start)] else res) cur"
    using 1(3,4) by (auto simp: tiles_append)
  then show ?case
    using 1 by (auto simp: Split_capitals.simps [of name start cur res] tiles_append)
qed

lemma Merge_capitals_tiles:
  "tiles p vs q \<Longrightarrow> tiles 0 res (case ws of Some s \<Rightarrow> s | None \<Rightarrow> p) \<Longrightarrow>
   (case ws of Some s \<Rightarrow> s + n = p | None \<Rightarrow> n = 0) \<Longrightarrow>
   tiles 0 (Merge_capitals name vs ws n res) q"
proof (induction name vs ws n res arbitrary: p rule: Merge_capitals.induct)
  case (1 name ws n res)
  then show ?case by (auto simp: tiles_append split: option.splits)
next
  case (2 name word tmp ws n res)
  show ?case
  proof (cases "snd word = 1 \<and> is_upper (name ! fst word)")
    case True
    then show ?thesis
      using 2(1) [OF True, of "p + 1"] 2(4-6) by (auto split: option.splits)
  next
    case False
    show ?thesis
    proof (cases ws)
      case None
      then show ?thesis using 2(2) [OF False None, of "p + snd word"] 2(4-6) False
        by (auto simp: tiles_append)
    next
      case (Some s)
      then show ?thesis using 2(3) [OF False Some, of "p + snd word"] 2(4-6) False
        by (auto simp: tiles_append)
    qed
  qed
qed

lemma filter_split_at:
  "\<not> P x \<Longrightarrow> \<forall>y \<in> set us. P y \<Longrightarrow> filter P (us @ x # vs) = us @ filter P vs"
  by (simp add: filter_id_conv)

lemma Split_underscores_concat:
  "cur \<le> length name \<Longrightarrow>
   concat (map (view_str name) (Split_underscores name cur res)) =
   concat (map (view_str name) res) @ filter (\<lambda>c. c \<noteq> CHR ''_'') (drop cur name)"
proof (induction name cur res rule: Split_underscores.induct)
  case (1 name cur res)
  show ?case
  proof (cases "find_from (CHR ''_'') name cur")
    case None
    have "\<forall>c \<in> set (drop cur name). c \<noteq> CHR ''_''"
      using find_from_None [OF None] by (auto simp: in_set_conv_nth)
    then have "filter (\<lambda>c. c \<noteq> CHR ''_'') (drop cur name) = drop cur name" by (simp add: filter_id_conv)
    then show ?thesis using None
      by (simp add: Split_underscores.simps [of name cur res] view_str_def)
  next
    case (Some f)
    note f = find_from_Some [OF Some]
    have "drop cur name = take (f - cur) (drop cur name) @ name ! f # drop (f + 1) name"
      using f by (metis Cons_nth_drop_Suc Suc_eq_plus1 append_take_drop_id drop_drop le_add_diff_inverse2)
    moreover have "\<forall>c \<in> set (take (f - cur) (drop cur name)). c \<noteq> CHR ''_''"
      using f by (auto simp: in_set_conv_nth)
    ultimately have "filter (\<lambda>c. c \<noteq> CHR ''_'') (drop cur name)
        = take (f - cur) (drop cur name) @ filter (\<lambda>c. c \<noteq> CHR ''_'') (drop (f + 1) name)"
      using f filter_split_at [of "\<lambda>c. c \<noteq> CHR ''_''" "name ! f"] by metis
    then show ?thesis
      using 1(1) [OF Some] f Some by (simp add: Split_underscores.simps [of name cur res] view_str_def)
  qed
qed

section \<open>Properties\<close>



text \<open>
  Splitting an identifier loses and reorders nothing: the words of \<open>SplitIntoWords\<close>, put
  together, are the name without its underscores, whether it is split at underscores or at capital
  letters (with runs of single capitals merged again).
\<close>
theorem SplitIntoWords_concat:
  "concat (SplitIntoWords name) = filter (\<lambda>c. c \<noteq> CHR ''_'') name"
proof (cases "find_from (CHR ''_'') name 0")
  case None
  have "tiles 0 (SplitIntoViews name) (length name)"
    unfolding SplitIntoViews_def using None Split_capitals_tiles [of "[]" 0 0 name]
    by (auto intro: Merge_capitals_tiles [where p = 0])
  moreover have "\<forall>c \<in> set name. c \<noteq> CHR ''_''"
    using find_from_None [OF None] by (auto simp: in_set_conv_nth)
  ultimately show ?thesis
    using tiles_concat by (fastforce simp: SplitIntoWords_def filter_id_conv)
next
  case Some
  then show ?thesis
    using Split_underscores_concat [of 0 name "[]"] by (simp add: SplitIntoWords_def SplitIntoViews_def)
qed

end
