(* ===== verification/Naming_Rules.thy ===== *)
theory Naming_Rules
  imports Regex_Match String_Utils
begin

text \<open>
  \<open>clang-fun/checker/naming_rules_violation\<close>: the callback that checks the names of matched
  declarations.  The syntax tree comes from clang: a declaration is a record of what the callback
  asks of it (its locations, its identifier, whether its type is const, its access, its parameters),
  and the source manager is a record of the three queries the callback makes.  \<open>MatchResult\<close> holds
  the node bound to each of the ten names, or none; \<open>run\<close> handles them in the order of the source.

  Lemmas: the reported bad names are exactly those \<open>bad_decl\<close>, the naming rules read
  declaratively, relates to a matched node; a spelling mistake is logged with the first dictionary
  word of least distance.
\<close>

section \<open>Data (check\_names.h)\<close>

datatype Entity = kVariable | kField | kType | kConst | kFunction

record BadName =
  bn_file :: string
  bn_name :: string
  bn_entity :: Entity
  bn_line :: nat

record Mistake =
  mk_file :: string
  mk_name :: string
  wrong_word :: string
  ok_word :: string
  mk_line :: nat

record Statistics =
  bad_names :: "BadName list"
  mistakes :: "Mistake list"

section \<open>What the callback asks of clang\<close>

datatype AccessSpecifier = AS_public | AS_protected | AS_private | AS_none

record 'l NamedDecl =
  getLocation :: 'l
  getBeginLoc :: 'l
  getIdentifier :: "string option"

record 'l VarDecl = "'l NamedDecl" +
  isConstQualified :: bool
  isConstexpr :: bool
  getAccess :: AccessSpecifier
  isCanonicalDecl :: bool

record 'l FunctionDecl = "'l NamedDecl" +
  parameters :: "'l VarDecl list"
  isMain :: bool
  getParent :: "string option"

record 'l SourceManager =
  isInSystemHeader :: "'l \<Rightarrow> bool"
  getFilename :: "'l \<Rightarrow> string"
  getExpansionLineNumber :: "'l \<Rightarrow> nat"

record 'l MatchResult =
  type_decl :: "'l NamedDecl option"
  type_alias_decl :: "'l NamedDecl option"
  type_def_decl :: "'l NamedDecl option"
  method_decl :: "'l FunctionDecl option"
  construct_decl :: "'l FunctionDecl option"
  destruct_decl :: "'l FunctionDecl option"
  field_decl :: "'l VarDecl option"
  variable_decl :: "'l VarDecl option"
  func_decl :: "'l FunctionDecl option"
  enum_decl :: "'l NamedDecl option"

section \<open>Patterns (naming\_rules\_violation.h)\<close>

abbreviation RUpper :: regex where "RUpper \<equiv> RRange (CHR ''A'') (CHR ''Z'')"
abbreviation RLower :: regex where "RLower \<equiv> RRange (CHR ''a'') (CHR ''z'')"

definition kTypeNamePattern :: regex where
  "kTypeNamePattern =
    RSeq (RSeq RUpper (RSeq (ROpt (RAtLeast 3 RUpper)) (RPlus RLower)))
      (RSeq (RStar (RAlt (RSeq RUpper (RPlus RLower)) (RSeq (RAtLeast 4 RUpper) (RPlus RLower))))
        (ROpt (RAlt (RSeq RUpper (RPlus RLower)) (RAtLeast 3 RUpper))))"

definition kConstPattern :: regex where
  "kConstPattern =
    RSeq (RChar (CHR ''k''))
    (RSeq (RSeq RUpper (RSeq (ROpt (RAtLeast 3 RUpper)) (RPlus RLower)))
      (RSeq (RStar (RAlt (RSeq RUpper (RPlus RLower)) (RSeq (RAtLeast 4 RUpper) (RPlus RLower))))
        (ROpt (RAlt (RSeq RUpper (RPlus RLower)) (RAtLeast 3 RUpper)))))"

definition kPrivateFieldPattern :: regex where
  "kPrivateFieldPattern =
    RSeq (RPlus RLower)
      (RSeq (RStar (RSeq (RChar (CHR ''_'')) (RPlus RLower))) (RChar (CHR ''_'')))"

definition kPublicFieldPattern :: regex where
  "kPublicFieldPattern =
    RSeq (RPlus RLower) (RStar (RSeq (RChar (CHR ''_'')) (RPlus RLower)))"

section \<open>Logging\<close>

definition path_filename :: "string \<Rightarrow> string" where
  "path_filename p = rev (takeWhile (\<lambda>c. c \<noteq> CHR ''/'') (rev p))"

definition LogBadName :: "'l SourceManager \<Rightarrow> 'l \<Rightarrow> Entity \<Rightarrow> string \<Rightarrow> BadName" where
  "LogBadName source_manager loc entity_type name =
    \<lparr>bn_file = path_filename (getFilename source_manager loc), bn_name = name,
     bn_entity = entity_type, bn_line = getExpansionLineNumber source_manager loc\<rparr>"

definition LogMistake :: "'l SourceManager \<Rightarrow> 'l \<Rightarrow> string \<Rightarrow> string \<Rightarrow> string \<Rightarrow> Mistake" where
  "LogMistake source_manager loc name wrong_wrd ok_wrd =
    \<lparr>mk_file = path_filename (getFilename source_manager loc), mk_name = name,
     wrong_word = wrong_wrd, ok_word = ok_wrd,
     mk_line = getExpansionLineNumber source_manager loc\<rparr>"

section \<open>Spell checking\<close>

definition UINT_MAX :: nat where "UINT_MAX = 4294967295"

fun nearest_loop :: "string \<Rightarrow> string list \<Rightarrow> nat \<Rightarrow> string option \<Rightarrow> nat \<times> string option" where
  "nearest_loop word [] min_dist nearest_word = (min_dist, nearest_word)"
| "nearest_loop word (dict_word # dict) min_dist nearest_word =
    (let dist = LevenshteinDistance word dict_word
     in if dist < min_dist then nearest_loop word dict dist (Some dict_word)
        else nearest_loop word dict min_dist nearest_word)"

definition check_word ::
  "'l SourceManager \<Rightarrow> string list \<Rightarrow> string \<Rightarrow> 'l \<Rightarrow> string \<Rightarrow> Statistics \<Rightarrow> Statistics" where
  "check_word sm dict name loc word violations =
    (if 3 < length word then
       let (min_dist, nearest_word) = nearest_loop word dict UINT_MAX None
       in if 0 < min_dist \<and> min_dist < 4
          then violations\<lparr>mistakes :=
                 mistakes violations @ [LogMistake sm loc name word (the nearest_word)]\<rparr>
          else violations
     else violations)"

definition CheckMistakes ::
  "'l SourceManager \<Rightarrow> string list \<Rightarrow> string \<Rightarrow> 'l \<Rightarrow> Statistics \<Rightarrow> Statistics" where
  "CheckMistakes sm dict name loc violations =
    (if dict \<noteq> [] then fold (check_word sm dict name loc) (SplitIntoWords name) violations
     else violations)"

section \<open>The callback\<close>

text \<open>
  The block every rule ends with: a name that does not match the pattern is logged under
  \<open>entity\<close>, a name that matches is spell checked.  \<open>shown\<close> is the name that is logged or spell
  checked (the destructor's with its tilde).
\<close>

definition check_name ::
  "'l SourceManager \<Rightarrow> string list \<Rightarrow> regex \<Rightarrow> Entity \<Rightarrow> 'l \<Rightarrow> string \<Rightarrow> string \<Rightarrow>
   Statistics \<Rightarrow> Statistics" where
  "check_name sm dict pattern entity start_loc name shown violations =
    (if \<not> regex_match name pattern
     then violations\<lparr>bad_names := bad_names violations @ [LogBadName sm start_loc entity shown]\<rparr>
     else CheckMistakes sm dict shown start_loc violations)"

definition run_type ::
  "'l SourceManager \<Rightarrow> string list \<Rightarrow> 'l NamedDecl option \<Rightarrow> Statistics \<Rightarrow> Statistics" where
  "run_type sm dict node violations =
    (case node of
       None \<Rightarrow> violations
     | Some d \<Rightarrow>
         if \<not> isInSystemHeader sm (getLocation d) then
           case getIdentifier d of
             None \<Rightarrow> violations
           | Some name \<Rightarrow>
               check_name sm dict kTypeNamePattern kType (getBeginLoc d) name name violations
         else violations)"

definition run_param ::
  "'l SourceManager \<Rightarrow> string list \<Rightarrow> 'l VarDecl \<Rightarrow> Statistics \<Rightarrow> Statistics" where
  "run_param sm dict p violations =
    (case getIdentifier p of
       None \<Rightarrow> violations
     | Some name \<Rightarrow>
         if isConstQualified p \<or> isConstexpr p
         then check_name sm dict kConstPattern kConst (getBeginLoc p) name name violations
         else check_name sm dict kPublicFieldPattern kVariable (getBeginLoc p) name name violations)"

definition run_method ::
  "'l SourceManager \<Rightarrow> string list \<Rightarrow> 'l FunctionDecl option \<Rightarrow> Statistics \<Rightarrow> Statistics" where
  "run_method sm dict node violations =
    (case node of
       None \<Rightarrow> violations
     | Some d \<Rightarrow>
         if \<not> isInSystemHeader sm (getLocation d) then
           fold (run_param sm dict) (parameters d)
             (case getIdentifier d of
                None \<Rightarrow> violations
              | Some name \<Rightarrow>
                  if name \<noteq> ''run''
                  then check_name sm dict kTypeNamePattern kFunction (getBeginLoc d) name name violations
                  else violations)
         else violations)"

definition run_constructor ::
  "'l SourceManager \<Rightarrow> string list \<Rightarrow> 'l FunctionDecl option \<Rightarrow> Statistics \<Rightarrow> Statistics" where
  "run_constructor sm dict node violations =
    (case node of
       None \<Rightarrow> violations
     | Some d \<Rightarrow>
         if \<not> isInSystemHeader sm (getLocation d) then
           case getParent d of
             None \<Rightarrow> violations
           | Some name \<Rightarrow>
               fold (run_param sm dict) (parameters d)
                 (check_name sm dict kTypeNamePattern kFunction (getBeginLoc d) name name violations)
         else violations)"

definition run_destructor ::
  "'l SourceManager \<Rightarrow> string list \<Rightarrow> 'l FunctionDecl option \<Rightarrow> Statistics \<Rightarrow> Statistics" where
  "run_destructor sm dict node violations =
    (case node of
       None \<Rightarrow> violations
     | Some d \<Rightarrow>
         if \<not> isInSystemHeader sm (getLocation d) then
           case getParent d of
             None \<Rightarrow> violations
           | Some name \<Rightarrow>
               fold (run_param sm dict) (parameters d)
                 (check_name sm dict kTypeNamePattern kFunction (getBeginLoc d) name
                    (CHR ''~'' # name) violations)
         else violations)"

definition run_field ::
  "'l SourceManager \<Rightarrow> string list \<Rightarrow> 'l VarDecl option \<Rightarrow> Statistics \<Rightarrow> Statistics" where
  "run_field sm dict node violations =
    (case node of
       None \<Rightarrow> violations
     | Some d \<Rightarrow>
         if \<not> isInSystemHeader sm (getLocation d) then
           case getIdentifier d of
             None \<Rightarrow> violations
           | Some name \<Rightarrow>
               if \<not> isCanonicalDecl d then violations
               else if isConstQualified d
               then check_name sm dict kConstPattern kConst (getBeginLoc d) name name violations
               else if getAccess d = AS_private
               then check_name sm dict kPrivateFieldPattern kField (getBeginLoc d) name name violations
               else if getAccess d = AS_public
               then check_name sm dict kPublicFieldPattern kVariable (getBeginLoc d) name name violations
               else violations
         else violations)"

definition run_variable ::
  "'l SourceManager \<Rightarrow> string list \<Rightarrow> 'l VarDecl option \<Rightarrow> Statistics \<Rightarrow> Statistics" where
  "run_variable sm dict node violations =
    (case node of
       None \<Rightarrow> violations
     | Some d \<Rightarrow>
         if \<not> isInSystemHeader sm (getLocation d) then
           case getIdentifier d of
             None \<Rightarrow> violations
           | Some name \<Rightarrow>
               if isConstQualified d \<or> isConstexpr d
               then check_name sm dict kConstPattern kConst (getBeginLoc d) name name violations
               else if getAccess d = AS_private
               then check_name sm dict kPrivateFieldPattern kField (getBeginLoc d) name name violations
               else if getAccess d = AS_public \<or> getAccess d = AS_none
               then check_name sm dict kPublicFieldPattern kVariable (getBeginLoc d) name name violations
               else violations
         else violations)"

definition run_function ::
  "'l SourceManager \<Rightarrow> string list \<Rightarrow> 'l FunctionDecl option \<Rightarrow> Statistics \<Rightarrow> Statistics" where
  "run_function sm dict node violations =
    (case node of
       None \<Rightarrow> violations
     | Some d \<Rightarrow>
         if \<not> isInSystemHeader sm (getLocation d) then
           fold (run_param sm dict) (parameters d)
             (case getIdentifier d of
                None \<Rightarrow> violations
              | Some name \<Rightarrow>
                  if \<not> isMain d
                  then check_name sm dict kTypeNamePattern kFunction (getBeginLoc d) name name violations
                  else violations)
         else violations)"

definition run :: "'l SourceManager \<Rightarrow> string list \<Rightarrow> 'l MatchResult \<Rightarrow> Statistics \<Rightarrow> Statistics" where
  "run sm dict r violations =
    (let v = run_type sm dict (type_decl r) violations;
         v = run_type sm dict (type_alias_decl r) v;
         v = run_type sm dict (type_def_decl r) v;
         v = run_method sm dict (method_decl r) v;
         v = run_constructor sm dict (construct_decl r) v;
         v = run_destructor sm dict (destruct_decl r) v;
         v = run_field sm dict (field_decl r) v;
         v = run_variable sm dict (variable_decl r) v;
         v = run_function sm dict (func_decl r) v
     in run_type sm dict (enum_decl r) v)"

definition GetViolations ::
  "'l SourceManager \<Rightarrow> string list \<Rightarrow> 'l MatchResult list \<Rightarrow> Statistics" where
  "GetViolations sm dict results =
    fold (run sm dict) results \<lparr>bad_names = [], mistakes = []\<rparr>"

section \<open>The nearest dictionary word\<close>

definition nearest :: "string \<Rightarrow> string list \<Rightarrow> string \<Rightarrow> bool" where
  "nearest word dict d \<longleftrightarrow>
    (\<exists>us vs. dict = us @ d # vs \<and>
       (\<forall>u \<in> set us. LevenshteinDistance word d < LevenshteinDistance word u) \<and>
       (\<forall>v \<in> set vs. LevenshteinDistance word d \<le> LevenshteinDistance word v))"

lemma nearest_loop_cases:
  "(\<forall>d \<in> set dict. m \<le> LevenshteinDistance word d) \<and> nearest_loop word dict m w = (m, w) \<or>
   (\<exists>d. nearest word dict d \<and> LevenshteinDistance word d < m \<and>
        nearest_loop word dict m w = (LevenshteinDistance word d, Some d))"
proof (induction dict arbitrary: m w)
  case (Cons e dict)
  let ?l = "LevenshteinDistance word"
  show ?case
  proof (cases "?l e < m")
    case True
    then have eq: "nearest_loop word (e # dict) m w = nearest_loop word dict (?l e) (Some e)"
      by (simp add: Let_def)
    consider (here) "\<forall>d \<in> set dict. ?l e \<le> ?l d" "nearest_loop word dict (?l e) (Some e) = (?l e, Some e)"
      | (later) d where "nearest word dict d" "?l d < ?l e"
          "nearest_loop word dict (?l e) (Some e) = (?l d, Some d)"
      using Cons [of "?l e" "Some e"] by blast
    then show ?thesis
    proof cases
      case here
      then have "nearest word (e # dict) e"
        unfolding nearest_def by (intro exI [of _ "[]"] exI [of _ dict]) simp
      then show ?thesis using here eq True by auto
    next
      case later
      then obtain us vs where "dict = us @ d # vs" "\<forall>u \<in> set us. ?l d < ?l u" "\<forall>v \<in> set vs. ?l d \<le> ?l v"
        by (auto simp: nearest_def)
      then have "nearest word (e # dict) d"
        unfolding nearest_def using later by (intro exI [of _ "e # us"] exI [of _ vs]) simp
      moreover have "?l d < m" using later True by linarith
      ultimately show ?thesis using later eq by auto
    qed
  next
    case False
    then have eq: "nearest_loop word (e # dict) m w = nearest_loop word dict m w" by (simp add: Let_def)
    have "nearest word (e # dict) d" if n: "nearest word dict d" "?l d < m" for d
    proof -
      from n obtain us vs where "dict = us @ d # vs" "\<forall>u \<in> set us. ?l d < ?l u" "\<forall>v \<in> set vs. ?l d \<le> ?l v"
        by (auto simp: nearest_def)
      then show ?thesis
        unfolding nearest_def using n False by (intro exI [of _ "e # us"] exI [of _ vs]) simp
    qed
    then show ?thesis unfolding eq using Cons [of m w] False by auto
  qed
qed simp

lemma nearest_least: "nearest word dict d \<Longrightarrow> e \<in> set dict \<Longrightarrow> LevenshteinDistance word d \<le> LevenshteinDistance word e"
  by (fastforce simp: nearest_def)

lemma nearest_unique: "nearest word dict d \<Longrightarrow> nearest word dict e \<Longrightarrow> d = e"
proof -
  assume d: "nearest word dict d" and e: "nearest word dict e"
  let ?l = "LevenshteinDistance word"
  obtain us vs where u: "dict = us @ d # vs" "\<forall>u \<in> set us. ?l d < ?l u" using d by (auto simp: nearest_def)
  obtain xs ys where x: "dict = xs @ e # ys" "\<forall>u \<in> set xs. ?l e < ?l u" using e by (auto simp: nearest_def)
  have "?l d = ?l e"
    using nearest_least [OF d, of e] nearest_least [OF e, of d] u(1) x(1) by (metis antisym in_set_conv_decomp)
  then have "e \<notin> set us" "d \<notin> set xs" using u(2) x(2) by auto
  moreover have "us @ d # vs = xs @ e # ys" using u(1) x(1) by simp
  ultimately show ?thesis by (auto simp: append_eq_append_conv2 append_eq_Cons_conv Cons_eq_append_conv)
qed

definition misspelt :: "'l SourceManager \<Rightarrow> string list \<Rightarrow> string \<Rightarrow> 'l \<Rightarrow> string \<Rightarrow> Mistake set" where
  "misspelt sm dict name loc word =
    {LogMistake sm loc name word d | d.
       3 < length word \<and> nearest word dict d \<and>
       0 < LevenshteinDistance word d \<and> LevenshteinDistance word d < 4}"

lemma check_word_bad_names [frame_simps]: "bad_names (check_word sm dict name loc word v) = bad_names v"
  by (simp add: check_word_def split: prod.splits)

lemma check_word_mistakes:
  "set (mistakes (check_word sm dict name loc word v)) = set (mistakes v) \<union> misspelt sm dict name loc word"
proof -
  let ?l = "LevenshteinDistance word"
  consider (none) "\<forall>d \<in> set dict. UINT_MAX \<le> ?l d" "nearest_loop word dict UINT_MAX None = (UINT_MAX, None)"
    | (some) d where "nearest word dict d" "nearest_loop word dict UINT_MAX None = (?l d, Some d)"
    using nearest_loop_cases [of dict UINT_MAX word None] by blast
  then show ?thesis
  proof cases
    case none
    then have "misspelt sm dict name loc word = {}"
      by (fastforce simp: misspelt_def nearest_def UINT_MAX_def)
    then show ?thesis using none by (simp add: check_word_def UINT_MAX_def)
  next
    case some
    have "nearest word dict e \<longleftrightarrow> e = d" for e using nearest_unique [OF some(1)] some(1) by blast
    then have "misspelt sm dict name loc word =
        (if 3 < length word \<and> 0 < ?l d \<and> ?l d < 4 then {LogMistake sm loc name word d} else {})"
      by (simp add: misspelt_def)
    then show ?thesis using some by (simp add: check_word_def)
  qed
qed

lemma check_words_mistakes:
  "bad_names (fold (check_word sm dict name loc) words v) = bad_names v \<and>
   set (mistakes (fold (check_word sm dict name loc) words v)) =
     set (mistakes v) \<union> (\<Union>w \<in> set words. misspelt sm dict name loc w)"
  by (induction words arbitrary: v) (auto simp: check_word_mistakes frame_simps)

lemma misspelt_no_dict [simp]: "misspelt sm [] name loc word = {}"
  by (auto simp: misspelt_def nearest_def)

lemma CheckMistakes_sets:
  "bad_names (CheckMistakes sm dict name loc v) = bad_names v"
  "set (mistakes (CheckMistakes sm dict name loc v)) =
     set (mistakes v) \<union> (\<Union>w \<in> set (SplitIntoWords name). misspelt sm dict name loc w)"
  by (auto simp: CheckMistakes_def check_words_mistakes)

section \<open>Which rule governs which name\<close>

text \<open>
  The naming rules read declaratively: \<open>governed sm r loc pattern entity name shown\<close> holds when the
  match \<open>r\<close> binds a declaration outside the system headers whose \<open>name\<close> has to match \<open>pattern\<close>; a
  violation is reported for \<open>entity\<close> at \<open>loc\<close> as \<open>shown\<close>.
\<close>

inductive governed ::
  "'l SourceManager \<Rightarrow> 'l MatchResult \<Rightarrow> 'l \<Rightarrow> regex \<Rightarrow> Entity \<Rightarrow> string \<Rightarrow> string \<Rightarrow> bool"
  for sm r where
  governed_type:
    "Some d \<in> {type_decl r, type_alias_decl r, type_def_decl r, enum_decl r} \<Longrightarrow>
     \<not> isInSystemHeader sm (getLocation d) \<Longrightarrow> getIdentifier d = Some n \<Longrightarrow>
     governed sm r (getBeginLoc d) kTypeNamePattern kType n n"
| governed_method:
    "method_decl r = Some f \<Longrightarrow> \<not> isInSystemHeader sm (getLocation f) \<Longrightarrow>
     getIdentifier f = Some n \<Longrightarrow> n \<noteq> ''run'' \<Longrightarrow>
     governed sm r (getBeginLoc f) kTypeNamePattern kFunction n n"
| governed_function:
    "func_decl r = Some f \<Longrightarrow> \<not> isInSystemHeader sm (getLocation f) \<Longrightarrow>
     getIdentifier f = Some n \<Longrightarrow> \<not> isMain f \<Longrightarrow>
     governed sm r (getBeginLoc f) kTypeNamePattern kFunction n n"
| governed_constructor:
    "construct_decl r = Some f \<Longrightarrow> \<not> isInSystemHeader sm (getLocation f) \<Longrightarrow>
     getParent f = Some n \<Longrightarrow> governed sm r (getBeginLoc f) kTypeNamePattern kFunction n n"
| governed_destructor:
    "destruct_decl r = Some f \<Longrightarrow> \<not> isInSystemHeader sm (getLocation f) \<Longrightarrow>
     getParent f = Some n \<Longrightarrow>
     governed sm r (getBeginLoc f) kTypeNamePattern kFunction n (CHR ''~'' # n)"
| governed_parameter:
    "Some f \<in> {method_decl r, func_decl r} \<or>
     Some f \<in> {construct_decl r, destruct_decl r} \<and> getParent f \<noteq> None \<Longrightarrow>
     \<not> isInSystemHeader sm (getLocation f) \<Longrightarrow> p \<in> set (parameters f) \<Longrightarrow>
     getIdentifier p = Some n \<Longrightarrow> c = (isConstQualified p \<or> isConstexpr p) \<Longrightarrow>
     governed sm r (getBeginLoc p) (if c then kConstPattern else kPublicFieldPattern)
       (if c then kConst else kVariable) n n"
| governed_const:
    "field_decl r = Some d \<and> isCanonicalDecl d \<and> isConstQualified d \<or>
     variable_decl r = Some d \<and> (isConstQualified d \<or> isConstexpr d) \<Longrightarrow>
     \<not> isInSystemHeader sm (getLocation d) \<Longrightarrow> getIdentifier d = Some n \<Longrightarrow>
     governed sm r (getBeginLoc d) kConstPattern kConst n n"
| governed_private:
    "field_decl r = Some d \<and> isCanonicalDecl d \<and> \<not> isConstQualified d \<or>
     variable_decl r = Some d \<and> \<not> isConstQualified d \<and> \<not> isConstexpr d \<Longrightarrow>
     getAccess d = AS_private \<Longrightarrow>
     \<not> isInSystemHeader sm (getLocation d) \<Longrightarrow> getIdentifier d = Some n \<Longrightarrow>
     governed sm r (getBeginLoc d) kPrivateFieldPattern kField n n"
| governed_public:
    "field_decl r = Some d \<and> isCanonicalDecl d \<and> \<not> isConstQualified d \<and> getAccess d = AS_public \<or>
     variable_decl r = Some d \<and> \<not> isConstQualified d \<and> \<not> isConstexpr d \<and>
       getAccess d \<in> {AS_public, AS_none} \<Longrightarrow>
     \<not> isInSystemHeader sm (getLocation d) \<Longrightarrow> getIdentifier d = Some n \<Longrightarrow>
     governed sm r (getBeginLoc d) kPublicFieldPattern kVariable n n"

text \<open>
  A step of the callback contributes the names in \<open>C\<close>: it logs the bad ones among them, spell checks
  the good ones, and leaves what was logged before.
\<close>

type_synonym 'l governed_name = "'l \<times> regex \<times> Entity \<times> string \<times> string"

definition bad_of :: "'l SourceManager \<Rightarrow> 'l governed_name set \<Rightarrow> BadName \<Rightarrow> bool" where
  "bad_of sm C b \<longleftrightarrow>
    (\<exists>loc pat e n sh. (loc, pat, e, n, sh) \<in> C \<and> n \<notin> lang pat \<and> b = LogBadName sm loc e sh)"

definition mistake_of ::
  "'l SourceManager \<Rightarrow> string list \<Rightarrow> 'l governed_name set \<Rightarrow> Mistake \<Rightarrow> bool" where
  "mistake_of sm dict C m \<longleftrightarrow>
    (\<exists>loc pat e n sh w. (loc, pat, e, n, sh) \<in> C \<and> n \<in> lang pat \<and>
       w \<in> set (SplitIntoWords sh) \<and> m \<in> misspelt sm dict sh loc w)"

definition contributes ::
  "'l SourceManager \<Rightarrow> string list \<Rightarrow> (Statistics \<Rightarrow> Statistics) \<Rightarrow> 'l governed_name set \<Rightarrow> bool" where
  "contributes sm dict f C \<longleftrightarrow>
    (\<forall>v b. b \<in> set (bad_names (f v)) \<longleftrightarrow> b \<in> set (bad_names v) \<or> bad_of sm C b) \<and>
    (\<forall>v m. m \<in> set (mistakes (f v)) \<longleftrightarrow> m \<in> set (mistakes v) \<or> mistake_of sm dict C m)"

lemma contribution_Un:
  "bad_of sm (C \<union> D) b \<longleftrightarrow> bad_of sm C b \<or> bad_of sm D b"
  "mistake_of sm dict (C \<union> D) m \<longleftrightarrow> mistake_of sm dict C m \<or> mistake_of sm dict D m"
  unfolding bad_of_def mistake_of_def by blast+

lemma contributes_none: "contributes sm dict (\<lambda>v. v) {}"
  by (simp add: contributes_def bad_of_def mistake_of_def)

lemma contributes_check:
  "contributes sm dict (check_name sm dict pat e loc n sh) {(loc, pat, e, n, sh)}"
  by (auto simp: contributes_def bad_of_def mistake_of_def check_name_def CheckMistakes_sets
      regex_match_lang)

lemma contributes_comp:
  assumes "contributes sm dict f C" "contributes sm dict g D"
  shows "contributes sm dict (\<lambda>v. g (f v)) (C \<union> D)"
  using assms unfolding contributes_def contribution_Un by blast

lemma contributes_fold:
  "(\<And>x. x \<in> set xs \<Longrightarrow> contributes sm dict (f x) (C x)) \<Longrightarrow> contributes sm dict (fold f xs) (\<Union>x \<in> set xs. C x)"
proof (induction xs)
  case Nil
  then show ?case using contributes_none by (simp add: id_def)
next
  case (Cons x xs)
  then show ?case using contributes_comp [of sm dict "f x" "C x" "fold f xs"] by (simp add: comp_def)
qed

lemmas contributes_intros = contributes_none contributes_check contributes_comp contributes_fold

lemma contributes_cong: "contributes sm dict f C \<Longrightarrow> C = D \<Longrightarrow> contributes sm dict f D"
  by simp

definition type_names where
  "type_names sm node = {(getBeginLoc d, kTypeNamePattern, kType, n, n) | d n.
     node = Some d \<and> \<not> isInSystemHeader sm (getLocation d) \<and> getIdentifier d = Some n}"

definition param_names where
  "param_names p = {(getBeginLoc p,
      if isConstQualified p \<or> isConstexpr p then kConstPattern else kPublicFieldPattern,
      if isConstQualified p \<or> isConstexpr p then kConst else kVariable, n, n) | n.
     getIdentifier p = Some n}"

definition function_names where
  "function_names sm node ident shown params_of =
    {(getBeginLoc d, kTypeNamePattern, kFunction, n, shown n) | d n.
       node = Some d \<and> \<not> isInSystemHeader sm (getLocation d) \<and> ident d = Some n} \<union>
    (\<Union>d \<in> {d. node = Some d \<and> \<not> isInSystemHeader sm (getLocation d)}.
       \<Union>p \<in> set (params_of d). param_names p)"

lemma function_names_Some:
  "\<not> isInSystemHeader sm (getLocation d) \<Longrightarrow>
   function_names sm (Some d) ident shown params_of =
     {(getBeginLoc d, kTypeNamePattern, kFunction, n, shown n) | n. ident d = Some n} \<union>
     (\<Union>p \<in> set (params_of d). param_names p)"
  by (auto simp: function_names_def)

lemma function_names_empty:
  "function_names sm None ident shown params_of = {}"
  "isInSystemHeader sm (getLocation d) \<Longrightarrow> function_names sm (Some d) ident shown params_of = {}"
  "ident d = None \<Longrightarrow> params_of d = [] \<Longrightarrow> function_names sm (Some d) ident shown params_of = {}"
  by (auto simp: function_names_def)

lemma contributes_type: "contributes sm dict (run_type sm dict node) (type_names sm node)"
  unfolding run_type_def [abs_def] type_names_def
  by (cases node; cases "getIdentifier (the node)"; cases "isInSystemHeader sm (getLocation (the node))")
    (auto intro!: contributes_none contributes_cong [OF contributes_check])

lemma contributes_param: "contributes sm dict (run_param sm dict p) (param_names p)"
  unfolding run_param_def [abs_def] param_names_def
  by (cases "getIdentifier p"; cases "isConstQualified p \<or> isConstexpr p")
    (auto intro!: contributes_none contributes_cong [OF contributes_check])

lemma contributes_params:
  "contributes sm dict (fold (run_param sm dict) ps) (\<Union>p \<in> set ps. param_names p)"
  by (rule contributes_fold) (rule contributes_param)

lemma contributes_method:
  "contributes sm dict (run_method sm dict node)
     (function_names sm node (\<lambda>d. if getIdentifier d = Some ''run'' then None else getIdentifier d)
        (\<lambda>n. n) parameters)"
proof (cases "\<exists>d. node = Some d \<and> \<not> isInSystemHeader sm (getLocation d)")
  case True
  then obtain d where d: "node = Some d" "\<not> isInSystemHeader sm (getLocation d)" by blast
  let ?head = "\<lambda>v. case getIdentifier d of None \<Rightarrow> v | Some name \<Rightarrow>
     if name \<noteq> ''run'' then check_name sm dict kTypeNamePattern kFunction (getBeginLoc d) name name v else v"
  have "contributes sm dict ?head {(getBeginLoc d, kTypeNamePattern, kFunction, n, n) | n.
          getIdentifier d = Some n \<and> n \<noteq> ''run''}"
    by (cases "getIdentifier d"; cases "getIdentifier d = Some ''run''")
      (auto intro!: contributes_none contributes_cong [OF contributes_check])
  from contributes_comp [OF this contributes_params [of sm dict "parameters d"]] show ?thesis
    unfolding run_method_def [abs_def] using d
    by (auto simp: function_names_Some elim!: contributes_cong split: if_splits)
next
  case False
  then show ?thesis unfolding run_method_def [abs_def]
    by (cases node) (auto simp: function_names_empty contributes_none)
qed

lemma contributes_function:
  "contributes sm dict (run_function sm dict node)
     (function_names sm node (\<lambda>d. if isMain d then None else getIdentifier d) (\<lambda>n. n) parameters)"
proof (cases "\<exists>d. node = Some d \<and> \<not> isInSystemHeader sm (getLocation d)")
  case True
  then obtain d where d: "node = Some d" "\<not> isInSystemHeader sm (getLocation d)" by blast
  let ?head = "\<lambda>v. case getIdentifier d of None \<Rightarrow> v | Some name \<Rightarrow>
     if \<not> isMain d then check_name sm dict kTypeNamePattern kFunction (getBeginLoc d) name name v else v"
  have "contributes sm dict ?head {(getBeginLoc d, kTypeNamePattern, kFunction, n, n) | n.
          getIdentifier d = Some n \<and> \<not> isMain d}"
    by (cases "getIdentifier d"; cases "isMain d")
      (auto intro!: contributes_none contributes_cong [OF contributes_check])
  from contributes_comp [OF this contributes_params [of sm dict "parameters d"]] show ?thesis
    unfolding run_function_def [abs_def] using d
    by (auto simp: function_names_Some elim!: contributes_cong split: if_splits)
next
  case False
  then show ?thesis unfolding run_function_def [abs_def]
    by (cases node) (auto simp: function_names_empty contributes_none)
qed

abbreviation parent_parameters :: "'l FunctionDecl \<Rightarrow> 'l VarDecl list" where
  "parent_parameters d \<equiv> if getParent d = None then [] else parameters d"

lemma contributes_constructor:
  "contributes sm dict (run_constructor sm dict node)
     (function_names sm node getParent (\<lambda>n. n) parent_parameters)"
proof (cases "\<exists>d n. node = Some d \<and> \<not> isInSystemHeader sm (getLocation d) \<and> getParent d = Some n")
  case True
  then obtain d n where "node = Some d" "\<not> isInSystemHeader sm (getLocation d)" "getParent d = Some n"
    by blast
  then show ?thesis
    unfolding run_constructor_def [abs_def]
    using contributes_comp [OF contributes_check [of sm dict kTypeNamePattern kFunction "getBeginLoc d" n "n"]
        contributes_params [of sm dict "parameters d"]]
    by (simp add: function_names_Some)
next
  case False
  then show ?thesis unfolding run_constructor_def [abs_def]
    by (cases node; cases "getParent (the node)"; cases "isInSystemHeader sm (getLocation (the node))")
      (auto simp: function_names_empty contributes_none)
qed

lemma contributes_destructor:
  "contributes sm dict (run_destructor sm dict node)
     (function_names sm node getParent (\<lambda>n. CHR ''~'' # n) parent_parameters)"
proof (cases "\<exists>d n. node = Some d \<and> \<not> isInSystemHeader sm (getLocation d) \<and> getParent d = Some n")
  case True
  then obtain d n where "node = Some d" "\<not> isInSystemHeader sm (getLocation d)" "getParent d = Some n"
    by blast
  then show ?thesis
    unfolding run_destructor_def [abs_def]
    using contributes_comp [OF contributes_check [of sm dict kTypeNamePattern kFunction "getBeginLoc d" n "CHR ''~'' # n"]
        contributes_params [of sm dict "parameters d"]]
    by (simp add: function_names_Some)
next
  case False
  then show ?thesis unfolding run_destructor_def [abs_def]
    by (cases node; cases "getParent (the node)"; cases "isInSystemHeader sm (getLocation (the node))")
      (auto simp: function_names_empty contributes_none)
qed

text \<open>Fields and variables: which of the three rules applies is a function of the declaration.\<close>

definition data_names where
  "data_names sm node rule =
    {(getBeginLoc d, pat, e, n, n) | d pat e n.
       node = Some d \<and> \<not> isInSystemHeader sm (getLocation d) \<and> getIdentifier d = Some n \<and>
       rule d = Some (pat, e)}"

definition access_rule where
  "access_rule d c publics =
    (if c then Some (kConstPattern, kConst)
     else if getAccess d = AS_private then Some (kPrivateFieldPattern, kField)
     else if getAccess d \<in> publics then Some (kPublicFieldPattern, kVariable) else None)"

definition field_rule where
  "field_rule d = (if isCanonicalDecl d then access_rule d (isConstQualified d) {AS_public} else None)"

definition variable_rule where
  "variable_rule d = access_rule d (isConstQualified d \<or> isConstexpr d) {AS_public, AS_none}"

lemma contributes_data:
  assumes "\<And>d n v. node = Some d \<Longrightarrow> \<not> isInSystemHeader sm (getLocation d) \<Longrightarrow> getIdentifier d = Some n \<Longrightarrow>
      f v = (case rule d of None \<Rightarrow> v | Some (pat, e) \<Rightarrow> check_name sm dict pat e (getBeginLoc d) n n v)"
    and "\<And>v. node = None \<Longrightarrow> f v = v"
    and "\<And>d v. node = Some d \<Longrightarrow> isInSystemHeader sm (getLocation d) \<or> getIdentifier d = None \<Longrightarrow> f v = v"
  shows "contributes sm dict f (data_names sm node rule)"
proof (cases "\<exists>d n pat e. node = Some d \<and> \<not> isInSystemHeader sm (getLocation d) \<and>
    getIdentifier d = Some n \<and> rule d = Some (pat, e)")
  case True
  then obtain d n pat e where d: "node = Some d" "\<not> isInSystemHeader sm (getLocation d)"
    "getIdentifier d = Some n" "rule d = Some (pat, e)" by blast
  then have "f = check_name sm dict pat e (getBeginLoc d) n n" using assms(1) by (simp add: fun_eq_iff)
  moreover have "data_names sm node rule = {(getBeginLoc d, pat, e, n, n)}"
    using d by (auto simp: data_names_def)
  ultimately show ?thesis by (simp add: contributes_check)
next
  case False
  have "f v = v" for v
  proof (cases node)
    case (Some d)
    then show ?thesis
      using assms(1,3) False by (cases "rule d"; cases "getIdentifier d"; cases "isInSystemHeader sm (getLocation d)") auto
  qed (use assms(2) in simp)
  moreover have "data_names sm node rule = {}" using False by (auto simp: data_names_def)
  ultimately show ?thesis using contributes_none by (metis (no_types, lifting) ext)
qed

lemma contributes_field: "contributes sm dict (run_field sm dict node) (data_names sm node field_rule)"
  by (rule contributes_data) (auto simp: run_field_def field_rule_def access_rule_def)

lemma contributes_variable:
  "contributes sm dict (run_variable sm dict node) (data_names sm node variable_rule)"
  by (rule contributes_data) (auto simp: run_variable_def variable_rule_def access_rule_def)

lemma access_rule_Some:
  "access_rule d c A = Some (pat, e) \<longleftrightarrow>
     c \<and> pat = kConstPattern \<and> e = kConst \<or>
     \<not> c \<and> getAccess d = AS_private \<and> pat = kPrivateFieldPattern \<and> e = kField \<or>
     \<not> c \<and> getAccess d \<noteq> AS_private \<and> getAccess d \<in> A \<and> pat = kPublicFieldPattern \<and> e = kVariable"
  by (auto simp: access_rule_def)

definition run_names where
  "run_names sm r =
    type_names sm (type_decl r) \<union> type_names sm (type_alias_decl r) \<union> type_names sm (type_def_decl r) \<union>
    function_names sm (method_decl r)
      (\<lambda>d. if getIdentifier d = Some ''run'' then None else getIdentifier d) (\<lambda>n. n) parameters \<union>
    function_names sm (construct_decl r) getParent (\<lambda>n. n) parent_parameters \<union>
    function_names sm (destruct_decl r) getParent (\<lambda>n. CHR ''~'' # n) parent_parameters \<union>
    data_names sm (field_decl r) field_rule \<union> data_names sm (variable_decl r) variable_rule \<union>
    function_names sm (func_decl r) (\<lambda>d. if isMain d then None else getIdentifier d) (\<lambda>n. n) parameters \<union>
    type_names sm (enum_decl r)"

lemma contributes_run: "contributes sm dict (run sm dict r) (run_names sm r)"
  unfolding run_def [abs_def] run_names_def Let_def
  by (intro contributes_comp contributes_type contributes_method contributes_constructor
    contributes_destructor contributes_field contributes_variable contributes_function)

lemma type_names_iff:
  "(loc, pat, e, n, sh) \<in> type_names sm node \<longleftrightarrow>
   (\<exists>d. node = Some d \<and> \<not> isInSystemHeader sm (getLocation d) \<and> getIdentifier d = Some n \<and>
        loc = getBeginLoc d \<and> pat = kTypeNamePattern \<and> e = kType \<and> sh = n)"
  by (auto simp: type_names_def)

lemma data_names_iff:
  "(loc, pat, e, n, sh) \<in> data_names sm node rule \<longleftrightarrow>
   (\<exists>d. node = Some d \<and> \<not> isInSystemHeader sm (getLocation d) \<and> getIdentifier d = Some n \<and>
        loc = getBeginLoc d \<and> rule d = Some (pat, e) \<and> sh = n)"
  by (auto simp: data_names_def)

lemma function_names_iff:
  "(loc, pat, e, n, sh) \<in> function_names sm node ident shown params_of \<longleftrightarrow>
   (\<exists>d. node = Some d \<and> \<not> isInSystemHeader sm (getLocation d) \<and>
        (ident d = Some n \<and> loc = getBeginLoc d \<and> pat = kTypeNamePattern \<and> e = kFunction \<and> sh = shown n \<or>
         (\<exists>p \<in> set (params_of d). (loc, pat, e, n, sh) \<in> param_names p)))"
  by (auto simp: function_names_def)

lemma param_names_iff:
  "(loc, pat, e, n, sh) \<in> param_names p \<longleftrightarrow>
   getIdentifier p = Some n \<and> loc = getBeginLoc p \<and> sh = n \<and>
   pat = (if isConstQualified p \<or> isConstexpr p then kConstPattern else kPublicFieldPattern) \<and>
   e = (if isConstQualified p \<or> isConstexpr p then kConst else kVariable)"
  by (auto simp: param_names_def)

lemmas names_iffs = type_names_iff data_names_iff function_names_iff

lemma governed_param_names:
  assumes "Some f \<in> {method_decl r, func_decl r} \<or>
      Some f \<in> {construct_decl r, destruct_decl r} \<and> getParent f \<noteq> None"
    and "\<not> isInSystemHeader sm (getLocation f)" "p \<in> set (parameters f)"
    and "(loc, pat, e, n, sh) \<in> param_names p"
  shows "governed sm r loc pat e n sh"
  using governed_parameter [OF assms(1-3) _ refl] assms(4) by (simp add: param_names_iff)

lemma run_names_governed:
  "(loc, pat, e, n, sh) \<in> run_names sm r \<Longrightarrow> governed sm r loc pat e n sh"
  unfolding run_names_def
  by (auto simp: names_iffs field_rule_def variable_rule_def access_rule_Some
      intro: governed.intros governed_param_names split: if_splits)

lemma param_names_run_names:
  assumes "Some f \<in> {method_decl r, func_decl r} \<or>
      Some f \<in> {construct_decl r, destruct_decl r} \<and> getParent f \<noteq> None"
    and "\<not> isInSystemHeader sm (getLocation f)" "p \<in> set (parameters f)" "x \<in> param_names p"
  shows "x \<in> run_names sm r"
proof -
  have x: "x \<in> function_names sm (Some f) ident shown params_of"
    if "params_of f = parameters f" for ident shown params_of
    using that assms(2-4) by (auto simp: function_names_Some)
  consider "method_decl r = Some f" | "func_decl r = Some f"
    | n where "construct_decl r = Some f" "getParent f = Some n"
    | n where "destruct_decl r = Some f" "getParent f = Some n" using assms(1) by auto
  then show ?thesis by cases (simp_all add: run_names_def x)
qed

lemma type_names_run_names:
  assumes "Some d \<in> {type_decl r, type_alias_decl r, type_def_decl r, enum_decl r}"
    and "x \<in> type_names sm (Some d)"
  shows "x \<in> run_names sm r"
proof -
  consider "type_decl r = Some d" | "type_alias_decl r = Some d" | "type_def_decl r = Some d"
    | "enum_decl r = Some d" using assms(1) by auto
  then show ?thesis using assms(2) by cases (simp_all add: run_names_def)
qed

lemma function_names_run_names:
  "method_decl r = Some f \<Longrightarrow> x \<in> function_names sm (Some f)
     (\<lambda>d. if getIdentifier d = Some ''run'' then None else getIdentifier d) (\<lambda>n. n) parameters \<Longrightarrow>
   x \<in> run_names sm r"
  "construct_decl r = Some f \<Longrightarrow>
   x \<in> function_names sm (Some f) getParent (\<lambda>n. n) parent_parameters \<Longrightarrow> x \<in> run_names sm r"
  "destruct_decl r = Some f \<Longrightarrow>
   x \<in> function_names sm (Some f) getParent (\<lambda>n. CHR ''~'' # n) parent_parameters \<Longrightarrow> x \<in> run_names sm r"
  "func_decl r = Some f \<Longrightarrow> x \<in> function_names sm (Some f)
     (\<lambda>d. if isMain d then None else getIdentifier d) (\<lambda>n. n) parameters \<Longrightarrow> x \<in> run_names sm r"
  by (simp_all add: run_names_def)

lemma data_names_run_names:
  "field_decl r = Some d \<and> x \<in> data_names sm (Some d) field_rule \<or>
   variable_decl r = Some d \<and> x \<in> data_names sm (Some d) variable_rule \<Longrightarrow> x \<in> run_names sm r"
  by (auto simp: run_names_def)

lemma governed_run_names:
  "governed sm r loc pat e n sh \<Longrightarrow> (loc, pat, e, n, sh) \<in> run_names sm r"
proof (induction rule: governed.induct)
  case (governed_type d n)
  then show ?case by (intro type_names_run_names [OF governed_type(1)]) (simp add: type_names_iff)
next
  case (governed_parameter f p n c)
  then have "(getBeginLoc p, if c then kConstPattern else kPublicFieldPattern,
       if c then kConst else kVariable, n, n) \<in> param_names p"
    by (simp add: param_names_iff)
  then show ?case using param_names_run_names [OF governed_parameter(1-3)] by blast
next
  case (governed_const d n)
  then show ?case
    by (intro data_names_run_names [of _ d]) (auto simp: data_names_iff field_rule_def variable_rule_def access_rule_Some)
next
  case (governed_private d n)
  then show ?case
    by (intro data_names_run_names [of _ d]) (auto simp: data_names_iff field_rule_def variable_rule_def access_rule_Some)
next
  case (governed_public d n)
  then show ?case
    by (intro data_names_run_names [of _ d]) (auto simp: data_names_iff field_rule_def variable_rule_def access_rule_Some)
qed (erule function_names_run_names, simp add: function_names_Some)+

lemma GetViolations_contributes:
  "contributes sm dict (fold (run sm dict) results)
     {(loc, pat, e, n, sh). \<exists>r \<in> set results. governed sm r loc pat e n sh}"
  by (rule contributes_cong [OF contributes_fold])
    (auto intro: contributes_run dest: run_names_governed governed_run_names)

lemma lang_private: "lang kPrivateFieldPattern = conc (lang kPublicFieldPattern) {''_''}"
  by (simp add: kPrivateFieldPattern_def kPublicFieldPattern_def conc_assoc lang_RChar
      del: lang.simps(3))

lemma lang_const: "lang kConstPattern = conc {''k''} (lang kTypeNamePattern)"
  by (simp add: kConstPattern_def kTypeNamePattern_def lang_RChar del: lang.simps(3))

section \<open>Properties\<close>

text \<open>
  After any sequence of matches the reported bad names are exactly the names that break the rule
  that governs them: types, functions, methods and constructors are camel case, constants and
  constexprs camel case after a \<open>k\<close>, private data snake case with a trailing underscore, other
  data and parameters snake case; nothing from a system header, no anonymous declaration, not
  \<open>main\<close> and no method named \<open>run\<close>.
\<close>
theorem run_reports_bad_names:
  "b \<in> set (bad_names (GetViolations sm dict results)) \<longleftrightarrow>
   (\<exists>r \<in> set results. \<exists>loc pattern entity name shown.
      governed sm r loc pattern entity name shown \<and> name \<notin> lang pattern \<and>
      b = LogBadName sm loc entity shown)"
  using GetViolations_contributes [of sm dict results]
  by (simp add: GetViolations_def contributes_def bad_of_def) blast

text \<open>
  The spelling mistakes after any sequence of matches are exactly these: a word of more than
  three letters of a name that keeps its rule, reported with the first dictionary word among those
  of least edit distance, when that distance is one, two or three.
\<close>
theorem run_reports_mistakes:
  "m \<in> set (mistakes (GetViolations sm dict results)) \<longleftrightarrow>
   (\<exists>r \<in> set results. \<exists>loc pattern entity name shown word d.
      governed sm r loc pattern entity name shown \<and> name \<in> lang pattern \<and>
      word \<in> set (SplitIntoWords shown) \<and> 3 < length word \<and> nearest word dict d \<and>
      LevenshteinDistance word d \<in> {1, 2, 3} \<and> m = LogMistake sm loc shown word d)"
proof -
  have dist: "0 < k \<and> k < 4 \<longleftrightarrow> k \<in> {1, 2, 3}" for k :: nat by auto
  show ?thesis
    using GetViolations_contributes [of sm dict results]
    unfolding GetViolations_def contributes_def mistake_of_def misspelt_def dist by simp blast
qed

lemma field_patterns:
  "(regex_match s kPrivateFieldPattern \<longleftrightarrow> (\<exists>t. s = t @ ''_'' \<and> regex_match t kPublicFieldPattern)) \<and>
   (regex_match s kConstPattern \<longleftrightarrow> (\<exists>t. s = CHR ''k'' # t \<and> regex_match t kTypeNamePattern))"
  unfolding regex_match_lang lang_private lang_const by (auto simp: conc_def)

end
