(* ===== verification/Subset_Sum.thy ===== *)
theory Subset_Sum
  imports Prelude
begin

unbundle bit_operations_syntax

text \<open>
  \<open>subset-sum/find_subsets.cpp\<close>: two disjoint non-empty sets of positions with equal sums, by meeting
  in the middle.  A choice is a set of positions of one half as a bit mask, a variant the side each
  chosen position is on, both 64-bit words (the code complements variants); sums are \<^typ>\<open>int\<close>, which is
  \<open>int64_t\<close> as long as no sum of absolute values reaches \<open>2 ^ 63\<close>.  Loop counters are \<^typ>\<open>nat\<close>.

  The threads of \<open>FindSuitableCombination\<close> share the flag and the result.  A thread's iteration is
  two steps, the test of the flag and the check of one choice with the \<open>test_and_set\<close>; a schedule is
  the list of the threads that make a step, and the join waits until every thread is done.

  Lemmas: the table of sums holds an entry for every sum of the first half, with two groups whenever
  one such combination exists; a combination the search finds is a solution, and the search of every
  choice fails only if there is none, whatever the schedule.
\<close>

section \<open>Combinations\<close>

definition kThreadCnt :: nat where "kThreadCnt = 8"

record Combination =
  choice :: uint64
  variant :: uint64
  hasTwoGroups :: bool

record Subsets =
  first_indices :: "nat list"
  second_indices :: "nat list"
  subsets_exist :: bool

fun ComputeSum_loop ::
  "int list \<Rightarrow> nat list \<Rightarrow> uint64 \<Rightarrow> uint64 \<Rightarrow> int \<Rightarrow> bool \<Rightarrow> int \<times> bool" where
  "ComputeSum_loop data [] comb prev_bit res has_two_groups = (res, has_two_groups)"
| "ComputeSum_loop data (idx # indices) comb prev_bit res has_two_groups =
    ComputeSum_loop data indices (drop_bit 1 comb) (comb AND 1)
      (if comb AND 1 \<noteq> 0 then res + data ! idx else res - data ! idx)
      (has_two_groups \<or> prev_bit XOR (comb AND 1) \<noteq> 0)"

definition ComputeSum :: "int list \<Rightarrow> nat list \<Rightarrow> uint64 \<Rightarrow> int \<times> bool" where
  "ComputeSum data indices variant_bits =
    ComputeSum_loop data indices variant_bits (variant_bits AND 1) 0 False"

lemma drop_bit_1_less: "w \<noteq> 0 \<Longrightarrow> unat (drop_bit 1 w) < unat (w :: uint64)"
  by (simp add: drop_bit_Suc unat_div unat_gt_0)

function MakeIndices_loop :: "uint64 \<Rightarrow> nat \<Rightarrow> nat \<Rightarrow> nat list \<Rightarrow> nat list" where
  "MakeIndices_loop comb idx start_index choice_indexes =
    (if comb \<noteq> 0 then
       MakeIndices_loop (drop_bit 1 comb) (idx + 1) start_index
         (if comb AND 1 \<noteq> 0 then choice_indexes @ [idx + start_index] else choice_indexes)
     else choice_indexes)"
  by pat_completeness auto
termination
  by (relation "measure (\<lambda>(comb, _). unat comb)") (simp_all add: drop_bit_1_less [simplified])

declare MakeIndices_loop.simps [simp del]

definition MakeIndicesFromChoice :: "uint64 \<Rightarrow> nat \<Rightarrow> nat list" where
  "MakeIndicesFromChoice choice_bits start_index = MakeIndices_loop choice_bits 0 start_index []"

fun Split_loop :: "nat list \<Rightarrow> uint64 \<Rightarrow> nat list \<Rightarrow> nat list \<Rightarrow> nat list \<times> nat list" where
  "Split_loop [] comb first second = (first, second)"
| "Split_loop (idx # indices) comb first second =
    (if comb AND 1 \<noteq> 0 then Split_loop indices (drop_bit 1 comb) (first @ [idx]) second
     else Split_loop indices (drop_bit 1 comb) first (second @ [idx]))"

definition SplitIndicesIntoTwoGroups :: "nat list \<Rightarrow> uint64 \<Rightarrow> nat list \<times> nat list" where
  "SplitIndicesIntoTwoGroups indices variant_bits = Split_loop indices variant_bits [] []"

definition MakeSubsets :: "Combination \<Rightarrow> nat \<Rightarrow> nat list \<times> nat list" where
  "MakeSubsets comb start_index =
    SplitIndicesIntoTwoGroups (MakeIndicesFromChoice (choice comb) start_index) (variant comb)"

definition MergeCombinations :: "Combination \<Rightarrow> Combination \<Rightarrow> nat \<Rightarrow> Subsets" where
  "MergeCombinations first second start_index =
    (let (first_inds, second_inds) = MakeSubsets first 0;
         (indices_1, indices_2) = MakeSubsets second start_index
     in \<lparr>first_indices = first_inds @ indices_1, second_indices = second_inds @ indices_2,
         subsets_exist = True\<rparr>)"

section \<open>The table of sums\<close>

type_synonym sum_map = "int \<rightharpoonup> Combination"

definition add_sum :: "int \<Rightarrow> bool \<Rightarrow> uint64 \<Rightarrow> uint64 \<Rightarrow> sum_map \<Rightarrow> sum_map" where
  "add_sum s has_two_groups choice_bits i sums =
    (case sums s of
       Some c \<Rightarrow>
         if has_two_groups \<and> \<not> hasTwoGroups c
         then sums(s \<mapsto> \<lparr>choice = choice_bits, variant = i, hasTwoGroups = has_two_groups\<rparr>)
         else sums
     | None \<Rightarrow> sums(s \<mapsto> \<lparr>choice = choice_bits, variant = i, hasTwoGroups = has_two_groups\<rparr>))"

function ComputeChoice_loop ::
  "int list \<Rightarrow> uint64 \<Rightarrow> nat list \<Rightarrow> nat \<Rightarrow> nat \<Rightarrow> sum_map \<Rightarrow> sum_map" where
  "ComputeChoice_loop data choice_bits chosen_indices sum_variants_cnt i sums =
    (if i < sum_variants_cnt then
       let (s, has_two_groups) = ComputeSum data chosen_indices (of_nat i);
           sums = add_sum s has_two_groups choice_bits (of_nat i) sums
       in if s = 0 \<and> has_two_groups then sums
          else ComputeChoice_loop data choice_bits chosen_indices sum_variants_cnt (i + 1) sums
     else sums)"
  by pat_completeness auto
termination by (relation "measure (\<lambda>(_, _, _, cnt, i, _). cnt - i)") auto

definition ComputeChoice :: "int list \<Rightarrow> uint64 \<Rightarrow> sum_map \<Rightarrow> sum_map" where
  "ComputeChoice data choice_bits sums =
    (let chosen_indices = MakeIndicesFromChoice choice_bits 0
     in ComputeChoice_loop data choice_bits chosen_indices (2 ^ (length chosen_indices - 1)) 0 sums)"

definition zero_found :: "sum_map \<Rightarrow> bool" where
  "zero_found sums = (case sums 0 of Some c \<Rightarrow> hasTwoGroups c | None \<Rightarrow> False)"

function ComputeSumMap_loop :: "int list \<Rightarrow> nat \<Rightarrow> nat \<Rightarrow> sum_map \<Rightarrow> sum_map" where
  "ComputeSumMap_loop data choices_cnt i sums =
    (if i < choices_cnt then
       let sums = ComputeChoice data (of_nat i) sums
       in if zero_found sums then sums else ComputeSumMap_loop data choices_cnt (i + 1) sums
     else sums)"
  by pat_completeness auto
termination by (relation "measure (\<lambda>(_, cnt, i, _). cnt - i)") auto

definition ComputeSumMap :: "int list \<Rightarrow> nat \<Rightarrow> sum_map" where
  "ComputeSumMap data k = ComputeSumMap_loop data (2 ^ k) 1 Map.empty"

declare ComputeChoice_loop.simps [simp del] ComputeSumMap_loop.simps [simp del]

section \<open>The search of the second half\<close>

definition match_sum ::
  "sum_map \<Rightarrow> int \<Rightarrow> bool \<Rightarrow> uint64 \<Rightarrow> uint64 \<Rightarrow> (Combination \<times> Combination) option" where
  "match_sum sums s has_two_groups choice_bits i =
    (case sums s of
       Some found_combination \<Rightarrow>
         if has_two_groups \<or> hasTwoGroups found_combination \<or>
            (variant found_combination XOR i) AND 1 \<noteq> 0
         then Some (found_combination,
                    \<lparr>choice = choice_bits, variant = i, hasTwoGroups = has_two_groups\<rparr>)
         else None
     | None \<Rightarrow> None)"

definition empty_combination :: Combination where
  "empty_combination = \<lparr>choice = 0, variant = 0, hasTwoGroups = False\<rparr>"

function CheckChoice_loop ::
  "int list \<Rightarrow> sum_map \<Rightarrow> uint64 \<Rightarrow> nat list \<Rightarrow> nat \<Rightarrow> nat \<Rightarrow>
   (Combination \<times> Combination) option" where
  "CheckChoice_loop data sums choice_bits chosen_indices sum_variants_cnt i =
    (if i < sum_variants_cnt then
       let (s, has_two_groups) = ComputeSum data chosen_indices (of_nat i)
       in case match_sum sums s has_two_groups choice_bits (NOT (of_nat i)) of
            Some found \<Rightarrow> Some found
          | None \<Rightarrow>
              (case match_sum sums (- s) has_two_groups choice_bits (of_nat i) of
                 Some found \<Rightarrow> Some found
               | None \<Rightarrow>
                   if s = 0 \<and> has_two_groups
                   then Some (empty_combination,
                          \<lparr>choice = choice_bits, variant = of_nat i, hasTwoGroups = has_two_groups\<rparr>)
                   else CheckChoice_loop data sums choice_bits chosen_indices sum_variants_cnt (i + 1))
     else None)"
  by pat_completeness auto
termination by (relation "measure (\<lambda>(_, _, _, _, cnt, i). cnt - i)") auto

definition CheckChoice ::
  "int list \<Rightarrow> sum_map \<Rightarrow> nat \<Rightarrow> nat \<Rightarrow> (Combination \<times> Combination) option" where
  "CheckChoice data sums ch start_index =
    (let chosen_indices = MakeIndicesFromChoice (of_nat ch) start_index
     in CheckChoice_loop data sums (of_nat ch) chosen_indices (2 ^ (length chosen_indices - 1)) 0)"

datatype phase = Testing | Checking | Done

record search_thread =
  cur_choice :: nat
  end_choice :: nat
  phase :: phase

record search =
  combination_exists :: bool
  found_combination :: "(Combination \<times> Combination) option"
  threads :: "search_thread list"

definition ThreadCheckChoices_step ::
  "int list \<Rightarrow> sum_map \<Rightarrow> nat \<Rightarrow> nat \<Rightarrow> search \<Rightarrow> search" where
  "ThreadCheckChoices_step data sums start_index t st =
    (if length (threads st) \<le> t then st else
     let th = threads st ! t
     in case phase th of
          Done \<Rightarrow> st
        | Testing \<Rightarrow>
            if cur_choice th < end_choice th \<and> \<not> combination_exists st
            then st\<lparr>threads := (threads st)[t := th\<lparr>phase := Checking\<rparr>]\<rparr>
            else st\<lparr>threads := (threads st)[t := th\<lparr>phase := Done\<rparr>]\<rparr>
        | Checking \<Rightarrow>
            (case CheckChoice data sums (cur_choice th) start_index of
               None \<Rightarrow>
                 st\<lparr>threads := (threads st)[t := th\<lparr>cur_choice := cur_choice th + 1, phase := Testing\<rparr>]\<rparr>
             | Some r \<Rightarrow>
                 (if combination_exists st then st
                  else st\<lparr>combination_exists := True, found_combination := Some r\<rparr>)
                 \<lparr>threads := (threads st)[t := th\<lparr>phase := Done\<rparr>]\<rparr>))"

fun spawn_threads :: "nat \<Rightarrow> nat \<Rightarrow> nat \<Rightarrow> nat \<Rightarrow> nat \<Rightarrow> search_thread list" where
  "spawn_threads 0 i residial choices_per_thread current_choice = []"
| "spawn_threads (Suc n) i residial choices_per_thread current_choice =
    (let real_choices_per_thread =
           (if i < residial then choices_per_thread + 1 else choices_per_thread)
     in \<lparr>cur_choice = current_choice, end_choice = current_choice + real_choices_per_thread,
         phase = Testing\<rparr>
        # spawn_threads n (i + 1) residial choices_per_thread
            (current_choice + real_choices_per_thread))"

definition search_init :: "nat \<Rightarrow> search" where
  "search_init choices_cnt =
    \<lparr>combination_exists = False, found_combination = None,
     threads = spawn_threads kThreadCnt 0 ((choices_cnt - 1) mod kThreadCnt)
                 ((choices_cnt - 1) div kThreadCnt) 1\<rparr>"

function FindSuitable_loop ::
  "int list \<Rightarrow> sum_map \<Rightarrow> nat \<Rightarrow> nat \<Rightarrow> nat \<Rightarrow> (Combination \<times> Combination) option" where
  "FindSuitable_loop data sums k choices_cnt i =
    (if i < choices_cnt then
       case CheckChoice data sums i k of
         Some found \<Rightarrow> Some found
       | None \<Rightarrow> FindSuitable_loop data sums k choices_cnt (i + 1)
     else None)"
  by pat_completeness auto
termination by (relation "measure (\<lambda>(_, _, _, cnt, i). cnt - i)") auto

declare CheckChoice_loop.simps [simp del] FindSuitable_loop.simps [simp del]

text \<open>\<open>None\<close>: under this schedule some thread has not finished, so the join has not returned.\<close>

definition FindSuitableCombination ::
  "int list \<Rightarrow> sum_map \<Rightarrow> nat \<Rightarrow> nat list \<Rightarrow> (Combination \<times> Combination) option option" where
  "FindSuitableCombination data sums k schedule =
    (let choices_cnt = 2 ^ (length data - k)
     in if (choices_cnt - 1) div kThreadCnt < 8 then Some (FindSuitable_loop data sums k choices_cnt 1)
        else
          let st = fold (ThreadCheckChoices_step data sums k) schedule (search_init choices_cnt)
          in if \<forall>th \<in> set (threads st). phase th = Done then Some (found_combination st) else None)"

definition no_subsets :: Subsets where
  "no_subsets = \<lparr>first_indices = [], second_indices = [], subsets_exist = False\<rparr>"

definition FindEqualSumSubsets :: "int list \<Rightarrow> nat list \<Rightarrow> Subsets option" where
  "FindEqualSumSubsets data schedule =
    (if length data < 2 then Some no_subsets
     else
       let k = (if 2 < length data then length data div 2 else 1);
           sums = ComputeSumMap data k
       in if zero_found sums then
            let (f, s) = MakeSubsets (the (sums 0)) 0
            in Some \<lparr>first_indices = f, second_indices = s, subsets_exist = True\<rparr>
          else
            map_option
              (\<lambda>found. case found of Some (a, b) \<Rightarrow> MergeCombinations a b k | None \<Rightarrow> no_subsets)
              (FindSuitableCombination data sums k schedule))"

section \<open>Bits\<close>

lemma and_1_bit: "w AND 1 \<noteq> 0 \<longleftrightarrow> bit w 0" for w :: uint64
  by (simp add: bit_0 even_iff_mod_2_eq_zero flip: mod_2_eq_odd and_one_eq)

lemma xor_and_1: "(v XOR w) AND 1 \<noteq> 0 \<longleftrightarrow> bit v 0 \<noteq> bit w 0" for w :: uint64
  by (simp only: and_1_bit bit_xor_iff)

lemma bits_tail: "(\<lambda>p. bit w (Suc p)) = bit (drop_bit (Suc 0) w)" for w :: uint64
  by (simp add: fun_eq_iff bit_drop_bit_eq)

lemma bit_of_nat_uint64: "bit (of_nat m :: uint64) n \<longleftrightarrow> n < 64 \<and> bit m n"
  by (simp add: bit_of_nat_iff possible_bit_word)

lemma bits_nat_exist: "\<exists>i < 2 ^ n. \<forall>p < n. bit (i :: nat) p = f p"
proof (induction n arbitrary: f)
  case (Suc n)
  obtain i :: nat where i: "i < 2 ^ n" "\<forall>p < n. bit i p = f (Suc p)" using Suc [of "\<lambda>p. f (Suc p)"] by blast
  let ?j = "of_bool (f 0) + 2 * i"
  have "bit ?j p = f p" if "p < Suc n" for p
    using i(2) that by (cases p) (auto simp: bit_0 bit_Suc)
  moreover have "?j < 2 ^ Suc n" using i(1) by simp
  ultimately show ?case by blast
qed auto

lemma nat_less_pow_bits: "m < 2 ^ n \<Longrightarrow> n \<le> p \<Longrightarrow> \<not> bit (m :: nat) p"
  by (metis bit_take_bit_iff not_le take_bit_nat_eq_self)

section \<open>Groups\<close>

definition groups :: "nat list \<Rightarrow> (nat \<Rightarrow> bool) \<Rightarrow> nat list \<times> nat list" where
  "groups is f = (map (nth is) (filter f [0..<length is]), map (nth is) (filter (\<lambda>p. \<not> f p) [0..<length is]))"

lemma groups_Nil: "groups [] f = ([], [])" by (simp add: groups_def)

lemma groups_Cons:
  "groups (x # xs) f = (let (a, b) = groups xs (\<lambda>p. f (Suc p)) in if f 0 then (x # a, b) else (a, x # b))"
proof -
  have "[0..<length (x # xs)] = 0 # map Suc [0..<length xs]"
    by (simp add: map_Suc_upt upt_conv_Cons del: upt_Suc)
  then show ?thesis by (simp add: groups_def filter_map comp_def del: upt_Suc)
qed

lemma Split_loop_groups:
  "Split_loop is w f s = (f @ fst (groups is (bit w)), s @ snd (groups is (bit w)))"
proof (induction "is" arbitrary: w f s)
  case (Cons x xs)
  then show ?case by (simp add: bits_tail groups_Cons and_1_bit Let_def split_beta)
qed (simp add: groups_Nil)

lemma Split_groups: "SplitIndicesIntoTwoGroups is w = groups is (bit w)"
  by (simp add: SplitIndicesIntoTwoGroups_def Split_loop_groups)

lemma groups_cong: "(\<And>p. p < length is \<Longrightarrow> f p = g p) \<Longrightarrow> groups is f = groups is g"
  using filter_cong [of "[0..<length is]" _ f g] filter_cong [of "[0..<length is]" _ "\<lambda>p. \<not> f p" "\<lambda>p. \<not> g p"]
  by (simp add: groups_def)

lemma groups_not: "groups is (\<lambda>p. \<not> f p) = prod.swap (groups is f)"
  by (simp add: groups_def)

definition total :: "int list \<Rightarrow> nat list \<Rightarrow> int" where
  "total data is = sum_list (map (nth data) is)"

definition diff_sum :: "int list \<Rightarrow> nat list \<times> nat list \<Rightarrow> int" where
  "diff_sum data g = total data (fst g) - total data (snd g)"

definition two :: "nat list \<times> nat list \<Rightarrow> bool" where
  "two g \<longleftrightarrow> fst g \<noteq> [] \<and> snd g \<noteq> []"

lemma two_swap [simp]: "two (prod.swap g) = two g" by (auto simp: two_def)
lemma diff_sum_swap [simp]: "diff_sum data (prod.swap g) = - diff_sum data g" by (simp add: diff_sum_def)

lemma ComputeSum_loop_fst:
  "fst (ComputeSum_loop data is w pb r t) = r + diff_sum data (groups is (bit w))"
proof (induction "is" arbitrary: w pb r t)
  case (Cons x xs)
  then show ?case by (simp add: bits_tail groups_Cons and_1_bit Let_def split_beta diff_sum_def total_def)
qed (simp add: groups_Nil diff_sum_def total_def)

lemma low_bit_xor: "(v AND 1) XOR (w AND 1) \<noteq> 0 \<longleftrightarrow> bit v 0 \<noteq> bit w 0" for v w :: uint64
  using xor_and_1 [of v w] by (simp add: bit.conj_xor_distrib2)

lemma ComputeSum_loop_snd:
  "snd (ComputeSum_loop data is w (v AND 1) r t) \<longleftrightarrow>
   t \<or> (if bit v 0 then snd (groups is (bit w)) \<noteq> [] else fst (groups is (bit w)) \<noteq> []) \<or> two (groups is (bit w))"
proof (induction "is" arbitrary: w v r t)
  case (Cons x xs)
  show ?case
    using Cons [of "drop_bit 1 w" w "if w AND 1 \<noteq> 0 then r + data ! x else r - data ! x"]
    by (auto simp: bits_tail groups_Cons and_1_bit low_bit_xor Let_def split_beta two_def)
qed (simp add: groups_Nil two_def)

lemma ComputeSum_groups:
  "ComputeSum data is w = (diff_sum data (groups is (bit w)), two (groups is (bit w)))"
proof (rule prod_eqI)
  show "fst (ComputeSum data is w) = fst (diff_sum data (groups is (bit w)), two (groups is (bit w)))"
    by (simp add: ComputeSum_def ComputeSum_loop_fst)
  have "(if bit w 0 then snd (groups is (bit w)) \<noteq> [] else fst (groups is (bit w)) \<noteq> []) \<Longrightarrow>
      is \<noteq> [] \<Longrightarrow> two (groups is (bit w))"
    by (cases "is") (auto simp: groups_Cons two_def Let_def split_beta split: if_splits)
  then show "snd (ComputeSum data is w) = snd (diff_sum data (groups is (bit w)), two (groups is (bit w)))"
    by (cases "is = []") (auto simp: ComputeSum_def ComputeSum_loop_snd groups_Nil two_def)
qed

lemma groups_filter: "groups is (\<lambda>p. P (is ! p)) = (filter P is, filter (\<lambda>x. \<not> P x) is)"
  by (induction "is") (auto simp: groups_Nil groups_Cons Let_def)

lemma set_groups:
  "set (fst (groups is f)) \<union> set (snd (groups is f)) = set is"
  "distinct is \<Longrightarrow> distinct (fst (groups is f) @ snd (groups is f))"
proof -
  show eq: "set (fst (groups is f)) \<union> set (snd (groups is f)) = set is" for "is" f
    by (induction "is" arbitrary: f) (auto simp: groups_Nil groups_Cons Let_def split_beta)
  show "distinct is \<Longrightarrow> distinct (fst (groups is f) @ snd (groups is f))"
  proof (induction "is" arbitrary: f)
    case (Cons x xs)
    then show ?case
      using eq [of xs "\<lambda>p. f (Suc p)"] by (auto simp: groups_Cons Let_def split_beta)
  qed (simp add: groups_Nil)
qed

lemma groups_hd:
  "is \<noteq> [] \<Longrightarrow> f 0 \<Longrightarrow> fst (groups is f) \<noteq> []" "is \<noteq> [] \<Longrightarrow> \<not> f 0 \<Longrightarrow> snd (groups is f) \<noteq> []"
  by (cases "is"; simp add: groups_Cons Let_def split_beta)+

abbreviation groups_nat :: "nat list \<Rightarrow> nat \<Rightarrow> nat list \<times> nat list" where
  "groups_nat is i \<equiv> groups is (bit (of_nat i :: uint64))"

lemma variant_exists:
  assumes "is \<noteq> []" "length is \<le> 64"
  shows "\<exists>i < 2 ^ (length is - 1). groups_nat is i = (filter P is, filter (\<lambda>x. \<not> P x) is) \<or>
     groups_nat is i = prod.swap (filter P is, filter (\<lambda>x. \<not> P x) is)"
proof -
  let ?n = "length is - 1"
  define f where "f p = (P (is ! p) \<noteq> P (is ! ?n))" for p
  obtain i :: nat where i: "i < 2 ^ ?n" "\<forall>p < ?n. bit i p = f p" using bits_nat_exist by blast
  have "bit (of_nat i :: uint64) p = f p" if p: "p < length is" for p
    using i p nat_less_pow_bits [OF i(1), of p] assms(2)
    by (cases "p = ?n") (auto simp: bit_of_nat_uint64 f_def)
  then have g: "groups_nat is i = groups is f" by (rule groups_cong)
  have "groups is f = groups is (\<lambda>p. P (is ! p)) \<or> groups is f = groups is (\<lambda>p. \<not> P (is ! p))"
    by (cases "P (is ! ?n)") (auto intro: groups_cong simp: f_def)
  then show ?thesis
    unfolding groups_not groups_filter using i(1) g by auto
qed

lemma variant_one_group:
  assumes "is \<noteq> []" "length is \<le> 64" "i < 2 ^ (length is - 1)" "\<not> two (groups_nat is i)"
  shows "groups_nat is i = ([], is)" "\<not> bit i 0"
proof -
  let ?f = "bit (of_nat i :: uint64)"
  have "\<not> ?f (length is - 1)" using nat_less_pow_bits [OF assms(3)] by (simp add: bit_of_nat_uint64)
  then have "snd (groups is ?f) \<noteq> []" using assms(1) by (auto simp: groups_def filter_empty_conv)
  then have fst: "fst (groups is ?f) = []" using assms(4) by (simp add: two_def)
  then have none: "\<forall>p < length is. \<not> ?f p" by (auto simp: groups_def filter_empty_conv)
  have "groups is ?f = groups is (\<lambda>p. False)" by (rule groups_cong) (use none in simp)
  then show "groups_nat is i = ([], is)" by (simp add: groups_def map_nth)
  show "\<not> bit i 0" using none assms(1) by (simp add: bit_of_nat_uint64)
qed

section \<open>Choices\<close>

lemma MakeIndices_loop_filter:
  "(\<forall>p \<ge> m. \<not> bit w p) \<Longrightarrow>
   MakeIndices_loop w idx start acc = acc @ map (\<lambda>p. p + idx + start) (filter (bit w) [0..<m])"
proof (induction m arbitrary: w idx acc)
  case 0
  then have "w = 0" by (auto intro: bit_eqI)
  then show ?case by (simp add: MakeIndices_loop.simps)
next
  case (Suc m)
  show ?case
  proof (cases "w = 0")
    case False
    have upt: "[0..<Suc m] = 0 # map Suc [0..<m]" by (simp add: map_Suc_upt upt_conv_Cons del: upt_Suc)
    have "\<forall>p \<ge> m. \<not> bit (drop_bit (Suc 0) w) p" using Suc(2) by (simp add: bit_drop_bit_eq)
    from Suc(1) [OF this] False show ?thesis
      unfolding upt MakeIndices_loop.simps [of w]
      by (simp add: and_1_bit filter_map comp_def bits_tail del: upt_Suc)
  qed (simp add: MakeIndices_loop.simps)
qed

abbreviation indices :: "nat \<Rightarrow> nat \<Rightarrow> nat list" where
  "indices c start \<equiv> MakeIndicesFromChoice (of_nat c) start"

lemma indices_eq:
  assumes "c < 2 ^ m" "m \<le> 64"
  shows "indices c start = map (\<lambda>p. p + start) (filter (bit c) [0..<m])"
proof -
  have "filter (bit (of_nat c :: uint64)) [0..<m] = filter (bit c) [0..<m]"
    using assms(2) by (intro filter_cong) (auto simp: bit_of_nat_uint64)
  moreover have "\<forall>p \<ge> m. \<not> bit (of_nat c :: uint64) p"
    using nat_less_pow_bits [OF assms(1)] by (simp add: bit_of_nat_uint64)
  ultimately show ?thesis by (simp add: MakeIndicesFromChoice_def MakeIndices_loop_filter [of m])
qed

lemma indices_props:
  assumes "c < 2 ^ m" "m \<le> 64"
  shows "distinct (indices c start)" "set (indices c start) \<subseteq> {start..<start + m}"
    "length (indices c start) \<le> 64" "0 < c \<Longrightarrow> indices c start \<noteq> []"
proof -
  note eq = indices_eq [OF assms]
  show "distinct (indices c start)" by (simp add: eq distinct_map)
  show "set (indices c start) \<subseteq> {start..<start + m}" by (auto simp: eq)
  show "length (indices c start) \<le> 64"
    using length_filter_le [of "bit c" "[0..<m]"] assms(2) by (simp add: eq)
  assume "0 < c"
  have "\<exists>p. bit c p"
  proof (rule ccontr)
    assume "\<nexists>p. bit c p"
    then have "c = 0" by (intro bit_eqI) simp
    then show False using \<open>0 < c\<close> by simp
  qed
  then obtain p where "bit c p" by blast
  then have "p < m" using nat_less_pow_bits [OF assms(1), of p] by (cases "m \<le> p") auto
  with \<open>bit c p\<close> show "indices c start \<noteq> []" by (auto simp: eq filter_empty_conv)
qed

lemma choice_exists:
  assumes "C \<subseteq> {start..<start + m}" "m \<le> 64"
  shows "\<exists>c < 2 ^ m. set (indices c start) = C"
proof -
  obtain c :: nat where c: "c < 2 ^ m" "\<forall>p < m. bit c p = (p + start \<in> C)"
    using bits_nat_exist [of m "\<lambda>p. p + start \<in> C"] by blast
  have "set (indices c start) = C"
  proof
    show "C \<subseteq> set (indices c start)"
    proof
      fix x assume x: "x \<in> C"
      then have "start \<le> x \<and> x < start + m" using assms(1) by auto
      then have "x = (x - start) + start" "x - start < m" by auto
      then show "x \<in> set (indices c start)"
        using c x by (auto simp: indices_eq [OF c(1) assms(2)] image_iff)
    qed
  qed (use c in \<open>auto simp: indices_eq [OF c(1) assms(2)]\<close>)
  then show ?thesis using c(1) by blast
qed

section \<open>The table covers the sums of the first half\<close>

abbreviation group_of :: "nat \<Rightarrow> nat \<Rightarrow> nat \<Rightarrow> nat list \<times> nat list" where
  "group_of start c i \<equiv> groups_nat (indices c start) i"

abbreviation comb_of :: "nat \<Rightarrow> nat \<Rightarrow> Combination" where
  "comb_of c i \<equiv> \<lparr>choice = of_nat c, variant = of_nat i, hasTwoGroups = two (group_of 0 c i)\<rparr>"

definition covers :: "int list \<Rightarrow> (nat \<times> nat) set \<Rightarrow> sum_map \<Rightarrow> bool" where
  "covers data E sums \<longleftrightarrow>
    (\<forall>c i. (c, i) \<in> E \<longrightarrow> (\<exists>x. sums (diff_sum data (group_of 0 c i)) = Some x \<and>
        (two (group_of 0 c i) \<longrightarrow> hasTwoGroups x))) \<and>
    (\<forall>s x. sums s = Some x \<longrightarrow> (\<exists>c i. (c, i) \<in> E \<and> x = comb_of c i \<and> s = diff_sum data (group_of 0 c i)))"

definition variants :: "nat \<Rightarrow> (nat \<times> nat) set" where
  "variants c = {(c, i) | i. i < 2 ^ (length (indices c 0) - 1)}"

lemma covers_empty: "covers data {} Map.empty"
  by (simp add: covers_def)

lemma covers_add:
  assumes "covers data E sums"
  shows "covers data (insert (c, i) E)
    (add_sum (diff_sum data (group_of 0 c i)) (two (group_of 0 c i)) (of_nat c) (of_nat i) sums)"
proof -
  let ?g = "group_of 0 c i"
  let ?s = "add_sum (diff_sum data ?g) (two ?g) (of_nat c) (of_nat i) sums"
  have old: "\<exists>y. ?s s = Some y \<and> (hasTwoGroups x \<longrightarrow> hasTwoGroups y)" if "sums s = Some x" for s x
    using that by (auto simp: add_sum_def split: option.splits)
  have new: "\<exists>y. ?s (diff_sum data ?g) = Some y \<and> (two ?g \<longrightarrow> hasTwoGroups y)"
    by (auto simp: add_sum_def split: option.splits)
  have only: "sums s = Some x \<or> x = comb_of c i \<and> s = diff_sum data ?g" if "?s s = Some x" for s x
    using that by (auto simp: add_sum_def split: option.splits if_splits)
  show ?thesis
    unfolding covers_def
  proof (intro conjI allI impI)
    fix c' i' assume "(c', i') \<in> insert (c, i) E"
    then consider "(c', i') = (c, i)" | "(c', i') \<in> E" by blast
    then show "\<exists>x. ?s (diff_sum data (group_of 0 c' i')) = Some x \<and> (two (group_of 0 c' i') \<longrightarrow> hasTwoGroups x)"
    proof cases
      case 1
      then show ?thesis using new by simp
    next
      case 2
      then obtain x where "sums (diff_sum data (group_of 0 c' i')) = Some x" "two (group_of 0 c' i') \<longrightarrow> hasTwoGroups x"
        using assms unfolding covers_def by blast
      then show ?thesis using old by blast
    qed
  next
    fix s x assume "?s s = Some x"
    from only [OF this] show "\<exists>c' i'. (c', i') \<in> insert (c, i) E \<and> x = comb_of c' i' \<and> s = diff_sum data (group_of 0 c' i')"
      using assms unfolding covers_def by blast
  qed
qed

lemma ComputeChoice_loop_covers:
  assumes "covers data E sums"
  shows "\<exists>j \<le> max i cnt. covers data (E \<union> {(c, i') | i'. i \<le> i' \<and> i' < j})
      (ComputeChoice_loop data (of_nat c) (indices c 0) cnt i sums) \<and>
    (cnt \<le> j \<or> zero_found (ComputeChoice_loop data (of_nat c) (indices c 0) cnt i sums))"
  using assms
proof (induction "cnt - i" arbitrary: i sums E)
  case 0
  show ?case
  proof -
    have "E \<union> {(c, i') | i'. i \<le> i' \<and> i' < i} = E" by auto
    then show ?thesis
      using 0 by (intro exI [of _ i]) (auto simp: ComputeChoice_loop.simps [of data _ _ cnt i])
  qed
next
  case (Suc n)
  let ?g = "group_of 0 c i"
  define sums' where "sums' = add_sum (diff_sum data ?g) (two ?g) (of_nat c) (of_nat i) sums"
  have cov: "covers data (insert (c, i) E) sums'"
    unfolding sums'_def by (rule covers_add [OF Suc(3)])
  have i: "i < cnt" using Suc(2) by simp
  show ?case
  proof (cases "diff_sum data ?g = 0 \<and> two ?g")
    case True
    have eq: "ComputeChoice_loop data (of_nat c) (indices c 0) cnt i sums = sums'"
      using i True by (simp add: ComputeChoice_loop.simps [of data _ _ cnt i] ComputeSum_groups sums'_def Let_def)
    have "zero_found sums'" using cov True unfolding covers_def zero_found_def by fastforce
    moreover have "insert (c, i) E = E \<union> {(c, i') | i'. i \<le> i' \<and> i' < Suc i}" by auto
    ultimately show ?thesis using cov i unfolding eq by (intro exI [of _ "Suc i"]) auto
  next
    case False
    have eq: "ComputeChoice_loop data (of_nat c) (indices c 0) cnt i sums
        = ComputeChoice_loop data (of_nat c) (indices c 0) cnt (i + 1) sums'"
      using i False by (auto simp: ComputeChoice_loop.simps [of data _ _ cnt i] ComputeSum_groups sums'_def Let_def)
    obtain j where j: "j \<le> max (i + 1) cnt"
      "covers data (insert (c, i) E \<union> {(c, i') | i'. i + 1 \<le> i' \<and> i' < j})
        (ComputeChoice_loop data (of_nat c) (indices c 0) cnt (i + 1) sums')"
      "cnt \<le> j \<or> zero_found (ComputeChoice_loop data (of_nat c) (indices c 0) cnt (i + 1) sums')"
      using Suc(1) [OF _ cov, of "i + 1"] Suc(2) by force
    have "insert (c, i) E \<union> {(c, i') | i'. i + 1 \<le> i' \<and> i' < j} =
        E \<union> {(c, i') | i'. i \<le> i' \<and> i' < max (i + 1) j}"
      by (auto simp: Suc_le_eq le_less)
    then show ?thesis using j i unfolding eq by (intro exI [of _ "max (i + 1) j"]) auto
  qed
qed

lemma ComputeChoice_covers:
  assumes "covers data E sums"
  shows "\<exists>V \<subseteq> variants c. covers data (E \<union> V) (ComputeChoice data (of_nat c) sums) \<and>
    (V = variants c \<or> zero_found (ComputeChoice data (of_nat c) sums))"
proof -
  let ?cnt = "2 ^ (length (indices c 0) - 1) :: nat"
  let ?r = "ComputeChoice data (of_nat c) sums"
  have r: "?r = ComputeChoice_loop data (of_nat c) (indices c 0) ?cnt 0 sums"
    by (simp add: ComputeChoice_def Let_def)
  obtain j where j: "j \<le> ?cnt" "covers data (E \<union> {(c, i') | i'. 0 \<le> i' \<and> i' < j}) ?r" "?cnt \<le> j \<or> zero_found ?r"
    using ComputeChoice_loop_covers [OF assms, of 0 ?cnt c] unfolding r max_0L by blast
  let ?V = "{(c, i') | i'. 0 \<le> i' \<and> i' < j}"
  have "?V \<subseteq> variants c" using j(1) by (auto simp: variants_def)
  moreover have "?V = variants c" if "?cnt \<le> j" using j(1) that by (auto simp: variants_def)
  ultimately show ?thesis using j(2,3) by (intro exI [of _ ?V]) auto
qed

lemma ComputeSumMap_loop_covers:
  assumes "covers data E sums"
  shows "\<exists>V \<subseteq> (\<Union>c \<in> {i..<cnt}. variants c). covers data (E \<union> V) (ComputeSumMap_loop data cnt i sums) \<and>
    (V = (\<Union>c \<in> {i..<cnt}. variants c) \<or> zero_found (ComputeSumMap_loop data cnt i sums))"
  using assms
proof (induction "cnt - i" arbitrary: i sums E)
  case 0
  then show ?case by (auto simp: ComputeSumMap_loop.simps [of data cnt i])
next
  case (Suc n)
  let ?r = "ComputeChoice data (of_nat i) sums"
  let ?rest = "\<Union>c \<in> {i + 1..<cnt}. variants c"
  have i: "i < cnt" using Suc(2) by simp
  then have "{i..<cnt} = insert i {i + 1..<cnt}" by auto
  then have all: "(\<Union>c \<in> {i..<cnt}. variants c) = variants i \<union> ?rest" by simp
  obtain V where V: "V \<subseteq> variants i" "covers data (E \<union> V) ?r" "V = variants i \<or> zero_found ?r"
    using ComputeChoice_covers [OF Suc(3)] by blast
  show ?case
  proof (cases "zero_found ?r")
    case True
    then have "ComputeSumMap_loop data cnt i sums = ?r"
      using i by (simp add: ComputeSumMap_loop.simps [of data cnt i] Let_def)
    then show ?thesis using V True unfolding all by auto
  next
    case False
    then have eq: "ComputeSumMap_loop data cnt i sums = ComputeSumMap_loop data cnt (i + 1) ?r"
      using i by (simp add: ComputeSumMap_loop.simps [of data cnt i] Let_def)
    have "n = cnt - (i + 1)" using Suc(2) by simp
    from Suc(1) [OF this V(2)] obtain W where W: "W \<subseteq> ?rest"
      "covers data (E \<union> V \<union> W) (ComputeSumMap_loop data cnt (i + 1) ?r)"
      "W = ?rest \<or> zero_found (ComputeSumMap_loop data cnt (i + 1) ?r)" by blast
    show ?thesis
      unfolding eq all using W V False by (intro exI [of _ "V \<union> W"]) (auto simp: Un_assoc)
  qed
qed

definition half_pairs :: "nat \<Rightarrow> (nat \<times> nat) set" where
  "half_pairs k = (\<Union>c \<in> {1..<2 ^ k}. variants c)"

lemma ComputeSumMap_covers:
  "\<exists>V \<subseteq> half_pairs k. covers data V (ComputeSumMap data k) \<and>
     (V = half_pairs k \<or> zero_found (ComputeSumMap data k))"
  using ComputeSumMap_loop_covers [OF covers_empty, of 1 "2 ^ k" data]
  by (simp add: ComputeSumMap_def half_pairs_def)

lemma half_pairs_iff:
  "(c, i) \<in> half_pairs k \<longleftrightarrow> 1 \<le> c \<and> c < 2 ^ k \<and> i < 2 ^ (length (indices c 0) - 1)"
  by (auto simp: half_pairs_def variants_def)

section \<open>What the search finds is a solution\<close>

definition solution :: "int list \<Rightarrow> nat list \<times> nat list \<Rightarrow> bool" where
  "solution data g \<longleftrightarrow> two g \<and> distinct (fst g @ snd g) \<and>
     set (fst g @ snd g) \<subseteq> {..<length data} \<and> total data (fst g) = total data (snd g)"

lemma MakeSubsets_groups:
  "MakeSubsets c start = groups (MakeIndicesFromChoice (choice c) start) (bit (variant c))"
  by (simp add: MakeSubsets_def Split_groups)

definition merged :: "nat list \<times> nat list \<Rightarrow> nat list \<times> nat list \<Rightarrow> nat list \<times> nat list" where
  "merged g h = (fst g @ fst h, snd g @ snd h)"

lemma Merge_solution:
  "(first_indices (MergeCombinations a b k), second_indices (MergeCombinations a b k)) =
     merged (MakeSubsets a 0) (MakeSubsets b k)"
  "subsets_exist (MergeCombinations a b k)"
  by (simp_all add: MergeCombinations_def merged_def split_beta)

lemma merged_solution:
  assumes "distinct is" "distinct js" "set is \<inter> set js = {}" "set is \<union> set js \<subseteq> {..<length data}"
    and "diff_sum data (groups is f) + diff_sum data (groups js h) = 0"
    and "two (groups is f) \<or> two (groups js h) \<or> is \<noteq> [] \<and> js \<noteq> [] \<and> f 0 \<noteq> h 0"
  shows "solution data (merged (groups is f) (groups js h))"
proof -
  have "two (merged (groups is f) (groups js h))"
    using assms(6) groups_hd [of "is" f] groups_hd [of js h] by (auto simp: two_def merged_def)
  moreover have "total data (fst (groups is f) @ fst (groups js h)) = total data (snd (groups is f) @ snd (groups js h))"
    using assms(5) by (simp add: diff_sum_def total_def)
  moreover have "distinct ((fst (groups is f) @ fst (groups js h)) @ snd (groups is f) @ snd (groups js h))"
    using set_groups(2) [OF assms(1), of f] set_groups(2) [OF assms(2), of h] assms(3)
      set_groups(1) [of "is" f] set_groups(1) [of js h] by auto
  ultimately show ?thesis
    using set_groups(1) [of "is" f] set_groups(1) [of js h] assms(4)
    by (auto simp: solution_def merged_def)
qed

lemma not_bits: "length is \<le> 64 \<Longrightarrow> groups is (bit (NOT w :: uint64)) = prod.swap (groups is (bit w))"
  unfolding groups_not [symmetric] by (rule groups_cong) (simp add: bit_not_iff possible_bit_word)

lemma CheckChoice_loop_Some:
  "CheckChoice_loop data sums cb is cnt i = Some r \<Longrightarrow>
   \<exists>j. i \<le> j \<and> j < cnt \<and> (let g = groups_nat is j; s = diff_sum data g in
     match_sum sums s (two g) cb (NOT (of_nat j)) = Some r \<or>
     match_sum sums (- s) (two g) cb (of_nat j) = Some r \<or>
     s = 0 \<and> two g \<and> r = (empty_combination, \<lparr>choice = cb, variant = of_nat j, hasTwoGroups = two g\<rparr>))"
proof (induction "cnt - i" arbitrary: i)
  case 0
  then show ?case by (simp add: CheckChoice_loop.simps [of data sums cb "is" cnt i])
next
  case (Suc n)
  have i: "i < cnt" using Suc(2) by simp
  note unf = Suc(3) [unfolded CheckChoice_loop.simps [of data sums cb "is" cnt i] ComputeSum_groups, simplified i]
  show ?case
  proof (cases "CheckChoice_loop data sums cb is cnt (i + 1) = Some r")
    case True
    then show ?thesis using Suc(1) [of "i + 1"] Suc(2) by (metis Suc_eq_plus1 Suc_leD diff_Suc_Suc diff_Suc_1 Suc_diff_Suc i)
  next
    case False
    then show ?thesis
      using unf i by (intro exI [of _ i]) (auto simp: Let_def split: option.splits if_splits)
  qed
qed

lemma CheckChoice_loop_None:
  "CheckChoice_loop data sums cb is cnt i = None \<Longrightarrow> i \<le> j \<Longrightarrow> j < cnt \<Longrightarrow>
   match_sum sums (diff_sum data (groups_nat is j)) (two (groups_nat is j)) cb (NOT (of_nat j)) = None \<and>
   match_sum sums (- diff_sum data (groups_nat is j)) (two (groups_nat is j)) cb (of_nat j) = None \<and>
   \<not> (diff_sum data (groups_nat is j) = 0 \<and> two (groups_nat is j))"
proof (induction "cnt - i" arbitrary: i)
  case (Suc n)
  have i: "i < cnt" using Suc(2) by simp
  note unf = Suc(3) [unfolded CheckChoice_loop.simps [of data sums cb "is" cnt i] ComputeSum_groups, simplified i]
  show ?case
  proof (cases "i = j")
    case True
    then show ?thesis using unf by (auto simp: Let_def split: option.splits if_splits)
  next
    case False
    have "CheckChoice_loop data sums cb is cnt (i + 1) = None"
      using unf by (auto simp: Let_def split: option.splits if_splits)
    then show ?thesis using Suc(1) [of "i + 1"] Suc(2,4,5) False by simp
  qed
qed simp

lemma covers_entry:
  assumes "covers data V sums" "V \<subseteq> half_pairs k" "sums s = Some x"
  obtains c i where "1 \<le> c" "c < 2 ^ k" "i < 2 ^ (length (indices c 0) - 1)"
    "x = comb_of c i" "s = diff_sum data (group_of 0 c i)"
  using assms unfolding covers_def by (meson half_pairs_iff subsetD)

lemma halves_disjoint:
  assumes "k \<le> 64" "m \<le> 64" "k + m = length data" "c < 2 ^ k" "ch < 2 ^ m"
  shows "set (indices c 0) \<inter> set (indices ch k) = {}"
    "set (indices c 0) \<union> set (indices ch k) \<subseteq> {..<length data}"
  using indices_props(2) [OF assms(4,1), of 0] indices_props(2) [OF assms(5,2), of k] assms(3)
  by (fastforce simp: subset_eq)+

lemma match_sum_sound:
  assumes cov: "covers data V sums" "V \<subseteq> half_pairs k" and k: "k \<le> 64" "m \<le> 64" "k + m = length data"
    and ch: "1 \<le> ch" "ch < 2 ^ m"
    and match: "match_sum sums s (two (groups (indices ch k) (bit v))) (of_nat ch) v = Some (a, b)"
    and s: "diff_sum data (groups (indices ch k) (bit v)) = - s"
  shows "solution data (merged (MakeSubsets a 0) (MakeSubsets b k))"
proof -
  have a: "sums s = Some a" and b: "b = \<lparr>choice = of_nat ch, variant = v, hasTwoGroups = two (groups (indices ch k) (bit v))\<rparr>"
    and cond: "two (groups (indices ch k) (bit v)) \<or> hasTwoGroups a \<or> bit (variant a) 0 \<noteq> bit v 0"
    using match by (auto simp: match_sum_def xor_and_1 split: option.splits if_splits)
  obtain c i where c: "1 \<le> c" "c < 2 ^ k" "a = comb_of c i" "s = diff_sum data (group_of 0 c i)"
    using covers_entry [OF cov a] by metis
  have "solution data (merged (groups (indices c 0) (bit (of_nat i :: uint64))) (groups (indices ch k) (bit v)))"
    using indices_props [OF c(2) k(1), of 0] indices_props [OF ch(2) k(2), of k]
      halves_disjoint [OF k c(2) ch(2)] s c cond ch(1)
    by (intro merged_solution) auto
  then show ?thesis using c(3) b by (simp add: MakeSubsets_groups)
qed

lemma CheckChoice_sound:
  assumes cov: "covers data V sums" "V \<subseteq> half_pairs k" and k: "k \<le> 64" "m \<le> 64" "k + m = length data"
    and ch: "1 \<le> ch" "ch < 2 ^ m" and found: "CheckChoice data sums ch k = Some (a, b)"
  shows "solution data (merged (MakeSubsets a 0) (MakeSubsets b k))"
proof -
  let ?js = "indices ch k"
  note js = indices_props [OF ch(2) k(2), of k]
  obtain j where j: "match_sum sums (diff_sum data (groups_nat ?js j)) (two (groups_nat ?js j)) (of_nat ch) (NOT (of_nat j)) = Some (a, b) \<or>
     match_sum sums (- diff_sum data (groups_nat ?js j)) (two (groups_nat ?js j)) (of_nat ch) (of_nat j) = Some (a, b) \<or>
     diff_sum data (groups_nat ?js j) = 0 \<and> two (groups_nat ?js j) \<and>
     (a, b) = (empty_combination, \<lparr>choice = of_nat ch, variant = of_nat j, hasTwoGroups = two (groups_nat ?js j)\<rparr>)"
    using CheckChoice_loop_Some [OF found [unfolded CheckChoice_def Let_def]] by (auto simp: Let_def)
  from j consider
      (pos) "match_sum sums (diff_sum data (groups_nat ?js j)) (two (groups_nat ?js j)) (of_nat ch) (NOT (of_nat j)) = Some (a, b)"
    | (neg) "match_sum sums (- diff_sum data (groups_nat ?js j)) (two (groups_nat ?js j)) (of_nat ch) (of_nat j) = Some (a, b)"
    | (zero) "diff_sum data (groups_nat ?js j) = 0" "two (groups_nat ?js j)" "a = empty_combination"
        "b = \<lparr>choice = of_nat ch, variant = of_nat j, hasTwoGroups = two (groups_nat ?js j)\<rparr>"
    by blast
  then show ?thesis
  proof cases
    case pos
    show ?thesis
      by (rule match_sum_sound [OF cov k ch, where v = "NOT (of_nat j)"])
        (use pos not_bits [OF js(3)] in simp_all)
  next
    case neg
    show ?thesis by (rule match_sum_sound [OF cov k ch neg]) simp
  next
    case zero
    have "MakeSubsets a 0 = groups [] (bit 0)"
      by (simp add: zero MakeSubsets_groups empty_combination_def MakeIndicesFromChoice_def MakeIndices_loop.simps)
    moreover have "solution data (merged (groups [] (bit 0)) (groups_nat ?js j))"
      using js zero(1,2) k(3) by (intro merged_solution) (auto simp: groups_Nil diff_sum_def total_def)
    ultimately show ?thesis using zero(4) by (simp add: MakeSubsets_groups)
  qed
qed

section \<open>A search that fails proves that there is no solution\<close>

lemma total_set: "distinct is \<Longrightarrow> total data is = (\<Sum>x \<in> set is. data ! x)"
  by (simp add: total_def sum_list_distinct_conv_sum_set)

lemma match_sum_None:
  "match_sum sums s t cb v = None \<Longrightarrow> sums s = Some x \<Longrightarrow>
   \<not> t \<and> \<not> hasTwoGroups x \<and> bit (variant x) 0 = bit v 0"
  by (auto simp: match_sum_def xor_and_1 split: if_splits)

lemma CheckChoice_miss:
  assumes cov: "covers data (half_pairs k) sums" and k: "k \<le> 64" "m \<le> 64"
    and ch: "1 \<le> ch" "ch < 2 ^ m" and None: "CheckChoice data sums ch k = None"
    and i: "i < 2 ^ (length (indices ch k) - 1)"
  defines "g \<equiv> group_of k ch i"
  shows "sums (diff_sum data g) = None"
    "sums (- diff_sum data g) = Some x \<Longrightarrow> \<not> two g \<and> \<not> hasTwoGroups x"
    "\<not> (diff_sum data g = 0 \<and> two g)"
proof -
  note js = indices_props [OF ch(2) k(2), of k]
  have miss: "match_sum sums (diff_sum data g) (two g) (of_nat ch) (NOT (of_nat i)) = None \<and>
      match_sum sums (- diff_sum data g) (two g) (of_nat ch) (of_nat i) = None \<and>
      \<not> (diff_sum data g = 0 \<and> two g)"
    unfolding g_def using CheckChoice_loop_None [OF None [unfolded CheckChoice_def Let_def], of i] i by simp
  then show "\<not> (diff_sum data g = 0 \<and> two g)" by blast
  show "sums (- diff_sum data g) = Some x \<Longrightarrow> \<not> two g \<and> \<not> hasTwoGroups x"
    using miss match_sum_None by blast
  show "sums (diff_sum data g) = None"
  proof (rule ccontr)
    assume "sums (diff_sum data g) \<noteq> None"
    then obtain x where x: "sums (diff_sum data g) = Some x" by blast
    note one = match_sum_None [OF conjunct1 [OF miss] x]
    obtain c j where c: "1 \<le> c" "c < 2 ^ k" "j < 2 ^ (length (indices c 0) - 1)" "x = comb_of c j"
      using covers_entry [OF cov subset_refl x] by metis
    have "\<not> bit j 0"
      using variant_one_group(2) [OF _ _ c(3)] indices_props [OF c(2) k(1), of 0] c(1,4) one by simp
    moreover have "\<not> bit i 0"
      using variant_one_group(2) [OF _ js(3) i] js(4) ch(1) one by (simp add: g_def)
    ultimately show False
      using one c(4) by (simp add: bit_of_nat_uint64 bit_not_iff possible_bit_word)
  qed
qed

definition solvable :: "int list \<Rightarrow> bool" where
  "solvable data \<longleftrightarrow>
    (\<exists>A B. A \<noteq> {} \<and> B \<noteq> {} \<and> A \<inter> B = {} \<and> A \<union> B \<subseteq> {..<length data} \<and>
       (\<Sum>x \<in> A. data ! x) = (\<Sum>x \<in> B. data ! x))"

abbreviation sides :: "nat set \<Rightarrow> nat list \<Rightarrow> nat list \<times> nat list" where
  "sides A is \<equiv> (filter (\<lambda>x. x \<in> A) is, filter (\<lambda>x. x \<notin> A) is)"

lemma sides_sum:
  assumes "distinct is" "distinct js" "set is \<inter> set js = {}" "A \<inter> B = {}" "set is \<union> set js = A \<union> B"
    and "(\<Sum>x \<in> A. data ! x) = (\<Sum>x \<in> B. data ! x)"
  shows "diff_sum data (sides A is) + diff_sum data (sides A js) = 0"
proof -
  have tot: "total data (filter P is) + total data (filter P js) = (\<Sum>x \<in> {x \<in> A \<union> B. P x}. data ! x)" for P
  proof -
    have "{x \<in> A \<union> B. P x} = {x \<in> set is. P x} \<union> {x \<in> set js. P x}" using assms(5) by blast
    moreover have "{x \<in> set is. P x} \<inter> {x \<in> set js. P x} = {}" using assms(3) by blast
    ultimately show ?thesis using assms(1,2) by (simp add: total_set sum.union_disjoint)
  qed
  have eqs: "{x \<in> A \<union> B. x \<in> A} = A" "{x \<in> A \<union> B. x \<notin> A} = B" using assms(4) by blast+
  show ?thesis
    using tot [of "\<lambda>x. x \<in> A", unfolded eqs] tot [of "\<lambda>x. x \<notin> A", unfolded eqs] assms(6)
    by (simp only: diff_sum_def fst_conv snd_conv)
qed

lemma sides_one:
  "\<not> two (sides A is) \<Longrightarrow> is \<noteq> [] \<Longrightarrow> sides A is = (is, []) \<or> sides A is = ([], is)"
  unfolding two_def by (simp add: filter_empty_conv filter_id_conv) metis

lemma variant_sides:
  assumes "is \<noteq> []" "length is \<le> 64"
  obtains i where "i < 2 ^ (length is - 1)"
    "groups_nat is i = sides A is \<or> groups_nat is i = prod.swap (sides A is)"
  using variant_exists [OF assms, of "\<lambda>x. x \<in> A"] by blast

lemma indices_0: "MakeIndicesFromChoice 0 start = []"
  by (simp add: MakeIndicesFromChoice_def MakeIndices_loop.simps)

lemma CheckChoice_complete:
  assumes cov: "covers data (half_pairs k) sums" "\<not> zero_found sums"
    and k: "k \<le> 64" "m \<le> 64" "k + m = length data"
    and c: "c < 2 ^ k" and ch: "ch < 2 ^ m"
    and sum: "diff_sum data (sides A (indices c 0)) + diff_sum data (sides A (indices ch k)) = 0"
    and both: "two (merged (sides A (indices c 0)) (sides A (indices ch k)))"
  shows "1 \<le> ch \<and> CheckChoice data sums ch k \<noteq> None"
proof (cases "ch = 0")
  case True
  let ?is = "indices c 0"
  have js: "indices ch k = []" using True by (simp add: indices_0)
  then have two: "two (sides A ?is)" and d: "diff_sum data (sides A ?is) = 0"
    using both sum by (auto simp: merged_def two_def diff_sum_def total_def)
  then have "?is \<noteq> []" by (auto simp: two_def)
  then obtain i where i: "i < 2 ^ (length ?is - 1)"
    "groups_nat ?is i = sides A ?is \<or> groups_nat ?is i = prod.swap (sides A ?is)"
    using variant_sides [OF _ indices_props(3) [OF c k(1)]] by metis
  have "1 \<le> c" using \<open>?is \<noteq> []\<close> indices_0 by (cases "c = 0") auto
  then have "\<exists>x. sums (diff_sum data (groups_nat ?is i)) = Some x \<and> (two (groups_nat ?is i) \<longrightarrow> hasTwoGroups x)"
    using cov(1) c i(1) unfolding covers_def half_pairs_iff by blast
  moreover have "diff_sum data (groups_nat ?is i) = 0" "two (groups_nat ?is i)"
    using i(2) d two two_swap [of "sides A ?is"] by (auto simp only: diff_sum_swap)
  ultimately show ?thesis using cov(2) by (auto simp: zero_found_def)
next
  case False
  let ?is = "indices c 0" and ?js = "indices ch k"
  have ch1: "1 \<le> ch" using False by simp
  note isp = indices_props [OF c k(1), of 0] and jsp = indices_props [OF ch k(2), of k]
  have "CheckChoice data sums ch k \<noteq> None"
  proof
    assume None: "CheckChoice data sums ch k = None"
    have "?js \<noteq> []" using jsp(4) ch1 by simp
    then obtain j where j: "j < 2 ^ (length ?js - 1)"
      "groups_nat ?js j = sides A ?js \<or> groups_nat ?js j = prod.swap (sides A ?js)"
      using variant_sides [OF _ jsp(3)] by metis
    define g where "g = groups_nat ?js j"
    note miss = CheckChoice_miss [OF cov(1) k(1,2) ch1 ch None j(1), folded g_def]
    have g: "diff_sum data g = diff_sum data (sides A ?js) \<or> diff_sum data g = - diff_sum data (sides A ?js)"
      "two g = two (sides A ?js)"
      using j(2) diff_sum_swap [of data "sides A ?js"] two_swap [of "sides A ?js"] unfolding g_def by metis+
    show False
    proof (cases "c = 0")
      case True
      then have "?is = []" by (simp add: indices_0)
      then show False using miss(3) g sum both by (auto simp: merged_def two_def diff_sum_def total_def)
    next
      case False
      then have c1: "1 \<le> c" and ne: "?is \<noteq> []" using isp(4) by auto
      obtain i where i: "i < 2 ^ (length ?is - 1)"
        "groups_nat ?is i = sides A ?is \<or> groups_nat ?is i = prod.swap (sides A ?is)"
        using variant_sides [OF ne isp(3)] by metis
      define h where "h = groups_nat ?is i"
      have h: "diff_sum data h = diff_sum data (sides A ?is) \<or> diff_sum data h = - diff_sum data (sides A ?is)"
        "two h = two (sides A ?is)"
        using i(2) diff_sum_swap [of data "sides A ?is"] two_swap [of "sides A ?is"] unfolding h_def by metis+
      obtain x where x: "sums (diff_sum data h) = Some x" "two h \<longrightarrow> hasTwoGroups x"
        using cov(1) c c1 i(1) unfolding covers_def half_pairs_iff h_def by blast
      have "diff_sum data h = diff_sum data g \<or> diff_sum data h = - diff_sum data g" using g(1) h(1) sum by linarith
      then have dh: "diff_sum data h = - diff_sum data g" using miss(1) x(1) by fastforce
      then have one: "\<not> two g" "\<not> two h" using miss(2) x by auto
      have gh: "g = ([], ?js)" "h = ([], ?is)"
        unfolding g_def h_def
        using variant_one_group(1) [OF \<open>?js \<noteq> []\<close> jsp(3) j(1)] variant_one_group(1) [OF ne isp(3) i(1)] one
        by (simp_all add: g_def h_def)
      have "total data ?is = - total data ?js" using dh gh by (simp add: diff_sum_def total_def)
      moreover have "total data ?is = total data ?js"
        using sides_one [of A ?is] sides_one [of A ?js] one g(2) h(2) ne \<open>?js \<noteq> []\<close> both sum
        by (auto simp: merged_def two_def diff_sum_def total_def)
      ultimately have "diff_sum data h = diff_sum data g" using gh dh by (simp add: diff_sum_def total_def)
      then show False using miss(1) x(1) by simp
    qed
  qed
  then show ?thesis using ch1 by blast
qed

lemma solvable_found:
  assumes cov: "covers data (half_pairs k) sums" "\<not> zero_found sums"
    and k: "k \<le> 64" "m \<le> 64" "k + m = length data" and "solvable data"
  shows "\<exists>ch. 1 \<le> ch \<and> ch < 2 ^ m \<and> CheckChoice data sums ch k \<noteq> None"
proof -
  obtain A B where AB: "A \<noteq> {}" "B \<noteq> {}" "A \<inter> B = {}" "A \<union> B \<subseteq> {..<length data}"
    "(\<Sum>x \<in> A. data ! x) = (\<Sum>x \<in> B. data ! x)" using assms(6) unfolding solvable_def by blast
  obtain c where c: "c < 2 ^ k" "set (indices c 0) = (A \<union> B) \<inter> {..<k}"
    using choice_exists [of "(A \<union> B) \<inter> {..<k}" 0 k] k(1) by (metis Int_lower2 add_0 atLeast0LessThan)
  obtain ch where ch: "ch < 2 ^ m" "set (indices ch k) = (A \<union> B) \<inter> {k..<k + m}"
    using choice_exists [of "(A \<union> B) \<inter> {k..<k + m}" k m] k(2) by auto
  have all: "set (indices c 0) \<union> set (indices ch k) = A \<union> B" using AB(4) k(3) c(2) ch(2) by fastforce
  have disj: "set (indices c 0) \<inter> set (indices ch k) = {}" using c(2) ch(2) by auto
  have "diff_sum data (sides A (indices c 0)) + diff_sum data (sides A (indices ch k)) = 0"
    by (rule sides_sum [OF indices_props(1) [OF c(1) k(1)] indices_props(1) [OF ch(1) k(2)] disj AB(3) all AB(5)])
  moreover have "two (merged (sides A (indices c 0)) (sides A (indices ch k)))"
  proof -
    obtain a b where "a \<in> A" "b \<in> B" "b \<notin> A" using AB(1,2,3) by blast
    then have "a \<in> set (filter (\<lambda>x. x \<in> A) (indices c 0 @ indices ch k))"
      "b \<in> set (filter (\<lambda>x. x \<notin> A) (indices c 0 @ indices ch k))" using all by auto
    then show ?thesis by (auto simp: two_def merged_def filter_empty_conv)
  qed
  ultimately show ?thesis using CheckChoice_complete [OF cov k c(1) ch(1)] ch(1) by blast
qed

section \<open>Threads\<close>

definition thread_ok ::
  "(nat \<Rightarrow> 'r option) \<Rightarrow> bool \<Rightarrow> search_thread \<Rightarrow> search_thread \<Rightarrow> bool" where
  "thread_ok chk ex th0 th \<longleftrightarrow>
    end_choice th = end_choice th0 \<and> cur_choice th0 \<le> cur_choice th \<and> cur_choice th \<le> end_choice th \<and>
    (\<forall>ch. cur_choice th0 \<le> ch \<and> ch < cur_choice th \<longrightarrow> chk ch = None) \<and>
    (phase th = Done \<longrightarrow> ex \<or> cur_choice th = end_choice th) \<and>
    (phase th = Checking \<longrightarrow> cur_choice th < end_choice th)"

definition search_ok ::
  "(nat \<Rightarrow> (Combination \<times> Combination) option) \<Rightarrow> search_thread list \<Rightarrow> search \<Rightarrow> bool" where
  "search_ok chk ths0 st \<longleftrightarrow>
    length (threads st) = length ths0 \<and>
    (\<forall>t < length ths0. thread_ok chk (combination_exists st) (ths0 ! t) (threads st ! t)) \<and>
    (combination_exists st \<longleftrightarrow> found_combination st \<noteq> None) \<and>
    (\<forall>r. found_combination st = Some r \<longrightarrow>
       (\<exists>th0 \<in> set ths0. \<exists>ch. cur_choice th0 \<le> ch \<and> ch < end_choice th0 \<and> chk ch = Some r))"

lemma thread_ok_mono: "thread_ok chk ex th0 th \<Longrightarrow> (ex \<Longrightarrow> ex') \<Longrightarrow> thread_ok chk ex' th0 th"
  by (auto simp: thread_ok_def)

lemma thread_ok_Checking:
  "thread_ok chk ex th0 th \<Longrightarrow> cur_choice th < end_choice th \<Longrightarrow> thread_ok chk ex th0 (th\<lparr>phase := Checking\<rparr>)"
  by (auto simp: thread_ok_def)

lemma thread_ok_Done:
  "thread_ok chk ex th0 th \<Longrightarrow> ex \<or> cur_choice th = end_choice th \<Longrightarrow> thread_ok chk ex th0 (th\<lparr>phase := Done\<rparr>)"
  by (auto simp: thread_ok_def)

lemma thread_ok_next:
  "thread_ok chk ex th0 th \<Longrightarrow> phase th = Checking \<Longrightarrow> chk (cur_choice th) = None \<Longrightarrow>
   thread_ok chk ex th0 (th\<lparr>cur_choice := cur_choice th + 1, phase := Testing\<rparr>)"
  by (auto simp: thread_ok_def less_Suc_eq)

lemma search_okD:
  assumes "search_ok chk ths0 st"
  shows "length (threads st) = length ths0"
    "t < length ths0 \<Longrightarrow> thread_ok chk (combination_exists st) (ths0 ! t) (threads st ! t)"
    "combination_exists st \<longleftrightarrow> found_combination st \<noteq> None"
    "found_combination st = Some r \<Longrightarrow>
       \<exists>th0 \<in> set ths0. \<exists>ch. cur_choice th0 \<le> ch \<and> ch < end_choice th0 \<and> chk ch = Some r"
  using assms unfolding search_ok_def by blast+

lemma search_ok_update:
  assumes "search_ok chk ths0 st" "t < length ths0"
    and "thread_ok chk (combination_exists st) (ths0 ! t) th"
  shows "search_ok chk ths0 (st\<lparr>threads := (threads st)[t := th]\<rparr>)"
  using assms by (auto simp: search_ok_def nth_list_update)

lemma search_ok_found:
  assumes "search_ok chk ths0 st" "t < length ths0" "\<not> combination_exists st"
    and "phase (threads st ! t) = Checking" "chk (cur_choice (threads st ! t)) = Some r"
  shows "search_ok chk ths0 (st\<lparr>combination_exists := True, found_combination := Some r\<rparr>)"
proof -
  have ok: "thread_ok chk False (ths0 ! t) (threads st ! t)"
    using search_okD(2) [OF assms(1,2)] assms(3) by simp
  then have "cur_choice (ths0 ! t) \<le> cur_choice (threads st ! t)"
    "cur_choice (threads st ! t) < end_choice (ths0 ! t)"
    using assms(4) by (auto simp: thread_ok_def)
  then have "\<exists>th0 \<in> set ths0. \<exists>ch. cur_choice th0 \<le> ch \<and> ch < end_choice th0 \<and> chk ch = Some r"
    using assms(2,5) nth_mem by blast
  then show ?thesis using assms(1) by (auto simp: search_ok_def intro: thread_ok_mono)
qed

lemma search_ok_step:
  assumes ok: "search_ok (\<lambda>ch. CheckChoice data sums ch k) ths0 st"
  shows "search_ok (\<lambda>ch. CheckChoice data sums ch k) ths0 (ThreadCheckChoices_step data sums k t st)"
proof (cases "t < length ths0")
  case False
  moreover have "length (threads st) = length ths0" using search_okD(1) [OF ok] .
  ultimately have "ThreadCheckChoices_step data sums k t st = st" by (simp add: ThreadCheckChoices_step_def)
  then show ?thesis using ok by simp
next
  case True
  let ?th = "threads st ! t"
  have len: "length (threads st) = length ths0" using search_okD(1) [OF ok] .
  have tok: "thread_ok (\<lambda>ch. CheckChoice data sums ch k) (combination_exists st) (ths0 ! t) ?th"
    by (rule search_okD(2) [OF ok True])
  show ?thesis
  proof (cases "phase ?th")
    case Testing
    have "cur_choice ?th \<le> end_choice ?th" using tok by (simp add: thread_ok_def)
    then show ?thesis
      using True len Testing search_ok_update [OF ok True] thread_ok_Checking [OF tok] thread_ok_Done [OF tok]
      by (auto simp: ThreadCheckChoices_step_def Let_def)
  next
    case Checking
    show ?thesis
    proof (cases "CheckChoice data sums (cur_choice ?th) k")
      case None
      then show ?thesis
        using True len Checking search_ok_update [OF ok True] thread_ok_next [OF tok]
        by (simp add: ThreadCheckChoices_step_def Let_def)
    next
      case (Some r)
      let ?st = "if combination_exists st then st else st\<lparr>combination_exists := True, found_combination := Some r\<rparr>"
      have ok': "search_ok (\<lambda>ch. CheckChoice data sums ch k) ths0 ?st"
        using search_ok_found [OF ok True _ Checking Some] ok by simp
      have ex: "combination_exists ?st" "threads ?st = threads st" by auto
      have "thread_ok (\<lambda>ch. CheckChoice data sums ch k) (combination_exists ?st) (ths0 ! t) (?th\<lparr>phase := Done\<rparr>)"
        by (rule thread_ok_Done [OF thread_ok_mono [OF tok]]) (use ex in simp_all)
      from search_ok_update [OF ok' True this] show ?thesis
        using True len Checking Some ex(2) by (simp add: ThreadCheckChoices_step_def Let_def)
    qed
  next
    case Done
    then show ?thesis using ok True len by (simp add: ThreadCheckChoices_step_def Let_def)
  qed
qed

lemma search_ok_run:
  "search_ok (\<lambda>ch. CheckChoice data sums ch k) ths0 st \<Longrightarrow>
   search_ok (\<lambda>ch. CheckChoice data sums ch k) ths0 (fold (ThreadCheckChoices_step data sums k) schedule st)"
  by (induction schedule arbitrary: st) (auto intro: search_ok_step)

lemma search_ok_init:
  "ths0 = threads (search_init cnt) \<Longrightarrow> (\<forall>th \<in> set ths0. cur_choice th \<le> end_choice th \<and> phase th = Testing) \<Longrightarrow>
   search_ok chk ths0 (search_init cnt)"
  by (auto simp: search_ok_def search_init_def thread_ok_def)

lemma spawn_threads_ok:
  "th \<in> set (spawn_threads n i res cpt cur) \<Longrightarrow> cur_choice th \<le> end_choice th \<and> phase th = Testing"
  by (induction n arbitrary: i cur) (auto simp: Let_def)

lemma spawn_threads_range:
  "(\<Union>th \<in> set (spawn_threads n i res cpt cur). {cur_choice th..<end_choice th}) =
   {cur..<cur + n * cpt + (min (i + n) res - min i res)}"
proof (induction n arbitrary: i cur)
  case (Suc n)
  let ?r = "if i < res then cpt + 1 else cpt"
  have join: "{cur..<cur + ?r} \<union> {cur + ?r..<cur + ?r + z} = {cur..<cur + ?r + z}" for z by auto
  have "cur + ?r + n * cpt + (min (i + 1 + n) res - min (i + 1) res) =
      cur + Suc n * cpt + (min (i + Suc n) res - min i res)"
    by (cases "i < res"; cases "i + n < res") (auto simp: min_def)
  then show ?case using Suc [of "i + 1" "cur + ?r"] join [of "n * cpt + (min (i + 1 + n) res - min (i + 1) res)"]
    by (simp add: Let_def add.assoc)
qed simp

lemma search_init_range:
  "1 \<le> cnt \<Longrightarrow> (\<Union>th \<in> set (threads (search_init cnt)). {cur_choice th..<end_choice th}) = {1..<cnt}"
proof -
  assume "1 \<le> cnt"
  have "(cnt - 1) mod kThreadCnt < kThreadCnt" by (simp add: kThreadCnt_def)
  then have "1 + kThreadCnt * ((cnt - 1) div kThreadCnt) + (min (0 + kThreadCnt) ((cnt - 1) mod kThreadCnt) -
      min 0 ((cnt - 1) mod kThreadCnt)) = cnt"
    using mult_div_mod_eq [of kThreadCnt "cnt - 1"] \<open>1 \<le> cnt\<close> by (simp add: min_def)
  then show ?thesis by (simp only: search_init_def spawn_threads_range search.simps)
qed

lemma FindSuitable_loop_cases:
  "(FindSuitable_loop data sums k cnt i = None \<longrightarrow> (\<forall>ch. i \<le> ch \<and> ch < cnt \<longrightarrow> CheckChoice data sums ch k = None)) \<and>
   (\<forall>r. FindSuitable_loop data sums k cnt i = Some r \<longrightarrow>
      (\<exists>ch. i \<le> ch \<and> ch < cnt \<and> CheckChoice data sums ch k = Some r))"
proof (induction "cnt - i" arbitrary: i)
  case 0
  then show ?case by (auto simp: FindSuitable_loop.simps [of data sums k cnt i])
next
  case (Suc n)
  note unf = FindSuitable_loop.simps [of data sums k cnt i]
  have i: "i < cnt" and n: "n = cnt - (i + 1)" using Suc(2) by auto
  show ?case
  proof (cases "CheckChoice data sums i k")
    case None
    then have eq: "FindSuitable_loop data sums k cnt i = FindSuitable_loop data sums k cnt (i + 1)"
      using unf i by simp
    have "ch = i \<or> i + 1 \<le> ch" if "i \<le> ch" for ch using that by auto
    then show ?thesis unfolding eq using Suc(1) [OF n] None by (metis add_leD1)
  next
    case (Some r)
    then have "FindSuitable_loop data sums k cnt i = Some r" using unf i by simp
    then show ?thesis using Some i by auto
  qed
qed

lemma FindSuitableCombination_cases:
  assumes "FindSuitableCombination data sums k schedule = Some found"
  shows "(found = None \<longrightarrow> (\<forall>ch. 1 \<le> ch \<and> ch < 2 ^ (length data - k) \<longrightarrow> CheckChoice data sums ch k = None)) \<and>
    (\<forall>r. found = Some r \<longrightarrow>
       (\<exists>ch. 1 \<le> ch \<and> ch < 2 ^ (length data - k) \<and> CheckChoice data sums ch k = Some r))"
proof -
  let ?cnt = "2 ^ (length data - k) :: nat"
  show ?thesis
  proof (cases "(?cnt - 1) div kThreadCnt < 8")
    case True
    then have "found = FindSuitable_loop data sums k ?cnt 1"
      using assms by (simp add: FindSuitableCombination_def Let_def)
    then show ?thesis using FindSuitable_loop_cases [of data sums k ?cnt 1] by simp
  next
    case False
    define ths0 where "ths0 = threads (search_init ?cnt)"
    define st where "st = fold (ThreadCheckChoices_step data sums k) schedule (search_init ?cnt)"
    have fin: "\<forall>th \<in> set (threads st). phase th = Done" and found: "found = found_combination st"
      using assms False by (auto simp: FindSuitableCombination_def Let_def st_def split: if_splits)
    have ok: "search_ok (\<lambda>ch. CheckChoice data sums ch k) ths0 st"
      unfolding st_def
      by (intro search_ok_run search_ok_init) (auto simp: ths0_def search_init_def dest: spawn_threads_ok)
    have range: "(\<Union>th \<in> set ths0. {cur_choice th..<end_choice th}) = {1..<?cnt}"
      unfolding ths0_def by (rule search_init_range) simp
    have "CheckChoice data sums ch k = None" if none: "found = None" and ch: "ch \<in> {1..<?cnt}" for ch
    proof -
      obtain t where t: "t < length ths0" "cur_choice (ths0 ! t) \<le> ch" "ch < end_choice (ths0 ! t)"
        using ch unfolding range [symmetric] by (auto simp: in_set_conv_nth)
      have len: "length (threads st) = length ths0" and ex: "\<not> combination_exists st"
        using search_okD(1,3) [OF ok] none found by auto
      have "thread_ok (\<lambda>ch. CheckChoice data sums ch k) False (ths0 ! t) (threads st ! t)"
        using search_okD(2) [OF ok t(1)] ex by simp
      moreover have "phase (threads st ! t) = Done" using fin t(1) len by simp
      ultimately show ?thesis using t by (auto simp: thread_ok_def)
    qed
    moreover have "\<exists>ch. ch \<in> {1..<?cnt} \<and> CheckChoice data sums ch k = Some r" if fr: "found = Some r" for r
    proof -
      obtain th0 ch where "th0 \<in> set ths0" "ch \<in> {cur_choice th0..<end_choice th0}" "CheckChoice data sums ch k = Some r"
        using search_okD(4) [OF ok, of r] found fr by fastforce
      then show ?thesis using range by blast
    qed
    ultimately show ?thesis by auto
  qed
qed

lemma solution_solvable: "solution data g \<Longrightarrow> solvable data"
  unfolding solvable_def
  by (intro exI [of _ "set (fst g)"] exI [of _ "set (snd g)"]) (auto simp: solution_def two_def total_set)

text \<open>How many steps a thread has left.\<close>

definition budget :: "search_thread \<Rightarrow> nat" where
  "budget th = (case phase th of Done \<Rightarrow> 0
     | Testing \<Rightarrow> 2 * (end_choice th - cur_choice th) + 2
     | Checking \<Rightarrow> 2 * (end_choice th - cur_choice th) + 1)"

lemma step_budget:
  assumes "search_ok (\<lambda>ch. CheckChoice data sums ch k) ths0 st" "t < length ths0"
  shows "budget (threads (ThreadCheckChoices_step data sums k u st) ! t) \<le>
    budget (threads st ! t) - (if u = t then 1 else 0)"
proof -
  let ?th = "threads st ! t"
  have len: "length (threads st) = length ths0" and
    "thread_ok (\<lambda>ch. CheckChoice data sums ch k) (combination_exists st) (ths0 ! t) ?th"
    using search_okD [OF assms(1)] assms(2) by blast+
  then have "phase ?th = Checking \<Longrightarrow> cur_choice ?th < end_choice ?th" by (simp add: thread_ok_def)
  then show ?thesis
    using len assms(2)
    by (cases "u = t"; cases "phase ?th"; cases "CheckChoice data sums (cur_choice ?th) k")
      (auto simp: ThreadCheckChoices_step_def Let_def budget_def nth_list_update split: phase.splits option.splits)
qed

lemma run_budget:
  "search_ok (\<lambda>ch. CheckChoice data sums ch k) ths0 st \<Longrightarrow> t < length ths0 \<Longrightarrow>
   budget (threads (fold (ThreadCheckChoices_step data sums k) schedule st) ! t) \<le>
   budget (threads st ! t) - count_list schedule t"
proof (induction schedule arbitrary: st)
  case (Cons u schedule)
  have "budget (threads (fold (ThreadCheckChoices_step data sums k) schedule (ThreadCheckChoices_step data sums k u st)) ! t)
      \<le> budget (threads (ThreadCheckChoices_step data sums k u st) ! t) - count_list schedule t"
    by (rule Cons(1) [OF search_ok_step [OF Cons(2)] Cons(3)])
  then show ?case using step_budget [OF Cons(2,3), of u] by (auto split: if_splits)
qed simp

lemma spawn_threads_budget:
  "th \<in> set (spawn_threads n i res cpt cur) \<Longrightarrow> budget th \<le> 2 * (cpt + 1) + 2"
  by (induction n arbitrary: i cur) (auto simp: Let_def budget_def)

lemma length_spawn_threads [simp]: "length (spawn_threads n i res cpt cur) = n"
  by (induction n arbitrary: i cur) (auto simp: Let_def)

lemma FindSuitableCombination_returns:
  assumes "\<forall>t < kThreadCnt. 2 * 2 ^ length data + 4 \<le> count_list schedule t"
  shows "\<exists>found. FindSuitableCombination data sums k schedule = Some found"
proof -
  let ?cnt = "2 ^ (length data - k) :: nat"
  define ths0 where "ths0 = threads (search_init ?cnt)"
  define st where "st = fold (ThreadCheckChoices_step data sums k) schedule (search_init ?cnt)"
  have ok0: "search_ok (\<lambda>ch. CheckChoice data sums ch k) ths0 (search_init ?cnt)"
    by (intro search_ok_init) (auto simp: ths0_def search_init_def dest: spawn_threads_ok)
  have len: "length ths0 = kThreadCnt" by (simp add: ths0_def search_init_def)
  have len': "length (threads st) = kThreadCnt"
    using search_okD(1) [OF search_ok_run [OF ok0]] len by (simp add: st_def)
  have "phase (threads st ! t) = Done" if t: "t < kThreadCnt" for t
  proof -
    have "ths0 ! t \<in> set ths0" using t len by simp
    then have "budget (ths0 ! t) \<le> 2 * ((?cnt - 1) div kThreadCnt + 1) + 2"
      unfolding ths0_def search_init_def by (auto dest: spawn_threads_budget)
    also have "\<dots> \<le> 2 * ?cnt + 4"
      using le_trans [OF div_le_dividend [of "?cnt - 1" kThreadCnt] diff_le_self] by simp
    also have "\<dots> \<le> 2 * 2 ^ length data + 4" by simp
    finally have "budget (threads st ! t) = 0"
      using run_budget [OF ok0, of t schedule] t len assms
      by (fastforce simp: st_def ths0_def)
    then show ?thesis by (simp add: budget_def split: phase.splits)
  qed
  then have "\<forall>th \<in> set (threads st). phase th = Done" using len' by (auto simp: in_set_conv_nth)
  then show ?thesis unfolding FindSuitableCombination_def Let_def st_def [symmetric] by auto
qed

definition answer_ok :: "int list \<Rightarrow> Subsets \<Rightarrow> bool" where
  "answer_ok data r \<longleftrightarrow>
    (subsets_exist r \<longleftrightarrow> solvable data) \<and>
    (subsets_exist r \<longrightarrow> solution data (first_indices r, second_indices r))"

lemma FindEqualSum_split:
  assumes "length data \<le> 62" "2 \<le> length data"
  obtains k m where "k = (if 2 < length data then length data div 2 else 1)"
    "k \<le> 64" "m \<le> 64" "k + m = length data" "m = length data - k"
  using assms by (cases "2 < length data") (auto intro: that)

lemma solvable_length: "solvable data \<Longrightarrow> 2 \<le> length data"
proof -
  assume "solvable data"
  then obtain A B where AB: "A \<noteq> {}" "B \<noteq> {}" "A \<inter> B = {}" "A \<union> B \<subseteq> {..<length data}"
    unfolding solvable_def by blast
  then obtain a b where "a \<in> A" "b \<in> B" "a \<noteq> b" by blast
  then have "a < length data" "b < length data" using AB(4) by auto
  then show ?thesis using \<open>a \<noteq> b\<close> by linarith
qed

lemma zero_found_answer:
  assumes cov: "covers data V sums" "V \<subseteq> half_pairs k" and k: "k \<le> 64" "k \<le> length data" and z: "zero_found sums"
  shows "solution data (MakeSubsets (the (sums 0)) 0)"
proof -
  obtain x where x: "sums 0 = Some x" "hasTwoGroups x" using z by (auto simp: zero_found_def split: option.splits)
  obtain c i where c: "c < 2 ^ k" "x = comb_of c i" "0 = diff_sum data (group_of 0 c i)"
    using covers_entry [OF cov x(1)] by metis
  have "solution data (merged (group_of 0 c i) (groups [] (\<lambda>_. False)))"
    using indices_props [OF c(1) k(1), of 0] c x(2) k(2)
    by (intro merged_solution) (auto simp: groups_Nil diff_sum_def total_def subset_eq)
  then show ?thesis using x c(2) by (simp add: MakeSubsets_groups merged_def groups_Nil)
qed

section \<open>Properties\<close>



text \<open>
  The search always returns: under any schedule that gives each of the eight threads enough
  steps, every thread reaches the end of its choices or sees the flag, and the join completes.
\<close>
theorem FindEqualSumSubsets_returns:
  "\<forall>t < kThreadCnt. 2 * 2 ^ length data + 4 \<le> count_list schedule t \<Longrightarrow>
   \<exists>r. FindEqualSumSubsets data schedule = Some r"
  using FindSuitableCombination_returns [of data schedule]
  by (fastforce simp: FindEqualSumSubsets_def Let_def split_beta)

theorem FindEqualSumSubsets_returns_witness:
  "\<exists>r. FindEqualSumSubsets [5, 5] (concat (replicate 12 [0..<8])) = Some r"
proof (rule FindEqualSumSubsets_returns)
  have "\<forall>t \<in> {..<8}. 12 \<le> count_list (concat (replicate 12 [0..<8])) t" by code_simp
  then show "\<forall>t < kThreadCnt. 2 * 2 ^ length [5, 5 :: int] + 4 \<le> count_list (concat (replicate 12 [0..<8])) t"
    by (simp add: kThreadCnt_def)
qed

end
