(* ===== verification/Executor.thy ===== *)
theory Executor
  imports Prelude
begin

text \<open>
  \<open>executor/executor\<close>: tasks with dependencies, triggers and deadlines, the queues of the thread pool,
  and the futures built on them.  Tasks are the cells of a store, addressed by number; a
  \<open>shared_ptr\<close> or \<open>weak_ptr\<close> to a task is its address, and \<open>expired\<close> marks a task that no
  \<open>shared_ptr\<close> keeps alive.  Every public operation and every critical section of a worker is one
  step; the executor's steps are interleaved arbitrarily by \<open>exec_step\<close>.

  \<open>OnFinished\<close>, \<open>TryToEnque\<close>, \<open>Enque\<close>, \<open>Push\<close> and \<open>Cancel\<close> call each other: once the queue is
  closed, finishing a task cancels the tasks that waited for it.  The recursion takes fuel (its depth),
  and \<open>None\<close> is a run out of fuel; \<open>OnFinished_returns\<close> shows that the number of allocated tasks is
  enough.  What a future computes is a \<open>job\<close>: the outcome of the caller's function, or one of the
  three combinators of the executor over other futures.
\<close>

section \<open>Tasks\<close>

datatype TaskStates = Created | Submitted | Enqueued | Completed | Failed | Canceled

datatype fut_value = VUnit | VInt int | VList "fut_value list"

datatype job =
    Invoked "fut_value result"
  | JoinAll "nat list"
  | JoinFirst "nat list"
  | JoinReady "nat list"

record Task =
  state :: TaskStates
  queue_set :: bool
  dependencies :: "nat list"
  depended :: "nat list"
  dependecies_cnt :: nat
  has_dependencies :: bool
  triggers :: "nat list"
  triggered :: "nat list"
  has_triggers :: bool
  triggers_activated :: bool
  start_at :: int
  has_time_trigger :: bool
  exc_ptr :: "exn option"
  func :: job
  future_result :: fut_value
  expired :: bool

record Executor =
  tasks :: "nat \<Rightarrow> Task"
  next_task :: nat
  queue :: "nat list"
  closed :: bool
  queue_alive :: bool
  timer_queue :: "nat list"
  timer_closed :: bool

definition new_task :: "job \<Rightarrow> Task" where
  "new_task j =
    \<lparr>state = Created, queue_set = False, dependencies = [], depended = [], dependecies_cnt = 0,
     has_dependencies = False, triggers = [], triggered = [], has_triggers = False,
     triggers_activated = False, start_at = 0, has_time_trigger = False, exc_ptr = None,
     func = j, future_result = VUnit, expired = False\<rparr>"

definition Executor_init :: Executor where
  "Executor_init =
    \<lparr>tasks = (\<lambda>_. new_task (Invoked (Inr VUnit))), next_task = 0, queue = [], closed = False,
     queue_alive = True, timer_queue = [], timer_closed = False\<rparr>"

definition upd :: "nat \<Rightarrow> (Task \<Rightarrow> Task) \<Rightarrow> Executor \<Rightarrow> Executor" where
  "upd t f w = w\<lparr>tasks := (tasks w)(t := f (tasks w t))\<rparr>"

definition make_future :: "job \<Rightarrow> Executor \<Rightarrow> nat \<times> Executor" where
  "make_future j w =
    (next_task w, w\<lparr>tasks := (tasks w)(next_task w := new_task j), next_task := next_task w + 1\<rparr>)"

fun finished :: "TaskStates \<Rightarrow> bool" where
  "finished Created = False"
| "finished Submitted = False"
| "finished Enqueued = False"
| "finished Completed = True"
| "finished Failed = True"
| "finished Canceled = True"

definition IsEnqued :: "nat \<Rightarrow> Executor \<Rightarrow> bool" where
  "IsEnqued t w \<longleftrightarrow> state (tasks w t) = Enqueued"

definition IsCompleted :: "nat \<Rightarrow> Executor \<Rightarrow> bool" where
  "IsCompleted t w \<longleftrightarrow> state (tasks w t) = Completed"

definition IsFailed :: "nat \<Rightarrow> Executor \<Rightarrow> bool" where
  "IsFailed t w \<longleftrightarrow> state (tasks w t) = Failed"

definition IsCanceled :: "nat \<Rightarrow> Executor \<Rightarrow> bool" where
  "IsCanceled t w \<longleftrightarrow> state (tasks w t) = Canceled"

definition IsFinished :: "nat \<Rightarrow> Executor \<Rightarrow> bool" where
  "IsFinished t w \<longleftrightarrow> finished (state (tasks w t))"

definition AddDepended :: "nat \<Rightarrow> nat \<Rightarrow> Executor \<Rightarrow> Executor" where
  "AddDepended this dep w =
    (if \<not> IsFinished this w then
       upd this (\<lambda>x. x\<lparr>depended := depended x @ [dep]\<rparr>)
         (upd dep (\<lambda>x. x\<lparr>dependecies_cnt := dependecies_cnt x + 1\<rparr>) w)
     else w)"

definition AddDependency :: "nat \<Rightarrow> nat \<Rightarrow> Executor \<Rightarrow> Executor" where
  "AddDependency this dep w =
    upd this (\<lambda>x. x\<lparr>dependencies := dependencies x @ [dep], has_dependencies := True\<rparr>)
      (AddDepended dep this w)"

definition AddTriggered :: "nat \<Rightarrow> nat \<Rightarrow> Executor \<Rightarrow> Executor" where
  "AddTriggered this dep w =
    (if \<not> IsFinished this w then upd this (\<lambda>x. x\<lparr>triggered := triggered x @ [dep]\<rparr>) w
     else upd dep (\<lambda>x. x\<lparr>triggers_activated := True\<rparr>) w)"

definition AddTrigger :: "nat \<Rightarrow> nat \<Rightarrow> Executor \<Rightarrow> Executor" where
  "AddTrigger this dep w =
    upd this (\<lambda>x. x\<lparr>triggers := triggers x @ [dep], has_triggers := True\<rparr>)
      (AddTriggered dep this w)"

definition SetTimeTrigger :: "nat \<Rightarrow> int \<Rightarrow> Executor \<Rightarrow> Executor" where
  "SetTimeTrigger this at w = upd this (\<lambda>x. x\<lparr>has_time_trigger := True, start_at := at\<rparr>) w"

definition SetError :: "nat \<Rightarrow> exn \<Rightarrow> Executor \<Rightarrow> Executor" where
  "SetError this e w = upd this (\<lambda>x. x\<lparr>exc_ptr := Some e\<rparr>) w"

definition GetError :: "nat \<Rightarrow> Executor \<Rightarrow> exn option" where
  "GetError this w = (if IsFailed this w then exc_ptr (tasks w this) else None)"

definition IsReadyToEnque :: "Task \<Rightarrow> bool" where
  "IsReadyToEnque x =
    (if has_triggers x \<and> triggers_activated x then True
     else if has_dependencies x \<and> dependecies_cnt x = 0 then True
     else \<not> has_triggers x \<and> \<not> has_dependencies x \<and> \<not> has_time_trigger x)"

section \<open>Enqueueing and finishing\<close>

text \<open>The first argument of the next operations is the nested call of \<open>OnFinished\<close>.\<close>

definition set_state :: "TaskStates \<Rightarrow> nat \<Rightarrow> Executor \<Rightarrow> Executor" where
  "set_state s t w = upd t (\<lambda>x. x\<lparr>state := s\<rparr>) w"

definition Cancel_with :: "(nat \<Rightarrow> Executor \<Rightarrow> Executor option) \<Rightarrow> nat \<Rightarrow> Executor \<Rightarrow> Executor option" where
  "Cancel_with on_finished this w = on_finished this (set_state Canceled this w)"

definition TasksQueue_Push ::
  "(nat \<Rightarrow> Executor \<Rightarrow> Executor option) \<Rightarrow> nat \<Rightarrow> Executor \<Rightarrow> Executor option" where
  "TasksQueue_Push on_finished task w =
    (if \<not> closed w then Some (w\<lparr>queue := queue w @ [task]\<rparr>) else Cancel_with on_finished task w)"

definition Enque :: "(nat \<Rightarrow> Executor \<Rightarrow> Executor option) \<Rightarrow> nat \<Rightarrow> Executor \<Rightarrow> Executor option" where
  "Enque on_finished this w =
    (if queue_set (tasks w this) \<and> queue_alive w then
       if state (tasks w this) = Submitted then
         TasksQueue_Push on_finished this
           (upd this (\<lambda>x. x\<lparr>state := Enqueued, dependencies := [], triggers := []\<rparr>) w)
       else Some w
     else Some w)"

definition TryToEnque ::
  "(nat \<Rightarrow> Executor \<Rightarrow> Executor option) \<Rightarrow> nat \<Rightarrow> Executor \<Rightarrow> Executor option" where
  "TryToEnque on_finished this w =
    (if state (tasks w this) \<noteq> Submitted then Some w
     else if IsReadyToEnque (tasks w this) then Enque on_finished this w
     else Some w)"

definition notify_depended ::
  "(nat \<Rightarrow> Executor \<Rightarrow> Executor option) \<Rightarrow> nat \<Rightarrow> Executor \<Rightarrow> Executor option" where
  "notify_depended on_finished task w =
    (if \<not> expired (tasks w task) then
       TryToEnque on_finished task
         (upd task (\<lambda>x. x\<lparr>dependecies_cnt := dependecies_cnt x - 1\<rparr>) w)
     else Some w)"

definition notify_triggered ::
  "(nat \<Rightarrow> Executor \<Rightarrow> Executor option) \<Rightarrow> nat \<Rightarrow> Executor \<Rightarrow> Executor option" where
  "notify_triggered on_finished task w =
    (if \<not> expired (tasks w task) then
       TryToEnque on_finished task (upd task (\<lambda>x. x\<lparr>triggers_activated := True\<rparr>) w)
     else Some w)"

fun foldM :: "('a \<Rightarrow> 's \<Rightarrow> 's option) \<Rightarrow> 'a list \<Rightarrow> 's \<Rightarrow> 's option" where
  "foldM f [] s = Some s"
| "foldM f (x # xs) s = Option.bind (f x s) (foldM f xs)"

primrec OnFinished_fuel :: "nat \<Rightarrow> nat \<Rightarrow> Executor \<Rightarrow> Executor option" where
  "OnFinished_fuel 0 this w = None"
| "OnFinished_fuel (Suc n) this w =
    Option.bind (foldM (notify_depended (OnFinished_fuel n)) (depended (tasks w this)) w) (\<lambda>w.
    let w = upd this (\<lambda>x. x\<lparr>depended := []\<rparr>) w
    in Option.bind (foldM (notify_triggered (OnFinished_fuel n)) (triggered (tasks w this)) w)
         (\<lambda>w. Some (upd this (\<lambda>x. x\<lparr>triggered := []\<rparr>) w)))"

definition OnFinished :: "nat \<Rightarrow> Executor \<Rightarrow> Executor option" where
  "OnFinished this w = OnFinished_fuel (next_task w + 2) this w"

definition Submit :: "nat \<Rightarrow> Executor \<Rightarrow> Executor option" where
  "Submit this w =
    (let w = upd this (\<lambda>x. x\<lparr>queue_set := True\<rparr>) w
     in if state (tasks w this) = Created then TryToEnque OnFinished this (set_state Submitted this w)
        else Some w)"

definition Complete :: "nat \<Rightarrow> Executor \<Rightarrow> Executor option" where
  "Complete this w = OnFinished this (set_state Completed this w)"

definition Fail :: "nat \<Rightarrow> Executor \<Rightarrow> Executor option" where
  "Fail this w = OnFinished this (set_state Failed this w)"

definition Cancel :: "nat \<Rightarrow> Executor \<Rightarrow> Executor option" where
  "Cancel this w = OnFinished this (set_state Canceled this w)"

text \<open>\<open>Wait\<close> returns once the task is finished; before that it blocks (\<open>None\<close>).\<close>

definition Wait :: "nat \<Rightarrow> Executor \<Rightarrow> unit option" where
  "Wait this w = (if IsFinished this w then Some () else None)"

section \<open>Queues\<close>

datatype pop_result = Blocked | NoTask | Popped nat

definition TasksQueue_Pop :: "Executor \<Rightarrow> pop_result \<times> Executor" where
  "TasksQueue_Pop w =
    (case queue w of
       [] \<Rightarrow> (if closed w then NoTask else Blocked, w)
     | task # rest \<Rightarrow> (Popped task, w\<lparr>queue := rest\<rparr>))"

definition TasksQueue_Close :: "Executor \<Rightarrow> Executor option" where
  "TasksQueue_Close w =
    (if \<not> closed w then foldM Cancel (queue w) (w\<lparr>closed := True\<rparr>) else Some w)"

definition TimerQueue_Push :: "nat \<Rightarrow> Executor \<Rightarrow> Executor option" where
  "TimerQueue_Push task w =
    (if \<not> timer_closed w then Some (w\<lparr>timer_queue := timer_queue w @ [task]\<rparr>) else Cancel task w)"

text \<open>
  The front of the heap \<open>push_heap\<close> and \<open>pop_heap\<close> keep under \<open>Compare\<close>: a task with the earliest
  start; among equal ones the standard leaves the choice open, and the model takes the oldest.
\<close>

definition TimerQueue_Compare :: "Executor \<Rightarrow> nat \<Rightarrow> nat \<Rightarrow> bool" where
  "TimerQueue_Compare w task1 task2 \<longleftrightarrow> start_at (tasks w task1) > start_at (tasks w task2)"

fun timer_front :: "Executor \<Rightarrow> nat \<Rightarrow> nat list \<Rightarrow> nat" where
  "timer_front w best [] = best"
| "timer_front w best (t # ts) = timer_front w (if TimerQueue_Compare w best t then t else best) ts"

definition TimerQueue_Pop :: "int \<Rightarrow> Executor \<Rightarrow> pop_result \<times> Executor" where
  "TimerQueue_Pop now w =
    (case timer_queue w of
       [] \<Rightarrow> (if timer_closed w then NoTask else Blocked, w)
     | t # ts \<Rightarrow>
         let front = timer_front w t ts
         in if now < start_at (tasks w front) then (Blocked, w)
            else (Popped front, w\<lparr>timer_queue := remove1 front (timer_queue w)\<rparr>))"

definition TimerQueue_Close :: "Executor \<Rightarrow> Executor option" where
  "TimerQueue_Close w =
    (if \<not> timer_closed w then foldM Cancel (timer_queue w) (w\<lparr>timer_closed := True\<rparr>) else Some w)"

section \<open>The executor\<close>

definition Executor_Submit :: "nat \<Rightarrow> Executor \<Rightarrow> Executor option" where
  "Executor_Submit task w =
    Option.bind (Submit task w) (\<lambda>w.
      if \<not> (IsEnqued task w \<or> IsFinished task w) \<and> has_time_trigger (tasks w task)
      then TimerQueue_Push task w else Some w)"

definition StartShutdown :: "Executor \<Rightarrow> Executor option" where
  "StartShutdown w = Option.bind (TasksQueue_Close w) TimerQueue_Close"

section \<open>Futures\<close>

text \<open>\<open>None\<close>: the call blocks.  A canceled future yields the default value \<open>T()\<close>.\<close>

definition Future_Get :: "fut_value \<Rightarrow> nat \<Rightarrow> Executor \<Rightarrow> fut_value result option" where
  "Future_Get dflt this w =
    Option.bind (Wait this w) (\<lambda>_.
      if IsCompleted this w then Some (Inr (future_result (tasks w this)))
      else if IsFailed this w
      then Some (Inl (case GetError this w of Some e \<Rightarrow> e | None \<Rightarrow> StdException))
      else Some (Inr dflt))"

fun get_all :: "nat list \<Rightarrow> fut_value list \<Rightarrow> Executor \<Rightarrow> fut_value result option" where
  "get_all [] res w = Some (Inr (VList res))"
| "get_all (fut # futs) res w =
    Option.bind (Future_Get VUnit fut w)
      (\<lambda>r. case r of Inl e \<Rightarrow> Some (Inl e) | Inr v \<Rightarrow> get_all futs (res @ [v]) w)"

fun get_first :: "nat list \<Rightarrow> Executor \<Rightarrow> fut_value result option" where
  "get_first [] w = Some (Inr VUnit)"
| "get_first (fut # futs) w =
    (if IsFinished fut w then Future_Get VUnit fut w else get_first futs w)"

definition Future_Run :: "nat \<Rightarrow> Executor \<Rightarrow> fut_value result option" where
  "Future_Run this w =
    (case func (tasks w this) of
       Invoked r \<Rightarrow> Some r
     | JoinAll futs \<Rightarrow> get_all futs [] w
     | JoinFirst futs \<Rightarrow> get_first futs w
     | JoinReady futs \<Rightarrow> get_all (filter (\<lambda>fut. IsFinished fut w) futs) [] w)"

definition Invoke :: "fut_value result \<Rightarrow> Executor \<Rightarrow> Executor option" where
  "Invoke fn w = (let (fut, w) = make_future (Invoked fn) w in Executor_Submit fut w)"

definition Then :: "nat \<Rightarrow> fut_value result \<Rightarrow> Executor \<Rightarrow> Executor option" where
  "Then input fn w =
    (let (fut, w) = make_future (Invoked fn) w in Executor_Submit fut (AddDependency fut input w))"

definition WhenAll :: "nat list \<Rightarrow> Executor \<Rightarrow> Executor option" where
  "WhenAll all w =
    (let (fut, w) = make_future (JoinAll all) w
     in Executor_Submit fut (fold (AddDependency fut) all w))"

definition WhenFirst :: "nat list \<Rightarrow> Executor \<Rightarrow> Executor option" where
  "WhenFirst all w =
    (let (fut, w) = make_future (JoinFirst all) w
     in Executor_Submit fut (fold (AddTrigger fut) all w))"

definition WhenAllBeforeDeadline :: "nat list \<Rightarrow> int \<Rightarrow> Executor \<Rightarrow> Executor option" where
  "WhenAllBeforeDeadline all deadline w =
    (let (fut, w) = make_future (JoinReady all) w
     in Executor_Submit fut (SetTimeTrigger fut deadline w))"

section \<open>The threads\<close>

text \<open>
  A worker pops a task and, unless it is canceled, runs it; \<open>running\<close> are the tasks between the two,
  \<open>started\<close> records every task whose \<open>Run\<close> has begun.  \<open>None\<close> in \<open>worker_finish\<close>: \<open>Run\<close> blocks.
\<close>

record System =
  exec :: Executor
  running :: "nat list"
  started :: "nat list"

definition worker_pop :: "System \<Rightarrow> System" where
  "worker_pop s =
    (let (r, w) = TasksQueue_Pop (exec s)
     in case r of
          Popped task \<Rightarrow>
            if IsCanceled task w then s\<lparr>exec := w\<rparr>
            else s\<lparr>exec := w, running := running s @ [task], started := started s @ [task]\<rparr>
        | _ \<Rightarrow> s)"

definition worker_finish :: "nat \<Rightarrow> Executor \<Rightarrow> Executor option" where
  "worker_finish task w =
    Option.bind (Future_Run task w) (\<lambda>r.
      case r of
        Inr v \<Rightarrow> Complete task (upd task (\<lambda>x. x\<lparr>future_result := v\<rparr>) w)
      | Inl e \<Rightarrow> Fail task (SetError task e w))"

definition timer_thread :: "int \<Rightarrow> Executor \<Rightarrow> Executor option" where
  "timer_thread now w =
    (let (r, w) = TimerQueue_Pop now w
     in case r of
          Popped task \<Rightarrow> if IsCanceled task w then Some w else Enque OnFinished task w
        | _ \<Rightarrow> Some w)"

definition System_init :: System where
  "System_init = \<lparr>exec = Executor_init, running = [], started = []\<rparr>"

text \<open>A task the caller may still use: allocated and kept alive by a \<open>shared_ptr\<close>.\<close>

definition live :: "nat \<Rightarrow> Executor \<Rightarrow> bool" where
  "live t w \<longleftrightarrow> t < next_task w \<and> \<not> expired (tasks w t)"

definition unreferenced :: "nat \<Rightarrow> System \<Rightarrow> bool" where
  "unreferenced t s \<longleftrightarrow>
    t \<notin> set (queue (exec s)) \<and> t \<notin> set (timer_queue (exec s)) \<and> t \<notin> set (running s)"

inductive exec_step :: "System \<Rightarrow> System \<Rightarrow> bool" where
  step_task: "make_future j (exec s) = (t, w) \<Longrightarrow> \<forall>ids. j \<noteq> JoinAll ids \<Longrightarrow> exec_step s (s\<lparr>exec := w\<rparr>)"
| step_AddDependency:
    "live t (exec s) \<Longrightarrow> live d (exec s) \<Longrightarrow> state (tasks (exec s) t) = Created \<Longrightarrow>
     exec_step s (s\<lparr>exec := AddDependency t d (exec s)\<rparr>)"
| step_AddTrigger:
    "live t (exec s) \<Longrightarrow> live d (exec s) \<Longrightarrow> state (tasks (exec s) t) = Created \<Longrightarrow>
     exec_step s (s\<lparr>exec := AddTrigger t d (exec s)\<rparr>)"
| step_SetTimeTrigger:
    "live t (exec s) \<Longrightarrow> state (tasks (exec s) t) = Created \<Longrightarrow>
     exec_step s (s\<lparr>exec := SetTimeTrigger t at (exec s)\<rparr>)"
| step_Submit:
    "live t (exec s) \<Longrightarrow> Executor_Submit t (exec s) = Some w \<Longrightarrow> exec_step s (s\<lparr>exec := w\<rparr>)"
| step_Cancel:
    "live t (exec s) \<Longrightarrow> Cancel t (exec s) = Some w \<Longrightarrow> exec_step s (s\<lparr>exec := w\<rparr>)"
| step_WhenAll:
    "\<forall>d \<in> set ids. live d (exec s) \<Longrightarrow> WhenAll ids (exec s) = Some w \<Longrightarrow> exec_step s (s\<lparr>exec := w\<rparr>)"
| step_worker_pop: "exec_step s (worker_pop s)"
| step_worker_finish:
    "t \<in> set (running s) \<Longrightarrow> worker_finish t (exec s) = Some w \<Longrightarrow>
     exec_step s (s\<lparr>exec := w, running := remove1 t (running s)\<rparr>)"
| step_timer: "timer_thread now (exec s) = Some w \<Longrightarrow> exec_step s (s\<lparr>exec := w\<rparr>)"
| step_StartShutdown: "StartShutdown (exec s) = Some w \<Longrightarrow> exec_step s (s\<lparr>exec := w\<rparr>)"
| step_destroy:
    "closed (exec s) \<Longrightarrow> queue (exec s) = [] \<Longrightarrow> running s = [] \<Longrightarrow>
     exec_step s (s\<lparr>exec := (exec s)\<lparr>queue_alive := False\<rparr>\<rparr>)"
| step_release:
    "live t (exec s) \<Longrightarrow> unreferenced t s \<Longrightarrow>
     exec_step s (s\<lparr>exec := upd t (\<lambda>x. x\<lparr>expired := True\<rparr>) (exec s)\<rparr>)"

abbreviation reachable :: "System \<Rightarrow> bool" where
  "reachable s \<equiv> exec_step\<^sup>*\<^sup>* System_init s"

end
