(* ===== verification/Executor_Invariant.thy ===== *)
theory Executor_Invariant
  imports Executor
begin

text \<open>
  What the executor guarantees under every interleaving of its callers and threads.
  \<open>finish_relation\<close> is the interface of the mutually recursive finishing code: a relation that holds
  for each elementary update holds for every nested call; \<open>evolves\<close> is its main instance.
  \<open>exec_inv\<close> says that the dependency counters are exact and that a \<open>WhenAll\<close> future is enqueued
  only after its inputs; \<open>system_inv\<close> adds the queues and the workers and holds in every reachable
  state.
\<close>

section \<open>Relations every nested call keeps\<close>

lemma upd_simps [simp]:
  "tasks (upd t f w) u = (if u = t then f (tasks w t) else tasks w u)"
  "next_task (upd t f w) = next_task w" "queue (upd t f w) = queue w" "closed (upd t f w) = closed w"
  "queue_alive (upd t f w) = queue_alive w" "timer_queue (upd t f w) = timer_queue w"
  "timer_closed (upd t f w) = timer_closed w"
  by (simp_all add: upd_def)

lemma upd_queue [simp]: "tasks (w\<lparr>queue := q\<rparr>) = tasks w"
  by simp

lemma foldM_rel:
  assumes "\<And>w. P w w" "\<And>u v w. P u v \<Longrightarrow> P v w \<Longrightarrow> P u w"
    and "\<And>x w w'. x \<in> set xs \<Longrightarrow> f x w = Some w' \<Longrightarrow> P w w'"
  shows "foldM f xs w = Some w' \<Longrightarrow> P w w'"
  using assms(3)
proof (induction xs arbitrary: w)
  case (Cons x xs)
  then obtain v where "f x w = Some v" "foldM f xs v = Some w'"
    by (auto simp: Option.bind_eq_Some_conv)
  then show ?case using Cons assms(2) by (meson list.set_intros)
qed (simp add: assms(1))

lemma foldM_total:
  assumes "\<And>x w. x \<in> set xs \<Longrightarrow> Q w \<Longrightarrow> \<exists>w'. f x w = Some w' \<and> Q w'"
  shows "Q w \<Longrightarrow> \<exists>w'. foldM f xs w = Some w' \<and> Q w'"
  using assms
proof (induction xs arbitrary: w)
  case (Cons x xs)
  obtain v where "f x w = Some v" "Q v" using Cons(2,3) by (meson list.set_intros(1))
  then show ?case using Cons by (simp add: Option.bind_eq_Some_conv)
qed simp

text \<open>What \<open>Enque\<close> does to the task before the push.\<close>

definition enqueued :: "nat \<Rightarrow> Executor \<Rightarrow> Executor" where
  "enqueued t w = upd t (\<lambda>x. x\<lparr>state := Enqueued, dependencies := [], triggers := []\<rparr>) w"

lemma enqueued_simps [simp]:
  "tasks (enqueued t w) u = (if u = t then (tasks w t)\<lparr>state := Enqueued, dependencies := [], triggers := []\<rparr> else tasks w u)"
  "next_task (enqueued t w) = next_task w" "queue (enqueued t w) = queue w" "closed (enqueued t w) = closed w"
  "queue_alive (enqueued t w) = queue_alive w" "timer_queue (enqueued t w) = timer_queue w"
  "timer_closed (enqueued t w) = timer_closed w"
  by (simp_all add: enqueued_def)

lemma set_state_simps [simp]:
  "tasks (set_state s t w) u = (if u = t then (tasks w t)\<lparr>state := s\<rparr> else tasks w u)"
  "next_task (set_state s t w) = next_task w" "queue (set_state s t w) = queue w"
  "closed (set_state s t w) = closed w" "queue_alive (set_state s t w) = queue_alive w"
  "timer_queue (set_state s t w) = timer_queue w" "timer_closed (set_state s t w) = timer_closed w"
  by (simp_all add: set_state_def)

lemma Enque_cases:
  assumes "Enque f t w = Some w'"
  obtains (skip) "w' = w"
    | (push) "state (tasks w t) = Submitted" "\<not> closed w" "w' = (enqueued t w)\<lparr>queue := queue w @ [t]\<rparr>"
    | (cancel) "state (tasks w t) = Submitted" "closed w" "f t (set_state Canceled t (enqueued t w)) = Some w'"
proof (cases "queue_set (tasks w t) \<and> queue_alive w \<and> state (tasks w t) = Submitted")
  case True
  show ?thesis
  proof (cases "closed w")
    case False
    then have "w' = (enqueued t w)\<lparr>queue := queue w @ [t]\<rparr>"
      using assms True by (simp add: Enque_def TasksQueue_Push_def enqueued_def)
    then show ?thesis using push True False by blast
  next
    case c: True
    then have "f t (set_state Canceled t (enqueued t w)) = Some w'"
      using assms True by (simp add: Enque_def TasksQueue_Push_def Cancel_with_def enqueued_def)
    then show ?thesis using cancel True c by blast
  qed
next
  case False
  then have "w' = w" using assms by (simp add: Enque_def split: if_splits)
  then show ?thesis by (rule skip)
qed

lemma TryToEnque_cases:
  assumes "TryToEnque f t w = Some w'"
  obtains (skip) "w' = w"
    | (enque) "state (tasks w t) = Submitted" "IsReadyToEnque (tasks w t)" "Enque f t w = Some w'"
  using assms by (auto simp: TryToEnque_def split: if_splits)

locale finish_relation =
  fixes P :: "Executor \<Rightarrow> Executor \<Rightarrow> bool"
  assumes P_refl: "P w w"
    and P_trans: "P u v \<Longrightarrow> P v w \<Longrightarrow> P u w"
    and P_count: "P w (upd t (\<lambda>x. x\<lparr>dependecies_cnt := k\<rparr>) w)"
    and P_activate: "P w (upd t (\<lambda>x. x\<lparr>triggers_activated := True\<rparr>) w)"
    and P_clear: "P w (upd t (\<lambda>x. x\<lparr>depended := []\<rparr>) w)" "P w (upd t (\<lambda>x. x\<lparr>triggered := []\<rparr>) w)"
    and P_push: "state (tasks w t) = Submitted \<Longrightarrow> \<not> closed w \<Longrightarrow> P w ((enqueued t w)\<lparr>queue := queue w @ [t]\<rparr>)"
    and P_cancel: "state (tasks w t) = Submitted \<Longrightarrow> closed w \<Longrightarrow> P w (set_state Canceled t (enqueued t w))"
begin

lemma Enque_rel:
  assumes "\<And>t w w'. f t w = Some w' \<Longrightarrow> P w w'" "Enque f t w = Some w'"
  shows "P w w'"
  using assms(2)
proof (cases rule: Enque_cases)
  case cancel
  then show ?thesis using P_cancel assms(1) P_trans by blast
qed (auto intro: P_refl P_push)

lemma TryToEnque_rel:
  assumes "\<And>t w w'. f t w = Some w' \<Longrightarrow> P w w'" "TryToEnque f t w = Some w'"
  shows "P w w'"
  using assms(2) by (cases rule: TryToEnque_cases) (auto intro: P_refl Enque_rel [OF assms(1)])

lemma notify_rel:
  assumes f: "\<And>t w w'. f t w = Some w' \<Longrightarrow> P w w'"
  shows "notify_depended f t w = Some w' \<Longrightarrow> P w w'" "notify_triggered f t w = Some w' \<Longrightarrow> P w w'"
proof -
  show "notify_depended f t w = Some w' \<Longrightarrow> P w w'"
    using P_trans [OF P_count [of w t "dependecies_cnt (tasks w t) - 1"] TryToEnque_rel [where f = f and t = t, OF f]] P_refl
    by (auto simp: notify_depended_def upd_def split: if_splits)
  show "notify_triggered f t w = Some w' \<Longrightarrow> P w w'"
    using P_trans [OF P_activate [of w t] TryToEnque_rel [where f = f and t = t, OF f]] P_refl
    by (auto simp: notify_triggered_def upd_def split: if_splits)
qed

lemma OnFinished_fuel_rel: "OnFinished_fuel n t w = Some w' \<Longrightarrow> P w w'"
proof (induction n arbitrary: t w w')
  case (Suc n)
  let ?clear = "upd t (\<lambda>x. x\<lparr>depended := []\<rparr>)"
  obtain v v' where v: "foldM (notify_depended (OnFinished_fuel n)) (depended (tasks w t)) w = Some v"
    "foldM (notify_triggered (OnFinished_fuel n)) (triggered (tasks (?clear v) t)) (?clear v) = Some v'"
    "w' = upd t (\<lambda>x. x\<lparr>triggered := []\<rparr>) v'"
    using Suc(2) by (auto simp: Let_def Option.bind_eq_Some_conv)
  have "P w v" by (rule foldM_rel [OF P_refl P_trans notify_rel(1) [OF Suc(1)] v(1)])
  moreover have "P (?clear v) v'" by (rule foldM_rel [OF P_refl P_trans notify_rel(2) [OF Suc(1)] v(2)])
  ultimately show ?case
    unfolding v(3) using P_trans [OF P_trans [OF _ P_clear(1)] P_trans [OF _ P_clear(2)]] by simp
qed simp

lemma OnFinished_rel: "OnFinished t w = Some w' \<Longrightarrow> P w w'"
  unfolding OnFinished_def by (rule OnFinished_fuel_rel)

lemma finish_rel:
  "Complete t w = Some w' \<Longrightarrow> P (set_state Completed t w) w'"
  "Fail t w = Some w' \<Longrightarrow> P (set_state Failed t w) w'"
  "Cancel t w = Some w' \<Longrightarrow> P (set_state Canceled t w) w'"
  by (simp_all add: Complete_def Fail_def Cancel_def OnFinished_rel)

end

text \<open>
  Finishing a task leaves every task alone that is not waiting: only \<open>Submitted\<close> tasks move, to the
  queue while it is open, to \<open>Canceled\<close> once it is closed.
\<close>

definition same_frame :: "Executor \<Rightarrow> Executor \<Rightarrow> bool" where
  "same_frame w w' \<longleftrightarrow>
    next_task w' = next_task w \<and> closed w' = closed w \<and> queue_alive w' = queue_alive w \<and>
    timer_queue w' = timer_queue w \<and> timer_closed w' = timer_closed w \<and>
    (\<forall>u. func (tasks w' u) = func (tasks w u) \<and> expired (tasks w' u) = expired (tasks w u) \<and>
         has_time_trigger (tasks w' u) = has_time_trigger (tasks w u))"

definition evolves :: "Executor \<Rightarrow> Executor \<Rightarrow> bool" where
  "evolves w w' \<longleftrightarrow>
    same_frame w w' \<and>
    (\<forall>u. state (tasks w u) \<noteq> Submitted \<longrightarrow> state (tasks w' u) = state (tasks w u)) \<and>
    (\<forall>u. state (tasks w' u) \<in> {Created, Submitted} \<longrightarrow> state (tasks w u) = state (tasks w' u)) \<and>
    (\<exists>new. queue w' = queue w @ new \<and> distinct new \<and> (closed w \<longrightarrow> new = []) \<and>
       (\<forall>u. u \<in> set new \<longleftrightarrow> state (tasks w u) = Submitted \<and> state (tasks w' u) = Enqueued))"

lemma evolves_same:
  assumes "next_task w' = next_task w" "closed w' = closed w" "queue_alive w' = queue_alive w"
    "timer_queue w' = timer_queue w" "timer_closed w' = timer_closed w" "queue w' = queue w"
    "\<And>u. func (tasks w' u) = func (tasks w u)" "\<And>u. expired (tasks w' u) = expired (tasks w u)"
    "\<And>u. has_time_trigger (tasks w' u) = has_time_trigger (tasks w u)" "\<And>u. state (tasks w' u) = state (tasks w u)"
  shows "evolves w w'"
  using assms by (simp add: evolves_def same_frame_def)

lemma enqueued_chain:
  assumes "a \<noteq> Submitted \<Longrightarrow> b = a" "b \<noteq> Submitted \<Longrightarrow> c = b" "b = Submitted \<Longrightarrow> a = Submitted"
  shows "(a = Submitted \<and> b = Enqueued \<or> b = Submitted \<and> c = Enqueued) \<longleftrightarrow> a = Submitted \<and> c = Enqueued"
  using assms by (cases a; cases b) auto

lemma evolves_trans:
  assumes "evolves u v" "evolves v w"
  shows "evolves u w"
proof -
  obtain n1 where n1: "queue v = queue u @ n1" "distinct n1" "closed u \<longrightarrow> n1 = []"
    "\<forall>t. t \<in> set n1 \<longleftrightarrow> state (tasks u t) = Submitted \<and> state (tasks v t) = Enqueued"
    using assms(1) unfolding evolves_def by blast
  obtain n2 where n2: "queue w = queue v @ n2" "distinct n2" "closed v \<longrightarrow> n2 = []"
    "\<forall>t. t \<in> set n2 \<longleftrightarrow> state (tasks v t) = Submitted \<and> state (tasks w t) = Enqueued"
    using assms(2) unfolding evolves_def by blast
  have fr: "same_frame u v" "same_frame v w" using assms unfolding evolves_def by blast+
  then have fr': "same_frame u w" unfolding same_frame_def by simp
  have st: "state (tasks u t) \<noteq> Submitted \<Longrightarrow> state (tasks v t) = state (tasks u t)"
    "state (tasks v t) \<noteq> Submitted \<Longrightarrow> state (tasks w t) = state (tasks v t)"
    "state (tasks v t) = Submitted \<Longrightarrow> state (tasks u t) = Submitted"
    "state (tasks v t) \<in> {Created, Submitted} \<Longrightarrow> state (tasks u t) = state (tasks v t)"
    "state (tasks w t) \<in> {Created, Submitted} \<Longrightarrow> state (tasks v t) = state (tasks w t)" for t
    using assms unfolding evolves_def by (metis insertI1 insertI2)+
  have q: "queue w = queue u @ (n1 @ n2)" using n1 n2 by simp
  have dis: "distinct (n1 @ n2)" using n1(2,4) n2(2,4) by auto
  have cl: "closed u \<longrightarrow> n1 @ n2 = []" using n1(3) n2(3) fr(1) by (auto simp: same_frame_def)
  have mem: "t \<in> set (n1 @ n2) \<longleftrightarrow> state (tasks u t) = Submitted \<and> state (tasks w t) = Enqueued" for t
    unfolding set_append Un_iff n1(4) [rule_format] n2(4) [rule_format]
    by (rule enqueued_chain) (erule st)+
  have "\<exists>new. queue w = queue u @ new \<and> distinct new \<and> (closed u \<longrightarrow> new = []) \<and>
       (\<forall>t. t \<in> set new \<longleftrightarrow> state (tasks u t) = Submitted \<and> state (tasks w t) = Enqueued)"
    by (rule exI [of _ "n1 @ n2"]) (use q dis cl mem in \<open>simp only: simp_thms\<close>)
  moreover have "\<forall>t. state (tasks u t) \<noteq> Submitted \<longrightarrow> state (tasks w t) = state (tasks u t)"
    using st(1,2) by metis
  moreover have "\<forall>t. state (tasks w t) \<in> {Created, Submitted} \<longrightarrow> state (tasks u t) = state (tasks w t)"
    using st(4,5) by metis
  ultimately show ?thesis unfolding evolves_def using fr' by (intro conjI)
qed

interpretation ev: finish_relation evolves
proof
  show "evolves u v \<Longrightarrow> evolves v w \<Longrightarrow> evolves u w" for u v w by (rule evolves_trans)
next
  fix w :: Executor and t
  assume s: "state (tasks w t) = Submitted"
  show "\<not> closed w \<Longrightarrow> evolves w ((enqueued t w)\<lparr>queue := queue w @ [t]\<rparr>)"
    using s by (auto simp: evolves_def same_frame_def)
  show "closed w \<Longrightarrow> evolves w (set_state Canceled t (enqueued t w))"
    using s by (auto simp: evolves_def same_frame_def)
qed (auto intro!: evolves_same split: if_splits)

lemma evolvesD:
  assumes "evolves w w'"
  shows "next_task w' = next_task w" "closed w' = closed w" "func (tasks w' u) = func (tasks w u)"
    "expired (tasks w' u) = expired (tasks w u)" "has_time_trigger (tasks w' u) = has_time_trigger (tasks w u)"
    "timer_queue w' = timer_queue w" "timer_closed w' = timer_closed w"
    "state (tasks w u) \<noteq> Submitted \<Longrightarrow> state (tasks w' u) = state (tasks w u)"
    "state (tasks w' u) \<in> {Created, Submitted} \<Longrightarrow> state (tasks w u) = state (tasks w' u)"
    "IsFinished u w \<Longrightarrow> IsFinished u w'"
  using assms unfolding evolves_def same_frame_def IsFinished_def by (blast, blast, blast, blast, blast, blast, blast, blast, blast, metis finished.simps(2))

section \<open>The recursion ends\<close>

definition waiting_tasks :: "Executor \<Rightarrow> nat" where
  "waiting_tasks w = card {u. u < next_task w \<and> state (tasks w u) = Submitted}"

definition allocated :: "Executor \<Rightarrow> bool" where
  "allocated w \<longleftrightarrow> (\<forall>u. next_task w \<le> u \<longrightarrow> state (tasks w u) = Created)"

lemma evolves_waiting: "evolves w w' \<Longrightarrow> waiting_tasks w' \<le> waiting_tasks w"
  unfolding waiting_tasks_def by (rule card_mono) (auto simp: evolvesD(1) dest: evolvesD(9))

lemma evolves_allocated: "evolves w w' \<Longrightarrow> allocated w \<Longrightarrow> allocated w'"
  using evolvesD(1,8) unfolding allocated_def by (metis TaskStates.distinct(1))

lemma waiting_cancel:
  assumes "allocated w" "state (tasks w t) = Submitted"
  shows "waiting_tasks (set_state Canceled t (enqueued t w)) < waiting_tasks w"
proof -
  have t: "t < next_task w" using assms by (metis TaskStates.distinct(1) allocated_def not_le)
  show ?thesis
    unfolding waiting_tasks_def using t assms(2) by (intro psubset_card_mono) auto
qed

lemma waiting_le: "waiting_tasks w \<le> next_task w"
proof -
  have "card {u. u < next_task w \<and> state (tasks w u) = Submitted} \<le> card {..<next_task w}"
    by (rule card_mono) auto
  then show ?thesis by (simp add: waiting_tasks_def)
qed

lemma OnFinished_fuel_returns:
  "waiting_tasks w < n \<Longrightarrow> allocated w \<Longrightarrow> \<exists>w'. OnFinished_fuel n t w = Some w'"
proof (induction n arbitrary: t w)
  case (Suc n)
  let ?Q = "\<lambda>w. waiting_tasks w < Suc n \<and> allocated w"
  have attempt: "\<exists>w'. TryToEnque (OnFinished_fuel n) d w = Some w' \<and> ?Q w'" if q: "?Q w" for d w
  proof -
    have "\<exists>w'. TryToEnque (OnFinished_fuel n) d w = Some w'"
    proof (cases "state (tasks w d) = Submitted \<and> closed w")
      case True
      then have "waiting_tasks (set_state Canceled d (enqueued d w)) < n"
        using q waiting_cancel [of w d] by simp
      moreover have "allocated (set_state Canceled d (enqueued d w))"
        using q True by (rule_tac evolves_allocated [OF ev.P_cancel]) auto
      ultimately have "\<exists>w'. OnFinished_fuel n d (set_state Canceled d (enqueued d w)) = Some w'"
        by (rule Suc(1))
      then show ?thesis
        by (auto simp: TryToEnque_def Enque_def TasksQueue_Push_def Cancel_with_def enqueued_def)
    qed (auto simp: TryToEnque_def Enque_def TasksQueue_Push_def)
    then obtain w' where w': "TryToEnque (OnFinished_fuel n) d w = Some w'" by blast
    have "evolves w w'"
      by (rule ev.TryToEnque_rel [where f = "OnFinished_fuel n", OF _ w']) (rule ev.OnFinished_fuel_rel)
    then show ?thesis using w' q evolves_waiting [of w w'] evolves_allocated [of w w'] by auto
  qed
  have upd: "?Q (upd d f w)" if "?Q w" "\<And>x. state (f x) = state x" for d f w
  proof -
    have "state (tasks (upd d f w) u) = state (tasks w u)" for u using that(2) by simp
    then show ?thesis using that(1) unfolding waiting_tasks_def allocated_def by (simp only: upd_simps(2)) blast
  qed
  have dep: "\<exists>w'. notify_depended (OnFinished_fuel n) d w = Some w' \<and> ?Q w'" if "?Q w" for d w
    using attempt [OF upd [OF that]] that by (auto simp: notify_depended_def)
  have trig: "\<exists>w'. notify_triggered (OnFinished_fuel n) d w = Some w' \<and> ?Q w'" if "?Q w" for d w
    using attempt [OF upd [OF that]] that by (auto simp: notify_triggered_def)
  have "\<exists>v. foldM (notify_depended (OnFinished_fuel n)) (depended (tasks w t)) w = Some v \<and> ?Q v"
    by (rule foldM_total) (use dep Suc(2,3) in blast)+
  then obtain v where v: "foldM (notify_depended (OnFinished_fuel n)) (depended (tasks w t)) w = Some v" "?Q v"
    by blast
  let ?v = "upd t (\<lambda>x. x\<lparr>depended := []\<rparr>) v"
  have vq: "?Q ?v" by (rule upd [OF v(2)]) simp
  have "\<exists>v'. foldM (notify_triggered (OnFinished_fuel n)) (triggered (tasks ?v t)) ?v = Some v' \<and> ?Q v'"
    by (rule foldM_total) (use trig vq in blast)+
  then show ?case using v(1) by (auto simp: Let_def)
qed simp

lemma OnFinished_returns: "allocated w \<Longrightarrow> \<exists>w'. OnFinished t w = Some w'"
  using OnFinished_fuel_returns [of w "next_task w + 2" t] waiting_le [of w] by (simp add: OnFinished_def)

section \<open>The dependency counters are exact\<close>

text \<open>
  While \<open>OnFinished\<close> runs, the lists of the tasks it is notifying still hold tasks it has notified
  already.  \<open>R\<close> maps such a task to the tasks it has yet to notify; between two operations \<open>R\<close> is empty.
\<close>

definition effective :: "(nat \<rightharpoonup> nat list) \<Rightarrow> Executor \<Rightarrow> nat \<Rightarrow> nat list" where
  "effective R w u = (case R u of Some l \<Rightarrow> l | None \<Rightarrow> depended (tasks w u))"

definition pending :: "(nat \<rightharpoonup> nat list) \<Rightarrow> Executor \<Rightarrow> nat \<Rightarrow> nat" where
  "pending R w d = (\<Sum>u < next_task w. count_list (effective R w u) d)"

definition counted :: "(nat \<rightharpoonup> nat list) \<Rightarrow> Executor \<Rightarrow> bool" where
  "counted R w \<longleftrightarrow> (\<forall>d. \<not> expired (tasks w d) \<longrightarrow> dependecies_cnt (tasks w d) = pending R w d)"

definition notifying :: "(nat \<rightharpoonup> nat list) \<Rightarrow> Executor \<Rightarrow> bool" where
  "notifying R w \<longleftrightarrow>
    (\<forall>u. R u \<noteq> None \<longrightarrow> u < next_task w \<and> IsFinished u w) \<and>
    (\<forall>u. R u = None \<and> IsFinished u w \<longrightarrow> depended (tasks w u) = []) \<and>
    (\<forall>u. next_task w \<le> u \<longrightarrow> depended (tasks w u) = [] \<and> state (tasks w u) = Created \<and>
         dependencies (tasks w u) = [] \<and> \<not> expired (tasks w u))"

definition linked :: "(nat \<rightharpoonup> nat list) \<Rightarrow> Executor \<Rightarrow> bool" where
  "linked R w \<longleftrightarrow>
    (\<forall>t. \<not> expired (tasks w t) \<and> state (tasks w t) \<in> {Created, Submitted} \<longrightarrow>
       (\<forall>d \<in> set (dependencies (tasks w t)). IsFinished d w \<or> t \<in> set (effective R w d)) \<and>
       (\<forall>u. t \<in> set (effective R w u) \<longrightarrow> u \<in> set (dependencies (tasks w t))))"

definition join_waits :: "Executor \<Rightarrow> nat \<Rightarrow> nat list \<Rightarrow> bool" where
  "join_waits w t ids \<longleftrightarrow>
    \<not> has_triggers (tasks w t) \<and> \<not> has_time_trigger (tasks w t) \<and>
    has_dependencies (tasks w t) = (ids \<noteq> []) \<and> set ids \<subseteq> set (dependencies (tasks w t))"

definition joins_ok :: "Executor \<Rightarrow> bool" where
  "joins_ok w \<longleftrightarrow>
    (\<forall>t ids. func (tasks w t) = JoinAll ids \<longrightarrow>
       (state (tasks w t) = Submitted \<and> \<not> expired (tasks w t) \<longrightarrow> join_waits w t ids) \<and>
       (state (tasks w t) = Enqueued \<longrightarrow> (\<forall>d \<in> set ids. IsFinished d w)))"

definition exec_inv :: "(nat \<rightharpoonup> nat list) \<Rightarrow> Executor \<Rightarrow> bool" where
  "exec_inv R w \<longleftrightarrow> counted R w \<and> notifying R w \<and> linked R w \<and> joins_ok w"

lemmas exec_inv_defs = exec_inv_def counted_def notifying_def linked_def joins_ok_def

lemma pending_pos: "count_list (effective R w u) d \<noteq> 0 \<Longrightarrow> u < next_task w \<Longrightarrow> pending R w d \<noteq> 0"
  unfolding pending_def by (auto simp: sum_eq_0_iff)

lemma effective_fresh: "notifying R w \<Longrightarrow> next_task w \<le> u \<Longrightarrow> effective R w u = []"
  unfolding notifying_def effective_def by (metis not_le option.case_eq_if)

text \<open>A task with dependencies is ready exactly when all of them are finished.\<close>

lemma counter_zero_iff:
  assumes "exec_inv R w" "\<not> expired (tasks w t)" "state (tasks w t) \<in> {Created, Submitted}" "R = Map.empty"
  shows "dependecies_cnt (tasks w t) = 0 \<longleftrightarrow> (\<forall>d \<in> set (dependencies (tasks w t)). IsFinished d w)"
proof
  have cnt: "dependecies_cnt (tasks w t) = pending R w t" using assms by (auto simp: exec_inv_defs)
  have link: "\<forall>d \<in> set (dependencies (tasks w t)). IsFinished d w \<or> t \<in> set (effective R w d)"
    "\<forall>u. t \<in> set (effective R w u) \<longrightarrow> u \<in> set (dependencies (tasks w t))"
    using assms unfolding exec_inv_def linked_def by blast+
  {
    assume "dependecies_cnt (tasks w t) = 0"
    then have "t \<notin> set (effective R w d)" for d
      using cnt pending_pos [of R w d t] effective_fresh [of R w d] assms(1)
      by (cases "d < next_task w") (auto simp: exec_inv_def count_list_0_iff)
    then show "\<forall>d \<in> set (dependencies (tasks w t)). IsFinished d w" using link by blast
  next
    assume fin: "\<forall>d \<in> set (dependencies (tasks w t)). IsFinished d w"
    have "t \<notin> set (effective R w u)" for u
    proof
      assume t: "t \<in> set (effective R w u)"
      then have "IsFinished u w" using link fin by blast
      then have "effective R w u = []" using assms(1,4) by (simp add: exec_inv_defs effective_def)
      then show False using t by simp
    qed
    then show "dependecies_cnt (tasks w t) = 0" by (simp add: cnt pending_def count_list_0_iff)
  }
qed

lemma ready_join_finished:
  assumes "exec_inv R w" "\<not> expired (tasks w t)" "state (tasks w t) = Submitted"
    and "IsReadyToEnque (tasks w t)" "func (tasks w t) = JoinAll ids" "d \<in> set ids"
  shows "IsFinished d w"
proof -
  have j: "join_waits w t ids" using assms unfolding exec_inv_def joins_ok_def by blast
  have "dependecies_cnt (tasks w t) = pending R w t" using assms by (auto simp: exec_inv_defs)
  moreover have "dependecies_cnt (tasks w t) = 0"
    using assms(4,6) j by (auto simp: IsReadyToEnque_def join_waits_def split: if_splits)
  ultimately have "t \<notin> set (effective R w d)"
    using pending_pos [of R w d t] effective_fresh [of R w d] assms(1)
    by (cases "d < next_task w") (auto simp: exec_inv_def count_list_0_iff)
  moreover have "d \<in> set (dependencies (tasks w t))" using j assms(6) by (auto simp: join_waits_def)
  ultimately show ?thesis using assms(1-3) unfolding exec_inv_def linked_def by blast
qed

subsection \<open>Updates that leave the invariant alone\<close>

lemma exec_inv_cong:
  assumes "exec_inv R w" "next_task w' = next_task w"
    and "\<And>u. state (tasks w' u) = state (tasks w u)" "\<And>u. expired (tasks w' u) = expired (tasks w u)"
    and "\<And>u. depended (tasks w' u) = depended (tasks w u)" "\<And>u. dependecies_cnt (tasks w' u) = dependecies_cnt (tasks w u)"
    and "\<And>u. dependencies (tasks w' u) = dependencies (tasks w u)" "\<And>u. func (tasks w' u) = func (tasks w u)"
    and flags: "\<And>u. state (tasks w u) = Submitted \<Longrightarrow> has_triggers (tasks w' u) = has_triggers (tasks w u) \<and>
      has_time_trigger (tasks w' u) = has_time_trigger (tasks w u) \<and>
      has_dependencies (tasks w' u) = has_dependencies (tasks w u)"
  shows "exec_inv R w'"
proof -
  have e: "effective R w' = effective R w" by (rule ext) (simp add: effective_def assms split: option.splits)
  have f: "IsFinished u w' = IsFinished u w" for u by (simp add: IsFinished_def assms)
  have "joins_ok w'"
    using assms(1) flags unfolding exec_inv_def joins_ok_def join_waits_def by (simp add: f assms(3,4,7,8))
  moreover have "counted R w' = counted R w" "notifying R w' = notifying R w" "linked R w' = linked R w"
    unfolding counted_def notifying_def linked_def pending_def by (simp_all only: e f assms(2-8))
  ultimately show ?thesis using assms(1) by (simp add: exec_inv_def)
qed

lemma exec_inv_activate: "exec_inv R w \<Longrightarrow> exec_inv R (upd t (\<lambda>x. x\<lparr>triggers_activated := b\<rparr>) w)"
  by (erule exec_inv_cong) simp_all

lemma exec_inv_triggered: "exec_inv R w \<Longrightarrow> exec_inv R (upd t (\<lambda>x. x\<lparr>triggered := b\<rparr>) w)"
  by (erule exec_inv_cong) simp_all

lemma exec_inv_queue: "exec_inv R w \<Longrightarrow> exec_inv R (w\<lparr>queue := q\<rparr>)"
  by (erule exec_inv_cong) simp_all

text \<open>A submitted task leaves \<open>Submitted\<close>; the join it waits for, if any, is complete.\<close>

lemma exec_inv_leave:
  assumes inv: "exec_inv R w" and t: "state (tasks w t) = Submitted"
    and join: "\<And>ids d. func (tasks w t) = JoinAll ids \<Longrightarrow> d \<in> set ids \<Longrightarrow> IsFinished d w"
  shows "exec_inv R (enqueued t w)"
proof -
  have e: "effective R (enqueued t w) = effective R w" by (rule ext) (auto simp: effective_def split: option.splits)
  have f: "IsFinished u (enqueued t w) = IsFinished u w" for u using t by (simp add: IsFinished_def)
  have "counted R (enqueued t w)" using inv unfolding exec_inv_def counted_def pending_def e by simp
  moreover have "notifying R (enqueued t w)"
    using inv t unfolding exec_inv_def notifying_def f by auto
  moreover have "linked R (enqueued t w)" using inv unfolding exec_inv_def linked_def e f by auto
  moreover have "joins_ok (enqueued t w)"
    using inv join unfolding exec_inv_def joins_ok_def f by (auto simp: join_waits_def)
  ultimately show ?thesis by (simp add: exec_inv_def)
qed

text \<open>A task is marked as finished and starts to notify.\<close>

lemma exec_inv_finish:
  assumes inv: "exec_inv R w" and t: "R t = None" "t < next_task w" "finished s"
  shows "exec_inv (R(t \<mapsto> depended (tasks w t))) (set_state s t w)"
proof -
  let ?R = "R(t \<mapsto> depended (tasks w t))" and ?w = "set_state s t w"
  have e: "effective ?R ?w = effective R w" using t(1) by (auto simp: effective_def fun_eq_iff split: option.splits)
  have f: "IsFinished u w \<Longrightarrow> IsFinished u ?w" "u \<noteq> t \<Longrightarrow> IsFinished u ?w = IsFinished u w" "IsFinished t ?w" for u
    using t(3) by (auto simp: IsFinished_def)
  have "counted ?R ?w" using inv unfolding exec_inv_def counted_def pending_def e by simp
  moreover have "notifying ?R ?w"
    using inv t f unfolding exec_inv_def notifying_def by (auto split: if_splits)
  moreover have "linked ?R ?w"
    using inv f t(3) unfolding exec_inv_def linked_def e by (auto split: if_splits)
  moreover have "joins_ok ?w"
    using inv f t(3) unfolding exec_inv_def joins_ok_def by (auto simp: join_waits_def split: if_splits)
  ultimately show ?thesis by (simp add: exec_inv_def)
qed

subsection \<open>Notification\<close>

lemma pending_notified:
  assumes "t < next_task w"
  shows "pending (R(t \<mapsto> d # l)) w x = pending (R(t \<mapsto> l)) w x + (if x = d then 1 else 0)"
proof -
  have "(\<Sum>u \<in> {..<next_task w} - {t}. count_list (effective (R(t \<mapsto> d # l)) w u) x) =
      (\<Sum>u \<in> {..<next_task w} - {t}. count_list (effective (R(t \<mapsto> l)) w u) x)"
    by (rule sum.cong) (auto simp: effective_def)
  then show ?thesis
    using assms unfolding pending_def
    by (simp add: sum.remove [of "{..<next_task w}" t] effective_def)
qed

lemma exec_inv_shrink:
  assumes inv: "exec_inv (R(t \<mapsto> d # l)) w"
  shows "notifying (R(t \<mapsto> l)) w" "linked (R(t \<mapsto> l)) w" "joins_ok w" "t < next_task w"
proof -
  have e: "set (effective (R(t \<mapsto> l)) w u) \<subseteq> set (effective (R(t \<mapsto> d # l)) w u)"
    "u \<noteq> t \<Longrightarrow> effective (R(t \<mapsto> l)) w u = effective (R(t \<mapsto> d # l)) w u" for u
    by (auto simp: effective_def)
  have t: "IsFinished t w" "t < next_task w" using inv by (auto simp: exec_inv_def notifying_def)
  then show "t < next_task w" by simp
  show "joins_ok w" using inv by (simp add: exec_inv_def)
  show "notifying (R(t \<mapsto> l)) w" using inv t by (auto simp: exec_inv_def notifying_def split: if_splits)
  show "linked (R(t \<mapsto> l)) w"
    unfolding linked_def
  proof (intro allI impI conjI ballI)
    fix a d' assume a: "\<not> expired (tasks w a) \<and> state (tasks w a) \<in> {Created, Submitted}"
    show "d' \<in> set (dependencies (tasks w a)) \<Longrightarrow> IsFinished d' w \<or> a \<in> set (effective (R(t \<mapsto> l)) w d')"
      using inv a t(1) e(2) [of d'] unfolding exec_inv_def linked_def by (cases "d' = t") auto
    show "a \<in> set (effective (R(t \<mapsto> l)) w d') \<Longrightarrow> d' \<in> set (dependencies (tasks w a))"
      using inv a e(1) [of d'] unfolding exec_inv_def linked_def by blast
  qed
qed

lemma exec_inv_notify_expired:
  assumes inv: "exec_inv (R(t \<mapsto> d # l)) w" and ex: "expired (tasks w d)"
  shows "exec_inv (R(t \<mapsto> l)) w"
proof -
  note sh = exec_inv_shrink [OF inv]
  have "counted (R(t \<mapsto> l)) w"
    unfolding counted_def
  proof (intro allI impI)
    fix x assume x: "\<not> expired (tasks w x)"
    then have "x \<noteq> d" using ex by auto
    then show "dependecies_cnt (tasks w x) = pending (R(t \<mapsto> l)) w x"
      using inv x pending_notified [OF sh(4), of R d l x] by (simp add: exec_inv_def counted_def)
  qed
  then show ?thesis using sh by (simp add: exec_inv_def)
qed

lemma exec_inv_notify:
  assumes inv: "exec_inv (R(t \<mapsto> d # l)) w"
  shows "exec_inv (R(t \<mapsto> l)) (upd d (\<lambda>x. x\<lparr>dependecies_cnt := dependecies_cnt x - 1\<rparr>) w)"
proof -
  let ?w = "upd d (\<lambda>x. x\<lparr>dependecies_cnt := dependecies_cnt x - 1\<rparr>) w"
  note sh = exec_inv_shrink [OF inv]
  have e: "effective R' ?w = effective R' w" for R' by (rule ext) (simp add: effective_def split: option.splits)
  have f: "IsFinished u ?w = IsFinished u w" for u by (simp add: IsFinished_def)
  have "counted (R(t \<mapsto> l)) ?w"
    unfolding counted_def
  proof (intro allI impI)
    fix x assume "\<not> expired (tasks ?w x)"
    then have x: "\<not> expired (tasks w x)" by (simp split: if_splits)
    have "pending (R(t \<mapsto> l)) ?w x = pending (R(t \<mapsto> l)) w x" by (simp only: pending_def e upd_simps(2))
    then show "dependecies_cnt (tasks ?w x) = pending (R(t \<mapsto> l)) ?w x"
      using inv x pending_notified [OF sh(4), of R d l x] by (auto simp: exec_inv_def counted_def)
  qed
  moreover have "notifying (R(t \<mapsto> l)) ?w" using sh(1) unfolding notifying_def f by auto
  moreover have "linked (R(t \<mapsto> l)) ?w" using sh(2) unfolding linked_def e f by auto
  moreover have "joins_ok ?w" using sh(3) unfolding joins_ok_def f by (auto simp: join_waits_def)
  ultimately show ?thesis by (simp add: exec_inv_def)
qed

lemma exec_inv_cleared:
  assumes inv: "exec_inv (R(t \<mapsto> [])) w" and t: "R t = None"
  shows "exec_inv R (upd t (\<lambda>x. x\<lparr>depended := []\<rparr>) w)"
proof -
  let ?w = "upd t (\<lambda>x. x\<lparr>depended := []\<rparr>) w"
  have e: "effective R ?w = effective (R(t \<mapsto> [])) w" using t by (auto simp: effective_def fun_eq_iff split: option.splits)
  have f: "IsFinished u ?w = IsFinished u w" for u by (simp add: IsFinished_def)
  have "counted R ?w" using inv unfolding exec_inv_def counted_def pending_def e by auto
  moreover have "notifying R ?w" using inv t unfolding exec_inv_def notifying_def f by (auto split: if_splits)
  moreover have "linked R ?w" using inv unfolding exec_inv_def linked_def e f by auto
  moreover have "joins_ok ?w" using inv unfolding exec_inv_def joins_ok_def f by (auto simp: join_waits_def)
  ultimately show ?thesis by (simp add: exec_inv_def)
qed

definition keeps_inv :: "(nat \<Rightarrow> Executor \<Rightarrow> Executor option) \<Rightarrow> bool" where
  "keeps_inv f \<longleftrightarrow>
    (\<forall>R t w w'. f t w = Some w' \<longrightarrow> R t = None \<longrightarrow> exec_inv (R(t \<mapsto> depended (tasks w t))) w \<longrightarrow> exec_inv R w')"

lemma Enque_inv:
  assumes f: "keeps_inv f" and inv: "exec_inv R w" and enq: "Enque f t w = Some w'"
    and join: "\<And>ids d. state (tasks w t) = Submitted \<Longrightarrow> func (tasks w t) = JoinAll ids \<Longrightarrow>
      d \<in> set ids \<Longrightarrow> IsFinished d w"
  shows "exec_inv R w'"
  using enq
proof (cases rule: Enque_cases)
  case push
  then show ?thesis using exec_inv_queue [OF exec_inv_leave [OF inv push(1)]] join by auto
next
  case cancel
  have "exec_inv R (enqueued t w)" using exec_inv_leave [OF inv cancel(1)] join cancel(1) by blast
  moreover have "R t = None" using inv cancel(1) by (auto simp: exec_inv_def notifying_def IsFinished_def)
  moreover have "t < next_task w" using inv cancel(1) by (cases "t < next_task w") (auto simp: exec_inv_def notifying_def)
  ultimately have "exec_inv (R(t \<mapsto> depended (tasks (set_state Canceled t (enqueued t w)) t))) (set_state Canceled t (enqueued t w))"
    using exec_inv_finish [of R "enqueued t w" t Canceled] by simp
  then show ?thesis using f cancel(3) \<open>R t = None\<close> unfolding keeps_inv_def by blast
qed (use inv in simp)

lemma TryToEnque_inv:
  assumes f: "keeps_inv f" and inv: "exec_inv R w" and t: "\<not> expired (tasks w t)" and try_some: "TryToEnque f t w = Some w'"
  shows "exec_inv R w'"
  using try_some
proof (cases rule: TryToEnque_cases)
  case enque
  show ?thesis
    by (rule Enque_inv [OF f inv enque(3)]) (use ready_join_finished [OF inv t enque(1,2)] in blast)
qed (use inv in simp)

lemma notify_depended_inv:
  assumes f: "keeps_inv f" and inv: "exec_inv (R(t \<mapsto> d # l)) w" and n: "notify_depended f d w = Some w'"
  shows "exec_inv (R(t \<mapsto> l)) w'"
proof (cases "expired (tasks w d)")
  case True
  then show ?thesis using n exec_inv_notify_expired [OF inv] by (simp add: notify_depended_def)
next
  case False
  then show ?thesis using n TryToEnque_inv [OF f exec_inv_notify [OF inv], where t = d] by (simp add: notify_depended_def)
qed

lemma notify_triggered_inv:
  assumes f: "keeps_inv f" and inv: "exec_inv R w" and n: "notify_triggered f d w = Some w'"
  shows "exec_inv R w'"
proof (cases "expired (tasks w d)")
  case False
  then show ?thesis using n TryToEnque_inv [OF f exec_inv_activate [OF inv, of d True], of d] by (simp add: notify_triggered_def)
qed (use n inv in \<open>simp add: notify_triggered_def\<close>)

lemma notify_all_inv:
  assumes "keeps_inv f"
  shows "exec_inv (R(t \<mapsto> l)) w \<Longrightarrow> foldM (notify_depended f) l w = Some w' \<Longrightarrow> exec_inv (R(t \<mapsto> [])) w'"
proof (induction l arbitrary: w)
  case (Cons d l)
  then obtain v where "notify_depended f d w = Some v" "foldM (notify_depended f) l v = Some w'"
    by (auto simp: Option.bind_eq_Some_conv)
  then show ?case using Cons notify_depended_inv [OF assms Cons(2)] by blast
qed simp

lemma OnFinished_fuel_inv: "keeps_inv (OnFinished_fuel n)"
proof (induction n)
  case (Suc n)
  show ?case
    unfolding keeps_inv_def
  proof (intro allI impI)
    fix R t w w'
    assume run: "OnFinished_fuel (Suc n) t w = Some w'" and R: "R t = None"
      and inv: "exec_inv (R(t \<mapsto> depended (tasks w t))) w"
    let ?clear = "upd t (\<lambda>x. x\<lparr>depended := []\<rparr>)"
    obtain v v' where v: "foldM (notify_depended (OnFinished_fuel n)) (depended (tasks w t)) w = Some v"
      "foldM (notify_triggered (OnFinished_fuel n)) (triggered (tasks (?clear v) t)) (?clear v) = Some v'"
      "w' = upd t (\<lambda>x. x\<lparr>triggered := []\<rparr>) v'"
      using run by (auto simp: Let_def Option.bind_eq_Some_conv)
    have "exec_inv R (?clear v)" by (rule exec_inv_cleared [OF notify_all_inv [OF Suc inv v(1)] R])
    moreover have "exec_inv R (?clear v) \<longrightarrow> exec_inv R v'"
      by (rule foldM_rel [where P = "\<lambda>a b. exec_inv R a \<longrightarrow> exec_inv R b", OF _ _ _ v(2)])
        (use notify_triggered_inv [OF Suc] in auto)
    ultimately show "exec_inv R w'" unfolding v(3) using exec_inv_triggered by blast
  qed
qed (simp add: keeps_inv_def)

lemma OnFinished_inv: "keeps_inv OnFinished"
  using OnFinished_fuel_inv unfolding keeps_inv_def OnFinished_def by blast

lemma finish_inv:
  assumes inv: "exec_inv Map.empty w" and t: "t < next_task w" "finished s"
    and run: "OnFinished t (set_state s t w) = Some w'"
  shows "exec_inv Map.empty w'"
proof -
  have "exec_inv [t \<mapsto> depended (tasks (set_state s t w) t)] (set_state s t w)"
    using exec_inv_finish [OF inv, of t s] t by simp
  then show ?thesis
    using OnFinished_inv [unfolded keeps_inv_def, rule_format, OF run, of Map.empty] by simp
qed

section \<open>Queues and workers\<close>

definition dyn_ok :: "Executor \<Rightarrow> nat list \<Rightarrow> nat list \<Rightarrow> bool" where
  "dyn_ok w run st \<longleftrightarrow>
    distinct (queue w @ st) \<and>
    (\<forall>t \<in> set (queue w). state (tasks w t) \<in> {Enqueued, Canceled} \<and> t < next_task w) \<and>
    (\<forall>t \<in> set st. state (tasks w t) \<notin> {Created, Submitted} \<and> t < next_task w) \<and>
    set run \<subseteq> set st \<and>
    (\<forall>t \<in> set run. \<forall>ids. func (tasks w t) = JoinAll ids \<longrightarrow> (\<forall>d \<in> set ids. IsFinished d w)) \<and>
    (\<forall>t \<in> set (timer_queue w). has_time_trigger (tasks w t) \<and> \<not> expired (tasks w t) \<and> t < next_task w) \<and>
    (\<forall>t ids. func (tasks w t) = JoinAll ids \<longrightarrow> state (tasks w t) \<noteq> Created)"

definition closed_ok :: "Executor \<Rightarrow> bool" where
  "closed_ok w \<longleftrightarrow> (closed w \<longrightarrow> (\<forall>t \<in> set (queue w). state (tasks w t) = Canceled))"

definition exec_ok :: "Executor \<Rightarrow> nat list \<Rightarrow> nat list \<Rightarrow> bool" where
  "exec_ok w run st \<longleftrightarrow> exec_inv Map.empty w \<and> dyn_ok w run st"

definition system_inv :: "System \<Rightarrow> bool" where
  "system_inv s \<longleftrightarrow> exec_ok (exec s) (running s) (started s) \<and> closed_ok (exec s)"

lemma exec_inv_allocated: "exec_inv R w \<Longrightarrow> allocated w"
  by (simp add: exec_inv_def notifying_def allocated_def)

lemma exec_inv_below: "exec_inv R w \<Longrightarrow> state (tasks w t) \<noteq> Created \<Longrightarrow> t < next_task w"
  by (metis exec_inv_def notifying_def not_le)

lemma evolves_queue:
  assumes "evolves w w'"
  obtains new where "queue w' = queue w @ new" "distinct new" "closed w \<longrightarrow> new = []"
    "\<forall>u. u \<in> set new \<longleftrightarrow> state (tasks w u) = Submitted \<and> state (tasks w' u) = Enqueued"
  using assms unfolding evolves_def by blast

lemma dyn_ok_evolves:
  assumes dyn: "dyn_ok w run st" and ev: "evolves w w'" and inv: "exec_inv R w"
  shows "dyn_ok w' run st"
proof -
  obtain new where new: "queue w' = queue w @ new" "distinct new"
    "\<forall>u. u \<in> set new \<longleftrightarrow> state (tasks w u) = Submitted \<and> state (tasks w' u) = Enqueued"
    using evolves_queue [OF ev] by metis
  note D = evolvesD [OF ev]
  have same: "state (tasks w t) \<noteq> Submitted \<Longrightarrow> state (tasks w' t) = state (tasks w t)" for t by (rule D(8))
  have q: "\<forall>t \<in> set (queue w). state (tasks w t) \<noteq> Submitted" "\<forall>t \<in> set st. state (tasks w t) \<noteq> Submitted"
    using dyn by (auto simp: dyn_ok_def)
  have "distinct (queue w' @ st)"
    using dyn q new by (auto simp: dyn_ok_def)
  moreover have "\<forall>t \<in> set (queue w'). state (tasks w' t) \<in> {Enqueued, Canceled} \<and> t < next_task w'"
  proof
    fix t assume "t \<in> set (queue w')"
    then consider "t \<in> set (queue w)" | "t \<in> set new" using new(1) by auto
    then show "state (tasks w' t) \<in> {Enqueued, Canceled} \<and> t < next_task w'"
    proof cases
      case 1
      then show ?thesis using dyn q(1) same [of t] D(1) by (simp add: dyn_ok_def)
    next
      case 2
      then have "state (tasks w t) = Submitted" "state (tasks w' t) = Enqueued" using new(3) by auto
      then show ?thesis using exec_inv_below [OF inv, of t] D(1) by simp
    qed
  qed
  moreover have "\<forall>t \<in> set st. state (tasks w' t) \<notin> {Created, Submitted} \<and> t < next_task w'"
    using dyn q(2) same D(1) by (simp add: dyn_ok_def)
  moreover have "\<forall>t ids. func (tasks w' t) = JoinAll ids \<longrightarrow> state (tasks w' t) \<noteq> Created"
    using dyn D(3) D(9) unfolding dyn_ok_def by (metis insertI1)
  ultimately show ?thesis
    using dyn D(10) unfolding dyn_ok_def by (simp add: D(1,3,4,5,6))
qed

lemma closed_ok_evolves: "closed_ok w \<Longrightarrow> evolves w w' \<Longrightarrow> closed_ok w'"
proof -
  assume c: "closed_ok w" and ev: "evolves w w'"
  obtain new where new: "queue w' = queue w @ new" "closed w \<longrightarrow> new = []" using evolves_queue [OF ev] by metis
  note D = evolvesD [OF ev]
  show ?thesis
    unfolding closed_ok_def
  proof (intro impI ballI)
    fix t assume "closed w'" "t \<in> set (queue w')"
    then have "state (tasks w t) = Canceled" using c new D(2) by (simp add: closed_ok_def)
    then show "state (tasks w' t) = Canceled" using D(8) [of t] by simp
  qed
qed

lemma dyn_ok_set_state:
  assumes "dyn_ok w run st" "finished s" "s = Canceled \<or> t \<notin> set (queue w)"
  shows "dyn_ok (set_state s t w) run st"
proof -
  have "IsFinished d w \<Longrightarrow> IsFinished d (set_state s t w)" for d using assms(2) by (simp add: IsFinished_def)
  moreover have "s \<notin> {Created, Submitted}" using assms(2) by auto
  ultimately show ?thesis using assms(1,3) unfolding dyn_ok_def by auto
qed

lemma finish_ok:
  assumes ok: "exec_ok w run st" and t: "t < next_task w" "finished s" "s = Canceled \<or> t \<notin> set (queue w)"
    and run: "OnFinished t (set_state s t w) = Some w'"
  shows "exec_ok w' run st" "closed_ok w \<Longrightarrow> closed_ok w'" "evolves (set_state s t w) w'"
proof -
  show ev: "evolves (set_state s t w) w'" by (rule ev.OnFinished_rel [OF run])
  have inv: "exec_inv Map.empty w" and dyn: "dyn_ok w run st" using ok by (auto simp: exec_ok_def)
  have "exec_inv [t \<mapsto> depended (tasks w t)] (set_state s t w)"
    using exec_inv_finish [OF inv, of t s] t by simp
  then show "exec_ok w' run st"
    using finish_inv [OF inv t(1,2) run] dyn_ok_evolves [OF dyn_ok_set_state [OF dyn t(2,3)] ev]
    by (auto simp: exec_ok_def)
  assume "closed_ok w"
  then have "closed_ok (set_state s t w)" using t(3) by (auto simp: closed_ok_def)
  then show "closed_ok w'" using ev by (rule closed_ok_evolves)
qed

lemma Cancel_ok:
  assumes "exec_ok w run st" "t < next_task w" "Cancel t w = Some w'"
  shows "exec_ok w' run st" "closed_ok w \<Longrightarrow> closed_ok w'" "evolves (set_state Canceled t w) w'"
  using finish_ok [OF assms(1,2), of Canceled w'] assms(3) by (auto simp: Cancel_def)

section \<open>Every step keeps the invariant\<close>

lemma dyn_ok_cong:
  assumes "dyn_ok w run st" "next_task w' = next_task w" "queue w' = queue w" "timer_queue w' = timer_queue w"
    and "\<And>u. state (tasks w' u) = state (tasks w u)" "\<And>u. func (tasks w' u) = func (tasks w u)"
    and "\<And>u. expired (tasks w' u) = expired (tasks w u)"
    and "\<And>u. has_time_trigger (tasks w u) \<Longrightarrow> has_time_trigger (tasks w' u)"
  shows "dyn_ok w' run st"
  using assms(1,8) unfolding dyn_ok_def IsFinished_def by (simp add: assms(2-7))

subsection \<open>Creating and connecting tasks\<close>

lemma AddDependency_simps [simp]:
  "next_task (AddDependency t d w) = next_task w" "queue (AddDependency t d w) = queue w"
  "timer_queue (AddDependency t d w) = timer_queue w" "closed (AddDependency t d w) = closed w"
  "state (tasks (AddDependency t d w) u) = state (tasks w u)"
  "func (tasks (AddDependency t d w) u) = func (tasks w u)"
  "expired (tasks (AddDependency t d w) u) = expired (tasks w u)"
  "has_time_trigger (tasks (AddDependency t d w) u) = has_time_trigger (tasks w u)"
  "has_triggers (tasks (AddDependency t d w) u) = has_triggers (tasks w u)"
  "dependencies (tasks (AddDependency t d w) u) = (if u = t then dependencies (tasks w t) @ [d] else dependencies (tasks w u))"
  "has_dependencies (tasks (AddDependency t d w) u) = (u = t \<or> has_dependencies (tasks w u))"
  "depended (tasks (AddDependency t d w) u) =
     (if u = d \<and> \<not> IsFinished d w then depended (tasks w d) @ [t] else depended (tasks w u))"
  "dependecies_cnt (tasks (AddDependency t d w) u) =
     (if u = t \<and> \<not> IsFinished d w then dependecies_cnt (tasks w t) + 1 else dependecies_cnt (tasks w u))"
  by (auto simp: AddDependency_def AddDepended_def)

lemma IsFinished_AddDependency [simp]: "IsFinished u (AddDependency t d w) = IsFinished u w"
  by (simp add: IsFinished_def)

lemma pending_AddDependency:
  assumes "d < next_task w"
  shows "pending Map.empty (AddDependency t d w) x =
    pending Map.empty w x + (if x = t \<and> \<not> IsFinished d w then 1 else 0)"
proof -
  let ?w = "AddDependency t d w"
  have "(\<Sum>u \<in> {..<next_task w} - {d}. count_list (effective Map.empty ?w u) x) =
      (\<Sum>u \<in> {..<next_task w} - {d}. count_list (effective Map.empty w u) x)"
    by (rule sum.cong) (auto simp: effective_def)
  then show ?thesis
    using assms unfolding pending_def
    by (simp add: sum.remove [of "{..<next_task w}" d] effective_def)
qed

lemma AddDependency_inv:
  assumes inv: "exec_inv Map.empty w" and td: "t < next_task w" "d < next_task w" "state (tasks w t) = Created"
  shows "exec_inv Map.empty (AddDependency t d w)"
proof -
  let ?w = "AddDependency t d w"
  have e: "effective Map.empty v = (\<lambda>u. depended (tasks v u))" for v :: Executor by (rule ext) (simp add: effective_def)
  have "counted Map.empty ?w"
    using inv unfolding exec_inv_def counted_def pending_AddDependency [OF td(2)] by simp
  moreover have "notifying Map.empty ?w" using inv td by (auto simp: exec_inv_def notifying_def)
  moreover have "linked Map.empty ?w"
    unfolding linked_def e
  proof (intro allI impI conjI ballI)
    fix a d' assume a: "\<not> expired (tasks ?w a) \<and> state (tasks ?w a) \<in> {Created, Submitted}"
    have old: "d' \<in> set (dependencies (tasks w a)) \<Longrightarrow> IsFinished d' w \<or> a \<in> set (depended (tasks w d'))"
      "a \<in> set (depended (tasks w d')) \<Longrightarrow> d' \<in> set (dependencies (tasks w a))"
      using inv a unfolding exec_inv_def linked_def e by auto
    show "d' \<in> set (dependencies (tasks ?w a)) \<Longrightarrow> IsFinished d' ?w \<or> a \<in> set (depended (tasks ?w d'))"
      using old(1) by (auto split: if_splits)
    show "a \<in> set (depended (tasks ?w d')) \<Longrightarrow> d' \<in> set (dependencies (tasks ?w a))"
      using old(2) by (auto split: if_splits)
  qed
  moreover have "joins_ok ?w"
    using inv td(3) unfolding exec_inv_def joins_ok_def join_waits_def by (auto split: if_splits)
  ultimately show ?thesis by (simp add: exec_inv_def)
qed

lemma AddDependency_dyn: "dyn_ok w run st \<Longrightarrow> dyn_ok (AddDependency t d w) run st"
  by (erule dyn_ok_cong) simp_all

lemma AddTrigger_inv:
  "exec_inv R w \<Longrightarrow> state (tasks w t) = Created \<Longrightarrow> exec_inv R (AddTrigger t d w)"
  by (erule exec_inv_cong) (auto simp: AddTrigger_def AddTriggered_def)

lemma AddTrigger_dyn: "dyn_ok w run st \<Longrightarrow> dyn_ok (AddTrigger t d w) run st"
  by (erule dyn_ok_cong) (auto simp: AddTrigger_def AddTriggered_def)

lemma SetTimeTrigger_inv:
  "exec_inv R w \<Longrightarrow> state (tasks w t) = Created \<Longrightarrow> exec_inv R (SetTimeTrigger t at w)"
  by (erule exec_inv_cong) (auto simp: SetTimeTrigger_def)

lemma SetTimeTrigger_dyn: "dyn_ok w run st \<Longrightarrow> dyn_ok (SetTimeTrigger t at w) run st"
  by (erule dyn_ok_cong) (auto simp: SetTimeTrigger_def)

lemma make_future_inv:
  assumes inv: "exec_inv Map.empty w" and m: "make_future j w = (t, w')"
  shows "exec_inv Map.empty w'" "t = next_task w" "next_task w' = next_task w + 1"
    "tasks w' = (tasks w)(t := new_task j)" "queue w' = queue w" "timer_queue w' = timer_queue w" "closed w' = closed w"
proof -
  show t: "t = next_task w" and n: "next_task w' = next_task w + 1" and ts: "tasks w' = (tasks w)(t := new_task j)"
    and "queue w' = queue w" "timer_queue w' = timer_queue w" "closed w' = closed w"
    using m by (auto simp: make_future_def)
  have fresh: "depended (tasks w t) = []" "dependencies (tasks w t) = []" "state (tasks w t) = Created" "\<not> expired (tasks w t)"
    using inv t by (auto simp: exec_inv_def notifying_def)
  have e: "effective Map.empty w' = effective Map.empty w"
    using fresh(1) by (auto simp: effective_def ts new_task_def)
  have f: "IsFinished u w' = IsFinished u w" for u using fresh(3) by (simp add: IsFinished_def ts new_task_def)
  have t_unused: "t \<notin> set (effective Map.empty w u)" for u
    using inv fresh(2-4) unfolding exec_inv_def linked_def by fastforce
  have p: "pending Map.empty w' x = pending Map.empty w x" for x
    using fresh(1) by (simp add: pending_def e n t) (simp add: effective_def t)
  have "pending Map.empty w t = 0" using t_unused by (simp add: pending_def count_list_0_iff)
  then have "counted Map.empty w'"
    using inv unfolding exec_inv_def counted_def p by (simp add: ts new_task_def)
  moreover have "notifying Map.empty w'"
    using inv f n unfolding exec_inv_def notifying_def by (auto simp: ts new_task_def)
  moreover have "linked Map.empty w'"
    using inv t_unused unfolding exec_inv_def linked_def e f by (auto simp: ts new_task_def)
  moreover have "joins_ok w'"
    using inv unfolding exec_inv_def joins_ok_def join_waits_def f by (auto simp: ts new_task_def)
  ultimately show "exec_inv Map.empty w'" by (simp add: exec_inv_def)
qed

text \<open>What a step leaves of the other tasks when it allocates task \<open>t\<close>.\<close>

lemma dyn_ok_new:
  assumes dyn: "dyn_ok w run st" and inv: "exec_inv Map.empty w" and t: "t = next_task w" "next_task w' = next_task w + 1"
    and "queue w' = queue w" "timer_queue w' = timer_queue w"
    and old: "\<And>u. u \<noteq> t \<Longrightarrow> state (tasks w' u) = state (tasks w u) \<and> func (tasks w' u) = func (tasks w u) \<and>
      expired (tasks w' u) = expired (tasks w u) \<and> has_time_trigger (tasks w' u) = has_time_trigger (tasks w u)"
    and new: "state (tasks w' t) \<noteq> Created \<or> (\<forall>ids. func (tasks w' t) \<noteq> JoinAll ids)"
  shows "dyn_ok w' run st"
proof -
  have st: "state (tasks w t) = Created" using inv t by (simp add: exec_inv_def notifying_def)
  then have q: "t \<notin> set (queue w)" "t \<notin> set st" "t \<notin> set (timer_queue w)" "t \<notin> set run"
    using dyn t(1) by (auto simp: dyn_ok_def)
  have fin: "IsFinished d w \<Longrightarrow> IsFinished d w'" for d
    using st old [of d] by (cases "d = t") (auto simp: IsFinished_def)
  have ne: "u \<in> set (queue w) \<union> set st \<union> set (timer_queue w) \<union> set run \<Longrightarrow> u \<noteq> t" for u using q by auto
  have joins: "\<forall>a ids. func (tasks w' a) = JoinAll ids \<longrightarrow> state (tasks w' a) \<noteq> Created"
    using dyn old new unfolding dyn_ok_def by metis
  have runs: "\<forall>a \<in> set run. \<forall>ids. func (tasks w' a) = JoinAll ids \<longrightarrow> (\<forall>d \<in> set ids. IsFinished d w')"
    using dyn old ne fin unfolding dyn_ok_def by (metis UnCI)
  show ?thesis
    using dyn joins runs old ne unfolding dyn_ok_def by (auto simp: t assms(5,6))
qed

subsection \<open>Submitting\<close>

lemma submit_state_inv:
  assumes inv: "exec_inv Map.empty w" and t: "t < next_task w" "state (tasks w t) = Created"
    and join: "\<And>ids. func (tasks w t) = JoinAll ids \<Longrightarrow> join_waits w t ids"
  shows "exec_inv Map.empty (set_state Submitted t w)"
proof -
  let ?w = "set_state Submitted t w"
  have e: "effective Map.empty ?w = effective Map.empty w" by (rule ext) (simp add: effective_def)
  have f: "IsFinished u ?w = IsFinished u w" for u using t(2) by (simp add: IsFinished_def)
  have "counted Map.empty ?w" using inv unfolding exec_inv_def counted_def pending_def e by simp
  moreover have "notifying Map.empty ?w" using inv t unfolding exec_inv_def notifying_def f by auto
  moreover have "linked Map.empty ?w" using inv t(2) unfolding exec_inv_def linked_def e f by auto
  moreover have "joins_ok ?w"
    using inv join unfolding exec_inv_def joins_ok_def f by (auto simp: join_waits_def)
  ultimately show ?thesis by (simp add: exec_inv_def)
qed

lemma TryToEnque_ok:
  assumes inv: "exec_inv Map.empty w" and dyn: "dyn_ok w run st" and t: "\<not> expired (tasks w t)"
    and run: "TryToEnque OnFinished t w = Some w'"
  shows "exec_ok w' run st" "closed_ok w \<Longrightarrow> closed_ok w'" "evolves w w'"
proof -
  show ev: "evolves w w'" by (rule ev.TryToEnque_rel [where f = OnFinished, OF _ run]) (rule ev.OnFinished_rel)
  show "exec_ok w' run st"
    using TryToEnque_inv [OF OnFinished_inv inv t run] dyn_ok_evolves [OF dyn ev inv] by (simp add: exec_ok_def)
  show "closed_ok w \<Longrightarrow> closed_ok w'" by (rule closed_ok_evolves [OF _ ev])
qed

lemma queue_set_ok:
  "exec_inv R w \<Longrightarrow> exec_inv R (upd t (\<lambda>x. x\<lparr>queue_set := b\<rparr>) w)"
  "dyn_ok w run st \<Longrightarrow> dyn_ok (upd t (\<lambda>x. x\<lparr>queue_set := b\<rparr>) w) run st"
  "closed_ok w \<Longrightarrow> closed_ok (upd t (\<lambda>x. x\<lparr>queue_set := b\<rparr>) w)"
proof -
  show "exec_inv R w \<Longrightarrow> exec_inv R (upd t (\<lambda>x. x\<lparr>queue_set := b\<rparr>) w)" by (erule exec_inv_cong) auto
  show "dyn_ok w run st \<Longrightarrow> dyn_ok (upd t (\<lambda>x. x\<lparr>queue_set := b\<rparr>) w) run st" by (erule dyn_ok_cong) auto
  show "closed_ok w \<Longrightarrow> closed_ok (upd t (\<lambda>x. x\<lparr>queue_set := b\<rparr>) w)" by (simp add: closed_ok_def)
qed

text \<open>
  A submission from a state where only the new task, still \<open>Created\<close>, may break \<open>dyn_ok\<close>: this
  covers both \<open>Submit\<close> on a caller's task and the end of \<open>WhenAll\<close>.
\<close>

lemma Submit_created_ok:
  assumes inv: "exec_inv Map.empty w" and t: "t < next_task w" "\<not> expired (tasks w t)" "state (tasks w t) = Created"
    and join: "\<And>ids. func (tasks w t) = JoinAll ids \<Longrightarrow> join_waits w t ids"
    and dyn: "dyn_ok (set_state Submitted t w) run st" and cl: "closed_ok (set_state Submitted t w)"
    and run: "Submit t w = Some w'"
  shows "exec_ok w' run st" "closed_ok w'" "\<not> expired (tasks w' t)" "t < next_task w'"
proof -
  let ?q = "upd t (\<lambda>x. x\<lparr>queue_set := True\<rparr>)"
  have comm: "set_state Submitted t (?q w) = ?q (set_state Submitted t w)"
    by (cases "tasks w t") (simp add: set_state_def upd_def)
  have sub: "exec_inv Map.empty (?q (set_state Submitted t w))" "dyn_ok (?q (set_state Submitted t w)) run st"
    "closed_ok (?q (set_state Submitted t w))" "\<not> expired (tasks (?q (set_state Submitted t w)) t)"
    using queue_set_ok submit_state_inv [OF inv t(1,3) join] dyn cl t(2) by auto
  have "TryToEnque OnFinished t (?q (set_state Submitted t w)) = Some w'"
    using run t(3) by (simp add: Submit_def Let_def comm)
  note ok = TryToEnque_ok [OF sub(1,2,4) this]
  show "exec_ok w' run st" "closed_ok w'" using ok sub by auto
  show "\<not> expired (tasks w' t)" "t < next_task w'" using evolvesD(1,4) [OF ok(3)] sub(4) t(1) by auto
qed

lemma Submit_ok:
  assumes ok: "exec_ok w run st" "closed_ok w" and t: "live t w" and run: "Submit t w = Some w'"
  shows "exec_ok w' run st" "closed_ok w'" "live t w'"
proof -
  have inv: "exec_inv Map.empty w" and dyn: "dyn_ok w run st" using ok by (auto simp: exec_ok_def)
  have t': "t < next_task w" "\<not> expired (tasks w t)" using t by (auto simp: live_def)
  have "exec_ok w' run st \<and> closed_ok w' \<and> live t w'"
  proof (cases "state (tasks w t) = Created")
    case True
    have nojoin: "func (tasks w t) \<noteq> JoinAll ids" for ids using dyn True by (auto simp: dyn_ok_def)
    have "t \<notin> set (queue w)" "t \<notin> set st" using dyn True by (auto simp: dyn_ok_def)
    moreover have "IsFinished d w \<Longrightarrow> IsFinished d (set_state Submitted t w)" for d
      using True by (auto simp: IsFinished_def)
    ultimately have d: "dyn_ok (set_state Submitted t w) run st" using dyn unfolding dyn_ok_def by auto
    have c: "closed_ok (set_state Submitted t w)" using ok(2) \<open>t \<notin> set (queue w)\<close> by (auto simp: closed_ok_def)
    show ?thesis
      using Submit_created_ok [OF inv t' True _ d c run] nojoin by (auto simp: live_def)
  next
    case False
    then have "w' = upd t (\<lambda>x. x\<lparr>queue_set := True\<rparr>) w" using run by (simp add: Submit_def Let_def)
    then show ?thesis using queue_set_ok inv dyn ok(2) t' by (auto simp: exec_ok_def live_def)
  qed
  then show "exec_ok w' run st" "closed_ok w'" "live t w'" by auto
qed

lemma TimerQueue_Push_ok:
  assumes ok: "exec_ok w run st" "closed_ok w" and t: "live t w" "has_time_trigger (tasks w t)"
    and run: "TimerQueue_Push t w = Some w'"
  shows "exec_ok w' run st \<and> closed_ok w'"
proof (cases "timer_closed w")
  case True
  then show ?thesis using Cancel_ok [OF ok(1), of t w'] run t(1) ok(2) by (simp add: TimerQueue_Push_def live_def)
next
  case False
  then have w': "w' = w\<lparr>timer_queue := timer_queue w @ [t]\<rparr>" using run by (simp add: TimerQueue_Push_def)
  have "exec_inv Map.empty w'" using ok(1) unfolding exec_ok_def w' by (auto intro: exec_inv_cong)
  moreover have "dyn_ok w' run st"
    using ok(1) t unfolding exec_ok_def w' dyn_ok_def IsFinished_def live_def by auto
  ultimately show ?thesis using ok(2) by (simp add: exec_ok_def closed_ok_def w')
qed

lemma Executor_Submit_after:
  assumes "Executor_Submit t w = Some w'"
  obtains v where "Submit t w = Some v"
    "w' = v \<or> has_time_trigger (tasks v t) \<and> TimerQueue_Push t v = Some w'"
  using assms by (auto simp: Executor_Submit_def Option.bind_eq_Some_conv split: if_splits)

lemma Executor_Submit_ok:
  assumes ok: "exec_ok w run st" "closed_ok w" and t: "live t w" and run: "Executor_Submit t w = Some w'"
  shows "exec_ok w' run st \<and> closed_ok w'"
proof -
  obtain v where v: "Submit t w = Some v" "w' = v \<or> has_time_trigger (tasks v t) \<and> TimerQueue_Push t v = Some w'"
    using Executor_Submit_after [OF run] .
  then show ?thesis using Submit_ok [OF ok t v(1)] TimerQueue_Push_ok [of v run st t w'] by auto
qed

subsection \<open>WhenAll\<close>

lemma fold_AddDependency:
  assumes "exec_inv Map.empty w" "t < next_task w" "state (tasks w t) = Created" "\<forall>d \<in> set ids. d < next_task w"
  shows "exec_inv Map.empty (fold (AddDependency t) ids w) \<and>
    next_task (fold (AddDependency t) ids w) = next_task w \<and> queue (fold (AddDependency t) ids w) = queue w \<and>
    timer_queue (fold (AddDependency t) ids w) = timer_queue w \<and> closed (fold (AddDependency t) ids w) = closed w \<and>
    (\<forall>u. state (tasks (fold (AddDependency t) ids w) u) = state (tasks w u) \<and>
         func (tasks (fold (AddDependency t) ids w) u) = func (tasks w u) \<and>
         expired (tasks (fold (AddDependency t) ids w) u) = expired (tasks w u) \<and>
         has_time_trigger (tasks (fold (AddDependency t) ids w) u) = has_time_trigger (tasks w u) \<and>
         has_triggers (tasks (fold (AddDependency t) ids w) u) = has_triggers (tasks w u)) \<and>
    dependencies (tasks (fold (AddDependency t) ids w) t) = dependencies (tasks w t) @ ids \<and>
    has_dependencies (tasks (fold (AddDependency t) ids w) t) = (has_dependencies (tasks w t) \<or> ids \<noteq> [])"
  using assms
proof (induction ids arbitrary: w)
  case (Cons d ids)
  have "exec_inv Map.empty (AddDependency t d w)" using AddDependency_inv Cons(2-5) by simp
  then show ?case using Cons(1) [of "AddDependency t d w"] Cons(3-5) by simp
qed simp

lemma WhenAll_ok:
  assumes ok: "exec_ok w run st" "closed_ok w" and ids: "\<forall>d \<in> set ids. live d w" and call: "WhenAll ids w = Some w'"
  shows "exec_ok w' run st \<and> closed_ok w'"
proof -
  have inv: "exec_inv Map.empty w" and dyn: "dyn_ok w run st" using ok by (auto simp: exec_ok_def)
  obtain t w1 where m: "make_future (JoinAll ids) w = (t, w1)" by fastforce
  note mf = make_future_inv [OF inv m]
  define w2 where "w2 = fold (AddDependency t) ids w1"
  have sub: "Executor_Submit t w2 = Some w'" using call m by (simp add: WhenAll_def w2_def)
  have st1: "state (tasks w1 t) = Created" "\<not> expired (tasks w1 t)" "func (tasks w1 t) = JoinAll ids"
    "\<not> has_triggers (tasks w1 t)" "\<not> has_time_trigger (tasks w1 t)" "\<not> has_dependencies (tasks w1 t)"
    by (simp_all add: mf(4) new_task_def)
  have tlt: "t < next_task w1" and bnd: "\<forall>d \<in> set ids. d < next_task w1"
    using ids mf(2,3) by (auto simp: live_def)
  have f: "exec_inv Map.empty w2" "next_task w2 = next_task w1" "queue w2 = queue w1" "timer_queue w2 = timer_queue w1"
    "closed w2 = closed w1" "\<And>u. state (tasks w2 u) = state (tasks w1 u)" "\<And>u. func (tasks w2 u) = func (tasks w1 u)"
    "\<And>u. expired (tasks w2 u) = expired (tasks w1 u)" "\<And>u. has_time_trigger (tasks w2 u) = has_time_trigger (tasks w1 u)"
    "\<And>u. has_triggers (tasks w2 u) = has_triggers (tasks w1 u)" "dependencies (tasks w2 t) = dependencies (tasks w1 t) @ ids"
    "has_dependencies (tasks w2 t) = (ids \<noteq> [])"
    using fold_AddDependency [OF mf(1) tlt st1(1) bnd, folded w2_def] st1(6) by blast+
  have t: "t < next_task w2" "\<not> expired (tasks w2 t)" "state (tasks w2 t) = Created"
    using mf(2,3) f st1 by auto
  have join: "join_waits w2 t is" if "func (tasks w2 t) = JoinAll is" for "is"
    using that f(7,9-12) st1 by (auto simp: join_waits_def)
  have d2: "dyn_ok (set_state Submitted t w2) run st"
    by (rule dyn_ok_new [OF dyn inv mf(2)]) (use f mf in auto)
  have "t \<notin> set (queue w)" using dyn mf(2) by (auto simp: dyn_ok_def)
  then have c2: "closed_ok (set_state Submitted t w2)" using ok(2) f(3,5,6) mf by (auto simp: closed_ok_def)
  obtain v where v: "Submit t w2 = Some v" "w' = v \<or> has_time_trigger (tasks v t) \<and> TimerQueue_Push t v = Some w'"
    using Executor_Submit_after [OF sub] .
  note S = Submit_created_ok [OF f(1) t join d2 c2 v(1)]
  show ?thesis using v(2) S TimerQueue_Push_ok [OF S(1,2), of t w'] by (auto simp: live_def)
qed

subsection \<open>Threads\<close>

lemma worker_pop_ok: "system_inv s \<Longrightarrow> system_inv (worker_pop s)"
proof (cases "queue (exec s)")
  case (Cons t rest)
  assume ok: "system_inv s"
  let ?w = "exec s" and ?w' = "(exec s)\<lparr>queue := rest\<rparr>"
  have inv: "exec_inv Map.empty ?w" and dyn: "dyn_ok ?w (running s) (started s)" and cl: "closed_ok ?w"
    using ok by (auto simp: system_inv_def exec_ok_def)
  have inv': "exec_inv Map.empty ?w'" by (rule exec_inv_queue [OF inv])
  have cl': "closed_ok ?w'" using cl Cons by (auto simp: closed_ok_def)
  have dyn': "dyn_ok ?w' (running s) (started s)" using dyn Cons unfolding dyn_ok_def IsFinished_def by auto
  show ?thesis
  proof (cases "state (tasks ?w t) = Canceled")
    case True
    then show ?thesis
      using inv' dyn' cl' Cons by (simp add: worker_pop_def TasksQueue_Pop_def IsCanceled_def system_inv_def exec_ok_def)
  next
    case False
    then have st: "state (tasks ?w t) = Enqueued" "t < next_task ?w" "t \<notin> set rest" "t \<notin> set (started s)"
      using dyn Cons by (auto simp: dyn_ok_def)
    then have "\<forall>ids. func (tasks ?w t) = JoinAll ids \<longrightarrow> (\<forall>d \<in> set ids. IsFinished d ?w')"
      using inv unfolding exec_inv_def joins_ok_def IsFinished_def by auto
    then have "dyn_ok ?w' (running s @ [t]) (started s @ [t])" using dyn' st unfolding dyn_ok_def by auto
    then show ?thesis
      using inv' cl' Cons False by (simp add: worker_pop_def TasksQueue_Pop_def IsCanceled_def system_inv_def exec_ok_def)
  qed
qed (simp add: worker_pop_def TasksQueue_Pop_def)

lemma exec_ok_frame:
  assumes ok: "exec_ok w run st" and same: "tasks w' = tasks w" "next_task w' = next_task w" "queue w' = queue w"
    "timer_queue w' = timer_queue w"
  shows "exec_ok w' run st"
proof -
  have ok': "exec_inv Map.empty w" "dyn_ok w run st" using ok by (auto simp: exec_ok_def)
  have "exec_inv Map.empty w'" by (rule exec_inv_cong [OF ok'(1)]) (simp_all add: same)
  moreover have "dyn_ok w' run st" by (rule dyn_ok_cong [OF ok'(2)]) (simp_all add: same)
  ultimately show ?thesis by (simp add: exec_ok_def)
qed

lemma exec_ok_upd:
  assumes "exec_ok w run st"
    and "\<And>x. state (f x) = state x \<and> expired (f x) = expired x \<and> depended (f x) = depended x \<and>
      dependecies_cnt (f x) = dependecies_cnt x \<and> dependencies (f x) = dependencies x \<and> func (f x) = func x \<and>
      has_triggers (f x) = has_triggers x \<and> has_time_trigger (f x) = has_time_trigger x \<and>
      has_dependencies (f x) = has_dependencies x"
  shows "exec_ok (upd t f w) run st"
proof -
  have ok: "exec_inv Map.empty w" "dyn_ok w run st" using assms(1) by (auto simp: exec_ok_def)
  have "exec_inv Map.empty (upd t f w)" by (rule exec_inv_cong [OF ok(1)]) (simp_all add: assms(2))
  moreover have "dyn_ok (upd t f w) run st" by (rule dyn_ok_cong [OF ok(2)]) (auto simp: assms(2))
  ultimately show ?thesis by (simp add: exec_ok_def)
qed

lemma worker_finish_ok:
  assumes ok: "exec_ok w run st" "closed_ok w" and t: "t \<in> set run" and fin: "worker_finish t w = Some w'"
  shows "exec_ok w' run st \<and> closed_ok w'"
proof -
  have tq: "t < next_task w" "t \<notin> set (queue w)" using ok(1) t by (auto simp: exec_ok_def dyn_ok_def)
  obtain r where r: "Future_Run t w = Some r" using fin by (auto simp: worker_finish_def Option.bind_eq_Some_conv)
  show ?thesis
  proof (cases r)
    case (Inl e)
    let ?w = "upd t (\<lambda>x. x\<lparr>exc_ptr := Some e\<rparr>) w"
    have o: "exec_ok ?w run st" by (rule exec_ok_upd [OF ok(1)]) simp
    have "OnFinished t (set_state Failed t ?w) = Some w'"
      using fin r Inl by (simp add: worker_finish_def Fail_def SetError_def)
    from finish_ok [OF o _ _ _ this] tq ok(2) show ?thesis by (auto simp: closed_ok_def)
  next
    case (Inr v)
    let ?w = "upd t (\<lambda>x. x\<lparr>future_result := v\<rparr>) w"
    have o: "exec_ok ?w run st" by (rule exec_ok_upd [OF ok(1)]) simp
    have "OnFinished t (set_state Completed t ?w) = Some w'"
      using fin r Inr by (simp add: worker_finish_def Complete_def)
    from finish_ok [OF o _ _ _ this] tq ok(2) show ?thesis by (auto simp: closed_ok_def)
  qed
qed

lemma timer_front_in: "timer_front w b ts \<in> set (b # ts)"
  by (induction ts arbitrary: b) (auto split: if_splits)

lemma timer_thread_ok:
  assumes ok: "exec_ok w run st" "closed_ok w" and step: "timer_thread now w = Some w'"
  shows "exec_ok w' run st \<and> closed_ok w'"
proof (cases "fst (TimerQueue_Pop now w)")
  case (Popped t)
  let ?w = "w\<lparr>timer_queue := remove1 t (timer_queue w)\<rparr>"
  have pop: "TimerQueue_Pop now w = (Popped t, ?w)" and t: "t \<in> set (timer_queue w)"
    using Popped timer_front_in by (auto simp: TimerQueue_Pop_def Let_def split: list.splits if_splits)
  have inv: "exec_inv Map.empty ?w" using ok(1) unfolding exec_ok_def by (auto intro: exec_inv_cong)
  have dyn: "dyn_ok ?w run st"
    using ok(1) unfolding exec_ok_def dyn_ok_def IsFinished_def by (auto dest: notin_set_remove1)
  have cl: "closed_ok ?w" using ok(2) by (simp add: closed_ok_def)
  show ?thesis
  proof (cases "IsCanceled t ?w")
    case True
    then show ?thesis using step pop inv dyn cl by (simp add: timer_thread_def exec_ok_def)
  next
    case False
    then have enq: "Enque OnFinished t ?w = Some w'" using step pop by (simp add: timer_thread_def)
    have ev: "evolves ?w w'" by (rule ev.Enque_rel [where f = OnFinished, OF _ enq]) (rule ev.OnFinished_rel)
    have tt: "has_time_trigger (tasks w t)" "\<not> expired (tasks w t)" using ok(1) t by (auto simp: exec_ok_def dyn_ok_def)
    have "exec_inv Map.empty w'"
    proof (rule Enque_inv [OF OnFinished_inv inv enq])
      fix ids d assume "state (tasks ?w t) = Submitted" "func (tasks ?w t) = JoinAll ids"
      then have "join_waits ?w t ids" using inv tt(2) unfolding exec_inv_def joins_ok_def by auto
      then show "IsFinished d ?w" using tt(1) by (simp add: join_waits_def)
    qed
    then show ?thesis using dyn_ok_evolves [OF dyn ev inv] closed_ok_evolves [OF cl ev] by (simp add: exec_ok_def)
  qed
qed (use ok step in \<open>auto simp: timer_thread_def TimerQueue_Pop_def Let_def split: list.splits if_splits\<close>)

subsection \<open>Shutdown\<close>

lemma Cancel_all:
  assumes "exec_ok w run st" "\<forall>t \<in> set ts. t < next_task w" "foldM Cancel ts w = Some w'"
  shows "exec_ok w' run st \<and> next_task w' = next_task w \<and> timer_queue w' = timer_queue w \<and> closed w' = closed w \<and>
    (closed w \<longrightarrow> queue w' = queue w) \<and> (closed_ok w \<longrightarrow> closed_ok w') \<and>
    (\<forall>t. t \<in> set ts \<or> state (tasks w t) = Canceled \<longrightarrow> state (tasks w' t) = Canceled)"
  using assms
proof (induction ts arbitrary: w)
  case (Cons t ts)
  then obtain v where v: "Cancel t w = Some v" "foldM Cancel ts v = Some w'"
    by (auto simp: Option.bind_eq_Some_conv)
  note C = Cancel_ok [OF Cons(2) _ v(1)]
  have ev: "evolves (set_state Canceled t w) v" using C(3) Cons(3) by simp
  note D = evolvesD [OF ev]
  obtain new where "queue v = queue w @ new" "closed w \<longrightarrow> new = []"
    using evolves_queue [OF ev] by (metis set_state_simps(3,4))
  then have q: "closed w \<longrightarrow> queue v = queue w" by simp
  have can: "u = t \<or> state (tasks w u) = Canceled \<Longrightarrow> state (tasks v u) = Canceled" for u
    using D(8) [of u] by auto
  have "exec_ok w' run st \<and> next_task w' = next_task v \<and> timer_queue w' = timer_queue v \<and> closed w' = closed v \<and>
    (closed v \<longrightarrow> queue w' = queue v) \<and> (closed_ok v \<longrightarrow> closed_ok w') \<and>
    (\<forall>t. t \<in> set ts \<or> state (tasks v t) = Canceled \<longrightarrow> state (tasks w' t) = Canceled)"
    using Cons(1) [OF _ _ v(2)] C(1) Cons(3) D(1) by simp
  then show ?case using C(2) Cons(3) D(1,2,6) q can by auto
qed simp

lemma StartShutdown_ok:
  assumes ok: "exec_ok w run st" "closed_ok w" and s: "StartShutdown w = Some w'"
  shows "exec_ok w' run st \<and> closed_ok w'"
proof -
  obtain v where v: "TasksQueue_Close w = Some v" "TimerQueue_Close v = Some w'"
    using s by (auto simp: StartShutdown_def Option.bind_eq_Some_conv)
  have vok: "exec_ok v run st \<and> closed_ok v"
  proof (cases "closed w")
    case False
    let ?w = "w\<lparr>closed := True\<rparr>"
    have o: "exec_ok ?w run st" by (rule exec_ok_frame [OF ok(1)]) simp_all
    moreover have "\<forall>t \<in> set (queue w). t < next_task ?w" using ok(1) by (auto simp: exec_ok_def dyn_ok_def)
    moreover have "foldM Cancel (queue w) ?w = Some v" using v(1) False by (simp add: TasksQueue_Close_def)
    ultimately have "exec_ok v run st \<and> closed v \<and> queue v = queue w \<and> (\<forall>t \<in> set (queue w). state (tasks v t) = Canceled)"
      using Cancel_all [OF o, of "queue w" v] by simp
    then show ?thesis by (simp add: closed_ok_def)
  qed (use ok v(1) in \<open>simp add: TasksQueue_Close_def\<close>)
  show ?thesis
  proof (cases "timer_closed v")
    case False
    let ?w = "v\<lparr>timer_closed := True\<rparr>"
    have o: "exec_ok ?w run st" using vok by (auto intro: exec_ok_frame [of v])
    moreover have "\<forall>t \<in> set (timer_queue v). t < next_task ?w" using vok by (auto simp: exec_ok_def dyn_ok_def)
    moreover have "foldM Cancel (timer_queue v) ?w = Some w'" using v(2) False by (simp add: TimerQueue_Close_def)
    moreover have "closed_ok ?w" using vok by (simp add: closed_ok_def)
    ultimately show ?thesis using Cancel_all [OF o, of "timer_queue v" w'] by simp
  qed (use vok v(2) in \<open>simp add: TimerQueue_Close_def\<close>)
qed

lemma release_inv: "exec_inv Map.empty w \<Longrightarrow> t < next_task w \<Longrightarrow> exec_inv Map.empty (upd t (\<lambda>x. x\<lparr>expired := True\<rparr>) w)"
proof -
  assume inv: "exec_inv Map.empty w" and t: "t < next_task w"
  let ?w = "upd t (\<lambda>x. x\<lparr>expired := True\<rparr>) w"
  have e: "effective Map.empty ?w = effective Map.empty w" by (rule ext) (simp add: effective_def)
  have f: "IsFinished u ?w = IsFinished u w" for u by (simp add: IsFinished_def)
  have "counted Map.empty ?w" using inv unfolding exec_inv_def counted_def pending_def e by auto
  moreover have "notifying Map.empty ?w" using inv t unfolding exec_inv_def notifying_def f by auto
  moreover have "linked Map.empty ?w" using inv unfolding exec_inv_def linked_def e f by auto
  moreover have "joins_ok ?w" using inv unfolding exec_inv_def joins_ok_def f by (auto simp: join_waits_def)
  ultimately show ?thesis by (simp add: exec_inv_def)
qed

lemma closed_ok_cong:
  "closed w' = closed w \<Longrightarrow> queue w' = queue w \<Longrightarrow> (\<And>u. state (tasks w' u) = state (tasks w u)) \<Longrightarrow>
   closed_ok w' = closed_ok w"
  by (simp add: closed_ok_def)

lemma system_inv_step: "exec_step s s' \<Longrightarrow> system_inv s \<Longrightarrow> system_inv s'"
proof (induction rule: exec_step.induct)
  case (step_task j s t w)
  have inv: "exec_inv Map.empty (exec s)" and dyn: "dyn_ok (exec s) (running s) (started s)" and cl: "closed_ok (exec s)"
    using step_task(3) by (auto simp: system_inv_def exec_ok_def)
  note mf = make_future_inv [OF inv step_task(1)]
  have "dyn_ok w (running s) (started s)"
    by (rule dyn_ok_new [OF dyn inv mf(2,3,5,6)]) (use mf(4) step_task(2) in \<open>auto simp: new_task_def\<close>)
  moreover have "t \<notin> set (queue (exec s))" using dyn mf(2) by (auto simp: dyn_ok_def)
  then have "closed_ok w" using cl mf(4,5,7) by (auto simp: closed_ok_def)
  ultimately show ?case using mf(1) by (simp add: system_inv_def exec_ok_def)
next
  case (step_AddDependency t s d)
  then show ?case
    using AddDependency_inv [of "exec s" t d] AddDependency_dyn [of "exec s"]
    by (simp add: system_inv_def exec_ok_def live_def closed_ok_def)
next
  case (step_AddTrigger t s d)
  have "closed_ok (AddTrigger t d (exec s)) = closed_ok (exec s)"
    by (rule closed_ok_cong) (auto simp: AddTrigger_def AddTriggered_def)
  then show ?case
    using step_AddTrigger AddTrigger_inv [of Map.empty "exec s" t d] AddTrigger_dyn [of "exec s"]
    by (simp add: system_inv_def exec_ok_def)
next
  case (step_SetTimeTrigger t s at)
  have "closed_ok (SetTimeTrigger t at (exec s)) = closed_ok (exec s)"
    by (rule closed_ok_cong) (auto simp: SetTimeTrigger_def)
  then show ?case
    using step_SetTimeTrigger SetTimeTrigger_inv [of Map.empty "exec s" t at] SetTimeTrigger_dyn [of "exec s"]
    by (simp add: system_inv_def exec_ok_def)
next
  case (step_Submit t s w)
  then show ?case using Executor_Submit_ok [of "exec s" "running s" "started s" t w] by (simp add: system_inv_def)
next
  case (step_Cancel t s w)
  then show ?case using Cancel_ok [of "exec s" "running s" "started s" t w] by (simp add: system_inv_def live_def)
next
  case (step_WhenAll ids s w)
  then show ?case using WhenAll_ok [of "exec s" "running s" "started s" ids w] by (simp add: system_inv_def)
next
  case (step_worker_pop s)
  then show ?case by (rule worker_pop_ok)
next
  case (step_worker_finish t s w)
  then have "exec_ok w (running s) (started s) \<and> closed_ok w"
    using worker_finish_ok [of "exec s" "running s" "started s" t w] by (simp add: system_inv_def)
  moreover have "set (remove1 t (running s)) \<subseteq> set (running s)" by (rule set_remove1_subset)
  ultimately have "exec_ok w (remove1 t (running s)) (started s) \<and> closed_ok w"
    unfolding exec_ok_def dyn_ok_def by blast
  then show ?case by (simp add: system_inv_def)
next
  case (step_timer now s w)
  then show ?case using timer_thread_ok [of "exec s" "running s" "started s" now w] by (simp add: system_inv_def)
next
  case (step_StartShutdown s w)
  then show ?case using StartShutdown_ok [of "exec s" "running s" "started s" w] by (simp add: system_inv_def)
next
  case (step_destroy s)
  have ok: "exec_ok (exec s) (running s) (started s)" using step_destroy(4) by (simp add: system_inv_def)
  have "exec_ok ((exec s)\<lparr>queue_alive := False\<rparr>) (running s) (started s)"
    by (rule exec_ok_frame [OF ok]) simp_all
  then show ?case using step_destroy by (simp add: system_inv_def closed_ok_def)
next
  case (step_release t s)
  then have "exec_inv Map.empty (upd t (\<lambda>x. x\<lparr>expired := True\<rparr>) (exec s))"
    using release_inv by (simp add: system_inv_def exec_ok_def live_def)
  moreover have "dyn_ok (upd t (\<lambda>x. x\<lparr>expired := True\<rparr>) (exec s)) (running s) (started s)"
    using step_release unfolding system_inv_def exec_ok_def dyn_ok_def unreferenced_def IsFinished_def by auto
  ultimately show ?case using step_release by (simp add: system_inv_def exec_ok_def closed_ok_def)
qed

lemma system_inv_init: "system_inv System_init"
  by (simp add: system_inv_def exec_ok_def System_init_def Executor_init_def exec_inv_defs dyn_ok_def
      closed_ok_def pending_def effective_def new_task_def IsFinished_def join_waits_def)

lemma reachable_inv: "reachable s \<Longrightarrow> system_inv s"
  by (induction rule: rtranclp_induct) (auto intro: system_inv_init system_inv_step)

section \<open>Running a job never blocks\<close>

lemma Future_Get_finished: "IsFinished d w \<Longrightarrow> \<exists>r. Future_Get v d w = Some r"
  by (auto simp: Future_Get_def Wait_def)

lemma get_all_finished: "\<forall>d \<in> set ids. IsFinished d w \<Longrightarrow> \<exists>r. get_all ids res w = Some r"
proof (induction ids arbitrary: res)
  case (Cons d ids)
  then obtain r where "Future_Get VUnit d w = Some r" using Future_Get_finished by fastforce
  then show ?case using Cons by (cases r) auto
qed simp

lemma get_first_returns: "\<exists>r. get_first ids w = Some r"
  by (induction ids) (auto simp: Future_Get_finished)

lemma Future_Run_returns:
  assumes "\<And>ids. func (tasks w t) = JoinAll ids \<Longrightarrow> \<forall>d \<in> set ids. IsFinished d w"
  shows "\<exists>r. Future_Run t w = Some r"
  using assms get_all_finished [of _ w] get_first_returns
  by (cases "func (tasks w t)") (auto simp: Future_Run_def)

text \<open>The value of a \<open>WhenAll\<close> future: the inputs' values in order, or the first error among them.\<close>

lemma get_all_values:
  "(\<And>d. d \<in> set ids \<Longrightarrow> IsCompleted d w) \<Longrightarrow>
   get_all ids res w = Some (Inr (VList (res @ map (\<lambda>d. future_result (tasks w d)) ids)))"
proof (induction ids arbitrary: res)
  case (Cons d ids)
  have "IsCompleted d w" using Cons(2) by simp
  then have "Future_Get VUnit d w = Some (Inr (future_result (tasks w d)))"
    by (simp add: Future_Get_def Wait_def IsFinished_def IsCompleted_def)
  then show ?case using Cons by simp
qed simp

section \<open>An example run\<close>

text \<open>
  A future, a \<open>WhenAll\<close> over it, one worker that runs the first and picks up the second.
\<close>

definition demo1 :: System where
  "demo1 = System_init\<lparr>exec := snd (make_future (Invoked (Inr (VInt 7))) Executor_init)\<rparr>"
definition demo2 :: System where "demo2 = demo1\<lparr>exec := the (Executor_Submit 0 (exec demo1))\<rparr>"
definition demo3 :: System where "demo3 = demo2\<lparr>exec := the (WhenAll [0] (exec demo2))\<rparr>"
definition demo4 :: System where "demo4 = worker_pop demo3"
definition demo5 :: System where
  "demo5 = demo4\<lparr>exec := the (worker_finish 0 (exec demo4)), running := remove1 0 (running demo4)\<rparr>"
definition demo6 :: System where "demo6 = worker_pop demo5"

lemma some_the: "\<not> Option.is_none x \<Longrightarrow> x = Some (the x)"
  by (cases x) simp_all

lemma demo_steps:
  "exec_step System_init demo1" "exec_step demo1 demo2" "exec_step demo2 demo3" "exec_step demo3 demo4"
  "exec_step demo4 demo5" "exec_step demo5 demo6"
proof -
  show "exec_step System_init demo1"
    unfolding demo1_def
    by (rule step_task [where j = "Invoked (Inr (VInt 7))" and t = 0])
      (simp_all add: make_future_def System_init_def Executor_init_def)
  have "live 0 (exec demo1)" by code_simp
  moreover have "\<not> Option.is_none (Executor_Submit 0 (exec demo1))" by code_simp
  ultimately show "exec_step demo1 demo2" unfolding demo2_def by (blast intro: step_Submit some_the)
  have "live 0 (exec demo2)" by code_simp
  then have "\<forall>d \<in> set [0]. live d (exec demo2)" by simp
  moreover have "\<not> Option.is_none (WhenAll [0] (exec demo2))" by code_simp
  ultimately show "exec_step demo2 demo3" unfolding demo3_def by (blast intro: step_WhenAll some_the)
  show "exec_step demo3 demo4" unfolding demo4_def by (rule step_worker_pop)
  have "0 \<in> set (running demo4)" by code_simp
  moreover have "\<not> Option.is_none (worker_finish 0 (exec demo4))" by code_simp
  ultimately show "exec_step demo4 demo5" unfolding demo5_def by (blast intro: step_worker_finish some_the)
  show "exec_step demo5 demo6" unfolding demo6_def by (rule step_worker_pop)
qed

lemma demo_reachable: "reachable demo2" "reachable demo3" "reachable demo6"
proof -
  have "reachable System_init" by simp
  then have "reachable demo1" using demo_steps(1) by (rule rtranclp.rtrancl_into_rtrancl)
  then show r2: "reachable demo2" using demo_steps(2) by (rule rtranclp.rtrancl_into_rtrancl)
  then show r3: "reachable demo3" using demo_steps(3) by (rule rtranclp.rtrancl_into_rtrancl)
  then have "reachable demo4" using demo_steps(4) by (rule rtranclp.rtrancl_into_rtrancl)
  then have "reachable demo5" using demo_steps(5) by (rule rtranclp.rtrancl_into_rtrancl)
  then show "reachable demo6" using demo_steps(6) by (rule rtranclp.rtrancl_into_rtrancl)
qed

section \<open>Properties\<close>



text \<open>
  C33: a task is run at most once, however often it is submitted and by whatever it is triggered: in
  every reachable state the tasks whose \<open>Run\<close> has begun are pairwise different, and none of them is in
  the queue again.
\<close>
theorem tasks_run_once:
  "reachable s \<Longrightarrow> distinct (queue (exec s) @ started s)"
  using reachable_inv by (auto simp: system_inv_def exec_ok_def dyn_ok_def)

theorem tasks_run_once_witness: "distinct (queue (exec demo6) @ started demo6)"
  by (rule tasks_run_once [OF demo_reachable(3)])



text \<open>
  Once shutdown has begun no further task is started, whatever the callers and threads do next.
\<close>
theorem no_start_after_shutdown:
  assumes "reachable s" "closed (exec s)" "exec_step s s'"
  shows "started s' = started s"
proof -
  have "\<forall>t \<in> set (queue (exec s)). state (tasks (exec s) t) = Canceled"
    using reachable_inv [OF assms(1)] assms(2) by (simp add: system_inv_def closed_ok_def)
  then have "started (worker_pop s) = started s"
    by (cases "queue (exec s)") (auto simp: worker_pop_def TasksQueue_Pop_def IsCanceled_def)
  with assms(3) show ?thesis by (induction rule: exec_step.induct) auto
qed

theorem no_start_after_shutdown_witness:
  "started (worker_pop (demo2\<lparr>exec := the (StartShutdown (exec demo2))\<rparr>)) = started demo2"
proof -
  let ?s = "demo2\<lparr>exec := the (StartShutdown (exec demo2))\<rparr>"
  have "\<not> Option.is_none (StartShutdown (exec demo2))" by code_simp
  then have "exec_step demo2 ?s" by (blast intro: step_StartShutdown some_the)
  then have "reachable ?s" using demo_reachable(1) by (meson rtranclp.rtrancl_into_rtrancl)
  moreover have "closed (exec ?s)" by code_simp
  ultimately show ?thesis using no_start_after_shutdown [OF _ _ step_worker_pop, of ?s] by simp
qed

end
