(* ===== verification/Fibers.thy ===== *)
theory Fibers
  imports Timer_Heap
begin

text \<open>
  The fiber runtime of \<open>tools/cactus\<close>: fibers and their destructors (\<open>core/fiber\<close>), the scheduler and
  \<open>Park\<close> (\<open>core/scheduler\<close>), groups (\<open>core/group\<close>), wait queues (\<open>internal/wait_queue\<close>), mutexes and
  condition variables (\<open>sync/mutex\<close>) and the poller (\<open>net/poller\<close>).

  Fibers run one at a time and give way only in \<open>Park\<close>.  The code a fiber runs is arbitrary, so the
  model is a step relation: the fiber in \<open>this_fiber\<close> makes any call of the library that
  \<open>allowed\<close> permits (the lifetime rules of C++ objects), or ends; when no fiber runs, the scheduler takes
  a turn of its loop.  A parked fiber keeps, in \<open>frames\<close>, the library calls it is inside of, innermost
  first; \<open>unwind\<close> is what those calls do after \<open>Park\<close> has returned or thrown.

  A failed \<open>CHECK\<close> and the use of a deleted fiber set \<open>fault\<close>.  The run queue and the wait queues are
  the sequences that the rings of \<open>Intrusive_List\<close> represent.  The pointers in which the code keeps a
  waiting fiber (\<open>FiberImpl::waiter_\<close>, \<open>Group::joiner_\<close>, \<open>WaitGroup::waiter_\<close>, \<open>FDDesc::reader\<close> and
  \<open>writer\<close>) are the cells of \<open>slots\<close>.  Context switching, stacks and the debugging label \<open>where\<close> are not
  modelled; \<open>epoll\<close>, the clock and the results of system calls are inputs of the steps.
\<close>

section \<open>State\<close>

type_synonym fid = nat

datatype FiberState = Ready | Running | Dead | Sleeping | Waiting

datatype queue_id = Lockers nat | CondWaiters nat | BareQueue nat

datatype slot_id =
    Fiber_waiter fid
  | Group_joiner nat
  | WaitGroup_waiter nat
  | FD_reader nat
  | FD_writer nat

text \<open>
  A frame is a library call in progress.  The first kinds are the calls of \<open>Park\<close>; the others stand
  for the caller's rest: the loop of \<open>Mutex::Lock\<close>, the assignment after it in \<open>MutexGuard::Lock\<close>, the
  two halves of \<open>CondVar::Wait\<close>, the ends of \<open>~Fiber\<close> and \<open>~Group\<close> with the saved flag of their
  \<open>FiberCancelGuard\<close>, and the end of \<open>WaitGroup::Wait\<close>.
\<close>

datatype frame =
    InYield
  | InSleep timer_ptr
  | InWait queue_id
  | InJoin fid
  | InGroup nat
  | InWaitGroup nat
  | InPoll nat nat bool
  | KLock nat
  | KGuardLock nat
  | KCondWait nat nat
  | KCondLock nat
  | KFiberDtor fid bool
  | KGroupDtor nat bool
  | KWaitGroup nat

datatype outcome = Returned | Threw exn

datatype status = Client outcome | Suspended

record FiberImpl =
  state :: FiberState
  timedout :: bool
  canceled :: bool
  cancel_guarded :: bool
  error :: "exn option"
  group :: "nat option"
  frames :: "frame list"

record Group =
  is_wait_group :: bool
  members :: "fid list"
  first_error :: "exn option"

datatype timer_owner = SleepTimer fid | TimeoutGuard fid

text \<open>
  An \<open>FDWatcher\<close> before \<open>Init\<close>, between \<open>Init\<close> and \<open>Reset\<close> (with its \<open>desc_\<close>), after a failed \<open>Init\<close>,
  which leaves \<open>desc_\<close> pointing to the freed descriptor, and after \<open>Reset\<close>.
\<close>

datatype FDWatcher = Fresh | Open nat | Failed nat | Closed

record Scheduler =
  now :: time_point
  time_freezed :: bool
  main_fiber :: fid
  timers :: timer_heap
  owner :: "timer_ptr \<rightharpoonup> timer_owner"
  run_queue :: "fid list"
  this_fiber :: "fid option"
  fibers :: "fid \<rightharpoonup> FiberImpl"
  queues :: "queue_id \<Rightarrow> fid list"
  wakeup :: "fid \<Rightarrow> bool"
  slots :: "slot_id \<rightharpoonup> fid"
  mutex_locked :: "nat \<Rightarrow> bool"
  guard_mutex :: "nat \<Rightarrow> nat"
  guard_locked :: "nat \<Rightarrow> bool"
  groups :: "nat \<rightharpoonup> Group"
  watchers :: "nat \<Rightarrow> FDWatcher"
  free_list :: "nat list"
  fault :: bool

section \<open>Fibers (fiber.cpp)\<close>

definition FiberImpl_init :: FiberImpl where
  "FiberImpl_init =
    \<lparr>state = Ready, timedout = False, canceled = False, cancel_guarded = False, error = None,
     group = None, frames = []\<rparr>"

definition set_fiber :: "fid \<Rightarrow> (FiberImpl \<Rightarrow> FiberImpl) \<Rightarrow> Scheduler \<Rightarrow> Scheduler" where
  "set_fiber f u s = s\<lparr>fibers := (fibers s)(f := map_option u (fibers s f))\<rparr>"

definition Unpark :: "fid \<Rightarrow> Scheduler \<Rightarrow> Scheduler" where
  "Unpark f s =
    (case fibers s f of
       None \<Rightarrow> s\<lparr>fault := True\<rparr>
     | Some x \<Rightarrow>
         if state x = Dead then s\<lparr>fault := True\<rparr>
         else if f \<notin> set (run_queue s) then s\<lparr>run_queue := run_queue s @ [f]\<rparr>
         else s)"

definition guarded :: "fid \<Rightarrow> Scheduler \<Rightarrow> bool" where
  "guarded f s \<longleftrightarrow> (case fibers s f of None \<Rightarrow> True | Some x \<Rightarrow> cancel_guarded x)"

definition NotifyTimeout :: "fid \<Rightarrow> Scheduler \<Rightarrow> Scheduler" where
  "NotifyTimeout f s =
    (if fibers s f = None then s\<lparr>fault := True\<rparr>
     else let s = set_fiber f (\<lambda>x. x\<lparr>timedout := True\<rparr>) s
          in if \<not> guarded f s then Unpark f s else s)"

definition Cancel :: "fid \<Rightarrow> Scheduler \<Rightarrow> Scheduler" where
  "Cancel f s =
    (case fibers s f of
       None \<Rightarrow> s\<lparr>fault := True\<rparr>
     | Some x \<Rightarrow>
         if state x = Dead then s\<lparr>fault := True\<rparr>
         else let s = set_fiber f (\<lambda>x. x\<lparr>canceled := True\<rparr>) s
              in if \<not> guarded f s then Unpark f s else s)"

definition unpark_slot :: "slot_id \<Rightarrow> Scheduler \<Rightarrow> Scheduler" where
  "unpark_slot c s = (case slots s c of None \<Rightarrow> s | Some f \<Rightarrow> Unpark f s)"

section \<open>Wait queues (wait_queue.cpp)\<close>

definition NotifyOne :: "queue_id \<Rightarrow> Scheduler \<Rightarrow> Scheduler" where
  "NotifyOne q s =
    (case queues s q of
       [] \<Rightarrow> s
     | f # rest \<Rightarrow> Unpark f (s\<lparr>queues := (queues s)(q := rest), wakeup := (wakeup s)(f := True)\<rparr>))"

lemma queues_Unpark [simp]: "queues (Unpark f s) = queues s"
  by (simp add: Unpark_def split: option.split)

function NotifyAll :: "queue_id \<Rightarrow> Scheduler \<Rightarrow> Scheduler" where
  "NotifyAll q s = (if queues s q \<noteq> [] then NotifyAll q (NotifyOne q s) else s)"
  by pat_completeness auto
termination
  by (relation "measure (\<lambda>(q, s). length (queues s q))") (auto simp: NotifyOne_def split: list.splits)

declare NotifyAll.simps [simp del]

section \<open>Park (scheduler.h)\<close>

fun where_label :: "frame \<Rightarrow> string" where
  "where_label InYield = ''yield''"
| "where_label (InSleep _) = ''sleep''"
| "where_label (InWait _) = ''wait_queue''"
| "where_label (InJoin _) = ''join''"
| "where_label (InGroup _) = ''group''"
| "where_label (InWaitGroup _) = ''wait_group''"
| "where_label (InPoll _ _ read) = (if read then ''read'' else ''write'')"
| "where_label _ = ''''"

definition poll_slot :: "nat \<Rightarrow> bool \<Rightarrow> slot_id" where
  "poll_slot d read = (if read then FD_reader d else FD_writer d)"

definition clear_slot :: "slot_id \<Rightarrow> Scheduler \<Rightarrow> Scheduler" where
  "clear_slot c s = s\<lparr>slots := (slots s)(c := None)\<rparr>"

text \<open>The \<open>cleanup\<close> closure each caller passes to \<open>Park\<close>.\<close>

fun cleanup :: "frame \<Rightarrow> Scheduler \<Rightarrow> Scheduler" where
  "cleanup (InJoin x) s = clear_slot (Fiber_waiter x) s"
| "cleanup (InGroup g) s = clear_slot (Group_joiner g) s"
| "cleanup (InWaitGroup g) s = clear_slot (WaitGroup_waiter g) s"
| "cleanup (InPoll w d read) s =
    (if watchers s w = Fresh \<or> watchers s w = Closed then s else clear_slot (poll_slot d read) s)"
| "cleanup _ s = s"

definition Park_check :: "fid \<Rightarrow> frame \<Rightarrow> Scheduler \<Rightarrow> exn option \<times> Scheduler" where
  "Park_check f site s =
    (case fibers s f of
       None \<Rightarrow> (None, s\<lparr>fault := True\<rparr>)
     | Some x \<Rightarrow>
         if \<not> cancel_guarded x then
           if canceled x then
             (Some FiberCanceledException, cleanup site (s\<lparr>run_queue := remove1 f (run_queue s)\<rparr>))
           else if timedout x then
             (Some (TimeoutException (''timeout: '' @ where_label site)),
              cleanup site (set_fiber f (\<lambda>x. x\<lparr>timedout := False\<rparr>) (s\<lparr>run_queue := remove1 f (run_queue s)\<rparr>)))
           else (None, s)
         else (None, s))"

text \<open>The switch to the main context, with the calls in progress left on the fiber's stack.\<close>

definition suspend :: "fid \<Rightarrow> frame list \<Rightarrow> Scheduler \<Rightarrow> Scheduler" where
  "suspend f frs s = (set_fiber f (\<lambda>x. x\<lparr>frames := frs\<rparr>) s)\<lparr>this_fiber := None\<rparr>"

text \<open>What the function that called \<open>Park\<close> does when \<open>Park\<close> is over: the destructors of its locals.\<close>

fun leave :: "fid \<Rightarrow> outcome \<Rightarrow> frame \<Rightarrow> Scheduler \<Rightarrow> Scheduler" where
  "leave f out (InSleep t) s = s\<lparr>timers := Timer_destroy (timers s) t, owner := (owner s)(t := None)\<rparr>"
| "leave f out (InWait q) s =
    (let s = (if out \<noteq> Returned \<and> wakeup s f then NotifyOne q s else s)
     in s\<lparr>queues := (queues s)(q := remove1 f (queues s q)), wakeup := (wakeup s)(f := False)\<rparr>)"
| "leave f out _ s = s"

definition enqueue_waiter :: "fid \<Rightarrow> queue_id \<Rightarrow> Scheduler \<Rightarrow> Scheduler" where
  "enqueue_waiter f q s =
    s\<lparr>queues := (queues s)(q := queues s q @ [f]), wakeup := (wakeup s)(f := False)\<rparr>"

definition delete_fiber :: "fid \<Rightarrow> Scheduler \<Rightarrow> Scheduler" where
  "delete_fiber x s =
    (if x \<in> set (run_queue s) \<or> this_fiber s = Some x then s\<lparr>fault := True\<rparr>
     else s\<lparr>fibers := (fibers s)(x := None)\<rparr>)"

section \<open>What a fiber does after Park\<close>

definition frame_weight :: "frame \<Rightarrow> nat" where
  "frame_weight fr = (case fr of KCondWait _ _ \<Rightarrow> 4 | _ \<Rightarrow> 1)"

definition outcome_weight :: "outcome \<Rightarrow> nat" where
  "outcome_weight out = (case out of Returned \<Rightarrow> 1 | Threw _ \<Rightarrow> 0)"

function unwind :: "fid \<Rightarrow> outcome \<Rightarrow> frame list \<Rightarrow> Scheduler \<Rightarrow> status \<times> Scheduler" where
  "unwind f out [] s = (Client out, s)"
| "unwind f out (fr # frs) s =
    (case fr of
       KLock m \<Rightarrow>
         (case out of
            Threw e \<Rightarrow> unwind f (Threw e) frs s
          | Returned \<Rightarrow>
              if mutex_locked s m then
                (case Park_check f (InWait (Lockers m)) (enqueue_waiter f (Lockers m) s) of
                   (Some e, s) \<Rightarrow> unwind f (Threw e) (InWait (Lockers m) # KLock m # frs) s
                 | (None, s) \<Rightarrow> (Suspended, suspend f (InWait (Lockers m) # KLock m # frs) s))
              else unwind f Returned frs (s\<lparr>mutex_locked := (mutex_locked s)(m := True)\<rparr>))
     | KGuardLock g \<Rightarrow>
         (case out of
            Threw e \<Rightarrow> unwind f (Threw e) frs s
          | Returned \<Rightarrow> unwind f Returned frs (s\<lparr>guard_locked := (guard_locked s)(g := True)\<rparr>))
     | KCondWait c g \<Rightarrow>
         (case out of
            Threw e \<Rightarrow> unwind f (Threw e) frs s
          | Returned \<Rightarrow> unwind f Returned (KLock (guard_mutex s g) # KGuardLock g # KCondLock c # frs) s)
     | KCondLock c \<Rightarrow>
         (case out of
            Threw e \<Rightarrow> unwind f (Threw e) frs (NotifyOne (CondWaiters c) s)
          | Returned \<Rightarrow> unwind f Returned frs s)
     | KFiberDtor x saved \<Rightarrow>
         unwind f out frs (delete_fiber x (set_fiber f (\<lambda>x. x\<lparr>cancel_guarded := saved\<rparr>) s))
     | KGroupDtor g saved \<Rightarrow>
         unwind f out frs
           (set_fiber f (\<lambda>x. x\<lparr>cancel_guarded := saved\<rparr>) s\<lparr>groups := (groups s)(g := None)\<rparr>)
     | KWaitGroup g \<Rightarrow>
         (case out of
            Threw e \<Rightarrow> unwind f (Threw e) frs s
          | Returned \<Rightarrow>
              (case Option.bind (groups s g) first_error of
                 Some e \<Rightarrow> unwind f (Threw e) frs s
               | None \<Rightarrow> unwind f Returned frs s))
     | site \<Rightarrow> unwind f out frs (leave f out site s))"
  by pat_completeness auto
termination
  by (relation "measures [\<lambda>(_, out, _). outcome_weight out,
        \<lambda>(_, _, frs, _). sum_list (map frame_weight frs)]")
    (auto simp: outcome_weight_def frame_weight_def)

declare unwind.simps(2) [simp del]

text \<open>\<open>Park\<close> up to the switch, after the caller has registered the fiber at \<open>site\<close>.\<close>

definition Park :: "fid \<Rightarrow> frame \<Rightarrow> frame list \<Rightarrow> Scheduler \<Rightarrow> status \<times> Scheduler" where
  "Park f site frs s =
    (case Park_check f site s of
       (Some e, s) \<Rightarrow> unwind f (Threw e) (site # frs) s
     | (None, s) \<Rightarrow> (Suspended, suspend f (site # frs) s))"

text \<open>\<open>Park\<close> after the switch back.\<close>

definition Park_resumed :: "fid \<Rightarrow> Scheduler \<Rightarrow> status \<times> Scheduler" where
  "Park_resumed f s =
    (case fibers s f of
       None \<Rightarrow> (Suspended, s\<lparr>fault := True\<rparr>)
     | Some x \<Rightarrow>
         (case frames x of
            [] \<Rightarrow> (Client Returned, s)
          | site # frs \<Rightarrow>
              let s = set_fiber f (\<lambda>x. x\<lparr>frames := []\<rparr>) s
              in (case Park_check f site s of
                    (Some e, s) \<Rightarrow> unwind f (Threw e) (site # frs) s
                  | (None, s) \<Rightarrow> unwind f Returned (site # frs) (cleanup site s))))"

section \<open>The end of a fiber and groups (fiber.cpp, group.cpp)\<close>

text \<open>\<open>OnFinished\<close> of the base class, which drops the fiber and wakes \<open>~Group\<close>.\<close>

definition Group_OnFinished :: "nat \<Rightarrow> fid \<Rightarrow> Scheduler \<Rightarrow> Scheduler" where
  "Group_OnFinished g f s =
    (case groups s g of
       None \<Rightarrow> s\<lparr>fault := True\<rparr>
     | Some G \<Rightarrow>
         let s = s\<lparr>groups := (groups s)(g \<mapsto> G\<lparr>members := remove1 f (members G)\<rparr>)\<rparr>
         in if remove1 f (members G) = [] then unpark_slot (Group_joiner g) s else s)"

definition WaitGroup_OnFinished :: "nat \<Rightarrow> fid \<Rightarrow> exn option \<Rightarrow> Scheduler \<Rightarrow> Scheduler" where
  "WaitGroup_OnFinished g f ex s =
    (case groups s g of
       None \<Rightarrow> s\<lparr>fault := True\<rparr>
     | Some G \<Rightarrow>
         let s = (if first_error G = None \<and> ex \<noteq> None
                  then unpark_slot (WaitGroup_waiter g) (s\<lparr>groups := (groups s)(g \<mapsto> G\<lparr>first_error := ex\<rparr>)\<rparr>)
                  else s);
             s = Group_OnFinished g f s
         in if (case groups s g of Some G \<Rightarrow> members G = [] | None \<Rightarrow> False)
            then unpark_slot (WaitGroup_waiter g) s else s)"

definition OnFinished :: "nat \<Rightarrow> fid \<Rightarrow> exn option \<Rightarrow> Scheduler \<Rightarrow> Scheduler" where
  "OnFinished g f ex s =
    (if (case groups s g of Some G \<Rightarrow> is_wait_group G | None \<Rightarrow> False)
     then WaitGroup_OnFinished g f ex s else Group_OnFinished g f s)"

text \<open>
  The exception handlers of \<open>FiberImpl::Run\<close>: \<^term>\<open>None\<close> is an exception nobody catches, which ends
  the process; otherwise the exception kept in \<open>error_\<close>.  Every exception of the model but
  \<open>FiberCanceledException\<close> is a \<open>std::exception\<close>.
\<close>

fun Run_handlers :: "nat option \<Rightarrow> outcome \<Rightarrow> exn option option" where
  "Run_handlers _ Returned = Some None"
| "Run_handlers _ (Threw FiberCanceledException) = Some None"
| "Run_handlers (Some _) (Threw e) = Some (Some e)"
| "Run_handlers None (Threw _) = None"

definition Cleanup :: "fid \<Rightarrow> Scheduler \<Rightarrow> Scheduler" where
  "Cleanup f s =
    (case fibers s f of
       None \<Rightarrow> s\<lparr>fault := True\<rparr>
     | Some x \<Rightarrow>
         (case group x of
            None \<Rightarrow> s
          | Some g \<Rightarrow> delete_fiber f (OnFinished g f (error x) s)))"

text \<open>
  The end of \<open>FiberImpl::Run\<close>, the switch to the main context and the check that \<open>RunLoop\<close> makes after
  \<open>RunFiber\<close>.
\<close>

definition Run_end :: "fid \<Rightarrow> outcome \<Rightarrow> Scheduler \<Rightarrow> Scheduler option" where
  "Run_end f out s =
    (case fibers s f of
       None \<Rightarrow> Some (s\<lparr>fault := True\<rparr>)
     | Some x \<Rightarrow>
         (case Run_handlers (group x) out of
            None \<Rightarrow> None
          | Some ex \<Rightarrow>
              let s = set_fiber f (\<lambda>x. x\<lparr>error := ex, state := Dead\<rparr>) s;
                  s = unpark_slot (Fiber_waiter f) s
              in Some (Cleanup f (s\<lparr>this_fiber := None\<rparr>))))"

definition new_fiber :: "fid \<Rightarrow> Scheduler \<Rightarrow> Scheduler" where
  "new_fiber x s = Unpark x (s\<lparr>fibers := (fibers s)(x \<mapsto> FiberImpl_init)\<rparr>)"

definition cancel_guard :: "fid \<Rightarrow> Scheduler \<Rightarrow> Scheduler" where
  "cancel_guard f s = set_fiber f (\<lambda>x. x\<lparr>cancel_guarded := True\<rparr>) s"

definition park_in_slot ::
  "fid \<Rightarrow> slot_id \<Rightarrow> frame \<Rightarrow> frame list \<Rightarrow> Scheduler \<Rightarrow> status \<times> Scheduler" where
  "park_in_slot f c site frs s =
    (if slots s c \<noteq> None then (Suspended, s\<lparr>fault := True\<rparr>)
     else Park f site frs (s\<lparr>slots := (slots s)(c \<mapsto> f)\<rparr>))"

definition Fiber_dtor :: "fid \<Rightarrow> fid \<Rightarrow> Scheduler \<Rightarrow> status \<times> Scheduler" where
  "Fiber_dtor f x s =
    (case fibers s x of
       None \<Rightarrow> (Suspended, s\<lparr>fault := True\<rparr>)
     | Some X \<Rightarrow>
         if state X \<noteq> Dead then
           let saved = guarded f s
           in park_in_slot f (Fiber_waiter x) (InJoin x) [KFiberDtor x saved] (cancel_guard f (Cancel x s))
         else (Client Returned, delete_fiber x s))"

definition DoSpawn :: "nat \<Rightarrow> fid \<Rightarrow> Scheduler \<Rightarrow> Scheduler" where
  "DoSpawn g x s =
    (case groups s g of
       None \<Rightarrow> s\<lparr>fault := True\<rparr>
     | Some G \<Rightarrow>
         let s = set_fiber x (\<lambda>X. X\<lparr>group := Some g\<rparr>) (new_fiber x s)
         in s\<lparr>groups := (groups s)(g \<mapsto> G\<lparr>members := members G @ [x]\<rparr>)\<rparr>)"

definition Group_dtor :: "fid \<Rightarrow> nat \<Rightarrow> Scheduler \<Rightarrow> status \<times> Scheduler" where
  "Group_dtor f g s =
    (case groups s g of
       None \<Rightarrow> (Suspended, s\<lparr>fault := True\<rparr>)
     | Some G \<Rightarrow>
         if members G = [] then (Client Returned, s\<lparr>groups := (groups s)(g := None)\<rparr>)
         else
           let saved = guarded f s
           in park_in_slot f (Group_joiner g) (InGroup g) [KGroupDtor g saved]
                (cancel_guard f (fold Cancel (members G) s)))"

definition WaitGroup_Wait :: "fid \<Rightarrow> nat \<Rightarrow> Scheduler \<Rightarrow> status \<times> Scheduler" where
  "WaitGroup_Wait f g s =
    (case groups s g of
       None \<Rightarrow> (Suspended, s\<lparr>fault := True\<rparr>)
     | Some G \<Rightarrow>
         (case first_error G of
            Some e \<Rightarrow> (Client (Threw e), s)
          | None \<Rightarrow>
              if members G = [] then (Client Returned, s)
              else park_in_slot f (WaitGroup_waiter g) (InWaitGroup g) [KWaitGroup g] s))"

section \<open>Calls of the library\<close>

definition Yield :: "fid \<Rightarrow> Scheduler \<Rightarrow> status \<times> Scheduler" where
  "Yield f s = Park f InYield [] (Unpark f s)"

definition SleepUntil :: "fid \<Rightarrow> timer_ptr \<Rightarrow> time_point \<Rightarrow> Scheduler \<Rightarrow> status \<times> Scheduler" where
  "SleepUntil f t d s =
    Park f (InSleep t) [] (s\<lparr>timers := Activate (timers s) t d, owner := (owner s)(t \<mapsto> SleepTimer f)\<rparr>)"

definition WaitQueue_Wait :: "fid \<Rightarrow> queue_id \<Rightarrow> frame list \<Rightarrow> Scheduler \<Rightarrow> status \<times> Scheduler" where
  "WaitQueue_Wait f q frs s = Park f (InWait q) frs (enqueue_waiter f q s)"

definition Mutex_Lock :: "fid \<Rightarrow> nat \<Rightarrow> frame list \<Rightarrow> Scheduler \<Rightarrow> status \<times> Scheduler" where
  "Mutex_Lock f m frs s = unwind f Returned (KLock m # frs) s"

definition Mutex_Unlock :: "nat \<Rightarrow> Scheduler \<Rightarrow> Scheduler" where
  "Mutex_Unlock m s =
    (if \<not> mutex_locked s m then s\<lparr>fault := True\<rparr>
     else NotifyOne (Lockers m) (s\<lparr>mutex_locked := (mutex_locked s)(m := False)\<rparr>))"

definition MutexGuard_Lock :: "fid \<Rightarrow> nat \<Rightarrow> Scheduler \<Rightarrow> status \<times> Scheduler" where
  "MutexGuard_Lock f g s = Mutex_Lock f (guard_mutex s g) [KGuardLock g] s"

definition MutexGuard_init :: "fid \<Rightarrow> nat \<Rightarrow> nat \<Rightarrow> Scheduler \<Rightarrow> status \<times> Scheduler" where
  "MutexGuard_init f g m s =
    MutexGuard_Lock f g
      (s\<lparr>guard_mutex := (guard_mutex s)(g := m), guard_locked := (guard_locked s)(g := False)\<rparr>)"

definition MutexGuard_Unlock :: "nat \<Rightarrow> Scheduler \<Rightarrow> Scheduler" where
  "MutexGuard_Unlock g s =
    (Mutex_Unlock (guard_mutex s g) s)\<lparr>guard_locked := (guard_locked s)(g := False)\<rparr>"

definition MutexGuard_dtor :: "nat \<Rightarrow> Scheduler \<Rightarrow> Scheduler" where
  "MutexGuard_dtor g s = (if guard_locked s g then MutexGuard_Unlock g s else s)"

definition CondVar_Wait :: "fid \<Rightarrow> nat \<Rightarrow> nat \<Rightarrow> Scheduler \<Rightarrow> status \<times> Scheduler" where
  "CondVar_Wait f c g s = WaitQueue_Wait f (CondWaiters c) [KCondWait c g] (MutexGuard_Unlock g s)"

definition CondVar_NotifyOne :: "nat \<Rightarrow> Scheduler \<Rightarrow> Scheduler" where
  "CondVar_NotifyOne c s = NotifyOne (CondWaiters c) s"

definition CondVar_NotifyAll :: "nat \<Rightarrow> Scheduler \<Rightarrow> Scheduler" where
  "CondVar_NotifyAll c s = NotifyAll (CondWaiters c) s"

definition SleepFor :: "fid \<Rightarrow> timer_ptr \<Rightarrow> time_point \<Rightarrow> Scheduler \<Rightarrow> status \<times> Scheduler" where
  "SleepFor f t duration s = SleepUntil f t (now s + duration) s"

definition FreezeTime :: "Scheduler \<Rightarrow> Scheduler" where
  "FreezeTime s = s\<lparr>time_freezed := True\<rparr>"

definition UnfreezeTime :: "Scheduler \<Rightarrow> Scheduler" where
  "UnfreezeTime s = s\<lparr>time_freezed := False\<rparr>"

definition AdvanceTime :: "time_point \<Rightarrow> Scheduler \<Rightarrow> Scheduler" where
  "AdvanceTime delta s = s\<lparr>now := now s + delta\<rparr>"

lemmas plain_calls = CondVar_NotifyOne_def CondVar_NotifyAll_def SleepFor_def FreezeTime_def UnfreezeTime_def AdvanceTime_def

declare plain_calls [simp]

definition TimeoutGuard_init :: "fid \<Rightarrow> timer_ptr \<Rightarrow> time_point \<Rightarrow> Scheduler \<Rightarrow> Scheduler" where
  "TimeoutGuard_init f t duration s =
    s\<lparr>timers := Activate (timers s) t (now s + duration), owner := (owner s)(t \<mapsto> TimeoutGuard f)\<rparr>"

definition TimeoutGuard_dtor :: "timer_ptr \<Rightarrow> Scheduler \<Rightarrow> Scheduler" where
  "TimeoutGuard_dtor t s = s\<lparr>timers := Timer_destroy (timers s) t, owner := (owner s)(t := None)\<rparr>"

section \<open>The poller (poller.cpp)\<close>

text \<open>\<open>NewDesc\<close> takes the first free descriptor, or \<open>fresh\<close>, the address \<open>new\<close> returns.\<close>

definition NewDesc :: "nat \<Rightarrow> Scheduler \<Rightarrow> nat \<times> Scheduler" where
  "NewDesc fresh s =
    (case free_list s of [] \<Rightarrow> (fresh, s) | d # rest \<Rightarrow> (d, s\<lparr>free_list := rest\<rparr>))"

definition FreeDesc :: "nat \<Rightarrow> Scheduler \<Rightarrow> Scheduler" where
  "FreeDesc d s = s\<lparr>free_list := d # free_list s\<rparr>"

definition FDWatcher_Init :: "nat \<Rightarrow> nat \<Rightarrow> bool \<Rightarrow> Scheduler \<Rightarrow> status \<times> Scheduler" where
  "FDWatcher_Init w fresh ok s =
    (let (d, s) = NewDesc fresh s
     in if ok then (Client Returned, s\<lparr>watchers := (watchers s)(w := Open d)\<rparr>)
        else (Client (Threw (SystemError ''epoll_ctl'')), (FreeDesc d s)\<lparr>watchers := (watchers s)(w := Failed d)\<rparr>))"

definition wake_slot :: "slot_id \<Rightarrow> Scheduler \<Rightarrow> Scheduler" where
  "wake_slot c s = (if slots s c \<noteq> None then clear_slot c (unpark_slot c s) else s)"

definition FDWatcher_Reset :: "nat \<Rightarrow> Scheduler \<Rightarrow> Scheduler" where
  "FDWatcher_Reset w s =
    (case watchers s w of
       Open d \<Rightarrow>
         (FreeDesc d (wake_slot (FD_reader d) (wake_slot (FD_writer d) s)))
           \<lparr>watchers := (watchers s)(w := Closed)\<rparr>
     | _ \<Rightarrow> s\<lparr>fault := True\<rparr>)"

definition FDWatcher_Wait :: "fid \<Rightarrow> nat \<Rightarrow> bool \<Rightarrow> Scheduler \<Rightarrow> status \<times> Scheduler" where
  "FDWatcher_Wait f w read s =
    (case watchers s w of
       Open d \<Rightarrow> park_in_slot f (poll_slot d read) (InPoll w d read) [] s
     | _ \<Rightarrow> (Suspended, s\<lparr>fault := True\<rparr>))"

text \<open>An event of \<open>epoll_wait\<close>: the descriptor, and whether it asks for the reader and the writer.\<close>

type_synonym fd_event = "nat \<times> bool \<times> bool"

definition Poll_event :: "fd_event \<Rightarrow> Scheduler \<Rightarrow> Scheduler" where
  "Poll_event ev s =
    (let (d, read, write) = ev;
         s = (if read then wake_slot (FD_reader d) s else s)
     in if write then wake_slot (FD_writer d) s else s)"

definition Poll :: "fd_event list \<Rightarrow> Scheduler \<Rightarrow> Scheduler" where
  "Poll events s = fold Poll_event events s"

section \<open>The scheduler loop (scheduler.cpp)\<close>

definition OnExpired :: "timer_ptr \<Rightarrow> Scheduler \<Rightarrow> Scheduler" where
  "OnExpired t s =
    (case owner s t of
       None \<Rightarrow> s\<lparr>fault := True\<rparr>
     | Some (SleepTimer f) \<Rightarrow> Unpark f s
     | Some (TimeoutGuard f) \<Rightarrow> NotifyTimeout f s)"

text \<open>The loop over expired timers: it ends after as many rounds as there are timers in the heap.\<close>

fun expire_timers :: "nat \<Rightarrow> Scheduler \<Rightarrow> Scheduler" where
  "expire_timers 0 s = s"
| "expire_timers (Suc n) s =
    (case GetMin (timers s) of
       None \<Rightarrow> s
     | Some t \<Rightarrow>
         (case GetDeadline (timers s) t of
            None \<Rightarrow> s\<lparr>fault := True\<rparr>
          | Some d \<Rightarrow>
              if d < now s
              then expire_timers n (OnExpired t (s\<lparr>timers := Deactivate (timers s) t\<rparr>))
              else s))"

definition update_time :: "time_point \<Rightarrow> Scheduler \<Rightarrow> Scheduler" where
  "update_time clock s =
    (if time_freezed s then s
     else if now s \<le> clock then s\<lparr>now := clock\<rparr> else s\<lparr>fault := True\<rparr>)"

definition RunFiber :: "fid \<Rightarrow> Scheduler \<Rightarrow> status \<times> Scheduler" where
  "RunFiber f s =
    (case fibers s f of
       None \<Rightarrow> (Suspended, s\<lparr>fault := True\<rparr>)
     | Some x \<Rightarrow>
         if state x = Dead \<or> this_fiber s \<noteq> None then (Suspended, s\<lparr>fault := True\<rparr>)
         else let s = s\<lparr>this_fiber := Some f\<rparr>
              in if state x = Ready
                 then (Client Returned, set_fiber f (\<lambda>x. x\<lparr>state := Running\<rparr>) s)
                 else Park_resumed f s)"

text \<open>
  A turn of \<open>RunLoop\<close>: \<open>events\<close> and \<open>later_events\<close> are what the two calls of \<open>epoll_wait\<close> return, the
  second one only when no fiber is ready.
\<close>

definition RunLoop_turn ::
  "fd_event list \<Rightarrow> time_point \<Rightarrow> fd_event list \<Rightarrow> Scheduler \<Rightarrow> status \<times> Scheduler" where
  "RunLoop_turn events clock later_events s =
    (let s = update_time clock (Poll events s);
         s = expire_timers (length (heap (timers s)) + 1) s
     in case run_queue s of
          [] \<Rightarrow> (Suspended, Poll later_events s)
        | f # rest \<Rightarrow> RunFiber f (s\<lparr>run_queue := rest\<rparr>))"

definition Scheduler_start :: "fid \<Rightarrow> time_point \<Rightarrow> Scheduler" where
  "Scheduler_start main t0 =
    new_fiber main
      \<lparr>now = t0, time_freezed = False, main_fiber = main, timers = TimerHeap_empty, owner = Map.empty,
       run_queue = [], this_fiber = None, fibers = Map.empty, queues = (\<lambda>_. []), wakeup = (\<lambda>_. False),
       slots = Map.empty, mutex_locked = (\<lambda>_. False), guard_mutex = (\<lambda>_. 0), guard_locked = (\<lambda>_. False),
       groups = Map.empty, watchers = (\<lambda>_. Fresh), free_list = [], fault = False\<rparr>"

section \<open>Programs over the library\<close>

datatype call =
    CYield
  | CSleepUntil timer_ptr time_point
  | CSleepFor timer_ptr time_point
  | CWait nat
  | CNotifyOne nat
  | CNotifyAll nat
  | CLock nat
  | CUnlock nat
  | CGuard nat nat
  | CGuardLock nat
  | CGuardUnlock nat
  | CGuardDestroy nat
  | CCondWait nat nat
  | CCondNotifyOne nat
  | CCondNotifyAll nat
  | CNewFiber fid
  | CDestroyFiber fid
  | CNewGroup nat bool
  | CSpawn nat fid
  | CDestroyGroup nat
  | CWaitGroup nat
  | CTimeout timer_ptr time_point
  | CTimeoutDestroy timer_ptr
  | CCancelGuard bool
  | CWatch nat nat bool
  | CWatchReset nat
  | CWatchWait nat bool
  | CFreezeTime
  | CUnfreezeTime
  | CAdvanceTime time_point

fun exec :: "fid \<Rightarrow> call \<Rightarrow> Scheduler \<Rightarrow> status \<times> Scheduler" where
  "exec f CYield s = Yield f s"
| "exec f (CSleepUntil t d) s = SleepUntil f t d s"
| "exec f (CSleepFor t d) s = SleepFor f t d s"
| "exec f (CWait q) s = WaitQueue_Wait f (BareQueue q) [] s"
| "exec f (CNotifyOne q) s = (Client Returned, NotifyOne (BareQueue q) s)"
| "exec f (CNotifyAll q) s = (Client Returned, NotifyAll (BareQueue q) s)"
| "exec f (CLock m) s = Mutex_Lock f m [] s"
| "exec f (CUnlock m) s = (Client Returned, Mutex_Unlock m s)"
| "exec f (CGuard g m) s = MutexGuard_init f g m s"
| "exec f (CGuardLock g) s = MutexGuard_Lock f g s"
| "exec f (CGuardUnlock g) s = (Client Returned, MutexGuard_Unlock g s)"
| "exec f (CGuardDestroy g) s = (Client Returned, MutexGuard_dtor g s)"
| "exec f (CCondWait c g) s = CondVar_Wait f c g s"
| "exec f (CCondNotifyOne c) s = (Client Returned, CondVar_NotifyOne c s)"
| "exec f (CCondNotifyAll c) s = (Client Returned, CondVar_NotifyAll c s)"
| "exec f (CNewFiber x) s = (Client Returned, new_fiber x s)"
| "exec f (CDestroyFiber x) s = Fiber_dtor f x s"
| "exec f (CNewGroup g w) s =
    (Client Returned, s\<lparr>groups := (groups s)(g \<mapsto> \<lparr>is_wait_group = w, members = [], first_error = None\<rparr>)\<rparr>)"
| "exec f (CSpawn g x) s = (Client Returned, DoSpawn g x s)"
| "exec f (CDestroyGroup g) s = Group_dtor f g s"
| "exec f (CWaitGroup g) s = WaitGroup_Wait f g s"
| "exec f (CTimeout t d) s = (Client Returned, TimeoutGuard_init f t d s)"
| "exec f (CTimeoutDestroy t) s = (Client Returned, TimeoutGuard_dtor t s)"
| "exec f (CCancelGuard b) s = (Client Returned, set_fiber f (\<lambda>x. x\<lparr>cancel_guarded := b\<rparr>) s)"
| "exec f (CWatch w d ok) s = FDWatcher_Init w d ok s"
| "exec f (CWatchReset w) s = (Client Returned, FDWatcher_Reset w s)"
| "exec f (CWatchWait w read) s = FDWatcher_Wait f w read s"
| "exec f CFreezeTime s = (Client Returned, FreezeTime s)"
| "exec f CUnfreezeTime s = (Client Returned, UnfreezeTime s)"
| "exec f (CAdvanceTime d) s = (Client Returned, AdvanceTime d s)"

text \<open>
  What a correct program may call: objects are created at unused addresses and destroyed once, by
  someone who is not among the fibers to be waited for; a mutex is unlocked when it is locked; one
  fiber at a time waits for a group and for each direction of a descriptor; while a group is awaited
  only its own fibers add to it; time does not go backwards.
\<close>

fun allowed :: "fid \<Rightarrow> call \<Rightarrow> Scheduler \<Rightarrow> bool" where
  "allowed f (CSleepUntil t d) s \<longleftrightarrow> owner s t = None"
| "allowed f (CSleepFor t d) s \<longleftrightarrow> owner s t = None"
| "allowed f (CUnlock m) s \<longleftrightarrow> mutex_locked s m"
| "allowed f (CGuardUnlock g) s \<longleftrightarrow> mutex_locked s (guard_mutex s g)"
| "allowed f (CGuardDestroy g) s \<longleftrightarrow> guard_locked s g \<longrightarrow> mutex_locked s (guard_mutex s g)"
| "allowed f (CCondWait c g) s \<longleftrightarrow> mutex_locked s (guard_mutex s g)"
| "allowed f (CNewFiber x) s \<longleftrightarrow> fibers s x = None"
| "allowed f (CDestroyFiber x) s \<longleftrightarrow>
    x \<noteq> f \<and> x \<noteq> main_fiber s \<and> slots s (Fiber_waiter x) = None \<and>
    (case fibers s x of None \<Rightarrow> False | Some X \<Rightarrow> group X = None)"
| "allowed f (CNewGroup g w) s \<longleftrightarrow> groups s g = None"
| "allowed f (CSpawn g x) s \<longleftrightarrow>
    fibers s x = None \<and>
    (case groups s g of
       None \<Rightarrow> False
     | Some G \<Rightarrow> f \<in> set (members G) \<or> slots s (Group_joiner g) = None \<and> slots s (WaitGroup_waiter g) = None)"
| "allowed f (CDestroyGroup g) s \<longleftrightarrow>
    slots s (Group_joiner g) = None \<and> slots s (WaitGroup_waiter g) = None \<and>
    (case groups s g of None \<Rightarrow> False | Some G \<Rightarrow> f \<notin> set (members G))"
| "allowed f (CWaitGroup g) s \<longleftrightarrow>
    slots s (Group_joiner g) = None \<and> slots s (WaitGroup_waiter g) = None \<and>
    (case groups s g of None \<Rightarrow> False | Some G \<Rightarrow> is_wait_group G \<and> f \<notin> set (members G))"
| "allowed f (CTimeout t d) s \<longleftrightarrow> owner s t = None"
| "allowed f (CTimeoutDestroy t) s \<longleftrightarrow> owner s t = Some (TimeoutGuard f)"
| "allowed f (CWatch w d ok) s \<longleftrightarrow> watchers s w = Fresh \<and> d \<notin> set (free_list s) \<and> (\<forall>w'. watchers s w' \<noteq> Open d)"
| "allowed f (CWatchReset w) s \<longleftrightarrow> (case watchers s w of Open d \<Rightarrow> True | _ \<Rightarrow> False)"
| "allowed f (CWatchWait w read) s \<longleftrightarrow>
    (case watchers s w of
       Open d \<Rightarrow> slots s (poll_slot d read) = None \<and> (\<forall>x \<in> ran (fibers s). InPoll w d read \<notin> set (frames x))
     | _ \<Rightarrow> False)"
| "allowed f (CAdvanceTime d) s \<longleftrightarrow> time_freezed s \<and> 0 \<le> d"
| "allowed f _ s \<longleftrightarrow> True"

inductive sched_step :: "Scheduler \<Rightarrow> Scheduler \<Rightarrow> bool" where
  call: "this_fiber s = Some f \<Longrightarrow> allowed f c s \<Longrightarrow> exec f c s = (st, s') \<Longrightarrow> sched_step s s'"
| fiber_end:
    "this_fiber s = Some f \<Longrightarrow> (\<forall>t. owner s t \<noteq> Some (TimeoutGuard f)) \<Longrightarrow>
     Run_end f out s = Some s' \<Longrightarrow> sched_step s s'"
| loop_turn:
    "this_fiber s = None \<Longrightarrow> (\<exists>x. fibers s (main_fiber s) = Some x \<and> state x \<noteq> Dead) \<Longrightarrow>
     time_freezed s \<or> now s \<le> clock \<Longrightarrow> RunLoop_turn events clock later_events s = (st, s') \<Longrightarrow> sched_step s s'"

end
