(* ===== verification/Fibers_Invariant.thy ===== *)
theory Fibers_Invariant
  imports Fibers
begin

text \<open>
  The invariant of the fiber runtime.  Its heart is \<open>ready_ok\<close>: a fiber that does not run is in the run
  queue exactly when it has a reason to run, so no wake-up is lost and none is spurious.  The other
  clauses say that every queue, timer, slot and group refers to fibers that exist and are parked
  in the call that registered them.
\<close>

section \<open>The invariant\<close>

definition live :: "Scheduler \<Rightarrow> fid \<Rightarrow> bool" where
  "live s f \<longleftrightarrow> (\<exists>x. fibers s f = Some x \<and> state x \<noteq> Dead)"

text \<open>The fiber is parked in this call.\<close>

definition parked_in :: "Scheduler \<Rightarrow> fid \<Rightarrow> frame \<Rightarrow> bool" where
  "parked_in s f site \<longleftrightarrow> (\<exists>x ks. fibers s f = Some x \<and> frames x = site # ks)"

definition group_empty :: "Scheduler \<Rightarrow> nat \<Rightarrow> bool" where
  "group_empty s g \<longleftrightarrow> (\<forall>G. groups s g = Some G \<longrightarrow> members G = [])"

definition group_failed :: "Scheduler \<Rightarrow> nat \<Rightarrow> bool" where
  "group_failed s g \<longleftrightarrow> (\<exists>G. groups s g = Some G \<and> first_error G \<noteq> None)"

text \<open>What the call waits for has happened.\<close>

fun woken :: "Scheduler \<Rightarrow> fid \<Rightarrow> frame \<Rightarrow> bool" where
  "woken s f InYield \<longleftrightarrow> True"
| "woken s f (InSleep t) \<longleftrightarrow> GetDeadline (timers s) t = None"
| "woken s f (InWait q) \<longleftrightarrow> wakeup s f"
| "woken s f (InJoin x) \<longleftrightarrow> \<not> live s x"
| "woken s f (InGroup g) \<longleftrightarrow> group_empty s g"
| "woken s f (InWaitGroup g) \<longleftrightarrow> group_failed s g \<or> group_empty s g"
| "woken s f (InPoll w d read) \<longleftrightarrow> slots s (poll_slot d read) \<noteq> Some f"
| "woken s f _ \<longleftrightarrow> False"

definition interrupted :: "FiberImpl \<Rightarrow> bool" where
  "interrupted x \<longleftrightarrow> \<not> cancel_guarded x \<and> (canceled x \<or> timedout x)"

definition ready :: "Scheduler \<Rightarrow> fid \<Rightarrow> FiberImpl \<Rightarrow> bool" where
  "ready s f x \<longleftrightarrow>
    state x = Ready \<or> interrupted x \<or> (\<exists>site ks. frames x = site # ks \<and> woken s f site)"

definition ready_ok :: "fid set \<Rightarrow> Scheduler \<Rightarrow> bool" where
  "ready_ok E s \<longleftrightarrow>
    (\<forall>f x. fibers s f = Some x \<and> state x \<noteq> Dead \<and> this_fiber s \<noteq> Some f \<and> f \<notin> E \<longrightarrow>
       (f \<in> set (run_queue s) \<longleftrightarrow> ready s f x))"

definition run_queue_ok :: "Scheduler \<Rightarrow> bool" where
  "run_queue_ok s \<longleftrightarrow>
    distinct (run_queue s) \<and> (\<forall>f \<in> set (run_queue s). live s f \<and> this_fiber s \<noteq> Some f)"

definition state_ok :: "Scheduler \<Rightarrow> fid \<Rightarrow> FiberImpl \<Rightarrow> bool" where
  "state_ok s f x \<longleftrightarrow>
    state x \<in> {Ready, Running, Dead} \<and>
    (state x = Running \<longrightarrow> (frames x = [] \<longleftrightarrow> this_fiber s = Some f)) \<and>
    (state x \<noteq> Running \<longrightarrow> frames x = [] \<and> this_fiber s \<noteq> Some f) \<and>
    (state x = Dead \<longrightarrow> group x = None)"

definition states_ok :: "Scheduler \<Rightarrow> bool" where
  "states_ok s \<longleftrightarrow>
    (\<forall>f x. fibers s f = Some x \<longrightarrow> state_ok s f x) \<and> (\<forall>f. this_fiber s = Some f \<longrightarrow> live s f)"

text \<open>The calls a fiber can be inside of when it waits in a queue.\<close>

fun lock_frames :: "nat \<Rightarrow> frame list \<Rightarrow> bool" where
  "lock_frames m (KLock m' # ks) \<longleftrightarrow>
    m' = m \<and> (ks = [] \<or> (\<exists>g. ks = [KGuardLock g]) \<or> (\<exists>g c. ks = [KGuardLock g, KCondLock c]))"
| "lock_frames m _ \<longleftrightarrow> False"

fun wait_frames :: "queue_id \<Rightarrow> frame list \<Rightarrow> bool" where
  "wait_frames (BareQueue _) ks \<longleftrightarrow> ks = []"
| "wait_frames (CondWaiters c) ks \<longleftrightarrow> (\<exists>g. ks = [KCondWait c g])"
| "wait_frames (Lockers m) ks \<longleftrightarrow> lock_frames m ks"

fun site_ok :: "Scheduler \<Rightarrow> fid \<Rightarrow> FiberImpl \<Rightarrow> frame \<Rightarrow> frame list \<Rightarrow> bool" where
  "site_ok s f x InYield ks \<longleftrightarrow> ks = []"
| "site_ok s f x (InSleep t) ks \<longleftrightarrow> ks = [] \<and> owner s t = Some (SleepTimer f)"
| "site_ok s f x (InWait q) ks \<longleftrightarrow> wait_frames q ks \<and> (wakeup s f \<or> f \<in> set (queues s q))"
| "site_ok s f x (InJoin y) ks \<longleftrightarrow>
    (\<exists>saved. ks = [KFiberDtor y saved]) \<and> cancel_guarded x \<and> slots s (Fiber_waiter y) = Some f \<and>
    (\<exists>Y. fibers s y = Some Y \<and> group Y = None) \<and> y \<noteq> f"
| "site_ok s f x (InGroup g) ks \<longleftrightarrow>
    (\<exists>saved. ks = [KGroupDtor g saved]) \<and> cancel_guarded x \<and> slots s (Group_joiner g) = Some f \<and>
    slots s (WaitGroup_waiter g) = None \<and> groups s g \<noteq> None"
| "site_ok s f x (InWaitGroup g) ks \<longleftrightarrow>
    ks = [KWaitGroup g] \<and> slots s (WaitGroup_waiter g) = Some f \<and>
    slots s (Group_joiner g) = None \<and> (\<exists>G. groups s g = Some G \<and> is_wait_group G)"
| "site_ok s f x (InPoll w d read) ks \<longleftrightarrow>
    ks = [] \<and> (watchers s w = Open d \<or> watchers s w = Closed) \<and> (\<forall>f'. parked_in s f' (InPoll w d read) \<longrightarrow> f' = f)"
| "site_ok s f x _ ks \<longleftrightarrow> False"

definition sites_ok :: "Scheduler \<Rightarrow> bool" where
  "sites_ok s \<longleftrightarrow> (\<forall>f x site ks. fibers s f = Some x \<and> frames x = site # ks \<longrightarrow> site_ok s f x site ks)"

definition queues_ok :: "Scheduler \<Rightarrow> bool" where
  "queues_ok s \<longleftrightarrow>
    (\<forall>q. distinct (queues s q) \<and> (\<forall>f \<in> set (queues s q). parked_in s f (InWait q) \<and> \<not> wakeup s f))"

definition timers_ok :: "Scheduler \<Rightarrow> bool" where
  "timers_ok s \<longleftrightarrow>
    timer_inv (timers s) \<and>
    (\<forall>t. GetDeadline (timers s) t \<noteq> None \<longrightarrow> owner s t \<noteq> None) \<and>
    (\<forall>t f. owner s t = Some (SleepTimer f) \<longrightarrow> parked_in s f (InSleep t)) \<and>
    (\<forall>t f. owner s t = Some (TimeoutGuard f) \<longrightarrow> live s f)"

fun slot_ok :: "Scheduler \<Rightarrow> slot_id \<Rightarrow> fid \<Rightarrow> bool" where
  "slot_ok s (Fiber_waiter x) f \<longleftrightarrow> parked_in s f (InJoin x)"
| "slot_ok s (Group_joiner g) f \<longleftrightarrow> parked_in s f (InGroup g)"
| "slot_ok s (WaitGroup_waiter g) f \<longleftrightarrow> parked_in s f (InWaitGroup g)"
| "slot_ok s (FD_reader d) f \<longleftrightarrow> (\<exists>w. watchers s w = Open d \<and> parked_in s f (InPoll w d True))"
| "slot_ok s (FD_writer d) f \<longleftrightarrow> (\<exists>w. watchers s w = Open d \<and> parked_in s f (InPoll w d False))"

definition slots_ok :: "Scheduler \<Rightarrow> bool" where
  "slots_ok s \<longleftrightarrow> (\<forall>c f. slots s c = Some f \<longrightarrow> slot_ok s c f)"

definition in_group :: "Scheduler \<Rightarrow> fid \<Rightarrow> nat \<Rightarrow> bool" where
  "in_group s f g \<longleftrightarrow> (\<exists>x. fibers s f = Some x \<and> group x = Some g)"

definition groups_ok :: "Scheduler \<Rightarrow> bool" where
  "groups_ok s \<longleftrightarrow>
    (\<forall>g G. groups s g = Some G \<longrightarrow> distinct (members G)) \<and>
    (\<forall>f g. in_group s f g \<longleftrightarrow> (\<exists>G. groups s g = Some G \<and> f \<in> set (members G)))"

definition watchers_ok :: "Scheduler \<Rightarrow> bool" where
  "watchers_ok s \<longleftrightarrow>
    (\<forall>w w' d. watchers s w = Open d \<and> watchers s w' = Open d \<longrightarrow> w = w') \<and> distinct (free_list s) \<and>
    (\<forall>d \<in> set (free_list s). \<forall>w. watchers s w \<noteq> Open d)"

definition inv_ex :: "fid set \<Rightarrow> Scheduler \<Rightarrow> bool" where
  "inv_ex E s \<longleftrightarrow>
    \<not> fault s \<and> ready_ok E s \<and> run_queue_ok s \<and> states_ok s \<and> sites_ok s \<and> queues_ok s \<and> timers_ok s \<and>
    slots_ok s \<and> groups_ok s \<and> watchers_ok s"

abbreviation inv :: "Scheduler \<Rightarrow> bool" where "inv s \<equiv> inv_ex {} s"

lemma inv_exD:
  assumes "inv_ex E s"
  shows "\<not> fault s" "ready_ok E s" "run_queue_ok s" "states_ok s" "sites_ok s" "queues_ok s" "timers_ok s"
    "slots_ok s" "groups_ok s" "watchers_ok s"
  using assms by (auto simp: inv_ex_def)

lemma inv_exI:
  "\<not> fault s \<Longrightarrow> ready_ok E s \<Longrightarrow> run_queue_ok s \<Longrightarrow> states_ok s \<Longrightarrow> sites_ok s \<Longrightarrow> queues_ok s \<Longrightarrow> timers_ok s \<Longrightarrow>
   slots_ok s \<Longrightarrow> groups_ok s \<Longrightarrow> watchers_ok s \<Longrightarrow> inv_ex E s"
  by (simp add: inv_ex_def)

lemma inv_ex_mono: "inv_ex E s \<Longrightarrow> E \<subseteq> E' \<Longrightarrow> inv_ex E' s"
  by (auto simp: inv_ex_def ready_ok_def)

lemmas inv_defs = inv_ex_def ready_ok_def ready_def run_queue_ok_def states_ok_def sites_ok_def queues_ok_def
  timers_ok_def slots_ok_def groups_ok_def watchers_ok_def

section \<open>States that agree\<close>

text \<open>The invariant depends on the fields below, and on the timers only through their deadlines.\<close>

definition agree :: "Scheduler \<Rightarrow> Scheduler \<Rightarrow> bool" where
  "agree s s' \<longleftrightarrow>
    GetDeadline (timers s') = GetDeadline (timers s) \<and> (timer_inv (timers s) \<longrightarrow> timer_inv (timers s')) \<and>
    owner s' = owner s \<and> run_queue s' = run_queue s \<and> this_fiber s' = this_fiber s \<and> fibers s' = fibers s \<and>
    queues s' = queues s \<and> wakeup s' = wakeup s \<and> slots s' = slots s \<and> groups s' = groups s \<and>
    watchers s' = watchers s \<and> free_list s' = free_list s \<and> fault s' = fault s"

lemma agree_views:
  assumes "fibers s' = fibers s" "groups s' = groups s"
  shows "live s' = live s" "parked_in s' = parked_in s" "group_empty s' = group_empty s" "group_failed s' = group_failed s"
    "in_group s' = in_group s"
  using assms by (auto simp: fun_eq_iff live_def parked_in_def group_empty_def group_failed_def in_group_def)

lemma woken_cong:
  assumes "GetDeadline (timers s') = GetDeadline (timers s)" "wakeup s' f = wakeup s f" "live s' = live s"
    "group_empty s' = group_empty s" "group_failed s' = group_failed s" "slots s' = slots s"
  shows "woken s' f site = woken s f site"
  using assms by (cases site) auto

lemma site_ok_cong:
  assumes "owner s' = owner s" "wakeup s' f = wakeup s f" "queues s' = queues s" "slots s' = slots s"
    "fibers s' = fibers s" "groups s' = groups s" "parked_in s' = parked_in s" "watchers s' = watchers s"
  shows "site_ok s' f x site ks = site_ok s f x site ks"
  using assms by (cases site) auto

lemma slot_ok_cong:
  "parked_in s' = parked_in s \<Longrightarrow> watchers s' = watchers s \<Longrightarrow> slot_ok s' c f = slot_ok s c f"
  by (cases c) auto

lemma clause_congs:
  "run_queue s' = run_queue s \<Longrightarrow> live s' = live s \<Longrightarrow> this_fiber s' = this_fiber s \<Longrightarrow> run_queue_ok s' = run_queue_ok s"
  "this_fiber s' = this_fiber s \<Longrightarrow> fibers s' = fibers s \<Longrightarrow> live s' = live s \<Longrightarrow> states_ok s' = states_ok s"
  "queues s' = queues s \<Longrightarrow> wakeup s' = wakeup s \<Longrightarrow> parked_in s' = parked_in s \<Longrightarrow> queues_ok s' = queues_ok s"
  "owner s' = owner s \<Longrightarrow> GetDeadline (timers s') = GetDeadline (timers s) \<Longrightarrow>
   timer_inv (timers s') = timer_inv (timers s) \<Longrightarrow> parked_in s' = parked_in s \<Longrightarrow> live s' = live s \<Longrightarrow>
   timers_ok s' = timers_ok s"
  "slots s' = slots s \<Longrightarrow> parked_in s' = parked_in s \<Longrightarrow> watchers s' = watchers s \<Longrightarrow> slots_ok s' = slots_ok s"
  "groups s' = groups s \<Longrightarrow> in_group s' = in_group s \<Longrightarrow> groups_ok s' = groups_ok s"
  "watchers s' = watchers s \<Longrightarrow> free_list s' = free_list s \<Longrightarrow> watchers_ok s' = watchers_ok s"
  by (simp_all only: run_queue_ok_def states_ok_def state_ok_def queues_ok_def timers_ok_def slots_ok_def
      slot_ok_cong [of s' s] groups_ok_def watchers_ok_def)

lemma sites_ok_cong:
  "owner s' = owner s \<Longrightarrow> wakeup s' = wakeup s \<Longrightarrow> queues s' = queues s \<Longrightarrow> slots s' = slots s \<Longrightarrow>
   fibers s' = fibers s \<Longrightarrow> groups s' = groups s \<Longrightarrow> parked_in s' = parked_in s \<Longrightarrow> watchers s' = watchers s \<Longrightarrow> sites_ok s' = sites_ok s"
  by (simp add: sites_ok_def site_ok_cong [of s' s])

lemma inv_agree: "inv_ex E s \<Longrightarrow> agree s s' \<Longrightarrow> inv_ex E s'"
proof -
  assume i: "inv_ex E s" and a: "agree s s'"
  note f = a [unfolded agree_def]
  have v: "live s' = live s" "parked_in s' = parked_in s" "group_empty s' = group_empty s" "group_failed s' = group_failed s"
    "in_group s' = in_group s"
    using agree_views f by metis+
  have "woken s' g site = woken s g site" for g site using woken_cong [of s' s g site] f v by simp
  then have "ready_ok E s'" using i f by (simp add: inv_ex_def ready_ok_def ready_def)
  moreover have "timers_ok s'" using i f v by (auto simp: inv_ex_def timers_ok_def)
  ultimately show ?thesis
    using i f v clause_congs [of s' s] sites_ok_cong [of s' s] by (simp add: inv_ex_def)
qed

section \<open>Waking a fiber\<close>

lemma Unpark_fields [simp]:
  "timers (Unpark f s) = timers s" "owner (Unpark f s) = owner s" "this_fiber (Unpark f s) = this_fiber s"
  "fibers (Unpark f s) = fibers s" "wakeup (Unpark f s) = wakeup s"
  "slots (Unpark f s) = slots s" "groups (Unpark f s) = groups s" "watchers (Unpark f s) = watchers s"
  "free_list (Unpark f s) = free_list s" "mutex_locked (Unpark f s) = mutex_locked s" "now (Unpark f s) = now s"
  "guard_mutex (Unpark f s) = guard_mutex s" "main_fiber (Unpark f s) = main_fiber s"
  "live (Unpark f s) = live s" "parked_in (Unpark f s) = parked_in s" "in_group (Unpark f s) = in_group s"
  by (auto simp: Unpark_def live_def parked_in_def in_group_def fun_eq_iff split: option.split)

lemma Unpark_live:
  "live s f \<Longrightarrow> fault (Unpark f s) = fault s \<and>
   run_queue (Unpark f s) = (if f \<in> set (run_queue s) then run_queue s else run_queue s @ [f])"
  by (auto simp: Unpark_def live_def)

lemma Unpark_views [simp]:
  "group_empty (Unpark f s) = group_empty s" "group_failed (Unpark f s) = group_failed s"
  "woken (Unpark f s) g site = woken s g site" "site_ok (Unpark f s) g x site ks = site_ok s g x site ks"
  "slot_ok (Unpark f s) c g = slot_ok s c g" "state_ok (Unpark f s) = state_ok s"
proof -
  show e: "group_empty (Unpark f s) = group_empty s" "group_failed (Unpark f s) = group_failed s"
    by (simp_all add: fun_eq_iff group_empty_def group_failed_def)
  show "woken (Unpark f s) g site = woken s g site" by (rule woken_cong) (simp_all add: e)
  show "site_ok (Unpark f s) g x site ks = site_ok s g x site ks" by (rule site_ok_cong) simp_all
  show "slot_ok (Unpark f s) c g = slot_ok s c g" by (rule slot_ok_cong) simp_all
  show "state_ok (Unpark f s) = state_ok s" by (simp add: fun_eq_iff state_ok_def)
qed

lemma Unpark_inv:
  assumes i: "inv_ex E s" and w: "live s w" "this_fiber s \<noteq> Some w" "\<And>x. fibers s w = Some x \<Longrightarrow> ready s w x"
  shows "inv_ex (E - {w}) (Unpark w s)"
proof (rule inv_exI)
  note d = inv_exD [OF i] and u = Unpark_live [OF w(1)]
  show "\<not> fault (Unpark w s)" using d(1) u by simp
  show "ready_ok (E - {w}) (Unpark w s)" using d(2) u w(3) by (auto simp: ready_ok_def ready_def)
  show "run_queue_ok (Unpark w s)" using d(3) u w(1,2) by (auto simp: run_queue_ok_def)
qed (use inv_exD [OF i] in \<open>simp_all add: clause_congs [of "Unpark w s" s] sites_ok_cong [of "Unpark w s" s]\<close>)

lemma set_fiber_fields [simp]:
  "timers (set_fiber f u s) = timers s" "owner (set_fiber f u s) = owner s" "this_fiber (set_fiber f u s) = this_fiber s"
  "queues (set_fiber f u s) = queues s" "wakeup (set_fiber f u s) = wakeup s" "run_queue (set_fiber f u s) = run_queue s"
  "slots (set_fiber f u s) = slots s" "groups (set_fiber f u s) = groups s" "watchers (set_fiber f u s) = watchers s"
  "free_list (set_fiber f u s) = free_list s" "mutex_locked (set_fiber f u s) = mutex_locked s" "now (set_fiber f u s) = now s"
  "guard_mutex (set_fiber f u s) = guard_mutex s" "main_fiber (set_fiber f u s) = main_fiber s" "fault (set_fiber f u s) = fault s"
  "fibers (set_fiber f u s) = (fibers s)(f := map_option u (fibers s f))"
  "group_empty (set_fiber f u s) = group_empty s" "group_failed (set_fiber f u s) = group_failed s"
  by (simp_all add: set_fiber_def fun_eq_iff group_empty_def group_failed_def)

text \<open>Changing the flags of a fiber: only its readiness can change.\<close>

definition keeps_shape :: "(FiberImpl \<Rightarrow> FiberImpl) \<Rightarrow> bool" where
  "keeps_shape u \<longleftrightarrow> (\<forall>x. state (u x) = state x \<and> frames (u x) = frames x \<and> group (u x) = group x)"

lemma keeps_shape_views:
  assumes "keeps_shape u"
  shows "live (set_fiber f u s) = live s" "parked_in (set_fiber f u s) = parked_in s"
    "in_group (set_fiber f u s) = in_group s"
  using assms by (fastforce simp: fun_eq_iff live_def parked_in_def in_group_def keeps_shape_def)+

lemma set_flags_sites:
  assumes u: "keeps_shape u" "\<And>x. fibers s f = Some x \<Longrightarrow> frames x \<noteq> [] \<Longrightarrow> cancel_guarded x \<Longrightarrow> cancel_guarded (u x)"
    and ok: "site_ok s g x site ks" "fibers s g = Some x" "frames x = site # ks"
  shows "site_ok (set_fiber f u s) g (if g = f then u x else x) site ks"
proof -
  have "\<exists>Y. fibers (set_fiber f u s) y = Some Y \<and> group Y = None" if "\<exists>Y. fibers s y = Some Y \<and> group Y = None" for y
    using that u(1) by (auto simp: keeps_shape_def)
  then show ?thesis
    using ok u keeps_shape_views [OF u(1)] by (cases site) (auto simp del: set_fiber_fields(16))
qed

lemma set_flags_inv:
  assumes i: "inv_ex E s"
    and u: "keeps_shape u" "\<And>x. fibers s f = Some x \<Longrightarrow> frames x \<noteq> [] \<Longrightarrow> cancel_guarded x \<Longrightarrow> cancel_guarded (u x)"
  shows "inv_ex (if this_fiber s = Some f then E else insert f E) (set_fiber f u s)"
proof (rule inv_exI)
  note d = inv_exD [OF i] and v = keeps_shape_views [OF u(1), of f s]
  let ?s = "set_fiber f u s"
  show "\<not> fault ?s" using d(1) by simp
  have w: "woken ?s g site = woken s g site" for g site by (rule woken_cong) (simp_all add: v)
  show "ready_ok (if this_fiber s = Some f then E else insert f E) ?s"
    using d(2) u(1) by (auto simp: ready_ok_def ready_def w keeps_shape_def)
  have "state_ok ?s g (u x) = state_ok s g x" "state_ok ?s g x = state_ok s g x" for g x
    using u(1) by (simp_all add: state_ok_def keeps_shape_def)
  then show "states_ok ?s" using d(4) by (auto simp: states_ok_def v)
  show "sites_ok ?s"
    unfolding sites_ok_def
  proof (intro allI impI, elim conjE)
    fix g y site ks assume g: "fibers ?s g = Some y" "frames y = site # ks"
    obtain x where x: "fibers s g = Some x" "y = (if g = f then u x else x)" using g(1) by (auto split: if_splits)
    then have "frames x = site # ks" using g(2) u(1) by (auto simp: keeps_shape_def split: if_splits)
    then show "site_ok ?s g y site ks"
      using set_flags_sites [where f = f and s = s and g = g and x = x and site = site and ks = ks, OF u(1) u(2)] d(5) x
      unfolding sites_ok_def by blast
  qed
qed (use inv_exD [OF i] keeps_shape_views [OF u(1), of f s] in
    \<open>simp_all add: clause_congs(1,3-7) [of "set_fiber f u s" s]\<close>)

lemma keeps_shape_flags [simp]:
  "keeps_shape (\<lambda>x. x\<lparr>timedout := b\<rparr>)" "keeps_shape (\<lambda>x. x\<lparr>canceled := b\<rparr>)" "keeps_shape (\<lambda>x. x\<lparr>cancel_guarded := b\<rparr>)"
  by (simp_all add: keeps_shape_def)

text \<open>Setting a flag that makes an unguarded fiber ready, and unparking it then: \<open>Cancel\<close> and \<open>NotifyTimeout\<close>.\<close>

lemma interrupt_inv:
  assumes i: "inv_ex E s" and f: "live s f" "this_fiber s \<noteq> Some f" and u: "keeps_shape u"
    and flag: "\<And>x. cancel_guarded (u x) = cancel_guarded x \<and> (canceled (u x) \<or> timedout (u x)) \<and>
      (canceled x \<longrightarrow> canceled (u x)) \<and> (timedout x \<longrightarrow> timedout (u x))"
  defines "s' \<equiv> set_fiber f u s"
  shows "inv_ex E (if \<not> guarded f s' then Unpark f s' else s')"
proof -
  obtain x where x: "fibers s f = Some x" "state x \<noteq> Dead" using f(1) by (auto simp: live_def)
  have i': "inv_ex (insert f E) s'" using set_flags_inv [OF i u, of f] flag f(2) by (simp add: s'_def)
  have x': "fibers s' f = Some (u x)" by (simp add: s'_def x)
  have w: "woken s' g site = woken s g site" for g site
    by (rule woken_cong) (simp_all add: s'_def keeps_shape_views [OF u])
  have same: "this_fiber s' = this_fiber s" "run_queue s' = run_queue s" "live s' f"
    using keeps_shape_views [OF u, of f s] f(1) by (simp_all add: s'_def)
  show ?thesis
  proof (cases "cancel_guarded x")
    case True
    have "ready s' f (u x) = ready s f x"
      using u flag [of x] True by (auto simp: ready_def interrupted_def w keeps_shape_def)
    then have "ready_ok E s'"
      using inv_exD(2) [OF i'] inv_exD(2) [OF i] x x' same u f(2)
      unfolding ready_ok_def keeps_shape_def by (metis insert_iff option.inject)
    then have "inv_ex E s'" using i' by (simp add: inv_ex_def)
    moreover have "guarded f s'" using x' True flag [of x] by (simp add: guarded_def)
    ultimately show ?thesis by simp
  next
    case False
    then have "ready s' f (u x)" using flag [of x] by (auto simp: ready_def interrupted_def)
    then have "inv_ex (insert f E - {f}) (Unpark f s')"
      using x' same f(2) by (intro Unpark_inv [OF i']) auto
    then have "inv_ex E (Unpark f s')" by (rule inv_ex_mono) blast
    moreover have "\<not> guarded f s'" using x' False flag [of x] by (simp add: guarded_def)
    ultimately show ?thesis by simp
  qed
qed

lemma Cancel_inv: "inv_ex E s \<Longrightarrow> live s f \<Longrightarrow> this_fiber s \<noteq> Some f \<Longrightarrow> inv_ex E (Cancel f s)"
  using interrupt_inv [of E s f "\<lambda>x. x\<lparr>canceled := True\<rparr>"] by (auto simp: Cancel_def live_def Let_def)

lemma NotifyTimeout_inv: "inv_ex E s \<Longrightarrow> live s f \<Longrightarrow> this_fiber s \<noteq> Some f \<Longrightarrow> inv_ex E (NotifyTimeout f s)"
  using interrupt_inv [of E s f "\<lambda>x. x\<lparr>timedout := True\<rparr>"] by (auto simp: NotifyTimeout_def live_def Let_def)

text \<open>The fiber in a slot, and those in a queue, are parked and so neither dead nor running.\<close>

lemma parked_live:
  assumes "states_ok s" "parked_in s f site"
  shows "live s f" "this_fiber s \<noteq> Some f"
  using assms by (auto simp: states_ok_def parked_in_def live_def state_ok_def) fastforce+

lemma slots_okD: "slots_ok s \<Longrightarrow> slots s c = Some f \<Longrightarrow> slot_ok s c f"
  by (simp add: slots_ok_def)

lemma watchers_okD:
  assumes "watchers_ok s"
  shows "watchers s w = Open d \<Longrightarrow> watchers s w' = Open d \<Longrightarrow> w = w'" "distinct (free_list s)"
    "d \<in> set (free_list s) \<Longrightarrow> watchers s w \<noteq> Open d"
  using assms unfolding watchers_ok_def by blast+

lemma groups_okD:
  assumes "groups_ok s"
  shows "groups s g = Some G \<Longrightarrow> distinct (members G)" "groups s g = Some G \<Longrightarrow> f \<in> set (members G) \<Longrightarrow> in_group s f g"
    "in_group s f g \<Longrightarrow> \<exists>G. groups s g = Some G \<and> f \<in> set (members G)"
  using assms unfolding groups_ok_def by blast+

lemma slot_parked: "slot_ok s c f \<Longrightarrow> \<exists>site. parked_in s f site"
  by (cases c) auto

lemma parked_in_unique: "parked_in s f a \<Longrightarrow> parked_in s f b \<Longrightarrow> a = b"
  by (auto simp: parked_in_def)

section \<open>Queues and slots\<close>

lemma queues_okD:
  assumes "queues_ok s"
  shows "distinct (queues s q)" "f \<in> set (queues s q) \<Longrightarrow> parked_in s f (InWait q)"
    "f \<in> set (queues s q) \<Longrightarrow> \<not> wakeup s f"
  using assms by (auto simp: queues_ok_def)

lemma pop_waiter_inv:
  assumes i: "inv_ex E s" and q: "queues s q = f # rest"
  defines "s' \<equiv> s\<lparr>queues := (queues s)(q := rest), wakeup := (wakeup s)(f := True)\<rparr>"
  shows "inv_ex (insert f E) s'" "parked_in s' f (InWait q)"
proof -
  note d = inv_exD [OF i]
  have v: "live s' = live s" "parked_in s' = parked_in s" "group_empty s' = group_empty s"
    "group_failed s' = group_failed s" "in_group s' = in_group s"
    using agree_views [of s' s] by (simp_all add: s'_def)
  have f: "parked_in s f (InWait q)" and only: "\<And>q'. f \<in> set (queues s q') \<Longrightarrow> q' = q"
    using d(6) q parked_in_unique [of s f] unfolding queues_ok_def by (metis list.set_intros(1) frame.inject(2))+
  then show "parked_in s' f (InWait q)" by (simp add: v)
  have w: "g \<noteq> f \<Longrightarrow> woken s' g site = woken s g site" for g site
    by (rule woken_cong) (simp_all add: v, simp_all add: s'_def)
  show "inv_ex (insert f E) s'"
  proof (rule inv_exI)
    show "ready_ok (insert f E) s'" using d(2) w by (auto simp: ready_ok_def ready_def s'_def)
    have "site_ok s' g x site ks" if "site_ok s g x site ks" for g x site ks
      using that v q by (cases site) (auto simp: s'_def)
    then show "sites_ok s'" using d(5) by (auto simp: sites_ok_def s'_def)
    have dist: "distinct (f # rest)" using queues_okD(1) [OF d(6), of q] q by simp
    have "distinct (queues s' r) \<and> set (queues s' r) \<subseteq> set (queues s r) - {f}" for r
      using dist q only [of r] queues_okD(1) [OF d(6), of r] by (cases "r = q") (auto simp: s'_def)
    note sub = this
    have "parked_in s' g (InWait r) \<and> \<not> wakeup s' g" if "g \<in> set (queues s' r)" for g r
    proof -
      have "g \<in> set (queues s r)" "g \<noteq> f" using sub [of r] that by blast+
      then show ?thesis using queues_okD(2,3) [OF d(6)] by (simp add: v) (simp add: s'_def)
    qed
    then show "queues_ok s'" using sub unfolding queues_ok_def by blast
    show "\<not> fault s'" "run_queue_ok s'" "states_ok s'" "timers_ok s'" "slots_ok s'" "groups_ok s'" "watchers_ok s'"
      using d v clause_congs [of s' s] by (simp_all add: s'_def)
  qed
qed

lemma NotifyOne_inv: "inv_ex E s \<Longrightarrow> inv_ex E (NotifyOne q s)"
proof (cases "queues s q")
  case (Cons f rest)
  assume i: "inv_ex E s"
  let ?s = "s\<lparr>queues := (queues s)(q := rest), wakeup := (wakeup s)(f := True)\<rparr>"
  note p = pop_waiter_inv [OF i Cons]
  have "live ?s f" "this_fiber ?s \<noteq> Some f" using parked_live [OF inv_exD(4) [OF p(1)] p(2)] by auto
  moreover have "ready ?s f x" if "fibers ?s f = Some x" for x
    using p(2) that by (auto simp: ready_def parked_in_def)
  ultimately have "inv_ex (insert f E - {f}) (Unpark f ?s)" by (intro Unpark_inv [OF p(1)]) auto
  then have "inv_ex E (Unpark f ?s)" by (rule inv_ex_mono) blast
  then show ?thesis using Cons by (simp add: NotifyOne_def)
qed (simp add: NotifyOne_def)

lemma NotifyAll_inv: "inv_ex E s \<Longrightarrow> inv_ex E (NotifyAll q s)"
proof (induction q s rule: NotifyAll.induct)
  case (1 q s)
  then show ?case
    using NotifyOne_inv [of E s q] by (cases "queues s q = []") (simp_all add: NotifyAll.simps [of q s])
qed

lemma NotifyOne_fields [simp]:
  "this_fiber (NotifyOne q s) = this_fiber s" "fibers (NotifyOne q s) = fibers s" "slots (NotifyOne q s) = slots s"
  "groups (NotifyOne q s) = groups s" "mutex_locked (NotifyOne q s) = mutex_locked s"
  "guard_mutex (NotifyOne q s) = guard_mutex s" "owner (NotifyOne q s) = owner s" "timers (NotifyOne q s) = timers s"
  "watchers (NotifyOne q s) = watchers s" "now (NotifyOne q s) = now s" "main_fiber (NotifyOne q s) = main_fiber s"
  by (simp_all add: NotifyOne_def split: list.split)

text \<open>Taking a fiber out of a descriptor's slot makes it ready.\<close>

definition fd_slot :: "slot_id \<Rightarrow> bool" where
  "fd_slot c \<longleftrightarrow> (\<exists>d. c = FD_reader d \<or> c = FD_writer d)"

lemma clear_fd_slot_inv:
  assumes i: "inv_ex E s" and c: "fd_slot c" "slots s c = Some f"
  shows "inv_ex (insert f E) (clear_slot c s)" "\<And>x. fibers s f = Some x \<Longrightarrow> ready (clear_slot c s) f x"
    "live s f" "this_fiber s \<noteq> Some f"
proof -
  let ?s = "clear_slot c s"
  note d = inv_exD [OF i]
  have v: "live ?s = live s" "parked_in ?s = parked_in s" "group_empty ?s = group_empty s"
    "group_failed ?s = group_failed s" "in_group ?s = in_group s"
    using agree_views [of ?s s] by (simp_all add: clear_slot_def)
  have "slot_ok s c f" using d(8) c(2) by (simp add: slots_ok_def)
  then obtain w e read where p: "parked_in s f (InPoll w e read)" "c = poll_slot e read"
    using c(1) by (auto simp: fd_slot_def poll_slot_def)
  show "live s f" "this_fiber s \<noteq> Some f" using parked_live [OF d(4) p(1)] by auto
  show "ready ?s f x" if "fibers s f = Some x" for x
    using p that by (auto simp: ready_def parked_in_def clear_slot_def)
  have w: "g \<noteq> f \<Longrightarrow> woken ?s g site = woken s g site" for g site
    using c(2) v by (cases site) (auto simp: clear_slot_def)
  have "site_ok ?s g x site ks = site_ok s g x site ks" for g x site ks
    using c(1) v by (cases site) (auto simp: clear_slot_def fd_slot_def)
  then have "sites_ok ?s" using d(5) by (simp add: sites_ok_def) (simp add: clear_slot_def)
  moreover have "ready_ok (insert f E) ?s" using d(2) w by (auto simp: ready_ok_def ready_def clear_slot_def)
  moreover have "slot_ok ?s b g = slot_ok s b g" for b g using slot_ok_cong [of ?s s b g] v by (simp add: clear_slot_def)
  then have "slots_ok ?s" using d(8) by (simp add: slots_ok_def) (simp add: clear_slot_def)
  moreover have "\<not> fault ?s" "run_queue_ok ?s" "states_ok ?s" "queues_ok ?s" "timers_ok ?s" "groups_ok ?s" "watchers_ok ?s"
    using d v clause_congs [of ?s s] by (simp_all add: clear_slot_def)
  ultimately show "inv_ex (insert f E) ?s" by (intro inv_exI)
qed

lemma clear_slot_Unpark: "clear_slot c (Unpark f s) = Unpark f (clear_slot c s)"
  by (simp add: clear_slot_def Unpark_def split: option.split)

lemma wake_slot_inv: "inv_ex E s \<Longrightarrow> fd_slot c \<Longrightarrow> inv_ex E (wake_slot c s)"
proof (cases "slots s c")
  case (Some f)
  assume i: "inv_ex E s" and c: "fd_slot c"
  note p = clear_fd_slot_inv [OF i c Some]
  have same: "live (clear_slot c s) = live s" "this_fiber (clear_slot c s) = this_fiber s" "fibers (clear_slot c s) = fibers s"
    using agree_views(1) [of "clear_slot c s" s] by (simp_all add: clear_slot_def)
  have "inv_ex (insert f E - {f}) (Unpark f (clear_slot c s))"
    using p same by (intro Unpark_inv [OF p(1)]) simp_all
  then have "inv_ex E (Unpark f (clear_slot c s))" by (rule inv_ex_mono) blast
  then show ?thesis using Some by (simp add: wake_slot_def unpark_slot_def clear_slot_Unpark)
qed (simp add: wake_slot_def)

lemma Poll_inv: "inv_ex E s \<Longrightarrow> inv_ex E (Poll events s)"
  unfolding Poll_def
proof (induction events arbitrary: s)
  case (Cons ev events)
  have "inv_ex E (Poll_event ev s)"
    using wake_slot_inv Cons.prems by (auto simp: Poll_event_def Let_def fd_slot_def split: prod.split)
  then show ?case using Cons.IH by simp
qed simp

section \<open>Timers\<close>

lemma timers_okD:
  assumes "timers_ok s"
  shows "timer_inv (timers s)" "GetDeadline (timers s) t = Some d \<Longrightarrow> owner s t \<noteq> None"
    "owner s t = Some (SleepTimer f) \<Longrightarrow> parked_in s f (InSleep t)"
    "owner s t = Some (TimeoutGuard f) \<Longrightarrow> live s f"
  using assms by (auto simp: timers_ok_def)

lemma Deactivate_inv:
  assumes i: "inv_ex E s" and o: "\<And>f. owner s t = Some (SleepTimer f) \<Longrightarrow> f \<in> E'"
  shows "inv_ex (E \<union> E') (s\<lparr>timers := Deactivate (timers s) t\<rparr>)"
proof -
  let ?s = "s\<lparr>timers := Deactivate (timers s) t\<rparr>"
  note d = inv_exD [OF i] and h = timers_okD [OF inv_exD(7) [OF i]]
  have v: "live ?s = live s" "parked_in ?s = parked_in s" "group_empty ?s = group_empty s"
    "group_failed ?s = group_failed s" "in_group ?s = in_group s"
    using agree_views [of ?s s] by simp_all
  have dl: "GetDeadline (timers ?s) = (GetDeadline (timers s))(t := None)" "timer_inv (timers ?s)"
    using th.deadlines_deactivate [OF h(1)] th.invar_deactivate [OF h(1)] by simp_all
  have w: "woken ?s g site = woken s g site" if "site \<noteq> InSleep t" for g site
    using that dl(1) v by (cases site) auto
  have "g \<in> E'" if "fibers s g = Some x" "frames x = InSleep t # ks" for g x ks
    using d(5) that o [of g] unfolding sites_ok_def by fastforce
  then have "ready ?s g x = ready s g x" if "fibers s g = Some x" "g \<notin> E'" for g x
    using w that by (fastforce simp: ready_def)
  then have "ready_ok (E \<union> E') ?s" using d(2) by (auto simp: ready_ok_def)
  moreover have "timers_ok ?s" using h dl by (auto simp: timers_ok_def v split: if_splits)
  moreover have "\<not> fault ?s" "run_queue_ok ?s" "states_ok ?s" "queues_ok ?s" "slots_ok ?s" "groups_ok ?s"
    "watchers_ok ?s" "sites_ok ?s"
    using d v clause_congs(1-3,5-7) [of ?s s] sites_ok_cong [of ?s s] by simp_all
  ultimately show ?thesis by (intro inv_exI)
qed

lemma expire_one_inv:
  assumes i: "inv s" and t: "owner s t \<noteq> None" "this_fiber s = None"
  shows "inv (OnExpired t (s\<lparr>timers := Deactivate (timers s) t\<rparr>))"
proof -
  let ?s = "s\<lparr>timers := Deactivate (timers s) t\<rparr>"
  note h = timers_okD [OF inv_exD(7) [OF i]]
  have v: "live ?s = live s" "parked_in ?s = parked_in s" using agree_views [of ?s s] by simp_all
  obtain w where o: "owner s t = Some w" using t(1) by blast
  show ?thesis
  proof (cases w)
    case (SleepTimer f)
    have i': "inv_ex ({} \<union> {f}) ?s" using o SleepTimer by (intro Deactivate_inv [OF i]) auto
    have p: "parked_in s f (InSleep t)" using h(3) o SleepTimer by simp
    have "GetDeadline (timers ?s) t = None" using th.deadlines_deactivate [OF h(1)] by simp
    then have "ready ?s f x" if "fibers ?s f = Some x" for x using p that by (auto simp: ready_def parked_in_def)
    then have "inv_ex (({} \<union> {f}) - {f}) (Unpark f ?s)"
      using parked_live [OF inv_exD(4) [OF i] p] v t(2) by (intro Unpark_inv [OF i']) simp_all
    then show ?thesis using o SleepTimer by (simp add: OnExpired_def)
  next
    case (TimeoutGuard f)
    have "inv_ex ({} \<union> {}) ?s" using o TimeoutGuard by (intro Deactivate_inv [OF i]) auto
    then have "inv ?s" by simp
    then have "inv (NotifyTimeout f ?s)"
      using h(4) o TimeoutGuard v t(2) by (intro NotifyTimeout_inv) simp_all
    then show ?thesis using o TimeoutGuard by (simp add: OnExpired_def)
  qed
qed

lemma OnExpired_fields [simp]:
  "this_fiber (OnExpired t s) = this_fiber s" "timers (OnExpired t s) = timers s" "now (OnExpired t s) = now s"
  by (simp_all add: OnExpired_def NotifyTimeout_def Let_def split: option.split timer_owner.split)

lemma expire_timers_inv: "inv s \<Longrightarrow> this_fiber s = None \<Longrightarrow> inv (expire_timers n s) \<and> this_fiber (expire_timers n s) = None"
proof (induction n s rule: expire_timers.induct)
  case (2 n s)
  show ?case
  proof (cases "GetMin (timers s)")
    case (Some t)
    note h = timers_okD [OF inv_exD(7) [OF 2(2)]]
    obtain d where d: "GetDeadline (timers s) t = Some d" using th.get_min_Some [OF h(1) Some] by blast
    show ?thesis
    proof (cases "d < now s")
      case True
      then show ?thesis using 2(1) [OF Some d True] expire_one_inv [OF 2(2) h(2) [OF d] 2(3)] 2(3) Some d by simp
    qed (use 2 Some d in simp)
  qed (use 2 in simp)
qed simp

text \<open>After the loop no timer that is still active has expired.\<close>

lemma card_active: "timer_inv h \<Longrightarrow> card (dom (GetDeadline h)) = length (heap h)"
proof -
  assume "timer_inv h"
  then have ok: "positions_ok h" by (simp add: timer_inv_def)
  have "distinct (map timer (heap h))"
    using positions_ok_inj [OF ok] by (auto simp: distinct_conv_nth)
  moreover have "dom (GetDeadline h) = set (map timer (heap h))"
  proof
    show "dom (GetDeadline h) \<subseteq> set (map timer (heap h))" using GetDeadline_iff [OF ok] by force
    show "set (map timer (heap h)) \<subseteq> dom (GetDeadline h)"
    proof
      fix t assume "t \<in> set (map timer (heap h))"
      then obtain e where "e \<in> set (heap h)" "t = timer e" by auto
      moreover have "e = \<lparr>deadline = deadline e, timer = timer e\<rparr>" by simp
      ultimately have "\<lparr>deadline = deadline e, timer = t\<rparr> \<in> set (heap h)" by metis
      then show "t \<in> dom (GetDeadline h)" using GetDeadline_iff [OF ok] by blast
    qed
  qed
  ultimately show ?thesis using distinct_card by fastforce
qed

lemma length_Deactivate: "timer_inv h \<Longrightarrow> GetMin h = Some t \<Longrightarrow> length (heap (Deactivate h t)) < length (heap h)"
proof -
  assume h: "timer_inv h" "GetMin h = Some t"
  then have "finite (dom (GetDeadline h))" by (intro finite_active) (simp add: timer_inv_def)
  then show ?thesis
    using th.dom_deactivate_min [OF h] card_active h(1) th.invar_deactivate [OF h(1)] by simp
qed

lemma expire_timers_complete:
  "timer_inv (timers s) \<Longrightarrow> length (heap (timers s)) < n \<Longrightarrow>
   GetDeadline (timers (expire_timers n s)) u = Some e \<Longrightarrow> now s \<le> e"
proof (induction n s rule: expire_timers.induct)
  case (2 n s)
  show ?case
  proof (cases "GetMin (timers s)")
    case None
    then have "GetDeadline (timers s) = Map.empty" using th.get_min_None [OF 2(2)] by simp
    then show ?thesis using 2(4) None by simp
  next
    case (Some t)
    obtain d where d: "GetDeadline (timers s) t = Some d" "\<forall>u e. GetDeadline (timers s) u = Some e \<longrightarrow> d \<le> e"
      using th.get_min_Some [OF 2(2) Some] by blast
    show ?thesis
    proof (cases "d < now s")
      case True
      then show ?thesis
        using 2(1) [OF Some d(1) True] 2(3,4) length_Deactivate [OF 2(2) Some] th.invar_deactivate [OF 2(2), of t] Some d
        by simp
    next
      case False
      then have "GetDeadline (timers s) u = Some e" using 2(4) Some d by simp
      then show ?thesis using d(2) False by fastforce
    qed
  qed
qed simp

end
