(* ===== verification/Fibers_Parking.thy ===== *)
theory Fibers_Parking
  imports Fibers_Invariant
begin

text \<open>
  \<open>Park\<close> and the invariant: a running fiber that registers somewhere and is suspended, a fiber that leaves
  \<open>Park\<close> again, by returning or by an exception, and whatever the calls around it do then; at the end, a
  turn of the scheduler's loop.
\<close>

section \<open>Parking\<close>

lemma running_fiber:
  assumes "states_ok s" "this_fiber s = Some f"
  obtains x where "fibers s f = Some x" "state x = Running" "frames x = []"
proof -
  obtain x where x: "fibers s f = Some x" using assms by (auto simp: states_ok_def live_def)
  then have "state_ok s f x" using assms(1) by (simp add: states_ok_def)
  then show ?thesis using that [of x] x assms(2) by (auto simp: state_ok_def)
qed

lemma running_unregistered:
  assumes i: "inv_ex E s" and f: "this_fiber s = Some f"
  shows "f \<notin> set (run_queue s)" "f \<notin> set (queues s q)" "slots s c \<noteq> Some f" "owner s t \<noteq> Some (SleepTimer f)"
proof -
  note d = inv_exD [OF i]
  have p: "\<not> parked_in s f site" for site using parked_live(2) [OF d(4)] f by blast
  show "f \<notin> set (run_queue s)" using d(3) f by (auto simp: run_queue_ok_def)
  show "f \<notin> set (queues s q)" using queues_okD(2) [OF d(6)] p by blast
  show "slots s c \<noteq> Some f" using d(8) slot_parked [of s c f] p unfolding slots_ok_def by blast
  show "owner s t \<noteq> Some (SleepTimer f)" using timers_okD(3) [OF d(7)] p by blast
qed

lemma suspend_fields [simp]:
  "timers (suspend f ks s) = timers s" "owner (suspend f ks s) = owner s" "this_fiber (suspend f ks s) = None"
  "queues (suspend f ks s) = queues s" "wakeup (suspend f ks s) = wakeup s" "run_queue (suspend f ks s) = run_queue s"
  "slots (suspend f ks s) = slots s" "groups (suspend f ks s) = groups s" "watchers (suspend f ks s) = watchers s"
  "free_list (suspend f ks s) = free_list s" "mutex_locked (suspend f ks s) = mutex_locked s" "now (suspend f ks s) = now s"
  "main_fiber (suspend f ks s) = main_fiber s" "fault (suspend f ks s) = fault s"
  "fibers (suspend f ks s) = (fibers s)(f := map_option (\<lambda>x. x\<lparr>frames := ks\<rparr>) (fibers s f))"
  "group_empty (suspend f ks s) = group_empty s" "group_failed (suspend f ks s) = group_failed s"
  by (simp_all add: suspend_def fun_eq_iff group_empty_def group_failed_def)

text \<open>
  The running fiber registers at \<open>site\<close>, which gives \<open>s1\<close>, and is suspended there.  The premises say what
  the registration must establish.
\<close>

fun site_slot :: "frame \<Rightarrow> slot_id option" where
  "site_slot (InJoin x) = Some (Fiber_waiter x)"
| "site_slot (InGroup g) = Some (Group_joiner g)"
| "site_slot (InWaitGroup g) = Some (WaitGroup_waiter g)"
| "site_slot (InPoll w d read) = Some (poll_slot d read)"
| "site_slot _ = None"

definition registers :: "fid \<Rightarrow> frame \<Rightarrow> Scheduler \<Rightarrow> Scheduler \<Rightarrow> bool" where
  "registers f site s s1 \<longleftrightarrow>
    fibers s1 = fibers s \<and> groups s1 = groups s \<and> watchers s1 = watchers s \<and> free_list s1 = free_list s \<and> fault s1 = fault s \<and>
    run_queue s1 = run_queue s @ (if site = InYield then [f] else []) \<and>
    (\<forall>q. queues s1 q = queues s q @ (if site = InWait q then [f] else [])) \<and>
    wakeup s1 = (wakeup s)(f := wakeup s1 f) \<and> (\<forall>q. site = InWait q \<longrightarrow> \<not> wakeup s1 f) \<and>
    timer_inv (timers s1) \<and>
    (\<forall>t. GetDeadline (timers s1) t = None \<longleftrightarrow> site \<noteq> InSleep t \<and> GetDeadline (timers s) t = None) \<and>
    (\<forall>t. site = InSleep t \<longrightarrow> owner s t = None) \<and>
    (\<forall>t. owner s1 t = (if site = InSleep t then Some (SleepTimer f) else owner s t)) \<and>
    slots s1 = (case site_slot site of None \<Rightarrow> slots s | Some c \<Rightarrow> (slots s)(c \<mapsto> f)) \<and>
    (\<forall>c. site_slot site = Some c \<longrightarrow> slots s c = None) \<and>
    (\<forall>g. site = InGroup g \<longrightarrow> slots s (WaitGroup_waiter g) = None) \<and>
    (\<forall>g. site = InWaitGroup g \<longrightarrow> slots s (Group_joiner g) = None) \<and>
    (\<forall>w d r. site = InPoll w d r \<longrightarrow> watchers s w = Open d \<and> (\<forall>g. \<not> parked_in s g (InPoll w d r)))"

lemma suspend_views:
  assumes "fibers s1 = fibers s" "fibers s f = Some x" "state x \<noteq> Dead"
  shows "live (suspend f (site # ks) s1) = live s" "in_group (suspend f (site # ks) s1) = in_group s"
    "parked_in (suspend f (site # ks) s1) g c \<longleftrightarrow> (if g = f then c = site else parked_in s g c)"
  using assms by (auto simp: live_def in_group_def parked_in_def fun_eq_iff)

lemma suspend_other_sites:
  assumes reg: "registers f site s s1" and x: "fibers s f = Some x" "state x \<noteq> Dead" "\<And>c. \<not> parked_in s f c"
    and g: "g \<noteq> f" "site_ok s g y c cs" "fibers s g = Some y" "frames y = c # cs"
  shows "site_ok (suspend f (site # ks) s1) g y c cs"
proof -
  note rg = reg [unfolded registers_def]
  have same: "fibers s1 = fibers s" using rg by simp
  note v = suspend_views [OF same x(1,2), of site ks]
  have wk: "wakeup s1 g = wakeup s g" using rg g(1) by (metis fun_upd_other)
  have slot: "slots s1 b = Some h \<longleftrightarrow> slots s b = Some h" if "h \<noteq> f" for b h
    using rg that by (cases "site_slot site") auto
  have none: "slots s1 b = None \<longleftrightarrow> slots s b = None \<and> site_slot site \<noteq> Some b" for b
    using rg by (cases "site_slot site") auto
  have par: "parked_in s g c" using g(3,4) by (auto simp: parked_in_def)
  show ?thesis
  proof (cases c)
    case (InGroup h)
    then have "slots s (Group_joiner h) = Some g" using g(2) by simp
    then have "site \<noteq> InWaitGroup h" using rg by auto
    then show ?thesis using InGroup g(1,2) slot none rg by (cases site) (auto simp: poll_slot_def)
  next
    case (InWaitGroup h)
    then have "slots s (WaitGroup_waiter h) = Some g" using g(2) by simp
    then have "site \<noteq> InGroup h" using rg by auto
    then show ?thesis using InWaitGroup g(1,2) slot none rg by (cases site) (auto simp: poll_slot_def)
  next
    case (InJoin y')
    then show ?thesis using g(1,2) slot x(1) same by auto
  next
    case (InPoll w d r)
    have "site \<noteq> InPoll w d r" using rg par InPoll by blast
    then show ?thesis using InPoll g(2) v(3) rg by auto
  qed (use g(2) wk rg in auto)
qed

lemma suspend_inv:
  assumes i: "inv s" and f: "this_fiber s = Some f" "fibers s f = Some x" "\<not> interrupted x"
    and reg: "registers f site s s1" and woken: "woken s1 f site \<longleftrightarrow> site = InYield"
    and site: "site_ok (suspend f (site # ks) s1) f (x\<lparr>frames := site # ks\<rparr>) site ks"
  shows "inv (suspend f (site # ks) s1)"
proof (rule inv_exI)
  let ?s = "suspend f (site # ks) s1"
  note d = inv_exD [OF i] and rg = reg [unfolded registers_def]
  have same: "fibers s1 = fibers s" using rg by simp
  have st: "state x = Running" "frames x = []"
    using running_fiber [OF d(4) f(1)] f(2) by auto
  have v: "live ?s = live s" "in_group ?s = in_group s" "parked_in ?s g c \<longleftrightarrow> (if g = f then c = site else parked_in s g c)" for g c
    using suspend_views [OF same f(2)] st by simp_all
  have notf: "parked_in s g c \<Longrightarrow> g \<noteq> f" for g c using st f(2) by (auto simp: parked_in_def)
  show "\<not> fault ?s" using d(1) rg by simp
  have wk: "g \<noteq> f \<Longrightarrow> wakeup s1 g = wakeup s g" for g using rg by (metis fun_upd_other)
  have ge: "group_empty s1 = group_empty s" "group_failed s1 = group_failed s" "live s1 = live s"
    using agree_views [of s1 s] rg by simp_all
  have wf: "woken ?s f site = woken s1 f site" using v(1) ge by (cases site) auto
  show "ready_ok {} ?s"
    unfolding ready_ok_def
  proof (intro allI impI, elim conjE)
    fix g y assume g: "fibers ?s g = Some y" "state y \<noteq> Dead"
    show "g \<in> set (run_queue ?s) \<longleftrightarrow> ready ?s g y"
    proof (cases "g = f")
      case True
      then have "y = x\<lparr>frames := site # ks\<rparr>" using g(1) f(2) same(1) by simp
      then have "ready ?s g y \<longleftrightarrow> site = InYield"
        using True st f(3) woken by (auto simp: ready_def interrupted_def wf)
      moreover have "f \<notin> set (run_queue s)" using d(3) f(1) by (auto simp: run_queue_ok_def)
      ultimately show ?thesis using True rg by simp
    next
      case False
      have y: "fibers s g = Some y" using g(1) False same by simp
      have "woken ?s g c = woken s g c" if "frames y = c # cs" for c cs
      proof -
        have "site_ok s g y c cs" using d(5) y that unfolding sites_ok_def by blast
        moreover have "slots s1 b = Some g \<longleftrightarrow> slots s b = Some g" for b
          using rg False by (cases "site_slot site") auto
        ultimately show ?thesis using v(1) ge wk [OF False] rg by (cases c) auto
      qed
      then have "ready ?s g y = ready s g y" by (auto simp: ready_def)
      then show ?thesis using False y g(2) d(2) f(1) rg by (simp add: ready_ok_def)
    qed
  qed
  show "run_queue_ok ?s" using d(3) f rg st by (auto simp: run_queue_ok_def v live_def)
  show "states_ok ?s" using d(4) f(1,2) st same by (auto simp: states_ok_def state_ok_def split: if_splits)
  show "sites_ok ?s"
    unfolding sites_ok_def
  proof (intro allI impI, elim conjE)
    fix g y c cs assume g: "fibers ?s g = Some y" "frames y = c # cs"
    show "site_ok ?s g y c cs"
    proof (cases "g = f")
      case True
      then have "y = x\<lparr>frames := site # ks\<rparr>" using g(1) f(2) same by simp
      then show ?thesis using g(2) True site by auto
    next
      case False
      then have y: "fibers s g = Some y" using g(1) same by simp
      then have "site_ok s g y c cs" using d(5) g(2) unfolding sites_ok_def by blast
      then show ?thesis using suspend_other_sites [OF reg f(2) _ _ False _ y g(2)] st notf by auto
    qed
  qed
  show "queues_ok ?s"
    unfolding queues_ok_def v
  proof (intro allI conjI ballI)
    fix q
    have qs: "queues ?s q = queues s q @ (if site = InWait q then [f] else [])" using rg by simp
    have nf: "f \<notin> set (queues s q)" using queues_okD(2) [OF d(6)] notf by blast
    then show "distinct (queues ?s q)" using queues_okD(1) [OF d(6), of q] qs by simp
    fix g assume "g \<in> set (queues ?s q)"
    then have g: "g \<in> set (queues s q) \<and> g \<noteq> f \<or> g = f \<and> site = InWait q"
      using qs nf by (auto split: if_splits)
    then show "if g = f then InWait q = site else parked_in s g (InWait q)" using queues_okD(2) [OF d(6)] by auto
    show "\<not> wakeup ?s g" using g wk rg queues_okD(3) [OF d(6)] by auto
  qed
  show "timers_ok ?s"
  proof -
    have "GetDeadline (timers s1) t \<noteq> None \<Longrightarrow> owner s1 t \<noteq> None" for t
      using rg timers_okD(2) [OF d(7)] by (metis option.exhaust option.simps(3))
    moreover have ow: "owner s1 t = (if site = InSleep t then Some (SleepTimer f) else owner s t)" for t using rg by blast
    moreover have "parked_in ?s g (InSleep t)" if "owner s1 t = Some (SleepTimer g)" for t g
    proof (cases "site = InSleep t")
      case True
      then have "g = f" using that ow [of t] by simp
      then show ?thesis using True v(3) [of f "InSleep t"] by simp
    next
      case False
      then have "parked_in s g (InSleep t)" using that ow [of t] timers_okD(3) [OF d(7)] by simp
      then show ?thesis using notf by (auto simp: v)
    qed
    moreover have "owner s1 t = Some (TimeoutGuard g) \<Longrightarrow> live s g" for t g
      using ow [of t] timers_okD(4) [OF d(7)] by (simp split: if_splits)
    ultimately show ?thesis using rg v(1) by (simp add: timers_ok_def)
  qed
  show "slots_ok ?s"
    unfolding slots_ok_def
  proof (intro allI impI)
    fix c g assume "slots ?s c = Some g"
    then have "slots s c = Some g \<or> g = f \<and> site_slot site = Some c"
      using rg by (cases "site_slot site") (auto split: if_splits)
    then show "slot_ok ?s c g"
    proof
      assume "slots s c = Some g"
      then have "slot_ok s c g" using d(8) by (simp add: slots_ok_def)
      then show ?thesis using notf rg by (cases c) (auto simp: v)
    next
      assume c: "g = f \<and> site_slot site = Some c"
      have "parked_in ?s f site" by (simp add: v)
      moreover have "watchers ?s = watchers s" "\<And>w e r. site = InPoll w e r \<Longrightarrow> watchers s w = Open e" using rg by simp_all
      ultimately show ?thesis using c by (cases site) (fastforce simp: poll_slot_def split: if_splits)+
    qed
  qed
  show "groups_ok ?s" "watchers_ok ?s" using d v rg clause_congs(6,7) [of ?s s] by simp_all
qed

lemma yield_suspend_inv:
  assumes i: "inv s" and f: "this_fiber s = Some f" "fibers s f = Some x" "\<not> interrupted x"
  shows "inv (suspend f [InYield] (Unpark f s))"
proof -
  have l: "live s f" using i f by (auto simp: inv_ex_def states_ok_def)
  have "registers f InYield s (Unpark f s)"
    using Unpark_live [OF l] running_unregistered(1) [OF i f(1)] timers_okD(1) [OF inv_exD(7) [OF i]]
    by (simp add: registers_def)
  then show ?thesis by (rule suspend_inv [OF i f]) simp_all
qed

lemma sleep_suspend_inv:
  assumes i: "inv s" and f: "this_fiber s = Some f" "fibers s f = Some x" "\<not> interrupted x" and t: "owner s t = None"
  shows "inv (suspend f [InSleep t] (s\<lparr>timers := Activate (timers s) t d, owner := (owner s)(t \<mapsto> SleepTimer f)\<rparr>))"
proof -
  note h = timers_okD(1,2) [OF inv_exD(7) [OF i]]
  have none: "GetDeadline (timers s) t = None" using h(2) t by (metis option.exhaust)
  have "registers f (InSleep t) s (s\<lparr>timers := Activate (timers s) t d, owner := (owner s)(t \<mapsto> SleepTimer f)\<rparr>)"
    using th.invar_activate [OF h(1) none] th.deadlines_activate [OF h(1) none] t by (simp add: registers_def)
  then show ?thesis
    by (rule suspend_inv [OF i f]) (simp_all add: th.deadlines_activate [OF h(1) none])
qed

lemma wait_suspend_inv:
  assumes i: "inv s" and f: "this_fiber s = Some f" "fibers s f = Some x" "\<not> interrupted x" and ks: "wait_frames q ks"
  shows "inv (suspend f (InWait q # ks) (enqueue_waiter f q s))"
proof -
  have "registers f (InWait q) s (enqueue_waiter f q s)"
    using timers_okD(1) [OF inv_exD(7) [OF i]] by (simp add: registers_def enqueue_waiter_def)
  then show ?thesis using ks by (intro suspend_inv [OF i f]) (simp_all add: enqueue_waiter_def)
qed

lemma slot_suspend_inv:
  assumes i: "inv s" and f: "this_fiber s = Some f" "fibers s f = Some x" "\<not> interrupted x"
    and c: "site_slot site = Some c" "slots s c = None"
      "\<And>g. site = InGroup g \<Longrightarrow> slots s (WaitGroup_waiter g) = None"
      "\<And>g. site = InWaitGroup g \<Longrightarrow> slots s (Group_joiner g) = None"
      "\<And>w d r. site = InPoll w d r \<Longrightarrow> watchers s w = Open d \<and> (\<forall>g. \<not> parked_in s g (InPoll w d r))"
    and not_yet: "\<not> woken (s\<lparr>slots := (slots s)(c \<mapsto> f)\<rparr>) f site"
    and site: "site_ok (suspend f (site # ks) (s\<lparr>slots := (slots s)(c \<mapsto> f)\<rparr>)) f (x\<lparr>frames := site # ks\<rparr>) site ks"
  shows "inv (suspend f (site # ks) (s\<lparr>slots := (slots s)(c \<mapsto> f)\<rparr>))"
proof -
  have ne: "site \<noteq> InYield" "\<And>t. site \<noteq> InSleep t" "\<And>q. site \<noteq> InWait q" using c(1) by auto
  then have "registers f site s (s\<lparr>slots := (slots s)(c \<mapsto> f)\<rparr>)"
    using timers_okD(1) [OF inv_exD(7) [OF i]] c by (simp add: registers_def)
  then show ?thesis using ne not_yet site by (intro suspend_inv [OF i f]) simp_all
qed

section \<open>Leaving Park\<close>

definition reset_timeout :: "bool \<Rightarrow> FiberImpl \<Rightarrow> FiberImpl" where
  "reset_timeout b x = (if b then x\<lparr>timedout := False\<rparr> else x)"

lemma keeps_shape_reset [simp]: "keeps_shape (reset_timeout b)"
  by (simp add: keeps_shape_def reset_timeout_def)

lemma guarded_reset [simp]: "cancel_guarded (reset_timeout b x) = cancel_guarded x"
  by (simp add: reset_timeout_def)

lemma Park_check_None: "fibers s f = Some x \<Longrightarrow> \<not> interrupted x \<Longrightarrow> Park_check f site s = (None, s)"
  by (auto simp: Park_check_def interrupted_def)

lemma Park_check_Some:
  assumes "fibers s f = Some x" "interrupted x"
  obtains e b where
    "Park_check f site s = (Some e, cleanup site (set_fiber f (reset_timeout b) (s\<lparr>run_queue := remove1 f (run_queue s)\<rparr>)))"
proof (cases "canceled x")
  case True
  have "set_fiber f (reset_timeout False) r = r" for r
  proof -
    have "reset_timeout False = id" by (simp add: fun_eq_iff reset_timeout_def)
    then show ?thesis by (simp add: set_fiber_def option.map_id fun_upd_idem)
  qed
  then show ?thesis using that [of FiberCanceledException False] assms True by (simp add: Park_check_def interrupted_def)
next
  case False
  have "reset_timeout True = (\<lambda>x. x\<lparr>timedout := False\<rparr>)" by (simp add: fun_eq_iff reset_timeout_def)
  then show ?thesis using that [of _ True] assms False by (simp add: Park_check_def interrupted_def)
qed

lemma running_flags_inv:
  assumes "inv_ex E s" "this_fiber s = Some f" "keeps_shape u"
  shows "inv_ex E (set_fiber f u s)"
proof -
  have "frames x = []" if "fibers s f = Some x" for x
    using running_fiber [OF inv_exD(4) [OF assms(1)] assms(2)] that by auto
  then show ?thesis using set_flags_inv [OF assms(1,3), of f] assms(2) by auto
qed

text \<open>
  Resuming at \<open>site\<close>: the fiber leaves the run queue, runs again and has deregistered.  \<open>deregisters\<close> says
  what the cleanup closure and the destructors around \<open>Park\<close> achieve.
\<close>

definition deregisters :: "fid \<Rightarrow> frame \<Rightarrow> Scheduler \<Rightarrow> Scheduler \<Rightarrow> bool" where
  "deregisters f site s s1 \<longleftrightarrow>
    (\<exists>x u. fibers s f = Some x \<and> keeps_shape u \<and> fibers s1 = (fibers s)(f \<mapsto> (u x)\<lparr>frames := []\<rparr>)) \<and>
    groups s1 = groups s \<and> watchers s1 = watchers s \<and> free_list s1 = free_list s \<and> fault s1 = fault s \<and>
    this_fiber s1 = Some f \<and> run_queue s1 = remove1 f (run_queue s) \<and>
    (\<forall>q. queues s1 q = (if site = InWait q then remove1 f (queues s q) else queues s q)) \<and>
    wakeup s1 = (wakeup s)(f := wakeup s1 f) \<and>
    timer_inv (timers s1) \<and>
    (\<forall>t. GetDeadline (timers s1) t = (if site = InSleep t then None else GetDeadline (timers s) t)) \<and>
    (\<forall>t. owner s1 t = (if site = InSleep t then None else owner s t)) \<and>
    (\<forall>c. slots s1 c = (if slots s c = Some f then None else slots s c))"

lemma deregister_inv:
  assumes i: "inv s" and f: "this_fiber s = None" "parked_in s f site" and dr: "deregisters f site s s1"
  shows "inv s1"
proof (rule inv_exI)
  note d = inv_exD [OF i] and rg = dr [unfolded deregisters_def]
  obtain x u where x: "fibers s f = Some x" "keeps_shape u" "fibers s1 = (fibers s)(f \<mapsto> (u x)\<lparr>frames := []\<rparr>)"
    using rg by blast
  have st: "state x = Running"
  proof -
    have "state_ok s f x" using d(4) x(1) by (simp add: states_ok_def)
    then show ?thesis using f(2) x(1) by (auto simp: state_ok_def parked_in_def)
  qed
  have ux: "state (u x) = Running" "group (u x) = group x" using x(2) st by (simp_all add: keeps_shape_def)
  have v: "live s1 = live s" "in_group s1 = in_group s" "parked_in s1 g c \<longleftrightarrow> g \<noteq> f \<and> parked_in s g c" for g c
    using x(1,3) st ux by (auto simp: live_def in_group_def parked_in_def fun_eq_iff)
  have only: "parked_in s f c \<Longrightarrow> c = site" for c using f(2) parked_in_unique by blast
  have wk: "g \<noteq> f \<Longrightarrow> wakeup s1 g = wakeup s g" for g using rg by (metis fun_upd_other)
  have slot: "slots s1 c = Some g \<longleftrightarrow> slots s c = Some g \<and> g \<noteq> f" for c g using rg by auto
  have dl: "GetDeadline (timers s1) t = (if site = InSleep t then None else GetDeadline (timers s) t)" for t using rg by blast
  have ow: "owner s1 t = (if site = InSleep t then None else owner s t)" for t using rg by blast
  have ge: "group_empty s1 = group_empty s" "group_failed s1 = group_failed s"
    using rg by (simp_all add: group_empty_def group_failed_def fun_eq_iff)
  have other: "fibers s1 g = Some y \<Longrightarrow> g \<noteq> f \<Longrightarrow> fibers s g = Some y" for g y using x(3) by simp
  have sl: "site \<noteq> InSleep t" if "site_ok s g y (InSleep t) cs" "g \<noteq> f" for g y t cs
  proof
    assume "site = InSleep t"
    then have "owner s t = Some (SleepTimer f)" using d(5) x(1) f(2) unfolding sites_ok_def parked_in_def by fastforce
    then show False using that by simp
  qed
  show "\<not> fault s1" using d(1) rg by simp
  show "ready_ok {} s1"
    unfolding ready_ok_def
  proof (intro allI impI, elim conjE)
    fix g y assume g: "fibers s1 g = Some y" "state y \<noteq> Dead" "this_fiber s1 \<noteq> Some g"
    have gf: "g \<noteq> f" using g(3) rg by auto
    note y = other [OF g(1) gf]
    have "woken s1 g c = woken s g c" if "frames y = c # cs" for c cs
    proof -
      have ok: "site_ok s g y c cs" using d(5) y that unfolding sites_ok_def by blast
      then show ?thesis using v(1) ge wk [OF gf] slot gf dl sl [OF _ gf] by (cases c) auto
    qed
    then have "ready s1 g y = ready s g y" by (auto simp: ready_def)
    then show "g \<in> set (run_queue s1) \<longleftrightarrow> ready s1 g y"
      using gf y g(2) d(2) f(1) rg by (auto simp: ready_ok_def)
  qed
  show "run_queue_ok s1"
    using d(3) rg by (auto simp: run_queue_ok_def v set_remove1_eq)
  show "states_ok s1"
    using d(4) f(1) st ux x rg unfolding states_ok_def v by (auto simp: state_ok_def live_def)
  show "groups_ok s1" "watchers_ok s1" using d v rg clause_congs(6,7) [of s1 s] by simp_all
  show "queues_ok s1"
    unfolding queues_ok_def v
  proof (intro allI conjI ballI)
    fix q
    have qs: "queues s1 q = (if site = InWait q then remove1 f (queues s q) else queues s q)" using rg by simp
    then show "distinct (queues s1 q)" using queues_okD(1) [OF d(6), of q] by simp
    fix g assume g: "g \<in> set (queues s1 q)"
    then have g': "g \<in> set (queues s q)" using qs set_remove1_subset [of f "queues s q"] by (auto split: if_splits)
    show gf: "g \<noteq> f"
    proof
      assume "g = f"
      then have "site = InWait q" using g' queues_okD(2) [OF d(6)] only by blast
      then show False using g qs queues_okD(1) [OF d(6), of q] \<open>g = f\<close> by (simp add: set_remove1_eq)
    qed
    show "parked_in s g (InWait q)" "\<not> wakeup s1 g" using g' queues_okD(2,3) [OF d(6)] wk [OF gf] by auto
  qed
  show "timers_ok s1"
    unfolding timers_ok_def v
  proof (intro conjI allI impI)
    show "timer_inv (timers s1)" using rg by blast
    fix t show "GetDeadline (timers s1) t \<noteq> None \<Longrightarrow> owner s1 t \<noteq> None"
      using dl [of t] ow [of t] timers_okD(2) [OF d(7)] by (auto split: if_splits)
    fix g
    show "owner s1 t = Some (TimeoutGuard g) \<Longrightarrow> live s g" using ow [of t] timers_okD(4) [OF d(7)] by (simp split: if_splits)
    assume "owner s1 t = Some (SleepTimer g)"
    then have "site \<noteq> InSleep t" "parked_in s g (InSleep t)" using ow [of t] timers_okD(3) [OF d(7)] by (simp_all split: if_splits)
    then show "g \<noteq> f" "parked_in s g (InSleep t)" using only by auto
  qed
  show "slots_ok s1"
    unfolding slots_ok_def
  proof (intro allI impI)
    fix c g assume "slots s1 c = Some g"
    then have "slots s c = Some g" "g \<noteq> f" using slot by blast+
    then have "slot_ok s c g" using d(8) by (simp add: slots_ok_def)
    then show "slot_ok s1 c g" using \<open>g \<noteq> f\<close> rg by (cases c) (auto simp: v)
  qed
  show "sites_ok s1"
    unfolding sites_ok_def
  proof (intro allI impI, elim conjE)
    fix g y c cs assume g: "fibers s1 g = Some y" "frames y = c # cs"
    have gf: "g \<noteq> f" using g x(3) by auto
    note y = other [OF g(1) gf]
    have ok: "site_ok s g y c cs" using d(5) y g(2) unfolding sites_ok_def by blast
    have none: "slots s b = None \<Longrightarrow> slots s1 b = None" for b using rg by simp
    have queue: "g \<in> set (queues s q) \<Longrightarrow> g \<in> set (queues s1 q)" for q using rg gf by simp
    show "site_ok s1 g y c cs"
    proof (cases c)
      case (InJoin y')
      then show ?thesis using ok slot gf x(1,3) ux by auto
    qed (use ok slot gf none queue wk [OF gf] v(3) ow sl [OF _ gf] rg in auto)
  qed
qed

definition go_on :: "fid \<Rightarrow> (FiberImpl \<Rightarrow> FiberImpl) \<Rightarrow> Scheduler \<Rightarrow> Scheduler" where
  "go_on f u s =
    set_fiber f (\<lambda>x. (u x)\<lparr>frames := []\<rparr>) (s\<lparr>run_queue := remove1 f (run_queue s), this_fiber := Some f\<rparr>)"

lemma slot_of_parked:
  assumes i: "inv_ex E s" and f: "parked_in s f site" and c: "slots s c = Some f"
  shows "site_slot site = Some c"
proof -
  have "slot_ok s c f" using inv_exD(8) [OF i] c by (simp add: slots_ok_def)
  then show ?thesis using parked_in_unique [OF f] by (cases c) (auto simp: poll_slot_def)
qed

lemma poll_slot_parked:
  assumes i: "inv_ex E s" and f: "parked_in s f (InPoll w d read)"
  shows "watchers s w = Open d \<and> (slots s (poll_slot d read) = None \<or> slots s (poll_slot d read) = Some f) \<or>
    watchers s w = Closed \<and> slots s (poll_slot d read) \<noteq> Some f"
proof -
  note d = inv_exD [OF i]
  obtain x ks where x: "fibers s f = Some x" "frames x = InPoll w d read # ks" using f by (auto simp: parked_in_def)
  have ok: "site_ok s f x (InPoll w d read) ks" using d(5) x unfolding sites_ok_def by blast
  have slot: "\<exists>w'. watchers s w' = Open d \<and> parked_in s g (InPoll w' d read)" if "slots s (poll_slot d read) = Some g" for g
  proof -
    have "slot_ok s (poll_slot d read) g" using d(8) that by (simp add: slots_ok_def)
    then show ?thesis by (cases read) (simp_all add: poll_slot_def)
  qed
  show ?thesis
  proof (cases "watchers s w = Open d")
    case True
    have "g = f" if g: "slots s (poll_slot d read) = Some g" for g
    proof -
      obtain w' where w': "watchers s w' = Open d" "parked_in s g (InPoll w' d read)" using slot [OF g] by blast
      then have "w' = w" using True d(10) unfolding watchers_ok_def by blast
      then show ?thesis using ok w'(2) by simp
    qed
    then show ?thesis using True by (cases "slots s (poll_slot d read)") auto
  next
    case False
    then have "watchers s w = Closed" using ok by simp
    moreover have "slots s (poll_slot d read) \<noteq> Some f"
    proof
      assume "slots s (poll_slot d read) = Some f"
      then obtain w' where "watchers s w' = Open d" "parked_in s f (InPoll w' d read)" using slot by blast
      then show False using parked_in_unique [OF f] False by auto
    qed
    ultimately show ?thesis by simp
  qed
qed

lemma go_on_fields [simp]:
  "timers (go_on f u s) = timers s" "owner (go_on f u s) = owner s" "this_fiber (go_on f u s) = Some f"
  "queues (go_on f u s) = queues s" "wakeup (go_on f u s) = wakeup s" "run_queue (go_on f u s) = remove1 f (run_queue s)"
  "slots (go_on f u s) = slots s" "groups (go_on f u s) = groups s" "watchers (go_on f u s) = watchers s"
  "free_list (go_on f u s) = free_list s" "fault (go_on f u s) = fault s" "mutex_locked (go_on f u s) = mutex_locked s"
  "fibers (go_on f u s) = (fibers s)(f := map_option (\<lambda>x. (u x)\<lparr>frames := []\<rparr>) (fibers s f))"
  by (simp_all add: go_on_def)

lemma leave_deregisters:
  assumes i: "inv s" and f: "parked_in s f site" and u: "keeps_shape u"
  shows "deregisters f site s (leave f Returned site (cleanup site (go_on f u s)))"
proof -
  note d = inv_exD [OF i] and h = timers_okD(1) [OF inv_exD(7) [OF i]]
  obtain x ks where x: "fibers s f = Some x" "frames x = site # ks" using f by (auto simp: parked_in_def)
  have ok: "site_ok s f x site ks" using d(5) x unfolding sites_ok_def by blast
  have slot: "slots s c \<noteq> Some f" if "site_slot site \<noteq> Some c" for c using slot_of_parked [OF i f, of c] that by auto
  have fib: "\<exists>y v. fibers s f = Some y \<and> keeps_shape v \<and> (fibers s)(f \<mapsto> (u x)\<lparr>frames := []\<rparr>) = (fibers s)(f \<mapsto> (v y)\<lparr>frames := []\<rparr>)"
    using x(1) u by auto
  have timer: "timer_inv (Timer_destroy (timers s) t)" "GetDeadline (Timer_destroy (timers s) t) = (GetDeadline (timers s))(t := None)" for t
    using th.invar_deactivate [OF h, of t] th.deadlines_deactivate [OF h, of t] h GetDeadline_inactive [of "timers s" t]
    by (auto simp: Timer_destroy_def)
  show ?thesis
  proof (cases site)
    case (InPoll w e read)
    have other: "slots s c \<noteq> Some f" if "c \<noteq> poll_slot e read" for c using slot [of c] InPoll that by auto
    show ?thesis
    proof (cases "watchers s w = Closed")
      case True
      then have "slots s c \<noteq> Some f" for c
        using poll_slot_parked [OF i f [unfolded InPoll]] other [of c] by (cases "c = poll_slot e read") auto
      then show ?thesis using True InPoll x(1) fib h by (simp add: deregisters_def)
    next
      case False
      then show ?thesis
        using poll_slot_parked [OF i f [unfolded InPoll]] other InPoll x(1) fib h
        by (auto simp: deregisters_def clear_slot_def)
    qed
  qed (use x(1) fib h slot timer ok in \<open>auto simp: deregisters_def clear_slot_def Let_def\<close>)
qed

lemma leave_woken:
  assumes i: "inv s" and q: "site = InWait q" "out \<noteq> Returned" "wakeup s f"
  shows "leave f out site (cleanup site (go_on f u s)) = NotifyOne q (leave f Returned site (cleanup site (go_on f u s)))"
proof -
  have nf: "f \<notin> set (queues s q)" using queues_okD(3) [OF inv_exD(6) [OF i]] q(3) by blast
  show ?thesis
  proof (cases "queues s q")
    case Nil
    then show ?thesis using q by (simp add: NotifyOne_def)
  next
    case (Cons g rest)
    then have "g \<noteq> f" "f \<notin> set rest" using nf by auto
    then show ?thesis
      using q Cons by (simp add: NotifyOne_def Let_def remove1_idem Unpark_def fun_upd_twist split: option.split)
  qed
qed

lemma leave_inv:
  assumes i: "inv s" and f: "this_fiber s = None" "parked_in s f site" and u: "keeps_shape u"
  shows "inv (leave f out site (cleanup site (go_on f u s)))"
proof -
  let ?l = "leave f Returned site (cleanup site (go_on f u s))"
  have l: "inv ?l" by (rule deregister_inv [OF i f leave_deregisters [OF i f(2) u]])
  show ?thesis
  proof (cases "\<exists>q. site = InWait q \<and> out \<noteq> Returned \<and> wakeup s f")
    case False
    then have "leave f out site (cleanup site (go_on f u s)) = ?l" by (cases site) auto
    then show ?thesis using l by simp
  next
    case True
    then obtain q where "leave f out site (cleanup site (go_on f u s)) = NotifyOne q ?l" using leave_woken [OF i] by blast
    then show ?thesis using NotifyOne_inv [OF l] by simp
  qed
qed

section \<open>Park that throws at once\<close>

lemma wakeup_running_inv:
  assumes i: "inv s" and f: "this_fiber s = Some f"
  shows "inv (s\<lparr>wakeup := (wakeup s)(f := b)\<rparr>)"
proof -
  let ?s = "s\<lparr>wakeup := (wakeup s)(f := b)\<rparr>"
  note d = inv_exD [OF i] and r = running_unregistered [OF i f]
  have v: "live ?s = live s" "parked_in ?s = parked_in s" "group_empty ?s = group_empty s"
    "group_failed ?s = group_failed s" "in_group ?s = in_group s"
    using agree_views [of ?s s] by simp_all
  have w: "g \<noteq> f \<Longrightarrow> woken ?s g c = woken s g c" for g c using v by (cases c) auto
  have nf: "fibers s f = Some x \<Longrightarrow> frames x = []" for x using running_fiber [OF d(4) f] by auto
  have "ready_ok {} ?s" using d(2) f w by (auto simp: ready_ok_def ready_def)
  moreover have "site_ok ?s g x c cs" if "site_ok s g x c cs" "g \<noteq> f" for g x c cs
    using that v by (cases c) auto
  then have "sites_ok ?s" using d(5) nf unfolding sites_ok_def by (metis list.distinct(1) Scheduler.select_convs(8) Scheduler.update_convs(10) Scheduler.surjective)
  moreover have "queues_ok ?s" using d(6) r(2) by (auto simp: queues_ok_def v)
  moreover have "\<not> fault ?s" "run_queue_ok ?s" "states_ok ?s" "slots_ok ?s" "groups_ok ?s" "watchers_ok ?s" "timers_ok ?s"
    using d v clause_congs(1,2,4-7) [of ?s s] by simp_all
  ultimately show ?thesis by (intro inv_exI)
qed

lemma throw_yield_inv:
  assumes i: "inv s" and f: "this_fiber s = Some f" "fibers s f = Some x" "interrupted x"
    and c: "Park_check f InYield (Unpark f s) = (Some e, s')"
  shows "inv (leave f (Threw e) InYield s')" "this_fiber s' = Some f"
proof -
  have l: "live s f" using i f(1) by (auto simp: inv_ex_def states_ok_def)
  obtain e' b where "Park_check f InYield (Unpark f s)
      = (Some e', cleanup InYield (set_fiber f (reset_timeout b) ((Unpark f s)\<lparr>run_queue := remove1 f (run_queue (Unpark f s))\<rparr>)))"
    using Park_check_Some [of "Unpark f s" f x InYield] f by auto
  moreover have "(Unpark f s)\<lparr>run_queue := remove1 f (run_queue (Unpark f s))\<rparr> = s"
    using l running_unregistered(1) [OF i f(1)] by (auto simp: Unpark_def live_def remove1_append)
  ultimately have "s' = set_fiber f (reset_timeout b) s" using c by simp
  then show "inv (leave f (Threw e) InYield s')" "this_fiber s' = Some f"
    using running_flags_inv [OF i f(1)] f(1) by simp_all
qed

lemma throw_sleep_inv:
  assumes i: "inv s" and f: "this_fiber s = Some f" "fibers s f = Some x" "interrupted x" and t: "owner s t = None"
    and c: "Park_check f (InSleep t) (s\<lparr>timers := Activate (timers s) t d, owner := (owner s)(t \<mapsto> SleepTimer f)\<rparr>) = (Some e, s')"
  shows "inv (leave f (Threw e) (InSleep t) s')" "this_fiber s' = Some f"
proof -
  let ?s = "s\<lparr>timers := Activate (timers s) t d, owner := (owner s)(t \<mapsto> SleepTimer f)\<rparr>"
  note h = timers_okD(1,2) [OF inv_exD(7) [OF i]]
  have none: "GetDeadline (timers s) t = None" using h(2) t by (metis option.exhaust)
  have inv': "timer_inv (Activate (timers s) t d)" by (rule th.invar_activate [OF h(1) none])
  have "GetDeadline (Timer_destroy (Activate (timers s) t d) t) = GetDeadline (timers s) \<and> timer_inv (Timer_destroy (Activate (timers s) t d) t)"
    using th.activate_deactivate [OF h(1) none, of d] th.invar_deactivate [OF inv', of t] inv'
      th.deadlines_activate [OF h(1) none, of d] GetDeadline_inactive [of "Activate (timers s) t d" t]
    by (auto simp: Timer_destroy_def)
  moreover obtain e' b where "Park_check f (InSleep t) ?s
      = (Some e', cleanup (InSleep t) (set_fiber f (reset_timeout b) (?s\<lparr>run_queue := remove1 f (run_queue ?s)\<rparr>)))"
    using Park_check_Some [of ?s f x "InSleep t"] f by auto
  then have s': "s' = set_fiber f (reset_timeout b) (?s\<lparr>run_queue := remove1 f (run_queue ?s)\<rparr>)" using c by simp
  moreover have "remove1 f (run_queue s) = run_queue s" using running_unregistered(1) [OF i f(1)] by (simp add: remove1_idem)
  ultimately have "agree (set_fiber f (reset_timeout b) s) (leave f (Threw e) (InSleep t) s')"
    using t by (auto simp: agree_def)
  then show "inv (leave f (Threw e) (InSleep t) s')"
    by (rule inv_agree [OF running_flags_inv [OF i f(1) keeps_shape_reset]])
  show "this_fiber s' = Some f" using s' f(1) by simp
qed

lemma throw_wait_inv:
  assumes i: "inv s" and f: "this_fiber s = Some f" "fibers s f = Some x" "interrupted x"
    and c: "Park_check f (InWait q) (enqueue_waiter f q s) = (Some e, s')"
  shows "inv (leave f (Threw e) (InWait q) s')" "this_fiber s' = Some f"
proof -
  let ?s = "enqueue_waiter f q s"
  obtain e' b where "Park_check f (InWait q) ?s
      = (Some e', cleanup (InWait q) (set_fiber f (reset_timeout b) (?s\<lparr>run_queue := remove1 f (run_queue ?s)\<rparr>)))"
    using Park_check_Some [of ?s f x "InWait q"] f by (auto simp: enqueue_waiter_def)
  then have s': "s' = set_fiber f (reset_timeout b) (?s\<lparr>run_queue := remove1 f (run_queue ?s)\<rparr>)" using c by simp
  have "remove1 f (run_queue s) = run_queue s" "remove1 f (queues s q @ [f]) = queues s q"
    using running_unregistered(1,2) [OF i f(1)] by (simp_all add: remove1_idem remove1_append)
  then have "agree ((set_fiber f (reset_timeout b) s)\<lparr>wakeup := (wakeup s)(f := False)\<rparr>) (leave f (Threw e) (InWait q) s')"
    by (simp add: agree_def s' enqueue_waiter_def Let_def)
  moreover have "inv ((set_fiber f (reset_timeout b) s)\<lparr>wakeup := (wakeup (set_fiber f (reset_timeout b) s))(f := False)\<rparr>)"
    using running_flags_inv [OF i f(1)] f(1) by (intro wakeup_running_inv) simp_all
  ultimately show "inv (leave f (Threw e) (InWait q) s')" using inv_agree by simp
  show "this_fiber s' = Some f" using s' f(1) by (simp add: enqueue_waiter_def)
qed

lemma throw_slot_inv:
  assumes i: "inv s" and f: "this_fiber s = Some f" "fibers s f = Some x" "interrupted x"
    and site: "site_slot site = Some c" "slots s c = None" "\<And>w d r. site = InPoll w d r \<Longrightarrow> watchers s w = Open d"
    and c: "Park_check f site (s\<lparr>slots := (slots s)(c \<mapsto> f)\<rparr>) = (Some e, s')"
  shows "inv (leave f (Threw e) site s')" "this_fiber s' = Some f"
proof -
  let ?s = "s\<lparr>slots := (slots s)(c \<mapsto> f)\<rparr>"
  obtain e' b where "Park_check f site ?s
      = (Some e', cleanup site (set_fiber f (reset_timeout b) (?s\<lparr>run_queue := remove1 f (run_queue ?s)\<rparr>)))"
    using Park_check_Some [of ?s f x site] f by auto
  then have "s' = cleanup site (set_fiber f (reset_timeout b) (?s\<lparr>run_queue := remove1 f (run_queue ?s)\<rparr>))" using c by simp
  also have "\<dots> = clear_slot c (set_fiber f (reset_timeout b) (?s\<lparr>run_queue := remove1 f (run_queue ?s)\<rparr>))"
    using site by (cases site) auto
  finally have s': "s' = \<dots>" .
  have "remove1 f (run_queue s) = run_queue s" using running_unregistered(1) [OF i f(1)] by (simp add: remove1_idem)
  then have "agree (set_fiber f (reset_timeout b) s) s'"
    using site(2) by (auto simp: agree_def s' clear_slot_def)
  moreover have "leave f (Threw e) site s' = s'" using site(1) by (cases site) auto
  ultimately show "inv (leave f (Threw e) site s')"
    using inv_agree [OF running_flags_inv [OF i f(1) keeps_shape_reset]] by simp
  show "this_fiber s' = Some f" using s' f(1) by (simp add: clear_slot_def)
qed

section \<open>After Park\<close>

fun kont_ok :: "frame list \<Rightarrow> bool" where
  "kont_ok [] \<longleftrightarrow> True"
| "kont_ok (KLock m # ks) \<longleftrightarrow> lock_frames m (KLock m # ks)"
| "kont_ok (KGuardLock g # ks) \<longleftrightarrow> ks = [] \<or> (\<exists>c. ks = [KCondLock c])"
| "kont_ok [KCondLock c] \<longleftrightarrow> True"
| "kont_ok [KCondWait c g] \<longleftrightarrow> True"
| "kont_ok [KWaitGroup g] \<longleftrightarrow> True"
| "kont_ok _ \<longleftrightarrow> False"

lemma inv_unmentioned [simp]:
  "inv_ex E (s\<lparr>mutex_locked := a\<rparr>) = inv_ex E s" "inv_ex E (s\<lparr>guard_locked := b\<rparr>) = inv_ex E s"
  "inv_ex E (s\<lparr>guard_mutex := c\<rparr>) = inv_ex E s" "inv_ex E (s\<lparr>now := n\<rparr>) = inv_ex E s"
  "inv_ex E (s\<lparr>time_freezed := z\<rparr>) = inv_ex E s"
  by (rule iffI; erule inv_agree; simp add: agree_def)+

text \<open>An exception passes through the frames that wait for a lock.\<close>

lemma unwind_throw:
  "inv s \<Longrightarrow> this_fiber s = Some f \<Longrightarrow> kont_ok ks \<Longrightarrow> inv (snd (unwind f (Threw e) ks s))"
proof (induction ks arbitrary: s)
  case (Cons k ks)
  have "kont_ok ks" using Cons.prems(3) by (cases k; cases ks) auto
  then show ?case
    using Cons NotifyOne_inv [OF Cons.prems(1)] by (cases k) (auto simp: unwind.simps(2))
qed simp

lemma unwind_return_tail:
  "inv s \<Longrightarrow> this_fiber s = Some f \<Longrightarrow> ks = [] \<or> (\<exists>g. ks = [KGuardLock g]) \<or> (\<exists>g c. ks = [KGuardLock g, KCondLock c]) \<Longrightarrow>
   inv (snd (unwind f Returned ks s))"
  by (auto simp: unwind.simps(2))

lemma unwind_lock:
  assumes i: "inv s" and f: "this_fiber s = Some f" and ks: "lock_frames m (KLock m # ks)"
  shows "inv (snd (unwind f Returned (KLock m # ks) s))"
proof (cases "mutex_locked s m")
  case False
  then show ?thesis using unwind_return_tail [of "s\<lparr>mutex_locked := (mutex_locked s)(m := True)\<rparr>" f ks] i f ks
    by (simp add: unwind.simps(2))
next
  case True
  obtain x where x: "fibers s f = Some x" using running_fiber [OF inv_exD(4) [OF i] f] by blast
  then have x': "fibers (enqueue_waiter f (Lockers m) s) f = Some x" by (simp add: enqueue_waiter_def)
  show ?thesis
  proof (cases "interrupted x")
    case False
    then show ?thesis
      using wait_suspend_inv [OF i f x, of "Lockers m" "KLock m # ks"] ks True Park_check_None [OF x']
      by (simp add: unwind.simps(2))
  next
    case intr: True
    obtain e s' where c: "Park_check f (InWait (Lockers m)) (enqueue_waiter f (Lockers m) s) = (Some e, s')"
      using Park_check_Some [OF x' intr, of "InWait (Lockers m)"] by metis
    note t = throw_wait_inv [OF i f x intr c]
    have "this_fiber (leave f (Threw e) (InWait (Lockers m)) s') = Some f" using t(2) by (simp add: Let_def)
    then have "inv (snd (unwind f (Threw e) (KLock m # ks) (leave f (Threw e) (InWait (Lockers m)) s')))"
      using t(1) ks by (intro unwind_throw) simp_all
    then show ?thesis using True c by (simp add: unwind.simps(2))
  qed
qed

lemma unwind_inv:
  assumes i: "inv s" and f: "this_fiber s = Some f" and ks: "kont_ok ks"
  shows "inv (snd (unwind f out ks s))"
proof (cases out)
  case (Threw e)
  then show ?thesis using unwind_throw [OF assms] by simp
next
  case Returned
  show ?thesis
  proof (cases ks rule: kont_ok.cases)
    case (2 m ks')
    then show ?thesis using unwind_lock [OF i f] ks Returned by simp
  next
    case (5 c g)
    then show ?thesis
      using unwind_lock [OF i f, of "guard_mutex s g" "[KGuardLock g, KCondLock c]"] Returned by (simp add: unwind.simps(2) [of f Returned "KCondWait c g"])
  qed (use assms Returned unwind_return_tail [OF i f] in \<open>auto simp: unwind.simps(2) split: option.split\<close>)
qed

section \<open>Deleting objects\<close>

lemma delete_dead_inv:
  assumes i: "inv s" and x: "fibers s x = Some X" "state X = Dead" "slots s (Fiber_waiter x) = None"
  shows "inv (delete_fiber x s)" "this_fiber (delete_fiber x s) = this_fiber s"
proof -
  let ?s = "s\<lparr>fibers := (fibers s)(x := None)\<rparr>"
  note d = inv_exD [OF i]
  have st: "frames X = []" "this_fiber s \<noteq> Some x" "group X = None"
    using d(4) x(1,2) by (auto simp: states_ok_def state_ok_def)
  have rq: "x \<notin> set (run_queue s)" using d(3) x(1,2) by (auto simp: run_queue_ok_def live_def)
  have eq: "delete_fiber x s = ?s" using st(2) rq by (simp add: delete_fiber_def)
  have v: "live ?s = live s" "in_group ?s = in_group s" "parked_in ?s = parked_in s" "group_empty ?s = group_empty s"
    "group_failed ?s = group_failed s"
    using x st by (auto simp: live_def in_group_def parked_in_def group_empty_def group_failed_def fun_eq_iff)
  have w: "woken ?s g c = woken s g c" for g c by (rule woken_cong) (simp_all add: v)
  have other: "fibers ?s g = Some y \<Longrightarrow> fibers s g = Some y \<and> g \<noteq> x" for g y by (auto split: if_splits)
  have "site_ok ?s g y c cs" if "site_ok s g y c cs" for g y c cs
    using that x(3) v by (cases c) auto
  then have "sites_ok ?s" using d(5) other unfolding sites_ok_def by blast
  moreover have "ready ?s g y = ready s g y" for g y by (simp add: ready_def w)
  then have "ready_ok {} ?s" using d(2) unfolding ready_ok_def by (auto split: if_splits)
  moreover have "state_ok ?s = state_ok s" by (simp add: fun_eq_iff state_ok_def)
  then have "states_ok ?s" using d(4) v(1) unfolding states_ok_def by (auto split: if_splits)
  moreover have "\<not> fault ?s" "run_queue_ok ?s" "slots_ok ?s" "groups_ok ?s" "watchers_ok ?s" "timers_ok ?s" "queues_ok ?s"
    using d v clause_congs(1,3-7) [of ?s s] by simp_all
  ultimately show "inv (delete_fiber x s)" unfolding eq by (intro inv_exI)
  show "this_fiber (delete_fiber x s) = this_fiber s" unfolding eq by simp
qed

lemma delete_group_inv:
  assumes i: "inv s" and g: "group_empty s g" "slots s (Group_joiner g) = None" "slots s (WaitGroup_waiter g) = None"
  shows "inv (s\<lparr>groups := (groups s)(g := None)\<rparr>)"
proof -
  let ?s = "s\<lparr>groups := (groups s)(g := None)\<rparr>"
  note d = inv_exD [OF i]
  have v: "live ?s = live s" "in_group ?s = in_group s" "parked_in ?s = parked_in s"
    by (auto simp: live_def in_group_def parked_in_def fun_eq_iff)
  have no: "c \<noteq> InGroup g" "c \<noteq> InWaitGroup g" if "site_ok s h y c cs" for h y c cs using that g(2,3) by auto
  have w: "woken ?s h c = woken s h c" if "c \<noteq> InGroup g" "c \<noteq> InWaitGroup g" for h c
    using that v by (cases c) (auto simp: group_empty_def group_failed_def)
  have "site_ok ?s h y c cs" if "site_ok s h y c cs" for h y c cs
    using that no [OF that] v by (cases c) auto
  then have "sites_ok ?s" using d(5) unfolding sites_ok_def by simp
  moreover have "ready ?s h y = ready s h y" if "fibers s h = Some y" for h y
    using d(5) that no w unfolding sites_ok_def ready_def by blast
  then have "ready_ok {} ?s" using d(2) by (auto simp: ready_ok_def)
  moreover have "groups_ok ?s"
    using d(9) g(1) by (auto simp: groups_ok_def v group_empty_def)
  moreover have "\<not> fault ?s" "run_queue_ok ?s" "states_ok ?s" "slots_ok ?s" "watchers_ok ?s" "timers_ok ?s" "queues_ok ?s"
    using d v clause_congs(1-5,7) [of ?s s] by simp_all
  ultimately show ?thesis by (intro inv_exI)
qed

section \<open>Turns of the scheduler\<close>

lemma leave_fields: "this_fiber (leave f out site s) = this_fiber s" "fibers (leave f out site s) = fibers s"
  "groups (leave f out site s) = groups s" "slots (leave f out site s) = slots s"
  by (cases site; simp add: Let_def)+

lemma cleanup_fields: "this_fiber (cleanup site s) = this_fiber s" "fibers (cleanup site s) = fibers s"
  "groups (cleanup site s) = groups s"
  by (cases site; simp add: clear_slot_def)+

text \<open>What \<open>Park\<close> does when the scheduler switches back to a fiber it took from the run queue.\<close>

lemma resume_state:
  assumes "fibers s f = Some x" "frames x = site # ks" "f \<notin> set rest" "run_queue s = f # rest" "this_fiber s = None"
  obtains out u where "keeps_shape u" "out = Returned \<longrightarrow> \<not> interrupted x"
    "snd (Park_resumed f (s\<lparr>run_queue := rest, this_fiber := Some f\<rparr>))
     = snd (unwind f out (site # ks) (cleanup site (go_on f u s)))"
    "interrupted x \<longrightarrow> out \<noteq> Returned" "\<And>y. cancel_guarded (u y) = cancel_guarded y"
proof -
  let ?s = "set_fiber f (\<lambda>x. x\<lparr>frames := []\<rparr>) (s\<lparr>run_queue := rest, this_fiber := Some f\<rparr>)"
  have x': "fibers ?s f = Some (x\<lparr>frames := []\<rparr>)" using assms(1) by simp
  have rq: "remove1 f (run_queue s) = rest" "remove1 f rest = rest" using assms(3,4) by (simp_all add: remove1_idem)
  show ?thesis
  proof (cases "interrupted x")
    case False
    then have "Park_check f site ?s = (None, ?s)" using Park_check_None [OF x'] by (simp add: interrupted_def)
    moreover have "?s = go_on f (\<lambda>x. x) s" using rq(1) by (simp add: go_on_def)
    ultimately show ?thesis
      using that [of "\<lambda>x. x" Returned] False assms(1,2) by (simp add: Park_resumed_def keeps_shape_def)
  next
    case True
    then have "interrupted (x\<lparr>frames := []\<rparr>)" by (simp add: interrupted_def)
    then obtain e b where c: "Park_check f site ?s
        = (Some e, cleanup site (set_fiber f (reset_timeout b) (?s\<lparr>run_queue := remove1 f (run_queue ?s)\<rparr>)))"
      using Park_check_Some [OF x'] by blast
    have comp: "reset_timeout b (y\<lparr>frames := []\<rparr>) = (reset_timeout b y)\<lparr>frames := []\<rparr>" for y
      by (simp add: reset_timeout_def)
    have "?s\<lparr>run_queue := remove1 f (run_queue ?s)\<rparr> = ?s" using rq(2) by (simp add: set_fiber_def)
    moreover have "set_fiber f (reset_timeout b) ?s = go_on f (reset_timeout b) s"
      using assms(1) rq comp by (simp add: go_on_def set_fiber_def)
    ultimately have "set_fiber f (reset_timeout b) (?s\<lparr>run_queue := remove1 f (run_queue ?s)\<rparr>) = go_on f (reset_timeout b) s"
      by simp
    then show ?thesis
      using that [of "reset_timeout b" "Threw e"] True assms(1,2) c by (simp add: Park_resumed_def)
  qed
qed

lemma unwind_site:
  "site_ok s g y site cs \<Longrightarrow> unwind f out (site # ks) r = unwind f out ks (leave f out site r)"
  by (cases site) (simp_all add: unwind.simps(2))

lemma wait_kont_ok: "wait_frames q ks \<Longrightarrow> kont_ok ks"
  by (cases q; cases ks) (auto elim: lock_frames.elims)

lemma resume_inv:
  assumes i: "inv s" and n: "this_fiber s = None" and rq: "run_queue s = f # rest"
    and x: "fibers s f = Some x" "frames x = site # ks"
  shows "inv (snd (Park_resumed f (s\<lparr>run_queue := rest, this_fiber := Some f\<rparr>)))"
proof -
  note d = inv_exD [OF i]
  have nf: "f \<notin> set rest" using d(3) rq by (auto simp: run_queue_ok_def)
  have par: "parked_in s f site" using x by (auto simp: parked_in_def)
  have ok: "site_ok s f x site ks" using d(5) x unfolding sites_ok_def by blast
  have "state_ok s f x" using d(4) x(1) by (simp add: states_ok_def)
  then have st: "state x = Running" using x(2) by (auto simp: state_ok_def)
  have rdy: "ready s f x" using d(2) [unfolded ready_ok_def, rule_format, of f x] x(1) st n rq by simp
  obtain out u where u: "keeps_shape u" and eq: "snd (Park_resumed f (s\<lparr>run_queue := rest, this_fiber := Some f\<rparr>))
      = snd (unwind f out (site # ks) (cleanup site (go_on f u s)))"
    by (rule resume_state [OF x nf rq n]) blast
  define s1 where "s1 = leave f out site (cleanup site (go_on f u s))"
  have i1: "inv s1" unfolding s1_def by (rule leave_inv [OF i n par u])
  have f1: "this_fiber s1 = Some f" "groups s1 = groups s" "\<And>y. y \<noteq> f \<Longrightarrow> fibers s1 y = fibers s y"
    by (simp_all add: s1_def leave_fields cleanup_fields)
  have eq1: "snd (Park_resumed f (s\<lparr>run_queue := rest, this_fiber := Some f\<rparr>)) = snd (unwind f out ks s1)"
    unfolding eq s1_def using unwind_site [OF ok] by simp
  have go: ?thesis if "kont_ok ks" unfolding eq1 by (rule unwind_inv [OF i1 f1(1) that])
  show ?thesis
  proof (cases site)
    case (InJoin y)
    obtain saved Y where y: "ks = [KFiberDtor y saved]" "fibers s y = Some Y" "y \<noteq> f" "cancel_guarded x"
      using ok InJoin by auto
    have dead: "state Y = Dead"
      using rdy x(2) InJoin y st by (auto simp: ready_def interrupted_def live_def)
    let ?s = "set_fiber f (\<lambda>x. x\<lparr>cancel_guarded := saved\<rparr>) s1"
    have "inv ?s" by (rule running_flags_inv [OF i1 f1(1)]) simp
    moreover have "fibers ?s y = Some Y" using y f1(3) by simp
    moreover have "slots ?s (Fiber_waiter y) = None" by (simp add: s1_def InJoin leave_fields clear_slot_def)
    ultimately have "inv (delete_fiber y ?s)" using delete_dead_inv(1) dead by blast
    then show ?thesis using eq1 y(1) by (simp add: unwind.simps(2))
  next
    case (InGroup g)
    obtain saved where g: "ks = [KGroupDtor g saved]" "cancel_guarded x" "slots s (WaitGroup_waiter g) = None"
      using ok InGroup by auto
    have empty: "group_empty s1 g"
      using rdy x(2) InGroup g st f1(2) by (auto simp: ready_def interrupted_def group_empty_def)
    let ?s = "set_fiber f (\<lambda>x. x\<lparr>cancel_guarded := saved\<rparr>) s1"
    have "inv ?s" by (rule running_flags_inv [OF i1 f1(1)]) simp
    moreover have "slots s1 (Group_joiner g) = None" "slots s1 (WaitGroup_waiter g) = None"
      using g(3) by (simp_all add: s1_def InGroup leave_fields clear_slot_def)
    ultimately have "inv (?s\<lparr>groups := (groups ?s)(g := None)\<rparr>)" using empty by (intro delete_group_inv) simp_all
    then show ?thesis using eq1 g(1) by (simp add: unwind.simps(2))
  qed (use ok in \<open>auto intro!: go dest: wait_kont_ok\<close>)
qed

lemma group_views [simp]:
  "group_empty (s\<lparr>run_queue := r\<rparr>) = group_empty s" "group_empty (s\<lparr>this_fiber := t\<rparr>) = group_empty s"
  "group_failed (s\<lparr>run_queue := r\<rparr>) = group_failed s" "group_failed (s\<lparr>this_fiber := t\<rparr>) = group_failed s"
  by (simp_all add: group_empty_def group_failed_def fun_eq_iff)

lemma Poll_fields: "this_fiber (Poll events s) = this_fiber s \<and> now (Poll events s) = now s \<and> time_freezed (Poll events s) = time_freezed s"
proof -
  have w: "this_fiber (wake_slot c s) = this_fiber s \<and> now (wake_slot c s) = now s \<and> time_freezed (wake_slot c s) = time_freezed s" for c s
    by (auto simp: wake_slot_def clear_slot_def unpark_slot_def Unpark_def split: option.split)
  have "this_fiber (Poll_event ev s) = this_fiber s \<and> now (Poll_event ev s) = now s \<and> time_freezed (Poll_event ev s) = time_freezed s" for ev s
    using w by (cases ev) (simp add: Poll_event_def Let_def)
  then show ?thesis unfolding Poll_def by (induction events arbitrary: s) simp_all
qed

lemma start_inv:
  assumes i: "inv s" and n: "this_fiber s = None" and rq: "run_queue s = f # rest"
    and x: "fibers s f = Some x" "state x = Ready"
  shows "inv (set_fiber f (\<lambda>x. x\<lparr>state := Running\<rparr>) (s\<lparr>run_queue := rest, this_fiber := Some f\<rparr>))"
proof -
  let ?s = "set_fiber f (\<lambda>x. x\<lparr>state := Running\<rparr>) (s\<lparr>run_queue := rest, this_fiber := Some f\<rparr>)"
  note d = inv_exD [OF i]
  have fr: "frames x = []" using d(4) x by (auto simp: states_ok_def state_ok_def)
  have v: "live ?s = live s" "in_group ?s = in_group s" "parked_in ?s = parked_in s" "group_empty ?s = group_empty s"
    "group_failed ?s = group_failed s"
    using x by (auto simp: live_def in_group_def parked_in_def group_empty_def group_failed_def fun_eq_iff)
  have w: "woken ?s g c = woken s g c" for g c by (rule woken_cong) (use v in simp_all)
  have nf: "f \<notin> set rest" "distinct rest" "set rest \<subseteq> set (run_queue s)" using d(3) rq by (auto simp: run_queue_ok_def)
  have "site_ok ?s g y c cs" if "site_ok s g y c cs" for g y c cs
    using that v x by (cases c) auto
  then have "sites_ok ?s" using d(5) fr x unfolding sites_ok_def by (auto split: if_splits)
  moreover have "ready ?s g y = ready s g y" for g y by (simp add: ready_def w)
  then have "ready_ok {} ?s" using d(2) n rq unfolding ready_ok_def by (auto split: if_splits)
  moreover have "states_ok ?s" using d(4) x fr n unfolding states_ok_def v by (auto simp: state_ok_def live_def)
  moreover have "run_queue_ok ?s" using d(3) nf n unfolding run_queue_ok_def v by auto
  moreover have "\<not> fault ?s" "slots_ok ?s" "groups_ok ?s" "watchers_ok ?s" "timers_ok ?s" "queues_ok ?s"
    using d v clause_congs(3-7) [of ?s s] by simp_all
  ultimately show ?thesis by (intro inv_exI)
qed

lemma RunLoop_turn_inv:
  assumes i: "inv s" and n: "this_fiber s = None" and clock: "time_freezed s \<or> now s \<le> clock"
    and res: "RunLoop_turn events clock later_events s = (st, s')"
  shows "inv s'"
proof -
  define s1 where "s1 = update_time clock (Poll events s)"
  define s2 where "s2 = expire_timers (length (heap (timers s1)) + 1) s1"
  have "inv s1" "this_fiber s1 = None"
    using Poll_inv [OF i] Poll_fields [of events s] clock n by (auto simp: s1_def update_time_def)
  then have i2: "inv s2" "this_fiber s2 = None" using expire_timers_inv unfolding s2_def by blast+
  have r: "(st, s') = (case run_queue s2 of [] \<Rightarrow> (Suspended, Poll later_events s2) | f # rest \<Rightarrow> RunFiber f (s2\<lparr>run_queue := rest\<rparr>))"
    using res unfolding RunLoop_turn_def Let_def s1_def s2_def by (rule sym)
  show ?thesis
  proof (cases "run_queue s2")
    case Nil
    then show ?thesis using r Poll_inv [OF i2(1)] by simp
  next
    case (Cons f rest)
    have "live s2 f" using inv_exD(3) [OF i2(1)] Cons by (simp add: run_queue_ok_def)
    then obtain x where x: "fibers s2 f = Some x" "state x \<noteq> Dead" by (auto simp: live_def)
    have "state_ok s2 f x" using inv_exD(4) [OF i2(1)] x(1) by (simp add: states_ok_def)
    then consider "state x = Ready" | "state x = Running" "frames x \<noteq> []" using x(2) i2(2) by (auto simp: state_ok_def)
    then show ?thesis
    proof cases
      case 1
      then show ?thesis using start_inv [OF i2 Cons x(1) 1] r Cons x i2(2) by (simp add: RunFiber_def Let_def)
    next
      case 2
      then obtain site ks where "frames x = site # ks" by (cases "frames x") auto
      then show ?thesis
        using resume_inv [OF i2 Cons x(1)] r Cons x i2(2) 2 by (simp add: RunFiber_def Let_def) (metis snd_conv)
    qed
  qed
qed

end
