(* ===== verification/Fibers_Steps.thy ===== *)
theory Fibers_Steps
  imports Fibers_Parking
begin

text \<open>
  Every call of the library, and the end of a fiber, keep the invariant; the properties of the fiber
  runtime that follow.
\<close>

section \<open>Calls of the library\<close>

lemma Park_inv:
  assumes f: "this_fiber s = Some f" "fibers s f = Some x" and s1: "fibers s1 f = Some x"
    and sus: "\<not> interrupted x \<Longrightarrow> inv (suspend f (site # ks) s1)"
    and thr: "\<And>e s'. interrupted x \<Longrightarrow> Park_check f site s1 = (Some e, s') \<Longrightarrow>
      inv (leave f (Threw e) site s') \<and> this_fiber s' = Some f"
    and ks: "interrupted x \<Longrightarrow> kont_ok ks" and site: "site_ok r h y site cs"
  shows "inv (snd (Park f site ks s1))"
proof (cases "interrupted x")
  case False
  then show ?thesis using sus Park_check_None [OF s1] by (simp add: Park_def)
next
  case True
  obtain e s' where c: "Park_check f site s1 = (Some e, s')" using Park_check_Some [OF s1 True, of site] by metis
  note t = thr [OF True c]
  have "this_fiber (leave f (Threw e) site s') = Some f" using t by (simp add: leave_fields)
  then have "inv (snd (unwind f (Threw e) ks (leave f (Threw e) site s')))" using t ks [OF True] by (intro unwind_inv) simp_all
  then show ?thesis using c unwind_site [OF site] by (simp add: Park_def)
qed

lemma Yield_inv:
  assumes i: "inv s" and f: "this_fiber s = Some f"
  shows "inv (snd (Yield f s))"
proof -
  obtain x where x: "fibers s f = Some x" using running_fiber [OF inv_exD(4) [OF i] f] by blast
  show ?thesis unfolding Yield_def
    by (rule Park_inv [OF f x, where r = s and h = f and y = x and cs = "[]"])
      (use x yield_suspend_inv [OF i f x] throw_yield_inv [OF i f x] in auto)
qed

lemma SleepUntil_inv:
  assumes i: "inv s" and f: "this_fiber s = Some f" and t: "owner s t = None"
  shows "inv (snd (SleepUntil f t d s))"
proof -
  obtain x where x: "fibers s f = Some x" using running_fiber [OF inv_exD(4) [OF i] f] by blast
  show ?thesis unfolding SleepUntil_def
    by (rule Park_inv [OF f x, where r = "s\<lparr>owner := (owner s)(t \<mapsto> SleepTimer f)\<rparr>" and h = f and y = x and cs = "[]"])
      (use x sleep_suspend_inv [OF i f x _ t] throw_sleep_inv [OF i f x _ t] in \<open>auto simp del: leave.simps\<close>)
qed

lemma WaitQueue_Wait_inv:
  assumes i: "inv s" and f: "this_fiber s = Some f" and ks: "wait_frames q ks"
  shows "inv (snd (WaitQueue_Wait f q ks s))"
proof -
  obtain x where x: "fibers s f = Some x" using running_fiber [OF inv_exD(4) [OF i] f] by blast
  have x': "fibers (enqueue_waiter f q s) f = Some x" using x by (simp add: enqueue_waiter_def)
  show ?thesis unfolding WaitQueue_Wait_def
    by (rule Park_inv [OF f x x', where r = "enqueue_waiter f q s" and h = f and y = x and cs = ks])
      (use wait_suspend_inv [OF i f x _ ks] throw_wait_inv [OF i f x] wait_kont_ok [OF ks] ks in
        \<open>auto simp: enqueue_waiter_def simp del: leave.simps\<close>)
qed

lemma park_in_slot_inv:
  assumes i: "inv s" and f: "this_fiber s = Some f" "fibers s f = Some x"
    and c: "site_slot site = Some c" "slots s c = None"
      "\<And>g. site = InGroup g \<Longrightarrow> slots s (WaitGroup_waiter g) = None"
      "\<And>g. site = InWaitGroup g \<Longrightarrow> slots s (Group_joiner g) = None"
      "\<And>w d r. site = InPoll w d r \<Longrightarrow> watchers s w = Open d \<and> (\<forall>g. \<not> parked_in s g (InPoll w d r))"
    and not_yet: "\<not> woken (s\<lparr>slots := (slots s)(c \<mapsto> f)\<rparr>) f site"
    and site: "site_ok (suspend f (site # ks) (s\<lparr>slots := (slots s)(c \<mapsto> f)\<rparr>)) f (x\<lparr>frames := site # ks\<rparr>) site ks"
    and ks: "interrupted x \<Longrightarrow> kont_ok ks"
  shows "inv (snd (park_in_slot f c site ks s))"
proof -
  have "inv (snd (Park f site ks (s\<lparr>slots := (slots s)(c \<mapsto> f)\<rparr>)))"
    by (rule Park_inv [OF f _ _ _ ks site])
      (use f(2) slot_suspend_inv [OF i f _ c not_yet site] throw_slot_inv [OF i f _ c(1,2)] c(5) in auto)
  then show ?thesis using c(2) by (simp add: park_in_slot_def)
qed

lemma Mutex_Lock_inv: "inv s \<Longrightarrow> this_fiber s = Some f \<Longrightarrow> kont_ok (KLock m # ks) \<Longrightarrow> inv (snd (Mutex_Lock f m ks s))"
  unfolding Mutex_Lock_def by (rule unwind_inv)

lemma Mutex_Unlock_inv: "inv s \<Longrightarrow> mutex_locked s m \<Longrightarrow> inv (Mutex_Unlock m s) \<and> this_fiber (Mutex_Unlock m s) = this_fiber s"
  using NotifyOne_inv [of "{}" "s\<lparr>mutex_locked := (mutex_locked s)(m := False)\<rparr>" "Lockers m"] by (simp add: Mutex_Unlock_def)

lemma MutexGuard_Unlock_inv:
  "inv s \<Longrightarrow> mutex_locked s (guard_mutex s g) \<Longrightarrow>
   inv (MutexGuard_Unlock g s) \<and> this_fiber (MutexGuard_Unlock g s) = this_fiber s"
  using Mutex_Unlock_inv [of s "guard_mutex s g"] by (simp add: MutexGuard_Unlock_def)

lemma parked_running: "inv s \<Longrightarrow> this_fiber s = Some f \<Longrightarrow> \<not> parked_in s f c"
  using parked_live(2) inv_exD(4) by blast

lemma Cancel_fields [simp]:
  "this_fiber (Cancel x s) = this_fiber s" "slots (Cancel x s) = slots s" "groups (Cancel x s) = groups s"
  "main_fiber (Cancel x s) = main_fiber s"
  by (simp_all add: Cancel_def Let_def split: option.split)

lemma Cancel_views: "live (Cancel x s) = live s" "in_group (Cancel x s) = in_group s"
  using keeps_shape_views [of "\<lambda>x. x\<lparr>canceled := True\<rparr>" x s]
  by (auto simp: Cancel_def Let_def live_def in_group_def fun_eq_iff split: option.split)

lemma fold_Cancel_inv:
  "inv s \<Longrightarrow> (\<And>x. x \<in> set xs \<Longrightarrow> live s x \<and> this_fiber s \<noteq> Some x) \<Longrightarrow>
   inv (fold Cancel xs s) \<and> this_fiber (fold Cancel xs s) = this_fiber s \<and> slots (fold Cancel xs s) = slots s \<and>
   groups (fold Cancel xs s) = groups s"
proof (induction xs arbitrary: s)
  case (Cons x xs)
  then have "inv (Cancel x s)" using Cancel_inv [of "{}" s x] by simp
  then show ?case using Cons.IH [of "Cancel x s"] Cons.prems(2) by (simp add: Cancel_views)
qed simp

lemma Fiber_dtor_inv:
  assumes i: "inv s" and f: "this_fiber s = Some f" and x: "fibers s x = Some X" "group X = None"
    and ok: "x \<noteq> f" "slots s (Fiber_waiter x) = None"
  shows "inv (snd (Fiber_dtor f x s))"
proof (cases "state X = Dead")
  case True
  then show ?thesis using delete_dead_inv(1) [OF i x(1) True ok(2)] x by (simp add: Fiber_dtor_def)
next
  case False
  let ?s1 = "Cancel x s" and ?s2 = "cancel_guard f (Cancel x s)"
  have lx: "live s x" using x(1) False by (auto simp: live_def)
  have i1: "inv ?s1" using Cancel_inv [OF i lx] f ok(1) by simp
  have i2: "inv ?s2" unfolding cancel_guard_def using i1 f by (intro running_flags_inv) simp_all
  have fields: "this_fiber ?s2 = Some f" "slots ?s2 = slots s" using f by (simp_all add: cancel_guard_def)
  have "live ?s2 x" using lx Cancel_views(1) [of x s] keeps_shape_views(1) [of "\<lambda>x. x\<lparr>cancel_guarded := True\<rparr>" f ?s1]
    by (simp add: cancel_guard_def)
  moreover have "\<not> in_group ?s2 x g" for g
    using x Cancel_views(2) [of x s] keeps_shape_views(3) [of "\<lambda>x. x\<lparr>cancel_guarded := True\<rparr>" f ?s1]
    by (simp add: cancel_guard_def) (simp add: in_group_def)
  ultimately obtain Y where Y: "fibers ?s2 x = Some Y" "state Y \<noteq> Dead" "group Y = None"
    by (auto simp: live_def in_group_def)
  obtain F where F: "fibers ?s2 f = Some F" using running_fiber [OF inv_exD(4) [OF i2] fields(1)] by blast
  have g: "cancel_guarded F" using F by (auto simp: cancel_guard_def)
  have "inv (snd (park_in_slot f (Fiber_waiter x) (InJoin x) [KFiberDtor x (guarded f s)] ?s2))"
    by (rule park_in_slot_inv [OF i2 fields(1) F])
      (use Y g ok fields(2) in \<open>auto simp: live_def interrupted_def\<close>)
  then show ?thesis using x(1) False by (simp add: Fiber_dtor_def Let_def)
qed

lemma Group_dtor_inv:
  assumes i: "inv s" and f: "this_fiber s = Some f" and g: "groups s g = Some G" "f \<notin> set (members G)"
    and free: "slots s (Group_joiner g) = None" "slots s (WaitGroup_waiter g) = None"
  shows "inv (snd (Group_dtor f g s))"
proof (cases "members G = []")
  case True
  then show ?thesis
    using delete_group_inv [OF i _ free] g(1) by (simp add: Group_dtor_def group_empty_def)
next
  case False
  let ?s1 = "fold Cancel (members G) s" and ?s2 = "cancel_guard f (fold Cancel (members G) s)"
  note d = inv_exD [OF i]
  have "live s x" if "x \<in> set (members G)" for x
  proof -
    have "in_group s x g" using d(9) g(1) that by (auto simp: groups_ok_def)
    then obtain X where X: "fibers s x = Some X" "group X = Some g" by (auto simp: in_group_def)
    then have "state_ok s x X" using d(4) by (simp add: states_ok_def)
    then show ?thesis using X by (auto simp: state_ok_def live_def)
  qed
  then have c: "inv ?s1" "this_fiber ?s1 = Some f" "slots ?s1 = slots s" "groups ?s1 = groups s"
    using fold_Cancel_inv [OF i, of "members G"] f g(2) by auto
  have i2: "inv ?s2" unfolding cancel_guard_def using c by (intro running_flags_inv) simp_all
  have fields: "this_fiber ?s2 = Some f" "slots ?s2 = slots s" "groups ?s2 = groups s"
    using c by (simp_all add: cancel_guard_def)
  obtain F where F: "fibers ?s2 f = Some F" using running_fiber [OF inv_exD(4) [OF i2] fields(1)] by blast
  have gd: "cancel_guarded F" using F by (auto simp: cancel_guard_def)
  have "inv (snd (park_in_slot f (Group_joiner g) (InGroup g) [KGroupDtor g (guarded f s)] ?s2))"
    by (rule park_in_slot_inv [OF i2 fields(1) F])
      (use gd g False free fields in \<open>auto simp: interrupted_def group_empty_def\<close>)
  then show ?thesis using g(1) False by (simp add: Group_dtor_def Let_def)
qed

lemma WaitGroup_Wait_inv:
  assumes i: "inv s" and f: "this_fiber s = Some f" and g: "groups s g = Some G" "is_wait_group G"
    and free: "slots s (Group_joiner g) = None" "slots s (WaitGroup_waiter g) = None"
  shows "inv (snd (WaitGroup_Wait f g s))"
proof -
  obtain x where x: "fibers s f = Some x" using running_fiber [OF inv_exD(4) [OF i] f] by blast
  have "inv (snd (park_in_slot f (WaitGroup_waiter g) (InWaitGroup g) [KWaitGroup g] s))"
    if "members G \<noteq> []" "first_error G = None"
    by (rule park_in_slot_inv [OF i f x])
      (use that g free in \<open>auto simp: group_empty_def group_failed_def\<close>)
  then show ?thesis using i g(1) by (simp add: WaitGroup_Wait_def split: option.split)
qed

lemma FDWatcher_Wait_inv:
  assumes i: "inv s" and f: "this_fiber s = Some f" and w: "watchers s w = Open d" "slots s (poll_slot d read) = None"
    and alone: "\<forall>x \<in> ran (fibers s). InPoll w d read \<notin> set (frames x)"
  shows "inv (snd (FDWatcher_Wait f w read s))"
proof -
  obtain x where x: "fibers s f = Some x" using running_fiber [OF inv_exD(4) [OF i] f] by blast
  have none: "\<not> parked_in s g (InPoll w d read)" for g
    using alone by (auto simp: parked_in_def ran_def)
  have "inv (snd (park_in_slot f (poll_slot d read) (InPoll w d read) [] s))"
    by (rule park_in_slot_inv [OF i f x])
      (use none x w in \<open>auto simp: parked_in_def split: if_splits\<close>)
  then show ?thesis using w by (simp add: FDWatcher_Wait_def)
qed

text \<open>New fibers: not yet in any queue, ready, and so put into the run queue.\<close>

lemma new_fiber_inv:
  assumes i: "inv s" and x: "fibers s x = None" "this_fiber s \<noteq> Some x"
  shows "inv (new_fiber x s)"
proof -
  let ?s = "s\<lparr>fibers := (fibers s)(x \<mapsto> FiberImpl_init)\<rparr>"
  note d = inv_exD [OF i]
  have v: "live ?s g \<longleftrightarrow> g = x \<or> live s g" "in_group ?s = in_group s" "parked_in ?s = parked_in s"
    "group_empty ?s = group_empty s" "group_failed ?s = group_failed s" for g
    using x(1) by (auto simp: live_def in_group_def parked_in_def group_empty_def group_failed_def FiberImpl_init_def fun_eq_iff)
  have nj: "c \<noteq> InJoin x" if "site_ok s g y c cs" for g y c cs using that x(1) by auto
  have w: "woken ?s g c = woken s g c" if "c \<noteq> InJoin x" for g c using that v by (cases c) auto
  have site: "site_ok ?s g y c cs" if "site_ok s g y c cs" for g y c cs
    using that v x(1) by (cases c) (auto simp: FiberImpl_init_def)
  have other: "fibers ?s g = Some y \<longleftrightarrow> (if g = x then y = FiberImpl_init else fibers s g = Some y)" for g y by auto
  have "inv_ex {x} ?s"
  proof (rule inv_exI)
    show "sites_ok ?s" unfolding sites_ok_def other using d(5) site unfolding sites_ok_def by (auto simp: FiberImpl_init_def)
    have "ready ?s g y = ready s g y" if "fibers s g = Some y" for g y
      using d(5) that nj w unfolding sites_ok_def ready_def by blast
    then show "ready_ok {x} ?s" using d(2) unfolding ready_ok_def by (auto split: if_splits)
    have "state_ok ?s = state_ok s" by (simp add: fun_eq_iff state_ok_def)
    then show "states_ok ?s" using d(4) v(1) x(2) unfolding states_ok_def other by (auto simp: state_ok_def FiberImpl_init_def)
    show "run_queue_ok ?s" using d(3) v(1) by (auto simp: run_queue_ok_def)
    show "timers_ok ?s" using d(7) v(1,3) by (auto simp: timers_ok_def)
    show "\<not> fault ?s" "slots_ok ?s" "groups_ok ?s" "watchers_ok ?s" "queues_ok ?s"
      using d v clause_congs(3,5-7) [of ?s s] by simp_all
  qed
  then have "inv_ex ({x} - {x}) (Unpark x ?s)"
    by (rule Unpark_inv) (use v(1) x(2) in \<open>auto simp: ready_def FiberImpl_init_def\<close>)
  then show ?thesis by (simp add: new_fiber_def)
qed

lemma join_group_inv:
  assumes i: "inv s" and x: "fibers s x = Some X" "state X = Ready" "group X = None" and g: "groups s g = Some G"
    and free: "members G = [] \<Longrightarrow> slots s (Group_joiner g) = None \<and> slots s (WaitGroup_waiter g) = None"
    and nj: "slots s (Fiber_waiter x) = None"
  shows "inv ((set_fiber x (\<lambda>X. X\<lparr>group := Some g\<rparr>) s)\<lparr>groups := (groups s)(g \<mapsto> G\<lparr>members := members G @ [x]\<rparr>)\<rparr>)"
proof -
  let ?s = "(set_fiber x (\<lambda>X. X\<lparr>group := Some g\<rparr>) s)\<lparr>groups := (groups s)(g \<mapsto> G\<lparr>members := members G @ [x]\<rparr>)\<rparr>"
  note d = inv_exD [OF i]
  have fr: "frames X = []" using d(4) x by (auto simp: states_ok_def state_ok_def)
  have v: "live ?s = live s" "parked_in ?s = parked_in s" "in_group ?s h k \<longleftrightarrow> in_group s h k \<or> h = x \<and> k = g" for h k
    using x by (auto simp: live_def in_group_def parked_in_def fun_eq_iff)
  have ge: "group_empty ?s k = group_empty s k" if "k \<noteq> g \<or> members G \<noteq> []" for k
    using that g by (auto simp: group_empty_def)
  have gf: "group_failed ?s = group_failed s" using g by (auto simp: group_failed_def fun_eq_iff)
  have w: "woken ?s h c = woken s h c" if "site_ok s h y c cs" for h y c cs
  proof (cases c)
    case (InGroup k)
    then have "k \<noteq> g \<or> members G \<noteq> []" using that free by auto
    then show ?thesis using ge InGroup by simp
  next
    case (InWaitGroup k)
    then have "k \<noteq> g \<or> members G \<noteq> []" using that free by auto
    then show ?thesis using ge gf InWaitGroup by simp
  qed (use v in auto)
  have other: "fibers ?s h = Some y \<longleftrightarrow> (if h = x then y = X\<lparr>group := Some g\<rparr> else fibers s h = Some y)" for h y
    using x(1) by auto
  have site: "site_ok ?s h y c cs" if "site_ok s h y c cs" for h y c cs
    using that v g nj by (cases c) auto
  show ?thesis
  proof (rule inv_exI)
    show "sites_ok ?s" unfolding sites_ok_def other using d(5) site fr unfolding sites_ok_def by auto
    have "ready ?s h y = ready s h y" if "fibers s h = Some y" for h y
      using d(5) that w unfolding sites_ok_def ready_def by blast
    moreover have "ready ?s x (X\<lparr>group := Some g\<rparr>)" "ready s x X" using x(2) by (simp_all add: ready_def)
    moreover have "this_fiber s \<noteq> Some x \<longrightarrow> x \<in> set (run_queue s)"
      using d(2) [unfolded ready_ok_def, rule_format, of x X] x(1,2) calculation by simp
    ultimately show "ready_ok {} ?s" using d(2) x(1,2) unfolding ready_ok_def other by auto
    have "state_ok ?s = state_ok s" by (simp add: fun_eq_iff state_ok_def)
    moreover have "state_ok s x (X\<lparr>group := Some g\<rparr>)" using d(4) x by (auto simp: states_ok_def state_ok_def)
    ultimately show "states_ok ?s" using d(4) v(1) unfolding states_ok_def other by simp
    have ng: "x \<notin> set (members G)" using groups_okD(2) [OF d(9) g, of x] x by (auto simp: in_group_def)
    show "groups_ok ?s"
      unfolding groups_ok_def v
    proof (intro conjI allI impI)
      fix k K assume "groups ?s k = Some K"
      then show "distinct (members K)" using d(9) g ng by (auto simp: groups_ok_def split: if_splits)
    next
      fix h k
      show "(in_group s h k \<or> h = x \<and> k = g) = (\<exists>G. groups ?s k = Some G \<and> h \<in> set (members G))"
        using d(9) g unfolding groups_ok_def by (cases "k = g") auto
    qed
    show "\<not> fault ?s" "slots_ok ?s" "run_queue_ok ?s" "watchers_ok ?s" "queues_ok ?s" "timers_ok ?s"
      using d v clause_congs(1,3-5,7) [of ?s s] by simp_all
  qed
qed

lemma DoSpawn_inv:
  assumes i: "inv s" and x: "fibers s x = None" "this_fiber s \<noteq> Some x" and g: "groups s g = Some G"
    and free: "members G = [] \<Longrightarrow> slots s (Group_joiner g) = None \<and> slots s (WaitGroup_waiter g) = None"
  shows "inv (DoSpawn g x s)"
proof -
  let ?s = "new_fiber x s"
  have "inv ?s" by (rule new_fiber_inv [OF i x])
  moreover have "fibers ?s x = Some FiberImpl_init" "groups ?s = groups s" "slots ?s = slots s" by (simp_all add: new_fiber_def)
  moreover have "slots s (Fiber_waiter x) = None"
  proof (rule ccontr)
    assume "slots s (Fiber_waiter x) \<noteq> None"
    then obtain f where "slots s (Fiber_waiter x) = Some f" by blast
    then have "slot_ok s (Fiber_waiter x) f" by (rule slots_okD [OF inv_exD(8) [OF i]])
    then have "parked_in s f (InJoin x)" by simp
    then show False using inv_exD(5) [OF i] x(1) by (fastforce simp: parked_in_def sites_ok_def)
  qed
  ultimately show ?thesis
    using join_group_inv [of ?s x FiberImpl_init g G] g free by (simp add: DoSpawn_def Let_def FiberImpl_init_def)
qed

text \<open>Timeout guards and descriptors.\<close>

lemma TimeoutGuard_init_inv:
  assumes i: "inv s" and f: "this_fiber s = Some f" and t: "owner s t = None"
  shows "inv (TimeoutGuard_init f t d s)"
proof -
  let ?s = "TimeoutGuard_init f t d s"
  note d = inv_exD [OF i] and h = timers_okD [OF inv_exD(7) [OF i]]
  have none: "GetDeadline (timers s) t = None" using h(2) t by (metis option.exhaust)
  have dl: "GetDeadline (timers ?s) = (GetDeadline (timers s))(t \<mapsto> now s + d)" "timer_inv (timers ?s)"
    "owner ?s = (owner s)(t \<mapsto> TimeoutGuard f)"
    using th.deadlines_activate [OF h(1) none] th.invar_activate [OF h(1) none] by (simp_all add: TimeoutGuard_init_def)
  have v: "live ?s = live s" "parked_in ?s = parked_in s" "group_empty ?s = group_empty s"
    "group_failed ?s = group_failed s" "in_group ?s = in_group s"
    using agree_views [of ?s s] by (simp_all add: TimeoutGuard_init_def)
  have same: "fibers ?s = fibers s" "run_queue ?s = run_queue s" "this_fiber ?s = this_fiber s" "slots ?s = slots s"
    "queues ?s = queues s" "wakeup ?s = wakeup s" "groups ?s = groups s" "watchers ?s = watchers s"
    "free_list ?s = free_list s" "fault ?s = fault s"
    by (simp_all add: TimeoutGuard_init_def)
  have site: "site_ok ?s g y c cs" if "site_ok s g y c cs" for g y c cs
    using that v t dl(3) same by (cases c) auto
  have "woken ?s g c = woken s g c" if "site_ok s g y c cs" for g y c cs
    using that v t dl(1) same by (cases c) auto
  then have "ready ?s g y = ready s g y" if "fibers s g = Some y" for g y
    using d(5) that unfolding sites_ok_def ready_def by blast
  then have "ready_ok {} ?s" using d(2) unfolding ready_ok_def same by simp
  moreover have "sites_ok ?s" using d(5) site unfolding sites_ok_def same by blast
  moreover have "live s f" using d(4) f by (simp add: states_ok_def)
  then have "timers_ok ?s" using h dl v unfolding timers_ok_def by (auto split: if_splits)
  moreover have "\<not> fault ?s" "run_queue_ok ?s" "states_ok ?s" "slots_ok ?s" "groups_ok ?s" "watchers_ok ?s" "queues_ok ?s"
    using d v same clause_congs(1-3,5-7) [of ?s s] by simp_all
  ultimately show ?thesis by (intro inv_exI)
qed

lemma TimeoutGuard_dtor_inv:
  assumes i: "inv s" and t: "owner s t = Some (TimeoutGuard f)"
  shows "inv (TimeoutGuard_dtor t s)"
proof -
  let ?s = "s\<lparr>timers := Deactivate (timers s) t\<rparr>"
  have "inv_ex ({} \<union> {}) ?s" using t by (intro Deactivate_inv [OF i]) auto
  then have i1: "inv ?s" by simp
  let ?r = "?s\<lparr>owner := (owner s)(t := None)\<rparr>"
  note d = inv_exD [OF i1] and h = timers_okD [OF inv_exD(7) [OF i1]]
  have v: "live ?r = live ?s" "parked_in ?r = parked_in ?s" "group_empty ?r = group_empty ?s"
    "group_failed ?r = group_failed ?s" "in_group ?r = in_group ?s"
    using agree_views [of ?r ?s] by simp_all
  have w: "woken ?r g c = woken ?s g c" for g c by (rule woken_cong) (simp_all add: v)
  have "site_ok ?r g y c cs" if "site_ok ?s g y c cs" for g y c cs using that t v by (cases c) auto
  then have "sites_ok ?r" using d(5) by (simp add: sites_ok_def)
  moreover have "ready_ok {} ?r" using d(2) w by (simp add: ready_ok_def ready_def)
  moreover have "GetDeadline (timers ?s) t = None"
    using th.deadlines_deactivate [OF timers_okD(1) [OF inv_exD(7) [OF i]]] by simp
  then have "timers_ok ?r" using h v unfolding timers_ok_def by (auto split: if_splits)
  moreover have "\<not> fault ?r" "run_queue_ok ?r" "states_ok ?r" "slots_ok ?r" "groups_ok ?r" "watchers_ok ?r" "queues_ok ?r"
    using d v clause_congs(1-3,5-7) [of ?r ?s] by simp_all
  ultimately have "inv ?r" by (intro inv_exI)
  moreover have "TimeoutGuard_dtor t s = ?r"
    by (simp add: TimeoutGuard_dtor_def Timer_destroy_def IsActive_def Deactivate_def)
  ultimately show ?thesis by simp
qed

lemma watch_update_inv:
  assumes i: "inv s" and slots: "\<And>d r. watchers s w = Open d \<Longrightarrow> slots s (poll_slot d r) = None"
    and sites: "\<And>f d r. parked_in s f (InPoll w d r) \<Longrightarrow> W = Closed"
    and ok: "watchers_ok (s\<lparr>free_list := F, watchers := (watchers s)(w := W)\<rparr>)"
  shows "inv (s\<lparr>free_list := F, watchers := (watchers s)(w := W)\<rparr>)"
proof -
  let ?s = "s\<lparr>free_list := F, watchers := (watchers s)(w := W)\<rparr>"
  note d = inv_exD [OF i]
  have v: "live ?s = live s" "parked_in ?s = parked_in s" "group_empty ?s = group_empty s"
    "group_failed ?s = group_failed s" "in_group ?s = in_group s"
    using agree_views [of ?s s] by simp_all
  have w: "woken ?s g c = woken s g c" for g c by (rule woken_cong) (simp_all add: v)
  have "site_ok ?s g y c cs" if "site_ok s g y c cs" "fibers s g = Some y" "frames y = c # cs" for g y c cs
  proof (cases c)
    case (InPoll w' d r)
    then have "w' = w \<Longrightarrow> W = Closed" using sites [of g d r] that(2,3) by (auto simp: parked_in_def)
    then show ?thesis using that(1) InPoll v by auto
  qed (use that(1) v in auto)
  then have "sites_ok ?s" using d(5) by (simp add: sites_ok_def)
  moreover have "ready_ok {} ?s" using d(2) w by (simp add: ready_ok_def ready_def)
  moreover have "slots_ok ?s"
    unfolding slots_ok_def
  proof (intro allI impI)
    fix c f assume c: "slots ?s c = Some f"
    then have ok: "slot_ok s c f" using slots_okD [OF d(8)] by simp
    have ne: "watchers s w' = Open e \<Longrightarrow> c = poll_slot e r \<Longrightarrow> watchers ?s w' = Open e" for w' e r
      using slots [of e r] c by auto
    show "slot_ok ?s c f"
    proof (cases c)
      case (FD_reader e)
      then obtain w' where "watchers s w' = Open e" "parked_in s f (InPoll w' e True)" using ok by auto
      then have "watchers ?s w' = Open e" "parked_in ?s f (InPoll w' e True)"
        using ne [of w' e True] FD_reader v by (simp_all add: poll_slot_def)
      then show ?thesis unfolding FD_reader slot_ok.simps by blast
    next
      case (FD_writer e)
      then obtain w' where "watchers s w' = Open e" "parked_in s f (InPoll w' e False)" using ok by auto
      then have "watchers ?s w' = Open e" "parked_in ?s f (InPoll w' e False)"
        using ne [of w' e False] FD_writer v by (simp_all add: poll_slot_def)
      then show ?thesis unfolding FD_writer slot_ok.simps by blast
    qed (use ok v in auto)
  qed
  moreover have "\<not> fault ?s" "run_queue_ok ?s" "states_ok ?s" "timers_ok ?s" "groups_ok ?s" "queues_ok ?s"
    using d v clause_congs(1-4,6) [of ?s s] by simp_all
  ultimately show ?thesis using ok by (intro inv_exI)
qed

lemma FDWatcher_Init_inv:
  assumes i: "inv s" and w: "watchers s w = Fresh" "d \<notin> set (free_list s)" "\<And>w'. watchers s w' \<noteq> Open d"
  shows "inv (snd (FDWatcher_Init w d ok s))"
proof -
  note wk = watchers_okD [OF inv_exD(10) [OF i]]
  have np: "\<not> parked_in s f (InPoll w e r)" for f e r
  proof
    assume "parked_in s f (InPoll w e r)"
    then obtain x ks where "fibers s f = Some x" "frames x = InPoll w e r # ks" by (auto simp: parked_in_def)
    then have "site_ok s f x (InPoll w e r) ks" using inv_exD(5) [OF i] unfolding sites_ok_def by blast
    then show False using w(1) by simp
  qed
  obtain e F where e: "NewDesc d s = (e, s\<lparr>free_list := F\<rparr>)" "\<And>w'. watchers s w' \<noteq> Open e" "e \<notin> set F" "distinct F"
    "\<And>d' w'. d' \<in> set F \<Longrightarrow> watchers s w' \<noteq> Open d'"
  proof (cases "free_list s")
    case Nil
    then show ?thesis using that [of d "[]"] w(2,3) by (simp add: NewDesc_def)
  next
    case (Cons e F)
    then show ?thesis using that [of e F] wk(2,3) by (simp add: NewDesc_def)
  qed
  have upd: "inv (s\<lparr>free_list := F', watchers := (watchers s)(w := W)\<rparr>)"
    if "watchers_ok (s\<lparr>free_list := F', watchers := (watchers s)(w := W)\<rparr>)" for W F'
    by (rule watch_update_inv [OF i]) (use w(1) np that in auto)
  have "watchers_ok (s\<lparr>free_list := F, watchers := (watchers s)(w := Open e)\<rparr>)"
    "watchers_ok (s\<lparr>free_list := e # F, watchers := (watchers s)(w := Failed e)\<rparr>)"
    using e(2-5) w(1) wk(1) unfolding watchers_ok_def by (auto split: if_splits)
  from upd [OF this(1)] upd [OF this(2)] show ?thesis
    by (cases ok) (simp_all add: FDWatcher_Init_def e(1) FreeDesc_def)
qed

lemma wake_slot_fields:
  "watchers (wake_slot c s) = watchers s" "free_list (wake_slot c s) = free_list s" "slots (wake_slot c s) = (slots s)(c := None)"
  by (auto simp: wake_slot_def clear_slot_def unpark_slot_def split: option.split)

lemma FDWatcher_Reset_inv:
  assumes i: "inv s" and w: "watchers s w = Open d"
  shows "inv (FDWatcher_Reset w s)"
proof -
  let ?s = "wake_slot (FD_reader d) (wake_slot (FD_writer d) s)"
  have i1: "inv ?s" using wake_slot_inv [OF wake_slot_inv [OF i]] by (simp add: fd_slot_def)
  have f: "watchers ?s = watchers s" "free_list ?s = free_list s" "slots ?s (FD_reader d) = None" "slots ?s (FD_writer d) = None"
    by (simp_all add: wake_slot_fields)
  have "watchers_ok (?s\<lparr>free_list := d # free_list ?s, watchers := (watchers ?s)(w := Closed)\<rparr>)"
    using inv_exD(10) [OF i] w by (auto simp: watchers_ok_def f)
  then have "inv (?s\<lparr>free_list := d # free_list ?s, watchers := (watchers ?s)(w := Closed)\<rparr>)"
    using w by (intro watch_update_inv [OF i1]) (auto simp: f poll_slot_def)
  moreover have "FDWatcher_Reset w s = ?s\<lparr>free_list := d # free_list ?s, watchers := (watchers ?s)(w := Closed)\<rparr>"
    using w by (simp add: FDWatcher_Reset_def FreeDesc_def f)
  ultimately show ?thesis by simp
qed

section \<open>The end of a fiber\<close>

definition wake :: "fid option \<Rightarrow> fid list \<Rightarrow> fid list" where
  "wake w r = (case w of None \<Rightarrow> r | Some f \<Rightarrow> if f \<in> set r then r else r @ [f])"

lemma wake_idem [simp]: "wake w (wake w r) = wake w r"
  by (simp add: wake_def split: option.split)

lemma set_wake: "set (wake w r) = set r \<union> set_option w"
  by (auto simp: wake_def split: option.split)

lemma unpark_slot_eq:
  "(\<And>w. slots s c = Some w \<Longrightarrow> live s w) \<Longrightarrow> unpark_slot c s = s\<lparr>run_queue := wake (slots s c) (run_queue s)\<rparr>"
proof (cases "slots s c")
  case (Some w)
  assume "\<And>w. slots s c = Some w \<Longrightarrow> live s w"
  then have "live s w" using Some by blast
  then show ?thesis using Some by (auto simp: unpark_slot_def wake_def Unpark_def live_def)
qed (simp add: unpark_slot_def wake_def)

lemma wake_inv:
  assumes i: "inv_ex E s" and w: "\<And>f. w = Some f \<Longrightarrow> live s f \<and> this_fiber s \<noteq> Some f \<and> (\<forall>x. fibers s f = Some x \<longrightarrow> ready s f x)"
  shows "inv_ex (E - set_option w) (s\<lparr>run_queue := wake w (run_queue s)\<rparr>)"
proof (cases w)
  case (Some f)
  have "inv_ex (E - {f}) (Unpark f s)" using w [OF Some] by (intro Unpark_inv [OF i]) auto
  moreover have "Unpark f s = s\<lparr>run_queue := wake w (run_queue s)\<rparr>"
    using w [OF Some] Some by (auto simp: wake_def Unpark_def live_def)
  ultimately show ?thesis using Some by simp
qed (use i in \<open>simp add: wake_def\<close>)

text \<open>A fiber leaves: it stays behind dead, or is deleted together with its membership.\<close>

lemma die_inv:
  assumes i: "inv s" and f: "this_fiber s = Some f" "fibers s f = Some x" and t: "\<And>t. owner s t \<noteq> Some (TimeoutGuard f)"
    and F: "F = None \<and> slots s (Fiber_waiter f) = None \<or> (\<exists>y. F = Some y \<and> state y = Dead \<and> frames y = [] \<and> group y = None)"
    and grp: "\<And>k K. grp k = Some K \<Longrightarrow> \<exists>K'. groups s k = Some K' \<and> members K = remove1 f (members K') \<and> is_wait_group K = is_wait_group K'"
      "\<And>k K. groups s k = Some K \<Longrightarrow> grp k \<noteq> None"
    and E: "\<And>w c y. parked_in s w c \<Longrightarrow> w \<notin> E \<Longrightarrow> woken (s\<lparr>fibers := (fibers s)(f := F), groups := grp, this_fiber := None\<rparr>) w c = woken s w c"
  shows "inv_ex E (s\<lparr>fibers := (fibers s)(f := F), groups := grp, this_fiber := None\<rparr>)"
proof (rule inv_exI)
  let ?s = "s\<lparr>fibers := (fibers s)(f := F), groups := grp, this_fiber := None\<rparr>"
  note d = inv_exD [OF i] and r = running_unregistered [OF i f(1)]
  have st: "state x = Running" "frames x = []" using running_fiber [OF d(4) f(1)] f(2) by auto
  have v: "live ?s g \<longleftrightarrow> live s g \<and> g \<noteq> f" "parked_in ?s = parked_in s" "in_group ?s g k \<longleftrightarrow> in_group s g k \<and> g \<noteq> f" for g k
    using F f(2) st by (auto simp: live_def parked_in_def in_group_def fun_eq_iff)
  have np: "\<not> parked_in s f c" for c by (rule parked_running [OF i f(1)])
  have other: "fibers ?s g = Some y \<longleftrightarrow> (if g = f then F = Some y else fibers s g = Some y)" for g y by auto
  show "\<not> fault ?s" using d(1) by simp
  show "ready_ok E ?s"
  proof -
    have "ready ?s g y = ready s g y" if "fibers s g = Some y" "g \<notin> E" for g y
      using E [of g] that by (fastforce simp: ready_def parked_in_def)
    then show ?thesis using d(2) F f(1) unfolding ready_ok_def other by (auto split: if_splits)
  qed
  show "run_queue_ok ?s" using d(3) r(1) by (auto simp: run_queue_ok_def v)
  show "states_ok ?s"
    unfolding states_ok_def other
  proof (intro conjI allI impI)
    fix g y assume g: "if g = f then F = Some y else fibers s g = Some y"
    show "state_ok ?s g y"
    proof (cases "g = f")
      case False
      then have "state_ok s g y" using g d(4) by (simp add: states_ok_def)
      then show ?thesis using False f(1) by (simp add: state_ok_def)
    qed (use g F in \<open>auto simp: state_ok_def\<close>)
  qed simp
  show "queues_ok ?s" using d(6) by (simp add: queues_ok_def v)
  show "timers_ok ?s" using d(7) t by (auto simp: timers_ok_def v)
  show "slots_ok ?s"
  proof -
    have "slot_ok ?s c g = slot_ok s c g" for c g by (rule slot_ok_cong) (simp_all add: v)
    then show ?thesis using d(8) by (simp add: slots_ok_def)
  qed
  show "watchers_ok ?s" using d(10) clause_congs(7) [of ?s s] by simp
  show "groups_ok ?s"
    unfolding groups_ok_def v
  proof (intro conjI allI impI)
    fix k K assume "groups ?s k = Some K"
    then obtain K' where "groups s k = Some K'" "members K = remove1 f (members K')" using grp(1) by auto
    then show "distinct (members K)" using groups_okD(1) [OF d(9)] by simp
  next
    fix g k
    show "(in_group s g k \<and> g \<noteq> f) = (\<exists>K. groups ?s k = Some K \<and> g \<in> set (members K))"
    proof
      assume "in_group s g k \<and> g \<noteq> f"
      then obtain K' where K': "groups s k = Some K'" "g \<in> set (members K')" "g \<noteq> f" using groups_okD(3) [OF d(9)] by blast
      then obtain K where "grp k = Some K" using grp(2) by blast
      then show "\<exists>K. groups ?s k = Some K \<and> g \<in> set (members K)" using grp(1) K' by fastforce
    next
      assume "\<exists>K. groups ?s k = Some K \<and> g \<in> set (members K)"
      then obtain K K' where K: "g \<in> set (remove1 f (members K'))" "groups s k = Some K'" using grp(1) by fastforce
      then have "distinct (members K')" using groups_okD(1) [OF d(9)] by blast
      then show "in_group s g k \<and> g \<noteq> f" using K groups_okD(2) [OF d(9) K(2)] by (simp add: set_remove1_eq)
    qed
  qed
  show "sites_ok ?s"
    unfolding sites_ok_def other
  proof (intro allI impI, elim conjE)
    fix g y c cs assume g: "if g = f then F = Some y else fibers s g = Some y" "frames y = c # cs"
    have gf: "g \<noteq> f" using g F by auto
    then have y: "fibers s g = Some y" using g(1) by simp
    then have ok: "site_ok s g y c cs" using d(5) g(2) unfolding sites_ok_def by blast
    have ex: "groups s k \<noteq> None \<Longrightarrow> grp k \<noteq> None" for k using grp(2) by blast
    show "site_ok ?s g y c cs"
    proof (cases c)
      case (InJoin z)
      then show ?thesis using ok F f(2) by (cases "z = f") auto
    next
      case (InWaitGroup k)
      then obtain K' K where "groups s k = Some K'" "is_wait_group K'" "grp k = Some K" using ok ex [of k] by auto
      moreover from this have "is_wait_group K" using grp(1) by fastforce
      ultimately show ?thesis using ok InWaitGroup by simp
    qed (use ok v ex in auto)
  qed
qed

definition finished_group :: "fid \<Rightarrow> exn option \<Rightarrow> Group \<Rightarrow> Group" where
  "finished_group f ex G =
    G\<lparr>members := remove1 f (members G),
      first_error := (if is_wait_group G \<and> first_error G = None then ex else first_error G)\<rparr>"

definition new_error :: "exn option \<Rightarrow> Group \<Rightarrow> bool" where
  "new_error ex G \<longleftrightarrow> is_wait_group G \<and> first_error G = None \<and> ex \<noteq> None"

text \<open>The waiters that the end of \<open>f\<close> wakes: \<open>~Group\<close>, or \<open>WaitGroup::Wait\<close>.\<close>

definition woken_joiner :: "Scheduler \<Rightarrow> nat \<Rightarrow> Group \<Rightarrow> fid \<Rightarrow> fid option" where
  "woken_joiner s g G f = (if remove1 f (members G) = [] then slots s (Group_joiner g) else None)"

definition woken_waiter :: "Scheduler \<Rightarrow> nat \<Rightarrow> Group \<Rightarrow> fid \<Rightarrow> exn option \<Rightarrow> fid option" where
  "woken_waiter s g G f ex =
    (if remove1 f (members G) = [] \<or> new_error ex G then slots s (WaitGroup_waiter g) else None)"

lemma wake_None [simp]: "wake None r = r"
  by (simp add: wake_def)

lemma OnFinished_eq:
  assumes g: "groups s g = Some G"
    and lv: "\<And>c w. slots s c = Some w \<Longrightarrow> live s w"
    and one: "slots s (Group_joiner g) = None \<or> slots s (WaitGroup_waiter g) = None"
    and base: "\<not> is_wait_group G \<Longrightarrow> slots s (WaitGroup_waiter g) = None"
  shows "OnFinished g f ex s =
    s\<lparr>groups := (groups s)(g \<mapsto> finished_group f ex G),
      run_queue := wake (woken_waiter s g G f ex) (wake (woken_joiner s g G f) (run_queue s))\<rparr>"
proof -
  have base_eq: "Group_OnFinished g f r =
      r\<lparr>groups := (groups r)(g \<mapsto> K\<lparr>members := remove1 f (members K)\<rparr>),
        run_queue := wake (woken_joiner r g K f) (run_queue r)\<rparr>"
    if "groups r g = Some K" "slots r = slots s" "fibers r = fibers s" for r K
  proof -
    define q where "q = r\<lparr>groups := (groups r)(g \<mapsto> K\<lparr>members := remove1 f (members K)\<rparr>)\<rparr>"
    have "live q = live s" "slots q = slots s" using that(2,3) by (simp_all add: q_def live_def fun_eq_iff)
    then have "unpark_slot (Group_joiner g) q = q\<lparr>run_queue := wake (slots q (Group_joiner g)) (run_queue q)\<rparr>"
      using lv by (intro unpark_slot_eq) simp
    moreover have "Group_OnFinished g f r = (if remove1 f (members K) = [] then unpark_slot (Group_joiner g) q else q)"
      by (simp only: Group_OnFinished_def that(1) option.case Let_def q_def)
    ultimately have "Group_OnFinished g f r = (if remove1 f (members K) = [] then q\<lparr>run_queue := wake (slots s (Group_joiner g)) (run_queue q)\<rparr> else q)"
      using \<open>slots q = slots s\<close> by metis
    then show ?thesis using that(2) by (simp add: woken_joiner_def q_def)
  qed
  show ?thesis
  proof (cases "is_wait_group G")
    case False
    then have "OnFinished g f ex s = Group_OnFinished g f s" using g by (simp add: OnFinished_def)
    moreover have "finished_group f ex G = G\<lparr>members := remove1 f (members G)\<rparr>"
      using False by (simp add: finished_group_def)
    moreover have "woken_waiter s g G f ex = None" using base [OF False] by (simp add: woken_waiter_def)
    ultimately show ?thesis using base_eq [OF g] by simp
  next
    case True
    define s1 where "s1 = (if first_error G = None \<and> ex \<noteq> None
      then unpark_slot (WaitGroup_waiter g) (s\<lparr>groups := (groups s)(g \<mapsto> G\<lparr>first_error := ex\<rparr>)\<rparr>) else s)"
    define G1 where "G1 = (if first_error G = None \<and> ex \<noteq> None then G\<lparr>first_error := ex\<rparr> else G)"
    define w1 where "w1 = (if new_error ex G then slots s (WaitGroup_waiter g) else None)"
    have lv1: "live (s\<lparr>groups := K\<rparr>) = live s" for K by (simp add: live_def fun_eq_iff)
    have s1: "s1 = s\<lparr>groups := (groups s)(g \<mapsto> G1), run_queue := wake w1 (run_queue s)\<rparr>"
    proof (cases "first_error G = None \<and> ex \<noteq> None")
      case new: True
      define q where "q = s\<lparr>groups := (groups s)(g \<mapsto> G\<lparr>first_error := ex\<rparr>)\<rparr>"
      have "unpark_slot (WaitGroup_waiter g) q = q\<lparr>run_queue := wake (slots q (WaitGroup_waiter g)) (run_queue q)\<rparr>"
        by (rule unpark_slot_eq) (use lv lv1 in \<open>simp add: q_def\<close>)
      then have "s1 = q\<lparr>run_queue := wake (slots s (WaitGroup_waiter g)) (run_queue q)\<rparr>"
        using new by (simp add: s1_def q_def)
      then show ?thesis using True new by (simp add: q_def G1_def w1_def new_error_def)
    next
      case old: False
      then show ?thesis using g by (simp only: s1_def G1_def w1_def new_error_def if_False) (simp add: fun_upd_idem)
    qed
    have m: "members G1 = members G" "G1\<lparr>members := remove1 f (members G1)\<rparr> = finished_group f ex G"
      using True by (auto simp: G1_def finished_group_def)
    define s2 where "s2 = Group_OnFinished g f s1"
    have s2: "s2 = s\<lparr>groups := (groups s)(g \<mapsto> finished_group f ex G),
        run_queue := wake (woken_joiner s g G f) (wake w1 (run_queue s))\<rparr>"
      using base_eq [of s1 G1] m unfolding s2_def s1 by (simp add: woken_joiner_def)
    have "OnFinished g f ex s = (if remove1 f (members G) = [] then unpark_slot (WaitGroup_waiter g) s2 else s2)"
      using True g m s2 unfolding OnFinished_def WaitGroup_OnFinished_def s2_def s1_def
      by (auto simp: Let_def finished_group_def)
    also have "\<dots> = s2\<lparr>run_queue := (if remove1 f (members G) = [] then wake (slots s (WaitGroup_waiter g)) (run_queue s2) else run_queue s2)\<rparr>"
    proof -
      have "live s2 = live s" "slots s2 = slots s" by (simp_all add: s2 live_def fun_eq_iff)
      then have "unpark_slot (WaitGroup_waiter g) s2 = s2\<lparr>run_queue := wake (slots s (WaitGroup_waiter g)) (run_queue s2)\<rparr>"
        using lv unpark_slot_eq [of s2 "WaitGroup_waiter g"] by simp
      then show ?thesis by simp
    qed
    finally show ?thesis
      using one unfolding s2 by (auto simp: w1_def woken_waiter_def woken_joiner_def)
  qed
qed

lemma slot_awaits:
  assumes i: "inv s" and c: "slots s c = Some w"
  shows "live s w" "this_fiber s \<noteq> Some w"
    "c = Fiber_waiter y \<Longrightarrow> parked_in s w (InJoin y)" "c = Group_joiner g \<Longrightarrow> parked_in s w (InGroup g)"
    "c = WaitGroup_waiter g \<Longrightarrow> parked_in s w (InWaitGroup g)"
proof -
  have ok: "slot_ok s c w" by (rule slots_okD [OF inv_exD(8) [OF i] c])
  then obtain site where "parked_in s w site" using slot_parked by blast
  then show "live s w" "this_fiber s \<noteq> Some w" using parked_live [OF inv_exD(4) [OF i]] by auto
  show "c = Fiber_waiter y \<Longrightarrow> parked_in s w (InJoin y)" "c = Group_joiner g \<Longrightarrow> parked_in s w (InGroup g)"
    "c = WaitGroup_waiter g \<Longrightarrow> parked_in s w (InWaitGroup g)"
    using ok by auto
qed

lemma parked_site_ok:
  assumes "inv s" "parked_in s w c"
  obtains x ks where "fibers s w = Some x" "frames x = c # ks" "site_ok s w x c ks"
  using assms(2) inv_exD(5) [OF assms(1)] unfolding parked_in_def sites_ok_def by blast

lemma end_alone_inv:
  assumes i: "inv s" and f: "this_fiber s = Some f" "fibers s f = Some x" "group x = None"
    and t: "\<And>t. owner s t \<noteq> Some (TimeoutGuard f)" and y: "state y = Dead" "frames y = []" "group y = None"
  shows "inv (s\<lparr>fibers := (fibers s)(f \<mapsto> y), groups := groups s, this_fiber := None,
    run_queue := wake (slots s (Fiber_waiter f)) (run_queue s)\<rparr>)"
proof -
  let ?s = "s\<lparr>fibers := (fibers s)(f \<mapsto> y), groups := groups s, this_fiber := None\<rparr>"
  have no_group: "\<not> in_group s f k" for k using f by (simp add: in_group_def)
  have grp: "\<exists>K'. groups s k = Some K' \<and> members K = remove1 f (members K') \<and> is_wait_group K = is_wait_group K'"
    if "groups s k = Some K" for k K
    using that no_group groups_okD(2) [OF inv_exD(9) [OF i] that, of f] by (simp add: remove1_idem) (metis remove1_idem)
  have lv: "live ?s g = (live s g \<and> g \<noteq> f)" for g using f(2) y by (auto simp: live_def)
  have gv: "group_empty ?s = group_empty s" "group_failed ?s = group_failed s" by (simp_all add: group_empty_def group_failed_def fun_eq_iff)
  have "woken ?s w c = woken s w c" if "parked_in s w c" "w \<notin> set_option (slots s (Fiber_waiter f))" for w c
  proof -
    have "c \<noteq> InJoin f" using parked_site_ok [OF i that(1)] that(2) by fastforce
    then show ?thesis using lv gv by (cases c) auto
  qed
  then have "inv_ex (set_option (slots s (Fiber_waiter f))) ?s"
    using y grp by (intro die_inv [OF i f(1,2) t]) auto
  then have "inv_ex (set_option (slots s (Fiber_waiter f)) - set_option (slots s (Fiber_waiter f)))
      (?s\<lparr>run_queue := wake (slots s (Fiber_waiter f)) (run_queue ?s)\<rparr>)"
  proof (rule wake_inv)
    fix w assume w: "slots s (Fiber_waiter f) = Some w"
    note a = slot_awaits [OF i w]
    have wf: "w \<noteq> f" using a(2) f(1) by auto
    have "ready ?s w z" if "fibers ?s w = Some z" for z
      using a(3) [OF refl] that wf lv by (auto simp: ready_def parked_in_def)
    then show "live ?s w \<and> this_fiber ?s \<noteq> Some w \<and> (\<forall>x. fibers ?s w = Some x \<longrightarrow> ready ?s w x)"
      using lv a(1) wf by simp
  qed
  then show ?thesis by simp
qed

lemma end_in_group_inv:
  assumes i: "inv s" and f: "this_fiber s = Some f" "fibers s f = Some x" "group x = Some g"
    and t: "\<And>t. owner s t \<noteq> Some (TimeoutGuard f)" and G: "groups s g = Some G" "slots s (Fiber_waiter f) = None"
    and one: "slots s (Group_joiner g) = None \<or> slots s (WaitGroup_waiter g) = None"
  shows "inv (s\<lparr>fibers := (fibers s)(f := None), groups := (groups s)(g \<mapsto> finished_group f ex G), this_fiber := None,
    run_queue := wake (woken_waiter s g G f ex) (wake (woken_joiner s g G f) (run_queue s))\<rparr>)"
proof -
  let ?s = "s\<lparr>fibers := (fibers s)(f := None), groups := (groups s)(g \<mapsto> finished_group f ex G), this_fiber := None\<rparr>"
  let ?j = "woken_joiner s g G f" and ?w = "woken_waiter s g G f ex"
  note d = inv_exD [OF i]
  have mem: "f \<in> set (members G)"
    using groups_okD(3) [OF d(9), of f g] f(2,3) G(1) by (auto simp: in_group_def)
  have other: "f \<notin> set (members K)" if "groups s k = Some K" "k \<noteq> g" for k K
    using groups_okD(2) [OF d(9) that(1), of f] f(2,3) that(2) by (auto simp: in_group_def)
  have grp: "\<exists>K'. groups s k = Some K' \<and> members K = remove1 f (members K') \<and> is_wait_group K = is_wait_group K'"
    if "((groups s)(g \<mapsto> finished_group f ex G)) k = Some K" for k K
    using that G(1) other [of k] by (cases "k = g") (auto simp: finished_group_def remove1_idem)
  have lv: "live ?s h = (live s h \<and> h \<noteq> f)" for h by (auto simp: live_def)
  have ge: "group_empty ?s k = (if k = g then remove1 f (members G) = [] else group_empty s k)" for k
    by (simp add: group_empty_def finished_group_def)
  have gf: "group_failed ?s k = (if k = g then new_error ex G \<or> group_failed s g else group_failed s k)" for k
    using G(1) by (auto simp: group_failed_def finished_group_def new_error_def)
  have ne: "\<not> group_empty s g" using mem G(1) by (auto simp: group_empty_def)
  have wk: "woken ?s w c = woken s w c" if par: "parked_in s w c" and nw: "w \<notin> set_option ?j \<union> set_option ?w" for w c
  proof -
    obtain y ks where ok: "site_ok s w y c ks" using parked_site_ok [OF i par] by blast
    have "c \<noteq> InJoin f" using ok G(2) by auto
    moreover have "c = InGroup g \<Longrightarrow> remove1 f (members G) \<noteq> []" using ok nw by (auto simp: woken_joiner_def)
    moreover have "c = InWaitGroup g \<Longrightarrow> remove1 f (members G) \<noteq> [] \<and> \<not> new_error ex G"
      using ok nw by (auto simp: woken_waiter_def split: if_splits)
    ultimately show ?thesis using lv ge gf ne by (cases c) auto
  qed
  have i0: "inv_ex (set_option ?j \<union> set_option ?w) ?s"
  proof (rule die_inv [OF i f(1,2) t])
    show "None = None \<and> slots s (Fiber_waiter f) = None \<or> (\<exists>y. None = Some y \<and> state y = Dead \<and> frames y = [] \<and> group y = None)"
      using G(2) by simp
  qed (use grp wk in \<open>blast | simp\<close>)+
  have jr: "live ?s v \<and> this_fiber ?s \<noteq> Some v \<and> (\<forall>x. fibers ?s v = Some x \<longrightarrow> ready ?s v x)" if "?j = Some v" for v
  proof -
    have v: "slots s (Group_joiner g) = Some v" "group_empty ?s g" using that ge by (simp_all add: woken_joiner_def split: if_splits)
    note a = slot_awaits [OF i v(1)]
    have "v \<noteq> f" using a(2) f(1) by auto
    then show ?thesis using a(1,4) v(2) lv by (fastforce simp: ready_def parked_in_def)
  qed
  have wr: "live ?s v \<and> this_fiber ?s \<noteq> Some v \<and> (\<forall>x. fibers ?s v = Some x \<longrightarrow> ready ?s v x)" if "?w = Some v" for v
  proof -
    have v: "slots s (WaitGroup_waiter g) = Some v" "group_empty ?s g \<or> group_failed ?s g"
      using that ge gf by (auto simp: woken_waiter_def split: if_splits)
    note a = slot_awaits [OF i v(1)]
    have "v \<noteq> f" using a(2) f(1) by auto
    then show ?thesis using a(1,5) v(2) lv by (fastforce simp: ready_def parked_in_def)
  qed
  have "inv (?s\<lparr>run_queue := wake ?w (wake ?j (run_queue ?s))\<rparr>)"
  proof (cases "?j")
    case None
    then show ?thesis using wake_inv [OF i0, of ?w] wr by simp
  next
    case (Some v)
    then have "?w = None" using one by (auto simp: woken_joiner_def woken_waiter_def split: if_splits)
    then show ?thesis using wake_inv [OF i0, of ?j] jr Some by simp
  qed
  then show ?thesis by simp
qed

lemma Run_end_inv:
  assumes i: "inv s" and f: "this_fiber s = Some f" and t: "\<And>t. owner s t \<noteq> Some (TimeoutGuard f)"
    and res: "Run_end f out s = Some s'"
  shows "inv s'"
proof -
  obtain x where x: "fibers s f = Some x" "frames x = []" using running_fiber [OF inv_exD(4) [OF i] f] by blast
  obtain ex where ex: "Run_handlers (group x) out = Some ex" using res x by (auto simp: Run_end_def split: option.splits)
  define y where "y = x\<lparr>error := ex, state := Dead\<rparr>"
  define s1 where "s1 = set_fiber f (\<lambda>x. x\<lparr>error := ex, state := Dead\<rparr>) s"
  have lv1: "slots s1 = slots s" "run_queue s1 = run_queue s" "\<And>w c. slots s c = Some w \<Longrightarrow> live s1 w"
    using slot_awaits(1,2) [OF i] f by (auto simp: s1_def live_def) fastforce
  have s': "s' = Cleanup f ((s1\<lparr>run_queue := wake (slots s (Fiber_waiter f)) (run_queue s)\<rparr>)\<lparr>this_fiber := None\<rparr>)"
    using res ex x unpark_slot_eq [of s1 "Fiber_waiter f"] lv1 by (simp add: Run_end_def Let_def s1_def)
  show ?thesis
  proof (cases "group x")
    case None
    have "s' = s\<lparr>fibers := (fibers s)(f \<mapsto> y), groups := groups s, this_fiber := None,
        run_queue := wake (slots s (Fiber_waiter f)) (run_queue s)\<rparr>"
      using x None unfolding s' s1_def by (simp add: Cleanup_def y_def set_fiber_def)
    then show ?thesis using end_alone_inv [OF i f x(1) None t, of y] x(2) None by (simp add: y_def)
  next
    case (Some g)
    note d = inv_exD [OF i]
    obtain G where G: "groups s g = Some G" using groups_okD(3) [OF d(9), of f g] x(1) Some by (auto simp: in_group_def)
    have alone: "slots s (Fiber_waiter f) = None"
    proof (rule ccontr)
      assume "slots s (Fiber_waiter f) \<noteq> None"
      then obtain w where "slots s (Fiber_waiter f) = Some w" by blast
      then show False using parked_site_ok [OF i slot_awaits(3) [OF i _ refl]] x(1) Some by fastforce
    qed
    have waiter: "slots s (Group_joiner g) = None \<and> is_wait_group G" if "slots s (WaitGroup_waiter g) = Some w" for w
      using parked_site_ok [OF i slot_awaits(5) [OF i that refl]] G by fastforce
    then have waiter: "slots s (WaitGroup_waiter g) = None \<or> slots s (Group_joiner g) = None \<and> is_wait_group G"
      by (cases "slots s (WaitGroup_waiter g)") auto
    let ?s2 = "s1\<lparr>run_queue := wake (slots s (Fiber_waiter f)) (run_queue s), this_fiber := None\<rparr>"
    have s2: "groups ?s2 g = Some G" "slots ?s2 = slots s" "fibers ?s2 f = Some y" "run_queue ?s2 = run_queue s"
      using G x(1) alone by (simp_all add: s1_def y_def)
    have "live ?s2 = live s1" by (simp add: live_def fun_eq_iff)
    then have fin: "OnFinished g f ex ?s2 = ?s2\<lparr>groups := (groups ?s2)(g \<mapsto> finished_group f ex G),
        run_queue := wake (woken_waiter ?s2 g G f ex) (wake (woken_joiner ?s2 g G f) (run_queue ?s2))\<rparr>"
      using waiter lv1(3) s2 by (intro OnFinished_eq) auto
    have wj: "woken_waiter ?s2 g G f ex = woken_waiter s g G f ex" "woken_joiner ?s2 g G f = woken_joiner s g G f"
      using s2(2) by (simp_all add: woken_waiter_def woken_joiner_def)
    have nf: "f \<notin> set (run_queue (OnFinished g f ex ?s2))"
      using running_unregistered(1,3) [OF i f] unfolding fin wj
      by (auto simp: set_wake s2 woken_waiter_def woken_joiner_def split: if_splits)
    have "s' = delete_fiber f (OnFinished g f ex ?s2)" unfolding s' using s2(3) Some by (simp add: Cleanup_def y_def)
    also have "\<dots> = (OnFinished g f ex ?s2)\<lparr>fibers := (fibers (OnFinished g f ex ?s2))(f := None)\<rparr>"
      using nf by (simp add: delete_fiber_def fin)
    also have "\<dots> = s\<lparr>fibers := (fibers s)(f := None), groups := (groups s)(g \<mapsto> finished_group f ex G), this_fiber := None,
        run_queue := wake (woken_waiter s g G f ex) (wake (woken_joiner s g G f) (run_queue s))\<rparr>"
      unfolding fin wj s2 by (simp add: s1_def set_fiber_def)
    finally show ?thesis
      using end_in_group_inv [OF i f x(1) Some t G alone] waiter by blast
  qed
qed

section \<open>Every step keeps the invariant\<close>

lemma new_group_inv:
  assumes i: "inv s" and g: "groups s g = None"
  shows "inv (s\<lparr>groups := (groups s)(g \<mapsto> \<lparr>is_wait_group = b, members = [], first_error = None\<rparr>)\<rparr>)"
proof -
  let ?s = "s\<lparr>groups := (groups s)(g \<mapsto> \<lparr>is_wait_group = b, members = [], first_error = None\<rparr>)\<rparr>"
  note d = inv_exD [OF i]
  have v: "live ?s = live s" "in_group ?s = in_group s" "parked_in ?s = parked_in s"
    "group_empty ?s = group_empty s" "group_failed ?s = group_failed s"
    using g by (auto simp: live_def in_group_def parked_in_def group_empty_def group_failed_def fun_eq_iff)
  have w: "woken ?s h c = woken s h c" for h c by (rule woken_cong) (simp_all add: v)
  have "site_ok ?s h y c cs" if "site_ok s h y c cs" for h y c cs using that v g by (cases c) auto
  then have "sites_ok ?s" using d(5) by (simp add: sites_ok_def)
  moreover have "ready_ok {} ?s" using d(2) w by (simp add: ready_ok_def ready_def)
  moreover have "groups_ok ?s"
    unfolding groups_ok_def v
  proof (intro conjI allI impI)
    fix k K assume "groups ?s k = Some K"
    then show "distinct (members K)" using groups_okD(1) [OF d(9), of k K] by (simp split: if_splits) auto
  next
    fix h k
    show "in_group s h k = (\<exists>G. groups ?s k = Some G \<and> h \<in> set (members G))"
      using groups_okD(2,3) [OF d(9), where f = h and g = k] g by (cases "k = g") auto
  qed
  moreover have "\<not> fault ?s" "run_queue_ok ?s" "states_ok ?s" "slots_ok ?s" "watchers_ok ?s" "timers_ok ?s" "queues_ok ?s"
    using d v clause_congs(1-5,7) [of ?s s] by simp_all
  ultimately show ?thesis by (intro inv_exI)
qed

lemma exec_inv:
  assumes i: "inv s" and f: "this_fiber s = Some f" and ok: "allowed f c s"
  shows "inv (snd (exec f c s))"
proof (cases c)
  case (CGuard g m)
  let ?s = "s\<lparr>guard_mutex := (guard_mutex s)(g := m), guard_locked := (guard_locked s)(g := False)\<rparr>"
  have "inv ?s" "this_fiber ?s = Some f" using i f by simp_all
  then show ?thesis
    using Mutex_Lock_inv [of ?s f m "[KGuardLock g]"] CGuard by (simp add: MutexGuard_init_def MutexGuard_Lock_def)
next
  case (CGuardLock g)
  then show ?thesis using Mutex_Lock_inv [OF i f, of "guard_mutex s g" "[KGuardLock g]"] by (simp add: MutexGuard_Lock_def)
next
  case (CGuardDestroy g)
  then show ?thesis using MutexGuard_Unlock_inv [OF i] i ok by (simp add: MutexGuard_dtor_def)
next
  case (CCondWait d g)
  have "inv (MutexGuard_Unlock g s)" "this_fiber (MutexGuard_Unlock g s) = Some f"
    using MutexGuard_Unlock_inv [OF i, of g] ok f CCondWait by simp_all
  then show ?thesis
    using WaitQueue_Wait_inv [of "MutexGuard_Unlock g s" f "CondWaiters d" "[KCondWait d g]"] CCondWait
    by (simp add: CondVar_Wait_def)
next
  case (CNewFiber x)
  then have fresh: "fibers s x = None" using ok by simp
  then have "this_fiber s \<noteq> Some x" using f running_fiber [OF inv_exD(4) [OF i] f] by fastforce
  then show ?thesis using new_fiber_inv [OF i fresh] CNewFiber by simp
next
  case (CDestroyFiber x)
  then obtain X where "fibers s x = Some X" "group X = None" "x \<noteq> f" "slots s (Fiber_waiter x) = None"
    using ok by (auto split: option.splits)
  then show ?thesis using Fiber_dtor_inv [OF i f] CDestroyFiber by simp
next
  case (CNewGroup g b)
  then show ?thesis using new_group_inv [OF i] ok by simp
next
  case (CSpawn g x)
  obtain G where G: "groups s g = Some G" using ok CSpawn by (auto split: option.splits)
  have fresh: "fibers s x = None" using ok CSpawn by simp
  then have ne: "this_fiber s \<noteq> Some x" using f running_fiber [OF inv_exD(4) [OF i] f] by fastforce
  have "slots s (Group_joiner g) = None \<and> slots s (WaitGroup_waiter g) = None" if "members G = []"
    using ok CSpawn G that by simp
  then show ?thesis using DoSpawn_inv [OF i fresh ne G] CSpawn by simp
next
  case (CDestroyGroup g)
  then obtain G where "groups s g = Some G" "f \<notin> set (members G)" "slots s (Group_joiner g) = None" "slots s (WaitGroup_waiter g) = None"
    using ok by (auto split: option.splits)
  then show ?thesis using Group_dtor_inv [OF i f] CDestroyGroup by simp
next
  case (CWaitGroup g)
  then obtain G where "groups s g = Some G" "is_wait_group G" "slots s (Group_joiner g) = None" "slots s (WaitGroup_waiter g) = None"
    using ok by (auto split: option.splits)
  then show ?thesis using WaitGroup_Wait_inv [OF i f] CWaitGroup by simp
next
  case (CTimeoutDestroy t)
  then show ?thesis using TimeoutGuard_dtor_inv [OF i] ok by auto
next
  case (CCancelGuard b)
  then show ?thesis using running_flags_inv [OF i f] by simp
next
  case (CWatch w d b)
  then show ?thesis using FDWatcher_Init_inv [OF i, of w d b] ok by simp
next
  case (CWatchReset w)
  then obtain d where "watchers s w = Open d" using ok by (auto split: FDWatcher.splits)
  then show ?thesis using FDWatcher_Reset_inv [OF i] CWatchReset by simp
next
  case (CWatchWait w r)
  then obtain d where "watchers s w = Open d" "slots s (poll_slot d r) = None" "\<forall>x \<in> ran (fibers s). InPoll w d r \<notin> set (frames x)"
    using ok by (auto split: FDWatcher.splits)
  then show ?thesis using FDWatcher_Wait_inv [OF i f] CWatchWait by simp
qed (use i f ok Yield_inv [OF i f] SleepUntil_inv [OF i f] WaitQueue_Wait_inv [OF i f] NotifyOne_inv [OF i]
    NotifyAll_inv [OF i] Mutex_Lock_inv [OF i f] Mutex_Unlock_inv [OF i] MutexGuard_Unlock_inv [OF i]
    TimeoutGuard_init_inv [OF i f] in auto)

lemma sched_step_inv: "sched_step s s' \<Longrightarrow> inv s \<Longrightarrow> inv s'"
proof (induction rule: sched_step.induct)
  case (call s f c st s')
  then show ?case using exec_inv [of s f c] by simp
next
  case (fiber_end s f out s')
  then show ?case using Run_end_inv [of s f out s'] by blast
next
  case (loop_turn s clock events later_events st s')
  then show ?case using RunLoop_turn_inv [of s clock events later_events st s'] by blast
qed

lemma start_state_inv: "inv (Scheduler_start main t0)"
proof -
  define s where "s = \<lparr>now = t0, time_freezed = False, main_fiber = main, timers = TimerHeap_empty, owner = Map.empty,
       run_queue = [], this_fiber = None, fibers = Map.empty, queues = (\<lambda>_. []), wakeup = (\<lambda>_. False),
       slots = Map.empty, mutex_locked = (\<lambda>_. False), guard_mutex = (\<lambda>_. 0), guard_locked = (\<lambda>_. False),
       groups = Map.empty, watchers = (\<lambda>_. Fresh), free_list = [], fault = False\<rparr>"
  have "inv s"
    by (rule inv_exI) (simp_all add: s_def ready_ok_def run_queue_ok_def states_ok_def sites_ok_def queues_ok_def
        timers_ok_def slots_ok_def groups_ok_def watchers_ok_def in_group_def th.invar_empty th.deadlines_empty)
  then have "inv (new_fiber main s)" by (rule new_fiber_inv) (simp_all add: s_def)
  then show ?thesis by (simp add: Scheduler_start_def s_def)
qed

interpretation sched: step_system sched_step inv
  by unfold_locales (rule sched_step_inv)

lemma sched_reachable_inv: "sched_step\<^sup>*\<^sup>* (Scheduler_start main t0) s \<Longrightarrow> inv s"
  by (rule sched.reachable_keeps [OF _ start_state_inv])

end
