(* ===== verification/Fibers_Properties.thy ===== *)
theory Fibers_Properties
  imports Fibers_Steps
begin

text \<open>
  What the fiber runtime guarantees to its programs: the run queue is first-in first-out, a mutex
  loses no wake-up even when waiting fibers are canceled or time out, and the properties that follow
  from the invariant.
\<close>

section \<open>The run queue only grows at its end\<close>

definition prefixed :: "fid list \<Rightarrow> Scheduler \<Rightarrow> bool" where
  "prefixed r s \<longleftrightarrow> (\<exists>c. run_queue s = r @ c)"

lemma prefixed_refl: "prefixed (run_queue s) s"
  by (simp add: prefixed_def)

lemma prefixed_same: "prefixed r s \<Longrightarrow> run_queue s' = run_queue s \<Longrightarrow> prefixed r s'"
  by (simp add: prefixed_def)

lemma prefixed_Unpark: "prefixed r s \<Longrightarrow> prefixed r (Unpark f s)"
  by (auto simp: prefixed_def Unpark_def split: option.split)

lemma prefixed_flag: "prefixed r s \<Longrightarrow> prefixed r (if \<not> guarded f (set_fiber g u s) then Unpark f (set_fiber g u s) else set_fiber g u s)"
  using prefixed_Unpark [of r "set_fiber g u s" f] by (auto simp: prefixed_def)

lemma prefixed_interrupt: "prefixed r s \<Longrightarrow> prefixed r (Cancel f s)" "prefixed r s \<Longrightarrow> prefixed r (NotifyTimeout f s)"
  using prefixed_flag by (auto simp: Cancel_def NotifyTimeout_def Let_def prefixed_def split: option.split)

lemma prefixed_unpark_slot: "prefixed r s \<Longrightarrow> prefixed r (unpark_slot c s)"
  by (simp add: unpark_slot_def prefixed_Unpark split: option.split)

lemma prefixed_NotifyOne: "prefixed r s \<Longrightarrow> prefixed r (NotifyOne q s)"
  using prefixed_Unpark by (auto simp: NotifyOne_def prefixed_def split: list.split)

lemma prefixed_NotifyAll: "prefixed r s \<Longrightarrow> prefixed r (NotifyAll q s)"
proof (induction q s rule: NotifyAll.induct)
  case (1 q s)
  then show ?case
    using prefixed_NotifyOne [of r s q] by (cases "queues s q = []") (simp_all add: NotifyAll.simps [of q s])
qed

lemma prefixed_cleanup: "prefixed r s \<Longrightarrow> prefixed r (cleanup c s)"
  by (cases c) (auto simp: prefixed_def clear_slot_def)

lemma prefixed_leave: "prefixed r s \<Longrightarrow> prefixed r (leave f out c s)"
  using prefixed_NotifyOne by (cases c) (auto simp: prefixed_def Let_def)

lemma prefixed_check: "f \<notin> set r \<Longrightarrow> prefixed r s \<Longrightarrow> Park_check f c s = (e, s') \<Longrightarrow> prefixed r s'"
proof -
  assume f: "f \<notin> set r" and p: "prefixed r s" and c: "Park_check f c s = (e, s')"
  have rm: "prefixed r (s\<lparr>run_queue := remove1 f (run_queue s)\<rparr>)" using p f by (auto simp: prefixed_def remove1_append)
  then have "prefixed r (set_fiber f u (s\<lparr>run_queue := remove1 f (run_queue s)\<rparr>))" for u by (simp add: prefixed_def)
  then show ?thesis
    using c p rm prefixed_cleanup by (auto simp: Park_check_def prefixed_def split: option.splits if_splits)
qed

lemma prefixed_delete: "prefixed r s \<Longrightarrow> prefixed r (delete_fiber x s)"
  by (simp add: prefixed_def delete_fiber_def)

lemma prefixed_unwind: "f \<notin> set r \<Longrightarrow> prefixed r s \<Longrightarrow> prefixed r (snd (unwind f out ks s))"
proof (induction f out ks s rule: unwind.induct)
  case (2 f out k ks s)
  show ?case
  proof (cases k)
    case (KLock m)
    show ?thesis
    proof (cases "out = Returned \<and> mutex_locked s m")
      case True
      obtain e s' where c: "Park_check f (InWait (Lockers m)) (enqueue_waiter f (Lockers m) s) = (e, s')" by force
      have p: "prefixed r s'"
        using prefixed_check [OF "2.prems"(1) _ c] "2.prems"(2) by (simp add: prefixed_def enqueue_waiter_def)
      show ?thesis
        using True KLock c p 2 by (cases e) (auto simp: unwind.simps(2) prefixed_def)
    next
      case False
      then show ?thesis using KLock 2 by (cases out) (auto simp: unwind.simps(2) prefixed_def)
    qed
  next
    case (InWait q)
    then show ?thesis using 2 prefixed_leave [OF "2.prems"(2)] by (simp add: unwind.simps(2) del: leave.simps)
  next
    case (KCondLock c)
    then show ?thesis using 2 prefixed_NotifyOne by (cases out) (auto simp: unwind.simps(2))
  next
    case (KFiberDtor x b)
    have "prefixed r (delete_fiber x (set_fiber f (\<lambda>x. x\<lparr>cancel_guarded := b\<rparr>) s))"
      using "2.prems"(2) by (intro prefixed_delete) (simp add: prefixed_def)
    then show ?thesis using KFiberDtor 2 by (simp add: unwind.simps(2))
  next
    case (KWaitGroup g)
    then show ?thesis using 2 by (cases out) (auto simp: unwind.simps(2) split: option.split)
  qed (use 2 prefixed_leave in \<open>auto simp: unwind.simps(2) prefixed_def split: outcome.split\<close>)
qed simp

lemma prefixed_Park: "f \<notin> set r \<Longrightarrow> prefixed r s \<Longrightarrow> prefixed r (snd (Park f c ks s))"
proof -
  assume f: "f \<notin> set r" and p: "prefixed r s"
  obtain e s' where c: "Park_check f c s = (e, s')" by force
  note p' = prefixed_check [OF f p c]
  show ?thesis
  proof (cases e)
    case None
    then show ?thesis using p' c by (simp add: Park_def prefixed_def)
  next
    case (Some e')
    then show ?thesis using prefixed_unwind [OF f p'] c by (simp add: Park_def)
  qed
qed

lemma prefixed_Park_resumed: "f \<notin> set r \<Longrightarrow> prefixed r s \<Longrightarrow> prefixed r (snd (Park_resumed f s))"
proof -
  assume f: "f \<notin> set r" and p: "prefixed r s"
  let ?s = "set_fiber f (\<lambda>x. x\<lparr>frames := []\<rparr>) s"
  have "prefixed r (snd (case Park_check f site ?s of (Some e, s) \<Rightarrow> unwind f (Threw e) (site # frs) s
      | (None, s) \<Rightarrow> unwind f Returned (site # frs) (cleanup site s)))" for site frs
  proof -
    obtain e s' where c: "Park_check f site ?s = (e, s')" by force
    have "prefixed r s'" by (rule prefixed_check [OF f _ c]) (use p in \<open>simp add: prefixed_def\<close>)
    then show ?thesis using prefixed_unwind [OF f] prefixed_cleanup c by (cases e) auto
  qed
  then show ?thesis using p by (simp add: Park_resumed_def Let_def prefixed_def split: option.split list.split)
qed

lemma prefixed_OnFinished: "prefixed r s \<Longrightarrow> prefixed r (OnFinished g f ex s)"
proof -
  have base: "prefixed r (Group_OnFinished g f s)" if "prefixed r s" for s
    using that prefixed_unpark_slot [of r _ "Group_joiner g"]
    by (auto simp: Group_OnFinished_def Let_def prefixed_def split: option.split)
  have "prefixed r (WaitGroup_OnFinished g f ex s)" if p: "prefixed r s" for s
  proof (cases "groups s g")
    case (Some G)
    define s1 where "s1 = (if first_error G = None \<and> ex \<noteq> None
      then unpark_slot (WaitGroup_waiter g) (s\<lparr>groups := (groups s)(g \<mapsto> G\<lparr>first_error := ex\<rparr>)\<rparr>) else s)"
    have "prefixed r s1" unfolding s1_def using p prefixed_unpark_slot by (auto simp: prefixed_def)
    then have "prefixed r (Group_OnFinished g f s1)" by (rule base)
    then show ?thesis
      using Some prefixed_unpark_slot unfolding WaitGroup_OnFinished_def s1_def by (auto simp: Let_def)
  qed (use p in \<open>simp add: WaitGroup_OnFinished_def prefixed_def\<close>)
  then show "prefixed r s \<Longrightarrow> prefixed r (OnFinished g f ex s)" using base by (simp add: OnFinished_def)
qed

lemma prefixed_Run_end:
  assumes p: "prefixed r s" and res: "Run_end f out s = Some s'"
  shows "prefixed r s'"
proof (cases "fibers s f")
  case None
  then show ?thesis using res p by (auto simp: Run_end_def prefixed_def)
next
  case (Some x)
  then obtain ex where ex: "Run_handlers (group x) out = Some ex" using res by (auto simp: Run_end_def split: option.splits)
  let ?s = "(unpark_slot (Fiber_waiter f) (set_fiber f (\<lambda>x. x\<lparr>error := ex, state := Dead\<rparr>) s))\<lparr>this_fiber := None\<rparr>"
  have "prefixed r ?s" using p prefixed_unpark_slot by (simp add: prefixed_def)
  moreover have "s' = Cleanup f ?s" using res Some ex by (simp add: Run_end_def Let_def)
  ultimately show ?thesis
    using prefixed_OnFinished prefixed_delete by (simp add: Cleanup_def prefixed_def split: option.split)
qed

lemma prefixed_park_in_slot: "f \<notin> set r \<Longrightarrow> prefixed r s \<Longrightarrow> prefixed r (snd (park_in_slot f c site ks s))"
  using prefixed_Park [of f r "s\<lparr>slots := (slots s)(c \<mapsto> f)\<rparr>" site ks] by (simp add: park_in_slot_def prefixed_def)

lemma prefixed_wake_slot: "prefixed r s \<Longrightarrow> prefixed r (wake_slot c s)"
  using prefixed_unpark_slot by (simp add: wake_slot_def clear_slot_def prefixed_def)

lemma prefixed_Poll: "prefixed r s \<Longrightarrow> prefixed r (Poll events s)"
  unfolding Poll_def
  by (induction events arbitrary: s) (auto simp: Poll_event_def Let_def intro!: prefixed_wake_slot split: prod.split)

lemma prefixed_expire: "prefixed r s \<Longrightarrow> prefixed r (expire_timers n s)"
proof (induction n s rule: expire_timers.induct)
  case (2 n s)
  have "prefixed r (OnExpired t (s\<lparr>timers := Deactivate (timers s) t\<rparr>))" for t
    using "2.prems" prefixed_Unpark prefixed_interrupt(2)
    by (simp add: OnExpired_def prefixed_def split: option.split timer_owner.split)
  then show ?case using 2 by (auto simp: prefixed_def split: option.split)
qed simp

lemma prefixed_fold_Cancel: "prefixed r s \<Longrightarrow> prefixed r (fold Cancel xs s)"
  by (induction xs arbitrary: s) (simp_all add: prefixed_interrupt)

lemma prefixed_new_fiber: "prefixed r s \<Longrightarrow> prefixed r (new_fiber x s)"
  using prefixed_Unpark by (simp add: new_fiber_def prefixed_def)

lemma prefixed_exec:
  assumes f: "f \<notin> set r" and p: "prefixed r s"
  shows "prefixed r (snd (exec f c s))"
proof (cases c)
  case CYield
  then show ?thesis using prefixed_Park [OF f prefixed_Unpark [OF p]] by (simp add: Yield_def)
next
  case (CSleepUntil t d)
  then show ?thesis using prefixed_Park [OF f] p by (simp add: SleepUntil_def prefixed_def)
next
  case (CSleepFor t d)
  then show ?thesis using prefixed_Park [OF f] p by (simp add: SleepUntil_def prefixed_def)
next
  case (CWait q)
  then show ?thesis using prefixed_Park [OF f] p by (simp add: WaitQueue_Wait_def enqueue_waiter_def prefixed_def)
next
  case (CGuard g m)
  then show ?thesis
    using prefixed_unwind [OF f] p by (simp add: MutexGuard_init_def MutexGuard_Lock_def Mutex_Lock_def prefixed_def)
next
  case (CGuardUnlock g)
  then show ?thesis using prefixed_NotifyOne p by (simp add: MutexGuard_Unlock_def Mutex_Unlock_def prefixed_def)
next
  case (CGuardDestroy g)
  then show ?thesis
    using prefixed_NotifyOne p by (simp add: MutexGuard_dtor_def MutexGuard_Unlock_def Mutex_Unlock_def prefixed_def)
next
  case (CCondWait d g)
  have "prefixed r (enqueue_waiter f (CondWaiters d) (MutexGuard_Unlock g s))"
    using prefixed_NotifyOne p by (simp add: MutexGuard_Unlock_def Mutex_Unlock_def enqueue_waiter_def prefixed_def)
  then show ?thesis using prefixed_Park [OF f] CCondWait by (simp add: CondVar_Wait_def WaitQueue_Wait_def)
next
  case (CDestroyFiber x)
  have "prefixed r (cancel_guard f (Cancel x s))" using prefixed_interrupt(1) [OF p] by (simp add: cancel_guard_def prefixed_def)
  then show ?thesis
    using CDestroyFiber prefixed_park_in_slot [OF f] prefixed_delete [OF p] p
    by (auto simp: Fiber_dtor_def Let_def prefixed_def split: option.split)
next
  case (CSpawn g x)
  then show ?thesis using prefixed_new_fiber [OF p] p by (simp add: DoSpawn_def Let_def prefixed_def split: option.split)
next
  case (CDestroyGroup g)
  have "prefixed r (cancel_guard f (fold Cancel xs s))" for xs
    using prefixed_fold_Cancel [OF p] by (simp add: cancel_guard_def prefixed_def)
  then show ?thesis
    using CDestroyGroup prefixed_park_in_slot [OF f] p
    by (auto simp: Group_dtor_def Let_def prefixed_def split: option.split)
next
  case (CWaitGroup g)
  then show ?thesis
    using prefixed_park_in_slot [OF f p] p by (simp add: WaitGroup_Wait_def prefixed_def split: option.split)
next
  case (CWatch w d b)
  then show ?thesis using p by (simp add: FDWatcher_Init_def NewDesc_def FreeDesc_def prefixed_def split: list.split)
next
  case (CWatchReset w)
  then show ?thesis
    using prefixed_wake_slot p by (simp add: FDWatcher_Reset_def FreeDesc_def prefixed_def split: FDWatcher.split)
next
  case (CWatchWait w b)
  then show ?thesis
    using prefixed_park_in_slot [OF f p] p by (simp add: FDWatcher_Wait_def prefixed_def split: FDWatcher.split)
next
  case (CUnlock m)
  then show ?thesis using prefixed_NotifyOne p by (simp add: Mutex_Unlock_def prefixed_def)
qed (use p prefixed_NotifyOne [OF p] prefixed_NotifyAll [OF p] prefixed_unwind [OF f p] prefixed_new_fiber [OF p] in
    \<open>simp_all add: Mutex_Lock_def MutexGuard_Lock_def TimeoutGuard_init_def TimeoutGuard_dtor_def prefixed_def\<close>)

lemma RunLoop_turn_queue:
  assumes i: "inv s" and n: "this_fiber s = None" and q: "run_queue s = f # rest"
    and res: "RunLoop_turn events clock later_events s = (st, s')"
  shows "prefixed rest s'"
proof -
  define s2 where "s2 = expire_timers (length (heap (timers (update_time clock (Poll events s)))) + 1) (update_time clock (Poll events s))"
  have "prefixed (f # rest) s2"
    unfolding s2_def using prefixed_Poll [OF prefixed_refl [of s]] q by (intro prefixed_expire) (simp add: update_time_def prefixed_def)
  then obtain c where c: "run_queue s2 = f # rest @ c" by (auto simp: prefixed_def)
  then have r: "(st, s') = RunFiber f (s2\<lparr>run_queue := rest @ c\<rparr>)"
    using res unfolding RunLoop_turn_def Let_def s2_def [symmetric] by simp
  have nf: "f \<notin> set rest" using inv_exD(3) [OF i] q by (simp add: run_queue_ok_def)
  have "prefixed rest (snd (RunFiber f (s2\<lparr>run_queue := rest @ c\<rparr>)))"
    using prefixed_Park_resumed [OF nf] by (simp add: RunFiber_def Let_def prefixed_def split: option.split)
  then show ?thesis using r by (metis snd_conv)
qed

section \<open>Mutexes lose no wake-up\<close>

text \<open>
  A mutex is served when nobody waits for it, or it is locked, or a woken fiber is about to try again.
\<close>

definition served :: "Scheduler \<Rightarrow> nat \<Rightarrow> bool" where
  "served s m \<longleftrightarrow> queues s (Lockers m) = [] \<or> mutex_locked s m \<or> (\<exists>f. parked_in s f (InWait (Lockers m)) \<and> wakeup s f)"

text \<open>Steps that shrink queues, lock, and leave woken fibers alone.\<close>

definition serves :: "Scheduler \<Rightarrow> Scheduler \<Rightarrow> bool" where
  "serves s s' \<longleftrightarrow>
    (\<forall>m. queues s (Lockers m) = [] \<longrightarrow> queues s' (Lockers m) = []) \<and> (\<forall>m. mutex_locked s m \<longrightarrow> mutex_locked s' m) \<and>
    (\<forall>f q. parked_in s f (InWait q) \<and> wakeup s f \<longrightarrow> parked_in s' f (InWait q) \<and> wakeup s' f)"

lemma serves_served: "serves s s' \<Longrightarrow> served s m \<Longrightarrow> served s' m"
  unfolding serves_def served_def by blast

lemma serves_refl [simp]: "serves s s"
  by (simp add: serves_def)

lemma serves_trans: "serves s s1 \<Longrightarrow> serves s1 s2 \<Longrightarrow> serves s s2"
  unfolding serves_def by blast

lemma serves_same:
  "queues s' = queues s \<Longrightarrow> mutex_locked s' = mutex_locked s \<Longrightarrow> wakeup s' = wakeup s \<Longrightarrow> parked_in s' = parked_in s \<Longrightarrow> serves s s'"
  by (simp add: serves_def)

lemma serves_fields:
  "queues s' = queues s \<Longrightarrow> mutex_locked s' = mutex_locked s \<Longrightarrow> wakeup s' = wakeup s \<Longrightarrow> fibers s' = fibers s \<Longrightarrow> serves s s'"
  by (rule serves_same) (simp_all add: parked_in_def fun_eq_iff)

lemma serves_Unpark [simp]: "serves s (Unpark f s)"
  by (rule serves_fields) simp_all

lemma serves_flags: "keeps_shape u \<Longrightarrow> serves s (set_fiber f u s)"
  by (rule serves_same) (simp_all add: keeps_shape_views)

lemma serves_interrupt: "serves s (Cancel f s)" "serves s (NotifyTimeout f s)"
  using serves_trans [OF serves_flags serves_Unpark] serves_flags
  by (auto simp: Cancel_def NotifyTimeout_def Let_def serves_fields split: option.split)

lemma serves_fold_Cancel: "serves s (fold Cancel xs s)"
proof (induction xs arbitrary: s)
  case (Cons x xs)
  then show ?case using serves_trans [OF serves_interrupt(1) [of s x]] by simp
qed simp

lemma serves_unpark_slot: "serves s (unpark_slot c s)"
  by (simp add: unpark_slot_def split: option.split)

lemma serves_NotifyOne: "serves s (NotifyOne q s)"
proof (cases "queues s q")
  case (Cons f rest)
  let ?s = "s\<lparr>queues := (queues s)(q := rest), wakeup := (wakeup s)(f := True)\<rparr>"
  have "serves s ?s" using Cons by (auto simp: serves_def parked_in_def)
  then show ?thesis using serves_trans [OF _ serves_Unpark] Cons by (simp add: NotifyOne_def)
qed (simp add: NotifyOne_def)

lemma serves_NotifyAll: "serves s (NotifyAll q s)"
proof (induction q s rule: NotifyAll.induct)
  case (1 q s)
  then show ?case
    using serves_trans [OF serves_NotifyOne [of s q]] by (cases "queues s q = []") (simp_all add: NotifyAll.simps [of q s])
qed

lemma NotifyOne_served:
  assumes i: "inv s"
  shows "served (NotifyOne (Lockers m) s) m"
proof (cases "queues s (Lockers m)")
  case (Cons f rest)
  have "parked_in s f (InWait (Lockers m))" using queues_okD(2) [OF inv_exD(6) [OF i]] Cons by (metis list.set_intros(1))
  then show ?thesis using Cons by (auto simp: served_def NotifyOne_def parked_in_def)
qed (simp add: served_def NotifyOne_def)

lemma serves_cleanup: "serves s (cleanup c s)"
  by (cases c) (auto simp: clear_slot_def serves_fields)

lemma serves_clear_slot: "serves s (clear_slot c s)"
  by (rule serves_fields) (simp_all add: clear_slot_def)

lemma serves_wake_slot: "serves s (wake_slot c s)"
  using serves_trans [OF serves_unpark_slot serves_clear_slot] by (simp add: wake_slot_def)

lemma serves_Poll: "serves s (Poll events s)"
  unfolding Poll_def
proof (induction events arbitrary: s)
  case (Cons ev events)
  have "serves s (Poll_event ev s)"
    using serves_wake_slot serves_trans [OF serves_wake_slot serves_wake_slot] by (cases ev) (auto simp: Poll_event_def Let_def)
  then show ?case using serves_trans Cons.IH by fastforce
qed simp

lemma serves_delete:
  assumes "\<not> (\<exists>c. parked_in s x c)"
  shows "serves s (delete_fiber x s)"
  using assms by (fastforce simp: delete_fiber_def serves_def parked_in_def)

lemma serves_expire: "serves s (expire_timers n s)"
proof (induction n s rule: expire_timers.induct)
  case (2 n s)
  have one: "serves s (OnExpired t (s\<lparr>timers := Deactivate (timers s) t\<rparr>))" for t
  proof -
    have "serves s (s\<lparr>timers := Deactivate (timers s) t\<rparr>)" by (rule serves_fields) simp_all
    moreover have "serves r (OnExpired t r)" for r
      using serves_interrupt(2) by (simp add: OnExpired_def serves_fields split: option.split timer_owner.split)
    ultimately show ?thesis using serves_trans by blast
  qed
  show ?case
    using 2 serves_trans [OF one] by (auto simp: serves_fields split: option.split)
qed simp

text \<open>The running fiber is not parked, so what it does to itself serves every mutex.\<close>

lemma serves_suspend: "\<not> (\<exists>c. parked_in s f c) \<Longrightarrow> serves s (suspend f ks s)"
  by (auto simp: serves_def parked_in_def)

lemma parked_updates [simp]:
  "parked_in (s\<lparr>guard_locked := a\<rparr>) = parked_in s" "parked_in (s\<lparr>guard_mutex := a'\<rparr>) = parked_in s"
  "parked_in (s\<lparr>mutex_locked := b\<rparr>) = parked_in s" "parked_in (s\<lparr>queues := c\<rparr>) = parked_in s"
  "parked_in (s\<lparr>wakeup := d\<rparr>) = parked_in s" "parked_in (s\<lparr>run_queue := e\<rparr>) = parked_in s"
  "parked_in (s\<lparr>fault := g\<rparr>) = parked_in s" "parked_in (s\<lparr>owner := h\<rparr>) = parked_in s" "parked_in (s\<lparr>timers := i\<rparr>) = parked_in s"
  "parked_in (s\<lparr>slots := j\<rparr>) = parked_in s" "parked_in (s\<lparr>groups := k\<rparr>) = parked_in s" "parked_in (s\<lparr>this_fiber := l\<rparr>) = parked_in s"
  "parked_in (s\<lparr>watchers := m\<rparr>) = parked_in s" "parked_in (s\<lparr>free_list := n\<rparr>) = parked_in s"
  "parked_in (s\<lparr>now := p\<rparr>) = parked_in s" "parked_in (s\<lparr>time_freezed := q\<rparr>) = parked_in s"
  by (simp_all add: parked_in_def fun_eq_iff)

lemma served_enqueue:
  assumes k: "served s k" and np: "\<not> (\<exists>c. parked_in s f c)" and q: "q = Lockers k \<Longrightarrow> mutex_locked s k"
  shows "served (enqueue_waiter f q s) k"
proof (cases "mutex_locked s k")
  case False
  then have "q \<noteq> Lockers k" using q by blast
  then have "queues (enqueue_waiter f q s) (Lockers k) = queues s (Lockers k)" by (simp add: enqueue_waiter_def)
  moreover have "parked_in (enqueue_waiter f q s) = parked_in s" by (simp add: enqueue_waiter_def)
  moreover have "g \<noteq> f \<Longrightarrow> wakeup (enqueue_waiter f q s) g = wakeup s g" for g by (simp add: enqueue_waiter_def)
  ultimately show ?thesis using k np False unfolding served_def by metis
qed (simp add: served_def enqueue_waiter_def)

lemma Park_check_keeps:
  assumes "Park_check f c s = (e, s')"
  shows "wakeup s' = wakeup s" "parked_in s' = parked_in s" "mutex_locked s' = mutex_locked s" "queues s' = queues s"
proof -
  have c: "wakeup (cleanup c r) = wakeup r" "parked_in (cleanup c r) = parked_in r" "mutex_locked (cleanup c r) = mutex_locked r"
    "queues (cleanup c r) = queues r" for r by (cases c; simp add: clear_slot_def)+
  have u: "parked_in (set_fiber f (\<lambda>x. x\<lparr>timedout := False\<rparr>) r) = parked_in r" for r by (rule keeps_shape_views) simp
  show "wakeup s' = wakeup s" "parked_in s' = parked_in s" "mutex_locked s' = mutex_locked s" "queues s' = queues s"
    using assms by (auto simp: Park_check_def c u split: option.splits if_splits)
qed

lemma served_check:
  "Park_check f c s = (e, s') \<Longrightarrow> served s m \<Longrightarrow> served s' m"
  using serves_same [of s' s] Park_check_keeps [of f c s e s'] serves_served by blast

text \<open>The waiter's destructors, when it had not been woken.\<close>

lemma served_leave_unwoken:
  "\<not> wakeup s f \<Longrightarrow> served s m \<Longrightarrow> served (leave f out c s) m"
proof (cases c)
  case (InWait q)
  assume "\<not> wakeup s f" "served s m"
  then show ?thesis using InWait by (auto simp: served_def Let_def)
qed (auto simp: served_def)

lemma served_throw: "served s m \<Longrightarrow> kont_ok ks \<Longrightarrow> served (snd (unwind f (Threw e) ks s)) m"
proof (induction ks arbitrary: s)
  case (Cons k ks)
  have "kont_ok ks" using Cons.prems(2) by (cases k; cases ks) auto
  then show ?case
    using Cons serves_served [OF serves_NotifyOne Cons.prems(1)] by (cases k) (auto simp: unwind.simps(2))
qed simp

lemma served_return_tail:
  "served s m \<Longrightarrow> ks = [] \<or> (\<exists>g. ks = [KGuardLock g]) \<or> (\<exists>g c. ks = [KGuardLock g, KCondLock c]) \<Longrightarrow>
   served (snd (unwind f Returned ks s)) m"
  by (auto simp: unwind.simps(2) served_def)

text \<open>Locking serves also the mutex for which a woken waiter has just left the queue.\<close>

lemma served_lock:
  assumes i: "inv s" and f: "this_fiber s = Some f" and ks: "lock_frames m (KLock m # ks)" and k: "k = m \<or> served s k"
  shows "served (snd (unwind f Returned (KLock m # ks) s)) k"
proof (cases "mutex_locked s m")
  case False
  have "served (s\<lparr>mutex_locked := (mutex_locked s)(m := True)\<rparr>) k" using k by (auto simp: served_def)
  then show ?thesis using served_return_tail ks False by (simp add: unwind.simps(2))
next
  case True
  have np: "\<not> (\<exists>c. parked_in s f c)" using parked_running [OF i f] by blast
  have "served s k" using k True by (auto simp: served_def)
  then have enq: "served (enqueue_waiter f (Lockers m) s) k" using np True by (intro served_enqueue) auto
  obtain e s' where c: "Park_check f (InWait (Lockers m)) (enqueue_waiter f (Lockers m) s) = (e, s')" by force
  have s': "served s' k" by (rule served_check [OF c enq])
  have same: "wakeup s' f = False" "parked_in s' f = parked_in s f"
    using Park_check_keeps [OF c] by (simp_all add: enqueue_waiter_def)
  show ?thesis
  proof (cases e)
    case None
    then show ?thesis using serves_served [OF serves_suspend s'] same np True c by (simp add: unwind.simps(2))
  next
    case (Some e')
    have "served (leave f (Threw e') (InWait (Lockers m)) s') k" using served_leave_unwoken [OF _ s'] same(1) by blast
    then have "served (snd (unwind f (Threw e') (KLock m # ks) (leave f (Threw e') (InWait (Lockers m)) s'))) k"
      using ks by (intro served_throw) simp_all
    then show ?thesis using True c Some by (simp add: unwind.simps(2))
  qed
qed

lemma served_guard [simp]: "served (s\<lparr>guard_locked := b\<rparr>) k = served s k" "served (s\<lparr>guard_mutex := c\<rparr>) k = served s k"
  by (simp_all add: served_def)

lemma served_unwind:
  assumes i: "inv s" and f: "this_fiber s = Some f" and ks: "kont_ok ks"
    and k: "served s k \<or> out = Returned \<and> (\<exists>ks'. ks = KLock k # ks')"
  shows "served (snd (unwind f out ks s)) k"
proof (cases out)
  case (Threw e)
  then show ?thesis using served_throw ks k by simp
next
  case Returned
  show ?thesis
  proof (cases ks rule: kont_ok.cases)
    case (2 m ks')
    then show ?thesis using served_lock [OF i f, of m ks' k] ks Returned k by auto
  next
    case (5 c g)
    then show ?thesis
      using served_lock [OF i f, of "guard_mutex s g" "[KGuardLock g, KCondLock c]" k] Returned k
      by (simp add: unwind.simps(2) [of f Returned "KCondWait c g"])
  qed (use ks k Returned served_return_tail in \<open>auto simp: unwind.simps(2) split: option.split\<close>)
qed

lemma served_leave:
  assumes i: "inv s" and f: "this_fiber s = None" "parked_in s f site" and u: "keeps_shape u" and k: "served s k"
  shows "served (leave f out site (cleanup site (go_on f u s))) k \<or> out = Returned \<and> site = InWait (Lockers k)"
proof -
  let ?l = "leave f Returned site (cleanup site (go_on f u s))"
  note dr = leave_deregisters [OF i f(2) u, unfolded deregisters_def]
  have l: "inv ?l" by (rule deregister_inv [OF i f leave_deregisters [OF i f(2) u]])
  have ml: "mutex_locked (leave f out' site r) = mutex_locked r" "mutex_locked (cleanup site r) = mutex_locked r" for out' r
    by (cases site; simp add: Let_def clear_slot_def)+
  have par: "g \<noteq> f \<Longrightarrow> parked_in ?l g c = parked_in s g c" for g c using dr by (auto simp: parked_in_def)
  have wk: "g \<noteq> f \<Longrightarrow> wakeup ?l g = wakeup s g" for g using dr by (metis fun_upd_other)
  have ret: "served ?l k" if "site \<noteq> InWait (Lockers k) \<or> \<not> wakeup s f"
  proof (cases "queues s (Lockers k) = [] \<or> mutex_locked s k")
    case True
    have "queues ?l (Lockers k) = (if site = InWait (Lockers k) then remove1 f (queues s (Lockers k)) else queues s (Lockers k))"
      using dr by blast
    then show ?thesis using True by (auto simp: served_def ml)
  next
    case False
    then obtain g where g: "parked_in s g (InWait (Lockers k))" "wakeup s g" using k by (auto simp: served_def)
    then have "g \<noteq> f" using that parked_in_unique [OF f(2)] by blast
    then show ?thesis using g par wk by (auto simp: served_def)
  qed
  show ?thesis
  proof (cases "\<exists>q. site = InWait q \<and> out \<noteq> Returned \<and> wakeup s f")
    case False
    then have "leave f out site (cleanup site (go_on f u s)) = ?l" by (cases site) auto
    then show ?thesis using ret False by auto
  next
    case True
    then obtain q where q: "site = InWait q" "out \<noteq> Returned" "wakeup s f" by blast
    have eq: "leave f out site (cleanup site (go_on f u s)) = NotifyOne q ?l" by (rule leave_woken [OF i q])
    show ?thesis
    proof (cases "q = Lockers k")
      case True
      then show ?thesis using NotifyOne_served [OF l, of k] eq by simp
    next
      case False
      then have "served ?l k" using ret q(1) by blast
      then show ?thesis using serves_served [OF serves_NotifyOne] eq by simp
    qed
  qed
qed

lemma served_resume:
  assumes i: "inv s" and n: "this_fiber s = None" and rq: "run_queue s = f # rest"
    and x: "fibers s f = Some x" "frames x = site # ks" and k: "served s k"
  shows "served (snd (Park_resumed f (s\<lparr>run_queue := rest, this_fiber := Some f\<rparr>))) k"
proof -
  note d = inv_exD [OF i]
  have nf: "f \<notin> set rest" using d(3) rq by (auto simp: run_queue_ok_def)
  have par: "parked_in s f site" using x by (auto simp: parked_in_def)
  have ok: "site_ok s f x site ks" using d(5) x unfolding sites_ok_def by blast
  have "state_ok s f x" using d(4) x(1) by (simp add: states_ok_def)
  then have st: "state x = Running" using x(2) by (auto simp: state_ok_def)
  have rdy: "ready s f x" using d(2) [unfolded ready_ok_def, rule_format, of f x] x(1) st n rq by simp
  obtain out u where u: "keeps_shape u" and eq: "snd (Park_resumed f (s\<lparr>run_queue := rest, this_fiber := Some f\<rparr>))
      = snd (unwind f out (site # ks) (cleanup site (go_on f u s)))"
    by (rule resume_state [OF x nf rq n]) blast
  define s1 where "s1 = leave f out site (cleanup site (go_on f u s))"
  have i1: "inv s1" unfolding s1_def by (rule leave_inv [OF i n par u])
  have f1: "this_fiber s1 = Some f" "\<And>y. y \<noteq> f \<Longrightarrow> fibers s1 y = fibers s y"
    by (simp_all add: s1_def leave_fields cleanup_fields)
  have k1: "served s1 k \<or> out = Returned \<and> site = InWait (Lockers k)"
    unfolding s1_def by (rule served_leave [OF i n par u k])
  have eq1: "snd (Park_resumed f (s\<lparr>run_queue := rest, this_fiber := Some f\<rparr>)) = snd (unwind f out ks s1)"
    unfolding eq s1_def using unwind_site [OF ok] by simp
  have go: ?thesis if "kont_ok ks" "site = InWait (Lockers k) \<Longrightarrow> \<exists>ks'. ks = KLock k # ks'"
    unfolding eq1 using that k1 by (intro served_unwind [OF i1 f1(1)]) blast+
  let ?g = "\<lambda>b. set_fiber f (\<lambda>x. x\<lparr>cancel_guarded := b\<rparr>) s1"
  have flag: "served s1 k \<Longrightarrow> served (?g b) k" for b using serves_served [OF serves_flags] by simp
  show ?thesis
  proof (cases site)
    case (InJoin y)
    obtain saved Y where y: "ks = [KFiberDtor y saved]" "fibers s y = Some Y" "y \<noteq> f" "cancel_guarded x"
      using ok InJoin by auto
    have "state Y = Dead" using rdy x(2) InJoin y st by (auto simp: ready_def interrupted_def live_def)
    then have "frames Y = []" using d(4) y(2) by (auto simp: states_ok_def state_ok_def)
    then have "\<not> (\<exists>c. parked_in (?g saved) y c)" using y f1(2) by (auto simp: parked_in_def)
    then have "served (delete_fiber y (?g saved)) k"
      using serves_served [OF serves_delete flag] k1 InJoin by simp
    then show ?thesis using eq1 y(1) by (simp add: unwind.simps(2))
  next
    case (InGroup g)
    obtain saved where "ks = [KGroupDtor g saved]" using ok InGroup by auto
    moreover have fl: "served (?g saved) k" using flag k1 InGroup by simp
    have "served (?g saved\<lparr>groups := (groups s1)(g := None)\<rparr>) k" by (rule serves_served [OF serves_fields fl]) simp_all
    ultimately show ?thesis using eq1 by (simp add: unwind.simps(2))
  next
    case (InWait q)
    show ?thesis
    proof (rule go)
      show "kont_ok ks" using ok InWait by (auto dest: wait_kont_ok)
      show "\<exists>ks'. ks = KLock k # ks'" if "site = InWait (Lockers k)"
        using ok that by (cases "(k, ks)" rule: lock_frames.cases) auto
    qed
  qed (use ok in \<open>auto intro!: go\<close>)
qed

lemma served_turn:
  assumes i: "inv s" and n: "this_fiber s = None" and clock: "time_freezed s \<or> now s \<le> clock"
    and res: "RunLoop_turn events clock later_events s = (st, s')" and k: "served s k"
  shows "served s' k"
proof -
  define s1 where "s1 = update_time clock (Poll events s)"
  define s2 where "s2 = expire_timers (length (heap (timers s1)) + 1) s1"
  have "inv s1" "this_fiber s1 = None"
    using Poll_inv [OF i] Poll_fields [of events s] clock n by (auto simp: s1_def update_time_def)
  then have i2: "inv s2" "this_fiber s2 = None" using expire_timers_inv unfolding s2_def by blast+
  have "serves (Poll events s) s1" unfolding s1_def update_time_def by (simp add: serves_fields)
  then have k2: "served s2 k"
    using serves_served [OF serves_trans [OF serves_trans [OF serves_Poll] serves_expire] k] unfolding s2_def by blast
  have r: "(st, s') = (case run_queue s2 of [] \<Rightarrow> (Suspended, Poll later_events s2) | f # rest \<Rightarrow> RunFiber f (s2\<lparr>run_queue := rest\<rparr>))"
    using res unfolding RunLoop_turn_def Let_def s1_def s2_def by (rule sym)
  show ?thesis
  proof (cases "run_queue s2")
    case Nil
    then show ?thesis using r serves_served [OF serves_Poll k2] by simp
  next
    case (Cons f rest)
    have "live s2 f" using inv_exD(3) [OF i2(1)] Cons by (simp add: run_queue_ok_def)
    then obtain x where x: "fibers s2 f = Some x" "state x \<noteq> Dead" by (auto simp: live_def)
    have "state_ok s2 f x" using inv_exD(4) [OF i2(1)] x(1) by (simp add: states_ok_def)
    then consider "state x = Ready" "frames x = []" | "state x = Running" "frames x \<noteq> []" using x(2) i2(2) by (auto simp: state_ok_def)
    then show ?thesis
    proof cases
      case 1
      have "serves s2 (set_fiber f (\<lambda>x. x\<lparr>state := Running\<rparr>) (s2\<lparr>run_queue := rest, this_fiber := Some f\<rparr>))"
        using 1 x by (intro serves_same) (auto simp: parked_in_def fun_eq_iff)
      then show ?thesis using serves_served [OF _ k2] r Cons x 1 i2(2) by (simp add: RunFiber_def Let_def)
    next
      case 2
      then obtain site ks where "frames x = site # ks" by (cases "frames x") auto
      then show ?thesis
        using served_resume [OF i2 Cons x(1) _ k2] r Cons x i2(2) 2 by (simp add: RunFiber_def Let_def) (metis snd_conv)
    qed
  qed
qed

lemma served_Unlock:
  assumes i: "inv s" and k: "served s k"
  shows "served (Mutex_Unlock m s) k"
proof (cases "mutex_locked s m")
  case True
  let ?s = "s\<lparr>mutex_locked := (mutex_locked s)(m := False)\<rparr>"
  have "served (NotifyOne (Lockers m) ?s) k"
  proof (cases "k = m")
    case True
    then show ?thesis using NotifyOne_served [of ?s m] i by simp
  next
    case False
    then have "served ?s k" using k by (simp add: served_def)
    then show ?thesis by (rule serves_served [OF serves_NotifyOne])
  qed
  then show ?thesis using True by (simp add: Mutex_Unlock_def)
qed (use k in \<open>simp add: Mutex_Unlock_def served_def\<close>)

fun is_site :: "frame \<Rightarrow> bool" where
  "is_site (KLock _) = False" | "is_site (KGuardLock _) = False" | "is_site (KCondWait _ _) = False"
| "is_site (KCondLock _) = False" | "is_site (KFiberDtor _ _) = False" | "is_site (KGroupDtor _ _) = False"
| "is_site (KWaitGroup _) = False" | "is_site _ = True"

lemma served_Park:
  assumes np: "\<not> (\<exists>c. parked_in s f c)" and x: "fibers s f = Some x" and k: "served s k"
    and w: "\<And>q. site = InWait q \<Longrightarrow> \<not> wakeup s f" and site: "is_site site" and ks: "interrupted x \<Longrightarrow> kont_ok ks"
  shows "served (snd (Park f site ks s)) k"
proof (cases "interrupted x")
  case False
  then show ?thesis
    using serves_served [OF serves_suspend [OF np] k] Park_check_None [OF x False] by (simp add: Park_def)
next
  case True
  obtain e s' where c: "Park_check f site s = (Some e, s')" using Park_check_Some [OF x True, of site] by metis
  have "served s' k" by (rule served_check [OF c k])
  then have "served (leave f (Threw e) site s') k"
    using served_leave_unwoken [of s' f k "Threw e" site] w Park_check_keeps(1) [OF c] by (cases site) (auto simp: served_def)
  then have "served (snd (unwind f (Threw e) ks (leave f (Threw e) site s'))) k" using served_throw ks [OF True] by blast
  moreover have "unwind f (Threw e) (site # ks) s' = unwind f (Threw e) ks (leave f (Threw e) site s')"
    using site by (cases site) (simp_all add: unwind.simps(2))
  ultimately show ?thesis using c by (simp add: Park_def)
qed

lemma served_park_in_slot:
  assumes np: "\<not> (\<exists>c. parked_in s f c)" and x: "fibers s f = Some x" and k: "served s k"
    and site: "is_site site" "\<And>q. site \<noteq> InWait q" and ks: "interrupted x \<Longrightarrow> kont_ok ks"
  shows "served (snd (park_in_slot f c site ks s)) k"
proof -
  let ?s = "s\<lparr>slots := (slots s)(c \<mapsto> f)\<rparr>"
  have "served ?s k" by (rule serves_served [OF serves_fields k]) simp_all
  then have "served (snd (Park f site ks ?s)) k" using np x site ks by (intro served_Park) auto
  then show ?thesis using serves_served [OF serves_fields k, of "s\<lparr>fault := True\<rparr>"] by (simp add: park_in_slot_def)
qed

lemma serves_new_fiber: "fibers s y = None \<Longrightarrow> serves s (new_fiber y s)"
proof -
  assume y: "fibers s y = None"
  have "serves s (s\<lparr>fibers := (fibers s)(y \<mapsto> FiberImpl_init)\<rparr>)"
    using y by (intro serves_same) (auto simp: parked_in_def FiberImpl_init_def fun_eq_iff)
  then show ?thesis unfolding new_fiber_def using serves_trans serves_Unpark by blast
qed

lemma serves_DoSpawn: "fibers s y = None \<Longrightarrow> serves s (DoSpawn g y s)"
proof (cases "groups s g")
  case None
  then show ?thesis by (simp add: DoSpawn_def serves_fields)
next
  case (Some G)
  assume y: "fibers s y = None"
  have "serves (new_fiber y s) (DoSpawn g y s)"
    using Some by (intro serves_same) (auto simp: DoSpawn_def Let_def parked_in_def fun_eq_iff)
  then show ?thesis using serves_trans [OF serves_new_fiber [OF y]] by blast
qed

text \<open>Parking under a \<open>FiberCancelGuard\<close>, after other fibers have been canceled.\<close>

lemma served_guarded_park:
  assumes np: "\<not> (\<exists>c. parked_in s f c)" and x: "fibers s f = Some x" and s1: "serves s s1" and fs: "live s1 f" "\<not> (\<exists>c. parked_in s1 f c)"
    and k: "served s k" and site: "is_site site" "\<And>q. site \<noteq> InWait q"
  shows "served (snd (park_in_slot f c site ks (cancel_guard f s1))) k"
proof -
  have "serves s1 (cancel_guard f s1)" unfolding cancel_guard_def by (rule serves_flags) simp
  then have "served (cancel_guard f s1) k" using serves_served [OF serves_trans [OF s1] k] by blast
  moreover obtain y where y: "fibers s1 f = Some y" using fs(1) by (auto simp: live_def)
  then have "fibers (cancel_guard f s1) f = Some (y\<lparr>cancel_guarded := True\<rparr>)" by (simp add: cancel_guard_def)
  moreover have "\<not> (\<exists>c. parked_in (cancel_guard f s1) f c)"
    using fs(2) y by (simp add: parked_in_def cancel_guard_def)
  ultimately show ?thesis using site by (intro served_park_in_slot) (auto simp: interrupted_def)
qed

lemma Cancel_parked: "parked_in (Cancel y s) = parked_in s" "parked_in (fold Cancel ys s) = parked_in s" "live (fold Cancel ys s) = live s"
proof -
  have one: "parked_in (Cancel y s) = parked_in s" for y s
    using keeps_shape_views(2) [of "\<lambda>x. x\<lparr>canceled := True\<rparr>" y s] by (auto simp: Cancel_def Let_def split: option.split)
  then show "parked_in (Cancel y s) = parked_in s" "parked_in (fold Cancel ys s) = parked_in s"
    by (simp, induction ys arbitrary: s) simp_all
  show "live (fold Cancel ys s) = live s" by (induction ys arbitrary: s) (simp_all add: Cancel_views)
qed

lemma served_exec:
  assumes i: "inv s" and f: "this_fiber s = Some f" and ok: "allowed f c s" and k: "served s k"
  shows "served (snd (exec f c s)) k"
proof -
  have np: "\<not> (\<exists>c. parked_in s f c)" using parked_running [OF i f] by blast
  obtain x where x: "fibers s f = Some x" using running_fiber [OF inv_exD(4) [OF i] f] by blast
  have lf: "live s f" using inv_exD(4) [OF i] f by (simp add: states_ok_def)
  have same: "served s' k" if "queues s' = queues s" "mutex_locked s' = mutex_locked s" "wakeup s' = wakeup s" "fibers s' = fibers s" for s'
    by (rule serves_served [OF serves_fields [OF that] k])
  have sleep: "served (snd (SleepUntil f t d s)) k" for t d
  proof -
    let ?s = "s\<lparr>timers := Activate (timers s) t d, owner := (owner s)(t \<mapsto> SleepTimer f)\<rparr>"
    have "served (snd (Park f (InSleep t) [] ?s)) k" using np x same [of ?s] by (intro served_Park) auto
    then show ?thesis by (simp add: SleepUntil_def)
  qed
  have guard_same: "served s' k" if "served r k" "queues s' = queues r" "mutex_locked s' = mutex_locked r" "wakeup s' = wakeup r"
    "fibers s' = fibers r" for r s'
    by (rule serves_served [OF serves_fields [OF that(2-5)] that(1)])
  have unlock: "served (MutexGuard_Unlock g s) k" for g
    unfolding MutexGuard_Unlock_def using served_Unlock [OF i k] by simp
  show ?thesis
  proof (cases c)
    case CYield
    have "served (snd (Park f InYield [] (Unpark f s))) k"
      using np x serves_served [OF serves_Unpark k] by (intro served_Park) auto
    then show ?thesis using CYield by (simp add: Yield_def)
  next
    case (CSleepUntil t d)
    then show ?thesis using sleep by simp
  next
    case (CSleepFor t d)
    then show ?thesis using sleep by simp
  next
    case (CWait q)
    have "served (snd (Park f (InWait (BareQueue q)) [] (enqueue_waiter f (BareQueue q) s))) k"
      using np x served_enqueue [OF k np, of "BareQueue q"] by (intro served_Park) (auto simp: enqueue_waiter_def)
    then show ?thesis using CWait by (simp add: WaitQueue_Wait_def)
  next
    case (CLock m)
    then show ?thesis using served_lock [OF i f, of m "[]" k] k by (simp add: Mutex_Lock_def)
  next
    case (CUnlock m)
    then show ?thesis using served_Unlock [OF i k] by simp
  next
    case (CGuard g m)
    let ?s = "s\<lparr>guard_mutex := (guard_mutex s)(g := m), guard_locked := (guard_locked s)(g := False)\<rparr>"
    have "inv ?s" "this_fiber ?s = Some f" using i f by simp_all
    then show ?thesis
      using served_lock [of ?s f m "[KGuardLock g]" k] k CGuard by (simp add: MutexGuard_init_def MutexGuard_Lock_def Mutex_Lock_def)
  next
    case (CGuardLock g)
    then show ?thesis
      using served_lock [OF i f, of "guard_mutex s g" "[KGuardLock g]" k] k by (simp add: MutexGuard_Lock_def Mutex_Lock_def)
  next
    case (CGuardUnlock g)
    then show ?thesis using unlock by simp
  next
    case (CGuardDestroy g)
    then show ?thesis using unlock k by (simp add: MutexGuard_dtor_def)
  next
    case (CCondWait d g)
    let ?s = "MutexGuard_Unlock g s"
    have fs: "fibers ?s = fibers s" by (simp add: MutexGuard_Unlock_def Mutex_Unlock_def)
    then have np': "\<not> (\<exists>c. parked_in ?s f c)" using np by (simp add: parked_in_def)
    have "served (snd (Park f (InWait (CondWaiters d)) [KCondWait d g] (enqueue_waiter f (CondWaiters d) ?s))) k"
      using np' x fs served_enqueue [OF unlock np', of "CondWaiters d"] by (intro served_Park) (auto simp: enqueue_waiter_def)
    then show ?thesis using CCondWait by (simp add: CondVar_Wait_def WaitQueue_Wait_def)
  next
    case (CNewFiber y)
    then show ?thesis using serves_served [OF serves_new_fiber k] ok by simp
  next
    case (CDestroyFiber y)
    then obtain Y where Y: "fibers s y = Some Y" using ok by (auto split: option.splits)
    show ?thesis
    proof (cases "state Y = Dead")
      case True
      then have "frames Y = []" using inv_exD(4) [OF i] Y by (auto simp: states_ok_def state_ok_def)
      then have "served (delete_fiber y s) k" using serves_served [OF serves_delete k] Y by (auto simp: parked_in_def)
      then show ?thesis using CDestroyFiber Y True by (simp add: Fiber_dtor_def)
    next
      case False
      have "served (snd (park_in_slot f (Fiber_waiter y) (InJoin y) [KFiberDtor y (guarded f s)] (cancel_guard f (Cancel y s)))) k"
        using np lf by (intro served_guarded_park [OF np x serves_interrupt(1) _ _ k]) (auto simp: Cancel_parked Cancel_views)
      then show ?thesis using CDestroyFiber Y False by (simp add: Fiber_dtor_def Let_def)
    qed
  next
    case (CSpawn g y)
    then show ?thesis using serves_served [OF serves_DoSpawn k] ok by simp
  next
    case (CDestroyGroup g)
    then obtain G where G: "groups s g = Some G" using ok by (auto split: option.splits)
    have "served (snd (park_in_slot f (Group_joiner g) (InGroup g) [KGroupDtor g (guarded f s)] (cancel_guard f (fold Cancel (members G) s)))) k"
      using np lf by (intro served_guarded_park [OF np x serves_fold_Cancel _ _ k]) (auto simp: Cancel_parked)
    then show ?thesis using CDestroyGroup G same by (simp add: Group_dtor_def Let_def)
  next
    case (CWaitGroup g)
    then show ?thesis
      using served_park_in_slot [OF np x k, of "InWaitGroup g" "[KWaitGroup g]"] k same
      by (simp add: WaitGroup_Wait_def split: option.split)
  next
    case (CWatchReset w)
    then obtain d where d: "watchers s w = Open d" using ok by (auto split: FDWatcher.splits)
    let ?s = "wake_slot (FD_reader d) (wake_slot (FD_writer d) s)"
    have "served ?s k" by (rule serves_served [OF serves_trans [OF serves_wake_slot serves_wake_slot] k])
    then have "served (FDWatcher_Reset w s) k" using d guard_same by (simp add: FDWatcher_Reset_def FreeDesc_def)
    then show ?thesis using CWatchReset by simp
  next
    case (CWatchWait w b)
    then show ?thesis
      using served_park_in_slot [OF np x k] same by (simp add: FDWatcher_Wait_def split: FDWatcher.split)
  next
    case (CWatch w d b)
    then show ?thesis
      using same by (auto simp: FDWatcher_Init_def NewDesc_def FreeDesc_def split: list.split)
  next
    case (CCancelGuard b)
    then show ?thesis using serves_served [OF serves_flags k] by simp
  qed (use k same serves_served [OF serves_NotifyOne k] serves_served [OF serves_NotifyAll k] in
      \<open>simp_all add: TimeoutGuard_init_def TimeoutGuard_dtor_def\<close>)
qed

lemma serves_groups: "serves r (r\<lparr>groups := K\<rparr>)"
  by (rule serves_fields) simp_all

lemma serves_Group_OnFinished: "serves r (Group_OnFinished g f r)"
  using serves_trans [OF serves_groups serves_unpark_slot] serves_groups
  by (simp add: Group_OnFinished_def Let_def serves_fields split: option.split)

lemma serves_OnFinished: "serves r (OnFinished g f e r)"
proof -
  have "serves r (WaitGroup_OnFinished g f e r)"
  proof (cases "groups r g")
    case (Some G)
    define r1 where "r1 = (if first_error G = None \<and> e \<noteq> None
      then unpark_slot (WaitGroup_waiter g) (r\<lparr>groups := (groups r)(g \<mapsto> G\<lparr>first_error := e\<rparr>)\<rparr>) else r)"
    have "serves r r1" unfolding r1_def using serves_trans [OF serves_groups serves_unpark_slot] by simp
    then have "serves r (Group_OnFinished g f r1)" using serves_trans serves_Group_OnFinished by blast
    then have "serves r (unpark_slot (WaitGroup_waiter g) (Group_OnFinished g f r1))" "serves r (Group_OnFinished g f r1)"
      using serves_trans serves_unpark_slot by blast+
    then show ?thesis using Some unfolding WaitGroup_OnFinished_def r1_def by (simp add: Let_def)
  qed (simp add: WaitGroup_OnFinished_def serves_fields)
  then show ?thesis using serves_Group_OnFinished by (simp add: OnFinished_def)
qed

lemma fibers_OnFinished [simp]: "fibers (OnFinished g f e r) = fibers r"
proof -
  have "fibers (Group_OnFinished g f r) = fibers r" for r
    by (simp add: Group_OnFinished_def Let_def unpark_slot_def split: option.split)
  then show ?thesis by (auto simp: OnFinished_def WaitGroup_OnFinished_def Let_def unpark_slot_def split: option.split)
qed

lemma served_end:
  assumes i: "inv s" and f: "this_fiber s = Some f" and res: "Run_end f out s = Some s'" and k: "served s k"
  shows "served s' k"
proof -
  have np: "\<not> (\<exists>c. parked_in s f c)" using parked_running [OF i f] by blast
  obtain x where x: "fibers s f = Some x" "frames x = []" using running_fiber [OF inv_exD(4) [OF i] f] by blast
  obtain ex where ex: "Run_handlers (group x) out = Some ex" using res x by (auto simp: Run_end_def split: option.splits)
  define s1 where "s1 = set_fiber f (\<lambda>x. x\<lparr>error := ex, state := Dead\<rparr>) s"
  define s2 where "s2 = (unpark_slot (Fiber_waiter f) s1)\<lparr>this_fiber := None\<rparr>"
  have "serves s s1" using x by (intro serves_same) (auto simp: s1_def parked_in_def fun_eq_iff)
  moreover have "serves (unpark_slot (Fiber_waiter f) s1) s2" unfolding s2_def by (rule serves_fields) simp_all
  ultimately have s2: "serves s s2" using serves_trans [OF serves_trans [OF _ serves_unpark_slot]] by blast
  have fs2: "fibers s2 f = Some (x\<lparr>error := ex, state := Dead\<rparr>)" using x by (simp add: s2_def s1_def unpark_slot_def split: option.split)
  have s': "s' = Cleanup f s2" using res x ex by (simp add: Run_end_def Let_def s1_def s2_def)
  show ?thesis
  proof (cases "group x")
    case None
    then show ?thesis using s' fs2 serves_served [OF s2 k] by (simp add: Cleanup_def)
  next
    case (Some g)
    have "\<not> (\<exists>c. parked_in (OnFinished g f ex s2) f c)" using fs2 x(2) by (simp add: parked_in_def)
    then have "served (delete_fiber f (OnFinished g f ex s2)) k"
      using serves_served [OF serves_trans [OF serves_trans [OF s2 serves_OnFinished] serves_delete] k] by blast
    then show ?thesis using s' fs2 Some by (simp add: Cleanup_def)
  qed
qed

lemma served_step: "sched_step s s' \<Longrightarrow> inv s \<Longrightarrow> served s k \<Longrightarrow> served s' k"
proof (induction rule: sched_step.induct)
  case (call s f c st s')
  then show ?case using served_exec [of s f c k] by simp
next
  case (fiber_end s f out s')
  then show ?case using served_end [of s f out s' k] by blast
next
  case (loop_turn s clock events later_events st s')
  then show ?case using served_turn [of s clock events later_events st s' k] by blast
qed

interpretation mutexes: step_system sched_step "\<lambda>s. inv s \<and> (\<forall>m. served s m)"
  by unfold_locales (use sched_step_inv served_step in blast)

lemma start_served: "served (Scheduler_start main t0) m"
  by (simp add: Scheduler_start_def new_fiber_def Unpark_def served_def)

section \<open>Sample runs\<close>

text \<open>Runs given as lists of turns and calls, for examples.\<close>

datatype action = Turn time_point | Call call

fun plain_call :: "call \<Rightarrow> Scheduler \<Rightarrow> bool" where
  "plain_call (CNewFiber x) s \<longleftrightarrow> fibers s x = None"
| "plain_call (CUnlock m) s \<longleftrightarrow> mutex_locked s m"
| "plain_call CYield s \<longleftrightarrow> True"
| "plain_call (CLock m) s \<longleftrightarrow> True"
| "plain_call _ s \<longleftrightarrow> False"

lemma plain_allowed: "plain_call c s \<Longrightarrow> allowed f c s"
  by (cases c) auto

definition main_runs :: "Scheduler \<Rightarrow> bool" where
  "main_runs s \<longleftrightarrow> (case fibers s (main_fiber s) of None \<Rightarrow> False | Some x \<Rightarrow> state x \<noteq> Dead)"

fun play :: "action list \<Rightarrow> Scheduler \<Rightarrow> Scheduler option" where
  "play [] s = Some s"
| "play (Turn clock # as) s =
    (if this_fiber s = None \<and> main_runs s \<and> now s \<le> clock then play as (snd (RunLoop_turn [] clock [] s)) else None)"
| "play (Call c # as) s =
    (case this_fiber s of None \<Rightarrow> None | Some f \<Rightarrow> if plain_call c s then play as (snd (exec f c s)) else None)"

lemma play_reachable: "play as s = Some s' \<Longrightarrow> sched_step\<^sup>*\<^sup>* s s'"
proof (induction as s rule: play.induct)
  case (2 clock as s)
  then have c: "this_fiber s = None" "main_runs s" "now s \<le> clock" "play as (snd (RunLoop_turn [] clock [] s)) = Some s'"
    by (auto split: if_splits)
  have "\<exists>x. fibers s (main_fiber s) = Some x \<and> state x \<noteq> Dead" using c(2) by (auto simp: main_runs_def split: option.splits)
  then have "sched_step s (snd (RunLoop_turn [] clock [] s))"
    using loop_turn [OF c(1) _ _ prod.collapse [symmetric]] c(3) by blast
  then show ?case using 2(1) c by (simp add: converse_rtranclp_into_rtranclp)
next
  case (3 c as s)
  then obtain f where f: "this_fiber s = Some f" "plain_call c s" "play as (snd (exec f c s)) = Some s'"
    by (auto split: option.splits if_splits)
  then have "sched_step s (snd (exec f c s))"
    using call [OF f(1) plain_allowed [OF f(2)] prod.collapse [symmetric]] by blast
  then show ?case using 3(1) f by (simp add: converse_rtranclp_into_rtranclp)
qed simp

text \<open>Two fibers wait for the mutex that the main fiber holds and then releases.\<close>

definition contention :: "action list" where
  "contention =
    [Turn 1, Call (CNewFiber 1), Call (CNewFiber 2), Call (CLock 7), Call CYield,
     Turn 2, Call (CLock 7), Turn 3, Call (CLock 7), Turn 4, Call (CUnlock 7)]"

lemma contention_plays: "\<not> Option.is_none (play contention (Scheduler_start 0 0))"
  by code_simp

definition contended :: Scheduler where
  "contended = the (play contention (Scheduler_start 0 0))"

lemma contended_reachable: "sched_step\<^sup>*\<^sup>* (Scheduler_start 0 0) contended"
  using contention_plays by (intro play_reachable) (simp add: contended_def Option.is_none_def)

section \<open>Properties\<close>





text \<open>
  C3: A mutex loses no wake-up: when it is unlocked and fibers still wait for it, one fiber has been
  woken and is in the run queue to try again, even if the fiber woken first was canceled or timed out
  before it ran.
\<close>
theorem mutex_no_lost_wakeup:
  assumes "sched_step\<^sup>*\<^sup>* (Scheduler_start main t0) s"
    and "queues s (Lockers m) \<noteq> []" "\<not> mutex_locked s m"
  shows "\<exists>f. parked_in s f (InWait (Lockers m)) \<and> wakeup s f \<and> f \<in> set (run_queue s)"
proof -
  have s: "inv s" "served s m"
    using mutexes.reachable_keeps [OF assms(1)] start_state_inv start_served by blast+
  then obtain f where f: "parked_in s f (InWait (Lockers m))" "wakeup s f" using assms(2,3) by (auto simp: served_def)
  then obtain x ks where x: "fibers s f = Some x" "frames x = InWait (Lockers m) # ks" by (auto simp: parked_in_def)
  have "live s f" "this_fiber s \<noteq> Some f" using parked_live [OF inv_exD(4) [OF s(1)] f(1)] by auto
  then have "f \<in> set (run_queue s) \<longleftrightarrow> ready s f x"
    using inv_exD(2) [OF s(1)] x(1) by (auto simp: ready_ok_def live_def)
  then show ?thesis using f x by (auto simp: ready_def)
qed

theorem mutex_no_lost_wakeup_witness:
  "\<exists>f. parked_in contended f (InWait (Lockers 7)) \<and> wakeup contended f \<and> f \<in> set (run_queue contended)"
proof -
  have "queues contended (Lockers 7) \<noteq> []" "\<not> mutex_locked contended 7" by code_simp+
  then show ?thesis by (rule mutex_no_lost_wakeup [OF contended_reachable])
qed

text \<open>
  The run queue is first-in first-out: a turn of the loop takes the first fiber, and every step adds
  fibers only behind those already there.  A fiber at position \<open>n\<close> runs in the \<open>n\<close>-th turn from now.
\<close>
theorem run_queue_fifo:
  assumes "sched_step\<^sup>*\<^sup>* (Scheduler_start main t0) s" and "sched_step s s'"
  shows "if this_fiber s = None then run_queue s \<noteq> [] \<longrightarrow> (\<exists>c. run_queue s' = tl (run_queue s) @ c)
    else \<exists>c. run_queue s' = run_queue s @ c"
proof -
  have i: "inv s" by (rule sched_reachable_inv [OF assms(1)])
  from assms(2) show ?thesis
  proof cases
    case (call f c st)
    have "f \<notin> set (run_queue s)" by (rule running_unregistered(1) [OF i call(1)])
    then show ?thesis using prefixed_exec [OF _ prefixed_refl, of f s c] call by (simp add: prefixed_def)
  next
    case (fiber_end f out)
    then show ?thesis using prefixed_Run_end [OF prefixed_refl fiber_end(3)] by (simp add: prefixed_def)
  next
    case (loop_turn clock events later_events st)
    then show ?thesis
      using RunLoop_turn_queue [OF i loop_turn(1) _ loop_turn(4)] by (cases "run_queue s") (auto simp: prefixed_def)
  qed
qed

theorem run_queue_fifo_witness: "\<exists>c. run_queue (snd (RunLoop_turn [] 1 [] (Scheduler_start 0 0))) = [] @ c"
proof -
  let ?s = "Scheduler_start 0 0"
  have s: "this_fiber ?s = None" "main_fiber ?s = 0" "fibers ?s 0 = Some FiberImpl_init" "now ?s = 0" "run_queue ?s = [0]"
    by (simp_all add: Scheduler_start_def new_fiber_def Unpark_def FiberImpl_init_def)
  have "sched_step ?s (snd (RunLoop_turn [] 1 [] ?s))"
    by (rule loop_turn [OF s(1) _ _ prod.collapse [symmetric]]) (use s in \<open>simp_all add: FiberImpl_init_def\<close>)
  from run_queue_fifo [OF rtranclp.rtrancl_refl this] show ?thesis using s by simp
qed

end
