(* ===== verification/Sync_Map.thy ===== *)
theory Sync_Map
  imports Prelude
begin

text \<open>
  \<open>sync-map/sync_map.h\<close>: a map for frequent lookups and rare insertions.  A published snapshot is
  immutable and read without the lock; insertions go to a second map under the mutex, which replaces
  the snapshot after fifteen locked lookups.  An operation is at most two steps: the read of the
  snapshot (the validated load of \<open>Acquire\<close>, see \<open>hazard-ptr\<close>), after which it returns or goes on
  to its critical section.  Between the two steps other threads may run.

  \<open>two_phase_map\<close> is the interface of such a map, and its lemma \<open>linearizable\<close> says that every
  interleaving is equivalent to a sequence of atomic operations; \<open>SyncMap\<close> is its instance.
\<close>

section \<open>The map\<close>

record ('k, 'v) Snapshot =
  read_only :: "'k \<rightharpoonup> 'v"
  dirty :: bool

record ('k, 'v) SyncMap =
  snapshot :: "('k, 'v) Snapshot"
  mutable_map :: "('k \<rightharpoonup> 'v) option"
  operation_count :: nat

definition kMaxOperationsCnt :: nat where "kMaxOperationsCnt = 15"

definition SyncMap_init :: "('k, 'v) SyncMap" where
  "SyncMap_init =
    \<lparr>snapshot = \<lparr>read_only = Map.empty, dirty = False\<rparr>, mutable_map = None, operation_count = 0\<rparr>"

datatype 'r fast_result = Return 'r | TakeLock

text \<open>\<open>Lookup\<close> returns whether it found the key and stores the value: here an option.\<close>

definition Lookup_snapshot :: "('k, 'v) SyncMap \<Rightarrow> 'k \<Rightarrow> 'v option fast_result" where
  "Lookup_snapshot m key =
    (case read_only (snapshot m) key of
       Some v \<Rightarrow> Return (Some v)
     | None \<Rightarrow> if \<not> dirty (snapshot m) then Return None else TakeLock)"

definition publish :: "('k, 'v) SyncMap \<Rightarrow> ('k \<rightharpoonup> 'v) \<Rightarrow> ('k, 'v) SyncMap" where
  "publish m mm =
    m\<lparr>snapshot := \<lparr>read_only = read_only (snapshot m) ++ mm, dirty = False\<rparr>,
      mutable_map := None, operation_count := 0\<rparr>"

definition Lookup_locked :: "('k, 'v) SyncMap \<Rightarrow> 'k \<Rightarrow> 'v option \<times> ('k, 'v) SyncMap" where
  "Lookup_locked m key =
    (case read_only (snapshot m) key of
       Some v \<Rightarrow> (Some v, m)
     | None \<Rightarrow>
         (case mutable_map m of
            None \<Rightarrow> (None, m)
          | Some mm \<Rightarrow>
              let found = mm key;
                  m = m\<lparr>operation_count := operation_count m + 1\<rparr>
              in if operation_count m = kMaxOperationsCnt then (found, publish m mm) else (found, m)))"

definition Insert_snapshot :: "('k, 'v) SyncMap \<Rightarrow> 'k \<Rightarrow> bool fast_result" where
  "Insert_snapshot m key =
    (if read_only (snapshot m) key \<noteq> None then Return False else TakeLock)"

definition Insert_locked :: "('k, 'v) SyncMap \<Rightarrow> 'k \<Rightarrow> 'v \<Rightarrow> bool \<times> ('k, 'v) SyncMap" where
  "Insert_locked m key value =
    (if read_only (snapshot m) key \<noteq> None then (False, m)
     else
       case mutable_map m of
         None \<Rightarrow>
           (True, m\<lparr>mutable_map := Some [key \<mapsto> value],
                    snapshot := \<lparr>read_only = read_only (snapshot m), dirty = True\<rparr>\<rparr>)
       | Some mm \<Rightarrow>
           if mm key = None
           then (True, m\<lparr>mutable_map := Some (mm(key \<mapsto> value)), operation_count := 0\<rparr>)
           else (False, m))"

section \<open>Operations and their specification\<close>

datatype ('k, 'v) operation = LookupOp 'k | InsertOp 'k 'v
datatype 'v response = Found "'v option" | Inserted bool

fun spec :: "('k, 'v) operation \<Rightarrow> ('k \<rightharpoonup> 'v) \<Rightarrow> 'v response \<times> ('k \<rightharpoonup> 'v)" where
  "spec (LookupOp k) A = (Found (A k), A)"
| "spec (InsertOp k v) A = (if A k = None then (Inserted True, A(k \<mapsto> v)) else (Inserted False, A))"

fun map_fast :: "('a \<Rightarrow> 'b) \<Rightarrow> 'a fast_result \<Rightarrow> 'b fast_result" where
  "map_fast f (Return r) = Return (f r)"
| "map_fast f TakeLock = TakeLock"

fun SyncMap_fast :: "('k, 'v) SyncMap \<Rightarrow> ('k, 'v) operation \<Rightarrow> 'v response fast_result" where
  "SyncMap_fast m (LookupOp k) = map_fast Found (Lookup_snapshot m k)"
| "SyncMap_fast m (InsertOp k v) = map_fast Inserted (Insert_snapshot m k)"

fun SyncMap_locked :: "('k, 'v) SyncMap \<Rightarrow> ('k, 'v) operation \<Rightarrow> 'v response \<times> ('k, 'v) SyncMap" where
  "SyncMap_locked m (LookupOp k) = (let (r, m) = Lookup_locked m k in (Found r, m))"
| "SyncMap_locked m (InsertOp k v) = (let (r, m) = Insert_locked m k v in (Inserted r, m))"

text \<open>Replaying a history on the specification: every recorded response is the specified one.\<close>

fun replay :: "('k \<rightharpoonup> 'v) \<Rightarrow> (('k, 'v) operation \<times> 'v response) list \<Rightarrow> ('k \<rightharpoonup> 'v) option" where
  "replay A [] = Some A"
| "replay A ((c, r) # h) = (if fst (spec c A) = r then replay (snd (spec c A)) h else None)"

lemma replay_append: "replay A (h @ h') = Option.bind (replay A h) (\<lambda>B. replay B h')"
  by (induction h arbitrary: A) auto

section \<open>Two-phase maps\<close>

text \<open>
  The threads of a program over a two-phase map: \<open>waiting\<close> are the calls that have read the snapshot
  and still need the lock; \<open>history\<close> lists the operations in the order they took effect.
\<close>

record ('m, 'k, 'v) threads_state =
  shared :: 'm
  waiting :: "nat \<rightharpoonup> ('k, 'v) operation"
  history :: "(('k, 'v) operation \<times> 'v response) list"

inductive two_phase_step ::
  "('m \<Rightarrow> ('k, 'v) operation \<Rightarrow> 'v response fast_result) \<Rightarrow>
   ('m \<Rightarrow> ('k, 'v) operation \<Rightarrow> 'v response \<times> 'm) \<Rightarrow>
   ('m, 'k, 'v) threads_state \<Rightarrow> ('m, 'k, 'v) threads_state \<Rightarrow> bool"
  for fast locked where
  fast_return:
    "waiting s t = None \<Longrightarrow> fast (shared s) c = Return r \<Longrightarrow>
     two_phase_step fast locked s (s\<lparr>history := history s @ [(c, r)]\<rparr>)"
| fast_wait:
    "waiting s t = None \<Longrightarrow> fast (shared s) c = TakeLock \<Longrightarrow>
     two_phase_step fast locked s (s\<lparr>waiting := (waiting s)(t \<mapsto> c)\<rparr>)"
| locked_return:
    "waiting s t = Some c \<Longrightarrow> locked (shared s) c = (r, m) \<Longrightarrow>
     two_phase_step fast locked s
       (s\<lparr>shared := m, waiting := (waiting s)(t := None), history := history s @ [(c, r)]\<rparr>)"

locale two_phase_map =
  fixes inv :: "'m \<Rightarrow> bool"
    and model :: "'m \<Rightarrow> 'k \<rightharpoonup> 'v"
    and fast :: "'m \<Rightarrow> ('k, 'v) operation \<Rightarrow> 'v response fast_result"
    and locked :: "'m \<Rightarrow> ('k, 'v) operation \<Rightarrow> 'v response \<times> 'm"
  assumes fast_ok: "inv m \<Longrightarrow> fast m c = Return r \<Longrightarrow> spec c (model m) = (r, model m)"
    and locked_ok: "inv m \<Longrightarrow> locked m c = (r, m') \<Longrightarrow> inv m' \<and> spec c (model m) = (r, model m')"
begin

lemma step_linearizes:
  assumes "two_phase_step fast locked s s'" "inv (shared s)" "replay A (history s) = Some (model (shared s))"
  shows "inv (shared s') \<and> replay A (history s') = Some (model (shared s'))"
  using assms
proof (induction rule: two_phase_step.induct)
  case (fast_return s t c r)
  then show ?case using fast_ok [of "shared s" c r] by (simp add: replay_append)
next
  case (locked_return s t c r m)
  then show ?case using locked_ok [of "shared s" c r m] by (simp add: replay_append)
qed simp

lemma linearizable:
  assumes "(two_phase_step fast locked)\<^sup>*\<^sup>* s s'" "inv (shared s)" "history s = []"
  shows "replay (model (shared s)) (history s') = Some (model (shared s'))"
proof -
  have "inv (shared s') \<and> replay (model (shared s)) (history s') = Some (model (shared s'))"
    using assms(1)
  proof (induction rule: rtranclp_induct)
    case (step y z)
    then show ?case using step_linearizes [OF step(2)] by blast
  qed (simp add: assms(2,3))
  then show ?thesis by blast
qed

end

section \<open>The invariant of SyncMap\<close>

definition syncmap_inv :: "('k, 'v) SyncMap \<Rightarrow> bool" where
  "syncmap_inv m \<longleftrightarrow>
    (dirty (snapshot m) \<longleftrightarrow> mutable_map m \<noteq> None) \<and>
    (\<forall>mm. mutable_map m = Some mm \<longrightarrow> dom mm \<inter> dom (read_only (snapshot m)) = {}) \<and>
    operation_count m < kMaxOperationsCnt"

definition syncmap_model :: "('k, 'v) SyncMap \<Rightarrow> 'k \<rightharpoonup> 'v" where
  "syncmap_model m =
    read_only (snapshot m) ++ (case mutable_map m of Some mm \<Rightarrow> mm | None \<Rightarrow> Map.empty)"

lemma model_read_only:
  assumes "syncmap_inv m" "read_only (snapshot m) k = Some v"
  shows "syncmap_model m k = Some v"
proof (cases "mutable_map m")
  case (Some mm)
  have "k \<notin> dom mm" using assms Some by (auto simp: syncmap_inv_def)
  then show ?thesis using assms(2) Some by (auto simp: syncmap_model_def map_add_def split: option.splits)
qed (use assms in \<open>simp add: syncmap_model_def\<close>)

lemma model_mutable:
  "read_only (snapshot m) k = None \<Longrightarrow>
   syncmap_model m k = (case mutable_map m of Some mm \<Rightarrow> mm k | None \<Rightarrow> None)"
  by (auto simp: syncmap_model_def map_add_def split: option.splits)

lemma Lookup_snapshot_ok:
  "syncmap_inv m \<Longrightarrow> Lookup_snapshot m k = Return r \<Longrightarrow> r = syncmap_model m k"
  using model_read_only [of m k] model_mutable [of m k]
  by (cases "read_only (snapshot m) k"; cases "mutable_map m")
    (auto simp: Lookup_snapshot_def syncmap_inv_def split: if_splits)

lemma publish_ok:
  "syncmap_inv m \<Longrightarrow> mutable_map m = Some mm \<Longrightarrow>
   syncmap_inv (publish m mm) \<and> syncmap_model (publish m mm) = syncmap_model m"
  by (simp add: publish_def syncmap_inv_def syncmap_model_def kMaxOperationsCnt_def)

lemma Lookup_locked_ok:
  assumes inv: "syncmap_inv m" and res: "Lookup_locked m k = (r, m')"
  shows "syncmap_inv m' \<and> syncmap_model m' = syncmap_model m \<and> r = syncmap_model m k"
proof (cases "read_only (snapshot m) k")
  case (Some v)
  then show ?thesis using assms model_read_only [OF inv Some] by (auto simp: Lookup_locked_def)
next
  case ro: None
  show ?thesis
  proof (cases "mutable_map m")
    case None
    then show ?thesis using ro assms by (simp add: Lookup_locked_def model_mutable)
  next
    case (Some mm)
    let ?m = "m\<lparr>operation_count := operation_count m + 1\<rparr>"
    have m': "m' = (if operation_count m + 1 = kMaxOperationsCnt then publish ?m mm else ?m)" "r = mm k"
      using res ro Some by (auto simp: Lookup_locked_def Let_def split: if_splits)
    have "publish (m\<lparr>operation_count := n\<rparr>) mm = publish m mm" for n by (simp add: publish_def)
    moreover have "syncmap_model ?m = syncmap_model m" by (simp add: syncmap_model_def)
    moreover have "operation_count m + 1 \<noteq> kMaxOperationsCnt \<Longrightarrow> syncmap_inv ?m" using inv by (auto simp: syncmap_inv_def)
    ultimately show ?thesis
      using publish_ok [OF inv Some] m' ro Some by (simp add: model_mutable)
  qed
qed

lemma Insert_snapshot_ok:
  "syncmap_inv m \<Longrightarrow> Insert_snapshot m k = Return r \<Longrightarrow> \<not> r \<and> syncmap_model m k \<noteq> None"
  by (auto simp: Insert_snapshot_def model_read_only split: if_splits)

lemma Insert_locked_ok:
  assumes inv: "syncmap_inv m" and res: "Insert_locked m k v = (r, m')"
  shows "syncmap_inv m' \<and> (r \<longleftrightarrow> syncmap_model m k = None) \<and>
    syncmap_model m' = (if syncmap_model m k = None then (syncmap_model m)(k \<mapsto> v) else syncmap_model m)"
proof (cases "read_only (snapshot m) k")
  case (Some x)
  then show ?thesis using assms model_read_only [OF inv Some] by (simp add: Insert_locked_def)
next
  case ro: None
  show ?thesis
  proof (cases "mutable_map m")
    case None
    have m': "r" "m' = m\<lparr>mutable_map := Some [k \<mapsto> v], snapshot := \<lparr>read_only = read_only (snapshot m), dirty = True\<rparr>\<rparr>"
      using res ro None by (auto simp: Insert_locked_def)
    have "syncmap_model m k = None" using ro None by (simp add: model_mutable)
    moreover have "syncmap_model m' = (syncmap_model m)(k \<mapsto> v)" by (simp add: m'(2) syncmap_model_def None)
    moreover have "syncmap_inv m'" using inv ro by (auto simp: m'(2) syncmap_inv_def)
    ultimately show ?thesis using m'(1) by simp
  next
    case (Some mm)
    then have "syncmap_model m k = mm k" using ro by (simp add: model_mutable)
    then show ?thesis
      using ro Some assms
      by (fastforce simp: Insert_locked_def syncmap_inv_def syncmap_model_def kMaxOperationsCnt_def split: if_splits)
  qed
qed

interpretation sync: two_phase_map syncmap_inv syncmap_model SyncMap_fast SyncMap_locked
proof
  fix m :: "('k, 'v) SyncMap" and c r m'
  assume inv: "syncmap_inv m"
  show "SyncMap_fast m c = Return r \<Longrightarrow> spec c (syncmap_model m) = (r, syncmap_model m)"
  proof (cases c)
    case (LookupOp k)
    then show "SyncMap_fast m c = Return r \<Longrightarrow> spec c (syncmap_model m) = (r, syncmap_model m)"
      using Lookup_snapshot_ok [OF inv, of k] by (cases "Lookup_snapshot m k") auto
  next
    case (InsertOp k v)
    then show "SyncMap_fast m c = Return r \<Longrightarrow> spec c (syncmap_model m) = (r, syncmap_model m)"
      using Insert_snapshot_ok [OF inv, of k] by (cases "Insert_snapshot m k") auto
  qed
  show "SyncMap_locked m c = (r, m') \<Longrightarrow> syncmap_inv m' \<and> spec c (syncmap_model m) = (r, syncmap_model m')"
  proof (cases c)
    case (LookupOp k)
    then show "SyncMap_locked m c = (r, m') \<Longrightarrow> syncmap_inv m' \<and> spec c (syncmap_model m) = (r, syncmap_model m')"
      using Lookup_locked_ok [OF inv, of k] by (cases "Lookup_locked m k") auto
  next
    case (InsertOp k v)
    then show "SyncMap_locked m c = (r, m') \<Longrightarrow> syncmap_inv m' \<and> spec c (syncmap_model m) = (r, syncmap_model m')"
      using Insert_locked_ok [OF inv, of k v] by (cases "Insert_locked m k v") auto
  qed
qed

lemma SyncMap_init_ok: "syncmap_inv SyncMap_init" "syncmap_model SyncMap_init = Map.empty"
  by (simp_all add: syncmap_inv_def SyncMap_init_def kMaxOperationsCnt_def syncmap_model_def)

section \<open>Properties\<close>

definition SyncMap_start :: "(('k, 'v) SyncMap, 'k, 'v) threads_state" where
  "SyncMap_start = \<lparr>shared = SyncMap_init, waiting = Map.empty, history = []\<rparr>"

text \<open>
  C16: \<open>SyncMap\<close> is linearizable: under every interleaving of its threads, lock-free reads of old
  snapshots included, the responses of all operations are those of an ordinary map on which the
  operations are applied one after the other, an insertion keeping the value already there.
\<close>
theorem SyncMap_linearizable:
  assumes "(two_phase_step SyncMap_fast SyncMap_locked)\<^sup>*\<^sup>* SyncMap_start s"
  shows "replay Map.empty (history s) = Some (syncmap_model (shared s))"
  using sync.linearizable [OF assms] by (simp add: SyncMap_start_def SyncMap_init_ok)

theorem SyncMap_linearizable_witness:
  "replay Map.empty [(LookupOp (1 :: nat), Found (None :: nat option))] = Some (Map.empty :: nat \<rightharpoonup> nat)"
proof -
  let ?s = "SyncMap_start :: ((nat, nat) SyncMap, nat, nat) threads_state"
  have "two_phase_step SyncMap_fast SyncMap_locked ?s (?s\<lparr>history := history ?s @ [(LookupOp 1, Found None)]\<rparr>)"
    by (rule fast_return [where t = 0]) (simp_all add: SyncMap_start_def SyncMap_init_def Lookup_snapshot_def)
  from SyncMap_linearizable [OF r_into_rtranclp [of "two_phase_step SyncMap_fast SyncMap_locked", OF this]]
  show ?thesis by (simp add: SyncMap_start_def SyncMap_init_ok)
qed

end
