(* ===== verification/Constexpr_Map.thy ===== *)
theory Constexpr_Map
  imports Prelude
begin

text \<open>
  \<open>constexpr-map/constexpr_map.h\<close> and \<open>sort.h\<close>: a map in a fixed array, in insertion order, and its
  bubble sort.  \<open>cells\<close> is the array of \<open>MaxSize\<close> pairs, of which the first \<open>size\<close> are in use.  The
  non-const \<open>operator[]\<close> returns a reference to a value: here the position of the cell, which
  \<open>assign\<close> writes.  \<open>entries\<close> is what the map stands for.

  Lemmas: every operation on \<open>entries\<close>; the sort is a sorted permutation, descending for integral
  keys and ascending otherwise.
\<close>

section \<open>The map\<close>

record ('k, 'v) ConstexprMap =
  cells :: "('k \<times> 'v) list"
  size_ref :: nat

definition ConstexprMap_init :: "nat \<Rightarrow> 'k \<Rightarrow> 'v \<Rightarrow> ('k, 'v) ConstexprMap" where
  "ConstexprMap_init MaxSize k0 v0 = \<lparr>cells = replicate MaxSize (k0, v0), size_ref = 0\<rparr>"

text \<open>The loop all operations start with: the first position in use that holds the key.\<close>

function find_key :: "('k, 'v) ConstexprMap \<Rightarrow> 'k \<Rightarrow> nat \<Rightarrow> nat option" where
  "find_key m key i =
    (if i < size_ref m then if fst (cells m ! i) = key then Some i else find_key m key (i + 1)
     else None)"
  by pat_completeness auto
termination by (relation "measure (\<lambda>(m, _, i). size_ref m - i)") auto

declare find_key.simps [simp del]

definition subscript ::
  "('k, 'v) ConstexprMap \<Rightarrow> 'k \<Rightarrow> (nat \<times> ('k, 'v) ConstexprMap) result" where
  "subscript m key =
    (case find_key m key 0 of
       Some i \<Rightarrow> Inr (i, m)
     | None \<Rightarrow>
         if size_ref m < length (cells m) then
           Inr (size_ref m,
             m\<lparr>cells := (cells m)[size_ref m := (key, snd (cells m ! size_ref m))],
               size_ref := size_ref m + 1\<rparr>)
         else Inl (RuntimeError ''Map is full''))"

definition assign :: "('k, 'v) ConstexprMap \<Rightarrow> nat \<Rightarrow> 'v \<Rightarrow> ('k, 'v) ConstexprMap" where
  "assign m i v = m\<lparr>cells := (cells m)[i := (fst (cells m ! i), v)]\<rparr>"

definition subscript_const :: "('k, 'v) ConstexprMap \<Rightarrow> 'k \<Rightarrow> 'v result" where
  "subscript_const m key =
    (case find_key m key 0 of
       Some i \<Rightarrow> Inr (snd (cells m ! i))
     | None \<Rightarrow> Inl (RuntimeError ''Key is missing''))"

function ShiftValues :: "nat \<Rightarrow> nat \<Rightarrow> ('k \<times> 'v) list \<Rightarrow> ('k \<times> 'v) list" where
  "ShiftValues i sz xs =
    (if i < sz then ShiftValues (i + 1) sz (xs[i - 1 := xs ! i]) else xs)"
  by pat_completeness auto
termination by (relation "measure (\<lambda>(i, sz, _). sz - i)") auto

declare ShiftValues.simps [simp del]

definition Erase :: "('k, 'v) ConstexprMap \<Rightarrow> 'k \<Rightarrow> bool \<times> ('k, 'v) ConstexprMap" where
  "Erase m key =
    (case find_key m key 0 of
       Some i \<Rightarrow>
         (True, m\<lparr>cells := ShiftValues (i + 1) (size_ref m) (cells m), size_ref := size_ref m - 1\<rparr>)
     | None \<Rightarrow> (False, m))"

definition Find :: "('k, 'v) ConstexprMap \<Rightarrow> 'k \<Rightarrow> bool" where
  "Find m key \<longleftrightarrow> find_key m key 0 \<noteq> None"

definition Size :: "('k, 'v) ConstexprMap \<Rightarrow> nat" where
  "Size m = size_ref m"

definition GetByIndex :: "('k, 'v) ConstexprMap \<Rightarrow> nat \<Rightarrow> ('k \<times> 'v) result" where
  "GetByIndex m pos =
    (if pos < size_ref m then Inr (cells m ! pos) else Inl (RuntimeError ''Wrong index''))"

section \<open>Sort (sort.h)\<close>

definition out_of_order :: "bool \<Rightarrow> ('k :: linorder) \<times> 'v \<Rightarrow> 'k \<times> 'v \<Rightarrow> bool" where
  "out_of_order ascending a b \<longleftrightarrow>
    (ascending \<and> fst a > fst b) \<or> (\<not> ascending \<and> fst a < fst b)"

function Sort_pass ::
  "bool \<Rightarrow> nat \<Rightarrow> nat \<Rightarrow> bool \<Rightarrow> (('k :: linorder) \<times> 'v) list \<Rightarrow> ('k \<times> 'v) list \<times> bool" where
  "Sort_pass ascending n j need_iter xs =
    (if j < n then
       if out_of_order ascending (xs ! j) (xs ! (j + 1))
       then Sort_pass ascending n (j + 1) True (list_swap xs j (j + 1))
       else Sort_pass ascending n (j + 1) need_iter xs
     else (xs, need_iter))"
  by pat_completeness auto
termination by (relation "measure (\<lambda>(_, n, j, _). n - j)") auto

function Sort_loop ::
  "bool \<Rightarrow> nat \<Rightarrow> nat \<Rightarrow> (('k :: linorder) \<times> 'v) list \<Rightarrow> ('k \<times> 'v) list" where
  "Sort_loop ascending sz i xs =
    (if i < sz - 1 then
       let (xs, need_iter) = Sort_pass ascending (sz - i - 1) 0 False xs
       in if \<not> need_iter then xs else Sort_loop ascending sz (i + 1) xs
     else xs)"
  by pat_completeness auto
termination by (relation "measure (\<lambda>(_, sz, i, _). sz - i)") auto

declare Sort_pass.simps [simp del] Sort_loop.simps [simp del]

definition Sort :: "bool \<Rightarrow> (('k :: linorder), 'v) ConstexprMap \<Rightarrow> ('k, 'v) ConstexprMap" where
  "Sort is_integral m =
    (if size_ref m = 0 then m
     else m\<lparr>cells := Sort_loop (\<not> is_integral) (size_ref m) 0 (cells m)\<rparr>)"

section \<open>Entries\<close>

definition entries :: "('k, 'v) ConstexprMap \<Rightarrow> ('k \<times> 'v) list" where
  "entries m = take (size_ref m) (cells m)"

definition cm_inv :: "('k, 'v) ConstexprMap \<Rightarrow> bool" where
  "cm_inv m \<longleftrightarrow> size_ref m \<le> length (cells m) \<and> distinct (map fst (entries m))"

lemma length_entries [simp]: "cm_inv m \<Longrightarrow> length (entries m) = size_ref m"
  by (simp add: cm_inv_def entries_def)

lemma nth_entries [simp]: "i < size_ref m \<Longrightarrow> entries m ! i = cells m ! i"
  by (simp add: entries_def)

lemma find_key_step:
  "i < size_ref m \<Longrightarrow> find_key m key i = (if fst (cells m ! i) = key then Some i else find_key m key (i + 1))"
  "\<not> i < size_ref m \<Longrightarrow> find_key m key i = None"
  by (simp_all add: find_key.simps [of m key i])

lemma find_key_Some:
  "find_key m key i = Some j \<Longrightarrow> i \<le> j \<and> j < size_ref m \<and> fst (cells m ! j) = key"
proof (induction m key i rule: find_key.induct)
  case (1 m key i)
  show ?case
  proof (cases "i < size_ref m \<and> fst (cells m ! i) \<noteq> key")
    case True
    then have "find_key m key (i + 1) = Some j" using 1(2) by (simp add: find_key_step(1))
    then have "i + 1 \<le> j \<and> j < size_ref m \<and> fst (cells m ! j) = key" using 1(1) True by blast
    then show ?thesis by simp
  next
    case False
    then show ?thesis using 1(2) by (cases "i < size_ref m") (simp_all add: find_key_step)
  qed
qed

lemma find_key_None:
  "find_key m key i = None \<Longrightarrow> i \<le> j \<Longrightarrow> j < size_ref m \<Longrightarrow> fst (cells m ! j) \<noteq> key"
proof (induction m key i rule: find_key.induct)
  case (1 m key i)
  have i: "i < size_ref m" using 1(3,4) by simp
  then have n: "fst (cells m ! i) \<noteq> key" "find_key m key (i + 1) = None"
    using 1(2) by (auto simp: find_key_step(1) split: if_splits)
  show ?case
  proof (cases "i = j")
    case False
    then have "i + 1 \<le> j" using 1(3) by simp
    then show ?thesis using 1(1) [OF i n(1) n(2) _ 1(4)] by simp
  qed (use n(1) in simp)
qed

lemma find_key_map_of:
  assumes "cm_inv m"
  shows "find_key m key 0 = Some i \<Longrightarrow> map_of (entries m) key = Some (snd (cells m ! i))"
    "find_key m key 0 = None \<Longrightarrow> map_of (entries m) key = None"
proof -
  assume f: "find_key m key 0 = Some i"
  then have i: "i < size_ref m" "fst (cells m ! i) = key" using find_key_Some [OF f] by simp_all
  then have "(key, snd (cells m ! i)) \<in> set (entries m)"
    using assms nth_mem [of i "entries m"] by (metis length_entries nth_entries prod.collapse)
  then show "map_of (entries m) key = Some (snd (cells m ! i))"
    using assms by (simp add: cm_inv_def)
next
  assume none: "find_key m key 0 = None"
  have "fst e \<noteq> key" if e: "e \<in> set (entries m)" for e
  proof -
    obtain i where "i < size_ref m" "e = cells m ! i"
      using e assms by (auto simp: in_set_conv_nth)
    then show ?thesis using find_key_None [OF none, of i] by simp
  qed
  then have "key \<notin> fst ` set (entries m)" by blast
  then show "map_of (entries m) key = None" by (simp add: map_of_eq_None_iff)
qed

lemma subscript_const_map_of:
  assumes "cm_inv m"
  shows "subscript_const m key =
    (case map_of (entries m) key of Some v \<Rightarrow> Inr v | None \<Rightarrow> Inl (RuntimeError ''Key is missing''))"
  using find_key_map_of [OF assms, of key]
  by (cases "find_key m key 0") (auto simp: subscript_const_def)

lemma find_key_in: "cm_inv m \<Longrightarrow> find_key m key 0 = None \<longleftrightarrow> key \<notin> fst ` set (entries m)"
  using find_key_map_of [of m key] by (cases "find_key m key 0") (auto simp: map_of_eq_None_iff [symmetric])

lemma length_ShiftValues [simp]: "length (ShiftValues i n xs) = length xs"
  by (induction i n xs rule: ShiftValues.induct) (simp add: ShiftValues.simps)

lemma nth_ShiftValues:
  "1 \<le> i \<Longrightarrow> n \<le> length xs \<Longrightarrow> k < length xs \<Longrightarrow>
   ShiftValues i n xs ! k = (if i - 1 \<le> k \<and> k + 1 < n then xs ! (k + 1) else xs ! k)"
proof (induction i n xs rule: ShiftValues.induct)
  case (1 i n xs)
  show ?case
  proof (cases "i < n")
    case True
    have "ShiftValues i n xs ! k = ShiftValues (i + 1) n (xs[i - 1 := xs ! i]) ! k"
      using True by (simp add: ShiftValues.simps [of i n xs])
    also have "\<dots> = (if i \<le> k \<and> k + 1 < n then xs[i - 1 := xs ! i] ! (k + 1) else xs[i - 1 := xs ! i] ! k)"
      using 1(1) [OF True] 1(2-4) by simp
    finally show ?thesis using True 1(2,4) by (auto simp: nth_list_update)
  next
    case False
    then show ?thesis using 1 by (auto simp: ShiftValues.simps [of i n xs])
  qed
qed

lemma take_ShiftValues:
  assumes "i < n" "n \<le> length xs"
  shows "take (n - 1) (ShiftValues (i + 1) n xs) = take i xs @ take (n - 1 - i) (drop (i + 1) xs)"
  using assms by (intro nth_equalityI) (auto simp: nth_ShiftValues nth_append min_def split: if_splits)

lemma entries_Erase:
  assumes inv: "cm_inv m" and f: "find_key m key 0 = Some i"
  shows "entries (snd (Erase m key)) = filter (\<lambda>e. fst e \<noteq> key) (entries m)"
proof -
  have i: "i < size_ref m" "fst (cells m ! i) = key" using find_key_Some [OF f] by auto
  have len: "size_ref m \<le> length (cells m)" using inv by (simp add: cm_inv_def)
  have split: "entries m = take i (cells m) @ cells m ! i # take (size_ref m - 1 - i) (drop (i + 1) (cells m))"
    using i(1) len id_take_nth_drop [of i "take (size_ref m) (cells m)"]
    by (simp add: entries_def take_take drop_take min_def)
  have "key \<notin> fst ` set (take i (cells m) @ take (size_ref m - 1 - i) (drop (i + 1) (cells m)))"
    using inv i(2) unfolding cm_inv_def split by auto
  then have "\<forall>e \<in> set (take i (cells m) @ take (size_ref m - 1 - i) (drop (i + 1) (cells m))). fst e \<noteq> key" by auto
  then have "filter (\<lambda>e. fst e \<noteq> key) (entries m)
      = take i (cells m) @ take (size_ref m - 1 - i) (drop (i + 1) (cells m))"
    unfolding split using i(2) by (simp add: filter_id_conv)
  moreover have "entries (snd (Erase m key)) = take (size_ref m - 1) (ShiftValues (i + 1) (size_ref m) (cells m))"
    using f by (simp add: Erase_def entries_def)
  ultimately show ?thesis using take_ShiftValues [OF i(1) len] by simp
qed

lemma Erase_inv: "cm_inv m \<Longrightarrow> cm_inv (snd (Erase m key))"
proof (cases "find_key m key 0")
  case (Some i)
  assume inv: "cm_inv m"
  have "distinct (map fst (entries (snd (Erase m key))))"
    unfolding entries_Erase [OF inv Some] using inv by (simp add: cm_inv_def distinct_map_filter)
  moreover have "size_ref m - 1 \<le> length (cells m)" using inv by (auto simp: cm_inv_def)
  ultimately show ?thesis using Some by (simp add: cm_inv_def Erase_def)
qed (simp add: Erase_def)

lemma entries_assign:
  "i < size_ref m \<Longrightarrow> entries (assign m i v) = (entries m)[i := (fst (entries m ! i), v)]"
  by (simp add: entries_def assign_def take_update_swap)

lemma subscript_cases:
  assumes "subscript m key = Inr (i, m')"
  obtains (found) "find_key m key 0 = Some i" "m' = m"
  | (fresh) "find_key m key 0 = None" "i = size_ref m" "size_ref m < length (cells m)"
      "entries m' = entries m @ [(key, snd (cells m ! i))]" "size_ref m' = size_ref m + 1"
      "length (cells m') = length (cells m)"
proof (cases "find_key m key 0")
  case None
  then have "size_ref m < length (cells m)" "i = size_ref m"
    "m' = m\<lparr>cells := (cells m)[size_ref m := (key, snd (cells m ! size_ref m))], size_ref := size_ref m + 1\<rparr>"
    using assms by (auto simp: subscript_def split: if_splits)
  then show ?thesis using None by (intro fresh) (simp_all add: entries_def take_Suc_conv_app_nth)
next
  case (Some j)
  then have "j = i" "m' = m" using assms by (simp_all add: subscript_def)
  then show ?thesis using Some by (intro found) simp_all
qed

lemma subscript_inv: "cm_inv m \<Longrightarrow> subscript m key = Inr (i, m') \<Longrightarrow> cm_inv m' \<and> i < size_ref m'"
  by (erule subscript_cases) (auto simp: cm_inv_def find_key_in [unfolded cm_inv_def] dest: find_key_Some)

lemma assign_inv: "cm_inv m \<Longrightarrow> i < size_ref m \<Longrightarrow> cm_inv (assign m i v)"
proof -
  assume inv: "cm_inv m" and i: "i < size_ref m"
  have "map fst (entries (assign m i v)) = map fst (entries m)"
    using inv i list_update_id [of "map fst (entries m)" i] by (simp add: entries_assign map_update)
  then show ?thesis using inv by (simp add: cm_inv_def assign_def)
qed

section \<open>Sorting\<close>

definition key_le :: "bool \<Rightarrow> ('k :: linorder) \<times> 'v \<Rightarrow> 'k \<times> 'v \<Rightarrow> bool" where
  "key_le ascending a b \<longleftrightarrow> (if ascending then fst a \<le> fst b else fst b \<le> fst a)"

lemma out_of_order_iff: "out_of_order asc a b \<longleftrightarrow> \<not> key_le asc a b"
  by (auto simp: out_of_order_def key_le_def)

lemma key_le_refl [simp]: "key_le asc a a"
  by (simp add: key_le_def)

lemma key_le_trans: "key_le asc a b \<Longrightarrow> key_le asc b c \<Longrightarrow> key_le asc a c"
  by (auto simp: key_le_def split: if_splits)

lemma key_le_linear: "\<not> key_le asc a b \<Longrightarrow> key_le asc b a"
  by (auto simp: key_le_def split: if_splits)

lemma mset_take_list_swap:
  "i < k \<Longrightarrow> j < k \<Longrightarrow> k \<le> length xs \<Longrightarrow> mset (take k (list_swap xs i j)) = mset (take k xs)"
  using mset_list_swap [of i "take k xs" j] by (simp add: list_swap_def take_update_swap)

text \<open>What a pass over \<open>j..n\<close> gives: the same cells in another order, the greatest one at \<open>n\<close>.\<close>

definition pass_result :: "bool \<Rightarrow> nat \<Rightarrow> nat \<Rightarrow> ('k :: linorder \<times> 'v) list \<Rightarrow> ('k \<times> 'v) list \<Rightarrow> bool" where
  "pass_result asc n j xs ys \<longleftrightarrow>
    length ys = length xs \<and> mset (take (n + 1) ys) = mset (take (n + 1) xs) \<and>
    drop (n + 1) ys = drop (n + 1) xs \<and> take j ys = take j xs \<and>
    (\<forall>k. j \<le> k \<and> k \<le> n \<longrightarrow> key_le asc (ys ! k) (ys ! n))"

lemma pass_result_step:
  assumes j: "j < n" "n < length xs"
    and zs: "length zs = length xs" "mset (take (n + 1) zs) = mset (take (n + 1) xs)"
      "drop (n + 1) zs = drop (n + 1) xs" "take j zs = take j xs" "key_le asc (zs ! j) (zs ! (j + 1))"
    and res: "pass_result asc n (j + 1) zs ys"
  shows "pass_result asc n j xs ys"
proof -
  have "n + 1 \<le> length zs" using j zs(1) by simp
  have pre: "take (j + 1) ys = take (j + 1) zs" and len: "length ys = length zs" using res by (auto simp: pass_result_def)
  then have ysj: "ys ! j = zs ! j" using j zs(1) by (metis less_add_one nth_take)
  have "take j ys = take j zs" using arg_cong [OF pre, of "take j"] by simp
  moreover have "key_le asc (ys ! j) (ys ! n)"
  proof -
    have "mset (drop (j + 1) (take (n + 1) ys)) = mset (drop (j + 1) (take (n + 1) zs))"
    proof -
      have "take (j + 1) (take (n + 1) ys) = take (j + 1) (take (n + 1) zs)" using pre j by (simp add: min_def)
      moreover have "mset (take (n + 1) ys) = mset (take (n + 1) zs)" using res by (simp add: pass_result_def)
      ultimately show ?thesis
        by (metis add_left_imp_eq append_take_drop_id mset_append)
    qed
    moreover have "zs ! (j + 1) \<in> set (drop (j + 1) (take (n + 1) zs))"
      using j zs(1) nth_mem [of 0 "drop (j + 1) (take (n + 1) zs)"] by simp
    ultimately have "zs ! (j + 1) \<in> set (drop (j + 1) (take (n + 1) ys))" by (metis set_mset_mset)
    then obtain k where "k < n - j" "zs ! (j + 1) = ys ! (j + 1 + k)"
      using j zs(1) len by (auto simp: in_set_conv_nth)
    moreover from this have "j + 1 \<le> j + 1 + k \<and> j + 1 + k \<le> n" by linarith
    ultimately have "key_le asc (zs ! (j + 1)) (ys ! n)" using res by (simp only: pass_result_def)
    then show ?thesis using zs(5) ysj key_le_trans by metis
  qed
  ultimately show ?thesis
    using res zs(1-4) by (auto simp: pass_result_def le_less_Suc_eq) (metis Suc_leI le_neq_implies_less)
qed

lemma Sort_pass_result:
  "j \<le> n \<Longrightarrow> n < length xs \<Longrightarrow> Sort_pass asc n j b xs = (ys, b') \<Longrightarrow>
   pass_result asc n j xs ys \<and>
   (\<not> b' \<longrightarrow> \<not> b \<and> ys = xs \<and> (\<forall>k. j \<le> k \<and> k < n \<longrightarrow> key_le asc (xs ! k) (xs ! (k + 1))))"
proof (induction asc n j b xs rule: Sort_pass.induct)
  case (1 asc n j b xs)
  show ?case
  proof (cases "j < n")
    case False
    then have "ys = xs" "b' = b" "j = n" using 1(3,5) by (simp_all add: Sort_pass.simps [of asc n n b xs])
    then show ?thesis by (auto simp: pass_result_def)
  next
    case True
    show ?thesis
    proof (cases "out_of_order asc (xs ! j) (xs ! (j + 1))")
      case swap: True
      let ?zs = "list_swap xs j (j + 1)"
      have "Sort_pass asc n (j + 1) True ?zs = (ys, b')"
        using 1(5) True swap by (simp add: Sort_pass.simps [of asc n j b xs])
      then have ih: "pass_result asc n (j + 1) ?zs ys" "b'" using 1(1) [OF True swap] True 1(4) by auto
      have "key_le asc (?zs ! j) (?zs ! (j + 1))"
        using swap True 1(4) by (simp add: nth_list_swap out_of_order_iff key_le_linear)
      moreover have "drop (n + 1) ?zs = drop (n + 1) xs" "take j ?zs = take j xs"
        using True by (simp_all add: list_swap_def)
      moreover have "mset (take (n + 1) ?zs) = mset (take (n + 1) xs)"
        using True 1(4) by (intro mset_take_list_swap) simp_all
      ultimately have "pass_result asc n j xs ys"
        using pass_result_step [OF True 1(4) _ _ _ _ _ ih(1)] by simp
      then show ?thesis using ih(2) by simp
    next
      case noswap: False
      have "Sort_pass asc n (j + 1) b xs = (ys, b')"
        using 1(5) True noswap by (simp add: Sort_pass.simps [of asc n j b xs])
      then have ih: "pass_result asc n (j + 1) xs ys"
        "\<not> b' \<longrightarrow> \<not> b \<and> ys = xs \<and> (\<forall>k. j + 1 \<le> k \<and> k < n \<longrightarrow> key_le asc (xs ! k) (xs ! (k + 1)))"
        using 1(2) [OF True noswap] True 1(4) by auto
      have le: "key_le asc (xs ! j) (xs ! (j + 1))" using noswap by (simp add: out_of_order_iff)
      then have "pass_result asc n j xs ys"
        using pass_result_step [OF True 1(4) refl refl refl refl le ih(1)] by blast
      moreover have "key_le asc (xs ! k) (xs ! (k + 1))" if "\<not> b'" "j \<le> k" "k < n" for k
        using ih(2) that le by (cases "k = j") auto
      ultimately show ?thesis using ih(2) by blast
    qed
  qed
qed

definition tail_sorted :: "bool \<Rightarrow> nat \<Rightarrow> nat \<Rightarrow> ('k :: linorder \<times> 'v) list \<Rightarrow> bool" where
  "tail_sorted asc b sz xs \<longleftrightarrow> (\<forall>k k'. b \<le> k \<and> k < sz \<and> k' < k \<longrightarrow> key_le asc (xs ! k') (xs ! k))"

lemma pass_result_nth:
  "pass_result asc n 0 xs ys \<Longrightarrow> n < k \<Longrightarrow> k < length xs \<Longrightarrow> ys ! k = xs ! k"
  using nth_drop [of "n + 1" ys "k - (n + 1)"] nth_drop [of "n + 1" xs "k - (n + 1)"]
  by (simp add: pass_result_def)

lemma pass_result_mem:
  assumes "pass_result asc n 0 xs ys" "n < length xs" "k \<le> n"
  obtains k' where "k' \<le> n" "ys ! k = xs ! k'"
proof -
  have "ys ! k \<in> set (take (n + 1) ys)"
    using assms nth_mem [of k "take (n + 1) ys"] by (simp add: pass_result_def)
  then have "ys ! k \<in> set (take (n + 1) xs)" using assms(1) by (metis pass_result_def set_mset_mset)
  then show ?thesis using assms(2) that by (auto simp: in_set_conv_nth less_Suc_eq_le)
qed

lemma tail_sorted_pass:
  assumes t: "tail_sorted asc (n + 1) sz xs" and p: "pass_result asc n 0 xs ys" and sz: "n < sz" "sz \<le> length xs"
  shows "tail_sorted asc n sz ys"
  unfolding tail_sorted_def
proof (intro allI impI)
  fix k k' assume k: "n \<le> k \<and> k < sz \<and> k' < k"
  show "key_le asc (ys ! k') (ys ! k)"
  proof (cases "k = n")
    case True
    then show ?thesis using p k by (simp add: pass_result_def)
  next
    case False
    then have yk: "ys ! k = xs ! k" using pass_result_nth [OF p] k sz by simp
    obtain k'' where "k'' < k" "ys ! k' = xs ! k''"
    proof (cases "k' \<le> n")
      case le: True
      obtain k'' where "k'' \<le> n" "ys ! k' = xs ! k''" using pass_result_mem [OF p _ le] sz by auto
      then show ?thesis using that [of k''] False k by simp
    next
      case gt: False
      then show ?thesis using that [of k'] pass_result_nth [OF p, of k'] k sz by simp
    qed
    then show ?thesis using t k False yk by (simp add: tail_sorted_def)
  qed
qed

lemma adjacent_sorted:
  "(\<And>k. k < n \<Longrightarrow> key_le asc (xs ! k) (xs ! (k + 1))) \<Longrightarrow> k \<le> n \<Longrightarrow> k' \<le> k \<Longrightarrow> key_le asc (xs ! k') (xs ! k)"
proof (induction k)
  case (Suc k)
  show ?case
  proof (cases "k' = Suc k")
    case False
    then have "key_le asc (xs ! k') (xs ! k)" using Suc by simp
    moreover have "key_le asc (xs ! k) (xs ! Suc k)" using Suc.prems(1) [of k] Suc.prems(2) by simp
    ultimately show ?thesis by (rule key_le_trans)
  qed simp
qed simp

lemma Sort_loop_result:
  "sz \<le> length xs \<Longrightarrow> i < sz \<Longrightarrow> tail_sorted asc (sz - i) sz xs \<Longrightarrow>
   tail_sorted asc 0 sz (Sort_loop asc sz i xs) \<and> length (Sort_loop asc sz i xs) = length xs \<and>
   mset (take sz (Sort_loop asc sz i xs)) = mset (take sz xs)"
proof (induction asc sz i xs rule: Sort_loop.induct)
  case (1 asc sz i xs)
  show ?case
  proof (cases "i < sz - 1")
    case False
    then have "sz - i = 1" using 1(3) by simp
    then have "tail_sorted asc 0 sz xs"
      using 1(4) by (auto simp: tail_sorted_def)
    then show ?thesis using False by (simp add: Sort_loop.simps [of asc sz i xs])
  next
    case True
    define n where "n = sz - i - 1"
    obtain ys b where p: "Sort_pass asc n 0 False xs = (ys, b)" by force
    have n: "n < sz" "n < length xs" "n + 1 = sz - i" using True 1(2) by (auto simp: n_def)
    have res: "pass_result asc n 0 xs ys"
      "\<not> b \<Longrightarrow> ys = xs \<and> (\<forall>k. k < n \<longrightarrow> key_le asc (xs ! k) (xs ! (k + 1)))"
      using Sort_pass_result [OF _ n(2) p] by simp_all
    have len: "length ys = length xs" and perm: "mset (take sz ys) = mset (take sz xs)"
    proof -
      show "length ys = length xs" using res(1) by (simp add: pass_result_def)
      have split: "take sz zs = take (n + 1) zs @ take (sz - (n + 1)) (drop (n + 1) zs)" for zs :: "('a \<times> 'b) list"
        using n(1) by (metis Suc_eq_plus1 Suc_leI le_add_diff_inverse take_add)
      show "mset (take sz ys) = mset (take sz xs)"
        unfolding split using res(1) by (simp add: pass_result_def)
    qed
    show ?thesis
    proof (cases b)
      case True
      have "tail_sorted asc (sz - (i + 1)) sz ys"
        using tail_sorted_pass [OF _ res(1) n(1) 1(2)] 1(4) n(3) by (simp add: n_def)
      moreover have "Sort_loop asc sz i xs = Sort_loop asc sz (i + 1) ys"
        using \<open>i < sz - 1\<close> True p by (simp add: Sort_loop.simps [of asc sz i xs] n_def)
      ultimately show ?thesis
        using 1(1) [OF \<open>i < sz - 1\<close> p [symmetric, unfolded n_def]] True len perm 1(2) \<open>i < sz - 1\<close> by simp
    next
      case False
      then have ys: "ys = xs" "\<And>k. k < n \<Longrightarrow> key_le asc (xs ! k) (xs ! (k + 1))" using res(2) by blast+
      have "key_le asc (xs ! k') (xs ! k)" if "k < sz" "k' < k" for k k'
        using adjacent_sorted [OF ys(2), where k = k and k' = k'] 1(4) that n
        by (cases "k \<le> n") (auto simp: tail_sorted_def)
      moreover have "Sort_loop asc sz i xs = xs"
        using \<open>i < sz - 1\<close> False p ys(1) by (simp add: Sort_loop.simps [of asc sz i xs] n_def)
      ultimately show ?thesis by (simp add: tail_sorted_def)
    qed
  qed
qed

lemma tail_sorted_0: "sz \<le> length xs \<Longrightarrow> tail_sorted asc 0 sz xs \<Longrightarrow> sorted_wrt (key_le asc) (take sz xs)"
  by (simp add: tail_sorted_def sorted_wrt_iff_nth_less)

lemma map_of_update_nth:
  "distinct (map fst xs) \<Longrightarrow> i < length xs \<Longrightarrow> map_of (xs[i := (fst (xs ! i), v)]) = (map_of xs)(fst (xs ! i) \<mapsto> v)"
proof (induction xs arbitrary: i)
  case (Cons x xs)
  show ?case
  proof (cases i)
    case (Suc j)
    then have "j < length xs" "fst x \<notin> fst ` set xs" using Cons.prems by simp_all
    then have "fst (xs ! j) \<noteq> fst x" by (metis imageI nth_mem)
    then show ?thesis using Cons Suc by (auto simp: fun_eq_iff)
  qed (auto simp: fun_eq_iff)
qed simp

lemma subscript_keys:
  assumes "subscript m key = Inr (i, m')" "cm_inv m"
  shows "map fst (entries m') = (if Find m key then map fst (entries m) else map fst (entries m) @ [key]) \<and>
    fst (entries m' ! i) = key \<and> (\<forall>k. k \<noteq> key \<longrightarrow> map_of (entries m') k = map_of (entries m) k)"
  using assms(1)
proof (cases rule: subscript_cases)
  case found
  then show ?thesis using find_key_Some [OF found(1)] by (simp add: Find_def)
next
  case fresh
  then show ?thesis using assms(2) by (simp add: Find_def nth_append map_add_def split: option.splits)
qed

section \<open>Properties\<close>

text \<open>
  Writing \<open>map[key] = v\<close> replaces the value of a key that is present where it stands, appends a
  new key after the others, and throws ``Map is full'' exactly when the key is new and all cells are in
  use; the keys stay distinct.
\<close>
theorem ConstexprMap_write:
  assumes "cm_inv m"
  shows "case subscript m key of
      Inl e \<Rightarrow> e = RuntimeError ''Map is full'' \<and> size_ref m = length (cells m) \<and> \<not> Find m key
    | Inr (i, m') \<Rightarrow>
        let m'' = assign m' i v in
        cm_inv m'' \<and> map_of (entries m'') = (map_of (entries m))(key \<mapsto> v) \<and>
        map fst (entries m'') = (if Find m key then map fst (entries m) else map fst (entries m) @ [key])"
proof (cases "subscript m key")
  case (Inl e)
  then show ?thesis
    using assms by (auto simp: subscript_def Find_def cm_inv_def split: option.splits if_splits)
next
  case (Inr p)
  obtain i m' where p: "p = (i, m')" by force
  have sub: "subscript m key = Inr (i, m')" using Inr p by simp
  have inv: "cm_inv m'" "i < size_ref m'" using subscript_inv [OF assms sub] by auto
  note keys = subscript_keys [OF sub assms]
  have ent: "entries (assign m' i v) = (entries m')[i := (key, v)]"
    using entries_assign [OF inv(2)] keys by simp
  have "map_of (entries (assign m' i v)) = (map_of (entries m'))(key \<mapsto> v)"
    unfolding ent using map_of_update_nth [of "entries m'" i v] keys inv by (simp add: cm_inv_def)
  also have "\<dots> = (map_of (entries m))(key \<mapsto> v)" using keys by (intro ext) simp
  finally have "map_of (entries (assign m' i v)) = (map_of (entries m))(key \<mapsto> v)" .
  moreover have "map fst (entries (assign m' i v)) = map fst (entries m')"
  proof -
    have "(map fst (entries m'))[i := fst (entries m' ! i)] = map fst (entries m')"
      using inv list_update_id [of "map fst (entries m')" i] by simp
    then show ?thesis unfolding ent map_update using keys by simp
  qed
  ultimately show ?thesis using assign_inv [OF inv] keys Inr p by simp
qed

theorem ConstexprMap_write_witness:
  "cm_inv (ConstexprMap_init 2 0 0 :: (nat, nat) ConstexprMap) \<and>
   map_of (entries (assign (snd (projr (subscript (ConstexprMap_init 2 0 0 :: (nat, nat) ConstexprMap) 7))) 0 5)) = [7 \<mapsto> 5]"
proof -
  let ?m = "ConstexprMap_init 2 0 0 :: (nat, nat) ConstexprMap"
  have inv: "cm_inv ?m" by code_simp
  moreover have "subscript ?m 7 = Inr (0, \<lparr>cells = [(7, 0), (0, 0)], size_ref = 1\<rparr>)" by code_simp
  moreover have "entries ?m = []" by code_simp
  ultimately show ?thesis using ConstexprMap_write [OF inv, of 7 5] by (simp add: Let_def)
qed

text \<open>
  \<open>Erase\<close> removes the key, keeps the order of the others and says whether it was there.
\<close>
theorem ConstexprMap_Erase:
  assumes "cm_inv m"
  shows "(fst (Erase m key) \<longleftrightarrow> map_of (entries m) key \<noteq> None) \<and> cm_inv (snd (Erase m key)) \<and>
    entries (snd (Erase m key)) = filter (\<lambda>e. fst e \<noteq> key) (entries m)"
proof (intro conjI)
  show "cm_inv (snd (Erase m key))" by (rule Erase_inv [OF assms])
  show "fst (Erase m key) \<longleftrightarrow> map_of (entries m) key \<noteq> None"
    using find_key_map_of [OF assms, of key] by (cases "find_key m key 0") (auto simp: Erase_def)
  show "entries (snd (Erase m key)) = filter (\<lambda>e. fst e \<noteq> key) (entries m)"
  proof (cases "find_key m key 0")
    case None
    then have "\<forall>e \<in> set (entries m). fst e \<noteq> key" using find_key_in [OF assms, of key] by blast
    then show ?thesis using None by (simp add: Erase_def)
  qed (simp add: entries_Erase [OF assms])
qed

theorem ConstexprMap_Erase_witness:
  "entries (snd (Erase \<lparr>cells = [(7, 5), (8, 6), (0, 0)], size_ref = 2\<rparr> (7 :: nat))) = [(8 :: nat, 6 :: nat)]"
proof -
  let ?m = "\<lparr>cells = [(7, 5), (8, 6), (0, 0)], size_ref = 2\<rparr> :: (nat, nat) ConstexprMap"
  have "cm_inv ?m" "entries ?m = [(7, 5), (8, 6)]" by code_simp+
  then show ?thesis using ConstexprMap_Erase [of ?m 7] by simp
qed

text \<open>
  \<open>Sort\<close> leaves the entries in another order: ascending keys, or descending ones where the key type
  is integral; every lookup gives what it gave before.
\<close>
theorem ConstexprMap_Sort:
  assumes "cm_inv m"
  shows "cm_inv (Sort is_integral m) \<and> mset (entries (Sort is_integral m)) = mset (entries m) \<and>
    sorted_wrt (key_le (\<not> is_integral)) (entries (Sort is_integral m)) \<and>
    subscript_const (Sort is_integral m) key = subscript_const m key"
proof (cases "size_ref m = 0")
  case True
  then show ?thesis using assms by (simp add: Sort_def entries_def)
next
  case False
  let ?s = "Sort is_integral m"
  have sz: "size_ref m \<le> length (cells m)" "0 < size_ref m" using assms False by (auto simp: cm_inv_def)
  note res = Sort_loop_result [OF sz(1) sz(2), of "\<not> is_integral"]
  have tail: "tail_sorted (\<not> is_integral) (size_ref m - 0) (size_ref m) (cells m)" by (auto simp: tail_sorted_def)
  have s: "size_ref ?s = size_ref m" "cells ?s = Sort_loop (\<not> is_integral) (size_ref m) 0 (cells m)"
    using False by (simp_all add: Sort_def)
  have perm: "mset (entries ?s) = mset (entries m)" and sorted: "sorted_wrt (key_le (\<not> is_integral)) (entries ?s)"
    using res [OF tail] tail_sorted_0 [of "size_ref m" "cells ?s"] sz s by (simp_all add: entries_def)
  have keys: "distinct (map fst (entries ?s))"
    using assms perm by (metis cm_inv_def mset_eq_imp_distinct_iff mset_map)
  then have inv: "cm_inv ?s" using res [OF tail] sz s by (simp add: cm_inv_def)
  have "map_of (entries ?s) = map_of (entries m)"
    using keys assms perm by (intro map_of_inject_set [THEN iffD2]) (auto simp: cm_inv_def dest: mset_eq_setD)
  then show ?thesis
    using inv perm sorted subscript_const_map_of [OF inv, of key] subscript_const_map_of [OF assms, of key] by simp
qed

theorem ConstexprMap_Sort_witness:
  "sorted_wrt (key_le False) (entries (Sort True \<lparr>cells = [(7, 5), (8, 6), (0, 0)], size_ref = 2\<rparr> :: (nat, nat) ConstexprMap))"
proof -
  have "cm_inv (\<lparr>cells = [(7, 5), (8, 6), (0, 0)], size_ref = 2\<rparr> :: (nat, nat) ConstexprMap)" by code_simp
  then show ?thesis using ConstexprMap_Sort [of _ True] by fastforce
qed

text \<open>
  A new key does not start with the value-initialised \<open>V{}\<close> the array was filled with: after an
  \<open>Erase\<close> of the last key, \<open>operator[]\<close> hands out the value that key had.
\<close>
theorem operator_subscript_stale:
  assumes "find_key m key 0 = Some (size_ref m - 1)" "key' \<noteq> key"
    and "cm_inv m" "\<not> Find m key'"
  shows "subscript (snd (Erase m key)) key' =
    Inr (size_ref m - 1, m\<lparr>cells := (cells m)[size_ref m - 1 := (key', snd (cells m ! (size_ref m - 1)))]\<rparr>)"
proof -
  have pos: "0 < size_ref m" using find_key_Some [OF assms(1)] by simp
  then have e: "snd (Erase m key) = m\<lparr>size_ref := size_ref m - 1\<rparr>"
    using assms(1) by (simp add: Erase_def ShiftValues.simps [of "size_ref m"])
  have "key' \<notin> fst ` set (entries m)" using assms(3,4) find_key_in [OF assms(3), of key'] by (simp add: Find_def)
  then have "key' \<notin> fst ` set (entries (snd (Erase m key)))" by (simp add: entries_Erase [OF assms(3,1)] image_iff)
  then have "find_key (m\<lparr>size_ref := size_ref m - 1\<rparr>) key' 0 = None"
    using find_key_in [OF Erase_inv [OF assms(3), of key], of key'] unfolding e by simp
  moreover have "size_ref m - 1 < length (cells m)" using pos assms(3) by (auto simp: cm_inv_def)
  ultimately show ?thesis using pos unfolding e by (simp add: subscript_def)
qed

end
