(* ===== verification/Interleaving.thy ===== *)
theory Interleaving
  imports Prelude
begin

text \<open>
  Threads over a shared memory.  A thread is a program counter with its locals, \<open>step m p m' p'\<close> one
  atomic step of a thread, and \<open>interleave\<close> lets any thread make the next step.  The locale
  \<open>thread_invariant\<close> is the proof rule of Owicki and Gries for such programs: an invariant of the memory,
  an assertion for each thread and a relation between any two threads, each of which a step of one
  thread keeps.
\<close>

inductive interleave ::
  "('m \<Rightarrow> 'p \<Rightarrow> 'm \<Rightarrow> 'p \<Rightarrow> bool) \<Rightarrow> 'm \<times> (nat \<Rightarrow> 'p) \<Rightarrow> 'm \<times> (nat \<Rightarrow> 'p) \<Rightarrow> bool"
  for step where
  interleaveI: "step m (pcs t) m' p \<Longrightarrow> interleave step (m, pcs) (m', pcs(t := p))"

lemma interleave_at:
  "pcs u = p \<Longrightarrow> step m p m' p' \<Longrightarrow> interleave step (m, pcs) (m', pcs(u := p'))"
  by (auto intro: interleaveI)

inductive_cases interleaveE: "interleave step (m, pcs) s'"

lemma interleave_cases:
  assumes "interleave step s s'"
  obtains t p where "step (fst s) (snd s t) (fst s') p" "snd s' = (snd s)(t := p)"
  using assms by (cases rule: interleave.cases) auto

locale thread_invariant =
  fixes step :: "'m \<Rightarrow> 'p \<Rightarrow> 'm \<Rightarrow> 'p \<Rightarrow> bool"
    and G :: "'m \<Rightarrow> bool" and L :: "'m \<Rightarrow> 'p \<Rightarrow> bool" and R :: "'m \<Rightarrow> 'p \<Rightarrow> 'p \<Rightarrow> bool"
  assumes global: "G m \<Longrightarrow> L m p \<Longrightarrow> step m p m' p' \<Longrightarrow> G m'"
    and local: "G m \<Longrightarrow> L m p \<Longrightarrow> step m p m' p' \<Longrightarrow> L m' p'"
    and stable: "G m \<Longrightarrow> L m p \<Longrightarrow> L m q \<Longrightarrow> R m p q \<Longrightarrow> step m p m' p' \<Longrightarrow> L m' q"
    and related: "G m \<Longrightarrow> L m p \<Longrightarrow> L m q \<Longrightarrow> R m p q \<Longrightarrow> step m p m' p' \<Longrightarrow> R m' p' q"
    and others: "R m q r \<Longrightarrow> step m p m' p' \<Longrightarrow> R m' q r"
    and R_sym: "R m p q \<Longrightarrow> R m q p"
begin

definition threads_ok :: "'m \<times> (nat \<Rightarrow> 'p) \<Rightarrow> bool" where
  "threads_ok s \<longleftrightarrow>
    G (fst s) \<and> (\<forall>t. L (fst s) (snd s t)) \<and> (\<forall>t u. t \<noteq> u \<longrightarrow> R (fst s) (snd s t) (snd s u))"

lemma threads_okD:
  assumes "threads_ok s"
  shows "G (fst s)" "L (fst s) (snd s t)" "t \<noteq> u \<Longrightarrow> R (fst s) (snd s t) (snd s u)"
  using assms by (auto simp: threads_ok_def)

lemma threads_ok_step:
  assumes "interleave step s s'" "threads_ok s"
  shows "threads_ok s'"
proof -
  obtain t p where st: "step (fst s) (snd s t) (fst s') p" "snd s' = (snd s)(t := p)"
    using assms(1) by (rule interleave_cases)
  note ok = threads_okD [OF assms(2)]
  have g: "G (fst s')" by (rule global [OF ok(1,2) st(1)])
  have p: "L (fst s') p" by (rule local [OF ok(1,2) st(1)])
  have q: "L (fst s') (snd s u)" "R (fst s') p (snd s u)" "R (fst s') (snd s u) p" if "u \<noteq> t" for u
  proof -
    have r: "R (fst s) (snd s t) (snd s u)" using ok(3) [of t u] that by simp
    show "L (fst s') (snd s u)" by (rule stable [OF ok(1,2,2) r st(1)])
    show "R (fst s') p (snd s u)" by (rule related [OF ok(1,2,2) r st(1)])
    then show "R (fst s') (snd s u) p" by (rule R_sym)
  qed
  have "R (fst s') (snd s u) (snd s v)" if "u \<noteq> v" for u v
    using others [OF ok(3) [OF that] st(1)] .
  then show ?thesis
    unfolding threads_ok_def st(2) using g p q by (auto simp: fun_upd_apply)
qed

lemma threads_ok_reachable:
  "(interleave step)\<^sup>*\<^sup>* s s' \<Longrightarrow> threads_ok s \<Longrightarrow> threads_ok s'"
  by (induction rule: rtranclp_induct) (auto intro: threads_ok_step)

end

end
