(* ===== verification/Mpmc_Queue.thy ===== *)
theory Mpmc_Queue
  imports Interleaving "HOL-Library.Word" "HOL-Library.Multiset"
begin

unbundle bit_operations_syntax

text \<open>
  \<open>fast-queue/mpmc.h\<close>: the bounded queue for several producers and consumers.  Positions are tickets:
  \<open>Enqueue\<close> and \<open>Dequeue\<close> take the next ticket by a compare-and-exchange on \<open>tail_\<close> or \<open>head_\<close>, and the
  generation of a cell says which ticket may use it next: \<open>t\<close> when it is free for ticket \<open>t\<close>, \<open>t + 1\<close>
  when it holds the value of ticket \<open>t\<close>.  Every access to a shared variable is a step of its own, so the
  threads interleave between any two of them.  Counters are 64-bit words.

  The memory carries two histories the program does not have: \<open>sent\<close>, the values in the order of their
  tickets, and \<open>received\<close>, the tickets and values read.
\<close>

section \<open>The queue\<close>

type_synonym size_t = "64 word"

record 'a Element =
  generation :: size_t
  elem_value :: 'a

record 'a MPMCBoundedQueue =
  max_size :: size_t
  bit_mask :: size_t
  head :: size_t
  tail :: size_t
  queue :: "'a Element list"
  sent :: "'a list"
  received :: "(size_t \<times> 'a) list"

definition MPMCBoundedQueue_init :: "size_t \<Rightarrow> 'a \<Rightarrow> 'a MPMCBoundedQueue" where
  "MPMCBoundedQueue_init sz dflt =
    \<lparr>max_size = sz, bit_mask = sz - 1, head = 0, tail = 0,
     queue = map (\<lambda>i. \<lparr>generation = of_nat i, elem_value = dflt\<rparr>) [0..<unat sz],
     sent = [], received = []\<rparr>"

text \<open>
  Where a thread is in a call: before the first load of \<open>tail_\<close>, before a load of a generation, before
  the compare-and-exchange, before the write of the value and before the update of the generation.
\<close>

datatype 'a pc =
    Idle
  | E_load 'a | E_check 'a size_t | E_cas 'a size_t | E_store 'a size_t | E_publish size_t
  | D_load | D_check size_t | D_cas size_t | D_read size_t | D_publish 'a size_t
  | Returned "bool"

definition index :: "'a MPMCBoundedQueue \<Rightarrow> size_t \<Rightarrow> nat" where
  "index q t = unat (t AND bit_mask q)"

definition generation_at :: "'a MPMCBoundedQueue \<Rightarrow> size_t \<Rightarrow> size_t" where
  "generation_at q t = generation (queue q ! index q t)"

definition update_at :: "('a Element \<Rightarrow> 'a Element) \<Rightarrow> size_t \<Rightarrow> 'a MPMCBoundedQueue \<Rightarrow> 'a MPMCBoundedQueue" where
  "update_at f t q = q\<lparr>queue := (queue q)[index q t := f (queue q ! index q t)]\<rparr>"

text \<open>\<open>spurious\<close> is the failure that \<open>compare_exchange_weak\<close> may have without reason.\<close>

fun Enqueue :: "bool \<Rightarrow> 'a pc \<Rightarrow> 'a MPMCBoundedQueue \<Rightarrow> 'a pc \<times> 'a MPMCBoundedQueue" where
  "Enqueue spurious (E_load v) q = (E_check v (tail q), q)"
| "Enqueue spurious (E_check v t) q =
    (if generation_at q t + bit_mask q \<le> t then (Returned False, q) else (E_cas v t, q))"
| "Enqueue spurious (E_cas v t) q =
    (if tail q = t \<and> \<not> spurious then (E_store v t, q\<lparr>tail := t + 1, sent := sent q @ [v]\<rparr>)
     else (E_check v (tail q), q))"
| "Enqueue spurious (E_store v t) q = (E_publish t, update_at (\<lambda>e. e\<lparr>elem_value := v\<rparr>) t q)"
| "Enqueue spurious (E_publish t) q =
    (Returned True, update_at (\<lambda>e. e\<lparr>generation := generation e + 1\<rparr>) t q)"
| "Enqueue spurious p q = (p, q)"

fun Dequeue :: "bool \<Rightarrow> 'a pc \<Rightarrow> 'a MPMCBoundedQueue \<Rightarrow> 'a pc \<times> 'a MPMCBoundedQueue" where
  "Dequeue spurious D_load q = (D_check (head q), q)"
| "Dequeue spurious (D_check h) q =
    (if generation_at q h < h + 1 then (Returned False, q) else (D_cas h, q))"
| "Dequeue spurious (D_cas h) q =
    (if head q = h \<and> \<not> spurious then (D_read h, q\<lparr>head := h + 1\<rparr>) else (D_check (head q), q))"
| "Dequeue spurious (D_read h) q =
    (let v = elem_value (queue q ! index q h) in (D_publish v h, q\<lparr>received := received q @ [(h, v)]\<rparr>))"
| "Dequeue spurious (D_publish v h) q =
    (Returned True, update_at (\<lambda>e. e\<lparr>generation := generation e + bit_mask q\<rparr>) h q)"
| "Dequeue spurious p q = (p, q)"

inductive mpmc_step :: "'a MPMCBoundedQueue \<Rightarrow> 'a pc \<Rightarrow> 'a MPMCBoundedQueue \<Rightarrow> 'a pc \<Rightarrow> bool" where
  call_enqueue: "mpmc_step q Idle q (E_load v)"
| call_dequeue: "mpmc_step q Idle q D_load"
| enqueue: "Enqueue spurious p q = (p', q') \<Longrightarrow> mpmc_step q p q' p'"
| dequeue: "Dequeue spurious p q = (p', q') \<Longrightarrow> mpmc_step q p q' p'"
| return: "mpmc_step q (Returned b) q Idle"

section \<open>The invariant\<close>

text \<open>Generation and value of the cell of a ticket, as numbers.\<close>

definition gen :: "'a MPMCBoundedQueue \<Rightarrow> nat \<Rightarrow> nat" where
  "gen q t = unat (generation (queue q ! (t mod length (queue q))))"

definition val :: "'a MPMCBoundedQueue \<Rightarrow> nat \<Rightarrow> 'a" where
  "val q t = elem_value (queue q ! (t mod length (queue q)))"

text \<open>The cells of the window of tickets from \<open>head_\<close> on: filled, being filled, or free.\<close>

definition cells_ok :: "'a MPMCBoundedQueue \<Rightarrow> bool" where
  "cells_ok q \<longleftrightarrow>
    (\<forall>t. unat (head q) \<le> t \<and> t < unat (tail q) \<longrightarrow>
       gen q t = t \<or> gen q t = t + 1 \<and> val q t = sent q ! t) \<and>
    (\<forall>t. unat (tail q) \<le> t \<and> t < unat (head q) + length (queue q) \<longrightarrow>
       gen q t = t \<or> gen q t + length (queue q) = t + 1)"

definition no_overflow :: "'a MPMCBoundedQueue \<Rightarrow> bool" where
  "no_overflow q \<longleftrightarrow> length (sent q) + 2 * length (queue q) \<le> 2 ^ 64"

definition shape_ok :: "'a MPMCBoundedQueue \<Rightarrow> bool" where
  "shape_ok q \<longleftrightarrow> (\<exists>k. 1 \<le> k \<and> k < 64 \<and> length (queue q) = 2 ^ k \<and> bit_mask q = mask k)"

text \<open>What was read at a ticket was sent at that ticket, and no ticket was read twice.\<close>

definition received_ok :: "'a MPMCBoundedQueue \<Rightarrow> bool" where
  "received_ok q \<longleftrightarrow>
    distinct (map fst (received q)) \<and>
    (\<forall>(h, v) \<in> set (received q). unat h < unat (head q) \<and> v = sent q ! unat h)"

definition queue_inv :: "'a MPMCBoundedQueue \<Rightarrow> bool" where
  "queue_inv q \<longleftrightarrow>
    received_ok q \<and> shape_ok q \<and> cells_ok q \<and> unat (head q) \<le> unat (tail q) \<and>
    unat (tail q) \<le> unat (head q) + length (queue q) \<and> unat (tail q) = length (sent q)"

definition mpmc_G :: "'a MPMCBoundedQueue \<Rightarrow> bool" where
  "mpmc_G q \<longleftrightarrow> (no_overflow q \<longrightarrow> queue_inv q)"

definition taken :: "'a MPMCBoundedQueue \<Rightarrow> size_t \<Rightarrow> bool" where
  "taken q h \<longleftrightarrow> h \<in> fst ` set (received q)"

text \<open>What a thread knows.\<close>

fun thread_ok :: "'a MPMCBoundedQueue \<Rightarrow> 'a pc \<Rightarrow> bool" where
  "thread_ok q (E_check v t) \<longleftrightarrow> unat t \<le> unat (tail q)"
| "thread_ok q (E_cas v t) \<longleftrightarrow> unat t \<le> unat (tail q) \<and> (t = tail q \<longrightarrow> gen q (unat t) = unat t)"
| "thread_ok q (E_store v t) \<longleftrightarrow>
    unat (head q) \<le> unat t \<and> unat t < unat (tail q) \<and> gen q (unat t) = unat t \<and> sent q ! unat t = v"
| "thread_ok q (E_publish t) \<longleftrightarrow>
    unat (head q) \<le> unat t \<and> unat t < unat (tail q) \<and> gen q (unat t) = unat t \<and>
    val q (unat t) = sent q ! unat t"
| "thread_ok q (D_check h) \<longleftrightarrow> unat h \<le> unat (head q)"
| "thread_ok q (D_cas h) \<longleftrightarrow> unat h \<le> unat (head q) \<and> (h = head q \<longrightarrow> gen q (unat h) = unat h + 1)"
| "thread_ok q (D_read h) \<longleftrightarrow>
    unat h < unat (head q) \<and> unat (tail q) \<le> unat h + length (queue q) \<and> gen q (unat h) = unat h + 1 \<and>
    val q (unat h) = sent q ! unat h \<and> \<not> taken q h"
| "thread_ok q (D_publish v h) \<longleftrightarrow>
    unat h < unat (head q) \<and> unat (tail q) \<le> unat h + length (queue q) \<and> gen q (unat h) = unat h + 1 \<and>
    v = sent q ! unat h"
| "thread_ok q _ \<longleftrightarrow> True"

definition mpmc_L :: "'a MPMCBoundedQueue \<Rightarrow> 'a pc \<Rightarrow> bool" where
  "mpmc_L q p \<longleftrightarrow> (no_overflow q \<longrightarrow> thread_ok q p)"

text \<open>Two threads hold different tickets.\<close>

fun enqueue_ticket :: "'a pc \<Rightarrow> size_t option" where
  "enqueue_ticket (E_store v t) = Some t"
| "enqueue_ticket (E_publish t) = Some t"
| "enqueue_ticket _ = None"

fun dequeue_ticket :: "'a pc \<Rightarrow> size_t option" where
  "dequeue_ticket (D_read h) = Some h"
| "dequeue_ticket (D_publish v h) = Some h"
| "dequeue_ticket _ = None"

definition mpmc_R :: "'a MPMCBoundedQueue \<Rightarrow> 'a pc \<Rightarrow> 'a pc \<Rightarrow> bool" where
  "mpmc_R q p p' \<longleftrightarrow> no_overflow q \<longrightarrow>
    (enqueue_ticket p = None \<or> enqueue_ticket p \<noteq> enqueue_ticket p') \<and>
    (dequeue_ticket p = None \<or> dequeue_ticket p \<noteq> dequeue_ticket p')"

section \<open>Cells and tickets\<close>

lemma mod_window:
  fixes a b n :: nat
  assumes "a mod n = b mod n" "a \<le> b" "b < a + n"
  shows "a = b"
proof -
  have "n dvd b - a" using assms(1,2) by (metis mod_eq_dvd_iff_nat)
  then show ?thesis using assms(2,3) by (auto dest: dvd_imp_le)
qed

lemma mod_Suc_neq:
  fixes n :: nat
  assumes "2 \<le> n"
  shows "Suc h mod n \<noteq> h mod n"
  using assms mod_window [of h n "Suc h"] by auto

lemma queue_invD:
  assumes "queue_inv q"
  shows "shape_ok q" "cells_ok q" "unat (head q) \<le> unat (tail q)"
    "unat (tail q) \<le> unat (head q) + length (queue q)" "unat (tail q) = length (sent q)"
    "received_ok q"
  using assms by (auto simp: queue_inv_def)

lemma shape_okD:
  assumes "shape_ok q"
  shows "2 \<le> length (queue q)" "Suc (unat (bit_mask q)) = length (queue q)"
    "index q t = unat t mod length (queue q)"
    "queue q \<noteq> []"
proof -
  obtain k where k: "1 \<le> k" "k < 64" "length (queue q) = 2 ^ k" "bit_mask q = mask k"
    using assms by (auto simp: shape_ok_def)
  show "2 \<le> length (queue q)" using k(1,3) power_increasing [of 1 k "2::nat"] by simp
  then show "queue q \<noteq> []" by auto
  have "unat (t AND bit_mask q) = take_bit k (unat t)"
    using k(2) by (simp add: k(4) unsigned_take_bit_eq flip: take_bit_eq_mask)
  then show "index q t = unat t mod length (queue q)"
    by (simp add: index_def k(3) take_bit_eq_mod)
  have "unat (mask k :: 64 word) = mask k"
    using k(2) by (simp add: unat_eq_nat_uint uint_mask_eq nat_mask_eq)
  then show "Suc (unat (bit_mask q)) = length (queue q)" by (simp add: k(3,4) mask_eq_exp_minus_1)
qed

lemma index_less: "shape_ok q \<Longrightarrow> index q t < length (queue q)"
  using shape_okD(1,3) [of q] by (metis mod_less_divisor not_numeral_le_zero gr_zeroI)

lemma unat_generation_at: "shape_ok q \<Longrightarrow> unat (generation_at q t) = gen q (unat t)"
  by (simp add: generation_at_def gen_def shape_okD(3))

lemma update_at_simps [simp]:
  "max_size (update_at f t q) = max_size q" "bit_mask (update_at f t q) = bit_mask q"
  "head (update_at f t q) = head q" "tail (update_at f t q) = tail q" "sent (update_at f t q) = sent q"
  "received (update_at f t q) = received q" "length (queue (update_at f t q)) = length (queue q)"
  by (simp_all add: update_at_def)

lemma gen_update_at:
  assumes "shape_ok q"
  shows "gen (update_at f t q) u =
    (if u mod length (queue q) = unat t mod length (queue q)
     then unat (generation (f (queue q ! index q t))) else gen q u)"
  using assms index_less [OF assms, of t] by (simp add: gen_def update_at_def shape_okD(3) nth_list_update)

lemma val_update_at:
  assumes "shape_ok q"
  shows "val (update_at f t q) u =
    (if u mod length (queue q) = unat t mod length (queue q)
     then elem_value (f (queue q ! index q t)) else val q u)"
  using assms index_less [OF assms, of t] by (simp add: val_def update_at_def shape_okD(3) nth_list_update)

lemma taken_simps [simp]:
  "taken (q\<lparr>tail := t, sent := xs\<rparr>) h = taken q h" "taken (q\<lparr>head := t\<rparr>) h = taken q h"
  "taken (update_at f t q) h = taken q h"
  "taken (q\<lparr>received := received q @ [(u, v)]\<rparr>) h \<longleftrightarrow> taken q h \<or> h = u"
  by (auto simp: taken_def)

lemma gen_cong: "queue q' = queue q \<Longrightarrow> gen q' = gen q" "queue q' = queue q \<Longrightarrow> val q' = val q"
  by (auto simp: gen_def val_def fun_eq_iff)

lemma cells_okD:
  assumes "cells_ok q"
  shows "unat (head q) \<le> t \<Longrightarrow> t < unat (tail q) \<Longrightarrow> gen q t = t \<or> gen q t = t + 1"
    "unat (head q) \<le> t \<Longrightarrow> t < unat (tail q) \<Longrightarrow> gen q t = t + 1 \<Longrightarrow> val q t = sent q ! t"
    "unat (tail q) \<le> t \<Longrightarrow> t < unat (head q) + length (queue q) \<Longrightarrow>
       gen q t = t \<or> gen q t + length (queue q) = t + 1"
  using assms by (auto simp: cells_ok_def)

lemma window_ticket:
  fixes h t n :: nat
  assumes "0 < n"
  shows "\<exists>w. h \<le> w \<and> w < h + n \<and> w mod n = t mod n \<and> (t < h \<longrightarrow> t + n \<le> w)"
proof (induction h)
  case 0
  show ?case using assms by (intro exI [of _ "t mod n"]) auto
next
  case (Suc h)
  then obtain w where w: "h \<le> w" "w < h + n" "w mod n = t mod n" "t < h \<longrightarrow> t + n \<le> w" by blast
  have t: "t + n \<le> w" if "t < Suc h" "w \<noteq> h"
    using that w mod_window [of t n w] by (cases "t = h") auto
  show ?case
  proof (cases "w = h")
    case True
    then show ?thesis using w assms by (intro exI [of _ "w + n"]) auto
  next
    case False
    then show ?thesis using w t by (intro exI [of _ w]) auto
  qed
qed

lemma gen_mod: "t mod length (queue q) = u mod length (queue q) \<Longrightarrow> gen q t = gen q u"
  by (simp add: gen_def)

text \<open>Generations never exceed the window, and those of passed tickets are higher.\<close>

lemma gen_bounds:
  assumes "queue_inv q"
  shows "gen q t \<le> unat (head q) + length (queue q)"
    "t < unat (head q) \<Longrightarrow> t < gen q t" "t < unat (tail q) \<Longrightarrow> t \<le> gen q t"
proof -
  let ?n = "length (queue q)" and ?h = "unat (head q)"
  note inv = queue_invD [OF assms]
  have n: "2 \<le> ?n" by (rule shape_okD(1) [OF inv(1)])
  have "0 < ?n" using n by linarith
  then obtain w where w: "?h \<le> w" "w < ?h + ?n" "w mod ?n = t mod ?n" "t < ?h \<Longrightarrow> t + ?n \<le> w"
    using window_ticket [of ?n ?h t] by blast
  have g: "gen q t = gen q w" using gen_mod w(3) by metis
  have c: "gen q w = w \<or> gen q w = w + 1 \<or> gen q w + ?n = w + 1"
    using cells_okD(1,3) [OF inv(2), of w] w(1,2) by (cases "w < unat (tail q)") auto
  then show "gen q t \<le> ?h + ?n" using w(2) g by auto
  show p: "t < gen q t" if "t < ?h" using c w(4) [OF that] g n by auto
  show "t \<le> gen q t" if "t < unat (tail q)"
    using p cells_okD(1) [OF inv(2), of t] that by (cases "t < ?h") auto
qed

lemma no_overflowD:
  assumes "queue_inv q" "no_overflow q"
  shows "unat (tail q) + 2 * length (queue q) \<le> 2 ^ 64" "unat (tail q + 1) = unat (tail q) + 1"
    "unat (head q + 1) = unat (head q) + 1"
proof -
  note inv = queue_invD [OF assms(1)]
  show b: "unat (tail q) + 2 * length (queue q) \<le> 2 ^ 64" using assms(2) inv(5) by (simp add: no_overflow_def)
  have n: "2 \<le> length (queue q)" by (rule shape_okD(1) [OF inv(1)])
  show "unat (tail q + 1) = unat (tail q) + 1" using b n by (simp add: unat_plus_if')
  show "unat (head q + 1) = unat (head q) + 1" using b n inv(3) by (simp add: unat_plus_if')
qed

section \<open>Steps keep the invariant\<close>

text \<open>The checks of the two operations, on numbers.\<close>

lemma Enqueue_check_iff:
  assumes "queue_inv q" "no_overflow q"
  shows "generation_at q t + bit_mask q \<le> t \<longleftrightarrow> gen q (unat t) + length (queue q) \<le> unat t + 1"
proof -
  note inv = queue_invD [OF assms(1)]
  have m: "Suc (unat (bit_mask q)) = length (queue q)" by (rule shape_okD(2) [OF inv(1)])
  have "gen q (unat t) + unat (bit_mask q) < 2 ^ 64"
    using gen_bounds(1) [OF assms(1), of "unat t"] no_overflowD(1) [OF assms] m inv(3) by linarith
  then have "unat (generation_at q t + bit_mask q) = gen q (unat t) + unat (bit_mask q)"
    by (simp add: unat_plus_if' unat_generation_at [OF inv(1)])
  then show ?thesis unfolding word_le_nat_alt using m by linarith
qed

lemma Dequeue_check_iff:
  assumes "queue_inv q" "no_overflow q" "unat h \<le> unat (head q)"
  shows "generation_at q h < h + 1 \<longleftrightarrow> gen q (unat h) \<le> unat h"
proof -
  note inv = queue_invD [OF assms(1)]
  have "unat (h + 1) = unat h + 1"
    using assms(3) inv(3) no_overflowD(1) [OF assms(1,2)] shape_okD(1) [OF inv(1)]
    by (simp add: unat_plus_if')
  then show ?thesis by (simp add: word_less_nat_alt unat_generation_at [OF inv(1)] less_Suc_eq_le)
qed

text \<open>Once the check has passed and the counter has not moved, the cell is free, or filled.\<close>

lemma Enqueue_check_ok:
  assumes "queue_inv q" "\<not> gen q (unat (tail q)) + length (queue q) \<le> unat (tail q) + 1"
  shows "gen q (unat (tail q)) = unat (tail q)"
proof -
  note inv = queue_invD [OF assms(1)]
  show ?thesis
  proof (cases "unat (tail q) < unat (head q) + length (queue q)")
    case True
    then show ?thesis using cells_okD(3) [OF inv(2), of "unat (tail q)"] assms(2) by auto
  next
    case False
    then have t: "unat (tail q) = unat (head q) + length (queue q)" using inv(4) by simp
    have "gen q (unat (tail q)) = gen q (unat (head q))" by (rule gen_mod) (simp add: t)
    moreover have "gen q (unat (head q)) \<le> unat (head q) + 1"
      using cells_okD(1) [OF inv(2), of "unat (head q)"] t shape_okD(4) [OF inv(1)] by auto
    ultimately show ?thesis using assms(2) t by simp
  qed
qed

lemma Dequeue_check_ok:
  assumes "queue_inv q" "\<not> gen q (unat (head q)) \<le> unat (head q)"
  shows "unat (head q) < unat (tail q)" "gen q (unat (head q)) = unat (head q) + 1"
proof -
  note inv = queue_invD [OF assms(1)]
  show l: "unat (head q) < unat (tail q)"
  proof (rule ccontr)
    assume "\<not> unat (head q) < unat (tail q)"
    then have e: "unat (head q) = unat (tail q)" using inv(3) by simp
    show False
      using cells_okD(3) [OF inv(2), of "unat (head q)"] e assms(2) shape_okD(1,4) [OF inv(1)] by auto
  qed
  show "gen q (unat (head q)) = unat (head q) + 1"
    using cells_okD(1) [OF inv(2) _ l] assms(2) by auto
qed

text \<open>Taking the next ticket of \<open>Enqueue\<close>.\<close>

lemma take_tail:
  assumes q: "queue_inv q" "no_overflow q" and g: "gen q (unat (tail q)) = unat (tail q)"
    and q': "q' = q\<lparr>tail := tail q + 1, sent := sent q @ [v]\<rparr>"
  shows "unat (tail q) < unat (head q) + length (queue q)" "queue_inv q'" "thread_ok q p \<Longrightarrow> thread_ok q' p"
proof -
  note inv = queue_invD [OF q(1)] and T = no_overflowD(2) [OF q]
  have n: "2 \<le> length (queue q)" by (rule shape_okD(1) [OF inv(1)])
  have gv: "gen q' = gen q" "val q' = val q" using gen_cong [of q' q] by (simp_all add: q')
  show room: "unat (tail q) < unat (head q) + length (queue q)"
  proof (rule ccontr)
    assume "\<not> ?thesis"
    then have t: "unat (tail q) = unat (head q) + length (queue q)" using inv(4) by simp
    have "gen q (unat (tail q)) = gen q (unat (head q))" by (rule gen_mod) (simp add: t)
    then show False using cells_okD(1) [OF inv(2), of "unat (head q)"] g t n shape_okD(4) [OF inv(1)] by auto
  qed
  have "cells_ok q'"
    unfolding cells_ok_def gv
  proof (intro conjI allI impI)
    fix t
    assume "unat (head q') \<le> t \<and> t < unat (tail q')"
    then consider "t = unat (tail q)" | "unat (head q) \<le> t" "t < unat (tail q)" using T by (force simp: q' less_Suc_eq)
    then show "gen q t = t \<or> gen q t = t + 1 \<and> val q t = sent q' ! t"
      using g cells_okD(1,2) [OF inv(2), of t] inv(5) by cases (auto simp: q' nth_append)
  next
    fix t
    assume "unat (tail q') \<le> t \<and> t < unat (head q') + length (queue q')"
    then show "gen q t = t \<or> gen q t + length (queue q') = t + 1"
      using cells_okD(3) [OF inv(2), of t] T by (simp add: q')
  qed
  moreover have "received_ok q'" using inv(3,5,6) by (fastforce simp: received_ok_def q' nth_append)
  ultimately show "queue_inv q'" using inv room T by (auto simp: queue_inv_def q' shape_ok_def)
  show "thread_ok q' p" if "thread_ok q p"
  proof (cases p)
    case (E_cas v t)
    then have "t \<noteq> tail q + 1" using that T by auto
    then show ?thesis using E_cas that T by (auto simp: q')
  next
    case (D_read h)
    have "unat (tail q) \<noteq> unat h + length (queue q)"
      using that D_read g gen_mod [of "unat (tail q)" q "unat h"] n by auto
    then show ?thesis using D_read that T inv(3,5) by (auto simp: gv) (auto simp: q' nth_append)
  next
    case (D_publish v h)
    have "unat (tail q) \<noteq> unat h + length (queue q)"
      using that D_publish g gen_mod [of "unat (tail q)" q "unat h"] n by auto
    then show ?thesis using D_publish that T inv(3,5) by (auto simp: gv) (auto simp: q' nth_append)
  qed (use that T inv(5) in \<open>auto simp: gv\<close>, auto simp: q' nth_append)
qed

text \<open>Taking the next ticket of \<open>Dequeue\<close>.\<close>

lemma take_head:
  assumes q: "queue_inv q" "no_overflow q" and g: "gen q (unat (head q)) = unat (head q) + 1"
    and q': "q' = q\<lparr>head := head q + 1\<rparr>"
  shows "queue_inv q'" "thread_ok q p \<Longrightarrow> thread_ok q' p" "thread_ok q' (D_read (head q))"
proof -
  note inv = queue_invD [OF q(1)] and H = no_overflowD(3) [OF q]
  have l: "unat (head q) < unat (tail q)" using Dequeue_check_ok(1) [OF q(1)] g by simp
  have gv: "gen q' = gen q" "val q' = val q" using gen_cong [of q' q] by (simp_all add: q')
  have "cells_ok q'"
    unfolding cells_ok_def gv
  proof (intro conjI allI impI)
    fix t
    assume "unat (head q') \<le> t \<and> t < unat (tail q')"
    then show "gen q t = t \<or> gen q t = t + 1 \<and> val q t = sent q' ! t"
      using cells_okD(1,2) [OF inv(2), of t] H by (auto simp: q')
  next
    fix t
    assume "unat (tail q') \<le> t \<and> t < unat (head q') + length (queue q')"
    then consider "t = unat (head q) + length (queue q)"
      | "unat (tail q) \<le> t" "t < unat (head q) + length (queue q)" using H by (force simp: q' less_Suc_eq)
    then show "gen q t = t \<or> gen q t + length (queue q') = t + 1"
    proof cases
      case 1
      have "gen q t = gen q (unat (head q))" by (rule gen_mod) (simp add: 1)
      then show ?thesis using g 1 by (simp add: q')
    qed (use cells_okD(3) [OF inv(2), of t] in \<open>simp add: q'\<close>)
  qed
  moreover have "received_ok q'" using inv(6) H by (fastforce simp: received_ok_def q')
  ultimately show "queue_inv q'" using inv l H by (auto simp: queue_inv_def q' shape_ok_def)
  show "thread_ok q' p" if "thread_ok q p"
  proof (cases p)
    case (E_store v t)
    then have "unat t \<noteq> unat (head q)" using that g by auto
    then show ?thesis using E_store that H by (auto simp: gv) (auto simp: q')
  next
    case (E_publish t)
    then have "unat t \<noteq> unat (head q)" using that g by auto
    then show ?thesis using E_publish that H by (auto simp: gv) (auto simp: q')
  next
    case (D_cas h)
    then have "h \<noteq> head q + 1" using that H by auto
    then show ?thesis using D_cas that H by (auto simp: q')
  qed (use that H in \<open>auto simp: gv\<close>, auto simp: q')
  show "thread_ok q' (D_read (head q))"
    using g H inv(4,6) cells_okD(2) [OF inv(2) _ l] by (simp add: gv) (auto simp: q' received_ok_def taken_def)
qed

text \<open>Writing a cell: what the others know of it does not change.\<close>

definition touches :: "'a MPMCBoundedQueue \<Rightarrow> nat \<Rightarrow> 'a pc \<Rightarrow> bool" where
  "touches q c p \<longleftrightarrow>
    (case p of
       E_cas _ t \<Rightarrow> t = tail q \<and> unat t mod length (queue q) = c
     | E_store _ t \<Rightarrow> unat t mod length (queue q) = c
     | E_publish t \<Rightarrow> unat t mod length (queue q) = c
     | D_cas h \<Rightarrow> h = head q \<and> unat h mod length (queue q) = c
     | D_read h \<Rightarrow> unat h mod length (queue q) = c
     | D_publish _ h \<Rightarrow> unat h mod length (queue q) = c
     | _ \<Rightarrow> False)"

lemma update_untouched:
  assumes "shape_ok q" "thread_ok q p" "\<not> touches q (unat t mod length (queue q)) p"
  shows "thread_ok (update_at f t q) p"
  using assms by (cases p) (auto simp: touches_def gen_update_at val_update_at)

lemma window_unique:
  assumes "queue_inv q" "unat (head q) \<le> t" "t < unat (head q) + length (queue q)"
    "unat (head q) \<le> u" "u < unat (head q) + length (queue q)" "t mod length (queue q) = u mod length (queue q)"
  shows "t = u"
  using assms mod_window [of t "length (queue q)" u] mod_window [of u "length (queue q)" t]
  by (cases "t \<le> u") auto

text \<open>A thread that fills the cell of ticket \<open>t\<close> is alone there.\<close>

lemma enqueuer_alone:
  assumes q: "queue_inv q" and t: "unat (head q) \<le> unat t" "unat t < unat (tail q)" "gen q (unat t) = unat t"
    and p: "thread_ok q p" "enqueue_ticket p \<noteq> Some t"
  shows "\<not> touches q (unat t mod length (queue q)) p"
proof
  note inv = queue_invD [OF q]
  have n: "2 \<le> length (queue q)" by (rule shape_okD(1) [OF inv(1)])
  have gen: "gen q (unat u) = unat t" if "unat u mod length (queue q) = unat t mod length (queue q)" for u
    using gen_mod [OF that] t(3) by simp
  have same: "u = t" if "unat (head q) \<le> unat u" "unat u < unat (tail q)"
    "unat u mod length (queue q) = unat t mod length (queue q)" for u
    using window_unique [OF q that(1) _ t(1) _ that(3)] that(2) t(2) inv(4) by (simp add: word_unat_eq_iff)
  have dequeuer: False if "unat h mod length (queue q) = unat t mod length (queue q)" "gen q (unat h) = unat h + 1" for h
    using gen [OF that(1)] that mod_Suc_neq [OF n, of "unat h"] by simp
  assume touch: "touches q (unat t mod length (queue q)) p"
  show False
  proof (cases p)
    case (E_cas v u)
    then show False using touch p(1) gen [of u] t(2) by (auto simp: touches_def)
  next
    case (E_store v u)
    then show False using touch p same [of u] by (auto simp: touches_def)
  next
    case (E_publish u)
    then show False using touch p same [of u] by (auto simp: touches_def)
  qed (use touch p(1) dequeuer in \<open>auto simp: touches_def\<close>)
qed

text \<open>A thread that empties the cell of ticket \<open>h\<close> is alone there, but for those about to fail.\<close>

lemma dequeuer_alone:
  assumes q: "queue_inv q" and h: "unat h < unat (head q)" "unat (tail q) \<le> unat h + length (queue q)"
      "gen q (unat h) = unat h + 1"
    and p: "thread_ok q p" "dequeue_ticket p \<noteq> Some h"
  shows "\<not> touches q (unat h mod length (queue q)) p"
proof
  note inv = queue_invD [OF q]
  have n: "2 \<le> length (queue q)" by (rule shape_okD(1) [OF inv(1)])
  have gen: "gen q (unat u) = unat h + 1" if "unat u mod length (queue q) = unat h mod length (queue q)" for u
    using gen_mod [OF that] h(3) by simp
  have enqueuer: False if "unat u mod length (queue q) = unat h mod length (queue q)" "gen q (unat u) = unat u" for u
    using gen [OF that(1)] that mod_Suc_neq [OF n, of "unat h"] by simp
  have same: "u = h" if "unat u mod length (queue q) = unat h mod length (queue q)" "gen q (unat u) = unat u + 1" for u
    using gen [OF that(1)] that(2) by (simp add: word_unat_eq_iff)
  assume touch: "touches q (unat h mod length (queue q)) p"
  show False
    using touch p h(1) enqueuer same by (cases p) (auto simp: touches_def)
qed

lemma received_ok_update [simp]: "received_ok (update_at f t q) = received_ok q"
  by (simp add: received_ok_def)

lemma shape_ok_update [simp]: "shape_ok (update_at f t q) = shape_ok q"
  by (simp add: shape_ok_def)

lemma queue_inv_update:
  assumes "queue_inv q" "cells_ok (update_at f t q)"
  shows "queue_inv (update_at f t q)"
  using assms by (auto simp: queue_inv_def)

lemma cells_ok_update:
  assumes "queue_inv q"
    and "\<And>u. unat (head q) \<le> u \<Longrightarrow> u < unat (head q) + length (queue q) \<Longrightarrow>
      u mod length (queue q) = unat t mod length (queue q) \<Longrightarrow>
      (u < unat (tail q) \<longrightarrow> gen (update_at f t q) u = u \<or> gen (update_at f t q) u = u + 1 \<and>
         val (update_at f t q) u = sent q ! u) \<and>
      (unat (tail q) \<le> u \<longrightarrow> gen (update_at f t q) u = u)"
  shows "cells_ok (update_at f t q)"
proof -
  note inv = queue_invD [OF assms(1)]
  have other: "gen (update_at f t q) u = gen q u" "val (update_at f t q) u = val q u"
    if "u mod length (queue q) \<noteq> unat t mod length (queue q)" for u
    using that by (simp_all add: gen_update_at val_update_at inv(1))
  show ?thesis
    unfolding cells_ok_def
  proof (intro conjI allI impI)
    fix u
    assume "unat (head (update_at f t q)) \<le> u \<and> u < unat (tail (update_at f t q))"
    then have u: "unat (head q) \<le> u" "u < unat (tail q)" "u < unat (head q) + length (queue q)"
      using inv(4) by auto
    then show "gen (update_at f t q) u = u \<or>
      gen (update_at f t q) u = u + 1 \<and> val (update_at f t q) u = sent (update_at f t q) ! u"
      using assms(2) [OF u(1,3)] other [of u] cells_okD(1,2) [OF inv(2) u(1,2)]
      by (cases "u mod length (queue q) = unat t mod length (queue q)") auto
  next
    fix u
    assume "unat (tail (update_at f t q)) \<le> u \<and> u < unat (head (update_at f t q)) + length (queue (update_at f t q))"
    then have u: "unat (tail q) \<le> u" "unat (head q) \<le> u" "u < unat (head q) + length (queue q)"
      using inv(3) by auto
    then show "gen (update_at f t q) u = u \<or> gen (update_at f t q) u + length (queue (update_at f t q)) = u + 1"
      using assms(2) [OF u(2,3)] other [of u] cells_okD(3) [OF inv(2) u(1,3)] u(1)
      by (cases "u mod length (queue q) = unat t mod length (queue q)") auto
  qed
qed

text \<open>The two writes of \<open>Enqueue\<close> and the one of \<open>Dequeue\<close>.\<close>

lemma store_value:
  assumes q: "queue_inv q" and p: "thread_ok q (E_store v t)"
    and q': "q' = update_at (\<lambda>e. e\<lparr>elem_value := v\<rparr>) t q"
  shows "queue_inv q'" "thread_ok q' (E_publish t)"
    "thread_ok q r \<Longrightarrow> enqueue_ticket r \<noteq> Some t \<Longrightarrow> thread_ok q' r"
proof -
  note inv = queue_invD [OF q]
  have t: "unat (head q) \<le> unat t" "unat t < unat (tail q)" "gen q (unat t) = unat t" "sent q ! unat t = v"
    using p by auto
  have cell: "unat (generation (queue q ! index q t)) = unat t"
    using unat_generation_at [OF inv(1), of t] t(3) by (simp add: generation_at_def)
  show "thread_ok q' (E_publish t)" using t by (simp add: q' gen_update_at val_update_at inv(1) cell)
  have "cells_ok q'"
    unfolding q'
  proof (rule cells_ok_update [OF q])
    fix u
    assume u: "unat (head q) \<le> u" "u < unat (head q) + length (queue q)"
      "u mod length (queue q) = unat t mod length (queue q)"
    have "u = unat t" using window_unique [OF q u(1,2) t(1) _ u(3)] t(2) inv(4) by simp
    then show "(u < unat (tail q) \<longrightarrow> gen (update_at (\<lambda>e. e\<lparr>elem_value := v\<rparr>) t q) u = u \<or>
        gen (update_at (\<lambda>e. e\<lparr>elem_value := v\<rparr>) t q) u = u + 1 \<and>
        val (update_at (\<lambda>e. e\<lparr>elem_value := v\<rparr>) t q) u = sent q ! u) \<and>
      (unat (tail q) \<le> u \<longrightarrow> gen (update_at (\<lambda>e. e\<lparr>elem_value := v\<rparr>) t q) u = u)"
      using t cell by (simp add: gen_update_at inv(1))
  qed
  then show "queue_inv q'" unfolding q' by (rule queue_inv_update [OF q])
  show "thread_ok q' r" if "thread_ok q r" "enqueue_ticket r \<noteq> Some t"
    unfolding q' by (rule update_untouched [OF inv(1) that(1) enqueuer_alone [OF q t(1,2,3) that]])
qed

lemma publish_enqueue:
  assumes q: "queue_inv q" "no_overflow q" and p: "thread_ok q (E_publish t)"
    and q': "q' = update_at (\<lambda>e. e\<lparr>generation := generation e + 1\<rparr>) t q"
  shows "gen q' (unat t) = unat t + 1" "queue_inv q'" "thread_ok q r \<Longrightarrow> enqueue_ticket r \<noteq> Some t \<Longrightarrow> thread_ok q' r"
proof -
  note inv = queue_invD [OF q(1)]
  have t: "unat (head q) \<le> unat t" "unat t < unat (tail q)" "gen q (unat t) = unat t"
    "val q (unat t) = sent q ! unat t"
    using p by auto
  have cell: "unat (generation (queue q ! index q t)) = unat t" "elem_value (queue q ! index q t) = sent q ! unat t"
    using unat_generation_at [OF inv(1), of t] t(3,4)
    by (simp_all add: generation_at_def val_def shape_okD(3) [OF inv(1)])
  have next_gen: "unat (generation (queue q ! index q t) + 1) = unat t + 1"
    using t(2) no_overflowD(1) [OF q] shape_okD(1) [OF inv(1)] by (simp add: unat_plus_if' cell(1))
  show "gen q' (unat t) = unat t + 1" using next_gen by (simp add: q' gen_update_at inv(1))
  have "cells_ok q'"
    unfolding q'
  proof (rule cells_ok_update [OF q(1)])
    fix u
    assume u: "unat (head q) \<le> u" "u < unat (head q) + length (queue q)"
      "u mod length (queue q) = unat t mod length (queue q)"
    have "u = unat t" using window_unique [OF q(1) u(1,2) t(1) _ u(3)] t(2) inv(4) by simp
    then show "(u < unat (tail q) \<longrightarrow> gen (update_at (\<lambda>e. e\<lparr>generation := generation e + 1\<rparr>) t q) u = u \<or>
        gen (update_at (\<lambda>e. e\<lparr>generation := generation e + 1\<rparr>) t q) u = u + 1 \<and>
        val (update_at (\<lambda>e. e\<lparr>generation := generation e + 1\<rparr>) t q) u = sent q ! u) \<and>
      (unat (tail q) \<le> u \<longrightarrow> gen (update_at (\<lambda>e. e\<lparr>generation := generation e + 1\<rparr>) t q) u = u)"
      using t next_gen cell by (simp add: gen_update_at val_update_at inv(1))
  qed
  then show "queue_inv q'" unfolding q' by (rule queue_inv_update [OF q(1)])
  show "thread_ok q' r" if "thread_ok q r" "enqueue_ticket r \<noteq> Some t"
    unfolding q' by (rule update_untouched [OF inv(1) that(1) enqueuer_alone [OF q(1) t(1,2,3) that]])
qed

lemma publish_dequeue:
  assumes q: "queue_inv q" "no_overflow q" and p: "thread_ok q (D_publish v h)"
    and q': "q' = update_at (\<lambda>e. e\<lparr>generation := generation e + bit_mask q\<rparr>) h q"
  shows "gen q' (unat h) = unat h + length (queue q)" "queue_inv q'"
    "thread_ok q r \<Longrightarrow> dequeue_ticket r \<noteq> Some h \<Longrightarrow> thread_ok q' r"
proof -
  note inv = queue_invD [OF q(1)]
  let ?f = "\<lambda>e. e\<lparr>generation := generation e + bit_mask q\<rparr>"
  have h: "unat h < unat (head q)" "unat (tail q) \<le> unat h + length (queue q)" "gen q (unat h) = unat h + 1"
    using p by auto
  have cell: "unat (generation (queue q ! index q h)) = unat h + 1"
    using unat_generation_at [OF inv(1), of h] h(3) by (simp add: generation_at_def)
  have next_gen: "unat (generation (queue q ! index q h) + bit_mask q) = unat h + length (queue q)"
  proof -
    have "unat h + 1 + unat (bit_mask q) < 2 ^ 64"
      using h(1) inv(3) no_overflowD(1) [OF q] shape_okD(1,2) [OF inv(1)] by linarith
    then show ?thesis using shape_okD(2) [OF inv(1)] by (simp add: unat_plus_if' cell)
  qed
  show "gen q' (unat h) = unat h + length (queue q)" using next_gen by (simp add: q' gen_update_at inv(1))
  have "cells_ok q'"
    unfolding q'
  proof (rule cells_ok_update [OF q(1)])
    fix u
    assume u: "unat (head q) \<le> u" "u < unat (head q) + length (queue q)"
      "u mod length (queue q) = unat h mod length (queue q)"
    have "u = unat h + length (queue q)"
      by (rule window_unique [OF q(1) u(1,2)]) (use h inv(3) u(3) in auto)
    then show "(u < unat (tail q) \<longrightarrow> gen (update_at ?f h q) u = u \<or>
        gen (update_at ?f h q) u = u + 1 \<and> val (update_at ?f h q) u = sent q ! u) \<and>
      (unat (tail q) \<le> u \<longrightarrow> gen (update_at ?f h q) u = u)"
      using h(2) next_gen by (simp add: gen_update_at inv(1))
  qed
  then show "queue_inv q'" unfolding q' by (rule queue_inv_update [OF q(1)])
  show "thread_ok q' r" if "thread_ok q r" "dequeue_ticket r \<noteq> Some h"
    unfolding q' by (rule update_untouched [OF inv(1) that(1) dequeuer_alone [OF q(1) h that]])
qed

lemma read_value:
  assumes q: "queue_inv q" and p: "thread_ok q (D_read h)"
    and q': "q' = q\<lparr>received := received q @ [(h, elem_value (queue q ! index q h))]\<rparr>"
  shows "queue_inv q'" "thread_ok q' (D_publish (elem_value (queue q ! index q h)) h)"
    "thread_ok q r \<Longrightarrow> dequeue_ticket r \<noteq> Some h \<Longrightarrow> thread_ok q' r"
proof -
  note inv = queue_invD [OF q]
  have gv: "gen q' = gen q" "val q' = val q" using gen_cong [of q' q] by (simp_all add: q')
  have v: "elem_value (queue q ! index q h) = sent q ! unat h"
    using p by (simp add: val_def shape_okD(3) [OF inv(1)])
  have c: "cells_ok q'" using inv(2) unfolding cells_ok_def gv by (simp add: q')
  have "received_ok q'" using inv(6) p v by (auto simp: received_ok_def q' taken_def)
  then show "queue_inv q'" using q c by (auto simp: queue_inv_def q' shape_ok_def)
  show "thread_ok q' (D_publish (elem_value (queue q ! index q h)) h)"
    using p v by (simp add: gv) (simp add: q')
  show "thread_ok q' r" if "thread_ok q r" "dequeue_ticket r \<noteq> Some h"
    using that by (cases r) (auto simp: gv, auto simp: q')
qed

lemma no_overflow_update [simp]: "no_overflow (update_at f t q) = no_overflow q"
  by (simp add: no_overflow_def)

lemma no_overflow_mono: "mpmc_step q p q' p' \<Longrightarrow> no_overflow q' \<Longrightarrow> no_overflow q"
proof (induction rule: mpmc_step.induct)
  case (enqueue spurious p q p' q')
  then show ?case by (cases p) (auto simp: no_overflow_def split: if_splits)
next
  case (dequeue spurious p q p' q')
  then show ?case by (cases p) (auto simp: no_overflow_def Let_def split: if_splits)
qed auto

definition tickets_differ :: "'a pc \<Rightarrow> 'a pc \<Rightarrow> bool" where
  "tickets_differ p p' \<longleftrightarrow>
    (enqueue_ticket p = None \<or> enqueue_ticket p \<noteq> enqueue_ticket p') \<and>
    (dequeue_ticket p = None \<or> dequeue_ticket p \<noteq> dequeue_ticket p')"

lemma mpmc_R_eq: "mpmc_R q p p' \<longleftrightarrow> (no_overflow q \<longrightarrow> tickets_differ p p')"
  by (simp add: mpmc_R_def tickets_differ_def)

text \<open>What a step of one thread does to the invariant, to the thread itself and to another one.\<close>

definition step_ok :: "'a MPMCBoundedQueue \<Rightarrow> 'a pc \<Rightarrow> 'a MPMCBoundedQueue \<Rightarrow> 'a pc \<Rightarrow> bool" where
  "step_ok q p q' p' \<longleftrightarrow>
    queue_inv q' \<and> thread_ok q' p' \<and>
    (\<forall>r. thread_ok q r \<and> tickets_differ p r \<longrightarrow> thread_ok q' r \<and> tickets_differ p' r)"

lemma step_ok_stay:
  assumes "queue_inv q" "thread_ok q p'" "enqueue_ticket p' = None" "dequeue_ticket p' = None"
  shows "step_ok q p q p'"
  using assms by (simp add: step_ok_def tickets_differ_def)

lemma Enqueue_ok:
  assumes "Enqueue spurious p q = (p', q')" "queue_inv q" "no_overflow q" "thread_ok q p"
  shows "step_ok q p q' p'"
proof (cases p)
  case (E_check v t)
  have "thread_ok q (E_cas v t)" if "\<not> generation_at q t + bit_mask q \<le> t"
    using that Enqueue_check_iff [OF assms(2,3), of t] Enqueue_check_ok [OF assms(2)] assms(4) E_check by auto
  then show ?thesis using E_check assms(1,2) by (auto intro: step_ok_stay split: if_splits)
next
  case (E_cas v t)
  show ?thesis
  proof (cases "tail q = t \<and> \<not> spurious")
    case True
    then have g: "gen q (unat (tail q)) = unat (tail q)" and p': "p' = E_store v (tail q)"
      and q': "q' = q\<lparr>tail := tail q + 1, sent := sent q @ [v]\<rparr>"
      using E_cas assms(1,4) by auto
    note take = take_tail [OF assms(2,3) g q']
    have gv: "gen q' = gen q" using gen_cong [of q' q] by (simp add: q')
    have "thread_ok q' p'"
      using g queue_invD(3,5) [OF assms(2)] no_overflowD(2) [OF assms(2,3)]
      by (simp add: p' gv) (simp add: q')
    moreover have "tickets_differ p' r" if "thread_ok q r" for r
      using that by (cases r) (auto simp: p' tickets_differ_def)
    ultimately show ?thesis using take(2,3) by (auto simp: step_ok_def)
  next
    case False
    then show ?thesis using E_cas assms(1,2) by (auto intro!: step_ok_stay)
  qed
next
  case (E_store v t)
  then show ?thesis
    using assms(1,2,4) store_value [OF assms(2), of v t] by (auto simp: step_ok_def tickets_differ_def)
next
  case (E_publish t)
  then show ?thesis
    using assms(1,4) publish_enqueue(2,3) [OF assms(2,3), of t] by (auto simp: step_ok_def tickets_differ_def)
qed (use assms in \<open>auto simp: step_ok_def tickets_differ_def\<close>)

lemma Dequeue_ok:
  assumes "Dequeue spurious p q = (p', q')" "queue_inv q" "no_overflow q" "thread_ok q p"
  shows "step_ok q p q' p'"
proof (cases p)
  case (D_check h)
  have "thread_ok q (D_cas h)" if "\<not> generation_at q h < h + 1"
    using that Dequeue_check_iff [OF assms(2,3), of h] Dequeue_check_ok(2) [OF assms(2)] assms(4) D_check by auto
  then show ?thesis using D_check assms(1,2) by (auto intro: step_ok_stay split: if_splits)
next
  case (D_cas h)
  show ?thesis
  proof (cases "head q = h \<and> \<not> spurious")
    case True
    then have g: "gen q (unat (head q)) = unat (head q) + 1" and p': "p' = D_read (head q)"
      and q': "q' = q\<lparr>head := head q + 1\<rparr>"
      using D_cas assms(1,4) by auto
    have "tickets_differ p' r" if "thread_ok q r" for r
      using that by (cases r) (auto simp: p' tickets_differ_def)
    then show ?thesis using take_head [OF assms(2,3) g q'] by (auto simp: step_ok_def p')
  next
    case False
    then show ?thesis using D_cas assms(1,2) by (auto intro!: step_ok_stay)
  qed
next
  case (D_read h)
  then show ?thesis
    using assms(1,4) read_value [OF assms(2), of h] by (auto simp: step_ok_def tickets_differ_def Let_def)
next
  case (D_publish v h)
  then show ?thesis
    using assms(1,4) publish_dequeue(2,3) [OF assms(2,3), of v h] by (auto simp: step_ok_def tickets_differ_def)
qed (use assms in \<open>auto simp: step_ok_def tickets_differ_def\<close>)

lemma mpmc_step_ok:
  assumes "mpmc_step q p q' p'" "queue_inv q" "no_overflow q" "thread_ok q p"
  shows "step_ok q p q' p'"
  using assms
  by (cases rule: mpmc_step.cases) (auto intro: step_ok_stay Enqueue_ok Dequeue_ok)

lemma step_okD:
  assumes "step_ok q p q' p'"
  shows "queue_inv q'" "thread_ok q' p'" "thread_ok q r \<Longrightarrow> tickets_differ p r \<Longrightarrow> thread_ok q' r"
    "thread_ok q r \<Longrightarrow> tickets_differ p r \<Longrightarrow> tickets_differ p' r"
  using assms by (auto simp: step_ok_def)

interpretation mpmc: thread_invariant mpmc_step mpmc_G mpmc_L mpmc_R
proof
  fix q q' :: "'a MPMCBoundedQueue" and p p' r r' :: "'a pc"
  assume st: "mpmc_step q p q' p'"
  have ok: "step_ok q p q' p'" "no_overflow q" if "mpmc_G q" "mpmc_L q p" "no_overflow q'"
    using no_overflow_mono [OF st that(3)] mpmc_step_ok [OF st] that by (auto simp: mpmc_G_def mpmc_L_def)
  show "mpmc_G q'" if "mpmc_G q" "mpmc_L q p"
    using ok [OF that] step_okD(1) by (auto simp: mpmc_G_def)
  show "mpmc_L q' p'" if "mpmc_G q" "mpmc_L q p"
    using ok [OF that] step_okD(2) by (auto simp: mpmc_L_def)
  show "mpmc_L q' r" if "mpmc_G q" "mpmc_L q p" "mpmc_L q r" "mpmc_R q p r"
    using ok [OF that(1,2)] step_okD(3) that(3,4) by (auto simp: mpmc_L_def mpmc_R_eq)
  show "mpmc_R q' p' r" if "mpmc_G q" "mpmc_L q p" "mpmc_L q r" "mpmc_R q p r"
    using ok [OF that(1,2)] step_okD(4) that(3,4) by (auto simp: mpmc_L_def mpmc_R_eq)
  show "mpmc_R q' r r'" if "mpmc_R q r r'"
    using no_overflow_mono [OF st] that by (auto simp: mpmc_R_eq)
qed (auto simp: mpmc_R_def)

section \<open>Tickets in use\<close>

text \<open>
  A cell that is between two states, and a ticket of \<open>Dequeue\<close> that has not been read, is in the hands
  of a thread.
\<close>

definition enqueuing :: "(nat \<Rightarrow> 'a pc) \<Rightarrow> nat \<Rightarrow> bool" where
  "enqueuing pcs t \<longleftrightarrow> (\<exists>u w. enqueue_ticket (pcs u) = Some w \<and> unat w = t)"

definition dequeuing :: "(nat \<Rightarrow> 'a pc) \<Rightarrow> nat \<Rightarrow> bool" where
  "dequeuing pcs t \<longleftrightarrow> (\<exists>u w. dequeue_ticket (pcs u) = Some w \<and> unat w = t)"

definition emptying :: "nat \<Rightarrow> (nat \<Rightarrow> 'a pc) \<Rightarrow> nat \<Rightarrow> bool" where
  "emptying n pcs t \<longleftrightarrow> n \<le> t \<and> dequeuing pcs (t - n)"

definition reading :: "(nat \<Rightarrow> 'a pc) \<Rightarrow> size_t \<Rightarrow> bool" where
  "reading pcs h \<longleftrightarrow> (\<exists>u. pcs u = D_read h)"

definition in_hands :: "'a MPMCBoundedQueue \<Rightarrow> (nat \<Rightarrow> 'a pc) \<Rightarrow> bool" where
  "in_hands q pcs \<longleftrightarrow>
    (\<forall>t. unat (head q) \<le> t \<and> t < unat (tail q) \<and> gen q t = t \<longrightarrow> enqueuing pcs t) \<and>
    (\<forall>t. unat (tail q) \<le> t \<and> t < unat (head q) + length (queue q) \<and> gen q t + length (queue q) = t + 1 \<longrightarrow>
       emptying (length (queue q)) pcs t) \<and>
    (\<forall>h. unat h < unat (head q) \<longrightarrow> taken q h \<or> reading pcs h)"

lemma in_handsD:
  assumes "in_hands q pcs"
  shows "unat (head q) \<le> t \<Longrightarrow> t < unat (tail q) \<Longrightarrow> gen q t = t \<Longrightarrow> enqueuing pcs t"
    "unat (tail q) \<le> t \<Longrightarrow> t < unat (head q) + length (queue q) \<Longrightarrow>
       gen q t + length (queue q) = t + 1 \<Longrightarrow> emptying (length (queue q)) pcs t"
    "unat h < unat (head q) \<Longrightarrow> taken q h \<or> reading pcs h"
  using assms by (auto simp: in_hands_def)

lemma enqueuing_upd:
  assumes "enqueuing pcs t" "enqueue_ticket (pcs u) = enqueue_ticket p \<or> map_option unat (enqueue_ticket (pcs u)) \<noteq> Some t"
  shows "enqueuing (pcs(u := p)) t"
proof -
  obtain u' w where u': "enqueue_ticket (pcs u') = Some w" "unat w = t" using assms(1) by (auto simp: enqueuing_def)
  then have "enqueue_ticket ((pcs(u := p)) u') = Some w" using assms(2) by (auto simp: fun_upd_apply)
  then show ?thesis using u'(2) unfolding enqueuing_def by blast
qed

lemma dequeuing_upd:
  assumes "dequeuing pcs t" "dequeue_ticket (pcs u) = dequeue_ticket p \<or> map_option unat (dequeue_ticket (pcs u)) \<noteq> Some t"
  shows "dequeuing (pcs(u := p)) t"
proof -
  obtain u' w where u': "dequeue_ticket (pcs u') = Some w" "unat w = t" using assms(1) by (auto simp: dequeuing_def)
  then have "dequeue_ticket ((pcs(u := p)) u') = Some w" using assms(2) by (auto simp: fun_upd_apply)
  then show ?thesis using u'(2) unfolding dequeuing_def by blast
qed

lemma emptying_upd:
  assumes "emptying n pcs t" "dequeue_ticket (pcs u) = dequeue_ticket p \<or> (\<forall>w. dequeue_ticket (pcs u) = Some w \<longrightarrow> unat w + n \<noteq> t)"
  shows "emptying n (pcs(u := p)) t"
proof -
  have "map_option unat (dequeue_ticket (pcs u)) \<noteq> Some (t - n)"
    if "\<forall>w. dequeue_ticket (pcs u) = Some w \<longrightarrow> unat w + n \<noteq> t"
    using that assms(1) by (auto simp: emptying_def)
  then show ?thesis using assms dequeuing_upd [of pcs "t - n" u p] by (auto simp: emptying_def)
qed

lemma reading_upd: "reading pcs h \<Longrightarrow> pcs u \<noteq> D_read h \<or> p = D_read h \<Longrightarrow> reading (pcs(u := p)) h"
  by (auto simp: reading_def fun_upd_apply)

lemma in_hands_stay:
  assumes "in_hands q pcs" "enqueue_ticket (pcs u) = enqueue_ticket p" "dequeue_ticket (pcs u) = dequeue_ticket p"
    "\<And>h. pcs u \<noteq> D_read h \<or> p = D_read h"
  shows "in_hands q (pcs(u := p))"
  unfolding in_hands_def
  using in_handsD [OF assms(1)] enqueuing_upd emptying_upd reading_upd assms(2-4) by metis

lemma Enqueue_in_hands:
  assumes st: "Enqueue spurious (pcs u) q = (p', q')" and q: "queue_inv q" "no_overflow q" "thread_ok q (pcs u)"
    and i: "in_hands q pcs"
  shows "in_hands q' (pcs(u := p'))"
proof (cases "pcs u")
  case (E_cas v t)
  show ?thesis
  proof (cases "tail q = t \<and> \<not> spurious")
    case True
    then have g: "gen q (unat (tail q)) = unat (tail q)" and p': "p' = E_store v (tail q)"
      and q': "q' = q\<lparr>tail := tail q + 1, sent := sent q @ [v]\<rparr>"
      using E_cas st q(3) by auto
    have gv: "gen q' = gen q" using gen_cong [of q' q] by (simp add: q')
    have T: "unat (tail q') = unat (tail q) + 1" using no_overflowD(2) [OF q(1,2)] by (simp add: q')
    have new: "enqueuing (pcs(u := p')) (unat (tail q))"
      by (auto simp: enqueuing_def p' intro!: exI [of _ u])
    show ?thesis
      unfolding in_hands_def gv T
    proof (intro conjI allI impI)
      fix t
      assume "unat (head q') \<le> t \<and> t < unat (tail q) + 1 \<and> gen q t = t"
      then consider "t = unat (tail q)" | "unat (head q) \<le> t" "t < unat (tail q)" "gen q t = t"
        by (force simp: q' less_Suc_eq)
      then show "enqueuing (pcs(u := p')) t"
        using new in_handsD(1) [OF i] enqueuing_upd [of pcs t u p'] E_cas by cases auto
    next
      fix t
      assume a: "unat (tail q) + 1 \<le> t \<and> t < unat (head q') + length (queue q') \<and> gen q t + length (queue q') = t + 1"
      have "emptying (length (queue q)) pcs t" by (rule in_handsD(2) [OF i]) (use a in \<open>auto simp: q'\<close>)
      then show "emptying (length (queue q')) (pcs(u := p')) t"
        using emptying_upd [of "length (queue q)" pcs _ u p'] E_cas by (simp add: q' p')
    next
      fix h :: size_t
      assume "unat h < unat (head q')"
      then show "taken q' h \<or> reading (pcs(u := p')) h"
        using in_handsD(3) [OF i, of h] reading_upd [of pcs h u p'] E_cas by (auto simp: q')
    qed
  next
    case False
    then show ?thesis using E_cas st i by (auto intro!: in_hands_stay)
  qed
next
  case (E_store v t)
  then have p': "p' = E_publish t" and q': "q' = update_at (\<lambda>e. e\<lparr>elem_value := v\<rparr>) t q"
    using st by auto
  have "gen q' t' = gen q t'" for t'
    by (cases "t' mod length (queue q) = unat t mod length (queue q)")
      (simp_all add: q' gen_update_at queue_invD(1) [OF q(1)],
       simp add: gen_def shape_okD(3) [OF queue_invD(1) [OF q(1)]])
  then have "in_hands q' pcs" using i by (simp add: in_hands_def q')
  then show ?thesis using E_store p' by (auto intro!: in_hands_stay)
next
  case (E_publish t)
  then have p': "p' = Returned True" and q': "q' = update_at (\<lambda>e. e\<lparr>generation := generation e + 1\<rparr>) t q"
    using st by auto
  have t: "unat (head q) \<le> unat t" "unat t < unat (tail q)" using E_publish q(3) by auto
  have gt: "gen q' (unat t) = unat t + 1" using publish_enqueue(1) [OF q(1,2) _ q'] E_publish q(3) by simp
  have go: "gen q' t' = gen q t'" if "t' \<noteq> unat t" "unat (head q) \<le> t'" "t' < unat (head q) + length (queue q)" for t'
    using window_unique [OF q(1) that(2,3) t(1)] that(1) t(2) queue_invD(4) [OF q(1)]
    by (auto simp: q' gen_update_at queue_invD(1) [OF q(1)])
  note inv = queue_invD [OF q(1)]
  show ?thesis
    unfolding in_hands_def
  proof (intro conjI allI impI)
    fix t'
    assume a: "unat (head q') \<le> t' \<and> t' < unat (tail q') \<and> gen q' t' = t'"
    then have "t' \<noteq> unat t" using gt by auto
    then show "enqueuing (pcs(u := p')) t'"
      using a go [of t'] in_handsD(1) [OF i, of t'] enqueuing_upd [of pcs t' u p'] E_publish inv(4) by (auto simp: q')
  next
    fix t'
    assume a: "unat (tail q') \<le> t' \<and> t' < unat (head q') + length (queue q') \<and> gen q' t' + length (queue q') = t' + 1"
    then have "emptying (length (queue q)) pcs t'"
      using go [of t'] in_handsD(2) [OF i, of t'] inv(3) t(2) by (auto simp: q')
    then show "emptying (length (queue q')) (pcs(u := p')) t'"
      using emptying_upd [of "length (queue q)" pcs _ u p'] E_publish by (simp add: q' p')
  next
    fix h :: size_t
    assume "unat h < unat (head q')"
    then show "taken q' h \<or> reading (pcs(u := p')) h"
      using in_handsD(3) [OF i, of h] reading_upd [of pcs h u p'] E_publish by (auto simp: q')
  qed
qed (use st i in \<open>auto intro!: in_hands_stay split: if_splits\<close>)

lemma Dequeue_in_hands:
  assumes st: "Dequeue spurious (pcs u) q = (p', q')" and q: "queue_inv q" "no_overflow q" "thread_ok q (pcs u)"
    and i: "in_hands q pcs"
  shows "in_hands q' (pcs(u := p'))"
proof (cases "pcs u")
  case (D_cas h)
  show ?thesis
  proof (cases "head q = h \<and> \<not> spurious")
    case True
    then have g: "gen q (unat (head q)) = unat (head q) + 1" and p': "p' = D_read (head q)"
      and q': "q' = q\<lparr>head := head q + 1\<rparr>"
      using D_cas st q(3) by auto
    have gv: "gen q' = gen q" using gen_cong [of q' q] by (simp add: q')
    have H: "unat (head q') = unat (head q) + 1" using no_overflowD(3) [OF q(1,2)] by (simp add: q')
    have new: "dequeuing (pcs(u := p')) (unat (head q))" "reading (pcs(u := p')) (head q)"
      by (auto simp: dequeuing_def reading_def p' intro!: exI [of _ u])
    show ?thesis
      unfolding in_hands_def gv H
    proof (intro conjI allI impI)
      fix t
      assume a: "unat (head q) + 1 \<le> t \<and> t < unat (tail q') \<and> gen q t = t"
      have "enqueuing pcs t" by (rule in_handsD(1) [OF i]) (use a in \<open>auto simp: q'\<close>)
      then show "enqueuing (pcs(u := p')) t" using enqueuing_upd [of pcs t u p'] D_cas by (simp add: p')
    next
      fix t
      assume "unat (tail q') \<le> t \<and> t < unat (head q) + 1 + length (queue q') \<and> gen q t + length (queue q') = t + 1"
      then consider "t = unat (head q) + length (queue q)"
        | "unat (tail q) \<le> t" "t < unat (head q) + length (queue q)" "gen q t + length (queue q) = t + 1"
        by (force simp: q' less_Suc_eq)
      then show "emptying (length (queue q')) (pcs(u := p')) t"
      proof cases
        case 1
        then show ?thesis using new(1) by (simp add: q' emptying_def)
      next
        case 2
        then show ?thesis
          using in_handsD(2) [OF i, of t] emptying_upd [of "length (queue q)" pcs t u p'] D_cas by (simp add: q')
      qed
    next
      fix h :: size_t
      assume "unat h < unat (head q) + 1"
      then consider "h = head q" | "unat h < unat (head q)" by (force simp: less_Suc_eq word_unat_eq_iff)
      then show "taken q' h \<or> reading (pcs(u := p')) h"
        using new(2) in_handsD(3) [OF i, of h] reading_upd [of pcs h u p'] D_cas by cases (auto simp: q')
    qed
  next
    case False
    then show ?thesis using D_cas st i by (auto intro!: in_hands_stay)
  qed
next
  case (D_read h)
  define v where "v = elem_value (queue q ! index q h)"
  have p': "p' = D_publish v h" and q': "q' = q\<lparr>received := received q @ [(h, v)]\<rparr>"
    using st D_read by (auto simp: Let_def v_def)
  have gv: "gen q' = gen q" using gen_cong [of q' q] by (simp add: q')
  have same: "enqueuing (pcs(u := p')) t" if "enqueuing pcs t" for t
    using that enqueuing_upd [of pcs t u p'] D_read by (simp add: p')
  have same': "emptying (length (queue q)) (pcs(u := p')) t" if "emptying (length (queue q)) pcs t" for t
    using that emptying_upd [of _ pcs t u p'] D_read by (simp add: p')
  have "taken q' h' \<or> reading (pcs(u := p')) h'" if "unat h' < unat (head q)" for h'
    using in_handsD(3) [OF i that] reading_upd [of pcs h' u p'] D_read by (cases "h' = h") (auto simp: q')
  moreover have "head q' = head q" "tail q' = tail q" "queue q' = queue q" by (simp_all add: q')
  ultimately show ?thesis
    unfolding in_hands_def gv using in_handsD(1,2) [OF i] same same' by metis
next
  case (D_publish v h)
  then have p': "p' = Returned True"
    and q': "q' = update_at (\<lambda>e. e\<lparr>generation := generation e + bit_mask q\<rparr>) h q"
    using st by auto
  note inv = queue_invD [OF q(1)]
  have h: "unat h < unat (head q)" "unat (tail q) \<le> unat h + length (queue q)" using D_publish q(3) by auto
  have gh: "gen q' (unat h) = unat h + length (queue q)"
    using publish_dequeue(1) [OF q(1,2) _ q'] D_publish q(3) by simp
  have go: "gen q' t = gen q t" if "t \<noteq> unat h + length (queue q)" "unat (head q) \<le> t" "t < unat (head q) + length (queue q)" for t
    using window_unique [OF q(1) that(2,3), of "unat h + length (queue q)"] that(1) h inv(3)
    by (auto simp: q' gen_update_at inv(1))
  show ?thesis
    unfolding in_hands_def
  proof (intro conjI allI impI)
    fix t
    assume a: "unat (head q') \<le> t \<and> t < unat (tail q') \<and> gen q' t = t"
    then have "enqueuing pcs t"
      using go [of t] in_handsD(1) [OF i, of t] h(2) inv(4) by (auto simp: q')
    then show "enqueuing (pcs(u := p')) t" using enqueuing_upd [of pcs t u p'] D_publish by (simp add: p')
  next
    fix t
    assume a: "unat (tail q') \<le> t \<and> t < unat (head q') + length (queue q') \<and> gen q' t + length (queue q') = t + 1"
    have "gen q' (unat h + length (queue q)) = unat h + length (queue q)"
      using gh gen_mod [of "unat h + length (queue q)" q' "unat h"] by (simp add: q')
    then have t: "t \<noteq> unat h + length (queue q)" using a shape_okD(1) [OF inv(1)] by (auto simp: q')
    then have "emptying (length (queue q)) pcs t"
      using a go [of t] in_handsD(2) [OF i, of t] inv(3) by (auto simp: q')
    then show "emptying (length (queue q')) (pcs(u := p')) t"
      using emptying_upd [of "length (queue q)" pcs t u p'] D_publish t a h by (auto simp: q')
  next
    fix h' :: size_t
    assume "unat h' < unat (head q')"
    then show "taken q' h' \<or> reading (pcs(u := p')) h'"
      using in_handsD(3) [OF i, of h'] reading_upd [of pcs h' u p'] D_publish by (auto simp: q')
  qed
qed (use st i in \<open>auto intro!: in_hands_stay split: if_splits\<close>)

section \<open>Reachable states\<close>

lemma mpmc_step_in_hands:
  assumes "mpmc_step q (pcs u) q' p'" "queue_inv q" "no_overflow q" "thread_ok q (pcs u)" "in_hands q pcs"
  shows "in_hands q' (pcs(u := p'))"
  using assms(1)
proof (cases rule: mpmc_step.cases)
  case enqueue
  then show ?thesis using Enqueue_in_hands assms(2-5) by blast
next
  case dequeue
  then show ?thesis using Dequeue_in_hands assms(2-5) by blast
qed (use assms(5) in \<open>auto intro!: in_hands_stay\<close>)

lemma mpmc_step_length: "mpmc_step q p q' p' \<Longrightarrow> length (queue q') = length (queue q)"
proof (induction rule: mpmc_step.induct)
  case (enqueue spurious p q p' q')
  then show ?case by (cases p) (auto split: if_splits)
next
  case (dequeue spurious p q p' q')
  then show ?case by (cases p) (auto simp: Let_def split: if_splits)
qed auto

definition mpmc_start :: "nat \<Rightarrow> 'a \<Rightarrow> 'a MPMCBoundedQueue \<times> (nat \<Rightarrow> 'a pc)" where
  "mpmc_start k dflt = (MPMCBoundedQueue_init (2 ^ k) dflt, \<lambda>_. Idle)"

lemma unat_lt2p_64: "unat (x :: size_t) < 2 ^ 64"
  using unsigned_less [of x, where ?'a = nat] by simp

lemma unat_exp: "k < 64 \<Longrightarrow> unat (2 ^ k :: size_t) = 2 ^ k"
proof -
  assume k: "k < 64"
  have "unat (of_nat (2 ^ k) :: size_t) = 2 ^ k mod 2 ^ LENGTH(64)" by (rule unat_of_nat)
  also have "\<dots> = 2 ^ k" using power_strict_increasing [OF k, of "2::nat"] by (intro mod_less) simp
  finally show "unat (2 ^ k :: size_t) = 2 ^ k" by simp
qed

lemma init_inv:
  assumes "1 \<le> k" "k < 64"
  shows "queue_inv (MPMCBoundedQueue_init (2 ^ k) dflt)" "in_hands (MPMCBoundedQueue_init (2 ^ k) dflt) pcs"
proof -
  let ?q = "MPMCBoundedQueue_init (2 ^ k) dflt"
  have len: "length (queue ?q) = 2 ^ k" by (simp add: MPMCBoundedQueue_init_def unat_exp [OF assms(2)])
  have gen: "gen ?q t = t" if "t < 2 ^ k" for t
  proof -
    have "(2::nat) ^ k < 2 ^ 64" using power_strict_increasing [OF assms(2), of "2::nat"] by simp
    then have "t mod 2 ^ 64 = t" using that by simp
    then show ?thesis
      using that by (simp add: gen_def len) (simp add: MPMCBoundedQueue_init_def unat_exp [OF assms(2)] unat_of_nat)
  qed
  have f: "head ?q = 0" "tail ?q = 0" "sent ?q = []" "received ?q = []" "bit_mask ?q = 2 ^ k - 1"
    by (simp_all add: MPMCBoundedQueue_init_def)
  show "queue_inv ?q"
    using assms gen by (auto simp: queue_inv_def cells_ok_def shape_ok_def received_ok_def len f mask_eq_exp_minus_1)
  have "gen ?q t + 2 ^ k \<noteq> t + 1" if "t < 2 ^ k" for t
    using gen [OF that] power_increasing [OF assms(1), of "2::nat"] assms(1) by simp
  then show "in_hands ?q pcs" using assms by (auto simp: in_hands_def len f)
qed

text \<open>Everything that holds in a state the threads can reach.\<close>

definition mpmc_inv :: "'a MPMCBoundedQueue \<times> (nat \<Rightarrow> 'a pc) \<Rightarrow> bool" where
  "mpmc_inv s \<longleftrightarrow> mpmc.threads_ok s \<and> (no_overflow (fst s) \<longrightarrow> in_hands (fst s) (snd s))"

lemma mpmc_inv_step:
  assumes "interleave mpmc_step s s'" "mpmc_inv s"
  shows "mpmc_inv s'"
proof -
  obtain t p where st: "mpmc_step (fst s) (snd s t) (fst s') p" "snd s' = (snd s)(t := p)"
    using assms(1) by (rule interleave_cases)
  have ok: "mpmc.threads_ok s" using assms(2) by (simp add: mpmc_inv_def)
  have "in_hands (fst s') (snd s')" if b: "no_overflow (fst s')"
  proof -
    have nb: "no_overflow (fst s)" by (rule no_overflow_mono [OF st(1) b])
    then have "queue_inv (fst s)" "thread_ok (fst s) (snd s t)" "in_hands (fst s) (snd s)"
      using mpmc.threads_okD(1,2) [OF ok] assms(2) by (auto simp: mpmc_inv_def mpmc_G_def mpmc_L_def)
    then show ?thesis using mpmc_step_in_hands [of "fst s" "snd s" t "fst s'" p] st nb by simp
  qed
  then show ?thesis using mpmc.threads_ok_step [OF assms(1) ok] by (simp add: mpmc_inv_def)
qed

interpretation mpmc_runs: step_system "interleave mpmc_step" mpmc_inv
  by unfold_locales (rule mpmc_inv_step)

lemma mpmc_reachable:
  assumes "1 \<le> k" "k < 64" "(interleave mpmc_step)\<^sup>*\<^sup>* (mpmc_start k dflt) (q, pcs)" "no_overflow q"
  shows "queue_inv q" "thread_ok q (pcs u)" "u \<noteq> u' \<Longrightarrow> tickets_differ (pcs u) (pcs u')" "in_hands q pcs"
    "length (queue q) = 2 ^ k"
proof -
  have start: "mpmc_inv (mpmc_start k dflt)"
    using init_inv [OF assms(1,2), of dflt]
    by (auto simp: mpmc_inv_def mpmc_start_def mpmc.threads_ok_def mpmc_G_def mpmc_L_def mpmc_R_def)
  have inv: "mpmc_inv (q, pcs)" by (rule mpmc_runs.reachable_keeps [OF assms(3) start])
  then have ok: "mpmc.threads_ok (q, pcs)" by (simp add: mpmc_inv_def)
  show "queue_inv q" "thread_ok q (pcs u)" "in_hands q pcs"
    using mpmc.threads_okD(1,2) [OF ok] inv assms(4) by (auto simp: mpmc_inv_def mpmc_G_def mpmc_L_def)
  show "tickets_differ (pcs u) (pcs u')" if "u \<noteq> u'"
    using mpmc.threads_okD(3) [OF ok that] assms(4) by (simp add: mpmc_R_eq)
  have step: "length (queue (fst s')) = length (queue (fst s))" if "interleave mpmc_step s s'" for s s' :: "'a MPMCBoundedQueue \<times> (nat \<Rightarrow> 'a pc)"
    using that by (rule interleave_cases) (rule mpmc_step_length)
  have "length (queue (fst s')) = length (queue (fst s))" if "(interleave mpmc_step)\<^sup>*\<^sup>* s s'" for s s' :: "'a MPMCBoundedQueue \<times> (nat \<Rightarrow> 'a pc)"
    using that by (rule rtranclp_induct) (use step in auto)
  from this [OF assms(3)] show "length (queue q) = 2 ^ k"
    by (simp add: mpmc_start_def MPMCBoundedQueue_init_def unat_exp [OF assms(2)])
qed

lemma received_all:
  assumes "queue_inv q" "in_hands q pcs" "\<And>h. \<not> reading pcs h"
  shows "mset (map snd (received q)) = mset (take (unat (head q)) (sent q))"
proof -
  note inv = queue_invD [OF assms(1)]
  let ?ts = "map (unat \<circ> fst) (received q)"
  have r: "distinct (map fst (received q))" "\<And>h v. (h, v) \<in> set (received q) \<Longrightarrow> unat h < unat (head q) \<and> v = sent q ! unat h"
    using inv(6) by (auto simp: received_ok_def)
  have "inj_on unat (fst ` set (received q))" by (auto intro!: inj_onI simp: word_unat_eq_iff)
  then have d: "distinct ?ts" using r(1) by (simp add: distinct_map comp_inj_on)
  have "set ?ts = {..<unat (head q)}"
  proof
    show "set ?ts \<subseteq> {..<unat (head q)}" using r(2) by auto
    show "{..<unat (head q)} \<subseteq> set ?ts"
    proof
      fix t
      assume t: "t \<in> {..<unat (head q)}"
      have "t < 2 ^ 64" using t unat_lt2p_64 [of "head q"] by simp
      then have w: "unat (of_nat t :: size_t) = t" by (simp add: unat_of_nat)
      then have "taken q (of_nat t)" using in_handsD(3) [OF assms(2), of "of_nat t"] assms(3) t by auto
      then show "t \<in> set ?ts" using w by (force simp: taken_def)
    qed
  qed
  then have "mset ?ts = mset [0..<unat (head q)]"
    using d by (metis atLeast_upt distinct_upt set_eq_iff_mset_eq_distinct)
  then have "image_mset ((!) (sent q)) (mset ?ts) = mset (map ((!) (sent q)) [0..<unat (head q)])" by simp
  moreover have "map ((!) (sent q)) ?ts = map snd (received q)" using r(2) by auto
  moreover have "map ((!) (sent q)) [0..<unat (head q)] = take (unat (head q)) (sent q)"
    using inv(3,5) by (intro nth_equalityI) auto
  ultimately show ?thesis by (metis mset_map)
qed

section \<open>Runs\<close>

text \<open>A schedule: which thread goes on, by a call or by a step of the call it is in.\<close>

datatype 'a event = Call_Enqueue nat 'a | Call_Dequeue nat | In_Enqueue nat | In_Dequeue nat | Return nat

fun play_event ::
  "'a event \<Rightarrow> 'a MPMCBoundedQueue \<times> (nat \<Rightarrow> 'a pc) \<Rightarrow> 'a MPMCBoundedQueue \<times> (nat \<Rightarrow> 'a pc)" where
  "play_event (Call_Enqueue u v) (q, pcs) = (case pcs u of Idle \<Rightarrow> (q, pcs(u := E_load v)) | _ \<Rightarrow> (q, pcs))"
| "play_event (Call_Dequeue u) (q, pcs) = (case pcs u of Idle \<Rightarrow> (q, pcs(u := D_load)) | _ \<Rightarrow> (q, pcs))"
| "play_event (In_Enqueue u) (q, pcs) = (let (p, q) = Enqueue False (pcs u) q in (q, pcs(u := p)))"
| "play_event (In_Dequeue u) (q, pcs) = (let (p, q) = Dequeue False (pcs u) q in (q, pcs(u := p)))"
| "play_event (Return u) (q, pcs) = (case pcs u of Returned b \<Rightarrow> (q, pcs(u := Idle)) | _ \<Rightarrow> (q, pcs))"

definition play :: "'a event list \<Rightarrow> 'a MPMCBoundedQueue \<times> (nat \<Rightarrow> 'a pc) \<Rightarrow> 'a MPMCBoundedQueue \<times> (nat \<Rightarrow> 'a pc)" where
  "play es s = fold play_event es s"

lemma play_event_reachable: "(interleave mpmc_step)\<^sup>*\<^sup>* s (play_event e s)"
proof (induction e s rule: play_event.induct)
  case (1 u v q pcs)
  then show ?case by (cases "pcs u") (auto intro: interleave_at mpmc_step.intros)
next
  case (2 u q pcs)
  then show ?case by (cases "pcs u") (auto intro: interleave_at mpmc_step.intros)
next
  case (3 u q pcs)
  then show ?case
    by (cases "Enqueue False (pcs u) q") (auto intro!: r_into_rtranclp interleaveI mpmc_step.enqueue)
next
  case (4 u q pcs)
  then show ?case
    by (cases "Dequeue False (pcs u) q") (auto intro!: r_into_rtranclp interleaveI mpmc_step.dequeue)
next
  case (5 u q pcs)
  then show ?case by (cases "pcs u") (auto intro: interleave_at mpmc_step.intros)
qed

lemma mpmc_play_reachable: "(interleave mpmc_step)\<^sup>*\<^sup>* s (play es s)"
proof (induction es arbitrary: s)
  case (Cons e es)
  have "play (e # es) s = play es (play_event e s)" by (simp add: play_def)
  then show ?case using rtranclp_trans [OF play_event_reachable [of s e] Cons.IH] by simp
qed (simp add: play_def)

fun thread_of :: "'a event \<Rightarrow> nat" where
  "thread_of (Call_Enqueue u v) = u"
| "thread_of (Call_Dequeue u) = u"
| "thread_of (In_Enqueue u) = u"
| "thread_of (In_Dequeue u) = u"
| "thread_of (Return u) = u"

lemma play_event_other: "thread_of e \<noteq> u \<Longrightarrow> snd (play_event e s) u = snd s u"
  by (induction e s rule: play_event.induct) (auto simp: split_beta split: pc.splits)

lemma play_other: "u \<notin> thread_of ` set es \<Longrightarrow> snd (play es s) u = snd s u"
  by (induction es arbitrary: s) (auto simp: play_def play_event_other)

text \<open>
  Thread 0 enqueues 7; thread 1 has taken the ticket of 8 but not written it; thread 2 has dequeued 7.
\<close>

definition busy :: "nat event list" where
  "busy =
    ([Call_Enqueue 0 7] @ replicate 5 (In_Enqueue 0) @ [Call_Enqueue 1 8] @ replicate 3 (In_Enqueue 1) @
     [Call_Dequeue 2] @ replicate 5 (In_Dequeue 2) @ [Call_Dequeue 3, In_Dequeue 3])"

definition busy_queue :: "nat MPMCBoundedQueue \<times> (nat \<Rightarrow> nat pc)" where
  "busy_queue = play busy (mpmc_start 1 0)"

lemma busy_queue_pcs:
  "snd busy_queue 0 = Returned True" "snd busy_queue 1 = E_store 8 1" "snd busy_queue 2 = Returned True"
  "snd busy_queue 3 = D_check 1"
  by code_simp+

lemma busy_queue_idle: "4 \<le> u \<Longrightarrow> snd busy_queue u = Idle"
  using play_other [of u busy "mpmc_start 1 0"] by (auto simp: busy_queue_def busy_def mpmc_start_def)

lemma busy_queue_values:
  "received (fst busy_queue) = [(0, 7)]" "sent (fst busy_queue) = [7, 8]" "length (queue (fst busy_queue)) = 2"
  by code_simp+

lemma busy_queue_run:
  "(interleave mpmc_step)\<^sup>*\<^sup>* (mpmc_start 1 0) (fst busy_queue, snd busy_queue)" "no_overflow (fst busy_queue)"
  using mpmc_play_reachable [of "mpmc_start 1 0" busy] unfolding busy_queue_def [symmetric]
  by (simp_all add: no_overflow_def busy_queue_values)

section \<open>Properties\<close>

text \<open>
  C11: the queue is first-in first-out and loses nothing, under every interleaving of its threads and as
  long as fewer than about 2 ^ 64 values were sent: every value read by a \<open>Dequeue\<close> is the one sent with
  the same ticket, no ticket is read twice, at most \<open>size\<close> tickets are outstanding, and when no
  \<open>Dequeue\<close> stands between taking a ticket and reading its cell, the values read are exactly the first
  \<open>head_\<close> values sent.
\<close>
theorem MPMC_fifo:
  assumes "1 \<le> k" "k < 64" "(interleave mpmc_step)\<^sup>*\<^sup>* (mpmc_start k dflt) (q, pcs)" "no_overflow q"
  shows "distinct (map fst (received q)) \<and>
    (\<forall>(h, v) \<in> set (received q). unat h < length (sent q) \<and> v = sent q ! unat h) \<and>
    unat (head q) \<le> length (sent q) \<and> length (sent q) \<le> unat (head q) + 2 ^ k \<and>
    ((\<forall>u h. pcs u \<noteq> D_read h) \<longrightarrow> mset (map snd (received q)) = mset (take (unat (head q)) (sent q)))"
proof -
  note r = mpmc_reachable [OF assms] and inv = queue_invD [OF mpmc_reachable(1) [OF assms]]
  have "mset (map snd (received q)) = mset (take (unat (head q)) (sent q))" if "\<forall>u h. pcs u \<noteq> D_read h"
    using received_all [OF r(1,4)] that by (auto simp: reading_def)
  then show ?thesis using inv r(5) by (fastforce simp: received_ok_def)
qed

theorem MPMC_fifo_witness:
  "mset (map snd (received (fst busy_queue))) = mset (take (unat (head (fst busy_queue))) (sent (fst busy_queue))) \<and>
   received (fst busy_queue) = [(0, 7)] \<and> sent (fst busy_queue) = [7, 8]"
proof -
  have "snd busy_queue u \<noteq> D_read h" for u h
  proof (cases "4 \<le> u")
    case False
    then have "u = 0 \<or> u = 1 \<or> u = 2 \<or> u = 3" by auto
    then show ?thesis using busy_queue_pcs by auto
  qed (simp add: busy_queue_idle)
  then show ?thesis
    using MPMC_fifo [of 1 0 "fst busy_queue" "snd busy_queue"] busy_queue_run busy_queue_values by simp
qed

text \<open>
  Neither operation gives up without reason.  When \<open>Enqueue\<close> returns false, at its check all \<open>size\<close>
  cells are taken: that many values were sent and not dequeued, or the \<open>Dequeue\<close> that frees the next cell
  is still in progress.  When \<open>Dequeue\<close> returns false the queue is empty or the \<open>Enqueue\<close> of the next
  value is still in progress.
\<close>
theorem MPMC_fails_only_when_full_or_empty:
  assumes "1 \<le> k" "k < 64" "(interleave mpmc_step)\<^sup>*\<^sup>* (mpmc_start k dflt) (q, pcs)" "no_overflow q"
  shows "(pcs u = E_check v t \<and> fst (Enqueue spurious (E_check v t) q) = Returned False \<longrightarrow>
      unat (tail q) = unat (head q) + 2 ^ k \<or>
      2 ^ k \<le> unat (tail q) \<and> dequeuing pcs (unat (tail q) - 2 ^ k)) \<and>
    (pcs u = D_check h \<and> fst (Dequeue spurious (D_check h) q) = Returned False \<longrightarrow>
      head q = tail q \<or> enqueuing pcs (unat (head q)))"
proof (intro conjI impI; elim conjE)
  note r = mpmc_reachable [OF assms] and inv = queue_invD [OF mpmc_reachable(1) [OF assms]]
  note n = shape_okD(1) [OF inv(1)]
  assume e: "pcs u = E_check v t" "fst (Enqueue spurious (E_check v t) q) = Returned False"
  then have full: "gen q (unat t) + 2 ^ k \<le> unat t + 1"
    using Enqueue_check_iff [OF r(1) assms(4), of t] r(5) by (auto split: if_splits)
  have "\<not> unat t < unat (tail q)" using gen_bounds(3) [OF r(1), of "unat t"] full n r(5) by auto
  then have t: "unat t = unat (tail q)" using r(2) [of u] e(1) by simp
  show "unat (tail q) = unat (head q) + 2 ^ k \<or> 2 ^ k \<le> unat (tail q) \<and> dequeuing pcs (unat (tail q) - 2 ^ k)"
  proof (cases "unat (tail q) < unat (head q) + 2 ^ k")
    case True
    then have "gen q (unat (tail q)) + 2 ^ k = unat (tail q) + 1"
      using cells_okD(3) [OF inv(2), of "unat (tail q)"] full t n r(5) by auto
    then show ?thesis using in_handsD(2) [OF r(4), of "unat (tail q)"] True r(5) by (simp add: emptying_def)
  next
    case False
    then show ?thesis using inv(4) r(5) by simp
  qed
next
  note r = mpmc_reachable [OF assms] and inv = queue_invD [OF mpmc_reachable(1) [OF assms]]
  assume d: "pcs u = D_check h" "fst (Dequeue spurious (D_check h) q) = Returned False"
  have le: "unat h \<le> unat (head q)" using r(2) [of u] d(1) by simp
  then have g: "gen q (unat h) \<le> unat h"
    using Dequeue_check_iff [OF r(1) assms(4) le] d(2) by (auto split: if_splits)
  then have h: "unat h = unat (head q)" using gen_bounds(2) [OF r(1), of "unat h"] le by fastforce
  show "head q = tail q \<or> enqueuing pcs (unat (head q))"
  proof (cases "unat (head q) < unat (tail q)")
    case True
    then have "gen q (unat (head q)) = unat (head q)" using cells_okD(1) [OF inv(2) _ True] g h by auto
    then show ?thesis using in_handsD(1) [OF r(4) _ True] by simp
  next
    case False
    then show ?thesis using inv(3) by (simp add: word_unat_eq_iff)
  qed
qed

theorem MPMC_fails_only_when_full_or_empty_witness:
  "fst (Dequeue False (D_check 1) (fst busy_queue)) = Returned False \<and> head (fst busy_queue) \<noteq> tail (fst busy_queue) \<and>
   enqueuing (snd busy_queue) (unat (head (fst busy_queue)))"
proof -
  have e: "fst (Dequeue False (D_check 1) (fst busy_queue)) = Returned False" "head (fst busy_queue) \<noteq> tail (fst busy_queue)"
    by code_simp+
  then show ?thesis
    using MPMC_fails_only_when_full_or_empty [of 1 0 "fst busy_queue" "snd busy_queue" 3 _ _ False 1]
      busy_queue_run busy_queue_pcs(4) by simp
qed

end
