(* ===== verification/Net_Address.thy ===== *)
theory Net_Address
  imports Cpp_Numbers
begin

unbundle bit_operations_syntax

text \<open>
  \<open>tools/cactus/net/address.h\<close>: addresses of sockets, and the memory image of integers that \<open>View\<close> of
  \<open>io/view.h\<close> gives.  The machine is little-endian, so \<open>htons\<close> exchanges the two bytes.  The resolver
  and the text conversions of the C library are parameters.
\<close>

section \<open>Memory images (view.h)\<close>

fun View_uint :: "nat \<Rightarrow> nat \<Rightarrow> byte list" where
  "View_uint 0 x = []"
| "View_uint (Suc n) x = char_of (x mod 256) # View_uint n (x div 256)"

fun of_View :: "byte list \<Rightarrow> nat" where
  "of_View [] = 0"
| "of_View (b # bs) = of_char b + 256 * of_View bs"

lemma length_View_uint [simp]: "length (View_uint n x) = n"
  by (induction n arbitrary: x) auto

lemma of_View_uint: "of_View (View_uint n x) = x mod 256 ^ n"
  by (induction n arbitrary: x) (simp_all add: mod_mult2_eq)

lemma View_uint_of_View: "View_uint (length bs) (of_View bs) = bs"
  by (induction bs) (simp_all add: of_char_of char_of_def [symmetric])

lemma of_View_less: "of_View bs < 256 ^ length bs"
proof (induction bs)
  case (Cons b bs)
  have "of_char b < (256::nat)" by simp
  moreover have "256 * of_View bs + 256 \<le> 256 * 256 ^ length bs" using Cons by simp
  ultimately show ?case unfolding of_View.simps length_Cons power_Suc by linarith
qed simp

section \<open>Byte order\<close>

definition htons :: "16 word \<Rightarrow> 16 word" where
  "htons x = push_bit 8 x OR drop_bit 8 x"

definition ntohs :: "16 word \<Rightarrow> 16 word" where
  "ntohs = htons"

lemma htons_htons [simp]: "htons (htons x) = x"
  by (rule bit_word_eqI) (auto simp: htons_def bit_simps)

lemma ntohs_htons [simp]: "ntohs (htons x) = x" "htons (ntohs x) = x"
  by (simp_all add: ntohs_def)

section \<open>SocketAddress\<close>

record sockaddr_in =
  sin_addr :: "32 word"
  sin_port :: "16 word"

type_synonym SocketAddress = "sockaddr_in option"

text \<open>
  What a \<open>sockaddr\<close> pointer may refer to: an address of the family \<open>AF_INET\<close>, or one of another family.
  Its length is \<open>addrlen\<close>; a \<open>sockaddr_in\<close> has 16 bytes and the family the first two.
\<close>

datatype sockaddr = Inet sockaddr_in | Other_family nat

definition sizeof_sockaddr_in :: nat where "sizeof_sockaddr_in = 16"
definition sizeof_family :: nat where "sizeof_family = 2"

definition SocketAddress_of_ip :: "32 word \<Rightarrow> 16 word \<Rightarrow> SocketAddress" where
  "SocketAddress_of_ip ip port = Some \<lparr>sin_addr = ip, sin_port = htons port\<rparr>"

definition CheckEmpty :: "SocketAddress \<Rightarrow> sockaddr_in result" where
  "CheckEmpty a = (case a of None \<Rightarrow> Inl (RuntimeError ''address is empty'') | Some sa \<Rightarrow> Inr sa)"

definition GetFamily :: "SocketAddress \<Rightarrow> unit result" where
  "GetFamily a = map_sum id (\<lambda>_. ()) (CheckEmpty a)"

definition GetAddress :: "SocketAddress \<Rightarrow> (sockaddr \<times> nat) result" where
  "GetAddress a = map_sum id (\<lambda>sa. (Inet sa, sizeof_sockaddr_in)) (CheckEmpty a)"

definition SetFromSockaddr :: "sockaddr \<Rightarrow> nat \<Rightarrow> SocketAddress result" where
  "SetFromSockaddr address addrlen =
    (if addrlen < sizeof_family then Inl InvalidArgument
     else
       case address of
         Inet sa \<Rightarrow> if addrlen < sizeof_sockaddr_in then Inl InvalidArgument else Inr (Some sa)
       | Other_family _ \<Rightarrow> Inl InvalidArgument)"

definition GetPort :: "SocketAddress \<Rightarrow> 16 word result" where
  "GetPort a = map_sum id (\<lambda>sa. ntohs (sin_port sa)) (CheckEmpty a)"

definition SetPort :: "SocketAddress \<Rightarrow> 16 word \<Rightarrow> SocketAddress result" where
  "SetPort a port = map_sum id (\<lambda>sa. Some (sa\<lparr>sin_port := htons port\<rparr>)) (CheckEmpty a)"

definition GetIp :: "SocketAddress \<Rightarrow> 32 word result" where
  "GetIp a = map_sum id sin_addr (CheckEmpty a)"

definition IsInitialized :: "SocketAddress \<Rightarrow> bool" where
  "IsInitialized a \<longleftrightarrow> a \<noteq> None"

definition SocketAddress_eq :: "SocketAddress \<Rightarrow> SocketAddress \<Rightarrow> bool" where
  "SocketAddress_eq a b =
    (case (a, b) of
       (Some x, Some y) \<Rightarrow> sin_addr x = sin_addr y \<and> sin_port x = sin_port y
     | _ \<Rightarrow> (a \<noteq> None) = (b \<noteq> None))"

text \<open>
  \<open>InitFromName\<close>: \<open>getaddrinfo\<close> of the C library answers with an error code or the first address of its
  list and that address's length.
\<close>

definition InitFromName ::
  "(string \<Rightarrow> string \<Rightarrow> int + sockaddr \<times> nat) \<Rightarrow> string \<Rightarrow> 16 word \<Rightarrow> SocketAddress result" where
  "InitFromName getaddrinfo name port =
    (case getaddrinfo name (to_string (uint port)) of
       Inl _ \<Rightarrow> Inl (SystemError ''failed to resolve address'')
     | Inr (address, addrlen) \<Rightarrow>
         (case SetFromSockaddr address addrlen of
            Inl e \<Rightarrow> Inl e
          | Inr a \<Rightarrow> Inr (map_option (\<lambda>sa. sa\<lparr>sin_port := htons port\<rparr>) a)))"

text \<open>
  \<open>InitFromIp\<close>: \<open>inet_pton\<close> returns 1 and stores the address, 0 when the text is no address, or a negative
  number for an unknown family.  The text ends at its first zero byte.
\<close>

definition INET_ADDRSTRLEN :: nat where "INET_ADDRSTRLEN = 16"

definition InitFromIp ::
  "(string \<Rightarrow> int \<times> 32 word) \<Rightarrow> string \<Rightarrow> 16 word \<Rightarrow> SocketAddress result" where
  "InitFromIp inet_pton ip port =
    (if INET_ADDRSTRLEN \<le> length ip then Inl InvalidArgument
     else
       case inet_pton (takeWhile (\<lambda>c. c \<noteq> CHR 0x00) ip) of
         (ret, ip_addr) \<Rightarrow>
           if ret < 0 then Inl (SystemError [])
           else Inr (Some \<lparr>sin_addr = (if ret = 1 then ip_addr else 0), sin_port = htons port\<rparr>))"

definition SocketAddress_init ::
  "(string \<Rightarrow> string \<Rightarrow> int + sockaddr \<times> nat) \<Rightarrow> (string \<Rightarrow> int \<times> 32 word) \<Rightarrow>
   string \<Rightarrow> 16 word \<Rightarrow> bool \<Rightarrow> SocketAddress result" where
  "SocketAddress_init getaddrinfo inet_pton address port lookup =
    (if lookup then InitFromName getaddrinfo address port else InitFromIp inet_pton address port)"

definition hash_sockaddr_in :: "sockaddr_in \<Rightarrow> 64 word" where
  "hash_sockaddr_in sa = push_bit 16 (ucast (sin_addr sa)) + ucast (sin_port sa)"

text \<open>\<open>std::hash\<close> of an empty optional is an unspecified constant of the library.\<close>

definition hash_SocketAddress :: "64 word \<Rightarrow> SocketAddress \<Rightarrow> 64 word" where
  "hash_SocketAddress empty_hash a = (case a of None \<Rightarrow> empty_hash | Some sa \<Rightarrow> hash_sockaddr_in sa)"

definition print_SocketAddress :: "(32 word \<Rightarrow> string) \<Rightarrow> SocketAddress \<Rightarrow> string" where
  "print_SocketAddress inet_ntop a =
    (case a of
       Some sa \<Rightarrow> inet_ntop (sin_addr sa) @ '':'' @ to_string (uint (ntohs (sin_port sa)))
     | None \<Rightarrow> ''[nullopt]'')"

section \<open>Properties of addresses\<close>

lemma SocketAddress_eq_iff: "SocketAddress_eq a b \<longleftrightarrow> a = b"
  by (cases a; cases b) (auto simp: SocketAddress_eq_def)

lemma GetPort_SetPort: "SetPort a p = Inr b \<Longrightarrow> GetPort b = Inr p \<and> GetIp b = GetIp a"
  by (cases a) (auto simp: SetPort_def GetPort_def GetIp_def CheckEmpty_def)

lemma GetPort_of_ip [simp]: "GetPort (SocketAddress_of_ip ip p) = Inr p" "GetIp (SocketAddress_of_ip ip p) = Inr ip"
  by (simp_all add: SocketAddress_of_ip_def GetPort_def GetIp_def CheckEmpty_def)

lemma sockaddr_roundtrip: "GetAddress a = Inr (sa, len) \<Longrightarrow> SetFromSockaddr sa len = Inr a"
  by (cases a)
    (auto simp: GetAddress_def SetFromSockaddr_def CheckEmpty_def sizeof_sockaddr_in_def sizeof_family_def)

text \<open>A text that is no address is taken for the address zero.\<close>

lemma InitFromIp_invalid:
  assumes "length ip < INET_ADDRSTRLEN" "inet_pton (takeWhile (\<lambda>c. c \<noteq> CHR 0x00) ip) = (0, x)"
  shows "InitFromIp inet_pton ip port = Inr (Some \<lparr>sin_addr = 0, sin_port = htons port\<rparr>)"
  using assms by (simp add: InitFromIp_def)

lemma unat_hash_sockaddr_in: "unat (hash_sockaddr_in sa) = 65536 * unat (sin_addr sa) + unat (sin_port sa)"
proof -
  have a: "unat (sin_addr sa) < 2 ^ 32" using unsigned_less [of "sin_addr sa", where ?'a = nat] by simp
  have p: "unat (sin_port sa) < 2 ^ 16" using unsigned_less [of "sin_port sa", where ?'a = nat] by simp
  have u: "unat (ucast (sin_addr sa) :: 64 word) = unat (sin_addr sa)"
    using a by (simp add: unsigned_ucast_eq take_bit_eq_mod)
  have "unat (ucast (sin_addr sa) * 65536 :: 64 word) = unat (sin_addr sa) * 65536"
    using a u unat_mult_lem [of "ucast (sin_addr sa) :: 64 word" 65536] by simp
  then have "unat (push_bit 16 (ucast (sin_addr sa) :: 64 word)) = 65536 * unat (sin_addr sa)"
    by (simp add: push_bit_eq_mult)
  moreover have "unat (ucast (sin_port sa) :: 64 word) = unat (sin_port sa)"
    using p by (simp add: unsigned_ucast_eq take_bit_eq_mod)
  ultimately show ?thesis using a p by (simp add: hash_sockaddr_in_def unat_plus_if')
qed

text \<open>Different addresses have different hashes, so a table of addresses has no collisions of hashes.\<close>

lemma hash_SocketAddress_inj:
  assumes "IsInitialized a" "IsInitialized b" "hash_SocketAddress e a = hash_SocketAddress e b"
  shows "SocketAddress_eq a b"
proof -
  obtain x y where xy: "a = Some x" "b = Some y" using assms(1,2) by (auto simp: IsInitialized_def)
  have p: "unat (sin_port z) < 65536" for z using unsigned_less [of "sin_port z", where ?'a = nat] by simp
  have h: "65536 * unat (sin_addr x) + unat (sin_port x) = 65536 * unat (sin_addr y) + unat (sin_port y)"
    using assms(3) xy unat_hash_sockaddr_in by (metis hash_SocketAddress_def option.simps(5))
  have "unat (sin_addr x) = unat (sin_addr y)"
    using h p [of x] p [of y] by (cases "unat (sin_addr x)" "unat (sin_addr y)" rule: linorder_cases) linarith+
  moreover from this have "unat (sin_port x) = unat (sin_port y)" using h by simp
  ultimately show ?thesis using xy by (simp add: SocketAddress_eq_def word_unat_eq_iff)
qed

end
