(* ===== verification/Net_Sockets.thy ===== *)
theory Net_Sockets
  imports Net_Address IO_Writer
begin

text \<open>
  \<open>tools/cactus/net/net.cpp\<close> and \<open>internal/syscall.h\<close>: connections, listeners and packet sockets over
  non-blocking descriptors.  The system calls and the descriptor watcher are a record of functions on the
  state of the kernel, the watcher's \<open>Wait\<close> answering whether the descriptor was closed meanwhile.  A
  method returns a result and a state, or \<^term>\<open>None\<close> when its loop never ends.

  \<open>tcp_source\<close> and \<open>tcp_sink\<close> state what a connected socket promises: bytes arrive in order and without
  loss, and a call is interrupted or not ready only finitely often before it goes on.  Over such a kernel
  \<open>SocketConn\<close> is a \<open>stream_reader\<close> and a \<open>stream_writer\<close>.  \<open>descriptor_table\<close> states what the kernel
  promises of descriptors; over it no path of a constructor leaks one.
\<close>

section \<open>System calls\<close>

datatype errno = EINTR | EAGAIN | EINPROGRESS | Other_errno int

datatype 'a sysres = Ok 'a | Err errno

record 'k syscalls =
  sys_socket :: "bool \<Rightarrow> 'k \<Rightarrow> int sysres \<times> 'k"
  sys_close :: "int \<Rightarrow> 'k \<Rightarrow> unit sysres \<times> 'k"
  sys_read :: "int \<Rightarrow> nat \<Rightarrow> 'k \<Rightarrow> byte list sysres \<times> 'k"
  sys_send :: "int \<Rightarrow> byte list \<Rightarrow> 'k \<Rightarrow> nat sysres \<times> 'k"
  sys_shutdown :: "int \<Rightarrow> 'k \<Rightarrow> unit sysres \<times> 'k"
  sys_connect :: "int \<Rightarrow> sockaddr \<times> nat \<Rightarrow> 'k \<Rightarrow> unit sysres \<times> 'k"
  sys_so_error :: "int \<Rightarrow> 'k \<Rightarrow> errno option sysres \<times> 'k"
  sys_getsockname :: "int \<Rightarrow> 'k \<Rightarrow> (sockaddr \<times> nat) sysres \<times> 'k"
  sys_setsockopt :: "int \<Rightarrow> 'k \<Rightarrow> unit sysres \<times> 'k"
  sys_bind :: "int \<Rightarrow> sockaddr \<times> nat \<Rightarrow> 'k \<Rightarrow> unit sysres \<times> 'k"
  sys_listen :: "int \<Rightarrow> 'k \<Rightarrow> unit sysres \<times> 'k"
  sys_accept4 :: "int \<Rightarrow> 'k \<Rightarrow> (int \<times> sockaddr \<times> nat) sysres \<times> 'k"
  sys_recvfrom :: "int \<Rightarrow> nat \<Rightarrow> 'k \<Rightarrow> (byte list \<times> sockaddr \<times> nat) sysres \<times> 'k"
  sys_sendto :: "int \<Rightarrow> byte list \<Rightarrow> sockaddr \<times> nat \<Rightarrow> 'k \<Rightarrow> nat sysres \<times> 'k"
  watcher_Init :: "int \<Rightarrow> 'k \<Rightarrow> unit result \<times> 'k"
  watcher_Wait :: "int \<Rightarrow> bool \<Rightarrow> 'k \<Rightarrow> bool result \<times> 'k"
  watcher_Reset :: "int \<Rightarrow> 'k \<Rightarrow> 'k"

partial_function (option) RestartEIntr :: "('k \<Rightarrow> 'a sysres \<times> 'k) \<Rightarrow> 'k \<Rightarrow> ('a sysres \<times> 'k) option" where
  "RestartEIntr syscall k =
    (case syscall k of (ret, k') \<Rightarrow> if ret = Err EINTR then RestartEIntr syscall k' else Some (ret, k'))"

section \<open>SocketConn\<close>

record SocketConn =
  sc_fd :: int
  sc_remote :: SocketAddress
  sc_local :: SocketAddress

text \<open>The handlers that close the descriptor, with the \<open>PCHECK\<close> on the result, and throw again.\<close>

definition close_and_rethrow :: "'k syscalls \<Rightarrow> int \<Rightarrow> exn \<Rightarrow> 'k \<Rightarrow> 'a result \<times> 'k" where
  "close_and_rethrow sys fd e k =
    (case sys_close sys fd k of (Ok _, k') \<Rightarrow> (Inl e, k') | (Err _, k') \<Rightarrow> (Inl CheckFailed, k'))"

definition SocketConn_accepted :: "'k syscalls \<Rightarrow> SocketAddress \<Rightarrow> int \<Rightarrow> 'k \<Rightarrow> SocketConn result \<times> 'k" where
  "SocketConn_accepted sys remote fd k =
    (case watcher_Init sys fd k of
       (Inl e, k) \<Rightarrow> close_and_rethrow sys fd e k
     | (Inr _, k) \<Rightarrow> (Inr \<lparr>sc_fd = fd, sc_remote = remote, sc_local = None\<rparr>, k))"

definition SocketConn_init :: "'k syscalls \<Rightarrow> SocketAddress \<Rightarrow> 'k \<Rightarrow> SocketConn result \<times> 'k" where
  "SocketConn_init sys remote k =
    (case GetFamily remote of
       Inl e \<Rightarrow> (Inl e, k)
     | Inr _ \<Rightarrow>
         (case sys_socket sys True k of
            (Err _, k) \<Rightarrow> (Inl (SystemError ''socket''), k)
          | (Ok fd, k) \<Rightarrow>
              (case watcher_Init sys fd k of
                 (Inl e, k) \<Rightarrow> close_and_rethrow sys fd e k
               | (Inr _, k) \<Rightarrow> (Inr \<lparr>sc_fd = fd, sc_remote = remote, sc_local = None\<rparr>, k))))"

partial_function (option) SocketConn_Read ::
  "'k syscalls \<Rightarrow> int \<Rightarrow> nat \<Rightarrow> 'k \<Rightarrow> (byte list result \<times> 'k) option" where
  "SocketConn_Read sys fd n k =
    Option.bind (RestartEIntr (sys_read sys fd n) k) (\<lambda>(ret, k).
      case ret of
        Err e \<Rightarrow>
          if e = EAGAIN then
            (case watcher_Wait sys fd True k of
               (Inl x, k) \<Rightarrow> Some (Inl x, k)
             | (Inr closed, k) \<Rightarrow>
                 if closed then Some (Inl (RuntimeError ''socket was closed''), k)
                 else SocketConn_Read sys fd n k)
          else Some (Inl (SystemError ''read''), k)
      | Ok bs \<Rightarrow> Some (Inr bs, k))"

partial_function (option) SocketConn_Write ::
  "'k syscalls \<Rightarrow> int \<Rightarrow> byte list \<Rightarrow> 'k \<Rightarrow> (unit result \<times> 'k) option" where
  "SocketConn_Write sys fd buf k =
    (if length buf \<noteq> 0 then
       Option.bind (RestartEIntr (sys_send sys fd buf) k) (\<lambda>(ret, k).
         case ret of
           Err e \<Rightarrow>
             if e = EAGAIN then
               (case watcher_Wait sys fd False k of
                  (Inl x, k) \<Rightarrow> Some (Inl x, k)
                | (Inr closed, k) \<Rightarrow>
                    if closed then Some (Inl (RuntimeError ''socket was closed''), k)
                    else SocketConn_Write sys fd buf k)
             else Some (Inl (SystemError ''read''), k)
         | Ok n \<Rightarrow> SocketConn_Write sys fd (drop n buf) k)
     else Some (Inr (), k))"

definition SocketConn_CloseWrite :: "'k syscalls \<Rightarrow> int \<Rightarrow> 'k \<Rightarrow> (unit result \<times> 'k) option" where
  "SocketConn_CloseWrite sys fd k =
    Option.bind (RestartEIntr (sys_shutdown sys fd) k) (\<lambda>(ret, k).
      case ret of Err _ \<Rightarrow> Some (Inl (SystemError ''shutdown''), k) | Ok _ \<Rightarrow> Some (Inr (), k))"

text \<open>\<open>Close\<close> of the three classes: the new descriptor, or the failed check.\<close>

definition Socket_Close :: "'k syscalls \<Rightarrow> int \<Rightarrow> 'k \<Rightarrow> int result \<times> 'k" where
  "Socket_Close sys fd k =
    (if fd \<noteq> - 1 then
       (case sys_close sys fd (watcher_Reset sys fd k) of
          (Ok _, k) \<Rightarrow> (Inr (- 1), k)
        | (Err _, k) \<Rightarrow> (Inl CheckFailed, k))
     else (Inr fd, k))"

text \<open>The inner loop of \<open>FinishDial\<close>; the outer one is entered once, as this one only returns or throws.\<close>

partial_function (option) FinishDial_loop :: "'k syscalls \<Rightarrow> int \<Rightarrow> 'k \<Rightarrow> (SocketAddress result \<times> 'k) option" where
  "FinishDial_loop sys fd k =
    (case watcher_Wait sys fd False k of
       (Inl x, k) \<Rightarrow> Some (Inl x, k)
     | (Inr closed, k) \<Rightarrow>
         if closed then Some (Inl CheckFailed, k)
         else
           Option.bind (RestartEIntr (sys_so_error sys fd) k) (\<lambda>(ret, k).
             case ret of
               Err _ \<Rightarrow> Some (Inl (SystemError ''getsockopt''), k)
             | Ok None \<Rightarrow>
                 Option.bind (RestartEIntr (sys_getsockname sys fd) k) (\<lambda>(ret, k).
                   case ret of
                     Err _ \<Rightarrow> Some (Inl (SystemError ''getsockname''), k)
                   | Ok (ss, slen) \<Rightarrow> Some (SetFromSockaddr ss slen, k))
             | Ok (Some error) \<Rightarrow>
                 if error \<noteq> EINPROGRESS then Some (Inl (SystemError ''async_connect''), k)
                 else FinishDial_loop sys fd k))"

definition FinishDial :: "'k syscalls \<Rightarrow> SocketConn \<Rightarrow> 'k \<Rightarrow> (SocketConn result \<times> 'k) option" where
  "FinishDial sys c k =
    (case GetAddress (sc_remote c) of
       Inl e \<Rightarrow> Some (Inl e, k)
     | Inr (ss, slen) \<Rightarrow>
         Option.bind (RestartEIntr (sys_connect sys (sc_fd c) (ss, slen)) k) (\<lambda>(ret, k).
           if ret \<noteq> Ok () \<and> ret \<noteq> Err EINPROGRESS then Some (Inl (SystemError ''connect''), k)
           else
             map_option (\<lambda>(r, k). (map_sum id (\<lambda>a. c\<lparr>sc_local := a\<rparr>) r, k)) (FinishDial_loop sys (sc_fd c) k)))"

text \<open>\<open>DialTCP\<close>: when \<open>FinishDial\<close> throws, the destructor of the connection closes it.\<close>

definition DialTCP :: "'k syscalls \<Rightarrow> SocketAddress \<Rightarrow> 'k \<Rightarrow> (SocketConn result \<times> 'k) option" where
  "DialTCP sys to k =
    (case SocketConn_init sys to k of
       (Inl e, k) \<Rightarrow> Some (Inl e, k)
     | (Inr c, k) \<Rightarrow>
         map_option (\<lambda>(r, k).
           case r of
             Inr c \<Rightarrow> (Inr c, k)
           | Inl e \<Rightarrow> (case Socket_Close sys (sc_fd c) k of (Inl e', k) \<Rightarrow> (Inl e', k) | (Inr _, k) \<Rightarrow> (Inl e, k)))
         (FinishDial sys c k))"

section \<open>SocketListener\<close>

record SocketListener =
  sl_fd :: int
  sl_at :: SocketAddress

text \<open>A call whose failure is thrown as a \<open>system_error\<close>, and what follows it.\<close>

definition checked :: "string \<Rightarrow> ('k \<Rightarrow> 'a sysres \<times> 'k) \<Rightarrow> ('a \<Rightarrow> 'k \<Rightarrow> 'b result \<times> 'k) \<Rightarrow> 'k \<Rightarrow> 'b result \<times> 'k" where
  "checked what call rest k =
    (case call k of (Err _, k) \<Rightarrow> (Inl (SystemError what), k) | (Ok x, k) \<Rightarrow> rest x k)"

lemma checked_keeps:
  assumes "\<And>k. Q k \<Longrightarrow> Q (snd (call k))" and "\<And>x k. Q k \<Longrightarrow> Q (snd (rest x k))" and "Q k"
  shows "Q (snd (checked what call rest k))"
  using assms(1) [OF assms(3)] assms(2) by (auto simp: checked_def split: prod.splits sysres.splits)

text \<open>
  The constructor's \<open>try\<close> after \<open>socket\<close>, and the whole of it: the descriptor it has reached and the outcome.
\<close>

definition SocketListener_setup :: "'k syscalls \<Rightarrow> SocketAddress \<Rightarrow> int \<Rightarrow> 'k \<Rightarrow> SocketAddress result \<times> 'k" where
  "SocketListener_setup sys at fd =
    checked ''setsockopt(SO_REUSEADDR)'' (sys_setsockopt sys fd) (\<lambda>_ k.
      case GetAddress at of
        Inl e \<Rightarrow> (Inl e, k)
      | Inr ss \<Rightarrow>
          checked ''bind'' (sys_bind sys fd ss) (\<lambda>_.
          checked ''listen'' (sys_listen sys fd) (\<lambda>_.
          checked ''getsockname'' (sys_getsockname sys fd) (\<lambda>(ss, slen) k.
            case SetFromSockaddr ss slen of
              Inl e \<Rightarrow> (Inl e, k)
            | Inr a \<Rightarrow> (case watcher_Init sys fd k of (Inl e, k) \<Rightarrow> (Inl e, k) | (Inr _, k) \<Rightarrow> (Inr a, k))))) k)"

definition SocketListener_try :: "'k syscalls \<Rightarrow> SocketAddress \<Rightarrow> 'k \<Rightarrow> int \<times> SocketAddress result \<times> 'k" where
  "SocketListener_try sys at k =
    (case GetFamily at of
       Inl e \<Rightarrow> (- 1, Inl e, k)
     | Inr _ \<Rightarrow>
         (case sys_socket sys True k of
            (Err _, k) \<Rightarrow> (- 1, Inl (SystemError ''socket''), k)
          | (Ok fd, k) \<Rightarrow> (fd, SocketListener_setup sys at fd k)))"

definition ListenTCP :: "'k syscalls \<Rightarrow> SocketAddress \<Rightarrow> 'k \<Rightarrow> SocketListener result \<times> 'k" where
  "ListenTCP sys at k =
    (case SocketListener_try sys at k of
       (fd, Inl e, k) \<Rightarrow> close_and_rethrow sys fd e k
     | (fd, Inr a, k) \<Rightarrow> (Inr \<lparr>sl_fd = fd, sl_at = a\<rparr>, k))"

partial_function (option) Accept :: "'k syscalls \<Rightarrow> SocketListener \<Rightarrow> 'k \<Rightarrow> (SocketConn result \<times> 'k) option" where
  "Accept sys l k =
    Option.bind (RestartEIntr (sys_accept4 sys (sl_fd l)) k) (\<lambda>(ret, k).
      case ret of
        Err e \<Rightarrow>
          if e \<noteq> EAGAIN then Some (Inl (SystemError ''accept''), k)
          else
            (case watcher_Wait sys (sl_fd l) True k of
               (Inl x, k) \<Rightarrow> Some (Inl x, k)
             | (Inr closed, k) \<Rightarrow>
                 if closed then Some (Inl (RuntimeError ''socket was closed''), k) else Accept sys l k)
      | Ok (fd, ss, slen) \<Rightarrow>
          (case SetFromSockaddr ss slen of
             Inl e \<Rightarrow> Some (Inl e, k)
           | Inr peer \<Rightarrow>
               (case SocketConn_accepted sys peer fd k of
                  (Inl e, k) \<Rightarrow> Some (Inl e, k)
                | (Inr c, k) \<Rightarrow> Some (Inr (c\<lparr>sc_local := sl_at l\<rparr>), k))))"

section \<open>PacketConn\<close>

definition PacketConn_try :: "'k syscalls \<Rightarrow> SocketAddress \<Rightarrow> int \<Rightarrow> 'k \<Rightarrow> unit result \<times> 'k" where
  "PacketConn_try sys at fd k =
    (if IsInitialized at then
       (case GetAddress at of
          Inl e \<Rightarrow> (Inl e, k)
        | Inr ss \<Rightarrow>
            (case sys_bind sys fd ss k of
               (Err _, k) \<Rightarrow> (Inl (SystemError ''bind''), k)
             | (Ok _, k) \<Rightarrow> watcher_Init sys fd k))
     else watcher_Init sys fd k)"

definition ListenUDP :: "'k syscalls \<Rightarrow> SocketAddress \<Rightarrow> 'k \<Rightarrow> int result \<times> 'k" where
  "ListenUDP sys at k =
    (case GetFamily at of
       Inl e \<Rightarrow> (Inl e, k)
     | Inr _ \<Rightarrow>
         (case sys_socket sys False k of
            (Err _, k) \<Rightarrow> (Inl (SystemError ''socket''), k)
          | (Ok fd, k) \<Rightarrow>
              (case PacketConn_try sys at fd k of
                 (Inl e, k) \<Rightarrow> close_and_rethrow sys fd e k
               | (Inr _, k) \<Rightarrow> (Inr fd, k))))"

partial_function (option) RecvFrom ::
  "'k syscalls \<Rightarrow> int \<Rightarrow> nat \<Rightarrow> 'k \<Rightarrow> ((byte list \<times> SocketAddress) result \<times> 'k) option" where
  "RecvFrom sys fd n k =
    Option.bind (RestartEIntr (sys_recvfrom sys fd n) k) (\<lambda>(ret, k).
      case ret of
        Err e \<Rightarrow>
          if e = EAGAIN then
            (case watcher_Wait sys fd True k of
               (Inl x, k) \<Rightarrow> Some (Inl x, k)
             | (Inr closed, k) \<Rightarrow>
                 if closed then Some (Inl (RuntimeError ''socket was closed''), k) else RecvFrom sys fd n k)
          else Some (Inl (SystemError ''recvfrom''), k)
      | Ok (bs, ss, slen) \<Rightarrow>
          (case SetFromSockaddr ss slen of
             Inl e \<Rightarrow> Some (Inl e, k)
           | Inr from \<Rightarrow> Some (Inr (bs, from), k)))"

partial_function (option) SendTo ::
  "'k syscalls \<Rightarrow> int \<Rightarrow> byte list \<Rightarrow> SocketAddress \<Rightarrow> 'k \<Rightarrow> (nat result \<times> 'k) option" where
  "SendTo sys fd buf to k =
    (case GetAddress to of
       Inl e \<Rightarrow> Some (Inl e, k)
     | Inr ss \<Rightarrow>
         Option.bind (RestartEIntr (sys_sendto sys fd buf ss) k) (\<lambda>(ret, k).
           case ret of
             Err e \<Rightarrow>
               if e = EAGAIN then
                 (case watcher_Wait sys fd False k of
                    (Inl x, k) \<Rightarrow> Some (Inl x, k)
                  | (Inr closed, k) \<Rightarrow>
                      if closed then Some (Inl (RuntimeError ''socket was closed''), k)
                      else SendTo sys fd buf to k)
               else Some (Inl (SystemError ''read''), k)
           | Ok n \<Rightarrow> Some (Inr n, k)))"

section \<open>Connected sockets\<close>

definition soft :: "errno \<Rightarrow> bool" where
  "soft e \<longleftrightarrow> e = EINTR \<or> e = EAGAIN"

locale tcp_source =
  fixes sys :: "'k syscalls" and fd :: int and incoming :: "'k \<Rightarrow> byte list"
    and kinv :: "'k \<Rightarrow> bool" and delay :: "'k \<Rightarrow> nat"
  assumes read_inv: "kinv k \<Longrightarrow> sys_read sys fd n k = (r, k') \<Longrightarrow> kinv k'"
    and read_Ok: "kinv k \<Longrightarrow> sys_read sys fd n k = (Ok bs, k') \<Longrightarrow>
      incoming k = bs @ incoming k' \<and> length bs \<le> n \<and> (bs = [] \<longrightarrow> n = 0 \<or> incoming k = [])"
    and read_Err: "kinv k \<Longrightarrow> sys_read sys fd n k = (Err e, k') \<Longrightarrow>
      soft e \<and> incoming k' = incoming k \<and> delay k' < delay k"
    and read_wait: "kinv k \<Longrightarrow> watcher_Wait sys fd True k = (w, k') \<Longrightarrow>
      w = Inr False \<and> kinv k' \<and> incoming k' = incoming k \<and> delay k' \<le> delay k"
begin

definition delivers :: "'k \<Rightarrow> nat \<Rightarrow> byte list \<Rightarrow> 'k \<Rightarrow> bool" where
  "delivers k n bs k' \<longleftrightarrow> kinv k' \<and> incoming k = bs @ incoming k' \<and> length bs \<le> n \<and>
    (bs = [] \<longrightarrow> n = 0 \<or> incoming k = [])"

lemma Restart_read:
  "kinv k \<Longrightarrow>
    (\<exists>bs k'. RestartEIntr (sys_read sys fd n) k = Some (Ok bs, k') \<and> delivers k n bs k') \<or>
    (\<exists>k'. RestartEIntr (sys_read sys fd n) k = Some (Err EAGAIN, k') \<and> kinv k' \<and> incoming k' = incoming k \<and>
       delay k' < delay k)"
proof (induction "delay k" arbitrary: k rule: less_induct)
  case less
  obtain r k1 where r: "sys_read sys fd n k = (r, k1)" by fastforce
  have k1: "kinv k1" by (rule read_inv [OF less.prems r])
  show ?case
  proof (cases r)
    case (Ok bs)
    then have "delivers k n bs k1" using r k1 read_Ok [OF less.prems, of n bs k1] unfolding delivers_def by blast
    then show ?thesis using r Ok by (simp add: RestartEIntr.simps)
  next
    case (Err e)
    then have e: "soft e" "incoming k1 = incoming k" "delay k1 < delay k" using read_Err [OF less.prems] r by auto
    show ?thesis
    proof (cases "e = EINTR")
      case True
      then have "RestartEIntr (sys_read sys fd n) k = RestartEIntr (sys_read sys fd n) k1"
        using r Err by (subst RestartEIntr.simps) simp
      moreover have "delivers k1 n = delivers k n" by (simp add: delivers_def fun_eq_iff e(2))
      ultimately show ?thesis using less.hyps [OF e(3) k1] e(2,3) by (metis less_trans)
    next
      case False
      then show ?thesis using r Err k1 e by (simp add: RestartEIntr.simps soft_def)
    qed
  qed
qed

lemma Read_ok: "kinv k \<Longrightarrow> \<exists>bs k'. SocketConn_Read sys fd n k = Some (Inr bs, k') \<and> delivers k n bs k'"
proof (induction "delay k" arbitrary: k rule: less_induct)
  case less
  from Restart_read [OF less.prems, of n] show ?case
  proof (elim disjE exE conjE)
    fix bs k1
    assume "RestartEIntr (sys_read sys fd n) k = Some (Ok bs, k1)" "delivers k n bs k1"
    then show ?thesis by (simp add: SocketConn_Read.simps)
  next
    fix k1
    assume r: "RestartEIntr (sys_read sys fd n) k = Some (Err EAGAIN, k1)" "kinv k1" "incoming k1 = incoming k"
      "delay k1 < delay k"
    obtain w k2 where w: "watcher_Wait sys fd True k1 = (w, k2)" by fastforce
    have k2: "w = Inr False" "kinv k2" "incoming k2 = incoming k1" "delay k2 \<le> delay k1"
      using read_wait [OF r(2) w] by auto
    have "SocketConn_Read sys fd n k = SocketConn_Read sys fd n k2"
      using r(1) w k2(1) by (subst SocketConn_Read.simps) simp
    moreover have "delivers k2 n = delivers k n" by (simp add: delivers_def fun_eq_iff r(3) k2(3))
    ultimately show ?thesis using less.hyps [of k2] k2(2,4) r(4) by simp
  qed
qed

end

locale tcp_sink =
  fixes sys :: "'k syscalls" and fd :: int and outgoing :: "'k \<Rightarrow> byte list"
    and kinv :: "'k \<Rightarrow> bool" and delay :: "'k \<Rightarrow> nat"
  assumes send_inv: "kinv k \<Longrightarrow> sys_send sys fd buf k = (r, k') \<Longrightarrow> kinv k'"
    and send_Ok: "kinv k \<Longrightarrow> buf \<noteq> [] \<Longrightarrow> sys_send sys fd buf k = (Ok n, k') \<Longrightarrow>
      0 < n \<and> n \<le> length buf \<and> outgoing k' = outgoing k @ take n buf"
    and send_Err: "kinv k \<Longrightarrow> sys_send sys fd buf k = (Err e, k') \<Longrightarrow>
      soft e \<and> outgoing k' = outgoing k \<and> delay k' < delay k"
    and send_wait: "kinv k \<Longrightarrow> watcher_Wait sys fd False k = (w, k') \<Longrightarrow>
      w = Inr False \<and> kinv k' \<and> outgoing k' = outgoing k \<and> delay k' \<le> delay k"
begin

lemma Restart_send:
  "kinv k \<Longrightarrow> buf \<noteq> [] \<Longrightarrow>
    (\<exists>n k'. RestartEIntr (sys_send sys fd buf) k = Some (Ok n, k') \<and> kinv k' \<and> 0 < n \<and>
       outgoing k' = outgoing k @ take n buf) \<or>
    (\<exists>k'. RestartEIntr (sys_send sys fd buf) k = Some (Err EAGAIN, k') \<and> kinv k' \<and> outgoing k' = outgoing k \<and>
       delay k' < delay k)"
proof (induction "delay k" arbitrary: k rule: less_induct)
  case less
  obtain r k1 where r: "sys_send sys fd buf k = (r, k1)" by fastforce
  have k1: "kinv k1" by (rule send_inv [OF less.prems(1) r])
  show ?case
  proof (cases r)
    case (Ok n)
    then show ?thesis using r k1 send_Ok [OF less.prems] by (simp add: RestartEIntr.simps)
  next
    case (Err e)
    then have e: "soft e" "outgoing k1 = outgoing k" "delay k1 < delay k" using send_Err [OF less.prems(1)] r by auto
    show ?thesis
    proof (cases "e = EINTR")
      case True
      then have "RestartEIntr (sys_send sys fd buf) k = RestartEIntr (sys_send sys fd buf) k1"
        using r Err by (subst RestartEIntr.simps) simp
      then show ?thesis using less.hyps [OF e(3) k1 less.prems(2)] e(2,3) by auto
    next
      case False
      then show ?thesis using r Err k1 e by (simp add: RestartEIntr.simps soft_def)
    qed
  qed
qed

lemma Write_ok:
  "kinv k \<Longrightarrow> \<exists>k'. SocketConn_Write sys fd buf k = Some (Inr (), k') \<and> kinv k' \<and> outgoing k' = outgoing k @ buf"
proof (induction "length buf" arbitrary: buf k rule: less_induct)
  case (less buf)
  show ?case
  proof (cases "buf = []")
    case True
    then show ?thesis using less.prems by (simp add: SocketConn_Write.simps)
  next
    case False
    note rest = less.hyps
    from less.prems show ?thesis
    proof (induction "delay k" arbitrary: k rule: less_induct)
      case less
      from Restart_send [OF less.prems False] show ?case
      proof (elim disjE exE conjE)
        fix n k1
        assume r: "RestartEIntr (sys_send sys fd buf) k = Some (Ok n, k1)" "kinv k1" "0 < n"
          "outgoing k1 = outgoing k @ take n buf"
        have "SocketConn_Write sys fd buf k = SocketConn_Write sys fd (drop n buf) k1"
          using r(1) False by (subst SocketConn_Write.simps) simp
        then show ?thesis using rest [of "drop n buf" k1] r False by simp
      next
        fix k1
        assume r: "RestartEIntr (sys_send sys fd buf) k = Some (Err EAGAIN, k1)" "kinv k1" "outgoing k1 = outgoing k"
          "delay k1 < delay k"
        obtain w k2 where w: "watcher_Wait sys fd False k1 = (w, k2)" by fastforce
        have k2: "w = Inr False" "kinv k2" "outgoing k2 = outgoing k1" "delay k2 \<le> delay k1"
          using send_wait [OF r(2) w] by auto
        have "SocketConn_Write sys fd buf k = SocketConn_Write sys fd buf k2"
          using r(1) w k2(1) False by (subst SocketConn_Write.simps) simp
        then show ?thesis using less.hyps [of k2] k2 r(3,4) by simp
      qed
    qed
  qed
qed

end

text \<open>\<open>SocketConn\<close> as an \<open>IReader\<close> and an \<open>IWriter\<close>: the calls that return.\<close>

definition SocketConn_reader :: "'k syscalls \<Rightarrow> int \<Rightarrow> 'k read_fn" where
  "SocketConn_reader sys fd k n =
    (case SocketConn_Read sys fd n k of
       Some (Inr bs, k') \<Rightarrow> Inr (bs, k')
     | Some (Inl e, _) \<Rightarrow> Inl e
     | None \<Rightarrow> Inl CheckFailed)"

definition SocketConn_writer :: "'k syscalls \<Rightarrow> int \<Rightarrow> 'k write_fn" where
  "SocketConn_writer sys fd k buf =
    (case SocketConn_Write sys fd buf k of
       Some (Inr _, k') \<Rightarrow> Inr k'
     | Some (Inl e, _) \<Rightarrow> Inl e
     | None \<Rightarrow> Inl CheckFailed)"

sublocale tcp_source \<subseteq> stream_reader "SocketConn_reader sys fd" incoming kinv
proof
  fix k n
  assume "kinv k"
  from Read_ok [OF this, of n] show "\<exists>bs k'. SocketConn_reader sys fd k n = Inr (bs, k') \<and> kinv k' \<and>
    incoming k = bs @ incoming k' \<and> length bs \<le> n \<and> (bs = [] \<longrightarrow> n = 0 \<or> incoming k = [])"
    by (auto simp: SocketConn_reader_def delivers_def)
qed

sublocale tcp_sink \<subseteq> stream_writer "SocketConn_writer sys fd" outgoing kinv
proof
  fix k bs
  assume "kinv k"
  from Write_ok [OF this, of bs] show "\<exists>k'. SocketConn_writer sys fd k bs = Inr k' \<and> kinv k' \<and> outgoing k' = outgoing k @ bs"
    by (auto simp: SocketConn_writer_def)
qed

context tcp_source
begin

lemma is_reader: "stream_reader (SocketConn_reader sys fd) incoming kinv"
  by unfold_locales

end

context tcp_sink
begin

lemma is_writer: "stream_writer (SocketConn_writer sys fd) outgoing kinv"
  by unfold_locales

end

section \<open>What the loops keep\<close>

lemma RestartEIntr_keeps:
  assumes ret: "RestartEIntr syscall k = Some y" and keep: "\<And>k. Q k \<Longrightarrow> Q (snd (syscall k))" and "Q k"
  shows "Q (snd y)"
proof (rule RestartEIntr.raw_induct [where P = "\<lambda>sc k y. sc = syscall \<longrightarrow> Q k \<longrightarrow> Q (snd y)",
    OF _ ret, THEN mp, OF _ refl, THEN mp, OF _ assms(3)])
  fix F sc k y
  assume IH: "\<And>sc k y. F sc k = Some y \<Longrightarrow> sc = syscall \<longrightarrow> Q k \<longrightarrow> Q (snd y)"
    and step: "(case sc k of (ret, k') \<Rightarrow> if ret = Err EINTR then F sc k' else Some (ret, k')) = Some y"
  show "sc = syscall \<longrightarrow> Q k \<longrightarrow> Q (snd y)"
  proof (intro impI)
    assume a: "sc = syscall" "Q k"
    obtain r k' where r: "syscall k = (r, k')" by fastforce
    have "Q k'" using keep [OF a(2)] r by simp
    then show "Q (snd y)" using step a(1) r IH [of syscall k' y] by (cases "r = Err EINTR") auto
  qed
qed

lemma FinishDial_loop_keeps:
  assumes ret: "FinishDial_loop sys fd k = Some y" and "Q k"
    and wait: "\<And>k. Q k \<Longrightarrow> Q (snd (watcher_Wait sys fd False k))"
    and so_error: "\<And>k. Q k \<Longrightarrow> Q (snd (sys_so_error sys fd k))"
    and getsockname: "\<And>k. Q k \<Longrightarrow> Q (snd (sys_getsockname sys fd k))"
  shows "Q (snd y)"
proof (rule FinishDial_loop.raw_induct [where P = "\<lambda>s f k y. s = sys \<and> f = fd \<longrightarrow> Q k \<longrightarrow> Q (snd y)",
    OF _ ret, THEN mp, OF _ conjI [OF refl refl], THEN mp, OF _ assms(2)], intro impI)
  fix F s f k y
  assume IH: "\<And>s f k y. F s f k = Some y \<Longrightarrow> s = sys \<and> f = fd \<longrightarrow> Q k \<longrightarrow> Q (snd y)"
    and step: "(case watcher_Wait s f False k of
       (Inl x, k) \<Rightarrow> Some (Inl x, k)
     | (Inr closed, k) \<Rightarrow>
         if closed then Some (Inl CheckFailed, k)
         else
           Option.bind (RestartEIntr (sys_so_error s f) k) (\<lambda>(ret, k).
             case ret of
               Err _ \<Rightarrow> Some (Inl (SystemError ''getsockopt''), k)
             | Ok None \<Rightarrow>
                 Option.bind (RestartEIntr (sys_getsockname s f) k) (\<lambda>(ret, k).
                   case ret of
                     Err _ \<Rightarrow> Some (Inl (SystemError ''getsockname''), k)
                   | Ok (ss, slen) \<Rightarrow> Some (SetFromSockaddr ss slen, k))
             | Ok (Some error) \<Rightarrow>
                 if error \<noteq> EINPROGRESS then Some (Inl (SystemError ''async_connect''), k)
                 else F s f k)) = Some y"
    and a: "s = sys \<and> f = fd" "Q k"
  obtain w k1 where w: "watcher_Wait sys fd False k = (w, k1)" by fastforce
  have k1: "Q k1" using wait [OF a(2)] w by simp
  show "Q (snd y)"
  proof (cases "w = Inr False")
    case False
    then show ?thesis using step w k1 a by (auto split: sum.splits if_splits)
  next
    case True
    obtain r k2 where r: "RestartEIntr (sys_so_error sys fd) k1 = Some (r, k2)"
      using step w a True by (cases "RestartEIntr (sys_so_error sys fd) k1") auto
    have k2: "Q k2" using RestartEIntr_keeps [of _ _ _ Q, OF r so_error k1] by simp
    show ?thesis
    proof (cases "r = Ok None")
      case None: True
      obtain r' k3 where r': "RestartEIntr (sys_getsockname sys fd) k2 = Some (r', k3)"
        using step w a r None True by (cases "RestartEIntr (sys_getsockname sys fd) k2") auto
      have "Q k3" using RestartEIntr_keeps [of _ _ _ Q, OF r' getsockname k2] by simp
      then show ?thesis using step w a r r' None True by (auto split: sysres.splits)
    next
      case False
      then show ?thesis
        using step w a r True k2 IH [of sys fd k2 y] by (auto split: sysres.splits option.splits if_splits)
    qed
  qed
qed

lemma FinishDial_keeps:
  assumes ret: "FinishDial sys c k = Some y" and "Q k"
    and "\<And>sa k. Q k \<Longrightarrow> Q (snd (sys_connect sys (sc_fd c) sa k))"
    and "\<And>k. Q k \<Longrightarrow> Q (snd (watcher_Wait sys (sc_fd c) False k))"
    and "\<And>k. Q k \<Longrightarrow> Q (snd (sys_so_error sys (sc_fd c) k))"
    and "\<And>k. Q k \<Longrightarrow> Q (snd (sys_getsockname sys (sc_fd c) k))"
  shows "Q (snd y)"
proof (cases "GetAddress (sc_remote c)")
  case (Inr ss)
  obtain r1 k1 where r1: "RestartEIntr (sys_connect sys (sc_fd c) ss) k = Some (r1, k1)"
    using ret Inr by (cases ss; cases "RestartEIntr (sys_connect sys (sc_fd c) ss) k") (auto simp: FinishDial_def)
  have k1: "Q k1" using RestartEIntr_keeps [of _ _ _ Q, OF r1 assms(3,2)] by simp
  show ?thesis
  proof (cases "r1 \<noteq> Ok () \<and> r1 \<noteq> Err EINPROGRESS")
    case True
    then show ?thesis using ret Inr r1 k1 by (cases ss) (auto simp: FinishDial_def)
  next
    case False
    then obtain z where z: "FinishDial_loop sys (sc_fd c) k1 = Some z" "snd y = snd z"
      using ret Inr r1 by (cases ss) (auto simp: FinishDial_def)
    show ?thesis using FinishDial_loop_keeps [of _ _ _ _ Q, OF z(1) k1 assms(4-6)] z(2) by simp
  qed
qed (use assms(1,2) in \<open>auto simp: FinishDial_def\<close>)

lemma SendTo_keeps:
  assumes ret: "SendTo sys fd buf to k = Some y" and "Q k"
    and sendto: "\<And>sa k. Q k \<Longrightarrow> Q (snd (sys_sendto sys fd buf sa k))"
    and wait: "\<And>k. Q k \<Longrightarrow> Q (snd (watcher_Wait sys fd False k))"
  shows "Q (snd y)"
proof (rule SendTo.raw_induct [where P = "\<lambda>s f b t k y. s = sys \<and> f = fd \<and> b = buf \<longrightarrow> Q k \<longrightarrow> Q (snd y)",
    OF _ ret, THEN mp, OF _ conjI [OF refl conjI [OF refl refl]], THEN mp, OF _ assms(2)], intro impI)
  fix F s f b t k y
  assume IH: "\<And>s f b t k y. F s f b t k = Some y \<Longrightarrow> s = sys \<and> f = fd \<and> b = buf \<longrightarrow> Q k \<longrightarrow> Q (snd y)"
    and step: "(case GetAddress t of
       Inl e \<Rightarrow> Some (Inl e, k)
     | Inr ss \<Rightarrow>
         Option.bind (RestartEIntr (sys_sendto s f b ss) k) (\<lambda>(ret, k).
           case ret of
             Err e \<Rightarrow>
               if e = EAGAIN then
                 (case watcher_Wait s f False k of
                    (Inl x, k) \<Rightarrow> Some (Inl x, k)
                  | (Inr closed, k) \<Rightarrow>
                      if closed then Some (Inl (RuntimeError ''socket was closed''), k)
                      else F s f b t k)
               else Some (Inl (SystemError ''read''), k)
           | Ok n \<Rightarrow> Some (Inr n, k))) = Some y"
    and a: "s = sys \<and> f = fd \<and> b = buf" "Q k"
  show "Q (snd y)"
  proof (cases "GetAddress t")
    case (Inr ss)
    obtain r k1 where r: "RestartEIntr (sys_sendto sys fd buf ss) k = Some (r, k1)"
      using step a Inr by (cases "RestartEIntr (sys_sendto sys fd buf ss) k") auto
    have k1: "Q k1" using RestartEIntr_keeps [of _ _ _ Q, OF r sendto a(2)] by simp
    obtain w k2 where w: "watcher_Wait sys fd False k1 = (w, k2)" by fastforce
    have k2: "Q k2" using wait [OF k1] w by simp
    show ?thesis
      using step a Inr r w k1 k2 IH [of sys fd buf t k2 y] by (auto split: sysres.splits if_splits sum.splits)
  qed (use step a in auto)
qed

lemma map_local_fd: "map_sum id (\<lambda>a. c\<lparr>sc_local := a\<rparr>) r = Inr c' \<Longrightarrow> sc_fd c' = sc_fd c"
  by (cases r) auto

lemma FinishDial_fd: "FinishDial sys c k = Some (Inr c', k') \<Longrightarrow> sc_fd c' = sc_fd c"
  by (cases "GetAddress (sc_remote c)")
    (auto simp: FinishDial_def split: if_splits Option.bind_splits dest: map_local_fd [OF sym] map_local_fd)

lemma SocketListener_setup_keeps:
  assumes "Q k"
    and [simp]: "\<And>k. Q k \<Longrightarrow> Q (snd (sys_setsockopt sys fd k))" "\<And>sa k. Q k \<Longrightarrow> Q (snd (sys_bind sys fd sa k))"
      "\<And>k. Q k \<Longrightarrow> Q (snd (sys_listen sys fd k))" "\<And>k. Q k \<Longrightarrow> Q (snd (sys_getsockname sys fd k))"
    and init: "\<And>k. Q k \<Longrightarrow> Q (snd (watcher_Init sys fd k))"
  shows "Q (snd (SocketListener_setup sys at fd k))"
proof -
  have [simp]: "Q (snd (case watcher_Init sys fd k1 of (Inl e, k) \<Rightarrow> (Inl e, k) | (Inr _, k) \<Rightarrow> (Inr a, k)))"
    if "Q k1" for a :: SocketAddress and k1
    using init [OF that] by (cases "watcher_Init sys fd k1"; cases "fst (watcher_Init sys fd k1)") auto
  show ?thesis
    unfolding SocketListener_setup_def
    by (auto intro!: checked_keeps [where Q = Q] simp: assms(1) split: sum.splits)
qed

section \<open>Descriptors\<close>

locale descriptor_table =
  fixes sys :: "'k syscalls" and open_fds :: "'k \<Rightarrow> int set"
  assumes socket_Ok: "sys_socket sys stream k = (Ok fd, k') \<Longrightarrow>
      fd \<noteq> - 1 \<and> fd \<notin> open_fds k \<and> open_fds k' = insert fd (open_fds k)"
    and socket_Err: "sys_socket sys stream k = (Err e, k') \<Longrightarrow> open_fds k' = open_fds k"
    and close_open: "fd \<in> open_fds k \<Longrightarrow> \<exists>k'. sys_close sys fd k = (Ok (), k') \<and> open_fds k' = open_fds k - {fd}"
    and close_other: "fd \<notin> open_fds k \<Longrightarrow> \<exists>e k'. sys_close sys fd k = (Err e, k') \<and> open_fds k' = open_fds k"
    and minus_one: "- 1 \<notin> open_fds k"
    and accept_Ok: "sys_accept4 sys lfd k = (Ok (fd, sa), k') \<Longrightarrow>
      fd \<noteq> - 1 \<and> fd \<notin> open_fds k \<and> open_fds k' = insert fd (open_fds k)"
    and accept_Err: "sys_accept4 sys lfd k = (Err e, k') \<Longrightarrow> open_fds k' = open_fds k"
    and keep [simp]: "open_fds (snd (sys_setsockopt sys fd k)) = open_fds k"
      "open_fds (snd (sys_bind sys fd sa k)) = open_fds k" "open_fds (snd (sys_listen sys fd k)) = open_fds k"
      "open_fds (snd (sys_getsockname sys fd k)) = open_fds k" "open_fds (snd (sys_connect sys fd sa k)) = open_fds k"
      "open_fds (snd (sys_so_error sys fd k)) = open_fds k" "open_fds (snd (watcher_Init sys fd k)) = open_fds k"
      "open_fds (snd (watcher_Wait sys fd dir k)) = open_fds k" "open_fds (watcher_Reset sys fd k) = open_fds k"
      "open_fds (snd (sys_sendto sys fd buf sa k)) = open_fds k"
begin

lemma keeps:
  "sys_setsockopt sys fd k = (r1, k') \<Longrightarrow> open_fds k' = open_fds k"
  "sys_bind sys fd sa k = (r2, k') \<Longrightarrow> open_fds k' = open_fds k"
  "sys_listen sys fd k = (r3, k') \<Longrightarrow> open_fds k' = open_fds k"
  "sys_getsockname sys fd k = (r4, k') \<Longrightarrow> open_fds k' = open_fds k"
  "sys_connect sys fd sa k = (r5, k') \<Longrightarrow> open_fds k' = open_fds k"
  "sys_so_error sys fd k = (r6, k') \<Longrightarrow> open_fds k' = open_fds k"
  "watcher_Init sys fd k = (r7, k') \<Longrightarrow> open_fds k' = open_fds k"
  "watcher_Wait sys fd dir k = (r8, k') \<Longrightarrow> open_fds k' = open_fds k"
         apply (metis keep(1) snd_conv)
        apply (metis keep(2) snd_conv)
       apply (metis keep(3) snd_conv)
      apply (metis keep(4) snd_conv)
     apply (metis keep(5) snd_conv)
    apply (metis keep(6) snd_conv)
   apply (metis keep(7) snd_conv)
  apply (metis keep(8) snd_conv)
  done

lemma close_and_rethrow_ok:
  assumes "close_and_rethrow sys fd e k = (r, k')"
  shows "fd \<in> open_fds k \<Longrightarrow> r = Inl e \<and> open_fds k' = open_fds k - {fd}"
    "fd \<notin> open_fds k \<Longrightarrow> r = Inl CheckFailed \<and> open_fds k' = open_fds k"
proof -
  assume "fd \<in> open_fds k"
  then obtain k1 where "sys_close sys fd k = (Ok (), k1)" "open_fds k1 = open_fds k - {fd}"
    using close_open by blast
  then show "r = Inl e \<and> open_fds k' = open_fds k - {fd}" using assms by (simp add: close_and_rethrow_def)
next
  assume "fd \<notin> open_fds k"
  then obtain e1 k1 where "sys_close sys fd k = (Err e1, k1)" "open_fds k1 = open_fds k"
    using close_other by blast
  then show "r = Inl CheckFailed \<and> open_fds k' = open_fds k" using assms by (simp add: close_and_rethrow_def)
qed

lemma Socket_Close_ok:
  assumes "fd \<in> open_fds k"
  shows "\<exists>k'. Socket_Close sys fd k = (Inr (- 1), k') \<and> open_fds k' = open_fds k - {fd}"
  using close_open [of fd "watcher_Reset sys fd k"] assms minus_one [of k] by (auto simp: Socket_Close_def)

lemma SocketConn_init_ok:
  assumes "SocketConn_init sys to k = (r, k')"
  shows "case r of
      Inr c \<Rightarrow> sc_fd c \<notin> open_fds k \<and> open_fds k' = insert (sc_fd c) (open_fds k)
    | Inl e \<Rightarrow> open_fds k' = open_fds k"
proof (cases "GetFamily to")
  case (Inr u)
  obtain s k1 where s: "sys_socket sys True k = (s, k1)" by fastforce
  show ?thesis
  proof (cases s)
    case (Ok fd)
    then have fd: "fd \<notin> open_fds k" "open_fds k1 = insert fd (open_fds k)" using socket_Ok s by auto
    obtain w k2 where w: "watcher_Init sys fd k1 = (w, k2)" by fastforce
    have k2: "open_fds k2 = open_fds k1" by (rule keeps(7) [OF w])
    show ?thesis
    proof (cases w)
      case (Inl e)
      then show ?thesis
        using assms Inr s Ok w k2 fd close_and_rethrow_ok(1) [of fd e k2 r k'] \<open>GetFamily to = Inr u\<close>
        by (simp add: SocketConn_init_def)
    qed (use assms Inr s Ok w k2 fd in \<open>auto simp: SocketConn_init_def\<close>)
  next
    case (Err e)
    then show ?thesis using assms Inr s socket_Err by (auto simp: SocketConn_init_def)
  qed
qed (use assms in \<open>auto simp: SocketConn_init_def\<close>)

lemma DialTCP_ok:
  assumes "DialTCP sys to k = Some (r, k')"
  shows "case r of
      Inr c \<Rightarrow> sc_fd c \<notin> open_fds k \<and> open_fds k' = insert (sc_fd c) (open_fds k)
    | Inl e \<Rightarrow> open_fds k' = open_fds k"
proof -
  obtain i k1 where i: "SocketConn_init sys to k = (i, k1)" by fastforce
  show ?thesis
  proof (cases i)
    case (Inl e)
    then show ?thesis using assms i SocketConn_init_ok [OF i] by (auto simp: DialTCP_def)
  next
    case (Inr c)
    then have c: "sc_fd c \<notin> open_fds k" "open_fds k1 = insert (sc_fd c) (open_fds k)"
      using SocketConn_init_ok [OF i] by auto
    obtain f k2 where f: "FinishDial sys c k1 = Some (f, k2)" using assms i Inr by (auto simp: DialTCP_def)
    have k2: "open_fds k2 = open_fds k1"
      using FinishDial_keeps [OF f, of "\<lambda>k. open_fds k = open_fds k1"] by simp
    have fd: "sc_fd c' = sc_fd c" if "f = Inr c'" for c' using FinishDial_fd [of sys c k1 c' k2] f that by simp
    obtain k3 where k3: "Socket_Close sys (sc_fd c) k2 = (Inr (- 1), k3)" "open_fds k3 = open_fds k2 - {sc_fd c}"
      using Socket_Close_ok [of "sc_fd c" k2] c k2 by auto
    show ?thesis
    proof (cases f)
      case (Inl e)
      then have "r = Inl e" "k' = k3" using assms i Inr f k3(1) \<open>i = Inr c\<close> by (simp_all add: DialTCP_def)
      then show ?thesis using k3(2) k2 c by simp
    next
      case (Inr c')
      then have "r = Inr c'" "k' = k2" using assms i f \<open>i = Inr c\<close> by (simp_all add: DialTCP_def)
      then show ?thesis using fd [OF Inr] k2 c by simp
    qed
  qed
qed

lemma SocketListener_try_ok:
  assumes "SocketListener_try sys at k = (fd, r, k')"
  shows "(fd = - 1 \<and> (\<exists>e. r = Inl e) \<and> open_fds k' = open_fds k) \<or>
    (fd \<notin> open_fds k \<and> open_fds k' = insert fd (open_fds k))"
proof (cases "GetFamily at")
  case (Inr u)
  obtain s k1 where s: "sys_socket sys True k = (s, k1)" by fastforce
  show ?thesis
  proof (cases s)
    case (Ok fd')
    then have fd: "fd' \<notin> open_fds k" "open_fds k1 = insert fd' (open_fds k)" using socket_Ok s by auto
    have keeps_setup: "open_fds (snd (SocketListener_setup sys at fd' k1)) = open_fds k1"
      by (rule SocketListener_setup_keeps [of "\<lambda>k. open_fds k = open_fds k1"]) simp_all
    have "fd = fd'" "SocketListener_setup sys at fd' k1 = (r, k')"
      using assms Inr s Ok by (auto simp: SocketListener_try_def)
    then have "fd = fd'" "open_fds k' = open_fds k1" using keeps_setup by simp_all
    then show ?thesis using fd by simp
  next
    case (Err e)
    then show ?thesis using assms Inr s socket_Err by (auto simp: SocketListener_try_def)
  qed
qed (use assms in \<open>auto simp: SocketListener_try_def\<close>)

lemma ListenTCP_ok:
  assumes "ListenTCP sys at k = (r, k')"
  shows "case r of
      Inr l \<Rightarrow> sl_fd l \<notin> open_fds k \<and> open_fds k' = insert (sl_fd l) (open_fds k)
    | Inl e \<Rightarrow> open_fds k' = open_fds k"
proof -
  obtain fd x k1 where t: "SocketListener_try sys at k = (fd, x, k1)" by (metis prod_cases3)
  show ?thesis
  proof (cases x)
    case (Inl e)
    then have c: "close_and_rethrow sys fd e k1 = (r, k')" using assms t by (simp add: ListenTCP_def)
    from SocketListener_try_ok [OF t] show ?thesis
    proof (elim disjE conjE)
      assume "fd = - 1" "open_fds k1 = open_fds k"
      then show ?thesis using close_and_rethrow_ok(2) [OF c] minus_one [of k1] by simp
    next
      assume "fd \<notin> open_fds k" "open_fds k1 = insert fd (open_fds k)"
      then show ?thesis using close_and_rethrow_ok(1) [OF c] by simp
    qed
  next
    case (Inr a)
    then show ?thesis using assms t SocketListener_try_ok [OF t] by (auto simp: ListenTCP_def)
  qed
qed

lemma ListenUDP_ok:
  assumes "ListenUDP sys at k = (r, k')"
  shows "case r of
      Inr fd \<Rightarrow> fd \<notin> open_fds k \<and> open_fds k' = insert fd (open_fds k)
    | Inl e \<Rightarrow> open_fds k' = open_fds k"
proof (cases "GetFamily at")
  case (Inr u)
  obtain s k1 where s: "sys_socket sys False k = (s, k1)" by fastforce
  show ?thesis
  proof (cases s)
    case (Ok fd)
    then have fd: "fd \<notin> open_fds k" "open_fds k1 = insert fd (open_fds k)" using socket_Ok s by auto
    obtain p k2 where p: "PacketConn_try sys at fd k1 = (p, k2)" by fastforce
    have k2: "open_fds k2 = open_fds k1"
      using p by (auto simp: PacketConn_try_def dest!: keeps(2,7) split: if_splits prod.splits sysres.splits sum.splits)
    show ?thesis
    proof (cases p)
      case (Inl e)
      then have "close_and_rethrow sys fd e k2 = (r, k')" using assms \<open>GetFamily at = Inr u\<close> s Ok p by (simp add: ListenUDP_def)
      from close_and_rethrow_ok(1) [OF this] show ?thesis using k2 fd by simp
    next
      case (Inr v)
      then have "r = Inr fd" "k' = k2" using assms \<open>GetFamily at = Inr u\<close> s Ok p by (simp_all add: ListenUDP_def)
      then show ?thesis using k2 fd by simp
    qed
  next
    case (Err e)
    then show ?thesis using assms Inr s socket_Err by (auto simp: ListenUDP_def)
  qed
qed (use assms in \<open>auto simp: ListenUDP_def\<close>)

lemma RestartEIntr_accept:
  "RestartEIntr (sys_accept4 sys lfd) k = Some (Err e, k') \<Longrightarrow> open_fds k' = open_fds k"
  "RestartEIntr (sys_accept4 sys lfd) k = Some (Ok (fd, sa), k') \<Longrightarrow>
    fd \<notin> open_fds k \<and> open_fds k' = insert fd (open_fds k) \<and> (\<exists>k0 k1. sys_accept4 sys lfd k0 = (Ok (fd, sa), k1))"
proof -
  define P where "P k y \<longleftrightarrow> (case fst y of
      Err e \<Rightarrow> open_fds (snd y) = open_fds k
    | Ok (fd, sa) \<Rightarrow> fd \<notin> open_fds k \<and> open_fds (snd y) = insert fd (open_fds k) \<and>
        (\<exists>k0 k1. sys_accept4 sys lfd k0 = (Ok (fd, sa), k1)))" for k and y :: "(int \<times> sockaddr \<times> nat) sysres \<times> 'k"
  have "P k y" if ret: "RestartEIntr (sys_accept4 sys lfd) k = Some y" for k y
  proof (rule RestartEIntr.raw_induct [where P = "\<lambda>sc k y. sc = sys_accept4 sys lfd \<longrightarrow> P k y", OF _ ret, THEN mp, OF _ refl],
      intro impI)
    fix F sc k y
    assume IH: "\<And>sc k y. F sc k = Some y \<Longrightarrow> sc = sys_accept4 sys lfd \<longrightarrow> P k y" and sc: "sc = sys_accept4 sys lfd"
      and step: "(case sc k of (ret, k') \<Rightarrow> if ret = Err EINTR then F sc k' else Some (ret, k')) = Some y"
    obtain r k1 where r: "sys_accept4 sys lfd k = (r, k1)" by fastforce
    show "P k y"
    proof (cases r)
      case (Err e)
      have k1: "open_fds k1 = open_fds k" by (rule accept_Err [OF r [unfolded Err]])
      show ?thesis
      proof (cases "e = EINTR")
        case True
        then have "P k1 y" using step sc r Err IH [of sc k1 y] by simp
        then show ?thesis unfolding P_def k1 .
      next
        case False
        then have "y = (r, k1)" using step sc r Err by simp
        then show ?thesis using Err k1 by (simp add: P_def)
      qed
    next
      case (Ok t)
      then show ?thesis using step sc r accept_Ok [of lfd k "fst t" "snd t" k1] by (cases t) (auto simp: P_def, blast)
    qed
  qed
  note P = this
  show "RestartEIntr (sys_accept4 sys lfd) k = Some (Err e, k') \<Longrightarrow> open_fds k' = open_fds k"
    by (drule P) (simp add: P_def)
  show "RestartEIntr (sys_accept4 sys lfd) k = Some (Ok (fd, sa), k') \<Longrightarrow>
    fd \<notin> open_fds k \<and> open_fds k' = insert fd (open_fds k) \<and> (\<exists>k0 k1. sys_accept4 sys lfd k0 = (Ok (fd, sa), k1))"
    by (drule P) (simp add: P_def)
qed

lemma SocketConn_accepted_ok:
  assumes "SocketConn_accepted sys peer fd k = (r, k')" and "fd \<in> open_fds k"
  shows "case r of Inr c \<Rightarrow> sc_fd c = fd \<and> open_fds k' = open_fds k | Inl e \<Rightarrow> open_fds k' = open_fds k - {fd}"
proof -
  obtain w k1 where w: "watcher_Init sys fd k = (w, k1)" by fastforce
  have k1: "open_fds k1 = open_fds k" by (rule keeps(7) [OF w])
  show ?thesis
  proof (cases w)
    case (Inl e)
    then have "close_and_rethrow sys fd e k1 = (r, k')" using assms(1) w by (simp add: SocketConn_accepted_def)
    from close_and_rethrow_ok(1) [OF this] show ?thesis using k1 assms(2) by simp
  qed (use assms w k1 in \<open>auto simp: SocketConn_accepted_def\<close>)
qed

text \<open>\<open>Accept\<close>, from a kernel that reports the addresses of its peers in full.\<close>

lemma Accept_ok:
  assumes ret: "Accept sys l k = Some y"
    and peers: "\<And>k fd ss slen k'. sys_accept4 sys (sl_fd l) k = (Ok (fd, ss, slen), k') \<Longrightarrow> \<exists>a. SetFromSockaddr ss slen = Inr a"
  shows "case fst y of
      Inr c \<Rightarrow> sc_fd c \<notin> open_fds k \<and> open_fds (snd y) = insert (sc_fd c) (open_fds k)
    | Inl e \<Rightarrow> open_fds (snd y) = open_fds k"
proof -
  define P where "P k y \<longleftrightarrow> (case fst y of
      Inr c \<Rightarrow> sc_fd c \<notin> open_fds k \<and> open_fds (snd y) = insert (sc_fd c) (open_fds k)
    | Inl e \<Rightarrow> open_fds (snd y) = open_fds k)" for k and y :: "SocketConn result \<times> 'k"
  have P_cong: "P k = P k'" if "open_fds k = open_fds k'" for k k' using that unfolding P_def by (simp only: refl)
  have "P k y"
  proof (rule Accept.raw_induct [where P = "\<lambda>s m k y. s = sys \<and> m = l \<longrightarrow> P k y",
      OF _ ret, THEN mp, OF _ conjI [OF refl refl]], intro impI)
    fix F s m k y
    assume IH: "\<And>s m k y. F s m k = Some y \<Longrightarrow> s = sys \<and> m = l \<longrightarrow> P k y" and a: "s = sys \<and> m = l"
      and step: "Option.bind (RestartEIntr (sys_accept4 s (sl_fd m)) k) (\<lambda>(ret, k).
      case ret of
        Err e \<Rightarrow>
          if e \<noteq> EAGAIN then Some (Inl (SystemError ''accept''), k)
          else
            (case watcher_Wait s (sl_fd m) True k of
               (Inl x, k) \<Rightarrow> Some (Inl x, k)
             | (Inr closed, k) \<Rightarrow>
                 if closed then Some (Inl (RuntimeError ''socket was closed''), k) else F s m k)
      | Ok (fd, ss, slen) \<Rightarrow>
          (case SetFromSockaddr ss slen of
             Inl e \<Rightarrow> Some (Inl e, k)
           | Inr peer \<Rightarrow>
               (case SocketConn_accepted s peer fd k of
                  (Inl e, k) \<Rightarrow> Some (Inl e, k)
                | (Inr c, k) \<Rightarrow> Some (Inr (c\<lparr>sc_local := sl_at m\<rparr>), k)))) = Some y"
    obtain r k1 where r: "RestartEIntr (sys_accept4 sys (sl_fd l)) k = Some (r, k1)"
      using step a by (cases "RestartEIntr (sys_accept4 sys (sl_fd l)) k") auto
    show "P k y"
    proof (cases r)
      case (Err e)
      have k1: "open_fds k1 = open_fds k" by (rule RestartEIntr_accept(1) [OF r [unfolded Err]])
      obtain w k2 where w: "watcher_Wait sys (sl_fd l) True k1 = (w, k2)" by fastforce
      have k2: "open_fds k2 = open_fds k" using keeps(8) [OF w] k1 by simp
      show ?thesis
        using step a r Err w k1 k2 IH [of sys l k2 y] P_cong [OF k2]
        by (auto simp: P_def split: if_splits sum.splits)
    next
      case (Ok t)
      obtain fd ss slen where t: "t = (fd, ss, slen)" by (cases t)
      have fd: "fd \<notin> open_fds k" "open_fds k1 = insert fd (open_fds k)"
        and "\<exists>k0 k1. sys_accept4 sys (sl_fd l) k0 = (Ok (fd, ss, slen), k1)"
        using RestartEIntr_accept(2) [OF r [unfolded Ok t]] by auto
      then obtain peer where peer: "SetFromSockaddr ss slen = Inr peer" using peers by blast
      obtain c k2 where c: "SocketConn_accepted sys peer fd k1 = (c, k2)" by fastforce
      from SocketConn_accepted_ok [OF c] step a r Ok t peer c fd show ?thesis
        by (cases c) (auto simp: P_def)
    qed
  qed
  then show ?thesis by (simp add: P_def)
qed

end

section \<open>A kernel\<close>

text \<open>
  One connection and a table of descriptors.  \<open>script\<close> says what happens to the next reads and sends: an
  interruption, a call that is not ready, or a transfer of at most so many bytes and one more; \<open>faults\<close>
  which of the next other calls fail.
\<close>

datatype hiccup = Interrupted | Not_ready | Short nat

record sim =
  arriving :: "byte list"
  departed :: "byte list"
  script :: "hiccup list"
  faults :: "bool list"
  table :: "nat list"
  shut :: bool

definition sim_transfer :: "nat \<Rightarrow> sim \<Rightarrow> nat sysres \<times> sim" where
  "sim_transfer n k =
    (case script k of
       [] \<Rightarrow> (Ok n, k)
     | Interrupted # hs \<Rightarrow> (Err EINTR, k\<lparr>script := hs\<rparr>)
     | Not_ready # hs \<Rightarrow> (Err EAGAIN, k\<lparr>script := hs\<rparr>)
     | Short m # hs \<Rightarrow> (Ok (min n (m + 1)), k\<lparr>script := hs\<rparr>))"

definition sim_read :: "int \<Rightarrow> nat \<Rightarrow> sim \<Rightarrow> byte list sysres \<times> sim" where
  "sim_read fd n k =
    (case sim_transfer n k of
       (Ok m, k) \<Rightarrow> (Ok (take m (arriving k)), k\<lparr>arriving := drop m (arriving k)\<rparr>)
     | (Err e, k) \<Rightarrow> (Err e, k))"

definition sim_send :: "int \<Rightarrow> byte list \<Rightarrow> sim \<Rightarrow> nat sysres \<times> sim" where
  "sim_send fd buf k =
    (if shut k then (Err (Other_errno 32), k)
     else
       case sim_transfer (length buf) k of
         (Ok m, k) \<Rightarrow> (Ok m, k\<lparr>departed := departed k @ take m buf\<rparr>)
       | (Err e, k) \<Rightarrow> (Err e, k))"

definition sim_call :: "'a \<Rightarrow> sim \<Rightarrow> 'a sysres \<times> sim" where
  "sim_call x k =
    (case faults k of
       [] \<Rightarrow> (Ok x, k)
     | f # fs \<Rightarrow> (if f then Err (Other_errno 1) else Ok x, k\<lparr>faults := fs\<rparr>))"

definition sim_fresh :: "'a \<Rightarrow> sim \<Rightarrow> (int \<times> 'a) sysres \<times> sim" where
  "sim_fresh x k =
    (case sim_call (Suc (foldr max (table k) 2)) k of
       (Ok fd, k) \<Rightarrow> (Ok (int fd, x), k\<lparr>table := fd # table k\<rparr>)
     | (Err e, k) \<Rightarrow> (Err e, k))"

definition sim_close :: "int \<Rightarrow> sim \<Rightarrow> unit sysres \<times> sim" where
  "sim_close fd k =
    (if 0 \<le> fd \<and> nat fd \<in> set (table k) then (Ok (), k\<lparr>table := removeAll (nat fd) (table k)\<rparr>)
     else (Err (Other_errno 9), k))"

definition loopback :: "sockaddr \<times> nat" where
  "loopback = (Inet \<lparr>sin_addr = 16777343, sin_port = 0\<rparr>, 16)"

definition sim_syscalls :: "sim syscalls" where
  "sim_syscalls =
    \<lparr>sys_socket = (\<lambda>_ k. case sim_fresh () k of (Ok (fd, _), k) \<Rightarrow> (Ok fd, k) | (Err e, k) \<Rightarrow> (Err e, k)),
     sys_close = sim_close, sys_read = sim_read, sys_send = sim_send, sys_shutdown = (\<lambda>_ k. (Ok (), k\<lparr>shut := True\<rparr>)),
     sys_connect = (\<lambda>_ _. sim_call ()), sys_so_error = (\<lambda>_. sim_call None),
     sys_getsockname = (\<lambda>_. sim_call loopback), sys_setsockopt = (\<lambda>_. sim_call ()),
     sys_bind = (\<lambda>_ _. sim_call ()), sys_listen = (\<lambda>_. sim_call ()), sys_accept4 = (\<lambda>_. sim_fresh loopback),
     sys_recvfrom = (\<lambda>_ n k. (Ok ([], loopback), k)), sys_sendto = (\<lambda>_ buf _ k. (Ok (length buf), k)),
     watcher_Init = (\<lambda>_ k. case sim_call () k of (Ok u, k) \<Rightarrow> (Inr u, k) | (Err _, k) \<Rightarrow> (Inl (SystemError ''epoll_ctl''), k)),
     watcher_Wait = (\<lambda>_ _ k. (Inr False, k)), watcher_Reset = (\<lambda>_ k. k)\<rparr>"

lemmas sim_defs = sim_syscalls_def sim_read_def sim_send_def sim_transfer_def sim_call_def sim_fresh_def sim_close_def


lemma sim_transfer_cases:
  assumes "sim_transfer n k = (r, k')"
  obtains m where "r = Ok m" "m \<le> n" "0 < n \<Longrightarrow> 0 < m" "arriving k' = arriving k" "departed k' = departed k" "shut k' = shut k"
    | e where "r = Err e" "soft e" "length (script k') < length (script k)" "arriving k' = arriving k" "departed k' = departed k"
      "shut k' = shut k"
  using assms by (cases "script k"; cases "hd (script k)") (auto simp: sim_transfer_def soft_def)

interpretation sim_in: tcp_source sim_syscalls fd arriving "\<lambda>_. True" "\<lambda>k. length (script k)"
proof
  fix n k e k' and bs :: "byte list"
  show "arriving k = bs @ arriving k' \<and> length bs \<le> n \<and> (bs = [] \<longrightarrow> n = 0 \<or> arriving k = [])"
    if "sys_read sim_syscalls fd n k = (Ok bs, k')"
  proof -
    obtain r k1 where r: "sim_transfer n k = (r, k1)" by fastforce
    from r show ?thesis
    proof (cases rule: sim_transfer_cases)
      case (1 m)
      have "n = 0" if "m = 0" using 1(3) that by (cases n) auto
      then show ?thesis using that r 1 by (auto simp: sim_syscalls_def sim_read_def)
    qed (use that r in \<open>auto simp: sim_syscalls_def sim_read_def\<close>)
  qed
  show "soft e \<and> arriving k' = arriving k \<and> length (script k') < length (script k)"
    if "sys_read sim_syscalls fd n k = (Err e, k')"
  proof -
    obtain r k1 where r: "sim_transfer n k = (r, k1)" by fastforce
    from r show ?thesis
      by (cases rule: sim_transfer_cases) (use that r in \<open>auto simp: sim_syscalls_def sim_read_def\<close>)
  qed
qed (auto simp: sim_syscalls_def)

interpretation sim_out: tcp_sink sim_syscalls fd departed "\<lambda>k. \<not> shut k" "\<lambda>k. length (script k)"
proof
  fix buf k n e k' r
  show "\<not> shut k'" if "\<not> shut k" "sys_send sim_syscalls fd buf k = (r, k')"
  proof -
    obtain r k1 where r: "sim_transfer (length buf) k = (r, k1)" by fastforce
    from r show ?thesis
      by (cases rule: sim_transfer_cases) (use that r in \<open>auto simp: sim_syscalls_def sim_send_def\<close>)
  qed
  show "0 < n \<and> n \<le> length buf \<and> departed k' = departed k @ take n buf"
    if "\<not> shut k" "buf \<noteq> []" "sys_send sim_syscalls fd buf k = (Ok n, k')"
  proof -
    obtain r k1 where r: "sim_transfer (length buf) k = (r, k1)" by fastforce
    from r show ?thesis
      by (cases rule: sim_transfer_cases) (use that r in \<open>auto simp: sim_syscalls_def sim_send_def\<close>)
  qed
  show "soft e \<and> departed k' = departed k \<and> length (script k') < length (script k)"
    if "\<not> shut k" "sys_send sim_syscalls fd buf k = (Err e, k')"
  proof -
    obtain r k1 where r: "sim_transfer (length buf) k = (r, k1)" by fastforce
    from r show ?thesis
      by (cases rule: sim_transfer_cases) (use that r in \<open>auto simp: sim_syscalls_def sim_send_def\<close>)
  qed
qed (auto simp: sim_syscalls_def)

definition sim_open :: "sim \<Rightarrow> int set" where
  "sim_open k = int ` set (table k)"

lemma foldr_max_fresh: "\<forall>x \<in> set xs. x \<le> foldr max xs (n :: nat)"
  by (induction xs) auto

lemma sim_fresh_open: "int (Suc (foldr max (table k) n)) \<notin> sim_open k"
proof
  assume "int (Suc (foldr max (table k) n)) \<in> sim_open k"
  then have "Suc (foldr max (table k) n) \<in> set (table k)"
    unfolding sim_open_def by (simp only: inj_image_mem_iff [OF inj_of_nat])
  then show False using foldr_max_fresh [of "table k" n] by fastforce
qed

lemma sim_call_cases:
  assumes "sim_call x k = (r, k')"
  obtains "table k' = table k" "r = Ok x" | e where "table k' = table k" "r = Err e"
  using assms by (cases "faults k") (auto simp: sim_call_def split: if_splits)

lemma sim_call_table [simp]: "sim_open (snd (sim_call x k)) = sim_open k"
  by (cases "faults k") (auto simp: sim_call_def sim_open_def)

lemma sim_fresh_cases:
  assumes "sim_fresh x k = (r, k')"
  obtains fd where "r = Ok (fd, x)" "fd \<noteq> - 1" "fd \<notin> sim_open k" "sim_open k' = insert fd (sim_open k)"
    | e where "r = Err e" "sim_open k' = sim_open k"
proof -
  obtain c k1 where c: "sim_call (Suc (foldr max (table k) 2)) k = (c, k1)" by fastforce
  from c show thesis
  proof (cases rule: sim_call_cases)
    case 1
    then show thesis using assms c that(1) [of "int (Suc (foldr max (table k) 2))"] sim_fresh_open [of k 2]
      by (auto simp: sim_fresh_def sim_open_def)
  qed (use assms c that(2) in \<open>auto simp: sim_fresh_def sim_open_def\<close>)
qed

interpretation sim_fds: descriptor_table sim_syscalls sim_open
proof
  fix stream fd k e k' lfd sa
  obtain c k1 where c: "sim_fresh () k = (c, k1)" by fastforce
  show "fd \<noteq> - 1 \<and> fd \<notin> sim_open k \<and> sim_open k' = insert fd (sim_open k)"
    if "sys_socket sim_syscalls stream k = (Ok fd, k')"
    using c by (cases rule: sim_fresh_cases) (use that c in \<open>simp_all add: sim_syscalls_def\<close>)
  show "sim_open k' = sim_open k" if "sys_socket sim_syscalls stream k = (Err e, k')"
    using c by (cases rule: sim_fresh_cases) (use that c in \<open>simp_all add: sim_syscalls_def\<close>)
  show "fd \<noteq> - 1 \<and> fd \<notin> sim_open k \<and> sim_open k' = insert fd (sim_open k)"
    if "sys_accept4 sim_syscalls lfd k = (Ok (fd, sa), k')"
  proof -
    have "sim_fresh loopback k = (Ok (fd, sa), k')" using that by (simp add: sim_syscalls_def)
    then show ?thesis by (cases rule: sim_fresh_cases) simp_all
  qed
  show "sim_open k' = sim_open k" if "sys_accept4 sim_syscalls lfd k = (Err e, k')"
  proof -
    have "sim_fresh loopback k = (Err e, k')" using that by (simp add: sim_syscalls_def)
    then show ?thesis by (cases rule: sim_fresh_cases) simp_all
  qed
  show "\<exists>k'. sys_close sim_syscalls fd k = (Ok (), k') \<and> sim_open k' = sim_open k - {fd}" if "fd \<in> sim_open k"
    using that by (auto simp: sim_syscalls_def sim_close_def sim_open_def)
  show "\<exists>e k'. sys_close sim_syscalls fd k = (Err e, k') \<and> sim_open k' = sim_open k" if "fd \<notin> sim_open k"
    using that by (auto simp: sim_syscalls_def sim_close_def sim_open_def image_iff)
  show "- 1 \<notin> sim_open k" by (auto simp: sim_open_def)
  show "sim_open (snd (watcher_Init sim_syscalls fd k)) = sim_open k"
  proof -
    obtain c k1 where c: "sim_call () k = (c, k1)" by fastforce
    from c show ?thesis
      by (cases rule: sim_call_cases) (use c in \<open>simp_all add: sim_syscalls_def sim_open_def\<close>)
  qed
qed (auto simp: sim_syscalls_def)

section \<open>Properties\<close>

text \<open>
  Over every kernel whose connected sockets behave as TCP says, however its calls are interrupted, not
  ready or cut short, \<open>Write\<close> returns, and exactly the bytes of its buffer have been sent, in order.
\<close>

theorem SocketConn_Write_complete:
  assumes "tcp_sink sys fd outgoing kinv delay" and "kinv k"
  shows "\<exists>k'. SocketConn_Write sys fd buf k = Some (Inr (), k') \<and> outgoing k' = outgoing k @ buf"
  using tcp_sink.Write_ok [OF assms] by blast

theorem SocketConn_Write_complete_witness:
  "\<exists>k'. SocketConn_Write sim_syscalls 3 ''abcd''
      \<lparr>arriving = [], departed = [], script = [Interrupted, Short 1, Not_ready, Short 0], faults = [], table = [3], shut = False\<rparr> =
        Some (Inr (), k') \<and> departed k' = ''abcd''"
  using SocketConn_Write_complete [OF sim_out.tcp_sink_axioms,
    where fd = 3 and buf = "''abcd''" and k = "\<lparr>arriving = [], departed = [], script = [Interrupted, Short 1, Not_ready, Short 0], faults = [], table = [3], shut = False\<rparr>"]
  by simp

definition new_socket :: "('k \<Rightarrow> int set) \<Rightarrow> ('s \<Rightarrow> int) \<Rightarrow> 'k \<Rightarrow> 's result \<times> 'k \<Rightarrow> bool" where
  "new_socket open_fds fd_of k ret \<longleftrightarrow>
    (case fst ret of
       Inr s \<Rightarrow> fd_of s \<notin> open_fds k \<and> open_fds (snd ret) = insert (fd_of s) (open_fds k)
     | Inl e \<Rightarrow> open_fds (snd ret) = open_fds k)"

text \<open>
  C22: no descriptor is leaked: over every kernel that keeps a descriptor table, whatever calls fail,
  \<open>DialTCP\<close>, \<open>ListenTCP\<close>, \<open>ListenUDP\<close> and \<open>Accept\<close> leave open what was open before and, when they return a
  socket, its descriptor, which is a new one.  For \<open>Accept\<close> the kernel reports its peers' addresses in full.
\<close>

theorem sockets_no_leak:
  assumes fds: "descriptor_table sys open_fds"
    and peers: "\<And>k fd ss slen k'. sys_accept4 sys (sl_fd l) k = (Ok (fd, ss, slen), k') \<Longrightarrow> \<exists>a. SetFromSockaddr ss slen = Inr a"
  shows "(DialTCP sys a k = Some d \<longrightarrow> new_socket open_fds sc_fd k d) \<and>
    new_socket open_fds sl_fd k (ListenTCP sys a k) \<and>
    new_socket open_fds (\<lambda>fd. fd) k (ListenUDP sys a k) \<and>
    (Accept sys l k = Some c \<longrightarrow> new_socket open_fds sc_fd k c)"
  using descriptor_table.DialTCP_ok [OF fds, of a k "fst d" "snd d"]
    descriptor_table.ListenTCP_ok [OF fds, of a k "fst (ListenTCP sys a k)" "snd (ListenTCP sys a k)"]
    descriptor_table.ListenUDP_ok [OF fds, of a k "fst (ListenUDP sys a k)" "snd (ListenUDP sys a k)"]
    descriptor_table.Accept_ok [OF fds _ peers, of l k c]
  by (simp add: new_socket_def)

lemma sim_peers: "sys_accept4 sim_syscalls lfd k = (Ok (fd, ss, slen), k') \<Longrightarrow> \<exists>a. SetFromSockaddr ss slen = Inr a"
proof -
  assume "sys_accept4 sim_syscalls lfd k = (Ok (fd, ss, slen), k')"
  then have "sim_fresh loopback k = (Ok (fd, ss, slen), k')" by (simp add: sim_syscalls_def)
  then show ?thesis
    by (cases rule: sim_fresh_cases)
      (simp_all add: loopback_def SetFromSockaddr_def sizeof_sockaddr_in_def sizeof_family_def)
qed

theorem sockets_no_leak_witness:
  "new_socket sim_open sl_fd
    \<lparr>arriving = [], departed = [], script = [], faults = [False, False, True], table = [5], shut = False\<rparr>
    (ListenTCP sim_syscalls (SocketAddress_of_ip 0 80)
      \<lparr>arriving = [], departed = [], script = [], faults = [False, False, True], table = [5], shut = False\<rparr>)"
  by (rule sockets_no_leak [OF sim_fds.descriptor_table_axioms, where l = "\<lparr>sl_fd = 5, sl_at = None\<rparr>",
      THEN conjunct2, THEN conjunct1]) (rule sim_peers)

end
