(* ===== verification/Redis_Sockets.thy ===== *)
theory Redis_Sockets
  imports Redis_Client Net_Sockets
begin

text \<open>
  The redis server and client over sockets: \<open>Listen\<close> gives a \<open>RespReader\<close> and a \<open>RespWriter\<close> the connection
  itself, so a session reads and writes through \<open>SocketConn\<close>, whatever the kernel does to its calls.
\<close>

text \<open>
  C8: a session served over a socket.  Over every kernel that behaves as TCP says, with the encodings of the
  commands \<open>cs\<close> arriving, the session returns, it has sent the replies of the abstract store up to the first
  failing command, and the storage represents the store's map; interruptions, calls that are not ready and
  transfers cut short at any byte make no difference.
\<close>

theorem Session_over_sockets:
  assumes source: "tcp_source rsys rfd incoming rinv rdelay" and sink: "tcp_sink wsys wfd outgoing winv wdelay"
    and "rinv r" "winv w" "storage_inv t" "incoming r = concat (map enc_command cs)" "\<forall>c\<in>set cs. command_fits c"
  shows "\<exists>w' t'. Session (SocketConn_reader rsys rfd) (SocketConn_writer wsys wfd) SimpleStorage r w t = Some (w', t') \<and>
      outgoing w' = outgoing w @ fst (exec_all (storage_model t) cs) \<and>
      storage_inv t' \<and> storage_model t' = snd (exec_all (storage_model t) cs)"
proof -
  have "redis_server (SocketConn_reader rsys rfd) incoming rinv (SocketConn_writer wsys wfd) outgoing winv
      SimpleStorage storage_model storage_inv"
    by (intro redis_server.intro tcp_source.is_reader [OF source] tcp_sink.is_writer [OF sink] ss.storage_axioms)
  note ok = redis_server.Session_ok [OF this]
  from ok [OF assms(3-7)] show ?thesis by blast
qed

definition sim_link :: "byte list \<Rightarrow> hiccup list \<Rightarrow> sim" where
  "sim_link bs hs = \<lparr>arriving = bs, departed = [], script = hs, faults = [], table = [3], shut = False\<rparr>"

theorem Session_over_sockets_witness:
  "\<exists>w' t'. Session (SocketConn_reader sim_syscalls 3) (SocketConn_writer sim_syscalls 3) SimpleStorage
      (sim_link (concat (map enc_command [CommandSet ''a'' ''1'', CommandIncr ''a''])) [Short 0, Interrupted, Not_ready])
      (sim_link [] [Not_ready, Short 2, Interrupted]) Map.empty = Some (w', t') \<and>
    departed w' = departed (sim_link [] [Not_ready, Short 2, Interrupted]) @
      fst (exec_all (storage_model Map.empty) [CommandSet ''a'' ''1'', CommandIncr ''a'']) \<and>
    storage_inv t' \<and>
    storage_model t' = snd (exec_all (storage_model Map.empty) [CommandSet ''a'' ''1'', CommandIncr ''a''])"
  by (rule Session_over_sockets [OF sim_in.tcp_source_axioms sim_out.tcp_sink_axioms])
    (simp_all add: command_fits_def int64_bounds sim_link_def)

end
