(* ===== verification/Socks.thy ===== *)
theory Socks
  imports Net_Sockets
begin

text \<open>
  The SOCKS4 client of \<open>socks4/socks4.cpp\<close> and the proxy of \<open>socksd/socksd.cpp\<close>, over any connection.  A
  connection is a reader and a writer with their states; \<open>cw\<close> is its \<open>CloseWrite\<close>.  Dialling is a parameter,
  which \<open>Net_Sockets\<close> provides.
\<close>

section \<open>Client (socks4.cpp)\<close>

fun write_all :: "'w write_fn \<Rightarrow> 'w \<Rightarrow> byte list list \<Rightarrow> 'w result" where
  "write_all wr w [] = Inr w"
| "write_all wr w (bs # rest) = andThen (wr w bs) (\<lambda>w. write_all wr w rest)"

definition Sock4_request :: "'w write_fn \<Rightarrow> 'w \<Rightarrow> SocketAddress \<Rightarrow> string \<Rightarrow> 'w result" where
  "Sock4_request wr w endpoint user =
    andThen (write_all wr w [[CHR 0x04], [CHR 0x01]]) (\<lambda>w.
    andThen (GetPort endpoint) (\<lambda>port.
    andThen (wr w (View_uint 2 (unat (htons port)))) (\<lambda>w.
    andThen (GetIp endpoint) (\<lambda>ip.
      write_all wr w [View_uint 4 (unat ip), user, [CHR 0x00]]))))"

definition Sock4_reply :: "'r read_fn \<Rightarrow> 'r \<Rightarrow> 'r result" where
  "Sock4_reply rd r =
    andThen (ReadFull rd r 1) (\<lambda>(vn, r).
      if of_View vn \<noteq> 0 then Inl StdException
      else
        andThen (ReadFull rd r 1) (\<lambda>(cd, r).
          if of_View cd \<noteq> 90 then Inl StdException
          else
            andThen (ReadFull rd r 2) (\<lambda>(port, r).
            andThen (ReadFull rd r 4) (\<lambda>(ip, r). Inr r))))"

definition Sock4Connect ::
  "'r read_fn \<Rightarrow> 'w write_fn \<Rightarrow> 'r \<times> 'w \<Rightarrow> SocketAddress \<Rightarrow> string \<Rightarrow> ('r \<times> 'w) result" where
  "Sock4Connect rd wr conn endpoint user =
    andThen (Sock4_request wr (snd conn) endpoint user) (\<lambda>w. map_sum id (\<lambda>r. (r, w)) (Sock4_reply rd (fst conn)))"

record Proxy =
  proxy_address :: SocketAddress
  username :: string

text \<open>The loop of \<open>DialProxyChain\<close> from the index \<open>i\<close>, and the function; \<^term>\<open>None\<close> is the null pointer.\<close>

function DialProxyChain_loop ::
  "'r read_fn \<Rightarrow> 'w write_fn \<Rightarrow> Proxy list \<Rightarrow> nat \<Rightarrow> 'r \<times> 'w \<Rightarrow> ('r \<times> 'w) result" where
  "DialProxyChain_loop rd wr proxies i conn =
    (if i < length proxies then
       andThen (Sock4Connect rd wr conn (proxy_address (proxies ! i)) (username (proxies ! (i - 1))))
         (DialProxyChain_loop rd wr proxies (i + 1))
     else Inr conn)"
  by pat_completeness auto
termination
  by (relation "measure (\<lambda>(rd, wr, proxies, i, conn). length proxies - i)") auto

definition DialProxyChain ::
  "'r read_fn \<Rightarrow> 'w write_fn \<Rightarrow> (SocketAddress \<Rightarrow> ('r \<times> 'w) result) \<Rightarrow> Proxy list \<Rightarrow> SocketAddress \<Rightarrow>
    ('r \<times> 'w) option" where
  "DialProxyChain rd wr dial proxies endpoint =
    (case
       if proxies = [] then dial endpoint
       else
         andThen (dial (proxy_address (proxies ! 0))) (\<lambda>conn.
         andThen (DialProxyChain_loop rd wr proxies 1 conn) (\<lambda>conn.
           Sock4Connect rd wr conn endpoint (username (proxies ! (length proxies - 1)))))
     of Inr conn \<Rightarrow> Some conn | Inl _ \<Rightarrow> None)"

section \<open>Proxy (socksd.cpp)\<close>

text \<open>
  \<open>ReadUserName\<close> keeps the name in a local string and only moves the connection past it.  The loop is entered
  with \<open>len\<close> bytes read.
\<close>

function ReadUserName_loop :: "'r read_fn \<Rightarrow> nat \<Rightarrow> 'r \<Rightarrow> 'r result" where
  "ReadUserName_loop rd len r =
    andThen (rd r 1) (\<lambda>(bs, r).
      if bs = [] then Inl EOFException
      else if len + 1 < 257 \<and> of_View bs \<noteq> 0 then ReadUserName_loop rd (len + 1) r
      else if of_View bs \<noteq> 0 then Inl (RuntimeError ''Wrong user name'')
      else Inr r)"
  by pat_completeness auto
termination
  by (relation "measure (\<lambda>(rd, len, r). 257 - len)") auto

definition ReadUserName :: "'r read_fn \<Rightarrow> 'r \<Rightarrow> 'r result" where
  "ReadUserName rd r = ReadUserName_loop rd 0 r"

text \<open>
  \<open>TransferData\<close> returns \<^term>\<open>Inl e\<close> for an exception that was swallowed; on an endless stream it does not
  return.
\<close>

partial_function (option) TransferData ::
  "'r read_fn \<Rightarrow> 'w write_fn \<Rightarrow> ('w \<Rightarrow> 'w result) \<Rightarrow> 'r \<Rightarrow> 'w \<Rightarrow> ('r \<times> 'w) result option" where
  "TransferData rd wr cw r w =
    (case rd r 256 of
       Inl e \<Rightarrow> Some (Inl e)
     | Inr (bs, r) \<Rightarrow>
         if bs = [] then Some (map_sum id (\<lambda>w. (r, w)) (cw w))
         else case wr w bs of Inl e \<Rightarrow> Some (Inl e) | Inr w \<Rightarrow> TransferData rd wr cw r w)"

text \<open>The body of the first \<open>try\<close> of \<open>MakeConn\<close>, and the two answers.\<close>

definition MakeConn_try ::
  "'r read_fn \<Rightarrow> (SocketAddress \<Rightarrow> 'p result) \<Rightarrow> 'r \<Rightarrow> ('p \<times> 'r) result" where
  "MakeConn_try rd dial r =
    andThen (ReadFull rd r 1) (\<lambda>(vn, r).
      if of_View vn \<noteq> 4 then Inl (RuntimeError ''Wrong request'')
      else
        andThen (ReadFull rd r 1) (\<lambda>(cd, r).
          if of_View cd \<noteq> 1 then Inl (RuntimeError ''Wrong request'')
          else
            andThen (ReadFull rd r 2) (\<lambda>(port, r).
            andThen (ReadFull rd r 4) (\<lambda>(ip, r).
            andThen (ReadUserName rd r) (\<lambda>r.
            andThen (dial (SocketAddress_of_ip (of_nat (of_View ip)) (htons (of_nat (of_View port))))) (\<lambda>proxy_conn.
              Inr (proxy_conn, r)))))))"

definition MakeConn_answer :: "'w write_fn \<Rightarrow> nat \<Rightarrow> 'w \<Rightarrow> 'w result" where
  "MakeConn_answer wr cd w = write_all wr w [[CHR 0x00], View_uint 1 cd, View_uint 2 0, View_uint 4 0]"

text \<open>
  How \<open>MakeConn\<close> ends: it returned after the client left, an exception escaped it, it called \<open>TransferData\<close>
  with the null pointer that \<open>proxy_conn\<close> still is after a failed request, or both transfers ended.  The two
  transfers run in two fibers on disjoint halves of the two connections, so their order makes no difference.
\<close>

datatype ('r, 'w, 'pr, 'pw) proxy_end =
    Left_early
  | Escaped exn
  | Null_connection 'w
  | Transferred "('r \<times> 'pw) result" "('pr \<times> 'w) result"

definition MakeConn ::
  "'r read_fn \<Rightarrow> 'w write_fn \<Rightarrow> ('w \<Rightarrow> 'w result) \<Rightarrow> 'pr read_fn \<Rightarrow> 'pw write_fn \<Rightarrow> ('pw \<Rightarrow> 'pw result) \<Rightarrow>
    (SocketAddress \<Rightarrow> ('pr \<times> 'pw) result) \<Rightarrow> 'r \<times> 'w \<Rightarrow> ('r, 'w, 'pr, 'pw) proxy_end option" where
  "MakeConn rd wr cw prd pwr pcw dial conn =
    (case MakeConn_try rd dial (fst conn) of
       Inr ((pr, pw), r) \<Rightarrow>
         (case MakeConn_answer wr 90 (snd conn) of
            Inl e \<Rightarrow> Some (Escaped e)
          | Inr w \<Rightarrow>
              Option.bind (TransferData rd pwr pcw r pw) (\<lambda>there.
                map_option (\<lambda>back. Transferred there back) (TransferData prd wr cw pr w)))
     | Inl e \<Rightarrow>
         if e = EOFException then Some Left_early
         else
           (case andThen (MakeConn_answer wr 91 (snd conn)) (\<lambda>w. andThen (cw w) (MakeConn_answer wr 90)) of
              Inl e \<Rightarrow> Some (Escaped e)
            | Inr w \<Rightarrow> Some (Null_connection w)))"

section \<open>What goes over the wire\<close>

definition enc_request :: "sockaddr_in \<Rightarrow> string \<Rightarrow> byte list" where
  "enc_request sa user =
    [CHR 0x04, CHR 0x01] @ View_uint 2 (unat (sin_port sa)) @ View_uint 4 (unat (sin_addr sa)) @ user @ [CHR 0x00]"

definition enc_reply :: "nat \<Rightarrow> byte list" where
  "enc_reply cd = [CHR 0x00] @ View_uint 1 cd @ View_uint 6 0"

definition name_fits :: "string \<Rightarrow> bool" where
  "name_fits user \<longleftrightarrow> length user \<le> 256 \<and> CHR 0x00 \<notin> set user"

lemma View_uint_0: "View_uint n 0 = replicate n (CHR 0x00)"
  by (induction n) (simp_all add: char_of_def)

context stream_writer
begin

lemma write_all_ok: "winvar w \<Longrightarrow> \<exists>w'. write_all wr w bss = Inr w' \<and> winvar w' \<and> written w' = written w @ concat bss"
proof (induction bss arbitrary: w)
  case (Cons bs bss)
  obtain w1 where w1: "wr w bs = Inr w1" "winvar w1" "written w1 = written w @ bs" using write_ok [OF Cons.prems] by blast
  from Cons.IH [OF w1(2)] show ?case using w1 by auto
qed auto

lemma Sock4_request_ok:
  assumes "winvar w"
  shows "\<exists>w'. Sock4_request wr w (Some sa) user = Inr w' \<and> winvar w' \<and> written w' = written w @ enc_request sa user"
proof -
  obtain w1 where w1: "write_all wr w [[CHR 0x04], [CHR 0x01]] = Inr w1" "winvar w1"
    "written w1 = written w @ [CHR 0x04, CHR 0x01]" using write_all_ok [OF assms, of "[[CHR 0x04], [CHR 0x01]]"] by auto
  obtain w2 where w2: "wr w1 (View_uint 2 (unat (sin_port sa))) = Inr w2" "winvar w2"
    "written w2 = written w1 @ View_uint 2 (unat (sin_port sa))" using write_ok [OF w1(2)] by blast
  obtain w3 where w3: "write_all wr w2 [View_uint 4 (unat (sin_addr sa)), user, [CHR 0x00]] = Inr w3" "winvar w3"
    "written w3 = written w2 @ View_uint 4 (unat (sin_addr sa)) @ user @ [CHR 0x00]"
    using write_all_ok [OF w2(2), of "[View_uint 4 (unat (sin_addr sa)), user, [CHR 0x00]]"] by auto
  show ?thesis
    using w1 w2 w3 by (simp add: Sock4_request_def GetPort_def GetIp_def CheckEmpty_def enc_request_def del: write_all.simps)
qed

lemma MakeConn_answer_ok:
  "winvar w \<Longrightarrow> \<exists>w'. MakeConn_answer wr cd w = Inr w' \<and> winvar w' \<and> written w' = written w @ enc_reply cd"
  using write_all_ok [of w "[[CHR 0x00], View_uint 1 cd, View_uint 2 0, View_uint 4 0]"]
  by (simp add: MakeConn_answer_def enc_reply_def View_uint_0 del: write_all.simps View_uint.simps flip: replicate_add)

end

context stream_reader
begin

lemma read_one: "invar r \<Longrightarrow> content r = c # cs \<Longrightarrow> \<exists>r'. rd r 1 = Inr ([c], r') \<and> invar r' \<and> content r' = cs"
proof -
  assume a: "invar r" "content r = c # cs"
  from a(1) obtain bs r' where r: "rd r 1 = Inr (bs, r')" "invar r'" "content r = bs @ content r'" "length bs \<le> 1"
    "bs = [] \<longrightarrow> (1::nat) = 0 \<or> content r = []" by (rule readE [where n = 1])
  then have "bs = [c]" using a(2) by (cases bs) auto
  then show ?thesis using r a(2) by auto
qed

lemma of_View_byte: "of_View [b] = of_char b"
  by simp

lemma byte_zero: "of_char c = (0::nat) \<longleftrightarrow> c = CHR 0x00"
proof
  assume z: "of_char c = (0::nat)"
  have "c = char_of (of_char c :: nat)" by simp
  also have "\<dots> = CHR 0x00" unfolding z by (simp add: char_of_def)
  finally show "c = CHR 0x00" .
qed simp

lemma ReadUserName_loop_ok:
  "invar r \<Longrightarrow> content r = user @ CHR 0x00 # rest \<Longrightarrow> CHR 0x00 \<notin> set user \<Longrightarrow> len + length user \<le> 256 \<Longrightarrow>
   \<exists>r'. ReadUserName_loop rd len r = Inr r' \<and> invar r' \<and> content r' = rest"
proof (induction user arbitrary: r len)
  case Nil
  obtain r' where "rd r 1 = Inr ([CHR 0x00], r')" "invar r'" "content r' = rest"
    using read_one [of r "CHR 0x00" rest] Nil.prems by auto
  then show ?case by (subst ReadUserName_loop.simps) simp
next
  case (Cons c user)
  obtain r' where r': "rd r 1 = Inr ([c], r')" "invar r'" "content r' = user @ CHR 0x00 # rest"
    using read_one [of r c "user @ CHR 0x00 # rest"] Cons.prems by auto
  have "ReadUserName_loop rd len r = ReadUserName_loop rd (len + 1) r'"
    using r'(1) Cons.prems(3,4) byte_zero [of c] by (subst ReadUserName_loop.simps) auto
  then show ?case using Cons.IH [OF r'(2,3), of "len + 1"] Cons.prems(3,4) by simp
qed

lemma ReadUserName_loop_long:
  "invar r \<Longrightarrow> content r = user @ rest \<Longrightarrow> CHR 0x00 \<notin> set user \<Longrightarrow> len + length user = 257 \<Longrightarrow> user \<noteq> [] \<Longrightarrow>
   ReadUserName_loop rd len r = Inl (RuntimeError ''Wrong user name'')"
proof (induction user arbitrary: r len)
  case (Cons c user)
  obtain r' where r': "rd r 1 = Inr ([c], r')" "invar r'" "content r' = user @ rest"
    using read_one [of r c "user @ rest"] Cons.prems by auto
  show ?case
  proof (cases "user = []")
    case True
    then show ?thesis using r'(1) Cons.prems byte_zero [of c] by (subst ReadUserName_loop.simps) auto
  next
    case False
    then have "ReadUserName_loop rd len r = ReadUserName_loop rd (len + 1) r'"
      using r'(1) Cons.prems(3,4) byte_zero [of c] by (subst ReadUserName_loop.simps) (auto simp: neq_Nil_conv)
    then show ?thesis using Cons.IH [OF r'(2,3), of "len + 1"] Cons.prems(3,4) False by simp
  qed
qed simp

lemma ReadFull_append:
  assumes "invar r" "content r = bs @ rest" "length bs = n"
  shows "\<exists>r'. ReadFull rd r n = Inr (bs, r') \<and> invar r' \<and> content r' = rest"
  using ReadFull_ok [OF assms(1), of n] assms(2,3) by auto

lemma Sock4_reply_ok:
  assumes "invar r" "content r = enc_reply cd @ rest" "cd < 256"
  shows "if cd = 90 then \<exists>r'. Sock4_reply rd r = Inr r' \<and> invar r' \<and> content r' = rest
    else Sock4_reply rd r = Inl StdException"
proof -
  obtain r1 where r1: "ReadFull rd r 1 = Inr ([CHR 0x00], r1)" "invar r1" "content r1 = View_uint 1 cd @ View_uint 6 0 @ rest"
    using ReadFull_append [OF assms(1), of "[CHR 0x00]"] assms(2) by (auto simp: enc_reply_def)
  obtain r2 where r2: "ReadFull rd r1 1 = Inr (View_uint 1 cd, r2)" "invar r2" "content r2 = View_uint 2 0 @ View_uint 4 0 @ rest"
    using ReadFull_append [OF r1(2,3), of 1]
    by (auto simp: View_uint_0 simp del: View_uint.simps simp flip: replicate_add append_assoc)
  obtain r3 where r3: "ReadFull rd r2 2 = Inr (View_uint 2 0, r3)" "invar r3" "content r3 = View_uint 4 0 @ rest"
    using ReadFull_append [OF r2(2,3), of 2] by auto
  obtain r4 where r4: "ReadFull rd r3 4 = Inr (View_uint 4 0, r4)" "invar r4" "content r4 = rest"
    using ReadFull_append [OF r3(2,3), of 4] by auto
  have "of_View (View_uint 1 cd) = cd" using assms(3) by (simp add: of_View_uint del: of_View.simps View_uint.simps)
  then show ?thesis using r1 r2 r3 r4 by (cases "cd = 90") (auto simp: Sock4_reply_def simp del: View_uint.simps)
qed

lemma MakeConn_try_ok:
  assumes "invar r" "content r = enc_request sa user @ rest" "name_fits user"
  shows "\<exists>r'. MakeConn_try rd dial r = map_sum id (\<lambda>p. (p, r')) (dial (Some sa)) \<and> invar r' \<and> content r' = rest"
proof -
  obtain r1 where r1: "ReadFull rd r 1 = Inr ([CHR 0x04], r1)" "invar r1"
      "content r1 = [CHR 0x01] @ View_uint 2 (unat (sin_port sa)) @ View_uint 4 (unat (sin_addr sa)) @ user @ CHR 0x00 # rest"
    using ReadFull_append [OF assms(1), of "[CHR 0x04]"] assms(2) by (auto simp: enc_request_def)
  obtain r2 where r2: "ReadFull rd r1 1 = Inr ([CHR 0x01], r2)" "invar r2"
      "content r2 = View_uint 2 (unat (sin_port sa)) @ View_uint 4 (unat (sin_addr sa)) @ user @ CHR 0x00 # rest"
    using ReadFull_append [OF r1(2,3), of 1] by auto
  obtain r3 where r3: "ReadFull rd r2 2 = Inr (View_uint 2 (unat (sin_port sa)), r3)" "invar r3"
      "content r3 = View_uint 4 (unat (sin_addr sa)) @ user @ CHR 0x00 # rest"
    using ReadFull_append [OF r2(2,3), of 2] by auto
  obtain r4 where r4: "ReadFull rd r3 4 = Inr (View_uint 4 (unat (sin_addr sa)), r4)" "invar r4"
      "content r4 = user @ CHR 0x00 # rest"
    using ReadFull_append [OF r3(2,3), of 4] by auto
  obtain r5 where r5: "ReadUserName rd r4 = Inr r5" "invar r5" "content r5 = rest"
    using ReadUserName_loop_ok [OF r4(2,3), of 0] assms(3) by (auto simp: ReadUserName_def name_fits_def)
  have "unat (sin_port sa) < 256 ^ 2" "unat (sin_addr sa) < 256 ^ 4"
    using unsigned_less [of "sin_port sa", where ?'a = nat] unsigned_less [of "sin_addr sa", where ?'a = nat] by simp_all
  then have v: "of_View (View_uint 2 (unat (sin_port sa))) = unat (sin_port sa)"
      "of_View (View_uint 4 (unat (sin_addr sa))) = unat (sin_addr sa)"
    by (simp_all only: of_View_uint mod_less)
  have "SocketAddress_of_ip (sin_addr sa) (htons (sin_port sa)) = Some sa" by (simp add: SocketAddress_of_ip_def)
  then have "MakeConn_try rd dial r = map_sum id (\<lambda>p. (p, r5)) (dial (Some sa))"
    using r1(1) r2(1) r3(1) r4(1) r5(1) v
    by (cases "dial (Some sa)") (simp_all add: MakeConn_try_def del: View_uint.simps)
  then show ?thesis using r5 by blast
qed

end

section \<open>Relaying\<close>

text \<open>One direction of the proxy: what is read on one connection is written to the other, which can be closed.\<close>

locale relay = stream_reader rd content invar + stream_writer wr written winvar
  for rd :: "'r read_fn" and content invar and wr :: "'w write_fn" and written winvar +
  fixes cw :: "'w \<Rightarrow> 'w result" and closed :: "'w \<Rightarrow> bool"
  assumes CloseWrite_ok: "winvar w \<Longrightarrow> \<exists>w'. cw w = Inr w' \<and> closed w' \<and> written w' = written w"
begin

definition relayed :: "'r \<Rightarrow> 'w \<Rightarrow> ('r \<times> 'w) result \<Rightarrow> bool" where
  "relayed r w res \<longleftrightarrow> (\<exists>r' w'. res = Inr (r', w') \<and> written w' = written w @ content r \<and> closed w')"

lemma TransferData_ok: "invar r \<Longrightarrow> winvar w \<Longrightarrow> \<exists>res. TransferData rd wr cw r w = Some res \<and> relayed r w res"
proof (induction "length (content r)" arbitrary: r w rule: less_induct)
  case less
  obtain bs r1 where r1: "rd r 256 = Inr (bs, r1)" "invar r1" "content r = bs @ content r1"
    "bs = [] \<longrightarrow> (256::nat) = 0 \<or> content r = []" using readE [OF less.prems(1), of 256] .
  show ?case
  proof (cases "bs = []")
    case True
    obtain w' where "cw w = Inr w'" "closed w'" "written w' = written w" using CloseWrite_ok [OF less.prems(2)] by blast
    then show ?thesis using r1 True by (subst TransferData.simps) (simp add: relayed_def)
  next
    case False
    obtain w1 where w1: "wr w bs = Inr w1" "winvar w1" "written w1 = written w @ bs" using write_ok [OF less.prems(2)] by blast
    have "TransferData rd wr cw r w = TransferData rd wr cw r1 w1"
      using r1(1) w1(1) False by (subst TransferData.simps) simp
    moreover have "relayed r1 w1 = relayed r w" by (simp add: relayed_def fun_eq_iff r1(3) w1(3))
    ultimately show ?thesis using less.hyps [OF _ r1(2) w1(2)] r1(3) False by simp
  qed
qed

end

definition SocketConn_closer :: "'k syscalls \<Rightarrow> int \<Rightarrow> 'k \<Rightarrow> 'k result" where
  "SocketConn_closer sys fd k =
    (case SocketConn_CloseWrite sys fd k of
       Some (Inr _, k') \<Rightarrow> Inr k'
     | Some (Inl e, _) \<Rightarrow> Inl e
     | None \<Rightarrow> Inl CheckFailed)"

interpretation sim_relay: relay "SocketConn_reader sim_syscalls fd" arriving "\<lambda>_. True"
  "SocketConn_writer sim_syscalls fd'" departed "\<lambda>k. \<not> shut k" "SocketConn_closer sim_syscalls fd'" shut
proof
  fix k
  show "\<exists>w'. SocketConn_closer sim_syscalls fd' k = Inr w' \<and> shut w' \<and> departed w' = departed k"
    by (auto simp: SocketConn_closer_def SocketConn_CloseWrite_def sim_syscalls_def RestartEIntr.simps)
qed

section \<open>Chains\<close>

fun chain_requests :: "Proxy list \<Rightarrow> sockaddr_in \<Rightarrow> byte list" where
  "chain_requests [] endpoint = []"
| "chain_requests [p] endpoint = enc_request endpoint (username p)"
| "chain_requests (p # q # ps) endpoint =
    enc_request (the (proxy_address q)) (username p) @ chain_requests (q # ps) endpoint"

locale socks_connection = stream_reader rd content invar + stream_writer wr written winvar
  for rd :: "'r read_fn" and content invar and wr :: "'w write_fn" and written winvar
begin

lemma Sock4Connect_ok:
  assumes "invar r" "winvar w" "content r = enc_reply cd @ rest" "cd < 256"
  shows "if cd = 90 then \<exists>r' w'. Sock4Connect rd wr (r, w) (Some sa) user = Inr (r', w') \<and> invar r' \<and> content r' = rest \<and>
      winvar w' \<and> written w' = written w @ enc_request sa user
    else Sock4Connect rd wr (r, w) (Some sa) user = Inl StdException"
proof -
  obtain w' where w': "Sock4_request wr w (Some sa) user = Inr w'" "winvar w'" "written w' = written w @ enc_request sa user"
    using Sock4_request_ok [OF assms(2)] by blast
  show ?thesis using Sock4_reply_ok [OF assms(1,3,4)] w' by (auto simp: Sock4Connect_def split: if_splits)
qed

definition chain_from :: "Proxy list \<Rightarrow> SocketAddress \<Rightarrow> nat \<Rightarrow> 'r \<times> 'w \<Rightarrow> ('r \<times> 'w) result" where
  "chain_from proxies endpoint i conn =
    andThen (DialProxyChain_loop rd wr proxies i conn) (\<lambda>conn.
      Sock4Connect rd wr conn endpoint (username (proxies ! (length proxies - 1))))"

lemma andThen_assoc: "andThen (andThen x f) g = andThen x (\<lambda>y. andThen (f y) g)"
  by (cases x) simp_all

lemma chain_from_step:
  "i < length proxies \<Longrightarrow> chain_from proxies endpoint i conn =
    andThen (Sock4Connect rd wr conn (proxy_address (proxies ! i)) (username (proxies ! (i - 1)))) (chain_from proxies endpoint (i + 1))"
  unfolding chain_from_def by (subst DialProxyChain_loop.simps) (simp add: andThen_assoc)

lemma chain_requests_drop:
  "0 < i \<Longrightarrow> i < length proxies \<Longrightarrow> chain_requests (drop (i - 1) proxies) e =
    enc_request (the (proxy_address (proxies ! i))) (username (proxies ! (i - 1))) @ chain_requests (drop i proxies) e"
  by (cases i) (simp_all add: Cons_nth_drop_Suc [symmetric])

lemma chain_requests_last: "proxies \<noteq> [] \<Longrightarrow> chain_requests (drop (length proxies - 1) proxies) e = enc_request e (username (last proxies))"
  by (cases proxies rule: rev_cases) simp_all

text \<open>\<open>n\<close> proxies of the chain accept; then either the chain is complete or the next one refuses.\<close>

lemma chain_from_ok:
  "0 < i \<Longrightarrow> i \<le> length proxies \<Longrightarrow> \<forall>p \<in> set proxies. proxy_address p \<noteq> None \<Longrightarrow> invar r \<Longrightarrow> winvar w \<Longrightarrow>
   content r = concat (replicate (length proxies - i + 1) (enc_reply 90)) @ rest \<Longrightarrow>
   \<exists>r' w'. chain_from proxies (Some e) i (r, w) = Inr (r', w') \<and> content r' = rest \<and>
     written w' = written w @ chain_requests (drop (i - 1) proxies) e"
proof (induction "length proxies - i" arbitrary: i r w)
  case 0
  then have i: "i = length proxies" by simp
  then have "DialProxyChain_loop rd wr proxies i (r, w) = Inr (r, w)" by (simp add: DialProxyChain_loop.simps)
  moreover have "username (proxies ! (length proxies - 1)) = username (last proxies)"
    using 0 i by (subst last_conv_nth) auto
  ultimately show ?case
    using Sock4Connect_ok [of r w 90 rest e "username (last proxies)"] 0 i chain_requests_last [of proxies e]
    by (auto simp: chain_from_def)
next
  case (Suc n)
  then have i: "i < length proxies" by simp
  then obtain a where a: "proxy_address (proxies ! i) = Some a" using Suc.prems(3) nth_mem [OF i] by fastforce
  have "length proxies - i + 1 = Suc (length proxies - (i + 1) + 1)" using i by simp
  then have "content r = enc_reply 90 @ concat (replicate (length proxies - (i + 1) + 1) (enc_reply 90)) @ rest"
    using Suc.prems(6) by (simp only: replicate_Suc concat.simps append_assoc)
  from Sock4Connect_ok [OF Suc.prems(4,5) this, of a "username (proxies ! (i - 1))"] obtain r1 w1 where
    c: "Sock4Connect rd wr (r, w) (Some a) (username (proxies ! (i - 1))) = Inr (r1, w1)" "invar r1" "winvar w1"
      "content r1 = concat (replicate (length proxies - (i + 1) + 1) (enc_reply 90)) @ rest"
      "written w1 = written w @ enc_request a (username (proxies ! (i - 1)))" by auto
  have "\<exists>r' w'. chain_from proxies (Some e) (i + 1) (r1, w1) = Inr (r', w') \<and> content r' = rest \<and>
      written w' = written w1 @ chain_requests (drop (i + 1 - 1) proxies) e"
    by (rule Suc.hyps(1)) (use Suc c i in auto)
  then show ?case
    using chain_from_step [OF i, of "Some e" "(r, w)"] c(1,5) a chain_requests_drop [OF Suc.prems(1) i] by auto
qed

lemma chain_from_refused:
  "0 < i \<Longrightarrow> i + n \<le> length proxies \<Longrightarrow> \<forall>p \<in> set proxies. proxy_address p \<noteq> None \<Longrightarrow> invar r \<Longrightarrow> winvar w \<Longrightarrow>
   content r = concat (replicate n (enc_reply 90)) @ enc_reply cd @ rest \<Longrightarrow> cd < 256 \<Longrightarrow> cd \<noteq> 90 \<Longrightarrow>
   chain_from proxies (Some e) i (r, w) = Inl StdException"
proof (induction n arbitrary: i r w)
  case 0
  show ?case
  proof (cases "i < length proxies")
    case True
    then obtain a where a: "proxy_address (proxies ! i) = Some a" using 0(3) nth_mem [OF True] by fastforce
    show ?thesis
      using chain_from_step [OF True, of "Some e" "(r, w)"] Sock4Connect_ok [of r w cd rest a] 0 a by simp
  next
    case False
    then show ?thesis
      using Sock4Connect_ok [of r w cd rest e] 0 by (simp add: chain_from_def DialProxyChain_loop.simps)
  qed
next
  case (Suc n)
  then have i: "i < length proxies" by simp
  then obtain a where a: "proxy_address (proxies ! i) = Some a" using Suc.prems(3) nth_mem [OF i] by fastforce
  have "content r = enc_reply 90 @ concat (replicate n (enc_reply 90)) @ enc_reply cd @ rest"
    using Suc.prems(6) by simp
  from Sock4Connect_ok [OF Suc.prems(4,5) this, of a "username (proxies ! (i - 1))"] obtain r1 w1 where
    c: "Sock4Connect rd wr (r, w) (Some a) (username (proxies ! (i - 1))) = Inr (r1, w1)" "invar r1" "winvar w1"
      "content r1 = concat (replicate n (enc_reply 90)) @ enc_reply cd @ rest" by auto
  have "chain_from proxies (Some e) (i + 1) (r1, w1) = Inl StdException"
    by (rule Suc.IH) (use Suc.prems c in auto)
  then show ?case using chain_from_step [OF i, of "Some e" "(r, w)"] c(1) a by simp
qed

lemma DialProxyChain_from:
  "proxies \<noteq> [] \<Longrightarrow> dial (proxy_address (proxies ! 0)) = Inr conn \<Longrightarrow>
    DialProxyChain rd wr dial proxies endpoint =
      (case chain_from proxies endpoint 1 conn of Inr conn \<Rightarrow> Some conn | Inl _ \<Rightarrow> None)"
  by (simp add: DialProxyChain_def chain_from_def)

end

interpretation sim_socks: socks_connection "SocketConn_reader sim_syscalls fd" arriving "\<lambda>_. True"
  "SocketConn_writer sim_syscalls fd" departed "\<lambda>k. \<not> shut k"
  by unfold_locales

section \<open>Properties\<close>

text \<open>
  C19: the proxy relays.  When a client sends a request for the address \<open>sa\<close>, with a name of at most 256 bytes
  that has no zero byte, and dialling \<open>sa\<close> gives a connection, \<open>MakeConn\<close> dials that address, answers that the
  request is granted and both transfers end: everything the client sent after the request has reached the
  endpoint, everything the endpoint sent has reached the client after the answer, and both directions are closed.
\<close>

theorem MakeConn_relays:
  assumes up: "relay rd content invar pwr pwritten pwinvar pcw pclosed"
    and down: "relay prd pcontent pinvar wr written winvar cw closed"
    and "invar r" "winvar w" "content r = enc_request sa user @ sent" "name_fits user"
    and dial: "dial (Some sa) = Inr (pr, pw)" "pinvar pr" "pwinvar pw"
  shows "\<exists>r' pw' pr' w'. MakeConn rd wr cw prd pwr pcw dial (r, w) = Some (Transferred (Inr (r', pw')) (Inr (pr', w'))) \<and>
      pwritten pw' = pwritten pw @ sent \<and> pclosed pw' \<and>
      written w' = written w @ enc_reply 90 @ pcontent pr \<and> closed w'"
proof -
  have reader: "stream_reader rd content invar" and writer: "stream_writer wr written winvar"
    using up down by (simp_all add: relay_def)
  obtain r1 where r1: "MakeConn_try rd dial r = Inr ((pr, pw), r1)" "invar r1" "content r1 = sent"
    using stream_reader.MakeConn_try_ok [OF reader assms(3,5,6), of dial] dial(1) by auto
  obtain w1 where w1: "MakeConn_answer wr 90 w = Inr w1" "winvar w1" "written w1 = written w @ enc_reply 90"
    using stream_writer.MakeConn_answer_ok [OF writer assms(4), of 90] by blast
  obtain x y where x: "TransferData rd pwr pcw r1 pw = Some x" "relay.relayed content pwritten pclosed r1 pw x"
    and y: "TransferData prd wr cw pr w1 = Some y" "relay.relayed pcontent written closed pr w1 y"
    using relay.TransferData_ok [OF up r1(2) dial(3)] relay.TransferData_ok [OF down dial(2) w1(2)] by blast
  obtain r' pw' pr' w' where "x = Inr (r', pw')" "pwritten pw' = pwritten pw @ sent" "pclosed pw'"
    "y = Inr (pr', w')" "written w' = written w1 @ pcontent pr" "closed w'"
    using x(2) y(2) r1(3) unfolding relay.relayed_def [OF up] relay.relayed_def [OF down] by blast
  then show ?thesis using r1(1) w1 x(1) y(1) by (simp add: MakeConn_def)
qed

definition sim_conn :: "byte list \<Rightarrow> hiccup list \<Rightarrow> sim" where
  "sim_conn bs hs = \<lparr>arriving = bs, departed = [], script = hs, faults = [], table = [3], shut = False\<rparr>"

theorem MakeConn_relays_witness:
  "\<exists>r' pw' pr' w'. MakeConn (SocketConn_reader sim_syscalls 3) (SocketConn_writer sim_syscalls 3)
      (SocketConn_closer sim_syscalls 3) (SocketConn_reader sim_syscalls 4) (SocketConn_writer sim_syscalls 4)
      (SocketConn_closer sim_syscalls 4) (\<lambda>_. Inr (sim_conn ''pong'' [Short 0], sim_conn [] [Interrupted]))
      (sim_conn (enc_request \<lparr>sin_addr = 134744072, sin_port = 47873\<rparr> ''prime'' @ ''ping'') [Not_ready], sim_conn [] []) =
        Some (Transferred (Inr (r', pw')) (Inr (pr', w'))) \<and>
    departed pw' = departed (sim_conn [] [Interrupted]) @ ''ping'' \<and> shut pw' \<and>
    departed w' = departed (sim_conn [] []) @ enc_reply 90 @ arriving (sim_conn ''pong'' [Short 0]) \<and> shut w'"
  by (rule MakeConn_relays [OF sim_relay.relay_axioms sim_relay.relay_axioms,
      where sa = "\<lparr>sin_addr = 134744072, sin_port = 47873\<rparr>" and user = "''prime''"])
    (simp_all add: sim_conn_def name_fits_def)

text \<open>
  A chain of proxies.  When the first proxy can be dialled and every proxy grants its request,
  \<open>DialProxyChain\<close> returns the connection, having asked each proxy for the next one and the last one for the
  endpoint, each with its own user name, and leaves unread what follows the answers; when one of them answers
  anything but granted, the result is the null pointer.
\<close>

theorem DialProxyChain_correct:
  assumes conn: "socks_connection rd content invar wr written winvar" "invar r" "winvar w"
    and proxies: "proxies \<noteq> []" "\<forall>p \<in> set proxies. proxy_address p \<noteq> None" "dial (proxy_address (proxies ! 0)) = Inr (r, w)"
  shows "(content r = concat (replicate (length proxies) (enc_reply 90)) @ rest \<longrightarrow>
      (\<exists>r' w'. DialProxyChain rd wr dial proxies (Some e) = Some (r', w') \<and>
        written w' = written w @ chain_requests proxies e \<and> content r' = rest)) \<and>
    (n < length proxies \<and> cd < 256 \<and> cd \<noteq> 90 \<and>
      content r = concat (replicate n (enc_reply 90)) @ enc_reply cd @ rest \<longrightarrow>
      DialProxyChain rd wr dial proxies (Some e) = None)"
proof -
  note chain = socks_connection.DialProxyChain_from [OF conn(1), of proxies dial "(r, w)", OF proxies(1,3)]
  have len: "1 \<le> length proxies" "length proxies - 1 + 1 = length proxies" using proxies(1) by (cases proxies; simp)+
  note ok = socks_connection.chain_from_ok [OF conn(1) _ len(1) proxies(2) conn(2,3), unfolded len(2)]
  note refused = socks_connection.chain_from_refused [OF conn(1) _ _ proxies(2) conn(2,3)]
  show ?thesis
    using chain [of "Some e"] ok [of rest e] refused [of 1 n cd rest e] by auto
qed

theorem DialProxyChain_correct_witness:
  "(\<exists>r' w'. DialProxyChain (SocketConn_reader sim_syscalls 3) (SocketConn_writer sim_syscalls 3)
      (\<lambda>_. Inr (sim_conn (enc_reply 90 @ enc_reply 90 @ ''hello'') [Short 0], sim_conn [] []))
      [\<lparr>proxy_address = SocketAddress_of_ip 1 1, username = ''prime''\<rparr>,
       \<lparr>proxy_address = SocketAddress_of_ip 2 2, username = ''next''\<rparr>] (SocketAddress_of_ip 3 3) = Some (r', w') \<and>
    departed w' = enc_request \<lparr>sin_addr = 2, sin_port = htons 2\<rparr> ''prime'' @
      enc_request \<lparr>sin_addr = 3, sin_port = htons 3\<rparr> ''next'' \<and> arriving r' = ''hello'')"
  using DialProxyChain_correct [OF sim_socks.socks_connection_axioms, where fd1 = 3 and
    r = "sim_conn (enc_reply 90 @ enc_reply 90 @ ''hello'') [Short 0]" and w = "sim_conn [] []" and rest = "''hello''"
    and proxies = "[\<lparr>proxy_address = SocketAddress_of_ip 1 1, username = ''prime''\<rparr>,
       \<lparr>proxy_address = SocketAddress_of_ip 2 2, username = ''next''\<rparr>]" and e = "\<lparr>sin_addr = 3, sin_port = htons 3\<rparr>"
    and dial = "\<lambda>_. Inr (sim_conn (enc_reply 90 @ enc_reply 90 @ ''hello'') [Short 0], sim_conn [] [])"]
  by (simp add: sim_conn_def SocketAddress_of_ip_def)

end
