(* ===== verification/Balancer.thy ===== *)
theory Balancer
  imports Socks
begin

text \<open>
  \<open>balancer/balancer.cpp\<close>: a TCP balancer.  Peers are shared objects: \<open>heap\<close> holds them, \<open>peers\<close> the list
  that \<open>SetBackends\<close> replaces, and \<open>active\<close> the peers of the fibers in \<open>ProcessConnection\<close>, one entry each.
  \<open>mutex_\<close> is held over the whole body of the loop of \<open>MakeConnection\<close>, the call that dials included, so one
  round of it is one step; so are \<open>SetBackends\<close> and the end of \<open>ProcessConnection\<close>.
\<close>

section \<open>Peers\<close>

record Peer =
  address :: SocketAddress
  load :: "64 word"
  is_dead :: bool

record Balancer =
  heap :: "Peer list"
  peers :: "nat list"
  active :: "nat list"

definition Balancer_init :: Balancer where
  "Balancer_init = \<lparr>heap = [], peers = [], active = []\<rparr>"

definition SetBackends :: "SocketAddress list \<Rightarrow> Balancer \<Rightarrow> Balancer" where
  "SetBackends addrs b =
    b\<lparr>heap := heap b @ map (\<lambda>a. \<lparr>address = a, load = 0, is_dead = False\<rparr>) addrs,
      peers := [length (heap b)..<length (heap b) + length addrs]\<rparr>"

section \<open>Choosing a peer\<close>

text \<open>The body of the \<open>for\<close> loop, and the loop; \<^term>\<open>None\<close> is the null pointer.\<close>

definition suitable_step :: "Peer list \<Rightarrow> nat option \<Rightarrow> nat \<Rightarrow> nat option" where
  "suitable_step h suitable i =
    (if \<not> is_dead (h ! i) \<and> (case suitable of None \<Rightarrow> True | Some j \<Rightarrow> load (h ! i) < load (h ! j)) then Some i
     else suitable)"

definition suitable_peer :: "Balancer \<Rightarrow> nat option" where
  "suitable_peer b = foldl (suitable_step (heap b)) None (peers b)"

text \<open>
  One round of \<open>MakeConnection\<close>; \<open>dial\<close> says whether \<open>connect\<close> gives a connection within its hundred
  milliseconds.  The round throws, connects to a peer, or leaves the loop to go on.
\<close>

datatype round_end = Throws | Connected nat | Again

definition MakeConnection_round :: "(SocketAddress \<Rightarrow> bool) \<Rightarrow> Balancer \<Rightarrow> round_end \<times> Balancer" where
  "MakeConnection_round dial b =
    (case suitable_peer b of
       None \<Rightarrow> (Throws, b)
     | Some i \<Rightarrow>
         if dial (address (heap b ! i)) then
           (Connected i, b\<lparr>heap := (heap b)[i := (heap b ! i)\<lparr>load := load (heap b ! i) + 1\<rparr>], active := i # active b\<rparr>)
         else (Again, b\<lparr>heap := (heap b)[i := (heap b ! i)\<lparr>is_dead := True\<rparr>]\<rparr>))"

definition ProcessConnection_end :: "nat \<Rightarrow> Balancer \<Rightarrow> Balancer" where
  "ProcessConnection_end i b =
    b\<lparr>heap := (heap b)[i := (heap b ! i)\<lparr>load := load (heap b ! i) - 1\<rparr>], active := remove1 i (active b)\<rparr>"

definition ProcessConnection ::
  "'r read_fn \<Rightarrow> 'w write_fn \<Rightarrow> ('w \<Rightarrow> 'w result) \<Rightarrow> 'pr read_fn \<Rightarrow> 'pw write_fn \<Rightarrow> ('pw \<Rightarrow> 'pw result) \<Rightarrow>
    'r \<times> 'w \<Rightarrow> 'pr \<times> 'pw \<Rightarrow> nat \<Rightarrow> Balancer \<Rightarrow> ((('r \<times> 'pw) result \<times> ('pr \<times> 'w) result) \<times> Balancer) option" where
  "ProcessConnection rd wr cw prd pwr pcw client_conn peer_conn i b =
    Option.bind (TransferData rd pwr pcw (fst client_conn) (snd peer_conn)) (\<lambda>there.
      map_option (\<lambda>back. ((there, back), ProcessConnection_end i b))
        (TransferData prd wr cw (fst peer_conn) (snd client_conn)))"

definition alive :: "Balancer \<Rightarrow> nat list" where
  "alive b = filter (\<lambda>i. \<not> is_dead (heap b ! i)) (peers b)"

text \<open>\<open>MakeConnection\<close> with no other fiber in between.\<close>

partial_function (option) MakeConnection :: "(SocketAddress \<Rightarrow> bool) \<Rightarrow> Balancer \<Rightarrow> (round_end \<times> Balancer) option" where
  "MakeConnection dial b =
    (case MakeConnection_round dial b of
       (Again, b') \<Rightarrow> MakeConnection dial b'
     | ret \<Rightarrow> Some ret)"

text \<open>Fibers interleave: backends are replaced, a round runs with some outcome of dialling, a connection ends.\<close>

inductive balancer_step :: "Balancer \<Rightarrow> Balancer \<Rightarrow> bool" where
  step_backends: "balancer_step b (SetBackends addrs b)"
| step_round: "MakeConnection_round dial b = (r, b') \<Longrightarrow> balancer_step b b'"
| step_end: "i \<in> set (active b) \<Longrightarrow> balancer_step b (ProcessConnection_end i b)"

section \<open>The least loaded peer\<close>

definition least_loaded :: "Peer list \<Rightarrow> nat list \<Rightarrow> nat option" where
  "least_loaded h xs = find (\<lambda>i. \<forall>j \<in> set xs. load (h ! i) \<le> load (h ! j)) xs"

lemma least_loaded_Nil [simp]: "least_loaded h [] = None"
  by (simp add: least_loaded_def)

lemma find_SomeD: "find P xs = Some x \<Longrightarrow> x \<in> set xs \<and> P x"
  by (auto simp: find_Some_iff)

lemma least_loaded_exists:
  assumes "xs \<noteq> []"
  obtains m where "least_loaded h xs = Some m" "m \<in> set xs" "\<forall>j \<in> set xs. load (h ! m) \<le> load (h ! j)"
proof -
  have "\<exists>x \<in> set xs. \<forall>j \<in> set xs. load (h ! x) \<le> load (h ! j)"
    using arg_min_if_finite(1) [of "set xs" "\<lambda>i. load (h ! i)"] arg_min_least [of "set xs" _ "\<lambda>i. load (h ! i)"] assms
    by (metis List.finite_set set_empty)
  then have "least_loaded h xs \<noteq> None" unfolding least_loaded_def by (auto simp: find_None_iff)
  then obtain m where "least_loaded h xs = Some m" by blast
  then show thesis using that find_SomeD unfolding least_loaded_def by fast
qed

lemma find_cong_set: "(\<And>x. x \<in> set xs \<Longrightarrow> P x = Q x) \<Longrightarrow> find P xs = find Q xs"
  by (induction xs) auto

lemma find_append: "find P (xs @ ys) = (case find P xs of None \<Rightarrow> find P ys | Some x \<Rightarrow> Some x)"
  by (induction xs) auto

lemma least_loaded_snoc:
  assumes "xs \<noteq> []" "least_loaded h xs = Some m"
  shows "least_loaded h (xs @ [y]) = (if load (h ! y) < load (h ! m) then Some y else Some m)"
proof -
  have m: "m \<in> set xs" "\<forall>j \<in> set xs. load (h ! m) \<le> load (h ! j)"
    using find_SomeD [OF assms(2) [unfolded least_loaded_def]] by auto
  show ?thesis
  proof (cases "load (h ! y) < load (h ! m)")
    case True
    then have "load (h ! y) \<le> load (h ! j)" if "j \<in> set xs" for j using m(2) that by force
    moreover have "find (\<lambda>i. \<forall>j \<in> set (xs @ [y]). load (h ! i) \<le> load (h ! j)) xs = None"
      using True m(2) by (force simp: find_None_iff)
    ultimately show ?thesis using True by (simp add: least_loaded_def find_append)
  next
    case False
    have "find (\<lambda>i. \<forall>j \<in> set (xs @ [y]). load (h ! i) \<le> load (h ! j)) xs = least_loaded h xs"
      unfolding least_loaded_def
    proof (rule find_cong_set)
      fix i
      assume "i \<in> set xs"
      then show "(\<forall>j \<in> set (xs @ [y]). load (h ! i) \<le> load (h ! j)) = (\<forall>j \<in> set xs. load (h ! i) \<le> load (h ! j))"
        using False m by (auto intro: order_trans)
    qed
    then show ?thesis using False assms(2) by (simp add: least_loaded_def find_append)
  qed
qed

lemma suitable_fold:
  "foldl (suitable_step h) None xs = least_loaded h (filter (\<lambda>i. \<not> is_dead (h ! i)) xs)"
proof (induction xs rule: rev_induct)
  case (snoc y xs)
  show ?case
  proof (cases "is_dead (h ! y)")
    case True
    then show ?thesis using snoc by (simp add: suitable_step_def)
  next
    case False
    show ?thesis
    proof (cases "filter (\<lambda>i. \<not> is_dead (h ! i)) xs = []")
      case True
      then show ?thesis using snoc False by (simp add: suitable_step_def least_loaded_def)
    next
      case ne: False
      then obtain m where "least_loaded h (filter (\<lambda>i. \<not> is_dead (h ! i)) xs) = Some m" by (rule least_loaded_exists)
      then show ?thesis using snoc False least_loaded_snoc [OF ne, of h m y] by (simp add: suitable_step_def)
    qed
  qed
qed simp

lemma suitable_peer_least: "suitable_peer b = least_loaded (heap b) (alive b)"
  by (simp add: suitable_peer_def alive_def suitable_fold)

lemma least_loaded_filter:
  assumes "least_loaded h xs = Some i" "Q i"
  shows "least_loaded h (filter Q xs) = Some i"
proof -
  have i: "i \<in> set xs" "\<forall>j \<in> set xs. load (h ! i) \<le> load (h ! j)"
    using find_SomeD [OF assms(1) [unfolded least_loaded_def]] by auto
  have "find P (filter Q xs) = Some i" if "find P xs = Some i" for P
    using that by (induction xs) (auto split: if_splits simp: assms(2))
  moreover have "least_loaded h (filter Q xs) = find (\<lambda>i. \<forall>j \<in> set xs. load (h ! i) \<le> load (h ! j)) (filter Q xs)"
    unfolding least_loaded_def
  proof (rule find_cong_set)
    fix x
    assume "x \<in> set (filter Q xs)"
    then show "(\<forall>j \<in> set (filter Q xs). load (h ! x) \<le> load (h ! j)) = (\<forall>j \<in> set xs. load (h ! x) \<le> load (h ! j))"
      using i assms(2) by (auto intro: order_trans)
  qed
  ultimately show ?thesis using assms(1) unfolding least_loaded_def by simp
qed

lemma least_loaded_cong:
  "(\<And>i. i \<in> set xs \<Longrightarrow> load (h ! i) = load (h' ! i)) \<Longrightarrow> least_loaded h xs = least_loaded h' xs"
  unfolding least_loaded_def by (intro find_cong_set) auto

section \<open>A connection is made\<close>

definition peers_ok :: "Balancer \<Rightarrow> bool" where
  "peers_ok b \<longleftrightarrow> (\<forall>i \<in> set (peers b) \<union> set (active b). i < length (heap b))"

definition answering :: "(SocketAddress \<Rightarrow> bool) \<Rightarrow> Balancer \<Rightarrow> nat list" where
  "answering dial b = filter (\<lambda>i. dial (address (heap b ! i))) (alive b)"

lemma alive_in: "i \<in> set (alive b) \<Longrightarrow> i \<in> set (peers b) \<and> \<not> is_dead (heap b ! i)"
  by (auto simp: alive_def)

lemma suitable_alive: "suitable_peer b = Some i \<Longrightarrow> i \<in> set (alive b)"
  unfolding suitable_peer_least least_loaded_def by (drule find_SomeD) simp

lemma round_Again:
  assumes "peers_ok b" "MakeConnection_round dial b = (Again, b')"
  shows "peers_ok b' \<and> length (alive b') < length (alive b) \<and> answering dial b' = answering dial b \<and>
    peers b' = peers b \<and> (\<forall>i. load (heap b' ! i) = load (heap b ! i))"
proof -
  obtain i where i: "suitable_peer b = Some i" "\<not> dial (address (heap b ! i))"
    and b': "b' = b\<lparr>heap := (heap b)[i := (heap b ! i)\<lparr>is_dead := True\<rparr>]\<rparr>"
    using assms(2) by (auto simp: MakeConnection_round_def split: option.splits if_splits)
  have iin: "i \<in> set (peers b)" "\<not> is_dead (heap b ! i)" using alive_in [OF suitable_alive [OF i(1)]] by auto
  then have il: "i < length (heap b)" using assms(1) by (simp add: peers_ok_def)
  have nth: "heap b' ! j = (if j = i then (heap b ! i)\<lparr>is_dead := True\<rparr> else heap b ! j)" for j
    using il by (simp add: b' nth_list_update)
  have "peers b' = peers b" by (simp add: b')
  then have al: "alive b' = filter (\<lambda>j. j \<noteq> i) (alive b)"
    unfolding alive_def filter_filter by (intro filter_cong) (auto simp: nth)
  have "length (alive b') < length (alive b)"
    unfolding al by (rule length_filter_less [of i]) (use suitable_alive [OF i(1)] in auto)
  moreover have "answering dial b' = answering dial b"
    unfolding answering_def al filter_filter by (rule filter_cong) (use i(2) in \<open>auto simp: nth\<close>)
  ultimately show ?thesis using assms(1) nth by (auto simp: b' peers_ok_def)
qed

lemma MakeConnection_ok:
  "peers_ok b \<Longrightarrow>
   \<exists>b'. MakeConnection dial b =
       Some (case least_loaded (heap b) (answering dial b) of None \<Rightarrow> Throws | Some i \<Rightarrow> Connected i, b') \<and>
     peers b' = peers b \<and> (answering dial b = [] \<longrightarrow> alive b' = [])"
proof (induction "length (alive b)" arbitrary: b rule: less_induct)
  case less
  obtain r b1 where r: "MakeConnection_round dial b = (r, b1)" by fastforce
  show ?case
  proof (cases "suitable_peer b")
    case None
    then have "alive b = []" using least_loaded_exists [of "alive b" "heap b"] unfolding suitable_peer_least by fastforce
    then show ?thesis
      using None by (subst MakeConnection.simps) (simp add: MakeConnection_round_def answering_def)
  next
    case (Some i)
    show ?thesis
    proof (cases "dial (address (heap b ! i))")
      case True
      have "least_loaded (heap b) (answering dial b) = Some i"
        unfolding answering_def by (rule least_loaded_filter) (use Some True in \<open>simp_all add: suitable_peer_least\<close>)
      moreover have "answering dial b \<noteq> []" using calculation by auto
      ultimately show ?thesis
        using Some True by (subst MakeConnection.simps) (simp add: MakeConnection_round_def)
    next
      case False
      then have r: "MakeConnection_round dial b = (Again, b1)" using r Some by (simp add: MakeConnection_round_def)
      note b1 = round_Again [OF less.prems r]
      have "MakeConnection dial b = MakeConnection dial b1" using r by (subst MakeConnection.simps) simp
      moreover have "least_loaded (heap b1) (answering dial b1) = least_loaded (heap b) (answering dial b)"
        using b1 least_loaded_cong [of "answering dial b" "heap b1" "heap b"] by simp
      ultimately show ?thesis using less.hyps [of b1] b1 by simp
    qed
  qed
qed

section \<open>Loads\<close>

definition loads_ok :: "Balancer \<Rightarrow> bool" where
  "loads_ok b \<longleftrightarrow> peers_ok b \<and> (\<forall>i < length (heap b). load (heap b ! i) = of_nat (count_list (active b) i))"

lemma count_list_remove1: "count_list (remove1 x xs) y = (if x = y then count_list xs y - 1 else count_list xs y)"
  by (induction xs) auto

lemma SetBackends_loads: "loads_ok b \<Longrightarrow> loads_ok (SetBackends addrs b)"
proof -
  assume b: "loads_ok b"
  have "count_list (active b) i = 0" if "length (heap b) \<le> i" for i
    using b that unfolding loads_ok_def peers_ok_def count_list_0_iff by (meson UnCI leD)
  then show ?thesis using b
    by (auto simp: loads_ok_def peers_ok_def SetBackends_def nth_append intro: trans_less_add1)
qed

lemma round_loads: "loads_ok b \<Longrightarrow> MakeConnection_round dial b = (r, b') \<Longrightarrow> loads_ok b'"
proof (cases "suitable_peer b")
  case (Some i)
  assume b: "loads_ok b" and r: "MakeConnection_round dial b = (r, b')"
  have "i < length (heap b)" using alive_in [OF suitable_alive [OF Some]] b by (auto simp: loads_ok_def peers_ok_def)
  then show ?thesis
    using b r Some
    by (auto simp: MakeConnection_round_def loads_ok_def peers_ok_def nth_list_update split: if_splits)
qed (auto simp: MakeConnection_round_def)

lemma end_loads: "loads_ok b \<Longrightarrow> i \<in> set (active b) \<Longrightarrow> loads_ok (ProcessConnection_end i b)"
proof -
  assume b: "loads_ok b" and i: "i \<in> set (active b)"
  then have "count_list (active b) i \<noteq> 0" by (simp add: count_list_0_iff)
  then have "of_nat (count_list (active b) i - 1) = (of_nat (count_list (active b) i) :: 64 word) - 1"
    by (simp add: of_nat_diff)
  moreover have "i < length (heap b)" using b i by (auto simp: loads_ok_def peers_ok_def)
  moreover have "set (remove1 i (active b)) \<subseteq> set (active b)" by (rule set_remove1_subset)
  ultimately show ?thesis
    using b by (auto simp: loads_ok_def peers_ok_def ProcessConnection_end_def nth_list_update count_list_remove1)
qed

interpretation balancer: step_system balancer_step loads_ok
  by unfold_locales (auto elim!: balancer_step.cases intro: SetBackends_loads round_loads end_loads)

section \<open>Properties\<close>

text \<open>
  C21: however connections are made and end and backends are replaced, the load of every peer ever listed,
  also of one no longer listed, is the number of its connections in progress (as a machine word), so with
  fewer than \<open>2^64\<close> connections the decrement at the end of one never passes zero.
\<close>

theorem balancer_loads_exact:
  assumes "balancer_step\<^sup>*\<^sup>* Balancer_init b" "i < length (heap b)"
  shows "load (heap b ! i) = of_nat (count_list (active b) i) \<and>
    (i \<in> set (active b) \<and> length (active b) < 2 ^ 64 \<longrightarrow> load (heap b ! i) \<noteq> 0)"
proof -
  have "loads_ok Balancer_init" by (simp add: loads_ok_def peers_ok_def Balancer_init_def)
  then have "loads_ok b" by (rule balancer.reachable_keeps [OF assms(1)])
  then have load: "load (heap b ! i) = of_nat (count_list (active b) i)" using assms(2) by (simp add: loads_ok_def)
  moreover have "(of_nat (count_list (active b) i) :: 64 word) \<noteq> 0" if "i \<in> set (active b)" "length (active b) < 2 ^ 64"
  proof -
    have "0 < count_list (active b) i" using that(1) count_list_0_iff [of "active b" i] by (metis neq0_conv)
    moreover have "count_list (active b) i < 2 ^ 64" using count_le_length [of "active b" i] that(2) by simp
    ultimately show ?thesis by (simp add: word_unat_eq_iff unat_of_nat)
  qed
  ultimately show ?thesis by simp
qed

theorem balancer_loads_exact_witness:
  "load (heap (snd (MakeConnection_round (\<lambda>_. True) (SetBackends [None] Balancer_init))) ! 0) \<noteq> 0"
proof -
  let ?b = "snd (MakeConnection_round (\<lambda>_. True) (SetBackends [None] Balancer_init))"
  have "balancer_step (SetBackends [None] Balancer_init) ?b" by (rule step_round) (rule prod.collapse [symmetric])
  then have "balancer_step\<^sup>*\<^sup>* Balancer_init ?b" using step_backends by (blast intro: converse_rtranclp_into_rtranclp)
  from balancer_loads_exact [OF this, of 0] show ?thesis
    by (simp add: SetBackends_def Balancer_init_def MakeConnection_round_def suitable_peer_def suitable_step_def)
qed

text \<open>
  C20: \<open>MakeConnection\<close> returns, whatever peers answer: it connects the client to the first of the least loaded
  among the live peers that answer, and throws exactly when none does, after it has marked every peer dead.
\<close>

theorem MakeConnection_least_loaded:
  assumes "peers_ok b"
  shows "\<exists>b'. MakeConnection dial b =
      Some (case least_loaded (heap b) (answering dial b) of None \<Rightarrow> Throws | Some i \<Rightarrow> Connected i, b') \<and>
    peers b' = peers b \<and> (answering dial b = [] \<longrightarrow> alive b' = [])"
  by (rule MakeConnection_ok [OF assms])

theorem MakeConnection_least_loaded_witness:
  "\<exists>b'. MakeConnection (\<lambda>a. a = SocketAddress_of_ip 2 1) (SetBackends [SocketAddress_of_ip 1 1, SocketAddress_of_ip 2 1] Balancer_init) =
      Some (Connected 1, b') \<and>
    peers b' = peers (SetBackends [SocketAddress_of_ip 1 1, SocketAddress_of_ip 2 1] Balancer_init)"
  using MakeConnection_least_loaded [of "SetBackends [SocketAddress_of_ip 1 1, SocketAddress_of_ip 2 1] Balancer_init"
    "\<lambda>a. a = SocketAddress_of_ip 2 1"]
  by (simp add: peers_ok_def SetBackends_def Balancer_init_def answering_def alive_def least_loaded_def
      SocketAddress_of_ip_def upt_rec)

end
