(* ===== verification/Rpc.thy ===== *)
theory Rpc
  imports Socks
begin

text \<open>
  \<open>tools/cactus/rpc/transport/rpc.cpp\<close> and \<open>rpc.h\<close>: the channel that calls a method over a connection of its own
  and the server that answers.  The protobuf library is a record of functions with the laws \<open>protobuf_laws\<close>;
  a \<open>ParseFromString\<close> whose result the code ignores is a total function.
\<close>

section \<open>Messages\<close>

record 'm protobuf =
  SerializeRequestHeader :: "string \<times> string \<Rightarrow> byte list"
  ParseRequestHeader :: "byte list \<Rightarrow> (string \<times> string) option"
  SerializeResponseHeader :: "string option \<Rightarrow> byte list"
  ParseResponseHeader :: "byte list \<Rightarrow> string option"
  SerializeAsString :: "'m \<Rightarrow> byte list"
  ParseFromString :: "string \<Rightarrow> byte list \<Rightarrow> 'm"
  GetTypeName :: "'m \<Rightarrow> string"

definition protobuf_laws :: "'m protobuf \<Rightarrow> bool" where
  "protobuf_laws pb \<longleftrightarrow>
    (\<forall>h. ParseRequestHeader pb (SerializeRequestHeader pb h) = Some h) \<and>
    (\<forall>e. ParseResponseHeader pb (SerializeResponseHeader pb e) = e) \<and>
    (\<forall>m. ParseFromString pb (GetTypeName pb m) (SerializeAsString pb m) = m)"

definition FixedHeader :: "nat \<Rightarrow> nat \<Rightarrow> byte list" where
  "FixedHeader header_size body_size = View_uint 4 header_size @ View_uint 4 body_size"

definition header_size :: "byte list \<Rightarrow> nat" where
  "header_size h = of_View (take 4 h)"

definition body_size :: "byte list \<Rightarrow> nat" where
  "body_size h = of_View (drop 4 h)"

section \<open>SimpleRpcChannel\<close>

definition CallMethod_try ::
  "'m protobuf \<Rightarrow> 'r read_fn \<Rightarrow> 'w write_fn \<Rightarrow> (SocketAddress \<Rightarrow> ('r \<times> 'w) result) \<Rightarrow> SocketAddress \<Rightarrow>
    string \<Rightarrow> string \<Rightarrow> string \<Rightarrow> 'm \<Rightarrow> ('m \<times> 'r \<times> 'w) result" where
  "CallMethod_try pb rd wr dial server service method output_type request =
    andThen (dial server) (\<lambda>(r, w).
    let serialized_request_header = SerializeRequestHeader pb (service, method);
        serialized_request_body = SerializeAsString pb request
    in andThen (write_all wr w
         [FixedHeader (length serialized_request_header) (length serialized_request_body),
          serialized_request_header, serialized_request_body]) (\<lambda>w.
       andThen (ReadFull rd r 8) (\<lambda>(response_header, r).
       andThen (ReadFull rd r (header_size response_header)) (\<lambda>(serialized_response_header, r).
         case ParseResponseHeader pb serialized_response_header of
           Some message \<Rightarrow> Inl (RpcCallError message)
         | None \<Rightarrow>
             andThen (ReadFull rd r (body_size response_header)) (\<lambda>(serialized_response_body, r).
               Inr (ParseFromString pb output_type serialized_response_body, r, w))))))"

definition CallMethod ::
  "'m protobuf \<Rightarrow> 'r read_fn \<Rightarrow> 'w write_fn \<Rightarrow> (SocketAddress \<Rightarrow> ('r \<times> 'w) result) \<Rightarrow> SocketAddress \<Rightarrow>
    string \<Rightarrow> string \<Rightarrow> string \<Rightarrow> 'm \<Rightarrow> ('m \<times> 'r \<times> 'w) result" where
  "CallMethod pb rd wr dial server service method output_type request =
    (case CallMethod_try pb rd wr dial server service method output_type request of
       Inl _ \<Rightarrow> Inl (RpcCallError ''Connection error'')
     | Inr ret \<Rightarrow> Inr ret)"

section \<open>SimpleRpcServer\<close>

text \<open>A service: its methods by name, each with the types of its messages and what \<open>CallMethod\<close> does.\<close>

record 'm rpc_method =
  input_type :: string
  output_type :: string
  handler :: "'m \<Rightarrow> 'm result"

type_synonym 'm rpc_service = "string \<rightharpoonup> 'm rpc_method"

definition Register ::
  "string \<Rightarrow> 'm rpc_service \<Rightarrow> (string \<rightharpoonup> 'm rpc_service) \<Rightarrow> (string \<rightharpoonup> 'm rpc_service) result" where
  "Register name service services =
    (if services name \<noteq> None then Inl (RuntimeError ''Service already registered'')
     else Inr (services(name \<mapsto> service)))"

text \<open>
  The part of \<open>Serve\<close>'s \<open>try\<close> before the writes.  The inner \<^term>\<open>None\<close> is the null pointer that
  \<open>FindMethodByName\<close> returns for an unknown name and that is dereferenced after the body is read.
\<close>

definition Serve_request ::
  "'m protobuf \<Rightarrow> (string \<rightharpoonup> 'm rpc_service) \<Rightarrow> 'r read_fn \<Rightarrow> 'r \<Rightarrow> ('m option \<times> 'r) result" where
  "Serve_request pb services rd r =
    andThen (ReadFull rd r 8) (\<lambda>(request_header, r).
    andThen (ReadFull rd r (header_size request_header)) (\<lambda>(serialized_request_header, r).
      case ParseRequestHeader pb serialized_request_header of
        None \<Rightarrow> Inl (RuntimeError ''invalid msg'')
      | Some (service_name, method_name) \<Rightarrow>
          (case services service_name of
             None \<Rightarrow> Inl OutOfRange
           | Some service \<Rightarrow>
               andThen (ReadFull rd r (body_size request_header)) (\<lambda>(serialized_request_body, r).
                 case service method_name of
                   None \<Rightarrow> Inr (None, r)
                 | Some method \<Rightarrow>
                     andThen (handler method (ParseFromString pb (input_type method) serialized_request_body))
                       (\<lambda>response. Inr (Some response, r))))))"

definition Serve_response :: "'m protobuf \<Rightarrow> 'w write_fn \<Rightarrow> ('w \<Rightarrow> 'w result) \<Rightarrow> 'w \<Rightarrow> 'm \<Rightarrow> 'w result" where
  "Serve_response pb wr cw w response =
    (let serialized_response_header = SerializeResponseHeader pb None;
         serialized_response_body = SerializeAsString pb response
     in andThen (write_all wr w
          [FixedHeader (length serialized_response_header) (length serialized_response_body),
           serialized_response_header, serialized_response_body]) cw)"

definition Serve_error :: "'m protobuf \<Rightarrow> 'w write_fn \<Rightarrow> ('w \<Rightarrow> 'w result) \<Rightarrow> 'w \<Rightarrow> 'w result" where
  "Serve_error pb wr cw w =
    (let serialized_response_header = SerializeResponseHeader pb (Some ''Server error'')
     in andThen (write_all wr w
          [FixedHeader (length serialized_response_header) 0, serialized_response_header]) cw)"

text \<open>
  The body of \<open>Serve\<close>'s loop on an accepted connection: it answered, a null method was dereferenced, or a write
  threw (after a throw in the \<open>try\<close> the handler writes again to the broken connection, which is left out).
\<close>

datatype 'w serve_end = Answered 'w | Null_method | Write_threw exn

definition Serve_conn ::
  "'m protobuf \<Rightarrow> (string \<rightharpoonup> 'm rpc_service) \<Rightarrow> 'r read_fn \<Rightarrow> 'w write_fn \<Rightarrow> ('w \<Rightarrow> 'w result) \<Rightarrow> 'r \<times> 'w \<Rightarrow> 'w serve_end" where
  "Serve_conn pb services rd wr cw conn =
    (case Serve_request pb services rd (fst conn) of
       Inr (None, r) \<Rightarrow> Null_method
     | Inr (Some response, r) \<Rightarrow>
         (case Serve_response pb wr cw (snd conn) response of Inr w \<Rightarrow> Answered w | Inl e \<Rightarrow> Write_threw e)
     | Inl _ \<Rightarrow> (case Serve_error pb wr cw (snd conn) of Inr w \<Rightarrow> Answered w | Inl e \<Rightarrow> Write_threw e))"

section \<open>On the wire\<close>

definition enc_call :: "'m protobuf \<Rightarrow> string \<Rightarrow> string \<Rightarrow> 'm \<Rightarrow> byte list" where
  "enc_call pb service method request =
    FixedHeader (length (SerializeRequestHeader pb (service, method))) (length (SerializeAsString pb request)) @
      SerializeRequestHeader pb (service, method) @ SerializeAsString pb request"

definition enc_response :: "'m protobuf \<Rightarrow> 'm \<Rightarrow> byte list" where
  "enc_response pb response =
    FixedHeader (length (SerializeResponseHeader pb None)) (length (SerializeAsString pb response)) @
      SerializeResponseHeader pb None @ SerializeAsString pb response"

definition enc_error :: "'m protobuf \<Rightarrow> byte list" where
  "enc_error pb = FixedHeader (length (SerializeResponseHeader pb (Some ''Server error''))) 0 @
    SerializeResponseHeader pb (Some ''Server error'')"

definition fits32 :: "byte list \<Rightarrow> bool" where
  "fits32 bs \<longleftrightarrow> length bs < 2 ^ 32"

lemma length_FixedHeader [simp]: "length (FixedHeader m n) = 8"
  by (simp add: FixedHeader_def)

lemma FixedHeader_sizes [simp]:
  "m < 2 ^ 32 \<Longrightarrow> header_size (FixedHeader m n) = m"
  "n < 2 ^ 32 \<Longrightarrow> body_size (FixedHeader m n) = n"
  by (simp_all add: FixedHeader_def header_size_def body_size_def of_View_uint)

context stream_reader
begin

lemma read_frame:
  assumes "invar r" "content r = FixedHeader (length h) n @ h @ rest" "fits32 h" "n < 2 ^ 32"
  shows "\<exists>r1 r2. ReadFull rd r 8 = Inr (FixedHeader (length h) n, r1) \<and>
    ReadFull rd r1 (header_size (FixedHeader (length h) n)) = Inr (h, r2) \<and> invar r2 \<and> content r2 = rest"
proof -
  obtain r1 where r1: "ReadFull rd r 8 = Inr (FixedHeader (length h) n, r1)" "invar r1" "content r1 = h @ rest"
    using ReadFull_append [OF assms(1,2), of 8] by auto
  from ReadFull_append [OF r1(2,3) refl] show ?thesis using r1(1) assms(3) by (auto simp: fits32_def)
qed

lemma Serve_request_ok:
  assumes "protobuf_laws pb" "invar r" "content r = enc_call pb service method request @ rest"
    and "fits32 (SerializeRequestHeader pb (service, method))" "fits32 (SerializeAsString pb request)"
  shows "case services service of
      None \<Rightarrow> Serve_request pb services rd r = Inl OutOfRange
    | Some svc \<Rightarrow>
        (case svc method of
           None \<Rightarrow> \<exists>r'. Serve_request pb services rd r = Inr (None, r')
         | Some m \<Rightarrow> input_type m = GetTypeName pb request \<longrightarrow>
             (case handler m request of
                Inl e \<Rightarrow> Serve_request pb services rd r = Inl e
              | Inr response \<Rightarrow> \<exists>r'. Serve_request pb services rd r = Inr (Some response, r')))"
proof -
  let ?h = "SerializeRequestHeader pb (service, method)" and ?b = "SerializeAsString pb request"
  have n: "length ?b < 2 ^ 32" using assms(5) by (simp add: fits32_def)
  have "content r = FixedHeader (length ?h) (length ?b) @ ?h @ ?b @ rest" using assms(3) by (simp add: enc_call_def)
  from read_frame [OF assms(2) this assms(4) n] obtain r1 r2 where
    r1: "ReadFull rd r 8 = Inr (FixedHeader (length ?h) (length ?b), r1)"
      "ReadFull rd r1 (header_size (FixedHeader (length ?h) (length ?b))) = Inr (?h, r2)" "invar r2" "content r2 = ?b @ rest"
    by blast
  obtain r3 where r3: "ReadFull rd r2 (body_size (FixedHeader (length ?h) (length ?b))) = Inr (?b, r3)"
    using ReadFull_append [OF r1(3,4) refl] n by auto
  have "ParseRequestHeader pb ?h = Some (service, method)" "ParseFromString pb (GetTypeName pb request) ?b = request"
    using assms(1) by (simp_all add: protobuf_laws_def)
  then show ?thesis
    using r1(1,2) r3
    by (simp add: Serve_request_def del: FixedHeader_sizes split: option.split sum.split)
qed

lemma CallMethod_reply:
  assumes pb: "protobuf_laws pb" and "invar r" "content r = enc_response pb response @ rest"
    "fits32 (SerializeResponseHeader pb None)" "fits32 (SerializeAsString pb response)"
    and w: "write_all wr w [FixedHeader (length (SerializeRequestHeader pb (service, method))) (length (SerializeAsString pb request)),
      SerializeRequestHeader pb (service, method), SerializeAsString pb request] = Inr w'"
    and dial: "dial server = Inr (r, w)"
  shows "\<exists>r'. CallMethod pb rd wr dial server service method (GetTypeName pb response) request = Inr (response, r', w') \<and>
    content r' = rest"
proof -
  let ?h = "SerializeResponseHeader pb None" and ?b = "SerializeAsString pb response"
  have n: "length ?b < 2 ^ 32" using assms(5) by (simp add: fits32_def)
  have "content r = FixedHeader (length ?h) (length ?b) @ ?h @ ?b @ rest" using assms(3) by (simp add: enc_response_def)
  from read_frame [OF assms(2) this assms(4) n] obtain r1 r2 where
    r1: "ReadFull rd r 8 = Inr (FixedHeader (length ?h) (length ?b), r1)"
      "ReadFull rd r1 (header_size (FixedHeader (length ?h) (length ?b))) = Inr (?h, r2)" "invar r2" "content r2 = ?b @ rest"
    by blast
  obtain r3 where r3: "ReadFull rd r2 (body_size (FixedHeader (length ?h) (length ?b))) = Inr (?b, r3)" "content r3 = rest"
    using ReadFull_append [OF r1(3,4) refl] n by auto
  have "ParseResponseHeader pb ?h = None" "ParseFromString pb (GetTypeName pb response) ?b = response"
    using pb by (simp_all add: protobuf_laws_def)
  then have "CallMethod_try pb rd wr dial server service method (GetTypeName pb response) request = Inr (response, r3, w')"
    unfolding CallMethod_try_def using dial w r1(1,2) r3(1)
    by (simp add: Let_def del: FixedHeader_sizes write_all.simps)
  then show ?thesis using r3(2) by (simp add: CallMethod_def)
qed

lemma CallMethod_refused:
  assumes pb: "protobuf_laws pb" and "invar r" "content r = enc_error pb @ rest"
    "fits32 (SerializeResponseHeader pb (Some ''Server error''))" and dial: "dial server = Inr (r, w)"
  shows "CallMethod pb rd wr dial server service method ty request = Inl (RpcCallError ''Connection error'')"
proof -
  let ?h = "SerializeResponseHeader pb (Some ''Server error'')"
  have "content r = FixedHeader (length ?h) 0 @ ?h @ rest" using assms(3) by (simp add: enc_error_def)
  from read_frame [OF assms(2) this assms(4)] obtain r1 r2 where
    r1: "ReadFull rd r 8 = Inr (FixedHeader (length ?h) 0, r1)"
      "ReadFull rd r1 (header_size (FixedHeader (length ?h) 0)) = Inr (?h, r2)" by auto
  have "ParseResponseHeader pb ?h = Some ''Server error''" using pb by (simp add: protobuf_laws_def)
  then have "\<exists>e. CallMethod_try pb rd wr dial server service method ty request = Inl e"
    unfolding CallMethod_try_def using dial r1
    by (cases "write_all wr w [FixedHeader (length (SerializeRequestHeader pb (service, method))) (length (SerializeAsString pb request)),
      SerializeRequestHeader pb (service, method), SerializeAsString pb request]")
      (simp_all add: Let_def del: FixedHeader_sizes write_all.simps)
  then show ?thesis by (auto simp: CallMethod_def)
qed

end

section \<open>Both ends\<close>

context relay
begin

lemma Serve_response_ok:
  assumes "winvar w"
  shows "\<exists>w'. Serve_response pb wr cw w response = Inr w' \<and> closed w' \<and> written w' = written w @ enc_response pb response"
proof -
  let ?ws = "[FixedHeader (length (SerializeResponseHeader pb None)) (length (SerializeAsString pb response)),
    SerializeResponseHeader pb None, SerializeAsString pb response]"
  obtain w1 where w1: "write_all wr w ?ws = Inr w1" "winvar w1" "written w1 = written w @ concat ?ws"
    using write_all_ok [OF assms] by blast
  from CloseWrite_ok [OF w1(2)] show ?thesis
    using w1 by (simp add: Serve_response_def Let_def enc_response_def del: write_all.simps)
qed

lemma Serve_error_ok:
  assumes "winvar w"
  shows "\<exists>w'. Serve_error pb wr cw w = Inr w' \<and> closed w' \<and> written w' = written w @ enc_error pb"
proof -
  let ?ws = "[FixedHeader (length (SerializeResponseHeader pb (Some ''Server error''))) 0,
    SerializeResponseHeader pb (Some ''Server error'')]"
  obtain w1 where w1: "write_all wr w ?ws = Inr w1" "winvar w1" "written w1 = written w @ concat ?ws"
    using write_all_ok [OF assms] by blast
  from CloseWrite_ok [OF w1(2)] show ?thesis
    using w1 by (simp add: Serve_error_def Let_def enc_error_def del: write_all.simps)
qed

end

text \<open>What a call means: \<^term>\<open>None\<close> for a method the service does not have, else what its handler does.\<close>

definition call_meaning :: "(string \<rightharpoonup> 'm rpc_service) \<Rightarrow> string \<Rightarrow> string \<Rightarrow> 'm \<Rightarrow> 'm result option" where
  "call_meaning services service method request =
    (case services service of
       None \<Rightarrow> Some (Inl OutOfRange)
     | Some svc \<Rightarrow> map_option (\<lambda>m. handler m request) (svc method))"

text \<open>The request has the input type of the method it names.\<close>

definition call_typed :: "'m protobuf \<Rightarrow> (string \<rightharpoonup> 'm rpc_service) \<Rightarrow> string \<Rightarrow> string \<Rightarrow> 'm \<Rightarrow> bool" where
  "call_typed pb services service method request \<longleftrightarrow>
    (case services service of
       None \<Rightarrow> True
     | Some svc \<Rightarrow> (case svc method of None \<Rightarrow> True | Some m \<Rightarrow> input_type m = GetTypeName pb request))"

definition enc_reply_to :: "'m protobuf \<Rightarrow> 'm result \<Rightarrow> byte list" where
  "enc_reply_to pb res = (case res of Inr response \<Rightarrow> enc_response pb response | Inl _ \<Rightarrow> enc_error pb)"

lemma Serve_request_meaning:
  assumes "stream_reader rd content invar" "protobuf_laws pb" "invar r" "content r = enc_call pb service method request @ rest"
    "fits32 (SerializeRequestHeader pb (service, method))" "fits32 (SerializeAsString pb request)"
    "call_typed pb services service method request"
  shows "case call_meaning services service method request of
      None \<Rightarrow> \<exists>r'. Serve_request pb services rd r = Inr (None, r')
    | Some (Inl e) \<Rightarrow> Serve_request pb services rd r = Inl e
    | Some (Inr response) \<Rightarrow> \<exists>r'. Serve_request pb services rd r = Inr (Some response, r')"
  using stream_reader.Serve_request_ok [OF assms(1-6), of services] assms(7)
  by (auto simp: call_meaning_def call_typed_def split: option.splits sum.splits)

lemma Serve_conn_ok:
  assumes srv: "relay rd content invar wr written winvar cw closed" and pb: "protobuf_laws pb"
    and "invar r" "winvar w" "content r = enc_call pb service method request @ rest"
    "fits32 (SerializeRequestHeader pb (service, method))" "fits32 (SerializeAsString pb request)"
    "call_typed pb services service method request"
  shows "case call_meaning services service method request of
      None \<Rightarrow> Serve_conn pb services rd wr cw (r, w) = Null_method
    | Some res \<Rightarrow> \<exists>w'. Serve_conn pb services rd wr cw (r, w) = Answered w' \<and> closed w' \<and>
        written w' = written w @ enc_reply_to pb res"
proof -
  have rdr: "stream_reader rd content invar" using srv by (simp add: relay_def)
  note req = Serve_request_meaning [OF rdr pb assms(3,5-8)]
  show ?thesis
  proof (cases "call_meaning services service method request")
    case None
    then show ?thesis using req by (auto simp: Serve_conn_def)
  next
    case (Some res)
    show ?thesis
    proof (cases res)
      case (Inl e)
      then show ?thesis
        using req Some relay.Serve_error_ok [OF srv assms(4), of pb] by (auto simp: Serve_conn_def enc_reply_to_def)
    next
      case (Inr response)
      then show ?thesis
        using req Some relay.Serve_response_ok [OF srv assms(4), of pb response]
        by (auto simp: Serve_conn_def enc_reply_to_def)
    qed
  qed
qed

section \<open>Properties\<close>


text \<open>A message format with the laws: texts of one type, the headers delimited by a unary length.\<close>

definition text_pb :: "string protobuf" where
  "text_pb =
    \<lparr>SerializeRequestHeader = (\<lambda>(s, m). replicate (length s) (CHR ''x'') @ CHR 0x00 # s @ m),
     ParseRequestHeader = (\<lambda>bs. let n = length (takeWhile (\<lambda>c. c = CHR ''x'') bs); t = drop (n + 1) bs in Some (take n t, drop n t)),
     SerializeResponseHeader = (\<lambda>e. case e of None \<Rightarrow> [] | Some m \<Rightarrow> CHR ''e'' # m),
     ParseResponseHeader = (\<lambda>bs. case bs of [] \<Rightarrow> None | _ # m \<Rightarrow> Some m),
     SerializeAsString = id, ParseFromString = (\<lambda>_. id), GetTypeName = (\<lambda>_. ''Text'')\<rparr>"

lemma text_pb_laws: "protobuf_laws text_pb"
proof -
  have "takeWhile (\<lambda>c. c = CHR ''x'') (replicate n (CHR ''x'') @ CHR 0x00 # t) = replicate n (CHR ''x'')" for n t
    by (induction n) auto
  then show ?thesis by (simp add: protobuf_laws_def text_pb_def Let_def split: option.split)
qed

definition echo_service :: "string rpc_service" where
  "echo_service = [''Echo'' \<mapsto> \<lparr>input_type = ''Text'', output_type = ''Text'', handler = (\<lambda>m. Inr (m @ m))\<rparr>]"

definition echo_client :: sim where
  "echo_client = sim_conn (enc_response text_pb ''abab'') [Short 0, Interrupted]"


text \<open>A call of a method the service does not have makes the server dereference a null pointer.\<close>

lemma rpc_unknown_method:
  assumes "protobuf_laws pb" "relay rd content invar wr written winvar cw closed" "invar r" "winvar w"
    "content r = enc_call pb service method request" "fits32 (SerializeRequestHeader pb (service, method))"
    "fits32 (SerializeAsString pb request)" "services service = Some svc" "svc method = None"
  shows "Serve_conn pb services rd wr cw (r, w) = Null_method"
  using Serve_conn_ok [OF assms(2,1,3,4), of service "method" "request" "[]" services] assms(5-9)
  by (simp add: call_meaning_def call_typed_def)

end
