(* ===== verification/Net_Clients.thy ===== *)
theory Net_Clients
  imports Socks
begin

text \<open>
  The small network programs: \<open>fanout/fanout.cpp\<close>, \<open>portscan/portscan.cpp\<close> and \<open>portknock/portknock.cpp\<close>, over
  any connection.
\<close>

section \<open>Fanout\<close>

fun words64 :: "byte list \<Rightarrow> uint64 list" where
  "words64 bs = (if length bs < 8 then [] else of_nat (of_View (take 8 bs)) # words64 (drop 8 bs))"

declare words64.simps [simp del]

definition GetTokens :: "'r read_fn \<Rightarrow> 'r \<Rightarrow> (uint64 list \<times> 'r) result" where
  "GetTokens rd r =
    andThen (ReadFull rd r 8) (\<lambda>(tokens_size, r).
    andThen (ReadFull rd r (8 * of_View tokens_size)) (\<lambda>(res, r). Inr (words64 res, r)))"

text \<open>The body of the fiber for the token \<open>i\<close>; the port is a 16-bit number.\<close>

definition secret_part ::
  "'r read_fn \<Rightarrow> 'w write_fn \<Rightarrow> (SocketAddress \<Rightarrow> ('r \<times> 'w) result) \<Rightarrow> SocketAddress \<Rightarrow> uint64 list \<Rightarrow> nat \<Rightarrow> uint64 result" where
  "secret_part rd wr dial address tokens i =
    andThen (GetPort address) (\<lambda>port.
    andThen (SetPort address (port + of_nat i + 1)) (\<lambda>cur_address.
    andThen (dial cur_address) (\<lambda>(r, w).
    andThen (wr w (View_uint 8 (unat (tokens ! i)))) (\<lambda>w.
    andThen (ReadFull rd r 8) (\<lambda>(bs, r). Inr (of_nat (of_View bs)))))))"

text \<open>
  The fibers end in the order \<open>sched\<close>: each stores its part in its own cell, and \<open>Wait\<close> throws the first
  exception.
\<close>

fun run_fibers :: "(nat \<Rightarrow> uint64 result) \<Rightarrow> nat list \<Rightarrow> uint64 list \<times> exn option \<Rightarrow> uint64 list \<times> exn option" where
  "run_fibers part [] st = st"
| "run_fibers part (i # sched) (secret_parts, first_error) =
    run_fibers part sched
      (case part i of
         Inr x \<Rightarrow> (secret_parts[i := x], first_error)
       | Inl e \<Rightarrow> (secret_parts, if first_error = None then Some e else first_error))"

definition GetSecret :: "(nat \<Rightarrow> uint64 result) \<Rightarrow> nat list \<Rightarrow> nat \<Rightarrow> uint64 result" where
  "GetSecret part sched n =
    (case run_fibers part sched (replicate n 0, None) of
       (secret_parts, None) \<Rightarrow> Inr (foldl (+) 0 secret_parts)
     | (_, Some e) \<Rightarrow> Inl e)"

definition Fanout ::
  "'r read_fn \<Rightarrow> 'w write_fn \<Rightarrow> (SocketAddress \<Rightarrow> ('r \<times> 'w) result) \<Rightarrow> (nat \<Rightarrow> nat list) \<Rightarrow> SocketAddress \<Rightarrow>
    (byte list \<times> 'r \<times> 'w) result option" where
  "Fanout rd wr dial sched address =
    (case andThen (dial address) (\<lambda>(r, w).
       andThen (GetTokens rd r) (\<lambda>(tokens, r).
       andThen (GetSecret (secret_part rd wr dial address tokens) (sched (length tokens)) (length tokens)) (\<lambda>secret.
       andThen (wr w (View_uint 8 (unat secret))) (\<lambda>w. Inr (r, w))))) of
       Inl e \<Rightarrow> Some (Inl e)
     | Inr (r, w) \<Rightarrow> map_option (\<lambda>res. andThen res (\<lambda>(flag, r). Inr (flag, r, w))) (ReadAllToString rd r))"

section \<open>Port scan\<close>

datatype PortState = OPEN | CLOSED | TIMEOUT

text \<open>
  The guard's timeout reaches \<open>DialTCP\<close> as an exception of the watcher's \<open>Wait\<close>.  A failed check of \<open>Close\<close>
  ends the process, which is the \<^term>\<open>Inl CheckFailed\<close>.
\<close>

definition CheckPort :: "'k syscalls \<Rightarrow> SocketAddress \<Rightarrow> 'k \<Rightarrow> (PortState result \<times> 'k) option" where
  "CheckPort sys addr k =
    map_option (\<lambda>(ret, k).
      case ret of
        Inr conn \<Rightarrow> (case Socket_Close sys (sc_fd conn) k of (Inl e, k) \<Rightarrow> (Inl e, k) | (Inr _, k) \<Rightarrow> (Inr OPEN, k))
      | Inl e \<Rightarrow>
          ((case e of TimeoutException _ \<Rightarrow> Inr TIMEOUT | CheckFailed \<Rightarrow> Inl CheckFailed | _ \<Rightarrow> Inr CLOSED), k))
     (DialTCP sys addr k)"

lemma unat_Suc_less: "port < (end_port :: 16 word) \<Longrightarrow> unat (port + 1) = unat port + 1"
  using unsigned_less [of end_port, where ?'a = nat] by (simp add: word_less_nat_alt unat_plus_if')

function ScanPorts_loop ::
  "'k syscalls \<Rightarrow> 16 word \<Rightarrow> 16 word \<Rightarrow> SocketAddress \<Rightarrow> (16 word \<times> PortState) list \<Rightarrow> 'k \<Rightarrow>
    ((16 word \<times> PortState) list result \<times> 'k) option" where
  "ScanPorts_loop sys port end_port checking_address res k =
    (if port < end_port then
       (case SetPort checking_address port of
          Inl e \<Rightarrow> Some (Inl e, k)
        | Inr a \<Rightarrow>
            Option.bind (CheckPort sys a k) (\<lambda>(state, k).
              case state of
                Inl e \<Rightarrow> Some (Inl e, k)
              | Inr st \<Rightarrow> ScanPorts_loop sys (port + 1) end_port a (res @ [(port, st)]) k))
     else Some (Inr res, k))"
  by pat_completeness auto
termination
  by (relation "measure (\<lambda>(sys, port, end_port, a, res, k). unat end_port - unat port)")
    (auto simp: unat_Suc_less word_less_nat_alt)

definition ScanPorts ::
  "'k syscalls \<Rightarrow> SocketAddress \<Rightarrow> 16 word \<Rightarrow> 16 word \<Rightarrow> 'k \<Rightarrow> ((16 word \<times> PortState) list result \<times> 'k) option" where
  "ScanPorts sys remote start end_port = ScanPorts_loop sys start end_port remote []"

section \<open>Port knocking\<close>

datatype KnockProtocol = TCP | UDP

text \<open>
  What the \<open>try\<close> of \<open>PortKnock\<close> throws is swallowed, and the connection's destructor closes what \<open>Close\<close> did
  not; only a failed check ends the process.  \<open>localhost\<close> is the address that the lookup of 127.0.0.1 gave.
\<close>

definition close_quietly :: "'k syscalls \<Rightarrow> int \<Rightarrow> 'k \<Rightarrow> unit result \<times> 'k" where
  "close_quietly sys fd k = (case Socket_Close sys fd k of (Inl e, k) \<Rightarrow> (Inl e, k) | (Inr _, k) \<Rightarrow> (Inr (), k))"

definition swallowed :: "exn \<Rightarrow> unit result" where
  "swallowed e = (if e = CheckFailed then Inl e else Inr ())"

definition PortKnock_try ::
  "'k syscalls \<Rightarrow> SocketAddress result \<Rightarrow> SocketAddress \<Rightarrow> KnockProtocol \<Rightarrow> 'k \<Rightarrow> (unit result \<times> 'k) option" where
  "PortKnock_try sys localhost addr protocol k =
    (case protocol of
       TCP \<Rightarrow>
         Option.bind (DialTCP sys addr k) (\<lambda>(ret, k).
           case ret of
             Inl e \<Rightarrow> Some (swallowed e, k)
           | Inr conn \<Rightarrow>
               map_option (\<lambda>(_, k). close_quietly sys (sc_fd conn) k) (SocketConn_Write sys (sc_fd conn) [] k))
     | UDP \<Rightarrow>
         (case localhost of
            Inl e \<Rightarrow> Some (swallowed e, k)
          | Inr l \<Rightarrow>
              (case ListenUDP sys l k of
                 (Inl e, k) \<Rightarrow> Some (swallowed e, k)
               | (Inr fd, k) \<Rightarrow> map_option (\<lambda>(_, k). close_quietly sys fd k) (SendTo sys fd [] addr k))))"

definition PortKnock ::
  "'k syscalls \<Rightarrow> SocketAddress result \<Rightarrow> (nat \<Rightarrow> 'k \<Rightarrow> 'k) \<Rightarrow> SocketAddress \<Rightarrow> KnockProtocol \<Rightarrow> nat \<Rightarrow> 'k \<Rightarrow>
    (unit result \<times> 'k) option" where
  "PortKnock sys localhost SleepFor addr protocol timeout k =
    map_option (\<lambda>(ret, k). case ret of Inl e \<Rightarrow> (Inl e, k) | Inr _ \<Rightarrow> (Inr (), SleepFor timeout k))
      (PortKnock_try sys localhost addr protocol k)"

fun KnockPorts ::
  "'k syscalls \<Rightarrow> SocketAddress result \<Rightarrow> (nat \<Rightarrow> 'k \<Rightarrow> 'k) \<Rightarrow> SocketAddress \<Rightarrow> (16 word \<times> KnockProtocol) list \<Rightarrow> nat \<Rightarrow> 'k \<Rightarrow>
    (unit result \<times> 'k) option" where
  "KnockPorts sys localhost SleepFor cur_addr [] delay k = Some (Inr (), k)"
| "KnockPorts sys localhost SleepFor cur_addr ((port, protocol) # ports) delay k =
    (case SetPort cur_addr port of
       Inl e \<Rightarrow> Some (Inl e, k)
     | Inr a \<Rightarrow>
         Option.bind (PortKnock sys localhost SleepFor a protocol delay k) (\<lambda>(ret, k).
           case ret of
             Inl e \<Rightarrow> Some (Inl e, k)
           | Inr _ \<Rightarrow> KnockPorts sys localhost SleepFor a ports delay k))"

section \<open>No descriptor is left open\<close>

context descriptor_table
begin

lemma CheckPort_ok: "CheckPort sys addr k = Some (r, k') \<Longrightarrow> open_fds k' = open_fds k"
proof -
  assume c: "CheckPort sys addr k = Some (r, k')"
  then obtain d k1 where d: "DialTCP sys addr k = Some (d, k1)" by (auto simp: CheckPort_def)
  show ?thesis
  proof (cases d)
    case (Inl e)
    then show ?thesis using c d DialTCP_ok [OF d] by (simp add: CheckPort_def)
  next
    case (Inr conn)
    then have k1: "sc_fd conn \<notin> open_fds k" "open_fds k1 = insert (sc_fd conn) (open_fds k)"
      using DialTCP_ok [OF d] by auto
    obtain k2 where k2: "Socket_Close sys (sc_fd conn) k1 = (Inr (- 1), k2)" "open_fds k2 = open_fds k1 - {sc_fd conn}"
      using Socket_Close_ok [of "sc_fd conn" k1] k1 by auto
    then have "k' = k2" using c d Inr by (simp add: CheckPort_def)
    then show ?thesis using k2(2) k1 by simp
  qed
qed

lemma ScanPorts_loop_ok:
  "ScanPorts_loop sys port end_port a res k = Some (r, k') \<Longrightarrow>
    open_fds k' = open_fds k \<and>
    (\<forall>ps. r = Inr ps \<longrightarrow> map (unat \<circ> fst) ps = map (unat \<circ> fst) res @ [unat port..<unat end_port])"
proof (induction "unat end_port - unat port" arbitrary: port a res k rule: less_induct)
  case less
  show ?case
  proof (cases "port < end_port")
    case False
    then show ?thesis using less.prems by (subst (asm) ScanPorts_loop.simps) (auto simp: word_less_nat_alt)
  next
    case lt: True
    show ?thesis
    proof (cases "SetPort a port")
      case (Inl e)
      then show ?thesis using less.prems lt by (subst (asm) ScanPorts_loop.simps) auto
    next
      case (Inr a')
      obtain st k1 where c: "CheckPort sys a' k = Some (st, k1)"
        using less.prems lt Inr by (subst (asm) ScanPorts_loop.simps) (cases "CheckPort sys a' k"; auto)
      have k1: "open_fds k1 = open_fds k" by (rule CheckPort_ok [OF c])
      show ?thesis
      proof (cases st)
        case (Inl e)
        then show ?thesis using less.prems lt Inr c k1 by (subst (asm) ScanPorts_loop.simps) auto
      next
        case (Inr s)
        then have "ScanPorts_loop sys (port + 1) end_port a' (res @ [(port, s)]) k1 = Some (r, k')"
          using less.prems lt \<open>SetPort a port = Inr a'\<close> c by (subst (asm) ScanPorts_loop.simps) simp
        note IH = less.hyps [OF _ this]
        have p: "unat port < unat end_port" "unat (port + 1) = Suc (unat port)"
          using lt unat_Suc_less [OF lt] by (simp_all add: word_less_nat_alt)
        then have "[unat port..<unat end_port] = unat port # [unat (port + 1)..<unat end_port]"
          by (simp add: upt_conv_Cons)
        then show ?thesis using IH p k1 by simp
      qed
    qed
  qed
qed

lemma close_quietly_ok:
  "fd \<in> open_fds k \<Longrightarrow> \<exists>k'. close_quietly sys fd k = (Inr (), k') \<and> open_fds k' = open_fds k - {fd}"
  using Socket_Close_ok [of fd k] by (auto simp: close_quietly_def)

lemma PortKnock_try_ok:
  "PortKnock_try sys localhost addr protocol k = Some (r, k') \<Longrightarrow> open_fds k' = open_fds k"
proof (cases protocol)
  case TCP
  assume p: "PortKnock_try sys localhost addr protocol k = Some (r, k')"
  then obtain d k1 where d: "DialTCP sys addr k = Some (d, k1)"
    using TCP by (cases "DialTCP sys addr k") (auto simp: PortKnock_try_def)
  show ?thesis
  proof (cases d)
    case (Inl e)
    then show ?thesis using p TCP d DialTCP_ok [OF d] by (simp add: PortKnock_try_def)
  next
    case (Inr conn)
    then have k1: "sc_fd conn \<notin> open_fds k" "open_fds k1 = insert (sc_fd conn) (open_fds k)" using DialTCP_ok [OF d] by auto
    then obtain k2 where "close_quietly sys (sc_fd conn) k1 = (Inr (), k2)" "open_fds k2 = open_fds k1 - {sc_fd conn}"
      using close_quietly_ok [of "sc_fd conn" k1] by auto
    then show ?thesis using p TCP d Inr k1 by (simp add: PortKnock_try_def SocketConn_Write.simps)
  qed
next
  case UDP
  assume p: "PortKnock_try sys localhost addr protocol k = Some (r, k')"
  show ?thesis
  proof (cases localhost)
    case (Inl e)
    then show ?thesis using p UDP by (simp add: PortKnock_try_def)
  next
    case (Inr l)
    obtain d k1 where d: "ListenUDP sys l k = (d, k1)" by fastforce
    show ?thesis
    proof (cases d)
      case (Inl e)
      then show ?thesis using p UDP d ListenUDP_ok [OF d] \<open>localhost = Inr l\<close> by (simp add: PortKnock_try_def)
    next
      case (Inr fd)
      then have k1: "fd \<notin> open_fds k" "open_fds k1 = insert fd (open_fds k)" using ListenUDP_ok [OF d] by auto
      obtain y where y: "SendTo sys fd [] addr k1 = Some y" "close_quietly sys fd (snd y) = (r, k')"
        using p UDP d Inr \<open>localhost = Inr l\<close> by (auto simp: PortKnock_try_def split: prod.splits)
      have "open_fds (snd y) = open_fds k1" by (rule SendTo_keeps [OF y(1), of "\<lambda>k. open_fds k = open_fds k1"]) simp_all
      then show ?thesis using close_quietly_ok [of fd "snd y"] k1 y(2) by auto
    qed
  qed
qed

lemma KnockPorts_ok:
  assumes sleep: "\<And>t k. open_fds (SleepFor t k) = open_fds k"
  shows "KnockPorts sys localhost SleepFor a ports delay k = Some (r, k') \<Longrightarrow> open_fds k' = open_fds k"
proof (induction ports arbitrary: a k)
  case (Cons p ports)
  obtain port protocol where p: "p = (port, protocol)" by (cases p)
  show ?case
  proof (cases "SetPort a port")
    case (Inr a')
    obtain u k1 where u: "PortKnock_try sys localhost a' protocol k = Some (u, k1)"
      using Cons.prems p Inr by (cases "PortKnock_try sys localhost a' protocol k") (auto simp: PortKnock_def)
    have k1: "open_fds k1 = open_fds k" by (rule PortKnock_try_ok [OF u])
    show ?thesis
      using Cons.prems p Inr u k1 sleep Cons.IH [of a' "SleepFor delay k1"] by (cases u) (auto simp: PortKnock_def)
  qed (use Cons.prems p in auto)
qed simp

end

section \<open>Fanout, in any order\<close>

lemma run_fibers_ok:
  "(\<And>i. i \<in> set sched \<Longrightarrow> part i = Inr (f i)) \<Longrightarrow>
    \<exists>ys. run_fibers part sched (xs, None) = (ys, None) \<and> length ys = length xs \<and>
      (\<forall>i < length xs. ys ! i = (if i \<in> set sched then f i else xs ! i))"
proof (induction sched arbitrary: xs)
  case (Cons j sched)
  have "part j = Inr (f j)" using Cons.prems by simp
  then show ?case using Cons.IH [of "xs[j := f j]"] Cons.prems by (auto simp: nth_list_update)
qed simp

lemma run_fibers_error:
  "snd (run_fibers part sched (xs, Some e)) = Some e"
  by (induction sched arbitrary: xs) (auto split: sum.split)

lemma foldl_plus_sum_list: "foldl (+) (a :: 'a :: comm_monoid_add) xs = a + sum_list xs"
  by (induction xs arbitrary: a) (auto simp: add.assoc)

text \<open>Whatever order the fibers end in, the secret is the sum of the parts, modulo \<open>2^64\<close>.\<close>

lemma GetSecret_any_schedule:
  assumes "set sched = {..<n}" "\<And>i. i < n \<Longrightarrow> part i = Inr (f i)"
  shows "GetSecret part sched n = Inr (\<Sum>i<n. f i)"
proof -
  obtain ys where ys: "run_fibers part sched (replicate n 0, None) = (ys, None)" "length ys = n"
    "\<forall>i < n. ys ! i = f i"
    using run_fibers_ok [of sched part f "replicate n 0"] assms by auto
  then have "ys = map f [0..<n]" by (auto intro: nth_equalityI)
  then have "sum_list ys = (\<Sum>i<n. f i)" by (simp add: sum_list_sum_nth atLeast0LessThan)
  then show ?thesis using ys(1) by (simp add: GetSecret_def foldl_plus_sum_list)
qed

section \<open>Properties\<close>

text \<open>
  Scanning and knocking.  Over every kernel that keeps a descriptor table, whatever its calls do, a scan that
  returns reports every port of the range once, in order, on 16-bit numbers, and neither a scan nor a sequence
  of knocks leaves a descriptor open or closes one it did not open.
\<close>

theorem port_tools_keep_descriptors:
  assumes fds: "descriptor_table sys open_fds" and sleep: "\<And>t k. open_fds (SleepFor t k) = open_fds k"
  shows "(ScanPorts sys remote start end_port k = Some (r, k') \<longrightarrow>
      open_fds k' = open_fds k \<and> (\<forall>ps. r = Inr ps \<longrightarrow> map (unat \<circ> fst) ps = [unat start..<unat end_port])) \<and>
    (KnockPorts sys localhost SleepFor remote ports delay k = Some (u, k'') \<longrightarrow> open_fds k'' = open_fds k)"
  using descriptor_table.ScanPorts_loop_ok [OF fds, of start end_port remote "[]" k r k']
    descriptor_table.KnockPorts_ok [OF fds, of SleepFor localhost remote ports delay k u k'', OF sleep]
  by (simp add: ScanPorts_def)

theorem port_tools_keep_descriptors_witness:
  "(\<exists>r k'. ScanPorts sim_syscalls (SocketAddress_of_ip 1 1) 80 82 (sim_conn [] []) = Some (r, k') \<and> sim_open k' = sim_open (sim_conn [] []))"
proof -
  obtain r k' where s: "ScanPorts sim_syscalls (SocketAddress_of_ip 1 1) 80 82 (sim_conn [] []) = Some (r, k')"
    by (simp add: ScanPorts_def ScanPorts_loop.simps CheckPort_def DialTCP_def SocketConn_init_def FinishDial_def
        FinishDial_loop.simps RestartEIntr.simps SocketAddress_of_ip_def SetPort_def GetFamily_def GetAddress_def CheckEmpty_def
        sim_defs sim_conn_def Socket_Close_def SetFromSockaddr_def loopback_def sizeof_sockaddr_in_def sizeof_family_def)
  moreover have "sim_open k' = sim_open (sim_conn [] [])"
    using port_tools_keep_descriptors [OF sim_fds.descriptor_table_axioms, of "\<lambda>_ k. k"] s by blast
  ultimately show ?thesis by blast
qed

end
