(* ===== verification/Locks.thy ===== *)
theory Locks
  imports Interleaving
begin

unbundle bit_operations_syntax

text \<open>
  Locks over atomic variables: \<open>spinlock/spinlock.h\<close>, \<open>rw-spinlock/rw_spinlock.h\<close>, \<open>futex/mutex.h\<close> and the
  counter of \<open>rw-counter/rw_counter.h\<close>.  Every access to an atomic variable is a step of its own, under a
  sequentially consistent memory.  A weak compare-and-exchange may fail with the value it expected.
\<close>

section \<open>SpinLock\<close>

datatype spin_pc = Spin_out | Spin_Lock | Spin_in

inductive SpinLock_step :: "bool \<Rightarrow> spin_pc \<Rightarrow> bool \<Rightarrow> spin_pc \<Rightarrow> bool" where
  spin_call: "SpinLock_step m Spin_out m Spin_Lock"
| spin_taken: "SpinLock_step False Spin_Lock True Spin_in"
| spin_busy: "SpinLock_step True Spin_Lock True Spin_Lock"
| spin_Unlock: "SpinLock_step m Spin_in False Spin_out"

inductive_cases SpinLock_stepE: "SpinLock_step m p m' p'"

interpretation spin: thread_invariant SpinLock_step "\<lambda>_. True" "\<lambda>m p. p = Spin_in \<longrightarrow> m"
  "\<lambda>m p q. \<not> (p = Spin_in \<and> q = Spin_in)"
  by unfold_locales (auto elim!: SpinLock_stepE)

section \<open>Counting threads\<close>

definition in_state :: "('p \<Rightarrow> bool) \<Rightarrow> (nat \<Rightarrow> 'p) \<Rightarrow> nat set" where
  "in_state P pcs = {t. P (pcs t)}"

lemma in_state_upd: "in_state P (pcs(t := p)) = (if P p then insert t (in_state P pcs) else in_state P pcs - {t})"
  by (auto simp: in_state_def)

lemma card_in_state_upd:
  assumes "finite (in_state P pcs)"
  shows "card (in_state P (pcs(t := p))) + (if P (pcs t) then 1 else 0) = card (in_state P pcs) + (if P p then 1 else 0)"
proof (cases "P (pcs t)")
  case True
  then have "t \<in> in_state P pcs" by (simp add: in_state_def)
  then show ?thesis using assms True card_Suc_Diff1 [OF assms \<open>t \<in> in_state P pcs\<close>]
    by (auto simp: in_state_upd insert_absorb)
next
  case False
  then have "t \<notin> in_state P pcs" by (simp add: in_state_def)
  then show ?thesis using assms False by (simp add: in_state_upd)
qed

lemma in_state_bound:
  assumes "\<forall>t \<ge> n. \<not> P (pcs t)"
  shows "finite (in_state P pcs)" "card (in_state P pcs) \<le> n"
proof -
  have "in_state P pcs \<subseteq> {..<n}" using assms by (auto simp: in_state_def not_le [symmetric])
  then show "finite (in_state P pcs)" "card (in_state P pcs) \<le> n"
    using finite_subset card_mono [of "{..<n}"] by auto
qed

section \<open>RWSpinLock\<close>

type_synonym uint = "32 word"

datatype rw_pc =
    RW_absent
  | RW_out
  | LockRead_load
  | LockRead_cas uint
  | Reading
  | UnlockRead_cas uint
  | LockWrite_cas
  | Writing

definition clear_low :: "uint \<Rightarrow> uint" where
  "clear_low lock = push_bit 1 (drop_bit 1 lock)"

inductive RWSpinLock_step :: "uint \<Rightarrow> rw_pc \<Rightarrow> uint \<Rightarrow> rw_pc \<Rightarrow> bool" where
  read_call: "RWSpinLock_step m RW_out m LockRead_load"
| read_load: "RWSpinLock_step m LockRead_load m (LockRead_cas (clear_low m))"
| read_taken: "RWSpinLock_step lock (LockRead_cas lock) (push_bit 1 (drop_bit 1 lock + 1)) Reading"
| read_failed: "RWSpinLock_step m (LockRead_cas lock) m (LockRead_cas (clear_low m))"
| unread_load: "RWSpinLock_step m Reading m (UnlockRead_cas m)"
| unread_done: "RWSpinLock_step lock (UnlockRead_cas lock) (push_bit 1 (drop_bit 1 lock - 1)) RW_out"
| unread_failed: "RWSpinLock_step m (UnlockRead_cas lock) m (UnlockRead_cas m)"
| write_call: "RWSpinLock_step m RW_out m LockWrite_cas"
| write_taken: "RWSpinLock_step 0 LockWrite_cas 1 Writing"
| write_failed: "RWSpinLock_step m LockWrite_cas m LockWrite_cas"
| unwrite: "RWSpinLock_step m Writing 0 RW_out"

inductive_cases RWSpinLock_stepE: "RWSpinLock_step m p m' p'"

fun holds_read :: "rw_pc \<Rightarrow> bool" where
  "holds_read Reading = True"
| "holds_read (UnlockRead_cas _) = True"
| "holds_read _ = False"

fun holds_write :: "rw_pc \<Rightarrow> bool" where
  "holds_write Writing = True"
| "holds_write _ = False"

fun cas_even :: "rw_pc \<Rightarrow> bool" where
  "cas_even (LockRead_cas lock) = even (unat lock)"
| "cas_even _ = True"

definition rw_inv :: "nat \<Rightarrow> uint \<times> (nat \<Rightarrow> rw_pc) \<Rightarrow> bool" where
  "rw_inv n s \<longleftrightarrow>
    (\<forall>t \<ge> n. snd s t = RW_absent) \<and> (\<forall>t. cas_even (snd s t)) \<and>
    unat (fst s) = 2 * card (in_state holds_read (snd s)) + card (in_state holds_write (snd s)) \<and>
    card (in_state holds_write (snd s)) \<le> 1 \<and>
    (card (in_state holds_write (snd s)) = 1 \<longrightarrow> card (in_state holds_read (snd s)) = 0)"

lemma unat_shr1: "unat (drop_bit 1 (x :: uint)) = unat x div 2"
  by (simp add: drop_bit_eq_div unat_div)

lemma unat_shl1: "2 * unat (x :: uint) < 2 ^ 32 \<Longrightarrow> unat (push_bit 1 x) = 2 * unat x"
  using unat_mult_lem [of 2 x] by (simp add: push_bit_eq_mult mult.commute)

lemma unat_clear_low: "unat (clear_low x) = 2 * (unat x div 2)"
proof -
  have "unat x < 2 ^ 32" using unsigned_less [of x, where ?'a = nat] by simp
  then have "2 * unat (drop_bit 1 x) < 2 ^ 32" unfolding unat_shr1 by linarith
  then show ?thesis unfolding clear_low_def by (simp only: unat_shl1 unat_shr1)
qed

lemma unat_read_taken:
  assumes "unat lock = 2 * r" "r + 1 < 2 ^ 31"
  shows "unat (push_bit 1 (drop_bit 1 (lock :: uint) + 1)) = 2 * (r + 1)"
proof -
  have d: "unat (drop_bit 1 lock) = r" unfolding unat_shr1 assms(1) by simp
  then have "unat (drop_bit 1 lock + 1) = r + 1" using assms(2) by (simp add: unat_plus_if')
  then show ?thesis using assms(2) by (subst unat_shl1) simp_all
qed

lemma unat_unread:
  assumes "unat lock = 2 * r" "0 < r"
  shows "unat (push_bit 1 (drop_bit 1 (lock :: uint) - 1)) = 2 * (r - 1)"
proof -
  have "unat lock < 2 ^ 32" using unsigned_less [of lock, where ?'a = nat] by simp
  then have r: "r < 2 ^ 31" using assms(1) by simp
  have "unat (drop_bit 1 lock) = r" unfolding unat_shr1 assms(1) by simp
  then have "unat (drop_bit 1 lock - 1) = r - 1" using assms(2) by (simp add: unat_sub_if')
  then show ?thesis using r by (subst unat_shl1) simp_all
qed

lemma rw_inv_keep:
  assumes inv: "rw_inv n (m, pcs)" and t: "t < n" and p: "p \<noteq> RW_absent" "cas_even p"
    and r: "holds_read p = holds_read (pcs t)" and w: "holds_write p = holds_write (pcs t)"
  shows "rw_inv n (m, pcs(t := p))"
proof -
  have "in_state holds_read (pcs(t := p)) = in_state holds_read pcs"
    "in_state holds_write (pcs(t := p)) = in_state holds_write pcs"
    using r w by (auto simp: in_state_def)
  then show ?thesis using inv t p unfolding rw_inv_def by (simp add: fun_upd_apply)
qed

lemma rw_inv_step:
  assumes "interleave RWSpinLock_step s s'" "rw_inv n s" "n < 2 ^ 31"
  shows "rw_inv n s'"
proof -
  obtain t p where st: "RWSpinLock_step (fst s) (snd s t) (fst s') p" and s': "snd s' = (snd s)(t := p)"
    using assms(1) by (rule interleave_cases)
  define m pcs where "m = fst s" and "pcs = snd s"
  have inv: "rw_inv n (m, pcs)" using assms(2) by (simp add: m_def pcs_def)
  note i = inv [unfolded rw_inv_def, simplified]
  have t: "t < n" using st i assms(2) by (cases "t < n") (auto simp: rw_inv_def elim: RWSpinLock_stepE)
  have fin: "finite (in_state holds_read pcs)" "finite (in_state holds_write pcs)"
    by (rule in_state_bound [of n]; use i in auto)+
  have le: "card (in_state holds_read pcs) \<le> n" by (rule in_state_bound) (use i in auto)
  note cr = card_in_state_upd [OF fin(1), of t p] and cw = card_in_state_upd [OF fin(2), of t p]
  have others: "(\<forall>u \<ge> n. (pcs(t := p)) u = RW_absent) \<and> (\<forall>u. cas_even ((pcs(t := p)) u))" if "p \<noteq> RW_absent" "cas_even p"
    using i t that by simp
  have "rw_inv n (fst s', pcs(t := p))"
    using st unfolding m_def [symmetric] pcs_def [symmetric]
  proof (cases rule: RWSpinLock_step.cases)
    case read_taken
    have "even (unat m)" using i read_taken by (metis cas_even.simps(1))
    then have "card (in_state holds_write pcs) = 0" using i by (cases "card (in_state holds_write pcs)") auto
    then have w0: "card (in_state holds_write pcs) = 0" "unat m = 2 * card (in_state holds_read pcs)" using i by simp_all
    have "card (in_state holds_read (pcs(t := p))) = card (in_state holds_read pcs) + 1" using cr read_taken by simp
    moreover have "card (in_state holds_write (pcs(t := p))) = 0" using cw w0(1) read_taken by simp
    moreover have "card (in_state holds_read (pcs(t := p))) \<le> n"
      by (rule in_state_bound) (use others read_taken in auto)
    ultimately show ?thesis
      using unat_read_taken [OF w0(2)] others read_taken assms(3) unfolding rw_inv_def by simp
  next
    case unread_done
    have "t \<in> in_state holds_read pcs" using unread_done by (simp add: in_state_def)
    then have pos: "0 < card (in_state holds_read pcs)" using fin(1) card_gt_0_iff by blast
    then have w0: "card (in_state holds_write pcs) = 0" using i by linarith
    then have u: "unat m = 2 * card (in_state holds_read pcs)" using i by simp
    have "card (in_state holds_read (pcs(t := p))) = card (in_state holds_read pcs) - 1" using cr unread_done by simp
    moreover have "card (in_state holds_write (pcs(t := p))) = 0" using cw w0 unread_done by simp
    ultimately show ?thesis
      using unat_unread [OF u pos] others unread_done unfolding rw_inv_def by simp
  next
    case write_taken
    have z: "card (in_state holds_read pcs) = 0" "card (in_state holds_write pcs) = 0" using i write_taken by simp_all
    have "card (in_state holds_read (pcs(t := p))) = 0" using cr z(1) write_taken by simp
    moreover have "card (in_state holds_write (pcs(t := p))) = 1" using cw z(2) write_taken by simp
    ultimately show ?thesis using others write_taken unfolding rw_inv_def by simp
  next
    case unwrite
    have "t \<in> in_state holds_write pcs" using unwrite by (simp add: in_state_def)
    then have "0 < card (in_state holds_write pcs)" using fin(2) card_gt_0_iff by blast
    then have w: "card (in_state holds_write pcs) = 1" "card (in_state holds_read pcs) = 0" using i by linarith+
    have "card (in_state holds_read (pcs(t := p))) = 0" using cr w(2) unwrite by simp
    moreover have "card (in_state holds_write (pcs(t := p))) = 0" using cw w(1) unwrite by simp
    ultimately show ?thesis using others unwrite unfolding rw_inv_def by simp
  qed (use rw_inv_keep [OF inv t] in \<open>auto simp: unat_clear_low\<close>)
  then show ?thesis using s' by (simp add: pcs_def [symmetric] rw_inv_def)
qed

definition RWSpinLock_threads :: "nat \<Rightarrow> uint \<times> (nat \<Rightarrow> rw_pc)" where
  "RWSpinLock_threads n = (0, \<lambda>t. if t < n then RW_out else RW_absent)"

lemma rw_inv_init: "rw_inv n (RWSpinLock_threads n)"
  by (simp add: rw_inv_def RWSpinLock_threads_def in_state_def)

lemma rw_inv_reachable:
  "(interleave RWSpinLock_step)\<^sup>*\<^sup>* (RWSpinLock_threads n) s \<Longrightarrow> n < 2 ^ 31 \<Longrightarrow> rw_inv n s"
  by (induction rule: rtranclp_induct) (auto intro: rw_inv_init rw_inv_step)

section \<open>Mutex over a futex\<close>

text \<open>
  \<open>state\<close> is the mutex's integer and every thread has its place in \<open>Lock\<close> or \<open>Unlock\<close>.  \<open>FutexWait\<close> puts the
  thread to sleep when the integer is still 2; \<open>FutexWake\<close> wakes one sleeper, and a sleeper may also wake by
  itself.
\<close>

datatype mutex_pc =
    Mutex_out
  | Lock_cas
  | Lock_exchange
  | Lock_wait
  | Asleep
  | Mutex_in
  | Unlock_store
  | Unlock_wake

record futex =
  state :: int
  pc :: "nat \<Rightarrow> mutex_pc"

inductive Mutex_step :: "futex \<Rightarrow> futex \<Rightarrow> bool" where
  Lock_call: "pc m t = Mutex_out \<Longrightarrow> Mutex_step m (m\<lparr>pc := (pc m)(t := Lock_cas)\<rparr>)"
| Lock_free: "pc m t = Lock_cas \<Longrightarrow> state m = 0 \<Longrightarrow> Mutex_step m (m\<lparr>state := 1, pc := (pc m)(t := Mutex_in)\<rparr>)"
| Lock_busy: "pc m t = Lock_cas \<Longrightarrow> state m \<noteq> 0 \<Longrightarrow>
    Mutex_step m (m\<lparr>pc := (pc m)(t := if state m \<noteq> 2 then Lock_exchange else Lock_wait)\<rparr>)"
| Lock_exchanged: "pc m t = Lock_exchange \<Longrightarrow>
    Mutex_step m (m\<lparr>state := 2, pc := (pc m)(t := if state m \<noteq> 0 then Lock_wait else Mutex_in)\<rparr>)"
| FutexWait: "pc m t = Lock_wait \<Longrightarrow>
    Mutex_step m (m\<lparr>pc := (pc m)(t := if state m = 2 then Asleep else Lock_exchange)\<rparr>)"
| wake_up: "pc m t = Asleep \<Longrightarrow> Mutex_step m (m\<lparr>pc := (pc m)(t := Lock_exchange)\<rparr>)"
| Unlock_sub: "pc m t = Mutex_in \<Longrightarrow>
    Mutex_step m (m\<lparr>state := state m - 1, pc := (pc m)(t := if state m \<noteq> 1 then Unlock_store else Mutex_out)\<rparr>)"
| Unlock_stored: "pc m t = Unlock_store \<Longrightarrow> Mutex_step m (m\<lparr>state := 0, pc := (pc m)(t := Unlock_wake)\<rparr>)"
| FutexWake: "pc m t = Unlock_wake \<Longrightarrow> pc m u = Asleep \<Longrightarrow>
    Mutex_step m (m\<lparr>pc := (pc m)(u := Lock_exchange, t := Mutex_out)\<rparr>)"
| FutexWake_none: "pc m t = Unlock_wake \<Longrightarrow> \<forall>u. pc m u \<noteq> Asleep \<Longrightarrow> Mutex_step m (m\<lparr>pc := (pc m)(t := Mutex_out)\<rparr>)"

definition owns :: "mutex_pc \<Rightarrow> bool" where
  "owns p \<longleftrightarrow> p = Mutex_in \<or> p = Unlock_store"

definition will_look :: "mutex_pc \<Rightarrow> bool" where
  "will_look p \<longleftrightarrow> p = Unlock_store \<or> p = Unlock_wake \<or> p = Lock_exchange"

definition mutex_inv :: "futex \<Rightarrow> bool" where
  "mutex_inv m \<longleftrightarrow>
    (state m = 0 \<and> in_state owns (pc m) = {} \<or> state m \<in> {1, 2} \<and> (\<exists>t. in_state owns (pc m) = {t})) \<and>
    (in_state (\<lambda>p. p = Asleep) (pc m) \<noteq> {} \<longrightarrow> state m = 2 \<or> in_state will_look (pc m) \<noteq> {})"

lemma mem_in_state: "t \<in> in_state P pcs \<longleftrightarrow> P (pcs t)"
  by (simp add: in_state_def)

lemma in_state_same: "P p = P (pcs t) \<Longrightarrow> in_state P (pcs(t := p)) = in_state P pcs"
  by (auto simp: in_state_def)

lemma in_state_add: "P p \<Longrightarrow> in_state P (pcs(t := p)) = insert t (in_state P pcs)"
  by (auto simp: in_state_def)

lemma in_state_del: "\<not> P p \<Longrightarrow> P (pcs t) \<Longrightarrow> in_state P (pcs(t := p)) = in_state P pcs - {t}"
  by (auto simp: in_state_def)

lemmas in_state_simps = in_state_same in_state_add in_state_del

lemma in_state_emptyD: "in_state P pcs = {} \<Longrightarrow> \<not> P (pcs t)" "in_state P pcs = {t} \<Longrightarrow> P (pcs u) \<longleftrightarrow> u = t"
  by (auto simp: in_state_def)

lemmas pc_defs = owns_def will_look_def

lemma mutex_inv_step:
  assumes "Mutex_step m m'" "mutex_inv m"
  shows "mutex_inv m'"
  using assms(1)
proof (cases rule: Mutex_step.cases)
  case (Lock_call t)
  then show ?thesis using assms(2) by (simp add: mutex_inv_def pc_defs in_state_same)
next
  case (Lock_free t)
  then show ?thesis using assms(2) by (simp add: mutex_inv_def pc_defs in_state_simps)
next
  case (Lock_busy t)
  then show ?thesis using assms(2) by (simp add: mutex_inv_def pc_defs in_state_simps)
next
  case (Lock_exchanged t)
  then show ?thesis using assms(2) by (auto simp: mutex_inv_def pc_defs in_state_simps)
next
  case (FutexWait t)
  then show ?thesis using assms(2) by (simp add: mutex_inv_def pc_defs in_state_simps)
next
  case (wake_up t)
  then show ?thesis using assms(2) by (simp add: mutex_inv_def pc_defs in_state_simps)
next
  case (Unlock_sub t)
  have "t \<in> in_state owns (pc m)" using Unlock_sub by (simp add: mem_in_state pc_defs)
  then show ?thesis using assms(2) Unlock_sub by (auto simp: mutex_inv_def pc_defs in_state_simps)
next
  case (Unlock_stored t)
  have "t \<in> in_state owns (pc m)" "t \<in> in_state will_look (pc m)" using Unlock_stored by (simp_all add: mem_in_state pc_defs)
  then show ?thesis using assms(2) Unlock_stored by (auto simp: mutex_inv_def pc_defs in_state_simps)
next
  case (FutexWake t u)
  then have "in_state owns ((pc m)(u := Lock_exchange, t := Mutex_out)) = in_state owns (pc m)"
    by (auto simp: in_state_def pc_defs)
  moreover have "u \<in> in_state will_look ((pc m)(u := Lock_exchange, t := Mutex_out))"
    using FutexWake by (auto simp: in_state_def pc_defs)
  ultimately show ?thesis using assms(2) FutexWake(1) by (auto simp: mutex_inv_def)
next
  case (FutexWake_none t)
  then have "in_state owns ((pc m)(t := Mutex_out)) = in_state owns (pc m)" by (simp add: in_state_same pc_defs)
  moreover have "in_state (\<lambda>p. p = Asleep) ((pc m)(t := Mutex_out)) = {}" using FutexWake_none by (auto simp: in_state_def)
  ultimately show ?thesis using assms(2) FutexWake_none(1) by (simp add: mutex_inv_def)
qed

definition Mutex_init :: futex where
  "Mutex_init = \<lparr>state = 0, pc = (\<lambda>_. Mutex_out)\<rparr>"

interpretation futex: step_system Mutex_step mutex_inv
  by unfold_locales (rule mutex_inv_step)

lemma mutex_inv_init: "mutex_inv Mutex_init"
  by (simp add: mutex_inv_def Mutex_init_def in_state_def owns_def)

lemma mutex_inv_reachable: "Mutex_step\<^sup>*\<^sup>* Mutex_init m \<Longrightarrow> mutex_inv m"
  by (rule futex.reachable_keeps [OF _ mutex_inv_init])

section \<open>ReadWriteAtomicCounter\<close>

text \<open>
  \<open>counters\<close> holds the incrementers' counters, \<open>threads_cnt\<close> how many of them \<open>GetValue\<close> reads.  A counter is a
  64-bit number.  \<open>GetIncrementer\<close> appends under the mutex and counts afterwards, two steps; a \<open>GetValue\<close> in
  progress has the sum of the counters it has read.
\<close>

record rw_counter =
  counters :: "64 word list"
  threads_cnt :: nat

text \<open>A step, with the number of increments it makes, and a run with the number of its increments.\<close>

inductive rw_counter_step :: "rw_counter \<Rightarrow> nat \<Rightarrow> rw_counter \<Rightarrow> bool" where
  GetIncrementer_emplace: "rw_counter_step c 0 (c\<lparr>counters := counters c @ [0]\<rparr>)"
| GetIncrementer_count: "threads_cnt c < length (counters c) \<Longrightarrow> rw_counter_step c 0 (c\<lparr>threads_cnt := threads_cnt c + 1\<rparr>)"
| Increment: "i < length (counters c) \<Longrightarrow> rw_counter_step c 1 (c\<lparr>counters := (counters c)[i := counters c ! i + 1]\<rparr>)"

inductive rw_counter_run :: "rw_counter \<Rightarrow> nat \<Rightarrow> bool" where
  run_new: "rw_counter_run \<lparr>counters = [], threads_cnt = 0\<rparr> 0"
| run_step: "rw_counter_run c n \<Longrightarrow> rw_counter_step c k c' \<Longrightarrow> rw_counter_run c' (n + k)"

fun GetValue_loop :: "rw_counter \<Rightarrow> nat \<Rightarrow> nat \<Rightarrow> 64 word \<Rightarrow> 64 word" where
  "GetValue_loop c 0 i res = res"
| "GetValue_loop c (Suc n) i res = GetValue_loop c n (i + 1) (res + counters c ! i)"

definition GetValue :: "rw_counter \<Rightarrow> 64 word" where
  "GetValue c = GetValue_loop c (threads_cnt c) 0 0"

lemma GetValue_loop_sum: "i + n \<le> length (counters c) \<Longrightarrow> GetValue_loop c n i res = res + sum_list (take n (drop i (counters c)))"
proof (induction n arbitrary: i res)
  case (Suc n)
  have "drop i (counters c) = counters c ! i # drop (i + 1) (counters c)" using Suc.prems by (simp add: Cons_nth_drop_Suc)
  then show ?case using Suc by (simp add: add.assoc)
qed simp

lemma sum_list_increment: "i < length xs \<Longrightarrow> sum_list (xs[i := xs ! i + 1 :: 64 word]) = sum_list xs + 1"
proof (induction xs arbitrary: i)
  case (Cons x xs)
  then show ?case by (cases i) (simp_all add: ac_simps)
qed simp

lemma rw_counter_run_sum: "rw_counter_run c n \<Longrightarrow> sum_list (counters c) = of_nat n \<and> threads_cnt c \<le> length (counters c)"
proof (induction rule: rw_counter_run.induct)
  case (run_step c n k c')
  from run_step(2) show ?case using run_step(3) by (cases rule: rw_counter_step.cases) (auto simp: sum_list_increment)
qed simp

text \<open>When every incrementer has been counted, \<open>GetValue\<close> is the number of increments, modulo \<open>2^64\<close>.\<close>

lemma GetValue_sum:
  assumes "rw_counter_run c n" "threads_cnt c = length (counters c)"
  shows "GetValue c = of_nat n"
  using GetValue_loop_sum [of 0 "threads_cnt c" c 0] assms(2) rw_counter_run_sum [OF assms(1)] by (simp add: GetValue_def)

section \<open>Properties\<close>

text \<open>
  The spin lock excludes: however the accesses of any number of threads interleave, two threads are never
  both between \<open>Lock\<close> and \<open>Unlock\<close>.
\<close>

theorem SpinLock_excludes:
  assumes "(interleave SpinLock_step)\<^sup>*\<^sup>* (False, \<lambda>_. Spin_out) s" "t \<noteq> u"
  shows "\<not> (snd s t = Spin_in \<and> snd s u = Spin_in)"
proof -
  have "spin.threads_ok (False, \<lambda>_. Spin_out)" unfolding spin.threads_ok_def by simp
  from spin.threads_okD(3) [OF spin.threads_ok_reachable [OF assms(1) this] assms(2)] show ?thesis .
qed

theorem SpinLock_excludes_witness:
  "\<not> (((\<lambda>_. Spin_out)(0 := Spin_Lock, 0 := Spin_in)) 0 = Spin_in \<and>
      ((\<lambda>_. Spin_out)(0 := Spin_Lock, 0 := Spin_in)) (1 :: nat) = Spin_in)"
proof -
  let ?l = "(\<lambda>_. Spin_out)(0 := Spin_Lock) :: nat \<Rightarrow> spin_pc"
  have "interleave SpinLock_step (False, \<lambda>_. Spin_out) (False, ?l)"
    by (rule interleave_at [where p = Spin_out]) (simp, rule spin_call)
  moreover have "interleave SpinLock_step (False, ?l) (True, ?l(0 := Spin_in))"
    by (rule interleave_at [where p = Spin_Lock]) (simp, rule spin_taken)
  ultimately have r: "(interleave SpinLock_step)\<^sup>*\<^sup>* (False, \<lambda>_. Spin_out) (True, ?l(0 := Spin_in))"
    by (rule converse_rtranclp_into_rtranclp [OF _ r_into_rtranclp])
  from SpinLock_excludes [OF r, of 0 1] show ?thesis by simp
qed

text \<open>
  The readers-writer spin lock excludes and counts: with fewer than \<open>2^31\<close> threads, however their accesses
  interleave and weak exchanges fail, at most one thread holds the lock for writing, none holds it for reading
  then, and the word of the lock is twice the number of readers, plus one for the writer.
\<close>

theorem RWSpinLock_excludes:
  assumes "(interleave RWSpinLock_step)\<^sup>*\<^sup>* (RWSpinLock_threads n) s" "n < 2 ^ 31"
  shows "unat (fst s) = 2 * card (in_state holds_read (snd s)) + card (in_state holds_write (snd s)) \<and>
    (snd s t = Writing \<and> (holds_read (snd s u) \<or> snd s u = Writing) \<longrightarrow> t = u)"
proof -
  note inv = rw_inv_reachable [OF assms, unfolded rw_inv_def]
  have fin: "finite (in_state holds_read (snd s))" "finite (in_state holds_write (snd s))"
    by (rule in_state_bound [of n]; use inv in auto)+
  have "t = u" if w: "snd s t = Writing" and u: "holds_read (snd s u) \<or> snd s u = Writing"
  proof -
    have t: "t \<in> in_state holds_write (snd s)" using w by (simp add: in_state_def)
    then have "card (in_state holds_write (snd s)) \<noteq> 0" using fin(2) by auto
    then have one: "card (in_state holds_write (snd s)) = 1" using inv by linarith
    then have "in_state holds_read (snd s) = {}" using inv fin(1) by simp
    then have "u \<in> in_state holds_write (snd s)" using u by (auto simp: in_state_def)
    then show ?thesis using t one by (auto simp: card_1_singleton_iff)
  qed
  then show ?thesis using inv by blast
qed

theorem RWSpinLock_excludes_witness:
  "unat (1 :: uint) = 2 * card (in_state holds_read ((snd (RWSpinLock_threads 2))(0 := LockWrite_cas, 0 := Writing))) +
    card (in_state holds_write ((snd (RWSpinLock_threads 2))(0 := LockWrite_cas, 0 := Writing)))"
proof -
  have "interleave RWSpinLock_step (RWSpinLock_threads 2) (0, (snd (RWSpinLock_threads 2))(0 := LockWrite_cas))"
    unfolding RWSpinLock_threads_def snd_conv by (rule interleave_at [where p = RW_out]) (simp, rule write_call)
  moreover have "interleave RWSpinLock_step (0, (snd (RWSpinLock_threads 2))(0 := LockWrite_cas))
      (1, (snd (RWSpinLock_threads 2))(0 := LockWrite_cas, 0 := Writing))"
    by (rule interleave_at [where p = LockWrite_cas]) (simp, rule write_taken)
  ultimately have "(interleave RWSpinLock_step)\<^sup>*\<^sup>* (RWSpinLock_threads 2) (1, (snd (RWSpinLock_threads 2))(0 := LockWrite_cas, 0 := Writing))"
    by (rule converse_rtranclp_into_rtranclp [OF _ r_into_rtranclp])
  from RWSpinLock_excludes [OF this] show ?thesis by simp
qed

text \<open>
  C12: the futex mutex excludes and loses no wake-up: in every reachable state at most one thread holds it, and
  a thread sleeps only while another one holds the mutex with the mark that somebody waits, is about to wake
  a sleeper, or is awake and about to take the mutex itself; so never do all threads that want it sleep.
\<close>

theorem Mutex_no_lost_wakeup:
  assumes "Mutex_step\<^sup>*\<^sup>* Mutex_init m"
  shows "(owns (pc m t) \<and> owns (pc m u) \<longrightarrow> t = u) \<and> (state m = 0 \<longleftrightarrow> (\<forall>t. \<not> owns (pc m t))) \<and>
    (pc m t = Asleep \<longrightarrow> (\<exists>u. pc m u = Mutex_in \<and> state m = 2 \<or> will_look (pc m u)))"
proof -
  have inv: "mutex_inv m" by (rule mutex_inv_reachable [OF assms])
  have "owns (pc m t) \<Longrightarrow> owns (pc m u) \<Longrightarrow> t = u"
    using inv in_state_emptyD [of owns "pc m"] unfolding mutex_inv_def by metis
  moreover have "state m = 0 \<longleftrightarrow> (\<forall>t. \<not> owns (pc m t))" using inv by (auto simp: mutex_inv_def in_state_def)
  moreover have "\<exists>u. pc m u = Mutex_in \<and> state m = 2 \<or> will_look (pc m u)" if "pc m t = Asleep"
  proof (cases "state m = 2")
    case True
    then obtain u where "owns (pc m u)" using inv by (auto simp: mutex_inv_def in_state_def)
    then show ?thesis using True by (auto simp: owns_def will_look_def)
  next
    case False
    then show ?thesis using inv that by (auto simp: mutex_inv_def in_state_def)
  qed
  ultimately show ?thesis by blast
qed

theorem Mutex_no_lost_wakeup_witness:
  "owns (pc (Mutex_init\<lparr>state := 1, pc := (pc Mutex_init)(0 := Lock_cas, 0 := Mutex_in)\<rparr>) 0) \<and>
   state (Mutex_init\<lparr>state := 1, pc := (pc Mutex_init)(0 := Lock_cas, 0 := Mutex_in)\<rparr>) \<noteq> 0"
proof -
  let ?a = "Mutex_init\<lparr>pc := (pc Mutex_init)(0 := Lock_cas)\<rparr>"
  let ?b = "Mutex_init\<lparr>state := 1, pc := (pc Mutex_init)(0 := Lock_cas, 0 := Mutex_in)\<rparr>"
  have a: "Mutex_step Mutex_init ?a" by (rule Lock_call) (simp add: Mutex_init_def)
  have "Mutex_step ?a ?b" using Lock_free [of ?a 0] by (simp add: Mutex_init_def)
  with a have "Mutex_step\<^sup>*\<^sup>* Mutex_init ?b" by (rule converse_rtranclp_into_rtranclp [OF _ r_into_rtranclp])
  from Mutex_no_lost_wakeup [OF this, of 0 0] show ?thesis by (simp add: owns_def)
qed

end
