(* ===== verification/Monitors.thy ===== *)
theory Monitors
  imports Locks
begin

text \<open>
  Mutexes with condition variables.  A thread is outside, awake in an operation and about to take the mutex and
  test the condition it waits for, about to sleep (it has tested the condition and still has the mutex), or
  asleep.  \<open>notify_one\<close> wakes some sleeper of a kind if there is one, \<open>notify_all\<close> all of them.  Sleepers may also
  wake by themselves.
\<close>

datatype 'o mon_pc = Out | Enter 'o | Fall 'o | Sleep 'o

type_synonym 'o mon_pcs = "nat \<Rightarrow> 'o mon_pc"

inductive notify_one :: "('o \<Rightarrow> bool) \<Rightarrow> 'o mon_pcs \<Rightarrow> 'o mon_pcs \<Rightarrow> bool" for P where
  notify_some: "pcs t = Sleep w \<Longrightarrow> P w \<Longrightarrow> notify_one P pcs (pcs(t := Enter w))"
| notify_none: "\<forall>t w. pcs t = Sleep w \<longrightarrow> \<not> P w \<Longrightarrow> notify_one P pcs pcs"

definition notify_all :: "('o \<Rightarrow> bool) \<Rightarrow> 'o mon_pcs \<Rightarrow> 'o mon_pcs" where
  "notify_all P pcs = (\<lambda>t. case pcs t of Sleep w \<Rightarrow> if P w then Enter w else Sleep w | p \<Rightarrow> p)"

fun awake :: "('o \<Rightarrow> bool) \<Rightarrow> 'o mon_pc \<Rightarrow> bool" where
  "awake P (Enter w) = P w"
| "awake P _ = False"

fun down :: "('o \<Rightarrow> bool) \<Rightarrow> 'o mon_pc \<Rightarrow> bool" where
  "down P (Fall w) = P w"
| "down P (Sleep w) = P w"
| "down P _ = False"

definition mutex_free :: "'o mon_pcs \<Rightarrow> bool" where
  "mutex_free pcs \<longleftrightarrow> (\<forall>t w. pcs t \<noteq> Fall w)"

abbreviation awakes :: "('o \<Rightarrow> bool) \<Rightarrow> 'o mon_pcs \<Rightarrow> nat" where
  "awakes P pcs \<equiv> card (in_state (awake P) pcs)"

abbreviation some_down :: "('o \<Rightarrow> bool) \<Rightarrow> 'o mon_pcs \<Rightarrow> bool" where
  "some_down P pcs \<equiv> in_state (down P) pcs \<noteq> {}"

definition few :: "'o mon_pcs \<Rightarrow> bool" where
  "few pcs \<longleftrightarrow> finite {t. pcs t \<noteq> Out}"

lemma few_upd: "few pcs \<Longrightarrow> few (pcs(t := p))"
  unfolding few_def by (rule finite_subset [of _ "insert t {t. pcs t \<noteq> Out}"]) auto

lemma few_finite: "few pcs \<Longrightarrow> finite (in_state (awake P) pcs)"
  unfolding few_def in_state_def by (erule finite_subset [rotated]) auto

lemma few_notify_all: "few pcs \<Longrightarrow> few (notify_all P pcs)"
  unfolding few_def notify_all_def by (erule finite_subset [rotated]) (auto split: mon_pc.splits if_splits)

lemma few_notify_one: "notify_one P pcs pcs' \<Longrightarrow> few pcs \<Longrightarrow> few pcs'"
  by (auto elim!: notify_one.cases intro: few_upd)

text \<open>How the number of awake threads of a kind changes when one thread moves.\<close>

lemma awakes_upd:
  "few pcs \<Longrightarrow> awakes P (pcs(t := p)) + (if awake P (pcs t) then 1 else 0) = awakes P pcs + (if awake P p then 1 else 0)"
  by (rule card_in_state_upd [OF few_finite])

lemma some_down_upd: "some_down P (pcs(t := p)) \<Longrightarrow> down P p \<or> some_down P pcs"
  by (auto simp: in_state_upd split: if_splits)

text \<open>A notification finds nobody down, or there is one more awake; other kinds are not touched.\<close>

lemma notify_one_awakes:
  assumes "notify_one P pcs pcs'" "few pcs" "mutex_free pcs"
  shows "\<not> some_down P pcs' \<or> awakes P pcs' = awakes P pcs + 1"
  using assms(1)
proof cases
  case (notify_some t w)
  then show ?thesis using awakes_upd [OF assms(2), of P t "Enter w"] by simp
next
  case notify_none
  then have "\<not> down P (pcs t)" for t using assms(3) by (cases "pcs t") (auto simp: mutex_free_def)
  then show ?thesis using notify_none by (simp add: in_state_def)
qed

lemma notify_one_mono:
  assumes "notify_one P pcs pcs'" "few pcs"
  shows "awakes Q pcs \<le> awakes Q pcs' \<and> (some_down Q pcs' \<longrightarrow> some_down Q pcs)"
  using assms(1)
proof cases
  case (notify_some t w)
  then show ?thesis
    using awakes_upd [OF assms(2), of Q t "Enter w"] by (auto simp: in_state_upd)
qed simp

lemma notify_one_other:
  assumes "notify_one P pcs pcs'" "\<And>w. P w \<Longrightarrow> \<not> Q w" "few pcs"
  shows "awakes Q pcs' = awakes Q pcs"
  using assms(1)
proof cases
  case (notify_some t w)
  then show ?thesis using awakes_upd [OF assms(3), of Q t "Enter w"] assms(2) by simp
qed simp

lemma notify_all_waits:
  "notify_all P pcs t = Enter w \<or> notify_all P pcs t = Sleep w \<longleftrightarrow> pcs t = Enter w \<or> pcs t = Sleep w"
  by (auto simp: notify_all_def split: mon_pc.splits if_splits)

lemma mutex_free_upd: "mutex_free pcs \<Longrightarrow> (\<And>w. p \<noteq> Fall w) \<Longrightarrow> mutex_free (pcs(t := p))"
  by (simp add: mutex_free_def)

lemma mutex_free_Out: "mutex_free pcs \<Longrightarrow> mutex_free (pcs(t := Out))"
  by (simp add: mutex_free_def)

end
