(* ===== verification/Channels.thy ===== *)
theory Channels
  imports Monitors
begin

text \<open>
  The channels of \<open>buffered-channel/buffered_channel.h\<close> and \<open>unbuffered-channel/unbuffered_channel.h\<close>, with any
  number of senders and receivers.
\<close>

section \<open>BufferedChannel\<close>

text \<open>
  \<open>buffered-channel/buffered_channel.h\<close>.  \<open>sent\<close> and \<open>received\<close> are the histories of the values pushed and popped.
  \<open>Close\<close> does not take the mutex, so its steps may fall between a thread's test and its sleep.
\<close>

datatype 'a chan_op = Send 'a | Recv

definition is_Send :: "'a chan_op \<Rightarrow> bool" where "is_Send w \<longleftrightarrow> w \<noteq> Recv"
definition is_Recv :: "'a chan_op \<Rightarrow> bool" where "is_Recv w \<longleftrightarrow> w = Recv"

record 'a BufferedChannel =
  max_size :: nat
  queue :: "'a list"
  is_closed :: bool
  sent :: "'a list"
  received :: "'a list"
  threads :: "'a chan_op mon_pcs"

definition BufferedChannel_init :: "nat \<Rightarrow> 'a BufferedChannel" where
  "BufferedChannel_init n =
    \<lparr>max_size = n, queue = [], is_closed = False, sent = [], received = [], threads = (\<lambda>_. Out)\<rparr>"

inductive BufferedChannel_step :: "'a BufferedChannel \<Rightarrow> 'a BufferedChannel \<Rightarrow> bool" where
  chan_call: "threads c t = Out \<Longrightarrow> BufferedChannel_step c (c\<lparr>threads := (threads c)(t := Enter w)\<rparr>)"
| Send_push: "threads c t = Enter (Send v) \<Longrightarrow> mutex_free (threads c) \<Longrightarrow> \<not> is_closed c \<Longrightarrow> length (queue c) < max_size c \<Longrightarrow>
    notify_one is_Recv ((threads c)(t := Out)) pcs \<Longrightarrow>
    BufferedChannel_step c (c\<lparr>queue := queue c @ [v], sent := sent c @ [v], threads := pcs\<rparr>)"
| Send_throws: "threads c t = Enter (Send v) \<Longrightarrow> mutex_free (threads c) \<Longrightarrow> is_closed c \<Longrightarrow>
    BufferedChannel_step c (c\<lparr>threads := (threads c)(t := Out)\<rparr>)"
| Send_waits: "threads c t = Enter (Send v) \<Longrightarrow> mutex_free (threads c) \<Longrightarrow> \<not> is_closed c \<Longrightarrow> \<not> length (queue c) < max_size c \<Longrightarrow>
    BufferedChannel_step c (c\<lparr>threads := (threads c)(t := Fall (Send v))\<rparr>)"
| Recv_pop: "threads c t = Enter Recv \<Longrightarrow> mutex_free (threads c) \<Longrightarrow> queue c = v # q \<Longrightarrow>
    notify_one is_Send ((threads c)(t := Out)) pcs \<Longrightarrow>
    BufferedChannel_step c (c\<lparr>queue := q, received := received c @ [v], threads := pcs\<rparr>)"
| Recv_closed: "threads c t = Enter Recv \<Longrightarrow> mutex_free (threads c) \<Longrightarrow> queue c = [] \<Longrightarrow> is_closed c \<Longrightarrow>
    BufferedChannel_step c (c\<lparr>threads := (threads c)(t := Out)\<rparr>)"
| Recv_waits: "threads c t = Enter Recv \<Longrightarrow> mutex_free (threads c) \<Longrightarrow> queue c = [] \<Longrightarrow> \<not> is_closed c \<Longrightarrow>
    BufferedChannel_step c (c\<lparr>threads := (threads c)(t := Fall Recv)\<rparr>)"
| chan_sleep: "threads c t = Fall w \<Longrightarrow> BufferedChannel_step c (c\<lparr>threads := (threads c)(t := Sleep w)\<rparr>)"
| chan_wake: "threads c t = Sleep w \<Longrightarrow> BufferedChannel_step c (c\<lparr>threads := (threads c)(t := Enter w)\<rparr>)"
| Close_set: "BufferedChannel_step c (c\<lparr>is_closed := True\<rparr>)"
| Close_readers: "is_closed c \<Longrightarrow> BufferedChannel_step c (c\<lparr>threads := notify_all is_Recv (threads c)\<rparr>)"
| Close_writers: "is_closed c \<Longrightarrow> BufferedChannel_step c (c\<lparr>threads := notify_all is_Send (threads c)\<rparr>)"

definition chan_inv :: "'a BufferedChannel \<Rightarrow> bool" where
  "chan_inv c \<longleftrightarrow> few (threads c) \<and> sent c = received c @ queue c \<and> length (queue c) \<le> max_size c \<and>
    (\<not> is_closed c \<longrightarrow>
      (some_down is_Recv (threads c) \<longrightarrow> length (queue c) \<le> awakes is_Recv (threads c)) \<and>
      (some_down is_Send (threads c) \<longrightarrow> max_size c \<le> length (queue c) + awakes is_Send (threads c)))"

lemma kinds [simp]: "is_Send (Send v)" "\<not> is_Send Recv" "is_Recv Recv" "\<not> is_Recv (Send v)" "is_Send w \<longleftrightarrow> \<not> is_Recv w"
  by (auto simp: is_Send_def is_Recv_def)

lemma chan_inv_step:
  assumes "BufferedChannel_step c c'" "chan_inv c"
  shows "chan_inv c'"
  using assms(1)
proof cases
  case (chan_call t w)
  note up = awakes_upd [where t = t and p = "Enter w"]
  show ?thesis
    using assms(2) chan_call up [of "threads c" is_Recv] up [of "threads c" is_Send]
    by (auto simp: chan_inv_def few_upd in_state_upd)
next
  case (Send_push t v pcs)
  let ?out = "(threads c)(t := Out)"
  have few: "few (threads c)" "few ?out" "few pcs"
    using assms(2) Send_push few_notify_one [OF Send_push(6)] by (auto simp: chan_inv_def few_upd)
  have free: "mutex_free ?out" using Send_push(3) by (rule mutex_free_Out)
  have r: "\<not> some_down is_Recv pcs \<or> awakes is_Recv pcs = awakes is_Recv (threads c) + 1"
    using notify_one_awakes [OF Send_push(6) few(2) free] awakes_upd [OF few(1), of is_Recv t Out] Send_push(2) by simp
  have s: "awakes is_Send (threads c) = awakes is_Send pcs + 1"
    using notify_one_other [OF Send_push(6) _ few(2), of is_Send] awakes_upd [OF few(1), of is_Send t Out] Send_push(2) by simp
  have d: "some_down Q (threads c)" if "some_down Q pcs" for Q
    using notify_one_mono [OF Send_push(6) few(2), of Q] some_down_upd [of Q "threads c" t Out] that by simp
  have "some_down is_Recv pcs \<Longrightarrow> length (queue c) + 1 \<le> awakes is_Recv pcs"
    using r d assms(2) Send_push(4) by (simp add: chan_inv_def)
  moreover have "some_down is_Send pcs \<Longrightarrow> max_size c \<le> length (queue c) + 1 + awakes is_Send pcs"
    using s d assms(2) Send_push(4) by (simp add: chan_inv_def)
  ultimately show ?thesis using assms(2) Send_push(1,4,5) few(3) by (simp add: chan_inv_def)
next
  case (Recv_pop t v q pcs)
  let ?out = "(threads c)(t := Out)"
  have few: "few (threads c)" "few ?out" "few pcs"
    using assms(2) Recv_pop few_notify_one [OF Recv_pop(5)] by (auto simp: chan_inv_def few_upd)
  have free: "mutex_free ?out" using Recv_pop(3) by (rule mutex_free_Out)
  have s: "\<not> some_down is_Send pcs \<or> awakes is_Send pcs = awakes is_Send (threads c) + 1"
    using notify_one_awakes [OF Recv_pop(5) few(2) free] awakes_upd [OF few(1), of is_Send t Out] Recv_pop(2) by simp
  have r: "awakes is_Recv (threads c) = awakes is_Recv pcs + 1"
    using notify_one_other [OF Recv_pop(5) _ few(2), of is_Recv] awakes_upd [OF few(1), of is_Recv t Out] Recv_pop(2) by simp
  have d: "some_down Q (threads c)" if "some_down Q pcs" for Q
    using notify_one_mono [OF Recv_pop(5) few(2), of Q] some_down_upd [of Q "threads c" t Out] that by simp
  have "some_down is_Recv pcs \<Longrightarrow> \<not> is_closed c \<Longrightarrow> length q \<le> awakes is_Recv pcs"
    using r d assms(2) Recv_pop(4) by (simp add: chan_inv_def)
  moreover have "some_down is_Send pcs \<Longrightarrow> \<not> is_closed c \<Longrightarrow> max_size c \<le> length q + awakes is_Send pcs"
    using s d assms(2) Recv_pop(4) by (simp add: chan_inv_def)
  ultimately show ?thesis using assms(2) Recv_pop(1,4) few(3) by (simp add: chan_inv_def)
next
  case (Send_waits t v)
  note up = awakes_upd [where t = t and p = "Fall (Send v)"]
  have few: "few (threads c)" using assms(2) by (simp add: chan_inv_def)
  show ?thesis
    using assms(2) Send_waits up [OF few, of is_Recv] up [OF few, of is_Send] some_down_upd [of is_Recv "threads c" t "Fall (Send v)"]
    by (auto simp: chan_inv_def few_upd)
next
  case (Recv_waits t)
  note up = awakes_upd [where t = t and p = "Fall Recv"]
  have few: "few (threads c)" using assms(2) by (simp add: chan_inv_def)
  show ?thesis
    using assms(2) Recv_waits up [OF few, of is_Recv] up [OF few, of is_Send] some_down_upd [of is_Send "threads c" t "Fall Recv"]
    by (auto simp: chan_inv_def few_upd)
next
  case (chan_sleep t w)
  note up = awakes_upd [where t = t and p = "Sleep w"]
  have few: "few (threads c)" using assms(2) by (simp add: chan_inv_def)
  have "in_state (down Q) ((threads c)(t := Sleep w)) = in_state (down Q) (threads c)" for Q
    by (rule in_state_same) (simp add: chan_sleep)
  then show ?thesis
    using assms(2) chan_sleep up [OF few, of is_Recv] up [OF few, of is_Send] by (simp add: chan_inv_def few_upd)
next
  case (chan_wake t w)
  note up = awakes_upd [where t = t and p = "Enter w"]
  have few: "few (threads c)" using assms(2) by (simp add: chan_inv_def)
  show ?thesis
    using assms(2) chan_wake up [OF few, of is_Recv] up [OF few, of is_Send]
      some_down_upd [of is_Recv "threads c" t "Enter w"] some_down_upd [of is_Send "threads c" t "Enter w"]
    by (auto simp: chan_inv_def few_upd split: if_splits)
next
  case (Recv_closed t)
  then show ?thesis using assms(2) by (simp add: chan_inv_def few_upd)
qed (use assms(2) in \<open>auto simp: chan_inv_def few_upd few_notify_all\<close>)

interpretation channel: step_system BufferedChannel_step chan_inv
  by unfold_locales (rule chan_inv_step)

lemma chan_inv_init: "chan_inv (BufferedChannel_init n)"
  by (simp add: chan_inv_def BufferedChannel_init_def few_def in_state_def)

lemma max_size_const: "BufferedChannel_step\<^sup>*\<^sup>* c c' \<Longrightarrow> max_size c' = max_size c"
  by (induction rule: rtranclp_induct) (auto elim!: BufferedChannel_step.cases)

text \<open>
  \<open>Close\<close> can lose its wake-up: a receiver that has tested the condition but does not sleep yet is not reached by
  the notifications, and sleeps after them.
\<close>

lemma BufferedChannel_Close_loses_wakeup:
  "\<exists>c. BufferedChannel_step\<^sup>*\<^sup>* (BufferedChannel_init 1) c \<and> is_closed c \<and> threads c 0 = Sleep Recv \<and> (\<forall>t > 0. threads c t = Out)"
proof -
  let ?i = "BufferedChannel_init 1 :: 'a BufferedChannel"
  let ?with = "\<lambda>b p. ?i\<lparr>is_closed := b, threads := (\<lambda>_. Out)(0 := p)\<rparr>"
  have [simp]: "notify_all P ((\<lambda>_. Out)(0 := Fall w)) = (\<lambda>_. Out)(0 := Fall w)" for P and w :: "'a chan_op"
    by (auto simp: notify_all_def)
  have upd: "(\<lambda>_. Out)(0 := p, 0 := q) = (\<lambda>_. Out)(0 := q)" for p q :: "'a chan_op mon_pc" by simp
  have a: "BufferedChannel_step ?i (?with False (Enter Recv))"
    using chan_call [of ?i 0 Recv] by (simp add: BufferedChannel_init_def)
  have b: "BufferedChannel_step (?with False (Enter Recv)) (?with False (Fall Recv))"
    using Recv_waits [of "?with False (Enter Recv)" 0] by (simp add: BufferedChannel_init_def mutex_free_def)
  have c: "BufferedChannel_step (?with False (Fall Recv)) (?with True (Fall Recv))"
    using Close_set [of "?with False (Fall Recv)"] by (simp add: BufferedChannel_init_def)
  have d: "BufferedChannel_step (?with True (Fall Recv)) (?with True (Fall Recv))"
    using Close_readers [of "?with True (Fall Recv)"] by simp
  have e: "BufferedChannel_step (?with True (Fall Recv)) (?with True (Sleep Recv))"
    using chan_sleep [of "?with True (Fall Recv)" 0 Recv] by simp
  have "BufferedChannel_step\<^sup>*\<^sup>* ?i (?with True (Sleep Recv))"
    using a b c d e by (meson rtranclp.rtrancl_refl rtranclp.rtrancl_into_rtrancl)
  then show ?thesis by (intro exI [of _ "?with True (Sleep Recv)"]) simp
qed

section \<open>UnbufferedChannel\<close>

text \<open>
  An element of the queue is the sender, whose condition variable and flag it shares, and the value; \<open>got\<close> is the
  flag of the sender's call in progress.  A sender waits after its value is queued.  All steps hold the mutex, so
  the test and the sleep are one step.
\<close>

datatype 'a rendezvous_op = USend 'a | USent 'a | URecv

record 'a UnbufferedChannel =
  equeue :: "(nat \<times> 'a) list"
  closed :: bool
  got :: "nat \<Rightarrow> bool"
  uthreads :: "'a rendezvous_op mon_pcs"

definition UnbufferedChannel_init :: "'a UnbufferedChannel" where
  "UnbufferedChannel_init = \<lparr>equeue = [], closed = False, got = (\<lambda>_. False), uthreads = (\<lambda>_. Out)\<rparr>"

definition is_URecv :: "'a rendezvous_op \<Rightarrow> bool" where "is_URecv w \<longleftrightarrow> w = URecv"

text \<open>\<open>notify_one\<close> on the condition variable of the sender \<open>u\<close>, which only that sender waits on.\<close>

definition notify_sender :: "nat \<Rightarrow> 'a rendezvous_op mon_pcs \<Rightarrow> 'a rendezvous_op mon_pcs" where
  "notify_sender u pcs = (case pcs u of Sleep (USent v) \<Rightarrow> pcs(u := Enter (USent v)) | _ \<Rightarrow> pcs)"

inductive UnbufferedChannel_step :: "'a UnbufferedChannel \<Rightarrow> 'a UnbufferedChannel \<Rightarrow> bool" where
  uchan_send: "uthreads c t = Out \<Longrightarrow> UnbufferedChannel_step c (c\<lparr>uthreads := (uthreads c)(t := Enter (USend v))\<rparr>)"
| uchan_recv: "uthreads c t = Out \<Longrightarrow> UnbufferedChannel_step c (c\<lparr>uthreads := (uthreads c)(t := Enter URecv)\<rparr>)"
| Send_queues: "uthreads c t = Enter (USend v) \<Longrightarrow>
    notify_one is_URecv ((uthreads c)(t := if closed c then Out else Sleep (USent v))) pcs \<Longrightarrow>
    UnbufferedChannel_step c (c\<lparr>equeue := equeue c @ [(t, v)], got := (got c)(t := False), uthreads := pcs\<rparr>)"
| Send_returns: "uthreads c t = Enter (USent v) \<Longrightarrow> got c t \<Longrightarrow>
    UnbufferedChannel_step c (c\<lparr>uthreads := (uthreads c)(t := Out)\<rparr>)"
| Send_throws_closed: "uthreads c t = Enter (USent v) \<Longrightarrow> \<not> got c t \<Longrightarrow> closed c \<Longrightarrow>
    UnbufferedChannel_step c (c\<lparr>uthreads := (uthreads c)(t := Out)\<rparr>)"
| Send_sleeps: "uthreads c t = Enter (USent v) \<Longrightarrow> \<not> got c t \<Longrightarrow> \<not> closed c \<Longrightarrow>
    UnbufferedChannel_step c (c\<lparr>uthreads := (uthreads c)(t := Sleep (USent v))\<rparr>)"
| Recv_null: "uthreads c t = Enter URecv \<Longrightarrow> closed c \<Longrightarrow> UnbufferedChannel_step c (c\<lparr>uthreads := (uthreads c)(t := Out)\<rparr>)"
| Recv_takes: "uthreads c t = Enter URecv \<Longrightarrow> \<not> closed c \<Longrightarrow> equeue c = (u, v) # q \<Longrightarrow>
    UnbufferedChannel_step c
      (c\<lparr>equeue := q, got := (got c)(u := True), uthreads := notify_sender u ((uthreads c)(t := Out))\<rparr>)"
| Recv_sleeps: "uthreads c t = Enter URecv \<Longrightarrow> \<not> closed c \<Longrightarrow> equeue c = [] \<Longrightarrow>
    UnbufferedChannel_step c (c\<lparr>uthreads := (uthreads c)(t := Sleep URecv)\<rparr>)"
| uchan_wake: "uthreads c t = Sleep w \<Longrightarrow> UnbufferedChannel_step c (c\<lparr>uthreads := (uthreads c)(t := Enter w)\<rparr>)"
| Close: "UnbufferedChannel_step c
    (c\<lparr>equeue := [], closed := True,
       uthreads := notify_all is_URecv (foldl (\<lambda>pcs (u, v). notify_sender u pcs) (uthreads c) (equeue c))\<rparr>)"

fun waits :: "'a rendezvous_op mon_pc \<Rightarrow> 'a \<Rightarrow> bool" where
  "waits (Enter (USent v)) x = (x = v)"
| "waits (Sleep (USent v)) x = (x = v)"
| "waits _ x = False"

definition uchan_inv :: "'a UnbufferedChannel \<Rightarrow> bool" where
  "uchan_inv c \<longleftrightarrow> few (uthreads c) \<and> mutex_free (uthreads c) \<and>
    (\<forall>t v. uthreads c t \<noteq> Sleep (USend v)) \<and>
    (if closed c then \<forall>t w. uthreads c t \<noteq> Sleep w
     else distinct (map fst (equeue c)) \<and>
       (\<forall>t v. (t, v) \<in> set (equeue c) \<longleftrightarrow> waits (uthreads c t) v \<and> \<not> got c t) \<and>
       (\<forall>t v. uthreads c t = Sleep (USent v) \<longrightarrow> \<not> got c t) \<and>
       (some_down is_URecv (uthreads c) \<longrightarrow> length (equeue c) \<le> awakes is_URecv (uthreads c)))"

lemma notify_sender_simps [simp]:
  "waits (notify_sender u pcs t) v = waits (pcs t) v"
  "notify_sender u pcs t = Fall w \<longleftrightarrow> pcs t = Fall w"
  "awake is_URecv (notify_sender u pcs t) = awake is_URecv (pcs t)"
  "down is_URecv (notify_sender u pcs t) = down is_URecv (pcs t)"
  "notify_sender u pcs t = Out \<longleftrightarrow> pcs t = Out"
  by (auto simp: notify_sender_def is_URecv_def split: mon_pc.splits rendezvous_op.splits if_splits)

lemma notify_sender_Sleep:
  "notify_sender u pcs t = Sleep w \<longleftrightarrow> pcs t = Sleep w \<and> \<not> (t = u \<and> (\<exists>v. w = USent v))"
  by (cases "pcs u") (auto simp: notify_sender_def split: rendezvous_op.splits)

lemma notify_sender_counts [simp]:
  "in_state (awake is_URecv) (notify_sender u pcs) = in_state (awake is_URecv) pcs"
  "in_state (down is_URecv) (notify_sender u pcs) = in_state (down is_URecv) pcs"
  "few (notify_sender u pcs) = few pcs" "mutex_free (notify_sender u pcs) = mutex_free pcs"
  by (simp_all add: in_state_def few_def mutex_free_def)

lemma notify_readers:
  assumes "notify_one is_URecv pcs pcs'"
  shows "waits (pcs' t) v = waits (pcs t) v" "pcs' t = Sleep w \<Longrightarrow> pcs t = Sleep w" "pcs' t = Fall w \<longleftrightarrow> pcs t = Fall w"
    "pcs' t = Sleep (USent v) \<longleftrightarrow> pcs t = Sleep (USent v)"
  using assms by (auto elim!: notify_one.cases simp: is_URecv_def split: if_splits)

lemma foldl_notify_senders:
  "foldl (\<lambda>pcs (u, v). notify_sender u pcs) pcs es t = Sleep w \<Longrightarrow> pcs t = Sleep w \<and> (\<forall>v. w = USent v \<longrightarrow> t \<notin> fst ` set es)"
proof (induction es arbitrary: pcs)
  case (Cons e es)
  obtain u v where e: "e = (u, v)" by (cases e)
  have "notify_sender u pcs t = Sleep w \<and> (\<forall>v. w = USent v \<longrightarrow> t \<notin> fst ` set es)" by (rule Cons.IH) (use Cons.prems e in simp)
  then show ?case using e by (auto simp: notify_sender_Sleep)
qed simp

lemma foldl_notify_few:
  "few (foldl (\<lambda>pcs (u, v). notify_sender u pcs) pcs es) = few pcs"
  "mutex_free (foldl (\<lambda>pcs (u, v). notify_sender u pcs) pcs es) = mutex_free pcs"
  by (induction es arbitrary: pcs) (auto split: prod.splits)

lemma notify_all_Sleep: "notify_all P pcs t = Sleep w \<longleftrightarrow> pcs t = Sleep w \<and> \<not> P w"
  by (auto simp: notify_all_def split: mon_pc.splits if_splits)

lemma notify_all_free: "mutex_free (notify_all P pcs) = mutex_free pcs"
proof -
  have "notify_all P pcs t = Fall w \<longleftrightarrow> pcs t = Fall w" for t w
    by (auto simp: notify_all_def split: mon_pc.splits if_splits)
  then show ?thesis by (simp add: mutex_free_def)
qed

lemma uchan_inv_Send:
  assumes inv: "uchan_inv c" and t: "uthreads c t = Enter (USend v)"
    and n: "notify_one is_URecv ((uthreads c)(t := if closed c then Out else Sleep (USent v))) pcs"
  shows "uchan_inv (c\<lparr>equeue := equeue c @ [(t, v)], got := (got c)(t := False), uthreads := pcs\<rparr>)"
proof -
  let ?p = "if closed c then Out else Sleep (USent v)" let ?m = "(uthreads c)(t := ?p)"
  note N = notify_readers [OF n]
  have few: "few (uthreads c)" "few ?m" "few pcs" "mutex_free (uthreads c)" "mutex_free ?m" "mutex_free pcs"
    using inv few_notify_one [OF n] N(3) by (auto simp: uchan_inv_def few_upd mutex_free_def)
  have USend: "pcs u \<noteq> Sleep (USend x)" for u x using N(2) [of u "USend x"] inv by (auto simp: uchan_inv_def split: if_splits)
  show ?thesis
  proof (cases "closed c")
    case True
    then have "pcs u \<noteq> Sleep w" for u w using N(2) [of u w] inv by (auto simp: uchan_inv_def split: if_splits)
    then show ?thesis using few USend True by (simp add: uchan_inv_def)
  next
    case False
    have i: "distinct (map fst (equeue c))"
      "\<And>t v. (t, v) \<in> set (equeue c) \<longleftrightarrow> waits (uthreads c t) v \<and> \<not> got c t"
      "\<And>t v. uthreads c t = Sleep (USent v) \<Longrightarrow> \<not> got c t"
      "some_down is_URecv (uthreads c) \<Longrightarrow> length (equeue c) \<le> awakes is_URecv (uthreads c)"
      using inv False by (simp_all add: uchan_inv_def)
    have nt: "(t, x) \<notin> set (equeue c)" for x using i(2) [of t x] t by simp
    then have d: "distinct (map fst (equeue c @ [(t, v)]))" using i(1) by force
    have q: "(u, x) \<in> set (equeue c @ [(t, v)]) \<longleftrightarrow> waits (pcs u) x \<and> \<not> ((got c)(t := False)) u" for u x
      using i(2) [of u x] N(1) [of u x] nt [of x] False by (cases "u = t") auto
    have g: "pcs u = Sleep (USent x) \<Longrightarrow> \<not> ((got c)(t := False)) u" for u x
      using N(4) [of u x] i(3) [of u x] by (auto split: if_splits)
    have aw: "awakes is_URecv ?m = awakes is_URecv (uthreads c)"
      using awakes_upd [OF few(1), of is_URecv t ?p] t False by (simp add: is_URecv_def)
    have dn: "some_down is_URecv (uthreads c)" if "some_down is_URecv pcs"
      using notify_one_mono [OF n few(2), of is_URecv] some_down_upd [of is_URecv "uthreads c" t ?p] that False
      by (simp add: is_URecv_def)
    have "some_down is_URecv pcs \<Longrightarrow> length (equeue c) + 1 \<le> awakes is_URecv pcs"
      using notify_one_awakes [OF n few(2,5)] dn aw i(4) by auto
    then show ?thesis using few USend d q g False by (simp add: uchan_inv_def)
  qed
qed

lemma uchan_inv_upd:
  assumes inv: "uchan_inv c" and "mutex_free ((uthreads c)(t := p))" "\<And>w. p = Sleep w \<Longrightarrow> \<not> closed c \<and> (\<forall>v. w \<noteq> USend v)"
    and "\<not> closed c \<Longrightarrow> (\<forall>v. waits p v \<and> \<not> got c t \<longleftrightarrow> waits (uthreads c t) v \<and> \<not> got c t) \<and> (\<forall>v. p = Sleep (USent v) \<longrightarrow> \<not> got c t)"
    and "\<not> closed c \<Longrightarrow> down is_URecv p \<Longrightarrow> equeue c = []"
    and "\<not> closed c \<Longrightarrow> awake is_URecv (uthreads c t) \<Longrightarrow> awake is_URecv p \<or> equeue c = []"
  shows "uchan_inv (c\<lparr>uthreads := (uthreads c)(t := p)\<rparr>)"
proof -
  have few: "few (uthreads c)" using inv by (simp add: uchan_inv_def)
  note a = awakes_upd [OF few, of is_URecv t p] and d = some_down_upd [of is_URecv "uthreads c" t p]
  show ?thesis
  proof (cases "closed c")
    case True
    then show ?thesis using inv assms(2,3) by (auto simp: uchan_inv_def few_upd)
  next
    case False
    have "some_down is_URecv ((uthreads c)(t := p)) \<Longrightarrow> length (equeue c) \<le> awakes is_URecv ((uthreads c)(t := p))"
      using a d assms(5,6) False inv by (auto simp: uchan_inv_def split: if_splits)
    then show ?thesis using inv assms(2-4) False by (auto simp: uchan_inv_def few_upd)
  qed
qed

lemma uchan_inv_Recv:
  assumes inv: "uchan_inv c" and t: "uthreads c t = Enter URecv" and op: "\<not> closed c" and q: "equeue c = (u, v) # q"
  shows "uchan_inv (c\<lparr>equeue := q, got := (got c)(u := True), uthreads := notify_sender u ((uthreads c)(t := Out))\<rparr>)"
proof -
  have i: "few (uthreads c)" "mutex_free (uthreads c)" "\<And>t v. uthreads c t \<noteq> Sleep (USend v)" "distinct (map fst (equeue c))"
    "\<And>t v. (t, v) \<in> set (equeue c) \<longleftrightarrow> waits (uthreads c t) v \<and> \<not> got c t"
    "\<And>t v. uthreads c t = Sleep (USent v) \<Longrightarrow> \<not> got c t"
    "some_down is_URecv (uthreads c) \<Longrightarrow> length (equeue c) \<le> awakes is_URecv (uthreads c)"
    using inv op by (simp_all add: uchan_inv_def)
  note few = i(1)
  have a: "awakes is_URecv (uthreads c) = awakes is_URecv ((uthreads c)(t := Out)) + 1"
    using awakes_upd [OF few, of is_URecv t Out] t by (simp add: is_URecv_def)
  have d: "some_down is_URecv ((uthreads c)(t := Out)) \<Longrightarrow> some_down is_URecv (uthreads c)"
    using some_down_upd [of is_URecv "uthreads c" t Out] by simp
  have w: "waits (notify_sender u ((uthreads c)(t := Out)) x) y = waits (uthreads c x) y" for x y
    using t by (cases "x = t") simp_all
  have "(x, y) \<in> set q \<longleftrightarrow> waits (uthreads c x) y \<and> \<not> ((got c)(u := True)) x" for x y
    using i(4) i(5) [of x y] unfolding q by (cases "x = u") (force simp: i(5))+
  moreover have "\<not> ((got c)(u := True)) x" if "notify_sender u ((uthreads c)(t := Out)) x = Sleep (USent y)" for x y
    using that i unfolding notify_sender_Sleep by (auto split: if_splits)
  moreover have "notify_sender u ((uthreads c)(t := Out)) x \<noteq> Sleep (USend y)" for x y
    using i unfolding notify_sender_Sleep by (auto split: if_splits)
  ultimately show ?thesis
    using i(1,2,4,7) a d w op q by (simp add: uchan_inv_def few_upd mutex_free_Out)
qed

lemma uchan_inv_Close:
  assumes inv: "uchan_inv c"
  shows "uchan_inv (c\<lparr>equeue := [], closed := True,
    uthreads := notify_all is_URecv (foldl (\<lambda>pcs (u, v). notify_sender u pcs) (uthreads c) (equeue c))\<rparr>)"
proof -
  have "\<not> (uthreads c t = Sleep w \<and> \<not> is_URecv w \<and> (\<forall>v. w = USent v \<longrightarrow> t \<notin> fst ` set (equeue c)))" for t w
  proof
    assume a: "uthreads c t = Sleep w \<and> \<not> is_URecv w \<and> (\<forall>v. w = USent v \<longrightarrow> t \<notin> fst ` set (equeue c))"
    show False
    proof (cases w)
      case (USent v)
      have op: "\<not> closed c" using a inv by (auto simp: uchan_inv_def)
      have "(t, v) \<in> set (equeue c) \<longleftrightarrow> waits (uthreads c t) v \<and> \<not> got c t" "uthreads c t = Sleep (USent v) \<Longrightarrow> \<not> got c t"
        using inv op by (simp_all add: uchan_inv_def)
      then have "(t, v) \<in> set (equeue c)" using a USent by simp
      then have "t \<in> fst ` set (equeue c)" by force
      then show False using a USent by blast
    qed (use a inv in \<open>auto simp: uchan_inv_def is_URecv_def\<close>)
  qed
  then have "notify_all is_URecv (foldl (\<lambda>pcs (u, v). notify_sender u pcs) (uthreads c) (equeue c)) t \<noteq> Sleep w" for t w
    unfolding notify_all_Sleep using foldl_notify_senders by blast
  then show ?thesis using inv by (simp add: uchan_inv_def few_notify_all notify_all_free foldl_notify_few)
qed

lemma uchan_inv_step:
  assumes "UnbufferedChannel_step c c'" "uchan_inv c"
  shows "uchan_inv c'"
proof -
  have free: "mutex_free (uthreads c)" and asleep: "\<And>t v. uthreads c t \<noteq> Sleep (USend v)"
    and shut: "\<And>t w. closed c \<Longrightarrow> uthreads c t \<noteq> Sleep w"
    using assms(2) by (auto simp: uchan_inv_def)
  note move = uchan_inv_upd [OF assms(2) mutex_free_upd [OF free]]
  from assms(1) show ?thesis
  proof cases
    case (uchan_send t v)
    show ?thesis unfolding uchan_send(1) by (rule move) (simp_all add: uchan_send is_URecv_def)
  next
    case (uchan_recv t)
    show ?thesis unfolding uchan_recv(1) by (rule move) (simp_all add: uchan_recv)
  next
    case (Send_queues t v pcs)
    then show ?thesis using uchan_inv_Send [OF assms(2)] by simp
  next
    case (Send_returns t v)
    show ?thesis unfolding Send_returns(1) by (rule move) (simp_all add: Send_returns is_URecv_def)
  next
    case (Send_throws_closed t v)
    show ?thesis unfolding Send_throws_closed(1) by (rule move) (simp_all add: Send_throws_closed)
  next
    case (Send_sleeps t v)
    show ?thesis unfolding Send_sleeps(1) by (rule move) (auto simp add: Send_sleeps is_URecv_def)
  next
    case (Recv_null t)
    show ?thesis unfolding Recv_null(1) by (rule move) (simp_all add: Recv_null)
  next
    case (Recv_takes t u v q)
    then show ?thesis using uchan_inv_Recv [OF assms(2)] by simp
  next
    case (Recv_sleeps t)
    show ?thesis unfolding Recv_sleeps(1) by (rule move) (auto simp add: Recv_sleeps)
  next
    case (uchan_wake t w)
    then show ?thesis unfolding uchan_wake(1) by (intro move) (cases w; simp add: uchan_wake is_URecv_def)+
  next
    case Close
    then show ?thesis using uchan_inv_Close [OF assms(2)] by simp
  qed
qed

interpretation rendezvous: step_system UnbufferedChannel_step uchan_inv
  by unfold_locales (rule uchan_inv_step)

lemma uchan_inv_init: "uchan_inv UnbufferedChannel_init"
  by (simp add: uchan_inv_def UnbufferedChannel_init_def few_def mutex_free_def in_state_def)

section \<open>Properties\<close>

lemma awakes_pos: "0 < awakes P pcs \<Longrightarrow> \<exists>u w. pcs u = Enter w \<and> P w"
proof -
  assume "0 < awakes P pcs"
  then have "in_state (awake P) pcs \<noteq> {}" by fastforce
  then obtain u where "awake P (pcs u)" by (auto simp: in_state_def)
  then show ?thesis by (cases "pcs u") auto
qed

lemma Sleep_down: "pcs t = Sleep w \<Longrightarrow> P w \<Longrightarrow> some_down P pcs"
  using mem_in_state [of t "down P" pcs] by auto

text \<open>
  C13: the buffered channel is a bounded queue that loses neither values nor wake-ups.  However senders and
  receivers interleave, the values received are a prefix of those sent, in order, with what is in the queue
  after them, never more than the size; and while the channel is open, a receiver sleeps beside a value only
  when another receiver is awake to take it, a sender beside a free place only when another sender is awake.
\<close>

theorem BufferedChannel_no_lost_wakeup:
  assumes "BufferedChannel_step\<^sup>*\<^sup>* (BufferedChannel_init n) c"
  shows "sent c = received c @ queue c \<and> length (queue c) \<le> n \<and>
    (\<not> is_closed c \<longrightarrow>
      (threads c t = Sleep Recv \<and> queue c \<noteq> [] \<longrightarrow> (\<exists>u. threads c u = Enter Recv)) \<and>
      (threads c t = Sleep (Send v) \<and> length (queue c) < n \<longrightarrow> (\<exists>u x. threads c u = Enter (Send x))))"
proof -
  have inv: "chan_inv c" by (rule channel.reachable_keeps [OF assms chan_inv_init])
  have n: "max_size c = n" using max_size_const [OF assms] by (simp add: BufferedChannel_init_def)
  have "\<exists>u. threads c u = Enter Recv" if "\<not> is_closed c" "threads c t = Sleep Recv" "queue c \<noteq> []"
  proof -
    have "length (queue c) \<le> awakes is_Recv (threads c)" using inv that(1) Sleep_down [of "threads c" t Recv is_Recv] that(2)
      by (simp add: chan_inv_def)
    then have "0 < awakes is_Recv (threads c)" using that(3) by (cases "queue c") auto
    then show ?thesis using awakes_pos [of is_Recv "threads c"] by (auto simp: is_Recv_def)
  qed
  moreover have "\<exists>u x. threads c u = Enter (Send x)" if "\<not> is_closed c" "threads c t = Sleep (Send v)" "length (queue c) < n"
  proof -
    have "n \<le> length (queue c) + awakes is_Send (threads c)"
      using inv that(1) n Sleep_down [of "threads c" t "Send v" is_Send] that(2) by (simp add: chan_inv_def)
    then have "0 < awakes is_Send (threads c)" using that(3) by simp
    from awakes_pos [OF this] obtain u w where "threads c u = Enter w" "w \<noteq> Recv" by (auto simp: is_Recv_def)
    then show ?thesis by (cases w) auto
  qed
  ultimately show ?thesis using inv n by (simp add: chan_inv_def)
qed

theorem BufferedChannel_no_lost_wakeup_witness:
  "\<exists>c. BufferedChannel_step\<^sup>*\<^sup>* (BufferedChannel_init 1) c \<and> sent c = received c @ queue c \<and> queue c = [7 :: nat]"
proof -
  let ?a = "(BufferedChannel_init 1)\<lparr>threads := (\<lambda>_. Out)(0 := Enter (Send (7 :: nat)))\<rparr>"
  let ?b = "(BufferedChannel_init 1)\<lparr>queue := [7 :: nat], sent := [7], threads := (\<lambda>_. Out)\<rparr>"
  have a: "BufferedChannel_step (BufferedChannel_init 1) ?a"
    using chan_call [of "BufferedChannel_init 1" 0 "Send (7 :: nat)"] by (simp add: BufferedChannel_init_def)
  have n: "notify_one is_Recv ((\<lambda>_. Out)(0 := Out)) (\<lambda>_. Out :: nat chan_op mon_pc)"
    unfolding fun_upd_triv [of "\<lambda>_. Out" 0] by (rule notify_none) simp
  have "mutex_free (threads ?a)" unfolding mutex_free_def by (auto split: if_splits)
  then have "BufferedChannel_step ?a ?b"
    using Send_push [of ?a 0 7 "\<lambda>_. Out"] n by (simp add: BufferedChannel_init_def)
  with a have r: "BufferedChannel_step\<^sup>*\<^sup>* (BufferedChannel_init 1) ?b"
    by (rule converse_rtranclp_into_rtranclp [OF _ r_into_rtranclp])
  have "sent ?b = received ?b @ queue ?b" using BufferedChannel_no_lost_wakeup [OF r] by blast
  then show ?thesis using r by (intro exI [of _ ?b]) simp
qed

text \<open>
  C14: the unbuffered channel is a rendezvous.  While the channel is open, a sender that sleeps has its value in
  the queue, nobody has received it, and nobody else's flag stands for it, and a receiver sleeps beside a queued
  value only when another receiver is awake to take it; once the channel is closed nobody sleeps on it.
\<close>

theorem UnbufferedChannel_rendezvous:
  assumes "UnbufferedChannel_step\<^sup>*\<^sup>* UnbufferedChannel_init c"
  shows "(closed c \<longrightarrow> uthreads c t \<noteq> Sleep w) \<and>
    (\<not> closed c \<longrightarrow>
      distinct (map fst (equeue c)) \<and>
      (uthreads c t = Sleep (USent v) \<longrightarrow> (t, v) \<in> set (equeue c) \<and> \<not> got c t) \<and>
      (uthreads c t = Enter (USent v) \<and> \<not> got c t \<longrightarrow> (t, v) \<in> set (equeue c)) \<and>
      (uthreads c t = Sleep URecv \<and> equeue c \<noteq> [] \<longrightarrow> (\<exists>u. uthreads c u = Enter URecv)))"
proof -
  have inv: "uchan_inv c" by (rule rendezvous.reachable_keeps [OF assms uchan_inv_init])
  have "\<exists>u. uthreads c u = Enter URecv" if "\<not> closed c" "uthreads c t = Sleep URecv" "equeue c \<noteq> []"
  proof -
    have "length (equeue c) \<le> awakes is_URecv (uthreads c)"
      using inv that(1) Sleep_down [of "uthreads c" t URecv is_URecv] that(2) by (simp add: uchan_inv_def is_URecv_def)
    then have "0 < awakes is_URecv (uthreads c)" using that(3) by (cases "equeue c") auto
    then show ?thesis using awakes_pos [of is_URecv "uthreads c"] by (auto simp: is_URecv_def)
  qed
  moreover have "(t, v) \<in> set (equeue c) \<longleftrightarrow> waits (uthreads c t) v \<and> \<not> got c t" "uthreads c t = Sleep (USent v) \<longrightarrow> \<not> got c t"
    "distinct (map fst (equeue c))" if "\<not> closed c"
    using inv that by (simp_all add: uchan_inv_def)
  moreover have "uthreads c t \<noteq> Sleep w" if "closed c" using inv that by (simp add: uchan_inv_def)
  ultimately show ?thesis by auto
qed

theorem UnbufferedChannel_rendezvous_witness:
  "\<exists>c. UnbufferedChannel_step\<^sup>*\<^sup>* UnbufferedChannel_init c \<and> uthreads c 0 = Sleep (USent (7 :: nat)) \<and> (0, 7) \<in> set (equeue c)"
proof -
  let ?a = "UnbufferedChannel_init\<lparr>uthreads := (\<lambda>_. Out)(0 := Enter (USend (7 :: nat)))\<rparr>"
  let ?b = "UnbufferedChannel_init\<lparr>equeue := [(0, 7 :: nat)], got := (\<lambda>_. False)(0 := False), uthreads := (\<lambda>_. Out)(0 := Sleep (USent 7))\<rparr>"
  have a: "UnbufferedChannel_step UnbufferedChannel_init ?a"
    using uchan_send [of UnbufferedChannel_init 0 "7 :: nat"] by (simp add: UnbufferedChannel_init_def)
  have "notify_one is_URecv ((\<lambda>_. Out)(0 := Sleep (USent (7 :: nat)))) ((\<lambda>_. Out)(0 := Sleep (USent 7)))"
    by (rule notify_none) (simp add: is_URecv_def)
  then have "UnbufferedChannel_step ?a ?b"
    using Send_queues [of ?a 0 7 "(\<lambda>_. Out)(0 := Sleep (USent 7))"] by (simp add: UnbufferedChannel_init_def)
  with a have r: "UnbufferedChannel_step\<^sup>*\<^sup>* UnbufferedChannel_init ?b"
    by (rule converse_rtranclp_into_rtranclp [OF _ r_into_rtranclp])
  have "(0, 7) \<in> set (equeue ?b)"
    using UnbufferedChannel_rendezvous [OF r, of 0 _ 7] by (simp add: UnbufferedChannel_init_def)
  then show ?thesis using r by (intro exI [of _ ?b]) simp
qed

end
