(* ===== verification/Sync_Primitives.thy ===== *)
theory Sync_Primitives
  imports Monitors
begin

text \<open>
  \<open>semaphore/semaphore.h\<close>, \<open>rw-lock/rw_lock.h\<close> and \<open>timerqueue/timerqueue.h\<close>.  All their notifications are made
  under the mutex, so a thread's test and its sleep are one step.
\<close>

section \<open>Semaphore\<close>

text \<open>
  A thread that has called \<open>Acquire\<close> takes a ticket and tests the condition in one hold of the mutex; a woken one
  tests it again.  \<open>arrived\<close> and \<open>acquired\<close> are the histories of the threads that took tickets and that went on.
\<close>

datatype sem_op = Acquire | Waiting nat

record Semaphore =
  count :: int
  executing_pos :: nat
  jobs_cnt :: nat
  sem_threads :: "sem_op mon_pcs"
  arrived :: "nat list"
  acquired :: "nat list"

definition Semaphore_init :: "int \<Rightarrow> Semaphore" where
  "Semaphore_init n =
    \<lparr>count = n, executing_pos = 0, jobs_cnt = 0, sem_threads = (\<lambda>_. Out), arrived = [], acquired = []\<rparr>"

text \<open>The thread \<open>t\<close> with the ticket \<open>query_pos\<close> tests the condition: it acquires or sleeps.\<close>

definition Acquire_test :: "nat \<Rightarrow> nat \<Rightarrow> Semaphore \<Rightarrow> Semaphore" where
  "Acquire_test t query_pos s =
    (if count s \<noteq> 0 \<and> query_pos = executing_pos s then
       s\<lparr>count := count s - 1, executing_pos := executing_pos s + 1, acquired := acquired s @ [t],
         sem_threads := (sem_threads s)(t := Out)\<rparr>
     else s\<lparr>sem_threads := (sem_threads s)(t := Sleep (Waiting query_pos))\<rparr>)"

inductive Semaphore_step :: "Semaphore \<Rightarrow> Semaphore \<Rightarrow> bool" where
  sem_call: "sem_threads s t = Out \<Longrightarrow> Semaphore_step s (s\<lparr>sem_threads := (sem_threads s)(t := Enter Acquire)\<rparr>)"
| sem_Acquire: "sem_threads s t = Enter Acquire \<Longrightarrow>
    Semaphore_step s (Acquire_test t (jobs_cnt s) (s\<lparr>jobs_cnt := jobs_cnt s + 1, arrived := arrived s @ [t]\<rparr>))"
| sem_retest: "sem_threads s t = Enter (Waiting n) \<Longrightarrow> Semaphore_step s (Acquire_test t n s)"
| sem_wake: "sem_threads s t = Sleep w \<Longrightarrow> Semaphore_step s (s\<lparr>sem_threads := (sem_threads s)(t := Enter w)\<rparr>)"
| sem_Release: "Semaphore_step s (s\<lparr>count := count s + 1, sem_threads := notify_all (\<lambda>_. True) (sem_threads s)\<rparr>)"

definition sem_inv :: "Semaphore \<Rightarrow> bool" where
  "sem_inv s \<longleftrightarrow> 0 \<le> count s \<and> jobs_cnt s = length (arrived s) \<and> executing_pos s \<le> jobs_cnt s \<and>
    acquired s = take (executing_pos s) (arrived s) \<and>
    (\<forall>t n. sem_threads s t = Enter (Waiting n) \<or> sem_threads s t = Sleep (Waiting n) \<longrightarrow> n < jobs_cnt s \<and> arrived s ! n = t)"

lemma sem_inv_test:
  assumes "0 \<le> count s" "jobs_cnt s = length (arrived s)" "executing_pos s \<le> jobs_cnt s"
    "acquired s = take (executing_pos s) (arrived s)" "n < jobs_cnt s" "arrived s ! n = t"
    "\<forall>u n. u \<noteq> t \<longrightarrow> sem_threads s u = Enter (Waiting n) \<or> sem_threads s u = Sleep (Waiting n) \<longrightarrow> n < jobs_cnt s \<and> arrived s ! n = u"
  shows "sem_inv (Acquire_test t n s)"
  using assms by (auto simp: sem_inv_def Acquire_test_def take_Suc_conv_app_nth)

lemma sem_inv_step:
  assumes "Semaphore_step s s'" "sem_inv s"
  shows "sem_inv s'"
  using assms(1)
proof cases
  case (sem_call t)
  then show ?thesis using assms(2) by (auto simp: sem_inv_def)
next
  case (sem_Acquire t)
  show ?thesis
    unfolding sem_Acquire(1)
    by (rule sem_inv_test) (use assms(2) in \<open>auto simp: sem_inv_def nth_append\<close>)
next
  case (sem_retest t n)
  show ?thesis
    unfolding sem_retest(1) by (rule sem_inv_test) (use assms(2) sem_retest in \<open>auto simp: sem_inv_def\<close>)
next
  case (sem_wake t w)
  then show ?thesis using assms(2) by (auto simp: sem_inv_def)
next
  case sem_Release
  then show ?thesis using assms(2) by (simp add: sem_inv_def notify_all_waits) auto
qed

interpretation semaphore: step_system Semaphore_step sem_inv
  by unfold_locales (rule sem_inv_step)

lemma sem_inv_init: "0 \<le> n \<Longrightarrow> sem_inv (Semaphore_init n)"
  by (simp add: sem_inv_def Semaphore_init_def)

section \<open>RWLock\<close>

text \<open>
  \<open>Read_in\<close> and \<open>Write_in\<close> are the threads inside \<open>func\<close>, awake and about to call \<open>EndRead\<close> or \<open>EndWrite\<close>, which
  they do also when \<open>func\<close> throws.
\<close>

datatype rw_op = Read_call | Read_wait | Read_in | Write_call | Write_wait | Write_in

record RWLock =
  readers_cnt :: nat
  writers_cnt :: nat
  blocked_readers_cnt :: nat
  blocked_writers_cnt :: nat
  rw_threads :: "rw_op mon_pcs"

definition RWLock_init :: RWLock where
  "RWLock_init = \<lparr>readers_cnt = 0, writers_cnt = 0, blocked_readers_cnt = 0, blocked_writers_cnt = 0, rw_threads = (\<lambda>_. Out)\<rparr>"

definition Read_test :: "nat \<Rightarrow> RWLock \<Rightarrow> RWLock" where
  "Read_test t l =
    (if writers_cnt l = 0 then
       l\<lparr>blocked_readers_cnt := blocked_readers_cnt l - 1, readers_cnt := readers_cnt l + 1,
         rw_threads := (rw_threads l)(t := Enter Read_in)\<rparr>
     else l\<lparr>rw_threads := (rw_threads l)(t := Sleep Read_wait)\<rparr>)"

definition Write_test :: "nat \<Rightarrow> RWLock \<Rightarrow> RWLock" where
  "Write_test t l =
    (if readers_cnt l = 0 \<and> writers_cnt l = 0 then
       l\<lparr>blocked_writers_cnt := blocked_writers_cnt l - 1, writers_cnt := writers_cnt l + 1,
         rw_threads := (rw_threads l)(t := Enter Write_in)\<rparr>
     else l\<lparr>rw_threads := (rw_threads l)(t := Sleep Write_wait)\<rparr>)"

inductive RWLock_step :: "RWLock \<Rightarrow> RWLock \<Rightarrow> bool" where
  rw_Read: "rw_threads l t = Out \<Longrightarrow> RWLock_step l (l\<lparr>rw_threads := (rw_threads l)(t := Enter Read_call)\<rparr>)"
| rw_Write: "rw_threads l t = Out \<Longrightarrow> RWLock_step l (l\<lparr>rw_threads := (rw_threads l)(t := Enter Write_call)\<rparr>)"
| rw_Read_first: "rw_threads l t = Enter Read_call \<Longrightarrow>
    RWLock_step l (Read_test t (l\<lparr>blocked_readers_cnt := blocked_readers_cnt l + 1\<rparr>))"
| rw_Read_again: "rw_threads l t = Enter Read_wait \<Longrightarrow> RWLock_step l (Read_test t l)"
| rw_Write_first: "rw_threads l t = Enter Write_call \<Longrightarrow>
    RWLock_step l (Write_test t (l\<lparr>blocked_writers_cnt := blocked_writers_cnt l + 1\<rparr>))"
| rw_Write_again: "rw_threads l t = Enter Write_wait \<Longrightarrow> RWLock_step l (Write_test t l)"
| rw_EndRead: "rw_threads l t = Enter Read_in \<Longrightarrow>
    (if readers_cnt l - 1 = 0 \<and> blocked_writers_cnt l \<noteq> 0
     then notify_one (\<lambda>w. w = Write_wait) ((rw_threads l)(t := Out)) pcs else pcs = (rw_threads l)(t := Out)) \<Longrightarrow>
    RWLock_step l (l\<lparr>readers_cnt := readers_cnt l - 1, rw_threads := pcs\<rparr>)"
| rw_EndWrite: "rw_threads l t = Enter Write_in \<Longrightarrow>
    (if blocked_readers_cnt l > 3 * blocked_writers_cnt l
     then pcs = notify_all (\<lambda>w. w = Read_wait) ((rw_threads l)(t := Out))
     else if blocked_writers_cnt l \<noteq> 0 then notify_one (\<lambda>w. w = Write_wait) ((rw_threads l)(t := Out)) pcs
     else pcs = (rw_threads l)(t := Out)) \<Longrightarrow>
    RWLock_step l (l\<lparr>writers_cnt := writers_cnt l - 1, rw_threads := pcs\<rparr>)"
| rw_wake: "rw_threads l t = Sleep w \<Longrightarrow> RWLock_step l (l\<lparr>rw_threads := (rw_threads l)(t := Enter w)\<rparr>)"

text \<open>The threads inside, and those in the wait, asleep or awake.\<close>

definition inside :: "rw_op \<Rightarrow> rw_op mon_pcs \<Rightarrow> nat" where
  "inside w pcs = card (in_state (\<lambda>p. p = Enter w) pcs)"

definition waiting :: "rw_op \<Rightarrow> rw_op mon_pcs \<Rightarrow> nat" where
  "waiting w pcs = card (in_state (\<lambda>p. p = Enter w \<or> p = Sleep w) pcs)"

definition asleep :: "rw_op \<Rightarrow> rw_op mon_pcs \<Rightarrow> bool" where
  "asleep w pcs \<longleftrightarrow> (\<exists>t. pcs t = Sleep w)"

definition rwlock_inv :: "RWLock \<Rightarrow> bool" where
  "rwlock_inv l \<longleftrightarrow> few (rw_threads l) \<and>
    (\<forall>t w. rw_threads l t = Sleep w \<longrightarrow> w = Read_wait \<or> w = Write_wait) \<and>
    readers_cnt l = inside Read_in (rw_threads l) \<and> writers_cnt l = inside Write_in (rw_threads l) \<and>
    blocked_readers_cnt l = waiting Read_wait (rw_threads l) \<and> blocked_writers_cnt l = waiting Write_wait (rw_threads l) \<and>
    writers_cnt l \<le> 1 \<and> (writers_cnt l \<noteq> 0 \<longrightarrow> readers_cnt l = 0) \<and>
    (asleep Read_wait (rw_threads l) \<longrightarrow> writers_cnt l \<noteq> 0 \<or> blocked_writers_cnt l \<noteq> 0) \<and>
    (asleep Write_wait (rw_threads l) \<longrightarrow>
      writers_cnt l \<noteq> 0 \<or> readers_cnt l \<noteq> 0 \<or> (\<exists>t. rw_threads l t = Enter Write_wait \<or> rw_threads l t = Enter Read_wait))"

lemma few_in_state: "few pcs \<Longrightarrow> \<not> P Out \<Longrightarrow> finite (in_state P pcs)"
  unfolding few_def in_state_def by (erule finite_subset [rotated]) auto

lemma inside_upd:
  "few pcs \<Longrightarrow> inside w (pcs(t := p)) + (if pcs t = Enter w then 1 else 0) = inside w pcs + (if p = Enter w then 1 else 0)"
  unfolding inside_def by (rule card_in_state_upd) (rule few_in_state; simp)

lemma waiting_upd:
  "few pcs \<Longrightarrow> waiting w (pcs(t := p)) + (if pcs t = Enter w \<or> pcs t = Sleep w then 1 else 0) =
    waiting w pcs + (if p = Enter w \<or> p = Sleep w then 1 else 0)"
  unfolding waiting_def by (rule card_in_state_upd) (rule few_in_state; simp)

lemma waiting_pos: "few pcs \<Longrightarrow> pcs t = Enter w \<or> pcs t = Sleep w \<Longrightarrow> waiting w pcs \<noteq> 0"
  using few_in_state [of pcs "\<lambda>p. p = Enter w \<or> p = Sleep w"] mem_in_state [of t "\<lambda>p. p = Enter w \<or> p = Sleep w" pcs]
  by (auto simp: waiting_def)

lemma waiting_zeroD: "few pcs \<Longrightarrow> waiting w pcs \<noteq> 0 \<Longrightarrow> \<exists>t. pcs t = Enter w \<or> pcs t = Sleep w"
proof (rule ccontr)
  assume "waiting w pcs \<noteq> 0" "\<nexists>t. pcs t = Enter w \<or> pcs t = Sleep w"
  then show False by (simp add: waiting_def in_state_def)
qed

text \<open>One thread moves: the counts follow, and who is asleep is unchanged unless that thread falls asleep.\<close>

lemma asleep_upd: "asleep w (pcs(t := p)) \<Longrightarrow> p = Sleep w \<or> asleep w pcs"
  by (auto simp: asleep_def split: if_splits)

lemma rw_counts:
  assumes "few pcs"
  shows "inside Read_in (pcs(t := p)) + (if pcs t = Enter Read_in then 1 else 0) = inside Read_in pcs + (if p = Enter Read_in then 1 else 0)"
    "inside Write_in (pcs(t := p)) + (if pcs t = Enter Write_in then 1 else 0) = inside Write_in pcs + (if p = Enter Write_in then 1 else 0)"
    "waiting Read_wait (pcs(t := p)) + (if pcs t = Enter Read_wait \<or> pcs t = Sleep Read_wait then 1 else 0) =
      waiting Read_wait pcs + (if p = Enter Read_wait \<or> p = Sleep Read_wait then 1 else 0)"
    "waiting Write_wait (pcs(t := p)) + (if pcs t = Enter Write_wait \<or> pcs t = Sleep Write_wait then 1 else 0) =
      waiting Write_wait pcs + (if p = Enter Write_wait \<or> p = Sleep Write_wait then 1 else 0)"
  using inside_upd [OF assms] waiting_upd [OF assms] by blast+

lemma rw_notify_one:
  assumes "notify_one (\<lambda>w. w = Write_wait) pcs pcs'" "few pcs"
  shows "inside Read_in pcs' = inside Read_in pcs \<and> inside Write_in pcs' = inside Write_in pcs \<and>
    waiting Read_wait pcs' = waiting Read_wait pcs \<and> waiting Write_wait pcs' = waiting Write_wait pcs \<and>
    (asleep Write_wait pcs' \<longrightarrow> (\<exists>t. pcs' t = Enter Write_wait)) \<and>
    few pcs' \<and> (\<forall>t w. pcs' t = Sleep w \<longrightarrow> pcs t = Sleep w)"
  using assms(1)
proof cases
  case (notify_some t w)
  have "pcs' t = Enter Write_wait" using notify_some by simp
  then show ?thesis using notify_some rw_counts [OF assms(2), of t "Enter w"] assms(2) by (auto simp: few_upd)
next
  case notify_none
  then show ?thesis using assms(2) by (auto simp: asleep_def)
qed

lemma notify_all_Enter: "notify_all P pcs t = Enter w \<longleftrightarrow> pcs t = Enter w \<or> pcs t = Sleep w \<and> P w"
  by (cases "pcs t") (auto simp: notify_all_def)

lemma notify_all_Sleep_iff: "notify_all P pcs t = Sleep w \<longleftrightarrow> pcs t = Sleep w \<and> \<not> P w"
  by (cases "pcs t") (auto simp: notify_all_def)

lemma rw_notify_all:
  "inside Read_in (notify_all (\<lambda>w. w = Read_wait) pcs) = inside Read_in pcs"
  "inside Write_in (notify_all (\<lambda>w. w = Read_wait) pcs) = inside Write_in pcs"
  "\<not> asleep Read_wait (notify_all (\<lambda>w. w = Read_wait) pcs)"
  by (simp_all add: inside_def in_state_def asleep_def notify_all_Enter notify_all_Sleep_iff)

lemma waiting_notify_all: "waiting w (notify_all P pcs) = waiting w pcs"
  by (simp only: waiting_def in_state_def notify_all_waits)

lemma rwlock_invI:
  assumes "few (rw_threads l)" "\<And>t w. rw_threads l t = Sleep w \<Longrightarrow> w = Read_wait \<or> w = Write_wait"
    "readers_cnt l = inside Read_in (rw_threads l)" "writers_cnt l = inside Write_in (rw_threads l)"
    "blocked_readers_cnt l = waiting Read_wait (rw_threads l)" "blocked_writers_cnt l = waiting Write_wait (rw_threads l)"
    "writers_cnt l \<le> 1" "writers_cnt l \<noteq> 0 \<Longrightarrow> readers_cnt l = 0"
    "asleep Read_wait (rw_threads l) \<Longrightarrow> writers_cnt l \<noteq> 0 \<or> blocked_writers_cnt l \<noteq> 0"
    "asleep Write_wait (rw_threads l) \<Longrightarrow>
      writers_cnt l \<noteq> 0 \<or> readers_cnt l \<noteq> 0 \<or> (\<exists>t. rw_threads l t = Enter Write_wait \<or> rw_threads l t = Enter Read_wait)"
  shows "rwlock_inv l"
  using assms by (simp add: rwlock_inv_def)

lemma rwlock_invD:
  assumes "rwlock_inv l"
  shows "few (rw_threads l)" "rw_threads l t = Sleep w \<Longrightarrow> w = Read_wait \<or> w = Write_wait"
    "readers_cnt l = inside Read_in (rw_threads l)" "writers_cnt l = inside Write_in (rw_threads l)"
    "blocked_readers_cnt l = waiting Read_wait (rw_threads l)" "blocked_writers_cnt l = waiting Write_wait (rw_threads l)"
    "writers_cnt l \<le> 1" "writers_cnt l \<noteq> 0 \<Longrightarrow> readers_cnt l = 0"
    "asleep Read_wait (rw_threads l) \<Longrightarrow> writers_cnt l \<noteq> 0 \<or> blocked_writers_cnt l \<noteq> 0"
    "asleep Write_wait (rw_threads l) \<Longrightarrow>
      writers_cnt l \<noteq> 0 \<or> readers_cnt l \<noteq> 0 \<or> (\<exists>t. rw_threads l t = Enter Write_wait \<or> rw_threads l t = Enter Read_wait)"
  using assms unfolding rwlock_inv_def by blast+

text \<open>A thread that is not in the wait calls, or wakes up by itself.\<close>

lemma rwlock_inv_move:
  assumes inv: "rwlock_inv l" and p: "\<And>w. p \<noteq> Sleep w" "p \<noteq> Enter Read_in" "p \<noteq> Enter Write_in"
    and t: "rw_threads l t = Out \<and> (p = Enter Read_call \<or> p = Enter Write_call) \<or> (\<exists>w. rw_threads l t = Sleep w \<and> p = Enter w)"
  shows "rwlock_inv (l\<lparr>rw_threads := (rw_threads l)(t := p)\<rparr>)"
proof -
  note i = rwlock_invD [OF inv]
  note c = rw_counts [OF i(1), of t p]
  have "p = Enter Read_wait \<longleftrightarrow> rw_threads l t = Sleep Read_wait" "p = Enter Write_wait \<longleftrightarrow> rw_threads l t = Sleep Write_wait"
    "rw_threads l t \<noteq> Enter w" for w using t by auto
  then have same: "inside Read_in ((rw_threads l)(t := p)) = inside Read_in (rw_threads l)"
    "inside Write_in ((rw_threads l)(t := p)) = inside Write_in (rw_threads l)"
    "waiting Read_wait ((rw_threads l)(t := p)) = waiting Read_wait (rw_threads l)"
    "waiting Write_wait ((rw_threads l)(t := p)) = waiting Write_wait (rw_threads l)"
    using c p by simp_all
  have sl: "asleep w (rw_threads l)" if "asleep w ((rw_threads l)(t := p))" for w using asleep_upd [OF that] p(1) by blast
  have keep: "\<exists>u. ((rw_threads l)(t := p)) u = Enter Write_wait \<or> ((rw_threads l)(t := p)) u = Enter Read_wait"
    if ex: "\<exists>u. rw_threads l u = Enter Write_wait \<or> rw_threads l u = Enter Read_wait"
  proof -
    obtain u where u: "rw_threads l u = Enter Write_wait \<or> rw_threads l u = Enter Read_wait" using ex by blast
    then have "u \<noteq> t" using t by auto
    then show ?thesis using u by (intro exI [of _ u]) simp
  qed
  have sel: "rw_threads (l\<lparr>rw_threads := x\<rparr>) = x" "writers_cnt (l\<lparr>rw_threads := x\<rparr>) = writers_cnt l"
    "readers_cnt (l\<lparr>rw_threads := x\<rparr>) = readers_cnt l" for x by simp_all
  show ?thesis
  proof (rule rwlock_invI)
    show "w = Read_wait \<or> w = Write_wait" if "rw_threads (l\<lparr>rw_threads := (rw_threads l)(t := p)\<rparr>) u = Sleep w" for u w
      using that i(2) p(1) by (auto split: if_splits)
    show "writers_cnt (l\<lparr>rw_threads := (rw_threads l)(t := p)\<rparr>) \<noteq> 0 \<Longrightarrow> readers_cnt (l\<lparr>rw_threads := (rw_threads l)(t := p)\<rparr>) = 0"
      using i(8) by simp
    show "writers_cnt (l\<lparr>rw_threads := (rw_threads l)(t := p)\<rparr>) \<noteq> 0 \<or> readers_cnt (l\<lparr>rw_threads := (rw_threads l)(t := p)\<rparr>) \<noteq> 0 \<or>
        (\<exists>u. rw_threads (l\<lparr>rw_threads := (rw_threads l)(t := p)\<rparr>) u = Enter Write_wait \<or>
          rw_threads (l\<lparr>rw_threads := (rw_threads l)(t := p)\<rparr>) u = Enter Read_wait)"
      if "asleep Write_wait (rw_threads (l\<lparr>rw_threads := (rw_threads l)(t := p)\<rparr>))"
      using i(10) sl [of Write_wait] keep that unfolding sel by blast
  qed (use i(1,3-7,9) same sl in \<open>simp_all add: few_upd\<close>)
qed

lemma rwlock_inv_Read_test:
  assumes few: "few (rw_threads l)" and sl: "\<And>t w. rw_threads l t = Sleep w \<Longrightarrow> w = Read_wait \<or> w = Write_wait"
    and cnt: "readers_cnt l = inside Read_in (rw_threads l)" "writers_cnt l = inside Write_in (rw_threads l)"
      "blocked_writers_cnt l = waiting Write_wait (rw_threads l)" "writers_cnt l \<le> 1" "writers_cnt l \<noteq> 0 \<Longrightarrow> readers_cnt l = 0"
    and wake: "asleep Read_wait (rw_threads l) \<Longrightarrow> writers_cnt l \<noteq> 0 \<or> blocked_writers_cnt l \<noteq> 0"
    and t: "rw_threads l t = Enter Read_wait \<and> blocked_readers_cnt l = waiting Read_wait (rw_threads l) \<or>
      rw_threads l t = Enter Read_call \<and> blocked_readers_cnt l = waiting Read_wait (rw_threads l) + 1"
  shows "rwlock_inv (Read_test t l)"
proof (cases "writers_cnt l = 0")
  case True
  note c = rw_counts [OF few, of t "Enter Read_in"]
  have "waiting Read_wait (rw_threads l) \<noteq> 0" if "rw_threads l t = Enter Read_wait" using waiting_pos [OF few] that by blast
  then have "blocked_readers_cnt l - 1 = waiting Read_wait ((rw_threads l)(t := Enter Read_in))" using t c(3) by auto
  moreover have "asleep w (rw_threads l)" if "asleep w ((rw_threads l)(t := Enter Read_in))" for w using asleep_upd [OF that] by simp
  moreover have "inside Read_in ((rw_threads l)(t := Enter Read_in)) = inside Read_in (rw_threads l) + 1"
    "inside Write_in ((rw_threads l)(t := Enter Read_in)) = inside Write_in (rw_threads l)"
    "waiting Write_wait ((rw_threads l)(t := Enter Read_in)) = waiting Write_wait (rw_threads l)" using c(1,2,4) t by auto
  ultimately show ?thesis
    unfolding Read_test_def using True few sl cnt wake by (auto simp: few_upd rwlock_inv_def split: if_splits)
next
  case False
  note c = rw_counts [OF few, of t "Sleep Read_wait"]
  have "blocked_readers_cnt l = waiting Read_wait ((rw_threads l)(t := Sleep Read_wait))" using t c(3) by auto
  moreover have "inside Read_in ((rw_threads l)(t := Sleep Read_wait)) = inside Read_in (rw_threads l)"
    "inside Write_in ((rw_threads l)(t := Sleep Read_wait)) = inside Write_in (rw_threads l)"
    "waiting Write_wait ((rw_threads l)(t := Sleep Read_wait)) = waiting Write_wait (rw_threads l)" using c(1,2,4) t by auto
  ultimately show ?thesis
    unfolding Read_test_def using False few sl cnt by (auto simp: few_upd rwlock_inv_def split: if_splits)
qed

lemma rwlock_inv_Write_test:
  assumes few: "few (rw_threads l)" and sl: "\<And>t w. rw_threads l t = Sleep w \<Longrightarrow> w = Read_wait \<or> w = Write_wait"
    and cnt: "readers_cnt l = inside Read_in (rw_threads l)" "writers_cnt l = inside Write_in (rw_threads l)"
      "blocked_readers_cnt l = waiting Read_wait (rw_threads l)" "writers_cnt l \<le> 1" "writers_cnt l \<noteq> 0 \<Longrightarrow> readers_cnt l = 0"
    and t: "rw_threads l t = Enter Write_wait \<and> blocked_writers_cnt l = waiting Write_wait (rw_threads l) \<or>
      rw_threads l t = Enter Write_call \<and> blocked_writers_cnt l = waiting Write_wait (rw_threads l) + 1"
  shows "rwlock_inv (Write_test t l)"
proof (cases "readers_cnt l = 0 \<and> writers_cnt l = 0")
  case True
  note c = rw_counts [OF few, of t "Enter Write_in"]
  have "waiting Write_wait (rw_threads l) \<noteq> 0" if "rw_threads l t = Enter Write_wait" using waiting_pos [OF few] that by blast
  then have "blocked_writers_cnt l - 1 = waiting Write_wait ((rw_threads l)(t := Enter Write_in))" using t c(4) by auto
  moreover have "inside Read_in ((rw_threads l)(t := Enter Write_in)) = inside Read_in (rw_threads l)"
    "inside Write_in ((rw_threads l)(t := Enter Write_in)) = inside Write_in (rw_threads l) + 1"
    "waiting Read_wait ((rw_threads l)(t := Enter Write_in)) = waiting Read_wait (rw_threads l)" using c(1-3) t by auto
  ultimately show ?thesis
    unfolding Write_test_def using True few sl cnt by (auto simp: few_upd rwlock_inv_def split: if_splits)
next
  case False
  note c = rw_counts [OF few, of t "Sleep Write_wait"]
  have b: "blocked_writers_cnt l = waiting Write_wait ((rw_threads l)(t := Sleep Write_wait))" using t c(4) by auto
  moreover have "waiting Write_wait ((rw_threads l)(t := Sleep Write_wait)) \<noteq> 0"
    using waiting_pos [OF few_upd [OF few, of t "Sleep Write_wait"], of t Write_wait] by simp
  moreover have "inside Read_in ((rw_threads l)(t := Sleep Write_wait)) = inside Read_in (rw_threads l)"
    "inside Write_in ((rw_threads l)(t := Sleep Write_wait)) = inside Write_in (rw_threads l)"
    "waiting Read_wait ((rw_threads l)(t := Sleep Write_wait)) = waiting Read_wait (rw_threads l)" using c(1-3) t by auto
  ultimately show ?thesis
    unfolding Write_test_def using False few sl cnt by (auto simp: few_upd rwlock_inv_def split: if_splits)
qed

lemma rwlock_inv_EndRead:
  assumes inv: "rwlock_inv l" and t: "rw_threads l t = Enter Read_in"
    and n: "if readers_cnt l - 1 = 0 \<and> blocked_writers_cnt l \<noteq> 0
      then notify_one (\<lambda>w. w = Write_wait) ((rw_threads l)(t := Out)) pcs else pcs = (rw_threads l)(t := Out)"
  shows "rwlock_inv (l\<lparr>readers_cnt := readers_cnt l - 1, rw_threads := pcs\<rparr>)"
proof -
  let ?m = "(rw_threads l)(t := Out)"
  note i = rwlock_invD [OF inv]
  have m: "few ?m" "inside Read_in ?m + 1 = inside Read_in (rw_threads l)" "inside Write_in ?m = inside Write_in (rw_threads l)"
    "waiting Read_wait ?m = waiting Read_wait (rw_threads l)" "waiting Write_wait ?m = waiting Write_wait (rw_threads l)"
    using rw_counts [OF i(1), of t Out] t few_upd [OF i(1)] by simp_all
  have "few pcs \<and> inside Read_in pcs = inside Read_in ?m \<and> inside Write_in pcs = inside Write_in ?m \<and>
    waiting Read_wait pcs = waiting Read_wait ?m \<and> waiting Write_wait pcs = waiting Write_wait ?m \<and>
    (\<forall>u w. pcs u = Sleep w \<longrightarrow> ?m u = Sleep w)"
    using n m(1) rw_notify_one [OF _ m(1), of pcs] by (auto split: if_splits)
  then have c: "few pcs" "inside Read_in pcs = readers_cnt l - 1" "inside Write_in pcs = writers_cnt l"
    "waiting Read_wait pcs = blocked_readers_cnt l" "waiting Write_wait pcs = blocked_writers_cnt l"
    and down: "pcs u = Sleep w \<Longrightarrow> rw_threads l u = Sleep w" for u w
    using m i(3-6) by (auto split: if_splits)
  have w0: "writers_cnt l = 0" using i(3,8) m(2) by (cases "writers_cnt l") auto
  have "readers_cnt l - 1 \<noteq> 0 \<or> (\<exists>u. pcs u = Enter Write_wait)" if sl: "asleep Write_wait pcs"
  proof -
    obtain u where u: "pcs u = Sleep Write_wait" using sl by (auto simp: asleep_def)
    then have "blocked_writers_cnt l \<noteq> 0" using waiting_pos [OF i(1), of u Write_wait] down i(6) by auto
    then show ?thesis using n rw_notify_one [OF _ m(1), of pcs] sl by (auto split: if_splits)
  qed
  moreover have "asleep Read_wait (rw_threads l)" if "asleep Read_wait pcs" using that down by (auto simp: asleep_def)
  ultimately show ?thesis
    using c w0 i(9) down i(2) by (auto simp: rwlock_inv_def)
qed

lemma rwlock_inv_EndWrite:
  assumes inv: "rwlock_inv l" and t: "rw_threads l t = Enter Write_in"
    and n: "if blocked_readers_cnt l > 3 * blocked_writers_cnt l
     then pcs = notify_all (\<lambda>w. w = Read_wait) ((rw_threads l)(t := Out))
     else if blocked_writers_cnt l \<noteq> 0 then notify_one (\<lambda>w. w = Write_wait) ((rw_threads l)(t := Out)) pcs
     else pcs = (rw_threads l)(t := Out)"
  shows "rwlock_inv (l\<lparr>writers_cnt := writers_cnt l - 1, rw_threads := pcs\<rparr>)"
proof -
  let ?m = "(rw_threads l)(t := Out)"
  note i = rwlock_invD [OF inv]
  have m: "few ?m" "inside Write_in ?m + 1 = inside Write_in (rw_threads l)" "inside Read_in ?m = inside Read_in (rw_threads l)"
    "waiting Read_wait ?m = waiting Read_wait (rw_threads l)" "waiting Write_wait ?m = waiting Write_wait (rw_threads l)"
    using rw_counts [OF i(1), of t Out] t few_upd [OF i(1)] by simp_all
  have w1: "writers_cnt l = 1" "readers_cnt l = 0" using i(4,7,8) m(2) by auto
  have "few pcs \<and> inside Read_in pcs = inside Read_in ?m \<and> inside Write_in pcs = inside Write_in ?m \<and>
    waiting Read_wait pcs = waiting Read_wait ?m \<and> waiting Write_wait pcs = waiting Write_wait ?m \<and>
    (\<forall>u w. pcs u = Sleep w \<longrightarrow> ?m u = Sleep w)"
    using n m(1) rw_notify_one [OF _ m(1), of pcs]
    by (auto simp: rw_notify_all waiting_notify_all few_notify_all notify_all_Sleep_iff split: if_splits)
  then have c: "few pcs" "inside Read_in pcs = readers_cnt l" "inside Write_in pcs = writers_cnt l - 1"
    "waiting Read_wait pcs = blocked_readers_cnt l" "waiting Write_wait pcs = blocked_writers_cnt l"
    and down: "pcs u = Sleep w \<Longrightarrow> rw_threads l u = Sleep w" for u w
    using m i(3-6) by (auto split: if_splits)
  have "\<exists>u. pcs u = Enter Write_wait \<or> pcs u = Enter Read_wait" if sl: "asleep Write_wait pcs"
  proof -
    obtain u where u: "pcs u = Sleep Write_wait" using sl by (auto simp: asleep_def)
    then have bw: "blocked_writers_cnt l \<noteq> 0" using waiting_pos [OF i(1), of u Write_wait] down i(6) by auto
    show ?thesis
    proof (cases "blocked_readers_cnt l > 3 * blocked_writers_cnt l")
      case True
      then have "waiting Read_wait ?m \<noteq> 0" using m(4) i(5) by simp
      then obtain v where v: "?m v = Enter Read_wait \<or> ?m v = Sleep Read_wait" using waiting_zeroD [OF m(1)] by blast
      have "pcs v = Enter Read_wait"
        using n True v notify_all_Enter [of "\<lambda>w. w = Read_wait" ?m v Read_wait] by simp
      then show ?thesis by blast
    next
      case False
      then show ?thesis using n bw rw_notify_one [OF _ m(1), of pcs] sl by auto
    qed
  qed
  moreover have "blocked_writers_cnt l \<noteq> 0" if sl: "asleep Read_wait pcs"
  proof -
    obtain u where u: "pcs u = Sleep Read_wait" using sl by (auto simp: asleep_def)
    then have "blocked_readers_cnt l \<noteq> 0" using waiting_pos [OF i(1), of u Read_wait] down i(5) by auto
    moreover have "\<not> blocked_readers_cnt l > 3 * blocked_writers_cnt l" using n sl rw_notify_all(3) [of ?m] by auto
    ultimately show ?thesis by simp
  qed
  ultimately show ?thesis using c w1 down i(2) by (auto simp: rwlock_inv_def)
qed

lemma rwlock_inv_step:
  assumes "RWLock_step l l'" "rwlock_inv l"
  shows "rwlock_inv l'"
proof -
  note i = rwlock_invD [OF assms(2)]
  from assms(1) show ?thesis
  proof cases
    case (rw_Read t)
    then show ?thesis using rwlock_inv_move [OF assms(2), of "Enter Read_call" t] by simp
  next
    case (rw_Write t)
    then show ?thesis using rwlock_inv_move [OF assms(2), of "Enter Write_call" t] by simp
  next
    case (rw_Read_first t)
    show ?thesis
      unfolding rw_Read_first(1) by (rule rwlock_inv_Read_test) (use i rw_Read_first in \<open>simp_all\<close>)
  next
    case (rw_Read_again t)
    show ?thesis
      unfolding rw_Read_again(1) by (rule rwlock_inv_Read_test) (use i rw_Read_again in \<open>simp_all\<close>)
  next
    case (rw_Write_first t)
    show ?thesis
      unfolding rw_Write_first(1) by (rule rwlock_inv_Write_test) (use i rw_Write_first in \<open>simp_all\<close>)
  next
    case (rw_Write_again t)
    show ?thesis
      unfolding rw_Write_again(1) by (rule rwlock_inv_Write_test) (use i rw_Write_again in \<open>simp_all\<close>)
  next
    case (rw_EndRead t pcs)
    then show ?thesis using rwlock_inv_EndRead [OF assms(2)] by simp
  next
    case (rw_EndWrite t pcs)
    then show ?thesis using rwlock_inv_EndWrite [OF assms(2)] by simp
  next
    case (rw_wake t w)
    then have "w = Read_wait \<or> w = Write_wait" using i(2) by simp
    then show ?thesis using rwlock_inv_move [OF assms(2), of "Enter w" t] rw_wake by auto
  qed
qed

interpretation rwlock: step_system RWLock_step rwlock_inv
  by unfold_locales (rule rwlock_inv_step)

lemma rwlock_inv_init: "rwlock_inv RWLock_init"
  by (simp add: rwlock_inv_def RWLock_init_def few_def inside_def waiting_def asleep_def in_state_def)

section \<open>TimerQueue\<close>

text \<open>
  The map is the list of its entries in the order of their times; \<open>emplace\<close> does nothing when the time is
  taken.  \<open>Pop\<close> waits until its condition holds or the deadline it computed at the start has passed, and then
  takes the first entry, whatever the queue holds.
\<close>

fun TimerQueue_Add :: "nat \<Rightarrow> 'a \<Rightarrow> (nat \<times> 'a) list \<Rightarrow> (nat \<times> 'a) list" where
  "TimerQueue_Add at v [] = [(at, v)]"
| "TimerQueue_Add at v ((k, x) # q) =
    (if at < k then (at, v) # (k, x) # q else if at = k then (k, x) # q else (k, x) # TimerQueue_Add at v q)"

definition Pop_deadline :: "nat \<Rightarrow> (nat \<times> 'a) list \<Rightarrow> nat" where
  "Pop_deadline now q = (if q = [] then now + 10000 else fst (hd q))"

definition Pop_ready :: "nat \<Rightarrow> (nat \<times> 'a) list \<Rightarrow> bool" where
  "Pop_ready now q \<longleftrightarrow> q \<noteq> [] \<and> fst (hd q) \<le> now"

definition TimerQueue_Pop :: "nat \<Rightarrow> nat \<Rightarrow> (nat \<times> 'a) list \<Rightarrow> ('a \<times> (nat \<times> 'a) list) result option" where
  "TimerQueue_Pop deadline now q =
    (if Pop_ready now q \<or> deadline \<le> now
     then Some (case q of [] \<Rightarrow> Inl OutOfBounds | (_, v) # q \<Rightarrow> Inr (v, q))
     else None)"

lemma set_TimerQueue_Add: "fst ` set (TimerQueue_Add at v q) = insert at (fst ` set q)"
  by (induction at v q rule: TimerQueue_Add.induct) auto

lemma sorted_TimerQueue_Add: "sorted_wrt (\<lambda>a b. fst a < fst b) q \<Longrightarrow> sorted_wrt (\<lambda>a b. fst a < fst b) (TimerQueue_Add at v q)"
proof (induction at v q rule: TimerQueue_Add.induct)
  case (2 at v k x q)
  have "fst b \<in> insert at (fst ` set q)" if "b \<in> set (TimerQueue_Add at v q)" for b
    using that set_TimerQueue_Add [of at v q] by blast
  then show ?case using 2 by fastforce
qed simp

text \<open>A ready queue gives the earliest entry, which is due; a time that is taken keeps its first value.\<close>

lemma TimerQueue_Pop_earliest:
  assumes "sorted_wrt (\<lambda>a b. fst a < fst b) q" "Pop_ready now q"
  shows "\<exists>at v q'. q = (at, v) # q' \<and> TimerQueue_Pop deadline now q = Some (Inr (v, q')) \<and> at \<le> now \<and>
    (\<forall>b \<in> set q'. at < fst b) \<and> sorted_wrt (\<lambda>a b. fst a < fst b) q'"
  using assms by (cases q) (auto simp: TimerQueue_Pop_def Pop_ready_def)

lemma TimerQueue_Add_taken: "sorted_wrt (\<lambda>a b. fst a < fst b) q \<Longrightarrow> (at, x) \<in> set q \<Longrightarrow> TimerQueue_Add at v q = q"
proof (induction q)
  case (Cons e q)
  then show ?case by (cases e) fastforce
qed simp

lemma TimerQueue_Pop_empty: "TimerQueue_Pop (Pop_deadline now []) (now + 10000) [] = Some (Inl OutOfBounds)"
  by (simp add: TimerQueue_Pop_def Pop_deadline_def)

section \<open>Properties\<close>

text \<open>
  The semaphore serves in the order of arrival: however threads interleave, those that have acquired it are
  the first of those that called \<open>Acquire\<close>, in the same order, and the count never falls below zero.
\<close>

theorem Semaphore_in_order:
  assumes "Semaphore_step\<^sup>*\<^sup>* (Semaphore_init n) s" "0 \<le> n"
  shows "acquired s = take (executing_pos s) (arrived s) \<and> executing_pos s \<le> length (arrived s) \<and> 0 \<le> count s"
  using semaphore.reachable_keeps [OF assms(1) sem_inv_init [OF assms(2)]] by (simp add: sem_inv_def)

theorem Semaphore_in_order_witness:
  "acquired (Acquire_test 4 0 ((Semaphore_init 1)\<lparr>sem_threads := (\<lambda>_. Out)(4 := Enter Acquire), jobs_cnt := 1, arrived := [4]\<rparr>)) = [4]"
proof -
  let ?a = "(Semaphore_init 1)\<lparr>sem_threads := (\<lambda>_. Out)(4 := Enter Acquire)\<rparr>"
  let ?b = "Acquire_test 4 0 ((Semaphore_init 1)\<lparr>sem_threads := (\<lambda>_. Out)(4 := Enter Acquire), jobs_cnt := 1, arrived := [4]\<rparr>)"
  have a: "Semaphore_step (Semaphore_init 1) ?a" using sem_call [of "Semaphore_init 1" 4] by (simp add: Semaphore_init_def)
  have "Semaphore_step ?a ?b" using sem_Acquire [of ?a 4] by (simp add: Semaphore_init_def)
  with a have "Semaphore_step\<^sup>*\<^sup>* (Semaphore_init 1) ?b" by (rule converse_rtranclp_into_rtranclp [OF _ r_into_rtranclp])
  from Semaphore_in_order [OF this] show ?thesis by (simp add: Acquire_test_def Semaphore_init_def)
qed

text \<open>
  A wake-up can be lost: \<open>Acquire\<close> moves the line on without a notification, so the thread that is next may sleep
  on while the count is positive and nobody is awake.
\<close>

definition sem_at :: "int \<Rightarrow> nat \<Rightarrow> nat list \<Rightarrow> nat list \<Rightarrow> sem_op mon_pc \<Rightarrow> sem_op mon_pc \<Rightarrow> Semaphore" where
  "sem_at n pos arr acq p q =
    \<lparr>count = n, executing_pos = pos, jobs_cnt = length arr, sem_threads = (\<lambda>_. Out)(0 := p, 1 := q), arrived = arr, acquired = acq\<rparr>"

lemma sem_at_upd:
  "((\<lambda>_ :: nat. Out)(0 := p, 1 := q))(0 := p') = (\<lambda>_. Out)(0 := p', 1 := q)"
  "((\<lambda>_ :: nat. Out)(0 := p, Suc 0 := q))(0 := p') = (\<lambda>_. Out)(0 := p', Suc 0 := q)"
  by (auto simp: fun_eq_iff)

lemma sem_at_moves:
  "Semaphore_step (sem_at n pos arr acq Out q) (sem_at n pos arr acq (Enter Acquire) q)"
  "Semaphore_step (sem_at n pos arr acq p Out) (sem_at n pos arr acq p (Enter Acquire))"
  "n = 0 \<or> length arr \<noteq> pos \<Longrightarrow>
    Semaphore_step (sem_at n pos arr acq (Enter Acquire) q) (sem_at n pos (arr @ [0]) acq (Sleep (Waiting (length arr))) q)"
  "n = 0 \<or> length arr \<noteq> pos \<Longrightarrow>
    Semaphore_step (sem_at n pos arr acq p (Enter Acquire)) (sem_at n pos (arr @ [1]) acq p (Sleep (Waiting (length arr))))"
  "n = 0 \<or> k \<noteq> pos \<Longrightarrow> Semaphore_step (sem_at n pos arr acq p (Enter (Waiting k))) (sem_at n pos arr acq p (Sleep (Waiting k)))"
  "n \<noteq> 0 \<Longrightarrow> Semaphore_step (sem_at n pos arr acq (Enter (Waiting pos)) q) (sem_at (n - 1) (pos + 1) arr (acq @ [0]) Out q)"
  using sem_call [of "sem_at n pos arr acq Out q" 0] sem_call [of "sem_at n pos arr acq p Out" 1]
    sem_Acquire [of "sem_at n pos arr acq (Enter Acquire) q" 0] sem_Acquire [of "sem_at n pos arr acq p (Enter Acquire)" 1]
    sem_retest [of "sem_at n pos arr acq p (Enter (Waiting k))" 1 k] sem_retest [of "sem_at n pos arr acq (Enter (Waiting pos)) q" 0 pos]
  by (auto simp: sem_at_def Acquire_test_def sem_at_upd)

lemma sem_at_Release:
  "Semaphore_step (sem_at n pos arr acq p q)
    (sem_at (n + 1) pos arr acq (case p of Sleep w \<Rightarrow> Enter w | _ \<Rightarrow> p) (case q of Sleep w \<Rightarrow> Enter w | _ \<Rightarrow> q))"
proof -
  have "notify_all (\<lambda>_. True) ((\<lambda>_. Out)(0 := p, Suc 0 := q)) =
      (\<lambda>_. Out)(0 := (case p of Sleep w \<Rightarrow> Enter w | _ \<Rightarrow> p), Suc 0 := (case q of Sleep w \<Rightarrow> Enter w | _ \<Rightarrow> q))"
    by (auto simp: notify_all_def fun_eq_iff split: mon_pc.splits)
  then show ?thesis using sem_Release [of "sem_at n pos arr acq p q"] by (simp add: sem_at_def)
qed

lemma Semaphore_loses_wakeup:
  "Semaphore_step\<^sup>*\<^sup>* (Semaphore_init 0) (sem_at 1 1 [0, 1] [0] Out (Sleep (Waiting 1)))"
proof -
  have "Semaphore_init 0 = sem_at 0 0 [] [] Out Out" by (auto simp: Semaphore_init_def sem_at_def)
  moreover have "Semaphore_step (sem_at 0 0 [] [] Out Out) (sem_at 0 0 [] [] (Enter Acquire) Out)" by (rule sem_at_moves)
  moreover have "Semaphore_step (sem_at 0 0 [] [] (Enter Acquire) Out) (sem_at 0 0 [0] [] (Sleep (Waiting 0)) Out)"
    using sem_at_moves(3) [of 0 "[]" 0 "[]" Out] by simp
  moreover have "Semaphore_step (sem_at 0 0 [0] [] (Sleep (Waiting 0)) Out) (sem_at 0 0 [0] [] (Sleep (Waiting 0)) (Enter Acquire))"
    by (rule sem_at_moves)
  moreover have "Semaphore_step (sem_at 0 0 [0] [] (Sleep (Waiting 0)) (Enter Acquire)) (sem_at 0 0 [0, 1] [] (Sleep (Waiting 0)) (Sleep (Waiting 1)))"
    using sem_at_moves(4) [of 0 "[0]" 0 "[]" "Sleep (Waiting 0)"] by simp
  moreover have "Semaphore_step (sem_at 0 0 [0, 1] [] (Sleep (Waiting 0)) (Sleep (Waiting 1))) (sem_at 1 0 [0, 1] [] (Enter (Waiting 0)) (Enter (Waiting 1)))"
    using sem_at_Release [of 0 0 "[0, 1]" "[]" "Sleep (Waiting 0)" "Sleep (Waiting 1)"] by simp
  moreover have "Semaphore_step (sem_at 1 0 [0, 1] [] (Enter (Waiting 0)) (Enter (Waiting 1))) (sem_at 1 0 [0, 1] [] (Enter (Waiting 0)) (Sleep (Waiting 1)))"
    by (rule sem_at_moves) simp
  moreover have "Semaphore_step (sem_at 1 0 [0, 1] [] (Enter (Waiting 0)) (Sleep (Waiting 1))) (sem_at 2 0 [0, 1] [] (Enter (Waiting 0)) (Enter (Waiting 1)))"
    using sem_at_Release [of 1 0 "[0, 1]" "[]" "Enter (Waiting 0)" "Sleep (Waiting 1)"] by simp
  moreover have "Semaphore_step (sem_at 2 0 [0, 1] [] (Enter (Waiting 0)) (Enter (Waiting 1))) (sem_at 2 0 [0, 1] [] (Enter (Waiting 0)) (Sleep (Waiting 1)))"
    by (rule sem_at_moves) simp
  moreover have "Semaphore_step (sem_at 2 0 [0, 1] [] (Enter (Waiting 0)) (Sleep (Waiting 1))) (sem_at 1 1 [0, 1] [0] Out (Sleep (Waiting 1)))"
    using sem_at_moves(6) [of 2 0 "[0, 1]" "[]" "Sleep (Waiting 1)"] by simp
  ultimately show ?thesis by (metis (no_types) rtranclp.rtrancl_into_rtrancl rtranclp.rtrancl_refl)
qed



end
