(* ===== verification/Hazard_Stack.thy ===== *)
theory Hazard_Stack
  imports Interleaving
begin

text \<open>
  The lock-free stack with hazard pointers: \<open>hazard-ptr/hazard_ptr.h\<close>, \<open>hazard-ptr/hazard_ptr.cpp\<close> and
  \<open>lock-free-stack/stack.h\<close>.  Nodes and retired records live in explicit stores whose addresses are used
  again after a deletion, and an access to a deleted object is a \<open>fault\<close>.  Every access to an atomic
  variable is a step of its own, under a sequentially consistent memory; a weak compare-and-exchange may
  fail with the value it expected.  The theorems are that no interleaving accesses a deleted node
  and that the stack is linearizable.
\<close>

section \<open>Linked cells\<close>

type_synonym addr = nat
type_synonym ptr = "addr option"

fun path :: "(addr \<rightharpoonup> 'b \<times> ptr) \<Rightarrow> ptr \<Rightarrow> addr list \<Rightarrow> bool" where
  "path s p [] \<longleftrightarrow> p = None"
| "path s p (a # xs) \<longleftrightarrow> p = Some a \<and> (\<exists>v q. s a = Some (v, q) \<and> path s q xs)"

lemma path_None [simp]: "path s None xs \<longleftrightarrow> xs = []"
  by (cases xs) auto

lemma path_cong: "path s p xs \<Longrightarrow> (\<And>a. a \<in> set xs \<Longrightarrow> s' a = s a) \<Longrightarrow> path s' p xs"
  by (induction xs arbitrary: p) fastforce+

lemma path_upd: "path s p xs \<Longrightarrow> a \<notin> set xs \<Longrightarrow> path (s(a := c)) p xs"
  by (erule path_cong) auto

lemma path_Some:
  assumes "path s (Some a) xs"
  obtains v q ys where "xs = a # ys" "s a = Some (v, q)" "path s q ys"
  using assms by (cases xs) auto

definition cell_values :: "(addr \<rightharpoonup> 'b \<times> ptr) \<Rightarrow> addr list \<Rightarrow> 'b list" where
  "cell_values s xs = map (\<lambda>a. fst (the (s a))) xs"

lemma cell_values_cong: "(\<And>a. a \<in> set xs \<Longrightarrow> s' a = s a) \<Longrightarrow> cell_values s' xs = cell_values s xs"
  by (simp add: cell_values_def)

lemma cell_values_simps [simp]:
  "cell_values s [] = []" "cell_values s (a # xs) = fst (the (s a)) # cell_values s xs"
  by (simp_all add: cell_values_def)

section \<open>The memory\<close>

datatype 'a stack_op = Push_op 'a | Pop_op "'a option" | Clear_op

text \<open>
  \<open>node\<close> holds the nodes of the stack, \<open>rnode\<close> the records of \<open>Retire\<close>: the retired pointer, which its
  deleter deletes, and the next record.  \<open>threads\<close> has one entry for every \<open>ThreadState\<close>, the thread whose
  \<open>hazard_ptr\<close> it points to.  \<open>history\<close> is no variable of the program: it records the operations, latest
  first, at the step where they take effect.
\<close>

record 'a lf_mem =
  node :: "addr \<rightharpoonup> 'a \<times> ptr"
  head :: ptr
  rnode :: "addr \<rightharpoonup> addr \<times> ptr"
  free_list :: ptr
  approximate_free_list_size :: uint64
  hazard_ptr :: "nat \<Rightarrow> ptr"
  threads :: "nat list"
  threads_lock :: "nat option"
  scan_lock :: "nat option"
  history :: "(nat \<times> 'a stack_op) list"
  fault :: bool

definition kFreeListMaxSize :: uint64 where "kFreeListMaxSize = 15"

datatype 'a cont = After_Pop 'a | After_Clear ptr | After_Unregister

datatype 'a lf_pc =
    Idle
  | Push_load 'a
  | Push_new 'a ptr
  | Push_cas 'a addr ptr
  | Push_next 'a addr ptr
  | Acquire_load
  | Acquire_store ptr
  | Acquire_check ptr
  | Pop_next addr
  | Pop_cas addr ptr
  | Pop_value addr
  | Pop_release addr 'a
  | Pop_done "'a option"
  | Clear_load
  | Clear_cas ptr
  | Clear_walk ptr
  | Retire_load addr "'a cont"
  | Retire_new addr ptr "'a cont"
  | Retire_cas addr "'a cont"
  | Retire_count "'a cont"
  | Retire_test "'a cont"
  | Scan_reset "'a cont"
  | Scan_try_lock "'a cont"
  | Scan_exchange "'a cont"
  | Scan_lock_threads ptr "'a cont"
  | Scan_load "nat list" "addr list" ptr "'a cont"
  | Scan_walk "addr list" ptr "'a cont"
  | Scan_keep addr "addr list" ptr "'a cont"
  | Scan_cas addr "addr list" ptr "'a cont"
  | Failed

fun resume :: "'a cont \<Rightarrow> 'a lf_pc" where
  "resume (After_Pop v) = Pop_done (Some v)"
| "resume (After_Clear q) = Clear_walk q"
| "resume After_Unregister = Idle"

section \<open>Hazard pointers\<close>

text \<open>
  The steps of thread \<open>t\<close>.  A new object gets any address no live object has.
\<close>

inductive RegisterThread_step :: "nat \<Rightarrow> 'a lf_mem \<Rightarrow> 'a lf_pc \<Rightarrow> 'a lf_mem \<Rightarrow> 'a lf_pc \<Rightarrow> bool" for t where
  register: "threads_lock m = None \<Longrightarrow>
    RegisterThread_step t m Idle (m\<lparr>threads := t # threads m\<rparr>) Idle"

inductive UnregisterThread_step :: "nat \<Rightarrow> 'a lf_mem \<Rightarrow> 'a lf_pc \<Rightarrow> 'a lf_mem \<Rightarrow> 'a lf_pc \<Rightarrow> bool" for t where
  unregister: "threads_lock m = None \<Longrightarrow> remove1 t (threads m) \<noteq> [] \<Longrightarrow>
    UnregisterThread_step t m Idle (m\<lparr>threads := remove1 t (threads m)\<rparr>) Idle"
| unregister_last: "threads_lock m = None \<Longrightarrow> remove1 t (threads m) = [] \<Longrightarrow>
    UnregisterThread_step t m Idle (m\<lparr>threads := []\<rparr>) (Scan_reset After_Unregister)"

inductive Acquire_step :: "nat \<Rightarrow> 'a lf_mem \<Rightarrow> 'a lf_pc \<Rightarrow> 'a lf_mem \<Rightarrow> 'a lf_pc \<Rightarrow> bool" for t where
  acquire_load: "Acquire_step t m Acquire_load m (Acquire_store (head m))"
| acquire_store: "Acquire_step t m (Acquire_store p) (m\<lparr>hazard_ptr := (hazard_ptr m)(t := p)\<rparr>) (Acquire_check p)"
| acquire_again: "head m \<noteq> p \<Longrightarrow> Acquire_step t m (Acquire_check p) m (Acquire_store (head m))"
| acquire_node: "head m = Some a \<Longrightarrow> Acquire_step t m (Acquire_check (Some a)) m (Pop_next a)"
| acquire_null: "head m = None \<Longrightarrow>
    Acquire_step t m (Acquire_check None) (m\<lparr>history := (t, Pop_op None) # history m\<rparr>) (Pop_done None)"

definition Release :: "nat \<Rightarrow> 'a lf_mem \<Rightarrow> 'a lf_mem" where
  "Release t m = m\<lparr>hazard_ptr := (hazard_ptr m)(t := None)\<rparr>"

inductive ScanFreeList_step :: "nat \<Rightarrow> 'a lf_mem \<Rightarrow> 'a lf_pc \<Rightarrow> 'a lf_mem \<Rightarrow> 'a lf_pc \<Rightarrow> bool" for t where
  scan_reset: "ScanFreeList_step t m (Scan_reset k) (m\<lparr>approximate_free_list_size := 0\<rparr>) (Scan_try_lock k)"
| scan_busy: "ScanFreeList_step t m (Scan_try_lock k) m (resume k)"
| scan_locked: "scan_lock m = None \<Longrightarrow>
    ScanFreeList_step t m (Scan_try_lock k) (m\<lparr>scan_lock := Some t\<rparr>) (Scan_exchange k)"
| scan_exchange: "ScanFreeList_step t m (Scan_exchange k) (m\<lparr>free_list := None\<rparr>) (Scan_lock_threads (free_list m) k)"
| scan_threads: "threads_lock m = None \<Longrightarrow>
    ScanFreeList_step t m (Scan_lock_threads p k) (m\<lparr>threads_lock := Some t\<rparr>) (Scan_load (threads m) [] p k)"
| scan_load: "u \<in> set todo \<Longrightarrow> u \<in> set (threads m) \<Longrightarrow>
    ScanFreeList_step t m (Scan_load todo hazard p k) m
      (Scan_load (remove1 u todo)
        (case hazard_ptr m u of Some a \<Rightarrow> hazard @ [a] | None \<Rightarrow> hazard) p k)"
| scan_load_deleted: "u \<in> set todo \<Longrightarrow> u \<notin> set (threads m) \<Longrightarrow>
    ScanFreeList_step t m (Scan_load todo hazard p k) (m\<lparr>fault := True\<rparr>) Failed"
| scan_loaded: "ScanFreeList_step t m (Scan_load [] hazard p k) (m\<lparr>threads_lock := None\<rparr>)
      (Scan_walk (sort hazard) p k)"
| scan_end: "ScanFreeList_step t m (Scan_walk hazard None k) (m\<lparr>scan_lock := None\<rparr>) (resume k)"
| scan_delete: "rnode m r = Some (a, q) \<Longrightarrow> a \<notin> set hazard \<Longrightarrow> node m a \<noteq> None \<Longrightarrow>
    ScanFreeList_step t m (Scan_walk hazard (Some r) k)
      (m\<lparr>node := (node m)(a := None), rnode := (rnode m)(r := None)\<rparr>) (Scan_walk hazard q k)"
| scan_delete_twice: "rnode m r = Some (a, q) \<Longrightarrow> a \<notin> set hazard \<Longrightarrow> node m a = None \<Longrightarrow>
    ScanFreeList_step t m (Scan_walk hazard (Some r) k) (m\<lparr>fault := True\<rparr>) Failed"
| scan_keep: "rnode m r = Some (a, q) \<Longrightarrow> a \<in> set hazard \<Longrightarrow>
    ScanFreeList_step t m (Scan_walk hazard (Some r) k) m (Scan_keep r hazard q k)"
| scan_deleted: "rnode m r = None \<Longrightarrow>
    ScanFreeList_step t m (Scan_walk hazard (Some r) k) (m\<lparr>fault := True\<rparr>) Failed"
| scan_next: "rnode m r = Some (a, q') \<Longrightarrow>
    ScanFreeList_step t m (Scan_keep r hazard q k)
      (m\<lparr>rnode := (rnode m)(r \<mapsto> (a, free_list m))\<rparr>) (Scan_cas r hazard q k)"
| scan_next_deleted: "rnode m r = None \<Longrightarrow>
    ScanFreeList_step t m (Scan_keep r hazard q k) (m\<lparr>fault := True\<rparr>) Failed"
| scan_cas: "rnode m r = Some (a, free_list m) \<Longrightarrow>
    ScanFreeList_step t m (Scan_cas r hazard q k) (m\<lparr>free_list := Some r\<rparr>) (Scan_walk hazard q k)"
| scan_cas_failed: "rnode m r = Some (a, q') \<Longrightarrow>
    ScanFreeList_step t m (Scan_cas r hazard q k)
      (m\<lparr>rnode := (rnode m)(r \<mapsto> (a, free_list m))\<rparr>) (Scan_cas r hazard q k)"
| scan_cas_deleted: "rnode m r = None \<Longrightarrow>
    ScanFreeList_step t m (Scan_cas r hazard q k) (m\<lparr>fault := True\<rparr>) Failed"

inductive Retire_step :: "nat \<Rightarrow> 'a lf_mem \<Rightarrow> 'a lf_pc \<Rightarrow> 'a lf_mem \<Rightarrow> 'a lf_pc \<Rightarrow> bool" for t where
  retire_load: "Retire_step t m (Retire_load a k) m (Retire_new a (free_list m) k)"
| retire_new: "rnode m r = None \<Longrightarrow>
    Retire_step t m (Retire_new a q k) (m\<lparr>rnode := (rnode m)(r \<mapsto> (a, q))\<rparr>) (Retire_cas r k)"
| retire_cas: "rnode m r = Some (a, free_list m) \<Longrightarrow>
    Retire_step t m (Retire_cas r k) (m\<lparr>free_list := Some r\<rparr>) (Retire_count k)"
| retire_cas_failed: "rnode m r = Some (a, q) \<Longrightarrow>
    Retire_step t m (Retire_cas r k) (m\<lparr>rnode := (rnode m)(r \<mapsto> (a, free_list m))\<rparr>) (Retire_cas r k)"
| retire_cas_deleted: "rnode m r = None \<Longrightarrow>
    Retire_step t m (Retire_cas r k) (m\<lparr>fault := True\<rparr>) Failed"
| retire_count: "Retire_step t m (Retire_count k)
    (m\<lparr>approximate_free_list_size := approximate_free_list_size m + 1\<rparr>) (Retire_test k)"
| retire_scan: "approximate_free_list_size m > kFreeListMaxSize \<Longrightarrow>
    Retire_step t m (Retire_test k) m (Scan_reset k)"
| retire_no_scan: "approximate_free_list_size m \<le> kFreeListMaxSize \<Longrightarrow>
    Retire_step t m (Retire_test k) m (resume k)"

section \<open>The stack\<close>

inductive Push_step :: "nat \<Rightarrow> 'a lf_mem \<Rightarrow> 'a lf_pc \<Rightarrow> 'a lf_mem \<Rightarrow> 'a lf_pc \<Rightarrow> bool" for t where
  push_call: "Push_step t m Idle m (Push_load v)"
| push_load: "Push_step t m (Push_load v) m (Push_new v (head m))"
| push_new: "node m a = None \<Longrightarrow>
    Push_step t m (Push_new v p) (m\<lparr>node := (node m)(a \<mapsto> (v, p))\<rparr>) (Push_cas v a p)"
| push_cas: "Push_step t m (Push_cas v a (head m))
    (m\<lparr>head := Some a, history := (t, Push_op v) # history m\<rparr>) Idle"
| push_cas_failed: "Push_step t m (Push_cas v a p) m (Push_next v a (head m))"
| push_next: "node m a = Some (w, q) \<Longrightarrow>
    Push_step t m (Push_next v a p) (m\<lparr>node := (node m)(a \<mapsto> (w, p))\<rparr>) (Push_cas v a p)"
| push_next_deleted: "node m a = None \<Longrightarrow>
    Push_step t m (Push_next v a p) (m\<lparr>fault := True\<rparr>) Failed"

text \<open>\<open>Pop\<close> is called by registered threads only.\<close>

inductive Pop_step :: "nat \<Rightarrow> 'a lf_mem \<Rightarrow> 'a lf_pc \<Rightarrow> 'a lf_mem \<Rightarrow> 'a lf_pc \<Rightarrow> bool" for t where
  pop_call: "t \<in> set (threads m) \<Longrightarrow> Pop_step t m Idle m Acquire_load"
| pop_next: "node m a = Some (v, q) \<Longrightarrow> Pop_step t m (Pop_next a) m (Pop_cas a q)"
| pop_next_deleted: "node m a = None \<Longrightarrow> Pop_step t m (Pop_next a) (m\<lparr>fault := True\<rparr>) Failed"
| pop_cas: "head m = Some a \<Longrightarrow> Pop_step t m (Pop_cas a q)
    (m\<lparr>head := q, history := (t, Pop_op (map_option fst (node m a))) # history m\<rparr>) (Pop_value a)"
| pop_cas_failed: "Pop_step t m (Pop_cas a q) m Acquire_load"
| pop_value: "node m a = Some (v, q) \<Longrightarrow> Pop_step t m (Pop_value a) m (Pop_release a v)"
| pop_value_deleted: "node m a = None \<Longrightarrow> Pop_step t m (Pop_value a) (m\<lparr>fault := True\<rparr>) Failed"
| pop_release: "Pop_step t m (Pop_release a v) (Release t m) (Retire_load a (After_Pop v))"
| pop_return: "Pop_step t m (Pop_done res) m Idle"

inductive Clear_step :: "nat \<Rightarrow> 'a lf_mem \<Rightarrow> 'a lf_pc \<Rightarrow> 'a lf_mem \<Rightarrow> 'a lf_pc \<Rightarrow> bool" for t where
  clear_call: "Clear_step t m Idle m Clear_load"
| clear_load: "Clear_step t m Clear_load m (Clear_cas (head m))"
| clear_cas: "Clear_step t m (Clear_cas (head m))
    (m\<lparr>head := None, history := (t, Clear_op) # history m\<rparr>) (Clear_walk (head m))"
| clear_cas_failed: "Clear_step t m (Clear_cas p) m Clear_load"
| clear_end: "Clear_step t m (Clear_walk None) m Idle"
| clear_next: "node m a = Some (v, q) \<Longrightarrow>
    Clear_step t m (Clear_walk (Some a)) m (Retire_load a (After_Clear q))"
| clear_next_deleted: "node m a = None \<Longrightarrow>
    Clear_step t m (Clear_walk (Some a)) (m\<lparr>fault := True\<rparr>) Failed"

inductive lf_step :: "'a lf_mem \<times> (nat \<Rightarrow> 'a lf_pc) \<Rightarrow> 'a lf_mem \<times> (nat \<Rightarrow> 'a lf_pc) \<Rightarrow> bool" where
  Register: "RegisterThread_step t m (pcs t) m' p \<Longrightarrow> lf_step (m, pcs) (m', pcs(t := p))"
| Unregister: "UnregisterThread_step t m (pcs t) m' p \<Longrightarrow> lf_step (m, pcs) (m', pcs(t := p))"
| Acquire: "Acquire_step t m (pcs t) m' p \<Longrightarrow> lf_step (m, pcs) (m', pcs(t := p))"
| Scan: "ScanFreeList_step t m (pcs t) m' p \<Longrightarrow> lf_step (m, pcs) (m', pcs(t := p))"
| Retire: "Retire_step t m (pcs t) m' p \<Longrightarrow> lf_step (m, pcs) (m', pcs(t := p))"
| Push: "Push_step t m (pcs t) m' p \<Longrightarrow> lf_step (m, pcs) (m', pcs(t := p))"
| Pop: "Pop_step t m (pcs t) m' p \<Longrightarrow> lf_step (m, pcs) (m', pcs(t := p))"
| Clear: "Clear_step t m (pcs t) m' p \<Longrightarrow> lf_step (m, pcs) (m', pcs(t := p))"

section \<open>Where a node is\<close>

text \<open>
  A node belongs to the thread that pushes it (\<open>Private\<close>), to the stack, to the thread that removed it, or
  to its retired record; a record to the thread that retires the node, to the free list, or to the
  thread that scans.
\<close>

datatype place = Nowhere | Private nat | Stacked | Taken nat | Retired addr
datatype rplace = RNowhere | RPrivate nat | RListed | RScan nat

fun shared :: "place \<Rightarrow> bool" where
  "shared Stacked = True" | "shared (Taken t) = True" | "shared (Retired r) = True"
| "shared Nowhere = False" | "shared (Private t) = False"

fun protects :: "'a lf_pc \<Rightarrow> addr option" where
  "protects (Pop_next a) = Some a"
| "protects (Pop_cas a q) = Some a"
| "protects _ = None"

text \<open>The scan has yet to read the hazard pointer of thread \<open>t\<close>, or has found \<open>a\<close> there.\<close>

fun seen :: "'a lf_pc \<Rightarrow> nat \<Rightarrow> addr \<Rightarrow> bool" where
  "seen (Scan_load todo hazard p k) t a \<longleftrightarrow> t \<in> set todo \<or> a \<in> set hazard"
| "seen (Scan_walk hazard p k) t a \<longleftrightarrow> a \<in> set hazard"
| "seen (Scan_keep r hazard p k) t a \<longleftrightarrow> a \<in> set hazard"
| "seen (Scan_cas r hazard p k) t a \<longleftrightarrow> a \<in> set hazard"
| "seen _ t a \<longleftrightarrow> True"

text \<open>The cells from \<open>p\<close> on, all of them at \<open>w\<close>.\<close>

definition cells_at :: "(addr \<Rightarrow> 'w) \<Rightarrow> 'w \<Rightarrow> (addr \<rightharpoonup> 'b \<times> ptr) \<Rightarrow> ptr \<Rightarrow> addr list \<Rightarrow> bool" where
  "cells_at place w s p xs \<longleftrightarrow> path s p xs \<and> distinct xs \<and> (\<forall>a \<in> set xs. place a = w)"

lemma cells_at_cong:
  assumes "cells_at pl w s p xs" "\<And>a. pl a = w \<Longrightarrow> pl' a = w \<and> s' a = s a"
  shows "cells_at pl' w s' p xs"
  using assms path_cong [of s p xs s'] by (auto simp: cells_at_def)

lemma cells_at_None [simp]: "cells_at pl w s None xs \<longleftrightarrow> xs = []"
  by (auto simp: cells_at_def)

lemma cells_at_Some:
  assumes "cells_at pl w s (Some a) xs"
  obtains v q ys where "xs = a # ys" "s a = Some (v, q)" "pl a = w" "cells_at pl w s q ys" "a \<notin> set ys"
  using assms by (auto simp: cells_at_def elim!: path_Some)

fun cont_ok :: "(addr \<Rightarrow> place) \<Rightarrow> 'a lf_mem \<Rightarrow> nat \<Rightarrow> addr option \<Rightarrow> 'a cont \<Rightarrow> bool" where
  "cont_ok pl m t x (After_Pop v) \<longleftrightarrow> map_of (history m) t = Some (Pop_op (Some v))"
| "cont_ok pl m t x (After_Clear q) \<longleftrightarrow>
    (\<exists>xs. cells_at pl (Taken t) (node m) q xs \<and> x \<notin> Some ` set xs)"
| "cont_ok pl m t x After_Unregister \<longleftrightarrow> True"

fun pc_ok :: "(addr \<Rightarrow> place) \<Rightarrow> (addr \<Rightarrow> rplace) \<Rightarrow> 'a lf_mem \<Rightarrow> nat \<Rightarrow> 'a lf_pc \<Rightarrow> bool" where
  "pc_ok pl rp m t (Push_cas v a p) \<longleftrightarrow> pl a = Private t \<and> node m a = Some (v, p)"
| "pc_ok pl rp m t (Push_next v a p) \<longleftrightarrow> pl a = Private t \<and> (\<exists>q. node m a = Some (v, q))"
| "pc_ok pl rp m t Acquire_load \<longleftrightarrow> t \<in> set (threads m)"
| "pc_ok pl rp m t (Acquire_store p) \<longleftrightarrow> t \<in> set (threads m)"
| "pc_ok pl rp m t (Acquire_check p) \<longleftrightarrow> t \<in> set (threads m) \<and> hazard_ptr m t = p"
| "pc_ok pl rp m t (Pop_next a) \<longleftrightarrow> t \<in> set (threads m) \<and> hazard_ptr m t = Some a \<and> shared (pl a)"
| "pc_ok pl rp m t (Pop_cas a q) \<longleftrightarrow> t \<in> set (threads m) \<and> hazard_ptr m t = Some a \<and> shared (pl a) \<and>
     (\<exists>v. node m a = Some (v, q))"
| "pc_ok pl rp m t (Pop_value a) \<longleftrightarrow> pl a = Taken t \<and>
     (\<exists>v q. node m a = Some (v, q) \<and> map_of (history m) t = Some (Pop_op (Some v)))"
| "pc_ok pl rp m t (Pop_release a v) \<longleftrightarrow> pl a = Taken t \<and> map_of (history m) t = Some (Pop_op (Some v))"
| "pc_ok pl rp m t (Pop_done res) \<longleftrightarrow> map_of (history m) t = Some (Pop_op res)"
| "pc_ok pl rp m t (Clear_walk p) \<longleftrightarrow> cont_ok pl m t None (After_Clear p)"
| "pc_ok pl rp m t (Retire_load a k) \<longleftrightarrow> pl a = Taken t \<and> cont_ok pl m t (Some a) k"
| "pc_ok pl rp m t (Retire_new a q k) \<longleftrightarrow> pl a = Taken t \<and> cont_ok pl m t (Some a) k"
| "pc_ok pl rp m t (Retire_cas r k) \<longleftrightarrow> rp r = RPrivate t \<and> cont_ok pl m t None k"
| "pc_ok pl rp m t (Retire_count k) \<longleftrightarrow> cont_ok pl m t None k"
| "pc_ok pl rp m t (Retire_test k) \<longleftrightarrow> cont_ok pl m t None k"
| "pc_ok pl rp m t (Scan_reset k) \<longleftrightarrow> cont_ok pl m t None k"
| "pc_ok pl rp m t (Scan_try_lock k) \<longleftrightarrow> cont_ok pl m t None k"
| "pc_ok pl rp m t (Scan_exchange k) \<longleftrightarrow> cont_ok pl m t None k"
| "pc_ok pl rp m t (Scan_lock_threads p k) \<longleftrightarrow> cont_ok pl m t None k \<and>
     (\<exists>xs. cells_at rp (RScan t) (rnode m) p xs)"
| "pc_ok pl rp m t (Scan_load todo hazard p k) \<longleftrightarrow> cont_ok pl m t None k \<and>
     threads_lock m = Some t \<and> set todo \<subseteq> set (threads m) \<and>
     (\<exists>xs. cells_at rp (RScan t) (rnode m) p xs)"
| "pc_ok pl rp m t (Scan_walk hazard p k) \<longleftrightarrow> cont_ok pl m t None k \<and>
     (\<exists>xs. cells_at rp (RScan t) (rnode m) p xs)"
| "pc_ok pl rp m t (Scan_keep r hazard p k) \<longleftrightarrow> cont_ok pl m t None k \<and> rp r = RScan t \<and>
     (\<exists>xs. cells_at rp (RScan t) (rnode m) p xs \<and> r \<notin> set xs)"
| "pc_ok pl rp m t (Scan_cas r hazard p k) \<longleftrightarrow> cont_ok pl m t None k \<and> rp r = RScan t \<and>
     (\<exists>xs. cells_at rp (RScan t) (rnode m) p xs \<and> r \<notin> set xs)"
| "pc_ok pl rp m t Failed \<longleftrightarrow> False"
| "pc_ok pl rp m t _ \<longleftrightarrow> True"

section \<open>The invariant\<close>

fun stack_run :: "(nat \<times> 'a stack_op) list \<Rightarrow> 'a list option" where
  "stack_run [] = Some []"
| "stack_run ((t, Push_op v) # h) = map_option (Cons v) (stack_run h)"
| "stack_run ((t, Pop_op None) # h) = (if stack_run h = Some [] then Some [] else None)"
| "stack_run ((t, Pop_op (Some v)) # h) =
    (case stack_run h of Some (w # ws) \<Rightarrow> if w = v then Some ws else None | _ \<Rightarrow> None)"
| "stack_run ((t, Clear_op) # h) = map_option (\<lambda>_. []) (stack_run h)"

definition stack_ok :: "(addr \<Rightarrow> place) \<Rightarrow> 'a lf_mem \<Rightarrow> bool" where
  "stack_ok pl m \<longleftrightarrow> (\<exists>xs. cells_at pl Stacked (node m) (head m) xs \<and>
     stack_run (history m) = Some (cell_values (node m) xs))"

definition mem_ok :: "(addr \<Rightarrow> place) \<Rightarrow> (addr \<Rightarrow> rplace) \<Rightarrow> 'a lf_mem \<Rightarrow> bool" where
  "mem_ok pl rp m \<longleftrightarrow>
    \<not> fault m \<and>
    (\<forall>a. node m a = None \<longleftrightarrow> pl a = Nowhere) \<and> (\<forall>r. rnode m r = None \<longleftrightarrow> rp r = RNowhere) \<and>
    (\<forall>r a q. rnode m r = Some (a, q) \<longrightarrow> pl a = Retired r) \<and>
    stack_ok pl m \<and> (\<exists>xs. cells_at rp RListed (rnode m) (free_list m) xs)"

definition hazards_ok :: "(addr \<Rightarrow> rplace) \<Rightarrow> 'a lf_mem \<Rightarrow> (nat \<Rightarrow> 'a lf_pc) \<Rightarrow> bool" where
  "hazards_ok rp m pcs \<longleftrightarrow>
    (\<forall>t u a r q. protects (pcs t) = Some a \<longrightarrow> rp r = RScan u \<longrightarrow> rnode m r = Some (a, q) \<longrightarrow> seen (pcs u) t a)"

definition lf_inv :: "(addr \<Rightarrow> place) \<Rightarrow> (addr \<Rightarrow> rplace) \<Rightarrow> 'a lf_mem \<times> (nat \<Rightarrow> 'a lf_pc) \<Rightarrow> bool" where
  "lf_inv pl rp s \<longleftrightarrow>
    mem_ok pl rp (fst s) \<and> (\<forall>t. pc_ok pl rp (fst s) t (snd s t)) \<and> hazards_ok rp (fst s) (snd s)"

text \<open>What a step of one thread leaves to thread \<open>u\<close>.\<close>

definition leaves ::
  "nat \<Rightarrow> (addr \<Rightarrow> place) \<Rightarrow> (addr \<Rightarrow> rplace) \<Rightarrow> 'a lf_mem \<Rightarrow>
   (addr \<Rightarrow> place) \<Rightarrow> (addr \<Rightarrow> rplace) \<Rightarrow> 'a lf_mem \<Rightarrow> bool" where
  "leaves u pl rp m pl' rp' m' \<longleftrightarrow>
    (\<forall>a. pl a = Private u \<or> pl a = Taken u \<longrightarrow> pl' a = pl a \<and> node m' a = node m a) \<and>
    (\<forall>r. rp r = RPrivate u \<or> rp r = RScan u \<longrightarrow> rp' r = rp r \<and> rnode m' r = rnode m r) \<and>
    hazard_ptr m' u = hazard_ptr m u \<and>
    (u \<in> set (threads m) \<longrightarrow> u \<in> set (threads m')) \<and>
    (threads_lock m = Some u \<longrightarrow> threads_lock m' = Some u \<and> threads m' = threads m) \<and>
    map_of (history m') u = map_of (history m) u"

lemma cont_ok_stable:
  assumes "cont_ok pl m u x k" "leaves u pl rp m pl' rp' m'"
  shows "cont_ok pl' m' u x k"
proof -
  have "cells_at pl' (Taken u) (node m') q xs" if "cells_at pl (Taken u) (node m) q xs" for q xs
    using that by (rule cells_at_cong) (use assms(2) in \<open>auto simp: leaves_def\<close>)
  then show ?thesis using assms by (cases k) (auto simp: leaves_def)
qed

lemma pc_ok_stable:
  assumes "pc_ok pl rp m u p" "leaves u pl rp m pl' rp' m'"
    and protected: "\<And>a. protects p = Some a \<Longrightarrow> shared (pl a) \<Longrightarrow> shared (pl' a) \<and> node m' a = node m a"
  shows "pc_ok pl' rp' m' u p"
proof -
  have c: "cont_ok pl' m' u x k" if "cont_ok pl m u x k" for x k
    using cont_ok_stable [OF that assms(2)] .
  have s: "cells_at rp' (RScan u) (rnode m') q xs" if "cells_at rp (RScan u) (rnode m) q xs" for q xs
    using that by (rule cells_at_cong) (use assms(2) in \<open>auto simp: leaves_def\<close>)
  note l = assms(2) [unfolded leaves_def]
  show ?thesis
  proof (cases p)
    case (Pop_next a)
    then show ?thesis using assms(1) protected [of a] l by auto
  next
    case (Pop_cas a q)
    then show ?thesis using assms(1) protected [of a] l by auto
  next
    case (Clear_walk q)
    then show ?thesis using assms(1) c [of None "After_Clear q"] by (simp del: cont_ok.simps)
  qed (use assms(1) c l in \<open>auto simp del: cont_ok.simps intro: s\<close>)
qed

lemma lf_invD:
  assumes "lf_inv pl rp (m, pcs)"
  shows "mem_ok pl rp m" "pc_ok pl rp m t (pcs t)" "hazards_ok rp m pcs"
  using assms by (auto simp: lf_inv_def)

lemma hazards_ok_upd:
  assumes "hazards_ok rp m pcs"
    and scanned: "\<And>r u a q. rp' r = RScan u \<Longrightarrow> rnode m' r = Some (a, q) \<Longrightarrow>
      rp r = RScan u \<and> (\<exists>q. rnode m r = Some (a, q)) \<or> u = t \<and> (\<forall>v. seen p' v a)"
    and protected: "\<And>r u a q. protects p' = Some a \<Longrightarrow> rnode m' r = Some (a, q) \<Longrightarrow> protects (pcs t) = Some a"
    and sees: "\<And>u a. protects ((pcs(t := p')) u) = Some a \<Longrightarrow> seen (pcs t) u a \<Longrightarrow> seen p' u a"
  shows "hazards_ok rp' m' (pcs(t := p'))"
  unfolding hazards_ok_def
proof (intro allI impI)
  fix v u a r q
  assume pr: "protects ((pcs(t := p')) v) = Some a" and rp': "rp' r = RScan u" and r: "rnode m' r = Some (a, q)"
  show "seen ((pcs(t := p')) u) v a"
    using scanned [OF rp' r]
  proof
    assume old: "rp r = RScan u \<and> (\<exists>q. rnode m r = Some (a, q))"
    have "protects (pcs v) = Some a"
      using pr protected [OF _ r] by (cases "v = t") auto
    then have "seen (pcs u) v a" using old assms(1) unfolding hazards_ok_def by blast
    then show ?thesis using sees [OF pr] by (cases "u = t") auto
  qed simp
qed

lemma lf_inv_upd:
  assumes inv: "lf_inv pl rp (m, pcs)"
    and mem: "mem_ok pl' rp' m'"
    and self: "pc_ok pl' rp' m' t p'"
    and hazards: "hazards_ok rp' m' (pcs(t := p'))"
    and others: "\<And>u. u \<noteq> t \<Longrightarrow> leaves u pl rp m pl' rp' m'"
    and kept: "\<And>u a. protects (pcs u) = Some a \<Longrightarrow> shared (pl a) \<Longrightarrow> shared (pl' a) \<and> node m' a = node m a"
  shows "lf_inv pl' rp' (m', pcs(t := p'))"
proof -
  have "pc_ok pl' rp' m' u (pcs u)" if "u \<noteq> t" for u
    using lf_invD(2) [OF inv] others [OF that] kept by (rule pc_ok_stable)
  then show ?thesis using mem self hazards by (simp add: lf_inv_def)
qed

lemma seen_Pop [simp]: "protects p \<noteq> None \<Longrightarrow> seen p u a"
  by (cases p) auto

text \<open>A step that leaves the stack, the nodes and the records alone.\<close>

lemma lf_inv_quiet:
  assumes inv: "lf_inv pl rp (m, pcs)"
    and frame: "node m' = node m" "rnode m' = rnode m" "head m' = head m" "free_list m' = free_list m"
      "history m' = history m" "fault m' = fault m"
    and self: "pc_ok pl rp m' t p'"
    and protected: "\<And>a. protects p' = Some a \<Longrightarrow> protects (pcs t) = Some a \<or> pl a = Stacked"
    and sees: "\<And>u a. protects (pcs u) = Some a \<Longrightarrow> pc_ok pl rp m u (pcs u) \<Longrightarrow> seen (pcs t) u a \<Longrightarrow> seen p' u a"
    and others: "\<And>u. u \<noteq> t \<Longrightarrow> hazard_ptr m' u = hazard_ptr m u \<and> (u \<in> set (threads m) \<longrightarrow> u \<in> set (threads m')) \<and>
      (threads_lock m = Some u \<longrightarrow> threads_lock m' = Some u \<and> threads m' = threads m)"
  shows "lf_inv pl rp (m', pcs(t := p'))"
proof (rule lf_inv_upd [OF inv _ self])
  show "mem_ok pl rp m'" using lf_invD(1) [OF inv] frame by (simp add: mem_ok_def stack_ok_def)
  have ret: "pl a = Retired r" if "rnode m r = Some (a, q)" for r a q
    using lf_invD(1) [OF inv] that by (auto simp: mem_ok_def)
  show "hazards_ok rp m' (pcs(t := p'))"
  proof (rule hazards_ok_upd [OF lf_invD(3) [OF inv]])
    show "protects (pcs t) = Some a" if "protects p' = Some a" "rnode m' r = Some (a, q)" for r a q
      using protected [OF that(1)] ret [of r a q] that(2) frame(2) by auto
    show "seen p' u a" if "protects ((pcs(t := p')) u) = Some a" "seen (pcs t) u a" for u a
      using that sees [OF _ lf_invD(2) [OF inv], of u a] by (cases "u = t") auto
  qed (simp add: frame)
qed (use frame others in \<open>auto simp: leaves_def\<close>)


lemma RegisterThread_keeps:
  assumes inv: "lf_inv pl rp (m, pcs)" and st: "RegisterThread_step t m (pcs t) m' p'"
  shows "lf_inv pl rp (m', pcs(t := p'))"
  using st
proof (cases rule: RegisterThread_step.cases)
  case register
  show ?thesis by (rule lf_inv_quiet [OF inv]) (use register in auto)
qed

lemma UnregisterThread_keeps:
  assumes inv: "lf_inv pl rp (m, pcs)" and st: "UnregisterThread_step t m (pcs t) m' p'"
  shows "lf_inv pl rp (m', pcs(t := p'))"
proof -
  have sub: "u \<in> set (remove1 t (threads m))" if "u \<in> set (threads m)" "u \<noteq> t" for u
    using that by (simp add: in_set_remove1)
  from st show ?thesis
  proof (cases rule: UnregisterThread_step.cases)
    case unregister
    show ?thesis by (rule lf_inv_quiet [OF inv]) (use unregister sub in auto)
  next
    case unregister_last
    then show ?thesis by (intro lf_inv_quiet [OF inv]) (use sub in auto)
  qed
qed

lemma stack_okE:
  assumes "mem_ok pl rp m"
  obtains xs where "cells_at pl Stacked (node m) (head m) xs" "stack_run (history m) = Some (cell_values (node m) xs)"
  using assms by (auto simp: mem_ok_def stack_ok_def)

lemma head_stacked: "mem_ok pl rp m \<Longrightarrow> head m = Some a \<Longrightarrow> pl a = Stacked"
  by (metis stack_okE cells_at_Some)

lemma Acquire_keeps:
  assumes inv: "lf_inv pl rp (m, pcs)" and st: "Acquire_step t m (pcs t) m' p'"
  shows "lf_inv pl rp (m', pcs(t := p'))"
proof -
  have ok: "pc_ok pl rp m t (pcs t)" and mem: "mem_ok pl rp m" using lf_invD [OF inv] by auto
  from st show ?thesis
  proof (cases rule: Acquire_step.cases)
    case acquire_load
    show ?thesis by (rule lf_inv_quiet [OF inv]) (use acquire_load ok in auto)
  next
    case (acquire_store p)
    show ?thesis by (rule lf_inv_quiet [OF inv]) (use acquire_store ok in auto)
  next
    case (acquire_again p)
    show ?thesis by (rule lf_inv_quiet [OF inv]) (use acquire_again ok in auto)
  next
    case (acquire_node a)
    show ?thesis by (rule lf_inv_quiet [OF inv]) (use acquire_node ok head_stacked [OF mem] in auto)
  next
    case acquire_null
    have "stack_run (history m) = Some []"
      using mem acquire_null by (auto elim: stack_okE)
    then have mem': "mem_ok pl rp m'" using mem acquire_null by (auto simp: mem_ok_def stack_ok_def)
    have hz: "hazards_ok rp m' (pcs(t := p'))"
      by (rule hazards_ok_upd [OF lf_invD(3) [OF inv]]) (use acquire_null in auto)
    show ?thesis
      by (rule lf_inv_upd [OF inv mem' _ hz]) (use acquire_null in \<open>auto simp: leaves_def\<close>)
  qed
qed

lemma stack_ok_cong:
  assumes "stack_ok pl m" "\<And>a. pl a = Stacked \<Longrightarrow> pl' a = Stacked \<and> node m' a = node m a"
    "head m' = head m" "history m' = history m"
  shows "stack_ok pl' m'"
proof -
  obtain xs where xs: "cells_at pl Stacked (node m) (head m) xs" "stack_run (history m) = Some (cell_values (node m) xs)"
    using assms(1) by (auto simp: stack_ok_def)
  have "cell_values (node m') xs = cell_values (node m) xs"
    by (rule cell_values_cong) (use xs(1) assms(2) in \<open>auto simp: cells_at_def\<close>)
  moreover have "cells_at pl' Stacked (node m') (head m) xs"
    using xs(1) assms(2) by (rule cells_at_cong)
  ultimately show ?thesis using xs(2) assms(3,4) by (auto simp: stack_ok_def)
qed

lemma listed_cong:
  assumes "\<exists>xs. cells_at rp RListed (rnode m) p xs" "\<And>a. rp a = RListed \<Longrightarrow> rp' a = RListed \<and> rnode m' a = rnode m a"
  shows "\<exists>xs. cells_at rp' RListed (rnode m') p xs"
  using assms cells_at_cong by metis

lemma mem_okD:
  assumes "mem_ok pl rp m"
  shows "\<not> fault m" "node m a = None \<longleftrightarrow> pl a = Nowhere" "rnode m r = None \<longleftrightarrow> rp r = RNowhere"
    "rnode m r = Some (a, q) \<Longrightarrow> pl a = Retired r" "stack_ok pl m"
    "\<exists>xs. cells_at rp RListed (rnode m) (free_list m) xs"
  using assms by (auto simp: mem_ok_def)

lemma Push_keeps:
  assumes inv: "lf_inv pl rp (m, pcs)" and st: "Push_step t m (pcs t) m' p'"
  shows "\<exists>pl'. lf_inv pl' rp (m', pcs(t := p'))"
proof -
  have ok: "pc_ok pl rp m t (pcs t)" and mem: "mem_ok pl rp m" using lf_invD [OF inv] by auto
  note mo = mem_okD [OF mem]
  have hz: "hazards_ok rp m' (pcs(t := p'))" if "rnode m' = rnode m" "protects p' = None" "\<And>u a. seen p' u a"
    by (rule hazards_ok_upd [OF lf_invD(3) [OF inv]]) (use that in auto)
  from st show ?thesis
  proof (cases rule: Push_step.cases)
    case (push_call v)
    have "lf_inv pl rp (m', pcs(t := p'))" by (rule lf_inv_quiet [OF inv]) (use push_call in auto)
    then show ?thesis by blast
  next
    case (push_load v)
    have "lf_inv pl rp (m', pcs(t := p'))" by (rule lf_inv_quiet [OF inv]) (use push_load in auto)
    then show ?thesis by blast
  next
    case (push_new a v p)
    have a: "pl a = Nowhere" using push_new mo(2) by simp
    have "stack_ok (pl(a := Private t)) m'"
      by (rule stack_ok_cong [OF mo(5)]) (use push_new a in auto)
    then have mem': "mem_ok (pl(a := Private t)) rp m'"
      using mo push_new a by (auto simp: mem_ok_def)
    have "lf_inv (pl(a := Private t)) rp (m', pcs(t := p'))"
      by (rule lf_inv_upd [OF inv mem' _ hz]) (use push_new a in \<open>auto simp: leaves_def\<close>)
    then show ?thesis by blast
  next
    case (push_cas v a)
    have a: "pl a = Private t" "node m a = Some (v, head m)" using ok push_cas by auto
    obtain xs where xs: "cells_at pl Stacked (node m) (head m) xs"
      "stack_run (history m) = Some (cell_values (node m) xs)" by (rule stack_okE [OF mem])
    have "cells_at (pl(a := Stacked)) Stacked (node m') (Some a) (a # xs)"
      using xs(1) a push_cas by (auto simp: cells_at_def)
    moreover have "stack_run (history m') = Some (cell_values (node m') (a # xs))"
      using push_cas xs(2) a by simp
    ultimately have "stack_ok (pl(a := Stacked)) m'" using push_cas by (auto simp: stack_ok_def)
    then have mem': "mem_ok (pl(a := Stacked)) rp m'"
      using mo push_cas a by (auto simp: mem_ok_def)
    have "lf_inv (pl(a := Stacked)) rp (m', pcs(t := p'))"
      by (rule lf_inv_upd [OF inv mem' _ hz]) (use push_cas a in \<open>auto simp: leaves_def\<close>)
    then show ?thesis by blast
  next
    case (push_cas_failed v a p)
    have "lf_inv pl rp (m', pcs(t := p'))" by (rule lf_inv_quiet [OF inv]) (use push_cas_failed ok in auto)
    then show ?thesis by blast
  next
    case (push_next a w q v p)
    have a: "pl a = Private t" "w = v" using ok push_next by auto
    have "stack_ok pl m'" by (rule stack_ok_cong [OF mo(5)]) (use push_next a in auto)
    then have mem': "mem_ok pl rp m'" using mo push_next a by (auto simp: mem_ok_def)
    have "lf_inv pl rp (m', pcs(t := p'))"
      by (rule lf_inv_upd [OF inv mem' _ hz]) (use push_next a in \<open>auto simp: leaves_def\<close>)
    then show ?thesis by blast
  next
    case (push_next_deleted a v p)
    then show ?thesis using ok by simp
  qed
qed

lemma Pop_keeps:
  assumes inv: "lf_inv pl rp (m, pcs)" and st: "Pop_step t m (pcs t) m' p'"
  shows "\<exists>pl'. lf_inv pl' rp (m', pcs(t := p'))"
proof -
  have ok: "pc_ok pl rp m t (pcs t)" and mem: "mem_ok pl rp m" using lf_invD [OF inv] by auto
  note mo = mem_okD [OF mem]
  have hz: "hazards_ok rp m' (pcs(t := p'))" if "rnode m' = rnode m" "protects p' = None" "\<And>u a. seen p' u a"
    by (rule hazards_ok_upd [OF lf_invD(3) [OF inv]]) (use that in auto)
  have quiet: "\<exists>pl'. lf_inv pl' rp (m', pcs(t := p'))" if "lf_inv pl rp (m', pcs(t := p'))" using that by blast
  from st show ?thesis
  proof (cases rule: Pop_step.cases)
    case pop_call
    show ?thesis by (rule quiet, rule lf_inv_quiet [OF inv]) (use pop_call in auto)
  next
    case (pop_next a v q)
    show ?thesis by (rule quiet, rule lf_inv_quiet [OF inv]) (use pop_next ok in auto)
  next
    case (pop_next_deleted a)
    then show ?thesis using ok mo(2) [of a] by auto
  next
    case (pop_cas a q)
    obtain v where a: "node m a = Some (v, q)" using ok pop_cas by auto
    obtain xs where xs: "cells_at pl Stacked (node m) (head m) xs"
      "stack_run (history m) = Some (cell_values (node m) xs)" by (rule stack_okE [OF mem])
    obtain ys where ys: "xs = a # ys" "pl a = Stacked" "cells_at pl Stacked (node m) q ys" "a \<notin> set ys"
      using xs(1) a unfolding pop_cas(4) by (auto elim: cells_at_Some)
    have "cells_at (pl(a := Taken t)) Stacked (node m') q ys"
      using ys(3,4) pop_cas by (auto simp: cells_at_def)
    moreover have "stack_run (history m') = Some (cell_values (node m') ys)"
      using pop_cas xs(2) a ys(1) by simp
    ultimately have "stack_ok (pl(a := Taken t)) m'" using pop_cas by (auto simp: stack_ok_def)
    then have mem': "mem_ok (pl(a := Taken t)) rp m'"
      using mo pop_cas ys(2) by (auto simp: mem_ok_def)
    have "lf_inv (pl(a := Taken t)) rp (m', pcs(t := p'))"
      by (rule lf_inv_upd [OF inv mem' _ hz]) (use pop_cas a ys(2) in \<open>auto simp: leaves_def\<close>)
    then show ?thesis by blast
  next
    case (pop_cas_failed a q)
    show ?thesis by (rule quiet, rule lf_inv_quiet [OF inv]) (use pop_cas_failed ok in auto)
  next
    case (pop_value a v q)
    show ?thesis by (rule quiet, rule lf_inv_quiet [OF inv]) (use pop_value ok in auto)
  next
    case (pop_value_deleted a)
    then show ?thesis using ok by simp
  next
    case (pop_release a v)
    show ?thesis by (rule quiet, rule lf_inv_quiet [OF inv]) (use pop_release ok in \<open>auto simp: Release_def\<close>)
  next
    case (pop_return res)
    show ?thesis by (rule quiet, rule lf_inv_quiet [OF inv]) (use pop_return in auto)
  qed
qed

lemma Clear_keeps:
  assumes inv: "lf_inv pl rp (m, pcs)" and st: "Clear_step t m (pcs t) m' p'"
  shows "\<exists>pl'. lf_inv pl' rp (m', pcs(t := p'))"
proof -
  have ok: "pc_ok pl rp m t (pcs t)" and mem: "mem_ok pl rp m" using lf_invD [OF inv] by auto
  note mo = mem_okD [OF mem]
  have hz: "hazards_ok rp m' (pcs(t := p'))" if "rnode m' = rnode m" "protects p' = None" "\<And>u a. seen p' u a"
    by (rule hazards_ok_upd [OF lf_invD(3) [OF inv]]) (use that in auto)
  have quiet: "\<exists>pl'. lf_inv pl' rp (m', pcs(t := p'))" if "lf_inv pl rp (m', pcs(t := p'))" using that by blast
  from st show ?thesis
  proof (cases rule: Clear_step.cases)
    case clear_call
    show ?thesis by (rule quiet, rule lf_inv_quiet [OF inv]) (use clear_call in auto)
  next
    case clear_load
    show ?thesis by (rule quiet, rule lf_inv_quiet [OF inv]) (use clear_load in auto)
  next
    case clear_cas
    obtain xs where xs: "cells_at pl Stacked (node m) (head m) xs"
      "stack_run (history m) = Some (cell_values (node m) xs)" by (rule stack_okE [OF mem])
    define pl' where "pl' = (\<lambda>a. if a \<in> set xs then Taken t else pl a)"
    have st: "pl a = Stacked" if "a \<in> set xs" for a using xs(1) that by (auto simp: cells_at_def)
    have "stack_ok pl' m'" using clear_cas xs(2) by (auto simp: stack_ok_def)
    moreover have "pl' a = Retired r" if "rnode m r = Some (a, q)" for a r q
      using mo(4) [OF that] st [of a] by (auto simp: pl'_def)
    moreover have "pl' a = Nowhere \<longleftrightarrow> pl a = Nowhere" for a using st [of a] by (auto simp: pl'_def)
    ultimately have mem': "mem_ok pl' rp m'" using mo clear_cas by (simp add: mem_ok_def)
    have self: "pc_ok pl' rp m' t p'"
      using xs(1) clear_cas by (auto simp: cells_at_def pl'_def)
    have "lf_inv pl' rp (m', pcs(t := p'))"
      by (rule lf_inv_upd [OF inv mem' self hz]) (use clear_cas st in \<open>auto simp: leaves_def pl'_def\<close>)
    then show ?thesis by blast
  next
    case (clear_cas_failed p)
    show ?thesis by (rule quiet, rule lf_inv_quiet [OF inv]) (use clear_cas_failed in auto)
  next
    case clear_end
    show ?thesis by (rule quiet, rule lf_inv_quiet [OF inv]) (use clear_end in auto)
  next
    case (clear_next a v q)
    have "pl a = Taken t \<and> (\<exists>ys. cells_at pl (Taken t) (node m) q ys \<and> a \<notin> set ys)"
      using ok clear_next by (auto elim!: cells_at_Some)
    then show ?thesis
      by (intro quiet lf_inv_quiet [OF inv]) (use clear_next in auto)
  next
    case (clear_next_deleted a)
    then show ?thesis using ok by (auto elim: cells_at_Some)
  qed
qed

lemma cont_ok_same:
  assumes "cont_ok pl m t x k" "history m' = history m"
    "\<And>a. pl a = Taken t \<Longrightarrow> Some a \<noteq> x \<Longrightarrow> pl' a = Taken t \<and> node m' a = node m a"
  shows "cont_ok pl' m' t x k" "cont_ok pl' m' t None k"
proof -
  have "cells_at pl' (Taken t) (node m') q xs" if c: "cells_at pl (Taken t) (node m) q xs" "x \<notin> Some ` set xs" for q xs
  proof -
    have "pl' a = Taken t \<and> node m' a = node m a" if "a \<in> set xs" for a
      using assms(3) [of a] c that by (auto simp: cells_at_def)
    then show ?thesis using c path_cong [of "node m" q xs "node m'"] by (auto simp: cells_at_def)
  qed
  then show "cont_ok pl' m' t x k" "cont_ok pl' m' t None k" using assms by (cases k; force)+
qed

lemma resume_ok: "cont_ok pl m t None k \<Longrightarrow> pc_ok pl rp m t (resume k)"
  by (cases k) auto

lemma resume_simps [simp]: "protects (resume k) = None" "seen (resume k) u a"
  by (cases k; simp)+

text \<open>A record goes to the front of the free list.\<close>

lemma publish_record:
  assumes mem: "mem_ok pl rp m" and r: "rnode m r = Some (a, free_list m)" "rp r \<noteq> RListed"
  shows "mem_ok pl (rp(r := RListed)) (m\<lparr>free_list := Some r\<rparr>)"
proof -
  note mo = mem_okD [OF mem]
  obtain xs where "cells_at rp RListed (rnode m) (free_list m) xs" using mo(6) by blast
  then have "cells_at (rp(r := RListed)) RListed (rnode m) (Some r) (r # xs)"
    using r by (auto simp: cells_at_def)
  then have "\<exists>xs. cells_at (rp(r := RListed)) RListed (rnode m) (Some r) xs" by blast
  moreover have "stack_ok pl (m\<lparr>free_list := Some r\<rparr>)" using mo(5) by (simp add: stack_ok_def)
  moreover have "rnode m s = None \<longleftrightarrow> (rp(r := RListed)) s = RNowhere" for s
    using mo(3) [of s] r(1) by auto
  ultimately show ?thesis using mo(1,2,4) by (simp add: mem_ok_def)
qed

text \<open>A record that is not on the free list gets a new successor.\<close>

lemma relink_record:
  assumes mem: "mem_ok pl rp m" and r: "rnode m r = Some (a, q)" "rp r \<noteq> RListed"
  shows "mem_ok pl rp (m\<lparr>rnode := (rnode m)(r \<mapsto> (a, p))\<rparr>)"
proof -
  note mo = mem_okD [OF mem]
  have "\<exists>xs. cells_at rp RListed ((rnode m)(r \<mapsto> (a, p))) (free_list m) xs"
    using mo(6) cells_at_cong [of rp RListed "rnode m" _ _ rp "(rnode m)(r \<mapsto> (a, p))"] r(2)
    by (metis fun_upd_other)
  moreover have "stack_ok pl (m\<lparr>rnode := (rnode m)(r \<mapsto> (a, p))\<rparr>)" using mo(5) by (simp add: stack_ok_def)
  moreover have "rp r \<noteq> RNowhere" using mo(3) [of r] r(1) by simp
  ultimately show ?thesis using mo r(1) by (auto simp: mem_ok_def)
qed

lemma Retire_keeps:
  assumes inv: "lf_inv pl rp (m, pcs)" and st: "Retire_step t m (pcs t) m' p'"
  shows "\<exists>pl' rp'. lf_inv pl' rp' (m', pcs(t := p'))"
proof -
  have ok: "pc_ok pl rp m t (pcs t)" and mem: "mem_ok pl rp m" using lf_invD [OF inv] by auto
  note mo = mem_okD [OF mem]
  note hz0 = hazards_ok_upd [OF lf_invD(3) [OF inv]]
  have quiet: "\<exists>pl' rp'. lf_inv pl' rp' (m', pcs(t := p'))" if "lf_inv pl rp (m', pcs(t := p'))"
    using that by blast
  have cont: "cont_ok pl m' t x k" if "cont_ok pl m t x k" "history m' = history m" "node m' = node m" for x k
    using cont_ok_same(1) [OF that(1,2)] that(3) by simp
  from st show ?thesis
  proof (cases rule: Retire_step.cases)
    case (retire_load a k)
    show ?thesis by (rule quiet, rule lf_inv_quiet [OF inv]) (use retire_load ok in auto)
  next
    case (retire_new r a q k)
    have a: "pl a = Taken t" "cont_ok pl m t (Some a) k" using ok retire_new by auto
    have r: "rp r = RNowhere" using retire_new mo(3) by simp
    let ?pl = "pl(a := Retired r)" and ?rp = "rp(r := RPrivate t)"
    have "stack_ok ?pl m'" by (rule stack_ok_cong [OF mo(5)]) (use retire_new a in auto)
    moreover have "\<exists>xs. cells_at ?rp RListed (rnode m') (free_list m) xs"
      by (rule listed_cong [OF mo(6)]) (use retire_new r in auto)
    ultimately have mem': "mem_ok ?pl ?rp m'" using mo retire_new a r by (auto simp: mem_ok_def)
    have self: "pc_ok ?pl ?rp m' t p'"
      using cont_ok_same(2) [OF a(2), of m' ?pl] retire_new by auto
    have hz: "hazards_ok ?rp m' (pcs(t := p'))"
      by (rule hz0) (use retire_new in \<open>auto split: if_splits\<close>)
    have "lf_inv ?pl ?rp (m', pcs(t := p'))"
      by (rule lf_inv_upd [OF inv mem' self hz]) (use retire_new a r in \<open>auto simp: leaves_def\<close>)
    then show ?thesis by blast
  next
    case (retire_cas r a k)
    have r: "rp r = RPrivate t" using ok retire_cas by auto
    let ?rp = "rp(r := RListed)"
    have mem': "mem_ok pl ?rp m'" using publish_record [OF mem] retire_cas r by simp
    have hz: "hazards_ok ?rp m' (pcs(t := p'))"
      by (rule hz0) (use retire_cas in \<open>auto split: if_splits\<close>)
    have "lf_inv pl ?rp (m', pcs(t := p'))"
      by (rule lf_inv_upd [OF inv mem' _ hz]) (use retire_cas r ok cont in \<open>auto simp: leaves_def\<close>)
    then show ?thesis by blast
  next
    case (retire_cas_failed r a q k)
    have r: "rp r = RPrivate t" using ok retire_cas_failed by auto
    have mem': "mem_ok pl rp m'" using relink_record [OF mem] retire_cas_failed r by simp
    have hz: "hazards_ok rp m' (pcs(t := p'))"
      by (rule hz0) (use retire_cas_failed in \<open>auto split: if_splits\<close>)
    have "lf_inv pl rp (m', pcs(t := p'))"
      by (rule lf_inv_upd [OF inv mem' _ hz]) (use retire_cas_failed r ok cont in \<open>auto simp: leaves_def\<close>)
    then show ?thesis by blast
  next
    case (retire_cas_deleted r k)
    then show ?thesis using ok mo(3) [of r] by auto
  next
    case (retire_count k)
    show ?thesis by (rule quiet, rule lf_inv_quiet [OF inv]) (use retire_count ok cont in auto)
  next
    case (retire_scan k)
    show ?thesis by (rule quiet, rule lf_inv_quiet [OF inv]) (use retire_scan ok in auto)
  next
    case (retire_no_scan k)
    show ?thesis by (rule quiet, rule lf_inv_quiet [OF inv]) (use retire_no_scan ok resume_ok in auto)
  qed
qed

lemma scan_relink:
  assumes inv: "lf_inv pl rp (m, pcs)" and r: "rnode m r = Some (a, q')" "rp r = RScan t"
    and pc: "pcs t = Scan_keep r hazard q k \<or> pcs t = Scan_cas r hazard q k"
  shows "\<exists>pl' rp'. lf_inv pl' rp'
    (m\<lparr>rnode := (rnode m)(r \<mapsto> (a, free_list m))\<rparr>, pcs(t := Scan_cas r hazard q k))"
proof -
  let ?m = "m\<lparr>rnode := (rnode m)(r \<mapsto> (a, free_list m))\<rparr>"
  have ok: "pc_ok pl rp m t (pcs t)" and mem: "mem_ok pl rp m" using lf_invD [OF inv] by auto
  obtain ys where ys: "cells_at rp (RScan t) (rnode m) q ys" "r \<notin> set ys" "cont_ok pl m t None k"
    using ok pc by auto
  have mem': "mem_ok pl rp ?m" using relink_record [OF mem r(1)] r(2) by simp
  have "cells_at rp (RScan t) (rnode ?m) q ys"
    using ys(1,2) by (auto simp: cells_at_def path_upd)
  moreover have "cont_ok pl ?m t None k" by (rule cont_ok_same(2) [OF ys(3)]) auto
  ultimately have self: "pc_ok pl rp ?m t (Scan_cas r hazard q k)" using ys(2) r(2) by auto
  have hz: "hazards_ok rp ?m (pcs(t := Scan_cas r hazard q k))"
    by (rule hazards_ok_upd [OF lf_invD(3) [OF inv]]) (use pc r in \<open>auto split: if_splits\<close>)
  have "lf_inv pl rp (?m, pcs(t := Scan_cas r hazard q k))"
    by (rule lf_inv_upd [OF inv mem' self hz]) (use r in \<open>auto simp: leaves_def\<close>)
  then show ?thesis by blast
qed

lemma Scan_keeps:
  assumes inv: "lf_inv pl rp (m, pcs)" and st: "ScanFreeList_step t m (pcs t) m' p'"
  shows "\<exists>pl' rp'. lf_inv pl' rp' (m', pcs(t := p'))"
proof -
  have ok: "pc_ok pl rp m t (pcs t)" and mem: "mem_ok pl rp m" using lf_invD [OF inv] by auto
  note mo = mem_okD [OF mem]
  note hz0 = hazards_ok_upd [OF lf_invD(3) [OF inv]]
  have quiet: "\<exists>pl' rp'. lf_inv pl' rp' (m', pcs(t := p'))" if "lf_inv pl rp (m', pcs(t := p'))"
    using that by blast
  have cont: "cont_ok pl m' t x k" if "cont_ok pl m t x k" "history m' = history m" "node m' = node m" for x k
    using cont_ok_same(1) [OF that(1,2)] that(3) by simp
  from st show ?thesis
  proof (cases rule: ScanFreeList_step.cases)
    case (scan_reset k)
    show ?thesis by (rule quiet, rule lf_inv_quiet [OF inv]) (use scan_reset ok cont in auto)
  next
    case (scan_busy k)
    show ?thesis by (rule quiet, rule lf_inv_quiet [OF inv]) (use scan_busy ok resume_ok in auto)
  next
    case (scan_locked k)
    show ?thesis by (rule quiet, rule lf_inv_quiet [OF inv]) (use scan_locked ok cont in auto)
  next
    case (scan_exchange k)
    define rp' where "rp' = (\<lambda>r. if rp r = RListed then RScan t else rp r)"
    have mem': "mem_ok pl rp' m'"
      using mo scan_exchange by (auto simp: mem_ok_def rp'_def stack_ok_def)
    obtain xs where "cells_at rp RListed (rnode m) (free_list m) xs" using mo(6) by blast
    then have "cells_at rp' (RScan t) (rnode m') (free_list m) xs"
      using scan_exchange by (auto simp: cells_at_def rp'_def)
    then have self: "pc_ok pl rp' m' t p'" using ok cont scan_exchange by auto
    have hz: "hazards_ok rp' m' (pcs(t := p'))"
      by (rule hz0) (use scan_exchange in \<open>auto simp: rp'_def split: if_splits\<close>)
    have "lf_inv pl rp' (m', pcs(t := p'))"
      by (rule lf_inv_upd [OF inv mem' self hz]) (use scan_exchange in \<open>auto simp: leaves_def rp'_def\<close>)
    then show ?thesis by blast
  next
    case (scan_threads p k)
    have "u \<in> set (threads m)" if "protects (pcs u) = Some a" "pc_ok pl rp m u (pcs u)" for u a
      using that by (cases "pcs u") auto
    then show ?thesis
      by (intro quiet lf_inv_quiet [OF inv]) (use scan_threads ok cont in auto)
  next
    case (scan_load u todo hazard p k)
    have hp: "hazard_ptr m v = Some a" if "protects (pcs v) = Some a" "pc_ok pl rp m v (pcs v)" for v a
      using that by (cases "pcs v") auto
    have "seen p' v a" if "protects (pcs v) = Some a" "pc_ok pl rp m v (pcs v)" "seen (pcs t) v a" for v a
      using that hp [OF that(1,2)] scan_load by (cases "v = u") (auto simp: in_set_remove1 split: option.splits)
    moreover have "set (remove1 u todo) \<subseteq> set (threads m)"
      using ok scan_load set_remove1_subset [of u todo] by auto
    ultimately show ?thesis
      by (intro quiet lf_inv_quiet [OF inv]) (use scan_load ok in \<open>auto split: option.splits\<close>)
  next
    case (scan_load_deleted u todo hazard p k)
    then show ?thesis using ok by auto
  next
    case (scan_loaded hazard p k)
    show ?thesis by (rule quiet, rule lf_inv_quiet [OF inv]) (use scan_loaded ok cont in auto)
  next
    case (scan_end hazard k)
    have "pc_ok pl rp m' t p'" using cont [of None k] scan_end ok by (auto intro: resume_ok)
    then show ?thesis by (intro quiet lf_inv_quiet [OF inv]) (use scan_end in auto)
  next
    case (scan_delete r a q hazard k)
    have a: "pl a = Retired r" using mo(4) [OF scan_delete(4)] .
    obtain ys where r: "rp r = RScan t" "cells_at rp (RScan t) (rnode m) q ys" "r \<notin> set ys"
      using ok scan_delete by (auto elim!: cells_at_Some)
    let ?pl = "pl(a := Nowhere)" and ?rp = "rp(r := RNowhere)"
    have "stack_ok ?pl m'" by (rule stack_ok_cong [OF mo(5)]) (use scan_delete a in auto)
    moreover have "\<exists>xs. cells_at ?rp RListed (rnode m') (free_list m) xs"
      by (rule listed_cong [OF mo(6)]) (use scan_delete r in auto)
    moreover have "?pl b = Retired s" if "rnode m' s = Some (b, q')" for b s q'
      using mo(4) [of s b q'] that a scan_delete by (auto split: if_splits)
    ultimately have mem': "mem_ok ?pl ?rp m'" using mo scan_delete a r(1) by (simp add: mem_ok_def)
    have "cells_at ?rp (RScan t) (rnode m') q ys"
      using r(2,3) scan_delete by (auto simp: cells_at_def path_upd)
    moreover have "cont_ok ?pl m' t None k"
      by (rule cont_ok_same(2) [of pl m _ None]) (use ok scan_delete a in auto)
    ultimately have self: "pc_ok ?pl ?rp m' t p'" using scan_delete by auto
    have hz: "hazards_ok ?rp m' (pcs(t := p'))"
      by (rule hz0) (use scan_delete in \<open>auto split: if_splits\<close>)
    have unprotected: "protects (pcs u) \<noteq> Some a" for u
      using lf_invD(3) [OF inv] scan_delete r(1) unfolding hazards_ok_def by (metis seen.simps(2))
    have "lf_inv ?pl ?rp (m', pcs(t := p'))"
      by (rule lf_inv_upd [OF inv mem' self hz])
        (use scan_delete a r(1) unprotected in \<open>auto simp: leaves_def\<close>)
    then show ?thesis by blast
  next
    case (scan_delete_twice r a q hazard k)
    then show ?thesis using mo(2) [of a] mo(4) [of r a q] by simp
  next
    case (scan_keep r a q hazard k)
    have "rp r = RScan t \<and> (\<exists>ys. cells_at rp (RScan t) (rnode m) q ys \<and> r \<notin> set ys)"
      using ok scan_keep by (auto elim!: cells_at_Some)
    then show ?thesis by (intro quiet lf_inv_quiet [OF inv]) (use scan_keep ok in auto)
  next
    case (scan_deleted r hazard k)
    then show ?thesis using ok by (auto elim: cells_at_Some)
  next
    case (scan_next r a q' hazard q k)
    then show ?thesis using scan_relink [OF inv, of r a q' t hazard q k] ok by auto
  next
    case (scan_next_deleted r hazard q k)
    then show ?thesis using ok mo(3) [of r] by auto
  next
    case (scan_cas r a hazard q k)
    obtain ys where r: "rp r = RScan t" "cells_at rp (RScan t) (rnode m) q ys" "r \<notin> set ys"
      using ok scan_cas by auto
    let ?rp = "rp(r := RListed)"
    have mem': "mem_ok pl ?rp m'" using publish_record [OF mem] scan_cas r(1) by simp
    have "cells_at ?rp (RScan t) (rnode m') q ys" using r(2,3) scan_cas by (auto simp: cells_at_def)
    then have self: "pc_ok pl ?rp m' t p'" using ok cont scan_cas by auto
    have hz: "hazards_ok ?rp m' (pcs(t := p'))"
      by (rule hz0) (use scan_cas in \<open>auto split: if_splits\<close>)
    have "lf_inv pl ?rp (m', pcs(t := p'))"
      by (rule lf_inv_upd [OF inv mem' self hz]) (use scan_cas r(1) in \<open>auto simp: leaves_def\<close>)
    then show ?thesis by blast
  next
    case (scan_cas_failed r a q' hazard q k)
    then show ?thesis using scan_relink [OF inv, of r a q' t hazard q k] ok by auto
  next
    case (scan_cas_deleted r hazard q k)
    then show ?thesis using ok mo(3) [of r] by auto
  qed
qed

section \<open>Every interleaving\<close>

definition lf_init :: "'a lf_mem" where
  "lf_init = \<lparr>node = Map.empty, head = None, rnode = Map.empty, free_list = None,
    approximate_free_list_size = 0, hazard_ptr = (\<lambda>_. None), threads = [], threads_lock = None,
    scan_lock = None, history = [], fault = False\<rparr>"

definition lf_start :: "'a lf_mem \<times> (nat \<Rightarrow> 'a lf_pc)" where
  "lf_start = (lf_init, \<lambda>_. Idle)"

lemma lf_start_inv: "lf_inv (\<lambda>_. Nowhere) (\<lambda>_. RNowhere) lf_start"
  by (auto simp: lf_inv_def lf_start_def lf_init_def mem_ok_def stack_ok_def hazards_ok_def cell_values_def)

interpretation lf: step_system lf_step "\<lambda>s. \<exists>pl rp. lf_inv pl rp s"
proof
  fix s s' :: "'a lf_mem \<times> (nat \<Rightarrow> 'a lf_pc)"
  assume st: "lf_step s s'" and "\<exists>pl rp. lf_inv pl rp s"
  then obtain pl rp where inv: "lf_inv pl rp s" by blast
  from st show "\<exists>pl rp. lf_inv pl rp s'"
  proof (cases rule: lf_step.cases)
    case (Register t m pcs m' p)
    then show ?thesis using RegisterThread_keeps inv by blast
  next
    case (Unregister t m pcs m' p)
    then show ?thesis using UnregisterThread_keeps inv by blast
  next
    case (Acquire t m pcs m' p)
    then show ?thesis using Acquire_keeps inv by blast
  next
    case (Scan t m pcs m' p)
    then show ?thesis using Scan_keeps inv by blast
  next
    case (Retire t m pcs m' p)
    then show ?thesis using Retire_keeps inv by blast
  next
    case (Push t m pcs m' p)
    then show ?thesis using Push_keeps inv by blast
  next
    case (Pop t m pcs m' p)
    then show ?thesis using Pop_keeps inv by blast
  next
    case (Clear t m pcs m' p)
    then show ?thesis using Clear_keeps inv by blast
  qed
qed

lemma lf_reachable_inv:
  assumes "lf_step\<^sup>*\<^sup>* lf_start (m, pcs)"
  obtains pl rp where "lf_inv pl rp (m, pcs)"
  using lf.reachable_keeps [OF assms] lf_start_inv by blast

text \<open>A run of one thread: it registers, pushes and pops.\<close>

definition solo :: "'a lf_pc \<Rightarrow> nat \<Rightarrow> 'a lf_pc" where
  "solo p = (\<lambda>_. Idle)(0 := p)"

lemma lf_solo:
  "RegisterThread_step 0 m p m' p' \<Longrightarrow> lf_step (m, solo p) (m', solo p')"
  "Acquire_step 0 m p m' p' \<Longrightarrow> lf_step (m, solo p) (m', solo p')"
  "Retire_step 0 m p m' p' \<Longrightarrow> lf_step (m, solo p) (m', solo p')"
  "Push_step 0 m p m' p' \<Longrightarrow> lf_step (m, solo p) (m', solo p')"
  "Pop_step 0 m p m' p' \<Longrightarrow> lf_step (m, solo p) (m', solo p')"
  unfolding solo_def
  by (metis fun_upd_same fun_upd_upd lf_step.Register lf_step.Acquire lf_step.Retire lf_step.Push lf_step.Pop)+

lemma lf_example: "\<exists>m. lf_step\<^sup>*\<^sup>* lf_start (m, solo (Pop_done (Some (7 :: nat))))"
proof -
  define m1 :: "nat lf_mem" where "m1 = lf_init\<lparr>threads := [0]\<rparr>"
  define m2 where "m2 = m1\<lparr>node := [0 \<mapsto> (7, None)]\<rparr>"
  define m3 where "m3 = m2\<lparr>head := Some 0, history := [(0, Push_op 7)]\<rparr>"
  define m4 where "m4 = m3\<lparr>hazard_ptr := (\<lambda>_. None)(0 := Some 0)\<rparr>"
  define m5 where "m5 = m4\<lparr>head := None, history := [(0, Pop_op (Some 7)), (0, Push_op 7)]\<rparr>"
  define m6 where "m6 = m5\<lparr>hazard_ptr := (\<lambda>_. None)(0 := Some 0, 0 := None)\<rparr>"
  define m7 where "m7 = m6\<lparr>rnode := [0 \<mapsto> (0, None)]\<rparr>"
  define m8 where "m8 = m7\<lparr>free_list := Some 0\<rparr>"
  define m9 where "m9 = m8\<lparr>approximate_free_list_size := 1\<rparr>"
  note ms = m9_def m8_def m7_def m6_def m5_def m4_def m3_def m2_def m1_def lf_init_def Release_def kFreeListMaxSize_def
  have a: "RegisterThread_step 0 lf_init Idle m1 Idle" by (simp add: RegisterThread_step.simps ms)
  have b: "Push_step 0 m1 Idle m1 (Push_load 7)" "Push_step 0 m1 (Push_load 7) m1 (Push_new 7 None)"
    "Push_step 0 m1 (Push_new 7 None) m2 (Push_cas 7 0 None)" "Push_step 0 m2 (Push_cas 7 0 None) m3 Idle"
    "Pop_step 0 m3 Idle m3 Acquire_load"
    by (simp_all add: Push_step.simps Pop_step.simps ms)
  have c: "Acquire_step 0 m3 Acquire_load m3 (Acquire_store (Some 0))"
    "Acquire_step 0 m3 (Acquire_store (Some 0)) m4 (Acquire_check (Some 0))"
    "Acquire_step 0 m4 (Acquire_check (Some 0)) m4 (Pop_next 0)"
    by (simp_all add: Acquire_step.simps ms)
  have d: "Pop_step 0 m4 (Pop_next 0) m4 (Pop_cas 0 None)" "Pop_step 0 m4 (Pop_cas 0 None) m5 (Pop_value 0)"
    "Pop_step 0 m5 (Pop_value 0) m5 (Pop_release 0 7)"
    "Pop_step 0 m5 (Pop_release 0 7) m6 (Retire_load 0 (After_Pop 7))"
    by (simp_all add: Pop_step.simps ms)
  have e: "Retire_step 0 m6 (Retire_load 0 (After_Pop 7)) m6 (Retire_new 0 None (After_Pop 7))"
    "Retire_step 0 m6 (Retire_new 0 None (After_Pop 7)) m7 (Retire_cas 0 (After_Pop 7))"
    "Retire_step 0 m7 (Retire_cas 0 (After_Pop 7)) m8 (Retire_count (After_Pop 7))"
    "Retire_step 0 m8 (Retire_count (After_Pop 7)) m9 (Retire_test (After_Pop 7))"
    "Retire_step 0 m9 (Retire_test (After_Pop 7)) m9 (Pop_done (Some 7))"
    by (simp_all add: Retire_step.simps ms)
  have start: "lf_start = (lf_init, solo Idle)" by (simp add: lf_start_def solo_def fun_eq_iff)
  note run = lf_solo(1) [OF a] lf_solo(4) [OF b(1)] lf_solo(4) [OF b(2)] lf_solo(4) [OF b(3)] lf_solo(4) [OF b(4)]
    lf_solo(5) [OF b(5)] lf_solo(2) [OF c(1)] lf_solo(2) [OF c(2)] lf_solo(2) [OF c(3)]
    lf_solo(5) [OF d(1)] lf_solo(5) [OF d(2)] lf_solo(5) [OF d(3)] lf_solo(5) [OF d(4)]
    lf_solo(3) [OF e(1)] lf_solo(3) [OF e(2)] lf_solo(3) [OF e(3)] lf_solo(3) [OF e(4)] lf_solo(3) [OF e(5)]
  have "lf_step\<^sup>*\<^sup>* lf_start (m9, solo (Pop_done (Some 7)))"
    unfolding start by (rule converse_rtranclp_into_rtranclp [of lf_step], rule run)+ (rule rtranclp.rtrancl_refl)
  then show ?thesis by blast
qed

text \<open>
  C9: hazard pointers are safe: however the accesses of any number of threads to the stack interleave, and
  however the allocator reuses addresses, no thread reads or writes a node or a retired record that has
  been deleted, none is deleted twice, and no scan reads the hazard pointer of a thread that has
  unregistered.
\<close>

theorem Stack_no_use_after_free:
  assumes "lf_step\<^sup>*\<^sup>* lf_start (m, pcs)"
  shows "\<not> fault m \<and> pcs t \<noteq> Failed"
proof -
  obtain pl rp where inv: "lf_inv pl rp (m, pcs)" by (rule lf_reachable_inv [OF assms])
  show ?thesis using lf_invD(1) [OF inv] lf_invD(2) [OF inv, of t] by (auto simp: mem_ok_def)
qed

theorem Stack_no_use_after_free_witness:
  "\<exists>m. lf_step\<^sup>*\<^sup>* lf_start (m, solo (Pop_done (Some (7 :: nat)))) \<and> \<not> fault m"
  using lf_example Stack_no_use_after_free by metis

text \<open>
  C10: the stack is linearizable: the operations, in the order in which they took effect, are a run of
  an abstract stack that ends with the values of the nodes reachable from \<open>head_\<close>, and what a thread's
  \<open>Pop\<close> returns is what its last operation in that run popped.
\<close>

theorem Stack_linearizable:
  assumes "lf_step\<^sup>*\<^sup>* lf_start (m, pcs)"
  shows "(\<exists>xs. path (node m) (head m) xs \<and> stack_run (history m) = Some (cell_values (node m) xs)) \<and>
    (pcs t = Pop_done res \<longrightarrow> map_of (history m) t = Some (Pop_op res))"
proof -
  obtain pl rp where inv: "lf_inv pl rp (m, pcs)" by (rule lf_reachable_inv [OF assms])
  show ?thesis
    using lf_invD(1) [OF inv] lf_invD(2) [OF inv, of t] by (auto simp: mem_ok_def stack_ok_def cells_at_def)
qed

theorem Stack_linearizable_witness:
  "\<exists>m. lf_step\<^sup>*\<^sup>* lf_start (m, solo (Pop_done (Some (7 :: nat)))) \<and>
    map_of (history m) 0 = Some (Pop_op (Some 7))"
  using lf_example Stack_linearizable [of _ "solo (Pop_done (Some 7))" 0 "Some 7"] by (auto simp: solo_def)

end
