(* ===== verification/Mpsc_Queue.thy ===== *)
theory Mpsc_Queue
  imports Hazard_Stack
begin

text \<open>
  The queue of many producers and one consumer of \<open>mpsc-queue/mpsc_queue.h\<close>: \<open>Push\<close> from any thread, \<open>Pop\<close>
  and \<open>DequeueAll\<close> by one thread at a time, as the comments of the source ask.  Without hazard pointers: the
  consumer deletes nodes at once.  Atomic accesses are steps as in \<open>Hazard_Stack\<close>.
\<close>

section \<open>The queue\<close>

datatype 'a mq_op = MPush 'a | MPop "'a option" | MDequeueAll

text \<open>
  \<open>consumer\<close> is the thread inside \<open>Pop\<close> or \<open>DequeueAll\<close>; it and \<open>mhistory\<close> are no variables of the program.
\<close>

record 'a mq_mem =
  cells :: "addr \<rightharpoonup> 'a \<times> ptr"
  mhead :: ptr
  consumer :: "nat option"
  mhistory :: "(nat \<times> 'a mq_op) list"
  mfault :: bool

datatype 'a mq_pc =
    MIdle
  | MPush_load 'a
  | MPush_new 'a ptr
  | MPush_cas 'a addr ptr
  | MPush_reload 'a addr
  | MPush_next 'a addr ptr
  | MPop_load
  | MPop_next ptr
  | MPop_cas addr ptr
  | MPop_reload
  | MPop_value addr
  | MPop_delete addr 'a
  | MPop_done "'a option"
  | MDeq_load
  | MDeq_cas ptr
  | MDeq_walk ptr "'a list"
  | MDeq_done "'a list"
  | MFailed

inductive MPSC_Push_step :: "nat \<Rightarrow> 'a mq_mem \<Rightarrow> 'a mq_pc \<Rightarrow> 'a mq_mem \<Rightarrow> 'a mq_pc \<Rightarrow> bool" for t where
  mpush_call: "MPSC_Push_step t m MIdle m (MPush_load v)"
| mpush_load: "MPSC_Push_step t m (MPush_load v) m (MPush_new v (mhead m))"
| mpush_new: "cells m a = None \<Longrightarrow>
    MPSC_Push_step t m (MPush_new v p) (m\<lparr>cells := (cells m)(a \<mapsto> (v, p))\<rparr>) (MPush_cas v a p)"
| mpush_cas: "MPSC_Push_step t m (MPush_cas v a (mhead m))
    (m\<lparr>mhead := Some a, mhistory := (t, MPush v) # mhistory m\<rparr>) MIdle"
| mpush_cas_failed: "MPSC_Push_step t m (MPush_cas v a p) m (MPush_reload v a)"
| mpush_reload: "MPSC_Push_step t m (MPush_reload v a) m (MPush_next v a (mhead m))"
| mpush_next: "cells m a = Some (w, q) \<Longrightarrow>
    MPSC_Push_step t m (MPush_next v a p) (m\<lparr>cells := (cells m)(a \<mapsto> (w, p))\<rparr>) (MPush_cas v a p)"
| mpush_next_deleted: "cells m a = None \<Longrightarrow>
    MPSC_Push_step t m (MPush_next v a p) (m\<lparr>mfault := True\<rparr>) MFailed"

inductive MPSC_Pop_step :: "nat \<Rightarrow> 'a mq_mem \<Rightarrow> 'a mq_pc \<Rightarrow> 'a mq_mem \<Rightarrow> 'a mq_pc \<Rightarrow> bool" for t where
  mpop_call: "consumer m = None \<Longrightarrow> MPSC_Pop_step t m MIdle (m\<lparr>consumer := Some t\<rparr>) MPop_load"
| mpop_empty: "mhead m = None \<Longrightarrow>
    MPSC_Pop_step t m MPop_load (m\<lparr>mhistory := (t, MPop None) # mhistory m\<rparr>) (MPop_done None)"
| mpop_load: "mhead m \<noteq> None \<Longrightarrow> MPSC_Pop_step t m MPop_load m (MPop_next (mhead m))"
| mpop_next: "cells m a = Some (v, q) \<Longrightarrow> MPSC_Pop_step t m (MPop_next (Some a)) m (MPop_cas a q)"
| mpop_next_deleted: "cells m a = None \<Longrightarrow>
    MPSC_Pop_step t m (MPop_next (Some a)) (m\<lparr>mfault := True\<rparr>) MFailed"
| mpop_next_null: "MPSC_Pop_step t m (MPop_next None) (m\<lparr>mfault := True\<rparr>) MFailed"
| mpop_cas: "mhead m = Some a \<Longrightarrow> MPSC_Pop_step t m (MPop_cas a q)
    (m\<lparr>mhead := q, mhistory := (t, MPop (map_option fst (cells m a))) # mhistory m\<rparr>) (MPop_value a)"
| mpop_cas_failed: "MPSC_Pop_step t m (MPop_cas a q) m MPop_reload"
| mpop_reload: "MPSC_Pop_step t m MPop_reload m (MPop_next (mhead m))"
| mpop_value: "cells m a = Some (v, q) \<Longrightarrow> MPSC_Pop_step t m (MPop_value a) m (MPop_delete a v)"
| mpop_value_deleted: "cells m a = None \<Longrightarrow> MPSC_Pop_step t m (MPop_value a) (m\<lparr>mfault := True\<rparr>) MFailed"
| mpop_delete: "cells m a \<noteq> None \<Longrightarrow>
    MPSC_Pop_step t m (MPop_delete a v) (m\<lparr>cells := (cells m)(a := None)\<rparr>) (MPop_done (Some v))"
| mpop_delete_twice: "cells m a = None \<Longrightarrow>
    MPSC_Pop_step t m (MPop_delete a v) (m\<lparr>mfault := True\<rparr>) MFailed"
| mpop_return: "MPSC_Pop_step t m (MPop_done res) (m\<lparr>consumer := None\<rparr>) MIdle"

text \<open>\<open>MDeq_walk p vs\<close>: the callback has been called with \<open>vs\<close>, the nodes from \<open>p\<close> on are left.\<close>

inductive DequeueAll_step :: "nat \<Rightarrow> 'a mq_mem \<Rightarrow> 'a mq_pc \<Rightarrow> 'a mq_mem \<Rightarrow> 'a mq_pc \<Rightarrow> bool" for t where
  mdeq_call: "consumer m = None \<Longrightarrow> DequeueAll_step t m MIdle (m\<lparr>consumer := Some t\<rparr>) MDeq_load"
| mdeq_load: "DequeueAll_step t m MDeq_load m (MDeq_cas (mhead m))"
| mdeq_cas: "DequeueAll_step t m (MDeq_cas (mhead m))
    (m\<lparr>mhead := None, mhistory := (t, MDequeueAll) # mhistory m\<rparr>) (MDeq_walk (mhead m) [])"
| mdeq_cas_failed: "DequeueAll_step t m (MDeq_cas p) m MDeq_load"
| mdeq_node: "cells m a = Some (v, q) \<Longrightarrow> DequeueAll_step t m (MDeq_walk (Some a) vs)
    (m\<lparr>cells := (cells m)(a := None)\<rparr>) (MDeq_walk q (vs @ [v]))"
| mdeq_node_deleted: "cells m a = None \<Longrightarrow>
    DequeueAll_step t m (MDeq_walk (Some a) vs) (m\<lparr>mfault := True\<rparr>) MFailed"
| mdeq_end: "DequeueAll_step t m (MDeq_walk None vs) m (MDeq_done vs)"
| mdeq_return: "DequeueAll_step t m (MDeq_done vs) (m\<lparr>consumer := None\<rparr>) MIdle"

inductive mq_step :: "'a mq_mem \<times> (nat \<Rightarrow> 'a mq_pc) \<Rightarrow> 'a mq_mem \<times> (nat \<Rightarrow> 'a mq_pc) \<Rightarrow> bool" where
  MQ_Push: "MPSC_Push_step t m (pcs t) m' p \<Longrightarrow> mq_step (m, pcs) (m', pcs(t := p))"
| MQ_Pop: "MPSC_Pop_step t m (pcs t) m' p \<Longrightarrow> mq_step (m, pcs) (m', pcs(t := p))"
| MQ_DequeueAll: "DequeueAll_step t m (pcs t) m' p \<Longrightarrow> mq_step (m, pcs) (m', pcs(t := p))"

section \<open>The invariant\<close>

fun mq_run :: "(nat \<times> 'a mq_op) list \<Rightarrow> 'a list option" where
  "mq_run [] = Some []"
| "mq_run ((t, MPush v) # h) = map_option (Cons v) (mq_run h)"
| "mq_run ((t, MPop None) # h) = (if mq_run h = Some [] then Some [] else None)"
| "mq_run ((t, MPop (Some v)) # h) =
    (case mq_run h of Some (w # ws) \<Rightarrow> if w = v then Some ws else None | _ \<Rightarrow> None)"
| "mq_run ((t, MDequeueAll) # h) = map_option (\<lambda>_. []) (mq_run h)"

text \<open>The history up to the last operation of thread \<open>t\<close>, without it.\<close>

fun before :: "nat \<Rightarrow> (nat \<times> 'a mq_op) list \<Rightarrow> (nat \<times> 'a mq_op) list" where
  "before t [] = []"
| "before t ((u, e) # h) = (if u = t then h else before t h)"

text \<open>A node taken from the queue belongs to the consumer.\<close>

datatype mplace = MNowhere | MPrivate nat | MQueued | MTaken

fun mpc_ok :: "(addr \<Rightarrow> mplace) \<Rightarrow> 'a mq_mem \<Rightarrow> nat \<Rightarrow> 'a mq_pc \<Rightarrow> bool" where
  "mpc_ok pl m t (MPush_cas v a p) \<longleftrightarrow> pl a = MPrivate t \<and> cells m a = Some (v, p)"
| "mpc_ok pl m t (MPush_reload v a) \<longleftrightarrow> pl a = MPrivate t \<and> (\<exists>q. cells m a = Some (v, q))"
| "mpc_ok pl m t (MPush_next v a p) \<longleftrightarrow> pl a = MPrivate t \<and> (\<exists>q. cells m a = Some (v, q))"
| "mpc_ok pl m t MPop_load \<longleftrightarrow> consumer m = Some t"
| "mpc_ok pl m t (MPop_next p) \<longleftrightarrow> consumer m = Some t \<and> (\<exists>a. p = Some a \<and> pl a = MQueued)"
| "mpc_ok pl m t (MPop_cas a q) \<longleftrightarrow> consumer m = Some t \<and> pl a = MQueued \<and> (\<exists>v. cells m a = Some (v, q))"
| "mpc_ok pl m t MPop_reload \<longleftrightarrow> consumer m = Some t \<and> (\<exists>a. pl a = MQueued)"
| "mpc_ok pl m t (MPop_value a) \<longleftrightarrow> consumer m = Some t \<and> pl a = MTaken \<and>
     (\<exists>v q. cells m a = Some (v, q) \<and> map_of (mhistory m) t = Some (MPop (Some v)))"
| "mpc_ok pl m t (MPop_delete a v) \<longleftrightarrow> consumer m = Some t \<and> pl a = MTaken \<and>
     map_of (mhistory m) t = Some (MPop (Some v))"
| "mpc_ok pl m t (MPop_done res) \<longleftrightarrow> consumer m = Some t \<and> map_of (mhistory m) t = Some (MPop res)"
| "mpc_ok pl m t MDeq_load \<longleftrightarrow> consumer m = Some t"
| "mpc_ok pl m t (MDeq_cas p) \<longleftrightarrow> consumer m = Some t"
| "mpc_ok pl m t (MDeq_walk p vs) \<longleftrightarrow> consumer m = Some t \<and> map_of (mhistory m) t = Some MDequeueAll \<and>
     (\<exists>xs. cells_at pl MTaken (cells m) p xs \<and> mq_run (before t (mhistory m)) = Some (vs @ cell_values (cells m) xs))"
| "mpc_ok pl m t (MDeq_done vs) \<longleftrightarrow> consumer m = Some t \<and> map_of (mhistory m) t = Some MDequeueAll \<and>
     mq_run (before t (mhistory m)) = Some vs"
| "mpc_ok pl m t MFailed \<longleftrightarrow> False"
| "mpc_ok pl m t _ \<longleftrightarrow> True"

definition queue_ok :: "(addr \<Rightarrow> mplace) \<Rightarrow> 'a mq_mem \<Rightarrow> bool" where
  "queue_ok pl m \<longleftrightarrow> (\<exists>xs. cells_at pl MQueued (cells m) (mhead m) xs \<and> (\<forall>a. pl a = MQueued \<longrightarrow> a \<in> set xs) \<and>
     mq_run (mhistory m) = Some (cell_values (cells m) xs))"

definition mmem_ok :: "(addr \<Rightarrow> mplace) \<Rightarrow> 'a mq_mem \<Rightarrow> bool" where
  "mmem_ok pl m \<longleftrightarrow> \<not> mfault m \<and> (\<forall>a. cells m a = None \<longleftrightarrow> pl a = MNowhere) \<and> queue_ok pl m"

definition mq_inv :: "(addr \<Rightarrow> mplace) \<Rightarrow> 'a mq_mem \<times> (nat \<Rightarrow> 'a mq_pc) \<Rightarrow> bool" where
  "mq_inv pl s \<longleftrightarrow> mmem_ok pl (fst s) \<and> (\<forall>t. mpc_ok pl (fst s) t (snd s t))"

definition mleaves ::
  "nat \<Rightarrow> (addr \<Rightarrow> mplace) \<Rightarrow> 'a mq_mem \<Rightarrow> (addr \<Rightarrow> mplace) \<Rightarrow> 'a mq_mem \<Rightarrow> bool" where
  "mleaves u pl m pl' m' \<longleftrightarrow>
    (\<forall>a. pl a = MPrivate u \<longrightarrow> pl' a = MPrivate u \<and> cells m' a = cells m a) \<and>
    (consumer m = Some u \<longrightarrow> consumer m' = Some u \<and>
      (\<forall>a. pl a = MTaken \<or> pl a = MQueued \<longrightarrow> pl' a = pl a \<and> cells m' a = cells m a)) \<and>
    map_of (mhistory m') u = map_of (mhistory m) u \<and> before u (mhistory m') = before u (mhistory m)"

lemma mpc_ok_stable:
  assumes ok: "mpc_ok pl m u p" and l: "mleaves u pl m pl' m'"
  shows "mpc_ok pl' m' u p"
proof (cases p)
  case (MDeq_walk q vs)
  obtain xs where xs: "consumer m = Some u" "cells_at pl MTaken (cells m) q xs"
    "mq_run (before u (mhistory m)) = Some (vs @ cell_values (cells m) xs)" using ok MDeq_walk by auto
  have same: "pl' a = MTaken \<and> cells m' a = cells m a" if "pl a = MTaken" for a
    using l xs(1) that by (auto simp: mleaves_def)
  have "cells_at pl' MTaken (cells m') q xs" using xs(2) same by (rule cells_at_cong)
  moreover have "cell_values (cells m') xs = cell_values (cells m) xs"
    by (rule cell_values_cong) (use xs(2) same in \<open>auto simp: cells_at_def\<close>)
  ultimately show ?thesis using ok MDeq_walk l xs by (auto simp: mleaves_def)
qed (use assms in \<open>auto simp: mleaves_def\<close>)

lemma mq_inv_upd:
  assumes inv: "mq_inv pl (m, pcs)" and mem: "mmem_ok pl' m'" and self: "mpc_ok pl' m' t p'"
    and others: "\<And>u. u \<noteq> t \<Longrightarrow> mleaves u pl m pl' m'"
  shows "\<exists>pl. mq_inv pl (m', pcs(t := p'))"
proof -
  have "mpc_ok pl' m' u (pcs u)" if "u \<noteq> t" for u
    using inv others [OF that] by (auto simp: mq_inv_def intro: mpc_ok_stable)
  then show ?thesis using mem self by (auto simp: mq_inv_def)
qed

lemma mq_invD:
  assumes "mq_inv pl (m, pcs)"
  shows "mmem_ok pl m" "mpc_ok pl m t (pcs t)"
  using assms by (auto simp: mq_inv_def)

lemma mmem_okD:
  assumes "mmem_ok pl m"
  shows "\<not> mfault m" "cells m a = None \<longleftrightarrow> pl a = MNowhere" "queue_ok pl m"
  using assms by (auto simp: mmem_ok_def)

lemma queue_ok_cong:
  assumes "queue_ok pl m" "\<And>a. pl a = MQueued \<Longrightarrow> cells m' a = cells m a" "\<And>a. pl' a = MQueued \<longleftrightarrow> pl a = MQueued"
    "mhead m' = mhead m" "mhistory m' = mhistory m"
  shows "queue_ok pl' m'"
proof -
  obtain xs where xs: "cells_at pl MQueued (cells m) (mhead m) xs" "\<And>a. pl a = MQueued \<Longrightarrow> a \<in> set xs"
    "mq_run (mhistory m) = Some (cell_values (cells m) xs)"
    using assms(1) by (auto simp: queue_ok_def)
  have "cell_values (cells m') xs = cell_values (cells m) xs"
    by (rule cell_values_cong) (use xs(1) assms(2) in \<open>auto simp: cells_at_def\<close>)
  moreover have "cells_at pl' MQueued (cells m') (mhead m) xs"
    by (rule cells_at_cong [OF xs(1)]) (use assms(2,3) in auto)
  ultimately show ?thesis using xs(2,3) assms(3-5) by (auto simp: queue_ok_def)
qed

lemma queue_okE:
  assumes "mmem_ok pl m"
  obtains xs where "cells_at pl MQueued (cells m) (mhead m) xs" "\<And>a. pl a = MQueued \<Longrightarrow> a \<in> set xs"
    "mq_run (mhistory m) = Some (cell_values (cells m) xs)"
  using assms by (auto simp: mmem_ok_def queue_ok_def)

lemma mhead_queued: "mmem_ok pl m \<Longrightarrow> pl a = MQueued \<Longrightarrow> \<exists>b. mhead m = Some b"
  by (erule queue_okE) (cases "mhead m", auto)

lemma mhead_at: "mmem_ok pl m \<Longrightarrow> mhead m = Some a \<Longrightarrow> pl a = MQueued"
  by (metis queue_okE cells_at_Some)

lemma MPSC_Push_keeps:
  assumes inv: "mq_inv pl (m, pcs)" and st: "MPSC_Push_step t m (pcs t) m' p'"
  shows "\<exists>pl. mq_inv pl (m', pcs(t := p'))"
proof -
  have ok: "mpc_ok pl m t (pcs t)" and mem: "mmem_ok pl m" using mq_invD [OF inv] by auto
  note mo = mmem_okD [OF mem]
  from st show ?thesis
  proof (cases rule: MPSC_Push_step.cases)
    case (mpush_new a v p)
    have a: "pl a = MNowhere" using mpush_new mo(2) by simp
    have "queue_ok (pl(a := MPrivate t)) m'"
      by (rule queue_ok_cong [OF mo(3)]) (use mpush_new a in auto)
    then have "mmem_ok (pl(a := MPrivate t)) m'" using mo mpush_new by (auto simp: mmem_ok_def)
    then show ?thesis by (rule mq_inv_upd [OF inv]) (use mpush_new a in \<open>auto simp: mleaves_def\<close>)
  next
    case (mpush_cas v a)
    have a: "pl a = MPrivate t" "cells m a = Some (v, mhead m)" using ok mpush_cas by auto
    obtain xs where xs: "cells_at pl MQueued (cells m) (mhead m) xs" "\<And>a. pl a = MQueued \<Longrightarrow> a \<in> set xs"
      "mq_run (mhistory m) = Some (cell_values (cells m) xs)" by (rule queue_okE [OF mem]) blast
    have "cells_at (pl(a := MQueued)) MQueued (cells m') (Some a) (a # xs)"
      using xs(1) a mpush_cas by (auto simp: cells_at_def)
    moreover have "mq_run (mhistory m') = Some (cell_values (cells m') (a # xs))"
      using mpush_cas xs(3) a by simp
    ultimately have "queue_ok (pl(a := MQueued)) m'" using mpush_cas xs(2) unfolding queue_ok_def
      by (intro exI [of _ "a # xs"]) auto
    then have "mmem_ok (pl(a := MQueued)) m'" using mo mpush_cas a by (auto simp: mmem_ok_def)
    then show ?thesis by (rule mq_inv_upd [OF inv]) (use mpush_cas a in \<open>auto simp: mleaves_def\<close>)
  next
    case (mpush_next a w q v p)
    have a: "pl a = MPrivate t" "w = v" using ok mpush_next by auto
    have "queue_ok pl m'" by (rule queue_ok_cong [OF mo(3)]) (use mpush_next a in auto)
    then have "mmem_ok pl m'" using mo mpush_next a by (auto simp: mmem_ok_def)
    then show ?thesis by (rule mq_inv_upd [OF inv]) (use mpush_next a in \<open>auto simp: mleaves_def\<close>)
  qed (use mq_inv_upd [OF inv mem] ok in \<open>auto simp: mleaves_def\<close>)
qed

text \<open>A node leaves the store of the consumer.\<close>

lemma delete_taken:
  assumes "mmem_ok pl m" "pl a = MTaken"
  shows "mmem_ok (pl(a := MNowhere)) (m\<lparr>cells := (cells m)(a := None)\<rparr>)"
proof -
  note mo = mmem_okD [OF assms(1)]
  have "queue_ok (pl(a := MNowhere)) (m\<lparr>cells := (cells m)(a := None)\<rparr>)"
    by (rule queue_ok_cong [OF mo(3)]) (use assms(2) in auto)
  then show ?thesis using mo by (auto simp: mmem_ok_def)
qed

lemma MPSC_Pop_keeps:
  assumes inv: "mq_inv pl (m, pcs)" and st: "MPSC_Pop_step t m (pcs t) m' p'"
  shows "\<exists>pl. mq_inv pl (m', pcs(t := p'))"
proof -
  have ok: "mpc_ok pl m t (pcs t)" and mem: "mmem_ok pl m" using mq_invD [OF inv] by auto
  note mo = mmem_okD [OF mem]
  from st show ?thesis
  proof (cases rule: MPSC_Pop_step.cases)
    case mpop_call
    have "mmem_ok pl m'" using mem mpop_call by (simp add: mmem_ok_def queue_ok_def)
    then show ?thesis by (rule mq_inv_upd [OF inv]) (use mpop_call in \<open>auto simp: mleaves_def\<close>)
  next
    case mpop_empty
    have "mmem_ok pl m'" using mem mpop_empty by (auto simp: mmem_ok_def queue_ok_def)
    then show ?thesis by (rule mq_inv_upd [OF inv]) (use mpop_empty ok in \<open>auto simp: mleaves_def\<close>)
  next
    case mpop_load
    then show ?thesis using mq_inv_upd [OF inv mem, of t p'] ok mhead_at [OF mem] by (auto simp: mleaves_def)
  next
    case (mpop_next_deleted a)
    then show ?thesis using ok mo(2) [of a] by auto
  next
    case (mpop_cas a q)
    obtain v where a: "cells m a = Some (v, q)" using ok mpop_cas by auto
    obtain xs where xs: "cells_at pl MQueued (cells m) (Some a) xs" "\<And>a. pl a = MQueued \<Longrightarrow> a \<in> set xs"
      "mq_run (mhistory m) = Some (cell_values (cells m) xs)" using queue_okE [OF mem] mpop_cas(4) by metis
    obtain ys where ys: "xs = a # ys" "pl a = MQueued" "cells_at pl MQueued (cells m) q ys" "a \<notin> set ys"
      using xs(1) a by (auto elim: cells_at_Some)
    have "cells_at (pl(a := MTaken)) MQueued (cells m') q ys" using ys(3,4) mpop_cas by (auto simp: cells_at_def)
    moreover have "mq_run (mhistory m') = Some (cell_values (cells m') ys)" using mpop_cas xs(3) a ys(1) by simp
    ultimately have "queue_ok (pl(a := MTaken)) m'" using mpop_cas xs(2) ys(1) unfolding queue_ok_def
      by (intro exI [of _ ys]) (auto split: if_splits)
    then have "mmem_ok (pl(a := MTaken)) m'" using mo mpop_cas ys(2) by (auto simp: mmem_ok_def)
    then show ?thesis
      by (rule mq_inv_upd [OF inv]) (use mpop_cas ok a in \<open>auto simp: mleaves_def\<close>)
  next
    case (mpop_cas_failed a q)
    have "mmem_ok pl m'" using mem mpop_cas_failed by simp
    then show ?thesis by (rule mq_inv_upd [OF inv]) (use mpop_cas_failed ok in \<open>auto simp: mleaves_def\<close>)
  next
    case mpop_reload
    then show ?thesis
      using mq_inv_upd [OF inv mem, of t p'] ok mhead_queued [OF mem] mhead_at [OF mem] by (fastforce simp: mleaves_def)
  next
    case (mpop_delete a v)
    have "mmem_ok (pl(a := MNowhere)) m'" using delete_taken [OF mem] ok mpop_delete by simp
    then show ?thesis by (rule mq_inv_upd [OF inv]) (use mpop_delete ok in \<open>auto simp: mleaves_def\<close>)
  next
    case (mpop_delete_twice a v)
    then show ?thesis using ok mo(2) [of a] by auto
  next
    case (mpop_return res)
    have "mmem_ok pl m'" using mem mpop_return by (simp add: mmem_ok_def queue_ok_def)
    then show ?thesis by (rule mq_inv_upd [OF inv]) (use mpop_return ok in \<open>auto simp: mleaves_def\<close>)
  qed (use mq_inv_upd [OF inv mem] ok in \<open>auto simp: mleaves_def\<close>)
qed

lemma DequeueAll_keeps:
  assumes inv: "mq_inv pl (m, pcs)" and st: "DequeueAll_step t m (pcs t) m' p'"
  shows "\<exists>pl. mq_inv pl (m', pcs(t := p'))"
proof -
  have ok: "mpc_ok pl m t (pcs t)" and mem: "mmem_ok pl m" using mq_invD [OF inv] by auto
  note mo = mmem_okD [OF mem]
  from st show ?thesis
  proof (cases rule: DequeueAll_step.cases)
    case mdeq_call
    have "mmem_ok pl m'" using mem mdeq_call by (simp add: mmem_ok_def queue_ok_def)
    then show ?thesis by (rule mq_inv_upd [OF inv]) (use mdeq_call in \<open>auto simp: mleaves_def\<close>)
  next
    case mdeq_cas
    obtain xs where xs: "cells_at pl MQueued (cells m) (mhead m) xs" "\<And>a. pl a = MQueued \<Longrightarrow> a \<in> set xs"
      "mq_run (mhistory m) = Some (cell_values (cells m) xs)" by (rule queue_okE [OF mem]) blast
    define pl' where "pl' = (\<lambda>a. if pl a = MQueued then MTaken else pl a)"
    have "queue_ok pl' m'" using mdeq_cas xs(3) by (auto simp: queue_ok_def pl'_def)
    then have mem': "mmem_ok pl' m'" using mo mdeq_cas by (auto simp: mmem_ok_def pl'_def)
    have "cells_at pl' MTaken (cells m') (mhead m) xs"
      using xs(1) mdeq_cas by (auto simp: cells_at_def pl'_def)
    then have self: "mpc_ok pl' m' t p'" using mdeq_cas xs(3) ok by auto
    show ?thesis by (rule mq_inv_upd [OF inv mem' self]) (use mdeq_cas ok in \<open>auto simp: mleaves_def pl'_def\<close>)
  next
    case (mdeq_node a v q vs)
    obtain ys where ys: "pl a = MTaken" "cells_at pl MTaken (cells m) q ys" "a \<notin> set ys"
      "mq_run (before t (mhistory m)) = Some ((vs @ [v]) @ cell_values (cells m) ys)"
      using ok mdeq_node by (auto elim!: cells_at_Some)
    have mem': "mmem_ok (pl(a := MNowhere)) m'" using delete_taken [OF mem ys(1)] mdeq_node by simp
    have "cells_at (pl(a := MNowhere)) MTaken (cells m') q ys"
      using ys(2,3) mdeq_node by (auto simp: cells_at_def path_upd)
    moreover have "cell_values (cells m') ys = cell_values (cells m) ys"
      by (rule cell_values_cong) (use mdeq_node ys(3) in auto)
    ultimately have self: "mpc_ok (pl(a := MNowhere)) m' t p'" using mdeq_node ok ys(4) by auto
    show ?thesis by (rule mq_inv_upd [OF inv mem' self]) (use mdeq_node ok ys(1) in \<open>auto simp: mleaves_def\<close>)
  next
    case (mdeq_node_deleted a vs)
    then show ?thesis using ok by (auto elim: cells_at_Some)
  next
    case (mdeq_return vs)
    have "mmem_ok pl m'" using mem mdeq_return by (simp add: mmem_ok_def queue_ok_def)
    then show ?thesis by (rule mq_inv_upd [OF inv]) (use mdeq_return ok in \<open>auto simp: mleaves_def\<close>)
  qed (use mq_inv_upd [OF inv mem] ok in \<open>auto simp: mleaves_def\<close>)
qed

section \<open>Every interleaving\<close>

definition mq_start :: "'a mq_mem \<times> (nat \<Rightarrow> 'a mq_pc)" where
  "mq_start = (\<lparr>cells = Map.empty, mhead = None, consumer = None, mhistory = [], mfault = False\<rparr>, \<lambda>_. MIdle)"

lemma mq_start_inv: "mq_inv (\<lambda>_. MNowhere) mq_start"
  by (auto simp: mq_inv_def mq_start_def mmem_ok_def queue_ok_def)

interpretation mq: step_system mq_step "\<lambda>s. \<exists>pl. mq_inv pl s"
proof
  fix s s' :: "'a mq_mem \<times> (nat \<Rightarrow> 'a mq_pc)"
  assume "mq_step s s'" and "\<exists>pl. mq_inv pl s"
  then show "\<exists>pl. mq_inv pl s'"
    by (cases rule: mq_step.cases) (blast dest: MPSC_Push_keeps MPSC_Pop_keeps DequeueAll_keeps)+
qed

text \<open>
  C34: with one consumer at a time the queue needs no hazard pointers: under every interleaving with the
  producers no deleted node is accessed and no null pointer followed, the operations in the order in
  which they took effect are a run of an abstract stack, \<open>Pop\<close> returns what it popped there, and
  \<open>DequeueAll\<close> has called its callback with everything the abstract stack held, from the top.
\<close>

theorem MPSCQueue_linearizable:
  assumes "mq_step\<^sup>*\<^sup>* mq_start (m, pcs)"
  shows "\<not> mfault m \<and>
    (\<exists>xs. path (cells m) (mhead m) xs \<and> mq_run (mhistory m) = Some (cell_values (cells m) xs)) \<and>
    (pcs t = MPop_done res \<longrightarrow> map_of (mhistory m) t = Some (MPop res)) \<and>
    (pcs t = MDeq_done vs \<longrightarrow>
      map_of (mhistory m) t = Some MDequeueAll \<and> mq_run (before t (mhistory m)) = Some vs)"
proof -
  obtain pl where inv: "mq_inv pl (m, pcs)" using mq.reachable_keeps [OF assms] mq_start_inv by blast
  show ?thesis
    using mq_invD(1) [OF inv] mq_invD(2) [OF inv, of t] by (auto simp: mmem_ok_def queue_ok_def cells_at_def)
qed

definition msolo :: "'a mq_pc \<Rightarrow> nat \<Rightarrow> 'a mq_pc" where
  "msolo p = (\<lambda>_. MIdle)(0 := p)"

lemma mq_solo:
  "MPSC_Push_step 0 m p m' p' \<Longrightarrow> mq_step (m, msolo p) (m', msolo p')"
  "DequeueAll_step 0 m p m' p' \<Longrightarrow> mq_step (m, msolo p) (m', msolo p')"
  unfolding msolo_def by (metis fun_upd_same fun_upd_upd mq_step.MQ_Push mq_step.MQ_DequeueAll)+

lemma mq_example: "\<exists>m. mq_step\<^sup>*\<^sup>* mq_start (m, msolo (MDeq_done [7 :: nat]))"
proof -
  define m0 :: "nat mq_mem" where
    "m0 = \<lparr>cells = Map.empty, mhead = None, consumer = None, mhistory = [], mfault = False\<rparr>"
  define m1 where "m1 = m0\<lparr>cells := [0 \<mapsto> (7, None)]\<rparr>"
  define m2 where "m2 = m1\<lparr>mhead := Some 0, mhistory := [(0, MPush 7)]\<rparr>"
  define m3 where "m3 = m2\<lparr>consumer := Some 0\<rparr>"
  define m4 where "m4 = m3\<lparr>mhead := None, mhistory := [(0, MDequeueAll), (0, MPush 7)]\<rparr>"
  define m5 where "m5 = m4\<lparr>cells := [0 \<mapsto> (7, None)](0 := None)\<rparr>"
  note ms = m0_def m1_def m2_def m3_def m4_def m5_def
  have a: "MPSC_Push_step 0 m0 MIdle m0 (MPush_load 7)" "MPSC_Push_step 0 m0 (MPush_load 7) m0 (MPush_new 7 None)"
    "MPSC_Push_step 0 m0 (MPush_new 7 None) m1 (MPush_cas 7 0 None)" "MPSC_Push_step 0 m1 (MPush_cas 7 0 None) m2 MIdle"
    by (simp_all add: MPSC_Push_step.simps ms)
  have b: "DequeueAll_step 0 m2 MIdle m3 MDeq_load" "DequeueAll_step 0 m3 MDeq_load m3 (MDeq_cas (Some 0))"
    "DequeueAll_step 0 m3 (MDeq_cas (Some 0)) m4 (MDeq_walk (Some 0) [])"
    "DequeueAll_step 0 m4 (MDeq_walk (Some 0) []) m5 (MDeq_walk None [7])"
    "DequeueAll_step 0 m5 (MDeq_walk None [7]) m5 (MDeq_done [7])"
    by (simp_all add: DequeueAll_step.simps ms)
  have start: "mq_start = (m0, msolo MIdle)" by (simp add: mq_start_def msolo_def m0_def fun_eq_iff)
  note run = a [THEN mq_solo(1)] b [THEN mq_solo(2)]
  have "mq_step\<^sup>*\<^sup>* mq_start (m5, msolo (MDeq_done [7]))"
    unfolding start by (rule converse_rtranclp_into_rtranclp [of mq_step], rule run)+ (rule rtranclp.rtrancl_refl)
  then show ?thesis by blast
qed

theorem MPSCQueue_linearizable_witness:
  "\<exists>m. mq_step\<^sup>*\<^sup>* mq_start (m, msolo (MDeq_done [7 :: nat])) \<and> \<not> mfault m \<and>
    mq_run (before 0 (mhistory m)) = Some [7]"
  using mq_example MPSCQueue_linearizable [of _ "msolo (MDeq_done [7])" 0 None "[7]"] by (auto simp: msolo_def)

end
