(* ===== verification/Ranges.thy ===== *)
theory Ranges
  imports Prelude
begin

text \<open>
  The range adaptors of \<open>ranges/take.h\<close>, \<open>ranges/get.h\<close> and \<open>ranges/stride.h\<close>.  A base range is the list of its
  elements and an iterator of it a position, \<open>length\<close> being \<open>end()\<close>; reading through an iterator that
  points to no element, which C++ leaves undefined, is \<open>None\<close>.  References are read only: writes through
  them are not modelled.  The locale \<open>random_access_view\<close> has the laws of a random access iterator, and what a
  range-based \<open>for\<close> then visits.
\<close>

section \<open>The standard library\<close>

text \<open>
  \<open>std::ranges::next(it, n, bound)\<close>, for a \<open>bound\<close> at or after \<open>it\<close>; a negative \<open>n\<close> breaks its precondition.
\<close>

definition ranges_next :: "int \<Rightarrow> int \<Rightarrow> int \<Rightarrow> int option" where
  "ranges_next it n bound = (if n < 0 then None else Some (min (it + n) bound))"

definition element :: "'a list \<Rightarrow> int \<Rightarrow> 'a option" where
  "element xs i = (if 0 \<le> i \<and> i < int (length xs) then Some (xs ! nat i) else None)"

lemma element_nth [simp]: "i < length xs \<Longrightarrow> element xs (int i) = Some (xs ! i)"
  by (simp add: element_def)

text \<open>The range-based \<open>for\<close>: what it visits; \<open>None\<close> when it never ends or reads no element.\<close>

partial_function (option) for_each ::
  "('i \<Rightarrow> 'i \<Rightarrow> bool) \<Rightarrow> ('i \<Rightarrow> 'i) \<Rightarrow> ('i \<Rightarrow> 'b option) \<Rightarrow> 'i \<Rightarrow> 'i \<Rightarrow> 'b list option" where
  "for_each eq inc deref it fin =
    (if eq it fin then Some []
     else Option.bind (deref it) (\<lambda>x. Option.bind (for_each eq inc deref (inc it) fin) (\<lambda>xs. Some (x # xs))))"

section \<open>Random access iterators\<close>

locale random_access_view =
  fixes of_view :: "'i \<Rightarrow> bool" and inc dec :: "'i \<Rightarrow> 'i" and plus minus :: "'i \<Rightarrow> int \<Rightarrow> 'i"
    and diff :: "'i \<Rightarrow> 'i \<Rightarrow> int" and eq less :: "'i \<Rightarrow> 'i \<Rightarrow> bool"
    and deref :: "'i \<Rightarrow> 'b option" and index :: "'i \<Rightarrow> int \<Rightarrow> 'b option"
  assumes of_view_plus: "of_view it \<Longrightarrow> of_view (plus it n)"
    and inc_plus: "inc it = plus it 1" and dec_minus: "dec it = minus it 1"
    and plus_0: "plus it 0 = it" and plus_plus: "plus (plus it n) k = plus it (n + k)"
    and minus_plus: "minus it n = plus it (- n)"
    and diff_plus: "diff (plus it n) it' = diff it it' + n" and diff_anti: "diff it it' = - diff it' it"
    and eq_diff: "of_view it \<Longrightarrow> of_view it' \<Longrightarrow> eq it it' \<longleftrightarrow> diff it it' = 0"
    and less_diff: "less it it' \<longleftrightarrow> diff it it' < 0"
    and index_deref: "index it n = deref (plus it n)"
begin

lemma dec_inc: "dec (inc it) = it"
  by (simp add: inc_plus dec_minus minus_plus plus_plus plus_0)

lemma minus_cancels: "minus (plus it n) n = it"
  by (simp add: minus_plus plus_plus plus_0)

lemma less_advances: "0 < n \<Longrightarrow> less it (plus it n)"
  using diff_anti [of it "plus it n"] diff_anti [of it it] by (simp add: less_diff diff_plus)

lemma for_each_visits:
  assumes "of_view it" "of_view fin" "diff fin it = int (length xs)"
    and "\<And>k. k < length xs \<Longrightarrow> index it (int k) = Some (xs ! k)"
  shows "for_each eq inc deref it fin = Some xs"
  using assms(1,3,4)
proof (induction xs arbitrary: it)
  case Nil
  then have "eq it fin" using eq_diff assms(2) diff_anti [of it fin] by simp
  then show ?case by (subst for_each.simps) simp
next
  case (Cons x xs)
  have ne: "\<not> eq it fin" using Cons.prems(1,2) eq_diff assms(2) diff_anti [of it fin] by simp
  have "diff fin (inc it) = int (length xs)"
    using Cons.prems(2) by (simp add: inc_plus diff_anti [of fin] diff_plus)
  moreover have "index (inc it) (int k) = Some (xs ! k)" if "k < length xs" for k
    using Cons.prems(3) [of "Suc k"] that by (simp add: inc_plus index_deref plus_plus add.commute)
  moreover have "of_view (inc it)" using Cons.prems(1) by (simp add: inc_plus of_view_plus)
  ultimately have "for_each eq inc deref (inc it) fin = Some xs" by (intro Cons.IH)
  moreover have "deref it = Some x" using Cons.prems(3) [of 0] by (simp add: index_deref plus_0)
  ultimately show ?case using ne by (subst for_each.simps) simp
qed

end

section \<open>Take\<close>

record 'a TakeView =
  tv_base :: "'a list"
  tv_count :: int

definition TakeView_ctor :: "'a list \<Rightarrow> int \<Rightarrow> 'a TakeView" where
  "TakeView_ctor base cnt = \<lparr>tv_base = base, tv_count = cnt\<rparr>"

definition Take_begin :: "'a TakeView \<Rightarrow> int" where
  "Take_begin v = 0"

definition Take_end :: "'a TakeView \<Rightarrow> int option" where
  "Take_end v = ranges_next (Take_begin v) (tv_count v) (int (length (tv_base v)))"

text \<open>The cnt becomes a 64-bit unsigned number.\<close>

definition Take_size :: "'a TakeView \<Rightarrow> nat" where
  "Take_size v = min (length (tv_base v)) (unat (word_of_int (tv_count v) :: 64 word))"

text \<open>The iterators are those of the base.\<close>

definition base_less :: "int \<Rightarrow> int \<Rightarrow> bool" where "base_less i j \<longleftrightarrow> i < j"
definition base_index :: "'a list \<Rightarrow> int \<Rightarrow> int \<Rightarrow> 'a option" where "base_index xs i n = element xs (i + n)"

interpretation bi: random_access_view "\<lambda>_. True" "\<lambda>i. i + 1" "\<lambda>i. i - 1" "(+)" "(-)" "(-)" "(=)" base_less
  "element xs" "base_index xs" for xs :: "'a list"
  by unfold_locales (auto simp: base_less_def base_index_def)

definition Take_elements :: "'a TakeView \<Rightarrow> 'a list option" where
  "Take_elements v = Option.bind (Take_end v)
    (for_each (=) (\<lambda>i. i + 1) (element (tv_base v)) (Take_begin v))"

lemma Take_elements_correct:
  assumes "0 \<le> cnt" "cnt < 2 ^ 63"
  shows "Take_elements (TakeView_ctor base cnt) = Some (take (nat cnt) base)"
    and "Take_size (TakeView_ctor base cnt) = length (take (nat cnt) base)"
proof -
  have "for_each (=) (\<lambda>i. i + 1) (element base) 0 (min cnt (int (length base))) = Some (take (nat cnt) base)"
    by (rule bi.for_each_visits) (use assms in \<open>auto simp: base_index_def\<close>)
  then show "Take_elements (TakeView_ctor base cnt) = Some (take (nat cnt) base)"
    using assms by (simp add: Take_elements_def Take_end_def Take_begin_def TakeView_ctor_def ranges_next_def)
  have "unat (word_of_int cnt :: 64 word) = nat cnt"
    using assms by (simp add: unat_eq_nat_uint uint_word_of_int)
  then show "Take_size (TakeView_ctor base cnt) = length (take (nat cnt) base)"
    by (simp add: Take_size_def TakeView_ctor_def min.commute)
qed

text \<open>With a negative count \<open>size()\<close> is the size of the base, while \<open>end()\<close> is undefined.\<close>

lemma Take_negative:
  assumes "- (2 ^ 63) \<le> cnt" "cnt < 0" "length base < 2 ^ 63"
  shows "Take_elements (TakeView_ctor base cnt) = None" "Take_size (TakeView_ctor base cnt) = length base"
proof -
  have "uint (word_of_int cnt :: 64 word) = cnt + 2 ^ 64"
  proof -
    have "cnt mod 2 ^ 64 = (cnt + 2 ^ 64) mod 2 ^ 64" by simp
    also have "\<dots> = cnt + 2 ^ 64" by (rule mod_pos_pos_trivial) (use assms(1,2) in auto)
    finally show ?thesis by (simp add: uint_word_of_int)
  qed
  then have "length base \<le> unat (word_of_int cnt :: 64 word)"
    using assms by (simp add: unat_eq_nat_uint)
  then show "Take_size (TakeView_ctor base cnt) = length base"
    by (simp add: Take_size_def TakeView_ctor_def)
  show "Take_elements (TakeView_ctor base cnt) = None"
    using assms(2) by (simp add: Take_elements_def Take_end_def TakeView_ctor_def ranges_next_def)
qed

section \<open>Get\<close>

text \<open>A pointer to a member is a name \<open>'f\<close>, and \<open>access f x\<close> is \<open>x.*f\<close>.\<close>

record 'f GetIterator =
  g_it :: int
  g_field :: 'f

record ('a, 'f) GetFieldView =
  gv_base :: "'a list"
  gv_field :: 'f

definition Get_inc :: "'f GetIterator \<Rightarrow> 'f GetIterator" where
  "Get_inc i = i\<lparr>g_it := g_it i + 1\<rparr>"

definition Get_post_inc :: "'f GetIterator \<Rightarrow> 'f GetIterator \<times> 'f GetIterator" where
  "Get_post_inc i = (i, Get_inc i)"

definition Get_deref :: "('f \<Rightarrow> 'a \<Rightarrow> 'b) \<Rightarrow> ('a, 'f) GetFieldView \<Rightarrow> 'f GetIterator \<Rightarrow> 'b option" where
  "Get_deref access v i = map_option (access (g_field i)) (element (gv_base v) (g_it i))"

definition Get_eq :: "'f GetIterator \<Rightarrow> 'f GetIterator \<Rightarrow> bool" where
  "Get_eq i j \<longleftrightarrow> g_it i = g_it j \<and> g_field i = g_field j"

definition Get_dec :: "'f GetIterator \<Rightarrow> 'f GetIterator" where
  "Get_dec i = i\<lparr>g_it := g_it i - 1\<rparr>"

definition Get_post_dec :: "'f GetIterator \<Rightarrow> 'f GetIterator \<times> 'f GetIterator" where
  "Get_post_dec i = (i, Get_dec i)"

definition Get_plus :: "'f GetIterator \<Rightarrow> int \<Rightarrow> 'f GetIterator" where
  "Get_plus i n = i\<lparr>g_it := g_it i + n\<rparr>"

definition Get_minus :: "'f GetIterator \<Rightarrow> int \<Rightarrow> 'f GetIterator" where
  "Get_minus i n = Get_plus i (- n)"

definition Get_diff :: "'f GetIterator \<Rightarrow> 'f GetIterator \<Rightarrow> int" where
  "Get_diff i j = g_it i - g_it j"

definition Get_index :: "('f \<Rightarrow> 'a \<Rightarrow> 'b) \<Rightarrow> ('a, 'f) GetFieldView \<Rightarrow> 'f GetIterator \<Rightarrow> int \<Rightarrow> 'b option" where
  "Get_index access v i n = map_option (access (g_field i)) (element (gv_base v) (g_it i + n))"

definition Get_less :: "'f GetIterator \<Rightarrow> 'f GetIterator \<Rightarrow> bool" where
  "Get_less i j \<longleftrightarrow> g_it i < g_it j"

definition Get_less_eq :: "'f GetIterator \<Rightarrow> 'f GetIterator \<Rightarrow> bool" where
  "Get_less_eq i j \<longleftrightarrow> g_it i \<le> g_it j"

definition GetFieldView_ctor :: "'a list \<Rightarrow> 'f \<Rightarrow> ('a, 'f) GetFieldView" where
  "GetFieldView_ctor base field = \<lparr>gv_base = base, gv_field = field\<rparr>"

definition Get_begin :: "('a, 'f) GetFieldView \<Rightarrow> 'f GetIterator" where
  "Get_begin v = \<lparr>g_it = 0, g_field = gv_field v\<rparr>"

definition Get_end :: "('a, 'f) GetFieldView \<Rightarrow> 'f GetIterator" where
  "Get_end v = \<lparr>g_it = int (length (gv_base v)), g_field = gv_field v\<rparr>"

definition Get_size :: "('a, 'f) GetFieldView \<Rightarrow> nat" where
  "Get_size v = length (gv_base v)"

definition Get_elements :: "('f \<Rightarrow> 'a \<Rightarrow> 'b) \<Rightarrow> ('a, 'f) GetFieldView \<Rightarrow> 'b list option" where
  "Get_elements access v = for_each Get_eq Get_inc (Get_deref access v) (Get_begin v) (Get_end v)"

lemmas Get_defs = Get_inc_def Get_dec_def Get_plus_def Get_minus_def Get_diff_def Get_less_def Get_index_def
  Get_deref_def Get_eq_def Get_begin_def Get_end_def

interpretation gi: random_access_view "\<lambda>i. g_field i = gv_field v" Get_inc Get_dec Get_plus Get_minus Get_diff Get_eq Get_less
  "Get_deref access v" "Get_index access v" for access :: "'f \<Rightarrow> 'a \<Rightarrow> 'b" and v :: "('a, 'f) GetFieldView"
  by unfold_locales (auto simp: Get_defs)

lemma Get_elements_correct:
  "Get_elements access (GetFieldView_ctor base field) = Some (map (access field) base)"
  "Get_size (GetFieldView_ctor base field) = length (map (access field) base)"
proof -
  show "Get_elements access (GetFieldView_ctor base field) = Some (map (access field) base)"
    unfolding Get_elements_def
    by (rule gi.for_each_visits) (auto simp: Get_defs GetFieldView_ctor_def)
qed (simp add: Get_size_def GetFieldView_ctor_def)

section \<open>Stride\<close>

record 'a StrideView =
  sv_base :: "'a list"
  sv_step :: int
  iterators :: "int list"

text \<open>An iterator of the view is a position in its vector of iterators of the base.\<close>

type_synonym stride_iterator = int

definition Stride_inc :: "stride_iterator \<Rightarrow> stride_iterator" where
  "Stride_inc i = i + 1"

definition Stride_post_inc :: "stride_iterator \<Rightarrow> stride_iterator \<times> stride_iterator" where
  "Stride_post_inc i = (i, Stride_inc i)"

definition Stride_deref :: "'a StrideView \<Rightarrow> stride_iterator \<Rightarrow> 'a option" where
  "Stride_deref v i = Option.bind (element (iterators v) i) (element (sv_base v))"

definition Stride_eq :: "stride_iterator \<Rightarrow> stride_iterator \<Rightarrow> bool" where
  "Stride_eq i j \<longleftrightarrow> i = j"

definition Stride_dec :: "stride_iterator \<Rightarrow> stride_iterator" where
  "Stride_dec i = i - 1"

definition Stride_post_dec :: "stride_iterator \<Rightarrow> stride_iterator \<times> stride_iterator" where
  "Stride_post_dec i = (i, Stride_dec i)"

definition Stride_plus :: "stride_iterator \<Rightarrow> int \<Rightarrow> stride_iterator" where
  "Stride_plus i n = i + n"

definition Stride_minus :: "stride_iterator \<Rightarrow> int \<Rightarrow> stride_iterator" where
  "Stride_minus i n = i - n"

definition Stride_diff :: "stride_iterator \<Rightarrow> stride_iterator \<Rightarrow> int" where
  "Stride_diff i j = i - j"

definition Stride_index :: "'a StrideView \<Rightarrow> stride_iterator \<Rightarrow> int \<Rightarrow> 'a option" where
  "Stride_index v i n = Option.bind (element (iterators v) (i + n)) (element (sv_base v))"

definition Stride_less :: "stride_iterator \<Rightarrow> stride_iterator \<Rightarrow> bool" where
  "Stride_less i j \<longleftrightarrow> i < j"

definition Stride_less_eq :: "stride_iterator \<Rightarrow> stride_iterator \<Rightarrow> bool" where
  "Stride_less_eq i j \<longleftrightarrow> i \<le> j"

partial_function (option) StrideView_loop :: "int \<Rightarrow> int \<Rightarrow> int \<Rightarrow> int list \<Rightarrow> int list option" where
  "StrideView_loop fin step it its =
    (case ranges_next it step fin of
       None \<Rightarrow> None
     | Some it \<Rightarrow> if it \<noteq> fin then StrideView_loop fin step it (its @ [it]) else Some its)"

definition StrideView_ctor :: "'a list \<Rightarrow> int \<Rightarrow> 'a StrideView option" where
  "StrideView_ctor base step =
    map_option (\<lambda>its. \<lparr>sv_base = base, sv_step = step, iterators = its\<rparr>)
      (StrideView_loop (int (length base)) step 0 [0])"

definition Stride_begin :: "'a StrideView \<Rightarrow> stride_iterator" where
  "Stride_begin v = 0"

definition Stride_end :: "'a StrideView \<Rightarrow> stride_iterator" where
  "Stride_end v = int (length (iterators v))"

definition Stride_size :: "'a StrideView \<Rightarrow> nat" where
  "Stride_size v = length (iterators v)"

definition Stride_elements :: "'a StrideView \<Rightarrow> 'a list option" where
  "Stride_elements v = for_each Stride_eq Stride_inc (Stride_deref v) (Stride_begin v) (Stride_end v)"

lemmas Stride_defs = Stride_inc_def Stride_dec_def Stride_plus_def Stride_minus_def Stride_diff_def Stride_less_def
  Stride_index_def Stride_deref_def Stride_eq_def Stride_begin_def Stride_end_def

interpretation si: random_access_view "\<lambda>_. True" Stride_inc Stride_dec Stride_plus Stride_minus Stride_diff Stride_eq
  Stride_less "Stride_deref v" "Stride_index v" for v :: "'a StrideView"
  by unfold_locales (auto simp: Stride_defs)

definition steps_in :: "nat \<Rightarrow> nat \<Rightarrow> nat" where
  "steps_in n s = (n + s - 1) div s"

lemma less_steps_in: "0 < s \<Longrightarrow> j < steps_in n s \<longleftrightarrow> j * s < n"
proof -
  assume "0 < s"
  then have "j < (n + s - 1) div s \<longleftrightarrow> Suc j * s \<le> n + s - 1"
    by (simp add: less_eq_div_iff_mult_less_eq Suc_le_eq [symmetric] del: mult_Suc)
  also have "\<dots> \<longleftrightarrow> j * s < n" using \<open>0 < s\<close> by auto
  finally show ?thesis by (simp add: steps_in_def)
qed

lemma StrideView_loop_returns:
  assumes "0 < s" "j * s < n"
  shows "StrideView_loop (int n) (int s) (int (j * s)) its =
    Some (its @ map (\<lambda>k. int (k * s)) [Suc j..<steps_in n s])"
  using assms(2)
proof (induction "n - j * s" arbitrary: j its rule: less_induct)
  case less
  have nx: "ranges_next (int (j * s)) (int s) (int n) = Some (int (min (Suc j * s) n))"
    by (simp add: ranges_next_def algebra_simps of_nat_min)
  show ?case
  proof (cases "Suc j * s < n")
    case True
    then have "[Suc j..<steps_in n s] = Suc j # [Suc (Suc j)..<steps_in n s]"
      using less_steps_in [OF assms(1), of "Suc j" n] by (simp add: upt_conv_Cons)
    moreover have "n - Suc j * s < n - j * s" using less.prems assms(1) by simp
    moreover have "min (Suc j * s) n = Suc j * s" "Suc j * s \<noteq> n" using True by simp_all
    ultimately show ?thesis using less.hyps [OF _ True, of "its @ [int (Suc j * s)]"]
      by (subst StrideView_loop.simps) (simp add: nx del: mult_Suc of_nat_mult)
  next
    case False
    then have "[Suc j..<steps_in n s] = []" using less_steps_in [OF assms(1), of "Suc j" n] by simp
    then show ?thesis using False by (subst StrideView_loop.simps) (simp add: nx min_def del: mult_Suc of_nat_mult)
  qed
qed

lemma StrideView_ctor_returns:
  assumes "0 < s" "base \<noteq> []"
  shows "StrideView_ctor base (int s) = Some \<lparr>sv_base = base, sv_step = int s,
    iterators = map (\<lambda>k. int (k * s)) [0..<steps_in (length base) s]\<rparr>"
proof -
  have "0 < steps_in (length base) s" using less_steps_in [of s 0 "length base"] assms by simp
  then have "[0] @ map (\<lambda>k. int (k * s)) [Suc 0..<steps_in (length base) s] =
      map (\<lambda>k. int (k * s)) [0..<steps_in (length base) s]"
    by (simp add: upt_conv_Cons)
  then show ?thesis
    using StrideView_loop_returns [of s 0 "length base" "[0]"] assms by (simp add: StrideView_ctor_def)
qed

lemma nths_map_filter: "nths xs A = map ((!) xs) (filter (\<lambda>i. i \<in> A) [0..<length xs])"
proof -
  have "zip xs [0..<length xs] = map (\<lambda>i. (xs ! i, i)) [0..<length xs]"
    by (rule nth_equalityI) auto
  then show ?thesis by (simp add: nths_def filter_map o_def)
qed

lemma multiples_filter:
  assumes "0 < s"
  shows "map (\<lambda>k. k * s) [0..<steps_in n s] = filter ((dvd) s) [0..<n]"
proof (rule sorted_distinct_set_unique)
  show "sorted (map (\<lambda>k. k * s) [0..<steps_in n s])"
    by (simp add: sorted_iff_nth_mono)
  show "distinct (map (\<lambda>k. k * s) [0..<steps_in n s])"
    using assms by (simp add: distinct_map inj_on_def)
  show "sorted (filter ((dvd) s) [0..<n])" "distinct (filter ((dvd) s) [0..<n])"
    by (simp_all add: sorted_wrt_filter)
  have "i \<in> (\<lambda>k. k * s) ` {0..<steps_in n s} \<longleftrightarrow> s dvd i \<and> i < n" for i
    using less_steps_in [OF assms] by (auto simp: image_iff dvd_def mult.commute)
  then show "set (map (\<lambda>k. k * s) [0..<steps_in n s]) = set (filter ((dvd) s) [0..<n])"
    by auto
qed

lemma every_nths:
  assumes "0 < s"
  shows "map (\<lambda>k. base ! (k * s)) [0..<steps_in (length base) s] = nths base {i. s dvd i}"
proof -
  have "map (\<lambda>k. base ! (k * s)) [0..<steps_in (length base) s] =
      map ((!) base) (map (\<lambda>k. k * s) [0..<steps_in (length base) s])" by (simp add: o_def)
  then show ?thesis by (simp only: multiples_filter [OF assms] nths_map_filter mem_Collect_eq)
qed

text \<open>\<open>r | Stride(step)\<close>, and what iterating over it visits; the same for the other adaptors.\<close>

definition StrideAdaptor :: "int \<Rightarrow> 'a list \<Rightarrow> 'a list option" where
  "StrideAdaptor step r = Option.bind (StrideView_ctor r step) Stride_elements"

definition GetAdaptor :: "('f \<Rightarrow> 'a \<Rightarrow> 'b) \<Rightarrow> 'f \<Rightarrow> 'a list \<Rightarrow> 'b list option" where
  "GetAdaptor access field r = Get_elements access (GetFieldView_ctor r field)"

definition TakeAdaptor :: "int \<Rightarrow> 'a list \<Rightarrow> 'a list option" where
  "TakeAdaptor n r = Take_elements (TakeView_ctor r n)"

lemma StrideAdaptor_visits:
  assumes "0 < s" "base \<noteq> []"
  shows "StrideAdaptor (int s) base = Some (nths base {i. s dvd i})"
proof -
  let ?v = "\<lparr>sv_base = base, sv_step = int s, iterators = map (\<lambda>k. int (k * s)) [0..<steps_in (length base) s]\<rparr>"
  have "Stride_elements ?v = Some (map (\<lambda>k. base ! (k * s)) [0..<steps_in (length base) s])"
    unfolding Stride_elements_def
    by (rule si.for_each_visits)
      (auto simp: Stride_defs element_def less_steps_in [OF assms(1)] nat_mult_distrib simp flip: of_nat_mult)
  then show ?thesis
    using StrideView_ctor_returns [OF assms] by (simp add: StrideAdaptor_def every_nths [OF assms(1)])
qed

lemma nths_multiples_nonempty: "base \<noteq> [] \<Longrightarrow> nths base {i. (s :: nat) dvd i} \<noteq> []"
  by (cases base) (simp_all add: nths_Cons)

lemma length_every:
  assumes "0 < s"
  shows "length (nths base {i. s dvd i}) = steps_in (length base) s"
  by (simp flip: every_nths [OF assms])

lemma steps_in_mult:
  assumes "0 < a" "0 < b"
  shows "steps_in (steps_in n a) b = steps_in n (a * b)"
proof -
  have "j < steps_in (steps_in n a) b \<longleftrightarrow> j < steps_in n (a * b)" for j
    using assms by (simp add: less_steps_in ac_simps)
  then show ?thesis by (meson linorder_neqE_nat less_irrefl)
qed

lemma every_every:
  assumes "0 < a" "0 < b"
  shows "nths (nths base {i. a dvd i}) {i. b dvd i} = nths base {i. a * b dvd i}"
proof -
  let ?ys = "nths base {i. a dvd i}"
  have "nths ?ys {i. b dvd i} = map (\<lambda>k. ?ys ! (k * b)) [0..<steps_in (length ?ys) b]"
    by (rule every_nths [OF assms(2), symmetric])
  also have "\<dots> = map (\<lambda>k. base ! (k * (a * b))) [0..<steps_in (length base) (a * b)]"
  proof (rule map_cong)
    show "[0..<steps_in (length ?ys) b] = [0..<steps_in (length base) (a * b)]"
      using assms by (simp add: length_every steps_in_mult)
    fix k assume "k \<in> set [0..<steps_in (length base) (a * b)]"
    then have "k * b < steps_in (length base) a" using assms by (simp add: less_steps_in ac_simps)
    then show "?ys ! (k * b) = base ! (k * (a * b))"
      by (simp flip: every_nths [OF assms(1)] add: ac_simps)
  qed
  also have "\<dots> = nths base {i. a * b dvd i}" using every_nths [of "a * b" base] assms by simp
  finally show ?thesis .
qed

section \<open>Properties\<close>

text \<open>
  \<open>Stride\<close> visits every \<open>step\<close>-th element of a non-empty range, from the first one on: the constructor
  returns, a range-based \<open>for\<close> over the view ends and visits exactly those elements, and \<open>size()\<close> is their
  number.
\<close>

theorem StrideView_correct:
  assumes "0 < step" "base \<noteq> []"
  shows "\<exists>v. StrideView_ctor base (int step) = Some v \<and>
    Stride_elements v = Some (nths base {i. step dvd i}) \<and> Stride_size v = length (nths base {i. step dvd i})"
proof -
  have "Option.bind (StrideView_ctor base (int step)) Stride_elements = Some (nths base {i. step dvd i})"
    using StrideAdaptor_visits [OF assms] by (simp add: StrideAdaptor_def)
  then show ?thesis
    using StrideView_ctor_returns [OF assms] by (simp add: Stride_size_def length_every [OF assms(1)])
qed

theorem StrideView_correct_witness:
  "\<exists>v. StrideView_ctor [1, 2, 3, 4, 5 :: nat] (int 2) = Some v \<and> Stride_elements v = Some [1, 3, 5]"
  using StrideView_correct [of 2 "[1, 2, 3, 4, 5 :: nat]"] by (auto simp: nths_Cons)



text \<open>
  Of an empty range \<open>Stride\<close> makes a view of one element, which reads past the end; with step 0 the
  constructor never returns.
\<close>

theorem StrideView_empty:
  assumes "0 \<le> step"
  shows "\<exists>v. StrideView_ctor ([] :: 'a list) step = Some v \<and> Stride_size v = 1 \<and>
    Stride_begin v \<noteq> Stride_end v \<and> Stride_deref v (Stride_begin v) = None"
proof -
  have "StrideView_loop 0 step 0 [0] = Some [0]"
    using assms by (subst StrideView_loop.simps) (simp add: ranges_next_def)
  then show ?thesis by (simp add: StrideView_ctor_def Stride_size_def Stride_defs element_def)
qed

lemma StrideView_loop_zero:
  assumes "it < fin"
  shows "StrideView_loop fin 0 it its = None"
proof (rule ccontr)
  assume "StrideView_loop fin 0 it its \<noteq> None"
  then obtain y where ret: "StrideView_loop fin 0 it its = Some y" by blast
  have "0 = (0 :: int) \<longrightarrow> \<not> it < fin"
    by (rule StrideView_loop.raw_induct [where P = "\<lambda>fin step it its y. step = 0 \<longrightarrow> \<not> it < fin", OF _ ret])
      (auto simp: ranges_next_def split: if_splits)
  then show False using assms by simp
qed

theorem StrideView_step_zero: "base \<noteq> [] \<Longrightarrow> StrideView_ctor base 0 = None"
  by (simp add: StrideView_ctor_def StrideView_loop_zero)

end
