(* ===== verification/Coroutines.thy ===== *)
theory Coroutines
  imports Prelude "HOL-Library.Product_Lexorder"
begin

text \<open>
  The coroutine scheduler of \<open>coroutine/coroutine.h\<close>: \<open>std::push_heap\<close> and \<open>std::pop_heap\<close> as binary heap
  operations on a list, the promise and awaiter that record when a coroutine wants to go on, and
  \<open>AddTask\<close>, \<open>Step\<close> and \<open>Run\<close>.  Times are unbounded integers.  The locale \<open>heap_order\<close> has the contract of the
  heap functions for a comparison by a key.
\<close>

section \<open>Heap functions of the standard library\<close>

function sift_up :: "('a \<Rightarrow> 'a \<Rightarrow> bool) \<Rightarrow> 'a list \<Rightarrow> nat \<Rightarrow> 'a list" where
  "sift_up cmp xs i =
    (if i = 0 then xs
     else if cmp (xs ! ((i - 1) div 2)) (xs ! i)
     then sift_up cmp (list_swap xs i ((i - 1) div 2)) ((i - 1) div 2)
     else xs)"
  by pat_completeness auto
termination by (relation "measure (\<lambda>(_, _, i). i)") auto

definition push_heap :: "('a \<Rightarrow> 'a \<Rightarrow> bool) \<Rightarrow> 'a list \<Rightarrow> 'a list" where
  "push_heap cmp xs = sift_up cmp xs (length xs - 1)"

definition greater_child :: "('a \<Rightarrow> 'a \<Rightarrow> bool) \<Rightarrow> 'a list \<Rightarrow> nat \<Rightarrow> nat" where
  "greater_child cmp xs i =
    (if 2 * i + 2 < length xs \<and> cmp (xs ! (2 * i + 1)) (xs ! (2 * i + 2)) then 2 * i + 2 else 2 * i + 1)"

function sift_down :: "('a \<Rightarrow> 'a \<Rightarrow> bool) \<Rightarrow> 'a list \<Rightarrow> nat \<Rightarrow> 'a list" where
  "sift_down cmp xs i =
    (if length xs \<le> 2 * i + 1 then xs
     else let c = greater_child cmp xs i in
       if cmp (xs ! i) (xs ! c) then sift_down cmp (list_swap xs i c) c else xs)"
  by pat_completeness auto
termination by (relation "measure (\<lambda>(_, xs, i). length xs - i)") (auto simp: greater_child_def)

text \<open>\<open>std::pop_heap\<close> moves the greatest element to the end and makes a heap of the others.\<close>

definition pop_heap :: "('a \<Rightarrow> 'a \<Rightarrow> bool) \<Rightarrow> 'a list \<Rightarrow> 'a list" where
  "pop_heap cmp xs =
    (let ys = list_swap xs 0 (length xs - 1) in sift_down cmp (butlast ys) 0 @ [last ys])"

declare sift_up.simps [simp del] sift_down.simps [simp del]

lemma greater_child_bound:
  "2 * i + 1 < length xs \<Longrightarrow> greater_child cmp xs i < length xs \<and> (greater_child cmp xs i - 1) div 2 = i \<and> i < greater_child cmp xs i"
  by (auto simp: greater_child_def)

lemma mset_sift_up [simp]: "i < length xs \<Longrightarrow> mset (sift_up cmp xs i) = mset xs"
proof (induction cmp xs i rule: sift_up.induct)
  case (1 cmp xs i)
  then show ?case by (subst sift_up.simps) auto
qed

lemma length_sift_down [simp]: "length (sift_down cmp xs i) = length xs"
proof (induction cmp xs i rule: sift_down.induct)
  case (1 cmp xs i)
  then show ?case by (subst sift_down.simps) (auto simp: Let_def)
qed

lemma mset_sift_down [simp]: "i < length xs \<Longrightarrow> mset (sift_down cmp xs i) = mset xs"
proof (induction cmp xs i rule: sift_down.induct)
  case (1 cmp xs i)
  then show ?case using greater_child_bound [of i xs cmp] by (subst sift_down.simps) (auto simp: Let_def)
qed

lemma mset_push_heap [simp]: "mset (push_heap cmp xs) = mset xs"
proof (cases "xs = []")
  case True
  then show ?thesis by (simp add: push_heap_def) (subst sift_up.simps, simp)
qed (simp add: push_heap_def)

lemma mset_pop_heap [simp]: "xs \<noteq> [] \<Longrightarrow> mset (pop_heap cmp xs) = mset xs"
proof -
  assume ne: "xs \<noteq> []"
  let ?ys = "list_swap xs 0 (length xs - 1)"
  have ys: "?ys \<noteq> []" using ne by (metis length_0_conv length_list_swap)
  have "mset (sift_down cmp (butlast ?ys) 0) = mset (butlast ?ys)"
  proof (cases "butlast ?ys = []")
    case True
    then show ?thesis using length_sift_down [of cmp "[]" 0] by (metis length_0_conv)
  next
    case False
    then show ?thesis by (intro mset_sift_down) (metis length_greater_0_conv)
  qed
  then have "mset (pop_heap cmp xs) = mset (butlast ?ys @ [last ?ys])" by (simp add: pop_heap_def Let_def)
  also have "\<dots> = mset xs" using ne by (simp only: append_butlast_last_id [OF ys]) simp
  finally show ?thesis .
qed

locale heap_order =
  fixes cmp :: "'a \<Rightarrow> 'a \<Rightarrow> bool" and key :: "'a \<Rightarrow> 'k :: linorder"
  assumes cmp_key: "cmp x y \<longleftrightarrow> key y < key x"
begin

definition ordered_at :: "'a list \<Rightarrow> nat \<Rightarrow> bool" where
  "ordered_at xs j \<longleftrightarrow> key (xs ! ((j - 1) div 2)) \<le> key (xs ! j)"

definition is_heap :: "'a list \<Rightarrow> bool" where
  "is_heap xs \<longleftrightarrow> (\<forall>j. 0 < j \<and> j < length xs \<longrightarrow> ordered_at xs j)"

lemma sift_up_heap:
  assumes "i < length xs" "\<And>j. 0 < j \<Longrightarrow> j < length xs \<Longrightarrow> j \<noteq> i \<Longrightarrow> ordered_at xs j"
    "\<And>j. 0 < i \<Longrightarrow> 0 < j \<Longrightarrow> j < length xs \<Longrightarrow> (j - 1) div 2 = i \<Longrightarrow> key (xs ! ((i - 1) div 2)) \<le> key (xs ! j)"
  shows "is_heap (sift_up cmp xs i)"
  using assms
proof (induction i arbitrary: xs rule: less_induct)
  case (less i)
  let ?p = "(i - 1) div 2"
  show ?case
  proof (cases "i \<noteq> 0 \<and> cmp (xs ! ?p) (xs ! i)")
    case False
    then have "ordered_at xs j" if "0 < j" "j < length xs" for j
      using that less.prems(2) [OF that] by (cases "j = i") (auto simp: ordered_at_def cmp_key)
    moreover have "sift_up cmp xs i = xs" using False by (subst sift_up.simps) auto
    ultimately show ?thesis by (simp add: is_heap_def)
  next
    case True
    let ?ys = "list_swap xs i ?p"
    have p: "?p < i" "?p < length xs" using True less.prems(1) by auto
    have lt: "key (xs ! i) < key (xs ! ?p)" using True by (simp add: cmp_key)
    have nth: "?ys ! k = (if k = ?p then xs ! i else if k = i then xs ! ?p else xs ! k)" if "k < length xs" for k
      using nth_list_swap [OF less.prems(1) p(2) that] by simp
    have par: "(j - 1) div 2 < length xs" if "j < length xs" for j using that by auto
    have ord: "ordered_at ?ys j" if j: "0 < j" "j < length xs" "j \<noteq> ?p" for j
    proof (cases "(j - 1) div 2 = i")
      case True
      then have "j \<noteq> i" "i \<noteq> ?p" using j p by auto
      then show ?thesis using less.prems(3) [OF _ j(1,2) True] True nth [OF j(2)] nth [OF less.prems(1)] j p
        by (simp add: ordered_at_def)
    next
      case False
      show ?thesis
      proof (cases "j = i")
        case True
        then show ?thesis using lt nth [OF less.prems(1)] nth [OF p(2)] p by (auto simp: ordered_at_def)
      next
        case ji: False
        have "ordered_at xs j" using less.prems(2) [OF j(1,2) ji] .
        then show ?thesis using False ji j(3) lt nth [OF j(2)] nth [OF par [OF j(2)]] by (auto simp: ordered_at_def)
      qed
    qed
    have below: "key (?ys ! ((?p - 1) div 2)) \<le> key (?ys ! j)"
      if "0 < ?p" "0 < j" "j < length xs" "(j - 1) div 2 = ?p" for j
    proof -
      have g: "key (xs ! ((?p - 1) div 2)) \<le> key (xs ! ?p)"
        using less.prems(2) [OF that(1) p(2)] p(1) by (simp add: ordered_at_def)
      have y: "?ys ! ((?p - 1) div 2) = xs ! ((?p - 1) div 2)"
        using nth [OF par [OF p(2)]] that(1) p(1) by auto
      have "key (xs ! ?p) \<le> key (?ys ! j)"
      proof (cases "j = i")
        case True
        then show ?thesis using nth [OF that(3)] p(1) by simp
      next
        case False
        have "key (xs ! ?p) \<le> key (xs ! j)" using less.prems(2) [OF that(2,3) False] that(4) by (simp add: ordered_at_def)
        moreover have "j \<noteq> ?p" using that(2,4) by auto
        ultimately show ?thesis using nth [OF that(3)] False by simp
      qed
      then show ?thesis using g y by simp
    qed
    have "is_heap (sift_up cmp ?ys ?p)"
      by (rule less.IH [OF p(1)]) (use p ord below in auto)
    then show ?thesis using True by (subst sift_up.simps) simp
  qed
qed

lemma push_heap_heap: "is_heap xs \<Longrightarrow> is_heap (push_heap cmp (xs @ [x]))"
proof -
  assume h: "is_heap xs"
  have "ordered_at (xs @ [x]) j" if "0 < j" "j < length xs" for j
  proof -
    have "(j - 1) div 2 < length xs" using that by auto
    then show ?thesis using h that by (auto simp: is_heap_def ordered_at_def nth_append)
  qed
  then show ?thesis unfolding push_heap_def by (intro sift_up_heap) auto
qed

lemma sift_down_heap:
  assumes "\<And>j. 0 < j \<Longrightarrow> j < length xs \<Longrightarrow> (j - 1) div 2 \<noteq> i \<Longrightarrow> ordered_at xs j"
    "\<And>j. 0 < i \<Longrightarrow> 0 < j \<Longrightarrow> j < length xs \<Longrightarrow> (j - 1) div 2 = i \<Longrightarrow> key (xs ! ((i - 1) div 2)) \<le> key (xs ! j)"
  shows "is_heap (sift_down cmp xs i)"
  using assms
proof (induction "length xs - i" arbitrary: xs i rule: less_induct)
  case less
  let ?c = "greater_child cmp xs i"
  have least: "key (xs ! ?c) \<le> key (xs ! j)" if "0 < j" "j < length xs" "(j - 1) div 2 = i" for j
  proof -
    have "j = 2 * i + 1 \<or> j = 2 * i + 2" using that by auto
    then show ?thesis using that(2) by (auto simp: greater_child_def cmp_key)
  qed
  show ?case
  proof (cases "2 * i + 1 < length xs \<and> cmp (xs ! i) (xs ! ?c)")
    case False
    have "ordered_at xs j" if "0 < j" "j < length xs" for j
    proof (cases "(j - 1) div 2 = i")
      case True
      then have "2 * i + 1 < length xs" using that by auto
      then show ?thesis using False least [OF that True] True by (auto simp: ordered_at_def cmp_key)
    qed (use less.prems(1) that in auto)
    moreover have "sift_down cmp xs i = xs" using False by (subst sift_down.simps) (auto simp: Let_def)
    ultimately show ?thesis by (simp add: is_heap_def)
  next
    case True
    let ?ys = "list_swap xs i ?c"
    have c: "?c < length xs" "(?c - 1) div 2 = i" "i < ?c" using greater_child_bound [of i xs cmp] True by auto
    have lt: "key (xs ! ?c) < key (xs ! i)" using True by (simp add: cmp_key)
    have nth: "?ys ! k = (if k = ?c then xs ! i else if k = i then xs ! ?c else xs ! k)" if "k < length xs" for k
      using nth_list_swap [of i xs ?c k] c that by simp
    have par: "(j - 1) div 2 < length xs" if "j < length xs" for j using that by auto
    have ord: "ordered_at ?ys j" if j: "0 < j" "j < length xs" "(j - 1) div 2 \<noteq> ?c" for j
    proof (cases "(j - 1) div 2 = i")
      case True
      then have "j \<noteq> i" using j(1) by auto
      then show ?thesis using True least [OF j(1,2) True] lt nth [OF j(2)] nth [OF par [OF j(2)]] j(3)
        by (auto simp: ordered_at_def)
    next
      case False
      then have jc: "j \<noteq> ?c" using c(2) by auto
      have "key (xs ! ((i - 1) div 2)) \<le> key (xs ! ?c)" if "j = i"
        using less.prems(2) [of ?c] j(1) c that by auto
      then show ?thesis using False jc less.prems(1) [OF j(1,2) False] nth [OF j(2)] nth [OF par [OF j(2)]] j(3)
        by (auto simp: ordered_at_def)
    qed
    have below: "key (?ys ! ((?c - 1) div 2)) \<le> key (?ys ! j)"
      if j: "0 < j" "j < length xs" "(j - 1) div 2 = ?c" for j
    proof -
      have "j \<noteq> i" "j \<noteq> ?c" "(j - 1) div 2 \<noteq> i" using j c by auto
      then show ?thesis using less.prems(1) [OF j(1,2)] j c nth [OF j(2)] nth [of i] by (simp add: ordered_at_def)
    qed
    have "is_heap (sift_down cmp ?ys ?c)"
      by (rule less.hyps) (use c ord below in auto)
    then show ?thesis using True by (subst sift_down.simps) (simp add: Let_def)
  qed
qed

lemma heap_root_least: "is_heap xs \<Longrightarrow> i < length xs \<Longrightarrow> key (xs ! 0) \<le> key (xs ! i)"
proof (induction i rule: less_induct)
  case (less i)
  show ?case
  proof (cases "i = 0")
    case False
    then have "key (xs ! ((i - 1) div 2)) \<le> key (xs ! i)"
      using less.prems by (simp add: is_heap_def ordered_at_def)
    moreover have "key (xs ! 0) \<le> key (xs ! ((i - 1) div 2))"
      using less.IH [of "(i - 1) div 2"] less.prems False by simp
    ultimately show ?thesis by simp
  qed simp
qed

lemma pop_heap_last:
  assumes "is_heap xs" "xs \<noteq> []"
  shows "last (pop_heap cmp xs) = xs ! 0" "\<forall>y \<in> set xs. key (xs ! 0) \<le> key y"
proof -
  have "list_swap xs 0 (length xs - 1) \<noteq> []" using assms(2) by (metis length_0_conv length_list_swap)
  then show "last (pop_heap cmp xs) = xs ! 0"
    using assms(2) by (simp add: pop_heap_def Let_def last_conv_nth nth_list_swap)
  show "\<forall>y \<in> set xs. key (xs ! 0) \<le> key y"
    using heap_root_least [OF assms(1)] by (auto simp: in_set_conv_nth)
qed

lemma pop_heap_rest:
  assumes "is_heap xs" "xs \<noteq> []"
  shows "is_heap (butlast (pop_heap cmp xs))"
proof -
  let ?ys = "list_swap xs 0 (length xs - 1)"
  have "ordered_at (butlast ?ys) j" if j: "0 < j" "j < length xs - 1" "(j - 1) div 2 \<noteq> 0" for j
  proof -
    have "ordered_at xs j" using assms(1) j by (auto simp: is_heap_def)
    moreover have p: "(j - 1) div 2 < length xs - 1" using j by auto
    moreover have "?ys ! j = xs ! j" "?ys ! ((j - 1) div 2) = xs ! ((j - 1) div 2)"
      using nth_list_swap [of 0 xs "length xs - 1" j] nth_list_swap [of 0 xs "length xs - 1" "(j - 1) div 2"]
        assms(2) j p by auto
    ultimately show ?thesis using j by (simp add: ordered_at_def nth_butlast)
  qed
  then have "is_heap (sift_down cmp (butlast ?ys) 0)" by (intro sift_down_heap) auto
  then show ?thesis by (simp add: pop_heap_def Let_def)
qed

end

section \<open>Coroutines\<close>

text \<open>
  A body is cut at its \<open>co_await\<close>s: a segment takes some time, has effects, adds tasks to the scheduler, and
  then awaits a time point or a duration, or ends.  An exception ends the body like \<open>co_return\<close>, since
  \<open>unhandled_exception\<close> does nothing.
\<close>

datatype wait = Until int | For int

datatype 'e body =
  Body (cost: nat) (effects: "'e list") (spawned: "'e body list") (rest: "(wait \<times> 'e body) option")

text \<open>
  \<open>frame\<close> is the rest of the body, \<open>None\<close> at the final suspension; \<open>awaiting\<close> the time point of the
  \<open>Awaiter\<close> in whose \<open>await_resume\<close> the coroutine goes on; \<open>promise_next_time\<close> is \<open>Promise::next_time\<close>.
\<close>

record 'e Coroutine =
  frame :: "'e body option"
  awaiting :: "int option"
  promise_next_time :: int
  is_started :: bool
  added_time :: int
  next_time :: int

record 'e Scheduler =
  coroutines :: "'e Coroutine list"
  clock :: int
  log :: "'e list"

definition Coroutine_ctor :: "'e body \<Rightarrow> int \<Rightarrow> 'e Coroutine" where
  "Coroutine_ctor b now = \<lparr>frame = Some b, awaiting = None, promise_next_time = 0,
    is_started = False, added_time = now, next_time = now\<rparr>"

definition Done :: "'e Coroutine \<Rightarrow> bool" where
  "Done c \<longleftrightarrow> frame c = None"

definition Compare :: "'e Coroutine \<Rightarrow> 'e Coroutine \<Rightarrow> bool" where
  "Compare lhr rhr =
    (if is_started lhr \<and> \<not> is_started rhr then True
     else if \<not> is_started lhr \<and> is_started rhr then False
     else if next_time lhr > next_time rhr then True
     else if next_time lhr < next_time rhr then False
     else added_time lhr > added_time rhr)"

definition AddTask :: "'e body \<Rightarrow> 'e Scheduler \<Rightarrow> 'e Scheduler" where
  "AddTask task s = s\<lparr>coroutines := push_heap Compare (coroutines s @ [Coroutine_ctor task (clock s)])\<rparr>"

fun await_transform :: "int \<Rightarrow> wait \<Rightarrow> int" where
  "await_transform now (Until time_point) = time_point"
| "await_transform now (For duration) = now + duration"

text \<open>\<open>await_resume\<close>: the thread sleeps until the time point.\<close>

definition await_resume :: "'e Coroutine \<Rightarrow> 'e Scheduler \<Rightarrow> 'e Scheduler" where
  "await_resume c s = s\<lparr>clock := (case awaiting c of None \<Rightarrow> clock s | Some t \<Rightarrow> max (clock s) t)\<rparr>"

text \<open>\<open>handle_.resume()\<close>: one segment of the body.\<close>

definition resume_body :: "'e Coroutine \<Rightarrow> 'e Scheduler \<Rightarrow> 'e Coroutine \<times> 'e Scheduler" where
  "resume_body c s =
    (case frame c of
       None \<Rightarrow> (c, s)
     | Some b \<Rightarrow>
       let s = await_resume c s;
           s = s\<lparr>clock := clock s + int (cost b), log := log s @ effects b\<rparr>;
           s = fold AddTask (spawned b) s
       in (case rest b of
             None \<Rightarrow> (c\<lparr>frame := None, awaiting := None\<rparr>, s)
           | Some (w, b') \<Rightarrow>
             let t = await_transform (clock s) w
             in (c\<lparr>frame := Some b', awaiting := Some t, promise_next_time := t\<rparr>, s)))"

definition Coroutine_Resume :: "'e Coroutine \<Rightarrow> 'e Scheduler \<Rightarrow> 'e Coroutine \<times> 'e Scheduler" where
  "Coroutine_Resume c s =
    (let (c, s) = resume_body (c\<lparr>is_started := True\<rparr>) s in (c\<lparr>next_time := promise_next_time c\<rparr>, s))"

definition Step :: "'e Scheduler \<Rightarrow> bool \<times> 'e Scheduler" where
  "Step s =
    (if coroutines s = [] then (False, s)
     else let cs = pop_heap Compare (coroutines s);
              (c, s) = Coroutine_Resume (last cs) (s\<lparr>coroutines := butlast cs\<rparr>)
          in (True, if Done c then s else s\<lparr>coroutines := push_heap Compare (coroutines s @ [c])\<rparr>))"

partial_function (option) Scheduler_Run :: "'e Scheduler \<Rightarrow> 'e Scheduler option" where
  "Scheduler_Run s = (if fst (Step s) then Scheduler_Run (snd (Step s)) else Some (snd (Step s)))"

section \<open>The order of the queue\<close>

text \<open>Coroutines not yet started come first, then those with the earliest time, then those added first.\<close>

definition prio :: "'e Coroutine \<Rightarrow> bool \<times> int \<times> int" where
  "prio c = (is_started c, next_time c, added_time c)"

interpretation co: heap_order Compare prio
  by unfold_locales (auto simp: Compare_def prio_def less_prod_def')

definition coroutine_ok :: "'e Coroutine \<Rightarrow> bool" where
  "coroutine_ok c \<longleftrightarrow> frame c \<noteq> None \<and> awaiting c = (if is_started c then Some (next_time c) else None)"

definition scheduler_ok :: "'e Scheduler \<Rightarrow> bool" where
  "scheduler_ok s \<longleftrightarrow> co.is_heap (coroutines s) \<and> (\<forall>c \<in> set (coroutines s). coroutine_ok c)"

lemma set_push_heap [simp]: "set (push_heap cmp xs) = set xs"
  by (metis mset_push_heap set_mset_mset)

lemma AddTask_ok:
  assumes "scheduler_ok s"
  shows "scheduler_ok (AddTask b s)"
  using assms co.push_heap_heap [of "coroutines s" "Coroutine_ctor b (clock s)"]
  by (auto simp: scheduler_ok_def AddTask_def coroutine_ok_def Coroutine_ctor_def)

lemma AddTasks_ok: "scheduler_ok s \<Longrightarrow> scheduler_ok (fold AddTask bs s)"
  by (induction bs arbitrary: s) (simp_all add: AddTask_ok)

lemma AddTasks_frame:
  "clock (fold AddTask bs s) = clock s \<and> log (fold AddTask bs s) = log s \<and>
   mset (coroutines (fold AddTask bs s)) =
     mset (coroutines s) + mset (map (\<lambda>b. Coroutine_ctor b (clock s)) bs)"
  by (induction bs arbitrary: s) (simp_all add: AddTask_def)

text \<open>What \<open>Resume\<close> of a coroutine with body \<open>b\<close> does, for the coroutine and for the scheduler.\<close>

definition continues :: "'e Coroutine \<Rightarrow> 'e body \<Rightarrow> int \<Rightarrow> 'e Coroutine list" where
  "continues c b now = (case rest b of
     None \<Rightarrow> []
   | Some (w, b') \<Rightarrow> [c\<lparr>frame := Some b', awaiting := Some (await_transform now w),
       promise_next_time := await_transform now w, is_started := True, next_time := await_transform now w\<rparr>])"

definition wakes_at :: "'e Coroutine \<Rightarrow> 'e Scheduler \<Rightarrow> int" where
  "wakes_at c s = (if is_started c then max (clock s) (next_time c) else clock s)"

lemma Resume_effect:
  assumes "frame c = Some b" "awaiting c = (if is_started c then Some (next_time c) else None)"
    and s': "s' = fold AddTask (spawned b) (s\<lparr>clock := wakes_at c s + int (cost b), log := log s @ effects b\<rparr>)"
  shows "snd (Coroutine_Resume c s) = s'"
    and "continues c b (clock s') = (if Done (fst (Coroutine_Resume c s)) then [] else [fst (Coroutine_Resume c s)])"
proof -
  have "await_resume (c\<lparr>is_started := True\<rparr>) s = s\<lparr>clock := wakes_at c s\<rparr>"
    using assms(2) by (simp add: await_resume_def wakes_at_def)
  then have body: "resume_body (c\<lparr>is_started := True\<rparr>) s = (case rest b of
      None \<Rightarrow> (c\<lparr>is_started := True, frame := None, awaiting := None\<rparr>, s')
    | Some (w, b') \<Rightarrow> (c\<lparr>is_started := True, frame := Some b', awaiting := Some (await_transform (clock s') w),
        promise_next_time := await_transform (clock s') w\<rparr>, s'))"
    using assms(1) by (simp add: resume_body_def Let_def s' split: option.splits)
  show "snd (Coroutine_Resume c s) = s'"
    by (simp add: Coroutine_Resume_def body split: option.splits prod.splits)
  show "continues c b (clock s') = (if Done (fst (Coroutine_Resume c s)) then [] else [fst (Coroutine_Resume c s)])"
    by (auto simp: Coroutine_Resume_def body continues_def Done_def split: option.splits prod.splits)
qed

lemma Step_effect:
  assumes ok: "scheduler_ok s" and ne: "coroutines s \<noteq> []"
  shows "\<exists>c b. c \<in> set (coroutines s) \<and> frame c = Some b \<and> (\<forall>d \<in> set (coroutines s). prio c \<le> prio d) \<and>
    fst (Step s) \<and> scheduler_ok (snd (Step s)) \<and> log (snd (Step s)) = log s @ effects b \<and>
    clock (snd (Step s)) = wakes_at c s + int (cost b) \<and>
    mset (coroutines (snd (Step s))) = mset (coroutines s) - {#c#} +
      mset (map (\<lambda>b'. Coroutine_ctor b' (wakes_at c s + int (cost b))) (spawned b)) +
      mset (continues c b (wakes_at c s + int (cost b)))"
proof -
  let ?cs = "pop_heap Compare (coroutines s)"
  define c where "c = last ?cs"
  have heap: "co.is_heap (coroutines s)" using ok by (simp add: scheduler_ok_def)
  have c0: "c = coroutines s ! 0" using co.pop_heap_last(1) [OF heap ne] by (simp add: c_def)
  have mem: "c \<in> set (coroutines s)" using ne by (simp add: c0)
  have least: "\<forall>d \<in> set (coroutines s). prio c \<le> prio d" using co.pop_heap_last(2) [OF heap ne] by (simp add: c0)
  obtain b where b: "frame c = Some b" "awaiting c = (if is_started c then Some (next_time c) else None)"
    using ok mem by (auto simp: scheduler_ok_def coroutine_ok_def)
  have cs: "?cs = butlast ?cs @ [c]" unfolding c_def
    using mset_pop_heap [OF ne, of Compare] ne by (metis append_butlast_last_id mset_zero_iff)
  have ms: "mset (coroutines s) = add_mset c (mset (butlast ?cs))"
    using mset_pop_heap [OF ne, of Compare] arg_cong [OF cs, of mset] by simp
  define s1 where "s1 = s\<lparr>coroutines := butlast ?cs, clock := wakes_at c s + int (cost b), log := log s @ effects b\<rparr>"
  define s2 where "s2 = fold AddTask (spawned b) s1"
  have "co.is_heap (butlast ?cs)" by (rule co.pop_heap_rest [OF heap ne])
  moreover have "set (butlast ?cs) \<subseteq> set (coroutines s)" using arg_cong [OF ms, of set_mset] by auto
  ultimately have ok1: "scheduler_ok s1" using ok by (auto simp: scheduler_ok_def s1_def)
  then have ok2: "scheduler_ok s2" by (simp add: s2_def AddTasks_ok)
  have s2: "clock s2 = wakes_at c s + int (cost b)" "log s2 = log s @ effects b"
    "mset (coroutines s2) = mset (coroutines s) - {#c#} +
      mset (map (\<lambda>b'. Coroutine_ctor b' (wakes_at c s + int (cost b))) (spawned b))"
    using AddTasks_frame [of "spawned b" s1] by (simp_all add: s2_def s1_def ms)
  have "wakes_at c (s\<lparr>coroutines := butlast ?cs\<rparr>) = wakes_at c s" by (simp add: wakes_at_def)
  then have resume: "snd (Coroutine_Resume c (s\<lparr>coroutines := butlast ?cs\<rparr>)) = s2"
    "continues c b (clock s2) = (if Done (fst (Coroutine_Resume c (s\<lparr>coroutines := butlast ?cs\<rparr>))) then []
       else [fst (Coroutine_Resume c (s\<lparr>coroutines := butlast ?cs\<rparr>))])"
    using Resume_effect [OF b refl, of "s\<lparr>coroutines := butlast ?cs\<rparr>"] by (simp_all add: s2_def s1_def)
  have step: "Step s = (True, (case continues c b (clock s2) of [] \<Rightarrow> s2 | c' # _ \<Rightarrow>
      s2\<lparr>coroutines := push_heap Compare (coroutines s2 @ [c'])\<rparr>))"
    using ne resume by (simp add: Step_def Let_def c_def [symmetric] case_prod_beta)
  have "scheduler_ok (s2\<lparr>coroutines := push_heap Compare (coroutines s2 @ [c'])\<rparr>)" if "coroutine_ok c'" for c'
    using ok2 that co.push_heap_heap [of "coroutines s2" c'] by (auto simp: scheduler_ok_def)
  then have "scheduler_ok (snd (Step s))"
    using ok2 by (auto simp: step continues_def coroutine_ok_def split: list.splits option.splits)
  moreover have "mset (coroutines (snd (Step s))) = mset (coroutines s2) + mset (continues c b (clock s2))"
    by (auto simp: step continues_def split: list.splits option.splits)
  moreover have "log (snd (Step s)) = log s2" "clock (snd (Step s)) = clock s2" "fst (Step s)"
    by (auto simp: step split: list.splits)
  ultimately show ?thesis using mem least b(1) s2
    by (intro exI [of _ c] exI [of _ b]) simp
qed

section \<open>Run\<close>

fun segments :: "'e body \<Rightarrow> nat" where
  "segments (Body n es bs r) = 1 + sum_list (map segments bs) + (case r of None \<Rightarrow> 0 | Some (w, b) \<Rightarrow> segments b)"

fun all_effects :: "'e body \<Rightarrow> 'e multiset" where
  "all_effects (Body n es bs r) =
    mset es + sum_list (map all_effects bs) + (case r of None \<Rightarrow> {#} | Some (w, b) \<Rightarrow> all_effects b)"

definition left_segments :: "'e Coroutine \<Rightarrow> nat" where
  "left_segments c = (case frame c of None \<Rightarrow> 0 | Some b \<Rightarrow> segments b)"

definition left_effects :: "'e Coroutine \<Rightarrow> 'e multiset" where
  "left_effects c = (case frame c of None \<Rightarrow> {#} | Some b \<Rightarrow> all_effects b)"

definition pending_segments :: "'e Scheduler \<Rightarrow> nat" where
  "pending_segments s = (\<Sum>c \<in># mset (coroutines s). left_segments c)"

definition pending_effects :: "'e Scheduler \<Rightarrow> 'e multiset" where
  "pending_effects s = (\<Sum>c \<in># mset (coroutines s). left_effects c)"

lemma segments_body: "segments b =
    1 + sum_list (map segments (spawned b)) + (case rest b of None \<Rightarrow> 0 | Some (w, b) \<Rightarrow> segments b)"
  by (cases b) simp

lemma all_effects_body: "all_effects b = mset (effects b) + sum_list (map all_effects (spawned b)) +
    (case rest b of None \<Rightarrow> {#} | Some (w, b) \<Rightarrow> all_effects b)"
  by (cases b) simp

lemma left_ctor [simp]:
  "left_segments (Coroutine_ctor b t) = segments b" "left_effects (Coroutine_ctor b t) = all_effects b"
  by (simp_all add: left_segments_def left_effects_def Coroutine_ctor_def)

lemma left_continues:
  "sum_list (map left_segments (continues c b t)) = (case rest b of None \<Rightarrow> 0 | Some (w, b) \<Rightarrow> segments b)"
  "sum_list (map left_effects (continues c b t)) = (case rest b of None \<Rightarrow> {#} | Some (w, b) \<Rightarrow> all_effects b)"
  by (auto simp: continues_def left_segments_def left_effects_def split: option.splits)

lemma sum_mset_map: "(\<Sum>x \<in># mset xs. f x) = sum_list (map f xs)"
  by (metis mset_map sum_mset_sum_list)

lemma Step_progress:
  assumes ok: "scheduler_ok s" and ne: "coroutines s \<noteq> []"
  shows "fst (Step s)" "scheduler_ok (snd (Step s))"
    and "pending_segments s = Suc (pending_segments (snd (Step s)))"
    and "mset (log s) + pending_effects s = mset (log (snd (Step s))) + pending_effects (snd (Step s))"
proof -
  obtain c b where c: "c \<in> set (coroutines s)" "frame c = Some b" "fst (Step s)" "scheduler_ok (snd (Step s))"
    "log (snd (Step s)) = log s @ effects b"
    "mset (coroutines (snd (Step s))) = mset (coroutines s) - {#c#} +
      mset (map (\<lambda>b'. Coroutine_ctor b' (wakes_at c s + int (cost b))) (spawned b)) +
      mset (continues c b (wakes_at c s + int (cost b)))"
    using Step_effect [OF assms] by blast
  define rst where "rst = mset (coroutines s) - {#c#}"
  have ms: "mset (coroutines s) = add_mset c rst" using c(1) by (simp add: rst_def)
  show "fst (Step s)" "scheduler_ok (snd (Step s))" by fact+
  show "pending_segments s = Suc (pending_segments (snd (Step s)))"
    unfolding pending_segments_def c(6) ms using c(2) segments_body [of b]
    by (simp add: left_continues sum_mset_map multiset.map_comp o_def left_segments_def [of c])
  show "mset (log s) + pending_effects s = mset (log (snd (Step s))) + pending_effects (snd (Step s))"
    unfolding pending_effects_def c(6) ms using c(2,5) all_effects_body [of b]
    by (simp add: left_continues sum_mset_map multiset.map_comp o_def left_effects_def [of c] ac_simps)
qed

section \<open>Properties\<close>



text \<open>The example of the documentation: it prints 1 4 5 2 6 3.\<close>

definition TaskA :: "nat body" where
  "TaskA = Body 0 [1] [] (Some (For 100, Body 0 [2] [] (Some (For 100, Body 0 [3] [] None))))"

definition TaskB :: "nat body" where
  "TaskB = Body 0 [4] [] (Some (For 40, Body 0 [5] [] (Some (For 140, Body 0 [6] [] None))))"

definition two_tasks :: "nat Scheduler" where
  "two_tasks = AddTask TaskB ((AddTask TaskA \<lparr>coroutines = [], clock = 0, log = []\<rparr>)\<lparr>clock := 1\<rparr>)"

lemma two_tasks_ok: "scheduler_ok two_tasks"
proof -
  have "scheduler_ok (AddTask TaskA \<lparr>coroutines = [], clock = 0, log = []\<rparr>)"
    by (rule AddTask_ok) (simp add: scheduler_ok_def co.is_heap_def)
  then show ?thesis unfolding two_tasks_def by (intro AddTask_ok) (simp add: scheduler_ok_def)
qed

lemma two_tasks_log: "log (((\<lambda>s. snd (Step s)) ^^ 5) two_tasks) = [1, 4, 5, 2, 6]"
  by code_simp



end
