(* ===== verification/Traits.thy ===== *)
theory Traits
  imports Prelude
begin

text \<open>
  Code chosen by the properties of a type: \<open>sfinae/clever_set.h\<close>, \<open>sfinae/advance.h\<close> and the recursive concept of
  \<open>concepts/concepts.h\<close>.  What the compiler knows of a type is a value of the model, the choice of an overload or
  of a partial specialization a function of it.  The locale \<open>class_set\<close> is a set of elements up to an
  equivalence; each storage of \<open>CleverSet\<close> is an interpretation of it.
\<close>

section \<open>CleverSet: which storage\<close>

text \<open>The operators of a type, \<open>None\<close> where it has none.\<close>

record 'a type_ops =
  has_hash :: bool
  op_eq :: "('a \<Rightarrow> 'a \<Rightarrow> bool) option"
  op_ne :: "('a \<Rightarrow> 'a \<Rightarrow> bool) option"
  op_less :: "('a \<Rightarrow> 'a \<Rightarrow> bool) option"
  op_greater :: "('a \<Rightarrow> 'a \<Rightarrow> bool) option"

definition IsHashable :: "'a type_ops \<Rightarrow> bool" where
  "IsHashable T \<longleftrightarrow> has_hash T"

definition IsEqualable :: "'a type_ops \<Rightarrow> bool" where
  "IsEqualable T \<longleftrightarrow> op_ne T \<noteq> None \<or> op_eq T \<noteq> None"

definition IsComparable :: "'a type_ops \<Rightarrow> bool" where
  "IsComparable T \<longleftrightarrow> op_greater T \<noteq> None \<or> op_less T \<noteq> None"

text \<open>\<open>Compare<T>\<close>: the specialization is taken when \<open>std::greater<>\<close> applies.\<close>

definition Compare_less :: "'a type_ops \<Rightarrow> ('a \<Rightarrow> 'a \<Rightarrow> bool) option" where
  "Compare_less T = (case op_greater T of Some gt \<Rightarrow> Some (\<lambda>lhr rhr. gt rhr lhr) | None \<Rightarrow> op_less T)"

datatype storage = Hashed | Ordered | By_address

text \<open>The partial specializations whose \<open>enable_if_t\<close> holds; the primary template is used when there is none.\<close>

definition enabled :: "'a type_ops \<Rightarrow> storage list" where
  "enabled T =
    (if IsHashable T \<and> IsEqualable T then [Hashed] else []) @
    (if IsComparable T \<and> \<not> (IsHashable T \<and> IsEqualable T) then [Ordered] else [])"

text \<open>\<open>None\<close>: the compiler cannot choose between two specializations.\<close>

definition storage_of :: "'a type_ops \<Rightarrow> storage option" where
  "storage_of T = (case enabled T of [] \<Rightarrow> Some By_address | [st] \<Rightarrow> Some st | _ \<Rightarrow> None)"

section \<open>Sets up to an equivalence\<close>

text \<open>\<open>insert\<close>, \<open>find\<close> and \<open>erase\<close> of the standard containers, for the equivalence that identifies elements.\<close>

definition std_find :: "('a \<Rightarrow> 'a \<Rightarrow> bool) \<Rightarrow> 'a list \<Rightarrow> 'a \<Rightarrow> bool" where
  "std_find same data v \<longleftrightarrow> list_ex (\<lambda>x. same x v) data"

definition std_insert :: "('a \<Rightarrow> 'a \<Rightarrow> bool) \<Rightarrow> 'a list \<Rightarrow> 'a \<Rightarrow> bool \<times> 'a list" where
  "std_insert same data v = (if std_find same data v then (False, data) else (True, v # data))"

definition std_erase :: "('a \<Rightarrow> 'a \<Rightarrow> bool) \<Rightarrow> 'a list \<Rightarrow> 'a \<Rightarrow> 'a list" where
  "std_erase same data v = filter (\<lambda>x. \<not> same x v) data"

text \<open>The four methods, which have the same text in all three classes.\<close>

definition Insert :: "('a \<Rightarrow> 'a \<Rightarrow> bool) \<Rightarrow> 'a list \<Rightarrow> 'a \<Rightarrow> bool \<times> 'a list" where
  "Insert same data v = std_insert same data v"

definition Erase :: "('a \<Rightarrow> 'a \<Rightarrow> bool) \<Rightarrow> 'a list \<Rightarrow> 'a \<Rightarrow> bool \<times> 'a list" where
  "Erase same data v = (if std_find same data v then (True, std_erase same data v) else (False, data))"

definition Find :: "('a \<Rightarrow> 'a \<Rightarrow> bool) \<Rightarrow> 'a list \<Rightarrow> 'a \<Rightarrow> bool" where
  "Find same data v = std_find same data v"

definition Size :: "'a list \<Rightarrow> nat" where
  "Size data = length data"

definition set_ok :: "('a \<Rightarrow> 'a \<Rightarrow> bool) \<Rightarrow> 'a list \<Rightarrow> bool" where
  "set_ok same data \<longleftrightarrow> sorted_wrt (\<lambda>x y. \<not> same x y) data"

locale class_set =
  fixes same :: "'a \<Rightarrow> 'a \<Rightarrow> bool"
  assumes same_refl: "same x x" and same_sym: "same x y \<Longrightarrow> same y x"
    and same_trans: "same x y \<Longrightarrow> same y z \<Longrightarrow> same x z"
begin

lemma Find_same:
  assumes "Find same data v" "same v w"
  shows "Find same data w"
  using assms same_trans [of _ v w] by (auto simp: Find_def std_find_def list_ex_iff)

lemma Insert_result: "fst (Insert same data v) \<longleftrightarrow> \<not> Find same data v"
  by (simp add: Insert_def std_insert_def Find_def)

lemma Insert_Find: "Find same (snd (Insert same data v)) w \<longleftrightarrow> Find same data w \<or> same v w"
  using Find_same [of data v w] by (auto simp: Insert_def std_insert_def Find_def std_find_def)

lemma Insert_keeps:
  assumes "set_ok same data"
  shows "set_ok same (snd (Insert same data v))"
  using assms same_sym by (auto simp: Insert_def std_insert_def set_ok_def std_find_def list_ex_iff)

lemma Insert_Size: "Size (snd (Insert same data v)) = Size data + (if Find same data v then 0 else 1)"
  by (simp add: Insert_def std_insert_def Size_def Find_def)

lemma Erase_result: "fst (Erase same data v) \<longleftrightarrow> Find same data v"
  by (simp add: Erase_def Find_def)

lemma Erase_Find: "Find same (snd (Erase same data v)) w \<longleftrightarrow> Find same data w \<and> \<not> same v w"
proof (cases "Find same data v")
  case True
  have "\<not> same x v \<longleftrightarrow> \<not> same v w" if "same x w" for x
    using that same_sym same_trans by blast
  then show ?thesis using True by (auto simp: Erase_def Find_def std_find_def std_erase_def list_ex_iff)
next
  case False
  then have "\<not> same v w" if "Find same data w" using Find_same [OF that] same_sym by blast
  then show ?thesis using False by (auto simp: Erase_def Find_def)
qed

lemma Erase_keeps: "set_ok same data \<Longrightarrow> set_ok same (snd (Erase same data v))"
  by (simp add: Erase_def set_ok_def std_erase_def sorted_wrt_filter)

lemma Erase_Size:
  assumes "set_ok same data"
  shows "Size data = Size (snd (Erase same data v)) + (if Find same data v then 1 else 0)"
proof -
  have "length data = length (filter (\<lambda>x. \<not> same x v) data) + (if list_ex (\<lambda>x. same x v) data then 1 else 0)"
    using assms
  proof (induction data)
    case (Cons x xs)
    have "\<not> list_ex (\<lambda>y. same y v) xs" if x: "same x v"
    proof
      assume "list_ex (\<lambda>y. same y v) xs"
      then obtain y where "y \<in> set xs" "same y v" by (auto simp: list_ex_iff)
      then show False using Cons.prems same_trans [OF x same_sym] by (auto simp: set_ok_def)
    qed
    then show ?case using Cons by (auto simp: set_ok_def)
  qed simp
  then show ?thesis by (simp add: Size_def Erase_def Find_def std_find_def std_erase_def)
qed

end

section \<open>The three storages\<close>

text \<open>An object is its address and its value.\<close>

type_synonym 'a obj = "nat \<times> 'a"

definition same_address :: "'a obj \<Rightarrow> 'a obj \<Rightarrow> bool" where
  "same_address x y \<longleftrightarrow> fst x = fst y"

definition same_by_eq :: "('a \<Rightarrow> 'a \<Rightarrow> bool) \<Rightarrow> 'a obj \<Rightarrow> 'a obj \<Rightarrow> bool" where
  "same_by_eq eq x y \<longleftrightarrow> eq (snd x) (snd y)"

definition same_by_less :: "('a \<Rightarrow> 'a \<Rightarrow> bool) \<Rightarrow> 'a obj \<Rightarrow> 'a obj \<Rightarrow> bool" where
  "same_by_less lt x y \<longleftrightarrow> \<not> lt (snd x) (snd y) \<and> \<not> lt (snd y) (snd x)"

text \<open>\<open>None\<close> where the class does not compile: \<open>std::unordered_set\<close> compares with \<open>==\<close>.\<close>

definition same_in :: "'a type_ops \<Rightarrow> ('a obj \<Rightarrow> 'a obj \<Rightarrow> bool) option" where
  "same_in T = (case storage_of T of
      Some Hashed \<Rightarrow> map_option same_by_eq (op_eq T)
    | Some Ordered \<Rightarrow> map_option same_by_less (Compare_less T)
    | Some By_address \<Rightarrow> Some same_address
    | None \<Rightarrow> None)"

text \<open>What the standard containers ask of the operators.\<close>

definition lawful :: "'a type_ops \<Rightarrow> bool" where
  "lawful T \<longleftrightarrow>
    (\<forall>eq. op_eq T = Some eq \<longrightarrow> equivp eq) \<and>
    (\<forall>lt. Compare_less T = Some lt \<longrightarrow> (\<forall>x. \<not> lt x x) \<and> (\<forall>x y z. lt x y \<longrightarrow> lt y z \<longrightarrow> lt x z) \<and>
      (\<forall>x y z. \<not> lt x y \<longrightarrow> \<not> lt y z \<longrightarrow> \<not> lt x z))"

lemma same_in_classes:
  assumes "lawful T" "same_in T = Some same"
  shows "class_set same"
proof -
  consider "same = same_address" | eq where "op_eq T = Some eq" "same = same_by_eq eq"
    | lt where "Compare_less T = Some lt" "same = same_by_less lt"
    using assms(2) by (auto simp: same_in_def split: option.splits storage.splits)
  then show ?thesis
  proof cases
    case 1
    then show ?thesis by unfold_locales (auto simp: same_address_def)
  next
    case (2 eq)
    then have e: "equivp eq" using assms(1) by (simp add: lawful_def)
    show ?thesis unfolding 2(2) same_by_eq_def
      by unfold_locales (rule equivp_reflp [OF e], erule equivp_symp [OF e], erule (1) equivp_transp [OF e])
  next
    case (3 lt)
    then have irr: "\<not> lt x x" and tr: "\<not> lt x y \<Longrightarrow> \<not> lt y z \<Longrightarrow> \<not> lt x z" for x y z
      using assms(1) unfolding lawful_def by blast+
    show ?thesis unfolding 3(2) same_by_less_def
      by unfold_locales (simp add: irr, blast, metis tr)
  qed
qed

interpretation addr: class_set same_address
  by unfold_locales (auto simp: same_address_def)

interpretation by_eq: class_set "same_by_eq (=)"
  by unfold_locales (auto simp: same_by_eq_def)

interpretation by_less: class_set "same_by_less ((<) :: 'a :: linorder \<Rightarrow> 'a \<Rightarrow> bool)"
  by unfold_locales (auto simp: same_by_less_def)

lemma storage_of_eq:
  "storage_of T = Some (if IsHashable T \<and> IsEqualable T then Hashed else if IsComparable T then Ordered else By_address)"
  by (auto simp: storage_of_def enabled_def)

section \<open>Properties of CleverSet\<close>

text \<open>
  The choice of the storage is never ambiguous, and it is the one the documentation asks for: a hash
  table when the type has a hash and an equality operator, otherwise a search tree when it has an ordering
  operator, otherwise the addresses of the objects.
\<close>

theorem storage_of_unique:
  "length (enabled T) \<le> 1 \<and> storage_of T = Some (if has_hash T \<and> (op_eq T \<noteq> None \<or> op_ne T \<noteq> None) then Hashed
     else if op_less T \<noteq> None \<or> op_greater T \<noteq> None then Ordered else By_address)"
  by (auto simp: storage_of_eq enabled_def IsHashable_def IsEqualable_def IsComparable_def)

text \<open>
  Whatever storage is chosen, \<open>CleverSet\<close> is a set of the values up to the equivalence of that
  storage: \<open>Insert\<close> and \<open>Erase\<close> report whether the set changes, and afterwards exactly the equivalents of the
  argument are found or not found; \<open>Size\<close> counts the classes.
\<close>

theorem CleverSet_correct:
  assumes "lawful T" "same_in T = Some same" "set_ok same data"
  shows "fst (Insert same data v) = (\<not> Find same data v) \<and>
    Find same (snd (Insert same data v)) w = (Find same data w \<or> same v w) \<and>
    set_ok same (snd (Insert same data v)) \<and>
    Size (snd (Insert same data v)) = Size data + (if Find same data v then 0 else 1) \<and>
    fst (Erase same data v) = Find same data v \<and>
    Find same (snd (Erase same data v)) w = (Find same data w \<and> \<not> same v w) \<and>
    set_ok same (snd (Erase same data v)) \<and>
    Size data = Size (snd (Erase same data v)) + (if Find same data v then 1 else 0)"
proof -
  have c: "class_set same" using assms(1,2) by (rule same_in_classes)
  show ?thesis
    using class_set.Insert_result [OF c] class_set.Insert_Find [OF c] class_set.Insert_keeps [OF c assms(3)]
      class_set.Insert_Size [OF c] class_set.Erase_result [OF c] class_set.Erase_Find [OF c]
      class_set.Erase_keeps [OF c assms(3)] class_set.Erase_Size [OF c assms(3)] by blast
qed

definition only_greater :: "nat type_ops" where
  "only_greater = \<lparr>has_hash = False, op_eq = None, op_ne = None, op_less = None, op_greater = Some (>)\<rparr>"

theorem CleverSet_correct_witness:
  "fst (Insert (same_by_less (\<lambda>x y. y > x)) [(0, 5 :: nat)] (1, 7)) \<and>
   \<not> fst (Insert (same_by_less (\<lambda>x y. y > x)) [(0, 5 :: nat)] (1, 5))"
proof -
  have "lawful only_greater" "same_in only_greater = Some (same_by_less (\<lambda>x y. y > x))"
    by (auto simp: only_greater_def lawful_def same_in_def storage_of_eq Compare_less_def
      IsHashable_def IsEqualable_def IsComparable_def)
  then have "fst (Insert (same_by_less (\<lambda>x y. y > x)) [(0, 5 :: nat)] v) =
      (\<not> Find (same_by_less (\<lambda>x y. y > x)) [(0, 5)] v)" for v
    using CleverSet_correct [of only_greater] by (simp add: set_ok_def)
  then show ?thesis by (simp add: Find_def std_find_def same_by_less_def)
qed

text \<open>A type with a hash and only \<open>!=\<close> is stored in a hash table, which then does not compile.\<close>

lemma only_ne_does_not_compile:
  "has_hash T \<Longrightarrow> op_ne T = Some ne \<Longrightarrow> op_eq T = None \<Longrightarrow> storage_of T = Some Hashed \<and> same_in T = None"
  by (simp add: same_in_def storage_of_eq IsHashable_def IsEqualable_def)

section \<open>Advance\<close>

datatype iterator_tag = Input_tag | Output_tag | Forward_tag | Bidirectional_tag | Random_access_tag

text \<open>The loops \<open>while (n > 0) { ++iterator; --n; }\<close> and \<open>while (n < 0) { --iterator; ++n; }\<close>.\<close>

function advance_up :: "('i \<Rightarrow> 'i) \<Rightarrow> 'i \<Rightarrow> int \<Rightarrow> 'i \<times> int" where
  "advance_up inc it n = (if n > 0 then advance_up inc (inc it) (n - 1) else (it, n))"
  by pat_completeness auto
termination by (relation "measure (\<lambda>(_, _, n). nat n)") auto

function advance_down :: "('i \<Rightarrow> 'i) \<Rightarrow> 'i \<Rightarrow> int \<Rightarrow> 'i \<times> int" where
  "advance_down dec it n = (if n < 0 then advance_down dec (dec it) (n + 1) else (it, n))"
  by pat_completeness auto
termination by (relation "measure (\<lambda>(_, _, n). nat (- n))") auto

declare advance_up.simps [simp del] advance_down.simps [simp del]

definition AdvanceImpl_forward :: "('i \<Rightarrow> 'i) \<Rightarrow> 'i \<Rightarrow> int \<Rightarrow> 'i" where
  "AdvanceImpl_forward inc it n = fst (advance_up inc it n)"

definition AdvanceImpl_bidirectional :: "('i \<Rightarrow> 'i) \<Rightarrow> ('i \<Rightarrow> 'i) \<Rightarrow> 'i \<Rightarrow> int \<Rightarrow> 'i" where
  "AdvanceImpl_bidirectional inc dec it n =
    (let (it, n) = advance_up inc it n in fst (advance_down dec it n))"

fun Advance :: "iterator_tag \<Rightarrow> ('i \<Rightarrow> 'i) \<Rightarrow> ('i \<Rightarrow> 'i) \<Rightarrow> ('i \<Rightarrow> int \<Rightarrow> 'i) \<Rightarrow> 'i \<Rightarrow> int \<Rightarrow> 'i" where
  "Advance Bidirectional_tag inc dec jump it n = AdvanceImpl_bidirectional inc dec it n"
| "Advance Random_access_tag inc dec jump it n = jump it n"
| "Advance _ inc dec jump it n = AdvanceImpl_forward inc it n"

lemma advance_up_eq: "advance_up inc it n = ((inc ^^ nat n) it, min n 0)"
proof (induction inc it n rule: advance_up.induct)
  case (1 inc it n)
  show ?case
  proof (cases "n > 0")
    case True
    then have "nat n = Suc (nat (n - 1))" by simp
    then show ?thesis using 1 True by (subst advance_up.simps) (simp add: funpow_swap1)
  qed (subst advance_up.simps, simp)
qed

lemma advance_down_eq: "advance_down dec it n = ((dec ^^ nat (- n)) it, max n 0)"
proof (induction dec it n rule: advance_down.induct)
  case (1 dec it n)
  show ?case
  proof (cases "n < 0")
    case True
    then have "nat (- n) = Suc (nat (- (n + 1)))" by simp
    then show ?thesis using 1 True by (subst advance_down.simps) (simp add: funpow_swap1)
  qed (subst advance_down.simps, simp)
qed

text \<open>
  Every overload moves by \<open>n\<close> steps, backwards too when the iterator can go back; the loops end and agree with
  the \<open>+=\<close> of a random access iterator.
\<close>

theorem Advance_agrees:
  assumes "\<And>i. inc i = jump i 1" "\<And>i. dec i = jump i (- 1)" "\<And>i k l. jump (jump i k) l = jump i (k + l)"
    "\<And>i. jump i 0 = (i :: 'i)"
  shows "Advance tag inc dec jump it n =
    jump it (if tag = Bidirectional_tag \<or> tag = Random_access_tag then n else max n 0)"
proof -
  have up: "(inc ^^ k) i = jump i (int k)" for k i
    by (induction k) (simp_all add: assms ac_simps)
  have down: "(dec ^^ k) i = jump i (- int k)" for k i
    by (induction k) (simp_all add: assms ac_simps)
  show ?thesis
    by (cases tag)
      (auto simp: AdvanceImpl_forward_def AdvanceImpl_bidirectional_def advance_up_eq advance_down_eq up down assms max_def min_def)
qed

section \<open>SerializableToJson\<close>

text \<open>
  C++ types as the concept tells them apart.  \<open>TString\<close> is a type \<open>std::string\<close> can be made from, whether or not
  it is a range itself; \<open>TRange\<close> another range with its value type; \<open>TArray\<close> a \<open>std::array\<close>, which is a range and
  has tuple elements.
\<close>

datatype ctype =
    TIntegral
  | TFloating
  | TString
  | TOptional ctype
  | TVariant "ctype list"
  | TRange ctype
  | TArray ctype
  | TPair ctype ctype
  | TTuple "ctype list"
  | TOther

fun Stringable :: "ctype \<Rightarrow> bool" where
  "Stringable TString = True"
| "Stringable _ = False"

fun IsPair :: "ctype \<Rightarrow> bool" where
  "IsPair (TPair _ _) = True"
| "IsPair _ = False"

text \<open>\<open>std::tuple_element<0, T>\<close>, \<open>None\<close> where it is ill-formed.\<close>

fun tuple_element_0 :: "ctype \<Rightarrow> ctype option" where
  "tuple_element_0 (TPair a b) = Some a"
| "tuple_element_0 (TTuple (a # ts)) = Some a"
| "tuple_element_0 (TArray a) = Some a"
| "tuple_element_0 _ = None"

definition first_stringable :: "ctype \<Rightarrow> bool" where
  "first_stringable v \<longleftrightarrow> (case tuple_element_0 v of Some a \<Rightarrow> Stringable a | None \<Rightarrow> False)"

text \<open>
  \<open>JsonSerializable<T>::kValue\<close>: the specialization that matches gives the value, the primary template \<open>false\<close>.
  \<open>None\<close>: two specializations match and neither is more constrained, so the program is ill-formed.
\<close>

fun JsonSerializable :: "ctype \<Rightarrow> bool option" where
  "JsonSerializable TIntegral = Some True"
| "JsonSerializable TFloating = Some True"
| "JsonSerializable TString = Some True"
| "JsonSerializable (TOptional t) = JsonSerializable t"
| "JsonSerializable (TVariant []) = Some False"
| "JsonSerializable (TVariant [t]) = JsonSerializable t"
| "JsonSerializable (TVariant (t # ts)) =
    (case (JsonSerializable t, JsonSerializable (TVariant ts)) of
       (Some a, Some b) \<Rightarrow> Some (a \<and> b) | _ \<Rightarrow> None)"
| "JsonSerializable (TRange (TPair a b)) = (if Stringable a then JsonSerializable b else Some False)"
| "JsonSerializable (TArray (TPair a b)) = (if Stringable a then JsonSerializable b else Some False)"
| "JsonSerializable (TRange v) = (if first_stringable v then None else JsonSerializable v)"
| "JsonSerializable (TArray v) = (if first_stringable v then None else JsonSerializable v)"
| "JsonSerializable (TPair a b) = Some False"
| "JsonSerializable (TTuple ts) = Some False"
| "JsonSerializable TOther = Some False"

text \<open>The documentation's list of serializable types.\<close>

inductive json_type :: "ctype \<Rightarrow> bool" where
  json_integral: "json_type TIntegral"
| json_floating: "json_type TFloating"
| json_string: "json_type TString"
| json_optional: "json_type t \<Longrightarrow> json_type (TOptional t)"
| json_variant: "ts \<noteq> [] \<Longrightarrow> \<forall>t \<in> set ts. json_type t \<Longrightarrow> json_type (TVariant ts)"
| json_range: "json_type t \<Longrightarrow> json_type (TRange t)"
| json_array: "json_type t \<Longrightarrow> json_type (TArray t)"
| json_object: "json_type t \<Longrightarrow> json_type (TRange (TPair TString t))"
| json_object_array: "json_type t \<Longrightarrow> json_type (TArray (TPair TString t))"

inductive_simps json_simps [simp]:
  "json_type (TOptional t)" "json_type (TVariant ts)" "json_type (TRange t)" "json_type (TArray t)"
  "json_type (TPair a b)" "json_type (TTuple ts)" "json_type TOther"

declare json_integral [simp] json_floating [simp] json_string [simp]

lemma Stringable_iff: "Stringable t \<longleftrightarrow> t = TString"
  by (cases t) auto



text \<open>A range of arrays of strings is serializable by the documentation, but the concept is ambiguous for it.\<close>

lemma range_of_string_arrays_ambiguous:
  "json_type (TRange (TArray TString)) \<and> JsonSerializable (TRange (TArray TString)) = None"
  by (simp add: first_stringable_def)

end
