(* ===== verification/Parallel_Numbers.thy ===== *)
theory Parallel_Numbers
  imports Prelude
begin

text \<open>
  Computations divided among sixteen threads, \<open>is-prime/is_prime.cpp\<close> and \<open>reduce/reduce.h\<close>, and the closed formula
  of \<open>range-sum/range_sum.cpp\<close>.  A schedule is the list of the threads in the order in which they make their
  steps, a test of the shared flag or the \<open>test_and_set\<close>; the theorems hold for all schedules.
\<close>

section \<open>Chunks\<close>

definition kThreadCnt :: nat where "kThreadCnt = 16"

text \<open>The lengths of the parts: the first ones are longer by one.\<close>

definition chunk_lengths :: "nat \<Rightarrow> nat list" where
  "chunk_lengths n = map (\<lambda>i. if i < n mod kThreadCnt then n div kThreadCnt + 1 else n div kThreadCnt) [0..<kThreadCnt]"

lemma sum_chunk_lengths: "sum_list (chunk_lengths n) = n"
proof -
  have "(\<Sum>i\<leftarrow>[0..<k]. if i < r then q + 1 else q) = k * q + min k r" for k q r :: nat
    by (induction k) auto
  then show ?thesis by (simp add: chunk_lengths_def kThreadCnt_def min_absorb2)
qed

lemma length_chunk_lengths [simp]: "length (chunk_lengths n) = kThreadCnt"
  by (simp add: chunk_lengths_def)

section \<open>IsPrime\<close>

datatype prime_pc = Testing nat nat | Setting | Finished

text \<open>One step of \<open>ThreadFunc\<close>: the test of the flag with the division that follows it, or the \<open>test_and_set\<close>.\<close>

fun ThreadFunc_step :: "nat \<Rightarrow> bool \<Rightarrow> prime_pc \<Rightarrow> bool \<times> prime_pc" where
  "ThreadFunc_step x is_not_prime (Testing i r_bound) =
    (if i < r_bound then
       if \<not> is_not_prime then
         if x mod i = 0 then (is_not_prime, Setting) else (is_not_prime, Testing (i + 1) r_bound)
       else (is_not_prime, Finished)
     else (is_not_prime, Finished))"
| "ThreadFunc_step x is_not_prime Setting = (True, Finished)"
| "ThreadFunc_step x is_not_prime Finished = (is_not_prime, Finished)"

definition prime_step :: "nat \<Rightarrow> nat \<Rightarrow> bool \<times> prime_pc list \<Rightarrow> bool \<times> prime_pc list" where
  "prime_step x t s =
    (if t < length (snd s)
     then (fst (ThreadFunc_step x (fst s) (snd s ! t)), (snd s)[t := snd (ThreadFunc_step x (fst s) (snd s ! t))])
     else s)"

text \<open>The loop that starts the threads, each at the end of the one before.\<close>

fun start_threads :: "nat \<Rightarrow> nat list \<Rightarrow> prime_pc list" where
  "start_threads l_bound [] = []"
| "start_threads l_bound (len # lens) = Testing l_bound (l_bound + len) # start_threads (l_bound + len) lens"

text \<open>
  \<open>static_cast<uint64_t>(std::sqrt(x))\<close> is a parameter.  \<open>None\<close>: under this schedule some thread has not
  finished, so the joins have not returned.
\<close>

definition IsPrime :: "(nat \<Rightarrow> nat) \<Rightarrow> nat \<Rightarrow> nat list \<Rightarrow> bool option" where
  "IsPrime std_sqrt x schedule =
    (if x < 2 then Some False
     else
       let bound = min (std_sqrt x + 6) x;
           lens = (if (bound - 2) div kThreadCnt < 10 then [bound - 2] else chunk_lengths (bound - 2));
           s = fold (prime_step x) schedule (False, start_threads 2 lens)
       in if \<forall>p \<in> set (snd s). p = Finished then Some (\<not> fst s) else None)"

text \<open>What is required of the square root: it is at most one too small.\<close>

definition sqrt_ok :: "(nat \<Rightarrow> nat) \<Rightarrow> bool" where
  "sqrt_ok std_sqrt \<longleftrightarrow> (\<forall>x < 2 ^ 64. x < (std_sqrt x + 2) ^ 2)"

definition prime_number :: "nat \<Rightarrow> bool" where
  "prime_number x \<longleftrightarrow> 2 \<le> x \<and> (\<forall>d. d dvd x \<longrightarrow> d = 1 \<or> d = x)"

text \<open>What a thread that started with the numbers from \<open>l\<close> to \<open>r\<close> knows.\<close>

fun pc_knows :: "nat \<Rightarrow> bool \<Rightarrow> nat \<times> nat \<Rightarrow> prime_pc \<Rightarrow> bool" where
  "pc_knows x flag (l, r) (Testing i r') \<longleftrightarrow> r' = r \<and> l \<le> i \<and> i \<le> r \<and> (\<forall>d. l \<le> d \<and> d < i \<longrightarrow> \<not> d dvd x)"
| "pc_knows x flag (l, r) Setting \<longleftrightarrow> (\<exists>d. l \<le> d \<and> d < r \<and> d dvd x)"
| "pc_knows x flag (l, r) Finished \<longleftrightarrow> flag \<or> (\<forall>d. l \<le> d \<and> d < r \<longrightarrow> \<not> d dvd x)"

fun intervals :: "nat \<Rightarrow> nat list \<Rightarrow> (nat \<times> nat) list" where
  "intervals l [] = []"
| "intervals l (len # lens) = (l, l + len) # intervals (l + len) lens"

lemma length_intervals [simp]: "length (intervals l lens) = length lens"
  by (induction lens arbitrary: l) auto

lemma intervals_cover:
  "(\<exists>k < length lens. fst (intervals l lens ! k) \<le> d \<and> d < snd (intervals l lens ! k)) \<longleftrightarrow>
   l \<le> d \<and> d < l + sum_list lens"
proof (induction lens arbitrary: l)
  case (Cons n lens)
  have "(\<exists>k < length (n # lens). fst (intervals l (n # lens) ! k) \<le> d \<and> d < snd (intervals l (n # lens) ! k)) \<longleftrightarrow>
      (l \<le> d \<and> d < l + n) \<or>
      (\<exists>k < length lens. fst (intervals (l + n) lens ! k) \<le> d \<and> d < snd (intervals (l + n) lens ! k))"
    by (auto simp: less_Suc_eq_0_disj)
  also have "\<dots> \<longleftrightarrow> l \<le> d \<and> d < l + sum_list (n # lens)" unfolding Cons.IH by auto
  finally show ?case .
qed simp

definition prime_search_ok :: "nat \<Rightarrow> (nat \<times> nat) list \<Rightarrow> bool \<times> prime_pc list \<Rightarrow> bool" where
  "prime_search_ok x ivs s \<longleftrightarrow> list_all2 (pc_knows x (fst s)) ivs (snd s) \<and>
    (fst s \<longrightarrow> (\<exists>iv \<in> set ivs. \<exists>d. fst iv \<le> d \<and> d < snd iv \<and> d dvd x))"

lemma start_threads_ok: "list_all2 (pc_knows x False) (intervals l lens) (start_threads l lens)"
  by (induction lens arbitrary: l) auto

lemma ThreadFunc_step_knows:
  assumes "pc_knows x flag (l, r) p"
  shows "pc_knows x (fst (ThreadFunc_step x flag p)) (l, r) (snd (ThreadFunc_step x flag p))"
    and "fst (ThreadFunc_step x flag p) \<longrightarrow> flag \<or> (\<exists>d. l \<le> d \<and> d < r \<and> d dvd x)"
    and "flag \<longrightarrow> fst (ThreadFunc_step x flag p)"
proof -
  show "pc_knows x (fst (ThreadFunc_step x flag p)) (l, r) (snd (ThreadFunc_step x flag p))"
  proof (cases p)
    case (Testing i r')
    then show ?thesis using assms by (auto simp: dvd_eq_mod_eq_0 less_Suc_eq)
  qed (use assms in auto)
  show "fst (ThreadFunc_step x flag p) \<longrightarrow> flag \<or> (\<exists>d. l \<le> d \<and> d < r \<and> d dvd x)"
    using assms by (cases p) auto
  show "flag \<longrightarrow> fst (ThreadFunc_step x flag p)" by (cases p) auto
qed

lemma pc_knows_mono: "pc_knows x flag iv p \<Longrightarrow> flag \<longrightarrow> flag' \<Longrightarrow> pc_knows x flag' iv p"
  by (cases iv; cases p) auto

lemma prime_search_ok_step:
  assumes "prime_search_ok x ivs s"
  shows "prime_search_ok x ivs (prime_step x t s)"
proof (cases "t < length (snd s)")
  case True
  have len: "length ivs = length (snd s)" using assms by (auto simp: prime_search_ok_def list_all2_lengthD)
  obtain l r where iv: "ivs ! t = (l, r)" by fastforce
  have k: "pc_knows x (fst s) (l, r) (snd s ! t)"
    using assms True by (auto simp: prime_search_ok_def list_all2_conv_all_nth simp flip: iv)
  note st = ThreadFunc_step_knows [OF k]
  have "list_all2 (pc_knows x (fst (ThreadFunc_step x (fst s) (snd s ! t)))) ivs
      ((snd s)[t := snd (ThreadFunc_step x (fst s) (snd s ! t))])"
    unfolding list_all2_conv_all_nth
  proof (intro conjI allI impI)
    fix u assume "u < length ivs"
    then show "pc_knows x (fst (ThreadFunc_step x (fst s) (snd s ! t))) (ivs ! u)
        ((snd s)[t := snd (ThreadFunc_step x (fst s) (snd s ! t))] ! u)"
      using st(1,3) iv assms True len by (cases "u = t") (auto simp: prime_search_ok_def list_all2_conv_all_nth intro: pc_knows_mono)
  qed (simp add: len)
  moreover have "(l, r) \<in> set ivs" using True len iv by (metis nth_mem)
  then have "\<exists>iv \<in> set ivs. \<exists>d. fst iv \<le> d \<and> d < snd iv \<and> d dvd x"
    if "fst (ThreadFunc_step x (fst s) (snd s ! t))"
    using st(2) that assms unfolding prime_search_ok_def by (metis fst_conv snd_conv)
  ultimately show ?thesis using True by (auto simp: prime_search_ok_def prime_step_def)
qed (use assms in \<open>simp add: prime_step_def\<close>)

lemma prime_search_ok_run: "prime_search_ok x ivs s \<Longrightarrow> prime_search_ok x ivs (fold (prime_step x) schedule s)"
  by (induction schedule arbitrary: s) (simp_all add: prime_search_ok_step)

lemma composite_has_small_divisor:
  assumes "2 \<le> x" "\<not> prime_number x" "x < (b + 2) ^ 2"
  shows "\<exists>d. 2 \<le> d \<and> d < b + 2 \<and> d < x \<and> d dvd x"
proof -
  obtain d where d: "d dvd x" "d \<noteq> 1" "d \<noteq> x" using assms by (auto simp: prime_number_def)
  then obtain e where e: "x = d * e" by (auto simp: dvd_def)
  have pos: "d \<noteq> 0" "e \<noteq> 1" using e d assms(1) by auto
  have "e \<noteq> 0" using e assms(1) by (cases "e = 0") auto
  have "d < b + 2 \<or> e < b + 2"
  proof (rule ccontr)
    assume "\<not> ?thesis"
    then have "(b + 2) * (b + 2) \<le> d * e" by (intro mult_le_mono) auto
    then show False using assms(3) e by (simp add: power2_eq_square)
  qed
  moreover have "2 \<le> d" "2 \<le> e" using d pos \<open>e \<noteq> 0\<close> by linarith+
  moreover have "e dvd x" "e < x" "d < x" using e pos d \<open>2 \<le> d\<close> \<open>2 \<le> e\<close> by auto
  ultimately show ?thesis using d(1) by blast
qed

text \<open>
  C38: whenever \<open>IsPrime\<close> returns, whatever the schedule of its threads, its answer is right: true exactly for
  the prime numbers.
\<close>

theorem IsPrime_correct:
  assumes "sqrt_ok std_sqrt" "x < 2 ^ 64" "IsPrime std_sqrt x schedule = Some b"
  shows "b \<longleftrightarrow> prime_number x"
proof (cases "x < 2")
  case True
  then show ?thesis using assms(3) by (simp add: IsPrime_def prime_number_def)
next
  case False
  define bound where "bound = min (std_sqrt x + 6) x"
  define lens where "lens = (if (bound - 2) div kThreadCnt < 10 then [bound - 2] else chunk_lengths (bound - 2))"
  define s where "s = fold (prime_step x) schedule (False, start_threads 2 lens)"
  have fin: "\<forall>p \<in> set (snd s). p = Finished" and b: "b \<longleftrightarrow> \<not> fst s"
    using assms(3) False by (auto simp: IsPrime_def Let_def bound_def lens_def s_def split: if_splits)
  have ok: "prime_search_ok x (intervals 2 lens) s"
    unfolding s_def by (rule prime_search_ok_run) (simp add: prime_search_ok_def start_threads_ok)
  have sum: "2 + sum_list lens = bound" using False by (auto simp: lens_def sum_chunk_lengths bound_def)
  have cover: "(\<exists>k < length lens. fst (intervals 2 lens ! k) \<le> d \<and> d < snd (intervals 2 lens ! k)) \<longleftrightarrow> 2 \<le> d \<and> d < bound" for d
    using intervals_cover [of lens 2 d] sum by simp
  show ?thesis
  proof (cases "fst s")
    case True
    then obtain k d where "k < length lens" "fst (intervals 2 lens ! k) \<le> d" "d < snd (intervals 2 lens ! k)" "d dvd x"
      using ok by (auto simp: prime_search_ok_def in_set_conv_nth)
    then have "2 \<le> d \<and> d < bound \<and> d dvd x" using cover [of d] by blast
    then have "\<not> prime_number x" by (auto simp: prime_number_def bound_def)
    then show ?thesis using True b by simp
  next
    case nf: False
    have none: "\<not> d dvd x" if "2 \<le> d" "d < bound" for d
    proof -
      obtain k where k: "k < length lens" "fst (intervals 2 lens ! k) \<le> d" "d < snd (intervals 2 lens ! k)"
        using cover [of d] \<open>2 \<le> d\<close> \<open>d < bound\<close> by blast
      have "pc_knows x (fst s) (intervals 2 lens ! k) (snd s ! k)" "k < length (snd s)"
        using ok k(1) by (auto simp: prime_search_ok_def list_all2_conv_all_nth)
      then have "pc_knows x False (intervals 2 lens ! k) Finished" using fin nf by (metis nth_mem)
      then show ?thesis using k by (cases "intervals 2 lens ! k") auto
    qed
    have "x < (std_sqrt x + 2) ^ 2" using assms(1,2) by (auto simp: sqrt_ok_def)
    then have "prime_number x"
      using composite_has_small_divisor [of x "std_sqrt x"] none False by (force simp: bound_def)
    then show ?thesis using nf b by simp
  qed
qed

fun isqrt :: "nat \<Rightarrow> nat" where
  "isqrt 0 = 0"
| "isqrt (Suc n) = (if (isqrt n + 1) ^ 2 \<le> Suc n then isqrt n + 1 else isqrt n)"

lemma isqrt_upper: "n < (isqrt n + 1) ^ 2"
  by (induction n) (auto simp: power2_eq_square)

theorem IsPrime_correct_witness: "IsPrime isqrt 7 (replicate 8 0) = Some True \<and> prime_number 7"
proof -
  have "x < (isqrt x + 2) ^ 2" for x
    using isqrt_upper [of x] power_mono [of "isqrt x + 1" "isqrt x + 2" 2] by linarith
  then have "sqrt_ok isqrt" by (simp add: sqrt_ok_def)
  moreover have "IsPrime isqrt 7 (replicate 8 0) = Some True" by code_simp
  ultimately show ?thesis using IsPrime_correct [of isqrt 7 "replicate 8 0" True] by simp
qed

text \<open>A schedule that gives every thread enough steps lets \<open>IsPrime\<close> return.\<close>

fun steps_left :: "prime_pc \<Rightarrow> nat" where
  "steps_left (Testing i r) = r - i + 2"
| "steps_left Setting = 1"
| "steps_left Finished = 0"

lemma steps_left_step: "steps_left (snd (ThreadFunc_step x flag p)) \<le> steps_left p - 1"
  by (cases p) auto

lemma steps_left_run:
  "t < length (snd s) \<Longrightarrow>
   length (snd (fold (prime_step x) schedule s)) = length (snd s) \<and>
   steps_left (snd (fold (prime_step x) schedule s) ! t) \<le> steps_left (snd s ! t) - count_list schedule t"
proof (induction schedule arbitrary: s)
  case (Cons u schedule)
  let ?s = "prime_step x u s"
  have len: "length (snd ?s) = length (snd s)" by (simp add: prime_step_def)
  have "steps_left (snd ?s ! t) \<le> steps_left (snd s ! t) - (if u = t then 1 else 0)"
    using Cons.prems steps_left_step [of x "fst s" "snd s ! t"] by (auto simp: prime_step_def nth_list_update)
  then show ?case using Cons.IH [of ?s] Cons.prems len by (auto split: if_splits)
qed simp

lemma start_threads_steps: "p \<in> set (start_threads l lens) \<Longrightarrow> steps_left p \<le> sum_list lens + 2"
  by (induction lens arbitrary: l) fastforce+

lemma length_start_threads [simp]: "length (start_threads l lens) = length lens"
  by (induction lens arbitrary: l) auto

theorem IsPrime_returns:
  assumes "\<forall>t < kThreadCnt. x + 2 \<le> count_list schedule t"
  shows "\<exists>b. IsPrime std_sqrt x schedule = Some b"
proof -
  define bound where "bound = min (std_sqrt x + 6) x"
  define lens where "lens = (if (bound - 2) div kThreadCnt < 10 then [bound - 2] else chunk_lengths (bound - 2))"
  define s where "s = fold (prime_step x) schedule (False, start_threads 2 lens)"
  have lens: "sum_list lens \<le> x" "length lens \<le> kThreadCnt"
    by (auto simp: lens_def sum_chunk_lengths bound_def kThreadCnt_def)
  have "snd s ! t = Finished" if t: "t < length lens" for t
  proof -
    have "steps_left (snd s ! t) \<le> steps_left (start_threads 2 lens ! t) - count_list schedule t"
      using steps_left_run [of t "(False, start_threads 2 lens)" x schedule] t by (simp add: s_def)
    moreover have "steps_left (start_threads 2 lens ! t) \<le> x + 2"
      using start_threads_steps [of "start_threads 2 lens ! t" 2 lens] t lens(1) by simp
    moreover have "x + 2 \<le> count_list schedule t" using assms t lens(2) by auto
    ultimately have "steps_left (snd s ! t) = 0" by linarith
    then show ?thesis by (cases "snd s ! t") auto
  qed
  moreover have "length (snd s) = length lens"
  proof -
    have "length lens = (if (bound - 2) div kThreadCnt < 10 then 1 else kThreadCnt)" by (simp add: lens_def)
    then have "0 < length lens" by (simp add: kThreadCnt_def)
    then show ?thesis using steps_left_run [of 0 "(False, start_threads 2 lens)" x schedule] by (simp add: s_def)
  qed
  ultimately have "\<forall>p \<in> set (snd s). p = Finished" by (auto simp: in_set_conv_nth)
  then show ?thesis by (auto simp: IsPrime_def Let_def bound_def lens_def s_def)
qed

section \<open>Reduce\<close>

text \<open>\<open>std::reduce\<close> combines the elements in some order; \<open>func\<close> must be associative and commutative.\<close>

definition std_reduce :: "('a \<Rightarrow> 'a \<Rightarrow> 'a) \<Rightarrow> 'a list \<Rightarrow> 'a \<Rightarrow> 'a" where
  "std_reduce func xs init = foldl func init xs"

text \<open>The part of a thread, from \<open>start\<close> to \<open>finish\<close>.\<close>

definition reduce_func :: "('a \<Rightarrow> 'a \<Rightarrow> 'a) \<Rightarrow> 'a list \<Rightarrow> nat \<Rightarrow> nat \<Rightarrow> 'a" where
  "reduce_func func xs start finish = std_reduce func (take (finish - (start + 1)) (drop (start + 1) xs)) (xs ! start)"

fun Reduce_threads :: "('a \<Rightarrow> 'a \<Rightarrow> 'a) \<Rightarrow> 'a list \<Rightarrow> nat \<Rightarrow> nat list \<Rightarrow> 'a list" where
  "Reduce_threads func xs start_pos [] = []"
| "Reduce_threads func xs start_pos (len # lens) =
    reduce_func func xs start_pos (start_pos + len) # Reduce_threads func xs (start_pos + len) lens"

definition Reduce :: "('a \<Rightarrow> 'a \<Rightarrow> 'a) \<Rightarrow> 'a list \<Rightarrow> 'a \<Rightarrow> 'a" where
  "Reduce func xs init =
    (if length xs div kThreadCnt < 100 then std_reduce func xs init
     else std_reduce func (Reduce_threads func xs 0 (chunk_lengths (length xs))) init)"

lemma foldl_assoc:
  assumes "\<And>a b c. func (func a b) c = func a (func b c)"
  shows "foldl func (func a x) ys = func a (foldl func x ys)"
  by (induction ys arbitrary: x) (simp_all add: assms)

lemma Reduce_threads_fold:
  assumes assoc: "\<And>a b c. func (func a b) c = func a (func b c)"
    and "\<And>len. len \<in> set lens \<Longrightarrow> 0 < len" "start + sum_list lens = length xs"
  shows "foldl func init (Reduce_threads func xs start lens) = foldl func init (drop start xs)"
  using assms(2,3)
proof (induction lens arbitrary: start init)
  case (Cons len lens)
  have len: "0 < len" "start + len \<le> length xs" using Cons.prems by auto
  let ?part = "take (len - 1) (drop (Suc start) xs)"
  have split: "drop start xs = xs ! start # ?part @ drop (start + len) xs"
  proof -
    have "drop start xs = xs ! start # drop (Suc start) xs" using len by (simp add: Cons_nth_drop_Suc)
    also have "drop (Suc start) xs = ?part @ drop (len - 1) (drop (Suc start) xs)" by (simp only: append_take_drop_id)
    also have "drop (len - 1) (drop (Suc start) xs) = drop (start + len) xs" using len by (simp add: add.commute)
    finally show ?thesis .
  qed
  have "func init (reduce_func func xs start (start + len)) = foldl func (func init (xs ! start)) ?part"
    using foldl_assoc [OF assoc, where ys = ?part] len by (simp add: reduce_func_def std_reduce_def)
  then show ?case using Cons.IH [of "start + len"] Cons.prems by (simp add: split)
qed simp

text \<open>
  For an associative operation, dividing the range among the threads changes nothing: \<open>Reduce\<close> is
  \<open>std::reduce\<close> of the whole range.
\<close>

theorem Reduce_correct:
  assumes "\<And>a b c. func (func a b) c = func a (func b c)"
  shows "Reduce func xs init = std_reduce func xs init"
proof (cases "length xs div kThreadCnt < 100")
  case False
  have "0 < len" if "len \<in> set (chunk_lengths (length xs))" for len
    using that False by (auto simp: chunk_lengths_def)
  then show ?thesis
    using Reduce_threads_fold [OF assms, of "chunk_lengths (length xs)" 0 xs init] False
    by (simp add: Reduce_def std_reduce_def sum_chunk_lengths)
qed (simp add: Reduce_def)

section \<open>RangeSum\<close>

definition RangeSum :: "uint64 \<Rightarrow> uint64 \<Rightarrow> uint64 \<Rightarrow> uint64" where
  "RangeSum from to step =
    (if to > from then
       let n = (to - 1 - from) div step + 1
       in (2 * from + (n - 1) * step) * n div 2
     else 0)"

lemma arithmetic_sum: "2 * (\<Sum>k < n. a + k * d) = (2 * a + (n - 1) * d) * (n :: nat)"
proof (induction n)
  case (Suc n)
  then show ?case by (cases n) (simp_all add: algebra_simps)
qed simp

text \<open>The terms below \<open>to\<close>, and when the formula stays within 64 bits.\<close>

definition terms_below :: "nat \<Rightarrow> nat \<Rightarrow> nat \<Rightarrow> nat" where
  "terms_below from to step = (to - 1 - from) div step + 1"

lemma terms_below_iff: "from < to \<Longrightarrow> 0 < step \<Longrightarrow> k < terms_below from to step \<longleftrightarrow> from + k * step < (to :: nat)"
proof -
  assume a: "from < to" "0 < step"
  have "k < terms_below from to step \<longleftrightarrow> k * step \<le> to - 1 - from"
    using a(2) by (simp add: terms_below_def less_Suc_eq_le less_eq_div_iff_mult_less_eq)
  then show ?thesis using a(1) by auto
qed

theorem RangeSum_correct:
  assumes "from < to" "0 < step"
    and fits: "(2 * unat from + (terms_below (unat from) (unat to) (unat step) - 1) * unat step) *
      terms_below (unat from) (unat to) (unat step) < 2 ^ 64"
  shows "unat (RangeSum from to step) = (\<Sum>k | unat from + k * unat step < unat to. unat from + k * unat step)"
proof -
  define f t s n where "f = unat from" and "t = unat to" and "s = unat step" and "n = terms_below f t s"
  have ft: "f < t" "0 < s" using assms(1,2) by (simp_all add: f_def t_def s_def word_less_nat_alt)
  have t64: "t < 2 ^ 64" using unsigned_less [of to, where ?'a = nat] by (simp add: t_def)
  have fits': "(2 * f + (n - 1) * s) * n < 2 ^ 64" using fits by (simp add: f_def t_def s_def n_def)
  let ?m = "(to - 1 - from) div step"
  have m: "unat ?m = n - 1"
  proof -
    have "to \<noteq> 0" using assms(1) by (metis word_not_simps(1))
    then have t1: "unat (to - 1) = t - 1" by (simp add: t_def unat_minus_one)
    moreover have "from \<le> to - 1" unfolding word_le_nat_alt t1 using ft(1) by (simp add: f_def)
    ultimately show ?thesis by (simp add: unat_div unat_sub n_def terms_below_def f_def s_def)
  qed
  have n: "1 \<le> n" "n - 1 \<le> t - 1 - f"
    using div_le_dividend [of "t - 1 - f" s] by (simp_all add: n_def terms_below_def)
  then have "unat ?m + unat (1 :: uint64) < 2 ^ 64" using m t64 ft(1) by simp
  then have n64: "unat (?m + 1) = n" using unat_add_lem [of ?m 1] m n(1) by simp
  have "2 * f + (n - 1) * s \<le> (2 * f + (n - 1) * s) * n" using mult_le_mono2 [OF n(1)] by simp
  then have small: "2 * f + (n - 1) * s < 2 ^ 64" using fits' by (rule le_less_trans)
  have "unat (2 * from) = 2 * f" using small unat_mult_lem [of 2 "from"] by (simp add: f_def)
  moreover have "unat (?m * step) = (n - 1) * s" using small unat_mult_lem [of ?m step] m by (simp add: s_def)
  ultimately have "unat (2 * from + ?m * step) = 2 * f + (n - 1) * s"
    using small unat_add_lem [of "2 * from" "?m * step"] by simp
  then have "unat ((2 * from + ?m * step) * (?m + 1)) = (2 * f + (n - 1) * s) * n"
    using fits' unat_mult_lem [of "2 * from + ?m * step" "?m + 1"] n64 by simp
  then have "unat (RangeSum from to step) = (2 * f + (n - 1) * s) * n div 2"
    using assms(1) by (simp add: RangeSum_def Let_def unat_div)
  also have "\<dots> = (\<Sum>k < n. f + k * s)" using arithmetic_sum [of f s n] by simp
  also have "{..<n} = {k. f + k * s < t}" using terms_below_iff [OF ft] by (auto simp: n_def)
  finally show ?thesis by (simp add: f_def t_def s_def)
qed

text \<open>The formula doubles before it halves: a sum of one large term comes out as 0.\<close>

lemma RangeSum_overflows: "RangeSum 0x8000000000000000 0x8000000000000001 1 = 0"
  by code_simp

end
