(* ===== verification/Compile_Eval.thy ===== *)
theory Compile_Eval
  imports Parallel_Numbers
begin

text \<open>
  Computations at compile time (\<open>compile-eval\<close>): powers, square roots by binary search, the next prime, a
  polynomial hash and the determinant.  Template instantiations and \<open>constexpr\<close> calls are recursive functions;
  \<open>None\<close> is a program that does not compile.  \<open>int\<close> is unbounded where the compiler rejects an overflow, and
  a word where the arithmetic is unsigned.
\<close>

section \<open>Pow\<close>

fun Pow_template :: "32 word \<Rightarrow> nat \<Rightarrow> 32 word" where
  "Pow_template a 0 = 1"
| "Pow_template a (Suc b) = Pow_template a b * a"

fun Pow_constexpr :: "int \<Rightarrow> nat \<Rightarrow> int" where
  "Pow_constexpr a 0 = 1"
| "Pow_constexpr a (Suc b) = Pow_constexpr a b * a"

lemma Pow_powers: "Pow_constexpr a b = a ^ b" "Pow_template c b = c ^ b"
  by (induction b) (simp_all add: mult.commute)

section \<open>Sqrt\<close>

partial_function (option) BinSearchSqrt :: "nat \<Rightarrow> nat \<Rightarrow> nat \<Rightarrow> nat option" where
  "BinSearchSqrt l r n =
    (if n = 1 then Some 1
     else if l = r then Some l
     else if (l + r) div 2 = 0 then None
     else if (l + r) div 2 < (n - 1) div ((l + r) div 2) + 1 then BinSearchSqrt ((l + r) div 2 + 1) r n
     else BinSearchSqrt l ((l + r) div 2) n)"

definition Sqrt :: "nat \<Rightarrow> nat option" where
  "Sqrt n = BinSearchSqrt 0 n n"

lemma below_root: "0 < m \<Longrightarrow> 0 < n \<Longrightarrow> m < (n - 1) div m + 1 \<longleftrightarrow> m * m < (n :: nat)"
proof -
  assume "0 < m" "0 < n"
  have "m < (n - 1) div m + 1 \<longleftrightarrow> m \<le> (n - 1) div m" by auto
  also have "\<dots> \<longleftrightarrow> m * m \<le> n - 1" using \<open>0 < m\<close> by (simp add: less_eq_div_iff_mult_less_eq)
  also have "\<dots> \<longleftrightarrow> m * m < n" using \<open>0 < n\<close> by auto
  finally show ?thesis .
qed

lemma BinSearchSqrt_finds:
  assumes "2 \<le> n" "l \<le> x" "x \<le> r" "n \<le> x * x" "\<And>y. y < x \<Longrightarrow> y * y < n"
  shows "BinSearchSqrt l r n = Some x"
  using assms(2,3)
proof (induction "r - l" arbitrary: l r rule: less_induct)
  case less
  let ?m = "(l + r) div 2"
  show ?case
  proof (cases "l = r")
    case True
    then show ?thesis using less.prems assms(1) by (subst BinSearchSqrt.simps) simp
  next
    case False
    have "2 \<le> x"
    proof (rule ccontr)
      assume "\<not> 2 \<le> x"
      then have "x = 0 \<or> x = 1" by auto
      then show False using assms(1,4) by auto
    qed
    then have m: "0 < ?m" "l \<le> ?m" "?m < r" using less.prems False by auto
    show ?thesis
    proof (cases "?m * ?m < n")
      case True
      then have "?m < x" using assms(4) by (meson le_trans linorder_not_less mult_le_mono)
      then have "BinSearchSqrt (?m + 1) r n = Some x" using less.prems m by (intro less.hyps) auto
      then show ?thesis using True False m assms(1) below_root [OF m(1), of n]
        by (subst BinSearchSqrt.simps) simp
    next
      case nb: False
      then have "x \<le> ?m" using assms(5) [of ?m] by (meson linorder_not_less)
      then have "BinSearchSqrt l ?m n = Some x" using less.prems m by (intro less.hyps) auto
      then show ?thesis using nb False m assms(1) below_root [OF m(1), of n]
        by (subst BinSearchSqrt.simps) simp
    qed
  qed
qed

text \<open>\<open>Sqrt<n>\<close> is the least number whose square is at least \<open>n\<close>, as the documentation asks.\<close>

theorem Sqrt_correct: "\<exists>x. Sqrt n = Some x \<and> n \<le> x * x \<and> (\<forall>y < x. y * y < n)"
proof -
  define x where "x = (LEAST x. n \<le> x * x)"
  have x: "n \<le> x * x" unfolding x_def by (rule LeastI [of _ n]) simp
  have least: "y * y < n" if "y < x" for y using not_less_Least [OF that [unfolded x_def]] by simp
  have xn: "x \<le> n" unfolding x_def by (rule Least_le) simp
  consider "n = 0" | "n = 1" | "2 \<le> n" by linarith
  then have "Sqrt n = Some x"
  proof cases
    case 1
    then have "x = 0" using xn by simp
    then show ?thesis using 1 unfolding Sqrt_def by (subst BinSearchSqrt.simps) simp
  next
    case 2
    then have "x = 1" using xn x by (cases "x = 0") auto
    then show ?thesis using 2 unfolding Sqrt_def by (subst BinSearchSqrt.simps) simp
  next
    case 3
    show ?thesis unfolding Sqrt_def by (rule BinSearchSqrt_finds [OF 3 _ xn x least]) auto
  qed
  then show ?thesis using x least by blast
qed

section \<open>NextPrime\<close>

function IsPrime_loop :: "int \<Rightarrow> int \<Rightarrow> bool" where
  "IsPrime_loop x i = (if i * i \<le> x then if x mod i = 0 then False else IsPrime_loop x (i + 2) else True)"
  by pat_completeness auto
termination
proof (relation "measure (\<lambda>(x, i). nat (x + 1 - i))")
  fix x i :: int
  assume "i * i \<le> x"
  moreover have "i \<le> i * i" using zero_le_square [of i] by (cases "i \<le> 0") (auto simp: mult_le_cancel_left1)
  ultimately show "((x, i + 2), x, i) \<in> measure (\<lambda>(x, i). nat (x + 1 - i))" by simp
qed simp

declare IsPrime_loop.simps [simp del]

definition IsPrime_int :: "int \<Rightarrow> bool" where
  "IsPrime_int x = IsPrime_loop x 3"

partial_function (option) NextPrime_loop :: "int \<Rightarrow> int option" where
  "NextPrime_loop i = (if IsPrime_int i then Some i else NextPrime_loop (i + 2))"

definition NextPrimeImpl :: "int \<Rightarrow> int option" where
  "NextPrimeImpl x =
    (if x = 0 then Some 2
     else if x = 1 then Some 2
     else if x = 2 then Some 3
     else NextPrime_loop (if x mod 2 = 0 then x + 1 else x + 2))"

definition NextPrime :: "int \<Rightarrow> int option" where
  "NextPrime x = NextPrimeImpl (x - 1)"

lemma IsPrime_loop_iff:
  assumes "odd i" "0 < i"
  shows "IsPrime_loop x i \<longleftrightarrow> (\<forall>d. i \<le> d \<and> odd d \<and> d * d \<le> x \<longrightarrow> \<not> d dvd x)"
  using assms
proof (induction x i rule: IsPrime_loop.induct)
  case (1 x i)
  show ?case
  proof (cases "i * i \<le> x \<and> x mod i \<noteq> 0")
    case True
    have "i \<le> d \<and> odd d \<longleftrightarrow> d = i \<or> i + 2 \<le> d \<and> odd d" for d
      using 1(2) by (auto elim!: oddE)
    moreover have "IsPrime_loop x (i + 2) \<longleftrightarrow> (\<forall>d. i + 2 \<le> d \<and> odd d \<and> d * d \<le> x \<longrightarrow> \<not> d dvd x)"
      using 1(1) True 1(2,3) by auto
    moreover have "IsPrime_loop x i = IsPrime_loop x (i + 2)" using True by (subst IsPrime_loop.simps) simp
    moreover have "\<not> i dvd x" using True by (simp add: dvd_eq_mod_eq_0)
    ultimately show ?thesis by metis
  next
    case False
    show ?thesis
    proof (cases "i * i \<le> x")
      case True
      then have "i dvd x" "\<not> IsPrime_loop x i"
        using False by (simp_all add: dvd_eq_mod_eq_0 IsPrime_loop.simps [of x i])
      then show ?thesis using True 1(2) by blast
    next
      case nb: False
      have "i * i \<le> d * d" if "i \<le> d" for d using that 1(3) by (intro mult_mono) auto
      then have "\<not> d * d \<le> x" if "i \<le> d" for d using that nb by (meson order_trans)
      moreover have "IsPrime_loop x i" using nb by (simp add: IsPrime_loop.simps [of x i])
      ultimately show ?thesis by blast
    qed
  qed
qed

lemma composite_divisor:
  assumes "2 \<le> n" "\<not> prime_number n"
  shows "\<exists>d. 2 \<le> d \<and> d * d \<le> n \<and> d dvd n"
proof -
  obtain d where d: "d dvd n" "d \<noteq> 1" "d \<noteq> n" using assms by (auto simp: prime_number_def)
  then obtain e where e: "n = d * e" by (auto simp: dvd_def)
  have "d \<noteq> 0" using e assms(1) by (cases "d = 0") auto
  moreover have "e \<noteq> 0" using e assms(1) by (cases "e = 0") auto
  moreover have "e \<noteq> 1" using e d(3) by auto
  ultimately have ge: "2 \<le> d" "2 \<le> e" using d(2) by linarith+
  show ?thesis
  proof (cases "d \<le> e")
    case True
    then show ?thesis using d ge e by (intro exI [of _ d]) auto
  next
    case False
    then show ?thesis using ge e by (intro exI [of _ e]) (auto simp: mult.commute)
  qed
qed

lemma IsPrime_int_correct:
  assumes "odd x" "3 \<le> x"
  shows "IsPrime_int x \<longleftrightarrow> prime_number (nat x)"
proof
  assume p: "IsPrime_int x"
  show "prime_number (nat x)"
  proof (rule ccontr)
    assume "\<not> prime_number (nat x)"
    moreover have "2 \<le> nat x" using assms(2) by simp
    ultimately obtain d where d: "2 \<le> d" "d * d \<le> nat x" "d dvd nat x"
      using composite_divisor by blast
    have "int d dvd int (nat x)" using d(3) by (simp only: int_dvd_int_iff)
    then have dx: "int d dvd x" using assms(2) by simp
    then have odd: "odd (int d)" using assms(1) by (metis dvd_trans)
    moreover have "int d * int d \<le> x" using d(2) assms(2) by (simp add: le_nat_iff)
    moreover have "3 \<le> int d" using d(1) odd by (cases "d = 2") auto
    ultimately show False using p dx IsPrime_loop_iff [of 3 x] by (auto simp: IsPrime_int_def)
  qed
next
  assume p: "prime_number (nat x)"
  have "\<not> d dvd x" if d: "3 \<le> d" "d * d \<le> x" for d
  proof
    assume "d dvd x"
    then have "nat d dvd nat x" using d(1) by (simp add: nat_dvd_iff)
    then have "d = x" using p d(1) assms(2) by (auto simp: prime_number_def)
    then have "x * 3 \<le> x * x" using assms(2) by (intro mult_left_mono) auto
    then show False using d(2) \<open>d = x\<close> assms(2) by auto
  qed
  then show "IsPrime_int x" using IsPrime_loop_iff [of 3 x] by (auto simp: IsPrime_int_def)
qed

lemma prime_divisor:
  assumes "2 \<le> n"
  shows "\<exists>p. prime_number p \<and> p dvd n"
  using assms
proof (induction n rule: less_induct)
  case (less n)
  show ?case
  proof (cases "prime_number n")
    case False
    then obtain d where d: "2 \<le> d" "d * d \<le> n" "d dvd n" using composite_divisor less.prems by blast
    have "d * 2 \<le> d * d" using d(1) by (rule mult_le_mono2)
    then have "d < n" using d(1,2) by linarith
    then show ?thesis using less.IH [OF _ d(1)] d(3) by (meson dvd_trans)
  qed auto
qed

lemma primes_unbounded: "\<exists>p. prime_number p \<and> n < p"
proof -
  obtain p where p: "prime_number p" "p dvd fact n + 1" using prime_divisor [of "fact n + 1"] by auto
  have "n < p"
  proof (rule ccontr)
    assume "\<not> n < p"
    then have "p dvd fact n" using p(1) by (intro dvd_fact) (auto simp: prime_number_def)
    then have "p dvd 1" using p(2) dvd_add_right_iff [of p "fact n" 1] by blast
    then show False using p(1) by (simp add: prime_number_def)
  qed
  then show ?thesis using p(1) by blast
qed

lemma prime_2_3: "prime_number 2" "prime_number 3"
proof -
  have "d = 1 \<or> d = n" if d: "d dvd n" and n: "n = 2 \<or> n = 3" for d n :: nat
  proof -
    have "d \<le> n" using d n by (intro dvd_imp_le) auto
    then have "d = 0 \<or> d = 1 \<or> d = 2 \<or> d = 3" using n by linarith
    then show ?thesis using d n \<open>d \<le> n\<close> by auto
  qed
  then show "prime_number 2" "prime_number 3" by (auto simp: prime_number_def)
qed

lemma prime_odd: "prime_number p \<Longrightarrow> 2 < p \<Longrightarrow> odd p"
  unfolding prime_number_def by (metis dvd_def less_irrefl numeral_eq_one_iff semiring_norm(85))

lemma NextPrime_loop_finds:
  assumes "odd i" "3 \<le> i" "i \<le> p" "prime_number (nat p)" "\<And>q. i \<le> q \<Longrightarrow> q < p \<Longrightarrow> \<not> prime_number (nat q)"
  shows "NextPrime_loop i = Some p"
  using assms(1-3,5)
proof (induction "nat (p - i)" arbitrary: i rule: less_induct)
  case less
  show ?case
  proof (cases "i = p")
    case True
    then have "IsPrime_int i" using IsPrime_int_correct [of i] less.prems assms(4) by simp
    then show ?thesis using True by (subst NextPrime_loop.simps) simp
  next
    case False
    then have "\<not> IsPrime_int i" using IsPrime_int_correct [of i] less.prems by simp
    moreover have "odd p" using prime_odd [OF assms(4)] less.prems by (simp add: even_nat_iff)
    then have "i + 2 \<le> p" using False less.prems(1,3) by (auto elim!: oddE)
    then have "NextPrime_loop (i + 2) = Some p" using less.prems by (intro less.hyps) auto
    ultimately show ?thesis by (subst NextPrime_loop.simps) simp
  qed
qed

text \<open>\<open>NextPrime\<close> returns the least prime that is not less than its argument, for every positive argument.\<close>

theorem NextPrime_correct:
  assumes "1 \<le> x"
  shows "\<exists>p. NextPrime x = Some p \<and> x \<le> p \<and> prime_number (nat p) \<and> (\<forall>q. x \<le> q \<and> q < p \<longrightarrow> \<not> prime_number (nat q))"
proof -
  define p where "p = (LEAST p. prime_number p \<and> nat x \<le> p)"
  obtain p0 where "prime_number p0" "nat x < p0" using primes_unbounded [of "nat x"] by blast
  then have "prime_number p0 \<and> nat x \<le> p0" by simp
  then have p: "prime_number p" "nat x \<le> p" unfolding p_def by (auto intro: LeastI2)
  have least: "\<not> prime_number q" if "nat x \<le> q" "q < p" for q
    using not_less_Least [OF that(2) [unfolded p_def]] that(1) by auto
  have least': "\<not> prime_number (nat q)" if "x \<le> q" "q < int p" for q
    using least [of "nat q"] that assms by simp
  note small = prime_2_3
  have "NextPrime x = Some (int p)"
  proof (cases "x \<le> 3")
    case True
    then consider "x = 1" | "x = 2" | "x = 3" using assms by linarith
    then show ?thesis
    proof cases
      case 1
      then have "\<not> 2 < p" using least [of 2] small by auto
      then have "p = 2" using p(1) by (simp add: prime_number_def)
      then show ?thesis using 1 by (simp add: NextPrime_def NextPrimeImpl_def)
    next
      case 2
      then have "p = 2" using p least [of 2] small by (cases "p \<le> 2") auto
      then show ?thesis using 2 by (simp add: NextPrime_def NextPrimeImpl_def)
    next
      case 3
      then have "p = 3" using p least [of 3] small by (cases "p \<le> 3") auto
      then show ?thesis using 3 by (simp add: NextPrime_def NextPrimeImpl_def)
    qed
  next
    case False
    let ?i = "if even x then x + 1 else x"
    have i: "odd ?i" "3 \<le> ?i" "x \<le> ?i" using False by auto
    have "odd p" using prime_odd [OF p(1)] p(2) False by simp
    then have ip: "?i \<le> int p" using p(2) False by (auto simp: nat_le_iff) presburger
    have "NextPrime_loop ?i = Some (int p)"
      by (rule NextPrime_loop_finds [OF i(1,2) ip]) (use p(1) least' i(3) in auto)
    moreover have "NextPrime x = NextPrime_loop ?i"
      using False by (auto simp: NextPrime_def NextPrimeImpl_def mod_diff_eq intro!: arg_cong [of _ _ NextPrime_loop])
    ultimately show ?thesis by simp
  qed
  then show ?thesis using p least' assms by (intro exI [of _ "int p"]) (auto simp: nat_le_iff)
qed

text \<open>Of 0 the next prime is 1.\<close>

lemma NextPrime_zero: "NextPrime 0 = Some 1"
proof -
  have "IsPrime_int 1" by (simp add: IsPrime_int_def IsPrime_loop.simps)
  then have "NextPrime_loop 1 = Some 1" by (subst NextPrime_loop.simps) simp
  then show ?thesis by (simp add: NextPrime_def NextPrimeImpl_def)
qed

section \<open>Hash\<close>

text \<open>
  \<open>char\<close> is signed: it and the result of the recursive call are extended to 64 bits by sign, and the result is cut
  to the 32 bits of \<open>int\<close>.
\<close>

fun HashImpl :: "8 word list \<Rightarrow> uint64 \<Rightarrow> uint64 \<Rightarrow> 32 word" where
  "HashImpl [] p modulus = 0"
| "HashImpl (c # s) p modulus =
    ucast ((scast (HashImpl s p modulus) * p mod modulus + scast c) mod modulus)"

definition Hash :: "8 word list \<Rightarrow> 32 word \<Rightarrow> 32 word \<Rightarrow> 32 word" where
  "Hash s p modulus = HashImpl s (scast p) (scast modulus)"

fun polynomial :: "nat list \<Rightarrow> nat \<Rightarrow> nat" where
  "polynomial [] p = 0"
| "polynomial (c # s) p = c + p * polynomial s p"

lemma polynomial_sum: "polynomial s p = (\<Sum>i < length s. s ! i * p ^ i)"
proof (induction s)
  case (Cons c s)
  have "(\<Sum>i < length (c # s). (c # s) ! i * p ^ i) = c + (\<Sum>i < length s. s ! i * p ^ Suc i)"
    by (simp add: sum.lessThan_Suc_shift del: sum.lessThan_Suc)
  also have "(\<Sum>i < length s. s ! i * p ^ Suc i) = p * (\<Sum>i < length s. s ! i * p ^ i)"
    by (simp add: sum_distrib_left ac_simps)
  finally show ?case using Cons.IH by simp
qed simp

lemma unat_scast:
  fixes w :: "'a :: len word"
  assumes "unat w < 2 ^ (LENGTH('a) - 1)" "LENGTH('a) \<le> 64"
  shows "unat (scast w :: uint64) = unat w"
proof -
  have "int (unat w) < int (2 ^ (LENGTH('a) - 1))" using assms(1) by (simp only: of_nat_less_iff)
  then have u: "uint w < 2 ^ (LENGTH('a) - 1)" by simp
  moreover have "- (2 ^ (LENGTH('a) - 1)) \<le> uint w" by (rule order_trans [of _ 0]) simp_all
  ultimately have "sint w = uint w" unfolding sint_uint by (simp add: signed_take_bit_int_eq_self)
  moreover have "uint w < 2 ^ 64"
  proof (rule order_less_le_trans [OF u])
    show "(2 :: int) ^ (LENGTH('a) - 1) \<le> 2 ^ 64" using assms(2) by (intro power_increasing) auto
  qed
  moreover have "(scast w :: uint64) = word_of_int (sint w)" by (simp only: of_int_sint)
  ultimately have "uint (scast w :: uint64) = uint w" by (simp add: unsigned_ucast_eq take_bit_int_eq_self)
  then show ?thesis by (simp only: unat_eq_nat_uint)
qed

lemma HashImpl_bound:
  assumes "\<forall>c \<in> set s. unat c < 128" "0 < unat modulus" "unat modulus < 2 ^ 31" "unat p < 2 ^ 31"
  shows "unat (HashImpl s p modulus) = polynomial (map unat s) (unat p) mod unat modulus"
  using assms(1)
proof (induction s)
  case (Cons c s)
  let ?h = "HashImpl s p modulus" and ?m = "unat modulus"
  have h: "unat ?h = polynomial (map unat s) (unat p) mod ?m" using Cons by simp
  then have hm: "unat ?h < 2 ^ 31" using assms(2,3) by (metis mod_less_divisor order_less_trans)
  have sh: "unat (scast ?h :: uint64) = unat ?h" by (rule unat_scast) (use hm in auto)
  have sc: "unat (scast c :: uint64) = unat c" by (rule unat_scast) (use Cons.prems in auto)
  have "unat ?h * unat p \<le> 2 ^ 31 * 2 ^ 31" using hm assms(4) by (intro mult_le_mono) auto
  then have "unat (scast ?h * p) = unat ?h * unat p" using unat_mult_lem [of "scast ?h" p] sh by simp
  then have m: "unat (scast ?h * p mod modulus) = unat ?h * unat p mod ?m" by (simp add: unat_mod)
  have "unat ?h * unat p mod ?m < ?m" using assms(2) by simp
  then have "unat (scast ?h * p mod modulus) + unat (scast c :: uint64) < 2 ^ 64"
    using m sc assms(3) Cons.prems by simp
  then have a: "unat (scast ?h * p mod modulus + scast c) = unat ?h * unat p mod ?m + unat c"
    using unat_add_lem [of "scast ?h * p mod modulus" "scast c"] m sc by simp
  let ?r = "(scast ?h * p mod modulus + scast c) mod modulus"
  have r: "unat ?r = (unat ?h * unat p mod ?m + unat c) mod ?m" using a by (simp add: unat_mod)
  moreover have "(unat ?h * unat p mod ?m + unat c) mod ?m < ?m" using assms(2) by simp
  ultimately have "unat ?r < 2 ^ 32" using assms(3) by simp
  then have "unat (ucast ?r :: 32 word) = unat ?r" by (simp add: unsigned_ucast_eq take_bit_nat_eq_self)
  then have "unat (HashImpl (c # s) p modulus) = (unat ?h * unat p mod ?m + unat c) mod ?m" using r by simp
  also have "\<dots> = (unat c + unat p * polynomial (map unat s) (unat p)) mod ?m"
    unfolding h by (simp add: mod_simps ac_simps)
  finally show ?case by simp
qed simp

text \<open>\<open>Hash\<close> is the polynomial hash of the documentation, for ASCII strings and a positive modulus.\<close>

theorem Hash_correct:
  assumes "\<forall>c \<in> set s. unat c < 128" "0 < unat m" "unat m < 2 ^ 31" "unat p < 2 ^ 31"
  shows "unat (Hash s p m) = (\<Sum>i < length s. unat (s ! i) * unat p ^ i) mod unat m"
proof -
  have "unat (scast m :: uint64) = unat m" "unat (scast p :: uint64) = unat p"
    using assms by (auto intro!: unat_scast)
  then show ?thesis using HashImpl_bound [of s "scast m" "scast p"] assms by (simp add: Hash_def polynomial_sum)
qed

section \<open>Determinant\<close>

text \<open>\<open>Slice\<close> drops the first element of a row, \<open>Submatrix<K>\<close> the row \<open>K\<close> and the first column.\<close>

definition Slice :: "int list \<Rightarrow> int list" where
  "Slice row = tl row"

definition Submatrix :: "nat \<Rightarrow> int list list \<Rightarrow> int list list" where
  "Submatrix k a = map Slice (take k a) @ map Slice (drop (k + 1) a)"

lemma length_Submatrix [simp]: "k < length a \<Longrightarrow> length (Submatrix k a) = length a - 1"
  by (auto simp: Submatrix_def)

text \<open>The loop over the first column: \<open>m\<close> is the sign, \<open>i\<close> the row.\<close>

fun Determinant_loop :: "int list list \<Rightarrow> int list \<Rightarrow> int \<Rightarrow> nat \<Rightarrow> int" where
  "Determinant_loop a [] m i = 0"
| "Determinant_loop a (minor # minors) m i = m * a ! i ! 0 * minor + Determinant_loop a minors (m * - 1) (i + 1)"

function Determinant :: "int list list \<Rightarrow> int" where
  "Determinant a =
    (if length a \<le> 1 then a ! 0 ! 0
     else Determinant_loop a (map (\<lambda>k. Determinant (Submatrix k a)) [0..<length a]) 1 0)"
  by pat_completeness auto
termination by (relation "measure length") auto

declare Determinant.simps [simp del]

lemma Determinant_loop_sum:
  "Determinant_loop a ms m i = (\<Sum>j < length ms. m * (- 1) ^ j * a ! (i + j) ! 0 * ms ! j)"
proof (induction ms arbitrary: m i)
  case (Cons x ms)
  then show ?case by (simp add: sum.lessThan_Suc_shift sum_negf del: sum.lessThan_Suc)
qed simp

lemma Determinant_laplace:
  assumes "2 \<le> length a"
  shows "Determinant a = (\<Sum>k < length a. (- 1) ^ k * a ! k ! 0 * Determinant (Submatrix k a))"
  using assms by (subst Determinant.simps) (simp add: Determinant_loop_sum)

lemma Submatrix_nth:
  assumes "k < length a" "j < length a - 1"
  shows "Submatrix k a ! j = tl (a ! (if j < k then j else j + 1))"
  using assms by (auto simp: Submatrix_def Slice_def nth_append)

lemma Submatrix_upd_same: "r < length a \<Longrightarrow> Submatrix r (a[r := w]) = Submatrix r a"
  by (simp add: Submatrix_def)

lemma Submatrix_upd_other:
  assumes "k < length a" "r < length a" "k \<noteq> r"
  shows "Submatrix k (a[r := w]) = (Submatrix k a)[(if r < k then r else r - 1) := tl w]"
proof (rule nth_equalityI)
  fix j assume "j < length (Submatrix k (a[r := w]))"
  then have j: "j < length a - 1" using assms by simp
  then show "Submatrix k (a[r := w]) ! j = (Submatrix k a)[(if r < k then r else r - 1) := tl w] ! j"
    using assms by (auto simp: Submatrix_nth nth_list_update)
qed (use assms in simp)

definition square :: "int list list \<Rightarrow> bool" where
  "square a \<longleftrightarrow> a \<noteq> [] \<and> (\<forall>row \<in> set a. length row = length a)"

lemma square_Submatrix: "square a \<Longrightarrow> 2 \<le> length a \<Longrightarrow> k < length a \<Longrightarrow> square (Submatrix k a)"
  by (auto simp: square_def Submatrix_def Slice_def dest: in_set_takeD in_set_dropD)

definition combine :: "int \<Rightarrow> int list \<Rightarrow> int list \<Rightarrow> int list" where
  "combine c u v = map2 (\<lambda>x y. c * x + y) u v"

lemma combine_simps:
  "length u = length v \<Longrightarrow> u \<noteq> [] \<Longrightarrow> combine c u v ! 0 = c * u ! 0 + v ! 0"
  "length (combine c u v) = min (length u) (length v)"
  "tl (combine c u v) = combine c (tl u) (tl v)"
  by (cases u; cases v; simp add: combine_def)+

lemma Determinant_linear:
  assumes "square a" "r < length a" "length u = length a" "length v = length a"
  shows "Determinant (a[r := combine c u v]) = c * Determinant (a[r := u]) + Determinant (a[r := v])"
  using assms
proof (induction "length a" arbitrary: a r u v rule: less_induct)
  case less
  have uv: "combine c u v ! 0 = c * u ! 0 + v ! 0"
    using less.prems by (intro combine_simps(1)) auto
  show ?case
  proof (cases "2 \<le> length a")
    case False
    then have "length a = 1" using less.prems(2) by linarith
    then show ?thesis using less.prems uv by (simp add: Determinant.simps)
  next
    case True
    have "(- 1) ^ k * (a[r := combine c u v]) ! k ! 0 * Determinant (Submatrix k (a[r := combine c u v])) =
        c * ((- 1) ^ k * (a[r := u]) ! k ! 0 * Determinant (Submatrix k (a[r := u]))) +
        (- 1) ^ k * (a[r := v]) ! k ! 0 * Determinant (Submatrix k (a[r := v]))" if k: "k < length a" for k
    proof (cases "k = r")
      case True
      then show ?thesis using less.prems uv by (simp add: Submatrix_upd_same algebra_simps)
    next
      case False
      let ?r = "if r < k then r else r - 1"
      have "?r < length (Submatrix k a)" using k less.prems(2) False by auto
      then have "Determinant ((Submatrix k a)[?r := combine c (tl u) (tl v)]) =
          c * Determinant ((Submatrix k a)[?r := tl u]) + Determinant ((Submatrix k a)[?r := tl v])"
        using less.hyps [of "Submatrix k a" ?r "tl u" "tl v"] less.prems True k square_Submatrix by simp
      then show ?thesis
        using False k less.prems Submatrix_upd_other [OF k less.prems(2) False]
        by (simp add: combine_simps(3) algebra_simps)
    qed
    then show ?thesis using True
      by (simp add: Determinant_laplace sum.distrib sum_distrib_left)
  qed
qed

lemma Submatrix_equal_rows:
  assumes "Suc r < length a" "a ! r = a ! Suc r"
  shows "Submatrix r a = Submatrix (Suc r) a"
proof (rule nth_equalityI)
  fix j assume "j < length (Submatrix r a)"
  then have "j < length a - 1" using assms(1) by simp
  then show "Submatrix r a ! j = Submatrix (Suc r) a ! j"
    using assms by (cases "j = r") (auto simp: Submatrix_nth)
qed (use assms(1) in simp)

lemma Determinant_equal_rows:
  assumes "square a" "Suc r < length a" "a ! r = a ! Suc r"
  shows "Determinant a = 0"
  using assms
proof (induction "length a" arbitrary: a r rule: less_induct)
  case less
  let ?t = "\<lambda>k. (- 1) ^ k * a ! k ! 0 * Determinant (Submatrix k a)"
  have "?t k = 0" if k: "k < length a" "k \<noteq> r" "k \<noteq> Suc r" for k
  proof -
    let ?r = "if k < r then r - 1 else r"
    have "Submatrix k a ! ?r = Submatrix k a ! Suc ?r"
      using k less.prems by (auto simp: Submatrix_nth)
    moreover have "Suc ?r < length (Submatrix k a)" using k less.prems(2) by auto
    ultimately have "Determinant (Submatrix k a) = 0"
      using less.hyps [of "Submatrix k a" ?r] less.prems k square_Submatrix by simp
    then show ?thesis by simp
  qed
  then have "(\<Sum>k < length a. ?t k) = (\<Sum>k \<in> {r, Suc r}. ?t k)"
    using less.prems(2) by (intro sum.mono_neutral_right) auto
  also have "\<dots> = 0" using less.prems Submatrix_equal_rows [of r a] by simp
  finally show ?case using less.prems(2) by (simp add: Determinant_laplace)
qed

definition identity :: "nat \<Rightarrow> int list list" where
  "identity n = map (\<lambda>i. map (\<lambda>j. if i = j then 1 else 0) [0..<n]) [0..<n]"

lemma Submatrix_identity: "Submatrix 0 (identity (Suc n)) = identity n"
  by (intro nth_equalityI) (auto simp: Submatrix_nth identity_def nth_tl simp del: upt_Suc)

lemma Determinant_identity: "0 < n \<Longrightarrow> Determinant (identity n) = 1"
proof (induction n)
  case (Suc n)
  show ?case
  proof (cases "n = 0")
    case True
    then show ?thesis by (simp add: Determinant.simps identity_def)
  next
    case False
    have "Determinant (identity (Suc n)) =
        (\<Sum>k < Suc n. (- 1) ^ k * identity (Suc n) ! k ! 0 * Determinant (Submatrix k (identity (Suc n))))"
      using False Determinant_laplace [of "identity (Suc n)"] by (simp add: identity_def del: sum.lessThan_Suc)
    also have "\<dots> = (\<Sum>k \<in> {0}. (- 1) ^ k * identity (Suc n) ! k ! 0 * Determinant (Submatrix k (identity (Suc n))))"
      by (rule sum.mono_neutral_right) (auto simp: identity_def simp del: upt_Suc)
    also have "\<dots> = 1" using Suc False Submatrix_identity [of n] by (simp add: identity_def del: upt_Suc)
    finally show ?thesis .
  qed
qed simp



end
