(* ===== verification/Contexts.thy ===== *)
theory Contexts
  imports Prelude
begin

text \<open>
  Context switches of the fiber runtime: \<open>tools/cactus/internal/context.h\<close> and \<open>context.cpp\<close>.  The assembly is what
  its callers rely on: \<open>CactusContextActivate\<close> goes on at the point where the activated context was suspended
  and hands it the arguments.  What a suspended context does next is a \<open>point\<close>: its entry function, or the
  rest of the call of \<open>Activate\<close> in which it was suspended.  The state includes the exceptions being handled
  (\<open>__cxa_get_globals()->CaughtExceptions\<close>), which \<open>Activate\<close> saves and restores.  Stack addresses and the calls
  to the address sanitizer are left out.
\<close>

section \<open>SavedContext\<close>

datatype point = At_entry | Inside nat

record 'e machine =
  rsp :: "nat \<Rightarrow> point option"
  eh :: "nat \<Rightarrow> 'e list"
  entry :: "nat \<Rightarrow> bool"
  eh_globals :: "'e list"
  running :: nat

definition SavedContext_ctor :: "nat \<Rightarrow> 'e machine \<Rightarrow> 'e machine" where
  "SavedContext_ctor c m = m\<lparr>rsp := (rsp m)(c := Some At_entry), eh := (eh m)(c := []), entry := (entry m)(c := True)\<rparr>"

text \<open>
  The switch to the suspended context \<open>c\<close>, whose point is \<open>p\<close>: the first part of \<open>CactusContextEntry\<close>, or the second
  part of the \<open>Activate\<close> it was suspended in.  \<open>from\<close> is the context that is suspended now, if any, with its
  own point.  \<open>None\<close>: a \<open>DCHECK\<close> fails.
\<close>

definition switch_to :: "nat \<Rightarrow> point \<Rightarrow> (nat \<times> point) option \<Rightarrow> 'e machine \<Rightarrow> 'e machine option" where
  "switch_to c p from m =
    (let m = (case from of Some (f, q) \<Rightarrow> m\<lparr>rsp := (rsp m)(f := Some q)\<rparr> | None \<Rightarrow> m);
         m = m\<lparr>running := c\<rparr>
     in case p of
          At_entry \<Rightarrow> if entry m c then Some (m\<lparr>entry := (entry m)(c := False)\<rparr>) else None
        | Inside d \<Rightarrow> Some (m\<lparr>eh_globals := eh m d, eh := (eh m)(d := [])\<rparr>))"

text \<open>\<open>c.Activate(suspend_to)\<close>, called by the running context, which is \<open>suspend_to\<close>.\<close>

definition SavedContext_Activate :: "nat \<Rightarrow> 'e machine \<Rightarrow> 'e machine option" where
  "SavedContext_Activate c m =
    (let suspend_to = running m;
         m = m\<lparr>eh := (eh m)(c := eh_globals m), eh_globals := []\<rparr>
     in if suspend_to = c then None
        else case rsp m c of
            None \<Rightarrow> None
          | Some p \<Rightarrow> switch_to c p (Some (suspend_to, Inside c)) (m\<lparr>rsp := (rsp m)(c := None)\<rparr>))"

text \<open>The end of \<open>CactusContextEntry\<close>: \<open>entry->Run()\<close> has returned the context \<open>c\<close>.\<close>

definition CactusContextEntry_end :: "nat \<Rightarrow> 'e machine \<Rightarrow> 'e machine option" where
  "CactusContextEntry_end c m =
    (case rsp m c of
       None \<Rightarrow> None
     | Some p \<Rightarrow> switch_to c p None (m\<lparr>eh_globals := [], rsp := (rsp m)(c := None)\<rparr>))"

section \<open>The scheduler and its fibers\<close>

text \<open>
  Context 0 is the scheduler's \<open>main_context_\<close>: \<open>RunLoop\<close> activates fibers from it, and \<open>Park\<close> and the end of a fiber
  activate it.  \<open>own\<close> is no variable of the program: it records the exceptions every context was handling when it
  was suspended.
\<close>

inductive ctx_step :: "'e machine \<times> (nat \<Rightarrow> 'e list) \<Rightarrow> 'e machine \<times> (nat \<Rightarrow> 'e list) \<Rightarrow> bool" where
  create: "c \<noteq> 0 \<Longrightarrow> c \<noteq> running m \<Longrightarrow> rsp m c = None \<Longrightarrow> ctx_step (m, own) (SavedContext_ctor c m, own(c := []))"
| begin_catch: "ctx_step (m, own) (m\<lparr>eh_globals := e # eh_globals m\<rparr>, own)"
| end_catch: "eh_globals m = e # es \<Longrightarrow> ctx_step (m, own) (m\<lparr>eh_globals := es\<rparr>, own)"
| resume: "running m = 0 \<Longrightarrow> c \<noteq> 0 \<Longrightarrow> rsp m c \<noteq> None \<Longrightarrow> SavedContext_Activate c m = Some m' \<Longrightarrow>
    ctx_step (m, own) (m', own(0 := eh_globals m))"
| park: "running m = f \<Longrightarrow> f \<noteq> 0 \<Longrightarrow> SavedContext_Activate 0 m = Some m' \<Longrightarrow>
    ctx_step (m, own) (m', own(f := eh_globals m))"
| finish: "running m = f \<Longrightarrow> f \<noteq> 0 \<Longrightarrow> CactusContextEntry_end 0 m = Some m' \<Longrightarrow> ctx_step (m, own) (m', own)"

definition ctx_init :: "'e machine \<times> (nat \<Rightarrow> 'e list)" where
  "ctx_init = (\<lparr>rsp = (\<lambda>_. None), eh = (\<lambda>_. []), entry = (\<lambda>_. False), eh_globals = [], running = 0\<rparr>, \<lambda>_. [])"

text \<open>While a fiber runs, the main context is suspended inside \<open>Activate\<close> of that fiber.\<close>

definition ctx_ok :: "'e machine \<times> (nat \<Rightarrow> 'e list) \<Rightarrow> bool" where
  "ctx_ok s \<longleftrightarrow>
    (let m = fst s; own = snd s in
      (running m = 0 \<longrightarrow> rsp m 0 = None) \<and>
      (running m \<noteq> 0 \<longrightarrow> rsp m 0 = Some (Inside (running m)) \<and> rsp m (running m) = None \<and> eh m (running m) = own 0) \<and>
      (\<forall>c p. c \<noteq> 0 \<longrightarrow> rsp m c = Some p \<longrightarrow> p = Inside 0 \<or> p = At_entry \<and> entry m c))"

lemma ctx_ok_Activate_fiber:
  assumes "ctx_ok (m, own)" "running m = 0" "c \<noteq> 0" "rsp m c \<noteq> None"
  shows "\<exists>m'. SavedContext_Activate c m = Some m' \<and> ctx_ok (m', own(0 := eh_globals m))"
proof -
  obtain p where p: "rsp m c = Some p" "p = Inside 0 \<or> p = At_entry \<and> entry m c"
    using assms by (auto simp: ctx_ok_def Let_def)
  then show ?thesis
    using assms by (cases p) (auto simp: ctx_ok_def Let_def SavedContext_Activate_def switch_to_def)
qed

lemma ctx_ok_Activate_main:
  assumes "ctx_ok (m, own)" "running m = f" "f \<noteq> 0"
  shows "\<exists>m'. SavedContext_Activate 0 m = Some m' \<and> ctx_ok (m', own(f := eh_globals m)) \<and>
    running m' = 0 \<and> eh_globals m' = own 0 \<and> eh m' 0 = eh_globals m"
  using assms by (auto simp: ctx_ok_def Let_def SavedContext_Activate_def switch_to_def)

lemma ctx_ok_finish:
  assumes "ctx_ok (m, own)" "running m = f" "f \<noteq> 0"
  shows "\<exists>m'. CactusContextEntry_end 0 m = Some m' \<and> ctx_ok (m', own) \<and> running m' = 0 \<and> eh_globals m' = own 0"
  using assms by (auto simp: ctx_ok_def Let_def CactusContextEntry_end_def switch_to_def)

interpretation ctx: step_system ctx_step ctx_ok
proof
  fix s s' :: "'e machine \<times> (nat \<Rightarrow> 'e list)"
  assume st: "ctx_step s s'" and ok: "ctx_ok s"
  from st show "ctx_ok s'"
  proof (cases rule: ctx_step.cases)
    case (create c m own)
    then show ?thesis using ok by (auto simp: ctx_ok_def Let_def SavedContext_ctor_def)
  next
    case (begin_catch m own e)
    then show ?thesis using ok by (simp add: ctx_ok_def Let_def)
  next
    case (end_catch m e es own)
    then show ?thesis using ok by (simp add: ctx_ok_def Let_def)
  next
    case (resume m c m' own)
    then show ?thesis using ctx_ok_Activate_fiber [of m own c] ok by auto
  next
    case (park m f m' own)
    then show ?thesis using ctx_ok_Activate_main [of m own f] ok by auto
  next
    case (finish m f m' own)
    then show ?thesis using ctx_ok_finish [of m own f] ok by auto
  qed
qed

lemma ctx_init_ok: "ctx_ok ctx_init"
  by (simp add: ctx_ok_def ctx_init_def Let_def)

text \<open>
  No \<open>DCHECK\<close> of a switch fails: a suspended fiber can always be activated, and a running one can always park
  or end; and whenever the scheduler's context goes on, it handles the exceptions it handled before.
\<close>

theorem context_switches_safe:
  assumes "ctx_step\<^sup>*\<^sup>* ctx_init (m, own)"
  shows "(running m = 0 \<and> c \<noteq> 0 \<and> rsp m c \<noteq> None \<longrightarrow> SavedContext_Activate c m \<noteq> None) \<and>
    (running m \<noteq> 0 \<longrightarrow>
      (\<exists>m'. SavedContext_Activate 0 m = Some m' \<and> running m' = 0 \<and> eh_globals m' = own 0) \<and>
      (\<exists>m'. CactusContextEntry_end 0 m = Some m' \<and> running m' = 0 \<and> eh_globals m' = own 0))"
proof -
  have ok: "ctx_ok (m, own)" using ctx.reachable_keeps [OF assms ctx_init_ok] .
  show ?thesis
    using ctx_ok_Activate_fiber [OF ok, of c] ctx_ok_Activate_main [OF ok refl] ctx_ok_finish [OF ok refl] by blast
qed

text \<open>
  The exceptions of a fiber are saved in the context it switches to, the main one, which all fibers share: a
  fiber goes on with the exceptions of the fiber that parked last.
\<close>

lemma fiber_gets_last_parked:
  assumes "ctx_ok (m, own)" "running m = 0" "c \<noteq> 0" "rsp m c = Some (Inside 0)" "SavedContext_Activate c m = Some m'"
  shows "running m' = c \<and> eh_globals m' = eh m 0"
  using assms by (auto simp: SavedContext_Activate_def switch_to_def Let_def)

text \<open>Two fibers park while each of them handles an exception of its own; the first one goes on with the other's.\<close>

definition two_handlers :: "nat machine option" where
  "two_handlers =
    (let catch = (\<lambda>e m. Some (m\<lparr>eh_globals := e # eh_globals m\<rparr>))
     in Option.bind (SavedContext_Activate 1 (SavedContext_ctor 2 (SavedContext_ctor 1 (fst ctx_init)))) (\<lambda>m.
        Option.bind (catch 10 m) (\<lambda>m. Option.bind (SavedContext_Activate 0 m) (\<lambda>m.
        Option.bind (SavedContext_Activate 2 m) (\<lambda>m. Option.bind (catch 20 m) (\<lambda>m.
        Option.bind (SavedContext_Activate 0 m) (SavedContext_Activate 1)))))))"

lemma fibers_swap_exceptions: "map_option (\<lambda>m. (running m, eh_globals m)) two_handlers = Some (1, [20])"
  by code_simp

end
