(* ===== verification/Check_Names.thy ===== *)
theory Check_Names
  imports Naming_Rules
begin

text \<open>
  \<open>clang-fun/checker/check_names.cpp\<close>: reading the dictionary, the ten matchers and the loop over the source files.
  Clang is a parameter: for a source file it gives the source manager and the declarations it visits, each with
  what the matchers ask of it.
\<close>

section \<open>The dictionary\<close>

definition is_space :: "char \<Rightarrow> bool" where
  "is_space c \<longleftrightarrow> of_char c \<in> {9, 10, 11, 12, 13, 32 :: nat}"

text \<open>\<open>in >> word\<close>: skip white space, then take what is no white space.\<close>

function read_words :: "string \<Rightarrow> string list" where
  "read_words s =
    (let t = dropWhile is_space s
     in if t = [] then [] else takeWhile (\<lambda>c. \<not> is_space c) t # read_words (dropWhile (\<lambda>c. \<not> is_space c) t))"
  by pat_completeness auto
termination
proof (relation "measure length", simp)
  fix s t assume t: "t = dropWhile is_space s" "t \<noteq> []"
  then have "\<not> is_space (hd t)" using hd_dropWhile [of is_space s] by simp
  then have "length (dropWhile (\<lambda>c. \<not> is_space c) t) < length t"
    using t(2) length_dropWhile_le [of "\<lambda>c. \<not> is_space c" "tl t"] by (cases t) auto
  also have "length t \<le> length s" by (simp add: t(1) length_dropWhile_le)
  finally show "(dropWhile (\<lambda>c. \<not> is_space c) t, s) \<in> measure length" by simp
qed

declare read_words.simps [simp del]

definition ParseDictFile :: "string \<Rightarrow> string list" where
  "ParseDictFile content = read_words content"

lemma read_words_ok: "w \<in> set (read_words s) \<Longrightarrow> w \<noteq> [] \<and> (\<forall>c \<in> set w. \<not> is_space c)"
proof (induction s rule: read_words.induct)
  case (1 s)
  define t where "t = dropWhile is_space s"
  show ?case
  proof (cases "t = []")
    case True
    then show ?thesis using 1(2) by (simp add: read_words.simps [of s] t_def)
  next
    case False
    have h: "\<not> is_space (hd t)" using hd_dropWhile [of is_space s] False by (simp add: t_def)
    have "w = takeWhile (\<lambda>c. \<not> is_space c) t \<or> w \<in> set (read_words (dropWhile (\<lambda>c. \<not> is_space c) t))"
      using 1(2) False by (subst (asm) read_words.simps) (simp add: t_def [symmetric] Let_def)
    moreover have "takeWhile (\<lambda>c. \<not> is_space c) t \<noteq> []" using h False by (cases t) auto
    moreover have "\<forall>c \<in> set (takeWhile (\<lambda>c. \<not> is_space c) t). \<not> is_space c"
      using set_takeWhileD [of _ "\<lambda>c. \<not> is_space c" t] by simp
    ultimately show ?thesis using 1(1) [OF t_def False] by metis
  qed
qed

section \<open>The matchers\<close>

datatype 'l decl_node =
    CXXRecordDecl bool "'l NamedDecl"
  | TypeAliasDecl "'l NamedDecl"
  | TypedefDecl "'l NamedDecl"
  | CXXMethodDecl "'l FunctionDecl"
  | CXXConstructorDecl "'l FunctionDecl"
  | CXXDestructorDecl "'l FunctionDecl"
  | FieldDecl "'l VarDecl"
  | VariableDecl bool "'l VarDecl"
  | FreeFunctionDecl "'l FunctionDecl"
  | EnumDecl "'l NamedDecl"

text \<open>The flags are: a class template specialization, a parameter.\<close>

record 'l decl =
  isImplicit :: bool
  isExpansionInSystemHeader :: bool
  decl_node :: "'l decl_node"

definition no_match :: "'l MatchResult" where
  "no_match = \<lparr>type_decl = None, type_alias_decl = None, type_def_decl = None, method_decl = None,
    construct_decl = None, destruct_decl = None, field_decl = None, variable_decl = None,
    func_decl = None, enum_decl = None\<rparr>"

text \<open>
  What the matcher bound to each name makes of a declaration.  A constructor and a destructor are methods too,
  and a method is a function, for clang: the matchers exclude them.
\<close>

fun match_type :: "'l decl \<Rightarrow> 'l MatchResult option" where
  "match_type d = (case decl_node d of
     CXXRecordDecl specialization n \<Rightarrow>
       if \<not> isImplicit d \<and> \<not> specialization \<and> \<not> isExpansionInSystemHeader d
       then Some (no_match\<lparr>type_decl := Some n\<rparr>) else None
   | _ \<Rightarrow> None)"

fun match_type_alias :: "'l decl \<Rightarrow> 'l MatchResult option" where
  "match_type_alias d = (case decl_node d of
     TypeAliasDecl n \<Rightarrow> if \<not> isImplicit d \<and> \<not> isExpansionInSystemHeader d
       then Some (no_match\<lparr>type_alias_decl := Some n\<rparr>) else None
   | _ \<Rightarrow> None)"

fun match_typedef :: "'l decl \<Rightarrow> 'l MatchResult option" where
  "match_typedef d = (case decl_node d of
     TypedefDecl n \<Rightarrow> if \<not> isImplicit d \<and> \<not> isExpansionInSystemHeader d
       then Some (no_match\<lparr>type_def_decl := Some n\<rparr>) else None
   | _ \<Rightarrow> None)"

fun match_method :: "'l decl \<Rightarrow> 'l MatchResult option" where
  "match_method d = (case decl_node d of
     CXXMethodDecl n \<Rightarrow> if \<not> isImplicit d \<and> \<not> isExpansionInSystemHeader d
       then Some (no_match\<lparr>method_decl := Some n\<rparr>) else None
   | _ \<Rightarrow> None)"

fun match_constructor :: "'l decl \<Rightarrow> 'l MatchResult option" where
  "match_constructor d = (case decl_node d of
     CXXConstructorDecl n \<Rightarrow> if \<not> isImplicit d \<and> \<not> isExpansionInSystemHeader d
       then Some (no_match\<lparr>construct_decl := Some n\<rparr>) else None
   | _ \<Rightarrow> None)"

fun match_destructor :: "'l decl \<Rightarrow> 'l MatchResult option" where
  "match_destructor d = (case decl_node d of
     CXXDestructorDecl n \<Rightarrow> if \<not> isImplicit d \<and> \<not> isExpansionInSystemHeader d
       then Some (no_match\<lparr>destruct_decl := Some n\<rparr>) else None
   | _ \<Rightarrow> None)"

fun match_field :: "'l decl \<Rightarrow> 'l MatchResult option" where
  "match_field d = (case decl_node d of
     FieldDecl n \<Rightarrow> if \<not> isExpansionInSystemHeader d
       then Some (no_match\<lparr>field_decl := Some n\<rparr>) else None
   | _ \<Rightarrow> None)"

fun match_variable :: "'l decl \<Rightarrow> 'l MatchResult option" where
  "match_variable d = (case decl_node d of
     VariableDecl parameter n \<Rightarrow> if \<not> parameter \<and> \<not> isExpansionInSystemHeader d
       then Some (no_match\<lparr>variable_decl := Some n\<rparr>) else None
   | _ \<Rightarrow> None)"

fun match_function :: "'l decl \<Rightarrow> 'l MatchResult option" where
  "match_function d = (case decl_node d of
     FreeFunctionDecl n \<Rightarrow> if \<not> isExpansionInSystemHeader d
       then Some (no_match\<lparr>func_decl := Some n\<rparr>) else None
   | _ \<Rightarrow> None)"

fun match_enum :: "'l decl \<Rightarrow> 'l MatchResult option" where
  "match_enum d = (case decl_node d of
     EnumDecl n \<Rightarrow> if \<not> isExpansionInSystemHeader d
       then Some (no_match\<lparr>enum_decl := Some n\<rparr>) else None
   | _ \<Rightarrow> None)"

definition matchers :: "('l decl \<Rightarrow> 'l MatchResult option) list" where
  "matchers = [match_type, match_type_alias, match_typedef, match_method, match_constructor,
    match_destructor, match_field, match_variable, match_function, match_enum]"

text \<open>The finder tries every matcher on every declaration, in this order.\<close>

definition matches_of :: "'l decl \<Rightarrow> 'l MatchResult list" where
  "matches_of d = List.map_filter (\<lambda>matcher. matcher d) matchers"

definition tool_run :: "'l decl list \<Rightarrow> 'l MatchResult list" where
  "tool_run decls = concat (map matches_of decls)"

section \<open>CheckNames\<close>

definition check_file ::
  "(string \<Rightarrow> 'l SourceManager \<times> 'l decl list) \<Rightarrow> string list \<Rightarrow> string \<Rightarrow> Statistics" where
  "check_file clang dict file_path = GetViolations (fst (clang file_path)) dict (tool_run (snd (clang file_path)))"

text \<open>\<open>None\<close> for the source files: the command line is wrong.  \<open>dict_file\<close> is the content of the dictionary, if given.\<close>

definition CheckNames ::
  "(string \<Rightarrow> 'l SourceManager \<times> 'l decl list) \<Rightarrow> string option \<Rightarrow> string list option \<Rightarrow> string \<rightharpoonup> Statistics" where
  "CheckNames clang dict_file source_paths =
    (let dict = (case dict_file of None \<Rightarrow> [] | Some content \<Rightarrow> ParseDictFile content)
     in case source_paths of
          None \<Rightarrow> Map.empty
        | Some paths \<Rightarrow> fold (\<lambda>file_path res. res(path_filename file_path \<mapsto> check_file clang dict file_path)) paths Map.empty)"

lemma matches_of_cases:
  "matches_of d = (if isExpansionInSystemHeader d then [] else
     case decl_node d of
       CXXRecordDecl specialization n \<Rightarrow> if isImplicit d \<or> specialization then [] else [no_match\<lparr>type_decl := Some n\<rparr>]
     | TypeAliasDecl n \<Rightarrow> if isImplicit d then [] else [no_match\<lparr>type_alias_decl := Some n\<rparr>]
     | TypedefDecl n \<Rightarrow> if isImplicit d then [] else [no_match\<lparr>type_def_decl := Some n\<rparr>]
     | CXXMethodDecl n \<Rightarrow> if isImplicit d then [] else [no_match\<lparr>method_decl := Some n\<rparr>]
     | CXXConstructorDecl n \<Rightarrow> if isImplicit d then [] else [no_match\<lparr>construct_decl := Some n\<rparr>]
     | CXXDestructorDecl n \<Rightarrow> if isImplicit d then [] else [no_match\<lparr>destruct_decl := Some n\<rparr>]
     | FieldDecl n \<Rightarrow> [no_match\<lparr>field_decl := Some n\<rparr>]
     | VariableDecl parameter n \<Rightarrow> if parameter then [] else [no_match\<lparr>variable_decl := Some n\<rparr>]
     | FreeFunctionDecl n \<Rightarrow> [no_match\<lparr>func_decl := Some n\<rparr>]
     | EnumDecl n \<Rightarrow> [no_match\<lparr>enum_decl := Some n\<rparr>])"
  by (simp add: matches_of_def matchers_def map_filter_simps split: decl_node.split)

text \<open>No declaration is reported twice, and none of a system header is.\<close>

lemma matches_of_once: "length (matches_of d) \<le> 1" "isExpansionInSystemHeader d \<Longrightarrow> matches_of d = []"
  by (simp_all add: matches_of_cases split: decl_node.split)

lemma fold_upd_last:
  "fold (\<lambda>x res. res(key x \<mapsto> val x)) xs m k =
    (case find (\<lambda>x. key x = k) (rev xs) of Some x \<Rightarrow> Some (val x) | None \<Rightarrow> m k)"
proof (induction xs arbitrary: m)
  case (Cons x xs)
  have "find P (ys @ [x]) = (case find P ys of Some y \<Rightarrow> Some y | None \<Rightarrow> if P x then Some x else None)" for P ys
    by (induction ys) auto
  then show ?case using Cons by (auto split: option.splits)
qed simp

lemma find_unique:
  assumes "x \<in> set xs" "distinct (map key xs)"
  shows "find (\<lambda>y. key y = key x) (rev xs) = Some x"
  using assms
proof (induction xs rule: rev_induct)
  case (snoc y xs)
  then show ?case by (cases "key y = key x") (auto simp: image_iff)
qed simp

text \<open>
  Of source files with different names, the result for a file holds exactly the names declared in it outside system
  headers that break the rule that governs them.
\<close>

theorem CheckNames_reports:
  assumes "file_path \<in> set paths" "distinct (map path_filename paths)"
  shows "\<exists>st. CheckNames clang dict_file (Some paths) (path_filename file_path) = Some st \<and>
    (\<forall>b. b \<in> set (bad_names st) \<longleftrightarrow>
      (\<exists>d \<in> set (snd (clang file_path)). \<not> isExpansionInSystemHeader d \<and>
        (\<exists>r \<in> set (matches_of d). \<exists>loc pattern entity name shown.
          governed (fst (clang file_path)) r loc pattern entity name shown \<and> name \<notin> lang pattern \<and>
          b = LogBadName (fst (clang file_path)) loc entity shown)))"
proof -
  define dict where "dict = (case dict_file of None \<Rightarrow> [] | Some content \<Rightarrow> ParseDictFile content)"
  let ?st = "check_file clang dict file_path"
  have "CheckNames clang dict_file (Some paths) (path_filename file_path) = Some ?st"
    using find_unique [OF assms] by (simp add: CheckNames_def dict_def fold_upd_last)
  moreover have "b \<in> set (bad_names ?st) \<longleftrightarrow>
      (\<exists>d \<in> set (snd (clang file_path)). \<exists>r \<in> set (matches_of d). \<exists>loc pattern entity name shown.
          governed (fst (clang file_path)) r loc pattern entity name shown \<and> name \<notin> lang pattern \<and>
          b = LogBadName (fst (clang file_path)) loc entity shown)" for b
    using GetViolations_contributes [of "fst (clang file_path)" dict "tool_run (snd (clang file_path))"]
    unfolding check_file_def GetViolations_def contributes_def bad_of_def tool_run_def by simp blast
  moreover have "matches_of d \<noteq> [] \<Longrightarrow> \<not> isExpansionInSystemHeader d" for d using matches_of_once(2) by blast
  ultimately show ?thesis by (metis empty_iff empty_set)
qed

text \<open>Of two source files with the same name in different directories only the last one is reported.\<close>

lemma CheckNames_same_name:
  "path_filename p = path_filename q \<Longrightarrow>
   CheckNames clang dict_file (Some [p, q]) = CheckNames clang dict_file (Some [q])"
  by (simp add: CheckNames_def)

end
