(* ===== verification/Spec2Isabelle.thy ===== *)
theory Spec2Isabelle
  imports Redis_Client Matrix3_Interpreter Matrix2 Hash_Map Timer_Heap Intrusive_List
    Naming_Rules Subset_Sum Executor_Invariant Fibers_Properties Sync_Map Constexpr_Map
    Mpmc_Queue Redis_Sockets Balancer Rpc Net_Clients
    Channels Sync_Primitives Hazard_Stack Mpsc_Queue Ranges Coroutines
    Traits Compile_Eval Contexts Check_Names
begin

text \<open>
  \<^bold>\<open>The program.\<close>  The repository holds the programs of a course on concurrent and modern C++.  Its
  centre is \<^emph>\<open>cactus\<close> (\<open>src/tools/cactus\<close>), a library of cooperative fibers with timers, wait queues,
  mutexes, buffered byte streams, a poller and sockets, and the programs written over it: the RESP
  protocol with a redis server and client (\<open>src/redis\<close>), an rpc transport, a SOCKS proxy, a balancer and
  small network clients.  Beside it stand a thread pool executor (\<open>src/executor\<close>), concurrent containers
  with and without locks, locks, channels and other synchronization primitives, parallel searches, matrix
  programs, a coroutine scheduler, range adaptors, containers and computations evaluated by the
  compiler, and a checker of names in C++ sources (\<open>src/clang-fun\<close>).

  \<^bold>\<open>Theories and sources.\<close>  Definitions keep the names of the functions they translate, and stand in
  the order of the source.

  \<^item> \<open>Prelude\<close>: fact collections, ranges of machine integers, \<open>std::swap\<close> on vector cells, the locale
    \<open>step_system\<close> of transition systems with an invariant.  \<open>Cpp_Numbers\<close>: \<open>std::to_string\<close>,
    \<open>std::stoll\<close> and the conversions between 64-bit integers.
  \<^item> \<open>Timer_Heap\<close> (\<open>core/timer\<close>): the binary heap of timers, each of which stores its own position; the
    abstract timer queue is a map from timers to deadlines (locale \<open>timer_queue\<close>).
  \<^item> \<open>Intrusive_List\<close> (\<open>internal/intrusive_list.h\<close>): the ring of links on an explicit store, refined to
    a list (locale \<open>intrusive_queue\<close>).
  \<^item> \<open>Fibers\<close> (\<open>core/fiber\<close>, \<open>core/scheduler\<close>, \<open>core/group\<close>, \<open>internal/wait_queue\<close>, \<open>sync/mutex\<close>,
    \<open>net/poller\<close>): one record for the scheduler with its fibers, queues, mutexes, groups and watchers.
    A suspended fiber keeps the list of library calls in progress (\<open>frame\<close>), \<open>Park\<close> is split at the
    context switch, and \<open>unwind\<close> runs what the callers of \<open>Park\<close> do afterwards, exceptions included.
    \<open>sched_step\<close> is a call of the running fiber, its end, or a turn of \<open>RunLoop\<close>.  A failed \<open>CHECK\<close> or
    an access to a deleted fiber sets \<open>fault\<close>.  \<open>Fibers_Invariant\<close>, \<open>Fibers_Parking\<close> and
    \<open>Fibers_Steps\<close> hold the invariant and its preservation, \<open>Fibers_Properties\<close> what follows.  The
    timers are those of \<open>Timer_Heap\<close>, used through its interpretation \<open>th\<close>; the intrusive lists of the
    runtime are plain lists, which \<open>Intrusive_List\<close> justifies.
  \<^item> \<open>IO_Reader\<close>, \<open>IO_Writer\<close> (\<open>tools/cactus/io\<close>): \<open>ReadFull\<close>, \<open>ReadAllToString\<close>, \<open>ReadString\<close>,
    \<open>WriteTo\<close> and the buffered readers and writers, over any stream that keeps the laws of the locales
    \<open>stream_reader\<close>, \<open>buffered_reader\<close>, \<open>stream_writer\<close>, \<open>chunk_writer\<close>; the concrete readers and
    writers are their interpretations.
  \<^item> \<open>Resp\<close> (\<open>redis/resp_types.h\<close>, \<open>resp-reader\<close>, \<open>resp-writer\<close>), \<open>Redis_Storage\<close>
    (\<open>redis-server/simple_storage\<close>; locale \<open>storage\<close>), \<open>Redis_Server\<close> (\<open>redis-server/server\<close>) and
    \<open>Redis_Client\<close> (\<open>redis-client/client\<close>): from bytes on the connection to the abstract store, proved
    once for any connection and storage (locales \<open>redis_server\<close>, \<open>redis_connection\<close>).
  \<^item> \<open>Executor\<close>, \<open>Executor_Invariant\<close> (\<open>executor/executor\<close>): tasks with dependencies, triggers and
    deadlines, both queues, futures and their combinators, workers, timer thread and shutdown; the
    locale \<open>finish_relation\<close> gives the induction over the mutually recursive finishing code.
  \<^item> \<open>Hash_Map\<close> (\<open>hash-table/concurrent_hash_map.h\<close>; locale \<open>key_value_map\<close>), \<open>Sync_Map\<close>
    (\<open>sync-map/sync_map.h\<close>; locale \<open>two_phase_map\<close>), \<open>Constexpr_Map\<close> (\<open>constexpr-map\<close>).
  \<^item> \<open>Matrix3\<close>, \<open>Matrix3_Expression\<close>, \<open>Matrix3_Interpreter\<close> (\<open>matrix-3.0\<close>): a language of linear
    assignments and loops, compiled to one matrix over 64-bit words; \<open>Matrix2\<close> (\<open>matrix-2.0\<close>): the
    optimal order of a product of matrices.
  \<^item> \<open>Regex_Match\<close>, \<open>String_Utils\<close>, \<open>Naming_Rules\<close>, \<open>Check_Names\<close> (\<open>clang-fun/checker\<close>): the patterns, the
    edit distance, the splitting into words, the callback over matched declarations, the matchers and
    the loop over the source files.
  \<^item> \<open>Subset_Sum\<close> (\<open>subset-sum\<close>): meeting in the middle, with the eight threads under any schedule.
  \<^item> \<open>Contexts\<close> (\<open>internal/context\<close>): the switch between the scheduler's context and its fibers, with the
    exceptions being handled that a switch saves and restores.
  \<^item> \<open>Net_Address\<close>, \<open>Net_Sockets\<close> (\<open>tools/cactus/net\<close>, \<open>internal/syscall.h\<close>): addresses, connections,
    listeners and packet sockets over any kernel.  The locales \<open>tcp_source\<close>, \<open>tcp_sink\<close> and
    \<open>descriptor_table\<close> say what the kernel promises; over it a socket is a \<open>stream_reader\<close> and a
    \<open>stream_writer\<close> (sublocales), so \<open>Redis_Sockets\<close> serves a redis session over it.  The
    interpretations are on a simulated kernel that interrupts, refuses and cuts calls by a script.
  \<^item> \<open>Socks\<close> (\<open>socks4\<close>, \<open>socksd\<close>; locales \<open>relay\<close>, \<open>socks_connection\<close>), \<open>Balancer\<close> (\<open>balancer\<close>), \<open>Rpc\<close>
    (\<open>tools/cactus/rpc\<close>), \<open>Net_Clients\<close> (\<open>fanout\<close>, \<open>portscan\<close>, \<open>portknock\<close>): the programs over sockets, for
    any connection.
  \<^item> \<open>Interleaving\<close>: threads over a shared memory, any of which makes the next step; the locale
    \<open>thread_invariant\<close> is the rule of Owicki and Gries.  \<open>Monitors\<close>: mutexes with condition variables.
  \<^item> \<open>Mpmc_Queue\<close> (\<open>fast-queue\<close>), \<open>Hazard_Stack\<close> (\<open>hazard-ptr\<close>, \<open>lock-free-stack\<close>), \<open>Mpsc_Queue\<close>
    (\<open>mpsc-queue\<close>), \<open>Locks\<close> (\<open>spinlock\<close>, \<open>rw-spinlock\<close>, \<open>futex\<close>, \<open>rw-counter\<close>): every access to an atomic
    variable is a step.  In \<open>Hazard_Stack\<close> and \<open>Mpsc_Queue\<close> addresses are reused after a deletion and an
    access to a deleted object is a fault.
  \<^item> \<open>Channels\<close> (\<open>buffered-channel\<close>, \<open>unbuffered-channel\<close>), \<open>Sync_Primitives\<close> (\<open>semaphore\<close>, \<open>rw-lock\<close>,
    \<open>timerqueue\<close>): what runs under the mutex is a step, and sleepers may wake by themselves.
  \<^item> \<open>Coroutines\<close> (\<open>coroutine\<close>): the heap functions of the standard library (locale \<open>heap_order\<close>), coroutines
    cut at their suspensions, \<open>Step\<close> and \<open>Run\<close>.
  \<^item> \<open>Ranges\<close> (\<open>ranges\<close>): the views \<open>Take\<close>, \<open>Get\<close> and \<open>Stride\<close> with their iterators; the locale
    \<open>random_access_view\<close> has the laws of an iterator and what a range-based \<open>for\<close> visits.
  \<^item> \<open>Traits\<close> (\<open>sfinae\<close>, \<open>concepts\<close>): code chosen by the properties of a type; the storages of \<open>CleverSet\<close>
    are interpretations of the locale \<open>class_set\<close>.
  \<^item> \<open>Parallel_Numbers\<close> (\<open>is-prime\<close>, \<open>reduce\<close>, \<open>range-sum\<close>), \<open>Compile_Eval\<close> (\<open>compile-eval\<close>).

  \<^bold>\<open>What is proved.\<close>  \<^emph>\<open>Refinements\<close>: sessions of the server refine an abstract store, also over sockets;
  client calls against the server behave as map operations; heap, list, hash table and snapshot map
  refine maps and lists; the lock-free stack and queues are linearizable.  \<^emph>\<open>Invariants under every
  interleaving\<close>: a fiber is in the run queue exactly when it has a reason to run, no \<open>CHECK\<close> of the
  runtime fails, mutexes, channels and the readers-writer lock lose no wake-up; no worker of the executor
  ever blocks, its counters are exact, tasks run once; hazard pointers let no thread access a deleted
  node; the bounded queue is first in first out.  \<^emph>\<open>Functional correctness\<close>: \<open>Run\<close> of the matrix language
  agrees with executing the program, \<open>ComputeOptMultNum\<close> is optimal, the edit distance is the least
  number of edits, subsets are found if they exist, \<open>IsPrime\<close> is right under every schedule, the
  coroutine scheduler makes the choice its documentation asks for, the balancer takes the least loaded
  peer, \<open>Determinant\<close> is the determinant.  \<^emph>\<open>Round trips\<close> of the protocol, of remote calls and of
  \<open>SplitIntoWords\<close>, \<^emph>\<open>bounds\<close> of the protocol reader's buffer, \<^emph>\<open>termination\<close> of the loops, which
  \<^emph>\<open>errors\<close> may be thrown, and which \<^emph>\<open>types\<close> a concept accepts.  Where the code does not do what it means
  to, a lemma gives the run or the input: among others \<open>Semaphore_loses_wakeup\<close>,
  \<open>BufferedChannel_Close_loses_wakeup\<close>, \<open>fibers_swap_exceptions\<close>, \<open>BufferedWriter_Write_long_diverges\<close>,
  \<open>StrideView_empty\<close>, \<open>rpc_unknown_method\<close>, \<open>RangeSum_overflows\<close>.

  \<^bold>\<open>Bounds and fuel.\<close>  Loops are recursive functions with a measure, except: the calls of \<open>OnFinished\<close>,
  with fuel \<open>next_task + 2\<close>, which \<open>OnFinished_returns\<close> proves enough since every nested call finishes
  one more task; the loop over expired timers, with fuel one more than the size of the heap, enough by
  \<open>expire_timers_complete\<close>; \<open>Session\<close> and \<open>BufferedWriter_Write\<close>, which are partial functions into
  \<open>option\<close> whose results are proved to exist (or, for a long \<open>BufferedWriter_Write\<close>, not to).  Matrix
  entries are 64-bit words; redis integers are \<open>int\<close> with the 64-bit conversions written out; the sums
  of \<open>Subset_Sum\<close> are unbounded and its inputs have at most 62 numbers, as the source's shifts need.

  Loops that may never end (\<open>for_each\<close>, \<open>StrideView_loop\<close>, \<open>Scheduler_Run\<close>, \<open>NextPrime_loop\<close>,
  \<open>BinSearchSqrt\<close>, the loops around system calls) are partial functions into \<open>option\<close>, with theorems that
  they return; \<open>IsPrime\<close> returns \<open>None\<close> under a schedule that starves a thread, and \<open>IsPrime_returns\<close> says
  how many steps are enough.

  \<^bold>\<open>Steps and schedules.\<close>  Fibers are cooperative, so a library call up to its context switch is one
  step.  In \<open>Executor\<close> each public call and each turn of a worker is one step, in \<open>Hash_Map\<close> each
  operation under its mutex; \<open>Sync_Map\<close> separates the read of the snapshot from the critical section.
  In the theories over \<open>Interleaving\<close>, in \<open>Hazard_Stack\<close> and \<open>Mpsc_Queue\<close> every access to an atomic variable
  is a step, under a sequentially consistent memory; histories of operations are recorded in the state
  and read by no step.  Programs over the fiber runtime are those that respect the lifetimes of its
  objects (\<open>allowed\<close>); threads call \<open>Pop\<close> of the stack only while registered.

  \<^bold>\<open>Not modelled.\<close>  The assembly of the context switch and the stacks; system calls of sockets and
  \<open>epoll\<close>, which are parameters or inputs of the model; weak memory orders; moves of handles and the
  \<open>where\<close> labels of fibers; writes through the references of a view; the concepts \<open>Predicate\<close> and
  \<open>Indexable\<close>, which only ask the compiler whether an expression is valid; the clang library behind the
  name checker and the rewriting sample \<open>clang-fun/matchers_rewriter.cpp\<close>; the protobuf library behind
  \<open>tools/cactus/rpc\<close> and the generator \<open>gen-rpc\<close>, which prints C++ text from its descriptors;
  \<open>jpeg-decoder\<close>, of which the repository holds only the image container; the helpers of the tests
  (\<open>tools/commons\<close>), tests, benchmarks, examples and lecture samples.
\<close>

end
